(* ===== verification/Prelude.thy ===== *)
theory Prelude
  imports Main "HOL-Library.Word" "HOL-Library.Monad_Syntax"
begin

unbundle bit_operations_syntax

text \<open>
  Shared vocabulary of the development: the integer types of
  \<^verbatim>\<open>kernel/include/rtdef.h\<close>, the error codes, the collections of
  rewrite rules the component theories extend, and the generic facts on lists,
  options and words their proofs use.

  Every kernel operation that can stop the machine is a function into an
  \<open>option\<close> type: \<open>None\<close> is a failed \<^verbatim>\<open>RT_ASSERT\<close> (whose handler
  never returns), a loop that does not end, or an access through a pointer that
  does not point to an object of the expected kind.
\<close>

named_theorems kdefs \<open>definitions of the kernel operations, unfolded on demand\<close>
named_theorems kframe \<open>which fields an operation leaves alone\<close>
named_theorems bitmap \<open>bit-level facts on priorities, masks and status bytes\<close>

type_synonym u8 = "8 word"
type_synonym u16 = "16 word"
type_synonym u32 = "32 word"
type_synonym rt_err = int

subsection \<open>Error codes\<close>

abbreviation (input) RT_EOK :: rt_err where "RT_EOK \<equiv> 0"
abbreviation (input) RT_ERROR :: rt_err where "RT_ERROR \<equiv> 1"
abbreviation (input) RT_ETIMEOUT :: rt_err where "RT_ETIMEOUT \<equiv> 2"
abbreviation (input) RT_EFULL :: rt_err where "RT_EFULL \<equiv> 3"
abbreviation (input) RT_EEMPTY :: rt_err where "RT_EEMPTY \<equiv> 4"
abbreviation (input) RT_ENOMEM :: rt_err where "RT_ENOMEM \<equiv> 5"
abbreviation (input) RT_EBUSY :: rt_err where "RT_EBUSY \<equiv> 7"
abbreviation (input) RT_EIO :: rt_err where "RT_EIO \<equiv> 8"
abbreviation (input) RT_EINTR :: rt_err where "RT_EINTR \<equiv> 9"
abbreviation (input) RT_EINVAL :: rt_err where "RT_EINVAL \<equiv> 10"

subsection \<open>Assertions in the option monad\<close>

definition rt_assert :: "bool \<Rightarrow> unit option" where
  "rt_assert b = (if b then Some () else None)"

lemma rt_assert_simps [simp]:
  "rt_assert True = Some ()"
  "rt_assert False = None"
  "(rt_assert b = Some u) = b"
  "(rt_assert b = None) = (\<not> b)"
  by (auto simp: rt_assert_def)

lemma rt_assert_bind [simp]: "Option.bind (rt_assert b) f = (if b then f () else None)"
  by (simp add: rt_assert_def)

declare Option.bind_eq_Some_conv [simp]

subsection \<open>Lists\<close>

lemma distinct_removeAll_notin [simp]: "x \<notin> set (removeAll x xs)"
  by simp

lemma removeAll_append_single [simp]:
  "x \<notin> set xs \<Longrightarrow> removeAll x (xs @ x # ys) = xs @ removeAll x ys"
  by simp

lemma removeAll_hd: "distinct (x # xs) \<Longrightarrow> removeAll x (x # xs) = xs"
  by simp

lemma list_update_nth_eq: "i < length xs \<Longrightarrow> (xs[i := v]) ! j = (if j = i then v else xs ! j)"
  by (simp add: nth_list_update)

lemma in_set_tlD: "x \<in> set (tl xs) \<Longrightarrow> x \<in> set xs"
  by (cases xs) auto

lemma hd_in_set_iff: "xs \<noteq> [] \<Longrightarrow> hd xs \<in> set xs"
  by simp

subsection \<open>Refinement and invariants of sequences of operations\<close>

text \<open>
  \<open>run step ops s\<close> performs the operations in order; \<open>None\<close> when one of them fails.
\<close>

primrec run :: "('op \<Rightarrow> 's \<Rightarrow> 's option) \<Rightarrow> 'op list \<Rightarrow> 's \<Rightarrow> 's option" where
  "run step [] s = Some s"
| "run step (op # ops) s = Option.bind (step op s) (run step ops)"

text \<open>A data refinement: every legal step of the specification is matched.\<close>

locale simulation =
  fixes R :: "'s \<Rightarrow> 'a \<Rightarrow> bool" and cstep :: "'op \<Rightarrow> 's \<Rightarrow> 's option" and astep :: "'op \<Rightarrow> 'a \<Rightarrow> 'a option"
  assumes step_law: "\<lbrakk>R s a; astep op a = Some a'\<rbrakk> \<Longrightarrow> \<exists>s'. cstep op s = Some s' \<and> R s' a'"
begin

lemma run_refines: "\<lbrakk>R s a; run astep ops a = Some a'\<rbrakk> \<Longrightarrow> \<exists>s'. run cstep ops s = Some s' \<and> R s' a'"
proof (induction ops arbitrary: s a)
  case (Cons op ops)
  then show ?case using step_law [of s a op] by fastforce
qed simp

end

text \<open>An invariant that every operation keeps.\<close>

locale invariant =
  fixes inv :: "'s \<Rightarrow> bool" and step :: "'op \<Rightarrow> 's \<Rightarrow> 's option"
  assumes keeps: "\<lbrakk>inv s; step op s = Some s'\<rbrakk> \<Longrightarrow> inv s'"
begin

lemma run_keeps: "\<lbrakk>inv s; run step ops s = Some s'\<rbrakk> \<Longrightarrow> inv s'"
  using keeps by (induction ops arbitrary: s) auto

end

subsection \<open>32-bit words\<close>

lemma u32_bound: "unat (w :: u32) < 2 ^ 32"
  by (rule order_less_le_trans [OF unsigned_less]) simp

lemma sint_nonneg_unat: "0 \<le> sint (w :: u32) \<Longrightarrow> sint w = int (unat w)"
proof -
  assume "0 \<le> sint w"
  moreover have "sint w < 2 ^ 31" using sint_lt [of w] by simp
  moreover have "uint w = sint w mod 2 ^ 32" by (simp add: uint_sint take_bit_eq_mod)
  ultimately have "uint w = sint w" by simp
  then show ?thesis by simp
qed

end
