(* ===== verification/Rt_List.thy ===== *)
theory Rt_List
  imports Prelude
begin

text \<open>
  The intrusive doubly linked lists of \<^verbatim>\<open>kernel/include/rtservice.h\<close>.
  A store maps every node to its \<open>next\<close> and \<open>prev\<close> pointer; each operation is the
  sequence of assignments of its C body.
\<close>

record 'n dl_heap =
  nxt :: "'n \<Rightarrow> 'n"
  prv :: "'n \<Rightarrow> 'n"

definition set_next :: "'n \<Rightarrow> 'n \<Rightarrow> 'n dl_heap \<Rightarrow> 'n dl_heap" where
  "set_next a b h = h\<lparr>nxt := (nxt h)(a := b)\<rparr>"

definition set_prev :: "'n \<Rightarrow> 'n \<Rightarrow> 'n dl_heap \<Rightarrow> 'n dl_heap" where
  "set_prev a b h = h\<lparr>prv := (prv h)(a := b)\<rparr>"

definition rt_list_init :: "'n \<Rightarrow> 'n dl_heap \<Rightarrow> 'n dl_heap" where
  "rt_list_init l h = set_next l l (set_prev l l h)"

definition rt_list_insert_after :: "'n \<Rightarrow> 'n \<Rightarrow> 'n dl_heap \<Rightarrow> 'n dl_heap" where
  "rt_list_insert_after l n h =
     (let h = set_prev (nxt h l) n h;
          h = set_next n (nxt h l) h;
          h = set_next l n h
      in set_prev n l h)"

definition rt_list_insert_before :: "'n \<Rightarrow> 'n \<Rightarrow> 'n dl_heap \<Rightarrow> 'n dl_heap" where
  "rt_list_insert_before l n h =
     (let h = set_next (prv h l) n h;
          h = set_prev n (prv h l) h;
          h = set_prev l n h
      in set_next n l h)"

definition rt_list_remove :: "'n \<Rightarrow> 'n dl_heap \<Rightarrow> 'n dl_heap" where
  "rt_list_remove n h =
     (let h = set_prev (nxt h n) (prv h n) h;
          h = set_next (prv h n) (nxt h n) h
      in set_next n n (set_prev n n h))"

definition rt_list_isempty :: "'n \<Rightarrow> 'n dl_heap \<Rightarrow> bool" where
  "rt_list_isempty l h = (nxt h l = l)"

text \<open>The loop of \<^verbatim>\<open>rt_list_len\<close>: \<open>None\<close> when following \<open>next\<close> never leads back.\<close>

partial_function (option) rt_list_len_loop ::
  "'n \<Rightarrow> 'n dl_heap \<Rightarrow> 'n \<Rightarrow> u32 \<Rightarrow> u32 option" where
  "rt_list_len_loop l h p len =
     (if nxt h p \<noteq> l then rt_list_len_loop l h (nxt h p) (len + 1) else Some len)"

definition rt_list_len :: "'n \<Rightarrow> 'n dl_heap \<Rightarrow> u32 option" where
  "rt_list_len l h = rt_list_len_loop l h l 0"

lemmas dl_defs = rt_list_init_def rt_list_insert_after_def rt_list_insert_before_def
  rt_list_remove_def rt_list_isempty_def set_next_def set_prev_def Let_def

subsection \<open>Rings\<close>

text \<open>
  \<open>linked h as\<close>: every two neighbours of \<open>as\<close> point to each other.
  \<open>ring h l xs\<close>: the nodes met from the list head \<open>l\<close> are \<open>xs\<close>, without
  repetition, and the last leads back to \<open>l\<close>.
\<close>

fun linked :: "'n dl_heap \<Rightarrow> 'n list \<Rightarrow> bool" where
  "linked h (a # b # as) = (nxt h a = b \<and> prv h b = a \<and> linked h (b # as))"
| "linked h as = True"

definition ring :: "'n dl_heap \<Rightarrow> 'n \<Rightarrow> 'n list \<Rightarrow> bool" where
  "ring h l xs = (distinct (l # xs) \<and> linked h (l # xs @ [l]))"

lemma linked_append:
  "linked h (xs @ a # ys) = (linked h (xs @ [a]) \<and> linked h (a # ys))"
proof (induction xs)
  case Nil
  then show ?case by simp
next
  case (Cons x xs)
  then show ?case by (cases xs) auto
qed

lemma linked_frame:
  assumes "\<forall>a \<in> set (butlast as). nxt h' a = nxt h a"
    and "\<forall>a \<in> set (tl as). prv h' a = prv h a"
  shows "linked h' as = linked h as"
  using assms
proof (induction as rule: linked.induct)
  case (1 h a b as)
  then show ?case by (cases as) auto
qed auto

lemma ring_empty [simp]: "ring h l [] = (nxt h l = l \<and> prv h l = l)"
  by (auto simp: ring_def)

lemma rt_list_init_ring: "ring (rt_list_init l h) l []"
  by (simp add: dl_defs)

lemma ring_isempty:
  assumes "ring h l xs"
  shows "rt_list_isempty l h = (xs = [])"
  using assms by (cases xs) (auto simp: ring_def dl_defs)

lemma ring_next_hd:
  assumes "ring h l (x # xs)"
  shows "nxt h l = x"
  using assms by (simp add: ring_def)

text \<open>A ring is kept by an update of the store that touches none of its nodes.\<close>

lemma ring_frame:
  assumes "\<forall>a \<in> set (l # xs). nxt h' a = nxt h a \<and> prv h' a = prv h a"
  shows "ring h' l xs = ring h l xs"
proof -
  have "linked h' (l # xs @ [l]) = linked h (l # xs @ [l])"
    by (rule linked_frame) (use assms in \<open>auto simp: butlast_append\<close>)
  then show ?thesis by (simp add: ring_def)
qed


subsection \<open>Insertion and removal on segments\<close>

lemma linked_insert:
  assumes "linked h (ps @ a # b # qs)"
    and "a \<notin> set ps" "a \<notin> set (butlast (b # qs))"
    and "b \<notin> set (tl (ps @ [a]))" "b \<notin> set qs"
    and "n \<notin> set (ps @ a # b # qs)"
    and h': "nxt h' = (nxt h)(a := n, n := b)" "prv h' = (prv h)(b := n, n := a)"
  shows "linked h' (ps @ a # n # b # qs)"
proof -
  have n: "n \<noteq> a" "n \<noteq> b" "n \<notin> set ps" "n \<notin> set qs" "n \<notin> set (butlast (b # qs))"
    "n \<notin> set (tl (ps @ [a]))"
    using assms(6) by (auto dest: in_set_butlastD in_set_tlD)
  have "linked h' (ps @ [a]) = linked h (ps @ [a])"
    by (rule linked_frame) (use assms n h' in auto)
  moreover have "linked h' (b # qs) = linked h (b # qs)"
    by (rule linked_frame) (use assms n h' in auto)
  ultimately have "linked h' (ps @ [a])" "linked h' (b # qs)"
    using assms(1) linked_append [of h ps a "b # qs"] by auto
  then show ?thesis
    using n h' linked_append [of h' ps a "n # b # qs"] by auto
qed

lemma linked_delete:
  assumes "linked h (ps @ a # n # b # qs)"
    and "a \<notin> set ps" "a \<notin> set (butlast (b # qs))"
    and "b \<notin> set (tl (ps @ [a]))" "b \<notin> set qs"
    and "n \<notin> set (ps @ a # b # qs)"
    and h': "nxt h' = (nxt h)(a := b, n := n)" "prv h' = (prv h)(b := a, n := n)"
  shows "linked h' (ps @ a # b # qs)"
proof -
  have n: "n \<noteq> a" "n \<noteq> b" "n \<notin> set ps" "n \<notin> set qs" "n \<notin> set (butlast (b # qs))"
    "n \<notin> set (tl (ps @ [a]))"
    using assms(6) by (auto dest: in_set_butlastD in_set_tlD)
  have "linked h' (ps @ [a]) = linked h (ps @ [a])"
    by (rule linked_frame) (use assms n h' in auto)
  moreover have "linked h' (b # qs) = linked h (b # qs)"
    by (rule linked_frame) (use assms n h' in auto)
  ultimately have "linked h' (ps @ [a])" "linked h' (b # qs)"
    using assms(1) linked_append [of h ps a "n # b # qs"] by auto
  then show ?thesis
    using n h' linked_append [of h' ps a "b # qs"] by auto
qed

text \<open>
  A ring cut at a place: the node \<open>a\<close> before it and the node \<open>b\<close> after it. The
  head plays both parts where the place is at an end.
\<close>

lemma ring_cut:
  assumes "distinct (l # xs @ ys)"
  obtains ps a b qs where "l # xs = ps @ [a]" "ys @ [l] = b # qs" "a = last (l # xs)"
    "b = hd (ys @ [l])"
    "a \<notin> set ps" "a \<notin> set (butlast (b # qs))" "b \<notin> set (tl (ps @ [a]))" "b \<notin> set qs"
proof -
  obtain ps a where 1: "l # xs = ps @ [a]"
    by (metis append_butlast_last_id list.distinct(1))
  obtain b qs where 2: "ys @ [l] = b # qs"
    by (cases ys) auto
  have last: "a = last (l # xs)" and hd: "b = hd (ys @ [l])"
    unfolding 1 2 by auto
  have "distinct ((l # xs) @ ys)" using assms by simp
  then have d1: "distinct (ps @ [a] @ ys)" unfolding 1 by simp
  have "distinct (xs @ (ys @ [l]))" using assms by auto
  then have d2: "distinct (xs @ b # qs)" unfolding 2 .
  have 3: "butlast (b # qs) = ys" unfolding 2 [symmetric] by simp
  have 4: "tl (ps @ [a]) = xs" unfolding 1 [symmetric] by simp
  show ?thesis
    by (rule that [OF 1 2 last hd]) (use d1 d2 in \<open>unfold 3 4, auto\<close>)
qed

lemma ring_insert_after:
  assumes "ring h l (xs @ ys)" and "n \<notin> set (l # xs @ ys)"
  shows "ring (rt_list_insert_after (last (l # xs)) n h) l (xs @ n # ys)"
proof -
  from assms(1) have d: "distinct (l # xs @ ys)" by (simp add: ring_def)
  obtain ps a b qs where c: "l # xs = ps @ [a]" "ys @ [l] = b # qs" "a = last (l # xs)"
    "a \<notin> set ps" "a \<notin> set (butlast (b # qs))" "b \<notin> set (tl (ps @ [a]))" "b \<notin> set qs"
    using ring_cut [OF d] by metis
  have eq: "l # xs @ ys @ [l] = ps @ a # b # qs"
    using c(1,2) by (metis append_Cons append_assoc append_Nil)
  have L: "linked h (ps @ a # b # qs)"
    using assms(1) eq by (simp add: ring_def)
  have nin: "n \<notin> set (ps @ a # b # qs)"
    using assms(2) arg_cong [OF eq, of set] by auto
  have ab: "nxt h a = b" using L linked_append [of h ps a "b # qs"] by simp
  let ?h = "rt_list_insert_after a n h"
  have "linked ?h (ps @ a # n # b # qs)"
    by (rule linked_insert [OF L c(4-7) nin])
       (use ab nin in \<open>auto simp: dl_defs fun_upd_twist fun_eq_iff\<close>)
  moreover have "l # (xs @ n # ys) @ [l] = ps @ a # n # b # qs"
    using c(1,2) by (metis append_Cons append_assoc append_Nil)
  ultimately show ?thesis using assms d c(3) by (auto simp: ring_def)
qed

lemma ring_insert_before:
  assumes "ring h l (xs @ ys)" and "n \<notin> set (l # xs @ ys)"
  shows "ring (rt_list_insert_before (hd (ys @ [l])) n h) l (xs @ n # ys)"
proof -
  from assms(1) have d: "distinct (l # xs @ ys)" by (simp add: ring_def)
  obtain ps a b qs where c: "l # xs = ps @ [a]" "ys @ [l] = b # qs" "a = last (l # xs)"
    "b = hd (ys @ [l])"
    using ring_cut [OF d] by metis
  have eq: "l # xs @ ys @ [l] = ps @ a # b # qs"
    using c(1,2) by (metis append_Cons append_assoc append_Nil)
  have ab: "nxt h a = b \<and> prv h b = a"
    using assms(1) eq linked_append [of h ps a "b # qs"] by (simp add: ring_def)
  have nn: "n \<noteq> a" "n \<noteq> b"
    using assms(2) arg_cong [OF eq, of set] by auto
  have "rt_list_insert_before b n h = rt_list_insert_after a n h"
    using ab nn by (auto simp: dl_defs fun_upd_twist)
  then show ?thesis using ring_insert_after [OF assms] c(3,4) by simp
qed

lemma ring_remove:
  assumes "ring h l (xs @ n # ys)"
  shows "ring (rt_list_remove n h) l (xs @ ys)"
    and "ring (rt_list_remove n h) n []"
proof -
  from assms have d: "distinct (l # xs @ ys)" and nin: "n \<notin> set (l # xs @ ys)"
    by (auto simp: ring_def)
  obtain ps a b qs where c: "l # xs = ps @ [a]" "ys @ [l] = b # qs"
    "a \<notin> set ps" "a \<notin> set (butlast (b # qs))" "b \<notin> set (tl (ps @ [a]))" "b \<notin> set qs"
    using ring_cut [OF d] by metis
  have eq: "l # xs @ ys @ [l] = ps @ a # b # qs"
    using c(1,2) by (metis append_Cons append_assoc append_Nil)
  have "l # (xs @ n # ys) @ [l] = ps @ a # n # b # qs"
    using c(1,2) by (metis append_Cons append_assoc append_Nil)
  with assms have L: "linked h (ps @ a # n # b # qs)" by (simp add: ring_def)
  have nin': "n \<notin> set (ps @ a # b # qs)"
    using nin arg_cong [OF eq, of set] by auto
  have an: "nxt h a = n \<and> prv h n = a \<and> nxt h n = b \<and> prv h b = n"
    using L linked_append [of h ps a "n # b # qs"] by simp
  let ?h = "rt_list_remove n h"
  have "linked ?h (ps @ a # b # qs)"
    by (rule linked_delete [OF L c(3-6) nin'])
       (use an nin' in \<open>auto simp: dl_defs fun_upd_twist fun_eq_iff\<close>)
  then show "ring ?h l (xs @ ys)" using d eq by (simp add: ring_def)
  show "ring ?h n []" using an nin' by (auto simp: dl_defs)
qed


subsection \<open>A family of lists in one store\<close>

text \<open>
  The kernel keeps many lists in one memory: a head per list and a node inside
  every element. An element is on one list at most, and a node that is on none
  points to itself (\<^verbatim>\<open>rt_list_init\<close> and \<^verbatim>\<open>rt_list_remove\<close> leave it so).
\<close>

datatype ('h, 'e) lnode = Head 'h | Elem 'e

definition rep :: "('h, 'e) lnode dl_heap \<Rightarrow> ('h \<Rightarrow> 'e list) \<Rightarrow> bool" where
  "rep h L = ((\<forall>a. ring h (Head a) (map Elem (L a))) \<and>
     (\<forall>a b e. e \<in> set (L a) \<longrightarrow> e \<in> set (L b) \<longrightarrow> a = b) \<and>
     (\<forall>e. (\<forall>a. e \<notin> set (L a)) \<longrightarrow> ring h (Elem e) []))"

fun ins_before :: "'e \<Rightarrow> 'e \<Rightarrow> 'e list \<Rightarrow> 'e list" where
  "ins_before x e [] = []"
| "ins_before x e (y # ys) = (if y = x then e # y # ys else y # ins_before x e ys)"

definition q_append :: "'h \<Rightarrow> 'e \<Rightarrow> ('h \<Rightarrow> 'e list) \<Rightarrow> 'h \<Rightarrow> 'e list" where
  "q_append a e L = L(a := L a @ [e])"

definition q_push :: "'h \<Rightarrow> 'e \<Rightarrow> ('h \<Rightarrow> 'e list) \<Rightarrow> 'h \<Rightarrow> 'e list" where
  "q_push a e L = L(a := e # L a)"

definition q_remove :: "'e \<Rightarrow> ('h \<Rightarrow> 'e list) \<Rightarrow> 'h \<Rightarrow> 'e list" where
  "q_remove e L = (\<lambda>a. removeAll e (L a))"

definition q_linked :: "'e \<Rightarrow> ('h \<Rightarrow> 'e list) \<Rightarrow> bool" where
  "q_linked e L = (\<exists>a. e \<in> set (L a))"

definition q_ok :: "('h \<Rightarrow> 'e list) \<Rightarrow> bool" where
  "q_ok L = ((\<forall>a. distinct (L a)) \<and> (\<forall>a b e. e \<in> set (L a) \<longrightarrow> e \<in> set (L b) \<longrightarrow> a = b))"

lemma rep_q_ok: "rep h L \<Longrightarrow> q_ok L"
  unfolding rep_def q_ok_def ring_def by (auto simp: distinct_map)

lemma ring_closed:
  assumes "ring h l xs" and "x \<in> set (l # xs)"
  shows "nxt h x \<in> set (l # xs)" and "prv h x \<in> set (l # xs)"
proof -
  have *: "\<lbrakk>linked h as; x \<in> set (butlast as)\<rbrakk> \<Longrightarrow> nxt h x \<in> set as"
    "\<lbrakk>linked h as; x \<in> set (tl as)\<rbrakk> \<Longrightarrow> prv h x \<in> set as" for as
    by (induction as rule: linked.induct) (auto split: if_splits)
  have L: "linked h (l # xs @ [l])" using assms(1) by (simp add: ring_def)
  show "nxt h x \<in> set (l # xs)"
    using *(1) [OF L] assms(2) by (auto simp: butlast_append)
  show "prv h x \<in> set (l # xs)"
    using *(2) [OF L] assms(2) by auto
qed

lemma insert_after_frame:
  "x \<notin> {l, nxt h l, n} \<Longrightarrow>
   nxt (rt_list_insert_after l n h) x = nxt h x \<and> prv (rt_list_insert_after l n h) x = prv h x"
  by (auto simp: dl_defs)

lemma insert_before_frame:
  "x \<notin> {l, prv h l, n} \<Longrightarrow>
   nxt (rt_list_insert_before l n h) x = nxt h x \<and> prv (rt_list_insert_before l n h) x = prv h x"
  by (auto simp: dl_defs)

lemma remove_frame:
  "x \<notin> {n, nxt h n, prv h n} \<Longrightarrow>
   nxt (rt_list_remove n h) x = nxt h x \<and> prv (rt_list_remove n h) x = prv h x"
  by (auto simp: dl_defs split: if_splits)

text \<open>The nodes of different lists, and the unlinked nodes, are apart.\<close>

lemma rep_apart:
  assumes "rep h L" and "a \<noteq> b"
  shows "set (Head a # map Elem (L a)) \<inter> set (Head b # map Elem (L b)) = {}"
  using assms unfolding rep_def by auto

lemma rep_update:
  assumes R: "rep h L" and new: "ring h' (Head a) (map Elem xs)"
    and touch: "\<And>x. x \<notin> set (Head a # map Elem (L a)) \<Longrightarrow> x \<noteq> Elem e \<Longrightarrow>
      nxt h' x = nxt h x \<and> prv h' x = prv h x"
    and fresh: "\<not> q_linked e L"
    and xs: "set xs = insert e (set (L a))"
  shows "rep h' (L(a := xs))"
proof -
  have fr: "e \<notin> set (L b)" for b using fresh by (auto simp: q_linked_def)
  have "ring h' (Head b) (map Elem (L b))" if "b \<noteq> a" for b
  proof -
    have "\<forall>x \<in> set (Head b # map Elem (L b)). nxt h' x = nxt h x \<and> prv h' x = prv h x"
      using rep_apart [OF R that] fr [of b] by (intro ballI touch) auto
    then show ?thesis using R ring_frame unfolding rep_def by metis
  qed
  moreover have "ring h' (Elem x) []" if "x \<noteq> e" "\<forall>b. b \<noteq> a \<longrightarrow> x \<notin> set (L b)" "x \<notin> set xs" for x
  proof -
    have "ring h (Elem x) []" using R that xs unfolding rep_def by (metis insertCI)
    moreover have "nxt h' (Elem x) = nxt h (Elem x) \<and> prv h' (Elem x) = prv h (Elem x)"
      using that xs by (intro touch) auto
    ultimately show ?thesis by simp
  qed
  moreover have "x \<in> set (L b) \<Longrightarrow> x \<in> set (L c) \<Longrightarrow> b = c" for x b c
    using R unfolding rep_def by blast
  ultimately show ?thesis
    unfolding rep_def using new xs fr by (auto split: if_splits)
qed

lemma rep_append:
  assumes "rep h L" and "\<not> q_linked e L"
  shows "rep (rt_list_insert_before (Head a) (Elem e) h) (q_append a e L)"
  unfolding q_append_def
proof (rule rep_update [OF assms(1) _ _ assms(2)])
  have r: "ring h (Head a) (map Elem (L a))" using assms(1) unfolding rep_def by blast
  have e: "Elem e \<notin> set (Head a # map Elem (L a))" using assms(2) by (auto simp: q_linked_def)
  show "ring (rt_list_insert_before (Head a) (Elem e) h) (Head a) (map Elem (L a @ [e]))"
    using ring_insert_before [of h "Head a" "map Elem (L a)" "[]" "Elem e"] r e by simp
  show "nxt (rt_list_insert_before (Head a) (Elem e) h) x = nxt h x \<and>
      prv (rt_list_insert_before (Head a) (Elem e) h) x = prv h x"
    if "x \<notin> set (Head a # map Elem (L a))" "x \<noteq> Elem e" for x
    using ring_closed(2) [OF r, of "Head a"] that by (intro insert_before_frame) auto
qed auto

lemma rep_push:
  assumes "rep h L" and "\<not> q_linked e L"
  shows "rep (rt_list_insert_after (Head a) (Elem e) h) (q_push a e L)"
  unfolding q_push_def
proof (rule rep_update [OF assms(1) _ _ assms(2)])
  have r: "ring h (Head a) (map Elem (L a))" using assms(1) unfolding rep_def by blast
  have e: "Elem e \<notin> set (Head a # map Elem (L a))" using assms(2) by (auto simp: q_linked_def)
  show "ring (rt_list_insert_after (Head a) (Elem e) h) (Head a) (map Elem (e # L a))"
    using ring_insert_after [of h "Head a" "[]" "map Elem (L a)" "Elem e"] r e by simp
  show "nxt (rt_list_insert_after (Head a) (Elem e) h) x = nxt h x \<and>
      prv (rt_list_insert_after (Head a) (Elem e) h) x = prv h x"
    if "x \<notin> set (Head a # map Elem (L a))" "x \<noteq> Elem e" for x
    using ring_closed(1) [OF r, of "Head a"] that by (intro insert_after_frame) auto
qed auto

lemma set_ins_before: "x \<in> set xs \<Longrightarrow> set (ins_before x e xs) = insert e (set xs)"
  by (induction xs) auto

lemma ins_before_split: "x \<notin> set ps \<Longrightarrow> ins_before x e (ps @ x # qs) = ps @ e # x # qs"
  by (induction ps) auto

lemma rep_insert_before_elem:
  assumes "rep h L" and "\<not> q_linked e L" and "x \<in> set (L a)"
  shows "rep (rt_list_insert_before (Elem x) (Elem e) h) (L(a := ins_before x e (L a)))"
proof (rule rep_update [OF assms(1) _ _ assms(2)])
  have r: "ring h (Head a) (map Elem (L a))" using assms(1) unfolding rep_def by blast
  have e: "Elem e \<notin> set (Head a # map Elem (L a))" using assms(2) by (auto simp: q_linked_def)
  obtain ps qs where p: "L a = ps @ x # qs" "x \<notin> set ps"
    using assms(3) by (metis split_list_first)
  show "ring (rt_list_insert_before (Elem x) (Elem e) h) (Head a) (map Elem (ins_before x e (L a)))"
    using ring_insert_before [of h "Head a" "map Elem ps" "map Elem (x # qs)" "Elem e"] r e p
    by (simp add: ins_before_split)
  show "nxt (rt_list_insert_before (Elem x) (Elem e) h) y = nxt h y \<and>
      prv (rt_list_insert_before (Elem x) (Elem e) h) y = prv h y"
    if "y \<notin> set (Head a # map Elem (L a))" "y \<noteq> Elem e" for y
    using ring_closed(2) [OF r, of "Elem x"] that assms(3) by (intro insert_before_frame) auto
  show "set (ins_before x e (L a)) = insert e (set (L a))"
    using assms(3) by (rule set_ins_before)
qed

lemma remove_self: "ring h n [] \<Longrightarrow> rt_list_remove n h = (h :: 'n dl_heap)"
  by (cases h) (auto simp: dl_defs)

lemma rep_remove:
  assumes R: "rep h L"
  shows "rep (rt_list_remove (Elem e) h) (q_remove e L)"
proof (cases "q_linked e L")
  case False
  then have "q_remove e L = L" by (auto simp: q_remove_def q_linked_def)
  moreover have "ring h (Elem e) []" using R False unfolding rep_def q_linked_def by blast
  ultimately show ?thesis using R remove_self by metis
next
  case True
  then obtain a where a: "e \<in> set (L a)" by (auto simp: q_linked_def)
  have only: "e \<notin> set (L b)" if "b \<noteq> a" for b using R a that unfolding rep_def by blast
  have r: "ring h (Head a) (map Elem (L a))" using R unfolding rep_def by blast
  obtain ps qs where p: "L a = ps @ e # qs" "e \<notin> set ps"
    using a by (metis split_list_first)
  let ?h = "rt_list_remove (Elem e) h"
  have rr: "ring ?h (Head a) (map Elem ps @ map Elem qs)" "ring ?h (Elem e) []"
    using ring_remove [of h "Head a" "map Elem ps" "Elem e" "map Elem qs"] r p by auto
  have "e \<notin> set qs" using r p by (auto simp: ring_def)
  then have la: "removeAll e (L a) = ps @ qs" using p by simp
  have same: "nxt ?h x = nxt h x \<and> prv ?h x = prv h x"
    if "x \<notin> set (Head a # map Elem (L a))" for x
    using ring_closed [OF r, of "Elem e"] that a by (intro remove_frame) auto
  have others: "ring ?h (Head b) (map Elem (L b))" if "b \<noteq> a" for b
  proof -
    have "\<forall>x \<in> set (Head b # map Elem (L b)). nxt ?h x = nxt h x \<and> prv ?h x = prv h x"
      using rep_apart [OF R that] by (intro ballI same) auto
    then show ?thesis using R ring_frame unfolding rep_def by metis
  qed
  have "ring ?h (Elem x) []" if x: "\<forall>b. x \<notin> set (q_remove e L b)" for x
  proof (cases "x = e")
    case False
    then have "\<forall>b. x \<notin> set (L b)" using x by (auto simp: q_remove_def)
    moreover from this have "ring h (Elem x) []" using R unfolding rep_def by blast
    ultimately show ?thesis using same [of "Elem x"] by force
  qed (use rr in simp)
  moreover have "ring ?h (Head b) (map Elem (q_remove e L b))" for b
    using others [of b] only [of b] rr la by (cases "b = a") (auto simp: q_remove_def)
  moreover have "x \<in> set (L b) \<Longrightarrow> x \<in> set (L c) \<Longrightarrow> b = c" for x b c
    using R unfolding rep_def by blast
  ultimately show ?thesis unfolding rep_def by (auto simp: q_remove_def)
qed

text \<open>The length loop ends on every ring and counts its nodes.\<close>

lemma len_loop_linked:
  "\<lbrakk>linked h (p # xs @ [l]); l \<notin> set xs\<rbrakk> \<Longrightarrow>
   rt_list_len_loop l h p k = Some (k + of_nat (length xs))"
proof (induction xs arbitrary: p k)
  case Nil
  then show ?case by (simp add: rt_list_len_loop.simps)
next
  case (Cons x xs)
  then show ?case
    by (subst rt_list_len_loop.simps) (auto simp: add.assoc)
qed

lemma ring_len: "ring h l xs \<Longrightarrow> rt_list_len l h = Some (of_nat (length xs))"
  using len_loop_linked [of h l xs l 0] by (simp add: rt_list_len_def ring_def)

subsection \<open>Sequences of list operations\<close>

text \<open>
  What the kernel does with its lists: link an element at either end or in front of
  another element, and unlink it. The specification works on plain lists and refuses
  to link an element twice.
\<close>

datatype ('h, 'e) lop = At_End 'h 'e | At_Front 'h 'e | In_Front_Of 'h 'e 'e | Unlink 'e

definition list_exec :: "('h, 'e) lop \<Rightarrow> ('h, 'e) lnode dl_heap \<Rightarrow> ('h, 'e) lnode dl_heap option" where
  "list_exec op h = Some (case op of
      At_End a e \<Rightarrow> rt_list_insert_before (Head a) (Elem e) h
    | At_Front a e \<Rightarrow> rt_list_insert_after (Head a) (Elem e) h
    | In_Front_Of a x e \<Rightarrow> rt_list_insert_before (Elem x) (Elem e) h
    | Unlink e \<Rightarrow> rt_list_remove (Elem e) h)"

definition list_spec :: "('h, 'e) lop \<Rightarrow> ('h \<Rightarrow> 'e list) \<Rightarrow> ('h \<Rightarrow> 'e list) option" where
  "list_spec op L = (case op of
      At_End a e \<Rightarrow> if q_linked e L then None else Some (q_append a e L)
    | At_Front a e \<Rightarrow> if q_linked e L then None else Some (q_push a e L)
    | In_Front_Of a x e \<Rightarrow>
        if q_linked e L \<or> x \<notin> set (L a) then None else Some (L(a := ins_before x e (L a)))
    | Unlink e \<Rightarrow> Some (q_remove e L))"

interpretation list_ops: simulation rep list_exec list_spec
  by unfold_locales
     (auto simp: list_spec_def list_exec_def split: lop.splits if_splits
        intro: rep_append rep_push rep_insert_before_elem rep_remove)

subsection \<open>The lists of the kernel\<close>

text \<open>C3: Any sequence of list operations on the pointers does what the same sequence does to
  plain lists: linking at either end, in front of an element, and unlinking. After it every
  list reads back in order, its emptiness test is right and its length loop ends with the
  number of its elements (in 32 bits).\<close>

theorem list_ops_refine:
  assumes "rep h L" and "run list_spec ops L = Some L'"
  shows "\<exists>h'. run list_exec ops h = Some h' \<and> rep h' L' \<and>
     (\<forall>a. rt_list_isempty (Head a) h' = (L' a = []) \<and>
       rt_list_len (Head a) h' = Some (of_nat (length (L' a))))"
proof -
  obtain h' where h': "run list_exec ops h = Some h'" "rep h' L'"
    using list_ops.run_refines [OF assms] by blast
  have "ring h' (Head a) (map Elem (L' a))" for a using h'(2) unfolding rep_def by blast
  then show ?thesis using h' ring_isempty ring_len by fastforce
qed

theorem list_ops_refine_witness:
  "\<exists>h'. run list_exec [At_End True 1, At_Front True 2, In_Front_Of True 1 3, Unlink 2, At_End False 2]
       (\<lparr>nxt = id, prv = id\<rparr> :: (bool, nat) lnode dl_heap) = Some h' \<and>
     rep h' (\<lambda>a. if a then [3, 1] else [2]) \<and>
     (\<forall>a. rt_list_isempty (Head a) h' = ((if a then [3, 1] else [2 :: nat]) = []) \<and>
       rt_list_len (Head a) h' = Some (of_nat (length (if a then [3, 1] else [2 :: nat]))))"
proof (rule list_ops_refine)
  show "rep (\<lparr>nxt = id, prv = id\<rparr> :: (bool, nat) lnode dl_heap) (\<lambda>_. [])" by (simp add: rep_def)
  show "run list_spec [At_End True 1, At_Front True 2, In_Front_Of True 1 3, Unlink 2, At_End False 2]
      (\<lambda>_. []) = Some (\<lambda>a. if a then [3, 1] else [2 :: nat])"
    by (auto simp: list_spec_def q_linked_def q_append_def q_push_def q_remove_def fun_eq_iff)
qed

end
