(* ===== verification/Kernel_State.thy ===== *)
theory Kernel_State
  imports Rt_List
begin

unbundle bit_operations_syntax

text \<open>
  The data of the kernel: the structures of \<^verbatim>\<open>kernel/include/rtdef.h\<close> and
  the global variables of \<^verbatim>\<open>kernel/src\<close>, for the uniprocessor configuration
  of the shipped defconfigs (256 priorities, \<^verbatim>\<open>RT_NAME_MAX\<close> 16, timer skip
  list of one level, hooks unset).

  An object is named by its address: \<open>Obj a\<close> for a structure at \<open>a\<close>, and
  \<open>TTimer t\<close> for the timer embedded in the thread structure at \<open>t\<close>. The header of
  every object (\<^verbatim>\<open>struct rt_object\<close>) is in \<open>objects\<close>; the rest of each
  structure is in the map of its kind. The lists that run through
  \<^verbatim>\<open>thread->tlist\<close> are in \<open>tlists\<close>, one per list head; \<open>on_list t\<close> is the
  list whose pointers the node of \<open>t\<close> is linked into.
\<close>

datatype oref = Obj nat | TTimer nat

datatype lhead = ReadyQ nat | SemQ nat | MutexQ nat | EventQ nat | MbQ nat | MbSendQ nat
  | MqQ nat | MqSendQ nat | MpQ nat | CompQ nat | DqPushQ nat | DqPopQ nat | DefunctQ

record rt_object =
  obj_name :: "u8 list"
  obj_type :: u8
  obj_flag :: u8

datatype timeout_fn = Thread_Timeout nat | User_Timeout nat

record rt_timer =
  tm_func :: timeout_fn
  tm_init_tick :: u32
  tm_timeout_tick :: u32

record rt_thread =
  sp :: u32
  stack_addr :: u32
  stack_size :: u32
  stack_guard :: u8
  th_error :: rt_err
  stat :: u8
  current_priority :: u8
  init_priority :: u8
  number :: u8
  high_mask :: u8
  number_mask :: u32
  event_set :: u32
  event_info :: u8
  th_init_tick :: u32
  remaining_tick :: u32
  cleanup :: bool
  th_lock :: "nat option"

record rt_semaphore =
  sem_value :: u16

record rt_mutex =
  mutex_value :: u16
  original_priority :: u8
  hold :: u8
  owner :: "nat option"

record rt_event =
  ev_set :: u32

record rt_mailbox =
  msg_pool :: "u32 list"
  mb_size :: u16
  mb_entry :: u16
  in_offset :: u16
  out_offset :: u16

record rt_messagequeue =
  mq_msg_size :: u16
  mq_max_msgs :: u16
  mq_entry :: u16
  mq_next :: "nat \<Rightarrow> nat option"
  mq_data :: "nat \<Rightarrow> u8 list"
  mq_head :: "nat option"
  mq_tail :: "nat option"
  mq_free :: "nat option"

datatype block_word = Link "nat option" | Owner nat

record rt_mempool =
  mp_size :: u32
  mp_block_size :: u32
  mp_block_list :: "nat option"
  mp_total_count :: u32
  mp_free_count :: u32
  mp_suspend_count :: u32
  mp_blocks :: "nat \<Rightarrow> block_word"

text \<open>The structures of \<^verbatim>\<open>kernel/include/ipc\<close> that are no kernel objects. A work and a node of a wait queue are
  linked into at most one list each; \<open>work_on\<close> and \<open>node_on\<close> name it.\<close>

record rt_completion =
  comp_flag :: u32

record rt_data_queue =
  dq_size :: u16
  dq_lwm :: u16
  dq_get :: u16
  dq_put :: u16
  dq_items :: "(u32 \<times> u32) list"
  dq_notify :: "nat option"

record rt_workqueue =
  work_list :: "nat list"
  work_current :: "nat option"
  wq_sem :: nat
  work_thread :: nat

datatype wakeup_fn = Default_Wake | User_Wake nat

record rt_wqueue_node =
  polling_thread :: nat
  node_wakeup :: wakeup_fn

record rt_wqueue =
  wqueue_flag :: u32
  waiting_list :: "nat list"

record rt_device =
  dev_class :: u32
  dev_flag :: u16
  open_flag :: u16
  ref_count :: u8
  rx_indicate :: "nat option"
  tx_complete :: "nat option"
  dev_init :: "nat option"
  dev_open :: "nat option"
  dev_close :: "nat option"
  dev_read :: "nat option"
  dev_write :: "nat option"
  dev_control :: "nat option"

record kernel =
  objects :: "oref \<Rightarrow> rt_object"
  containers :: "nat \<Rightarrow> oref list"
  threads :: "nat \<Rightarrow> rt_thread"
  timers :: "oref \<Rightarrow> rt_timer"
  sems :: "nat \<Rightarrow> rt_semaphore"
  mutexes :: "nat \<Rightarrow> rt_mutex"
  events :: "nat \<Rightarrow> rt_event"
  mailboxes :: "nat \<Rightarrow> rt_mailbox"
  msgqueues :: "nat \<Rightarrow> rt_messagequeue"
  mempools :: "nat \<Rightarrow> rt_mempool"
  completions :: "nat \<Rightarrow> rt_completion"
  dqueues :: "nat \<Rightarrow> rt_data_queue"
  workqueues :: "nat \<Rightarrow> rt_workqueue"
  work_on :: "nat \<Rightarrow> nat option"
  wqueues :: "nat \<Rightarrow> rt_wqueue"
  wait_nodes :: "nat \<Rightarrow> rt_wqueue_node"
  node_on :: "nat \<Rightarrow> nat option"
  devices :: "nat \<Rightarrow> rt_device"
  tlists :: "lhead \<Rightarrow> nat list"
  on_list :: "nat \<Rightarrow> lhead option"
  timer_list :: "oref list"
  soft_timer_list :: "oref list"
  ready_table :: "u8 list"
  ready_group :: u32
  cur_thread :: "nat option"
  cur_priority :: u8
  lock_nest :: u16
  irq_nest :: u8
  tick :: u32
  tick_uptime :: "64 word"
  pts :: u32
  sys_total_ticks :: u32
  idl_total_ticks :: u32
  prev_calc_ticks :: u32
  timer_thread :: nat
  rt_errno :: rt_err

subsection \<open>Constants\<close>

abbreviation (input) RT_Object_Class_Thread :: u8 where "RT_Object_Class_Thread \<equiv> 1"
abbreviation (input) RT_Object_Class_Semaphore :: u8 where "RT_Object_Class_Semaphore \<equiv> 2"
abbreviation (input) RT_Object_Class_Mutex :: u8 where "RT_Object_Class_Mutex \<equiv> 3"
abbreviation (input) RT_Object_Class_Event :: u8 where "RT_Object_Class_Event \<equiv> 4"
abbreviation (input) RT_Object_Class_MailBox :: u8 where "RT_Object_Class_MailBox \<equiv> 5"
abbreviation (input) RT_Object_Class_MessageQueue :: u8 where "RT_Object_Class_MessageQueue \<equiv> 6"
abbreviation (input) RT_Object_Class_MemPool :: u8 where "RT_Object_Class_MemPool \<equiv> 8"
abbreviation (input) RT_Object_Class_Device :: u8 where "RT_Object_Class_Device \<equiv> 9"
abbreviation (input) RT_Object_Class_Timer :: u8 where "RT_Object_Class_Timer \<equiv> 10"
abbreviation (input) RT_Object_Class_Unknown :: u8 where "RT_Object_Class_Unknown \<equiv> 12"
abbreviation (input) RT_Object_Class_Static :: u8 where "RT_Object_Class_Static \<equiv> 0x80"

abbreviation (input) RT_THREAD_INIT :: u8 where "RT_THREAD_INIT \<equiv> 0"
abbreviation (input) RT_THREAD_READY :: u8 where "RT_THREAD_READY \<equiv> 1"
abbreviation (input) RT_THREAD_SUSPEND :: u8 where "RT_THREAD_SUSPEND \<equiv> 2"
abbreviation (input) RT_THREAD_RUNNING :: u8 where "RT_THREAD_RUNNING \<equiv> 3"
abbreviation (input) RT_THREAD_CLOSE :: u8 where "RT_THREAD_CLOSE \<equiv> 4"
abbreviation (input) RT_THREAD_STAT_MASK :: u8 where "RT_THREAD_STAT_MASK \<equiv> 7"
abbreviation (input) RT_THREAD_STAT_YIELD :: u8 where "RT_THREAD_STAT_YIELD \<equiv> 8"

abbreviation (input) RT_TIMER_FLAG_ACTIVATED :: u8 where "RT_TIMER_FLAG_ACTIVATED \<equiv> 1"
abbreviation (input) RT_TIMER_FLAG_PERIODIC :: u8 where "RT_TIMER_FLAG_PERIODIC \<equiv> 2"
abbreviation (input) RT_TIMER_FLAG_SOFT_TIMER :: u8 where "RT_TIMER_FLAG_SOFT_TIMER \<equiv> 4"
abbreviation (input) RT_TICK_MAX :: u32 where "RT_TICK_MAX \<equiv> 0xFFFFFFFF"
abbreviation (input) HALF_TICK :: u32 where "HALF_TICK \<equiv> 0x7FFFFFFF"

abbreviation (input) RT_IPC_FLAG_FIFO :: u8 where "RT_IPC_FLAG_FIFO \<equiv> 0"
abbreviation (input) RT_IPC_FLAG_PRIO :: u8 where "RT_IPC_FLAG_PRIO \<equiv> 1"
abbreviation (input) RT_IPC_CMD_RESET :: int where "RT_IPC_CMD_RESET \<equiv> 1"
abbreviation (input) RT_WAITING_FOREVER :: u32 where "RT_WAITING_FOREVER \<equiv> -1"

abbreviation (input) RT_EVENT_FLAG_AND :: u8 where "RT_EVENT_FLAG_AND \<equiv> 1"
abbreviation (input) RT_EVENT_FLAG_OR :: u8 where "RT_EVENT_FLAG_OR \<equiv> 2"
abbreviation (input) RT_EVENT_FLAG_CLEAR :: u8 where "RT_EVENT_FLAG_CLEAR \<equiv> 4"

abbreviation (input) RT_THREAD_PRIORITY_MAX :: nat where "RT_THREAD_PRIORITY_MAX \<equiv> 256"
abbreviation (input) RT_NAME_MAX :: nat where "RT_NAME_MAX \<equiv> 16"

subsection \<open>Writing one structure\<close>

definition upd_thread :: "nat \<Rightarrow> (rt_thread \<Rightarrow> rt_thread) \<Rightarrow> kernel \<Rightarrow> kernel" where
  "upd_thread t f s = s\<lparr>threads := (threads s)(t := f (threads s t))\<rparr>"

definition upd_object :: "oref \<Rightarrow> (rt_object \<Rightarrow> rt_object) \<Rightarrow> kernel \<Rightarrow> kernel" where
  "upd_object x f s = s\<lparr>objects := (objects s)(x := f (objects s x))\<rparr>"

definition upd_timer :: "oref \<Rightarrow> (rt_timer \<Rightarrow> rt_timer) \<Rightarrow> kernel \<Rightarrow> kernel" where
  "upd_timer x f s = s\<lparr>timers := (timers s)(x := f (timers s x))\<rparr>"

lemmas upd_defs = upd_thread_def upd_object_def upd_timer_def

subsection \<open>The list node of a thread\<close>

text \<open>
  \<^verbatim>\<open>rt_list_remove(&thread->tlist)\<close> unlinks the node from the list it is on.
  Linking a node that is already linked would break both rings: \<open>None\<close>.
\<close>

definition tlist_remove :: "nat \<Rightarrow> kernel \<Rightarrow> kernel" where
  "tlist_remove t s =
     (case on_list s t of
        None \<Rightarrow> s
      | Some h \<Rightarrow> s\<lparr>tlists := (tlists s)(h := removeAll t (tlists s h)),
                    on_list := (on_list s)(t := None)\<rparr>)"

definition tlist_set :: "lhead \<Rightarrow> nat \<Rightarrow> nat list \<Rightarrow> kernel \<Rightarrow> kernel option" where
  "tlist_set h t xs s =
     (if on_list s t = None
      then Some (s\<lparr>tlists := (tlists s)(h := xs), on_list := (on_list s)(t := Some h)\<rparr>)
      else None)"

text \<open>\<^verbatim>\<open>rt_list_insert_before\<close> and \<^verbatim>\<open>rt_list_insert_after\<close> at a list head.\<close>

definition tlist_append :: "lhead \<Rightarrow> nat \<Rightarrow> kernel \<Rightarrow> kernel option" where
  "tlist_append h t s = tlist_set h t (tlists s h @ [t]) s"

definition tlist_push :: "lhead \<Rightarrow> nat \<Rightarrow> kernel \<Rightarrow> kernel option" where
  "tlist_push h t s = tlist_set h t (t # tlists s h) s"

text \<open>\<^verbatim>\<open>rt_list_entry(list->next, struct rt_thread, tlist)\<close>\<close>

definition tlist_first :: "lhead \<Rightarrow> kernel \<Rightarrow> nat option" where
  "tlist_first h s = (case tlists s h of [] \<Rightarrow> None | t # _ \<Rightarrow> Some t)"

definition queues_ok :: "kernel \<Rightarrow> bool" where
  "queues_ok s = ((\<forall>h. distinct (tlists s h)) \<and>
     (\<forall>h t. t \<in> set (tlists s h) \<longleftrightarrow> on_list s t = Some h))"

lemma queues_okD:
  assumes "queues_ok s"
  shows "distinct (tlists s h)" and "t \<in> set (tlists s h) \<longleftrightarrow> on_list s t = Some h"
  using assms by (auto simp: queues_ok_def)

lemma queues_ok_remove [intro]: "queues_ok s \<Longrightarrow> queues_ok (tlist_remove t s)"
  unfolding queues_ok_def tlist_remove_def
  by (auto split: option.splits if_splits intro: distinct_removeAll)

lemma queues_ok_set:
  assumes "queues_ok s" and "tlist_set h t xs s = Some s'"
    and "distinct xs" and "set xs = insert t (set (tlists s h))"
  shows "queues_ok s'"
  using assms unfolding queues_ok_def tlist_set_def
  by (auto split: if_splits)

lemma tlist_remove_lists:
  "queues_ok s \<Longrightarrow> tlists (tlist_remove t s) h = removeAll t (tlists s h)"
  unfolding queues_ok_def tlist_remove_def
  by (auto split: option.splits)

lemma tlist_remove_on [simp]:
  "on_list (tlist_remove t s) = (on_list s)(t := None)"
  by (auto simp: tlist_remove_def split: option.splits)

end
