(* ===== verification/Kservice.thy ===== *)
theory Kservice
  imports Prelude
begin

unbundle bit_operations_syntax

text \<open>
  Helpers of \<^verbatim>\<open>kernel/src/kservice.c\<close>: the find-first-set routine with its
  256-entry table, and the bounded string routines the object system uses.
\<close>

definition lowest_bit_bitmap :: "nat list" where
  "lowest_bit_bitmap = [
    0, 0, 1, 0, 2, 0, 1, 0, 3, 0, 1, 0, 2, 0, 1, 0,
    4, 0, 1, 0, 2, 0, 1, 0, 3, 0, 1, 0, 2, 0, 1, 0,
    5, 0, 1, 0, 2, 0, 1, 0, 3, 0, 1, 0, 2, 0, 1, 0,
    4, 0, 1, 0, 2, 0, 1, 0, 3, 0, 1, 0, 2, 0, 1, 0,
    6, 0, 1, 0, 2, 0, 1, 0, 3, 0, 1, 0, 2, 0, 1, 0,
    4, 0, 1, 0, 2, 0, 1, 0, 3, 0, 1, 0, 2, 0, 1, 0,
    5, 0, 1, 0, 2, 0, 1, 0, 3, 0, 1, 0, 2, 0, 1, 0,
    4, 0, 1, 0, 2, 0, 1, 0, 3, 0, 1, 0, 2, 0, 1, 0,
    7, 0, 1, 0, 2, 0, 1, 0, 3, 0, 1, 0, 2, 0, 1, 0,
    4, 0, 1, 0, 2, 0, 1, 0, 3, 0, 1, 0, 2, 0, 1, 0,
    5, 0, 1, 0, 2, 0, 1, 0, 3, 0, 1, 0, 2, 0, 1, 0,
    4, 0, 1, 0, 2, 0, 1, 0, 3, 0, 1, 0, 2, 0, 1, 0,
    6, 0, 1, 0, 2, 0, 1, 0, 3, 0, 1, 0, 2, 0, 1, 0,
    4, 0, 1, 0, 2, 0, 1, 0, 3, 0, 1, 0, 2, 0, 1, 0,
    5, 0, 1, 0, 2, 0, 1, 0, 3, 0, 1, 0, 2, 0, 1, 0,
    4, 0, 1, 0, 2, 0, 1, 0, 3, 0, 1, 0, 2, 0, 1, 0]"

definition rt_ffs :: "u32 \<Rightarrow> nat" where
  "rt_ffs value =
     (if value = 0 then 0
      else if value AND 0xff \<noteq> 0 then lowest_bit_bitmap ! unat (value AND 0xff) + 1
      else if value AND 0xff00 \<noteq> 0 then
        lowest_bit_bitmap ! unat (drop_bit 8 (value AND 0xff00)) + 9
      else if value AND 0xff0000 \<noteq> 0 then
        lowest_bit_bitmap ! unat (drop_bit 16 (value AND 0xff0000)) + 17
      else lowest_bit_bitmap ! unat (drop_bit 24 (value AND 0xff000000)) + 25)"

text \<open>The table holds the index of the lowest set bit of every non-zero byte.\<close>

fun table_ok :: "nat \<Rightarrow> nat list \<Rightarrow> bool" where
  "table_ok i [] = True"
| "table_ok i (x # xs) = (x < 8 \<and> (i \<noteq> 0 \<longrightarrow> i mod (2 * 2 ^ x) = 2 ^ x) \<and> table_ok (i + 1) xs)"

lemma table_ok_nth:
  "\<lbrakk>table_ok i xs; j < length xs\<rbrakk> \<Longrightarrow>
   xs ! j < 8 \<and> (i + j \<noteq> 0 \<longrightarrow> (i + j) mod (2 * 2 ^ (xs ! j)) = 2 ^ (xs ! j))"
proof (induction xs arbitrary: i j)
  case (Cons x xs)
  then show ?case
    using Cons.IH [of "i + 1" "j - 1"] by (cases j) auto
qed simp

lemma table_ok_bitmap: "table_ok 0 lowest_bit_bitmap"
  unfolding lowest_bit_bitmap_def by (simp del: One_nat_def add: numeral_2_eq_2 [symmetric])

lemma length_bitmap: "length lowest_bit_bitmap = 256"
  unfolding lowest_bit_bitmap_def by simp

lemma low_bit_mod:
  fixes i :: nat
  assumes "i mod (2 * 2 ^ x) = 2 ^ x"
  shows "bit i x" and "k < x \<Longrightarrow> \<not> bit i k"
proof -
  have t: "take_bit (Suc x) i = 2 ^ x" using assms by (simp add: take_bit_eq_mod)
  have *: "bit i k \<longleftrightarrow> k = x" if "k < Suc x" for k
    using arg_cong [OF t, of "\<lambda>v. bit v k"] that by (simp add: bit_simps)
  show "bit i x" "k < x \<Longrightarrow> \<not> bit i k" using * by auto
qed

lemma lowest_bit_table':
  assumes "0 < i" "i < 256"
  shows "bit i (lowest_bit_bitmap ! i)" "k < lowest_bit_bitmap ! i \<Longrightarrow> \<not> bit i k"
    "lowest_bit_bitmap ! i < 8"
  using table_ok_nth [OF table_ok_bitmap, of i] assms low_bit_mod [of i "lowest_bit_bitmap ! i"]
  by (auto simp: length_bitmap)

lemma byte_field:
  fixes v :: u32
  shows "drop_bit n (v AND push_bit n (mask 8)) = take_bit 8 (drop_bit n v)"
  by (rule bit_word_eqI) (auto simp: bit_simps dest: bit_imp_le_length)

lemma byte_field_zero:
  fixes v :: u32
  assumes "n + 8 \<le> 32"
  shows "v AND push_bit n (mask 8) = 0 \<longleftrightarrow> (\<forall>k<8. \<not> bit v (n + k))"
proof
  assume z: "v AND push_bit n (mask 8) = 0"
  show "\<forall>k<8. \<not> bit v (n + k)"
  proof (intro allI impI notI)
    fix k :: nat assume k: "k < 8" and b: "bit v (n + k)"
    have "bit (v AND push_bit n (mask 8)) (n + k)"
      using k b assms by (auto simp: bit_simps)
    then show False using z by simp
  qed
next
  assume *: "\<forall>k<8. \<not> bit v (n + k)"
  show "v AND push_bit n (mask 8) = 0"
  proof (rule bit_word_eqI)
    fix j assume "j < LENGTH(32)"
    show "bit (v AND push_bit n (mask 8)) j \<longleftrightarrow> bit (0::u32) j"
      using spec [OF *, of "j - n"] by (auto simp: bit_simps)
  qed
qed

lemma byte_lowest:
  fixes v :: u32
  assumes n: "n + 8 \<le> 32" and nz: "v AND push_bit n (mask 8) \<noteq> 0"
  defines "i \<equiv> unat (drop_bit n (v AND push_bit n (mask 8)))"
  shows "bit v (n + lowest_bit_bitmap ! i)" and "j < lowest_bit_bitmap ! i \<Longrightarrow> \<not> bit v (n + j)"
    and "lowest_bit_bitmap ! i < 8"
proof -
  have i: "i = unat (take_bit 8 (drop_bit n v))"
    unfolding i_def byte_field ..
  have bits: "bit i k \<longleftrightarrow> k < 8 \<and> bit v (n + k)" for k
    by (auto simp: i bit_unsigned_iff bit_simps dest: bit_imp_le_length)
  have "take_bit 8 i = i"
    by (rule bit_eqI) (auto simp: bit_take_bit_iff bits)
  then have "i < 256" using take_bit_nat_less_exp [of 8 i] by simp
  moreover have "0 < i"
    using nz bits byte_field_zero [OF n, of v] by (metis bit_0_eq bot_apply bot_bool_def gr0I)
  ultimately have T: "bit i (lowest_bit_bitmap ! i)" "\<And>k. k < lowest_bit_bitmap ! i \<Longrightarrow> \<not> bit i k"
    "lowest_bit_bitmap ! i < 8"
    using lowest_bit_table' by auto
  show "lowest_bit_bitmap ! i < 8" by (rule T(3))
  show "bit v (n + lowest_bit_bitmap ! i)" using T(1) bits by simp
  show "j < lowest_bit_bitmap ! i \<Longrightarrow> \<not> bit v (n + j)" using T(2,3) bits by auto
qed

lemma rt_ffs_bytes:
  "rt_ffs v =
     (if v = 0 then 0
      else if v AND push_bit 0 (mask 8) \<noteq> 0 then
        lowest_bit_bitmap ! unat (drop_bit 0 (v AND push_bit 0 (mask 8))) + 0 + 1
      else if v AND push_bit 8 (mask 8) \<noteq> 0 then
        lowest_bit_bitmap ! unat (drop_bit 8 (v AND push_bit 8 (mask 8))) + 8 + 1
      else if v AND push_bit 16 (mask 8) \<noteq> 0 then
        lowest_bit_bitmap ! unat (drop_bit 16 (v AND push_bit 16 (mask 8))) + 16 + 1
      else lowest_bit_bitmap ! unat (drop_bit 24 (v AND push_bit 24 (mask 8))) + 24 + 1)"
proof -
  have m: "push_bit 0 (mask 8) = (0xff :: u32)" "push_bit 8 (mask 8) = (0xff00 :: u32)"
    "push_bit 16 (mask 8) = (0xff0000 :: u32)" "push_bit 24 (mask 8) = (0xff000000 :: u32)"
    by (simp_all add: mask_numeral push_bit_eq_mult)
  show ?thesis unfolding m rt_ffs_def by simp
qed

lemma below_byte: "(\<forall>k<8. \<not> bit v (n + k)) \<Longrightarrow> (\<forall>j<n. \<not> bit v j) \<Longrightarrow> \<forall>j<n + 8. \<not> bit v j"
  by (metis add_diff_inverse_nat nat_add_left_cancel_less)

text \<open>\<^verbatim>\<open>__rt_ffs\<close> returns one more than the index of the lowest set bit.\<close>

lemma rt_ffs_spec:
  assumes "v \<noteq> 0"
  shows "\<exists>k. rt_ffs v = Suc k \<and> bit v k \<and> (\<forall>j<k. \<not> bit v j)"
proof -
  have found: "\<exists>k. lowest_bit_bitmap ! unat (drop_bit n (v AND push_bit n (mask 8))) + n + 1 = Suc k
      \<and> bit v k \<and> (\<forall>j<k. \<not> bit v j)"
    if n: "n + 8 \<le> 32" and nz: "v AND push_bit n (mask 8) \<noteq> 0" and lo: "\<forall>j<n. \<not> bit v j" for n
  proof -
    let ?i = "unat (drop_bit n (v AND push_bit n (mask 8)))"
    have "\<not> bit v j" if "j < n + lowest_bit_bitmap ! ?i" for j
      using byte_lowest(2) [OF n nz, of "j - n"] lo that by (cases "j < n") auto
    then show ?thesis using byte_lowest(1) [OF n nz] by (intro exI) (auto simp: add.commute)
  qed
  have z: "\<forall>j<n + 8. \<not> bit v j"
    if "n + 8 \<le> 32" "v AND push_bit n (mask 8) = 0" "\<forall>j<n. \<not> bit v j" for n
    using below_byte [of v n] byte_field_zero [of n v] that by blast
  consider (a) "v AND push_bit 0 (mask 8) \<noteq> 0"
    | (b) "v AND push_bit 0 (mask 8) = 0" "v AND push_bit 8 (mask 8) \<noteq> 0"
    | (c) "v AND push_bit 0 (mask 8) = 0" "v AND push_bit 8 (mask 8) = 0"
      "v AND push_bit 16 (mask 8) \<noteq> 0"
    | (d) "v AND push_bit 0 (mask 8) = 0" "v AND push_bit 8 (mask 8) = 0"
      "v AND push_bit 16 (mask 8) = 0"
    by blast
  then show ?thesis
  proof cases
    case a
    then show ?thesis unfolding rt_ffs_bytes
      using found [of 0] assms by (simp only: simp_thms if_True if_False less_nat_zero_code)
  next
    case b
    have "\<forall>j<0 + 8. \<not> bit v j" by (rule z) (use b in auto)
    then have "\<forall>j<8. \<not> bit v j" by simp
    with found [of 8] b show ?thesis
      unfolding rt_ffs_bytes by (simp only: simp_thms if_True if_False assms)
  next
    case c
    have "\<forall>j<0 + 8. \<not> bit v j" by (rule z) (use c in auto)
    then have "\<forall>j<8 + 8. \<not> bit v j" by (intro z) (use c in auto)
    then have "\<forall>j<16. \<not> bit v j" by simp
    with found [of 16] c show ?thesis
      unfolding rt_ffs_bytes by (simp only: simp_thms if_True if_False assms)
  next
    case d
    have "\<forall>j<0 + 8. \<not> bit v j" by (rule z) (use d in auto)
    then have "\<forall>j<8 + 8. \<not> bit v j" by (intro z) (use d in auto)
    then have "\<forall>j<16 + 8. \<not> bit v j" by (intro z) (use d in auto)
    then have lo: "\<forall>j<24. \<not> bit v j" by simp
    have nz: "v AND push_bit 24 (mask 8) \<noteq> 0"
    proof
      assume "v AND push_bit 24 (mask 8) = 0"
      then have "\<forall>j<24 + 8. \<not> bit v j" using lo by (intro z) auto
      then have "v = 0" by (intro bit_word_eqI) auto
      with assms show False by simp
    qed
    from found [of 24] nz lo d show ?thesis
      unfolding rt_ffs_bytes by (simp only: simp_thms if_True if_False assms)
  qed
qed

lemma rt_ffs_0 [simp]: "rt_ffs 0 = 0"
  by (simp add: rt_ffs_def)

text \<open>C31: The table-driven find-first-set routine returns one more than the index of the lowest
  set bit of its argument, for every 32-bit value, and zero for zero.\<close>

theorem rt_ffs_least: "rt_ffs v = (if v = 0 then 0 else Suc (LEAST k. bit v k))"
proof (cases "v = 0")
  case False
  then obtain k where k: "rt_ffs v = Suc k" "bit v k" "\<forall>j<k. \<not> bit v j" using rt_ffs_spec by blast
  then have "(LEAST k. bit v k) = k" by (intro Least_equality) (auto simp: not_less [symmetric])
  then show ?thesis using False k by simp
qed simp

end
