(* ===== verification/Scheduler.thy ===== *)
theory Scheduler
  imports Kernel_State Kservice
begin

unbundle bit_operations_syntax

text \<open>
  The priority scheduler of \<^verbatim>\<open>kernel/src/scheduler.c\<close> (uniprocessor part): 256
  ready queues, a two-level bitmap of the non-empty ones (\<open>ready_group\<close> over
  \<open>ready_table\<close>), and the scheduler lock. The cycle counter read by
  \<^verbatim>\<open>read_pts()\<close> is the field \<open>pts\<close>; the hooks are unset.
\<close>

definition stack_check :: "rt_thread \<Rightarrow> unit option" where
  "stack_check th =
     rt_assert (\<not> (stack_guard th \<noteq> 35 \<or> sp th \<le> stack_addr th \<or>
       stack_addr th + stack_size th < sp th))"

text \<open>
  \<^verbatim>\<open>(number << 3) + __rt_ffs(rt_thread_ready_table[number]) - 1\<close>, with an index
  outside of the tables (no bit set at the first, or at both levels) as \<open>None\<close>.
\<close>

definition highest_ready_priority :: "kernel \<Rightarrow> nat option" where
  "highest_ready_priority s =
     (let f = rt_ffs (ready_group s) in
      if f = 0 then None
      else let number = f - 1; g = rt_ffs (ucast (ready_table s ! number)) in
        if number * 8 + g = 0 then None else Some (number * 8 + g - 1))"

definition scheduler_get_highest_priority_thread :: "kernel \<Rightarrow> (nat \<times> nat) option" where
  "scheduler_get_highest_priority_thread s = do {
     p \<leftarrow> highest_ready_priority s;
     t \<leftarrow> tlist_first (ReadyQ p) s;
     Some (p, t) }"

definition rt_cpuload_get :: "kernel \<Rightarrow> (u32 \<times> u32) \<times> kernel" where
  "rt_cpuload_get s =
     (let ctick = pts s; total = ctick - sys_total_ticks s; idle = idl_total_ticks s
      in ((idle, total), s\<lparr>sys_total_ticks := ctick, idl_total_ticks := 0\<rparr>))"

definition rt_system_scheduler_init :: "kernel \<Rightarrow> kernel" where
  "rt_system_scheduler_init s =
     s\<lparr>lock_nest := 0,
       tlists := (\<lambda>h. case h of ReadyQ p \<Rightarrow>
         if p < RT_THREAD_PRIORITY_MAX then [] else tlists s h | _ \<Rightarrow> tlists s h),
       cur_priority := of_nat (RT_THREAD_PRIORITY_MAX - 1),
       cur_thread := None,
       ready_group := 0,
       ready_table := replicate 32 0\<rparr>"

definition rt_system_scheduler_start :: "kernel \<Rightarrow> kernel option" where
  "rt_system_scheduler_start s = do {
     (p, to) \<leftarrow> scheduler_get_highest_priority_thread s;
     Some (s\<lparr>cur_thread := Some to\<rparr>) }"

definition rt_schedule :: "kernel \<Rightarrow> kernel option" where
  "rt_schedule s =
     (if lock_nest s = 0 then do {
        p \<leftarrow> highest_ready_priority s;
        to \<leftarrow> tlist_first (ReadyQ p) s;
        if cur_thread s = Some to then Some s
        else do {
          from \<leftarrow> cur_thread s;
          let s = s\<lparr>cur_priority := of_nat p, cur_thread := Some to\<rparr>;
          let s = (if current_priority (threads s from) = 255
             then s\<lparr>idl_total_ticks := idl_total_ticks s + (pts s - prev_calc_ticks s)\<rparr> else s);
          let s = (if current_priority (threads s to) = 255
             then s\<lparr>prev_calc_ticks := pts s\<rparr> else s);
          _ \<leftarrow> stack_check (threads s to);
          Some s } }
      else Some s)"

definition rt_schedule_insert_thread :: "nat \<Rightarrow> kernel \<Rightarrow> kernel option" where
  "rt_schedule_insert_thread t s = do {
     let s = upd_thread t (\<lambda>th. th\<lparr>stat := RT_THREAD_READY OR (stat th AND NOT RT_THREAD_STAT_MASK)\<rparr>) s;
     s \<leftarrow> tlist_append (ReadyQ (unat (current_priority (threads s t)))) t s;
     let th = threads s t;
     let n = unat (number th);
     Some (s\<lparr>ready_table := (ready_table s)[n := ready_table s ! n OR high_mask th],
            ready_group := ready_group s OR number_mask th\<rparr>) }"

definition rt_schedule_remove_thread :: "nat \<Rightarrow> kernel \<Rightarrow> kernel" where
  "rt_schedule_remove_thread t s =
     (let s = tlist_remove t s; th = threads s t; n = unat (number th) in
      if tlists s (ReadyQ (unat (current_priority th))) = [] then
        let s = s\<lparr>ready_table := (ready_table s)[n := ready_table s ! n AND NOT (high_mask th)]\<rparr>
        in if ready_table s ! n = 0
           then s\<lparr>ready_group := ready_group s AND NOT (number_mask th)\<rparr> else s
      else s)"

definition rt_enter_critical :: "kernel \<Rightarrow> kernel" where
  "rt_enter_critical s = s\<lparr>lock_nest := lock_nest s + 1\<rparr>"

definition rt_exit_critical :: "kernel \<Rightarrow> kernel option" where
  "rt_exit_critical s =
     (let s = s\<lparr>lock_nest := lock_nest s - 1\<rparr> in
      if sint (lock_nest s) \<le> 0 then
        let s = s\<lparr>lock_nest := 0\<rparr> in
        if cur_thread s \<noteq> None then rt_schedule s else Some s
      else Some s)"

definition rt_critical_level :: "kernel \<Rightarrow> u16" where
  "rt_critical_level s = lock_nest s"

text \<open>The masks a thread carries for its priority (\<^verbatim>\<open>number\<close>, \<^verbatim>\<open>number_mask\<close>, \<^verbatim>\<open>high_mask\<close>).\<close>

definition set_priority :: "u8 \<Rightarrow> rt_thread \<Rightarrow> rt_thread" where
  "set_priority p th =
     th\<lparr>current_priority := p,
        number := drop_bit 3 p,
        number_mask := push_bit (unat (drop_bit 3 p)) 1,
        high_mask := push_bit (unat (p AND 7)) 1\<rparr>"

subsection \<open>Invariant\<close>

definition masks_ok :: "rt_thread \<Rightarrow> bool" where
  "masks_ok th = (set_priority (current_priority th) th = th)"

definition bitmap_ok :: "kernel \<Rightarrow> bool" where
  "bitmap_ok s = (length (ready_table s) = 32 \<and>
     (\<forall>p<256. bit (ready_table s ! (p div 8)) (p mod 8) \<longleftrightarrow> tlists s (ReadyQ p) \<noteq> []) \<and>
     (\<forall>n<32. bit (ready_group s) n \<longleftrightarrow> ready_table s ! n \<noteq> 0))"

abbreviation tstat :: "kernel \<Rightarrow> nat \<Rightarrow> u8" where
  "tstat s t \<equiv> stat (threads s t) AND RT_THREAD_STAT_MASK"

abbreviation prio :: "kernel \<Rightarrow> nat \<Rightarrow> nat" where
  "prio s t \<equiv> unat (current_priority (threads s t))"

text \<open>
  A thread is on the ready queue of its priority exactly when its status is
  READY, and a started thread carries the masks of its priority.
\<close>

definition ready_one :: "kernel \<Rightarrow> nat \<Rightarrow> bool" where
  "ready_one s t =
     ((\<forall>p. on_list s t = Some (ReadyQ p) \<longleftrightarrow> tstat s t = RT_THREAD_READY \<and> p = prio s t) \<and>
      (tstat s t = RT_THREAD_READY \<or> tstat s t = RT_THREAD_SUSPEND \<longrightarrow> masks_ok (threads s t)))"

definition ready_ok :: "kernel \<Rightarrow> bool" where
  "ready_ok s = (\<forall>t. ready_one s t)"

definition stack_ok :: "rt_thread \<Rightarrow> bool" where
  "stack_ok th = (stack_check th = Some ())"

definition sched_inv :: "kernel \<Rightarrow> bool" where
  "sched_inv s = (queues_ok s \<and> bitmap_ok s \<and> ready_ok s)"

subsection \<open>Bits of priorities and status bytes\<close>

lemma unat_number [bitmap]: "unat (drop_bit 3 p) = unat (p :: u8) div 8"
  by (simp add: drop_bit_eq_div unat_div)

lemma unat_low [bitmap]: "unat (p AND 7 :: u8) = unat p mod 8"
proof -
  have "(7 :: u8) = mask 3" by (simp add: mask_numeral)
  then have "p AND 7 = take_bit 3 p" by (simp add: take_bit_eq_mask)
  then show ?thesis by (simp add: take_bit_eq_mod unat_mod)
qed

lemma stat_set [bitmap]:
  fixes x :: u8
  shows "((1::u8) OR (x AND NOT 7)) AND 7 = 1" and "((2::u8) OR (x AND NOT 7)) AND 7 = 2"
proof -
  have a: "(x AND NOT 7) AND 7 = (0 :: u8)"
    by (simp add: and.assoc [of x])
  show "((1::u8) OR (x AND NOT 7)) AND 7 = 1" "((2::u8) OR (x AND NOT 7)) AND 7 = 2"
    using a by (simp_all add: word_ao_dist)
qed


lemmas stat_set_simp [simp] = stat_set [simplified]

lemma bit_number_mask [bitmap]: "bit (2 ^ n :: u32) k \<longleftrightarrow> n < 32 \<and> k = n"
  by (auto simp: bit_simps)

lemma bit_high_mask [bitmap]: "bit (2 ^ n :: u8) k \<longleftrightarrow> n < 8 \<and> k = n"
  by (auto simp: bit_simps)

lemma masks_ok_fields:
  assumes "masks_ok th"
  shows "unat (number th) = unat (current_priority th) div 8"
    and "number_mask th = push_bit (unat (current_priority th) div 8) 1"
    and "high_mask th = push_bit (unat (current_priority th) mod 8) 1"
proof -
  have e: "th = set_priority (current_priority th) th" using assms by (simp add: masks_ok_def)
  show "unat (number th) = unat (current_priority th) div 8"
    by (subst e) (simp add: set_priority_def bitmap)
  show "number_mask th = push_bit (unat (current_priority th) div 8) 1"
    by (subst e) (simp add: set_priority_def bitmap)
  show "high_mask th = push_bit (unat (current_priority th) mod 8) 1"
    by (subst e) (simp add: set_priority_def bitmap)
qed

lemma masks_ok_set_priority [simp]: "masks_ok (set_priority p th)"
  by (simp add: masks_ok_def set_priority_def)

lemma masks_ok_cong:
  "\<lbrakk>current_priority th' = current_priority th; number th' = number th;
    number_mask th' = number_mask th; high_mask th' = high_mask th\<rbrakk> \<Longrightarrow>
   masks_ok th' = masks_ok th"
  by (cases th; cases th') (auto simp: masks_ok_def set_priority_def)

lemma u8_prio_lt [simp]: "unat (p :: u8) < 256"
  using unsigned_less [of p, where 'a = nat] by simp

lemma prio_parts: "p < 256 \<Longrightarrow> q < 256 \<Longrightarrow> (p div 8 = q div 8 \<and> p mod 8 = q mod 8) = (p = (q::nat))"
  by (metis div_mult_mod_eq)

lemma u8_zero_iff: "(x :: u8) = 0 \<longleftrightarrow> (\<forall>k<8. \<not> bit x k)"
proof
  show "\<forall>k<8. \<not> bit x k \<Longrightarrow> x = 0" by (rule bit_word_eqI) auto
qed simp

text \<open>Setting and clearing the bit of one priority in a table that describes a family of queues.\<close>

definition tab_ok :: "u8 list \<Rightarrow> u32 \<Rightarrow> (nat \<Rightarrow> bool) \<Rightarrow> bool" where
  "tab_ok tab grp nonempty = (length tab = 32 \<and>
     (\<forall>p<256. bit (tab ! (p div 8)) (p mod 8) \<longleftrightarrow> nonempty p) \<and>
     (\<forall>n<32. bit grp n \<longleftrightarrow> tab ! n \<noteq> 0))"

lemma bitmap_ok_tab: "bitmap_ok s = tab_ok (ready_table s) (ready_group s) (\<lambda>p. tlists s (ReadyQ p) \<noteq> [])"
  by (simp add: bitmap_ok_def tab_ok_def)

lemma tab_ok_insert:
  assumes T: "tab_ok tab grp f" and p: "p < 256"
  shows "tab_ok (tab[p div 8 := tab ! (p div 8) OR push_bit (p mod 8) 1])
     (grp OR push_bit (p div 8) 1) (f(p := True))"
proof -
  let ?tab = "tab[p div 8 := tab ! (p div 8) OR push_bit (p mod 8) 1]"
  have len: "length tab = 32" and n: "p div 8 < 32" using T p by (auto simp: tab_ok_def)
  have "bit (?tab ! (q div 8)) (q mod 8) \<longleftrightarrow> (f(p := True)) q" if "q < 256" for q
    using T that len n prio_parts [OF that p]
    by (auto simp: tab_ok_def nth_list_update bit_or_iff bitmap)
  moreover have "bit (grp OR push_bit (p div 8) 1) k \<longleftrightarrow> ?tab ! k \<noteq> 0" if "k < 32" for k
  proof (cases "k = p div 8")
    case True
    have "bit (tab ! (p div 8) OR push_bit (p mod 8) 1) (p mod 8)" by (simp add: bit_or_iff bitmap)
    then have "tab ! (p div 8) OR push_bit (p mod 8) 1 \<noteq> 0" by (metis bit_0_eq bot_apply bot_bool_def)
    then show ?thesis using True len n by (simp add: bit_or_iff bitmap)
  next
    case False
    then show ?thesis using T that by (auto simp: tab_ok_def bit_or_iff bitmap)
  qed
  ultimately show ?thesis using len by (simp add: tab_ok_def)
qed

lemma tab_ok_clear:
  fixes tab p
  defines "tab' \<equiv> tab[p div 8 := tab ! (p div 8) AND NOT (push_bit (p mod 8) 1)]"
  assumes T: "tab_ok tab grp f" and p: "p < 256"
  shows "tab_ok tab' (if tab' ! (p div 8) = 0 then grp AND NOT (push_bit (p div 8) 1) else grp)
     (f(p := False))"
proof -
  have len: "length tab = 32" and n: "p div 8 < 32" using T p by (auto simp: tab_ok_def)
  have b: "bit (tab' ! (q div 8)) (q mod 8) \<longleftrightarrow> (f(p := False)) q" if "q < 256" for q
    using T that len n prio_parts [OF that p]
    by (auto simp: tab'_def tab_ok_def nth_list_update bit_and_iff bit_not_iff bitmap)
  have "bit (if tab' ! (p div 8) = 0 then grp AND NOT (push_bit (p div 8) 1) else grp) k
      \<longleftrightarrow> tab' ! k \<noteq> 0" if k: "k < 32" for k
  proof (cases "k = p div 8")
    case True
    have "tab' ! (p div 8) \<noteq> 0 \<Longrightarrow> tab ! (p div 8) \<noteq> 0" using len n by (auto simp: tab'_def)
    then show ?thesis using T True n k by (auto simp: tab_ok_def bit_and_iff bit_not_iff bitmap)
  next
    case False
    then have "tab' ! k = tab ! k" by (simp add: tab'_def)
    then show ?thesis
      using T False k by (auto simp: tab_ok_def bit_and_iff bit_not_iff bitmap)
  qed
  with b show ?thesis using len by (simp add: tab_ok_def tab'_def)
qed

lemma tab_ok_same: "tab_ok tab grp f \<Longrightarrow> (\<And>p. p < 256 \<Longrightarrow> f p = g p) \<Longrightarrow> tab_ok tab grp g"
  by (simp add: tab_ok_def)


subsection \<open>Selection\<close>

lemma highest_ready_priority_spec:
  assumes B: "bitmap_ok s" and ne: "p < 256" "tlists s (ReadyQ p) \<noteq> []"
  shows "\<exists>h<256. highest_ready_priority s = Some h \<and> tlists s (ReadyQ h) \<noteq> [] \<and>
     (\<forall>q<h. tlists s (ReadyQ q) = [])"
proof -
  have bits: "bit (ready_table s ! (q div 8)) (q mod 8) \<longleftrightarrow> tlists s (ReadyQ q) \<noteq> []" if "q < 256" for q
    using B that by (simp add: bitmap_ok_def)
  have grp: "bit (ready_group s) n \<longleftrightarrow> ready_table s ! n \<noteq> 0" if "n < 32" for n
    using B that by (simp add: bitmap_ok_def)
  have "ready_table s ! (p div 8) \<noteq> 0" using bits ne by force
  then have "ready_group s \<noteq> 0" using grp [of "p div 8"] ne(1) by force
  then obtain n where n: "rt_ffs (ready_group s) = Suc n" "bit (ready_group s) n"
    "\<forall>j<n. \<not> bit (ready_group s) j"
    using rt_ffs_spec by blast
  then have n32: "n < 32" using bit_imp_le_length by fastforce
  have tz: "ready_table s ! j = 0" if "j < n" for j using n(3) grp that n32 by force
  let ?w = "ucast (ready_table s ! n) :: u32"
  have wb: "bit ?w k \<longleftrightarrow> bit (ready_table s ! n) k" for k
    by (auto simp: bit_unsigned_iff dest: bit_imp_le_length)
  have "?w \<noteq> 0" using n(2) grp [OF n32] by (metis wb u8_zero_iff bit_0_eq bot_apply bot_bool_def)
  then obtain k where k: "rt_ffs ?w = Suc k" "bit (ready_table s ! n) k"
    "\<forall>j<k. \<not> bit (ready_table s ! n) j"
    using rt_ffs_spec wb by metis
  then have k8: "k < 8" using bit_imp_le_length by fastforce
  let ?h = "n * 8 + k"
  have h: "?h div 8 = n" "?h mod 8 = k" "?h < 256" using n32 k8 by auto
  have "tlists s (ReadyQ q) = []" if q: "q < ?h" for q
  proof (cases "q div 8 < n")
    case True
    then show ?thesis using tz bits [of q] q h(3) by force
  next
    case False
    then have "q div 8 = n" using q k8 by simp
    moreover from this have "q mod 8 < k" using q by presburger
    ultimately show ?thesis using k(3) bits [of q] q h(3) by auto
  qed
  moreover have "tlists s (ReadyQ ?h) \<noteq> []" using bits [OF h(3)] h k(2) by simp
  moreover have "highest_ready_priority s = Some ?h"
    by (simp add: highest_ready_priority_def n(1) k(1))
  ultimately show ?thesis using h(3) by blast
qed

lemma highest_ready_priority_unique:
  assumes "bitmap_ok s" "h < 256" "tlists s (ReadyQ h) \<noteq> []" "\<forall>q<h. tlists s (ReadyQ q) = []"
  shows "highest_ready_priority s = Some h"
  using highest_ready_priority_spec [OF assms(1-3)] assms(3,4) by (metis linorder_neqE_nat)

text \<open>\<^verbatim>\<open>rt_schedule\<close> writes no other field than these.\<close>

lemma rt_schedule_frame:
  assumes "rt_schedule s = Some s'"
  shows "s' = s\<lparr>cur_thread := cur_thread s', cur_priority := cur_priority s',
     idl_total_ticks := idl_total_ticks s', prev_calc_ticks := prev_calc_ticks s'\<rparr>"
proof (cases "lock_nest s = 0")
  case True
  then obtain p to where "highest_ready_priority s = Some p" "tlist_first (ReadyQ p) s = Some to"
    using assms by (auto simp: rt_schedule_def)
  then show ?thesis using assms True
    by (cases "cur_thread s = Some to"; cases "cur_thread s") (auto simp: rt_schedule_def Let_def)
next
  case False
  then show ?thesis using assms by (simp add: rt_schedule_def)
qed

lemma rt_schedule_fields:
  assumes "rt_schedule s = Some s'"
  shows "threads s' = threads s" "tlists s' = tlists s" "on_list s' = on_list s"
    "ready_table s' = ready_table s" "ready_group s' = ready_group s" "objects s' = objects s"
    "timers s' = timers s" "timer_list s' = timer_list s" "soft_timer_list s' = soft_timer_list s"
    "sems s' = sems s" "mutexes s' = mutexes s" "events s' = events s"
    "mailboxes s' = mailboxes s" "msgqueues s' = msgqueues s" "mempools s' = mempools s"
    "containers s' = containers s" "lock_nest s' = lock_nest s" "irq_nest s' = irq_nest s"
    "tick s' = tick s" "tick_uptime s' = tick_uptime s" "timer_thread s' = timer_thread s"
  by (subst rt_schedule_frame [OF assms], simp)+

lemma sched_inv_cong:
  assumes "threads s' = threads s" "tlists s' = tlists s" "on_list s' = on_list s"
    "ready_table s' = ready_table s" "ready_group s' = ready_group s"
  shows "sched_inv s' = sched_inv s"
  using assms by (simp add: sched_inv_def queues_ok_def bitmap_ok_def ready_ok_def ready_one_def)

lemma rt_schedule_inv: "rt_schedule s = Some s' \<Longrightarrow> sched_inv s' = sched_inv s"
  using rt_schedule_fields [of s s'] by (intro sched_inv_cong) simp_all

lemma rt_schedule_locked: "lock_nest s \<noteq> 0 \<Longrightarrow> rt_schedule s = Some s"
  by (simp add: rt_schedule_def)

lemma rt_schedule_picks:
  assumes B: "bitmap_ok s" and l: "lock_nest s = 0" and c: "cur_thread s = Some from"
    and h: "h < 256" "tlists s (ReadyQ h) = to # rest" "\<forall>q<h. tlists s (ReadyQ q) = []"
    and st: "stack_ok (threads s to)"
  shows "\<exists>s'. rt_schedule s = Some s' \<and> cur_thread s' = Some to"
proof -
  have "highest_ready_priority s = Some h"
    using highest_ready_priority_unique [OF B h(1)] h(2,3) by simp
  then show ?thesis using l c h(2) st
    by (auto simp: rt_schedule_def tlist_first_def stack_ok_def Let_def)
qed

subsection \<open>Insertion and removal keep the invariant\<close>

lemma sched_invD:
  assumes "sched_inv s"
  shows "queues_ok s" "bitmap_ok s" "ready_ok s"
  using assms by (auto simp: sched_inv_def)

lemma ready_okD:
  assumes "ready_ok s"
  shows "on_list s t = Some (ReadyQ p) \<longleftrightarrow> tstat s t = RT_THREAD_READY \<and> p = prio s t"
    and "tstat s t = RT_THREAD_READY \<Longrightarrow> masks_ok (threads s t)"
    and "tstat s t = RT_THREAD_SUSPEND \<Longrightarrow> masks_ok (threads s t)"
  using assms by (auto simp: ready_ok_def ready_one_def)

lemma bitmap_remove:
  assumes Q: "queues_ok s" and B: "bitmap_ok s" and m: "masks_ok (threads s t)"
    and own: "\<And>p. on_list s t = Some (ReadyQ p) \<Longrightarrow> p = prio s t"
  shows "bitmap_ok (rt_schedule_remove_thread t s)"
proof -
  let ?s = "tlist_remove t s" and ?p = "prio s t"
  have th: "threads ?s = threads s" "ready_table ?s = ready_table s" "ready_group ?s = ready_group s"
    by (auto simp: tlist_remove_def split: option.splits)
  have same: "tlists ?s (ReadyQ q) = tlists s (ReadyQ q)" if "q \<noteq> ?p" for q
    using own that by (auto simp: tlist_remove_def split: option.splits)
  have T: "tab_ok (ready_table s) (ready_group s) (\<lambda>p. tlists s (ReadyQ p) \<noteq> [])"
    using B by (simp add: bitmap_ok_tab)
  show ?thesis
  proof (cases "tlists ?s (ReadyQ ?p) = []")
    case True
    have "tab_ok (ready_table (rt_schedule_remove_thread t s)) (ready_group (rt_schedule_remove_thread t s))
        ((\<lambda>p. tlists s (ReadyQ p) \<noteq> [])(?p := False))"
      using tab_ok_clear [OF T, of ?p] True masks_ok_fields [OF m]
      by (auto simp: rt_schedule_remove_thread_def Let_def th split: if_splits)
    moreover have "tlists (rt_schedule_remove_thread t s) = tlists ?s"
      by (simp add: rt_schedule_remove_thread_def Let_def)
    ultimately show ?thesis using True same
      by (auto simp: bitmap_ok_tab elim!: tab_ok_same split: if_splits)
  next
    case False
    then have "tlists s (ReadyQ ?p) \<noteq> []"
      by (auto simp: tlist_remove_def split: option.splits if_splits)
    with False have "(tlists ?s (ReadyQ q) \<noteq> []) = (tlists s (ReadyQ q) \<noteq> [])" for q
      using same by (cases "q = ?p") auto
    then show ?thesis using False B
      by (simp add: rt_schedule_remove_thread_def Let_def th bitmap_ok_def)
  qed
qed

lemma remove_thread_fields [kframe]:
  "threads (rt_schedule_remove_thread t s) = threads s"
  "tlists (rt_schedule_remove_thread t s) = tlists (tlist_remove t s)"
  "on_list (rt_schedule_remove_thread t s) = (on_list s)(t := None)"
  "objects (rt_schedule_remove_thread t s) = objects s"
  "timers (rt_schedule_remove_thread t s) = timers s"
  "timer_list (rt_schedule_remove_thread t s) = timer_list s"
  "soft_timer_list (rt_schedule_remove_thread t s) = soft_timer_list s"
  "sems (rt_schedule_remove_thread t s) = sems s"
  "mutexes (rt_schedule_remove_thread t s) = mutexes s"
  "events (rt_schedule_remove_thread t s) = events s"
  "mailboxes (rt_schedule_remove_thread t s) = mailboxes s"
  "msgqueues (rt_schedule_remove_thread t s) = msgqueues s"
  "mempools (rt_schedule_remove_thread t s) = mempools s"
  "containers (rt_schedule_remove_thread t s) = containers s"
  "cur_thread (rt_schedule_remove_thread t s) = cur_thread s"
  "lock_nest (rt_schedule_remove_thread t s) = lock_nest s"
  "irq_nest (rt_schedule_remove_thread t s) = irq_nest s"
  "tick (rt_schedule_remove_thread t s) = tick s"
  "timer_thread (rt_schedule_remove_thread t s) = timer_thread s"
  by (auto simp: rt_schedule_remove_thread_def Let_def tlist_remove_def split: option.splits)

lemma queues_ok_cong:
  "tlists s' = tlists s \<Longrightarrow> on_list s' = on_list s \<Longrightarrow> queues_ok s' = queues_ok s"
  by (simp add: queues_ok_def)

lemma queues_ok_remove_thread: "queues_ok s \<Longrightarrow> queues_ok (rt_schedule_remove_thread t s)"
  using queues_ok_remove [of s t] queues_ok_cong [of "rt_schedule_remove_thread t s" "tlist_remove t s"]
  by (simp add: kframe)


text \<open>A thread taken off every list, the rest of the scheduler intact.\<close>

definition detached :: "nat \<Rightarrow> kernel \<Rightarrow> bool" where
  "detached t s = (queues_ok s \<and> bitmap_ok s \<and> on_list s t = None \<and> (\<forall>u. u \<noteq> t \<longrightarrow> ready_one s u))"

lemma detached_remove:
  assumes I: "sched_inv s" and m: "masks_ok (threads s t)"
  shows "detached t (rt_schedule_remove_thread t s)"
proof -
  have own: "p = prio s t" if "on_list s t = Some (ReadyQ p)" for p
    using ready_okD(1) [OF sched_invD(3) [OF I]] that by blast
  have "ready_one (rt_schedule_remove_thread t s) u" if "u \<noteq> t" for u
    using sched_invD(3) [OF I] that by (simp add: ready_ok_def ready_one_def kframe)
  then show ?thesis
    unfolding detached_def
    using bitmap_remove [OF sched_invD(1,2) [OF I] m own] queues_ok_remove_thread [OF sched_invD(1) [OF I]]
    by (simp add: kframe)
qed

lemma insert_thread_eq:
  assumes "on_list s t = None"
  shows "rt_schedule_insert_thread t s = Some (s\<lparr>
     threads := (threads s)(t := (threads s t)\<lparr>stat := RT_THREAD_READY OR (stat (threads s t) AND NOT 7)\<rparr>),
     tlists := (tlists s)(ReadyQ (prio s t) := tlists s (ReadyQ (prio s t)) @ [t]),
     on_list := (on_list s)(t := Some (ReadyQ (prio s t))),
     ready_table := (ready_table s)[unat (number (threads s t)) :=
        ready_table s ! unat (number (threads s t)) OR high_mask (threads s t)],
     ready_group := ready_group s OR number_mask (threads s t)\<rparr>)"
  using assms
  by (simp add: rt_schedule_insert_thread_def tlist_append_def tlist_set_def upd_thread_def Let_def)

lemma insert_thread_inv:
  assumes D: "detached t s" and m: "masks_ok (threads s t)"
    and ins: "rt_schedule_insert_thread t s = Some s'"
  shows "sched_inv s'"
proof -
  let ?p = "prio s t"
  have on: "on_list s t = None" and Q: "queues_ok s" and B: "bitmap_ok s"
    and R: "\<And>u. u \<noteq> t \<Longrightarrow> ready_one s u"
    using D by (auto simp: detached_def)
  note e = insert_thread_eq [OF on, unfolded ins option.inject]
  have fresh: "t \<notin> set (tlists s h)" for h using queues_okD(2) [OF Q] on by simp
  have "queues_ok s'"
    using Q fresh unfolding e queues_ok_def by auto
  moreover have "bitmap_ok s'"
  proof -
    have "tab_ok (ready_table s') (ready_group s') ((\<lambda>p. tlists s (ReadyQ p) \<noteq> [])(?p := True))"
      using tab_ok_insert [of "ready_table s" "ready_group s" _ ?p] B masks_ok_fields [OF m]
      unfolding e by (simp add: bitmap_ok_tab)
    then show ?thesis unfolding bitmap_ok_tab
      by (rule tab_ok_same) (simp add: e)
  qed
  moreover have "ready_one s' u" for u
    using R [of u] m masks_ok_cong [of "threads s' t" "threads s t"]
    by (cases "u = t") (auto simp: e ready_one_def stat_set)
  ultimately show ?thesis by (simp add: sched_inv_def ready_ok_def)
qed

text \<open>A detached thread with a status other than READY leaves a sound scheduler.\<close>

lemma detached_idle:
  assumes D: "detached t s" and st: "tstat s t \<noteq> RT_THREAD_READY"
    and m: "tstat s t = RT_THREAD_SUSPEND \<Longrightarrow> masks_ok (threads s t)"
  shows "sched_inv s"
proof -
  have "ready_one s u" for u
    using D st m by (cases "u = t") (auto simp: detached_def ready_one_def)
  then show ?thesis using D by (simp add: sched_inv_def ready_ok_def detached_def)
qed

lemma detached_upd_thread:
  "detached t (upd_thread t f s) = detached t s"
  by (auto simp: detached_def upd_thread_def queues_ok_def bitmap_ok_def ready_one_def)

text \<open>Linking a thread that is not READY into a waiting list keeps the invariant.\<close>

lemma sched_inv_wait:
  assumes I: "sched_inv s" and set: "tlist_set h t xs s = Some s'"
    and xs: "distinct xs" "set xs = insert t (set (tlists s h))"
    and h: "\<forall>p. h \<noteq> ReadyQ p"
  shows "sched_inv s'"
proof -
  have "queues_ok s'" using queues_ok_set [OF sched_invD(1) [OF I] set xs] .
  moreover have "bitmap_ok s'"
    using sched_invD(2) [OF I] set h
    by (auto simp: bitmap_ok_def tlist_set_def split: if_splits)
  moreover have "tstat s t \<noteq> RT_THREAD_READY"
    using ready_okD(1) [OF sched_invD(3) [OF I], of t "prio s t"] set
    by (auto simp: tlist_set_def split: if_splits)
  then have "ready_one s' u" for u
    using sched_invD(3) [OF I] set h
    by (auto simp: ready_ok_def ready_one_def tlist_set_def split: if_splits)
  ultimately show ?thesis by (simp add: sched_inv_def ready_ok_def)
qed

end
