(* ===== verification/Kstring.thy ===== *)
theory Kstring
  imports Prelude
begin

unbundle bit_operations_syntax

text \<open>
  The string routines of \<^verbatim>\<open>kernel/src/kservice.c\<close>. A pointer into memory is the
  list of the bytes from there to the end of the readable area; a read past its
  end is \<open>None\<close>. \<^verbatim>\<open>char\<close> is unsigned, as on the ARM targets of the SDK.
\<close>

text \<open>The \<open>n\<close> bytes that \<^verbatim>\<open>rt_strncpy\<close> stores at its destination.\<close>

fun rt_strncpy :: "u8 list \<Rightarrow> nat \<Rightarrow> u8 list option" where
  "rt_strncpy src 0 = Some []"
| "rt_strncpy [] (Suc n) = None"
| "rt_strncpy (c # src) (Suc n) =
     (if c = 0 then Some (c # replicate n 0) else map_option ((#) c) (rt_strncpy src n))"

text \<open>The difference is kept in a \<^verbatim>\<open>signed char\<close>.\<close>

fun rt_strncmp :: "u8 list \<Rightarrow> u8 list \<Rightarrow> nat \<Rightarrow> int option" where
  "rt_strncmp cs ct 0 = Some 0"
| "rt_strncmp (c # cs) (d # ct) (Suc count) =
     (let res = sint (c - d) in
      if res \<noteq> 0 \<or> c = 0 then Some res else rt_strncmp cs ct count)"
| "rt_strncmp cs ct (Suc count) = None"

fun rt_strcmp :: "u8 list \<Rightarrow> u8 list \<Rightarrow> int option" where
  "rt_strcmp (c # cs) (d # ct) =
     (if c \<noteq> 0 \<and> c = d then rt_strcmp cs ct else Some (uint c - uint d))"
| "rt_strcmp cs ct = None"

fun rt_strlen :: "u8 list \<Rightarrow> nat option" where
  "rt_strlen [] = None"
| "rt_strlen (c # s) = (if c = 0 then Some 0 else map_option Suc (rt_strlen s))"

fun rt_strnlen :: "u8 list \<Rightarrow> nat \<Rightarrow> nat option" where
  "rt_strnlen s 0 = Some 0"
| "rt_strnlen [] (Suc n) = None"
| "rt_strnlen (c # s) (Suc n) = (if c = 0 then Some 0 else map_option Suc (rt_strnlen s n))"

subsection \<open>Facts\<close>

definition cstr :: "u8 list \<Rightarrow> u8 list" where
  "cstr s = takeWhile (\<lambda>c. c \<noteq> 0) s"

lemma sint_zero [simp]: "sint (c :: u8) = 0 \<longleftrightarrow> c = 0"
  by (simp add: signed_eq_0_iff)

lemma rt_strncpy_length: "rt_strncpy src n = Some bs \<Longrightarrow> length bs = n"
  by (induction src n arbitrary: bs rule: rt_strncpy.induct) (auto split: if_splits)

lemma rt_strncpy_eq:
  assumes "rt_strncpy src n = Some bs"
  shows "bs = take n (cstr src @ replicate n 0)"
  using assms unfolding cstr_def
proof (induction src n arbitrary: bs rule: rt_strncpy.induct)
  case (3 c src n)
  then show ?case
    by (auto split: if_splits simp: take_Cons' replicate_append_same [symmetric] min_def)
qed auto

text \<open>A name stored by \<^verbatim>\<open>rt_strncpy\<close> compares equal to the name it was made from.\<close>

lemma rt_strncmp_strncpy:
  "rt_strncpy src n = Some bs \<Longrightarrow> rt_strncmp bs src n = Some 0"
proof (induction src n arbitrary: bs rule: rt_strncpy.induct)
  case (3 c src n)
  then show ?case by (cases bs) (auto split: if_splits)
qed auto

text \<open>The comparison returns zero exactly when the strings agree up to \<open>n\<close> bytes or their end.\<close>

lemma rt_strncmp_zero_iff:
  "rt_strncmp cs ct n = Some r \<Longrightarrow> r = 0 \<longleftrightarrow> take n (cstr cs) = take n (cstr ct)"
  unfolding cstr_def
  by (induction cs ct n rule: rt_strncmp.induct) (auto simp: Let_def split: if_splits)

lemma rt_strcmp_zero_iff:
  "rt_strcmp cs ct = Some r \<Longrightarrow> r = 0 \<longleftrightarrow> cstr cs = cstr ct"
  unfolding cstr_def
  by (induction cs ct rule: rt_strcmp.induct) (auto simp: word_uint_eq_iff split: if_splits)

lemma rt_strlen_cstr: "0 \<in> set s \<Longrightarrow> rt_strlen s = Some (length (cstr s))"
  unfolding cstr_def by (induction s) auto

lemma cstr_take: "cstr (take n s) = take n (cstr s)"
proof -
  have "takeWhile P (take n xs) = take n (takeWhile P xs)" for P and xs :: "u8 list" and n
    by (induction xs arbitrary: n) (auto simp: take_Cons')
  then show ?thesis by (simp add: cstr_def)
qed

lemma cstr_padded: "cstr (cstr s @ replicate n 0) = cstr s"
proof -
  have "takeWhile (\<lambda>c. c \<noteq> 0) (replicate n (0 :: u8)) = []" by (cases n) auto
  then show ?thesis unfolding cstr_def by (induction s) auto
qed

text \<open>A name copied by \<^verbatim>\<open>rt_strncpy\<close> into a field of \<open>n\<close> bytes is the string cut to
  \<open>n\<close> bytes and padded with zeros, and \<^verbatim>\<open>rt_strncmp\<close> over \<open>n\<close> bytes finds it equal to a
  string exactly when that string agrees with the original in its first \<open>n\<close> bytes.\<close>

theorem strncpy_strncmp:
  assumes "rt_strncpy src n = Some bs" and "rt_strncmp bs ct n = Some r"
  shows "length bs = n \<and> bs = take n (cstr src @ replicate n 0) \<and>
     (r = 0 \<longleftrightarrow> take n (cstr src) = take n (cstr ct))"
proof -
  have c: "take n (cstr (take n (cstr src @ replicate n 0))) = take n (cstr src)"
    unfolding cstr_take cstr_padded by simp
  show ?thesis
    using rt_strncpy_length [OF assms(1)] rt_strncpy_eq [OF assms(1)] rt_strncmp_zero_iff [OF assms(2)] c
    by simp
qed

theorem strncpy_strncmp_witness:
  "length [116, 49, 0, 0 :: u8] = 4 \<and> [116, 49, 0, 0] = take 4 (cstr [116, 49, 0] @ replicate 4 (0 :: u8)) \<and>
   ((0 :: int) = 0 \<longleftrightarrow> take 4 (cstr [116, 49, 0 :: u8]) = take 4 (cstr [116, 49, 0, 7]))"
  by (rule strncpy_strncmp [of "[116, 49, 0]" 4 _ "[116, 49, 0, 7]"]) code_simp+

end
