(* ===== verification/Object.thy ===== *)
theory Object
  imports Scheduler Kstring
begin

unbundle bit_operations_syntax

text \<open>
  The kernel object registry of \<^verbatim>\<open>kernel/src/object.c\<close>: one container per object
  class, each with the list of its objects, newest first.

  What \<^verbatim>\<open>RT_KERNEL_MALLOC\<close> returns is an argument of the operations that
  allocate (\<open>None\<close> for \<^verbatim>\<open>RT_NULL\<close>).
\<close>

definition rt_object_container :: "u8 list" where
  "rt_object_container = [1, 2, 3, 4, 5, 6, 7, 8, 9, 10]"

fun find_index :: "'a \<Rightarrow> 'a list \<Rightarrow> nat option" where
  "find_index x [] = None"
| "find_index x (y # ys) = (if y = x then Some 0 else map_option Suc (find_index x ys))"

definition rt_object_get_information :: "u8 \<Rightarrow> nat option" where
  "rt_object_get_information type = find_index type rt_object_container"

definition rt_object_get_length :: "u8 \<Rightarrow> kernel \<Rightarrow> nat" where
  "rt_object_get_length type s =
     (case rt_object_get_information type of
        None \<Rightarrow> 0
      | Some i \<Rightarrow> fold (\<lambda>_ count. count + 1) (containers s i) 0)"

fun copy_pointers :: "oref list \<Rightarrow> int \<Rightarrow> int \<Rightarrow> oref list" where
  "copy_pointers [] index maxlen = []"
| "copy_pointers (x # xs) index maxlen =
     (if maxlen \<le> index + 1 then [x] else x # copy_pointers xs (index + 1) maxlen)"

definition rt_object_get_pointers :: "u8 \<Rightarrow> int \<Rightarrow> kernel \<Rightarrow> oref list" where
  "rt_object_get_pointers type maxlen s =
     (if maxlen \<le> 0 then []
      else case rt_object_get_information type of
        None \<Rightarrow> []
      | Some i \<Rightarrow> copy_pointers (containers s i) 0 maxlen)"

definition object_attach :: "nat \<Rightarrow> oref \<Rightarrow> kernel \<Rightarrow> kernel" where
  "object_attach i x s = s\<lparr>containers := (containers s)(i := x # containers s i)\<rparr>"

definition object_unlink :: "oref \<Rightarrow> kernel \<Rightarrow> kernel" where
  "object_unlink x s = s\<lparr>containers := (\<lambda>i. removeAll x (containers s i))\<rparr>"

definition rt_object_init :: "oref \<Rightarrow> u8 \<Rightarrow> u8 list \<Rightarrow> kernel \<Rightarrow> kernel option" where
  "rt_object_init x type name s = do {
     i \<leftarrow> rt_object_get_information type;
     let s = rt_enter_critical s;
     _ \<leftarrow> rt_assert (x \<notin> set (containers s i));
     s \<leftarrow> rt_exit_critical s;
     nm \<leftarrow> rt_strncpy name RT_NAME_MAX;
     let s = upd_object x (\<lambda>ob. ob\<lparr>obj_type := type OR RT_Object_Class_Static, obj_name := nm\<rparr>) s;
     Some (object_attach i x s) }"

definition rt_object_detach :: "oref \<Rightarrow> kernel \<Rightarrow> kernel" where
  "rt_object_detach x s = object_unlink x (upd_object x (\<lambda>ob. ob\<lparr>obj_type := 0\<rparr>) s)"

definition zero_thread :: rt_thread where
  "zero_thread = \<lparr>sp = 0, stack_addr = 0, stack_size = 0, stack_guard = 0, th_error = 0, stat = 0,
     current_priority = 0, init_priority = 0, number = 0, high_mask = 0, number_mask = 0,
     event_set = 0, event_info = 0, th_init_tick = 0, remaining_tick = 0, cleanup = False,
     th_lock = None\<rparr>"

text \<open>\<^verbatim>\<open>rt_memset(object, 0x0, information->object_size)\<close>\<close>

definition clear_struct :: "nat \<Rightarrow> kernel \<Rightarrow> kernel" where
  "clear_struct a s = s\<lparr>
     threads := (threads s)(a := zero_thread),
     sems := (sems s)(a := \<lparr>sem_value = 0\<rparr>),
     mutexes := (mutexes s)(a := \<lparr>mutex_value = 0, original_priority = 0, hold = 0, owner = None\<rparr>),
     events := (events s)(a := \<lparr>ev_set = 0\<rparr>),
     mailboxes := (mailboxes s)(a := \<lparr>msg_pool = [], mb_size = 0, mb_entry = 0, in_offset = 0, out_offset = 0\<rparr>),
     msgqueues := (msgqueues s)(a := \<lparr>mq_msg_size = 0, mq_max_msgs = 0, mq_entry = 0, mq_next = \<lambda>_. None,
        mq_data = \<lambda>_. [], mq_head = None, mq_tail = None, mq_free = None\<rparr>),
     mempools := (mempools s)(a := \<lparr>mp_size = 0, mp_block_size = 0, mp_block_list = None, mp_total_count = 0,
        mp_free_count = 0, mp_suspend_count = 0, mp_blocks = \<lambda>_. Link None\<rparr>)\<rparr>"

definition not_in_interrupt :: "kernel \<Rightarrow> unit option" where
  "not_in_interrupt s = rt_assert (irq_nest s = 0)"

definition in_thread_context :: "kernel \<Rightarrow> unit option" where
  "in_thread_context s = rt_assert (cur_thread s \<noteq> None \<and> irq_nest s = 0)"

definition rt_object_allocate ::
  "u8 \<Rightarrow> u8 list \<Rightarrow> nat option \<Rightarrow> kernel \<Rightarrow> (nat option \<times> kernel) option" where
  "rt_object_allocate type name mem s = do {
     _ \<leftarrow> not_in_interrupt s;
     i \<leftarrow> rt_object_get_information type;
     case mem of
       None \<Rightarrow> Some (None, s)
     | Some a \<Rightarrow> do {
         let s = clear_struct a s;
         nm \<leftarrow> rt_strncpy name RT_NAME_MAX;
         let s = upd_object (Obj a) (\<lambda>_. \<lparr>obj_name = nm, obj_type = type, obj_flag = 0\<rparr>) s;
         Some (Some a, object_attach i (Obj a) s) } }"

definition rt_object_delete :: "oref \<Rightarrow> kernel \<Rightarrow> kernel option" where
  "rt_object_delete x s = do {
     _ \<leftarrow> rt_assert (obj_type (objects s x) AND RT_Object_Class_Static = 0);
     let s = upd_object x (\<lambda>ob. ob\<lparr>obj_type := 0\<rparr>) s;
     Some (object_unlink x s) }"

definition rt_object_is_systemobject :: "oref \<Rightarrow> kernel \<Rightarrow> bool" where
  "rt_object_is_systemobject x s = (obj_type (objects s x) AND RT_Object_Class_Static \<noteq> 0)"

definition rt_object_get_type :: "oref \<Rightarrow> kernel \<Rightarrow> u8" where
  "rt_object_get_type x s = obj_type (objects s x) AND NOT RT_Object_Class_Static"

fun find_named :: "(oref \<Rightarrow> rt_object) \<Rightarrow> u8 list \<Rightarrow> oref list \<Rightarrow> oref option option" where
  "find_named obs name [] = Some None"
| "find_named obs name (x # xs) = do {
     r \<leftarrow> rt_strncmp (obj_name (obs x)) name RT_NAME_MAX;
     if r = 0 then Some (Some x) else find_named obs name xs }"

definition rt_object_find :: "u8 list option \<Rightarrow> u8 \<Rightarrow> kernel \<Rightarrow> (oref option \<times> kernel) option" where
  "rt_object_find name type s =
     (case name of
        None \<Rightarrow> Some (None, s)
      | Some nm \<Rightarrow>
          if RT_Object_Class_Unknown < type then Some (None, s)
          else do {
            _ \<leftarrow> not_in_interrupt s;
            let s = rt_enter_critical s;
            i \<leftarrow> rt_object_get_information type;
            r \<leftarrow> find_named (objects s) nm (containers s i);
            s \<leftarrow> rt_exit_critical s;
            Some (r, s) })"

subsection \<open>Facts\<close>

lemma get_information_class:
  "rt_object_get_information type = Some i \<Longrightarrow> i < 10 \<and> type = of_nat (i + 1)"
  by (auto simp: rt_object_get_information_def rt_object_container_def split: if_splits)

lemma class_bits:
  assumes "rt_object_get_information type = Some i"
  shows "type AND RT_Object_Class_Static = 0"
    and "(type OR RT_Object_Class_Static) AND NOT RT_Object_Class_Static = type"
    and "(type OR RT_Object_Class_Static) AND RT_Object_Class_Static \<noteq> 0"
    and "type AND NOT RT_Object_Class_Static = type"
  using assms
  by (auto simp: rt_object_get_information_def rt_object_container_def split: if_splits)

lemma rt_object_get_length_eq:
  "rt_object_get_length type s =
     (case rt_object_get_information type of None \<Rightarrow> 0 | Some i \<Rightarrow> length (containers s i))"
proof -
  have "fold (\<lambda>_ c. c + 1) xs k = k + length xs" for xs :: "oref list" and k :: nat
    by (induction xs arbitrary: k) auto
  then show ?thesis by (simp add: rt_object_get_length_def split: option.splits)
qed

lemma copy_pointers_take:
  "index < maxlen \<Longrightarrow> copy_pointers xs index maxlen = take (nat (maxlen - index)) xs"
proof (induction xs arbitrary: index)
  case (Cons x xs)
  show ?case
  proof (cases "maxlen \<le> index + 1")
    case True
    then have "nat (maxlen - index) = 1" using Cons.prems by simp
    then show ?thesis using True by simp
  next
    case False
    then have "nat (maxlen - index) = Suc (nat (maxlen - (index + 1)))" by simp
    then show ?thesis using False Cons.IH [of "index + 1"] by simp
  qed
qed simp

lemma rt_object_get_pointers_take:
  "rt_object_get_information type = Some i \<Longrightarrow>
   rt_object_get_pointers type n s = take (nat n) (containers s i)"
  by (simp add: rt_object_get_pointers_def copy_pointers_take)

end
