(* ===== verification/Timer.thy ===== *)
theory Timer
  imports Object
begin

unbundle bit_operations_syntax

text \<open>
  Timers of \<^verbatim>\<open>kernel/src/timer.c\<close>, first part: initialisation, removal, stop,
  control and the sorted insertion. Starting a timer and firing the expired ones
  need the thread operations and are in \<^verbatim>\<open>Timer_Run\<close>.
\<close>

abbreviation timer_flag :: "kernel \<Rightarrow> oref \<Rightarrow> u8" where
  "timer_flag s x \<equiv> obj_flag (objects s x)"

definition timer_init_fields :: "oref \<Rightarrow> timeout_fn \<Rightarrow> u32 \<Rightarrow> u8 \<Rightarrow> kernel \<Rightarrow> kernel" where
  "timer_init_fields x fn time flag s =
     upd_timer x (\<lambda>_. \<lparr>tm_func = fn, tm_init_tick = time, tm_timeout_tick = 0\<rparr>)
       (upd_object x (\<lambda>ob. ob\<lparr>obj_flag := flag AND NOT RT_TIMER_FLAG_ACTIVATED\<rparr>) s)"

definition rt_timer_list_next_timeout :: "oref list \<Rightarrow> kernel \<Rightarrow> u32" where
  "rt_timer_list_next_timeout ts s =
     (case ts of [] \<Rightarrow> RT_TICK_MAX | x # _ \<Rightarrow> tm_timeout_tick (timers s x))"

definition rt_timer_next_timeout_tick :: "kernel \<Rightarrow> u32" where
  "rt_timer_next_timeout_tick s = rt_timer_list_next_timeout (timer_list s) s"

definition timer_remove :: "oref \<Rightarrow> kernel \<Rightarrow> kernel" where
  "timer_remove x s = s\<lparr>timer_list := removeAll x (timer_list s),
     soft_timer_list := removeAll x (soft_timer_list s)\<rparr>"

definition flag_clear :: "oref \<Rightarrow> kernel \<Rightarrow> kernel" where
  "flag_clear x = upd_object x (\<lambda>ob. ob\<lparr>obj_flag := obj_flag ob AND NOT RT_TIMER_FLAG_ACTIVATED\<rparr>)"

definition flag_set :: "oref \<Rightarrow> kernel \<Rightarrow> kernel" where
  "flag_set x = upd_object x (\<lambda>ob. ob\<lparr>obj_flag := obj_flag ob OR RT_TIMER_FLAG_ACTIVATED\<rparr>)"

definition rt_timer_init :: "oref \<Rightarrow> u8 list \<Rightarrow> timeout_fn \<Rightarrow> u32 \<Rightarrow> u8 \<Rightarrow> kernel \<Rightarrow> kernel option" where
  "rt_timer_init x name fn time flag s = do {
     s \<leftarrow> rt_object_init x RT_Object_Class_Timer name s;
     Some (timer_init_fields x fn time flag s) }"

definition rt_timer_detach :: "oref \<Rightarrow> kernel \<Rightarrow> (rt_err \<times> kernel) option" where
  "rt_timer_detach x s =
     (if rt_object_get_type x s = 0 then Some (RT_EOK, s)
      else do {
        _ \<leftarrow> rt_assert (rt_object_get_type x s = RT_Object_Class_Timer);
        _ \<leftarrow> rt_assert (rt_object_is_systemobject x s);
        let s = flag_clear x (timer_remove x s);
        Some (RT_EOK, rt_object_detach x s) })"

definition rt_timer_create ::
  "u8 list \<Rightarrow> timeout_fn \<Rightarrow> u32 \<Rightarrow> u8 \<Rightarrow> nat option \<Rightarrow> kernel \<Rightarrow> (nat option \<times> kernel) option" where
  "rt_timer_create name fn time flag mem s = do {
     (r, s) \<leftarrow> rt_object_allocate RT_Object_Class_Timer name mem s;
     case r of
       None \<Rightarrow> Some (None, s)
     | Some a \<Rightarrow> Some (Some a, timer_init_fields (Obj a) fn time flag s) }"

definition rt_timer_delete :: "oref \<Rightarrow> kernel \<Rightarrow> (rt_err \<times> kernel) option" where
  "rt_timer_delete x s = do {
     _ \<leftarrow> rt_assert (rt_object_get_type x s = RT_Object_Class_Timer);
     _ \<leftarrow> rt_assert (\<not> rt_object_is_systemobject x s);
     let s = flag_clear x (timer_remove x s);
     s \<leftarrow> rt_object_delete x s;
     Some (RT_EOK, s) }"

definition rt_timer_stop :: "oref \<Rightarrow> kernel \<Rightarrow> (rt_err \<times> kernel) option" where
  "rt_timer_stop x s = do {
     _ \<leftarrow> rt_assert (rt_object_get_type x s = RT_Object_Class_Timer);
     if timer_flag s x AND RT_TIMER_FLAG_ACTIVATED = 0 then Some (- RT_ERROR, s)
     else Some (RT_EOK, flag_clear x (timer_remove x s)) }"

datatype timer_cmd = Set_Time | Get_Time | Set_Oneshot | Set_Periodic | Get_State | Other_Cmd

text \<open>The last argument is the word \<^verbatim>\<open>arg\<close> points to; its final value is returned.\<close>

definition rt_timer_control :: "oref \<Rightarrow> timer_cmd \<Rightarrow> u32 \<Rightarrow> kernel \<Rightarrow> (u32 \<times> kernel) option" where
  "rt_timer_control x cmd arg s = do {
     _ \<leftarrow> rt_assert (rt_object_get_type x s = RT_Object_Class_Timer);
     case cmd of
       Get_Time \<Rightarrow> Some (tm_init_tick (timers s x), s)
     | Set_Time \<Rightarrow> Some (arg, upd_timer x (\<lambda>tm. tm\<lparr>tm_init_tick := arg\<rparr>) s)
     | Set_Oneshot \<Rightarrow>
         Some (arg, upd_object x (\<lambda>ob. ob\<lparr>obj_flag := obj_flag ob AND NOT RT_TIMER_FLAG_PERIODIC\<rparr>) s)
     | Set_Periodic \<Rightarrow>
         Some (arg, upd_object x (\<lambda>ob. ob\<lparr>obj_flag := obj_flag ob OR RT_TIMER_FLAG_PERIODIC\<rparr>) s)
     | Get_State \<Rightarrow>
         Some (if timer_flag s x AND RT_TIMER_FLAG_ACTIVATED \<noteq> 0 then 1 else 0, s)
     | Other_Cmd \<Rightarrow> Some (arg, s) }"

text \<open>
  The search loop of \<^verbatim>\<open>rt_timer_start\<close> on the single row of the list: it goes past
  every timer that expires with or before the new one and links the new timer
  in front of the first that expires later, in the order of the 32-bit clock.
\<close>

fun timer_insert :: "(oref \<Rightarrow> u32) \<Rightarrow> oref \<Rightarrow> oref list \<Rightarrow> oref list" where
  "timer_insert tt x [] = [x]"
| "timer_insert tt x (y # ys) =
     (if tt y - tt x = 0 then y # timer_insert tt x ys
      else if tt y - tt x < HALF_TICK then x # y # ys
      else y # timer_insert tt x ys)"

subsection \<open>Order of the timer list\<close>

text \<open>
  The clock wraps, so order is relative to a base tick: the list is sorted by the
  distance of its expiry times from the base, all of them less than half a turn away.
\<close>

definition due_in :: "u32 \<Rightarrow> u32 \<Rightarrow> nat" where
  "due_in b v = unat (v - b)"

definition in_window :: "u32 \<Rightarrow> u32 \<Rightarrow> bool" where
  "in_window b v = (due_in b v < 0x7FFFFFFF)"

definition timer_sorted :: "u32 \<Rightarrow> (oref \<Rightarrow> u32) \<Rightarrow> oref list \<Rightarrow> bool" where
  "timer_sorted b tt ts = (sorted (map (\<lambda>x. due_in b (tt x)) ts) \<and> (\<forall>x \<in> set ts. in_window b (tt x)))"

lemma set_timer_insert [simp]: "set (timer_insert tt x ts) = insert x (set ts)"
  by (induction ts) auto

lemma distinct_timer_insert [simp]:
  "distinct (timer_insert tt x ts) = (x \<notin> set ts \<and> distinct ts)"
  by (induction ts) auto

lemma word_gap:
  fixes a c :: u32
  assumes lt: "unat a < 0x7FFFFFFF" "unat c < 0x7FFFFFFF"
  shows "a - c \<noteq> 0 \<and> a - c < HALF_TICK \<longleftrightarrow> unat c < unat a"
proof (cases "unat c < unat a")
  case True
  then have "unat (a - c) = unat a - unat c" by (simp add: unat_sub word_le_nat_alt)
  then show ?thesis using True lt by (auto simp: word_less_nat_alt)
next
  case False
  then have "a = c \<or> unat a < unat c" by (auto simp: word_unat_eq_iff)
  moreover have "unat (a - c) = 2 ^ 32 - (unat c - unat a)" if "unat a < unat c"
    using that by (simp add: unat_sub_if')
  ultimately show ?thesis using False lt by (auto simp: word_less_nat_alt)
qed

lemma later_iff:
  fixes v w b :: u32
  assumes "in_window b v" "in_window b w"
  shows "v - w \<noteq> 0 \<and> v - w < HALF_TICK \<longleftrightarrow> due_in b w < due_in b v"
  using word_gap [of "v - b" "w - b"] assms by (simp add: in_window_def due_in_def)

lemma timer_insert_sorted:
  assumes "timer_sorted b tt ts" "in_window b (tt x)"
  shows "timer_sorted b tt (timer_insert tt x ts)"
  using assms
proof (induction ts)
  case (Cons y ys)
  have y: "in_window b (tt y)" using Cons.prems by (simp add: timer_sorted_def)
  have IH: "timer_sorted b tt (timer_insert tt x ys)" using Cons by (simp add: timer_sorted_def)
  show ?case
  proof (cases "tt y - tt x \<noteq> 0 \<and> tt y - tt x < HALF_TICK")
    case True
    then have "timer_insert tt x (y # ys) = x # y # ys" by simp
    moreover have "due_in b (tt x) < due_in b (tt y)" using later_iff [OF y Cons.prems(2)] True by blast
    ultimately show ?thesis using Cons.prems by (auto simp: timer_sorted_def)
  next
    case False
    then have "timer_insert tt x (y # ys) = y # timer_insert tt x ys" by auto
    moreover have "due_in b (tt y) \<le> due_in b (tt x)" using later_iff [OF y Cons.prems(2)] False by auto
    ultimately show ?thesis using Cons.prems IH by (auto simp: timer_sorted_def)
  qed
qed (simp add: timer_sorted_def)

lemma timer_insert_split:
  assumes "timer_sorted b tt ts" "in_window b (tt x)"
  shows "\<exists>us vs. ts = us @ vs \<and> timer_insert tt x ts = us @ x # vs \<and>
     (\<forall>u \<in> set us. due_in b (tt u) \<le> due_in b (tt x)) \<and> (\<forall>v \<in> set vs. due_in b (tt x) < due_in b (tt v))"
  using assms
proof (induction ts)
  case (Cons y ys)
  have w: "in_window b (tt y)" and S: "timer_sorted b tt ys" and le: "\<forall>z \<in> set ys. due_in b (tt y) \<le> due_in b (tt z)"
    using Cons.prems(1) by (auto simp: timer_sorted_def)
  note later = later_iff [OF w Cons.prems(2)]
  show ?case
  proof (cases "due_in b (tt x) < due_in b (tt y)")
    case True
    then have "timer_insert tt x (y # ys) = [] @ x # y # ys" using later by auto
    moreover have "\<forall>v \<in> set (y # ys). due_in b (tt x) < due_in b (tt v)" using True le by auto
    ultimately show ?thesis by (intro exI [of _ "[]"] exI [of _ "y # ys"]) simp
  next
    case False
    then have e: "timer_insert tt x (y # ys) = y # timer_insert tt x ys" using later by auto
    obtain us vs where uv: "ys = us @ vs" "timer_insert tt x ys = us @ x # vs"
      "\<forall>u \<in> set us. due_in b (tt u) \<le> due_in b (tt x)" "\<forall>v \<in> set vs. due_in b (tt x) < due_in b (tt v)"
      using Cons.IH [OF S Cons.prems(2)] by blast
    then have "y # ys = (y # us) @ vs" "timer_insert tt x (y # ys) = (y # us) @ x # vs"
      "\<forall>u \<in> set (y # us). due_in b (tt u) \<le> due_in b (tt x)"
      using e False by auto
    then show ?thesis using uv(4) by blast
  qed
qed simp

text \<open>The search loop of \<^verbatim>\<open>rt_timer_start\<close> keeps a timer list sorted by the time left until
  expiry, although the 32-bit tick wraps: it links the new timer behind every timer that
  expires no later and in front of every timer that expires later, provided all of them expire
  less than half a turn of the clock after a common base tick.\<close>

theorem timer_insert_ordered:
  assumes "timer_sorted b tt ts" and "in_window b (tt x)"
  shows "timer_sorted b tt (timer_insert tt x ts) \<and>
     (\<exists>us vs. ts = us @ vs \<and> timer_insert tt x ts = us @ x # vs \<and>
       (\<forall>u \<in> set us. due_in b (tt u) \<le> due_in b (tt x)) \<and> (\<forall>v \<in> set vs. due_in b (tt x) < due_in b (tt v)))"
  using timer_insert_sorted [OF assms] timer_insert_split [OF assms] by blast

text \<open>Expiry times between which the clock wraps.\<close>

definition wrap_times :: "oref \<Rightarrow> u32" where
  "wrap_times x = (case x of TTimer t \<Rightarrow> if t = 0 then 0xFFFFFFF0 else if t = 1 then 5 else 0xFFFFFFF8 | _ \<Rightarrow> 0)"

theorem timer_insert_ordered_witness:
  "timer_sorted 0xFFFFFFF0 wrap_times (timer_insert wrap_times (TTimer 2) [TTimer 0, TTimer 1]) \<and>
     (\<exists>us vs. [TTimer 0, TTimer 1] = us @ vs \<and>
       timer_insert wrap_times (TTimer 2) [TTimer 0, TTimer 1] = us @ TTimer 2 # vs \<and>
       (\<forall>u \<in> set us. due_in 0xFFFFFFF0 (wrap_times u) \<le> due_in 0xFFFFFFF0 (wrap_times (TTimer 2))) \<and>
       (\<forall>v \<in> set vs. due_in 0xFFFFFFF0 (wrap_times (TTimer 2)) < due_in 0xFFFFFFF0 (wrap_times v)))"
  by (rule timer_insert_ordered) (simp_all add: wrap_times_def timer_sorted_def in_window_def due_in_def)

end
