(* ===== verification/Thread.thy ===== *)
theory Thread
  imports Timer
begin

unbundle bit_operations_syntax

text \<open>
  Threads of \<^verbatim>\<open>kernel/src/thread.c\<close>: suspend, resume, timeout, start-up,
  priority change and yield, and the invariant that ties a thread's status to
  the list its node is on and to its built-in timer. Creation and deletion need
  semaphores and are in \<^verbatim>\<open>Thread_Life\<close>.
\<close>

definition rt_thread_self :: "kernel \<Rightarrow> nat option" where
  "rt_thread_self s = cur_thread s"

definition is_thread :: "nat \<Rightarrow> kernel \<Rightarrow> bool" where
  "is_thread t s = (rt_object_get_type (Obj t) s = RT_Object_Class_Thread)"

definition rt_thread_suspend :: "nat \<Rightarrow> kernel \<Rightarrow> (rt_err \<times> kernel) option" where
  "rt_thread_suspend t s = do {
     _ \<leftarrow> rt_assert (is_thread t s);
     let st = stat (threads s t) AND RT_THREAD_STAT_MASK;
     if st \<noteq> RT_THREAD_READY \<and> st \<noteq> RT_THREAD_RUNNING then Some (- RT_ERROR, s)
     else do {
       _ \<leftarrow> rt_assert (st = RT_THREAD_RUNNING \<longrightarrow> cur_thread s = Some t);
       let s = rt_schedule_remove_thread t s;
       let s = upd_thread t (\<lambda>th. th\<lparr>stat := RT_THREAD_SUSPEND OR (stat th AND NOT RT_THREAD_STAT_MASK)\<rparr>) s;
       (_, s) \<leftarrow> rt_timer_stop (TTimer t) s;
       Some (RT_EOK, s) } }"

definition rt_thread_resume :: "nat \<Rightarrow> kernel \<Rightarrow> (rt_err \<times> kernel) option" where
  "rt_thread_resume t s = do {
     _ \<leftarrow> rt_assert (is_thread t s);
     if stat (threads s t) AND RT_THREAD_STAT_MASK \<noteq> RT_THREAD_SUSPEND then Some (- RT_ERROR, s)
     else do {
       let s = tlist_remove t s;
       (_, s) \<leftarrow> rt_timer_stop (TTimer t) s;
       s \<leftarrow> rt_schedule_insert_thread t s;
       Some (RT_EOK, s) } }"

definition rt_thread_timeout :: "nat \<Rightarrow> kernel \<Rightarrow> kernel option" where
  "rt_thread_timeout t s = do {
     _ \<leftarrow> rt_assert (stat (threads s t) AND RT_THREAD_STAT_MASK = RT_THREAD_SUSPEND);
     _ \<leftarrow> rt_assert (is_thread t s);
     let s = upd_thread t (\<lambda>th. th\<lparr>th_error := RT_ETIMEOUT\<rparr>) s;
     let s = tlist_remove t s;
     s \<leftarrow> rt_schedule_insert_thread t s;
     rt_schedule s }"

definition rt_thread_startup :: "nat \<Rightarrow> kernel \<Rightarrow> (rt_err \<times> kernel) option" where
  "rt_thread_startup t s = do {
     _ \<leftarrow> rt_assert (stat (threads s t) AND RT_THREAD_STAT_MASK = RT_THREAD_INIT);
     _ \<leftarrow> rt_assert (is_thread t s);
     let s = upd_thread t (\<lambda>th. (set_priority (init_priority th) th)\<lparr>stat := RT_THREAD_SUSPEND\<rparr>) s;
     (_, s) \<leftarrow> rt_thread_resume t s;
     s \<leftarrow> (if cur_thread s \<noteq> None then rt_schedule s else Some s);
     Some (RT_EOK, s) }"

text \<open>The case \<^verbatim>\<open>RT_THREAD_CTRL_CHANGE_PRIORITY\<close> of \<^verbatim>\<open>rt_thread_control\<close>.\<close>

definition rt_thread_change_priority :: "nat \<Rightarrow> u8 \<Rightarrow> kernel \<Rightarrow> kernel option" where
  "rt_thread_change_priority t p s = do {
     _ \<leftarrow> rt_assert (is_thread t s);
     if stat (threads s t) AND RT_THREAD_STAT_MASK = RT_THREAD_READY then do {
       let s = rt_schedule_remove_thread t s;
       let s = upd_thread t (set_priority p) s;
       rt_schedule_insert_thread t s }
     else Some (upd_thread t (set_priority p) s) }"

definition rt_thread_yield :: "kernel \<Rightarrow> (rt_err \<times> kernel) option" where
  "rt_thread_yield s = do {
     t \<leftarrow> cur_thread s;
     let s = upd_thread t (\<lambda>th. th\<lparr>remaining_tick := th_init_tick th,
                                 stat := stat th OR RT_THREAD_STAT_YIELD\<rparr>) s;
     s \<leftarrow> rt_schedule s;
     Some (RT_EOK, s) }"

fun rt_thread_find_loop :: "(oref \<Rightarrow> rt_object) \<Rightarrow> u8 list \<Rightarrow> oref list \<Rightarrow> oref option option" where
  "rt_thread_find_loop obs name [] = Some None"
| "rt_thread_find_loop obs name (x # xs) = do {
     r \<leftarrow> rt_strncmp (obj_name (obs x)) name RT_NAME_MAX;
     if r = 0 then Some (Some x) else rt_thread_find_loop obs name xs }"

definition rt_thread_find :: "u8 list \<Rightarrow> kernel \<Rightarrow> (oref option \<times> kernel) option" where
  "rt_thread_find name s = do {
     let s = (if cur_thread s \<noteq> None then rt_enter_critical s else s);
     i \<leftarrow> rt_object_get_information RT_Object_Class_Thread;
     r \<leftarrow> rt_thread_find_loop (objects s) name (containers s i);
     s \<leftarrow> (if cur_thread s \<noteq> None then rt_exit_critical s else Some s);
     Some (r, s) }"

subsection \<open>Invariant\<close>

text \<open>
  \<open>types_ok\<close>: a started thread and its timer carry the object types the
  assertions test. \<open>timers_ok\<close>: the timers on the two lists are marked as
  activated and only the built-in timer of a thread calls
  \<^verbatim>\<open>rt_thread_timeout\<close> for it; that timer is on the list of hard timers only
  while the thread is suspended. \<open>waits_ok\<close>: the
  threads on a waiting list are suspended, and the status RUNNING of the
  multiprocessor kernel is not used.
\<close>

definition types_ok :: "kernel \<Rightarrow> bool" where
  "types_ok s = (\<forall>t. tstat s t = RT_THREAD_READY \<or> tstat s t = RT_THREAD_SUSPEND \<longrightarrow>
     is_thread t s \<and> rt_object_get_type (TTimer t) s = RT_Object_Class_Timer \<and>
     tm_func (timers s (TTimer t)) = Thread_Timeout t \<and>
     timer_flag s (TTimer t) AND RT_TIMER_FLAG_PERIODIC = 0 \<and>
     timer_flag s (TTimer t) AND RT_TIMER_FLAG_SOFT_TIMER = 0)"

definition own_func :: "rt_timer \<Rightarrow> oref \<Rightarrow> bool" where
  "own_func tm x = (case tm_func tm of Thread_Timeout t \<Rightarrow> x = TTimer t | User_Timeout _ \<Rightarrow> True)"

lemma own_func_upd [simp]:
  "own_func (tm\<lparr>tm_timeout_tick := v\<rparr>) x = own_func tm x" "own_func (tm\<lparr>tm_init_tick := v\<rparr>) x = own_func tm x"
  by (simp_all add: own_func_def)

definition timers_ok :: "kernel \<Rightarrow> bool" where
  "timers_ok s = (distinct (timer_list s) \<and> distinct (soft_timer_list s) \<and>
     set (timer_list s) \<inter> set (soft_timer_list s) = {} \<and>
     (\<forall>x \<in> set (timer_list s) \<union> set (soft_timer_list s).
        timer_flag s x AND RT_TIMER_FLAG_ACTIVATED \<noteq> 0 \<and>
        rt_object_get_type x s = RT_Object_Class_Timer \<and>
        own_func (timers s x) x) \<and>
     (\<forall>t. TTimer t \<in> set (timer_list s) \<union> set (soft_timer_list s) \<longrightarrow>
        tstat s t = RT_THREAD_SUSPEND))"

definition waits_ok :: "kernel \<Rightarrow> bool" where
  "waits_ok s = ((\<forall>t. tstat s t \<noteq> RT_THREAD_RUNNING) \<and>
     (\<forall>t h. on_list s t = Some h \<longrightarrow> h \<noteq> DefunctQ \<longrightarrow>
        (\<forall>p. h \<noteq> ReadyQ p) \<longrightarrow> tstat s t = RT_THREAD_SUSPEND))"

definition kinv :: "kernel \<Rightarrow> bool" where
  "kinv s = (sched_inv s \<and> types_ok s \<and> timers_ok s \<and> waits_ok s)"

lemma kinvD:
  assumes "kinv s"
  shows "sched_inv s" "types_ok s" "timers_ok s" "waits_ok s" "queues_ok s" "bitmap_ok s" "ready_ok s"
  using assms by (auto simp: kinv_def sched_inv_def)

lemma kinv_cong:
  assumes "threads s' = threads s" "tlists s' = tlists s" "on_list s' = on_list s"
    "ready_table s' = ready_table s" "ready_group s' = ready_group s" "objects s' = objects s"
    "timers s' = timers s" "timer_list s' = timer_list s" "soft_timer_list s' = soft_timer_list s"
  shows "kinv s' = kinv s"
  using assms sched_inv_cong [of s' s]
  by (simp add: kinv_def types_ok_def timers_ok_def waits_ok_def is_thread_def rt_object_get_type_def)

lemma rt_schedule_kinv: "rt_schedule s = Some s' \<Longrightarrow> kinv s' = kinv s"
  using rt_schedule_fields [of s s'] by (intro kinv_cong) simp_all

text \<open>What a started thread is, from the invariant.\<close>

lemma kinv_thread:
  assumes "kinv s" and "tstat s t = RT_THREAD_READY \<or> tstat s t = RT_THREAD_SUSPEND"
  shows "is_thread t s" "rt_object_get_type (TTimer t) s = RT_Object_Class_Timer"
    "masks_ok (threads s t)"
  using assms kinvD [OF assms(1)] by (auto simp: types_ok_def ready_ok_def ready_one_def)


subsection \<open>Stopping the built-in timer\<close>

definition timer_off :: "oref \<Rightarrow> kernel \<Rightarrow> kernel" where
  "timer_off x s = flag_clear x (timer_remove x s)"

lemma timer_off_fields [simp]:
  "threads (timer_off x s) = threads s" "tlists (timer_off x s) = tlists s"
  "on_list (timer_off x s) = on_list s" "ready_table (timer_off x s) = ready_table s"
  "ready_group (timer_off x s) = ready_group s" "timers (timer_off x s) = timers s"
  "timer_list (timer_off x s) = removeAll x (timer_list s)"
  "soft_timer_list (timer_off x s) = removeAll x (soft_timer_list s)"
  "obj_type (objects (timer_off x s) y) = obj_type (objects s y)"
  "obj_name (objects (timer_off x s) y) = obj_name (objects s y)"
  "obj_flag (objects (timer_off x s) y) =
     (if y = x then obj_flag (objects s x) AND NOT 1 else obj_flag (objects s y))"
  "sems (timer_off x s) = sems s" "mutexes (timer_off x s) = mutexes s"
  "events (timer_off x s) = events s" "mailboxes (timer_off x s) = mailboxes s"
  "msgqueues (timer_off x s) = msgqueues s" "mempools (timer_off x s) = mempools s"
  "containers (timer_off x s) = containers s" "cur_thread (timer_off x s) = cur_thread s"
  "lock_nest (timer_off x s) = lock_nest s" "irq_nest (timer_off x s) = irq_nest s"
  "tick (timer_off x s) = tick s" "timer_thread (timer_off x s) = timer_thread s"
  by (simp_all add: timer_off_def flag_clear_def timer_remove_def upd_object_def)

lemma get_type_timer_off [simp]:
  "rt_object_get_type y (timer_off x s) = rt_object_get_type y s"
  "is_thread t (timer_off x s) = is_thread t s"
  by (simp_all add: rt_object_get_type_def is_thread_def)

lemma flag_clear_id: "(f :: u8) AND 1 = 0 \<Longrightarrow> f AND NOT 1 = f"
  by (rule bit_word_eqI)
     (auto simp: bit_and_iff bit_not_iff bit_1_iff and_one_eq bit_0 even_iff_mod_2_eq_zero intro: gr0I)

lemma timer_off_id:
  assumes "timer_flag s x AND 1 = 0" "x \<notin> set (timer_list s)" "x \<notin> set (soft_timer_list s)"
  shows "timer_off x s = s"
  using assms flag_clear_id [of "timer_flag s x"]
  by (simp add: timer_off_def flag_clear_def timer_remove_def upd_object_def)

lemma rt_timer_stop_off:
  assumes "rt_object_get_type x s = RT_Object_Class_Timer"
    and "timer_flag s x AND 1 = 0 \<Longrightarrow> x \<notin> set (timer_list s) \<union> set (soft_timer_list s)"
  shows "\<exists>r. rt_timer_stop x s = Some (r, timer_off x s)"
  using assms timer_off_id [of s x]
  by (cases "timer_flag s x AND 1 = 0") (auto simp: rt_timer_stop_def timer_off_def)

lemma timers_ok_quiet:
  "timers_ok s \<Longrightarrow> timer_flag s x AND 1 = 0 \<Longrightarrow> x \<notin> set (timer_list s) \<union> set (soft_timer_list s)"
  by (auto simp: timers_ok_def)

subsection \<open>Suspend and resume\<close>

definition suspended :: "nat \<Rightarrow> kernel \<Rightarrow> kernel" where
  "suspended t s = timer_off (TTimer t)
     (upd_thread t (\<lambda>th. th\<lparr>stat := RT_THREAD_SUSPEND OR (stat th AND NOT RT_THREAD_STAT_MASK)\<rparr>)
        (rt_schedule_remove_thread t s))"

lemma upd_thread_fields [simp]:
  "threads (upd_thread t f s) = (threads s)(t := f (threads s t))"
  "tlists (upd_thread t f s) = tlists s" "on_list (upd_thread t f s) = on_list s"
  "objects (upd_thread t f s) = objects s" "timers (upd_thread t f s) = timers s"
  "timer_list (upd_thread t f s) = timer_list s"
  "soft_timer_list (upd_thread t f s) = soft_timer_list s"
  "ready_table (upd_thread t f s) = ready_table s" "ready_group (upd_thread t f s) = ready_group s"
  "sems (upd_thread t f s) = sems s" "mutexes (upd_thread t f s) = mutexes s"
  "events (upd_thread t f s) = events s" "mailboxes (upd_thread t f s) = mailboxes s"
  "msgqueues (upd_thread t f s) = msgqueues s" "mempools (upd_thread t f s) = mempools s"
  "containers (upd_thread t f s) = containers s" "cur_thread (upd_thread t f s) = cur_thread s"
  "lock_nest (upd_thread t f s) = lock_nest s" "irq_nest (upd_thread t f s) = irq_nest s"
  "tick (upd_thread t f s) = tick s" "timer_thread (upd_thread t f s) = timer_thread s"
  by (simp_all add: upd_thread_def)

lemma get_type_cong:
  "objects s' = objects s \<Longrightarrow> rt_object_get_type x s' = rt_object_get_type x s"
  "objects s' = objects s \<Longrightarrow> is_thread t s' = is_thread t s"
  by (simp_all add: rt_object_get_type_def is_thread_def)

lemma suspended_fields [simp]:
  "threads (suspended t s) = (threads s)(t := (threads s t)\<lparr>stat :=
     RT_THREAD_SUSPEND OR (stat (threads s t) AND NOT RT_THREAD_STAT_MASK)\<rparr>)"
  "tlists (suspended t s) = tlists (tlist_remove t s)"
  "on_list (suspended t s) = (on_list s)(t := None)"
  "timers (suspended t s) = timers s"
  "timer_list (suspended t s) = removeAll (TTimer t) (timer_list s)"
  "soft_timer_list (suspended t s) = removeAll (TTimer t) (soft_timer_list s)"
  "obj_type (objects (suspended t s) y) = obj_type (objects s y)"
  "obj_flag (objects (suspended t s) y) =
     (if y = TTimer t then obj_flag (objects s y) AND NOT 1 else obj_flag (objects s y))"
  "sems (suspended t s) = sems s" "mutexes (suspended t s) = mutexes s"
  "events (suspended t s) = events s" "mailboxes (suspended t s) = mailboxes s"
  "msgqueues (suspended t s) = msgqueues s" "mempools (suspended t s) = mempools s"
  "cur_thread (suspended t s) = cur_thread s" "lock_nest (suspended t s) = lock_nest s"
  "irq_nest (suspended t s) = irq_nest s" "tick (suspended t s) = tick s"
  "timer_thread (suspended t s) = timer_thread s"
  by (simp_all add: suspended_def kframe)

lemma get_type_suspended [simp]:
  "rt_object_get_type x (suspended t s) = rt_object_get_type x s"
  "is_thread u (suspended t s) = is_thread u s"
  by (simp_all add: rt_object_get_type_def is_thread_def)

lemma flag_bits_clear [simp]:
  fixes f :: u8
  shows "(f AND - 2) AND 2 = f AND 2" "(f AND - 2) AND 4 = f AND 4" "(f AND - 2) AND 1 = 0"
  by (simp_all add: and.assoc)

lemma types_ok_suspended:
  assumes T: "types_ok s" and r: "tstat s t = RT_THREAD_READY \<or> tstat s t = RT_THREAD_SUSPEND"
  shows "types_ok (suspended t s)"
  using assms unfolding types_ok_def by auto

lemma timers_ok_suspended: "timers_ok s \<Longrightarrow> timers_ok (suspended t s)"
  unfolding timers_ok_def by (auto intro: distinct_removeAll)

lemma sched_inv_suspended:
  assumes "sched_inv s" and "masks_ok (threads s t)"
  shows "sched_inv (suspended t s)"
proof -
  let ?u = "upd_thread t (\<lambda>th. th\<lparr>stat := RT_THREAD_SUSPEND OR (stat th AND NOT RT_THREAD_STAT_MASK)\<rparr>)
        (rt_schedule_remove_thread t s)"
  have "detached t ?u"
    using detached_remove [OF assms] by (simp add: detached_upd_thread)
  moreover have "masks_ok (threads ?u t)"
    using assms(2) masks_ok_cong [of "threads ?u t" "threads s t"] by (simp add: kframe)
  ultimately have "sched_inv ?u" by (intro detached_idle [of t]) (auto simp: kframe)
  then show ?thesis
    unfolding suspended_def by (subst sched_inv_cong [of _ ?u]) simp_all
qed

lemma waits_ok_suspended: "waits_ok s \<Longrightarrow> waits_ok (suspended t s)"
  by (auto simp: waits_ok_def)

lemma kinv_suspended:
  assumes "kinv s" and r: "tstat s t = RT_THREAD_READY"
  shows "kinv (suspended t s)"
  unfolding kinv_def
  using kinvD [OF assms(1)] kinv_thread [OF assms(1)] r
  by (auto intro: sched_inv_suspended types_ok_suspended timers_ok_suspended waits_ok_suspended)

lemma rt_thread_suspend_eq:
  assumes I: "kinv s" and r: "tstat s t = RT_THREAD_READY"
  shows "rt_thread_suspend t s = Some (RT_EOK, suspended t s)"
proof -
  let ?u = "upd_thread t (\<lambda>th. th\<lparr>stat := RT_THREAD_SUSPEND OR (stat th AND NOT RT_THREAD_STAT_MASK)\<rparr>)
        (rt_schedule_remove_thread t s)"
  have o: "objects ?u = objects s" "timer_list ?u = timer_list s" "soft_timer_list ?u = soft_timer_list s"
    by (simp_all add: kframe)
  have "\<exists>r. rt_timer_stop (TTimer t) ?u = Some (r, timer_off (TTimer t) ?u)"
    by (rule rt_timer_stop_off)
       (use timers_ok_quiet [OF kinvD(3) [OF I]] kinv_thread [OF I] r o in
          \<open>auto simp: rt_object_get_type_def\<close>)
  then show ?thesis
    using r kinv_thread(1) [OF I] by (auto simp: rt_thread_suspend_def suspended_def Let_def)
qed

text \<open>The steps of a resume, each on a sound kernel.\<close>

lemma kinv_tlist_remove:
  assumes I: "kinv s" and st: "tstat s t = RT_THREAD_SUSPEND"
  shows "kinv (tlist_remove t s)"
proof -
  let ?u = "tlist_remove t s"
  have f: "threads ?u = threads s" "objects ?u = objects s" "timers ?u = timers s"
    "timer_list ?u = timer_list s" "soft_timer_list ?u = soft_timer_list s"
    "ready_table ?u = ready_table s" "ready_group ?u = ready_group s"
    by (auto simp: tlist_remove_def split: option.splits)
  have "\<forall>p. on_list s t \<noteq> Some (ReadyQ p)"
    using ready_okD(1) [OF kinvD(7) [OF I], of t] st by auto
  then have "tlists ?u (ReadyQ p) = tlists s (ReadyQ p)" for p
    by (auto simp: tlist_remove_def split: option.splits)
  then have "bitmap_ok ?u" using kinvD(6) [OF I] f by (simp add: bitmap_ok_def)
  moreover have "ready_ok ?u"
    using kinvD(7) [OF I] st by (auto simp: ready_ok_def ready_one_def f)
  ultimately have "sched_inv ?u"
    using queues_ok_remove [OF kinvD(5) [OF I]] by (simp add: sched_inv_def)
  moreover have "waits_ok ?u" using kinvD(4) [OF I] by (auto simp: waits_ok_def f)
  ultimately show ?thesis
    using kinvD(2,3) [OF I]
    by (simp add: kinv_def types_ok_def timers_ok_def is_thread_def rt_object_get_type_def f)
qed

lemma kinv_timer_off:
  assumes I: "kinv s" shows "kinv (timer_off x s)"
proof -
  have "sched_inv (timer_off x s)"
    using kinvD(1) [OF I] by (subst sched_inv_cong [of _ s]) simp_all
  moreover have "types_ok (timer_off x s)" using kinvD(2) [OF I] by (auto simp: types_ok_def)
  moreover have "timers_ok (timer_off x s)"
    using kinvD(3) [OF I] unfolding timers_ok_def by (auto intro: distinct_removeAll)
  ultimately show ?thesis using kinvD(4) [OF I] by (simp add: kinv_def waits_ok_def)
qed

definition enqueued :: "nat \<Rightarrow> kernel \<Rightarrow> kernel" where
  "enqueued t s = s\<lparr>
     threads := (threads s)(t := (threads s t)\<lparr>stat := RT_THREAD_READY OR (stat (threads s t) AND NOT 7)\<rparr>),
     tlists := (tlists s)(ReadyQ (prio s t) := tlists s (ReadyQ (prio s t)) @ [t]),
     on_list := (on_list s)(t := Some (ReadyQ (prio s t))),
     ready_table := (ready_table s)[unat (number (threads s t)) :=
        ready_table s ! unat (number (threads s t)) OR high_mask (threads s t)],
     ready_group := ready_group s OR number_mask (threads s t)\<rparr>"

lemma insert_thread_enqueued:
  "on_list s t = None \<Longrightarrow> rt_schedule_insert_thread t s = Some (enqueued t s)"
  by (simp add: insert_thread_eq enqueued_def)

lemma enqueued_fields [simp]:
  "threads (enqueued t s) = (threads s)(t := (threads s t)\<lparr>stat := RT_THREAD_READY OR (stat (threads s t) AND NOT 7)\<rparr>)"
  "tlists (enqueued t s) = (tlists s)(ReadyQ (prio s t) := tlists s (ReadyQ (prio s t)) @ [t])"
  "on_list (enqueued t s) = (on_list s)(t := Some (ReadyQ (prio s t)))"
  "objects (enqueued t s) = objects s" "timers (enqueued t s) = timers s"
  "timer_list (enqueued t s) = timer_list s" "soft_timer_list (enqueued t s) = soft_timer_list s"
  "sems (enqueued t s) = sems s" "mutexes (enqueued t s) = mutexes s"
  "events (enqueued t s) = events s" "mailboxes (enqueued t s) = mailboxes s"
  "msgqueues (enqueued t s) = msgqueues s" "mempools (enqueued t s) = mempools s"
  "containers (enqueued t s) = containers s" "cur_thread (enqueued t s) = cur_thread s"
  "lock_nest (enqueued t s) = lock_nest s" "irq_nest (enqueued t s) = irq_nest s"
  "tick (enqueued t s) = tick s" "timer_thread (enqueued t s) = timer_thread s"
  by (simp_all add: enqueued_def)

lemma kinv_detached:
  "kinv s \<Longrightarrow> on_list s t = None \<Longrightarrow> detached t s"
  by (simp add: kinv_def sched_inv_def detached_def ready_ok_def)

lemma kinv_enqueued:
  assumes I: "kinv s" and st: "tstat s t = RT_THREAD_SUSPEND" and on: "on_list s t = None"
    and off: "TTimer t \<notin> set (timer_list s) \<union> set (soft_timer_list s)"
  shows "kinv (enqueued t s)"
proof -
  have m: "masks_ok (threads s t)" using kinv_thread(3) [OF I] st by blast
  have "sched_inv (enqueued t s)"
    using insert_thread_inv [OF kinv_detached [OF I on] m insert_thread_enqueued [OF on]] .
  moreover have "types_ok (enqueued t s)"
    using kinvD(2) [OF I] st by (auto simp: types_ok_def is_thread_def rt_object_get_type_def)
  moreover have "timers_ok (enqueued t s)"
    using kinvD(3) [OF I] off unfolding timers_ok_def by (auto simp: rt_object_get_type_def)
  moreover have "waits_ok (enqueued t s)" using kinvD(4) [OF I] by (auto simp: waits_ok_def)
  ultimately show ?thesis by (simp add: kinv_def)
qed

text \<open>What \<^verbatim>\<open>rt_thread_resume\<close> does to a suspended thread.\<close>

definition resumed :: "nat \<Rightarrow> kernel \<Rightarrow> kernel" where
  "resumed t s = enqueued t (timer_off (TTimer t) (tlist_remove t s))"

lemma tlist_remove_fields [simp]:
  "threads (tlist_remove t s) = threads s" "objects (tlist_remove t s) = objects s"
  "timers (tlist_remove t s) = timers s" "timer_list (tlist_remove t s) = timer_list s"
  "soft_timer_list (tlist_remove t s) = soft_timer_list s"
  "ready_table (tlist_remove t s) = ready_table s" "ready_group (tlist_remove t s) = ready_group s"
  "sems (tlist_remove t s) = sems s" "mutexes (tlist_remove t s) = mutexes s"
  "events (tlist_remove t s) = events s" "mailboxes (tlist_remove t s) = mailboxes s"
  "msgqueues (tlist_remove t s) = msgqueues s" "mempools (tlist_remove t s) = mempools s"
  "containers (tlist_remove t s) = containers s" "cur_thread (tlist_remove t s) = cur_thread s"
  "lock_nest (tlist_remove t s) = lock_nest s" "irq_nest (tlist_remove t s) = irq_nest s"
  "tick (tlist_remove t s) = tick s" "timer_thread (tlist_remove t s) = timer_thread s"
  by (auto simp: tlist_remove_def split: option.splits)

lemma kinv_resumed:
  assumes I: "kinv s" and st: "tstat s t = RT_THREAD_SUSPEND"
  shows "kinv (resumed t s)"
  unfolding resumed_def
  by (rule kinv_enqueued [OF kinv_timer_off [OF kinv_tlist_remove [OF I st]]]) (use st in auto)

lemma rt_thread_resume_eq:
  assumes I: "kinv s" and st: "tstat s t = RT_THREAD_SUSPEND"
  shows "rt_thread_resume t s = Some (RT_EOK, resumed t s)"
proof -
  let ?u = "tlist_remove t s"
  have "\<exists>r. rt_timer_stop (TTimer t) ?u = Some (r, timer_off (TTimer t) ?u)"
    by (rule rt_timer_stop_off)
       (use timers_ok_quiet [OF kinvD(3) [OF I]] kinv_thread [OF I] st in
          \<open>auto simp: rt_object_get_type_def\<close>)
  moreover have "rt_schedule_insert_thread t (timer_off (TTimer t) ?u) = Some (resumed t s)"
    unfolding resumed_def by (rule insert_thread_enqueued) simp
  ultimately show ?thesis
    using st kinv_thread(1) [OF I] by (auto simp: rt_thread_resume_def)
qed

lemma resumed_fields [simp]:
  "threads (resumed t s) = (threads s)(t := (threads s t)\<lparr>stat := RT_THREAD_READY OR (stat (threads s t) AND NOT 7)\<rparr>)"
  "on_list (resumed t s) = (on_list s)(t := Some (ReadyQ (prio s t)))"
  "timers (resumed t s) = timers s"
  "timer_list (resumed t s) = removeAll (TTimer t) (timer_list s)"
  "soft_timer_list (resumed t s) = removeAll (TTimer t) (soft_timer_list s)"
  "obj_type (objects (resumed t s) y) = obj_type (objects s y)"
  "obj_flag (objects (resumed t s) y) =
     (if y = TTimer t then obj_flag (objects s y) AND NOT 1 else obj_flag (objects s y))"
  "sems (resumed t s) = sems s" "mutexes (resumed t s) = mutexes s"
  "events (resumed t s) = events s" "mailboxes (resumed t s) = mailboxes s"
  "msgqueues (resumed t s) = msgqueues s" "mempools (resumed t s) = mempools s"
  "cur_thread (resumed t s) = cur_thread s" "lock_nest (resumed t s) = lock_nest s"
  "irq_nest (resumed t s) = irq_nest s" "tick (resumed t s) = tick s"
  "timer_thread (resumed t s) = timer_thread s"
  by (simp_all add: resumed_def)

lemma resumed_lists:
  assumes "kinv s" and "h \<noteq> ReadyQ (prio s t)"
  shows "tlists (resumed t s) h = removeAll t (tlists s h)"
  using assms tlist_remove_lists [OF kinvD(5) [OF assms(1)]] by (simp add: resumed_def)

lemma resumed_ready:
  assumes "kinv s"
  shows "tlists (resumed t s) (ReadyQ (prio s t)) = removeAll t (tlists s (ReadyQ (prio s t))) @ [t]"
  using assms tlist_remove_lists [OF kinvD(5) [OF assms(1)]] by (simp add: resumed_def)

subsection \<open>Updates of one thread, and waiting lists\<close>

lemma kinv_upd_thread:
  assumes I: "kinv s"
    and f: "stat (f (threads s t)) AND 7 = tstat s t"
      "current_priority (f (threads s t)) = current_priority (threads s t)"
      "number (f (threads s t)) = number (threads s t)"
      "number_mask (f (threads s t)) = number_mask (threads s t)"
      "high_mask (f (threads s t)) = high_mask (threads s t)"
  shows "kinv (upd_thread t f s)"
proof -
  have m: "masks_ok (f (threads s t)) = masks_ok (threads s t)" using f by (intro masks_ok_cong)
  have "sched_inv (upd_thread t f s)"
    using kinvD(5,6,7) [OF I] m f(1,2)
    by (simp add: sched_inv_def queues_ok_def bitmap_ok_def ready_ok_def ready_one_def)
  then show ?thesis
    using kinvD(2,3,4) [OF I] f(1)
    by (simp add: kinv_def types_ok_def timers_ok_def waits_ok_def is_thread_def rt_object_get_type_def)
qed

lemma kinv_wait:
  assumes I: "kinv s" and st: "tstat s t = RT_THREAD_SUSPEND"
    and set: "tlist_set h t xs s = Some s'"
    and xs: "distinct xs" "set xs = insert t (set (tlists s h))"
    and h: "\<forall>p. h \<noteq> ReadyQ p"
  shows "kinv s'"
proof -
  have e: "s' = s\<lparr>tlists := (tlists s)(h := xs), on_list := (on_list s)(t := Some h)\<rparr>"
    using set by (auto simp: tlist_set_def split: if_splits)
  have "sched_inv s'" using sched_inv_wait [OF kinvD(1) [OF I] set xs h] .
  then show ?thesis
    using kinvD(2,3,4) [OF I] st unfolding e
    by (auto simp: kinv_def types_ok_def timers_ok_def waits_ok_def is_thread_def rt_object_get_type_def)
qed

subsection \<open>Timeout and change of priority\<close>

definition timed_out :: "nat \<Rightarrow> kernel \<Rightarrow> kernel" where
  "timed_out t s = enqueued t (tlist_remove t (upd_thread t (\<lambda>th. th\<lparr>th_error := RT_ETIMEOUT\<rparr>) s))"

lemma kinv_timed_out:
  assumes I: "kinv s" and st: "tstat s t = RT_THREAD_SUSPEND"
    and off: "TTimer t \<notin> set (timer_list s) \<union> set (soft_timer_list s)"
  shows "kinv (timed_out t s)"
proof -
  have "kinv (upd_thread t (\<lambda>th. th\<lparr>th_error := RT_ETIMEOUT\<rparr>) s)"
    by (rule kinv_upd_thread [OF I]) simp_all
  then have "kinv (tlist_remove t (upd_thread t (\<lambda>th. th\<lparr>th_error := RT_ETIMEOUT\<rparr>) s))"
    by (rule kinv_tlist_remove) (simp add: st)
  then show ?thesis unfolding timed_out_def by (rule kinv_enqueued) (use st off in auto)
qed

lemma rt_thread_timeout_eq:
  assumes I: "kinv s" and st: "tstat s t = RT_THREAD_SUSPEND"
  shows "rt_thread_timeout t s = rt_schedule (timed_out t s)"
proof -
  let ?u = "tlist_remove t (upd_thread t (\<lambda>th. th\<lparr>th_error := RT_ETIMEOUT\<rparr>) s)"
  have "rt_schedule_insert_thread t ?u = Some (timed_out t s)"
    unfolding timed_out_def by (rule insert_thread_enqueued) simp
  then show ?thesis using st kinv_thread(1) [OF I] by (simp add: rt_thread_timeout_def)
qed

lemma remove_set_insert_kinv:
  assumes I: "kinv s" and st: "tstat s t = RT_THREAD_READY"
  shows "kinv (enqueued t (upd_thread t (set_priority p) (rt_schedule_remove_thread t s)))"
    (is "kinv (enqueued t ?u)")
proof -
  have m: "masks_ok (threads s t)" using kinv_thread(3) [OF I] st by blast
  have D: "detached t ?u"
    using detached_remove [OF kinvD(1) [OF I] m] by (simp add: detached_upd_thread)
  have on: "on_list ?u t = None" by (simp add: kframe)
  have "sched_inv (enqueued t ?u)"
    by (rule insert_thread_inv [OF D _ insert_thread_enqueued [OF on]]) (simp add: kframe)
  moreover have "types_ok (enqueued t ?u)"
    using kinvD(2) [OF I] st
    by (auto simp: types_ok_def is_thread_def rt_object_get_type_def kframe)
  moreover have "timers_ok (enqueued t ?u)"
    using kinvD(3) [OF I] st unfolding timers_ok_def by (auto simp: rt_object_get_type_def kframe)
  moreover have "waits_ok (enqueued t ?u)" using kinvD(4) [OF I] by (auto simp: waits_ok_def kframe)
  ultimately show ?thesis by (simp add: kinv_def)
qed

lemma set_priority_stat [simp]: "stat (set_priority p th) = stat th"
  by (simp add: set_priority_def)

lemma kinv_change_priority:
  assumes I: "kinv s" and th: "is_thread t s"
  shows "\<exists>s'. rt_thread_change_priority t p s = Some s' \<and> kinv s' \<and>
     current_priority (threads s' t) = p"
proof (cases "tstat s t = RT_THREAD_READY")
  case True
  let ?u = "upd_thread t (set_priority p) (rt_schedule_remove_thread t s)"
  have "rt_schedule_insert_thread t ?u = Some (enqueued t ?u)"
    by (rule insert_thread_enqueued) (simp add: kframe)
  then show ?thesis using True th remove_set_insert_kinv [OF I True, of p]
    by (auto simp: rt_thread_change_priority_def Let_def set_priority_def)
next
  case False
  let ?u = "upd_thread t (set_priority p) s"
  have "sched_inv ?u"
    using kinvD(5,6,7) [OF I] False
    by (simp add: sched_inv_def queues_ok_def bitmap_ok_def ready_ok_def ready_one_def)
  then have "kinv ?u"
    using kinvD(2,3,4) [OF I]
    by (simp add: kinv_def types_ok_def timers_ok_def waits_ok_def is_thread_def rt_object_get_type_def)
  then show ?thesis using False th by (simp add: rt_thread_change_priority_def set_priority_def)
qed

end
