(* ===== verification/Timer_Run.thy ===== *)
theory Timer_Run
  imports Thread
begin

unbundle bit_operations_syntax

text \<open>
  Timers of \<^verbatim>\<open>kernel/src/timer.c\<close>, second part: starting a timer, firing the
  expired ones from the tick interrupt and from the timer thread, and the calls of
  \<^verbatim>\<open>thread.c\<close> that put the caller to sleep on its built-in timer.

  The functions of application timers are not part of the kernel: they are the
  parameter \<open>cb\<close>, applied to the number a \<open>User_Timeout\<close> carries. A call that gives
  up the processor ends with \<open>Blocked\<close>; what the thread does once it is scheduled
  again is the definition with the suffix \<open>_wake\<close>.
\<close>

datatype 'a outcome = Ret 'a | Blocked

definition rt_timer_start :: "oref \<Rightarrow> kernel \<Rightarrow> (rt_err \<times> kernel) option" where
  "rt_timer_start x s = do {
     _ \<leftarrow> rt_assert (rt_object_get_type x s = RT_Object_Class_Timer);
     let s = flag_clear x (timer_remove x s);
     _ \<leftarrow> rt_assert (tm_init_tick (timers s x) < HALF_TICK);
     let s = upd_timer x (\<lambda>tm. tm\<lparr>tm_timeout_tick := tick s + tm_init_tick tm\<rparr>) s;
     let soft = (timer_flag s x AND RT_TIMER_FLAG_SOFT_TIMER \<noteq> 0);
     let s = (if soft
       then s\<lparr>soft_timer_list := timer_insert (\<lambda>y. tm_timeout_tick (timers s y)) x (soft_timer_list s)\<rparr>
       else s\<lparr>timer_list := timer_insert (\<lambda>y. tm_timeout_tick (timers s y)) x (timer_list s)\<rparr>);
     let s = flag_set x s;
     if soft \<and> tstat s (timer_thread s) \<noteq> RT_THREAD_READY then do {
       (_, s) \<leftarrow> rt_thread_resume (timer_thread s) s;
       s \<leftarrow> rt_schedule s;
       Some (RT_EOK, s) }
     else Some (RT_EOK, s) }"

definition timeout_call :: "(nat \<Rightarrow> kernel \<Rightarrow> kernel option) \<Rightarrow> timeout_fn \<Rightarrow> kernel \<Rightarrow> kernel option" where
  "timeout_call cb fn s =
     (case fn of Thread_Timeout t \<Rightarrow> rt_thread_timeout t s | User_Timeout n \<Rightarrow> cb n s)"

text \<open>What both check loops do after the timeout function has run.\<close>

definition timer_rearm :: "oref \<Rightarrow> kernel \<Rightarrow> kernel option" where
  "timer_rearm x s =
     (if timer_flag s x AND RT_TIMER_FLAG_PERIODIC \<noteq> 0 \<and> timer_flag s x AND RT_TIMER_FLAG_ACTIVATED \<noteq> 0
      then do { (_, s) \<leftarrow> rt_timer_start x (flag_clear x s); Some s }
      else Some (flag_clear x s))"

definition expired :: "u32 \<Rightarrow> kernel \<Rightarrow> oref \<Rightarrow> bool" where
  "expired now s x = (now - tm_timeout_tick (timers s x) < HALF_TICK)"

partial_function (option) rt_timer_check_loop ::
  "(nat \<Rightarrow> kernel \<Rightarrow> kernel option) \<Rightarrow> u32 \<Rightarrow> kernel \<Rightarrow> kernel option" where
  "rt_timer_check_loop cb current_tick s =
     (case timer_list s of
        [] \<Rightarrow> Some s
      | x # _ \<Rightarrow>
          if expired current_tick s x then do {
            let s = timer_remove x s;
            s \<leftarrow> timeout_call cb (tm_func (timers s x)) s;
            let current_tick = tick s;
            s \<leftarrow> timer_rearm x s;
            rt_timer_check_loop cb current_tick s }
          else Some s)"

declare rt_timer_check_loop.simps [code]

definition rt_timer_check :: "(nat \<Rightarrow> kernel \<Rightarrow> kernel option) \<Rightarrow> kernel \<Rightarrow> kernel option" where
  "rt_timer_check cb s = rt_timer_check_loop cb (tick s) s"

text \<open>
  \<^verbatim>\<open>n->next\<close> of a node: the next element, \<open>None\<close> for the list head, and the node
  itself once it has been unlinked (\<^verbatim>\<open>rt_list_remove\<close> links it to itself).
\<close>

fun soft_next :: "oref list \<Rightarrow> oref \<Rightarrow> oref option" where
  "soft_next [] x = Some x"
| "soft_next (y # ys) x = (if y = x then (case ys of [] \<Rightarrow> None | z # _ \<Rightarrow> Some z) else soft_next ys x)"

partial_function (option) rt_soft_timer_check_loop ::
  "(nat \<Rightarrow> kernel \<Rightarrow> kernel option) \<Rightarrow> u32 \<Rightarrow> oref option \<Rightarrow> kernel \<Rightarrow> kernel option" where
  "rt_soft_timer_check_loop cb current_tick n s =
     (case n of
        None \<Rightarrow> Some s
      | Some x \<Rightarrow>
          if expired current_tick s x then do {
            let n = soft_next (soft_timer_list s) x;
            let s = timer_remove x s;
            s \<leftarrow> timeout_call cb (tm_func (timers s x)) s;
            let current_tick = tick s;
            s \<leftarrow> timer_rearm x s;
            rt_soft_timer_check_loop cb current_tick n s }
          else Some s)"

declare rt_soft_timer_check_loop.simps [code]

definition rt_soft_timer_check :: "(nat \<Rightarrow> kernel \<Rightarrow> kernel option) \<Rightarrow> kernel \<Rightarrow> kernel option" where
  "rt_soft_timer_check cb s =
     rt_soft_timer_check_loop cb (tick s) (case soft_timer_list s of [] \<Rightarrow> None | x # _ \<Rightarrow> Some x) s"

definition rt_system_timer_init :: "kernel \<Rightarrow> kernel" where
  "rt_system_timer_init s = s\<lparr>timer_list := []\<rparr>"

subsection \<open>Sleeping\<close>

definition rt_thread_sleep_wake :: "nat \<Rightarrow> kernel \<Rightarrow> rt_err outcome \<times> kernel" where
  "rt_thread_sleep_wake t s =
     (Ret RT_EOK, if th_error (threads s t) = RT_ETIMEOUT
        then upd_thread t (\<lambda>th. th\<lparr>th_error := RT_EOK\<rparr>) s else s)"

text \<open>Suspend the caller, arm its timer and give up the processor.\<close>

definition sleep_on_timer :: "nat \<Rightarrow> u32 \<Rightarrow> kernel \<Rightarrow> kernel option" where
  "sleep_on_timer t ticks s = do {
     (_, s) \<leftarrow> rt_thread_suspend t s;
     (_, s) \<leftarrow> rt_timer_control (TTimer t) Set_Time ticks s;
     (_, s) \<leftarrow> rt_timer_start (TTimer t) s;
     rt_schedule s }"

definition rt_thread_sleep :: "u32 \<Rightarrow> kernel \<Rightarrow> (rt_err outcome \<times> kernel) option" where
  "rt_thread_sleep ticks s = do {
     t \<leftarrow> cur_thread s;
     _ \<leftarrow> rt_assert (is_thread t s);
     s \<leftarrow> sleep_on_timer t ticks s;
     if cur_thread s = Some t then Some (rt_thread_sleep_wake t s) else Some (Blocked, s) }"

definition rt_thread_delay :: "u32 \<Rightarrow> kernel \<Rightarrow> (rt_err outcome \<times> kernel) option" where
  "rt_thread_delay ticks s = rt_thread_sleep ticks s"

definition rt_thread_delay_until_wake :: "nat \<Rightarrow> kernel \<Rightarrow> rt_err outcome \<times> kernel" where
  "rt_thread_delay_until_wake t s =
     (Ret RT_EOK, if th_error (threads s t) = - RT_ETIMEOUT
        then upd_thread t (\<lambda>th. th\<lparr>th_error := RT_EOK\<rparr>) s else s)"

text \<open>The first component of the result is the new value of \<^verbatim>\<open>*tick\<close>.\<close>

definition rt_thread_delay_until ::
  "u32 \<Rightarrow> u32 \<Rightarrow> kernel \<Rightarrow> (u32 \<times> rt_err outcome \<times> kernel) option" where
  "rt_thread_delay_until from inc_tick s = do {
     t \<leftarrow> cur_thread s;
     _ \<leftarrow> rt_assert (is_thread t s);
     let cur_tick = tick s;
     if cur_tick - from < inc_tick then do {
       let from = from + inc_tick;
       s \<leftarrow> sleep_on_timer t (from - cur_tick) s;
       if cur_thread s = Some t then Some (from, rt_thread_delay_until_wake t s)
       else Some (from, Blocked, s) }
     else Some (cur_tick, Ret RT_EOK, s) }"

text \<open>
  One pass of the loop of \<^verbatim>\<open>rt_thread_timer_entry\<close>, in two parts: waiting for the
  next expiry (which gives up the processor), then the check of the soft timers.
\<close>

definition rt_thread_timer_entry_wait :: "kernel \<Rightarrow> (unit outcome \<times> kernel) option" where
  "rt_thread_timer_entry_wait s = do {
     t \<leftarrow> cur_thread s;
     let next_timeout = rt_timer_list_next_timeout (soft_timer_list s) s;
     if next_timeout = RT_TICK_MAX then do {
       (_, s) \<leftarrow> rt_thread_suspend t s;
       s \<leftarrow> rt_schedule s;
       Some (if cur_thread s = Some t then Ret () else Blocked, s) }
     else if next_timeout - tick s < HALF_TICK then do {
       (r, s) \<leftarrow> rt_thread_delay (next_timeout - tick s) s;
       Some (case r of Ret _ \<Rightarrow> Ret () | Blocked \<Rightarrow> Blocked, s) }
     else Some (Ret (), s) }"

definition rt_thread_timer_entry_pass ::
  "(nat \<Rightarrow> kernel \<Rightarrow> kernel option) \<Rightarrow> kernel \<Rightarrow> (unit outcome \<times> kernel) option" where
  "rt_thread_timer_entry_pass cb s = do {
     (r, s) \<leftarrow> rt_thread_timer_entry_wait s;
     case r of Blocked \<Rightarrow> Some (Blocked, s)
     | Ret _ \<Rightarrow> do { s \<leftarrow> rt_soft_timer_check cb s; Some (Ret (), s) } }"

subsection \<open>Switching always succeeds on a live kernel\<close>

text \<open>
  A running kernel has a current thread, at least one ready thread (the idle thread
  never suspends) and started threads whose stack pointers are inside their stacks.
\<close>

definition live :: "kernel \<Rightarrow> bool" where
  "live s = (cur_thread s \<noteq> None \<and> (\<exists>t. tstat s t = RT_THREAD_READY) \<and>
     (\<forall>t. tstat s t = RT_THREAD_READY \<or> tstat s t = RT_THREAD_SUSPEND \<longrightarrow> stack_ok (threads s t)))"

text \<open>The thread a switch must select: first in the queue of the best ready priority.\<close>

definition top_ready :: "kernel \<Rightarrow> nat \<Rightarrow> bool" where
  "top_ready s t = (tstat s t = RT_THREAD_READY \<and> hd (tlists s (ReadyQ (prio s t))) = t \<and>
     (\<forall>u. tstat s u = RT_THREAD_READY \<longrightarrow> prio s t \<le> prio s u))"

lemma ready_member:
  "sched_inv s \<Longrightarrow> t \<in> set (tlists s (ReadyQ p)) \<longleftrightarrow> tstat s t = RT_THREAD_READY \<and> p = prio s t"
  using queues_okD(2) [OF sched_invD(1)] ready_okD(1) [OF sched_invD(3)] by blast

lemma schedule_top:
  assumes I: "sched_inv s" and L: "live s" and l: "lock_nest s = 0"
  shows "\<exists>s' t. rt_schedule s = Some s' \<and> cur_thread s' = Some t \<and> top_ready s t"
proof -
  obtain u where u: "tstat s u = RT_THREAD_READY" using L by (auto simp: live_def)
  then have "tlists s (ReadyQ (prio s u)) \<noteq> []" using ready_member [OF I, of u "prio s u"] by force
  then obtain h where h: "h < 256" "tlists s (ReadyQ h) \<noteq> []" "\<forall>q<h. tlists s (ReadyQ q) = []"
    using highest_ready_priority_spec [OF sched_invD(2) [OF I], of "prio s u"] by auto
  then obtain t rest where q: "tlists s (ReadyQ h) = t # rest" by (auto simp: neq_Nil_conv)
  have t: "tstat s t = RT_THREAD_READY" "h = prio s t"
    using ready_member [OF I, of t h] q by auto
  have "prio s t \<le> prio s v" if "tstat s v = RT_THREAD_READY" for v
    using h(3) ready_member [OF I, of v "prio s v"] that t(2)
    by (metis empty_iff list.set(1) not_le_imp_less)
  then have "top_ready s t" using t q by (simp add: top_ready_def)
  moreover have "stack_ok (threads s t)" using L t(1) by (simp add: live_def)
  moreover obtain c where "cur_thread s = Some c" using L by (auto simp: live_def)
  ultimately show ?thesis
    using rt_schedule_picks [OF sched_invD(2) [OF I] l _ h(1) q h(3)] by blast
qed

lemma live_cong:
  "threads s' = threads s \<Longrightarrow> cur_thread s' \<noteq> None \<Longrightarrow> live s \<Longrightarrow> live s'"
  by (simp add: live_def)

lemma schedule_total:
  assumes "kinv s" and "live s"
  shows "\<exists>s'. rt_schedule s = Some s' \<and> kinv s' \<and> live s'"
proof -
  have "\<exists>s'. rt_schedule s = Some s' \<and> cur_thread s' \<noteq> None"
    using schedule_top [OF kinvD(1) [OF assms(1)] assms(2)] rt_schedule_locked [of s] assms(2)
    by (cases "lock_nest s = 0") (auto simp: live_def)
  then show ?thesis
    using rt_schedule_kinv rt_schedule_fields(1) live_cong assms by metis
qed

subsection \<open>Starting the timer of a suspended thread\<close>

definition armed :: "oref \<Rightarrow> kernel \<Rightarrow> kernel" where
  "armed x s = (let s = upd_timer x (\<lambda>tm. tm\<lparr>tm_timeout_tick := tick s + tm_init_tick tm\<rparr>) (timer_off x s)
     in flag_set x (s\<lparr>timer_list := timer_insert (\<lambda>y. tm_timeout_tick (timers s y)) x (timer_list s)\<rparr>))"

lemma armed_fields [simp]:
  "threads (armed x s) = threads s" "tlists (armed x s) = tlists s"
  "on_list (armed x s) = on_list s" "ready_table (armed x s) = ready_table s"
  "ready_group (armed x s) = ready_group s"
  "timers (armed x s) = (timers s)(x := (timers s x)\<lparr>tm_timeout_tick := tick s + tm_init_tick (timers s x)\<rparr>)"
  "timer_list (armed x s) = timer_insert (\<lambda>y. tm_timeout_tick (timers (armed x s) y)) x (removeAll x (timer_list s))"
  "soft_timer_list (armed x s) = removeAll x (soft_timer_list s)"
  "obj_type (objects (armed x s) y) = obj_type (objects s y)"
  "obj_flag (objects (armed x s) y) =
     (if y = x then (obj_flag (objects s x) AND NOT 1) OR 1 else obj_flag (objects s y))"
  "sems (armed x s) = sems s" "mutexes (armed x s) = mutexes s"
  "events (armed x s) = events s" "mailboxes (armed x s) = mailboxes s"
  "msgqueues (armed x s) = msgqueues s" "mempools (armed x s) = mempools s"
  "containers (armed x s) = containers s" "cur_thread (armed x s) = cur_thread s"
  "lock_nest (armed x s) = lock_nest s" "irq_nest (armed x s) = irq_nest s"
  "tick (armed x s) = tick s" "timer_thread (armed x s) = timer_thread s"
  by (simp_all add: armed_def flag_set_def upd_object_def upd_timer_def Let_def fun_upd_def)

lemma flag_bits_set [simp]:
  fixes f :: u8
  shows "((f AND - 2) OR 1) AND 2 = f AND 2" "((f AND - 2) OR 1) AND 4 = f AND 4"
    "((f AND - 2) OR 1) AND 1 = 1"
  by (simp_all add: word_ao_dist)

lemma get_type_armed [simp]:
  "rt_object_get_type y (armed x s) = rt_object_get_type y s" "is_thread t (armed x s) = is_thread t s"
  by (simp_all add: rt_object_get_type_def is_thread_def)

lemma kinv_armed:
  assumes I: "kinv s" and st: "tstat s t = RT_THREAD_SUSPEND"
  shows "kinv (armed (TTimer t) s)"
proof -
  let ?x = "TTimer t"
  have ty: "rt_object_get_type ?x s = RT_Object_Class_Timer" "own_func (timers s ?x) ?x"
    using kinvD(2) [OF I] st by (auto simp: types_ok_def own_func_def)
  have "sched_inv (armed ?x s)"
    using kinvD(1) [OF I] by (subst sched_inv_cong [of _ s]) simp_all
  moreover have "types_ok (armed ?x s)" using kinvD(2) [OF I] by (auto simp: types_ok_def)
  moreover have "timers_ok (armed ?x s)"
    using kinvD(3) [OF I] st ty unfolding timers_ok_def by (auto intro: distinct_removeAll)
  ultimately show ?thesis using kinvD(4) [OF I] by (simp add: kinv_def waits_ok_def)
qed

lemma rt_timer_start_thread:
  assumes I: "kinv s" and st: "tstat s t = RT_THREAD_SUSPEND"
    and tk: "tm_init_tick (timers s (TTimer t)) < HALF_TICK"
  shows "rt_timer_start (TTimer t) s = Some (RT_EOK, armed (TTimer t) s)"
proof -
  have "timer_flag s (TTimer t) AND 4 = 0" "rt_object_get_type (TTimer t) s = RT_Object_Class_Timer"
    using kinvD(2) [OF I] st by (auto simp: types_ok_def)
  then show ?thesis using tk
    by (simp add: rt_timer_start_def armed_def timer_off_def [symmetric] Let_def upd_timer_def)
qed

subsection \<open>Firing the timers of sleeping threads\<close>

lemma timer_remove_fields [simp]:
  "threads (timer_remove x s) = threads s" "tlists (timer_remove x s) = tlists s"
  "on_list (timer_remove x s) = on_list s" "ready_table (timer_remove x s) = ready_table s"
  "ready_group (timer_remove x s) = ready_group s" "timers (timer_remove x s) = timers s"
  "objects (timer_remove x s) = objects s" "tick (timer_remove x s) = tick s"
  "cur_thread (timer_remove x s) = cur_thread s"
  "timer_list (timer_remove x s) = removeAll x (timer_list s)"
  "soft_timer_list (timer_remove x s) = removeAll x (soft_timer_list s)"
  by (simp_all add: timer_remove_def)

lemma kinv_timer_remove: "kinv s \<Longrightarrow> kinv (timer_remove x s)"
proof -
  assume I: "kinv s"
  have "sched_inv (timer_remove x s)"
    using kinvD(1) [OF I] by (subst sched_inv_cong [of _ s]) simp_all
  moreover have "timers_ok (timer_remove x s)"
    using kinvD(3) [OF I] unfolding timers_ok_def
    by (auto simp: rt_object_get_type_def intro: distinct_removeAll)
  ultimately show ?thesis
    using kinvD(2,4) [OF I]
    by (simp add: kinv_def types_ok_def waits_ok_def is_thread_def rt_object_get_type_def)
qed

lemma flag_clear_off:
  "x \<notin> set (timer_list s) \<union> set (soft_timer_list s) \<Longrightarrow> flag_clear x s = timer_off x s"
  by (simp add: timer_off_def timer_remove_def)

definition fired :: "rt_thread \<Rightarrow> rt_thread" where
  "fired th = th\<lparr>th_error := RT_ETIMEOUT, stat := RT_THREAD_READY OR (stat th AND NOT RT_THREAD_STAT_MASK)\<rparr>"

lemma timed_out_fields [simp]:
  "threads (timed_out t s) = (threads s)(t := fired (threads s t))"
  "timers (timed_out t s) = timers s" "objects (timed_out t s) = objects s"
  "timer_list (timed_out t s) = timer_list s"
  "soft_timer_list (timed_out t s) = soft_timer_list s" "tick (timed_out t s) = tick s"
  "cur_thread (timed_out t s) = cur_thread s" "lock_nest (timed_out t s) = lock_nest s"
  by (simp_all add: timed_out_def fired_def)

lemma stack_ok_fired [simp]: "stack_ok (fired th) = stack_ok th"
  by (simp add: stack_ok_def stack_check_def fired_def)

lemma fired_stat [simp]: "stat (fired th) AND 7 = 1" "th_error (fired th) = RT_ETIMEOUT"
  by (simp_all add: fired_def)

lemma live_timed_out:
  "live s \<Longrightarrow> tstat s t = RT_THREAD_SUSPEND \<Longrightarrow> live (timed_out t s)"
  by (auto simp: live_def)

lemma fire_step:
  assumes I: "kinv s" and L: "live s" and l: "timer_list s = TTimer t # ts"
  shows "\<exists>u s'. timeout_call cb (tm_func (timers s (TTimer t))) (timer_remove (TTimer t) s) = Some u \<and>
     timer_rearm (TTimer t) u = Some s' \<and> kinv s' \<and> live s' \<and> tick u = tick s \<and> tick s' = tick s \<and>
     timer_list s' = ts \<and> timers s' = timers s \<and>
     threads s' = (threads s)(t := fired (threads s t)) \<and> tstat s t = RT_THREAD_SUSPEND"
proof -
  let ?x = "TTimer t" and ?r = "timer_remove (TTimer t) s"
  have d: "distinct (?x # ts)" "?x \<notin> set (soft_timer_list s)" and st: "tstat s t = RT_THREAD_SUSPEND"
    using kinvD(3) [OF I] l by (auto simp: timers_ok_def)
  have T: "tm_func (timers s ?x) = Thread_Timeout t" "timer_flag s ?x AND 2 = 0"
    using kinvD(2) [OF I] st by (auto simp: types_ok_def)
  have K: "kinv ?r" using kinv_timer_remove [OF I] .
  have off: "?x \<notin> set (timer_list ?r) \<union> set (soft_timer_list ?r)" by simp
  have "kinv (timed_out t ?r)" by (rule kinv_timed_out [OF K _ off]) (simp add: st)
  moreover have "live (timed_out t ?r)"
    using L st by (intro live_timed_out) (auto simp: live_def)
  ultimately obtain u where u: "rt_schedule (timed_out t ?r) = Some u" "kinv u" "live u"
    using schedule_total by blast
  note f = rt_schedule_fields [OF u(1)]
  have "timeout_call cb (tm_func (timers s ?x)) ?r = Some u"
    using u(1) rt_thread_timeout_eq [OF K, of t] st by (simp add: timeout_call_def T)
  moreover have "timer_rearm ?x u = Some (timer_off ?x u)"
    using T(2) f off by (simp add: timer_rearm_def flag_clear_off)
  moreover have "kinv (timer_off ?x u)" using kinv_timer_off [OF u(2)] .
  moreover have "live (timer_off ?x u)" using u(3) by (simp add: live_def)
  ultimately show ?thesis using f d l st by (auto simp: removeAll_id)
qed

lemma timer_check_loop_fires:
  assumes "kinv s" and "live s" and "\<forall>x \<in> set (timer_list s). \<exists>t. x = TTimer t"
  shows "\<exists>s'. rt_timer_check_loop cb (tick s) s = Some s' \<and> kinv s' \<and> live s' \<and>
     timer_list s' = dropWhile (expired (tick s) s) (timer_list s) \<and>
     (\<forall>t. threads s' t = (if TTimer t \<in> set (takeWhile (expired (tick s) s) (timer_list s))
        then fired (threads s t) else threads s t))"
  using assms
proof (induction "timer_list s" arbitrary: s)
  case Nil
  then show ?case by (subst rt_timer_check_loop.simps) simp
next
  case (Cons x ts)
  note l = Cons.hyps(2) [symmetric]
  show ?case
  proof (cases "expired (tick s) s x")
    case True
    obtain t where x: "x = TTimer t" using Cons.prems(3) l by auto
    obtain u s1 where u: "timeout_call cb (tm_func (timers s x)) (timer_remove x s) = Some u"
      "timer_rearm x u = Some s1" "tick u = tick s"
      and s1: "kinv s1" "live s1" "tick s1 = tick s" "timer_list s1 = ts" "timers s1 = timers s"
      "threads s1 = (threads s)(t := fired (threads s t))"
      using fire_step [OF Cons.prems(1,2) l [unfolded x], of cb] x by blast
    have e: "expired (tick s1) s1 = expired (tick s) s" using s1 by (simp add: expired_def fun_eq_iff)
    have "\<forall>x \<in> set (timer_list s1). \<exists>t. x = TTimer t" using Cons.prems(3) l s1(4) by simp
    then obtain s' where s': "rt_timer_check_loop cb (tick s1) s1 = Some s'" "kinv s'" "live s'"
      "timer_list s' = dropWhile (expired (tick s) s) ts"
      "\<forall>t. threads s' t = (if TTimer t \<in> set (takeWhile (expired (tick s) s) ts)
        then fired (threads s1 t) else threads s1 t)"
      using Cons.hyps(1) [OF s1(4) [symmetric] s1(1,2)] e s1(4) by auto
    have "rt_timer_check_loop cb (tick s) s = Some s'"
      by (subst rt_timer_check_loop.simps) (use l True u s1(3) s'(1) in simp)
    moreover have "distinct (x # ts)" using kinvD(3) [OF Cons.prems(1)] l by (simp add: timers_ok_def)
    then have "TTimer t \<notin> set (takeWhile (expired (tick s) s) ts)"
      using x by (auto dest: set_takeWhileD)
    ultimately show ?thesis
      using s'(2-5) True l x s1(6) by auto
  next
    case False
    then have "rt_timer_check_loop cb (tick s) s = Some s"
      by (subst rt_timer_check_loop.simps) (simp add: l)
    then show ?thesis using False Cons.prems(1,2) l by simp
  qed
qed

end
