(* ===== verification/Clock.thy ===== *)
theory Clock
  imports Timer_Run
begin

unbundle bit_operations_syntax

text \<open>
  The system clock of \<^verbatim>\<open>kernel/src/clock.c\<close>, with 100 ticks per second.
\<close>

definition rt_tick_get :: "kernel \<Rightarrow> u32" where
  "rt_tick_get s = tick s"

definition rt_uptime_tick_get :: "kernel \<Rightarrow> 64 word" where
  "rt_uptime_tick_get s = tick_uptime s"

definition rt_tick_set :: "u32 \<Rightarrow> kernel \<Rightarrow> kernel" where
  "rt_tick_set n s = s\<lparr>tick := n\<rparr>"

text \<open>The time slice of the running thread; the interrupt part of \<^verbatim>\<open>rt_tick_increase\<close>.\<close>

definition tick_account :: "kernel \<Rightarrow> kernel option" where
  "tick_account s = do {
     t \<leftarrow> cur_thread s;
     let s = s\<lparr>tick := tick s + 1, tick_uptime := tick_uptime s + 1\<rparr>;
     let s = upd_thread t (\<lambda>th. th\<lparr>remaining_tick := remaining_tick th - 1\<rparr>) s;
     if remaining_tick (threads s t) = 0 then
       rt_schedule (upd_thread t (\<lambda>th. th\<lparr>remaining_tick := th_init_tick th,
                                       stat := stat th OR RT_THREAD_STAT_YIELD\<rparr>) s)
     else Some s }"

definition rt_tick_increase :: "(nat \<Rightarrow> kernel \<Rightarrow> kernel option) \<Rightarrow> kernel \<Rightarrow> kernel option" where
  "rt_tick_increase cb s = do { s \<leftarrow> tick_account s; rt_timer_check cb s }"

definition rt_tick_from_millisecond :: "u32 \<Rightarrow> u32" where
  "rt_tick_from_millisecond ms =
     (if sint ms < 0 then RT_WAITING_FOREVER
      else of_int (100 * (sint ms div 1000)) + of_int ((100 * (sint ms mod 1000) + 999) div 1000))"

definition rt_tick_get_millisecond :: "kernel \<Rightarrow> u32" where
  "rt_tick_get_millisecond s = rt_tick_get s * 10"

definition rt_thread_mdelay :: "u32 \<Rightarrow> kernel \<Rightarrow> (rt_err outcome \<times> kernel) option" where
  "rt_thread_mdelay ms s = rt_thread_sleep (rt_tick_from_millisecond ms) s"

end
