(* ===== verification/Ipc_Core.thy ===== *)
theory Ipc_Core
  imports Clock
begin

unbundle bit_operations_syntax

text \<open>
  The waiting lists every IPC object of \<^verbatim>\<open>kernel/src/ipc.c\<close> shares: putting the
  caller on a list (in FIFO or priority order, with or without a timeout), waking
  the first waiter and waking all of them.
\<close>

text \<open>\<^verbatim>\<open>rt_list_init\<close> of the list head in \<^verbatim>\<open>rt_ipc_object_init\<close>.\<close>

definition rt_ipc_object_init :: "lhead \<Rightarrow> kernel \<Rightarrow> kernel" where
  "rt_ipc_object_init h s = s\<lparr>tlists := (tlists s)(h := [])\<rparr>"

text \<open>The search loop: in front of the first waiter of a lower priority (a larger number).\<close>

fun prio_insert :: "(nat \<Rightarrow> u8) \<Rightarrow> nat \<Rightarrow> nat list \<Rightarrow> nat list" where
  "prio_insert pr t [] = [t]"
| "prio_insert pr t (u # us) = (if pr t < pr u then t # u # us else u # prio_insert pr t us)"

definition rt_ipc_list_suspend :: "lhead \<Rightarrow> nat \<Rightarrow> u8 \<Rightarrow> kernel \<Rightarrow> kernel option" where
  "rt_ipc_list_suspend h t flag s = do {
     (_, s) \<leftarrow> rt_thread_suspend t s;
     if flag = RT_IPC_FLAG_FIFO then tlist_append h t s
     else if flag = RT_IPC_FLAG_PRIO then
       tlist_set h t (prio_insert (\<lambda>u. current_priority (threads s u)) t (tlists s h)) s
     else Some s }"

definition rt_ipc_list_resume :: "lhead \<Rightarrow> kernel \<Rightarrow> kernel option" where
  "rt_ipc_list_resume h s = do {
     t \<leftarrow> tlist_first h s;
     (_, s) \<leftarrow> rt_thread_resume t s;
     Some s }"

partial_function (option) rt_ipc_list_resume_all :: "lhead \<Rightarrow> kernel \<Rightarrow> kernel option" where
  "rt_ipc_list_resume_all h s =
     (case tlists s h of
        [] \<Rightarrow> Some s
      | t # _ \<Rightarrow> do {
          let s = upd_thread t (\<lambda>th. th\<lparr>th_error := RT_ERROR\<rparr>) s;
          (_, s) \<leftarrow> rt_thread_resume t s;
          rt_ipc_list_resume_all h s })"

declare rt_ipc_list_resume_all.simps [code]

text \<open>
  The sequence in which a call gives up the processor: the caller joins the list,
  its timer is armed when the timeout is positive, and \<^verbatim>\<open>rt_schedule\<close> follows.
\<close>

definition start_thread_timer :: "nat \<Rightarrow> u32 \<Rightarrow> kernel \<Rightarrow> kernel option" where
  "start_thread_timer t time s =
     (if 0 < sint time then do {
        (_, s) \<leftarrow> rt_timer_control (TTimer t) Set_Time time s;
        (_, s) \<leftarrow> rt_timer_start (TTimer t) s;
        Some s }
      else Some s)"

definition ipc_wait :: "lhead \<Rightarrow> nat \<Rightarrow> u8 \<Rightarrow> u32 \<Rightarrow> kernel \<Rightarrow> kernel option" where
  "ipc_wait h t flag time s = do {
     s \<leftarrow> rt_ipc_list_suspend h t flag s;
     start_thread_timer t time s }"

definition ipc_flag :: "nat \<Rightarrow> kernel \<Rightarrow> u8" where
  "ipc_flag a s = obj_flag (objects s (Obj a))"

definition set_flag :: "nat \<Rightarrow> u8 \<Rightarrow> kernel \<Rightarrow> kernel" where
  "set_flag a flag = upd_object (Obj a) (\<lambda>ob. ob\<lparr>obj_flag := flag\<rparr>)"

definition obj_class :: "nat \<Rightarrow> kernel \<Rightarrow> u8" where
  "obj_class a s = rt_object_get_type (Obj a) s"

subsection \<open>Order of the waiting lists\<close>

lemma set_prio_insert [simp]: "set (prio_insert pr t us) = insert t (set us)"
  by (induction us) auto

lemma distinct_prio_insert [simp]:
  "distinct (prio_insert pr t us) = (t \<notin> set us \<and> distinct us)"
  by (induction us) auto

lemma prio_insert_sorted:
  "sorted (map pr us) \<Longrightarrow> sorted (map pr (prio_insert pr t us))"
  by (induction us) (auto simp: not_less)

text \<open>Waiters of one priority stay in the order of their arrival.\<close>

lemma prio_insert_stable:
  "sorted (map pr us) \<Longrightarrow>
   filter (\<lambda>u. pr u = pr t) (prio_insert pr t us) = filter (\<lambda>u. pr u = pr t) us @ [t]"
proof (induction us)
  case (Cons u us)
  have "filter (\<lambda>u. pr u = pr t) us = []" if "pr t < pr u"
    using that Cons.prems by (auto simp: filter_empty_conv)
  then show ?case using Cons by auto
qed simp

subsection \<open>Joining a waiting list\<close>

definition wait_order :: "u8 \<Rightarrow> kernel \<Rightarrow> nat \<Rightarrow> nat list \<Rightarrow> nat list" where
  "wait_order flag s t us =
     (if flag = RT_IPC_FLAG_FIFO then us @ [t]
      else prio_insert (\<lambda>u. current_priority (threads s u)) t us)"

definition ipc_head :: "lhead \<Rightarrow> bool" where
  "ipc_head h = (h \<noteq> DefunctQ \<and> (\<forall>p. h \<noteq> ReadyQ p))"

lemma ipc_head_simps [simp]:
  "ipc_head (SemQ a)" "ipc_head (MutexQ a)" "ipc_head (EventQ a)" "ipc_head (MbQ a)"
  "ipc_head (MbSendQ a)" "ipc_head (MqQ a)" "ipc_head (MqSendQ a)" "ipc_head (MpQ a)"
  "ipc_head (CompQ a)" "ipc_head (DqPushQ a)" "ipc_head (DqPopQ a)"
  by (simp_all add: ipc_head_def)

definition queued :: "lhead \<Rightarrow> nat \<Rightarrow> u8 \<Rightarrow> kernel \<Rightarrow> kernel" where
  "queued h t flag s = (suspended t s)\<lparr>
     tlists := (tlists (suspended t s))(h := wait_order flag s t (tlists (suspended t s) h)),
     on_list := (on_list s)(t := Some h)\<rparr>"

lemma queued_fields [simp]:
  "threads (queued h t flag s) = threads (suspended t s)"
  "on_list (queued h t flag s) = (on_list s)(t := Some h)"
  "timers (queued h t flag s) = timers s"
  "timer_list (queued h t flag s) = removeAll (TTimer t) (timer_list s)"
  "soft_timer_list (queued h t flag s) = removeAll (TTimer t) (soft_timer_list s)"
  "objects (queued h t flag s) = objects (suspended t s)"
  "sems (queued h t flag s) = sems s" "mutexes (queued h t flag s) = mutexes s"
  "events (queued h t flag s) = events s" "mailboxes (queued h t flag s) = mailboxes s"
  "msgqueues (queued h t flag s) = msgqueues s" "mempools (queued h t flag s) = mempools s"
  "cur_thread (queued h t flag s) = cur_thread s" "lock_nest (queued h t flag s) = lock_nest s"
  "irq_nest (queued h t flag s) = irq_nest s" "tick (queued h t flag s) = tick s"
  by (simp_all add: queued_def)

lemma not_on_ipc:
  assumes "kinv s" "tstat s t = RT_THREAD_READY" "ipc_head h"
  shows "t \<notin> set (tlists s h)"
  using assms queues_okD(2) [OF kinvD(5)] ready_okD(1) [OF kinvD(7), of s t "prio s t"]
  by (auto simp: ipc_head_def)

lemma suspended_ipc_list:
  assumes "kinv s" "tstat s t = RT_THREAD_READY" "ipc_head h"
  shows "tlists (suspended t s) h = tlists s h"
  using not_on_ipc [OF assms] tlist_remove_lists [OF kinvD(5) [OF assms(1)]]
  by (simp add: removeAll_id)

lemma queued_list:
  assumes "kinv s" "tstat s t = RT_THREAD_READY" "ipc_head h" "ipc_head k"
  shows "tlists (queued h t flag s) k = (if k = h then wait_order flag s t (tlists s h) else tlists s k)"
  using assms suspended_ipc_list by (simp add: queued_def)

lemma wait_order_facts:
  "set (wait_order flag s t us) = insert t (set us)"
  "distinct (wait_order flag s t us) = (t \<notin> set us \<and> distinct us)"
  by (auto simp: wait_order_def)

lemma suspended_prio: "(\<lambda>u. current_priority (threads (suspended t s) u)) = (\<lambda>u. current_priority (threads s u))"
  by (simp add: fun_eq_iff)

lemma rt_ipc_list_suspend_eq:
  assumes I: "kinv s" and st: "tstat s t = RT_THREAD_READY" and fl: "flag = 0 \<or> flag = 1"
  shows "rt_ipc_list_suspend h t flag s = Some (queued h t flag s)"
  using fl
  by (elim disjE)
     (simp_all add: rt_ipc_list_suspend_def tlist_append_def tlist_set_def queued_def wait_order_def
        rt_thread_suspend_eq [OF I st] suspended_prio del: suspended_fields(1,2))

lemma kinv_queued:
  assumes I: "kinv s" and st: "tstat s t = RT_THREAD_READY" and h: "ipc_head h"
  shows "kinv (queued h t flag s)"
proof -
  have K: "kinv (suspended t s)" using kinv_suspended [OF I st] .
  have "tlist_set h t (wait_order flag s t (tlists (suspended t s) h)) (suspended t s) =
      Some (queued h t flag s)"
    by (simp add: tlist_set_def queued_def)
  then show ?thesis
    using not_on_ipc [OF I st h] suspended_ipc_list [OF I st h] queues_okD(1) [OF kinvD(5) [OF I]] h
    by (intro kinv_wait [OF K]) (auto simp: wait_order_facts ipc_head_def)
qed

definition waiting :: "lhead \<Rightarrow> nat \<Rightarrow> u8 \<Rightarrow> u32 \<Rightarrow> kernel \<Rightarrow> kernel" where
  "waiting h t flag time s =
     (if 0 < sint time
      then armed (TTimer t) (upd_timer (TTimer t) (\<lambda>tm. tm\<lparr>tm_init_tick := time\<rparr>) (queued h t flag s))
      else queued h t flag s)"

lemma upd_timer_fields [simp]:
  "threads (upd_timer x f s) = threads s" "tlists (upd_timer x f s) = tlists s"
  "on_list (upd_timer x f s) = on_list s" "objects (upd_timer x f s) = objects s"
  "timers (upd_timer x f s) = (timers s)(x := f (timers s x))"
  "timer_list (upd_timer x f s) = timer_list s" "soft_timer_list (upd_timer x f s) = soft_timer_list s"
  "ready_table (upd_timer x f s) = ready_table s" "ready_group (upd_timer x f s) = ready_group s"
  "sems (upd_timer x f s) = sems s" "mutexes (upd_timer x f s) = mutexes s"
  "events (upd_timer x f s) = events s" "mailboxes (upd_timer x f s) = mailboxes s"
  "msgqueues (upd_timer x f s) = msgqueues s" "mempools (upd_timer x f s) = mempools s"
  "containers (upd_timer x f s) = containers s" "cur_thread (upd_timer x f s) = cur_thread s"
  "lock_nest (upd_timer x f s) = lock_nest s" "irq_nest (upd_timer x f s) = irq_nest s"
  "tick (upd_timer x f s) = tick s"
  by (simp_all add: upd_timer_def)

lemma waiting_fields [simp]:
  "threads (waiting h t flag time s) = threads (suspended t s)"
  "tlists (waiting h t flag time s) = tlists (queued h t flag s)"
  "on_list (waiting h t flag time s) = (on_list s)(t := Some h)"
  "sems (waiting h t flag time s) = sems s" "mutexes (waiting h t flag time s) = mutexes s"
  "events (waiting h t flag time s) = events s" "mailboxes (waiting h t flag time s) = mailboxes s"
  "msgqueues (waiting h t flag time s) = msgqueues s" "mempools (waiting h t flag time s) = mempools s"
  "cur_thread (waiting h t flag time s) = cur_thread s" "lock_nest (waiting h t flag time s) = lock_nest s"
  "irq_nest (waiting h t flag time s) = irq_nest s" "tick (waiting h t flag time s) = tick s"
  "obj_type (objects (waiting h t flag time s) y) = obj_type (objects s y)"
  "obj_flag (objects (waiting h t flag time s) (Obj a)) = obj_flag (objects s (Obj a))"
  by (simp_all add: waiting_def)

text \<open>The timer of the caller runs exactly when the timeout is positive.\<close>

lemma waiting_timer:
  "TTimer t \<in> set (timer_list (waiting h t flag time s)) \<longleftrightarrow> 0 < sint time"
  "0 < sint time \<Longrightarrow> tm_timeout_tick (timers (waiting h t flag time s) (TTimer t)) = tick s + time"
  by (auto simp: waiting_def)

lemma kinv_upd_timer:
  assumes "kinv s" and "\<And>tm. tm_func (f tm) = tm_func tm"
  shows "kinv (upd_timer x f s)"
proof -
  have own: "own_func (f tm) y = own_func tm y" for tm y using assms(2) by (simp add: own_func_def)
  have "sched_inv (upd_timer x f s)"
    using kinvD(1) [OF assms(1)] by (subst sched_inv_cong [of _ s]) simp_all
  then show ?thesis
    using kinvD(2,3,4) [OF assms(1)] assms(2) own
    by (auto simp: kinv_def types_ok_def timers_ok_def waits_ok_def is_thread_def rt_object_get_type_def)
qed

lemma kinv_waiting:
  assumes I: "kinv s" and st: "tstat s t = RT_THREAD_READY" and h: "ipc_head h"
  shows "kinv (waiting h t flag time s)"
proof -
  have K: "kinv (queued h t flag s)" using kinv_queued [OF assms] .
  have "kinv (upd_timer (TTimer t) (\<lambda>tm. tm\<lparr>tm_init_tick := time\<rparr>) (queued h t flag s))"
    by (rule kinv_upd_timer [OF K]) simp
  then show ?thesis using K by (auto simp: waiting_def intro!: kinv_armed)
qed

lemma sint_pos_half:
  assumes "0 < sint (time :: u32)" and "time \<noteq> HALF_TICK"
  shows "time < HALF_TICK"
proof -
  have "sint time < 2 ^ 31" using sint_lt [of time] by simp
  moreover have "uint time = sint time mod 2 ^ 32" by (simp add: uint_sint take_bit_eq_mod)
  ultimately have "uint time < 2 ^ 31" using assms(1) by simp
  then show ?thesis using assms(2) by (auto simp: word_less_def word_uint_eq_iff)
qed

lemma start_thread_timer_eq:
  assumes K: "kinv s" and st: "tstat s t = RT_THREAD_SUSPEND" and tm: "time \<noteq> HALF_TICK"
  shows "start_thread_timer t time s = Some (if 0 < sint time
     then armed (TTimer t) (upd_timer (TTimer t) (\<lambda>tm. tm\<lparr>tm_init_tick := time\<rparr>) s) else s)"
proof -
  let ?u = "upd_timer (TTimer t) (\<lambda>tm. tm\<lparr>tm_init_tick := time\<rparr>) s"
  have "kinv ?u" by (rule kinv_upd_timer [OF K]) simp
  then have "rt_timer_start (TTimer t) ?u = Some (RT_EOK, armed (TTimer t) ?u)" if "0 < sint time"
    by (rule rt_timer_start_thread) (use st sint_pos_half [OF that tm] in simp_all)
  then show ?thesis
    using kinv_thread(2) [OF K] st by (simp add: start_thread_timer_def rt_timer_control_def)
qed

lemma ipc_wait_eq:
  assumes I: "kinv s" and st: "tstat s t = RT_THREAD_READY" and h: "ipc_head h"
    and fl: "flag = 0 \<or> flag = 1" and tm: "time \<noteq> HALF_TICK"
  shows "ipc_wait h t flag time s = Some (waiting h t flag time s)"
  using start_thread_timer_eq [OF kinv_queued [OF I st h] _ tm] rt_ipc_list_suspend_eq [OF I st fl]
  by (simp add: ipc_wait_def waiting_def)

text \<open>Somebody else can run while the caller waits.\<close>

lemma stack_ok_stat [simp]: "stack_ok (th\<lparr>stat := v\<rparr>) = stack_ok th" "stack_ok (th\<lparr>th_error := e\<rparr>) = stack_ok th"
  by (simp_all add: stack_ok_def stack_check_def)

lemma live_waiting:
  assumes "live s" "tstat s t = RT_THREAD_READY" "u \<noteq> t" "tstat s u = RT_THREAD_READY"
  shows "live (waiting h t flag time s)"
  using assms by (auto simp: live_def)

subsection \<open>Waking\<close>

lemma ipc_waiter:
  assumes I: "kinv s" and h: "ipc_head h" and m: "t \<in> set (tlists s h)"
  shows "tstat s t = RT_THREAD_SUSPEND"
  using kinvD(4) [OF I] queues_okD(2) [OF kinvD(5) [OF I]] h m by (auto simp: waits_ok_def ipc_head_def)

lemma rt_ipc_list_resume_eq:
  assumes I: "kinv s" and h: "ipc_head h" and l: "tlists s h = t # ts"
  shows "rt_ipc_list_resume h s = Some (resumed t s)" "kinv (resumed t s)"
    "tlists (resumed t s) h = ts" "tstat s t = RT_THREAD_SUSPEND"
proof -
  have st: "tstat s t = RT_THREAD_SUSPEND" using ipc_waiter [OF I h] l by simp
  show "rt_ipc_list_resume h s = Some (resumed t s)" "kinv (resumed t s)" "tstat s t = RT_THREAD_SUSPEND"
    using rt_thread_resume_eq [OF I st] kinv_resumed [OF I st] st l
    by (simp_all add: rt_ipc_list_resume_def tlist_first_def)
  show "tlists (resumed t s) h = ts"
    using resumed_lists [OF I, of h t] h l queues_okD(1) [OF kinvD(5) [OF I], of h]
    by (simp add: ipc_head_def)
qed

definition woken :: "nat \<Rightarrow> kernel \<Rightarrow> kernel" where
  "woken t s = resumed t (upd_thread t (\<lambda>th. th\<lparr>th_error := RT_ERROR\<rparr>) s)"

definition all_woken :: "nat list \<Rightarrow> kernel \<Rightarrow> kernel" where
  "all_woken = fold woken"

lemma woken_facts:
  assumes I: "kinv s" and h: "ipc_head h" and l: "tlists s h = t # ts"
  shows "kinv (woken t s)" "tlists (woken t s) h = ts"
    "rt_thread_resume t (upd_thread t (\<lambda>th. th\<lparr>th_error := RT_ERROR\<rparr>) s) = Some (RT_EOK, woken t s)"
proof -
  let ?u = "upd_thread t (\<lambda>th. th\<lparr>th_error := RT_ERROR\<rparr>) s"
  have K: "kinv ?u" by (rule kinv_upd_thread [OF I]) simp_all
  have st: "tstat ?u t = RT_THREAD_SUSPEND" using ipc_waiter [OF I h] l by simp
  show "kinv (woken t s)" "tlists (woken t s) h = ts"
    using rt_ipc_list_resume_eq [OF K h] l by (simp_all add: woken_def)
  show "rt_thread_resume t ?u = Some (RT_EOK, woken t s)"
    using rt_thread_resume_eq [OF K st] by (simp add: woken_def)
qed

lemma resume_all_eq:
  assumes "kinv s" and "ipc_head h"
  shows "rt_ipc_list_resume_all h s = Some (all_woken (tlists s h) s) \<and>
     kinv (all_woken (tlists s h) s) \<and> tlists (all_woken (tlists s h) s) h = []"
  using assms(1)
proof (induction "tlists s h" arbitrary: s)
  case Nil
  then show ?case by (subst rt_ipc_list_resume_all.simps) (simp add: all_woken_def)
next
  case (Cons t ts)
  note w = woken_facts [OF Cons.prems assms(2) Cons.hyps(2) [symmetric]]
  have e: "rt_ipc_list_resume_all h s = rt_ipc_list_resume_all h (woken t s)"
    by (subst rt_ipc_list_resume_all.simps) (simp add: Cons.hyps(2) [symmetric] w(3))
  show ?case
    using Cons.hyps(1) [of "woken t s"] w(1,2) e Cons.hyps(2) [symmetric]
    by (simp add: all_woken_def)
qed

lemma all_woken_fields [simp]:
  "sems (all_woken ts s) = sems s" "mutexes (all_woken ts s) = mutexes s"
  "events (all_woken ts s) = events s" "mailboxes (all_woken ts s) = mailboxes s"
  "msgqueues (all_woken ts s) = msgqueues s" "mempools (all_woken ts s) = mempools s"
  "cur_thread (all_woken ts s) = cur_thread s" "lock_nest (all_woken ts s) = lock_nest s"
  "irq_nest (all_woken ts s) = irq_nest s" "tick (all_woken ts s) = tick s"
  "obj_type (objects (all_woken ts s) y) = obj_type (objects s y)"
  unfolding all_woken_def by (induction ts arbitrary: s) (simp_all add: woken_def)

lemma all_woken_threads:
  "distinct ts \<Longrightarrow> threads (all_woken ts s) t =
     (if t \<in> set ts then (threads s t)\<lparr>th_error := RT_ERROR,
        stat := RT_THREAD_READY OR (stat (threads s t) AND NOT RT_THREAD_STAT_MASK)\<rparr> else threads s t)"
  unfolding all_woken_def by (induction ts arbitrary: s) (auto simp: woken_def)

subsection \<open>Blocking\<close>

lemma obj_class_cong:
  "(\<And>y. obj_type (objects s' y) = obj_type (objects s y)) \<Longrightarrow> obj_class a s' = obj_class a s"
  by (simp add: obj_class_def rt_object_get_type_def)

text \<open>
  The caller of a blocking operation: it runs in a thread, its status is READY (the
  scheduler of one processor keeps the running thread on its ready queue), and
  another thread is ready to take over.
\<close>

definition can_block :: "nat \<Rightarrow> kernel \<Rightarrow> bool" where
  "can_block t s = (kinv s \<and> live s \<and> cur_thread s = Some t \<and> irq_nest s = 0 \<and>
     lock_nest s = 0 \<and> tstat s t = RT_THREAD_READY \<and> (\<exists>u. u \<noteq> t \<and> tstat s u = RT_THREAD_READY))"

lemma can_blockD:
  assumes "can_block t s"
  shows "kinv s" "live s" "cur_thread s = Some t" "irq_nest s = 0" "lock_nest s = 0"
    "tstat s t = RT_THREAD_READY"
  using assms by (auto simp: can_block_def)

text \<open>Giving up the processor on a waiting list, with the error field cleared.\<close>

definition blocked_on :: "lhead \<Rightarrow> nat \<Rightarrow> u8 \<Rightarrow> u32 \<Rightarrow> kernel \<Rightarrow> kernel" where
  "blocked_on h t flag time s =
     waiting h t flag time (upd_thread t (\<lambda>th. th\<lparr>th_error := RT_EOK\<rparr>) s)"

lemma block_switches:
  assumes C: "can_block t s" and h: "ipc_head h" and fl: "flag = 0 \<or> flag = 1" and tm: "time \<noteq> HALF_TICK"
  shows "\<exists>s' u. ipc_wait h t flag time (upd_thread t (\<lambda>th. th\<lparr>th_error := RT_EOK\<rparr>) s) =
       Some (blocked_on h t flag time s) \<and>
     kinv (blocked_on h t flag time s) \<and> live (blocked_on h t flag time s) \<and>
     rt_schedule (blocked_on h t flag time s) = Some s' \<and> cur_thread s' = Some u \<and> u \<noteq> t \<and>
     top_ready (blocked_on h t flag time s) u"
proof -
  let ?e = "upd_thread t (\<lambda>th. th\<lparr>th_error := RT_EOK\<rparr>) s"
  have K: "kinv ?e" by (rule kinv_upd_thread [OF can_blockD(1) [OF C]]) simp_all
  have st: "tstat ?e t = RT_THREAD_READY" using can_blockD(6) [OF C] by simp
  obtain v where "v \<noteq> t" "tstat ?e v = RT_THREAD_READY" using C by (auto simp: can_block_def)
  moreover have "live ?e" using can_blockD(2) [OF C] by (auto simp: live_def)
  ultimately have L: "live (blocked_on h t flag time s)"
    unfolding blocked_on_def using live_waiting [of ?e t v] st by simp
  have W: "kinv (blocked_on h t flag time s)" "lock_nest (blocked_on h t flag time s) = 0"
    unfolding blocked_on_def using kinv_waiting [OF K st h] can_blockD(5) [OF C] by simp_all
  obtain s' u where "rt_schedule (blocked_on h t flag time s) = Some s'" "cur_thread s' = Some u"
    "top_ready (blocked_on h t flag time s) u"
    using schedule_top [OF kinvD(1) [OF W(1)] L W(2)] by blast
  moreover have "u \<noteq> t" using \<open>top_ready _ u\<close> by (auto simp: top_ready_def blocked_on_def)
  ultimately show ?thesis
    using ipc_wait_eq [OF K st h fl tm] L W(1) by (auto simp: blocked_on_def)
qed

lemma blocked_on_fields [simp]:
  "tstat (blocked_on h t flag time s) t = RT_THREAD_SUSPEND"
  "th_error (threads (blocked_on h t flag time s) t) = RT_EOK"
  "on_list (blocked_on h t flag time s) t = Some h"
  "sems (blocked_on h t flag time s) = sems s" "mutexes (blocked_on h t flag time s) = mutexes s"
  "events (blocked_on h t flag time s) = events s" "mailboxes (blocked_on h t flag time s) = mailboxes s"
  "msgqueues (blocked_on h t flag time s) = msgqueues s" "mempools (blocked_on h t flag time s) = mempools s"
  by (simp_all add: blocked_on_def)

lemma wait_order_error:
  "wait_order flag (upd_thread t (\<lambda>th. th\<lparr>th_error := e\<rparr>) s) u us = wait_order flag s u us"
proof -
  have "(\<lambda>v. current_priority (threads (upd_thread t (\<lambda>th. th\<lparr>th_error := e\<rparr>) s) v)) =
      (\<lambda>v. current_priority (threads s v))" by (simp add: fun_eq_iff)
  then show ?thesis by (simp only: wait_order_def)
qed

lemma blocked_on_list:
  assumes C: "can_block t s" and h: "ipc_head h"
  shows "tlists (blocked_on h t flag time s) h = wait_order flag s t (tlists s h)"
proof -
  have "kinv (upd_thread t (\<lambda>th. th\<lparr>th_error := RT_EOK\<rparr>) s)"
    by (rule kinv_upd_thread [OF can_blockD(1) [OF C]]) simp_all
  then show ?thesis
    using queued_list [of _ t h h] can_blockD(6) [OF C] h
    by (simp add: blocked_on_def wait_order_error)
qed

end
