(* ===== verification/Invariant.thy ===== *)
theory Invariant
  imports Ipc_Core
begin

unbundle bit_operations_syntax

text \<open>
  Preservation of the kernel invariant by the building blocks of the system calls, in
  the form ``whenever the block returns'': the scheduler, suspend and resume, the
  waiting lists, the timers. The running thread is READY, or SUSPENDED when it blocked
  with the scheduler locked.
\<close>

definition started :: "kernel \<Rightarrow> nat \<Rightarrow> bool" where
  "started s t = (tstat s t = RT_THREAD_READY \<or> tstat s t = RT_THREAD_SUSPEND)"

definition sys_inv :: "kernel \<Rightarrow> bool" where
  "sys_inv s = (kinv s \<and> (\<forall>t. cur_thread s = Some t \<longrightarrow> started s t))"

lemma sys_invD: "sys_inv s \<Longrightarrow> kinv s" "sys_inv s \<Longrightarrow> cur_thread s = Some t \<Longrightarrow> started s t"
  by (auto simp: sys_inv_def)

lemma rt_schedule_cur:
  assumes "rt_schedule s = Some s'"
  shows "cur_thread s' = cur_thread s \<or> (\<exists>p t. tlist_first (ReadyQ p) s = Some t \<and> cur_thread s' = Some t)"
proof (cases "lock_nest s = 0")
  case True
  then obtain p to where "highest_ready_priority s = Some p" "tlist_first (ReadyQ p) s = Some to"
    using assms by (auto simp: rt_schedule_def)
  then show ?thesis using assms True
    by (cases "cur_thread s = Some to"; cases "cur_thread s") (auto simp: rt_schedule_def Let_def)
next
  case False
  then show ?thesis using assms by (simp add: rt_schedule_def)
qed

lemma sys_inv_schedule:
  assumes I: "sys_inv s" and r: "rt_schedule s = Some s'"
  shows "sys_inv s'"
proof -
  have "started s' t" if c: "cur_thread s' = Some t" for t
  proof (cases "cur_thread s' = cur_thread s")
    case True
    then show ?thesis using I c rt_schedule_fields(1) [OF r] by (simp add: sys_inv_def started_def)
  next
    case False
    then obtain p where "tlist_first (ReadyQ p) s = Some t" using rt_schedule_cur [OF r] c by auto
    then have "t \<in> set (tlists s (ReadyQ p))" by (cases "tlists s (ReadyQ p)") (auto simp: tlist_first_def)
    then have "tstat s t = RT_THREAD_READY" using ready_member [OF kinvD(1) [OF sys_invD(1) [OF I]]] by blast
    then show ?thesis using rt_schedule_fields(1) [OF r] by (simp add: started_def)
  qed
  then show ?thesis using I rt_schedule_kinv [OF r] by (auto simp: sys_inv_def)
qed

text \<open>Updates outside of the fields the invariant reads.\<close>

lemma sys_inv_cong:
  assumes "threads s' = threads s" "tlists s' = tlists s" "on_list s' = on_list s"
    "ready_table s' = ready_table s" "ready_group s' = ready_group s" "objects s' = objects s"
    "timers s' = timers s" "timer_list s' = timer_list s" "soft_timer_list s' = soft_timer_list s"
    "cur_thread s' = cur_thread s"
  shows "sys_inv s' = sys_inv s"
  using kinv_cong [OF assms(1-9)] assms(1,10) by (simp add: sys_inv_def started_def)

lemma sys_inv_upd_thread:
  assumes I: "sys_inv s"
    and f: "stat (f (threads s t)) AND 7 = tstat s t"
      "current_priority (f (threads s t)) = current_priority (threads s t)"
      "number (f (threads s t)) = number (threads s t)"
      "number_mask (f (threads s t)) = number_mask (threads s t)"
      "high_mask (f (threads s t)) = high_mask (threads s t)"
  shows "sys_inv (upd_thread t f s)"
  using kinv_upd_thread [of s f t, OF sys_invD(1) [OF I] f] I f(1) by (auto simp: sys_inv_def started_def)

lemma sys_inv_error: "sys_inv s \<Longrightarrow> sys_inv (upd_thread t (\<lambda>th. th\<lparr>th_error := e\<rparr>) s)"
  by (rule sys_inv_upd_thread) simp_all

lemma sys_inv_events: "sys_inv s \<Longrightarrow> sys_inv (upd_thread t (\<lambda>th. th\<lparr>event_set := e, event_info := i\<rparr>) s)"
  by (rule sys_inv_upd_thread) simp_all

lemma sys_inv_event_set: "sys_inv s \<Longrightarrow> sys_inv (upd_thread t (\<lambda>th. th\<lparr>event_set := e\<rparr>) s)"
  by (rule sys_inv_upd_thread) simp_all

lemma started_upd [simp]:
  "stat (f (threads s t)) = stat (threads s t) \<Longrightarrow> started (upd_thread t f s) u = started s u"
  by (simp add: started_def)

subsection \<open>Suspend and resume\<close>

lemma sys_inv_suspend:
  assumes I: "sys_inv s" and r: "rt_thread_suspend t s = Some (e, s')"
  shows "sys_inv s'" "started s t \<Longrightarrow> tstat s' t = RT_THREAD_SUSPEND" "cur_thread s' = cur_thread s"
proof -
  have nr: "tstat s t \<noteq> RT_THREAD_RUNNING" using kinvD(4) [OF sys_invD(1) [OF I]] by (simp add: waits_ok_def)
  have *: "sys_inv s' \<and> (started s t \<longrightarrow> tstat s' t = RT_THREAD_SUSPEND) \<and> cur_thread s' = cur_thread s"
  proof (cases "tstat s t = RT_THREAD_READY")
    case True
    have "s' = suspended t s" using r rt_thread_suspend_eq [OF sys_invD(1) [OF I] True] by simp
    then show ?thesis
      using kinv_suspended [OF sys_invD(1) [OF I] True] I by (auto simp: sys_inv_def started_def)
  next
    case False
    then have "s' = s" using r nr by (auto simp: rt_thread_suspend_def Let_def split: if_splits)
    then show ?thesis using I False by (simp add: started_def)
  qed
  then show "sys_inv s'" "started s t \<Longrightarrow> tstat s' t = RT_THREAD_SUSPEND" "cur_thread s' = cur_thread s"
    by blast+
qed

lemma sys_inv_resumed:
  "sys_inv s \<Longrightarrow> tstat s t = RT_THREAD_SUSPEND \<Longrightarrow> sys_inv (resumed t s)"
  using kinv_resumed [of s t] by (auto simp: sys_inv_def started_def)

lemma sys_inv_resume:
  assumes I: "sys_inv s" and r: "rt_thread_resume t s = Some (e, s')"
  shows "sys_inv s'" "cur_thread s' = cur_thread s"
proof -
  have "sys_inv s' \<and> cur_thread s' = cur_thread s"
  proof (cases "tstat s t = RT_THREAD_SUSPEND")
    case True
    then have "s' = resumed t s" using r rt_thread_resume_eq [OF sys_invD(1) [OF I] True] by simp
    then show ?thesis using sys_inv_resumed [OF I True] by simp
  next
    case False
    then show ?thesis using r I by (auto simp: rt_thread_resume_def split: if_splits)
  qed
  then show "sys_inv s'" "cur_thread s' = cur_thread s" by blast+
qed

lemma sys_inv_change_priority:
  assumes I: "sys_inv s" and r: "rt_thread_change_priority t p s = Some s'"
  shows "sys_inv s'" "cur_thread s' = cur_thread s" "started s' u = started s u"
proof -
  have th: "is_thread t s" using r by (auto simp: rt_thread_change_priority_def split: if_splits)
  have K: "kinv s'" using kinv_change_priority [OF sys_invD(1) [OF I] th, of p] r by auto
  have c: "cur_thread s' = cur_thread s \<and> (\<forall>u. tstat s' u = tstat s u)"
  proof (cases "tstat s t = RT_THREAD_READY")
    case True
    let ?u = "upd_thread t (set_priority p) (rt_schedule_remove_thread t s)"
    have "rt_schedule_insert_thread t ?u = Some (enqueued t ?u)"
      by (rule insert_thread_enqueued) (simp add: kframe)
    then have "s' = enqueued t ?u"
      using r th True by (simp add: rt_thread_change_priority_def Let_def)
    then show ?thesis using True by (simp add: kframe)
  next
    case False
    then show ?thesis using r th by (auto simp: rt_thread_change_priority_def)
  qed
  then show "cur_thread s' = cur_thread s" "started s' u = started s u" by (auto simp: started_def)
  show "sys_inv s'" using K c I by (auto simp: sys_inv_def started_def)
qed

subsection \<open>Waiting lists\<close>

lemma sys_inv_link:
  assumes I: "sys_inv s" and st: "tstat s t = RT_THREAD_SUSPEND"
    and r: "tlist_set h t xs s = Some s'" and xs: "set xs = insert t (set (tlists s h))"
    "t \<notin> set (tlists s h) \<Longrightarrow> distinct xs"
    and h: "ipc_head h"
  shows "sys_inv s'" "cur_thread s' = cur_thread s" "threads s' = threads s"
proof -
  have on: "on_list s t = None" using r by (auto simp: tlist_set_def split: if_splits)
  then have "distinct xs"
    using queues_okD(2) [OF kinvD(5) [OF sys_invD(1) [OF I]], of t h] by (intro xs(2)) simp
  then have "kinv s'" using kinv_wait [OF sys_invD(1) [OF I] st r _ xs(1)] h by (simp add: ipc_head_def)
  moreover have f: "cur_thread s' = cur_thread s" "threads s' = threads s"
    using r by (auto simp: tlist_set_def split: if_splits)
  ultimately show "sys_inv s'" "cur_thread s' = cur_thread s" "threads s' = threads s"
    using I by (auto simp: sys_inv_def started_def)
qed

lemma sys_inv_ipc_suspend:
  assumes I: "sys_inv s" and st: "started s t" and h: "ipc_head h"
    and r: "rt_ipc_list_suspend h t flag s = Some s'"
  shows "sys_inv s' \<and> tstat s' t = RT_THREAD_SUSPEND \<and> cur_thread s' = cur_thread s"
proof -
  obtain e u where u: "rt_thread_suspend t s = Some (e, u)"
    and rest: "(if flag = RT_IPC_FLAG_FIFO then tlist_append h t u
       else if flag = RT_IPC_FLAG_PRIO then
         tlist_set h t (prio_insert (\<lambda>v. current_priority (threads u v)) t (tlists u h)) u
       else Some u) = Some s'"
    using r by (auto simp: rt_ipc_list_suspend_def)
  note U = sys_inv_suspend(1) [OF I u] sys_inv_suspend(2) [OF I u st] sys_inv_suspend(3) [OF I u]
  have d: "distinct (tlists u h)" using queues_okD(1) [OF kinvD(5) [OF sys_invD(1) [OF U(1)]]] .
  consider "flag = 0" | "flag \<noteq> 0" "flag = 1" | "flag \<noteq> 0" "flag \<noteq> 1" by blast
  then show ?thesis
  proof cases
    case 1
    then have a: "tlist_set h t (tlists u h @ [t]) u = Some s'" using rest by (simp add: tlist_append_def)
    show ?thesis using sys_inv_link [OF U(1,2) a _ _ h] d U(2,3) by auto
  next
    case 2
    then have a: "tlist_set h t (prio_insert (\<lambda>v. current_priority (threads u v)) t (tlists u h)) u = Some s'"
      using rest by simp
    show ?thesis using sys_inv_link [OF U(1,2) a _ _ h] d U(2,3) by auto
  next
    case 3
    then show ?thesis using rest U by simp
  qed
qed

lemma sys_inv_start_timer:
  assumes I: "sys_inv s" and st: "tstat s t = RT_THREAD_SUSPEND"
    and r: "start_thread_timer t time s = Some s'"
  shows "sys_inv s' \<and> cur_thread s' = cur_thread s"
proof (cases "0 < sint time")
  case True
  let ?u = "upd_timer (TTimer t) (\<lambda>tm. tm\<lparr>tm_init_tick := time\<rparr>) s"
  have K: "kinv ?u" by (rule kinv_upd_timer [OF sys_invD(1) [OF I]]) simp
  have su: "tstat ?u t = RT_THREAD_SUSPEND" using st by simp
  obtain e where e: "rt_timer_start (TTimer t) ?u = Some (e, s')"
    using r True by (auto simp: start_thread_timer_def rt_timer_control_def split: if_splits)
  then have "tm_init_tick (timers ?u (TTimer t)) < HALF_TICK"
    by (auto simp: rt_timer_start_def Let_def flag_clear_def timer_remove_def upd_object_def split: if_splits)
  then have "s' = armed (TTimer t) ?u" using rt_timer_start_thread [OF K su] e by simp
  then show ?thesis using kinv_armed [OF K su] I by (auto simp: sys_inv_def started_def)
next
  case False
  then show ?thesis using r I by (simp add: start_thread_timer_def)
qed

lemma sys_inv_ipc_wait:
  assumes I: "sys_inv s" and st: "started s t" and h: "ipc_head h"
    and r: "ipc_wait h t flag time s = Some s'"
  shows "sys_inv s'"
proof -
  obtain u where u: "rt_ipc_list_suspend h t flag s = Some u" "start_thread_timer t time u = Some s'"
    using r by (auto simp: ipc_wait_def)
  then show ?thesis using sys_inv_ipc_suspend [OF I st h u(1)] sys_inv_start_timer by blast
qed

lemma sys_inv_ipc_resume:
  assumes "sys_inv s" and "rt_ipc_list_resume h s = Some s'"
  shows "sys_inv s'"
  using assms sys_inv_resume by (auto simp: rt_ipc_list_resume_def)

lemma sys_inv_resume_all:
  assumes I: "sys_inv s" and h: "ipc_head h" and r: "rt_ipc_list_resume_all h s = Some s'"
  shows "sys_inv s'"
proof -
  have e: "s' = all_woken (tlists s h) s" and K: "kinv s'"
    using resume_all_eq [OF sys_invD(1) [OF I] h] r by auto
  have d: "distinct (tlists s h)" using queues_okD(1) [OF kinvD(5) [OF sys_invD(1) [OF I]]] .
  show ?thesis using K I by (auto simp: sys_inv_def started_def e all_woken_threads [OF d])
qed

subsection \<open>Timers\<close>

text \<open>Linking a timer into one of the lists, before the timer thread is woken.\<close>

definition linked_timer :: "oref \<Rightarrow> kernel \<Rightarrow> kernel" where
  "linked_timer x s = (let s = upd_timer x (\<lambda>tm. tm\<lparr>tm_timeout_tick := tick s + tm_init_tick tm\<rparr>) (timer_off x s)
     in flag_set x (if timer_flag s x AND RT_TIMER_FLAG_SOFT_TIMER \<noteq> 0
       then s\<lparr>soft_timer_list := timer_insert (\<lambda>y. tm_timeout_tick (timers s y)) x (soft_timer_list s)\<rparr>
       else s\<lparr>timer_list := timer_insert (\<lambda>y. tm_timeout_tick (timers s y)) x (timer_list s)\<rparr>))"

lemma linked_timer_fields [simp]:
  "threads (linked_timer x s) = threads s" "tlists (linked_timer x s) = tlists s"
  "on_list (linked_timer x s) = on_list s" "ready_table (linked_timer x s) = ready_table s"
  "ready_group (linked_timer x s) = ready_group s" "cur_thread (linked_timer x s) = cur_thread s"
  "timers (linked_timer x s) = (timers s)(x := (timers s x)\<lparr>tm_timeout_tick := tick s + tm_init_tick (timers s x)\<rparr>)"
  "obj_type (objects (linked_timer x s) y) = obj_type (objects s y)"
  "obj_flag (objects (linked_timer x s) y) =
     (if y = x then (obj_flag (objects s x) AND NOT 1) OR 1 else obj_flag (objects s y))"
  by (simp_all add: linked_timer_def flag_set_def upd_object_def Let_def)

lemma linked_timer_lists:
  "timer_list (linked_timer x s) = (if timer_flag s x AND 4 \<noteq> 0 then removeAll x (timer_list s)
     else timer_insert (\<lambda>y. tm_timeout_tick (timers (linked_timer x s) y)) x (removeAll x (timer_list s)))"
  "soft_timer_list (linked_timer x s) = (if timer_flag s x AND 4 = 0 then removeAll x (soft_timer_list s)
     else timer_insert (\<lambda>y. tm_timeout_tick (timers (linked_timer x s) y)) x (removeAll x (soft_timer_list s)))"
  by (simp_all add: linked_timer_def flag_set_def upd_object_def Let_def)

lemma rt_timer_start_linked:
  assumes "rt_timer_start x s = Some (e, s')"
  shows "rt_object_get_type x s = RT_Object_Class_Timer \<and>
     (s' = linked_timer x s \<or> (\<exists>e' u. rt_thread_resume (timer_thread (linked_timer x s)) (linked_timer x s) = Some (e', u) \<and>
        rt_schedule u = Some s'))"
proof -
  let ?u = "upd_timer x (\<lambda>tm. tm\<lparr>tm_timeout_tick := tick s + tm_init_tick tm\<rparr>) (timer_off x s)"
  have t: "tick (timer_off x s) = tick s" by simp
  show ?thesis
    using assms
    unfolding rt_timer_start_def timer_off_def [symmetric] Let_def linked_timer_def t
    by (auto split: if_splits)
qed

lemma sys_inv_linked_timer:
  assumes I: "sys_inv s" and ty: "rt_object_get_type x s = RT_Object_Class_Timer"
    and own: "own_func (timers s x) x" and th: "\<And>t. x = TTimer t \<Longrightarrow> tstat s t = RT_THREAD_SUSPEND"
  shows "sys_inv (linked_timer x s)"
proof -
  have K: "kinv s" using sys_invD(1) [OF I] .
  have "sched_inv (linked_timer x s)"
    using kinvD(1) [OF K] by (subst sched_inv_cong [of _ s]) simp_all
  moreover have "types_ok (linked_timer x s)"
    using kinvD(2) [OF K] by (auto simp: types_ok_def is_thread_def rt_object_get_type_def)
  moreover have "timers_ok (linked_timer x s)"
    using kinvD(3) [OF K] ty own th unfolding timers_ok_def
    by (cases "timer_flag s x AND 4 = 0")
       (auto simp: linked_timer_lists rt_object_get_type_def intro: distinct_removeAll)
  ultimately have "kinv (linked_timer x s)" using kinvD(4) [OF K] by (simp add: kinv_def waits_ok_def)
  then show ?thesis using I by (simp add: sys_inv_def started_def)
qed

lemma sys_inv_timer_start:
  assumes I: "sys_inv s" and own: "own_func (timers s x) x"
    and th: "\<And>t. x = TTimer t \<Longrightarrow> tstat s t = RT_THREAD_SUSPEND"
    and r: "rt_timer_start x s = Some (e, s')"
  shows "sys_inv s'"
  using rt_timer_start_linked [OF r] sys_inv_linked_timer [OF I _ own th] sys_inv_resume sys_inv_schedule
  by blast

lemma sys_inv_timer_stop:
  assumes I: "sys_inv s" and r: "rt_timer_stop x s = Some (e, s')"
  shows "sys_inv s'"
proof -
  have "s' = s \<or> s' = timer_off x s"
    using r by (auto simp: rt_timer_stop_def timer_off_def split: if_splits)
  then show ?thesis using I kinv_timer_off by (auto simp: sys_inv_def started_def)
qed

lemma sys_inv_timeout:
  assumes I: "sys_inv s" and off: "TTimer t \<notin> set (timer_list s) \<union> set (soft_timer_list s)"
    and r: "rt_thread_timeout t s = Some s'"
  shows "sys_inv s' \<and> timer_list s' = timer_list s \<and> soft_timer_list s' = soft_timer_list s \<and>
     timers s' = timers s \<and> started s' t"
proof -
  have K: "kinv s" using sys_invD(1) [OF I] .
  have st: "tstat s t = RT_THREAD_SUSPEND" using r by (auto simp: rt_thread_timeout_def split: if_splits)
  have e: "rt_schedule (timed_out t s) = Some s'" using r rt_thread_timeout_eq [OF K st] by simp
  have "sys_inv (timed_out t s)"
    using kinv_timed_out [OF K st off] I by (auto simp: sys_inv_def started_def)
  then show ?thesis using sys_inv_schedule e rt_schedule_fields [OF e] by (auto simp: started_def)
qed

text \<open>
  The functions of application timers: they keep the invariant and start no timer
  that is not running.
\<close>

definition calm_callback :: "(nat \<Rightarrow> kernel \<Rightarrow> kernel option) \<Rightarrow> bool" where
  "calm_callback cb = (\<forall>n s s'. sys_inv s \<longrightarrow> cb n s = Some s' \<longrightarrow> sys_inv s' \<and>
     set (timer_list s') \<union> set (soft_timer_list s') \<subseteq> set (timer_list s) \<union> set (soft_timer_list s) \<and>
     (\<forall>x. tm_func (timers s' x) = tm_func (timers s x)))"

lemma timeout_call_inv:
  assumes C: "calm_callback cb" and I: "sys_inv s" and x: "x \<in> set (timer_list s) \<union> set (soft_timer_list s)"
    and r: "timeout_call cb (tm_func (timers s x)) (timer_remove x s) = Some u"
  shows "sys_inv u \<and> x \<notin> set (timer_list u) \<union> set (soft_timer_list u) \<and> own_func (timers u x) x \<and>
     (\<forall>t. x = TTimer t \<longrightarrow> started u t)"
proof -
  have K: "sys_inv (timer_remove x s)"
    using I kinv_timer_remove by (auto simp: sys_inv_def started_def)
  have own: "own_func (timers s x) x" using kinvD(3) [OF sys_invD(1) [OF I]] x by (auto simp: timers_ok_def)
  show ?thesis
  proof (cases "tm_func (timers s x)")
    case (Thread_Timeout t)
    then have "x = TTimer t" using own by (simp add: own_func_def)
    then show ?thesis
      using sys_inv_timeout [OF K, of t u] r Thread_Timeout own by (auto simp: timeout_call_def)
  next
    case (User_Timeout n)
    then have "cb n (timer_remove x s) = Some u" using r by (simp add: timeout_call_def)
    then have "sys_inv u" "set (timer_list u) \<union> set (soft_timer_list u) \<subseteq>
        set (timer_list (timer_remove x s)) \<union> set (soft_timer_list (timer_remove x s))"
      "tm_func (timers u x) = tm_func (timers s x)"
      using C K unfolding calm_callback_def by (metis timer_remove_fields(6))+
    moreover have "x \<noteq> TTimer t" for t
      using kinvD(2,3) [OF sys_invD(1) [OF I]] x User_Timeout by (auto simp: types_ok_def timers_ok_def)
    ultimately show ?thesis using User_Timeout by (auto simp: own_func_def)
  qed
qed

lemma timer_rearm_inv:
  assumes I: "sys_inv u" and off: "x \<notin> set (timer_list u) \<union> set (soft_timer_list u)"
    and own: "own_func (timers u x) x"
    and r: "timer_rearm x u = Some s'" and th: "\<And>t. x = TTimer t \<Longrightarrow> started u t"
  shows "sys_inv s'"
proof -
  have c: "flag_clear x u = timer_off x u" using flag_clear_off [OF off] .
  have K: "sys_inv (timer_off x u)"
    using I kinv_timer_off by (auto simp: sys_inv_def started_def)
  show ?thesis
  proof (cases "timer_flag u x AND 2 \<noteq> 0 \<and> timer_flag u x AND 1 \<noteq> 0")
    case True
    then obtain e where e: "rt_timer_start x (timer_off x u) = Some (e, s')"
      using r by (auto simp: timer_rearm_def c)
    have "x \<noteq> TTimer t" for t
      using th [of t] True kinvD(2) [OF sys_invD(1) [OF I]] by (auto simp: types_ok_def started_def)
    then show ?thesis using sys_inv_timer_start [OF K _ _ e] own by simp
  next
    case False
    then have "s' = timer_off x u" using r by (auto simp: timer_rearm_def c)
    then show ?thesis using K by simp
  qed
qed

lemma timer_check_loop_inv:
  assumes C: "calm_callback cb" and I: "sys_inv s" and r: "rt_timer_check_loop cb now s = Some s'"
  shows "sys_inv s'"
proof -
  have "calm_callback cb \<longrightarrow> sys_inv s \<longrightarrow> sys_inv s'"
  proof (rule rt_timer_check_loop.raw_induct
      [where P = "\<lambda>cb now s s'. calm_callback cb \<longrightarrow> sys_inv s \<longrightarrow> sys_inv s'", OF _ r], intro impI)
    fix loop cb now s s'
    assume IH: "\<And>cb now s s'. loop cb now s = Some s' \<Longrightarrow> calm_callback cb \<longrightarrow> sys_inv s \<longrightarrow> sys_inv s'"
      and b: "(case timer_list s of [] \<Rightarrow> Some s
        | x # _ \<Rightarrow> if expired now s x then do {
            let s = timer_remove x s;
            s \<leftarrow> timeout_call cb (tm_func (timers s x)) s;
            let current_tick = tick s;
            s \<leftarrow> timer_rearm x s;
            loop cb current_tick s } else Some s) = Some s'"
      and C: "calm_callback cb" and J: "sys_inv s"
    show "sys_inv s'"
    proof (cases "timer_list s")
      case Nil
      then show ?thesis using b J by simp
    next
      case (Cons x xs)
      show ?thesis
      proof (cases "expired now s x")
        case True
        then obtain u v where u: "timeout_call cb (tm_func (timers s x)) (timer_remove x s) = Some u"
          "timer_rearm x u = Some v" "loop cb (tick u) v = Some s'"
          using b Cons by (auto simp: Let_def)
        have x: "x \<in> set (timer_list s) \<union> set (soft_timer_list s)" using Cons by simp
        note T = timeout_call_inv [OF C J x u(1)]
        have "sys_inv v" using T by (intro timer_rearm_inv [OF _ _ _ u(2)]) auto
        then show ?thesis using IH [OF u(3)] C by blast
      next
        case False
        then show ?thesis using b J Cons by simp
      qed
    qed
  qed
  then show ?thesis using C I by blast
qed

end
