(* ===== verification/Semaphore.thy ===== *)
theory Semaphore
  imports Ipc_Core
begin

unbundle bit_operations_syntax

text \<open>
  Semaphores of \<^verbatim>\<open>kernel/src/ipc.c\<close>. The time to wait is a signed 32-bit number of
  ticks: zero for no wait, negative for no limit.
\<close>

definition upd_sem :: "nat \<Rightarrow> (u16 \<Rightarrow> u16) \<Rightarrow> kernel \<Rightarrow> kernel" where
  "upd_sem a f s = s\<lparr>sems := (sems s)(a := \<lparr>sem_value = f (sem_value (sems s a))\<rparr>)\<rparr>"

definition rt_sem_init :: "nat \<Rightarrow> u8 list \<Rightarrow> u32 \<Rightarrow> u8 \<Rightarrow> kernel \<Rightarrow> (rt_err \<times> kernel) option" where
  "rt_sem_init a name value flag s = do {
     _ \<leftarrow> rt_assert (value < 0x10000);
     s \<leftarrow> rt_object_init (Obj a) RT_Object_Class_Semaphore name s;
     let s = rt_ipc_object_init (SemQ a) s;
     let s = upd_sem a (\<lambda>_. ucast value) s;
     Some (RT_EOK, set_flag a flag s) }"

definition rt_sem_detach :: "nat \<Rightarrow> kernel \<Rightarrow> (rt_err \<times> kernel) option" where
  "rt_sem_detach a s = do {
     _ \<leftarrow> rt_assert (obj_class a s = RT_Object_Class_Semaphore);
     _ \<leftarrow> rt_assert (rt_object_is_systemobject (Obj a) s);
     s \<leftarrow> rt_ipc_list_resume_all (SemQ a) s;
     Some (RT_EOK, rt_object_detach (Obj a) s) }"

definition rt_sem_create ::
  "u8 list \<Rightarrow> u32 \<Rightarrow> u8 \<Rightarrow> nat option \<Rightarrow> kernel \<Rightarrow> (nat option \<times> kernel) option" where
  "rt_sem_create name value flag mem s = do {
     _ \<leftarrow> not_in_interrupt s;
     _ \<leftarrow> rt_assert (value < 0x10000);
     (r, s) \<leftarrow> rt_object_allocate RT_Object_Class_Semaphore name mem s;
     case r of
       None \<Rightarrow> Some (None, s)
     | Some a \<Rightarrow> do {
         let s = rt_ipc_object_init (SemQ a) s;
         let s = upd_sem a (\<lambda>_. ucast value) s;
         Some (Some a, set_flag a flag s) } }"

definition rt_sem_delete :: "nat \<Rightarrow> kernel \<Rightarrow> (rt_err \<times> kernel) option" where
  "rt_sem_delete a s = do {
     _ \<leftarrow> not_in_interrupt s;
     _ \<leftarrow> rt_assert (obj_class a s = RT_Object_Class_Semaphore);
     _ \<leftarrow> rt_assert (\<not> rt_object_is_systemobject (Obj a) s);
     s \<leftarrow> rt_ipc_list_resume_all (SemQ a) s;
     s \<leftarrow> rt_object_delete (Obj a) s;
     Some (RT_EOK, s) }"

text \<open>The code after \<^verbatim>\<open>rt_schedule\<close>: the result is the error the waker left.\<close>

definition rt_sem_take_wake :: "nat \<Rightarrow> kernel \<Rightarrow> rt_err outcome" where
  "rt_sem_take_wake t s =
     (if th_error (threads s t) \<noteq> RT_EOK then Ret (- th_error (threads s t)) else Ret RT_EOK)"

definition rt_sem_take :: "nat \<Rightarrow> u32 \<Rightarrow> kernel \<Rightarrow> (rt_err outcome \<times> kernel) option" where
  "rt_sem_take a time s = do {
     _ \<leftarrow> rt_assert (obj_class a s = RT_Object_Class_Semaphore);
     if 0 < sem_value (sems s a) then Some (Ret RT_EOK, upd_sem a (\<lambda>v. v - 1) s)
     else if time = 0 then Some (Ret (- RT_ETIMEOUT), s)
     else do {
       _ \<leftarrow> in_thread_context s;
       t \<leftarrow> cur_thread s;
       let s = upd_thread t (\<lambda>th. th\<lparr>th_error := RT_EOK\<rparr>) s;
       s \<leftarrow> ipc_wait (SemQ a) t (ipc_flag a s) time s;
       s \<leftarrow> rt_schedule s;
       Some (if cur_thread s = Some t then rt_sem_take_wake t s else Blocked, s) } }"

definition rt_sem_trytake :: "nat \<Rightarrow> kernel \<Rightarrow> (rt_err outcome \<times> kernel) option" where
  "rt_sem_trytake a s = rt_sem_take a 0 s"

definition rt_sem_release :: "nat \<Rightarrow> kernel \<Rightarrow> (rt_err \<times> kernel) option" where
  "rt_sem_release a s = do {
     _ \<leftarrow> rt_assert (obj_class a s = RT_Object_Class_Semaphore);
     if tlists s (SemQ a) \<noteq> [] then do {
       s \<leftarrow> rt_ipc_list_resume (SemQ a) s;
       s \<leftarrow> rt_schedule s;
       Some (RT_EOK, s) }
     else Some (RT_EOK, upd_sem a (\<lambda>v. v + 1) s) }"

definition rt_sem_control :: "nat \<Rightarrow> int \<Rightarrow> u32 \<Rightarrow> kernel \<Rightarrow> (rt_err \<times> kernel) option" where
  "rt_sem_control a cmd arg s = do {
     _ \<leftarrow> rt_assert (obj_class a s = RT_Object_Class_Semaphore);
     if cmd = RT_IPC_CMD_RESET then do {
       s \<leftarrow> rt_ipc_list_resume_all (SemQ a) s;
       let s = upd_sem a (\<lambda>_. ucast arg) s;
       s \<leftarrow> rt_schedule s;
       Some (RT_EOK, s) }
     else Some (- RT_ERROR, s) }"

subsection \<open>Facts\<close>

lemma upd_sem_fields [simp]:
  "sem_value (sems (upd_sem a f s) b) = (if b = a then f (sem_value (sems s a)) else sem_value (sems s b))"
  "threads (upd_sem a f s) = threads s" "tlists (upd_sem a f s) = tlists s"
  "on_list (upd_sem a f s) = on_list s" "objects (upd_sem a f s) = objects s"
  "cur_thread (upd_sem a f s) = cur_thread s" "lock_nest (upd_sem a f s) = lock_nest s"
  by (simp_all add: upd_sem_def)

lemma kinv_upd_sem [simp]: "kinv (upd_sem a f s) = kinv s"
  by (rule kinv_cong) (simp_all add: upd_sem_def)

lemma rt_sem_take_blocks:
  assumes C: "can_block t s" and ty: "obj_class a s = RT_Object_Class_Semaphore"
    and v: "sem_value (sems s a) = 0" and fl: "ipc_flag a s = 0 \<or> ipc_flag a s = 1"
    and tm: "time \<noteq> 0" "time \<noteq> HALF_TICK"
  shows "\<exists>s' u. rt_sem_take a time s = Some (Blocked, s') \<and> kinv s' \<and> cur_thread s' = Some u \<and>
     top_ready (blocked_on (SemQ a) t (ipc_flag a s) time s) u \<and>
     threads s' = threads (blocked_on (SemQ a) t (ipc_flag a s) time s) \<and>
     tlists s' (SemQ a) = wait_order (ipc_flag a s) s t (tlists s (SemQ a)) \<and> sems s' = sems s"
proof -
  obtain s' u where b: "ipc_wait (SemQ a) t (ipc_flag a s) time (upd_thread t (\<lambda>th. th\<lparr>th_error := RT_EOK\<rparr>) s) =
       Some (blocked_on (SemQ a) t (ipc_flag a s) time s)" "kinv (blocked_on (SemQ a) t (ipc_flag a s) time s)"
     "rt_schedule (blocked_on (SemQ a) t (ipc_flag a s) time s) = Some s'" "cur_thread s' = Some u" "u \<noteq> t"
     "top_ready (blocked_on (SemQ a) t (ipc_flag a s) time s) u"
    using block_switches [OF C _ fl tm(2), of "SemQ a"] by auto
  have "ipc_flag a (upd_thread t (\<lambda>th. th\<lparr>th_error := RT_EOK\<rparr>) s) = ipc_flag a s"
    by (simp add: ipc_flag_def)
  then have "rt_sem_take a time s = Some (Blocked, s')"
    using b ty v tm(1) can_blockD(3,4) [OF C] by (simp add: rt_sem_take_def in_thread_context_def)
  then show ?thesis
    using b rt_schedule_kinv [OF b(3)] rt_schedule_fields [OF b(3)] blocked_on_list [OF C, of "SemQ a"]
    by simp
qed

end
