(* ===== verification/Mutex.thy ===== *)
theory Mutex
  imports Ipc_Core
begin

unbundle bit_operations_syntax

text \<open>
  Mutexes of \<^verbatim>\<open>kernel/src/ipc.c\<close>: recursive, owned by a thread, with priority
  inheritance and hand-over to the first waiter. \<^verbatim>\<open>hold\<close> is an 8-bit counter.
\<close>

definition upd_mutex :: "nat \<Rightarrow> (rt_mutex \<Rightarrow> rt_mutex) \<Rightarrow> kernel \<Rightarrow> kernel" where
  "upd_mutex a f s = s\<lparr>mutexes := (mutexes s)(a := f (mutexes s a))\<rparr>"

definition new_mutex :: rt_mutex where
  "new_mutex = \<lparr>mutex_value = 1, original_priority = 0xFF, hold = 0, owner = None\<rparr>"

definition rt_mutex_init :: "nat \<Rightarrow> u8 list \<Rightarrow> u8 \<Rightarrow> kernel \<Rightarrow> (rt_err \<times> kernel) option" where
  "rt_mutex_init a name flag s = do {
     s \<leftarrow> rt_object_init (Obj a) RT_Object_Class_Mutex name s;
     let s = rt_ipc_object_init (MutexQ a) s;
     let s = upd_mutex a (\<lambda>_. new_mutex) s;
     Some (RT_EOK, set_flag a RT_IPC_FLAG_PRIO s) }"

definition rt_mutex_detach :: "nat \<Rightarrow> kernel \<Rightarrow> (rt_err \<times> kernel) option" where
  "rt_mutex_detach a s = do {
     _ \<leftarrow> rt_assert (obj_class a s = RT_Object_Class_Mutex);
     _ \<leftarrow> rt_assert (rt_object_is_systemobject (Obj a) s);
     s \<leftarrow> rt_ipc_list_resume_all (MutexQ a) s;
     Some (RT_EOK, rt_object_detach (Obj a) s) }"

definition rt_mutex_create ::
  "u8 list \<Rightarrow> u8 \<Rightarrow> nat option \<Rightarrow> kernel \<Rightarrow> (nat option \<times> kernel) option" where
  "rt_mutex_create name flag mem s = do {
     _ \<leftarrow> not_in_interrupt s;
     (r, s) \<leftarrow> rt_object_allocate RT_Object_Class_Mutex name mem s;
     case r of
       None \<Rightarrow> Some (None, s)
     | Some a \<Rightarrow> do {
         let s = rt_ipc_object_init (MutexQ a) s;
         let s = upd_mutex a (\<lambda>_. new_mutex) s;
         Some (Some a, set_flag a RT_IPC_FLAG_PRIO s) } }"

definition rt_mutex_delete :: "nat \<Rightarrow> kernel \<Rightarrow> (rt_err \<times> kernel) option" where
  "rt_mutex_delete a s = do {
     _ \<leftarrow> not_in_interrupt s;
     _ \<leftarrow> rt_assert (obj_class a s = RT_Object_Class_Mutex);
     _ \<leftarrow> rt_assert (\<not> rt_object_is_systemobject (Obj a) s);
     s \<leftarrow> rt_ipc_list_resume_all (MutexQ a) s;
     s \<leftarrow> rt_object_delete (Obj a) s;
     Some (RT_EOK, s) }"

text \<open>
  The code from the label \<^verbatim>\<open>__again\<close> on. A thread woken with \<^verbatim>\<open>RT_EINTR\<close> jumps
  back to it; a thread woken without an error has been made the owner by the waker.
\<close>

partial_function (option) mutex_again :: "nat \<Rightarrow> nat \<Rightarrow> u32 \<Rightarrow> kernel \<Rightarrow> (rt_err outcome \<times> kernel) option" where
  "mutex_again a t time s =
     (if 0 < mutex_value (mutexes s a) then
        Some (Ret RT_EOK, upd_mutex a (\<lambda>m. m\<lparr>mutex_value := mutex_value m - 1, owner := Some t,
           original_priority := current_priority (threads s t), hold := hold m + 1\<rparr>) s)
      else if time = 0 then
        Some (Ret (- RT_ETIMEOUT), upd_thread t (\<lambda>th. th\<lparr>th_error := RT_ETIMEOUT\<rparr>) s)
      else case owner (mutexes s a) of
        None \<Rightarrow> Some (Ret (- RT_ERROR), s)
      | Some ow \<Rightarrow> do {
          s \<leftarrow> (if current_priority (threads s t) < current_priority (threads s ow)
             then rt_thread_change_priority ow (current_priority (threads s t)) s else Some s);
          s \<leftarrow> ipc_wait (MutexQ a) t (ipc_flag a s) time s;
          s \<leftarrow> rt_schedule s;
          if cur_thread s = Some t then
            if th_error (threads s t) = RT_EOK then Some (Ret RT_EOK, s)
            else if th_error (threads s t) = RT_EINTR then mutex_again a t time s
            else Some (Ret (- th_error (threads s t)), s)
          else Some (Blocked, s) })"

declare mutex_again.simps [code]

definition rt_mutex_take_wake :: "nat \<Rightarrow> nat \<Rightarrow> u32 \<Rightarrow> kernel \<Rightarrow> (rt_err outcome \<times> kernel) option" where
  "rt_mutex_take_wake a t time s =
     (if th_error (threads s t) = RT_EOK then Some (Ret RT_EOK, s)
      else if th_error (threads s t) = RT_EINTR then mutex_again a t time s
      else Some (Ret (- th_error (threads s t)), s))"

definition rt_mutex_take :: "nat \<Rightarrow> u32 \<Rightarrow> kernel \<Rightarrow> (rt_err outcome \<times> kernel) option" where
  "rt_mutex_take a time s = do {
     _ \<leftarrow> in_thread_context s;
     _ \<leftarrow> rt_assert (obj_class a s = RT_Object_Class_Mutex);
     t \<leftarrow> cur_thread s;
     let s = upd_thread t (\<lambda>th. th\<lparr>th_error := RT_EOK\<rparr>) s;
     if owner (mutexes s a) = Some t then
       Some (Ret RT_EOK, upd_mutex a (\<lambda>m. m\<lparr>hold := hold m + 1\<rparr>) s)
     else mutex_again a t time s }"

definition rt_mutex_trytake :: "nat \<Rightarrow> kernel \<Rightarrow> (rt_err outcome \<times> kernel) option" where
  "rt_mutex_trytake a s = rt_mutex_take a 0 s"

definition rt_mutex_release :: "nat \<Rightarrow> kernel \<Rightarrow> (rt_err \<times> kernel) option" where
  "rt_mutex_release a s = do {
     _ \<leftarrow> rt_assert (obj_class a s = RT_Object_Class_Mutex);
     _ \<leftarrow> in_thread_context s;
     t \<leftarrow> cur_thread s;
     if owner (mutexes s a) \<noteq> Some t then
       Some (- RT_ERROR, upd_thread t (\<lambda>th. th\<lparr>th_error := RT_ERROR\<rparr>) s)
     else do {
       let s = upd_mutex a (\<lambda>m. m\<lparr>hold := hold m - 1\<rparr>) s;
       if hold (mutexes s a) = 0 then do {
         s \<leftarrow> (if original_priority (mutexes s a) \<noteq> current_priority (threads s t)
            then rt_thread_change_priority t (original_priority (mutexes s a)) s else Some s);
         case tlists s (MutexQ a) of
           u # _ \<Rightarrow> do {
             let s = upd_mutex a (\<lambda>m. m\<lparr>owner := Some u,
                original_priority := current_priority (threads s u), hold := hold m + 1\<rparr>) s;
             s \<leftarrow> rt_ipc_list_resume (MutexQ a) s;
             s \<leftarrow> rt_schedule s;
             Some (RT_EOK, s) }
         | [] \<Rightarrow> Some (RT_EOK, upd_mutex a (\<lambda>m. m\<lparr>mutex_value := mutex_value m + 1,
                owner := None, original_priority := 0xFF\<rparr>) s) }
       else Some (RT_EOK, s) } }"

definition rt_mutex_control :: "nat \<Rightarrow> int \<Rightarrow> u32 \<Rightarrow> kernel \<Rightarrow> (rt_err \<times> kernel) option" where
  "rt_mutex_control a cmd arg s = do {
     _ \<leftarrow> rt_assert (obj_class a s = RT_Object_Class_Mutex);
     Some (- RT_ERROR, s) }"

subsection \<open>Ownership\<close>

text \<open>
  A mutex is either free (value 1, no owner, nobody waiting) or held (value 0, an
  owner and a positive hold count).
\<close>

definition mutex_free :: "rt_mutex \<Rightarrow> bool" where
  "mutex_free m = (m = new_mutex)"

definition mutex_held :: "rt_mutex \<Rightarrow> nat \<Rightarrow> bool" where
  "mutex_held m t = (mutex_value m = 0 \<and> owner m = Some t \<and> hold m \<noteq> 0)"

definition mutex_ok :: "nat \<Rightarrow> kernel \<Rightarrow> bool" where
  "mutex_ok a s = (if owner (mutexes s a) = None
     then mutex_free (mutexes s a) \<and> tlists s (MutexQ a) = []
     else mutex_value (mutexes s a) = 0 \<and> hold (mutexes s a) \<noteq> 0)"

lemma upd_mutex_fields [simp]:
  "mutexes (upd_mutex a f s) = (mutexes s)(a := f (mutexes s a))"
  "threads (upd_mutex a f s) = threads s" "tlists (upd_mutex a f s) = tlists s"
  "on_list (upd_mutex a f s) = on_list s" "objects (upd_mutex a f s) = objects s"
  "cur_thread (upd_mutex a f s) = cur_thread s" "lock_nest (upd_mutex a f s) = lock_nest s"
  "irq_nest (upd_mutex a f s) = irq_nest s"
  by (simp_all add: upd_mutex_def)

lemma kinv_upd_mutex [simp]: "kinv (upd_mutex a f s) = kinv s"
  by (rule kinv_cong) (simp_all add: upd_mutex_def)

end
