(* ===== verification/Event.thy ===== *)
theory Event
  imports Ipc_Core
begin

unbundle bit_operations_syntax

text \<open>
  Event sets of \<^verbatim>\<open>kernel/src/ipc.c\<close>: 32 flags; a receiver waits for all of a set
  (\<^verbatim>\<open>RT_EVENT_FLAG_AND\<close>) or any of it (\<^verbatim>\<open>RT_EVENT_FLAG_OR\<close>), and may clear what
  it received.
\<close>

definition upd_event :: "nat \<Rightarrow> (u32 \<Rightarrow> u32) \<Rightarrow> kernel \<Rightarrow> kernel" where
  "upd_event a f s = s\<lparr>events := (events s)(a := \<lparr>ev_set = f (ev_set (events s a))\<rparr>)\<rparr>"

definition rt_event_init :: "nat \<Rightarrow> u8 list \<Rightarrow> u8 \<Rightarrow> kernel \<Rightarrow> (rt_err \<times> kernel) option" where
  "rt_event_init a name flag s = do {
     s \<leftarrow> rt_object_init (Obj a) RT_Object_Class_Event name s;
     let s = set_flag a flag s;
     let s = rt_ipc_object_init (EventQ a) s;
     Some (RT_EOK, upd_event a (\<lambda>_. 0) s) }"

definition rt_event_detach :: "nat \<Rightarrow> kernel \<Rightarrow> (rt_err \<times> kernel) option" where
  "rt_event_detach a s = do {
     _ \<leftarrow> rt_assert (obj_class a s = RT_Object_Class_Event);
     _ \<leftarrow> rt_assert (rt_object_is_systemobject (Obj a) s);
     s \<leftarrow> rt_ipc_list_resume_all (EventQ a) s;
     Some (RT_EOK, rt_object_detach (Obj a) s) }"

definition rt_event_create ::
  "u8 list \<Rightarrow> u8 \<Rightarrow> nat option \<Rightarrow> kernel \<Rightarrow> (nat option \<times> kernel) option" where
  "rt_event_create name flag mem s = do {
     _ \<leftarrow> not_in_interrupt s;
     (r, s) \<leftarrow> rt_object_allocate RT_Object_Class_Event name mem s;
     case r of
       None \<Rightarrow> Some (None, s)
     | Some a \<Rightarrow> do {
         let s = set_flag a flag s;
         let s = rt_ipc_object_init (EventQ a) s;
         Some (Some a, upd_event a (\<lambda>_. 0) s) } }"

definition rt_event_delete :: "nat \<Rightarrow> kernel \<Rightarrow> (rt_err \<times> kernel) option" where
  "rt_event_delete a s = do {
     _ \<leftarrow> rt_assert (obj_class a s = RT_Object_Class_Event);
     _ \<leftarrow> rt_assert (\<not> rt_object_is_systemobject (Obj a) s);
     _ \<leftarrow> not_in_interrupt s;
     s \<leftarrow> rt_ipc_list_resume_all (EventQ a) s;
     s \<leftarrow> rt_object_delete (Obj a) s;
     Some (RT_EOK, s) }"

text \<open>Whether the flags satisfy a waiting thread, and the set it is then left with.\<close>

definition event_status :: "rt_thread \<Rightarrow> u32 \<Rightarrow> u32 option" where
  "event_status th cur =
     (if event_info th AND RT_EVENT_FLAG_AND \<noteq> 0 then
        if event_set th AND cur = event_set th then Some (event_set th) else None
      else if event_info th AND RT_EVENT_FLAG_OR \<noteq> 0 then
        if event_set th AND cur \<noteq> 0 then Some (event_set th AND cur) else None
      else None)"

text \<open>
  The loop of \<^verbatim>\<open>rt_event_send\<close> over the waiting list; the successor is read before
  the thread is taken off the list. The flag is \<^verbatim>\<open>need_schedule\<close>.
\<close>

fun event_wake :: "nat \<Rightarrow> nat list \<Rightarrow> bool \<Rightarrow> kernel \<Rightarrow> (bool \<times> kernel) option" where
  "event_wake a [] need s = Some (need, s)"
| "event_wake a (t # ts) need s =
     (case event_status (threads s t) (ev_set (events s a)) of
        None \<Rightarrow> event_wake a ts need s
      | Some got \<Rightarrow> do {
          let s = upd_thread t (\<lambda>th. th\<lparr>event_set := got\<rparr>) s;
          let s = (if event_info (threads s t) AND RT_EVENT_FLAG_CLEAR \<noteq> 0
             then upd_event a (\<lambda>v. v AND NOT got) s else s);
          (_, s) \<leftarrow> rt_thread_resume t s;
          event_wake a ts True s })"

definition rt_event_send :: "nat \<Rightarrow> u32 \<Rightarrow> kernel \<Rightarrow> (rt_err \<times> kernel) option" where
  "rt_event_send a flags s = do {
     _ \<leftarrow> rt_assert (obj_class a s = RT_Object_Class_Event);
     if flags = 0 then Some (- RT_ERROR, s)
     else do {
       let s = upd_event a (\<lambda>v. v OR flags) s;
       (need, s) \<leftarrow> event_wake a (tlists s (EventQ a)) False s;
       s \<leftarrow> (if need then rt_schedule s else Some s);
       Some (RT_EOK, s) } }"

text \<open>The second component of the result is what is stored at \<^verbatim>\<open>*recved\<close>, if anything.\<close>

definition rt_event_recv_wake :: "nat \<Rightarrow> kernel \<Rightarrow> rt_err outcome \<times> u32 option" where
  "rt_event_recv_wake t s =
     (if th_error (threads s t) \<noteq> RT_EOK then (Ret (- th_error (threads s t)), None)
      else (Ret (- th_error (threads s t)), Some (event_set (threads s t))))"

definition rt_event_recv ::
  "nat \<Rightarrow> u32 \<Rightarrow> u8 \<Rightarrow> u32 \<Rightarrow> kernel \<Rightarrow> ((rt_err outcome \<times> u32 option) \<times> kernel) option" where
  "rt_event_recv a flags option timeout s = do {
     _ \<leftarrow> in_thread_context s;
     _ \<leftarrow> rt_assert (obj_class a s = RT_Object_Class_Event);
     if flags = 0 then Some ((Ret (- RT_ERROR), None), s)
     else do {
       t \<leftarrow> cur_thread s;
       let s = upd_thread t (\<lambda>th. th\<lparr>th_error := RT_EOK\<rparr>) s;
       let cur = ev_set (events s a);
       ok \<leftarrow> (if option AND RT_EVENT_FLAG_AND \<noteq> 0 then Some (cur AND flags = flags)
              else if option AND RT_EVENT_FLAG_OR \<noteq> 0 then Some (cur AND flags \<noteq> 0)
              else None);
       if ok then
         Some ((Ret RT_EOK, Some (cur AND flags)),
           if option AND RT_EVENT_FLAG_CLEAR \<noteq> 0 then upd_event a (\<lambda>v. v AND NOT flags) s else s)
       else if timeout = 0 then
         Some ((Ret (- RT_ETIMEOUT), None), upd_thread t (\<lambda>th. th\<lparr>th_error := RT_ETIMEOUT\<rparr>) s)
       else do {
         let s = upd_thread t (\<lambda>th. th\<lparr>event_set := flags, event_info := option\<rparr>) s;
         s \<leftarrow> ipc_wait (EventQ a) t (ipc_flag a s) timeout s;
         s \<leftarrow> rt_schedule s;
         Some (if cur_thread s = Some t then rt_event_recv_wake t s else (Blocked, None), s) } } }"

definition rt_event_control :: "nat \<Rightarrow> int \<Rightarrow> u32 \<Rightarrow> kernel \<Rightarrow> (rt_err \<times> kernel) option" where
  "rt_event_control a cmd arg s = do {
     _ \<leftarrow> rt_assert (obj_class a s = RT_Object_Class_Event);
     if cmd = RT_IPC_CMD_RESET then do {
       s \<leftarrow> rt_ipc_list_resume_all (EventQ a) s;
       let s = upd_event a (\<lambda>_. 0) s;
       s \<leftarrow> rt_schedule s;
       Some (RT_EOK, s) }
     else Some (- RT_ERROR, s) }"

subsection \<open>Facts\<close>

lemma upd_event_fields [simp]:
  "ev_set (events (upd_event a f s) b) = (if b = a then f (ev_set (events s a)) else ev_set (events s b))"
  "threads (upd_event a f s) = threads s" "tlists (upd_event a f s) = tlists s"
  "on_list (upd_event a f s) = on_list s" "objects (upd_event a f s) = objects s"
  "cur_thread (upd_event a f s) = cur_thread s" "lock_nest (upd_event a f s) = lock_nest s"
  by (simp_all add: upd_event_def)

lemma kinv_upd_event [simp]: "kinv (upd_event a f s) = kinv s"
  by (rule kinv_cong) (simp_all add: upd_event_def)

end
