(* ===== verification/Fifo.thy ===== *)
theory Fifo
  imports Prelude
begin

text \<open>
  The contract of the kernel's bounded queues, as a locale: what a provider promises
  about putting and getting one item, and what a client gets from it for whole
  sequences. The mailbox, the message queue and the ring buffer interpret it. The
  second part has the arithmetic of rings kept in an array.
\<close>

subsection \<open>Sequences of operations\<close>

primrec put_all :: "('a \<Rightarrow> 's \<Rightarrow> 's option) \<Rightarrow> 'a list \<Rightarrow> 's \<Rightarrow> 's option" where
  "put_all put [] s = Some s"
| "put_all put (v # vs) s = Option.bind (put v s) (put_all put vs)"

primrec get_n :: "('s \<Rightarrow> ('a \<times> 's) option) \<Rightarrow> nat \<Rightarrow> 's \<Rightarrow> ('a list \<times> 's) option" where
  "get_n get 0 s = Some ([], s)"
| "get_n get (Suc n) s = do {
     (v, s) \<leftarrow> get s;
     (vs, s) \<leftarrow> get_n get n s;
     Some (v # vs, s) }"

locale bounded_fifo =
  fixes ok :: "'s \<Rightarrow> bool" and cap :: "'s \<Rightarrow> nat" and contents :: "'s \<Rightarrow> 'a list"
    and item :: "'s \<Rightarrow> 'a \<Rightarrow> bool"
    and put :: "'a \<Rightarrow> 's \<Rightarrow> 's option" and get :: "'s \<Rightarrow> ('a \<times> 's) option"
  assumes put_law: "\<lbrakk>ok s; item s v; length (contents s) < cap s\<rbrakk> \<Longrightarrow>
      \<exists>s'. put v s = Some s' \<and> ok s' \<and> cap s' = cap s \<and> item s' = item s \<and> contents s' = contents s @ [v]"
    and get_law: "\<lbrakk>ok s; contents s = v # vs\<rbrakk> \<Longrightarrow>
      \<exists>s'. get s = Some (v, s') \<and> ok s' \<and> cap s' = cap s \<and> item s' = item s \<and> contents s' = vs"
begin

lemma put_all_contents:
  "\<lbrakk>ok s; \<forall>v \<in> set vs. item s v; length (contents s) + length vs \<le> cap s\<rbrakk> \<Longrightarrow>
   \<exists>s'. put_all put vs s = Some s' \<and> ok s' \<and> cap s' = cap s \<and> contents s' = contents s @ vs"
proof (induction vs arbitrary: s)
  case (Cons v vs)
  obtain s1 where s1: "put v s = Some s1" "ok s1" "cap s1 = cap s" "item s1 = item s"
    "contents s1 = contents s @ [v]"
    using put_law [of s v] Cons.prems by auto
  then show ?case using Cons.IH [of s1] Cons.prems by auto
qed simp

lemma get_n_contents:
  "\<lbrakk>ok s; n \<le> length (contents s)\<rbrakk> \<Longrightarrow>
   \<exists>s'. get_n get n s = Some (take n (contents s), s') \<and> ok s' \<and> cap s' = cap s \<and>
     contents s' = drop n (contents s)"
proof (induction n arbitrary: s)
  case (Suc n)
  obtain v vs where c: "contents s = v # vs" using Suc.prems by (cases "contents s") auto
  obtain s1 where "get s = Some (v, s1)" "ok s1" "cap s1 = cap s" "contents s1 = vs"
    using get_law [OF Suc.prems(1) c] by auto
  then show ?case using Suc.IH [of s1] Suc.prems c by auto
qed simp

text \<open>What goes in comes out, in the same order.\<close>

lemma fifo_order:
  assumes "ok s" and "contents s = []" and "\<forall>v \<in> set vs. item s v" and "length vs \<le> cap s"
  shows "\<exists>s1 s2. put_all put vs s = Some s1 \<and> get_n get (length vs) s1 = Some (vs, s2) \<and>
     ok s2 \<and> contents s2 = []"
proof -
  obtain s1 where s1: "put_all put vs s = Some s1" "ok s1" "contents s1 = vs"
    using put_all_contents [of s vs] assms by auto
  then show ?thesis using get_n_contents [of s1 "length vs"] by auto
qed

end

text \<open>A queue with an urgent end.\<close>

locale bounded_deque = bounded_fifo ok cap contents item put get
  for ok :: "'s \<Rightarrow> bool" and cap :: "'s \<Rightarrow> nat" and contents :: "'s \<Rightarrow> 'a list"
    and item :: "'s \<Rightarrow> 'a \<Rightarrow> bool"
    and put :: "'a \<Rightarrow> 's \<Rightarrow> 's option" and get :: "'s \<Rightarrow> ('a \<times> 's) option" +
  fixes put_front :: "'a \<Rightarrow> 's \<Rightarrow> 's option"
  assumes put_front_law: "\<lbrakk>ok s; item s v; length (contents s) < cap s\<rbrakk> \<Longrightarrow>
      \<exists>s'. put_front v s = Some s' \<and> ok s' \<and> cap s' = cap s \<and> item s' = item s \<and> contents s' = v # contents s"
begin

lemma urgent_first:
  assumes "ok s" and "item s v" and "length (contents s) < cap s"
  shows "\<exists>s1 s2. put_front v s = Some s1 \<and> get s1 = Some (v, s2) \<and> ok s2 \<and> contents s2 = contents s"
  using put_front_law [OF assms] get_law by metis

end

subsection \<open>Rings in an array\<close>

text \<open>The \<open>n\<close> elements from index \<open>i\<close> on, modulo the length of the array.\<close>

definition ring_list :: "'a list \<Rightarrow> nat \<Rightarrow> nat \<Rightarrow> 'a list" where
  "ring_list xs i n = map (\<lambda>k. xs ! ((i + k) mod length xs)) [0..<n]"

lemma length_ring_list [simp]: "length (ring_list xs i n) = n"
  by (simp add: ring_list_def)

lemma mod_add_neq:
  fixes i k n :: nat
  assumes "k < j" "j < n"
  shows "(i + k) mod n \<noteq> (i + j) mod n"
proof
  assume "(i + k) mod n = (i + j) mod n"
  then have "n dvd (i + j) - (i + k)"
    using assms by (metis add_left_mono less_imp_le mod_eq_dvd_iff_nat)
  then have "n \<le> j - k" using assms by (simp add: dvd_imp_le)
  then show False using assms by simp
qed

lemma ring_list_append:
  assumes "n < length xs"
  shows "ring_list (xs[(i + n) mod length xs := v]) i (Suc n) = ring_list xs i n @ [v]"
proof -
  have "0 < length xs" using assms by linarith
  then have "(i + n) mod length xs < length xs" by (rule mod_less_divisor)
  moreover have "(i + n) mod length xs \<noteq> (i + k) mod length xs" if "k < n" for k
    using mod_add_neq [OF that assms, of i] by simp
  ultimately show ?thesis by (auto simp: ring_list_def)
qed

lemma Suc_pred_mod:
  fixes i n :: nat
  assumes "i < n"
  shows "((i + (n - 1)) mod n + Suc k) mod n = (i + k) mod n"
proof -
  have "((i + (n - 1)) mod n + Suc k) mod n = (i + (n - 1) + Suc k) mod n"
    by (simp only: mod_add_left_eq)
  also have "i + (n - 1) + Suc k = (i + k) + n" using assms by simp
  finally show ?thesis by simp
qed

lemma ring_list_pop:
  assumes "0 < n" "i < length xs"
  shows "ring_list xs i n = xs ! i # ring_list xs ((i + 1) mod length xs) (n - 1)"
proof -
  have "[0..<n] = 0 # map Suc [0..<n - 1]"
    using assms(1) by (metis Suc_pred' map_Suc_upt upt_conv_Cons)
  moreover have "((i + 1) mod length xs + k) mod length xs = (i + Suc k) mod length xs" for k
    by (simp add: mod_add_left_eq)
  ultimately show ?thesis using assms by (simp add: ring_list_def o_def)
qed

lemma Suc_mod_pred:
  fixes i e n :: nat
  assumes "0 < e"
  shows "((i + 1) mod n + (e - 1)) mod n = (i + e) mod n"
proof -
  have "((i + 1) mod n + (e - 1)) mod n = (i + 1 + (e - 1)) mod n" by (simp only: mod_add_left_eq)
  then show ?thesis using assms by simp
qed

lemma ring_list_push:
  assumes "n < length xs" "i < length xs"
  defines "j \<equiv> (i + (length xs - 1)) mod length xs"
  shows "ring_list (xs[j := v]) j (Suc n) = v # ring_list xs i n"
proof -
  have "0 < length xs" using assms(1) by linarith
  then have j: "j < length xs" unfolding j_def by (rule mod_less_divisor)
  have e: "(j + Suc k) mod length xs = (i + k) mod length xs" for k
    using Suc_pred_mod [OF assms(2)] by (simp add: j_def)
  have "j \<noteq> (i + k) mod length xs" if "k < n" for k
    using mod_add_neq [of k "length xs - 1" "length xs" i] that assms(1)
    unfolding j_def by fastforce
  moreover have "[0..<Suc n] = 0 # map Suc [0..<n]" by (simp add: upt_conv_Cons map_Suc_upt)
  ultimately show ?thesis using j e by (auto simp: ring_list_def o_def simp del: upt_Suc)
qed

end
