(* ===== verification/Mailbox.thy ===== *)
theory Mailbox
  imports Ipc_Core Fifo
begin

unbundle bit_operations_syntax

text \<open>
  Mailboxes of \<^verbatim>\<open>kernel/src/ipc.c\<close>: a ring of 32-bit mails with a waiting list for
  receivers and one for senders. The ring is \<^verbatim>\<open>msg_pool\<close> with the offsets of the
  next mail to write and to read; a write or a read outside of the pool is \<open>None\<close>.
\<close>

definition upd_mb :: "nat \<Rightarrow> (rt_mailbox \<Rightarrow> rt_mailbox) \<Rightarrow> kernel \<Rightarrow> kernel" where
  "upd_mb a f s = s\<lparr>mailboxes := (mailboxes s)(a := f (mailboxes s a))\<rparr>"

definition new_mailbox :: "u32 list \<Rightarrow> u16 \<Rightarrow> rt_mailbox" where
  "new_mailbox pool sz =
     \<lparr>msg_pool = pool, mb_size = sz, mb_entry = 0, in_offset = 0, out_offset = 0\<rparr>"

subsection \<open>The ring\<close>

definition mb_next :: "rt_mailbox \<Rightarrow> u16 \<Rightarrow> u16" where
  "mb_next m i = (if mb_size m \<le> i + 1 then 0 else i + 1)"

definition mb_put :: "u32 \<Rightarrow> rt_mailbox \<Rightarrow> rt_mailbox option" where
  "mb_put v m =
     (if unat (in_offset m) < length (msg_pool m)
      then Some (m\<lparr>msg_pool := (msg_pool m)[unat (in_offset m) := v],
                  in_offset := mb_next m (in_offset m), mb_entry := mb_entry m + 1\<rparr>)
      else None)"

definition mb_put_front :: "u32 \<Rightarrow> rt_mailbox \<Rightarrow> rt_mailbox option" where
  "mb_put_front v m =
     (let i = (if 0 < out_offset m then out_offset m - 1 else mb_size m - 1) in
      if unat i < length (msg_pool m)
      then Some (m\<lparr>msg_pool := (msg_pool m)[unat i := v], out_offset := i, mb_entry := mb_entry m + 1\<rparr>)
      else None)"

definition mb_get :: "rt_mailbox \<Rightarrow> (u32 \<times> rt_mailbox) option" where
  "mb_get m =
     (if unat (out_offset m) < length (msg_pool m)
      then Some (msg_pool m ! unat (out_offset m),
        m\<lparr>out_offset := mb_next m (out_offset m),
          mb_entry := (if 0 < mb_entry m then mb_entry m - 1 else mb_entry m)\<rparr>)
      else None)"

subsection \<open>Operations\<close>

definition rt_mb_init ::
  "nat \<Rightarrow> u8 list \<Rightarrow> u32 list \<Rightarrow> u32 \<Rightarrow> u8 \<Rightarrow> kernel \<Rightarrow> (rt_err \<times> kernel) option" where
  "rt_mb_init a name pool sz flag s = do {
     s \<leftarrow> rt_object_init (Obj a) RT_Object_Class_MailBox name s;
     let s = set_flag a flag s;
     let s = rt_ipc_object_init (MbQ a) s;
     let s = upd_mb a (\<lambda>_. new_mailbox pool (ucast sz)) s;
     Some (RT_EOK, rt_ipc_object_init (MbSendQ a) s) }"

definition rt_mb_detach :: "nat \<Rightarrow> kernel \<Rightarrow> (rt_err \<times> kernel) option" where
  "rt_mb_detach a s = do {
     _ \<leftarrow> rt_assert (obj_class a s = RT_Object_Class_MailBox);
     _ \<leftarrow> rt_assert (rt_object_is_systemobject (Obj a) s);
     s \<leftarrow> rt_ipc_list_resume_all (MbQ a) s;
     s \<leftarrow> rt_ipc_list_resume_all (MbSendQ a) s;
     Some (RT_EOK, rt_object_detach (Obj a) s) }"

text \<open>The second allocation returns the memory of the pool.\<close>

definition rt_mb_create ::
  "u8 list \<Rightarrow> u32 \<Rightarrow> u8 \<Rightarrow> nat option \<Rightarrow> u32 list option \<Rightarrow> kernel \<Rightarrow> (nat option \<times> kernel) option" where
  "rt_mb_create name sz flag mem pool s = do {
     _ \<leftarrow> not_in_interrupt s;
     (r, s) \<leftarrow> rt_object_allocate RT_Object_Class_MailBox name mem s;
     case r of
       None \<Rightarrow> Some (None, s)
     | Some a \<Rightarrow> do {
         let s = set_flag a flag s;
         let s = rt_ipc_object_init (MbQ a) s;
         case pool of
           None \<Rightarrow> do {
             s \<leftarrow> rt_object_delete (Obj a) (upd_mb a (\<lambda>m. m\<lparr>mb_size := ucast sz\<rparr>) s);
             Some (None, s) }
         | Some p \<Rightarrow> do {
             let s = upd_mb a (\<lambda>_. new_mailbox p (ucast sz)) s;
             Some (Some a, rt_ipc_object_init (MbSendQ a) s) } } }"

definition rt_mb_delete :: "nat \<Rightarrow> kernel \<Rightarrow> (rt_err \<times> kernel) option" where
  "rt_mb_delete a s = do {
     _ \<leftarrow> not_in_interrupt s;
     _ \<leftarrow> rt_assert (obj_class a s = RT_Object_Class_MailBox);
     _ \<leftarrow> rt_assert (\<not> rt_object_is_systemobject (Obj a) s);
     s \<leftarrow> rt_ipc_list_resume_all (MbQ a) s;
     s \<leftarrow> rt_ipc_list_resume_all (MbSendQ a) s;
     s \<leftarrow> rt_object_delete (Obj a) s;
     Some (RT_EOK, s) }"

text \<open>Wake the first thread of a list, if any, and reschedule.\<close>

definition wake_one :: "lhead \<Rightarrow> kernel \<Rightarrow> kernel option" where
  "wake_one h s =
     (if tlists s h \<noteq> [] then do { s \<leftarrow> rt_ipc_list_resume h s; rt_schedule s } else Some s)"

text \<open>What is left of the timeout after a wait that began at \<open>since\<close>.\<close>

definition remaining_time :: "u32 \<Rightarrow> u32 \<Rightarrow> u32 \<Rightarrow> u32" where
  "remaining_time timeout since now =
     (if 0 < sint timeout then
        let r = timeout - (now - since) in if sint r < 0 then 0 else r
      else timeout)"

definition mb_deliver :: "nat \<Rightarrow> u32 \<Rightarrow> kernel \<Rightarrow> (rt_err outcome \<times> kernel) option" where
  "mb_deliver a v s = do {
     m \<leftarrow> mb_put v (mailboxes s a);
     s \<leftarrow> wake_one (MbQ a) (upd_mb a (\<lambda>_. m) s);
     Some (Ret RT_EOK, s) }"

text \<open>The loop \<^verbatim>\<open>while (mb->entry == mb->size)\<close> and the delivery after it.\<close>

partial_function (option) mb_send_loop ::
  "nat \<Rightarrow> u32 \<Rightarrow> u32 \<Rightarrow> kernel \<Rightarrow> (rt_err outcome \<times> kernel) option" where
  "mb_send_loop a v timeout s =
     (if mb_entry (mailboxes s a) = mb_size (mailboxes s a) then do {
        t \<leftarrow> cur_thread s;
        let s = upd_thread t (\<lambda>th. th\<lparr>th_error := RT_EOK\<rparr>) s;
        if timeout = 0 then Some (Ret (- RT_EFULL), s)
        else do {
          _ \<leftarrow> in_thread_context s;
          s1 \<leftarrow> ipc_wait (MbSendQ a) t (ipc_flag a s) timeout s;
          s2 \<leftarrow> rt_schedule s1;
          if cur_thread s2 = Some t then
            if th_error (threads s2 t) \<noteq> RT_EOK then Some (Ret (- th_error (threads s2 t)), s2)
            else mb_send_loop a v (remaining_time timeout (tick s1) (tick s2)) s2
          else Some (Blocked, s2) } }
      else mb_deliver a v s)"

declare mb_send_loop.simps [code]

definition rt_mb_send_wait_wake ::
  "nat \<Rightarrow> nat \<Rightarrow> u32 \<Rightarrow> u32 \<Rightarrow> u32 \<Rightarrow> kernel \<Rightarrow> (rt_err outcome \<times> kernel) option" where
  "rt_mb_send_wait_wake a t v timeout since s =
     (if th_error (threads s t) \<noteq> RT_EOK then Some (Ret (- th_error (threads s t)), s)
      else mb_send_loop a v (remaining_time timeout since (tick s)) s)"

definition rt_mb_send_wait :: "nat \<Rightarrow> u32 \<Rightarrow> u32 \<Rightarrow> kernel \<Rightarrow> (rt_err outcome \<times> kernel) option" where
  "rt_mb_send_wait a v timeout s = do {
     _ \<leftarrow> rt_assert (obj_class a s = RT_Object_Class_MailBox);
     if mb_entry (mailboxes s a) = mb_size (mailboxes s a) \<and> timeout = 0
     then Some (Ret (- RT_EFULL), s)
     else mb_send_loop a v timeout s }"

definition rt_mb_send :: "nat \<Rightarrow> u32 \<Rightarrow> kernel \<Rightarrow> (rt_err outcome \<times> kernel) option" where
  "rt_mb_send a v s = rt_mb_send_wait a v 0 s"

definition rt_mb_urgent :: "nat \<Rightarrow> u32 \<Rightarrow> kernel \<Rightarrow> (rt_err \<times> kernel) option" where
  "rt_mb_urgent a v s = do {
     _ \<leftarrow> rt_assert (obj_class a s = RT_Object_Class_MailBox);
     if mb_entry (mailboxes s a) = mb_size (mailboxes s a) then Some (- RT_EFULL, s)
     else do {
       m \<leftarrow> mb_put_front v (mailboxes s a);
       s \<leftarrow> wake_one (MbQ a) (upd_mb a (\<lambda>_. m) s);
       Some (RT_EOK, s) } }"

definition mb_fetch :: "nat \<Rightarrow> kernel \<Rightarrow> ((rt_err outcome \<times> u32 option) \<times> kernel) option" where
  "mb_fetch a s = do {
     (v, m) \<leftarrow> mb_get (mailboxes s a);
     s \<leftarrow> wake_one (MbSendQ a) (upd_mb a (\<lambda>_. m) s);
     Some ((Ret RT_EOK, Some v), s) }"

text \<open>The second component of the result is what is stored at \<^verbatim>\<open>*value\<close>, if anything.\<close>

partial_function (option) mb_recv_loop ::
  "nat \<Rightarrow> u32 \<Rightarrow> kernel \<Rightarrow> ((rt_err outcome \<times> u32 option) \<times> kernel) option" where
  "mb_recv_loop a timeout s =
     (if mb_entry (mailboxes s a) = 0 then do {
        t \<leftarrow> cur_thread s;
        let s = upd_thread t (\<lambda>th. th\<lparr>th_error := RT_EOK\<rparr>) s;
        if timeout = 0 then
          Some ((Ret (- RT_ETIMEOUT), None), upd_thread t (\<lambda>th. th\<lparr>th_error := RT_ETIMEOUT\<rparr>) s)
        else do {
          _ \<leftarrow> in_thread_context s;
          s1 \<leftarrow> ipc_wait (MbQ a) t (ipc_flag a s) timeout s;
          s2 \<leftarrow> rt_schedule s1;
          if cur_thread s2 = Some t then
            if th_error (threads s2 t) \<noteq> RT_EOK then Some ((Ret (- th_error (threads s2 t)), None), s2)
            else mb_recv_loop a (remaining_time timeout (tick s1) (tick s2)) s2
          else Some ((Blocked, None), s2) } }
      else mb_fetch a s)"

declare mb_recv_loop.simps [code]

definition rt_mb_recv_wake ::
  "nat \<Rightarrow> nat \<Rightarrow> u32 \<Rightarrow> u32 \<Rightarrow> kernel \<Rightarrow> ((rt_err outcome \<times> u32 option) \<times> kernel) option" where
  "rt_mb_recv_wake a t timeout since s =
     (if th_error (threads s t) \<noteq> RT_EOK then Some ((Ret (- th_error (threads s t)), None), s)
      else mb_recv_loop a (remaining_time timeout since (tick s)) s)"

definition rt_mb_recv :: "nat \<Rightarrow> u32 \<Rightarrow> kernel \<Rightarrow> ((rt_err outcome \<times> u32 option) \<times> kernel) option" where
  "rt_mb_recv a timeout s = do {
     _ \<leftarrow> rt_assert (obj_class a s = RT_Object_Class_MailBox);
     if mb_entry (mailboxes s a) = 0 \<and> timeout = 0 then Some ((Ret (- RT_ETIMEOUT), None), s)
     else mb_recv_loop a timeout s }"

definition rt_mb_control :: "nat \<Rightarrow> int \<Rightarrow> u32 \<Rightarrow> kernel \<Rightarrow> (rt_err \<times> kernel) option" where
  "rt_mb_control a cmd arg s = do {
     _ \<leftarrow> rt_assert (obj_class a s = RT_Object_Class_MailBox);
     if cmd = RT_IPC_CMD_RESET then do {
       s \<leftarrow> rt_ipc_list_resume_all (MbQ a) s;
       s \<leftarrow> rt_ipc_list_resume_all (MbSendQ a) s;
       let s = upd_mb a (\<lambda>m. m\<lparr>mb_entry := 0, in_offset := 0, out_offset := 0\<rparr>) s;
       s \<leftarrow> rt_schedule s;
       Some (RT_EOK, s) }
     else Some (- RT_ERROR, s) }"

subsection \<open>The ring is a bounded queue\<close>

text \<open>The mails in the ring, oldest first.\<close>

definition mb_list :: "rt_mailbox \<Rightarrow> u32 list" where
  "mb_list m = ring_list (msg_pool m) (unat (out_offset m)) (unat (mb_entry m))"

definition mb_ok :: "rt_mailbox \<Rightarrow> bool" where
  "mb_ok m = (length (msg_pool m) = unat (mb_size m) \<and>
     unat (mb_entry m) \<le> unat (mb_size m) \<and> unat (out_offset m) < unat (mb_size m) \<and>
     unat (in_offset m) = (unat (out_offset m) + unat (mb_entry m)) mod unat (mb_size m))"

lemma u16_Suc:
  fixes i n :: u16
  assumes "unat i < unat n"
  shows "unat (i + 1) = unat i + 1"
  using assms unsigned_less [of n, where 'a = nat] by (simp add: unat_word_ariths)

lemma mb_next_eq:
  assumes "unat i < unat (mb_size m)"
  shows "unat (mb_next m i) = (unat i + 1) mod unat (mb_size m)"
proof (cases "unat (mb_size m) = unat i + 1")
  case True
  then show ?thesis using u16_Suc [OF assms] by (simp add: mb_next_def word_le_nat_alt)
next
  case False
  then show ?thesis using u16_Suc [OF assms] assms by (simp add: mb_next_def word_le_nat_alt)
qed

lemma mb_list_length [simp]: "length (mb_list m) = unat (mb_entry m)"
  by (simp add: mb_list_def)

lemma mb_put_fifo:
  assumes ok: "mb_ok m" and l: "unat (mb_entry m) < unat (mb_size m)"
  shows "\<exists>m'. mb_put v m = Some m' \<and> mb_ok m' \<and> mb_size m' = mb_size m \<and> mb_list m' = mb_list m @ [v]"
proof -
  let ?n = "unat (mb_size m)" and ?o = "unat (out_offset m)" and ?e = "unat (mb_entry m)"
  let ?m = "m\<lparr>msg_pool := (msg_pool m)[unat (in_offset m) := v],
                  in_offset := mb_next m (in_offset m), mb_entry := mb_entry m + 1\<rparr>"
  have i: "unat (in_offset m) < ?n" "unat (in_offset m) = (?o + ?e) mod ?n" "length (msg_pool m) = ?n"
    using ok l by (auto simp: mb_ok_def)
  have e: "unat (mb_entry m + 1) = Suc ?e" using u16_Suc [OF l] by simp
  have "unat (mb_next m (in_offset m)) = (?o + Suc ?e) mod ?n"
    using mb_next_eq [OF i(1)] i(2) by (simp add: mod_Suc_eq)
  then have "mb_ok ?m" using ok e l by (simp add: mb_ok_def)
  moreover have "mb_list ?m = mb_list m @ [v]"
    using ring_list_append [of ?e "msg_pool m" ?o v] l i e by (simp add: mb_list_def)
  moreover have "mb_put v m = Some ?m" using i(1,3) by (simp add: mb_put_def)
  ultimately show ?thesis by auto
qed

lemma mb_get_fifo:
  assumes ok: "mb_ok m" and c: "mb_list m = v # vs"
  shows "\<exists>m'. mb_get m = Some (v, m') \<and> mb_ok m' \<and> mb_size m' = mb_size m \<and> mb_list m' = vs"
proof -
  let ?n = "unat (mb_size m)" and ?o = "unat (out_offset m)" and ?e = "unat (mb_entry m)"
  let ?m = "m\<lparr>out_offset := mb_next m (out_offset m), mb_entry := mb_entry m - 1\<rparr>"
  have o: "?o < ?n" "length (msg_pool m) = ?n" using ok by (auto simp: mb_ok_def)
  have pos: "0 < ?e" using c by (metis length_Cons mb_list_length zero_less_Suc)
  then have e: "unat (mb_entry m - 1) = ?e - 1" "0 < mb_entry m"
    by (auto simp: unat_minus_one word_gt_0 unat_gt_0)
  have nx: "unat (mb_next m (out_offset m)) = (?o + 1) mod ?n" using mb_next_eq [OF o(1)] .
  have "((?o + 1) mod ?n + (?e - 1)) mod ?n = (?o + ?e) mod ?n" by (rule Suc_mod_pred [OF pos])
  then have "mb_ok ?m" using ok e nx pos o by (auto simp: mb_ok_def)
  moreover have "msg_pool m ! ?o = v" "mb_list ?m = vs"
    using ring_list_pop [OF pos, of ?o "msg_pool m"] c o e nx by (simp_all add: mb_list_def)
  moreover have "mb_get m = Some (msg_pool m ! ?o, ?m)" using o e by (simp add: mb_get_def)
  ultimately show ?thesis by auto
qed

lemma mb_put_front_fifo:
  assumes ok: "mb_ok m" and l: "unat (mb_entry m) < unat (mb_size m)"
  shows "\<exists>m'. mb_put_front v m = Some m' \<and> mb_ok m' \<and> mb_size m' = mb_size m \<and> mb_list m' = v # mb_list m"
proof -
  let ?n = "unat (mb_size m)" and ?o = "unat (out_offset m)" and ?e = "unat (mb_entry m)"
  let ?i = "if 0 < out_offset m then out_offset m - 1 else mb_size m - 1"
  let ?m = "m\<lparr>msg_pool := (msg_pool m)[unat ?i := v], out_offset := ?i, mb_entry := mb_entry m + 1\<rparr>"
  have o: "?o < ?n" "length (msg_pool m) = ?n" using ok by (auto simp: mb_ok_def)
  have i: "unat ?i = (?o + (?n - 1)) mod ?n"
  proof (cases "0 < out_offset m")
    case True
    then have "0 < ?o" "unat (out_offset m - 1) = ?o - 1"
      by (auto simp: unat_minus_one unat_gt_0)
    have "?o + (?n - 1) = (?o - 1) + ?n" using \<open>0 < ?o\<close> o(1) by linarith
    then have "(?o + (?n - 1)) mod ?n = ((?o - 1) + ?n) mod ?n" by (simp only:)
    also have "\<dots> = ?o - 1" using o(1) by simp
    finally show ?thesis using True \<open>unat (out_offset m - 1) = ?o - 1\<close> by simp
  next
    case False
    then have "?o = 0" "mb_size m \<noteq> 0" using o(1) by (auto simp: word_gt_0)
    moreover from this have "(?n - 1) mod ?n = ?n - 1" by (simp add: unat_gt_0)
    ultimately show ?thesis using False by (simp add: unat_minus_one)
  qed
  have e: "unat (mb_entry m + 1) = Suc ?e" using u16_Suc [OF l] by simp
  have i_lt: "unat ?i < ?n" unfolding i using o(1) by (intro mod_less_divisor) linarith
  have "mb_ok ?m"
    using ok e l i_lt Suc_pred_mod [OF o(1), of ?e] i by (simp add: mb_ok_def del: One_nat_def)
  moreover have "mb_list ?m = v # mb_list m"
    using ring_list_push [of ?e "msg_pool m" ?o v] l o e i by (simp add: mb_list_def)
  moreover have "mb_put_front v m = Some ?m" using i_lt o(2) by (simp add: mb_put_front_def Let_def)
  ultimately show ?thesis by auto
qed

interpretation mb: bounded_deque mb_ok "\<lambda>m. unat (mb_size m)" mb_list "\<lambda>_ _. True" mb_put mb_get mb_put_front
proof unfold_locales
  fix m v assume "mb_ok m" "length (mb_list m) < unat (mb_size m)"
  then show "\<exists>m'. mb_put v m = Some m' \<and> mb_ok m' \<and> unat (mb_size m') = unat (mb_size m) \<and>
      (\<lambda>_. True) = (\<lambda>_. True) \<and> mb_list m' = mb_list m @ [v]"
    and "\<exists>m'. mb_put_front v m = Some m' \<and> mb_ok m' \<and> unat (mb_size m') = unat (mb_size m) \<and>
      (\<lambda>_. True) = (\<lambda>_. True) \<and> mb_list m' = v # mb_list m"
    using mb_put_fifo [of m v] mb_put_front_fifo [of m v] by auto
next
  fix m v vs assume "mb_ok m" "mb_list m = v # vs"
  then show "\<exists>m'. mb_get m = Some (v, m') \<and> mb_ok m' \<and> unat (mb_size m') = unat (mb_size m) \<and>
      (\<lambda>_. True) = (\<lambda>_. True) \<and> mb_list m' = vs"
    using mb_get_fifo [of m v vs] by auto
qed

end
