(* ===== verification/Msgqueue.thy ===== *)
theory Msgqueue
  imports Mailbox
begin

unbundle bit_operations_syntax

text \<open>
  Message queues of \<^verbatim>\<open>kernel/src/ipc.c\<close>: a pool of message blocks, numbered from 0
  in the order of their addresses, each with a link and \<^verbatim>\<open>msg_size\<close> bytes. The
  queued blocks are linked from \<^verbatim>\<open>msg_queue_head\<close>, the unused ones from
  \<^verbatim>\<open>msg_queue_free\<close>. The kernel copies the message with interrupts enabled, so
  sending and receiving are two critical sections each; between them the block is
  on neither list.
\<close>

definition upd_mq :: "nat \<Rightarrow> (rt_messagequeue \<Rightarrow> rt_messagequeue) \<Rightarrow> kernel \<Rightarrow> kernel" where
  "upd_mq a f s = s\<lparr>msgqueues := (msgqueues s)(a := f (msgqueues s a))\<rparr>"

subsection \<open>The block lists\<close>

definition rt_align :: "u32 \<Rightarrow> u32" where
  "rt_align n = (n + 3) AND NOT 3"

text \<open>The loop that threads all blocks on the free list.\<close>

definition mq_push_free :: "nat \<Rightarrow> rt_messagequeue \<Rightarrow> rt_messagequeue" where
  "mq_push_free i m = m\<lparr>mq_next := (mq_next m)(i := mq_free m), mq_free := Some i\<rparr>"

definition mq_build :: "rt_messagequeue \<Rightarrow> rt_messagequeue" where
  "mq_build m = fold mq_push_free
     [0..<unat (mq_max_msgs m)] (m\<lparr>mq_head := None, mq_tail := None, mq_free := None\<rparr>)"

definition mq_take_free :: "nat \<Rightarrow> rt_messagequeue \<Rightarrow> rt_messagequeue" where
  "mq_take_free i m = m\<lparr>mq_free := mq_next m i\<rparr>"

text \<open>\<^verbatim>\<open>rt_memcpy(msg + 1, buffer, size)\<close>, or zeros for a null buffer.\<close>

definition mq_fill :: "nat \<Rightarrow> u8 list option \<Rightarrow> nat \<Rightarrow> rt_messagequeue \<Rightarrow> rt_messagequeue option" where
  "mq_fill i buf n m =
     (case buf of
        Some bs \<Rightarrow> if n \<le> length bs
          then Some (m\<lparr>mq_data := (mq_data m)(i := take n bs @ drop n (mq_data m i))\<rparr>) else None
      | None \<Rightarrow> Some (m\<lparr>mq_data := (mq_data m)(i := replicate (unat (mq_msg_size m)) 0)\<rparr>))"

definition mq_link_tail :: "nat \<Rightarrow> rt_messagequeue \<Rightarrow> rt_messagequeue" where
  "mq_link_tail i m =
     (let m = (case mq_tail m of None \<Rightarrow> m | Some j \<Rightarrow> m\<lparr>mq_next := (mq_next m)(j := Some i)\<rparr>)
      in m\<lparr>mq_tail := Some i, mq_head := (if mq_head m = None then Some i else mq_head m),
           mq_entry := mq_entry m + 1\<rparr>)"

definition mq_link_head :: "nat \<Rightarrow> rt_messagequeue \<Rightarrow> rt_messagequeue" where
  "mq_link_head i m =
     m\<lparr>mq_next := (mq_next m)(i := mq_head m), mq_head := Some i,
       mq_tail := (if mq_tail m = None then Some i else mq_tail m), mq_entry := mq_entry m + 1\<rparr>"

definition mq_unlink_head :: "rt_messagequeue \<Rightarrow> (nat \<times> rt_messagequeue) option" where
  "mq_unlink_head m = do {
     i \<leftarrow> mq_head m;
     Some (i, m\<lparr>mq_head := mq_next m i, mq_tail := (if mq_tail m = Some i then None else mq_tail m),
        mq_entry := (if 0 < mq_entry m then mq_entry m - 1 else mq_entry m)\<rparr>) }"

definition mq_release :: "nat \<Rightarrow> rt_messagequeue \<Rightarrow> rt_messagequeue" where
  "mq_release i m = m\<lparr>mq_next := (mq_next m)(i := mq_free m), mq_free := Some i\<rparr>"

text \<open>The loop of the reset command.\<close>

partial_function (option) mq_flush :: "rt_messagequeue \<Rightarrow> rt_messagequeue option" where
  "mq_flush m =
     (case mq_head m of
        None \<Rightarrow> Some m
      | Some i \<Rightarrow> mq_flush (m\<lparr>mq_head := mq_next m i, mq_tail := (if mq_tail m = Some i then None else mq_tail m),
          mq_next := (mq_next m)(i := mq_free m), mq_free := Some i\<rparr>))"

declare mq_flush.simps [code]

subsection \<open>Operations\<close>

definition rt_mq_init ::
  "nat \<Rightarrow> u8 list \<Rightarrow> (nat \<Rightarrow> u8 list) \<Rightarrow> u32 \<Rightarrow> u32 \<Rightarrow> u8 \<Rightarrow> kernel \<Rightarrow> (rt_err \<times> kernel) option" where
  "rt_mq_init a name pool msg_size pool_size flag s = do {
     s \<leftarrow> rt_object_init (Obj a) RT_Object_Class_MessageQueue name s;
     let s = set_flag a flag s;
     let s = rt_ipc_object_init (MqQ a) s;
     let sz = (ucast (rt_align msg_size) :: u16);
     let s = upd_mq a (\<lambda>m. (mq_build (m\<lparr>mq_data := pool, mq_msg_size := sz,
        mq_max_msgs := ucast (pool_size div (ucast sz + 4))\<rparr>))\<lparr>mq_entry := 0\<rparr>) s;
     Some (RT_EOK, rt_ipc_object_init (MqSendQ a) s) }"

definition rt_mq_detach :: "nat \<Rightarrow> kernel \<Rightarrow> (rt_err \<times> kernel) option" where
  "rt_mq_detach a s = do {
     _ \<leftarrow> rt_assert (obj_class a s = RT_Object_Class_MessageQueue);
     _ \<leftarrow> rt_assert (rt_object_is_systemobject (Obj a) s);
     s \<leftarrow> rt_ipc_list_resume_all (MqSendQ a) s;
     Some (RT_EOK, rt_object_detach (Obj a) s) }"

definition rt_mq_create ::
  "u8 list \<Rightarrow> u32 \<Rightarrow> u32 \<Rightarrow> u8 \<Rightarrow> nat option \<Rightarrow> (nat \<Rightarrow> u8 list) option \<Rightarrow> kernel \<Rightarrow> (nat option \<times> kernel) option" where
  "rt_mq_create name msg_size max_msgs flag mem pool s = do {
     _ \<leftarrow> not_in_interrupt s;
     (r, s) \<leftarrow> rt_object_allocate RT_Object_Class_MessageQueue name mem s;
     case r of
       None \<Rightarrow> Some (None, s)
     | Some a \<Rightarrow> do {
         let s = set_flag a flag s;
         let s = rt_ipc_object_init (MqQ a) s;
         let s = upd_mq a (\<lambda>m. m\<lparr>mq_msg_size := ucast (rt_align msg_size), mq_max_msgs := ucast max_msgs\<rparr>) s;
         case pool of
           None \<Rightarrow> do { s \<leftarrow> rt_object_delete (Obj a) s; Some (None, s) }
         | Some p \<Rightarrow> do {
             let s = upd_mq a (\<lambda>m. (mq_build (m\<lparr>mq_data := p\<rparr>))\<lparr>mq_entry := 0\<rparr>) s;
             Some (Some a, rt_ipc_object_init (MqSendQ a) s) } } }"

definition rt_mq_delete :: "nat \<Rightarrow> kernel \<Rightarrow> (rt_err \<times> kernel) option" where
  "rt_mq_delete a s = do {
     _ \<leftarrow> not_in_interrupt s;
     _ \<leftarrow> rt_assert (obj_class a s = RT_Object_Class_MessageQueue);
     _ \<leftarrow> rt_assert (\<not> rt_object_is_systemobject (Obj a) s);
     s \<leftarrow> rt_ipc_list_resume_all (MqQ a) s;
     s \<leftarrow> rt_ipc_list_resume_all (MqSendQ a) s;
     s \<leftarrow> rt_object_delete (Obj a) s;
     Some (RT_EOK, s) }"

text \<open>First critical section of a send, and the second with the block linked by \<open>link\<close>.\<close>

definition mq_reserve :: "nat \<Rightarrow> kernel \<Rightarrow> nat option \<times> kernel" where
  "mq_reserve a s =
     (case mq_free (msgqueues s a) of
        None \<Rightarrow> (None, s)
      | Some i \<Rightarrow> (Some i, upd_mq a (mq_take_free i) s))"

definition mq_commit ::
  "(nat \<Rightarrow> rt_messagequeue \<Rightarrow> rt_messagequeue) \<Rightarrow> nat \<Rightarrow> nat \<Rightarrow> kernel \<Rightarrow> kernel option" where
  "mq_commit link a i s = wake_one (MqQ a) (upd_mq a (link i) s)"

definition rt_mq_send :: "nat \<Rightarrow> u8 list option \<Rightarrow> nat \<Rightarrow> kernel \<Rightarrow> (rt_err \<times> kernel) option" where
  "rt_mq_send a buf n s = do {
     _ \<leftarrow> rt_assert (obj_class a s = RT_Object_Class_MessageQueue);
     if unat (mq_msg_size (msgqueues s a)) < n then Some (- RT_ERROR, s)
     else case mq_reserve a s of
       (None, s) \<Rightarrow> Some (- RT_EFULL, s)
     | (Some i, s) \<Rightarrow> do {
         let s = upd_mq a (\<lambda>m. m\<lparr>mq_next := (mq_next m)(i := None)\<rparr>) s;
         m \<leftarrow> mq_fill i buf n (msgqueues s a);
         s \<leftarrow> mq_commit mq_link_tail a i (upd_mq a (\<lambda>_. m) s);
         Some (RT_EOK, s) } }"

definition rt_mq_urgent :: "nat \<Rightarrow> u8 list option \<Rightarrow> nat \<Rightarrow> kernel \<Rightarrow> (rt_err \<times> kernel) option" where
  "rt_mq_urgent a buf n s = do {
     _ \<leftarrow> rt_assert (obj_class a s = RT_Object_Class_MessageQueue);
     if unat (mq_msg_size (msgqueues s a)) < n then Some (- RT_ERROR, s)
     else case mq_reserve a s of
       (None, s) \<Rightarrow> Some (- RT_EFULL, s)
     | (Some i, s) \<Rightarrow> do {
         m \<leftarrow> mq_fill i buf n (msgqueues s a);
         s \<leftarrow> mq_commit mq_link_head a i (upd_mq a (\<lambda>_. m) s);
         Some (RT_EOK, s) } }"

text \<open>After the loop of \<^verbatim>\<open>rt_mq_recv\<close>: unlink, copy, put the block back.\<close>

definition mq_fetch :: "nat \<Rightarrow> nat \<Rightarrow> kernel \<Rightarrow> ((rt_err outcome \<times> u8 list option) \<times> kernel) option" where
  "mq_fetch a n s = do {
     (i, m) \<leftarrow> mq_unlink_head (msgqueues s a);
     let s = upd_mq a (\<lambda>_. m) s;
     let bs = take (if unat (mq_msg_size m) < n then unat (mq_msg_size m) else n) (mq_data m i);
     s \<leftarrow> wake_one (MqSendQ a) (upd_mq a (mq_release i) s);
     Some ((Ret RT_EOK, Some bs), s) }"

partial_function (option) mq_recv_loop ::
  "nat \<Rightarrow> nat \<Rightarrow> u32 \<Rightarrow> kernel \<Rightarrow> ((rt_err outcome \<times> u8 list option) \<times> kernel) option" where
  "mq_recv_loop a n timeout s =
     (if mq_entry (msgqueues s a) = 0 then do {
        _ \<leftarrow> in_thread_context s;
        t \<leftarrow> cur_thread s;
        let s = upd_thread t (\<lambda>th. th\<lparr>th_error := RT_EOK\<rparr>) s;
        if timeout = 0 then
          Some ((Ret (- RT_ETIMEOUT), None), upd_thread t (\<lambda>th. th\<lparr>th_error := RT_ETIMEOUT\<rparr>) s)
        else do {
          s1 \<leftarrow> ipc_wait (MqQ a) t (ipc_flag a s) timeout s;
          s2 \<leftarrow> rt_schedule s1;
          if cur_thread s2 = Some t then
            if th_error (threads s2 t) \<noteq> RT_EOK then Some ((Ret (- th_error (threads s2 t)), None), s2)
            else mq_recv_loop a n (remaining_time timeout (tick s1) (tick s2)) s2
          else Some ((Blocked, None), s2) } }
      else mq_fetch a n s)"

declare mq_recv_loop.simps [code]

definition rt_mq_recv_wake ::
  "nat \<Rightarrow> nat \<Rightarrow> nat \<Rightarrow> u32 \<Rightarrow> u32 \<Rightarrow> kernel \<Rightarrow> ((rt_err outcome \<times> u8 list option) \<times> kernel) option" where
  "rt_mq_recv_wake a t n timeout since s =
     (if th_error (threads s t) \<noteq> RT_EOK then Some ((Ret (- th_error (threads s t)), None), s)
      else mq_recv_loop a n (remaining_time timeout since (tick s)) s)"

definition rt_mq_recv ::
  "nat \<Rightarrow> nat \<Rightarrow> u32 \<Rightarrow> kernel \<Rightarrow> ((rt_err outcome \<times> u8 list option) \<times> kernel) option" where
  "rt_mq_recv a n timeout s = do {
     _ \<leftarrow> rt_assert (obj_class a s = RT_Object_Class_MessageQueue);
     _ \<leftarrow> rt_assert (n \<noteq> 0);
     if mq_entry (msgqueues s a) = 0 \<and> timeout = 0 then Some ((Ret (- RT_ETIMEOUT), None), s)
     else mq_recv_loop a n timeout s }"

definition rt_mq_control :: "nat \<Rightarrow> int \<Rightarrow> u32 \<Rightarrow> kernel \<Rightarrow> (rt_err \<times> kernel) option" where
  "rt_mq_control a cmd arg s = do {
     _ \<leftarrow> rt_assert (obj_class a s = RT_Object_Class_MessageQueue);
     if cmd = RT_IPC_CMD_RESET then do {
       s \<leftarrow> rt_ipc_list_resume_all (MqQ a) s;
       s \<leftarrow> rt_ipc_list_resume_all (MqSendQ a) s;
       m \<leftarrow> mq_flush (msgqueues s a);
       let s = upd_mq a (\<lambda>_. m\<lparr>mq_entry := 0\<rparr>) s;
       s \<leftarrow> rt_schedule s;
       Some (RT_EOK, s) }
     else Some (- RT_ERROR, s) }"

subsection \<open>Shape of the pool\<close>

text \<open>
  \<open>qs\<close> are the blocks on the queue, \<open>fs\<close> those on the free list, and \<open>F\<close> those in the
  hands of a thread that copies a message.
\<close>

fun chain :: "(nat \<Rightarrow> nat option) \<Rightarrow> nat option \<Rightarrow> nat list \<Rightarrow> bool" where
  "chain nx p [] = (p = None)"
| "chain nx p (x # xs) = (p = Some x \<and> chain nx (nx x) xs)"

definition mq_shape :: "rt_messagequeue \<Rightarrow> nat list \<Rightarrow> nat list \<Rightarrow> nat set \<Rightarrow> bool" where
  "mq_shape m qs fs F = (chain (mq_next m) (mq_head m) qs \<and> chain (mq_next m) (mq_free m) fs \<and>
     distinct (qs @ fs) \<and> set qs \<union> set fs \<union> F = {..<unat (mq_max_msgs m)} \<and>
     (set qs \<union> set fs) \<inter> F = {} \<and> mq_tail m = (if qs = [] then None else Some (last qs)) \<and>
     unat (mq_entry m) = length qs)"

lemma chain_upd [simp]: "x \<notin> set xs \<Longrightarrow> chain (nx(x := v)) p xs = chain nx p xs"
  by (induction xs arbitrary: p) auto

lemma chain_snoc:
  "\<lbrakk>chain nx p qs; distinct qs; qs \<noteq> []; i \<notin> set qs; nx i = None\<rbrakk> \<Longrightarrow>
   chain (nx(last qs := Some i)) p (qs @ [i])"
proof (induction qs arbitrary: p)
  case (Cons q qs)
  then show ?case by (cases "qs = []") auto
qed simp

lemma mq_shape_room:
  assumes "mq_shape m qs fs F" and "i \<in> F"
  shows "length qs < unat (mq_max_msgs m)"
proof -
  have d: "distinct (i # qs)" "set (i # qs) \<subseteq> {..<unat (mq_max_msgs m)}"
    using assms by (auto simp: mq_shape_def)
  then have "length (i # qs) \<le> unat (mq_max_msgs m)"
    using card_mono [OF _ d(2)] distinct_card [OF d(1)] by simp
  then show ?thesis by simp
qed

lemma mq_shape_reserve:
  "mq_shape m qs (i # fs) F \<Longrightarrow> mq_free m = Some i \<and> mq_shape (mq_take_free i m) qs fs (insert i F)"
  by (auto simp: mq_shape_def mq_take_free_def)

lemma mq_shape_private:
  assumes "mq_shape m qs fs F" "i \<in> F"
  shows "mq_shape (m\<lparr>mq_next := (mq_next m)(i := v)\<rparr>) qs fs F"
    "mq_shape (m\<lparr>mq_data := d\<rparr>) qs fs F"
proof -
  have "i \<notin> set qs" "i \<notin> set fs" using assms by (auto simp: mq_shape_def)
  then show "mq_shape (m\<lparr>mq_next := (mq_next m)(i := v)\<rparr>) qs fs F" "mq_shape (m\<lparr>mq_data := d\<rparr>) qs fs F"
    using assms by (simp_all add: mq_shape_def)
qed

lemma mq_shape_link_tail:
  assumes S: "mq_shape m qs fs F" and i: "i \<in> F" and nx: "mq_next m i = None"
  shows "mq_shape (mq_link_tail i m) (qs @ [i]) fs (F - {i})"
proof -
  have "unat (mq_entry m + 1) = Suc (length qs)"
    using u16_Suc [of "mq_entry m" "mq_max_msgs m"] mq_shape_room [OF S i] S by (simp add: mq_shape_def)
  moreover have "i \<notin> set qs" "i \<notin> set fs" using S i by (auto simp: mq_shape_def)
  moreover have "last qs \<notin> set fs" if "qs \<noteq> []" using S that last_in_set by (auto simp: mq_shape_def)
  moreover have "qs \<noteq> [] \<Longrightarrow> mq_head m \<noteq> None" using S by (cases qs) (auto simp: mq_shape_def)
  ultimately show ?thesis
    using S i nx chain_snoc [of "mq_next m" "mq_head m" qs i]
    by (cases "qs = []") (auto simp: mq_shape_def mq_link_tail_def)
qed

lemma mq_shape_link_head:
  assumes S: "mq_shape m qs fs F" and i: "i \<in> F"
  shows "mq_shape (mq_link_head i m) (i # qs) fs (F - {i})"
proof -
  have "unat (mq_entry m + 1) = Suc (length qs)"
    using u16_Suc [of "mq_entry m" "mq_max_msgs m"] mq_shape_room [OF S i] S by (simp add: mq_shape_def)
  moreover have "i \<notin> set qs" "i \<notin> set fs" using S i by (auto simp: mq_shape_def)
  ultimately show ?thesis using S i by (auto simp: mq_shape_def mq_link_head_def)
qed

lemma mq_shape_unlink:
  assumes S: "mq_shape m (i # qs) fs F"
  shows "\<exists>m'. mq_unlink_head m = Some (i, m') \<and> mq_shape m' qs fs (insert i F) \<and> mq_data m' = mq_data m \<and>
     mq_msg_size m' = mq_msg_size m \<and> mq_max_msgs m' = mq_max_msgs m"
proof -
  have e: "unat (mq_entry m) = Suc (length qs)" using S by (simp add: mq_shape_def)
  then have "mq_entry m \<noteq> 0" by (metis nat.distinct(1) unat_0)
  then have "unat (mq_entry m - 1) = length qs" "0 < mq_entry m" using e
    by (auto simp: unat_minus_one word_gt_0)
  moreover have "mq_tail m = Some i \<longleftrightarrow> qs = []"
    using S last_in_set by (auto simp: mq_shape_def split: if_splits)
  ultimately show ?thesis using S by (auto simp: mq_shape_def mq_unlink_head_def)
qed

lemma mq_shape_release:
  assumes "mq_shape m qs fs F" "i \<in> F"
  shows "mq_shape (mq_release i m) qs (i # fs) (F - {i})"
proof -
  have "i \<notin> set qs" "i \<notin> set fs" using assms by (auto simp: mq_shape_def)
  then show ?thesis using assms by (auto simp: mq_shape_def mq_release_def)
qed

text \<open>The reset loop ends and moves every queued block to the free list.\<close>

lemma mq_flush_shape:
  assumes "chain (mq_next m) (mq_head m) qs" "chain (mq_next m) (mq_free m) fs" "distinct (qs @ fs)"
    "mq_tail m = (if qs = [] then None else Some (last qs))"
  shows "\<exists>m'. mq_flush m = Some m' \<and> mq_head m' = None \<and> mq_tail m' = None \<and>
     chain (mq_next m') (mq_free m') (rev qs @ fs) \<and> mq_max_msgs m' = mq_max_msgs m \<and>
     mq_msg_size m' = mq_msg_size m \<and> mq_data m' = mq_data m"
  using assms
proof (induction qs arbitrary: m fs)
  case Nil
  then show ?case by (subst mq_flush.simps) simp
next
  case (Cons i qs)
  let ?m = "m\<lparr>mq_head := mq_next m i, mq_tail := (if mq_tail m = Some i then None else mq_tail m),
          mq_next := (mq_next m)(i := mq_free m), mq_free := Some i\<rparr>"
  have tl: "mq_tail ?m = (if qs = [] then None else Some (last qs))"
    using Cons.prems last_in_set by (auto split: if_splits)
  have c: "chain (mq_next ?m) (mq_head ?m) qs" "chain (mq_next ?m) (mq_free ?m) (i # fs)"
    "distinct (qs @ i # fs)"
    using Cons.prems by simp_all
  have e: "mq_flush m = mq_flush ?m" using Cons.prems by (subst mq_flush.simps) simp
  show ?case unfolding e using Cons.IH [OF c tl] by simp
qed

lemma mq_reset_shape:
  assumes "mq_shape m qs fs F"
  shows "\<exists>m'. mq_flush m = Some m' \<and> mq_shape (m'\<lparr>mq_entry := 0\<rparr>) [] (rev qs @ fs) F"
  using mq_flush_shape [of m qs fs] assms by (auto simp: mq_shape_def)

lemma mq_build_fold:
  assumes "chain (mq_next m) (mq_free m) fs" "distinct (rev is @ fs)"
  shows "chain (mq_next (fold mq_push_free is m)) (mq_free (fold mq_push_free is m)) (rev is @ fs) \<and>
    mq_head (fold mq_push_free is m) = mq_head m \<and> mq_tail (fold mq_push_free is m) = mq_tail m \<and>
    mq_max_msgs (fold mq_push_free is m) = mq_max_msgs m \<and>
    mq_msg_size (fold mq_push_free is m) = mq_msg_size m \<and> mq_data (fold mq_push_free is m) = mq_data m"
  using assms
proof (induction "is" arbitrary: m fs)
  case (Cons i "is")
  have p: "chain (mq_next (mq_push_free i m)) (mq_free (mq_push_free i m)) (i # fs)" "distinct (rev is @ i # fs)"
    using Cons.prems by (auto simp: mq_push_free_def)
  have f: "mq_head (mq_push_free i m) = mq_head m" "mq_tail (mq_push_free i m) = mq_tail m"
    "mq_max_msgs (mq_push_free i m) = mq_max_msgs m" "mq_msg_size (mq_push_free i m) = mq_msg_size m"
    "mq_data (mq_push_free i m) = mq_data m"
    by (simp_all add: mq_push_free_def)
  show ?case using Cons.IH [OF p] unfolding f by simp
qed simp

lemma mq_build_shape: "mq_shape ((mq_build m)\<lparr>mq_entry := 0\<rparr>) [] (rev [0..<unat (mq_max_msgs m)]) {}"
  using mq_build_fold [of "m\<lparr>mq_head := None, mq_tail := None, mq_free := None\<rparr>" "[]" "[0..<unat (mq_max_msgs m)]"]
  by (auto simp: mq_shape_def mq_build_def Let_def)

subsection \<open>The queue is a bounded FIFO with an urgent end\<close>

fun walk :: "(nat \<Rightarrow> nat option) \<Rightarrow> nat option \<Rightarrow> nat \<Rightarrow> nat list" where
  "walk nx (Some i) (Suc n) = i # walk nx (nx i) n"
| "walk nx p n = []"

definition mq_slots :: "rt_messagequeue \<Rightarrow> nat list" where
  "mq_slots m = walk (mq_next m) (mq_head m) (unat (mq_entry m))"

text \<open>The messages on the queue, oldest first, and a send or receive as one step.\<close>

definition mq_msgs :: "rt_messagequeue \<Rightarrow> u8 list list" where
  "mq_msgs m = map (mq_data m) (mq_slots m)"

definition mq_put :: "u8 list \<Rightarrow> rt_messagequeue \<Rightarrow> rt_messagequeue option" where
  "mq_put bs m = do {
     i \<leftarrow> mq_free m;
     m \<leftarrow> mq_fill i (Some bs) (length bs) ((mq_take_free i m)\<lparr>mq_next := (mq_next m)(i := None)\<rparr>);
     Some (mq_link_tail i m) }"

definition mq_put_front :: "u8 list \<Rightarrow> rt_messagequeue \<Rightarrow> rt_messagequeue option" where
  "mq_put_front bs m = do {
     i \<leftarrow> mq_free m;
     m \<leftarrow> mq_fill i (Some bs) (length bs) (mq_take_free i m);
     Some (mq_link_head i m) }"

definition mq_get :: "rt_messagequeue \<Rightarrow> (u8 list \<times> rt_messagequeue) option" where
  "mq_get m = do {
     (i, m) \<leftarrow> mq_unlink_head m;
     Some (take (unat (mq_msg_size m)) (mq_data m i), mq_release i m) }"

definition mq_ok :: "rt_messagequeue \<Rightarrow> bool" where
  "mq_ok m = ((\<exists>fs. mq_shape m (mq_slots m) fs {}) \<and> (\<forall>i. length (mq_data m i) = unat (mq_msg_size m)))"

lemma walk_chain: "chain nx p xs \<Longrightarrow> walk nx p (length xs) = xs"
  by (induction xs arbitrary: p) auto

lemma mq_slots_shape: "mq_shape m qs fs F \<Longrightarrow> mq_slots m = qs"
  using walk_chain [of "mq_next m" "mq_head m" qs] by (auto simp: mq_shape_def mq_slots_def)

lemma mq_shape_count:
  "mq_shape m qs fs {} \<Longrightarrow> length qs + length fs = unat (mq_max_msgs m)"
  using distinct_card [of "qs @ fs"] by (auto simp: mq_shape_def)

lemma mq_free_slot:
  assumes ok: "mq_ok m" and l: "length (mq_msgs m) < unat (mq_max_msgs m)"
  obtains i fs where "mq_shape m (mq_slots m) (i # fs) {}" "mq_free m = Some i"
    "mq_shape (mq_take_free i m) (mq_slots m) fs {i}" "i \<notin> set (mq_slots m)"
proof -
  obtain fs where S: "mq_shape m (mq_slots m) fs {}" using ok by (auto simp: mq_ok_def)
  have "fs \<noteq> []" using mq_shape_count [OF S] l by (auto simp: mq_msgs_def)
  then obtain i fs' where f: "fs = i # fs'" by (cases fs) auto
  show ?thesis
    using that [of i fs'] S mq_shape_reserve [of m "mq_slots m" i fs' "{}"] f by (auto simp: mq_shape_def)
qed

lemma mq_link_fields [simp]:
  "mq_data (mq_link_tail i m) = mq_data m" "mq_data (mq_link_head i m) = mq_data m"
  "mq_msg_size (mq_link_tail i m) = mq_msg_size m" "mq_msg_size (mq_link_head i m) = mq_msg_size m"
  "mq_max_msgs (mq_link_tail i m) = mq_max_msgs m" "mq_max_msgs (mq_link_head i m) = mq_max_msgs m"
  by (auto simp: mq_link_tail_def mq_link_head_def Let_def split: option.splits)

lemma mq_put_fifo:
  assumes ok: "mq_ok m" and v: "length bs = unat (mq_msg_size m)"
    and l: "length (mq_msgs m) < unat (mq_max_msgs m)"
  shows "\<exists>m'. mq_put bs m = Some m' \<and> mq_ok m' \<and> mq_max_msgs m' = mq_max_msgs m \<and>
     mq_msg_size m' = mq_msg_size m \<and> mq_msgs m' = mq_msgs m @ [bs]"
proof -
  obtain i fs where i: "mq_free m = Some i" "mq_shape (mq_take_free i m) (mq_slots m) fs {i}"
    "i \<notin> set (mq_slots m)"
    using mq_free_slot [OF ok l] by metis
  let ?n = "(mq_take_free i m)\<lparr>mq_next := (mq_next m)(i := None)\<rparr>"
  let ?d = "?n\<lparr>mq_data := (mq_data m)(i := bs)\<rparr>"
  have len: "\<forall>j. length (mq_data m j) = unat (mq_msg_size m)" using ok by (simp add: mq_ok_def)
  have "mq_shape ?n (mq_slots m) fs {i}"
    using mq_shape_private(1) [OF i(2), of i None] by (simp add: mq_take_free_def)
  then have "mq_shape ?d (mq_slots m) fs {i}" by (rule mq_shape_private(2)) simp
  then have S: "mq_shape (mq_link_tail i ?d) (mq_slots m @ [i]) fs {}"
    using mq_shape_link_tail [of ?d "mq_slots m" fs "{i}" i] by simp
  have "mq_fill i (Some bs) (length bs) ?n = Some ?d"
    using len v by (simp add: mq_fill_def mq_take_free_def)
  then have "mq_put bs m = Some (mq_link_tail i ?d)" using i(1) by (simp add: mq_put_def)
  moreover have "mq_ok (mq_link_tail i ?d)"
    using S mq_slots_shape [OF S] len v by (auto simp: mq_ok_def mq_take_free_def)
  moreover have "mq_msgs (mq_link_tail i ?d) = mq_msgs m @ [bs]"
    using mq_slots_shape [OF S] i(3) by (auto simp: mq_msgs_def)
  ultimately show ?thesis by (simp add: mq_take_free_def)
qed

lemma mq_put_front_fifo:
  assumes ok: "mq_ok m" and v: "length bs = unat (mq_msg_size m)"
    and l: "length (mq_msgs m) < unat (mq_max_msgs m)"
  shows "\<exists>m'. mq_put_front bs m = Some m' \<and> mq_ok m' \<and> mq_max_msgs m' = mq_max_msgs m \<and>
     mq_msg_size m' = mq_msg_size m \<and> mq_msgs m' = bs # mq_msgs m"
proof -
  obtain i fs where i: "mq_free m = Some i" "mq_shape (mq_take_free i m) (mq_slots m) fs {i}"
    "i \<notin> set (mq_slots m)"
    using mq_free_slot [OF ok l] by metis
  let ?d = "(mq_take_free i m)\<lparr>mq_data := (mq_data m)(i := bs)\<rparr>"
  have len: "\<forall>j. length (mq_data m j) = unat (mq_msg_size m)" using ok by (simp add: mq_ok_def)
  have "mq_shape ?d (mq_slots m) fs {i}" using mq_shape_private(2) [OF i(2)] by simp
  then have S: "mq_shape (mq_link_head i ?d) (i # mq_slots m) fs {}"
    using mq_shape_link_head [of ?d "mq_slots m" fs "{i}" i] by simp
  have "mq_fill i (Some bs) (length bs) (mq_take_free i m) = Some ?d"
    using len v by (simp add: mq_fill_def mq_take_free_def)
  then have "mq_put_front bs m = Some (mq_link_head i ?d)" using i(1) by (simp add: mq_put_front_def)
  moreover have "mq_ok (mq_link_head i ?d)"
    using S mq_slots_shape [OF S] len v by (auto simp: mq_ok_def mq_take_free_def)
  moreover have "mq_msgs (mq_link_head i ?d) = bs # mq_msgs m"
    using mq_slots_shape [OF S] i(3) by (auto simp: mq_msgs_def)
  ultimately show ?thesis by (simp add: mq_take_free_def)
qed

lemma mq_get_fifo:
  assumes ok: "mq_ok m" and c: "mq_msgs m = v # vs"
  shows "\<exists>m'. mq_get m = Some (v, m') \<and> mq_ok m' \<and> mq_max_msgs m' = mq_max_msgs m \<and>
     mq_msg_size m' = mq_msg_size m \<and> mq_msgs m' = vs"
proof -
  obtain i qs where q: "mq_slots m = i # qs" "v = mq_data m i" "vs = map (mq_data m) qs"
    using c by (auto simp: mq_msgs_def)
  obtain fs where "mq_shape m (i # qs) fs {}" using ok q(1) by (auto simp: mq_ok_def)
  then obtain m1 where m1: "mq_unlink_head m = Some (i, m1)" "mq_shape m1 qs fs {i}"
    "mq_data m1 = mq_data m" "mq_msg_size m1 = mq_msg_size m" "mq_max_msgs m1 = mq_max_msgs m"
    using mq_shape_unlink by blast
  have S: "mq_shape (mq_release i m1) qs (i # fs) {}" using mq_shape_release [OF m1(2), of i] by simp
  have len: "\<forall>j. length (mq_data m j) = unat (mq_msg_size m)" using ok by (simp add: mq_ok_def)
  have f: "mq_data (mq_release i m1) = mq_data m" "mq_msg_size (mq_release i m1) = mq_msg_size m"
    "mq_max_msgs (mq_release i m1) = mq_max_msgs m"
    using m1 by (simp_all add: mq_release_def)
  have "mq_get m = Some (v, mq_release i m1)" using m1 len q(2) by (simp add: mq_get_def)
  moreover have "mq_ok (mq_release i m1)" using S mq_slots_shape [OF S] len f by (auto simp: mq_ok_def)
  moreover have "mq_msgs (mq_release i m1) = vs" using mq_slots_shape [OF S] f q(3) by (simp add: mq_msgs_def)
  ultimately show ?thesis using f by simp
qed

interpretation mq: bounded_deque mq_ok "\<lambda>m. unat (mq_max_msgs m)" mq_msgs
    "\<lambda>m bs. length bs = unat (mq_msg_size m)" mq_put mq_get mq_put_front
proof unfold_locales
  fix m and v :: "u8 list"
  assume a: "mq_ok m" "length v = unat (mq_msg_size m)" "length (mq_msgs m) < unat (mq_max_msgs m)"
  show "\<exists>m'. mq_put v m = Some m' \<and> mq_ok m' \<and> unat (mq_max_msgs m') = unat (mq_max_msgs m) \<and>
      (\<lambda>bs :: u8 list. length bs = unat (mq_msg_size m')) = (\<lambda>bs. length bs = unat (mq_msg_size m)) \<and>
      mq_msgs m' = mq_msgs m @ [v]"
    using mq_put_fifo [OF a] by fastforce
  show "\<exists>m'. mq_put_front v m = Some m' \<and> mq_ok m' \<and> unat (mq_max_msgs m') = unat (mq_max_msgs m) \<and>
      (\<lambda>bs :: u8 list. length bs = unat (mq_msg_size m')) = (\<lambda>bs. length bs = unat (mq_msg_size m)) \<and>
      mq_msgs m' = v # mq_msgs m"
    using mq_put_front_fifo [OF a] by fastforce
next
  fix m v vs assume a: "mq_ok m" "mq_msgs m = v # vs"
  show "\<exists>m'. mq_get m = Some (v, m') \<and> mq_ok m' \<and> unat (mq_max_msgs m') = unat (mq_max_msgs m) \<and>
      (\<lambda>bs :: u8 list. length bs = unat (mq_msg_size m')) = (\<lambda>bs. length bs = unat (mq_msg_size m)) \<and>
      mq_msgs m' = vs"
    using mq_get_fifo [OF a] by fastforce
qed

end
