(* ===== verification/Mempool.thy ===== *)
theory Mempool
  imports Msgqueue
begin

unbundle bit_operations_syntax

text \<open>
  Fixed-size memory pools of \<^verbatim>\<open>kernel/src/mempool.c\<close>. A block is its number in the
  pool; its first word is a link while it is free and the address of the pool while
  it is in use.
\<close>

definition upd_mp :: "nat \<Rightarrow> (rt_mempool \<Rightarrow> rt_mempool) \<Rightarrow> kernel \<Rightarrow> kernel" where
  "upd_mp a f s = s\<lparr>mempools := (mempools s)(a := f (mempools s a))\<rparr>"

text \<open>
  The error number of \<^verbatim>\<open>kservice.c\<close>: a field of the running thread, or a global
  variable in an interrupt and before the scheduler runs.
\<close>

definition rt_set_errno :: "rt_err \<Rightarrow> kernel \<Rightarrow> kernel" where
  "rt_set_errno e s =
     (if irq_nest s \<noteq> 0 then s\<lparr>rt_errno := e\<rparr>
      else case cur_thread s of
        None \<Rightarrow> s\<lparr>rt_errno := e\<rparr>
      | Some t \<Rightarrow> upd_thread t (\<lambda>th. th\<lparr>th_error := e\<rparr>) s)"

definition rt_get_errno :: "kernel \<Rightarrow> rt_err" where
  "rt_get_errno s =
     (if irq_nest s \<noteq> 0 then rt_errno s
      else case cur_thread s of None \<Rightarrow> rt_errno s | Some t \<Rightarrow> th_error (threads s t))"

text \<open>
  The loop that links the blocks, and the store that ends the list: for a pool with
  no block that store is in front of the pool.
\<close>

definition mp_build :: "rt_mempool \<Rightarrow> rt_mempool option" where
  "mp_build m =
     (let n = unat (mp_total_count m);
          m = fold (\<lambda>k m. m\<lparr>mp_blocks := (mp_blocks m)(k := Link (Some (k + 1)))\<rparr>) [0..<n] m
      in if n = 0 then None
         else Some (m\<lparr>mp_blocks := (mp_blocks m)(n - 1 := Link None), mp_block_list := Some 0\<rparr>))"

definition rt_mp_init :: "nat \<Rightarrow> u8 list \<Rightarrow> u32 \<Rightarrow> u32 \<Rightarrow> kernel \<Rightarrow> (rt_err \<times> kernel) option" where
  "rt_mp_init a name sz block_size s = do {
     s \<leftarrow> rt_object_init (Obj a) RT_Object_Class_MemPool name s;
     let sz = sz AND NOT 3;
     let bsz = rt_align block_size;
     let total = sz div (bsz + 4);
     let s = rt_ipc_object_init (MpQ a) s;
     m \<leftarrow> mp_build ((mempools s a)\<lparr>mp_size := sz, mp_block_size := bsz, mp_total_count := total,
        mp_free_count := total, mp_suspend_count := 0\<rparr>);
     Some (RT_EOK, upd_mp a (\<lambda>_. m) s) }"

partial_function (option) mp_resume_all :: "nat \<Rightarrow> kernel \<Rightarrow> kernel option" where
  "mp_resume_all a s =
     (case tlists s (MpQ a) of
        [] \<Rightarrow> Some s
      | t # _ \<Rightarrow> do {
          let s = upd_thread t (\<lambda>th. th\<lparr>th_error := RT_ERROR\<rparr>) s;
          (_, s) \<leftarrow> rt_thread_resume t s;
          mp_resume_all a (upd_mp a (\<lambda>m. m\<lparr>mp_suspend_count := mp_suspend_count m - 1\<rparr>) s) })"

declare mp_resume_all.simps [code]

definition rt_mp_detach :: "nat \<Rightarrow> kernel \<Rightarrow> (rt_err \<times> kernel) option" where
  "rt_mp_detach a s = do {
     _ \<leftarrow> rt_assert (obj_class a s = RT_Object_Class_MemPool);
     _ \<leftarrow> rt_assert (rt_object_is_systemobject (Obj a) s);
     s \<leftarrow> mp_resume_all a s;
     Some (RT_EOK, rt_object_detach (Obj a) s) }"

text \<open>The last argument tells whether the allocation of the pool succeeded.\<close>

definition rt_mp_create ::
  "u8 list \<Rightarrow> u32 \<Rightarrow> u32 \<Rightarrow> nat option \<Rightarrow> bool \<Rightarrow> kernel \<Rightarrow> (nat option \<times> kernel) option" where
  "rt_mp_create name block_count block_size mem pool s = do {
     _ \<leftarrow> not_in_interrupt s;
     (r, s) \<leftarrow> rt_object_allocate RT_Object_Class_MemPool name mem s;
     case r of
       None \<Rightarrow> Some (None, s)
     | Some a \<Rightarrow> do {
         let bsz = rt_align block_size;
         let s = upd_mp a (\<lambda>m. m\<lparr>mp_block_size := bsz, mp_size := (bsz + 4) * block_count\<rparr>) s;
         if \<not> pool then do { s \<leftarrow> rt_object_delete (Obj a) s; Some (None, s) }
         else do {
           let s = rt_ipc_object_init (MpQ a) s;
           m \<leftarrow> mp_build ((mempools s a)\<lparr>mp_total_count := block_count,
              mp_free_count := block_count, mp_suspend_count := 0\<rparr>);
           Some (Some a, upd_mp a (\<lambda>_. m) s) } } }"

definition rt_mp_delete :: "nat \<Rightarrow> kernel \<Rightarrow> (rt_err \<times> kernel) option" where
  "rt_mp_delete a s = do {
     _ \<leftarrow> not_in_interrupt s;
     _ \<leftarrow> rt_assert (obj_class a s = RT_Object_Class_MemPool);
     _ \<leftarrow> rt_assert (\<not> rt_object_is_systemobject (Obj a) s);
     s \<leftarrow> mp_resume_all a s;
     s \<leftarrow> rt_object_delete (Obj a) s;
     Some (RT_EOK, s) }"

text \<open>Taking the first free block; the loop around it waits for one.\<close>

definition mp_take :: "nat \<Rightarrow> rt_mempool \<Rightarrow> (nat \<times> rt_mempool) option" where
  "mp_take a m = do {
     b \<leftarrow> mp_block_list m;
     case mp_blocks m b of
       Link nx \<Rightarrow> Some (b, m\<lparr>mp_free_count := mp_free_count m - 1, mp_block_list := nx,
          mp_blocks := (mp_blocks m)(b := Owner a)\<rparr>)
     | Owner _ \<Rightarrow> None }"

partial_function (option) mp_alloc_loop ::
  "nat \<Rightarrow> u32 \<Rightarrow> kernel \<Rightarrow> (nat option outcome \<times> kernel) option" where
  "mp_alloc_loop a time s =
     (if mp_free_count (mempools s a) = 0 then
        if time = 0 then Some (Ret None, rt_set_errno RT_ETIMEOUT s)
        else do {
          _ \<leftarrow> not_in_interrupt s;
          t \<leftarrow> cur_thread s;
          let s = upd_thread t (\<lambda>th. th\<lparr>th_error := RT_EOK\<rparr>) s;
          (_, s) \<leftarrow> rt_thread_suspend t s;
          s \<leftarrow> tlist_push (MpQ a) t s;
          let s = upd_mp a (\<lambda>m. m\<lparr>mp_suspend_count := mp_suspend_count m + 1\<rparr>) s;
          s1 \<leftarrow> start_thread_timer t time s;
          s2 \<leftarrow> rt_schedule s1;
          if cur_thread s2 = Some t then
            if th_error (threads s2 t) \<noteq> RT_EOK then Some (Ret None, s2)
            else mp_alloc_loop a (remaining_time time (tick s1) (tick s2)) s2
          else Some (Blocked, s2) }
      else do {
        (b, m) \<leftarrow> mp_take a (mempools s a);
        Some (Ret (Some b), upd_mp a (\<lambda>_. m) s) })"

declare mp_alloc_loop.simps [code]

definition rt_mp_alloc :: "nat \<Rightarrow> u32 \<Rightarrow> kernel \<Rightarrow> (nat option outcome \<times> kernel) option" where
  "rt_mp_alloc a time s = mp_alloc_loop a time s"

definition rt_mp_alloc_wake ::
  "nat \<Rightarrow> nat \<Rightarrow> u32 \<Rightarrow> u32 \<Rightarrow> kernel \<Rightarrow> (nat option outcome \<times> kernel) option" where
  "rt_mp_alloc_wake a t time since s =
     (if th_error (threads s t) \<noteq> RT_EOK then Some (Ret None, s)
      else mp_alloc_loop a (remaining_time time since (tick s)) s)"

definition mp_give :: "nat \<Rightarrow> rt_mempool \<Rightarrow> rt_mempool" where
  "mp_give b m = m\<lparr>mp_free_count := mp_free_count m + 1,
     mp_blocks := (mp_blocks m)(b := Link (mp_block_list m)), mp_block_list := Some b\<rparr>"

text \<open>
  The block is the one numbered \<open>b\<close> in the pool at \<open>p\<close>; its first word says which pool
  to return it to. A word that is a link (the block is already free) is no pool.
\<close>

definition rt_mp_free :: "nat \<Rightarrow> nat \<Rightarrow> kernel \<Rightarrow> kernel option" where
  "rt_mp_free p b s =
     (case mp_blocks (mempools s p) b of
        Link _ \<Rightarrow> None
      | Owner a \<Rightarrow>
          if a \<noteq> p then None
          else do {
            let s = upd_mp a (mp_give b) s;
            if 0 < mp_suspend_count (mempools s a) then do {
              t \<leftarrow> tlist_first (MpQ a) s;
              let s = upd_thread t (\<lambda>th. th\<lparr>th_error := RT_EOK\<rparr>) s;
              (_, s) \<leftarrow> rt_thread_resume t s;
              let s = upd_mp a (\<lambda>m. m\<lparr>mp_suspend_count := mp_suspend_count m - 1\<rparr>) s;
              rt_schedule s }
            else Some s })"

subsection \<open>The free list\<close>

text \<open>\<open>fs\<close> are the free blocks; every other block of the pool carries its owner.\<close>

fun links :: "(nat \<Rightarrow> block_word) \<Rightarrow> nat option \<Rightarrow> nat list \<Rightarrow> bool" where
  "links w p [] = (p = None)"
| "links w p (b # bs) = (p = Some b \<and> (\<exists>nx. w b = Link nx \<and> links w nx bs))"

definition mp_shape :: "nat \<Rightarrow> rt_mempool \<Rightarrow> nat list \<Rightarrow> bool" where
  "mp_shape a m fs = (links (mp_blocks m) (mp_block_list m) fs \<and> distinct fs \<and>
     set fs \<subseteq> {..<unat (mp_total_count m)} \<and> unat (mp_free_count m) = length fs \<and>
     (\<forall>b < unat (mp_total_count m). b \<notin> set fs \<longrightarrow> mp_blocks m b = Owner a))"

lemma links_upd [simp]: "b \<notin> set bs \<Longrightarrow> links (w(b := v)) p bs = links w p bs"
  by (induction bs arbitrary: p) auto

lemma mp_take_shape:
  assumes S: "mp_shape a m fs" and n: "mp_free_count m \<noteq> 0"
  shows "\<exists>b fs' m'. fs = b # fs' \<and> mp_take a m = Some (b, m') \<and> mp_shape a m' fs' \<and>
     mp_total_count m' = mp_total_count m \<and> mp_suspend_count m' = mp_suspend_count m"
proof -
  have "0 < length fs" using S n by (metis mp_shape_def unat_gt_0)
  then obtain b fs' where f: "fs = b # fs'" by (cases fs) auto
  obtain nx where nx: "mp_block_list m = Some b" "mp_blocks m b = Link nx" "links (mp_blocks m) nx fs'"
    using S f by (auto simp: mp_shape_def)
  have "unat (mp_free_count m - 1) = length fs'" using S f n by (simp add: mp_shape_def unat_minus_one)
  then show ?thesis using S f nx by (auto simp: mp_take_def mp_shape_def)
qed

lemma mp_give_shape:
  assumes S: "mp_shape a m fs" and b: "b < unat (mp_total_count m)" "mp_blocks m b = Owner a"
  shows "mp_shape a (mp_give b m) (b # fs)"
proof -
  have nb: "b \<notin> set fs"
  proof
    have "links w p xs \<Longrightarrow> x \<in> set xs \<Longrightarrow> \<exists>nx. w x = Link nx" for w p xs and x :: nat
      by (induction xs arbitrary: p) auto
    moreover assume "b \<in> set fs"
    ultimately show False using S b(2) unfolding mp_shape_def by (metis block_word.distinct(1))
  qed
  have d: "distinct (b # fs)" "set (b # fs) \<subseteq> {..<unat (mp_total_count m)}"
    using S b nb by (auto simp: mp_shape_def)
  then have "length (b # fs) \<le> unat (mp_total_count m)"
    using card_mono [OF _ d(2)] distinct_card [OF d(1)] by simp
  then have "unat (mp_free_count m + 1) = Suc (length fs)"
    using S unsigned_less [of "mp_total_count m", where 'a = nat]
    by (simp add: mp_shape_def unat_word_ariths)
  then show ?thesis using S d nb by (auto simp: mp_shape_def mp_give_def)
qed

lemma mp_build_fold:
  "mp_blocks (fold (\<lambda>k m. m\<lparr>mp_blocks := (mp_blocks m)(k := Link (Some (k + 1)))\<rparr>) ks m) =
     (\<lambda>b. if b \<in> set ks then Link (Some (b + 1)) else mp_blocks m b) \<and>
   mp_total_count (fold (\<lambda>k m. m\<lparr>mp_blocks := (mp_blocks m)(k := Link (Some (k + 1)))\<rparr>) ks m) = mp_total_count m \<and>
   mp_free_count (fold (\<lambda>k m. m\<lparr>mp_blocks := (mp_blocks m)(k := Link (Some (k + 1)))\<rparr>) ks m) = mp_free_count m"
  by (induction ks arbitrary: m) auto

lemma links_run:
  "i < n \<Longrightarrow> (\<And>b. i \<le> b \<Longrightarrow> b < n \<Longrightarrow> w b = Link (if b = n - 1 then None else Some (b + 1))) \<Longrightarrow>
   links w (Some i) [i..<n]"
proof (induction "n - i" arbitrary: i)
  case (Suc k)
  show ?case
  proof (cases "i = n - 1")
    case True
    then have "[i..<n] = [i]" using Suc.prems(1) by (simp add: upt_conv_Cons)
    then show ?thesis using Suc.prems True by simp
  next
    case False
    then have "links w (Some (i + 1)) [i + 1..<n]" using Suc.hyps(2) Suc.prems by (intro Suc.hyps(1)) auto
    moreover have "[i..<n] = i # [i + 1..<n]" using Suc.prems(1) by (simp add: upt_conv_Cons)
    ultimately show ?thesis using Suc.prems(1) Suc.prems(2) [of i] False by simp
  qed
qed simp

lemma mp_build_shape:
  assumes n: "mp_total_count m \<noteq> 0" and f: "mp_free_count m = mp_total_count m"
  shows "\<exists>m'. mp_build m = Some m' \<and> mp_shape a m' [0..<unat (mp_total_count m)] \<and>
     mp_total_count m' = mp_total_count m"
proof -
  let ?n = "unat (mp_total_count m)"
  let ?f = "fold (\<lambda>k m. m\<lparr>mp_blocks := (mp_blocks m)(k := Link (Some (k + 1)))\<rparr>) [0..<?n] m"
  let ?m = "?f\<lparr>mp_blocks := (mp_blocks ?f)(?n - 1 := Link None), mp_block_list := Some 0\<rparr>"
  note F = mp_build_fold [of "[0..<?n]" m]
  have pos: "0 < ?n" using n by (simp add: unat_gt_0)
  have "links (mp_blocks ?m) (Some 0) [0..<?n]"
    by (rule links_run [OF pos]) (use F in auto)
  moreover have "mp_build m = Some ?m" using pos by (simp add: mp_build_def Let_def)
  ultimately show ?thesis using F f by (auto simp: mp_shape_def)
qed

end
