(* ===== verification/Thread_Life.thy ===== *)
theory Thread_Life
  imports Semaphore
begin

unbundle bit_operations_syntax

text \<open>
  The life cycle of threads: creation, start, exit, detach and delete of
  \<^verbatim>\<open>kernel/src/thread.c\<close> and the defunct queue of \<^verbatim>\<open>kernel/src/idle.c\<close>.

  A cleanup function is application code: it is the parameter \<open>cln\<close>, applied to the
  thread; the field \<open>cleanup\<close> tells whether one is set. Allocations are arguments, as
  in \<^verbatim>\<open>Object\<close>.
\<close>

text \<open>
  The stack pointer \<^verbatim>\<open>rt_hw_stack_init\<close> of \<^verbatim>\<open>platform/cpu/cortex-a/stack.c\<close>
  returns: 16 core registers, 64 VFP registers and two control words below the
  aligned top. The contents of the frame are not modelled.
\<close>

definition rt_hw_stack_init :: "u32 \<Rightarrow> u32" where
  "rt_hw_stack_init addr = ((addr + 4) AND NOT 7) - 4 * (16 + 64 + 2)"

text \<open>A stack too small for the frame is overrun from its low end: \<open>None\<close>.\<close>

definition thread_init_fields ::
  "nat \<Rightarrow> u8 list \<Rightarrow> u32 \<Rightarrow> u32 \<Rightarrow> u8 \<Rightarrow> u32 \<Rightarrow> nat option \<Rightarrow> kernel \<Rightarrow> (rt_err \<times> kernel) option" where
  "thread_init_fields t name stack_start sz priority ticks mem s = do {
     let s = s\<lparr>on_list := (on_list s)(t := None)\<rparr>;
     let sp0 = rt_hw_stack_init (stack_start + sz - 4);
     _ \<leftarrow> rt_assert (stack_start < sp0 \<and> sp0 < stack_start + sz);
     let s = upd_thread t (\<lambda>th. th\<lparr>stack_addr := stack_start, stack_size := sz, stack_guard := 35,
        sp := sp0, init_priority := priority, current_priority := priority, number_mask := 0,
        number := 0, high_mask := 0, th_init_tick := ticks, remaining_tick := ticks,
        th_error := RT_EOK, stat := RT_THREAD_INIT, cleanup := False\<rparr>) s;
     (lk, s) \<leftarrow> rt_sem_create name 0 0 mem s;
     let s = upd_thread t (\<lambda>th. th\<lparr>th_lock := lk\<rparr>) s;
     s \<leftarrow> rt_timer_init (TTimer t) (obj_name (objects s (Obj t))) (Thread_Timeout t) 0 0 s;
     Some (RT_EOK, s) }"

definition rt_thread_init ::
  "nat \<Rightarrow> u8 list \<Rightarrow> u32 \<Rightarrow> u32 \<Rightarrow> u8 \<Rightarrow> u32 \<Rightarrow> nat option \<Rightarrow> kernel \<Rightarrow> (rt_err \<times> kernel) option" where
  "rt_thread_init t name stack_start sz priority ticks mem s = do {
     _ \<leftarrow> rt_assert (stack_start \<noteq> 0);
     s \<leftarrow> rt_object_init (Obj t) RT_Object_Class_Thread name s;
     thread_init_fields t name stack_start sz priority ticks mem s }"

definition rt_thread_create ::
  "u8 list \<Rightarrow> u32 \<Rightarrow> u8 \<Rightarrow> u32 \<Rightarrow> nat option \<Rightarrow> u32 option \<Rightarrow> nat option \<Rightarrow> kernel \<Rightarrow>
   (nat option \<times> kernel) option" where
  "rt_thread_create name sz priority ticks mem stack lock_mem s = do {
     (r, s) \<leftarrow> rt_object_allocate RT_Object_Class_Thread name mem s;
     case r of
       None \<Rightarrow> Some (None, s)
     | Some t \<Rightarrow> (case stack of
         None \<Rightarrow> do { s \<leftarrow> rt_object_delete (Obj t) s; Some (None, s) }
       | Some st \<Rightarrow> do {
           (_, s) \<leftarrow> thread_init_fields t name st sz priority ticks lock_mem s;
           Some (Some t, s) }) }"

subsection \<open>The end of a thread\<close>

definition thread_cleanup_execute :: "(nat \<Rightarrow> kernel \<Rightarrow> kernel option) \<Rightarrow> nat \<Rightarrow> kernel \<Rightarrow> kernel option" where
  "thread_cleanup_execute cln t s = (if cleanup (threads s t) then cln t s else Some s)"

definition rt_thread_defunct_enqueue :: "nat \<Rightarrow> kernel \<Rightarrow> kernel option" where
  "rt_thread_defunct_enqueue t s = tlist_push DefunctQ t s"

definition rt_thread_defunct_dequeue :: "kernel \<Rightarrow> nat option \<times> kernel" where
  "rt_thread_defunct_dequeue s =
     (case tlists s DefunctQ of [] \<Rightarrow> (None, s) | t # _ \<Rightarrow> (Some t, tlist_remove t s))"

text \<open>Taking and deleting the semaphore \<^verbatim>\<open>thread->lock\<close>.\<close>

definition drop_lock :: "nat \<Rightarrow> kernel \<Rightarrow> kernel option" where
  "drop_lock t s =
     (let para = th_lock (threads s t); s = upd_thread t (\<lambda>th. th\<lparr>th_lock := None\<rparr>) s in
      case para of None \<Rightarrow> Some s | Some a \<Rightarrow> do { (_, s) \<leftarrow> rt_sem_delete a s; Some s })"

definition retire :: "nat \<Rightarrow> kernel \<Rightarrow> kernel option" where
  "retire t s =
     (if rt_object_is_systemobject (Obj t) s \<and> \<not> cleanup (threads s t)
      then Some (rt_object_detach (Obj t) s)
      else rt_thread_defunct_enqueue t s)"

definition rt_thread_exit :: "(nat \<Rightarrow> kernel \<Rightarrow> kernel option) \<Rightarrow> kernel \<Rightarrow> kernel option" where
  "rt_thread_exit cln s = do {
     t \<leftarrow> cur_thread s;
     s \<leftarrow> drop_lock t s;
     let s = rt_enter_critical s;
     s \<leftarrow> thread_cleanup_execute cln t s;
     let s = rt_schedule_remove_thread t s;
     let s = upd_thread t (\<lambda>th. th\<lparr>stat := RT_THREAD_CLOSE\<rparr>) s;
     (_, s) \<leftarrow> rt_timer_detach (TTimer t) s;
     s \<leftarrow> retire t s;
     s \<leftarrow> rt_exit_critical s;
     if cur_thread s = Some t then rt_schedule s else Some s }"

definition rt_thread_detach :: "(nat \<Rightarrow> kernel \<Rightarrow> kernel option) \<Rightarrow> nat \<Rightarrow> kernel \<Rightarrow> (rt_err \<times> kernel) option" where
  "rt_thread_detach cln t s = do {
     _ \<leftarrow> rt_assert (is_thread t s);
     _ \<leftarrow> rt_assert (rt_object_is_systemobject (Obj t) s);
     if tstat s t = RT_THREAD_CLOSE then Some (RT_EOK, s)
     else do {
       let s = (if tstat s t \<noteq> RT_THREAD_INIT then rt_schedule_remove_thread t s else s);
       s \<leftarrow> thread_cleanup_execute cln t s;
       (_, s) \<leftarrow> rt_timer_detach (TTimer t) s;
       s \<leftarrow> drop_lock t s;
       let s = upd_thread t (\<lambda>th. th\<lparr>stat := RT_THREAD_CLOSE\<rparr>) s;
       s \<leftarrow> retire t s;
       Some (RT_EOK, s) } }"

definition rt_thread_delete :: "(nat \<Rightarrow> kernel \<Rightarrow> kernel option) \<Rightarrow> nat \<Rightarrow> kernel \<Rightarrow> (rt_err \<times> kernel) option" where
  "rt_thread_delete cln t s = do {
     _ \<leftarrow> rt_assert (is_thread t s);
     _ \<leftarrow> rt_assert (\<not> rt_object_is_systemobject (Obj t) s);
     if tstat s t = RT_THREAD_CLOSE then Some (RT_EOK, s)
     else do {
       let s = (if tstat s t \<noteq> RT_THREAD_INIT then rt_schedule_remove_thread t s else s);
       s \<leftarrow> thread_cleanup_execute cln t s;
       (_, s) \<leftarrow> rt_timer_detach (TTimer t) s;
       s \<leftarrow> drop_lock t s;
       let s = upd_thread t (\<lambda>th. th\<lparr>stat := RT_THREAD_CLOSE\<rparr>) s;
       s \<leftarrow> rt_thread_defunct_enqueue t s;
       Some (RT_EOK, s) } }"

datatype thread_cmd = Ctrl_Change_Priority u8 | Ctrl_Startup | Ctrl_Close | Ctrl_Other

definition rt_thread_control ::
  "(nat \<Rightarrow> kernel \<Rightarrow> kernel option) \<Rightarrow> nat \<Rightarrow> thread_cmd \<Rightarrow> kernel \<Rightarrow> (rt_err \<times> kernel) option" where
  "rt_thread_control cln t cmd s = do {
     _ \<leftarrow> rt_assert (is_thread t s);
     case cmd of
       Ctrl_Change_Priority p \<Rightarrow> do { s \<leftarrow> rt_thread_change_priority t p s; Some (RT_EOK, s) }
     | Ctrl_Startup \<Rightarrow> rt_thread_startup t s
     | Ctrl_Close \<Rightarrow> do {
         (r, s) \<leftarrow> (if rt_object_is_systemobject (Obj t) s then rt_thread_detach cln t s
                   else rt_thread_delete cln t s);
         s \<leftarrow> rt_schedule s;
         Some (r, s) }
     | Ctrl_Other \<Rightarrow> Some (RT_EOK, s) }"

definition rt_thread_get_sem_lock :: "kernel \<Rightarrow> nat option option" where
  "rt_thread_get_sem_lock s =
     (case cur_thread s of None \<Rightarrow> None | Some t \<Rightarrow> Some (th_lock (threads s t)))"

text \<open>
  The clean-up loop of the idle thread. A static thread ends it (with an unlock of
  the scheduler that no lock precedes).
\<close>

partial_function (option) rt_defunct_execute :: "(nat \<Rightarrow> kernel \<Rightarrow> kernel option) \<Rightarrow> kernel \<Rightarrow> kernel option" where
  "rt_defunct_execute cln s = do {
     _ \<leftarrow> not_in_interrupt s;
     case rt_thread_defunct_dequeue s of
       (None, s) \<Rightarrow> Some s
     | (Some t, s) \<Rightarrow> do {
         s \<leftarrow> thread_cleanup_execute cln t s;
         if rt_object_is_systemobject (Obj t) s then
           rt_exit_critical (rt_object_detach (Obj t) s)
         else do {
           s \<leftarrow> rt_object_delete (Obj t) s;
           rt_defunct_execute cln s } } }"

declare rt_defunct_execute.simps [code]

end
