(* ===== verification/Calls_Inv.thy ===== *)
theory Calls_Inv
  imports Invariant Semaphore Mutex Event Mempool Thread_Life
begin

unbundle bit_operations_syntax

text \<open>
  Every system call keeps the kernel invariant whenever it returns: semaphores, mutexes, events, mailboxes, message
  queues, memory pools, and the calls on threads, timers and the clock.
\<close>

subsection \<open>Blocking and waking\<close>

lemma sys_inv_block:
  assumes I: "sys_inv s" and c: "cur_thread s = Some t" and h: "ipc_head h"
    and w: "ipc_wait h t flag time (upd_thread t (\<lambda>th. th\<lparr>th_error := e\<rparr>) s) = Some s1"
    and r: "rt_schedule s1 = Some s2"
  shows "sys_inv s2"
proof -
  have "started (upd_thread t (\<lambda>th. th\<lparr>th_error := e\<rparr>) s) t" using sys_invD(2) [OF I c] by simp
  then have "sys_inv s1" using sys_inv_ipc_wait [OF sys_inv_error [OF I] _ h w] by blast
  then show ?thesis using sys_inv_schedule r by blast
qed

lemma sys_inv_resume_switch:
  "\<lbrakk>sys_inv s; rt_ipc_list_resume h s = Some u; rt_schedule u = Some s'\<rbrakk> \<Longrightarrow> sys_inv s'"
  by (blast intro: sys_inv_ipc_resume sys_inv_schedule)

lemma sys_inv_wake_one:
  assumes I: "sys_inv s" and r: "wake_one h s = Some s'"
  shows "sys_inv s'"
proof (cases "tlists s h = []")
  case True
  then show ?thesis using I r by (simp add: wake_one_def)
next
  case False
  then obtain u where "rt_ipc_list_resume h s = Some u" "rt_schedule u = Some s'"
    using r by (auto simp: wake_one_def)
  then show ?thesis by (rule sys_inv_resume_switch [OF I])
qed

lemma sys_inv_upd_sem [simp]: "sys_inv (upd_sem a f s) = sys_inv s"
  by (rule sys_inv_cong) (simp_all add: upd_sem_def)

lemma sys_inv_upd_mutex [simp]: "sys_inv (upd_mutex a f s) = sys_inv s"
  by (rule sys_inv_cong) (simp_all add: upd_mutex_def)

lemma sys_inv_upd_event [simp]: "sys_inv (upd_event a f s) = sys_inv s"
  by (rule sys_inv_cong) (simp_all add: upd_event_def)

lemma sys_inv_upd_mb [simp]: "sys_inv (upd_mb a f s) = sys_inv s"
  by (rule sys_inv_cong) (simp_all add: upd_mb_def)

lemma sys_inv_upd_mq [simp]: "sys_inv (upd_mq a f s) = sys_inv s"
  by (rule sys_inv_cong) (simp_all add: upd_mq_def)

lemma sys_inv_upd_mp [simp]: "sys_inv (upd_mp a f s) = sys_inv s"
  by (rule sys_inv_cong) (simp_all add: upd_mp_def)

subsection \<open>Semaphores\<close>

lemma sem_take_inv:
  assumes I: "sys_inv s" and r: "rt_sem_take a time s = Some (e, s')"
  shows "sys_inv s'"
proof (cases "0 < sem_value (sems s a) \<or> time = 0")
  case True
  then show ?thesis using I r by (auto simp: rt_sem_take_def split: if_splits)
next
  case False
  then obtain t s1 where "cur_thread s = Some t"
    "ipc_wait (SemQ a) t (ipc_flag a (upd_thread t (\<lambda>th. th\<lparr>th_error := RT_EOK\<rparr>) s)) time
       (upd_thread t (\<lambda>th. th\<lparr>th_error := RT_EOK\<rparr>) s) = Some s1" "rt_schedule s1 = Some s'"
    using r by (auto simp: rt_sem_take_def Let_def split: if_splits)
  then show ?thesis using sys_inv_block [OF I] by (metis ipc_head_simps(1))
qed

lemma sem_release_inv:
  assumes I: "sys_inv s" and r: "rt_sem_release a s = Some (e, s')"
  shows "sys_inv s'"
proof (cases "tlists s (SemQ a) = []")
  case True
  then show ?thesis using I r by (auto simp: rt_sem_release_def split: if_splits)
next
  case False
  then obtain u where "rt_ipc_list_resume (SemQ a) s = Some u" "rt_schedule u = Some s'"
    using r by (auto simp: rt_sem_release_def split: if_splits)
  then show ?thesis by (rule sys_inv_resume_switch [OF I])
qed

lemma sem_control_inv:
  assumes I: "sys_inv s" and r: "rt_sem_control a cmd v s = Some (e, s')"
  shows "sys_inv s'"
proof (cases "cmd = 1")
  case True
  then obtain u where "rt_ipc_list_resume_all (SemQ a) s = Some u"
    "rt_schedule (upd_sem a (\<lambda>_. ucast v) u) = Some s'"
    using r by (auto simp: rt_sem_control_def Let_def split: if_splits)
  then show ?thesis using sys_inv_resume_all [OF I] sys_inv_schedule by (metis ipc_head_simps(1) sys_inv_upd_sem)
next
  case False
  then show ?thesis using I r by (auto simp: rt_sem_control_def split: if_splits)
qed

subsection \<open>Mutexes\<close>

lemma mutex_again_inv:
  assumes I: "sys_inv s" and c: "cur_thread s = Some t" and r: "mutex_again a t time s = Some (e, s')"
  shows "sys_inv s'"
proof -
  have "sys_inv s \<longrightarrow> cur_thread s = Some t \<longrightarrow> sys_inv (snd (e, s'))"
  proof (rule mutex_again.raw_induct
      [where P = "\<lambda>a t time s r. sys_inv s \<longrightarrow> cur_thread s = Some t \<longrightarrow> sys_inv (snd r)", OF _ r], intro impI)
    fix again a t time s r
    assume IH: "\<And>a t time s r. again a t time s = Some r \<Longrightarrow>
        sys_inv s \<longrightarrow> cur_thread s = Some t \<longrightarrow> sys_inv (snd r)"
      and b: "(if 0 < mutex_value (mutexes s a) then
        Some (Ret RT_EOK, upd_mutex a (\<lambda>m. m\<lparr>mutex_value := mutex_value m - 1, owner := Some t,
           original_priority := current_priority (threads s t), hold := hold m + 1\<rparr>) s)
      else if time = 0 then
        Some (Ret (- RT_ETIMEOUT), upd_thread t (\<lambda>th. th\<lparr>th_error := RT_ETIMEOUT\<rparr>) s)
      else case owner (mutexes s a) of
        None \<Rightarrow> Some (Ret (- RT_ERROR), s)
      | Some ow \<Rightarrow> do {
          s \<leftarrow> (if current_priority (threads s t) < current_priority (threads s ow)
             then rt_thread_change_priority ow (current_priority (threads s t)) s else Some s);
          s \<leftarrow> ipc_wait (MutexQ a) t (ipc_flag a s) time s;
          s \<leftarrow> rt_schedule s;
          if cur_thread s = Some t then
            if th_error (threads s t) = RT_EOK then Some (Ret RT_EOK, s)
            else if th_error (threads s t) = RT_EINTR then again a t time s
            else Some (Ret (- th_error (threads s t)), s)
          else Some (Blocked, s) }) = Some r"
      and J: "sys_inv s" and cur: "cur_thread s = Some t"
    show "sys_inv (snd r)"
    proof (cases "0 < mutex_value (mutexes s a) \<or> time = 0 \<or> owner (mutexes s a) = None")
      case True
      then show ?thesis using b J sys_inv_error [OF J] by (auto split: if_splits option.splits)
    next
      case False
      then obtain ow s1 s2 s3 where o: "owner (mutexes s a) = Some ow"
        and s1: "(if current_priority (threads s t) < current_priority (threads s ow)
             then rt_thread_change_priority ow (current_priority (threads s t)) s else Some s) = Some s1"
        and s2: "ipc_wait (MutexQ a) t (ipc_flag a s1) time s1 = Some s2" and s3: "rt_schedule s2 = Some s3"
        and e: "(if cur_thread s3 = Some t then
            if th_error (threads s3 t) = RT_EOK then Some (Ret RT_EOK, s3)
            else if th_error (threads s3 t) = RT_EINTR then again a t time s3
            else Some (Ret (- th_error (threads s3 t)), s3)
          else Some (Blocked, s3)) = Some r"
        using b by (auto split: option.splits)
      have "sys_inv s1" "started s1 t"
        using s1 J sys_inv_change_priority [OF J] sys_invD(2) [OF J cur] by (auto split: if_splits)
      then have "sys_inv s2" using sys_inv_ipc_wait [OF _ _ _ s2] by simp
      then have "sys_inv s3" using sys_inv_schedule s3 by blast
      then show ?thesis using e IH [of a t time s3 r] by (auto split: if_splits)
    qed
  qed
  then show ?thesis using I c by simp
qed

lemma mutex_take_inv:
  assumes I: "sys_inv s" and r: "rt_mutex_take a time s = Some (e, s')"
  shows "sys_inv s'"
proof -
  obtain t where c: "cur_thread s = Some t" using r by (auto simp: rt_mutex_take_def split: if_splits)
  let ?u = "upd_thread t (\<lambda>th. th\<lparr>th_error := RT_EOK\<rparr>) s"
  have K: "sys_inv ?u" using sys_inv_error [OF I] .
  show ?thesis
  proof (cases "owner (mutexes s a) = Some t")
    case True
    then show ?thesis using r c K by (auto simp: rt_mutex_take_def split: if_splits)
  next
    case False
    then have "mutex_again a t time ?u = Some (e, s')"
      using r c by (auto simp: rt_mutex_take_def split: if_splits)
    then show ?thesis using mutex_again_inv [OF K] c by simp
  qed
qed

lemma mutex_release_inv:
  assumes I: "sys_inv s" and r: "rt_mutex_release a s = Some (e, s')"
  shows "sys_inv s'"
proof -
  obtain t where c: "cur_thread s = Some t" using r by (auto simp: rt_mutex_release_def split: if_splits)
  let ?u = "upd_mutex a (\<lambda>m. m\<lparr>hold := hold m - 1\<rparr>) s"
  consider "owner (mutexes s a) \<noteq> Some t" | "owner (mutexes s a) = Some t" "hold (mutexes ?u a) \<noteq> 0"
    | "owner (mutexes s a) = Some t" "hold (mutexes ?u a) = 0" by blast
  then show ?thesis
  proof cases
    case 1
    then show ?thesis using r c sys_inv_error [OF I] by (auto simp: rt_mutex_release_def split: if_splits)
  next
    case 2
    then show ?thesis using r c I by (auto simp: rt_mutex_release_def Let_def split: if_splits)
  next
    case 3
    then obtain s1 where s1: "(if original_priority (mutexes ?u a) \<noteq> current_priority (threads ?u t)
            then rt_thread_change_priority t (original_priority (mutexes ?u a)) ?u else Some ?u) = Some s1"
      and rest: "(case tlists s1 (MutexQ a) of
           u # _ \<Rightarrow> do {
             let s = upd_mutex a (\<lambda>m. m\<lparr>owner := Some u,
                original_priority := current_priority (threads s1 u), hold := hold m + 1\<rparr>) s1;
             s \<leftarrow> rt_ipc_list_resume (MutexQ a) s;
             s \<leftarrow> rt_schedule s;
             Some (RT_EOK, s) }
         | [] \<Rightarrow> Some (RT_EOK, upd_mutex a (\<lambda>m. m\<lparr>mutex_value := mutex_value m + 1,
                owner := None, original_priority := 0xFF\<rparr>) s1)) = Some (e, s')"
      using r c by (auto simp: rt_mutex_release_def Let_def split: if_splits)
    have K: "sys_inv s1" using s1 I sys_inv_change_priority(1) [of ?u] by (auto split: if_splits)
    show ?thesis
    proof (cases "tlists s1 (MutexQ a)")
      case Nil
      then show ?thesis using rest K by auto
    next
      case (Cons u us)
      then obtain s2 where "rt_ipc_list_resume (MutexQ a) (upd_mutex a (\<lambda>m. m\<lparr>owner := Some u,
          original_priority := current_priority (threads s1 u), hold := hold m + 1\<rparr>) s1) = Some s2"
        "rt_schedule s2 = Some s'"
        using rest by (auto simp: Let_def)
      then show ?thesis by (rule sys_inv_resume_switch [rotated]) (simp add: K)
    qed
  qed
qed

subsection \<open>Events\<close>

lemma event_wake_inv:
  "\<lbrakk>sys_inv s; event_wake a ts need s = Some (n, s')\<rbrakk> \<Longrightarrow> sys_inv s'"
proof (induction ts arbitrary: need s)
  case (Cons t ts)
  show ?case
  proof (cases "event_status (threads s t) (ev_set (events s a))")
    case None
    then show ?thesis using Cons by simp
  next
    case (Some got)
    let ?u = "upd_thread t (\<lambda>th. th\<lparr>event_set := got\<rparr>) s"
    let ?v = "if event_info (threads ?u t) AND RT_EVENT_FLAG_CLEAR \<noteq> 0 then upd_event a (\<lambda>v. v AND NOT got) ?u else ?u"
    obtain e w where w: "rt_thread_resume t ?v = Some (e, w)" "event_wake a ts True w = Some (n, s')"
      using Cons.prems(2) Some by (auto simp: Let_def)
    have "sys_inv ?v" using sys_inv_event_set [OF Cons.prems(1)] by simp
    then have "sys_inv w" using sys_inv_resume(1) w(1) by blast
    then show ?thesis using Cons.IH w(2) by blast
  qed
qed simp

lemma event_send_inv:
  assumes I: "sys_inv s" and r: "rt_event_send a v s = Some (e, s')"
  shows "sys_inv s'"
proof (cases "v = 0")
  case True
  then show ?thesis using I r by (auto simp: rt_event_send_def split: if_splits)
next
  case False
  then obtain n u where u: "event_wake a (tlists s (EventQ a)) False (upd_event a (\<lambda>x. x OR v) s) = Some (n, u)"
    "(if n then rt_schedule u else Some u) = Some s'"
    using r by (auto simp: rt_event_send_def Let_def split: if_splits)
  have "sys_inv u" using event_wake_inv [OF _ u(1)] I by simp
  then show ?thesis using u(2) sys_inv_schedule by (cases n) auto
qed

lemma event_recv_inv:
  assumes I: "sys_inv s" and r: "rt_event_recv a v opt time s = Some (e, s')"
  shows "sys_inv s'"
proof (cases "v = 0")
  case True
  then show ?thesis using I r by (auto simp: rt_event_recv_def split: if_splits)
next
  case v: False
  obtain t where c: "cur_thread s = Some t" using r v by (auto simp: rt_event_recv_def split: if_splits)
  let ?u = "upd_thread t (\<lambda>th. th\<lparr>th_error := RT_EOK\<rparr>) s"
  let ?ok = "if opt AND RT_EVENT_FLAG_AND \<noteq> 0 then Some (ev_set (events ?u a) AND v = v)
              else if opt AND RT_EVENT_FLAG_OR \<noteq> 0 then Some (ev_set (events ?u a) AND v \<noteq> 0)
              else None"
  have K: "sys_inv ?u" using sys_inv_error [OF I] .
  obtain ok where ok: "?ok = Some ok" using r v c
    by (cases ?ok) (auto simp: rt_event_recv_def Let_def split: if_splits)
  consider "ok" | "\<not> ok" "time = 0" | "\<not> ok" "time \<noteq> 0" by blast
  then show ?thesis
  proof cases
    case 1
    then show ?thesis using r v c ok K by (auto simp: rt_event_recv_def Let_def split: if_splits)
  next
    case 2
    then show ?thesis using r v c ok sys_inv_error [OF K]
      by (auto simp: rt_event_recv_def Let_def split: if_splits)
  next
    case 3
    let ?w = "upd_thread t (\<lambda>th. th\<lparr>event_set := v, event_info := opt\<rparr>) ?u"
    obtain s1 where s1: "ipc_wait (EventQ a) t (ipc_flag a ?w) time ?w = Some s1" "rt_schedule s1 = Some s'"
      using r v c ok 3 by (auto simp: rt_event_recv_def Let_def split: if_splits)
    have "sys_inv ?w" using sys_inv_events [OF K] .
    moreover have "started ?w t" using sys_invD(2) [OF I c] by simp
    ultimately have "sys_inv s1" using sys_inv_ipc_wait [OF _ _ _ s1(1)] by simp
    then show ?thesis using s1(2) sys_inv_schedule by blast
  qed
qed


lemma event_control_inv:
  assumes I: "sys_inv s" and r: "rt_event_control a cmd v s = Some (e, s')"
  shows "sys_inv s'"
proof (cases "cmd = 1")
  case True
  then obtain u where u: "rt_ipc_list_resume_all (EventQ a) s = Some u"
    "rt_schedule (upd_event a (\<lambda>_. 0) u) = Some s'"
    using r by (auto simp: rt_event_control_def Let_def split: if_splits)
  have "sys_inv u" using sys_inv_resume_all [OF I _ u(1)] by simp
  then show ?thesis by (intro sys_inv_schedule [OF _ u(2)]) simp
next
  case False
  then show ?thesis using I r by (auto simp: rt_event_control_def split: if_splits)
qed

subsection \<open>Mailboxes\<close>

lemma mb_deliver_inv:
  assumes I: "sys_inv s" and r: "mb_deliver a v s = Some (e, s')"
  shows "sys_inv s'"
proof -
  obtain m where "wake_one (MbQ a) (upd_mb a (\<lambda>_. m) s) = Some s'"
    using r by (auto simp: mb_deliver_def)
  then show ?thesis by (rule sys_inv_wake_one [rotated]) (simp add: I)
qed

lemma mb_fetch_inv:
  assumes I: "sys_inv s" and r: "mb_fetch a s = Some (e, s')"
  shows "sys_inv s'"
proof -
  obtain m where "wake_one (MbSendQ a) (upd_mb a (\<lambda>_. m) s) = Some s'"
    using r by (auto simp: mb_fetch_def)
  then show ?thesis by (rule sys_inv_wake_one [rotated]) (simp add: I)
qed

lemma mb_send_loop_inv:
  assumes I: "sys_inv s" and r: "mb_send_loop a v timeout s = Some (e, s')"
  shows "sys_inv s'"
proof -
  have "sys_inv s \<longrightarrow> sys_inv (snd (e, s'))"
  proof (rule mb_send_loop.raw_induct [where P = "\<lambda>a v timeout s r. sys_inv s \<longrightarrow> sys_inv (snd r)", OF _ r], intro impI)
    fix loop a v timeout s r
    assume IH: "\<And>a v timeout s r. loop a v timeout s = Some r \<Longrightarrow> sys_inv s \<longrightarrow> sys_inv (snd r)"
      and b: "(if mb_entry (mailboxes s a) = mb_size (mailboxes s a) then do {
        t \<leftarrow> cur_thread s;
        let s = upd_thread t (\<lambda>th. th\<lparr>th_error := RT_EOK\<rparr>) s;
        if timeout = 0 then Some (Ret (- RT_EFULL), s)
        else do {
          _ \<leftarrow> in_thread_context s;
          s1 \<leftarrow> ipc_wait (MbSendQ a) t (ipc_flag a s) timeout s;
          s2 \<leftarrow> rt_schedule s1;
          if cur_thread s2 = Some t then
            if th_error (threads s2 t) \<noteq> RT_EOK then Some (Ret (- th_error (threads s2 t)), s2)
            else loop a v (remaining_time timeout (tick s1) (tick s2)) s2
          else Some (Blocked, s2) } }
      else mb_deliver a v s) = Some r" and J: "sys_inv s"
    show "sys_inv (snd r)"
    proof (cases "mb_entry (mailboxes s a) = mb_size (mailboxes s a)")
      case False
      then show ?thesis using b mb_deliver_inv [OF J] by (cases r) auto
    next
      case True
      then obtain t where c: "cur_thread s = Some t" using b by auto
      let ?u = "upd_thread t (\<lambda>th. th\<lparr>th_error := RT_EOK\<rparr>) s"
      show ?thesis
      proof (cases "timeout = 0")
        case z: True
        then show ?thesis using b True c sys_inv_error [OF J] by auto
      next
        case nz: False
        then obtain s1 s2 where w: "ipc_wait (MbSendQ a) t (ipc_flag a ?u) timeout ?u = Some s1" "rt_schedule s1 = Some s2"
          and e: "(if cur_thread s2 = Some t then
            if th_error (threads s2 t) \<noteq> RT_EOK then Some (Ret (- th_error (threads s2 t)), s2)
            else loop a v (remaining_time timeout (tick s1) (tick s2)) s2
          else Some (Blocked, s2)) = Some r"
          using b True c by (auto simp: Let_def)
        have "sys_inv s2" using sys_inv_block [OF J c _ w] by simp
        then show ?thesis using e IH [of a v _ s2 r] by (auto split: if_splits)
      qed
    qed
  qed
  then show ?thesis using I by simp
qed

lemma mb_recv_loop_inv:
  assumes I: "sys_inv s" and r: "mb_recv_loop a timeout s = Some (e, s')"
  shows "sys_inv s'"
proof -
  have "sys_inv s \<longrightarrow> sys_inv (snd (e, s'))"
  proof (rule mb_recv_loop.raw_induct [where P = "\<lambda>a timeout s r. sys_inv s \<longrightarrow> sys_inv (snd r)", OF _ r], intro impI)
    fix loop a timeout s r
    assume IH: "\<And>a timeout s r. loop a timeout s = Some r \<Longrightarrow> sys_inv s \<longrightarrow> sys_inv (snd r)"
      and b: "(if mb_entry (mailboxes s a) = 0 then do {
        t \<leftarrow> cur_thread s;
        let s = upd_thread t (\<lambda>th. th\<lparr>th_error := RT_EOK\<rparr>) s;
        if timeout = 0 then
          Some ((Ret (- RT_ETIMEOUT), None), upd_thread t (\<lambda>th. th\<lparr>th_error := RT_ETIMEOUT\<rparr>) s)
        else do {
          _ \<leftarrow> in_thread_context s;
          s1 \<leftarrow> ipc_wait (MbQ a) t (ipc_flag a s) timeout s;
          s2 \<leftarrow> rt_schedule s1;
          if cur_thread s2 = Some t then
            if th_error (threads s2 t) \<noteq> RT_EOK then Some ((Ret (- th_error (threads s2 t)), None), s2)
            else loop a (remaining_time timeout (tick s1) (tick s2)) s2
          else Some ((Blocked, None), s2) } }
      else mb_fetch a s) = Some r" and J: "sys_inv s"
    show "sys_inv (snd r)"
    proof (cases "mb_entry (mailboxes s a) = 0")
      case False
      then show ?thesis using b mb_fetch_inv [OF J] by (cases r) auto
    next
      case True
      then obtain t where c: "cur_thread s = Some t" using b by auto
      let ?u = "upd_thread t (\<lambda>th. th\<lparr>th_error := RT_EOK\<rparr>) s"
      show ?thesis
      proof (cases "timeout = 0")
        case z: True
        then show ?thesis using b True c sys_inv_error [OF sys_inv_error [OF J]] by auto
      next
        case nz: False
        then obtain s1 s2 where w: "ipc_wait (MbQ a) t (ipc_flag a ?u) timeout ?u = Some s1" "rt_schedule s1 = Some s2"
          and e: "(if cur_thread s2 = Some t then
            if th_error (threads s2 t) \<noteq> RT_EOK then Some ((Ret (- th_error (threads s2 t)), None), s2)
            else loop a (remaining_time timeout (tick s1) (tick s2)) s2
          else Some ((Blocked, None), s2)) = Some r"
          using b True c by (auto simp: Let_def)
        have "sys_inv s2" using sys_inv_block [OF J c _ w] by simp
        then show ?thesis using e IH [of a _ s2 r] by (auto split: if_splits)
      qed
    qed
  qed
  then show ?thesis using I by simp
qed

lemma mb_send_inv:
  assumes I: "sys_inv s" and r: "rt_mb_send_wait a v timeout s = Some (e, s')"
  shows "sys_inv s'"
  using r I mb_send_loop_inv [OF I] by (auto simp: rt_mb_send_wait_def split: if_splits)

lemma mb_recv_inv:
  assumes I: "sys_inv s" and r: "rt_mb_recv a timeout s = Some (e, s')"
  shows "sys_inv s'"
  using r I mb_recv_loop_inv [OF I] by (auto simp: rt_mb_recv_def split: if_splits)

lemma mb_urgent_inv:
  assumes I: "sys_inv s" and r: "rt_mb_urgent a v s = Some (e, s')"
  shows "sys_inv s'"
proof (cases "mb_entry (mailboxes s a) = mb_size (mailboxes s a)")
  case True
  then show ?thesis using I r by (auto simp: rt_mb_urgent_def split: if_splits)
next
  case False
  then obtain m where "wake_one (MbQ a) (upd_mb a (\<lambda>_. m) s) = Some s'"
    using r by (auto simp: rt_mb_urgent_def split: if_splits)
  then show ?thesis by (rule sys_inv_wake_one [rotated]) (simp add: I)
qed

lemma reset_inv:
  assumes I: "sys_inv s" and h: "ipc_head h" "ipc_head k"
    and r: "rt_ipc_list_resume_all h s = Some s1" "rt_ipc_list_resume_all k s1 = Some s2"
  shows "sys_inv s2"
  using sys_inv_resume_all [OF sys_inv_resume_all [OF I h(1) r(1)] h(2) r(2)] .

lemma mb_control_inv:
  assumes I: "sys_inv s" and r: "rt_mb_control a cmd v s = Some (e, s')"
  shows "sys_inv s'"
proof (cases "cmd = 1")
  case True
  then obtain s1 s2 where s: "rt_ipc_list_resume_all (MbQ a) s = Some s1"
    "rt_ipc_list_resume_all (MbSendQ a) s1 = Some s2"
    "rt_schedule (upd_mb a (\<lambda>m. m\<lparr>mb_entry := 0, in_offset := 0, out_offset := 0\<rparr>) s2) = Some s'"
    using r by (auto simp: rt_mb_control_def Let_def split: if_splits)
  have "sys_inv s2" using reset_inv [OF I _ _ s(1,2)] by simp
  then show ?thesis by (intro sys_inv_schedule [OF _ s(3)]) simp
next
  case False
  then show ?thesis using I r by (auto simp: rt_mb_control_def split: if_splits)
qed

subsection \<open>Message queues\<close>

lemma mq_reserve_inv [simp]: "sys_inv (snd (mq_reserve a s)) = sys_inv s"
  by (simp add: mq_reserve_def split: option.splits)

lemma mq_commit_inv:
  assumes I: "sys_inv s" and r: "mq_commit link a i s = Some s'"
  shows "sys_inv s'"
  by (rule sys_inv_wake_one [OF _ r [unfolded mq_commit_def]]) (simp add: I)

lemma mq_send_inv:
  assumes I: "sys_inv s" and r: "rt_mq_send a buf n s = Some (e, s')"
  shows "sys_inv s'"
proof (cases "unat (mq_msg_size (msgqueues s a)) < n \<or> mq_free (msgqueues s a) = None")
  case True
  then show ?thesis using I r by (auto simp: rt_mq_send_def mq_reserve_def split: if_splits)
next
  case False
  then obtain i m where "mq_commit mq_link_tail a i (upd_mq a (\<lambda>_. m)
      (upd_mq a (\<lambda>m. m\<lparr>mq_next := (mq_next m)(i := None)\<rparr>) (upd_mq a (mq_take_free i) s))) = Some s'"
    using r by (auto simp: rt_mq_send_def mq_reserve_def Let_def split: if_splits)
  then show ?thesis by (rule mq_commit_inv [rotated]) (simp add: I)
qed

lemma mq_urgent_inv:
  assumes I: "sys_inv s" and r: "rt_mq_urgent a buf n s = Some (e, s')"
  shows "sys_inv s'"
proof (cases "unat (mq_msg_size (msgqueues s a)) < n \<or> mq_free (msgqueues s a) = None")
  case True
  then show ?thesis using I r by (auto simp: rt_mq_urgent_def mq_reserve_def split: if_splits)
next
  case False
  then obtain i m where "mq_commit mq_link_head a i (upd_mq a (\<lambda>_. m) (upd_mq a (mq_take_free i) s)) = Some s'"
    using r by (auto simp: rt_mq_urgent_def mq_reserve_def Let_def split: if_splits)
  then show ?thesis by (rule mq_commit_inv [rotated]) (simp add: I)
qed

lemma mq_fetch_inv:
  assumes I: "sys_inv s" and r: "mq_fetch a n s = Some (e, s')"
  shows "sys_inv s'"
proof -
  obtain i m where "wake_one (MqSendQ a) (upd_mq a (mq_release i) (upd_mq a (\<lambda>_. m) s)) = Some s'"
    using r by (auto simp: mq_fetch_def Let_def)
  then show ?thesis by (rule sys_inv_wake_one [rotated]) (simp add: I)
qed

lemma mq_recv_loop_inv:
  assumes I: "sys_inv s" and r: "mq_recv_loop a n timeout s = Some (e, s')"
  shows "sys_inv s'"
proof -
  have "sys_inv s \<longrightarrow> sys_inv (snd (e, s'))"
  proof (rule mq_recv_loop.raw_induct [where P = "\<lambda>a n timeout s r. sys_inv s \<longrightarrow> sys_inv (snd r)", OF _ r], intro impI)
    fix loop a n timeout s r
    assume IH: "\<And>a n timeout s r. loop a n timeout s = Some r \<Longrightarrow> sys_inv s \<longrightarrow> sys_inv (snd r)"
      and b: "(if mq_entry (msgqueues s a) = 0 then do {
        _ \<leftarrow> in_thread_context s;
        t \<leftarrow> cur_thread s;
        let s = upd_thread t (\<lambda>th. th\<lparr>th_error := RT_EOK\<rparr>) s;
        if timeout = 0 then
          Some ((Ret (- RT_ETIMEOUT), None), upd_thread t (\<lambda>th. th\<lparr>th_error := RT_ETIMEOUT\<rparr>) s)
        else do {
          s1 \<leftarrow> ipc_wait (MqQ a) t (ipc_flag a s) timeout s;
          s2 \<leftarrow> rt_schedule s1;
          if cur_thread s2 = Some t then
            if th_error (threads s2 t) \<noteq> RT_EOK then Some ((Ret (- th_error (threads s2 t)), None), s2)
            else loop a n (remaining_time timeout (tick s1) (tick s2)) s2
          else Some ((Blocked, None), s2) } }
      else mq_fetch a n s) = Some r" and J: "sys_inv s"
    show "sys_inv (snd r)"
    proof (cases "mq_entry (msgqueues s a) = 0")
      case False
      then show ?thesis using b mq_fetch_inv [OF J] by (cases r) auto
    next
      case True
      then obtain t where c: "cur_thread s = Some t" using b by auto
      let ?u = "upd_thread t (\<lambda>th. th\<lparr>th_error := RT_EOK\<rparr>) s"
      show ?thesis
      proof (cases "timeout = 0")
        case z: True
        then show ?thesis using b True c sys_inv_error [OF sys_inv_error [OF J]] by auto
      next
        case nz: False
        then obtain s1 s2 where w: "ipc_wait (MqQ a) t (ipc_flag a ?u) timeout ?u = Some s1" "rt_schedule s1 = Some s2"
          and e: "(if cur_thread s2 = Some t then
            if th_error (threads s2 t) \<noteq> RT_EOK then Some ((Ret (- th_error (threads s2 t)), None), s2)
            else loop a n (remaining_time timeout (tick s1) (tick s2)) s2
          else Some ((Blocked, None), s2)) = Some r"
          using b True c by (auto simp: Let_def)
        have "sys_inv s2" using sys_inv_block [OF J c _ w] by simp
        then show ?thesis using e IH [of a n _ s2 r] by (auto split: if_splits)
      qed
    qed
  qed
  then show ?thesis using I by simp
qed

lemma mq_recv_inv:
  assumes I: "sys_inv s" and r: "rt_mq_recv a n timeout s = Some (e, s')"
  shows "sys_inv s'"
  using r I mq_recv_loop_inv [OF I] by (auto simp: rt_mq_recv_def split: if_splits)

lemma mq_control_inv:
  assumes I: "sys_inv s" and r: "rt_mq_control a cmd v s = Some (e, s')"
  shows "sys_inv s'"
proof (cases "cmd = 1")
  case True
  then obtain s1 s2 m where s: "rt_ipc_list_resume_all (MqQ a) s = Some s1"
    "rt_ipc_list_resume_all (MqSendQ a) s1 = Some s2"
    "rt_schedule (upd_mq a (\<lambda>_. m\<lparr>mq_entry := 0\<rparr>) s2) = Some s'"
    using r by (auto simp: rt_mq_control_def Let_def split: if_splits)
  have "sys_inv s2" using reset_inv [OF I _ _ s(1,2)] by simp
  then show ?thesis by (intro sys_inv_schedule [OF _ s(3)]) simp
next
  case False
  then show ?thesis using I r by (auto simp: rt_mq_control_def split: if_splits)
qed

subsection \<open>Memory pools\<close>

lemma set_errno_inv: "sys_inv s \<Longrightarrow> sys_inv (rt_set_errno e s)"
proof -
  assume I: "sys_inv s"
  then have "sys_inv (s\<lparr>rt_errno := e\<rparr>)" by (subst sys_inv_cong [of _ s]) simp_all
  then show ?thesis using sys_inv_error [OF I] by (simp add: rt_set_errno_def split: option.splits)
qed

text \<open>The caller suspends itself and is pushed at the front of the pool's waiting list.\<close>

lemma mp_block_inv:
  assumes I: "sys_inv s" and c: "cur_thread s = Some t"
    and w: "rt_thread_suspend t (upd_thread t (\<lambda>th. th\<lparr>th_error := RT_EOK\<rparr>) s) = Some (e, u)"
      "tlist_push (MpQ a) t u = Some v" "start_thread_timer t time (upd_mp a f v) = Some s1"
      "rt_schedule s1 = Some s2"
  shows "sys_inv s2"
proof -
  let ?s = "upd_thread t (\<lambda>th. th\<lparr>th_error := RT_EOK\<rparr>) s"
  have J: "sys_inv ?s" "started ?s t" using sys_inv_error [OF I] sys_invD(2) [OF I c] by auto
  have u: "sys_inv u" "tstat u t = RT_THREAD_SUSPEND"
    using sys_inv_suspend [OF J(1) w(1)] J(2) by auto
  have v: "sys_inv v" "threads v = threads u"
    using sys_inv_link [OF u w(2) [unfolded tlist_push_def]]
      queues_okD(1) [OF kinvD(5) [OF sys_invD(1) [OF u(1)]], of "MpQ a"] by auto
  have "tstat (upd_mp a f v) t = RT_THREAD_SUSPEND" using v(2) u(2) by (simp add: upd_mp_def)
  then have "sys_inv s1" using sys_inv_start_timer [OF _ _ w(3)] v(1) by simp
  then show ?thesis using sys_inv_schedule w(4) by blast
qed

lemma mp_alloc_loop_inv:
  assumes I: "sys_inv s" and r: "mp_alloc_loop a time s = Some (e, s')"
  shows "sys_inv s'"
proof -
  have "sys_inv s \<longrightarrow> sys_inv (snd (e, s'))"
  proof (rule mp_alloc_loop.raw_induct [where P = "\<lambda>a time s r. sys_inv s \<longrightarrow> sys_inv (snd r)", OF _ r], intro impI)
    fix loop a time s r
    assume IH: "\<And>a time s r. loop a time s = Some r \<Longrightarrow> sys_inv s \<longrightarrow> sys_inv (snd r)"
      and b: "(if mp_free_count (mempools s a) = 0 then
        if time = 0 then Some (Ret None, rt_set_errno RT_ETIMEOUT s)
        else do {
          _ \<leftarrow> not_in_interrupt s;
          t \<leftarrow> cur_thread s;
          let s = upd_thread t (\<lambda>th. th\<lparr>th_error := RT_EOK\<rparr>) s;
          (_, s) \<leftarrow> rt_thread_suspend t s;
          s \<leftarrow> tlist_push (MpQ a) t s;
          let s = upd_mp a (\<lambda>m. m\<lparr>mp_suspend_count := mp_suspend_count m + 1\<rparr>) s;
          s1 \<leftarrow> start_thread_timer t time s;
          s2 \<leftarrow> rt_schedule s1;
          if cur_thread s2 = Some t then
            if th_error (threads s2 t) \<noteq> RT_EOK then Some (Ret None, s2)
            else loop a (remaining_time time (tick s1) (tick s2)) s2
          else Some (Blocked, s2) }
      else do {
        (b, m) \<leftarrow> mp_take a (mempools s a);
        Some (Ret (Some b), upd_mp a (\<lambda>_. m) s) }) = Some r" and J: "sys_inv s"
    show "sys_inv (snd r)"
    proof (cases "mp_free_count (mempools s a) = 0")
      case False
      then show ?thesis using b J by auto
    next
      case f: True
      show ?thesis
      proof (cases "time = 0")
        case True
        then show ?thesis using b f set_errno_inv [OF J] by auto
      next
        case False
        then obtain t where c: "cur_thread s = Some t" using b f by auto
        let ?u = "upd_thread t (\<lambda>th. th\<lparr>th_error := RT_EOK\<rparr>) s"
        obtain e u v s1 s2 where w: "rt_thread_suspend t ?u = Some (e, u)" "tlist_push (MpQ a) t u = Some v"
          "start_thread_timer t time (upd_mp a (\<lambda>m. m\<lparr>mp_suspend_count := mp_suspend_count m + 1\<rparr>) v) = Some s1"
          "rt_schedule s1 = Some s2"
          and e: "(if cur_thread s2 = Some t then
            if th_error (threads s2 t) \<noteq> RT_EOK then Some (Ret None, s2)
            else loop a (remaining_time time (tick s1) (tick s2)) s2
          else Some (Blocked, s2)) = Some r"
          using b f c False by (auto simp: Let_def)
        have "sys_inv s2" using mp_block_inv [OF J c w] .
        then show ?thesis using e IH [of a _ s2 r] by (auto split: if_splits)
      qed
    qed
  qed
  then show ?thesis using I by simp
qed

lemma mp_free_inv:
  assumes I: "sys_inv s" and r: "rt_mp_free p b s = Some s'"
  shows "sys_inv s'"
proof -
  obtain a where a: "mp_blocks (mempools s p) b = Owner a" "a = p"
    using r by (auto simp: rt_mp_free_def split: block_word.splits if_splits)
  show ?thesis
  proof (cases "0 < mp_suspend_count (mempools (upd_mp a (mp_give b) s) a)")
    case False
    then show ?thesis using r a I by (auto simp: rt_mp_free_def Let_def)
  next
    case True
    then obtain t e u where u: "rt_thread_resume t (upd_thread t (\<lambda>th. th\<lparr>th_error := RT_EOK\<rparr>)
        (upd_mp a (mp_give b) s)) = Some (e, u)"
      "rt_schedule (upd_mp a (\<lambda>m. m\<lparr>mp_suspend_count := mp_suspend_count m - 1\<rparr>) u) = Some s'"
      using r a by (auto simp: rt_mp_free_def Let_def)
    have "sys_inv u" by (rule sys_inv_resume(1) [OF _ u(1)]) (simp add: sys_inv_error I)
    then show ?thesis by (intro sys_inv_schedule [OF _ u(2)]) simp
  qed
qed

subsection \<open>Threads, timers and the clock\<close>

lemma sys_inv_yield_mark:
  assumes I: "sys_inv s"
  shows "sys_inv (upd_thread t (\<lambda>th. th\<lparr>remaining_tick := th_init_tick th, stat := stat th OR RT_THREAD_STAT_YIELD\<rparr>) s)"
proof (rule sys_inv_upd_thread [OF I])
  have "(8 :: u8) AND 7 = 0" by simp
  then show "stat ((threads s t)\<lparr>remaining_tick := th_init_tick (threads s t),
      stat := stat (threads s t) OR RT_THREAD_STAT_YIELD\<rparr>) AND 7 = tstat s t"
    by (simp add: word_ao_dist)
qed simp_all

lemma yield_inv:
  assumes I: "sys_inv s" and r: "rt_thread_yield s = Some (e, s')"
  shows "sys_inv s'"
proof -
  obtain t where "rt_schedule (upd_thread t (\<lambda>th. th\<lparr>remaining_tick := th_init_tick th,
      stat := stat th OR RT_THREAD_STAT_YIELD\<rparr>) s) = Some s'"
    using r by (auto simp: rt_thread_yield_def Let_def)
  then show ?thesis by (rule sys_inv_schedule [OF sys_inv_yield_mark [OF I]])
qed

lemma sleep_on_timer_inv:
  assumes I: "sys_inv s" and c: "cur_thread s = Some t" and r: "sleep_on_timer t ticks s = Some s'"
  shows "sys_inv s'"
proof -
  let ?set = "upd_timer (TTimer t) (\<lambda>tm. tm\<lparr>tm_init_tick := ticks\<rparr>)"
  obtain e u e' v where w: "rt_thread_suspend t s = Some (e, u)" "rt_timer_start (TTimer t) (?set u) = Some (e', v)"
    "rt_schedule v = Some s'"
    using r by (auto simp: sleep_on_timer_def rt_timer_control_def split: if_splits)
  have u: "sys_inv u" "tstat u t = RT_THREAD_SUSPEND"
    using sys_inv_suspend [OF I w(1)] sys_invD(2) [OF I c] by auto
  have "own_func (timers u (TTimer t)) (TTimer t)"
    using kinvD(2) [OF sys_invD(1) [OF u(1)]] u(2) by (simp add: types_ok_def own_func_def)
  moreover have "sys_inv (?set u)"
    using u(1) kinv_upd_timer [OF sys_invD(1) [OF u(1)]] by (auto simp: sys_inv_def started_def)
  ultimately have "sys_inv v" using sys_inv_timer_start [OF _ _ _ w(2)] u(2) by simp
  then show ?thesis using sys_inv_schedule w(3) by blast
qed

lemma sleep_wake_inv: "sys_inv s \<Longrightarrow> sys_inv (snd (rt_thread_sleep_wake t s))"
  by (simp add: rt_thread_sleep_wake_def sys_inv_error)

lemma delay_wake_inv: "sys_inv s \<Longrightarrow> sys_inv (snd (rt_thread_delay_until_wake t s))"
  by (simp add: rt_thread_delay_until_wake_def sys_inv_error)

lemma sleep_inv:
  assumes I: "sys_inv s" and r: "rt_thread_sleep ticks s = Some (e, s')"
  shows "sys_inv s'"
proof -
  obtain t u where u: "cur_thread s = Some t" "sleep_on_timer t ticks s = Some u"
    "(if cur_thread u = Some t then Some (rt_thread_sleep_wake t u) else Some (Blocked, u)) = Some (e, s')"
    using r by (auto simp: rt_thread_sleep_def split: if_splits)
  then show ?thesis using sleep_on_timer_inv [OF I u(1,2)] sleep_wake_inv [of u t]
    by (auto split: if_splits)
qed

lemma delay_until_inv:
  assumes I: "sys_inv s" and r: "rt_thread_delay_until since inc s = Some (n, e, s')"
  shows "sys_inv s'"
proof (cases "tick s - since < inc")
  case False
  then show ?thesis using I r by (auto simp: rt_thread_delay_until_def Let_def split: if_splits)
next
  case True
  then obtain t u where u: "cur_thread s = Some t" "sleep_on_timer t (since + inc - tick s) s = Some u"
    "(if cur_thread u = Some t then Some (n, rt_thread_delay_until_wake t u) else Some (n, Blocked, u)) = Some (n, e, s')"
    using r by (auto simp: rt_thread_delay_until_def Let_def split: if_splits)
  then show ?thesis using sleep_on_timer_inv [OF I u(1,2)] delay_wake_inv [of u t]
    by (auto split: if_splits)
qed

lemma critical_inv [simp]: "sys_inv (s\<lparr>lock_nest := n\<rparr>) = sys_inv s"
  by (rule sys_inv_cong) simp_all

lemma exit_critical_inv:
  assumes I: "sys_inv s" and r: "rt_exit_critical s = Some s'"
  shows "sys_inv s'"
proof -
  show ?thesis
  proof (cases "sint (lock_nest s - 1) \<le> 0 \<and> cur_thread s \<noteq> None")
    case True
    then have "rt_schedule (s\<lparr>lock_nest := 0\<rparr>) = Some s'" using r by (simp add: rt_exit_critical_def)
    then show ?thesis by (rule sys_inv_schedule [rotated]) (simp add: I)
  next
    case False
    then have "s' = s\<lparr>lock_nest := 0\<rparr> \<or> s' = s\<lparr>lock_nest := lock_nest s - 1\<rparr>"
      using r by (cases "sint (lock_nest s - 1) \<le> 0") (simp_all add: rt_exit_critical_def)
    then show ?thesis using I by (elim disjE) simp_all
  qed
qed

lemma tick_account_inv:
  assumes I: "sys_inv s" and r: "tick_account s = Some s'"
  shows "sys_inv s'"
proof -
  obtain t where c: "cur_thread s = Some t" using r by (auto simp: tick_account_def)
  let ?u = "upd_thread t (\<lambda>th. th\<lparr>remaining_tick := remaining_tick th - 1\<rparr>)
     (s\<lparr>tick := tick s + 1, tick_uptime := tick_uptime s + 1\<rparr>)"
  have "sys_inv (s\<lparr>tick := tick s + 1, tick_uptime := tick_uptime s + 1\<rparr>)"
    using I by (subst sys_inv_cong [of _ s]) simp_all
  then have u: "sys_inv ?u" by (rule sys_inv_upd_thread) simp_all
  show ?thesis
  proof (cases "remaining_tick (threads ?u t) = 0")
    case True
    then have "rt_schedule (upd_thread t (\<lambda>th. th\<lparr>remaining_tick := th_init_tick th,
        stat := stat th OR RT_THREAD_STAT_YIELD\<rparr>) ?u) = Some s'"
      using r c by (simp add: tick_account_def Let_def)
    then show ?thesis by (rule sys_inv_schedule [OF sys_inv_yield_mark [OF u]])
  next
    case False
    then have "s' = ?u" using r c by (simp add: tick_account_def Let_def)
    then show ?thesis using u by simp
  qed
qed

lemma tick_increase_inv:
  assumes C: "calm_callback cb" and I: "sys_inv s" and r: "rt_tick_increase cb s = Some s'"
  shows "sys_inv s'"
proof -
  obtain u where "tick_account s = Some u" "rt_timer_check_loop cb (tick u) u = Some s'"
    using r by (auto simp: rt_tick_increase_def rt_timer_check_def)
  then show ?thesis using timer_check_loop_inv [OF C] tick_account_inv [OF I] by blast
qed

lemma flag_bits_periodic:
  fixes f :: u8
  shows "(f AND NOT 2) AND 1 = f AND 1" "(f OR 2) AND 1 = f AND 1"
  by (simp_all add: word_ao_dist and.assoc)

lemma sys_inv_timer_flag:
  assumes I: "sys_inv s" and g: "\<And>f. g f AND 1 = f AND 1"
  shows "sys_inv (upd_object (Obj a) (\<lambda>ob. ob\<lparr>obj_flag := g (obj_flag ob)\<rparr>) s)" (is "sys_inv ?s")
proof -
  note K = sys_invD(1) [OF I]
  have ty: "rt_object_get_type x ?s = rt_object_get_type x s" for x
    by (simp add: upd_object_def rt_object_get_type_def)
  have fl: "timer_flag ?s x AND 1 = timer_flag s x AND 1" "timer_flag ?s (TTimer t) = timer_flag s (TTimer t)" for x t
    using g by (simp_all add: upd_object_def)
  have "sched_inv ?s"
    using sched_inv_cong [of ?s s] kinvD(1) [OF K] by (simp add: upd_object_def)
  moreover have "types_ok ?s"
    using kinvD(2) [OF K] unfolding types_ok_def is_thread_def ty fl by (simp add: upd_object_def)
  moreover have "timers_ok ?s"
    using kinvD(3) [OF K] unfolding timers_ok_def ty fl by (simp add: upd_object_def)
  moreover have "waits_ok ?s"
    using kinvD(4) [OF K] unfolding waits_ok_def by (simp add: upd_object_def)
  ultimately show ?thesis using I by (simp add: sys_inv_def kinv_def started_def upd_object_def)
qed

lemma timer_control_inv:
  assumes I: "sys_inv s" and r: "rt_timer_control (Obj a) cmd arg s = Some (v, s')"
  shows "sys_inv s'"
proof -
  have tm: "sys_inv (upd_timer (Obj a) (\<lambda>tm. tm\<lparr>tm_init_tick := arg\<rparr>) s)"
    using I kinv_upd_timer [OF sys_invD(1) [OF I]] by (auto simp: sys_inv_def started_def)
  note flag = sys_inv_timer_flag [OF I flag_bits_periodic(1)] sys_inv_timer_flag [OF I flag_bits_periodic(2)]
  show ?thesis
    using r I tm flag by (cases cmd) (auto simp: rt_timer_control_def split: if_splits)
qed

end
