(* ===== verification/Completion.thy ===== *)
theory Completion
  imports Mailbox
begin

unbundle bit_operations_syntax

text \<open>
  Completions of \<^verbatim>\<open>kernel/utilities/completion.c\<close>: one thread waits until another thread, or an interrupt, says that
  something is done. The flag remembers a completion that nobody waited for.
\<close>

abbreviation (input) RT_COMPLETED :: u32 where "RT_COMPLETED \<equiv> 1"
abbreviation (input) RT_UNCOMPLETED :: u32 where "RT_UNCOMPLETED \<equiv> 0"

definition set_completion :: "nat \<Rightarrow> u32 \<Rightarrow> kernel \<Rightarrow> kernel" where
  "set_completion a v s = s\<lparr>completions := (completions s)(a := \<lparr>comp_flag = v\<rparr>)\<rparr>"

definition rt_completion_init :: "nat \<Rightarrow> kernel \<Rightarrow> kernel" where
  "rt_completion_init a s = rt_ipc_object_init (CompQ a) (set_completion a RT_UNCOMPLETED s)"

text \<open>Joining the end of a list that is not one of an IPC object: the sequence is the one of a waiting list in FIFO order.\<close>

definition park :: "lhead \<Rightarrow> nat \<Rightarrow> u32 \<Rightarrow> kernel \<Rightarrow> kernel option" where
  "park h t timeout s = do {
     let s = upd_thread t (\<lambda>th. th\<lparr>th_error := RT_EOK\<rparr>) s;
     (_, s) \<leftarrow> rt_thread_suspend t s;
     s \<leftarrow> tlist_append h t s;
     start_thread_timer t timeout s }"

lemma park_ipc_wait: "park h t timeout s = ipc_wait h t RT_IPC_FLAG_FIFO timeout (upd_thread t (\<lambda>th. th\<lparr>th_error := RT_EOK\<rparr>) s)"
  by (cases "rt_thread_suspend t (upd_thread t (\<lambda>th. th\<lparr>th_error := RT_EOK\<rparr>) s)")
    (auto simp: park_def ipc_wait_def rt_ipc_list_suspend_def Let_def)

definition rt_completion_wait_wake :: "nat \<Rightarrow> nat \<Rightarrow> kernel \<Rightarrow> rt_err outcome \<times> kernel" where
  "rt_completion_wait_wake a t s = (Ret (- th_error (threads s t)), set_completion a RT_UNCOMPLETED s)"

definition rt_completion_wait :: "nat \<Rightarrow> u32 \<Rightarrow> kernel \<Rightarrow> (rt_err outcome \<times> kernel) option" where
  "rt_completion_wait a timeout s =
     (if comp_flag (completions s a) \<noteq> RT_COMPLETED then do {
        _ \<leftarrow> rt_assert (tlists s (CompQ a) = []);
        if timeout = 0 then Some (Ret (- RT_ETIMEOUT), s)
        else do {
          t \<leftarrow> cur_thread s;
          _ \<leftarrow> not_in_interrupt s;
          s \<leftarrow> park (CompQ a) t timeout s;
          s \<leftarrow> rt_schedule s;
          Some (if cur_thread s = Some t then rt_completion_wait_wake a t s else (Blocked, s)) } }
      else Some (Ret RT_EOK, set_completion a RT_UNCOMPLETED s))"

definition rt_completion_done :: "nat \<Rightarrow> kernel \<Rightarrow> kernel option" where
  "rt_completion_done a s =
     (if comp_flag (completions s a) = RT_COMPLETED then Some s
      else wake_one (CompQ a) (set_completion a RT_COMPLETED s))"

lemma set_completion_fields [simp]:
  "comp_flag (completions (set_completion a v s) b) = (if b = a then v else comp_flag (completions s b))"
  "threads (set_completion a v s) = threads s" "tlists (set_completion a v s) = tlists s"
  "on_list (set_completion a v s) = on_list s" "objects (set_completion a v s) = objects s"
  "cur_thread (set_completion a v s) = cur_thread s" "lock_nest (set_completion a v s) = lock_nest s"
  "irq_nest (set_completion a v s) = irq_nest s"
  by (simp_all add: set_completion_def)

lemma kinv_set_completion [simp]: "kinv (set_completion a v s) = kinv s"
  by (rule kinv_cong) (simp_all add: set_completion_def)

end
