(* ===== verification/Dataqueue.thy ===== *)
theory Dataqueue
  imports Completion
begin

unbundle bit_operations_syntax

text \<open>
  Data queues of \<^verbatim>\<open>kernel/utilities/dataqueue.c\<close>: a ring of pointers and sizes, with a list of threads that wait to
  push and one of threads that wait to pop. The positions \<^verbatim>\<open>get_index\<close> and \<^verbatim>\<open>put_index\<close> are 16-bit counters that only
  grow; C subtracts them as \<^verbatim>\<open>int\<close>. The function \<^verbatim>\<open>evt_notify\<close> of a queue is application code: \<open>ev\<close> gives it a meaning.
\<close>

abbreviation (input) RT_DATAQUEUE_EVENT_POP :: u32 where "RT_DATAQUEUE_EVENT_POP \<equiv> 1"
abbreviation (input) RT_DATAQUEUE_EVENT_PUSH :: u32 where "RT_DATAQUEUE_EVENT_PUSH \<equiv> 2"
abbreviation (input) RT_DATAQUEUE_EVENT_LWM :: u32 where "RT_DATAQUEUE_EVENT_LWM \<equiv> 3"

type_synonym notify_fn = "nat \<Rightarrow> nat \<Rightarrow> u32 \<Rightarrow> kernel \<Rightarrow> kernel option"

definition upd_dq :: "nat \<Rightarrow> (rt_data_queue \<Rightarrow> rt_data_queue) \<Rightarrow> kernel \<Rightarrow> kernel" where
  "upd_dq a f s = s\<lparr>dqueues := (dqueues s)(a := f (dqueues s a))\<rparr>"

text \<open>The third argument is what the allocation of the ring returned.\<close>

definition rt_data_queue_init ::
  "nat \<Rightarrow> u16 \<Rightarrow> u16 \<Rightarrow> nat option \<Rightarrow> (u32 \<times> u32) list option \<Rightarrow> kernel \<Rightarrow> rt_err \<times> kernel" where
  "rt_data_queue_init a sz lwm notify mem s =
     (let s = upd_dq a (\<lambda>m. m\<lparr>dq_notify := notify, dq_size := sz, dq_lwm := lwm, dq_get := 0, dq_put := 0\<rparr>) s;
          s = rt_ipc_object_init (DqPopQ a) (rt_ipc_object_init (DqPushQ a) s)
      in case mem of
           None \<Rightarrow> (- RT_ENOMEM, s)
         | Some xs \<Rightarrow> (RT_EOK, upd_dq a (\<lambda>m. m\<lparr>dq_items := xs\<rparr>) s))"

definition dq_event :: "notify_fn \<Rightarrow> nat \<Rightarrow> u32 \<Rightarrow> kernel \<Rightarrow> kernel option" where
  "dq_event ev a e s = (case dq_notify (dqueues s a) of None \<Rightarrow> Some s | Some f \<Rightarrow> ev f a e s)"

text \<open>The ring. The remainder by a size of 0 and an index outside of the ring are \<open>None\<close>.\<close>

definition dq_slot :: "u16 \<Rightarrow> rt_data_queue \<Rightarrow> nat option" where
  "dq_slot i m =
     (if dq_size m = 0 \<or> length (dq_items m) \<le> unat (i mod dq_size m) then None else Some (unat (i mod dq_size m)))"

definition dq_full :: "rt_data_queue \<Rightarrow> bool" where
  "dq_full m = (uint (dq_put m) - uint (dq_get m) = uint (dq_size m))"

definition dq_store :: "u32 \<times> u32 \<Rightarrow> rt_data_queue \<Rightarrow> rt_data_queue option" where
  "dq_store v m = do {
     i \<leftarrow> dq_slot (dq_put m) m;
     Some (m\<lparr>dq_items := (dq_items m)[i := v], dq_put := dq_put m + 1\<rparr>) }"

definition dq_load :: "rt_data_queue \<Rightarrow> ((u32 \<times> u32) \<times> rt_data_queue) option" where
  "dq_load m = do {
     i \<leftarrow> dq_slot (dq_get m) m;
     Some (dq_items m ! i, m\<lparr>dq_get := dq_get m + 1\<rparr>) }"

subsection \<open>Push\<close>

definition dq_deliver :: "notify_fn \<Rightarrow> nat \<Rightarrow> u32 \<times> u32 \<Rightarrow> kernel \<Rightarrow> (rt_err outcome \<times> kernel) option" where
  "dq_deliver ev a v s = do {
     m \<leftarrow> dq_store v (dqueues s a);
     let s = upd_dq a (\<lambda>_. m) s;
     s \<leftarrow> (if tlists s (DqPopQ a) \<noteq> [] then wake_one (DqPopQ a) s else dq_event ev a RT_DATAQUEUE_EVENT_PUSH s);
     Some (Ret RT_EOK, s) }"

partial_function (option) dq_push_loop ::
  "notify_fn \<Rightarrow> nat \<Rightarrow> u32 \<times> u32 \<Rightarrow> u32 \<Rightarrow> kernel \<Rightarrow> (rt_err outcome \<times> kernel) option" where
  "dq_push_loop ev a v timeout s =
     (if dq_full (dqueues s a) then
        if timeout = 0 then Some (Ret (- RT_ETIMEOUT), s)
        else do {
          _ \<leftarrow> not_in_interrupt s;
          t \<leftarrow> cur_thread s;
          s \<leftarrow> park (DqPushQ a) t timeout s;
          s \<leftarrow> rt_schedule s;
          if cur_thread s = Some t then
            if - th_error (threads s t) \<noteq> RT_EOK then Some (Ret (- th_error (threads s t)), s)
            else dq_push_loop ev a v timeout s
          else Some (Blocked, s) }
      else dq_deliver ev a v s)"

declare dq_push_loop.simps [code]

definition rt_data_queue_push_wake ::
  "notify_fn \<Rightarrow> nat \<Rightarrow> nat \<Rightarrow> u32 \<times> u32 \<Rightarrow> u32 \<Rightarrow> kernel \<Rightarrow> (rt_err outcome \<times> kernel) option" where
  "rt_data_queue_push_wake ev a t v timeout s =
     (if - th_error (threads s t) \<noteq> RT_EOK then Some (Ret (- th_error (threads s t)), s)
      else dq_push_loop ev a v timeout s)"

definition rt_data_queue_push ::
  "notify_fn \<Rightarrow> nat \<Rightarrow> u32 \<Rightarrow> u32 \<Rightarrow> u32 \<Rightarrow> kernel \<Rightarrow> (rt_err outcome \<times> kernel) option" where
  "rt_data_queue_push ev a ptr len timeout s = dq_push_loop ev a (ptr, len) timeout s"

subsection \<open>Pop\<close>

definition dq_fetch :: "notify_fn \<Rightarrow> nat \<Rightarrow> kernel \<Rightarrow> ((rt_err outcome \<times> (u32 \<times> u32) option) \<times> kernel) option" where
  "dq_fetch ev a s = do {
     (v, m) \<leftarrow> dq_load (dqueues s a);
     let s = upd_dq a (\<lambda>_. m) s;
     s \<leftarrow> (if uint (dq_put m) - uint (dq_get m) \<le> uint (dq_lwm m) then do {
             s \<leftarrow> wake_one (DqPushQ a) s;
             dq_event ev a RT_DATAQUEUE_EVENT_LWM s }
           else dq_event ev a RT_DATAQUEUE_EVENT_POP s);
     Some ((Ret RT_EOK, Some v), s) }"

partial_function (option) dq_pop_loop ::
  "notify_fn \<Rightarrow> nat \<Rightarrow> u32 \<Rightarrow> kernel \<Rightarrow> ((rt_err outcome \<times> (u32 \<times> u32) option) \<times> kernel) option" where
  "dq_pop_loop ev a timeout s =
     (if dq_get (dqueues s a) = dq_put (dqueues s a) then
        if timeout = 0 then Some ((Ret (- RT_ETIMEOUT), None), s)
        else do {
          _ \<leftarrow> not_in_interrupt s;
          t \<leftarrow> cur_thread s;
          s \<leftarrow> park (DqPopQ a) t timeout s;
          s \<leftarrow> rt_schedule s;
          if cur_thread s = Some t then
            if - th_error (threads s t) \<noteq> RT_EOK then Some ((Ret (- th_error (threads s t)), None), s)
            else dq_pop_loop ev a timeout s
          else Some ((Blocked, None), s) }
      else dq_fetch ev a s)"

declare dq_pop_loop.simps [code]

definition rt_data_queue_pop_wake ::
  "notify_fn \<Rightarrow> nat \<Rightarrow> nat \<Rightarrow> u32 \<Rightarrow> kernel \<Rightarrow> ((rt_err outcome \<times> (u32 \<times> u32) option) \<times> kernel) option" where
  "rt_data_queue_pop_wake ev a t timeout s =
     (if - th_error (threads s t) \<noteq> RT_EOK then Some ((Ret (- th_error (threads s t)), None), s)
      else dq_pop_loop ev a timeout s)"

definition rt_data_queue_pop ::
  "notify_fn \<Rightarrow> nat \<Rightarrow> u32 \<Rightarrow> kernel \<Rightarrow> ((rt_err outcome \<times> (u32 \<times> u32) option) \<times> kernel) option" where
  "rt_data_queue_pop ev a timeout s = dq_pop_loop ev a timeout s"

definition rt_data_queue_peak :: "nat \<Rightarrow> kernel \<Rightarrow> (rt_err \<times> (u32 \<times> u32) option) option" where
  "rt_data_queue_peak a s =
     (let m = dqueues s a in
      if dq_get m = dq_put m then Some (- RT_EEMPTY, None)
      else do { i \<leftarrow> dq_slot (dq_get m) m; Some (RT_EOK, Some (dq_items m ! i)) })"

definition rt_data_queue_reset :: "nat \<Rightarrow> kernel \<Rightarrow> kernel option" where
  "rt_data_queue_reset a s = do {
     let s = rt_enter_critical s;
     s \<leftarrow> rt_ipc_list_resume_all (DqPopQ a) s;
     s \<leftarrow> rt_ipc_list_resume_all (DqPushQ a) s;
     s \<leftarrow> rt_exit_critical s;
     rt_schedule s }"

lemma upd_dq_fields [simp]:
  "dqueues (upd_dq a f s) b = (if b = a then f (dqueues s a) else dqueues s b)"
  "threads (upd_dq a f s) = threads s" "tlists (upd_dq a f s) = tlists s"
  "on_list (upd_dq a f s) = on_list s" "objects (upd_dq a f s) = objects s"
  "cur_thread (upd_dq a f s) = cur_thread s" "lock_nest (upd_dq a f s) = lock_nest s"
  "irq_nest (upd_dq a f s) = irq_nest s"
  by (simp_all add: upd_dq_def)

lemma kinv_upd_dq [simp]: "kinv (upd_dq a f s) = kinv s"
  by (rule kinv_cong) (simp_all add: upd_dq_def)

end
