(* ===== verification/Waitqueue.thy ===== *)
theory Waitqueue
  imports Ipc_Core
begin

unbundle bit_operations_syntax

text \<open>
  Wait queues of \<^verbatim>\<open>kernel/utilities/waitqueue.c\<close>. A node stands for a thread that waits; it lives on the stack of the
  thread, or in the poll table of the file system, and is named by its address. The thread itself is suspended and on
  no list of threads. A wake-up function of a node that is not the default one is application code: \<open>wk\<close> gives its
  result for the function, the node and the key.
\<close>

abbreviation (input) RT_WQ_FLAG_CLEAN :: u32 where "RT_WQ_FLAG_CLEAN \<equiv> 0"
abbreviation (input) RT_WQ_FLAG_WAKEUP :: u32 where "RT_WQ_FLAG_WAKEUP \<equiv> 1"

type_synonym wake_fn = "nat \<Rightarrow> nat \<Rightarrow> u32 \<Rightarrow> int"

definition upd_wqueue :: "nat \<Rightarrow> (rt_wqueue \<Rightarrow> rt_wqueue) \<Rightarrow> kernel \<Rightarrow> kernel" where
  "upd_wqueue q f s = s\<lparr>wqueues := (wqueues s)(q := f (wqueues s q))\<rparr>"

definition rt_wqueue_init :: "nat \<Rightarrow> kernel \<Rightarrow> kernel" where
  "rt_wqueue_init q = upd_wqueue q (\<lambda>_. \<lparr>wqueue_flag = RT_WQ_FLAG_CLEAN, waiting_list = []\<rparr>)"

text \<open>Linking a node that is already linked breaks both rings: \<open>None\<close>.\<close>

definition rt_wqueue_add :: "nat \<Rightarrow> nat \<Rightarrow> kernel \<Rightarrow> kernel option" where
  "rt_wqueue_add q n s =
     (if node_on s n = None
      then Some ((upd_wqueue q (\<lambda>w. w\<lparr>waiting_list := waiting_list w @ [n]\<rparr>) s)\<lparr>node_on := (node_on s)(n := Some q)\<rparr>)
      else None)"

definition rt_wqueue_remove :: "nat \<Rightarrow> kernel \<Rightarrow> kernel" where
  "rt_wqueue_remove n s =
     (case node_on s n of
        None \<Rightarrow> s
      | Some q \<Rightarrow> (upd_wqueue q (\<lambda>w. w\<lparr>waiting_list := removeAll n (waiting_list w)\<rparr>) s)\<lparr>node_on := (node_on s)(n := None)\<rparr>)"

definition node_wakes :: "wake_fn \<Rightarrow> u32 \<Rightarrow> kernel \<Rightarrow> nat \<Rightarrow> bool" where
  "node_wakes wk key s n =
     ((case node_wakeup (wait_nodes s n) of Default_Wake \<Rightarrow> 0 | User_Wake f \<Rightarrow> wk f n key) = 0)"

text \<open>The loop over the nodes; the result says whether to reschedule.\<close>

fun wakeup_loop :: "wake_fn \<Rightarrow> u32 \<Rightarrow> nat list \<Rightarrow> kernel \<Rightarrow> (bool \<times> kernel) option" where
  "wakeup_loop wk key [] s = Some (False, s)"
| "wakeup_loop wk key (n # ns) s =
     (if node_wakes wk key s n then do {
        (_, s) \<leftarrow> rt_thread_resume (polling_thread (wait_nodes s n)) s;
        Some (True, rt_wqueue_remove n s) }
      else wakeup_loop wk key ns s)"

definition rt_wqueue_wakeup :: "wake_fn \<Rightarrow> nat \<Rightarrow> u32 \<Rightarrow> kernel \<Rightarrow> kernel option" where
  "rt_wqueue_wakeup wk q key s = do {
     let s = upd_wqueue q (\<lambda>w. w\<lparr>wqueue_flag := RT_WQ_FLAG_WAKEUP\<rparr>) s;
     (need_schedule, s) \<leftarrow> wakeup_loop wk key (waiting_list (wqueues s q)) s;
     if need_schedule then rt_schedule s else Some s }"

text \<open>The end of \<^verbatim>\<open>rt_wqueue_wait\<close>: after the wait, or at once when there was a wake-up before.\<close>

definition rt_wqueue_wait_wake :: "nat \<Rightarrow> nat \<Rightarrow> kernel \<Rightarrow> int outcome \<times> kernel" where
  "rt_wqueue_wait_wake q n s = (Ret 0, rt_wqueue_remove n (upd_wqueue q (\<lambda>w. w\<lparr>wqueue_flag := 0\<rparr>) s))"

definition wqueue_sleep :: "nat \<Rightarrow> nat \<Rightarrow> nat \<Rightarrow> u32 \<Rightarrow> kernel \<Rightarrow> (int outcome \<times> kernel) option" where
  "wqueue_sleep q n t wait s = do {
     s \<leftarrow> rt_wqueue_add q n s;
     (_, s) \<leftarrow> rt_thread_suspend t s;
     s \<leftarrow> (if wait \<noteq> RT_WAITING_FOREVER then do {
             (_, s) \<leftarrow> rt_timer_control (TTimer t) Set_Time wait s;
             (_, s) \<leftarrow> rt_timer_start (TTimer t) s;
             Some s }
           else Some s);
     s \<leftarrow> rt_schedule s;
     Some (if cur_thread s = Some t then rt_wqueue_wait_wake q n s else (Blocked, s)) }"

text \<open>\<open>n\<close> is the address of the node \<^verbatim>\<open>__wait\<close> on the stack of the caller. The code that initialises the node makes it
  a list of its own; a node that was still linked would leave a dangling pointer behind: \<open>None\<close>.\<close>

definition rt_wqueue_wait :: "nat \<Rightarrow> nat \<Rightarrow> bool \<Rightarrow> u32 \<Rightarrow> kernel \<Rightarrow> (int outcome \<times> kernel) option" where
  "rt_wqueue_wait q n condition msec s = do {
     t \<leftarrow> cur_thread s;
     _ \<leftarrow> not_in_interrupt s;
     let wait = rt_tick_from_millisecond msec;
     if condition \<or> wait = 0 then Some (Ret 0, s)
     else do {
       _ \<leftarrow> rt_assert (node_on s n = None);
       let s = s\<lparr>wait_nodes := (wait_nodes s)(n := \<lparr>polling_thread = t, node_wakeup = Default_Wake\<rparr>)\<rparr>;
       if wqueue_flag (wqueues s q) = RT_WQ_FLAG_WAKEUP then Some (rt_wqueue_wait_wake q n s)
       else wqueue_sleep q n t wait s } }"

subsection \<open>Facts\<close>

text \<open>Every node is on the list that it names, once.\<close>

definition nodes_ok :: "kernel \<Rightarrow> bool" where
  "nodes_ok s = ((\<forall>q. distinct (waiting_list (wqueues s q))) \<and>
     (\<forall>q n. n \<in> set (waiting_list (wqueues s q)) \<longleftrightarrow> node_on s n = Some q))"

lemma upd_wqueue_fields [simp]:
  "wqueues (upd_wqueue q f s) r = (if r = q then f (wqueues s q) else wqueues s r)"
  "node_on (upd_wqueue q f s) = node_on s" "wait_nodes (upd_wqueue q f s) = wait_nodes s"
  "threads (upd_wqueue q f s) = threads s" "tlists (upd_wqueue q f s) = tlists s"
  "on_list (upd_wqueue q f s) = on_list s" "objects (upd_wqueue q f s) = objects s"
  "cur_thread (upd_wqueue q f s) = cur_thread s" "lock_nest (upd_wqueue q f s) = lock_nest s"
  "irq_nest (upd_wqueue q f s) = irq_nest s"
  by (simp_all add: upd_wqueue_def)

lemma nodes_ok_remove:
  assumes "nodes_ok s"
  shows "nodes_ok (rt_wqueue_remove n s)"
    and "waiting_list (wqueues (rt_wqueue_remove n s) q) = removeAll n (waiting_list (wqueues s q))"
    and "node_on (rt_wqueue_remove n s) = (node_on s)(n := None)"
  using assms by (auto simp: nodes_ok_def rt_wqueue_remove_def distinct_removeAll split: option.splits)

lemma nodes_ok_add:
  assumes "nodes_ok s" and "rt_wqueue_add q n s = Some s'"
  shows "nodes_ok s'" "waiting_list (wqueues s' r) = (if r = q then waiting_list (wqueues s q) @ [n] else waiting_list (wqueues s r))"
  using assms by (auto simp: nodes_ok_def rt_wqueue_add_def split: if_splits)

lemma wqueue_remove_fields [simp]:
  "threads (rt_wqueue_remove n s) = threads s" "tlists (rt_wqueue_remove n s) = tlists s"
  "on_list (rt_wqueue_remove n s) = on_list s" "objects (rt_wqueue_remove n s) = objects s"
  "cur_thread (rt_wqueue_remove n s) = cur_thread s" "lock_nest (rt_wqueue_remove n s) = lock_nest s"
  "irq_nest (rt_wqueue_remove n s) = irq_nest s" "wait_nodes (rt_wqueue_remove n s) = wait_nodes s"
  "wqueue_flag (wqueues (rt_wqueue_remove n s) q) = wqueue_flag (wqueues s q)"
  by (simp_all add: rt_wqueue_remove_def upd_wqueue_def split: option.splits)

lemma kinv_wqueue [simp]: "kinv (upd_wqueue q f s) = kinv s" "kinv (rt_wqueue_remove n s) = kinv s"
  "kinv (s\<lparr>wait_nodes := x\<rparr>) = kinv s" "kinv (s\<lparr>node_on := y\<rparr>) = kinv s"
  by (rule kinv_cong; simp add: upd_wqueue_def rt_wqueue_remove_def split: option.splits)+

end
