(* ===== verification/Workqueue.thy ===== *)
theory Workqueue
  imports Thread_Life
begin

unbundle bit_operations_syntax

text \<open>
  Work queues of \<^verbatim>\<open>kernel/utilities/workqueue.c\<close>: works, functions with an argument, run one after the other in the
  thread of the queue. A work is named by the address of its structure. The loop of the thread is split into the code
  between the points where other threads can run: the test for an empty list, the suspension, taking a work, and the
  code after the function of the work has returned.
\<close>

definition upd_wq :: "nat \<Rightarrow> (rt_workqueue \<Rightarrow> rt_workqueue) \<Rightarrow> kernel \<Rightarrow> kernel" where
  "upd_wq q f s = s\<lparr>workqueues := (workqueues s)(q := f (workqueues s q))\<rparr>"

text \<open>\<^verbatim>\<open>rt_list_remove(&(work->list))\<close> and \<^verbatim>\<open>rt_list_insert_after(queue->work_list.prev, &(work->list))\<close>\<close>

definition work_remove :: "nat \<Rightarrow> kernel \<Rightarrow> kernel" where
  "work_remove w s =
     (case work_on s w of
        None \<Rightarrow> s
      | Some q \<Rightarrow> (upd_wq q (\<lambda>x. x\<lparr>work_list := removeAll w (work_list x)\<rparr>) s)\<lparr>work_on := (work_on s)(w := None)\<rparr>)"

definition work_append :: "nat \<Rightarrow> nat \<Rightarrow> kernel \<Rightarrow> kernel" where
  "work_append q w s = (upd_wq q (\<lambda>x. x\<lparr>work_list := work_list x @ [w]\<rparr>) s)\<lparr>work_on := (work_on s)(w := Some q)\<rparr>"

definition rt_work_init :: "nat \<Rightarrow> kernel \<Rightarrow> kernel" where
  "rt_work_init w s = s\<lparr>work_on := (work_on s)(w := None)\<rparr>"

text \<open>The loop that wakes the threads that wait for the end of the current work.\<close>

partial_function (option) completion_loop :: "nat \<Rightarrow> kernel \<Rightarrow> (rt_err \<times> kernel) option" where
  "completion_loop a s = do {
     (r, s) \<leftarrow> rt_sem_trytake a s;
     if r = Ret (- RT_ETIMEOUT) then do {
       (_, s) \<leftarrow> rt_sem_release a s;
       completion_loop a s }
     else if r = Ret RT_EOK then Some (RT_EOK, s)
     else Some (- RT_ERROR, s) }"

declare completion_loop.simps [code]

definition workqueue_work_completion :: "nat \<Rightarrow> kernel \<Rightarrow> (rt_err \<times> kernel) option" where
  "workqueue_work_completion q s = do {
     let s = rt_enter_critical s;
     (r, s) \<leftarrow> completion_loop (wq_sem (workqueues s q)) s;
     s \<leftarrow> rt_exit_critical s;
     Some (r, s) }"

subsection \<open>The thread of the queue\<close>

definition worker_idle :: "nat \<Rightarrow> kernel \<Rightarrow> bool" where
  "worker_idle q s = (work_list (workqueues s q) = [])"

definition worker_sleep :: "kernel \<Rightarrow> kernel option" where
  "worker_sleep s = do {
     t \<leftarrow> rt_thread_self s;
     (_, s) \<leftarrow> rt_thread_suspend t s;
     rt_schedule s }"

text \<open>An empty list has no first work: the code would take the head of the list for one.\<close>

definition worker_take :: "nat \<Rightarrow> kernel \<Rightarrow> (nat \<times> kernel) option" where
  "worker_take q s =
     (case work_list (workqueues s q) of
        [] \<Rightarrow> None
      | w # _ \<Rightarrow> Some (w, upd_wq q (\<lambda>x. x\<lparr>work_current := Some w\<rparr>) (work_remove w s)))"

definition worker_done :: "nat \<Rightarrow> kernel \<Rightarrow> kernel option" where
  "worker_done q s = map_option snd (workqueue_work_completion q (upd_wq q (\<lambda>x. x\<lparr>work_current := None\<rparr>) s))"

subsection \<open>The calls\<close>

text \<open>The arguments after the priority are what the allocations return: the queue with its semaphore, and those of the thread.\<close>

definition rt_workqueue_create ::
  "u8 list \<Rightarrow> u32 \<Rightarrow> u8 \<Rightarrow> (nat \<times> nat) option \<Rightarrow> nat option \<Rightarrow> u32 option \<Rightarrow> nat option \<Rightarrow> kernel \<Rightarrow>
   (nat option \<times> kernel) option" where
  "rt_workqueue_create name stack_sz priority mem tmem stack lock_mem s =
     (case mem of
        None \<Rightarrow> Some (None, s)
      | Some (q, sem) \<Rightarrow> do {
          let s = upd_wq q (\<lambda>x. x\<lparr>work_list := [], work_current := None, wq_sem := sem\<rparr>) s;
          (_, s) \<leftarrow> rt_sem_init sem [119, 113, 117, 101, 117, 101, 0] 0 RT_IPC_FLAG_FIFO s;
          (r, s) \<leftarrow> rt_thread_create name stack_sz priority 10 tmem stack lock_mem s;
          case r of
            None \<Rightarrow> Some (None, s)
          | Some t \<Rightarrow> do {
              (_, s) \<leftarrow> rt_thread_startup t (upd_wq q (\<lambda>x. x\<lparr>work_thread := t\<rparr>) s);
              Some (Some q, s) } })"

definition rt_workqueue_destroy :: "(nat \<Rightarrow> kernel \<Rightarrow> kernel option) \<Rightarrow> nat \<Rightarrow> kernel \<Rightarrow> (rt_err \<times> kernel) option" where
  "rt_workqueue_destroy cln q s = do {
     (_, s) \<leftarrow> rt_thread_delete cln (work_thread (workqueues s q)) s;
     Some (RT_EOK, s) }"

definition rt_workqueue_dowork :: "nat \<Rightarrow> nat \<Rightarrow> kernel \<Rightarrow> (rt_err \<times> kernel) option" where
  "rt_workqueue_dowork q w s =
     (if work_current (workqueues s q) = Some w then Some (- RT_EBUSY, s)
      else do {
        let s = work_append q w (work_remove w s);
        s \<leftarrow> (if work_current (workqueues s q) = None then do {
                (_, s) \<leftarrow> rt_thread_resume (work_thread (workqueues s q)) s;
                rt_schedule s }
              else Some s);
        Some (RT_EOK, s) })"

definition rt_workqueue_critical_work :: "nat \<Rightarrow> nat \<Rightarrow> kernel \<Rightarrow> (rt_err \<times> kernel) option" where
  "rt_workqueue_critical_work q w s =
     (if work_current (workqueues s q) = Some w then Some (- RT_EBUSY, s)
      else do {
        let s = work_append q w (work_remove w s);
        s \<leftarrow> (if work_current (workqueues s q) = None then do {
                (_, s) \<leftarrow> rt_thread_resume (work_thread (workqueues s q)) s;
                rt_schedule s }
              else Some s);
        Some (RT_EOK, s) })"

definition rt_workqueue_cancel_work :: "nat \<Rightarrow> nat \<Rightarrow> kernel \<Rightarrow> rt_err \<times> kernel" where
  "rt_workqueue_cancel_work q w s =
     (if work_current (workqueues s q) = Some w then (- RT_EBUSY, s) else (RT_EOK, work_remove w s))"

definition rt_workqueue_cancel_work_sync :: "nat \<Rightarrow> nat \<Rightarrow> kernel \<Rightarrow> (rt_err outcome \<times> kernel) option" where
  "rt_workqueue_cancel_work_sync q w s =
     (if work_current (workqueues s q) = Some w then do {
        (r, s) \<leftarrow> rt_sem_take (wq_sem (workqueues s q)) RT_WAITING_FOREVER s;
        Some (case r of Blocked \<Rightarrow> Blocked | Ret _ \<Rightarrow> Ret RT_EOK, s) }
      else Some (Ret RT_EOK, work_remove w s))"

fun cancel_loop :: "nat list \<Rightarrow> kernel \<Rightarrow> kernel" where
  "cancel_loop [] s = s"
| "cancel_loop (w # ws) s = cancel_loop ws (work_remove w s)"

definition rt_workqueue_cancel_all_work :: "nat \<Rightarrow> kernel \<Rightarrow> (rt_err \<times> kernel) option" where
  "rt_workqueue_cancel_all_work q s = do {
     let s = rt_enter_critical s;
     let s = cancel_loop (work_list (workqueues s q)) s;
     s \<leftarrow> rt_exit_critical s;
     Some (RT_EOK, s) }"

subsection \<open>Facts\<close>

text \<open>Every work is on the list that it names, once, and a work that runs is on no list of its queue.\<close>

definition works_ok :: "kernel \<Rightarrow> bool" where
  "works_ok s = ((\<forall>q. distinct (work_list (workqueues s q))) \<and>
     (\<forall>q w. w \<in> set (work_list (workqueues s q)) \<longleftrightarrow> work_on s w = Some q) \<and>
     (\<forall>q w. work_current (workqueues s q) = Some w \<longrightarrow> work_on s w \<noteq> Some q))"

lemma upd_wq_fields [simp]:
  "workqueues (upd_wq q f s) r = (if r = q then f (workqueues s q) else workqueues s r)"
  "work_on (upd_wq q f s) = work_on s"
  "threads (upd_wq q f s) = threads s" "tlists (upd_wq q f s) = tlists s"
  "on_list (upd_wq q f s) = on_list s" "objects (upd_wq q f s) = objects s"
  "cur_thread (upd_wq q f s) = cur_thread s" "lock_nest (upd_wq q f s) = lock_nest s"
  "irq_nest (upd_wq q f s) = irq_nest s" "sems (upd_wq q f s) = sems s"
  by (simp_all add: upd_wq_def)

lemma work_remove_fields [simp]:
  "threads (work_remove w s) = threads s" "tlists (work_remove w s) = tlists s"
  "on_list (work_remove w s) = on_list s" "objects (work_remove w s) = objects s"
  "cur_thread (work_remove w s) = cur_thread s" "lock_nest (work_remove w s) = lock_nest s"
  "irq_nest (work_remove w s) = irq_nest s" "sems (work_remove w s) = sems s"
  "work_on (work_remove w s) = (work_on s)(w := None)"
  "work_current (workqueues (work_remove w s) q) = work_current (workqueues s q)"
  "work_thread (workqueues (work_remove w s) q) = work_thread (workqueues s q)"
  "wq_sem (workqueues (work_remove w s) q) = wq_sem (workqueues s q)"
  by (auto simp: work_remove_def upd_wq_def split: option.splits)

lemma work_append_fields [simp]:
  "threads (work_append q w s) = threads s" "tlists (work_append q w s) = tlists s"
  "on_list (work_append q w s) = on_list s" "objects (work_append q w s) = objects s"
  "cur_thread (work_append q w s) = cur_thread s" "lock_nest (work_append q w s) = lock_nest s"
  "irq_nest (work_append q w s) = irq_nest s" "sems (work_append q w s) = sems s"
  "work_on (work_append q w s) = (work_on s)(w := Some q)"
  "work_list (workqueues (work_append q w s) r) = (if r = q then work_list (workqueues s q) @ [w] else work_list (workqueues s r))"
  "work_current (workqueues (work_append q w s) r) = work_current (workqueues s r)"
  "work_thread (workqueues (work_append q w s) r) = work_thread (workqueues s r)"
  "wq_sem (workqueues (work_append q w s) r) = wq_sem (workqueues s r)"
  by (auto simp: work_append_def)

lemma work_remove_list:
  "works_ok s \<Longrightarrow> work_list (workqueues (work_remove w s) q) = removeAll w (work_list (workqueues s q))"
  by (auto simp: works_ok_def work_remove_def split: option.splits)

lemma works_ok_remove: "works_ok s \<Longrightarrow> works_ok (work_remove w s)"
  using work_remove_list [of s w] by (auto simp: works_ok_def distinct_removeAll)

lemma kinv_works [simp]: "kinv (upd_wq q f s) = kinv s" "kinv (work_remove w s) = kinv s" "kinv (work_append q w s) = kinv s"
  "kinv (s\<lparr>work_on := y\<rparr>) = kinv s"
  by (rule kinv_cong; simp add: upd_wq_def work_remove_def work_append_def split: option.splits)+

end
