(* ===== verification/Utilities_Inv.thy ===== *)
theory Utilities_Inv
  imports Calls_Inv Dataqueue Waitqueue Workqueue
begin

unbundle bit_operations_syntax

text \<open>
  The calls of the completions, data queues, wait queues and work queues keep the kernel invariant whenever they return.
\<close>

lemma sys_inv_utilities [simp]:
  "sys_inv (set_completion a v s) = sys_inv s" "sys_inv (upd_dq a f s) = sys_inv s"
  "sys_inv (upd_wqueue q g s) = sys_inv s" "sys_inv (rt_wqueue_remove n s) = sys_inv s"
  "sys_inv (s\<lparr>wait_nodes := x\<rparr>) = sys_inv s" "sys_inv (s\<lparr>node_on := y\<rparr>) = sys_inv s"
  "sys_inv (upd_wq q k s) = sys_inv s" "sys_inv (work_remove w s) = sys_inv s" "sys_inv (work_append q w s) = sys_inv s"
  by (rule sys_inv_cong; simp add: set_completion_def upd_dq_def upd_wqueue_def rt_wqueue_remove_def upd_wq_def
      work_remove_def work_append_def split: option.splits)+

lemma sys_inv_park:
  assumes I: "sys_inv s" and c: "cur_thread s = Some t" and h: "ipc_head h"
    and w: "park h t time s = Some s1" and r: "rt_schedule s1 = Some s2"
  shows "sys_inv s2"
  by (rule sys_inv_block [OF I c h w [unfolded park_ipc_wait] r])

subsection \<open>Completions\<close>

lemma completion_wait_inv:
  assumes I: "sys_inv s" and r: "rt_completion_wait a time s = Some (e, s')"
  shows "sys_inv s'"
proof (cases "comp_flag (completions s a) = 1 \<or> time = 0")
  case True
  then show ?thesis using r I by (auto simp: rt_completion_wait_def split: if_splits)
next
  case False
  then obtain t s1 s2 where w: "cur_thread s = Some t" "park (CompQ a) t time s = Some s1" "rt_schedule s1 = Some s2"
    and e: "(if cur_thread s2 = Some t then rt_completion_wait_wake a t s2 else (Blocked, s2)) = (e, s')"
    using r by (auto simp: rt_completion_wait_def split: if_splits)
  have "sys_inv s2" using sys_inv_park [OF I w(1) _ w(2,3)] by simp
  then show ?thesis using e by (auto simp: rt_completion_wait_wake_def split: if_splits)
qed

lemma completion_done_inv:
  assumes I: "sys_inv s" and r: "rt_completion_done a s = Some s'"
  shows "sys_inv s'"
  using r I sys_inv_wake_one [of "set_completion a 1 s"] by (auto simp: rt_completion_done_def split: if_splits)

subsection \<open>Data queues\<close>

definition calm_notify :: "notify_fn \<Rightarrow> bool" where
  "calm_notify ev = (\<forall>f a e s s'. sys_inv s \<longrightarrow> ev f a e s = Some s' \<longrightarrow> sys_inv s')"

lemma dq_event_inv:
  assumes C: "calm_notify ev" and I: "sys_inv s" and r: "dq_event ev a e s = Some s'"
  shows "sys_inv s'"
  using r I C unfolding calm_notify_def dq_event_def by (auto split: option.splits)

lemma dq_deliver_inv:
  assumes C: "calm_notify ev" and I: "sys_inv s" and r: "dq_deliver ev a v s = Some (e, s')"
  shows "sys_inv s'"
proof -
  obtain m where "(if tlists (upd_dq a (\<lambda>_. m) s) (DqPopQ a) \<noteq> [] then wake_one (DqPopQ a) (upd_dq a (\<lambda>_. m) s)
      else dq_event ev a 2 (upd_dq a (\<lambda>_. m) s)) = Some s'"
    using r by (auto simp: dq_deliver_def Let_def)
  moreover have "sys_inv (upd_dq a (\<lambda>_. m) s)" using I by simp
  ultimately show ?thesis
    using sys_inv_wake_one [of "upd_dq a (\<lambda>_. m) s" _ s'] dq_event_inv [OF C, of "upd_dq a (\<lambda>_. m) s" _ _ s']
    by (simp split: if_splits)
qed

lemma dq_fetch_inv:
  assumes C: "calm_notify ev" and I: "sys_inv s" and r: "dq_fetch ev a s = Some (e, s')"
  shows "sys_inv s'"
proof -
  obtain v m where "dq_load (dqueues s a) = Some (v, m)" and
    m: "(if uint (dq_put m) - uint (dq_get m) \<le> uint (dq_lwm m) then do {
        s \<leftarrow> wake_one (DqPushQ a) (upd_dq a (\<lambda>_. m) s); dq_event ev a 3 s } else dq_event ev a 1 (upd_dq a (\<lambda>_. m) s)) = Some s'"
    using r by (auto simp: dq_fetch_def Let_def)
  have J: "sys_inv (upd_dq a (\<lambda>_. m) s)" using I by simp
  show ?thesis
  proof (cases "uint (dq_put m) - uint (dq_get m) \<le> uint (dq_lwm m)")
    case True
    then obtain u where u: "wake_one (DqPushQ a) (upd_dq a (\<lambda>_. m) s) = Some u" "dq_event ev a 3 u = Some s'" using m by auto
    show ?thesis by (rule dq_event_inv [OF C sys_inv_wake_one [OF J u(1)] u(2)])
  next
    case False
    then show ?thesis using dq_event_inv [OF C J] m by simp
  qed
qed

lemma dq_push_loop_inv:
  assumes C: "calm_notify ev" and I: "sys_inv s" and r: "dq_push_loop ev a v timeout s = Some (e, s')"
  shows "sys_inv s'"
proof -
  have "calm_notify ev \<longrightarrow> sys_inv s \<longrightarrow> sys_inv (snd (e, s'))"
  proof (rule dq_push_loop.raw_induct [where P = "\<lambda>ev a v timeout s r. calm_notify ev \<longrightarrow> sys_inv s \<longrightarrow> sys_inv (snd r)", OF _ r],
      intro impI)
    fix loop ev a v timeout s r
    assume IH: "\<And>ev a v timeout s r. loop ev a v timeout s = Some r \<Longrightarrow> calm_notify ev \<longrightarrow> sys_inv s \<longrightarrow> sys_inv (snd r)"
      and b: "(if dq_full (dqueues s a) then
        if timeout = 0 then Some (Ret (- RT_ETIMEOUT), s)
        else do {
          _ \<leftarrow> not_in_interrupt s;
          t \<leftarrow> cur_thread s;
          s \<leftarrow> park (DqPushQ a) t timeout s;
          s \<leftarrow> rt_schedule s;
          if cur_thread s = Some t then
            if - th_error (threads s t) \<noteq> RT_EOK then Some (Ret (- th_error (threads s t)), s)
            else loop ev a v timeout s
          else Some (Blocked, s) }
        else dq_deliver ev a v s) = Some r" and C: "calm_notify ev" and J: "sys_inv s"
    show "sys_inv (snd r)"
    proof (cases "dq_full (dqueues s a) \<and> timeout \<noteq> 0")
      case False
      then show ?thesis using b J dq_deliver_inv [OF C J] by (cases r) (auto split: if_splits)
    next
      case True
      then obtain t s1 s2 where w: "cur_thread s = Some t" "park (DqPushQ a) t timeout s = Some s1" "rt_schedule s1 = Some s2"
        and e: "(if cur_thread s2 = Some t then
            if - th_error (threads s2 t) \<noteq> RT_EOK then Some (Ret (- th_error (threads s2 t)), s2)
            else loop ev a v timeout s2
          else Some (Blocked, s2)) = Some r"
        using b by auto
      have "sys_inv s2" using sys_inv_park [OF J w(1) _ w(2,3)] by simp
      then show ?thesis using e IH [of ev a v timeout s2 r] C by (auto split: if_splits)
    qed
  qed
  then show ?thesis using C I by simp
qed

lemma dq_pop_loop_inv:
  assumes C: "calm_notify ev" and I: "sys_inv s" and r: "dq_pop_loop ev a timeout s = Some (e, s')"
  shows "sys_inv s'"
proof -
  have "calm_notify ev \<longrightarrow> sys_inv s \<longrightarrow> sys_inv (snd (e, s'))"
  proof (rule dq_pop_loop.raw_induct [where P = "\<lambda>ev a timeout s r. calm_notify ev \<longrightarrow> sys_inv s \<longrightarrow> sys_inv (snd r)", OF _ r],
      intro impI)
    fix loop ev a timeout s r
    assume IH: "\<And>ev a timeout s r. loop ev a timeout s = Some r \<Longrightarrow> calm_notify ev \<longrightarrow> sys_inv s \<longrightarrow> sys_inv (snd r)"
      and b: "(if dq_get (dqueues s a) = dq_put (dqueues s a) then
        if timeout = 0 then Some ((Ret (- RT_ETIMEOUT), None), s)
        else do {
          _ \<leftarrow> not_in_interrupt s;
          t \<leftarrow> cur_thread s;
          s \<leftarrow> park (DqPopQ a) t timeout s;
          s \<leftarrow> rt_schedule s;
          if cur_thread s = Some t then
            if - th_error (threads s t) \<noteq> RT_EOK then Some ((Ret (- th_error (threads s t)), None), s)
            else loop ev a timeout s
          else Some ((Blocked, None), s) }
        else dq_fetch ev a s) = Some r" and C: "calm_notify ev" and J: "sys_inv s"
    show "sys_inv (snd r)"
    proof (cases "dq_get (dqueues s a) = dq_put (dqueues s a) \<and> timeout \<noteq> 0")
      case False
      then show ?thesis using b J dq_fetch_inv [OF C J] by (cases r) (auto split: if_splits)
    next
      case True
      then obtain t s1 s2 where w: "cur_thread s = Some t" "park (DqPopQ a) t timeout s = Some s1" "rt_schedule s1 = Some s2"
        and e: "(if cur_thread s2 = Some t then
            if - th_error (threads s2 t) \<noteq> RT_EOK then Some ((Ret (- th_error (threads s2 t)), None), s2)
            else loop ev a timeout s2
          else Some ((Blocked, None), s2)) = Some r"
        using b by auto
      have "sys_inv s2" using sys_inv_park [OF J w(1) _ w(2,3)] by simp
      then show ?thesis using e IH [of ev a timeout s2 r] C by (auto split: if_splits)
    qed
  qed
  then show ?thesis using C I by simp
qed

lemma sys_inv_lock [simp]: "sys_inv (s\<lparr>lock_nest := n\<rparr>) = sys_inv s"
  by (rule sys_inv_cong) simp_all

lemma dq_reset_inv:
  assumes I: "sys_inv s" and r: "rt_data_queue_reset a s = Some s'"
  shows "sys_inv s'"
proof -
  obtain s1 s2 s3 where s: "rt_ipc_list_resume_all (DqPopQ a) (rt_enter_critical s) = Some s1"
    "rt_ipc_list_resume_all (DqPushQ a) s1 = Some s2" "rt_exit_critical s2 = Some s3" "rt_schedule s3 = Some s'"
    using r by (auto simp: rt_data_queue_reset_def Let_def)
  have "sys_inv (rt_enter_critical s)" using I by (simp add: rt_enter_critical_def)
  then have "sys_inv s2" using reset_inv [OF _ _ _ s(1,2)] by simp
  then have "sys_inv s3" by (rule exit_critical_inv [OF _ s(3)])
  then show ?thesis by (rule sys_inv_schedule [OF _ s(4)])
qed

subsection \<open>Wait queues\<close>

lemma wqueue_add_inv: "\<lbrakk>sys_inv s; rt_wqueue_add q n s = Some s'\<rbrakk> \<Longrightarrow> sys_inv s' \<and> cur_thread s' = cur_thread s"
  by (auto simp: rt_wqueue_add_def split: if_splits)

lemma wakeup_loop_inv: "\<lbrakk>sys_inv s; wakeup_loop wk key ns s = Some (b, s')\<rbrakk> \<Longrightarrow> sys_inv s'"
  by (induction ns) (auto split: if_splits dest: sys_inv_resume(1))

lemma wqueue_wakeup_inv:
  assumes I: "sys_inv s" and r: "rt_wqueue_wakeup wk q key s = Some s'"
  shows "sys_inv s'"
proof -
  obtain b u where u: "wakeup_loop wk key (waiting_list (wqueues (upd_wqueue q (\<lambda>w. w\<lparr>wqueue_flag := 1\<rparr>) s) q))
      (upd_wqueue q (\<lambda>w. w\<lparr>wqueue_flag := 1\<rparr>) s) = Some (b, u)" "(if b then rt_schedule u else Some u) = Some s'"
    using r unfolding rt_wqueue_wakeup_def Let_def by (auto simp del: upd_wqueue_fields)
  have "sys_inv u" by (rule wakeup_loop_inv [OF _ u(1)]) (simp add: I)
  then show ?thesis using u(2) sys_inv_schedule [of u s'] by (cases b) auto
qed

text \<open>Setting and starting the built-in timer of a suspended thread.\<close>

lemma own_timer_inv:
  assumes I: "sys_inv s" and st: "tstat s t = RT_THREAD_SUSPEND"
    and r: "do { (_, s) \<leftarrow> rt_timer_control (TTimer t) Set_Time v s; (_, s) \<leftarrow> rt_timer_start (TTimer t) s; Some s } = Some s'"
  shows "sys_inv s'"
proof -
  let ?u = "upd_timer (TTimer t) (\<lambda>tm. tm\<lparr>tm_init_tick := v\<rparr>) s"
  obtain e where e: "rt_timer_start (TTimer t) ?u = Some (e, s')"
    using r by (auto simp: rt_timer_control_def split: if_splits)
  have "own_func (timers s (TTimer t)) (TTimer t)"
    using kinvD(2) [OF sys_invD(1) [OF I]] st by (simp add: types_ok_def own_func_def)
  moreover have "sys_inv ?u" using I kinv_upd_timer [OF sys_invD(1) [OF I]] by (auto simp: sys_inv_def started_def)
  ultimately show ?thesis using sys_inv_timer_start [OF _ _ _ e] st by simp
qed

lemma wqueue_sleep_inv:
  assumes I: "sys_inv s" and c: "cur_thread s = Some t" and r: "wqueue_sleep q n t wait s = Some (e, s')"
  shows "sys_inv s'"
proof -
  obtain s1 e1 s2 s3 s4 where w: "rt_wqueue_add q n s = Some s1" "rt_thread_suspend t s1 = Some (e1, s2)"
    "(if wait \<noteq> RT_WAITING_FOREVER then do {
        (_, s) \<leftarrow> rt_timer_control (TTimer t) Set_Time wait s2; (_, s) \<leftarrow> rt_timer_start (TTimer t) s; Some s }
      else Some s2) = Some s3" "rt_schedule s3 = Some s4"
    "(if cur_thread s4 = Some t then rt_wqueue_wait_wake q n s4 else (Blocked, s4)) = (e, s')"
    using r unfolding wqueue_sleep_def by (auto simp del: if_split)
  have 1: "sys_inv s1" "cur_thread s1 = Some t" using wqueue_add_inv [OF I w(1)] c by simp_all
  have 2: "sys_inv s2" "tstat s2 t = RT_THREAD_SUSPEND" using sys_inv_suspend [OF 1(1) w(2)] sys_invD(2) [OF 1] by auto
  have "sys_inv s3" using own_timer_inv [OF 2, of wait s3] w(3) 2(1) by (cases "wait = RT_WAITING_FOREVER") simp_all
  then have "sys_inv s4" by (rule sys_inv_schedule [OF _ w(4)])
  then show ?thesis using w(5) by (auto simp: rt_wqueue_wait_wake_def split: if_splits)
qed

lemma wqueue_wait_inv:
  assumes I: "sys_inv s" and r: "rt_wqueue_wait q n cond ms s = Some (e, s')"
  shows "sys_inv s'"
proof -
  obtain t where c: "cur_thread s = Some t" using r by (auto simp: rt_wqueue_wait_def)
  have "sys_inv (s\<lparr>wait_nodes := x\<rparr>)" "cur_thread (s\<lparr>wait_nodes := x\<rparr>) = Some t" for x using I c by simp_all
  then show ?thesis using r I c wqueue_sleep_inv [of "s\<lparr>wait_nodes := x\<rparr>" t q n _ e s' for x]
    by (auto simp: rt_wqueue_wait_def rt_wqueue_wait_wake_def Let_def split: if_splits)
qed

subsection \<open>Work queues\<close>

lemma completion_loop_inv:
  assumes I: "sys_inv s" and r: "completion_loop a s = Some (e, s')"
  shows "sys_inv s'"
proof -
  have "sys_inv s \<longrightarrow> sys_inv (snd (e, s'))"
  proof (rule completion_loop.raw_induct [where P = "\<lambda>a s r. sys_inv s \<longrightarrow> sys_inv (snd r)", OF _ r], intro impI)
    fix loop a s r
    assume IH: "\<And>a s r. loop a s = Some r \<Longrightarrow> sys_inv s \<longrightarrow> sys_inv (snd r)"
      and b: "(do {
        (r, s) \<leftarrow> rt_sem_trytake a s;
        if r = Ret (- RT_ETIMEOUT) then do {
          (_, s) \<leftarrow> rt_sem_release a s;
          loop a s }
        else if r = Ret RT_EOK then Some (RT_EOK, s)
        else Some (- RT_ERROR, s) }) = Some r" and J: "sys_inv s"
    obtain e1 s1 where 1: "rt_sem_trytake a s = Some (e1, s1)" using b by auto
    have I1: "sys_inv s1" using sem_take_inv [OF J] 1 by (simp add: rt_sem_trytake_def)
    show "sys_inv (snd r)"
    proof (cases "e1 = Ret (- RT_ETIMEOUT)")
      case True
      then obtain e2 s2 where "rt_sem_release a s1 = Some (e2, s2)" "loop a s2 = Some r" using b 1 by auto
      then show ?thesis using IH sem_release_inv [OF I1] by blast
    next
      case False
      then show ?thesis using b 1 I1 by (auto split: if_splits)
    qed
  qed
  then show ?thesis using I by simp
qed

lemma worker_done_inv:
  assumes I: "sys_inv s" and r: "worker_done q s = Some s'"
  shows "sys_inv s'"
proof -
  let ?s = "rt_enter_critical (upd_wq q (\<lambda>x. x\<lparr>work_current := None\<rparr>) s)"
  obtain e s1 where s: "completion_loop (wq_sem (workqueues ?s q)) ?s = Some (e, s1)" "rt_exit_critical s1 = Some s'"
    using r by (auto simp: worker_done_def workqueue_work_completion_def Let_def simp del: upd_wq_fields)
  have "sys_inv ?s" using I by (simp add: rt_enter_critical_def)
  then have "sys_inv s1" by (rule completion_loop_inv [OF _ s(1)])
  then show ?thesis by (rule exit_critical_inv [OF _ s(2)])
qed

lemma worker_sleep_inv:
  assumes I: "sys_inv s" and r: "worker_sleep s = Some s'"
  shows "sys_inv s'"
proof -
  obtain t e u where "rt_thread_suspend t s = Some (e, u)" "rt_schedule u = Some s'" using r by (auto simp: worker_sleep_def)
  then show ?thesis using sys_inv_suspend(1) [OF I] sys_inv_schedule by blast
qed

lemma worker_take_inv: "\<lbrakk>sys_inv s; worker_take q s = Some (w, s')\<rbrakk> \<Longrightarrow> sys_inv s'"
  by (auto simp: worker_take_def split: list.splits)

lemma resume_schedule_inv: "\<lbrakk>sys_inv s; rt_thread_resume t s = Some (e, u); rt_schedule u = Some s'\<rbrakk> \<Longrightarrow> sys_inv s'"
  by (blast intro: sys_inv_resume(1) sys_inv_schedule)

lemma dowork_inv:
  assumes I: "sys_inv s"
  shows "rt_workqueue_dowork q w s = Some (e, s') \<Longrightarrow> sys_inv s'"
    and "rt_workqueue_critical_work q w s = Some (e, s') \<Longrightarrow> sys_inv s'"
  using I resume_schedule_inv [of "work_append q w (work_remove w s)"]
  by (auto simp: rt_workqueue_dowork_def rt_workqueue_critical_work_def Let_def split: if_splits)

lemma cancel_loop_inv: "sys_inv (cancel_loop ws s) = sys_inv s"
  by (induction ws arbitrary: s) simp_all

lemma cancel_inv:
  assumes I: "sys_inv s"
  shows "sys_inv (snd (rt_workqueue_cancel_work q w s))"
    and "rt_workqueue_cancel_work_sync q w s = Some (e, s') \<Longrightarrow> sys_inv s'"
    and "rt_workqueue_cancel_all_work q s = Some (f, s') \<Longrightarrow> sys_inv s'"
proof -
  show "sys_inv (snd (rt_workqueue_cancel_work q w s))" using I by (simp add: rt_workqueue_cancel_work_def)
  show "rt_workqueue_cancel_work_sync q w s = Some (e, s') \<Longrightarrow> sys_inv s'"
    using I sem_take_inv [OF I] by (auto simp: rt_workqueue_cancel_work_sync_def split: if_splits)
  have "sys_inv (cancel_loop ws (rt_enter_critical s))" for ws using I by (simp add: cancel_loop_inv rt_enter_critical_def)
  then show "rt_workqueue_cancel_all_work q s = Some (f, s') \<Longrightarrow> sys_inv s'"
    using exit_critical_inv by (auto simp: rt_workqueue_cancel_all_work_def Let_def)
qed

end
