(* ===== verification/System.thy ===== *)
theory System
  imports Utilities_Inv
begin

unbundle bit_operations_syntax

text \<open>
  The kernel as a state machine over its system calls: every call is a step, and the
  continuation of a call that had blocked is a step of its own. Each step keeps the
  kernel invariant whenever it returns.
\<close>

subsection \<open>The kernel as a state machine\<close>

text \<open>
  The calls of the running thread, the continuations of the calls that blocked (they run
  when the thread is scheduled again, with what the call had saved on its stack), and the
  tick interrupt. An application starts only the timers whose function is its own.
\<close>

definition app_timer :: "oref \<Rightarrow> kernel \<Rightarrow> unit option" where
  "app_timer x s = (case tm_func (timers s x) of User_Timeout _ \<Rightarrow> Some () | Thread_Timeout _ \<Rightarrow> None)"

datatype sem_call = Sem_Take nat u32
  | Sem_Release nat
  | Sem_Control nat int u32

primrec sem_step :: "sem_call \<Rightarrow> kernel \<Rightarrow> kernel option" where
  "sem_step (Sem_Take a time) s = map_option snd (rt_sem_take a time s)"
| "sem_step (Sem_Release a) s = map_option snd (rt_sem_release a s)"
| "sem_step (Sem_Control a cmd v) s = map_option snd (rt_sem_control a cmd v s)"

datatype mutex_call = Mutex_Take nat u32
  | Mutex_Take_Wake nat u32
  | Mutex_Release nat

primrec mutex_step :: "mutex_call \<Rightarrow> kernel \<Rightarrow> kernel option" where
  "mutex_step (Mutex_Take a time) s = map_option snd (rt_mutex_take a time s)"
| "mutex_step (Mutex_Take_Wake a time) s = do { t \<leftarrow> cur_thread s; map_option snd (rt_mutex_take_wake a t time s) }"
| "mutex_step (Mutex_Release a) s = map_option snd (rt_mutex_release a s)"

datatype event_call = Event_Send nat u32
  | Event_Recv nat u32 u8 u32
  | Event_Control nat int u32

primrec event_step :: "event_call \<Rightarrow> kernel \<Rightarrow> kernel option" where
  "event_step (Event_Send a v) s = map_option snd (rt_event_send a v s)"
| "event_step (Event_Recv a v opt time) s = map_option snd (rt_event_recv a v opt time s)"
| "event_step (Event_Control a cmd v) s = map_option snd (rt_event_control a cmd v s)"

datatype mb_call = Mb_Send nat u32 u32
  | Mb_Send_Wake nat u32 u32 u32
  | Mb_Urgent nat u32
  | Mb_Recv nat u32
  | Mb_Recv_Wake nat u32 u32
  | Mb_Control nat int u32

primrec mb_step :: "mb_call \<Rightarrow> kernel \<Rightarrow> kernel option" where
  "mb_step (Mb_Send a v time) s = map_option snd (rt_mb_send_wait a v time s)"
| "mb_step (Mb_Send_Wake a v time since) s = do { t \<leftarrow> cur_thread s; map_option snd (rt_mb_send_wait_wake a t v time since s) }"
| "mb_step (Mb_Urgent a v) s = map_option snd (rt_mb_urgent a v s)"
| "mb_step (Mb_Recv a time) s = map_option snd (rt_mb_recv a time s)"
| "mb_step (Mb_Recv_Wake a time since) s = do { t \<leftarrow> cur_thread s; map_option snd (rt_mb_recv_wake a t time since s) }"
| "mb_step (Mb_Control a cmd v) s = map_option snd (rt_mb_control a cmd v s)"

datatype mq_call = Mq_Send nat "u8 list option" nat
  | Mq_Urgent nat "u8 list option" nat
  | Mq_Recv nat nat u32
  | Mq_Recv_Wake nat nat u32 u32
  | Mq_Control nat int u32

primrec mq_step :: "mq_call \<Rightarrow> kernel \<Rightarrow> kernel option" where
  "mq_step (Mq_Send a buf n) s = map_option snd (rt_mq_send a buf n s)"
| "mq_step (Mq_Urgent a buf n) s = map_option snd (rt_mq_urgent a buf n s)"
| "mq_step (Mq_Recv a n time) s = map_option snd (rt_mq_recv a n time s)"
| "mq_step (Mq_Recv_Wake a n time since) s = do { t \<leftarrow> cur_thread s; map_option snd (rt_mq_recv_wake a t n time since s) }"
| "mq_step (Mq_Control a cmd v) s = map_option snd (rt_mq_control a cmd v s)"

datatype mp_call = Mp_Alloc nat u32
  | Mp_Alloc_Wake nat u32 u32
  | Mp_Free nat nat

primrec mp_step :: "mp_call \<Rightarrow> kernel \<Rightarrow> kernel option" where
  "mp_step (Mp_Alloc a time) s = map_option snd (rt_mp_alloc a time s)"
| "mp_step (Mp_Alloc_Wake a time since) s = do { t \<leftarrow> cur_thread s; map_option snd (rt_mp_alloc_wake a t time since s) }"
| "mp_step (Mp_Free p b) s = rt_mp_free p b s"

datatype thread_call = Thread_Suspend nat
  | Thread_Resume nat
  | Change_Priority nat u8
  | Yield
  | Sleep u32
  | Sleep_Wake
  | Delay_Until u32 u32
  | Delay_Until_Wake
  | Enter_Critical
  | Exit_Critical

primrec thread_step :: "thread_call \<Rightarrow> kernel \<Rightarrow> kernel option" where
  "thread_step (Thread_Suspend t) s = map_option snd (rt_thread_suspend t s)"
| "thread_step (Thread_Resume t) s = map_option snd (rt_thread_resume t s)"
| "thread_step (Change_Priority t p) s = rt_thread_change_priority t p s"
| "thread_step Yield s = map_option snd (rt_thread_yield s)"
| "thread_step (Sleep ticks) s = map_option snd (rt_thread_sleep ticks s)"
| "thread_step Sleep_Wake s = do { t \<leftarrow> cur_thread s; Some (snd (rt_thread_sleep_wake t s)) }"
| "thread_step (Delay_Until since inc) s = map_option (\<lambda>r. snd (snd r)) (rt_thread_delay_until since inc s)"
| "thread_step Delay_Until_Wake s = do { t \<leftarrow> cur_thread s; Some (snd (rt_thread_delay_until_wake t s)) }"
| "thread_step Enter_Critical s = Some (rt_enter_critical s)"
| "thread_step Exit_Critical s = rt_exit_critical s"

datatype timer_call = Timer_Start nat
  | Timer_Stop nat
  | Timer_Control nat timer_cmd u32

primrec timer_step :: "timer_call \<Rightarrow> kernel \<Rightarrow> kernel option" where
  "timer_step (Timer_Start a) s = do { _ \<leftarrow> app_timer (Obj a) s; map_option snd (rt_timer_start (Obj a) s) }"
| "timer_step (Timer_Stop a) s = map_option snd (rt_timer_stop (Obj a) s)"
| "timer_step (Timer_Control a cmd v) s = map_option snd (rt_timer_control (Obj a) cmd v s)"

datatype comp_call = Comp_Init nat | Comp_Wait nat u32 | Comp_Wait_Wake nat | Comp_Done nat

primrec comp_step :: "comp_call \<Rightarrow> kernel \<Rightarrow> kernel option" where
  "comp_step (Comp_Init a) s = (if tlists s (CompQ a) = [] then Some (rt_completion_init a s) else None)"
| "comp_step (Comp_Wait a time) s = map_option snd (rt_completion_wait a time s)"
| "comp_step (Comp_Wait_Wake a) s = do { t \<leftarrow> cur_thread s; Some (snd (rt_completion_wait_wake a t s)) }"
| "comp_step (Comp_Done a) s = rt_completion_done a s"

datatype dq_call = Dq_Push nat u32 u32 u32
  | Dq_Push_Wake nat u32 u32 u32
  | Dq_Pop nat u32
  | Dq_Pop_Wake nat u32
  | Dq_Reset nat

primrec dq_step :: "notify_fn \<Rightarrow> dq_call \<Rightarrow> kernel \<Rightarrow> kernel option" where
  "dq_step ev (Dq_Push a ptr len time) s = map_option snd (rt_data_queue_push ev a ptr len time s)"
| "dq_step ev (Dq_Push_Wake a ptr len time) s = do { t \<leftarrow> cur_thread s; map_option snd (rt_data_queue_push_wake ev a t (ptr, len) time s) }"
| "dq_step ev (Dq_Pop a time) s = map_option snd (rt_data_queue_pop ev a time s)"
| "dq_step ev (Dq_Pop_Wake a time) s = do { t \<leftarrow> cur_thread s; map_option snd (rt_data_queue_pop_wake ev a t time s) }"
| "dq_step ev (Dq_Reset a) s = rt_data_queue_reset a s"

datatype wqueue_call = Wqueue_Wait nat nat bool u32 | Wqueue_Wait_Wake nat nat | Wqueue_Wakeup nat u32
  | Wqueue_Add nat nat | Wqueue_Remove nat

primrec wqueue_step :: "wake_fn \<Rightarrow> wqueue_call \<Rightarrow> kernel \<Rightarrow> kernel option" where
  "wqueue_step wk (Wqueue_Wait q n b ms) s = map_option snd (rt_wqueue_wait q n b ms s)"
| "wqueue_step wk (Wqueue_Wait_Wake q n) s = Some (snd (rt_wqueue_wait_wake q n s))"
| "wqueue_step wk (Wqueue_Wakeup q key) s = rt_wqueue_wakeup wk q key s"
| "wqueue_step wk (Wqueue_Add q n) s = rt_wqueue_add q n s"
| "wqueue_step wk (Wqueue_Remove n) s = Some (rt_wqueue_remove n s)"

datatype wq_call = Work_Do nat nat | Work_Critical nat nat | Work_Cancel nat nat | Work_Cancel_Sync nat nat | Work_Cancel_All nat
  | Worker_Sleep | Worker_Take nat | Worker_Done nat

primrec wq_step :: "wq_call \<Rightarrow> kernel \<Rightarrow> kernel option" where
  "wq_step (Work_Do q w) s = map_option snd (rt_workqueue_dowork q w s)"
| "wq_step (Work_Critical q w) s = map_option snd (rt_workqueue_critical_work q w s)"
| "wq_step (Work_Cancel q w) s = Some (snd (rt_workqueue_cancel_work q w s))"
| "wq_step (Work_Cancel_Sync q w) s = map_option snd (rt_workqueue_cancel_work_sync q w s)"
| "wq_step (Work_Cancel_All q) s = map_option snd (rt_workqueue_cancel_all_work q s)"
| "wq_step Worker_Sleep s = worker_sleep s"
| "wq_step (Worker_Take q) s = map_option snd (worker_take q s)"
| "wq_step (Worker_Done q) s = worker_done q s"

text \<open>The functions of the application that the kernel calls: of timers, of data queues, of nodes in wait queues.\<close>

record app =
  on_timer :: "nat \<Rightarrow> kernel \<Rightarrow> kernel option"
  on_queue :: notify_fn
  on_wakeup :: wake_fn

definition calm_app :: "app \<Rightarrow> bool" where
  "calm_app A = (calm_callback (on_timer A) \<and> calm_notify (on_queue A))"

text \<open>An application whose functions do nothing.\<close>

definition quiet_app :: app where
  "quiet_app = \<lparr>on_timer = \<lambda>_. Some, on_queue = \<lambda>_ _ _. Some, on_wakeup = \<lambda>_ _ _. 0\<rparr>"

datatype sys_op = Sem sem_call | Mutex mutex_call | Event event_call | Mailbox mb_call
  | Msgqueue mq_call | Mempool mp_call | Thread thread_call | Timer timer_call
  | Completion comp_call | Dataqueue dq_call | Waitqueue wqueue_call | Workqueue wq_call | Tick

primrec sys_step :: "app \<Rightarrow> sys_op \<Rightarrow> kernel \<Rightarrow> kernel option" where
  "sys_step A (Sem c) s = sem_step c s"
| "sys_step A (Mutex c) s = mutex_step c s"
| "sys_step A (Event c) s = event_step c s"
| "sys_step A (Mailbox c) s = mb_step c s"
| "sys_step A (Msgqueue c) s = mq_step c s"
| "sys_step A (Mempool c) s = mp_step c s"
| "sys_step A (Thread c) s = thread_step c s"
| "sys_step A (Timer c) s = timer_step c s"
| "sys_step A (Completion c) s = comp_step c s"
| "sys_step A (Dataqueue c) s = dq_step (on_queue A) c s"
| "sys_step A (Waitqueue c) s = wqueue_step (on_wakeup A) c s"
| "sys_step A (Workqueue c) s = wq_step c s"
| "sys_step A Tick s = rt_tick_increase (on_timer A) s"

lemma wake_inv:
  assumes I: "sys_inv s" and c: "cur_thread s = Some t"
  shows "rt_mutex_take_wake a t time s = Some (r, s') \<Longrightarrow> sys_inv s'"
    and "rt_mb_send_wait_wake a t v time since s = Some (r1, s') \<Longrightarrow> sys_inv s'"
    and "rt_mb_recv_wake a t time since s = Some (r2, s') \<Longrightarrow> sys_inv s'"
    and "rt_mq_recv_wake a t n time since s = Some (r3, s') \<Longrightarrow> sys_inv s'"
    and "rt_mp_alloc_wake a t time since s = Some (r4, s') \<Longrightarrow> sys_inv s'"
  using mutex_again_inv [OF I c] mb_send_loop_inv [OF I] mb_recv_loop_inv [OF I]
    mq_recv_loop_inv [OF I] mp_alloc_loop_inv [OF I] I
  by (auto simp: rt_mutex_take_wake_def rt_mb_send_wait_wake_def rt_mb_recv_wake_def
      rt_mq_recv_wake_def rt_mp_alloc_wake_def split: if_splits)

lemma app_timer_start_inv:
  assumes I: "sys_inv s" and a: "app_timer (Obj a) s = Some u" and r: "rt_timer_start (Obj a) s = Some (e, s')"
  shows "sys_inv s'"
  using sys_inv_timer_start [OF I _ _ r] a by (auto simp: app_timer_def own_func_def split: timeout_fn.splits)

lemma sem_step_inv:
  assumes I: "sys_inv s" and r: "sem_step c s = Some s'"
  shows "sys_inv s'"
  using r by (cases c) (auto dest: sem_take_inv [OF I] sem_release_inv [OF I] sem_control_inv [OF I])

lemma mutex_step_inv:
  assumes I: "sys_inv s" and r: "mutex_step c s = Some s'"
  shows "sys_inv s'"
  using r by (cases c) (auto dest: mutex_take_inv [OF I] mutex_release_inv [OF I] wake_inv [OF I])

lemma event_step_inv:
  assumes I: "sys_inv s" and r: "event_step c s = Some s'"
  shows "sys_inv s'"
  using r by (cases c) (auto dest: event_send_inv [OF I] event_recv_inv [OF I] event_control_inv [OF I])

lemma mb_step_inv:
  assumes I: "sys_inv s" and r: "mb_step c s = Some s'"
  shows "sys_inv s'"
  using r by (cases c) (auto dest: mb_send_inv [OF I] mb_urgent_inv [OF I] mb_recv_inv [OF I] mb_control_inv [OF I] wake_inv [OF I])

lemma mq_step_inv:
  assumes I: "sys_inv s" and r: "mq_step c s = Some s'"
  shows "sys_inv s'"
  using r by (cases c) (auto dest: mq_send_inv [OF I] mq_urgent_inv [OF I] mq_recv_inv [OF I] mq_control_inv [OF I] wake_inv [OF I])

lemma mp_step_inv:
  assumes I: "sys_inv s" and r: "mp_step c s = Some s'"
  shows "sys_inv s'"
  using r by (cases c) (auto dest: mp_alloc_loop_inv [OF I] mp_free_inv [OF I] wake_inv [OF I] simp: rt_mp_alloc_def)

lemma thread_step_inv:
  assumes I: "sys_inv s" and r: "thread_step c s = Some s'"
  shows "sys_inv s'"
  using r by (cases c) (auto dest: sys_inv_suspend(1) [OF I] sys_inv_resume(1) [OF I] sys_inv_change_priority(1) [OF I] yield_inv [OF I] sleep_inv [OF I] delay_until_inv [OF I] exit_critical_inv [OF I] simp: sleep_wake_inv [OF I] delay_wake_inv [OF I] rt_enter_critical_def I)

lemma timer_step_inv:
  assumes I: "sys_inv s" and r: "timer_step c s = Some s'"
  shows "sys_inv s'"
  using r by (cases c) (auto dest: app_timer_start_inv [OF I] sys_inv_timer_stop [OF I] timer_control_inv [OF I])

lemma comp_step_inv:
  assumes I: "sys_inv s" and r: "comp_step c s = Some s'"
  shows "sys_inv s'"
proof (cases c)
  case (Comp_Init a)
  then have e: "s' = rt_completion_init a s" "tlists s (CompQ a) = []" using r by (auto split: if_splits)
  have "sys_inv (rt_ipc_object_init (CompQ a) (set_completion a 0 s)) = sys_inv (set_completion a 0 s)"
    by (rule sys_inv_cong) (use e(2) in \<open>auto simp: rt_ipc_object_init_def fun_upd_idem\<close>)
  then show ?thesis using I e(1) by (simp add: rt_completion_init_def)
qed (use r in \<open>auto dest: completion_wait_inv [OF I] completion_done_inv [OF I] simp: rt_completion_wait_wake_def I\<close>)

lemma dq_step_inv:
  assumes C: "calm_notify ev" and I: "sys_inv s" and r: "dq_step ev c s = Some s'"
  shows "sys_inv s'"
  using r dq_push_loop_inv [OF C I] dq_pop_loop_inv [OF C I] dq_reset_inv [OF I] I
  by (cases c) (auto simp: rt_data_queue_push_def rt_data_queue_push_wake_def rt_data_queue_pop_def rt_data_queue_pop_wake_def
      split: if_splits)

lemma wqueue_step_inv:
  assumes I: "sys_inv s" and r: "wqueue_step wk c s = Some s'"
  shows "sys_inv s'"
  using r by (cases c) (auto dest: wqueue_wait_inv [OF I] wqueue_wakeup_inv [OF I] wqueue_add_inv [OF I] simp: rt_wqueue_wait_wake_def I)

lemma wq_step_inv:
  assumes I: "sys_inv s" and r: "wq_step c s = Some s'"
  shows "sys_inv s'"
  using r by (cases c) (auto dest: dowork_inv [OF I] cancel_inv(2,3) [OF I] worker_sleep_inv [OF I] worker_take_inv [OF I] worker_done_inv [OF I]
      simp: cancel_inv(1) [OF I])

lemma sys_step_inv:
  assumes C: "calm_app A" and I: "sys_inv s" and r: "sys_step A op s = Some s'"
  shows "sys_inv s'"
proof -
  have C: "calm_callback (on_timer A)" "calm_notify (on_queue A)" using C by (simp_all add: calm_app_def)
  show ?thesis
    using r sem_step_inv [OF I] mutex_step_inv [OF I] event_step_inv [OF I] mb_step_inv [OF I]
      mq_step_inv [OF I] mp_step_inv [OF I] thread_step_inv [OF I] timer_step_inv [OF I] comp_step_inv [OF I]
      dq_step_inv [OF C(2) I] wqueue_step_inv [OF I] wq_step_inv [OF I] tick_increase_inv [OF C(1) I]
    by (cases op) simp_all
qed

end
