(* ===== verification/Sample_Kernel.thy ===== *)
theory Sample_Kernel
  imports System
begin

unbundle bit_operations_syntax

text \<open>
  A small running kernel, the concrete input of the witnesses: four threads (0 is the
  idle thread, 1 the running one, 2 ready at a lower priority, 3 waiting for the
  semaphore 20) and one object of every class. It is built with the operations of the
  model from a kernel in which the four threads are suspended.
\<close>

definition sample_thread :: "u8 \<Rightarrow> rt_thread" where
  "sample_thread p = set_priority p \<lparr>sp = 0x1800, stack_addr = 0x1000, stack_size = 0x1000,
     stack_guard = 35, th_error = 0, stat = RT_THREAD_SUSPEND, current_priority = p,
     init_priority = p, number = 0, high_mask = 0, number_mask = 0, event_set = 0, event_info = 0,
     th_init_tick = 10, remaining_tick = 10, cleanup = False, th_lock = None\<rparr>"

definition sample_types :: "(nat \<times> u8) list" where
  "sample_types = [(0, 0x81), (1, 0x81), (2, 0x81), (3, 0x81), (20, 0x82), (21, 0x83), (22, 0x84),
     (23, 0x85), (24, 0x86), (25, 0x88), (26, 0x82), (30, 0x8A)]"

definition sample_objects :: "oref \<Rightarrow> rt_object" where
  "sample_objects x = (case x of
      Obj a \<Rightarrow> \<lparr>obj_name = replicate 16 0,
        obj_type = (case map_of sample_types a of None \<Rightarrow> 0 | Some ty \<Rightarrow> ty),
        obj_flag = (if a = 21 then 1 else 0)\<rparr>
    | TTimer t \<Rightarrow> \<lparr>obj_name = replicate 16 0, obj_type = (if t < 4 then 0x8A else 0), obj_flag = 0\<rparr>)"

definition sample_mq :: rt_messagequeue where
  "sample_mq = (mq_build \<lparr>mq_msg_size = 4, mq_max_msgs = 2, mq_entry = 0, mq_next = \<lambda>_. None,
     mq_data = \<lambda>_. [0, 0, 0, 0], mq_head = None, mq_tail = None, mq_free = None\<rparr>)\<lparr>mq_entry := 0\<rparr>"

definition sample_mp :: rt_mempool where
  "sample_mp = \<lparr>mp_size = 24, mp_block_size = 8, mp_block_list = Some 0, mp_total_count = 2,
     mp_free_count = 2, mp_suspend_count = 0,
     mp_blocks = \<lambda>b. if b = 0 then Link (Some 1) else Link None\<rparr>"

definition sample_base :: kernel where
  "sample_base = \<lparr>objects = sample_objects, containers = \<lambda>_. [],
     threads = \<lambda>t. if t = 0 then sample_thread 255 else if t = 1 then sample_thread 10
       else if t = 2 then sample_thread 20 else if t = 3 then sample_thread 5 else zero_thread,
     timers = \<lambda>x. case x of TTimer t \<Rightarrow> \<lparr>tm_func = Thread_Timeout t, tm_init_tick = 0, tm_timeout_tick = 0\<rparr>
       | Obj _ \<Rightarrow> \<lparr>tm_func = User_Timeout 20, tm_init_tick = 3, tm_timeout_tick = 0\<rparr>,
     sems = \<lambda>a. \<lparr>sem_value = if a = 26 then 3 else 0\<rparr>,
     mutexes = \<lambda>_. new_mutex,
     events = \<lambda>_. \<lparr>ev_set = 0\<rparr>,
     mailboxes = \<lambda>_. new_mailbox [0, 0] 2,
     msgqueues = \<lambda>_. sample_mq,
     mempools = \<lambda>_. sample_mp,
     completions = \<lambda>_. \<lparr>comp_flag = 0\<rparr>,
     dqueues = \<lambda>_. \<lparr>dq_size = 4, dq_lwm = 1, dq_get = 0, dq_put = 0, dq_items = replicate 4 (0, 0), dq_notify = None\<rparr>,
     workqueues = \<lambda>_. \<lparr>work_list = [], work_current = None, wq_sem = 26, work_thread = 3\<rparr>,
     work_on = \<lambda>_. None,
     wqueues = \<lambda>_. \<lparr>wqueue_flag = 0, waiting_list = []\<rparr>,
     wait_nodes = \<lambda>_. \<lparr>polling_thread = 0, node_wakeup = Default_Wake\<rparr>,
     node_on = \<lambda>_. None,
     devices = \<lambda>_. \<lparr>dev_class = 0, dev_flag = 0, open_flag = 0, ref_count = 0, rx_indicate = None, tx_complete = None,
       dev_init = None, dev_open = None, dev_close = None, dev_read = None, dev_write = None, dev_control = None\<rparr>,
     tlists = \<lambda>_. [], on_list = \<lambda>_. None, timer_list = [], soft_timer_list = [],
     ready_table = replicate 32 0, ready_group = 0, cur_thread = Some 1, cur_priority = 10,
     lock_nest = 0, irq_nest = 0, tick = 0xFFFFFFFE, tick_uptime = 0, pts = 0, sys_total_ticks = 0,
     idl_total_ticks = 0, prev_calc_ticks = 0, timer_thread = 2, rt_errno = 0\<rparr>"

definition sample_ready :: kernel where
  "sample_ready = resumed 2 (resumed 1 (resumed 0 sample_base))"

definition sample :: kernel where
  "sample = sample_ready\<lparr>tlists := (tlists sample_ready)(SemQ 20 := [3]),
     on_list := (on_list sample_ready)(3 := Some (SemQ 20))\<rparr>"

lemma sample_thread_fields [simp]:
  "stat (sample_thread p) = 2" "current_priority (sample_thread p) = p"
  "masks_ok (sample_thread p)" "th_error (sample_thread p) = 0" "stack_ok (sample_thread p)"
  by (simp_all add: sample_thread_def set_priority_def masks_ok_def stack_ok_def stack_check_def)

lemma zero_thread_stat [simp]: "stat zero_thread = 0"
  by (simp add: zero_thread_def)

lemma sample_base_stat:
  "tstat sample_base t = (if t < 4 then RT_THREAD_SUSPEND else RT_THREAD_INIT)"
  by (simp add: sample_base_def)

lemma sample_base_kinv: "kinv sample_base"
proof -
  have "queues_ok sample_base" by (simp add: queues_ok_def sample_base_def)
  moreover have "bitmap_ok sample_base" by (simp add: bitmap_ok_def sample_base_def)
  moreover have "ready_one sample_base t" for t by (auto simp: ready_one_def sample_base_def)
  moreover have "types_ok sample_base" unfolding types_ok_def sample_base_stat
    by (auto simp: sample_base_def sample_objects_def sample_types_def is_thread_def rt_object_get_type_def)
  moreover have "timers_ok sample_base" by (simp add: timers_ok_def sample_base_def)
  moreover have "waits_ok sample_base" unfolding waits_ok_def sample_base_stat
    by (simp add: sample_base_def)
  ultimately show ?thesis by (simp add: kinv_def sched_inv_def ready_ok_def)
qed

lemma sample_ready_kinv: "kinv sample_ready"
proof -
  have 1: "kinv (resumed 0 sample_base)"
    by (rule kinv_resumed [OF sample_base_kinv]) (simp add: sample_base_stat)
  have 2: "kinv (resumed 1 (resumed 0 sample_base))"
    by (rule kinv_resumed [OF 1]) (simp add: sample_base_def)
  show ?thesis unfolding sample_ready_def
    by (rule kinv_resumed [OF 2]) (simp add: sample_base_def)
qed

lemma sample_ready_threads:
  "threads sample_ready = (\<lambda>t. if t < 3 then (threads sample_base t)\<lparr>stat := RT_THREAD_READY\<rparr> else threads sample_base t)"
  by (rule ext) (auto simp: sample_ready_def sample_base_def numeral_3_eq_3 less_Suc_eq)

lemma sample_kinv: "kinv sample"
proof -
  have st: "tstat sample_ready 3 = RT_THREAD_SUSPEND" by (simp add: sample_ready_threads sample_base_def)
  have ne: "tlists sample_ready (SemQ 20) = []"
    by (simp add: sample_ready_def sample_base_def resumed_def tlist_remove_def timer_off_def flag_clear_def
        timer_remove_def upd_object_def enqueued_def)
  have on: "on_list sample_ready 3 = None" by (simp add: sample_ready_def sample_base_def)
  have "tlist_set (SemQ 20) 3 [3] sample_ready = Some sample"
    using on by (simp add: tlist_set_def sample_def)
  then show ?thesis by (rule kinv_wait [OF sample_ready_kinv st]) (simp_all add: ne)
qed

lemma sample_threads:
  "threads sample = (\<lambda>t. if t < 3 then (threads sample_base t)\<lparr>stat := RT_THREAD_READY\<rparr> else threads sample_base t)"
  by (simp add: sample_def sample_ready_threads)

lemma sample_stat:
  "tstat sample t = (if t < 3 then RT_THREAD_READY else if t = 3 then RT_THREAD_SUSPEND else RT_THREAD_INIT)"
  by (auto simp: sample_threads sample_base_def)

lemma sample_fields [simp]:
  "cur_thread sample = Some 1" "lock_nest sample = 0" "irq_nest sample = 0" "tick sample = 0xFFFFFFFE"
  "timer_list sample = []" "soft_timer_list sample = []" "timers sample = timers sample_base"
  "sems sample = sems sample_base" "mutexes sample = mutexes sample_base" "events sample = events sample_base"
  "mailboxes sample = mailboxes sample_base" "msgqueues sample = msgqueues sample_base"
  "mempools sample = mempools sample_base" "tlists sample (SemQ 20) = [3]"
  by (simp_all add: sample_def sample_ready_def sample_base_def)

lemma sample_ipc_lists:
  "ipc_head h \<Longrightarrow> tlists sample h = (if h = SemQ 20 then [3] else [])"
  by (auto simp: sample_def sample_ready_def sample_base_def resumed_def tlist_remove_def timer_off_def
      flag_clear_def timer_remove_def upd_object_def enqueued_def ipc_head_def)

lemma sample_types_ok: "obj_type (objects sample x) = obj_type (sample_objects x)"
  by (simp add: sample_def sample_ready_def sample_base_def)

lemma sample_flags: "obj_flag (objects sample (Obj a)) = obj_flag (sample_objects (Obj a))"
  by (simp add: sample_def sample_ready_def sample_base_def)

lemma sample_class [simp]:
  "obj_class 20 sample = RT_Object_Class_Semaphore" "obj_class 26 sample = RT_Object_Class_Semaphore"
  "obj_class 21 sample = RT_Object_Class_Mutex" "obj_class 22 sample = RT_Object_Class_Event"
  "obj_class 23 sample = RT_Object_Class_MailBox" "obj_class 24 sample = RT_Object_Class_MessageQueue"
  "obj_class 25 sample = RT_Object_Class_MemPool" "obj_class 30 sample = RT_Object_Class_Timer"
  by (simp_all add: obj_class_def rt_object_get_type_def sample_types_ok sample_objects_def sample_types_def)

lemma sample_ipc_flag [simp]: "ipc_flag a sample = (if a = 21 then 1 else 0)"
  by (simp add: ipc_flag_def sample_flags sample_objects_def)

lemma sample_inv: "sys_inv sample"
  by (simp add: sys_inv_def sample_kinv started_def sample_stat)

lemma sample_live: "live sample"
  unfolding live_def
proof (intro conjI allI impI)
  show "\<exists>t. tstat sample t = RT_THREAD_READY" by (rule exI [of _ 0]) (simp add: sample_stat)
  fix t assume "tstat sample t = RT_THREAD_READY \<or> tstat sample t = RT_THREAD_SUSPEND"
  then have "t < 4" by (simp add: sample_stat split: if_splits)
  then show "stack_ok (threads sample t)" by (auto simp: sample_threads sample_base_def)
qed simp

lemma sample_can_block: "can_block 1 sample"
  unfolding can_block_def
  by (simp add: sample_kinv sample_live sample_stat) (rule exI [of _ 0], simp)

text \<open>The same kernel with the timer of the waiting thread running, five ticks later.\<close>

definition sample_armed :: kernel where
  "sample_armed = (armed (TTimer 3) (upd_timer (TTimer 3) (\<lambda>tm. tm\<lparr>tm_init_tick := 5\<rparr>) sample))\<lparr>tick := 3\<rparr>"

lemma sample_armed_kinv: "kinv sample_armed"
proof -
  have "kinv (armed (TTimer 3) (upd_timer (TTimer 3) (\<lambda>tm. tm\<lparr>tm_init_tick := 5\<rparr>) sample))"
    by (rule kinv_armed) (simp_all add: kinv_upd_timer sample_kinv sample_stat)
  then show ?thesis unfolding sample_armed_def by (subst kinv_cong) simp_all
qed

lemma sample_armed_live: "live sample_armed"
  by (rule live_cong [OF _ _ sample_live]) (simp_all add: sample_armed_def)

lemma sample_armed_timers:
  "timer_list sample_armed = [TTimer 3]" "tick sample_armed = 3"
  "tm_timeout_tick (timers sample_armed (TTimer 3)) = 3"
  by (simp_all add: sample_armed_def sample_base_def)

end
