(* ===== verification/Sem_Correct.thy ===== *)
theory Sem_Correct
  imports Sample_Kernel
begin

unbundle bit_operations_syntax

text \<open>
  What the waiting lists and the semaphores promise: the order of the waiters, the effect
  of every branch of take and release, and how a wait can end.
\<close>

subsection \<open>Waking on a live kernel\<close>

lemma live_resumed:
  assumes "live s" "tstat s t = RT_THREAD_SUSPEND"
  shows "live (resumed t s)"
  using assms unfolding live_def by auto

lemma live_upd_thread:
  assumes "live s" and "stat (f (threads s t)) = stat (threads s t)" "stack_ok (f (threads s t)) = stack_ok (threads s t)"
  shows "live (upd_thread t f s)"
  using assms unfolding live_def by (auto split: if_splits)

lemma live_upd_error: "live s \<Longrightarrow> live (upd_thread t (\<lambda>th. th\<lparr>th_error := e\<rparr>) s)"
  unfolding live_def by auto

lemma kinv_upd_error: "kinv s \<Longrightarrow> kinv (upd_thread t (\<lambda>th. th\<lparr>th_error := e\<rparr>) s)"
  by (rule kinv_upd_thread) simp_all

lemma live_woken:
  assumes "live s" "tstat s t = RT_THREAD_SUSPEND"
  shows "live (woken t s)"
  unfolding woken_def by (rule live_resumed) (use assms in \<open>auto intro: live_upd_error\<close>)

lemma live_all_woken:
  "\<lbrakk>kinv s; ipc_head h; live s; tlists s h = ts\<rbrakk> \<Longrightarrow> live (all_woken ts s)"
proof (induction ts arbitrary: s)
  case (Cons t ts)
  have "tstat s t = RT_THREAD_SUSPEND" using ipc_waiter [OF Cons.prems(1,2)] Cons.prems(4) by simp
  then have "live (woken t s)" by (rule live_woken [OF Cons.prems(3)])
  then show ?case
    using Cons.IH [of "woken t s"] woken_facts [OF Cons.prems(1,2,4)] Cons.prems(2) by (simp add: all_woken_def)
qed (simp add: all_woken_def)

text \<open>Who runs after a switch: the top thread, or the caller while the scheduler is locked.\<close>

definition switched :: "kernel \<Rightarrow> kernel \<Rightarrow> bool" where
  "switched s s' = (\<exists>u. cur_thread s' = Some u \<and>
     (if lock_nest s = 0 then top_ready s' u else cur_thread s = Some u))"

lemma top_ready_cong:
  "threads s' = threads s \<Longrightarrow> tlists s' = tlists s \<Longrightarrow> top_ready s' u = top_ready s u"
  by (simp add: top_ready_def)

lemma schedule_switched:
  assumes K: "kinv s" and L: "live s"
  shows "\<exists>s'. rt_schedule s = Some s' \<and> kinv s' \<and> live s' \<and> switched s s'"
proof -
  obtain s' where s': "rt_schedule s = Some s'" "kinv s'" "live s'" using schedule_total [OF K L] by blast
  note f = rt_schedule_fields [OF s'(1)]
  show ?thesis
  proof (cases "lock_nest s = 0")
    case True
    then obtain t where "cur_thread s' = Some t" "top_ready s t"
      using schedule_top [OF kinvD(1) [OF K] L True] s'(1) by auto
    then show ?thesis using s' True top_ready_cong [OF f(1,2)] by (auto simp: switched_def)
  next
    case False
    then have "s' = s" using s'(1) rt_schedule_locked by simp
    then show ?thesis using s' L False by (auto simp: switched_def live_def)
  qed
qed

subsection \<open>Threads that are ready\<close>

text \<open>
  A thread that takes part in the scheduling: its status is READY, it is in the ready queue
  of its priority, and its timer does not run.
\<close>

definition runnable :: "nat \<Rightarrow> kernel \<Rightarrow> bool" where
  "runnable t s = (tstat s t = RT_THREAD_READY \<and> t \<in> set (tlists s (ReadyQ (prio s t))) \<and>
     TTimer t \<notin> set (timer_list s) \<union> set (soft_timer_list s))"

lemma runnableI: "\<lbrakk>kinv s; tstat s t = RT_THREAD_READY\<rbrakk> \<Longrightarrow> runnable t s"
  using ready_member [OF kinvD(1)] kinvD(3) [of s] by (auto simp: runnable_def timers_ok_def)

subsection \<open>Callers that may wait\<close>

text \<open>
  The running thread, outside of interrupts. When the scheduler is not locked another thread is
  ready (the idle thread always is). With the scheduler locked, \<^verbatim>\<open>rt_schedule\<close> does nothing
  and the caller goes on with the status SUSPEND.
\<close>

definition may_wait :: "nat \<Rightarrow> kernel \<Rightarrow> bool" where
  "may_wait t s = (kinv s \<and> live s \<and> cur_thread s = Some t \<and> irq_nest s = 0 \<and> tstat s t = RT_THREAD_READY \<and>
     (lock_nest s = 0 \<longrightarrow> (\<exists>u. u \<noteq> t \<and> tstat s u = RT_THREAD_READY)))"

lemma may_waitD:
  assumes "may_wait t s"
  shows "kinv s" "live s" "cur_thread s = Some t" "irq_nest s = 0" "tstat s t = RT_THREAD_READY"
    "lock_nest s = 0 \<Longrightarrow> can_block t s"
  using assms by (auto simp: may_wait_def can_block_def)

lemma can_block_may_wait: "can_block t s \<Longrightarrow> may_wait t s"
  by (simp add: may_wait_def can_block_def)

lemma may_wait_error: "may_wait t s \<Longrightarrow> may_wait t (upd_thread t (\<lambda>th. th\<lparr>th_error := e\<rparr>) s)"
  unfolding may_wait_def using kinv_upd_error live_upd_error by auto

text \<open>A call that waits with the scheduler locked.\<close>

definition stuck_on :: "lhead \<Rightarrow> nat \<Rightarrow> u8 \<Rightarrow> u32 \<Rightarrow> kernel \<Rightarrow> kernel \<Rightarrow> bool" where
  "stuck_on h t flag time s s' = (kinv s' \<and> cur_thread s' = Some t \<and> tstat s' t = RT_THREAD_SUSPEND \<and>
     th_error (threads s' t) = RT_EOK \<and> tlists s' h = wait_order flag s t (tlists s h) \<and>
     (TTimer t \<in> set (timer_list s') \<longleftrightarrow> 0 < sint time))"

lemma locked_wait:
  assumes W: "may_wait t s" and l: "lock_nest s \<noteq> 0" and h: "ipc_head h" and fl: "flag = 0 \<or> flag = 1"
    and tm: "time \<noteq> HALF_TICK"
  defines "b \<equiv> blocked_on h t flag time s"
  shows "ipc_wait h t flag time (upd_thread t (\<lambda>th. th\<lparr>th_error := RT_EOK\<rparr>) s) = Some b"
    and "rt_schedule b = Some b" and "stuck_on h t flag time s b"
proof -
  let ?e = "upd_thread t (\<lambda>th. th\<lparr>th_error := RT_EOK\<rparr>) s"
  have K: "kinv ?e" and st: "tstat ?e t = RT_THREAD_READY"
    using may_waitD [OF W] kinv_upd_error by simp_all
  show "ipc_wait h t flag time ?e = Some b"
    using ipc_wait_eq [OF K st h fl tm] by (simp add: b_def blocked_on_def)
  show "rt_schedule b = Some b" by (rule rt_schedule_locked) (use l in \<open>simp add: b_def blocked_on_def\<close>)
  have "kinv b" unfolding b_def blocked_on_def by (rule kinv_waiting [OF K st h])
  moreover have "cur_thread b = Some t" using may_waitD(3) [OF W] by (simp add: b_def blocked_on_def)
  moreover have "tlists b h = wait_order flag s t (tlists s h)"
    using queued_list [OF K st h, of h] h by (simp add: b_def blocked_on_def wait_order_error)
  moreover have "TTimer t \<in> set (timer_list b) \<longleftrightarrow> 0 < sint time"
    unfolding b_def blocked_on_def by (rule waiting_timer(1))
  ultimately show "stuck_on h t flag time s b" by (simp add: stuck_on_def b_def)
qed

text \<open>The timer refuses \<open>0x7FFFFFFF\<close> ticks: an assertion of \<^verbatim>\<open>rt_timer_start\<close> fails.\<close>

lemma half_tick_stops:
  assumes K: "kinv s" and st: "tstat s t = RT_THREAD_READY" and h: "ipc_head h" and fl: "flag = 0 \<or> flag = 1"
  shows "ipc_wait h t flag HALF_TICK s = None"
proof -
  have kept: "timers (flag_clear x (timer_remove x u)) = timers u" for x u
    by (simp add: flag_clear_def timer_remove_def upd_object_def)
  have "rt_timer_start (TTimer t) (upd_timer (TTimer t) (\<lambda>tm. tm\<lparr>tm_init_tick := HALF_TICK\<rparr>) (queued h t flag s)) = None"
    by (simp add: rt_timer_start_def Let_def rt_assert_def kept)
  moreover have "0 < sint HALF_TICK" by simp
  ultimately show ?thesis
    using rt_ipc_list_suspend_eq [OF K st fl, of h] kinv_thread(2) [OF kinv_queued [OF K st h]] st
    by (simp add: ipc_wait_def start_thread_timer_def rt_timer_control_def)
qed

subsection \<open>Semaphores\<close>

text \<open>C8: \<^verbatim>\<open>rt_sem_release\<close> never fails on a running kernel. With waiters it hands the semaphore to
  the first of them: that thread leaves the list, becomes ready without an error, its timer is
  stopped and the value does not change; without waiters the value grows by one (modulo
  \<open>2^16\<close>) and no thread changes.\<close>

theorem sem_release_effect:
  assumes K: "kinv s" "live s" and ty: "obj_class a s = RT_Object_Class_Semaphore"
  shows "\<exists>s'. rt_sem_release a s = Some (RT_EOK, s') \<and> kinv s' \<and> live s' \<and>
     (case tlists s (SemQ a) of
        [] \<Rightarrow> sem_value (sems s' a) = sem_value (sems s a) + 1 \<and> threads s' = threads s \<and> cur_thread s' = cur_thread s
      | t # ts \<Rightarrow> sems s' = sems s \<and> tlists s' (SemQ a) = ts \<and> switched s s' \<and>
          TTimer t \<notin> set (timer_list s') \<and> threads s' = (threads s)(t := (threads s t)\<lparr>stat :=
            RT_THREAD_READY OR (stat (threads s t) AND NOT RT_THREAD_STAT_MASK)\<rparr>))"
proof (cases "tlists s (SemQ a)")
  case Nil
  then show ?thesis
    using assms live_cong [of "upd_sem a (\<lambda>v. v + 1) s" s] by (auto simp: rt_sem_release_def live_def)
next
  case (Cons t ts)
  note w = rt_ipc_list_resume_eq [OF K(1) _ Cons, simplified]
  obtain s' where s': "rt_schedule (resumed t s) = Some s'" "kinv s'" "live s'" "switched (resumed t s) s'"
    using schedule_switched [OF w(2) live_resumed [OF K(2) w(4)]] by blast
  note f = rt_schedule_fields [OF s'(1)]
  have "switched s s'" using s'(4) by (simp add: switched_def cong: if_cong)
  moreover have "rt_sem_release a s = Some (RT_EOK, s')"
    using ty Cons w(1) s'(1) by (simp add: rt_sem_release_def)
  ultimately show ?thesis using s' f Cons w(3) by simp
qed

theorem sem_release_effect_witness:
  "\<exists>s'. rt_sem_release 20 sample = Some (RT_EOK, s') \<and> kinv s' \<and> live s' \<and>
     (case tlists sample (SemQ 20) of
        [] \<Rightarrow> sem_value (sems s' 20) = sem_value (sems sample 20) + 1 \<and> threads s' = threads sample \<and>
          cur_thread s' = cur_thread sample
      | t # ts \<Rightarrow> sems s' = sems sample \<and> tlists s' (SemQ 20) = ts \<and> switched sample s' \<and>
          TTimer t \<notin> set (timer_list s') \<and> threads s' = (threads sample)(t := (threads sample t)\<lparr>stat :=
            RT_THREAD_READY OR (stat (threads sample t) AND NOT RT_THREAD_STAT_MASK)\<rparr>))"
  by (rule sem_release_effect) (simp_all add: sample_kinv sample_live)

text \<open>C7: \<^verbatim>\<open>rt_sem_take\<close>, called by the running thread outside of interrupts, on a semaphore whose flag is FIFO or
  PRIO. A positive value is taken at once; with no value and no time to wait it returns \<^verbatim>\<open>-RT_ETIMEOUT\<close> and changes
  nothing; a wait of exactly \<open>0x7FFFFFFF\<close> ticks fails an assertion. Otherwise the caller is suspended, queued in the
  order of the semaphore's flag, and its timer runs exactly when the time is finite. With the scheduler unlocked (and
  another thread ready) the best ready thread takes the processor; with the scheduler locked the call returns
  \<^verbatim>\<open>RT_EOK\<close> at once although it has taken nothing, and its caller runs on with the status SUSPEND.\<close>

theorem sem_take_effect:
  assumes W: "may_wait t s" and ty: "obj_class a s = RT_Object_Class_Semaphore"
    and fl: "ipc_flag a s = RT_IPC_FLAG_FIFO \<or> ipc_flag a s = RT_IPC_FLAG_PRIO"
  shows "if 0 < sem_value (sems s a) then rt_sem_take a time s = Some (Ret RT_EOK, upd_sem a (\<lambda>v. v - 1) s)
     else if time = 0 then rt_sem_take a time s = Some (Ret (- RT_ETIMEOUT), s)
     else if time = HALF_TICK then rt_sem_take a time s = None
     else if lock_nest s \<noteq> 0 then \<exists>s'. rt_sem_take a time s = Some (Ret RT_EOK, s') \<and> sems s' = sems s \<and>
       stuck_on (SemQ a) t (ipc_flag a s) time s s'
     else \<exists>s' u. rt_sem_take a time s = Some (Blocked, s') \<and> kinv s' \<and> sems s' = sems s \<and>
       tstat s' t = RT_THREAD_SUSPEND \<and> th_error (threads s' t) = RT_EOK \<and>
       tlists s' (SemQ a) = wait_order (ipc_flag a s) s t (tlists s (SemQ a)) \<and>
       (TTimer t \<in> set (timer_list s') \<longleftrightarrow> 0 < sint time) \<and>
       cur_thread s' = Some u \<and> u \<noteq> t \<and> top_ready s' u"
proof -
  let ?e = "upd_thread t (\<lambda>th. th\<lparr>th_error := RT_EOK\<rparr>) s" and ?b = "blocked_on (SemQ a) t (ipc_flag a s) time s"
  have wait: "rt_sem_take a time s = do {
      s \<leftarrow> ipc_wait (SemQ a) t (ipc_flag a s) time ?e;
      s \<leftarrow> rt_schedule s;
      Some (if cur_thread s = Some t then rt_sem_take_wake t s else Blocked, s) }"
    if "sem_value (sems s a) = 0" "time \<noteq> 0"
    using that ty may_waitD [OF W] by (simp add: rt_sem_take_def in_thread_context_def ipc_flag_def)
  consider "0 < sem_value (sems s a) \<or> time = 0" | "sem_value (sems s a) = 0" "time \<noteq> 0" "time = HALF_TICK"
    | "sem_value (sems s a) = 0" "time \<noteq> 0" "time \<noteq> HALF_TICK" "lock_nest s \<noteq> 0"
    | "sem_value (sems s a) = 0" "time \<noteq> 0" "time \<noteq> HALF_TICK" "lock_nest s = 0"
    by (auto simp: word_gt_0)
  then show ?thesis
  proof cases
    case 1
    then show ?thesis using ty by (auto simp: rt_sem_take_def)
  next
    case 2
    have "ipc_wait (SemQ a) t (ipc_flag a s) HALF_TICK ?e = None"
      by (rule half_tick_stops) (use may_waitD [OF W] kinv_upd_error fl in simp_all)
    then show ?thesis using 2 wait by simp
  next
    case 3
    note l = locked_wait [OF W 3(4) _ fl 3(3), of "SemQ a"]
    have "rt_sem_take a time s = Some (Ret RT_EOK, ?b)"
      using wait [OF 3(1,2)] l may_waitD(3) [OF W] by (simp add: rt_sem_take_wake_def stuck_on_def)
    then show ?thesis using 3 l(3) by simp
  next
    case 4
    note C = may_waitD(6) [OF W 4(4)]
    obtain s' u where s': "ipc_wait (SemQ a) t (ipc_flag a s) time ?e = Some ?b"
      "kinv ?b" "rt_schedule ?b = Some s'" "cur_thread s' = Some u" "u \<noteq> t" "top_ready ?b u"
      using block_switches [OF C _ fl 4(3), of "SemQ a"] by auto
    note f = rt_schedule_fields [OF s'(3)]
    have "kinv s'" using rt_schedule_kinv [OF s'(3)] s'(2) by simp
    moreover have "top_ready s' u" using top_ready_cong [OF f(1,2)] s'(6) by simp
    moreover have "TTimer t \<in> set (timer_list s') \<longleftrightarrow> 0 < sint time"
      unfolding f(8) blocked_on_def by (rule waiting_timer(1))
    ultimately show ?thesis
      using 4 wait s' f blocked_on_list [OF C, of "SemQ a"] by auto
  qed
qed

theorem sem_take_effect_witness:
  "if 0 < sem_value (sems sample 20) then rt_sem_take 20 6 sample = Some (Ret RT_EOK, upd_sem 20 (\<lambda>v. v - 1) sample)
     else if (6 :: u32) = 0 then rt_sem_take 20 6 sample = Some (Ret (- RT_ETIMEOUT), sample)
     else if (6 :: u32) = HALF_TICK then rt_sem_take 20 6 sample = None
     else if lock_nest sample \<noteq> 0 then \<exists>s'. rt_sem_take 20 6 sample = Some (Ret RT_EOK, s') \<and> sems s' = sems sample \<and>
       stuck_on (SemQ 20) 1 (ipc_flag 20 sample) 6 sample s'
     else \<exists>s' u. rt_sem_take 20 6 sample = Some (Blocked, s') \<and> kinv s' \<and> sems s' = sems sample \<and>
       tstat s' 1 = RT_THREAD_SUSPEND \<and> th_error (threads s' 1) = RT_EOK \<and>
       tlists s' (SemQ 20) = wait_order (ipc_flag 20 sample) sample 1 (tlists sample (SemQ 20)) \<and>
       (TTimer 1 \<in> set (timer_list s') \<longleftrightarrow> 0 < sint (6 :: u32)) \<and>
       cur_thread s' = Some u \<and> u \<noteq> 1 \<and> top_ready s' u"
  by (rule sem_take_effect) (simp_all add: can_block_may_wait sample_can_block [simplified])

subsection \<open>The end of a wait\<close>

lemma timeout_fires:
  assumes K: "kinv s" "live s" and st: "tstat s t = RT_THREAD_SUSPEND"
    and off: "TTimer t \<notin> set (timer_list s) \<union> set (soft_timer_list s)"
  shows "\<exists>s'. rt_thread_timeout t s = Some s' \<and> kinv s' \<and> live s' \<and> threads s' = (threads s)(t := fired (threads s t))"
proof -
  obtain s' where s': "rt_schedule (timed_out t s) = Some s'" "kinv s'" "live s'"
    using schedule_total [OF kinv_timed_out [OF K(1) st off] live_timed_out [OF K(2) st]] by blast
  then show ?thesis using rt_thread_timeout_eq [OF K(1) st] rt_schedule_fields(1) [OF s'(1)] by simp
qed

lemma sem_reset_wakes:
  assumes K: "kinv s" "live s" and ty: "obj_class a s = RT_Object_Class_Semaphore"
  shows "\<exists>s'. rt_sem_control a RT_IPC_CMD_RESET v s = Some (RT_EOK, s') \<and> kinv s' \<and> live s' \<and>
     sem_value (sems s' a) = ucast v \<and> tlists s' (SemQ a) = [] \<and>
     threads s' = threads (all_woken (tlists s (SemQ a)) s)"
proof -
  let ?w = "all_woken (tlists s (SemQ a)) s" and ?u = "upd_sem a (\<lambda>_. ucast v) (all_woken (tlists s (SemQ a)) s)"
  have w: "rt_ipc_list_resume_all (SemQ a) s = Some ?w" "kinv ?w" "tlists ?w (SemQ a) = []"
    using resume_all_eq [OF K(1), of "SemQ a"] by auto
  have "live ?w" using live_all_woken [OF K(1) _ K(2), of "SemQ a"] by simp
  then have "live ?u" by (simp add: live_def)
  then obtain s' where s': "rt_schedule ?u = Some s'" "kinv s'" "live s'"
    using schedule_total [of ?u] w(2) by auto
  note f = rt_schedule_fields [OF s'(1)]
  have "rt_sem_control a RT_IPC_CMD_RESET v s = Some (RT_EOK, s')"
    using ty w(1) s'(1) by (simp add: rt_sem_control_def)
  then show ?thesis using s' f w(3) by simp
qed

text \<open>C30: How a blocked \<^verbatim>\<open>rt_sem_take\<close> returns, on a running kernel. (Such a call has cleared the
  error of its thread.) A release makes the first waiter ready and the call returns
  \<^verbatim>\<open>RT_EOK\<close> in it; the timer of any waiter makes that waiter ready, takes it off the list, and its call returns
  \<^verbatim>\<open>-RT_ETIMEOUT\<close>; a reset of the semaphore makes all waiters ready and empties the list, and every call returns
  \<^verbatim>\<open>-RT_ERROR\<close>. Ready means: status READY, in the ready queue of its priority, with its timer stopped.\<close>

theorem sem_wait_ends:
  assumes K: "kinv s" "live s" and ty: "obj_class a s = RT_Object_Class_Semaphore"
    and l: "tlists s (SemQ a) = t # ts" and e: "th_error (threads s t) = RT_EOK" and u: "u \<in> set (t # ts)"
  shows "(\<exists>s'. rt_sem_release a s = Some (RT_EOK, s') \<and> runnable t s' \<and> rt_sem_take_wake t s' = Ret RT_EOK \<and>
        tlists s' (SemQ a) = ts) \<and>
     (\<exists>s'. rt_thread_timeout u (timer_remove (TTimer u) s) = Some s' \<and> runnable u s' \<and>
        rt_sem_take_wake u s' = Ret (- RT_ETIMEOUT) \<and> u \<notin> set (tlists s' (SemQ a))) \<and>
     (\<exists>s'. rt_sem_control a RT_IPC_CMD_RESET v s = Some (RT_EOK, s') \<and> tlists s' (SemQ a) = [] \<and>
        (\<forall>w \<in> set (t # ts). runnable w s' \<and> rt_sem_take_wake w s' = Ret (- RT_ERROR)))"
proof (intro conjI)
  have st: "tstat s u = RT_THREAD_SUSPEND" using ipc_waiter [OF K(1), of "SemQ a" u] l u by simp
  note w = rt_ipc_list_resume_eq [OF K(1) _ l, simplified]
  obtain s1 where s1: "rt_schedule (resumed t s) = Some s1" "kinv s1"
    using schedule_total [OF w(2) live_resumed [OF K(2) w(4)]] by blast
  note f1 = rt_schedule_fields [OF s1(1)]
  have "rt_sem_release a s = Some (RT_EOK, s1)" using ty l w(1) s1 by (simp add: rt_sem_release_def)
  moreover have "runnable t s1" by (rule runnableI [OF s1(2)]) (simp add: f1)
  ultimately show "\<exists>s'. rt_sem_release a s = Some (RT_EOK, s') \<and> runnable t s' \<and> rt_sem_take_wake t s' = Ret RT_EOK \<and>
      tlists s' (SemQ a) = ts"
    using f1 w(3) e by (simp add: rt_sem_take_wake_def)
  have K': "kinv (timer_remove (TTimer u) s)" "live (timer_remove (TTimer u) s)"
    using kinv_timer_remove [OF K(1)] live_cong [OF _ _ K(2), of "timer_remove (TTimer u) s"] K(2) by (auto simp: live_def)
  obtain s2 where s2: "rt_thread_timeout u (timer_remove (TTimer u) s) = Some s2" "kinv s2"
    "threads s2 = (threads s)(u := fired (threads s u))"
    using timeout_fires [OF K', of u] st by auto
  have "u \<notin> set (tlists s2 (SemQ a))"
    using ipc_waiter [OF s2(2), of "SemQ a" u] s2(3) by auto
  moreover have "runnable u s2" by (rule runnableI [OF s2(2)]) (simp add: s2(3))
  ultimately show "\<exists>s'. rt_thread_timeout u (timer_remove (TTimer u) s) = Some s' \<and> runnable u s' \<and>
      rt_sem_take_wake u s' = Ret (- RT_ETIMEOUT) \<and> u \<notin> set (tlists s' (SemQ a))"
    using s2 by (simp add: rt_sem_take_wake_def)
  have d: "distinct (t # ts)" using queues_okD(1) [OF kinvD(5) [OF K(1)], of "SemQ a"] l by simp
  obtain s3 where s3: "rt_sem_control a RT_IPC_CMD_RESET v s = Some (RT_EOK, s3)" "kinv s3" "tlists s3 (SemQ a) = []"
    "threads s3 = threads (all_woken (t # ts) s)"
    using sem_reset_wakes [OF K ty, of v] l by auto
  have "runnable w s3 \<and> rt_sem_take_wake w s3 = Ret (- RT_ERROR)" if "w \<in> set (t # ts)" for w
    using that by (intro conjI runnableI [OF s3(2)]) (simp_all add: s3(4) all_woken_threads [OF d] rt_sem_take_wake_def)
  then show "\<exists>s'. rt_sem_control a RT_IPC_CMD_RESET v s = Some (RT_EOK, s') \<and> tlists s' (SemQ a) = [] \<and>
      (\<forall>w \<in> set (t # ts). runnable w s' \<and> rt_sem_take_wake w s' = Ret (- RT_ERROR))"
    using s3 by blast
qed

theorem sem_wait_ends_witness:
  "(\<exists>s'. rt_sem_release 20 sample = Some (RT_EOK, s') \<and> runnable 3 s' \<and> rt_sem_take_wake 3 s' = Ret RT_EOK \<and>
        tlists s' (SemQ 20) = []) \<and>
     (\<exists>s'. rt_thread_timeout 3 (timer_remove (TTimer 3) sample) = Some s' \<and> runnable 3 s' \<and>
        rt_sem_take_wake 3 s' = Ret (- RT_ETIMEOUT) \<and> 3 \<notin> set (tlists s' (SemQ 20))) \<and>
     (\<exists>s'. rt_sem_control 20 RT_IPC_CMD_RESET 4 sample = Some (RT_EOK, s') \<and> tlists s' (SemQ 20) = [] \<and>
        (\<forall>w \<in> set [3]. runnable w s' \<and> rt_sem_take_wake w s' = Ret (- RT_ERROR)))"
  by (rule sem_wait_ends) (simp_all add: sample_kinv sample_live sample_threads sample_base_def)

subsection \<open>Waiting lists\<close>

lemma prio_insert_split:
  "\<exists>us vs. xs = us @ vs \<and> prio_insert pr t xs = us @ t # vs \<and> (\<forall>u \<in> set us. pr u \<le> pr t) \<and>
     (vs \<noteq> [] \<longrightarrow> pr t < pr (hd vs))"
proof (induction xs)
  case (Cons x xs)
  show ?case
  proof (cases "pr t < pr x")
    case True
    then show ?thesis by (intro exI [of _ "[]"] exI [of _ "x # xs"]) simp
  next
    case False
    obtain us vs where "xs = us @ vs" "prio_insert pr t xs = us @ t # vs" "\<forall>u \<in> set us. pr u \<le> pr t"
      "vs \<noteq> [] \<longrightarrow> pr t < pr (hd vs)"
      using Cons.IH by blast
    then show ?thesis using False by (intro exI [of _ "x # us"] exI [of _ vs]) simp
  qed
qed simp

lemma prio_insert_filter:
  assumes "sorted (map pr us)"
  shows "filter (\<lambda>u. pr u = p) (prio_insert pr t us) = filter (\<lambda>u. pr u = p) (us @ [t])"
  using assms
proof (induction us)
  case (Cons u us)
  have "filter (\<lambda>u. pr u = pr t) us = []" if "pr t < pr u"
    using that Cons.prems by (auto simp: filter_empty_conv)
  then show ?case using Cons by auto
qed simp

text \<open>The current priority of a thread, as the lists compare it.\<close>

abbreviation rank :: "kernel \<Rightarrow> nat \<Rightarrow> u8" where
  "rank s u \<equiv> current_priority (threads s u)"

text \<open>C27: A ready thread that starts to wait is put behind all waiters in a FIFO list, and in a priority list in front of
  the first waiter of a worse priority, behind those of its own or a better one; the waiters in front and behind keep
  their order. A list sorted by priority stays sorted, and then the waiters of each priority stand in the order of their
  arrival. With both flags no other waiting list changes, the thread is suspended and the kernel invariant holds.\<close>

theorem wait_list_order:
  assumes K: "kinv s" and st: "tstat s t = RT_THREAD_READY" and h: "ipc_head h"
  shows "(\<exists>s'. rt_ipc_list_suspend h t RT_IPC_FLAG_FIFO s = Some s' \<and> kinv s' \<and> tstat s' t = RT_THREAD_SUSPEND \<and>
       tlists s' h = tlists s h @ [t] \<and> (\<forall>k. ipc_head k \<and> k \<noteq> h \<longrightarrow> tlists s' k = tlists s k)) \<and>
     (\<exists>s' us vs. rt_ipc_list_suspend h t RT_IPC_FLAG_PRIO s = Some s' \<and> kinv s' \<and> tstat s' t = RT_THREAD_SUSPEND \<and>
       tlists s h = us @ vs \<and> tlists s' h = us @ t # vs \<and>
       (\<forall>u \<in> set us. rank s u \<le> rank s t) \<and> (vs \<noteq> [] \<longrightarrow> rank s t < rank s (hd vs)) \<and>
       (\<forall>k. ipc_head k \<and> k \<noteq> h \<longrightarrow> tlists s' k = tlists s k) \<and>
       (sorted (map (rank s) (tlists s h)) \<longrightarrow> sorted (map (rank s) (tlists s' h)) \<and>
         (\<forall>p. filter (\<lambda>u. rank s u = p) (tlists s' h) = filter (\<lambda>u. rank s u = p) (tlists s h @ [t]))))"
    (is "?F \<and> ?P")
proof
  note q = rt_ipc_list_suspend_eq [OF K st, of _ h] kinv_queued [OF K st h] queued_list [OF K st h]
  have o: "tlists (queued h t flag s) k = tlists s k" if "ipc_head k" "k \<noteq> h" for k flag
    using q(3) [OF that(1)] that(2) by simp
  show ?F
    by (rule exI [of _ "queued h t RT_IPC_FLAG_FIFO s"]) (use q(1) [of 0] q(2) q(3) [OF h] o in \<open>simp add: wait_order_def\<close>)
  have w: "wait_order RT_IPC_FLAG_PRIO s t (tlists s h) = prio_insert (rank s) t (tlists s h)"
    by (simp add: wait_order_def)
  obtain us vs where s: "tlists s h = us @ vs" "prio_insert (rank s) t (tlists s h) = us @ t # vs"
    "\<forall>u \<in> set us. rank s u \<le> rank s t" "vs \<noteq> [] \<longrightarrow> rank s t < rank s (hd vs)"
    using prio_insert_split [of "tlists s h" "rank s" t] by blast
  have l: "tlists (queued h t RT_IPC_FLAG_PRIO s) h = prio_insert (rank s) t (tlists s h)"
    using q(3) [OF h] w by simp
  have "sorted (map (rank s) (tlists s h)) \<longrightarrow> sorted (map (rank s) (tlists (queued h t RT_IPC_FLAG_PRIO s) h)) \<and>
      (\<forall>p. filter (\<lambda>u. rank s u = p) (tlists (queued h t RT_IPC_FLAG_PRIO s) h) = filter (\<lambda>u. rank s u = p) (tlists s h @ [t]))"
    unfolding l using prio_insert_sorted [of "rank s"] prio_insert_filter [of "rank s"] by blast
  then show ?P
    by (intro exI [of _ "queued h t RT_IPC_FLAG_PRIO s"] exI [of _ us] exI [of _ vs])
      (use q(1) [of 1] q(2) o s l in simp)
qed

theorem wait_list_order_witness:
  "(\<exists>s'. rt_ipc_list_suspend (SemQ 20) 1 RT_IPC_FLAG_FIFO sample = Some s' \<and> kinv s' \<and> tstat s' 1 = RT_THREAD_SUSPEND \<and>
       tlists s' (SemQ 20) = tlists sample (SemQ 20) @ [1] \<and>
       (\<forall>k. ipc_head k \<and> k \<noteq> SemQ 20 \<longrightarrow> tlists s' k = tlists sample k)) \<and>
     (\<exists>s' us vs. rt_ipc_list_suspend (SemQ 20) 1 RT_IPC_FLAG_PRIO sample = Some s' \<and> kinv s' \<and> tstat s' 1 = RT_THREAD_SUSPEND \<and>
       tlists sample (SemQ 20) = us @ vs \<and> tlists s' (SemQ 20) = us @ 1 # vs \<and>
       (\<forall>u \<in> set us. rank sample u \<le> rank sample 1) \<and> (vs \<noteq> [] \<longrightarrow> rank sample 1 < rank sample (hd vs)) \<and>
       (\<forall>k. ipc_head k \<and> k \<noteq> SemQ 20 \<longrightarrow> tlists s' k = tlists sample k) \<and>
       (sorted (map (rank sample) (tlists sample (SemQ 20))) \<longrightarrow> sorted (map (rank sample) (tlists s' (SemQ 20))) \<and>
         (\<forall>p. filter (\<lambda>u. rank sample u = p) (tlists s' (SemQ 20)) =
           filter (\<lambda>u. rank sample u = p) (tlists sample (SemQ 20) @ [1]))))"
  by (rule wait_list_order) (simp_all add: sample_kinv sample_stat)

text \<open>Deleting, detaching or resetting an object wakes its waiters with a loop that ends: the
  list is empty after it, and every thread that was on it is ready with the error
  \<^verbatim>\<open>RT_ERROR\<close>; no other thread changes.\<close>

theorem resume_all_wakes:
  assumes K: "kinv s" and h: "ipc_head h"
  shows "\<exists>s'. rt_ipc_list_resume_all h s = Some s' \<and> kinv s' \<and> tlists s' h = [] \<and>
     (\<forall>t. threads s' t = (if t \<in> set (tlists s h) then (threads s t)\<lparr>th_error := RT_ERROR,
        stat := RT_THREAD_READY OR (stat (threads s t) AND NOT RT_THREAD_STAT_MASK)\<rparr> else threads s t)) \<and>
     (\<forall>t \<in> set (tlists s h). on_list s' t = Some (ReadyQ (prio s t)))"
proof -
  let ?w = "all_woken (tlists s h) s"
  have w: "rt_ipc_list_resume_all h s = Some ?w" "kinv ?w" "tlists ?w h = []"
    using resume_all_eq [OF K h] by auto
  have th: "threads ?w t = (if t \<in> set (tlists s h) then (threads s t)\<lparr>th_error := RT_ERROR,
        stat := RT_THREAD_READY OR (stat (threads s t) AND NOT RT_THREAD_STAT_MASK)\<rparr> else threads s t)" for t
    using all_woken_threads [OF queues_okD(1) [OF kinvD(5) [OF K]], of h s t] .
  have "on_list ?w t = Some (ReadyQ (prio s t))" if "t \<in> set (tlists s h)" for t
    using ready_okD(1) [OF kinvD(7) [OF w(2)], of t "prio s t"] th [of t] that by simp
  then show ?thesis using w th by blast
qed

theorem resume_all_wakes_witness:
  "\<exists>s'. rt_ipc_list_resume_all (SemQ 20) sample = Some s' \<and> kinv s' \<and> tlists s' (SemQ 20) = [] \<and>
     (\<forall>t. threads s' t = (if t \<in> set (tlists sample (SemQ 20)) then (threads sample t)\<lparr>th_error := RT_ERROR,
        stat := RT_THREAD_READY OR (stat (threads sample t) AND NOT RT_THREAD_STAT_MASK)\<rparr> else threads sample t)) \<and>
     (\<forall>t \<in> set (tlists sample (SemQ 20)). on_list s' t = Some (ReadyQ (prio sample t)))"
  by (rule resume_all_wakes) (simp_all add: sample_kinv)

end
