(* ===== verification/Mutex_Correct.thy ===== *)
theory Mutex_Correct
  imports Sem_Correct
begin

unbundle bit_operations_syntax

text \<open>
  What the mutexes promise: ownership, recursion, priority inheritance and the hand-over
  to the first waiter.
\<close>

subsection \<open>Changing the priority of a thread\<close>

lemma ready_stat_id: "(x :: u8) AND 7 = 1 \<Longrightarrow> 1 OR (x AND NOT 7) = x"
proof -
  assume a: "x AND 7 = 1"
  have "(x AND 7) OR (x AND NOT 7) = x" by (rule bit_word_eqI) (auto simp: bit_simps)
  then show ?thesis using a by simp
qed

lemma set_priority_frame [simp]:
  "stat (set_priority p th) = stat th" "th_error (set_priority p th) = th_error th"
  "stack_ok (set_priority p th) = stack_ok th" "current_priority (set_priority p th) = p"
  by (simp_all add: set_priority_def stack_ok_def stack_check_def)

lemma change_priority_eq:
  assumes K: "kinv s" and th: "is_thread t s"
  shows "\<exists>s'. rt_thread_change_priority t p s = Some s' \<and> kinv s' \<and>
     threads s' = (threads s)(t := set_priority p (threads s t)) \<and>
     (\<forall>h. ipc_head h \<longrightarrow> tlists s' h = tlists s h) \<and> mutexes s' = mutexes s \<and> objects s' = objects s \<and>
     cur_thread s' = cur_thread s \<and> lock_nest s' = lock_nest s \<and> irq_nest s' = irq_nest s \<and>
     timer_list s' = timer_list s"
proof -
  obtain s' where s': "rt_thread_change_priority t p s = Some s'" "kinv s'"
    using kinv_change_priority [OF K th] by blast
  show ?thesis
  proof (cases "tstat s t = RT_THREAD_READY")
    case True
    let ?u = "upd_thread t (set_priority p) (rt_schedule_remove_thread t s)"
    have e: "s' = enqueued t ?u"
      using s'(1) th True insert_thread_enqueued [of ?u t]
      by (simp add: rt_thread_change_priority_def Let_def kframe)
    have "threads s' = (threads s)(t := set_priority p (threads s t))"
      using ready_stat_id [of "stat (threads s t)"] True by (intro ext) (simp add: e kframe)
    moreover have "tlists s' h = tlists s h" if "ipc_head h" for h
      using that not_on_ipc [OF K True that] tlist_remove_lists [OF kinvD(5) [OF K]]
      by (auto simp: e kframe ipc_head_def)
    ultimately show ?thesis using s' by (simp add: e kframe)
  next
    case False
    then have "s' = upd_thread t (set_priority p) s" using s'(1) th by (simp add: rt_thread_change_priority_def)
    then show ?thesis using s' by simp
  qed
qed

subsection \<open>Taking\<close>

text \<open>Priority inheritance: the owner gets the caller's priority when that is better.\<close>

definition inherit :: "nat \<Rightarrow> nat \<Rightarrow> kernel \<Rightarrow> kernel option" where
  "inherit t ow s = (if current_priority (threads s t) < current_priority (threads s ow)
     then rt_thread_change_priority ow (current_priority (threads s t)) s else Some s)"

lemma inherit_eq:
  assumes W: "may_wait t s" and ow: "started s ow" "ow \<noteq> t"
  shows "\<exists>s'. inherit t ow s = Some s' \<and> may_wait t s' \<and> mutexes s' = mutexes s \<and> objects s' = objects s \<and>
     threads s' t = threads s t \<and> lock_nest s' = lock_nest s \<and> (\<forall>h. ipc_head h \<longrightarrow> tlists s' h = tlists s h) \<and>
     current_priority (threads s' ow) = min (current_priority (threads s ow)) (current_priority (threads s t)) \<and>
     (\<forall>u. tstat s' u = tstat s u \<and> (u \<noteq> ow \<longrightarrow> threads s' u = threads s u))"
proof (cases "current_priority (threads s t) < current_priority (threads s ow)")
  case False
  then show ?thesis using W by (auto simp: inherit_def min_def)
next
  case True
  have th: "is_thread ow s" using kinv_thread(1) [OF may_waitD(1) [OF W]] ow(1) by (simp add: started_def)
  obtain s' where s': "rt_thread_change_priority ow (current_priority (threads s t)) s = Some s'" "kinv s'"
    "threads s' = (threads s)(ow := set_priority (current_priority (threads s t)) (threads s ow))"
    "\<forall>h. ipc_head h \<longrightarrow> tlists s' h = tlists s h" "mutexes s' = mutexes s" "objects s' = objects s"
    "cur_thread s' = cur_thread s" "lock_nest s' = lock_nest s" "irq_nest s' = irq_nest s"
    using change_priority_eq [OF may_waitD(1) [OF W] th] by blast
  have "may_wait t s'" using W s' ow(2) by (auto simp: may_wait_def live_def)
  then show ?thesis using s' ow(2) True by (auto simp: inherit_def min_def)
qed

lemma mutex_again_waits:
  assumes "mutex_value (mutexes s a) = 0" and "time \<noteq> 0" and "owner (mutexes s a) = Some ow"
    and "inherit t ow s = Some s1" and "ipc_wait (MutexQ a) t (ipc_flag a s1) time s1 = Some s2"
    and "rt_schedule s2 = Some s3" and "cur_thread s3 \<noteq> Some t"
  shows "mutex_again a t time s = Some (Blocked, s3)"
  using assms by (subst mutex_again.simps) (simp add: inherit_def)

lemma error_ok_id: "th_error (threads s t) = e \<Longrightarrow> upd_thread t (\<lambda>th. th\<lparr>th_error := e\<rparr>) s = s"
  by (auto simp: upd_thread_def)

text \<open>
  Waiting for a mutex: the caller joins the waiters behind an owner who runs no later than it.
  With the scheduler unlocked another thread runs, with the scheduler locked the caller runs on.
\<close>

definition mutex_waits :: "nat \<Rightarrow> nat \<Rightarrow> nat \<Rightarrow> kernel \<Rightarrow> kernel \<Rightarrow> bool" where
  "mutex_waits a t ow s s' = (kinv s' \<and> mutexes s' = mutexes s \<and> tstat s' t = RT_THREAD_SUSPEND \<and>
     set (tlists s' (MutexQ a)) = insert t (set (tlists s (MutexQ a))) \<and>
     current_priority (threads s' ow) = min (current_priority (threads s ow)) (current_priority (threads s t)))"

definition mutex_blocked :: "nat \<Rightarrow> nat \<Rightarrow> nat \<Rightarrow> kernel \<Rightarrow> kernel \<Rightarrow> bool" where
  "mutex_blocked a t ow s s' = (mutex_waits a t ow s s' \<and> (\<exists>u. cur_thread s' = Some u \<and> u \<noteq> t \<and> top_ready s' u))"

lemma mutex_again_blocks:
  assumes W: "may_wait t s" and e: "th_error (threads s t) = RT_EOK"
    and m: "mutex_value (mutexes s a) = 0" "owner (mutexes s a) = Some ow" "started s ow" "ow \<noteq> t"
    and fl: "ipc_flag a s = 0 \<or> ipc_flag a s = 1" and tm: "time \<noteq> 0"
  shows "if time = HALF_TICK then mutex_again a t time s = None
     else if lock_nest s \<noteq> 0 then \<exists>s'. mutex_again a t time s = Some (Ret RT_EOK, s') \<and> mutex_waits a t ow s s' \<and>
       cur_thread s' = Some t
     else \<exists>s'. mutex_again a t time s = Some (Blocked, s') \<and> mutex_blocked a t ow s s'"
proof -
  obtain s1 where s1: "inherit t ow s = Some s1" "may_wait t s1" "mutexes s1 = mutexes s" "objects s1 = objects s"
    "threads s1 t = threads s t" "lock_nest s1 = lock_nest s" "\<forall>h. ipc_head h \<longrightarrow> tlists s1 h = tlists s h"
    "current_priority (threads s1 ow) = min (current_priority (threads s ow)) (current_priority (threads s t))"
    using inherit_eq [OF W m(3,4)] by blast
  have fl1: "ipc_flag a s1 = ipc_flag a s" using s1(4) by (simp add: ipc_flag_def)
  have e1: "upd_thread t (\<lambda>th. th\<lparr>th_error := RT_EOK\<rparr>) s1 = s1" using error_ok_id [of s1 t 0] s1(5) e by simp
  let ?b = "blocked_on (MutexQ a) t (ipc_flag a s) time s1"
  have again: "mutex_again a t time s = do {
      s \<leftarrow> ipc_wait (MutexQ a) t (ipc_flag a s) time s1;
      s \<leftarrow> rt_schedule s;
      if cur_thread s = Some t then
        if th_error (threads s t) = RT_EOK then Some (Ret RT_EOK, s)
        else if th_error (threads s t) = RT_EINTR then mutex_again a t time s
        else Some (Ret (- th_error (threads s t)), s)
      else Some (Blocked, s) }"
    using m(1,2) tm s1(1) fl1 by (subst mutex_again.simps) (simp add: inherit_def)
  have w: "mutex_waits a t ow s s'" if "kinv s'" "threads s' = threads ?b" "mutexes s' = mutexes ?b"
      "tlists s' (MutexQ a) = wait_order (ipc_flag a s) s1 t (tlists s1 (MutexQ a))" for s'
    unfolding mutex_waits_def that(2-4) using that(1) m(4) s1(3,7,8) by (simp add: blocked_on_def wait_order_facts)
  consider "time = HALF_TICK" | "time \<noteq> HALF_TICK" "lock_nest s \<noteq> 0" | "time \<noteq> HALF_TICK" "lock_nest s = 0" by blast
  then show ?thesis
  proof cases
    case 1
    have "ipc_wait (MutexQ a) t (ipc_flag a s) HALF_TICK s1 = None"
      by (rule half_tick_stops [OF may_waitD(1,5) [OF s1(2)] _ fl]) simp
    then show ?thesis using again 1 by simp
  next
    case 2
    have n: "lock_nest s1 \<noteq> 0" using 2(2) s1(6) by simp
    note l = locked_wait [OF s1(2) n _ fl 2(1), of "MutexQ a", simplified e1]
    have "mutex_again a t time s = Some (Ret RT_EOK, ?b)"
      using again l by (simp add: stuck_on_def)
    moreover have "mutex_waits a t ow s ?b" by (rule w) (use l(3) in \<open>simp_all add: stuck_on_def\<close>)
    ultimately show ?thesis using 2 l(3) by (simp add: stuck_on_def)
  next
    case 3
    have C: "can_block t s1" using may_waitD(6) [OF s1(2)] 3(2) s1(6) by simp
    obtain s3 u where v: "ipc_wait (MutexQ a) t (ipc_flag a s) time s1 = Some ?b" "kinv ?b"
      "rt_schedule ?b = Some s3" "cur_thread s3 = Some u" "u \<noteq> t" "top_ready ?b u"
      using block_switches [OF C _ fl 3(1), of "MutexQ a"] e1 by auto
    note f = rt_schedule_fields [OF v(3)]
    have "mutex_again a t time s = Some (Blocked, s3)" using again v by simp
    moreover have "mutex_waits a t ow s s3"
      by (rule w) (use v f rt_schedule_kinv [OF v(3)] blocked_on_list [OF C, of "MutexQ a"] in simp_all)
    ultimately show ?thesis using 3 v top_ready_cong [OF f(1,2)] by (auto simp: mutex_blocked_def)
  qed
qed

text \<open>C6: \<^verbatim>\<open>rt_mutex_take\<close>, called by the running thread outside of interrupts, on a well-formed mutex whose flag is FIFO or PRIO and whose
  owner, if any, is a started thread. A free mutex becomes the caller's, with its priority recorded; the owner may take it again and only
  the hold count grows (modulo \<open>2^8\<close>); another thread that does not want to wait gets \<^verbatim>\<open>-RT_ETIMEOUT\<close> and the mutex does not
  change; a wait of exactly \<open>0x7FFFFFFF\<close> ticks fails an assertion. A thread that waits is suspended on the mutex and the
  owner's priority is raised to at least that of the waiter. With the scheduler unlocked (and another thread ready) the
  best ready thread then runs; with the scheduler locked the call returns \<^verbatim>\<open>RT_EOK\<close> at once although the mutex still
  belongs to its owner.\<close>

theorem mutex_take_effect:
  assumes W: "may_wait t s" and ty: "obj_class a s = RT_Object_Class_Mutex" and ok: "mutex_ok a s"
    and ow: "\<forall>o'. owner (mutexes s a) = Some o' \<longrightarrow> started s o'"
    and fl: "ipc_flag a s = 0 \<or> ipc_flag a s = 1"
  shows "case owner (mutexes s a) of
      None \<Rightarrow> \<exists>s'. rt_mutex_take a time s = Some (Ret RT_EOK, s') \<and>
        mutexes s' a = \<lparr>mutex_value = 0, original_priority = current_priority (threads s t), hold = 1, owner = Some t\<rparr>
    | Some ow \<Rightarrow>
        if ow = t then \<exists>s'. rt_mutex_take a time s = Some (Ret RT_EOK, s') \<and>
          mutexes s' a = (mutexes s a)\<lparr>hold := hold (mutexes s a) + 1\<rparr>
        else if time = 0 then \<exists>s'. rt_mutex_take a time s = Some (Ret (- RT_ETIMEOUT), s') \<and> mutexes s' = mutexes s
        else if time = HALF_TICK then rt_mutex_take a time s = None
        else if lock_nest s \<noteq> 0 then \<exists>s'. rt_mutex_take a time s = Some (Ret RT_EOK, s') \<and> mutex_waits a t ow s s' \<and>
          cur_thread s' = Some t
        else \<exists>s'. rt_mutex_take a time s = Some (Blocked, s') \<and> mutex_blocked a t ow s s'"
proof -
  let ?s = "upd_thread t (\<lambda>th. th\<lparr>th_error := RT_EOK\<rparr>) s"
  have take: "rt_mutex_take a time s =
      (if owner (mutexes s a) = Some t then Some (Ret RT_EOK, upd_mutex a (\<lambda>m. m\<lparr>hold := hold m + 1\<rparr>) ?s)
       else mutex_again a t time ?s)"
    using may_waitD [OF W] ty by (simp add: rt_mutex_take_def in_thread_context_def)
  show ?thesis
  proof (cases "owner (mutexes s a)")
    case None
    then show ?thesis using ok take
      by (simp add: mutex_again.simps mutex_ok_def mutex_free_def new_mutex_def)
  next
    case (Some o')
    then have v: "mutex_value (mutexes s a) = 0" using ok by (simp add: mutex_ok_def)
    consider "o' = t" | "o' \<noteq> t" "time = 0" | "o' \<noteq> t" "time \<noteq> 0" by blast
    then show ?thesis
    proof cases
      case 3
      have c: "mutex_waits a t o' ?s s' = mutex_waits a t o' s s'" "mutex_blocked a t o' ?s s' = mutex_blocked a t o' s s'" for s'
        using 3(1) by (simp_all add: mutex_waits_def mutex_blocked_def)
      have tk: "rt_mutex_take a time s = mutex_again a t time ?s" using take 3(1) Some by simp
      have "if time = HALF_TICK then mutex_again a t time ?s = None
         else if lock_nest ?s \<noteq> 0 then \<exists>s'. mutex_again a t time ?s = Some (Ret RT_EOK, s') \<and> mutex_waits a t o' ?s s' \<and>
           cur_thread s' = Some t
         else \<exists>s'. mutex_again a t time ?s = Some (Blocked, s') \<and> mutex_blocked a t o' ?s s'"
        by (rule mutex_again_blocks [OF may_wait_error [OF W]]) (use v Some ow 3 fl in \<open>auto simp: ipc_flag_def started_def\<close>)
      then have "if time = HALF_TICK then rt_mutex_take a time s = None
         else if lock_nest s \<noteq> 0 then \<exists>s'. rt_mutex_take a time s = Some (Ret RT_EOK, s') \<and> mutex_waits a t o' s s' \<and>
           cur_thread s' = Some t
         else \<exists>s'. rt_mutex_take a time s = Some (Blocked, s') \<and> mutex_blocked a t o' s s'"
        unfolding c tk by (simp split del: if_split cong: if_cong)
      then show ?thesis unfolding Some using 3 by simp
    qed (use take Some v in \<open>auto simp: mutex_again.simps\<close>)
  qed
qed

text \<open>The sample kernel with mutex 21 in the hands of thread 2, whose priority is worse than the caller's.\<close>

definition sample_held :: kernel where
  "sample_held = upd_mutex 21 (\<lambda>_. \<lparr>mutex_value = 0, original_priority = 20, hold = 1, owner = Some 2\<rparr>) sample"

lemma sample_held_facts:
  "can_block 1 sample_held" "obj_class 21 sample_held = RT_Object_Class_Mutex" "mutex_ok 21 sample_held"
  "\<forall>o'. owner (mutexes sample_held 21) = Some o' \<longrightarrow> started sample_held o'"
  "ipc_flag 21 sample_held = 1"
proof -
  show "can_block 1 sample_held"
    using sample_can_block by (simp add: sample_held_def can_block_def live_def)
  show "obj_class 21 sample_held = RT_Object_Class_Mutex"
    using sample_class(3) obj_class_cong [of sample_held sample 21] by (simp add: sample_held_def)
  show "ipc_flag 21 sample_held = 1" using sample_ipc_flag [of 21] by (simp add: sample_held_def ipc_flag_def)
  show "mutex_ok 21 sample_held" by (simp add: sample_held_def mutex_ok_def)
  show "\<forall>o'. owner (mutexes sample_held 21) = Some o' \<longrightarrow> started sample_held o'"
    by (simp add: sample_held_def started_def sample_stat)
qed

theorem mutex_take_effect_witness:
  "case owner (mutexes sample_held 21) of
      None \<Rightarrow> \<exists>s'. rt_mutex_take 21 8 sample_held = Some (Ret RT_EOK, s') \<and>
        mutexes s' 21 = \<lparr>mutex_value = 0, original_priority = current_priority (threads sample_held 1), hold = 1, owner = Some 1\<rparr>
    | Some ow \<Rightarrow>
        if ow = 1 then \<exists>s'. rt_mutex_take 21 8 sample_held = Some (Ret RT_EOK, s') \<and>
          mutexes s' 21 = (mutexes sample_held 21)\<lparr>hold := hold (mutexes sample_held 21) + 1\<rparr>
        else if (8 :: u32) = 0 then \<exists>s'. rt_mutex_take 21 8 sample_held = Some (Ret (- RT_ETIMEOUT), s') \<and> mutexes s' = mutexes sample_held
        else if (8 :: u32) = HALF_TICK then rt_mutex_take 21 8 sample_held = None
        else if lock_nest sample_held \<noteq> 0 then \<exists>s'. rt_mutex_take 21 8 sample_held = Some (Ret RT_EOK, s') \<and>
          mutex_waits 21 1 ow sample_held s' \<and> cur_thread s' = Some 1
        else \<exists>s'. rt_mutex_take 21 8 sample_held = Some (Blocked, s') \<and> mutex_blocked 21 1 ow sample_held s'"
  by (rule mutex_take_effect [OF can_block_may_wait [OF sample_held_facts(1)] sample_held_facts(2-4)]) (simp_all add: sample_held_facts(5))

subsection \<open>Releasing\<close>

definition restore :: "nat \<Rightarrow> u8 \<Rightarrow> kernel \<Rightarrow> kernel option" where
  "restore t p s = (if p \<noteq> current_priority (threads s t) then rt_thread_change_priority t p s else Some s)"

lemma restore_eq:
  assumes K: "kinv s" "live s" and th: "is_thread t s"
  shows "\<exists>s'. restore t p s = Some s' \<and> kinv s' \<and> live s' \<and> mutexes s' = mutexes s \<and>
     current_priority (threads s' t) = p \<and> (\<forall>u. th_error (threads s' u) = th_error (threads s u)) \<and> (\<forall>u. tstat s' u = tstat s u \<and> (u \<noteq> t \<longrightarrow> threads s' u = threads s u)) \<and>
     (\<forall>h. ipc_head h \<longrightarrow> tlists s' h = tlists s h)"
proof (cases "p = current_priority (threads s t)")
  case True
  then show ?thesis using K by (auto simp: restore_def)
next
  case False
  obtain s' where s': "rt_thread_change_priority t p s = Some s'" "kinv s'"
    "threads s' = (threads s)(t := set_priority p (threads s t))"
    "\<forall>h. ipc_head h \<longrightarrow> tlists s' h = tlists s h" "mutexes s' = mutexes s" "cur_thread s' = cur_thread s"
    using change_priority_eq [OF K(1) th] by blast
  moreover have "live s'" using K(2) s' by (auto simp: live_def)
  ultimately show ?thesis using False by (auto simp: restore_def)
qed

text \<open>The state a mutex is left in by the last release of its owner.\<close>

definition mutex_passed :: "nat \<Rightarrow> kernel \<Rightarrow> kernel \<Rightarrow> bool" where
  "mutex_passed a s s' = (case tlists s (MutexQ a) of
      [] \<Rightarrow> mutex_free (mutexes s' a) \<and> tlists s' (MutexQ a) = []
    | u # us \<Rightarrow> mutexes s' a = \<lparr>mutex_value = 0, original_priority = current_priority (threads s' u), hold = 1, owner = Some u\<rparr> \<and>
        tlists s' (MutexQ a) = us \<and> tstat s' u = RT_THREAD_READY \<and> th_error (threads s' u) = th_error (threads s u))"

lemma mutex_pass:
  assumes K: "kinv s" "live s" and m: "mutex_value (mutexes s a) = 0" "hold (mutexes s a) = 0"
  shows "\<exists>s'. (case tlists s (MutexQ a) of
           u # _ \<Rightarrow> do {
             let s = upd_mutex a (\<lambda>m. m\<lparr>owner := Some u,
                original_priority := current_priority (threads s u), hold := hold m + 1\<rparr>) s;
             s \<leftarrow> rt_ipc_list_resume (MutexQ a) s;
             s \<leftarrow> rt_schedule s;
             Some (RT_EOK, s) }
         | [] \<Rightarrow> Some (RT_EOK, upd_mutex a (\<lambda>m. m\<lparr>mutex_value := mutex_value m + 1,
                owner := None, original_priority := 0xFF\<rparr>) s)) = Some (RT_EOK, s') \<and>
     kinv s' \<and> live s' \<and> mutex_passed a s s' \<and> (\<forall>t. current_priority (threads s' t) = current_priority (threads s t))"
proof (cases "tlists s (MutexQ a)")
  case Nil
  then show ?thesis using K m
    by (cases "mutexes s a") (auto simp: mutex_passed_def mutex_free_def new_mutex_def live_def)
next
  case (Cons u us)
  let ?s = "upd_mutex a (\<lambda>m. m\<lparr>owner := Some u, original_priority := current_priority (threads s u), hold := hold m + 1\<rparr>) s"
  have L: "live ?s" using K(2) by (simp add: live_def)
  note w = rt_ipc_list_resume_eq [of ?s "MutexQ a" u us, simplified, OF K(1) Cons]
  obtain s' where s': "rt_schedule (resumed u ?s) = Some s'" "kinv s'" "live s'"
    using schedule_total [OF w(2) live_resumed [OF L]] w(4) by auto
  note f = rt_schedule_fields [OF s'(1)]
  have "mutexes s' a = \<lparr>mutex_value = 0, original_priority = current_priority (threads s u), hold = 1, owner = Some u\<rparr>"
    using m by (cases "mutexes s a") (simp add: f)
  then show ?thesis using s' w Cons f by (auto simp: mutex_passed_def)
qed

lemma mutex_release_last:
  assumes "cur_thread s = Some t" "irq_nest s = 0" "obj_class a s = RT_Object_Class_Mutex"
    and "owner (mutexes s a) = Some t" "hold (mutexes s a) = 1"
  shows "rt_mutex_release a s = Option.bind
     (restore t (original_priority (mutexes (upd_mutex a (\<lambda>m. m\<lparr>hold := hold m - 1\<rparr>) s) a))
        (upd_mutex a (\<lambda>m. m\<lparr>hold := hold m - 1\<rparr>) s))
     (\<lambda>s. case tlists s (MutexQ a) of
           u # _ \<Rightarrow> do {
             let s = upd_mutex a (\<lambda>m. m\<lparr>owner := Some u,
                original_priority := current_priority (threads s u), hold := hold m + 1\<rparr>) s;
             s \<leftarrow> rt_ipc_list_resume (MutexQ a) s;
             s \<leftarrow> rt_schedule s;
             Some (RT_EOK, s) }
         | [] \<Rightarrow> Some (RT_EOK, upd_mutex a (\<lambda>m. m\<lparr>mutex_value := mutex_value m + 1,
                owner := None, original_priority := 0xFF\<rparr>) s))"
  using assms unfolding rt_mutex_release_def in_thread_context_def restore_def by (simp add: Let_def)

text \<open>C5: \<^verbatim>\<open>rt_mutex_release\<close> on every branch. A thread that does not own the mutex gets
  \<^verbatim>\<open>-RT_ERROR\<close> and the mutex does not change; an inner release only lowers the hold count; the
  last release gives the caller its original priority back and hands the mutex to the first
  waiter, who becomes ready as its owner, or frees it when nobody waits.\<close>

theorem mutex_release_effect:
  assumes K: "kinv s" "live s" and c: "cur_thread s = Some t" "irq_nest s = 0" and th: "is_thread t s"
    and ty: "obj_class a s = RT_Object_Class_Mutex" and ok: "mutex_ok a s"
  shows "if owner (mutexes s a) \<noteq> Some t
     then rt_mutex_release a s = Some (- RT_ERROR, upd_thread t (\<lambda>th. th\<lparr>th_error := RT_ERROR\<rparr>) s)
     else if hold (mutexes s a) \<noteq> 1
     then rt_mutex_release a s = Some (RT_EOK, upd_mutex a (\<lambda>m. m\<lparr>hold := hold m - 1\<rparr>) s)
     else \<exists>s'. rt_mutex_release a s = Some (RT_EOK, s') \<and> kinv s' \<and> live s' \<and> mutex_passed a s s' \<and>
       current_priority (threads s' t) = original_priority (mutexes s a)"
proof -
  let ?u = "upd_mutex a (\<lambda>m. m\<lparr>hold := hold m - 1\<rparr>) s"
  consider "owner (mutexes s a) \<noteq> Some t" | "owner (mutexes s a) = Some t" "hold (mutexes s a) \<noteq> 1"
    | "owner (mutexes s a) = Some t" "hold (mutexes s a) = 1" by blast
  then show ?thesis
  proof cases
    case 3
    have L: "live ?u" using K(2) by (simp add: live_def)
    have th': "is_thread t ?u" using th get_type_cong(2) [of ?u s] by simp
    obtain s1 where s1: "restore t (original_priority (mutexes ?u a)) ?u = Some s1" "kinv s1" "live s1"
      "mutexes s1 = mutexes ?u" "current_priority (threads s1 t) = original_priority (mutexes s a)"
      "\<forall>u. tstat s1 u = tstat s u \<and> (u \<noteq> t \<longrightarrow> threads s1 u = threads s u)"
      "\<forall>h. ipc_head h \<longrightarrow> tlists s1 h = tlists s h" "\<forall>u. th_error (threads s1 u) = th_error (threads s u)"
      using restore_eq [OF _ L th', of "original_priority (mutexes ?u a)"] K(1) by auto
    have v: "mutex_value (mutexes s1 a) = 0" "hold (mutexes s1 a) = 0"
      using ok 3 s1(4) by (simp_all add: mutex_ok_def)
    obtain s' where s': "(case tlists s1 (MutexQ a) of
           u # _ \<Rightarrow> do {
             let s = upd_mutex a (\<lambda>m. m\<lparr>owner := Some u,
                original_priority := current_priority (threads s1 u), hold := hold m + 1\<rparr>) s1;
             s \<leftarrow> rt_ipc_list_resume (MutexQ a) s;
             s \<leftarrow> rt_schedule s;
             Some (RT_EOK, s) }
         | [] \<Rightarrow> Some (RT_EOK, upd_mutex a (\<lambda>m. m\<lparr>mutex_value := mutex_value m + 1,
                owner := None, original_priority := 0xFF\<rparr>) s1)) = Some (RT_EOK, s')"
      "kinv s'" "live s'" "mutex_passed a s1 s'" "\<forall>t. current_priority (threads s' t) = current_priority (threads s1 t)"
      using mutex_pass [OF s1(2,3) v] by blast
    have "rt_mutex_release a s = Some (RT_EOK, s')"
      using mutex_release_last [OF c ty 3] s1(1) s'(1) by simp
    moreover have "tlists s1 (MutexQ a) = tlists s (MutexQ a)" using s1(7) by simp
    then have "mutex_passed a s s'"
      using s'(4) s1(8) by (auto simp: mutex_passed_def split: list.splits)
    ultimately show ?thesis using 3 s' s1(5) by simp
  next
    case 2
    then have "hold (mutexes s a) - 1 \<noteq> 0" by simp
    then show ?thesis using 2 c ty by (simp add: rt_mutex_release_def in_thread_context_def)
  qed (use c ty in \<open>simp add: rt_mutex_release_def in_thread_context_def\<close>)
qed

text \<open>The sample kernel with mutex 21 in the hands of the running thread, taken at priority 12.\<close>

definition sample_owned :: kernel where
  "sample_owned = upd_mutex 21 (\<lambda>_. \<lparr>mutex_value = 0, original_priority = 12, hold = 1, owner = Some 1\<rparr>) sample"

lemma sample_owned_facts:
  "kinv sample_owned" "live sample_owned" "cur_thread sample_owned = Some 1" "irq_nest sample_owned = 0"
  "is_thread 1 sample_owned" "obj_class 21 sample_owned = RT_Object_Class_Mutex" "mutex_ok 21 sample_owned"
proof -
  show "kinv sample_owned" "cur_thread sample_owned = Some 1" "irq_nest sample_owned = 0" "mutex_ok 21 sample_owned"
    by (simp_all add: sample_owned_def sample_kinv mutex_ok_def)
  show "live sample_owned" using sample_live by (simp add: sample_owned_def live_def)
  have "is_thread 1 sample" using kinv_thread(1) [OF sample_kinv, of 1] sample_stat [of 1] by simp
  then show "is_thread 1 sample_owned" using get_type_cong(2) [of sample_owned sample 1] by (simp add: sample_owned_def)
  show "obj_class 21 sample_owned = RT_Object_Class_Mutex"
    using sample_class(3) obj_class_cong [of sample_owned sample 21] by (simp add: sample_owned_def)
qed

theorem mutex_release_effect_witness:
  "if owner (mutexes sample_owned 21) \<noteq> Some 1
     then rt_mutex_release 21 sample_owned = Some (- RT_ERROR, upd_thread 1 (\<lambda>th. th\<lparr>th_error := RT_ERROR\<rparr>) sample_owned)
     else if hold (mutexes sample_owned 21) \<noteq> 1
     then rt_mutex_release 21 sample_owned = Some (RT_EOK, upd_mutex 21 (\<lambda>m. m\<lparr>hold := hold m - 1\<rparr>) sample_owned)
     else \<exists>s'. rt_mutex_release 21 sample_owned = Some (RT_EOK, s') \<and> kinv s' \<and> live s' \<and> mutex_passed 21 sample_owned s' \<and>
       current_priority (threads s' 1) = original_priority (mutexes sample_owned 21)"
  by (rule mutex_release_effect [OF sample_owned_facts])

end
