(* ===== verification/Event_Correct.thy ===== *)
theory Event_Correct
  imports Sem_Correct
begin

unbundle bit_operations_syntax

text \<open>
  What the event sets promise, in terms of single flags: no receiver is left waiting for
  flags that are set, and a receiver is woken only by flags that were set.
\<close>

text \<open>The condition a receiver waits for.\<close>

definition event_met :: "rt_thread \<Rightarrow> u32 \<Rightarrow> bool" where
  "event_met th v =
     (if event_info th AND RT_EVENT_FLAG_AND \<noteq> 0 then \<forall>k. bit (event_set th) k \<longrightarrow> bit v k
      else event_info th AND RT_EVENT_FLAG_OR \<noteq> 0 \<and> (\<exists>k. bit (event_set th) k \<and> bit v k))"

definition flags_within :: "u32 \<Rightarrow> u32 \<Rightarrow> bool" where
  "flags_within v w = (\<forall>k. bit v k \<longrightarrow> bit w k)"

lemma and_eq_bits: "(x :: u32) AND y = x \<longleftrightarrow> (\<forall>k. bit x k \<longrightarrow> bit y k)"
  by (auto simp: bit_eq_iff bit_and_iff) (use bit_imp_le_length in fastforce)

lemma and_neq0_bits: "(x :: u32) AND y \<noteq> 0 \<longleftrightarrow> (\<exists>k. bit x k \<and> bit y k)"
  by (auto simp: bit_eq_iff bit_and_iff) (use bit_imp_le_length in fastforce)

lemma event_status_met: "event_status th v \<noteq> None \<longleftrightarrow> event_met th v"
  using and_eq_bits [of "event_set th" v] and_neq0_bits [of "event_set th" v]
  by (auto simp: event_status_def event_met_def)

lemma event_status_within: "event_status th v = Some g \<Longrightarrow> flags_within g v \<and> flags_within g (event_set th)"
  using and_eq_bits [of "event_set th" v]
  by (auto simp: event_status_def flags_within_def bit_and_iff split: if_splits)

lemma event_met_mono: "flags_within v w \<Longrightarrow> event_met th v \<Longrightarrow> event_met th w"
  by (auto simp: event_met_def flags_within_def split: if_splits)

lemma flags_within_simps [simp]:
  "flags_within v v" "flags_within (v AND w) v"
  by (auto simp: flags_within_def bit_and_iff)

lemma flags_within_trans: "flags_within u v \<Longrightarrow> flags_within v w \<Longrightarrow> flags_within u w"
  by (simp add: flags_within_def)

subsection \<open>Sending\<close>

text \<open>What delivering to a receiver does: it gets flags that satisfy it and becomes ready.\<close>

definition delivered :: "u32 \<Rightarrow> rt_thread \<Rightarrow> rt_thread \<Rightarrow> bool" where
  "delivered v th th' = (stat th' AND 7 = RT_THREAD_READY \<and> th_error th' = th_error th \<and>
     (\<exists>w. flags_within w v \<and> event_met th w \<and> event_status th w = Some (event_set th')))"

lemma delivered_mono: "delivered v th th' \<Longrightarrow> flags_within v w \<Longrightarrow> delivered w th th'"
  unfolding delivered_def using flags_within_trans by blast

definition event_one :: "nat \<Rightarrow> nat \<Rightarrow> u32 \<Rightarrow> kernel \<Rightarrow> kernel" where
  "event_one a t got s = (let s = upd_thread t (\<lambda>th. th\<lparr>event_set := got\<rparr>) s in
     if event_info (threads s t) AND RT_EVENT_FLAG_CLEAR \<noteq> 0 then upd_event a (\<lambda>v. v AND NOT got) s else s)"

lemma event_one_fields:
  "threads (event_one a t got s) = (threads s)(t := (threads s t)\<lparr>event_set := got\<rparr>)"
  "tlists (event_one a t got s) = tlists s" "cur_thread (event_one a t got s) = cur_thread s"
  "flags_within (ev_set (events (event_one a t got s) a)) (ev_set (events s a))"
  by (auto simp: event_one_def Let_def)

lemma kinv_event_one: "kinv s \<Longrightarrow> kinv (event_one a t got s)"
proof -
  assume "kinv s"
  then have "kinv (upd_thread t (\<lambda>th. th\<lparr>event_set := got\<rparr>) s)" by (rule kinv_upd_thread) simp_all
  then show ?thesis by (simp add: event_one_def Let_def)
qed

lemma live_event_one: "live s \<Longrightarrow> live (event_one a t got s)"
  by (auto simp: live_def event_one_fields stack_ok_def stack_check_def)

lemma event_wake_Cons:
  assumes "event_status (threads s t) (ev_set (events s a)) = Some got"
  shows "event_wake a (t # ts) need s =
     Option.bind (rt_thread_resume t (event_one a t got s)) (\<lambda>(_, s). event_wake a ts True s)"
  using assms by (simp add: event_one_def Let_def)

text \<open>
  After delivering to the receivers \<open>ts\<close>: those that are still suspended are not
  satisfied, the others got their flags.
\<close>

definition settled :: "nat \<Rightarrow> kernel \<Rightarrow> nat list \<Rightarrow> kernel \<Rightarrow> bool" where
  "settled a s ts s' = (kinv s' \<and> live s' \<and> flags_within (ev_set (events s' a)) (ev_set (events s a)) \<and>
     (\<forall>t. t \<notin> set ts \<longrightarrow> threads s' t = threads s t) \<and>
     (\<forall>t \<in> set ts. tstat s' t = RT_THREAD_SUSPEND \<longrightarrow>
        threads s' t = threads s t \<and> \<not> event_met (threads s t) (ev_set (events s' a))) \<and>
     (\<forall>t \<in> set ts. tstat s' t \<noteq> RT_THREAD_SUSPEND \<longrightarrow>
        delivered (ev_set (events s a)) (threads s t) (threads s' t)))"

lemma settledD:
  assumes "settled a s ts s'"
  shows "kinv s'" "live s'" "flags_within (ev_set (events s' a)) (ev_set (events s a))"
    and "t \<notin> set ts \<Longrightarrow> threads s' t = threads s t"
    and "\<lbrakk>t \<in> set ts; tstat s' t = RT_THREAD_SUSPEND\<rbrakk> \<Longrightarrow>
      threads s' t = threads s t \<and> \<not> event_met (threads s t) (ev_set (events s' a))"
    and "\<lbrakk>t \<in> set ts; tstat s' t \<noteq> RT_THREAD_SUSPEND\<rbrakk> \<Longrightarrow>
      delivered (ev_set (events s a)) (threads s t) (threads s' t)"
  using assms unfolding settled_def by blast+

lemma settled_Cons:
  assumes S: "settled a s1 ts s'" and t: "t \<notin> set ts"
    and sub: "flags_within (ev_set (events s1 a)) (ev_set (events s a))"
    and same: "\<And>u. u \<noteq> t \<Longrightarrow> threads s1 u = threads s u"
    and keep: "tstat s' t = RT_THREAD_SUSPEND \<Longrightarrow>
      threads s' t = threads s t \<and> \<not> event_met (threads s t) (ev_set (events s' a))"
    and woke: "tstat s' t \<noteq> RT_THREAD_SUSPEND \<Longrightarrow> delivered (ev_set (events s a)) (threads s t) (threads s' t)"
  shows "settled a s (t # ts) s'"
  unfolding settled_def
proof (intro conjI allI ballI impI)
  show "kinv s'" "live s'" using settledD [OF S] by auto
  show "flags_within (ev_set (events s' a)) (ev_set (events s a))"
    using flags_within_trans [OF settledD(3) [OF S] sub] .
  fix u
  show "threads s' u = threads s u" if "u \<notin> set (t # ts)"
    using settledD(4) [OF S, of u] same [of u] that by simp
  assume u: "u \<in> set (t # ts)"
  then have e: "u \<noteq> t \<Longrightarrow> u \<in> set ts" by simp
  show "threads s' u = threads s u" "\<not> event_met (threads s u) (ev_set (events s' a))"
    if "tstat s' u = RT_THREAD_SUSPEND"
    using settledD(5) [OF S e that] same [of u] keep that by (cases "u = t"; simp)+
  show "delivered (ev_set (events s a)) (threads s u) (threads s' u)" if "tstat s' u \<noteq> RT_THREAD_SUSPEND"
    using delivered_mono [OF settledD(6) [OF S e that] sub] same [of u] woke that by (cases "u = t") simp_all
qed

lemma settled_skip:
  assumes S: "settled a s ts s'" and n: "\<not> event_met (threads s t) (ev_set (events s a))" and t: "t \<notin> set ts"
    and st: "tstat s t = RT_THREAD_SUSPEND"
  shows "settled a s (t # ts) s'"
proof (rule settled_Cons [OF S t])
  have e: "threads s' t = threads s t" using settledD(4) [OF S t] .
  show "threads s' t = threads s t \<and> \<not> event_met (threads s t) (ev_set (events s' a))"
    using e n event_met_mono [OF settledD(3) [OF S]] by blast
  show "delivered (ev_set (events s a)) (threads s t) (threads s' t)" if "tstat s' t \<noteq> RT_THREAD_SUSPEND"
    using that e st by simp
qed simp_all

lemma settled_wake:
  assumes S: "settled a s1 ts s'" and t: "t \<notin> set ts"
    and got: "event_status (threads s t) (ev_set (events s a)) = Some got"
    and s1: "s1 = resumed t (event_one a t got s)"
  shows "settled a s (t # ts) s'"
proof (rule settled_Cons [OF S t])
  have th: "threads s' t = threads s1 t" using settledD(4) [OF S t] .
  have met: "event_met (threads s t) (ev_set (events s a))" using got event_status_met by force
  show "flags_within (ev_set (events s1 a)) (ev_set (events s a))" by (simp add: s1 event_one_fields)
  show "threads s1 u = threads s u" if "u \<noteq> t" for u using that by (simp add: s1 event_one_fields)
  have st: "tstat s' t = RT_THREAD_READY" unfolding th by (simp add: s1 event_one_fields)
  then show "threads s' t = threads s t \<and> \<not> event_met (threads s t) (ev_set (events s' a))"
    if "tstat s' t = RT_THREAD_SUSPEND" using that by simp
  show "delivered (ev_set (events s a)) (threads s t) (threads s' t)"
    unfolding delivered_def th using met got
    by (intro conjI exI [of _ "ev_set (events s a)"]) (simp_all add: s1 event_one_fields)
qed

lemma event_wake_settles:
  assumes "kinv s" "live s" "tlists s (EventQ a) = rs @ ts"
  shows "\<exists>n s'. event_wake a ts need s = Some (n, s') \<and> settled a s ts s' \<and>
     tlists s' (EventQ a) = rs @ filter (\<lambda>t. tstat s' t = RT_THREAD_SUSPEND) ts"
  using assms
proof (induction ts arbitrary: s rs need)
  case Nil
  then show ?case by (simp add: settled_def)
next
  case (Cons t ts)
  have st: "tstat s t = RT_THREAD_SUSPEND"
    using ipc_waiter [OF Cons.prems(1), of "EventQ a" t] Cons.prems(3) by simp
  have d: "distinct (rs @ t # ts)"
    using queues_okD(1) [OF kinvD(5) [OF Cons.prems(1)], of "EventQ a"] Cons.prems(3) by simp
  show ?case
  proof (cases "event_status (threads s t) (ev_set (events s a))")
    case None
    obtain n s' where w: "event_wake a ts need s = Some (n, s')" "settled a s ts s'"
      "tlists s' (EventQ a) = (rs @ [t]) @ filter (\<lambda>t. tstat s' t = RT_THREAD_SUSPEND) ts"
      using Cons.IH [OF Cons.prems(1,2), of "rs @ [t]" need] Cons.prems(3) by auto
    have S: "settled a s (t # ts) s'"
      using settled_skip [OF w(2) _ _ st] None event_status_met [of "threads s t" "ev_set (events s a)"] d by simp
    have "threads s' t = threads s t" using w(2) d by (simp add: settled_def)
    then show ?thesis using None w S st by auto
  next
    case (Some got)
    let ?u = "event_one a t got s" and ?v = "resumed t (event_one a t got s)"
    have K: "kinv ?u" "live ?u" "tstat ?u t = RT_THREAD_SUSPEND"
      using kinv_event_one [OF Cons.prems(1)] live_event_one [OF Cons.prems(2)] st by (auto simp: event_one_fields)
    have l: "tlists ?v (EventQ a) = rs @ ts"
      using resumed_lists [OF K(1), of "EventQ a" t] Cons.prems(3) d by (simp add: event_one_fields)
    obtain n s' where w: "event_wake a ts True ?v = Some (n, s')" "settled a ?v ts s'"
      "tlists s' (EventQ a) = rs @ filter (\<lambda>t. tstat s' t = RT_THREAD_SUSPEND) ts"
      using Cons.IH [OF kinv_resumed [OF K(1,3)] live_resumed [OF K(2,3)] l] by blast
    have S: "settled a s (t # ts) s'" using settled_wake [OF w(2) _ Some] d by simp
    have "threads s' t = threads ?v t" using w(2) d by (simp add: settled_def)
    then have "tstat s' t \<noteq> RT_THREAD_SUSPEND" by simp
    then show ?thesis
      using event_wake_Cons [OF Some, of ts need] rt_thread_resume_eq [OF K(1,3)] w S by auto
  qed
qed

text \<open>
  What a send does, receiver by receiver: the flags a receiver finds are those the receivers in
  front of it have left, and a satisfied receiver that clears takes its flags away.
\<close>

definition event_left :: "(nat \<Rightarrow> rt_thread) \<Rightarrow> nat list \<Rightarrow> u32 \<Rightarrow> u32" where
  "event_left th = fold (\<lambda>t v. if event_met (th t) v \<and> event_info (th t) AND RT_EVENT_FLAG_CLEAR \<noteq> 0
     then v AND NOT (event_set (th t)) else v)"

lemma event_left_simps [simp]:
  "event_left th [] v = v"
  "event_left th (t # ts) v = event_left th ts
     (if event_met (th t) v \<and> event_info (th t) AND RT_EVENT_FLAG_CLEAR \<noteq> 0 then v AND NOT (event_set (th t)) else v)"
  by (simp_all add: event_left_def)

lemma event_left_cong: "(\<And>t. t \<in> set ts \<Longrightarrow> th' t = th t) \<Longrightarrow> event_left th' ts v = event_left th ts v"
  by (induction ts arbitrary: v) simp_all

definition event_given :: "rt_thread \<Rightarrow> u32 \<Rightarrow> rt_thread" where
  "event_given th v = th\<lparr>event_set := event_set th AND v,
     stat := RT_THREAD_READY OR (stat th AND NOT RT_THREAD_STAT_MASK)\<rparr>"

lemma event_status_got: "event_status th v = Some got \<Longrightarrow> got = event_set th AND v"
  by (auto simp: event_status_def split: if_splits)

lemma event_one_left:
  assumes got: "event_status (threads s t) (ev_set (events s a)) = Some got"
  defines "s1 \<equiv> resumed t (event_one a t got s)"
  shows "ev_set (events s1 a) = event_left (threads s) [t] (ev_set (events s a))"
    "threads s1 = (threads s)(t := event_given (threads s t) (ev_set (events s a)))"
proof -
  have g: "got = event_set (threads s t) AND ev_set (events s a)" by (rule event_status_got [OF got])
  have m: "event_met (threads s t) (ev_set (events s a))" using got event_status_met by force
  have e: "v AND (NOT x OR NOT v) = v AND NOT x" for v x :: u32
    by (rule bit_word_eqI) (auto simp: bit_simps)
  show "ev_set (events s1 a) = event_left (threads s) [t] (ev_set (events s a))"
    using m by (simp add: s1_def event_one_def Let_def g e)
  show "threads s1 = (threads s)(t := event_given (threads s t) (ev_set (events s a)))"
    by (simp add: s1_def event_one_fields event_given_def g)
qed

definition event_after :: "rt_thread \<Rightarrow> u32 \<Rightarrow> rt_thread" where
  "event_after th v = (if event_met th v then event_given th v else th)"

definition event_served :: "nat list \<Rightarrow> u32 \<Rightarrow> kernel \<Rightarrow> kernel \<Rightarrow> bool" where
  "event_served ts v s s' = (\<forall>xs t ys. ts = xs @ t # ys \<longrightarrow>
     threads s' t = event_after (threads s t) (event_left (threads s) xs v))"

lemma event_served_Cons:
  assumes "threads s' t = event_after (threads s t) v"
    and "event_served ts (event_left (threads s) [t] v) s1 s'" and "\<And>u. u \<in> set ts \<Longrightarrow> threads s1 u = threads s u"
  shows "event_served (t # ts) v s s'"
  unfolding event_served_def
proof (intro allI impI)
  fix xs u ys assume c: "t # ts = xs @ u # ys"
  show "threads s' u = event_after (threads s u) (event_left (threads s) xs v)"
  proof (cases xs)
    case Nil
    then show ?thesis using c assms(1) by simp
  next
    case (Cons x zs)
    then have z: "x = t" "ts = zs @ u # ys" using c by simp_all
    have "event_left (threads s1) zs w = event_left (threads s) zs w" for w
      by (rule event_left_cong) (use assms(3) z(2) in simp)
    moreover have "threads s1 u = threads s u" using assms(3) z(2) by simp
    ultimately show ?thesis
      using assms(2)[unfolded event_served_def, rule_format, OF z(2)] Cons z(1) by simp
  qed
qed

lemma event_wake_exact:
  assumes "kinv s" and "tlists s (EventQ a) = rs @ ts" and "event_wake a ts need s = Some (n, s')"
  shows "ev_set (events s' a) = event_left (threads s) ts (ev_set (events s a)) \<and>
     event_served ts (ev_set (events s a)) s s' \<and> (\<forall>t. t \<notin> set ts \<longrightarrow> threads s' t = threads s t)"
  using assms
proof (induction ts arbitrary: s rs need)
  case Nil
  then show ?case by (simp add: event_served_def)
next
  case (Cons t ts)
  have st: "tstat s t = RT_THREAD_SUSPEND"
    using ipc_waiter [OF Cons.prems(1), of "EventQ a" t] Cons.prems(2) by simp
  have d: "distinct (rs @ t # ts)"
    using queues_okD(1) [OF kinvD(5) [OF Cons.prems(1)], of "EventQ a"] Cons.prems(2) by simp
  show ?case
  proof (cases "event_status (threads s t) (ev_set (events s a))")
    case None
    then have m: "\<not> event_met (threads s t) (ev_set (events s a))" using event_status_met by blast
    have w: "event_wake a ts need s = Some (n, s')" using Cons.prems(3) None by simp
    have l: "tlists s (EventQ a) = (rs @ [t]) @ ts" using Cons.prems(2) by simp
    note ih = Cons.IH [OF Cons.prems(1) l w]
    have "event_served (t # ts) (ev_set (events s a)) s s'"
      by (rule event_served_Cons [where ?s1.0 = s]) (use ih m d in \<open>simp_all add: event_after_def\<close>)
    then show ?thesis using ih m by simp
  next
    case (Some got)
    let ?u = "event_one a t got s"
    define v where "v = resumed t ?u"
    have K: "kinv ?u" "tstat ?u t = RT_THREAD_SUSPEND"
      using kinv_event_one [OF Cons.prems(1)] st by (auto simp: event_one_fields)
    have l: "tlists v (EventQ a) = rs @ ts"
      using resumed_lists [OF K(1), of "EventQ a" t] Cons.prems(2) d by (simp add: v_def event_one_fields)
    have w: "event_wake a ts True v = Some (n, s')"
      using Cons.prems(3) event_wake_Cons [OF Some, of ts need] rt_thread_resume_eq [OF K] by (simp add: v_def)
    have m: "event_met (threads s t) (ev_set (events s a))" using Some event_status_met by force
    note e = event_one_left [OF Some, folded v_def]
    have k: "kinv v" unfolding v_def by (rule kinv_resumed [OF K])
    note ih = Cons.IH [OF k l w]
    have th: "threads v u = threads s u" if "u \<in> set ts" for u using d that unfolding e(2) by auto
    have "threads s' t = event_after (threads s t) (ev_set (events s a))"
      using ih d m by (simp add: e(2) event_after_def)
    then have "event_served (t # ts) (ev_set (events s a)) s s'"
      by (rule event_served_Cons [where ?s1.0 = v]) (use ih th in \<open>simp_all only: e(1)\<close>)
    moreover have "event_left (threads v) ts x = event_left (threads s) ts x" for x
      by (rule event_left_cong) (rule th)
    moreover have "\<forall>u. u \<notin> set (t # ts) \<longrightarrow> threads s' u = threads s u" using ih by (simp add: e(2))
    ultimately show ?thesis using ih m unfolding e(1) by simp
  qed
qed

text \<open>C4: \<^verbatim>\<open>rt_event_send\<close> loses no flag and no wake-up and wakes nobody in vain. Without flags it returns
  \<^verbatim>\<open>-RT_ERROR\<close> and changes nothing. With flags it never fails on a running kernel: the flags are added to those that are
  set, and the receivers are served in the order of their list, each with the flags that those before it have left. A
  receiver whose condition holds then (all of its flags with \<^verbatim>\<open>RT_EVENT_FLAG_AND\<close>, one of them with \<^verbatim>\<open>RT_EVENT_FLAG_OR\<close>)
  becomes ready, in its ready queue with its timer stopped, reads exactly those of its flags that were set, and takes its
  flags away with \<^verbatim>\<open>RT_EVENT_FLAG_CLEAR\<close>; the others do not change. What is set at the end is exactly what is left, no
  receiver that still waits is satisfied by it, those stay in their order, and no other thread changes.\<close>

theorem event_send_effect:
  fixes flags :: u32
  assumes K: "kinv s" "live s" and ty: "obj_class a s = RT_Object_Class_Event"
  defines "set0 \<equiv> ev_set (events s a) OR flags" and "ts0 \<equiv> tlists s (EventQ a)"
  shows "if flags = 0 then rt_event_send a flags s = Some (- RT_ERROR, s)
     else \<exists>s'. rt_event_send a flags s = Some (RT_EOK, s') \<and> kinv s' \<and> live s' \<and>
     ev_set (events s' a) = event_left (threads s) ts0 set0 \<and> event_served ts0 set0 s s' \<and>
     tlists s' (EventQ a) = filter (\<lambda>t. tstat s' t = RT_THREAD_SUSPEND) ts0 \<and>
     (\<forall>t \<in> set (tlists s' (EventQ a)). threads s' t = threads s t \<and> \<not> event_met (threads s' t) (ev_set (events s' a))) \<and>
     (\<forall>t \<in> set ts0 - set (tlists s' (EventQ a)). runnable t s' \<and> delivered set0 (threads s t) (threads s' t)) \<and>
     (\<forall>t. t \<notin> set ts0 \<longrightarrow> threads s' t = threads s t)"
proof (cases "flags = 0")
  case True
  then show ?thesis using ty by (simp add: rt_event_send_def)
next
  case False
  let ?u = "upd_event a (\<lambda>v. v OR flags) s"
  have u: "kinv ?u" "live ?u" using K by (simp_all add: live_def)
  then obtain n u where w: "event_wake a ts0 False ?u = Some (n, u)" "settled a ?u ts0 u"
    "tlists u (EventQ a) = filter (\<lambda>t. tstat u t = RT_THREAD_SUSPEND) ts0"
    using event_wake_settles [of ?u a "[]"] unfolding ts0_def by fastforce
  have x: "ev_set (events u a) = event_left (threads s) ts0 set0" "event_served ts0 set0 s u"
    using event_wake_exact [OF u(1) _ w(1), of "[]"] by (simp_all add: ts0_def set0_def event_served_def split del: if_split)
  have "kinv u" "live u" using w(2) by (auto simp: settled_def)
  then obtain s' where s': "(if n then rt_schedule u else Some u) = Some s'" "kinv s'" "live s'"
    using schedule_total [of u] by (cases n) auto
  then have f: "threads s' = threads u" "tlists s' = tlists u" "events s' = events u"
    using rt_schedule_fields [of u s'] by (auto split: if_splits)
  have r: "rt_event_send a flags s = Some (RT_EOK, s')"
    using ty False w(1) s'(1) by (simp add: rt_event_send_def ts0_def)
  have wait: "threads s' t = threads s t" "\<not> event_met (threads s' t) (ev_set (events s' a))"
    if "t \<in> set (tlists s' (EventQ a))" for t
    using settledD(5) [OF w(2), of t] w(3) f that by simp_all
  have woke: "runnable t s'" "delivered set0 (threads s t) (threads s' t)"
    if "t \<in> set ts0 - set (tlists s' (EventQ a))" for t
  proof -
    have d: "delivered set0 (threads s t) (threads s' t)"
      using settledD(6) [OF w(2)] w(3) f that by (auto simp: set0_def)
    then show "runnable t s'" by (intro runnableI [OF s'(2)]) (simp add: delivered_def)
    show "delivered set0 (threads s t) (threads s' t)" by (rule d)
  qed
  have "threads s' t = threads s t" if "t \<notin> set ts0" for t using settledD(4) [OF w(2) that] f by simp
  moreover have "event_served ts0 set0 s s'" using x(2) by (simp add: event_served_def f(1))
  ultimately show ?thesis using False r s'(2,3) x(1) w(3) wait woke f by auto
qed

text \<open>The sample kernel with thread 3 waiting for all of the flags 3, which it will clear.\<close>

definition sample_event :: kernel where
  "sample_event = (upd_thread 3 (\<lambda>th. th\<lparr>event_set := 3, event_info := 5\<rparr>) sample_ready)\<lparr>
     tlists := (tlists sample_ready)(EventQ 22 := [3]), on_list := (on_list sample_ready)(3 := Some (EventQ 22))\<rparr>"

lemma sample_event_facts:
  "kinv sample_event" "live sample_event" "obj_class 22 sample_event = RT_Object_Class_Event"
proof -
  let ?s = "upd_thread 3 (\<lambda>th. th\<lparr>event_set := 3, event_info := 5\<rparr>) sample_ready"
  have K: "kinv ?s" by (rule kinv_upd_thread [OF sample_ready_kinv]) simp_all
  have st: "tstat ?s 3 = RT_THREAD_SUSPEND" by (simp add: sample_ready_threads sample_base_def)
  have ne: "tlists ?s (EventQ 22) = []"
    by (simp add: sample_ready_def sample_base_def resumed_def tlist_remove_def timer_off_def flag_clear_def
        timer_remove_def upd_object_def enqueued_def)
  have "tlist_set (EventQ 22) 3 [3] ?s = Some sample_event"
    by (simp add: tlist_set_def sample_event_def) (simp add: sample_ready_def sample_base_def)
  then show "kinv sample_event" by (rule kinv_wait [OF K st]) (simp_all add: ne [simplified])
  have "threads sample_event = (threads sample)(3 := (threads sample 3)\<lparr>event_set := 3, event_info := 5\<rparr>)"
    "cur_thread sample_event = cur_thread sample"
    by (simp_all add: sample_event_def sample_def)
  moreover have "live (upd_thread 3 (\<lambda>th. th\<lparr>event_set := 3, event_info := 5\<rparr>) sample)"
    by (rule live_upd_thread [OF sample_live]) (simp_all add: stack_ok_def stack_check_def)
  ultimately show "live sample_event" using live_cong [of sample_event "upd_thread 3 (\<lambda>th. th\<lparr>event_set := 3, event_info := 5\<rparr>) sample"] by simp
  show "obj_class 22 sample_event = RT_Object_Class_Event"
    using sample_class(4) obj_class_cong [of sample_event sample 22] by (simp add: sample_event_def sample_def)
qed

theorem event_send_effect_witness:
  "if (7 :: u32) = 0 then rt_event_send 22 7 sample_event = Some (- RT_ERROR, sample_event)
     else \<exists>s'. rt_event_send 22 7 sample_event = Some (RT_EOK, s') \<and> kinv s' \<and> live s' \<and>
     ev_set (events s' 22) = event_left (threads sample_event) (tlists sample_event (EventQ 22)) (ev_set (events sample_event 22) OR 7) \<and>
     event_served (tlists sample_event (EventQ 22)) (ev_set (events sample_event 22) OR 7) sample_event s' \<and>
     tlists s' (EventQ 22) = filter (\<lambda>t. tstat s' t = RT_THREAD_SUSPEND) (tlists sample_event (EventQ 22)) \<and>
     (\<forall>t \<in> set (tlists s' (EventQ 22)). threads s' t = threads sample_event t \<and>
        \<not> event_met (threads s' t) (ev_set (events s' 22))) \<and>
     (\<forall>t \<in> set (tlists sample_event (EventQ 22)) - set (tlists s' (EventQ 22)). runnable t s' \<and>
        delivered (ev_set (events sample_event 22) OR 7) (threads sample_event t) (threads s' t)) \<and>
     (\<forall>t. t \<notin> set (tlists sample_event (EventQ 22)) \<longrightarrow> threads s' t = threads sample_event t)"
  by (rule event_send_effect [OF sample_event_facts])

subsection \<open>Receiving\<close>

lemma event_recv_eq:
  assumes W: "may_wait t s" and ty: "obj_class a s = RT_Object_Class_Event" and nz: "flags \<noteq> 0"
    and opt: "opt AND (RT_EVENT_FLAG_AND OR RT_EVENT_FLAG_OR) \<noteq> 0"
  defines "cur \<equiv> ev_set (events s a)"
  shows "rt_event_recv a flags opt time s =
     (let s = upd_thread t (\<lambda>th. th\<lparr>th_error := RT_EOK\<rparr>) s in
       if event_met ((threads s t)\<lparr>event_set := flags, event_info := opt\<rparr>) cur then
         Some ((Ret RT_EOK, Some (cur AND flags)),
           if opt AND RT_EVENT_FLAG_CLEAR \<noteq> 0 then upd_event a (\<lambda>v. v AND NOT flags) s else s)
       else if time = 0 then
         Some ((Ret (- RT_ETIMEOUT), None), upd_thread t (\<lambda>th. th\<lparr>th_error := RT_ETIMEOUT\<rparr>) s)
       else do {
         let s = upd_thread t (\<lambda>th. th\<lparr>event_set := flags, event_info := opt\<rparr>) s;
         s \<leftarrow> ipc_wait (EventQ a) t (ipc_flag a s) time s;
         s \<leftarrow> rt_schedule s;
         Some (if cur_thread s = Some t then rt_event_recv_wake t s else (Blocked, None), s) })"
proof -
  let ?th = "(threads s t)\<lparr>event_set := flags, event_info := opt\<rparr>"
  have opt': "opt AND 1 \<noteq> 0 \<or> opt AND 2 \<noteq> 0" using opt unfolding bit.conj_disj_distrib by auto
  have met: "event_met ?th cur \<longleftrightarrow> (if opt AND 1 \<noteq> 0 then cur AND flags = flags else cur AND flags \<noteq> 0)"
    using and_eq_bits [of flags cur] and_neq0_bits [of flags cur] opt'
    by (auto simp: event_met_def and.commute [of cur])
  have e: "event_met ((threads (upd_thread t (\<lambda>th. th\<lparr>th_error := RT_EOK\<rparr>) s) t)\<lparr>event_set := flags, event_info := opt\<rparr>) cur = event_met ?th cur"
    by (simp add: event_met_def)
  show ?thesis
    unfolding Let_def e met using may_waitD [OF W] ty nz opt'
    by (simp add: rt_event_recv_def in_thread_context_def Let_def cur_def) blast
qed

lemma event_recv_refused:
  assumes W: "may_wait t s" and ty: "obj_class a s = RT_Object_Class_Event"
  shows "flags = 0 \<Longrightarrow> rt_event_recv a flags opt time s = Some ((Ret (- RT_ERROR), None), s)"
    and "\<lbrakk>flags \<noteq> 0; opt AND (RT_EVENT_FLAG_AND OR RT_EVENT_FLAG_OR) = 0\<rbrakk> \<Longrightarrow> rt_event_recv a flags opt time s = None"
proof -
  show "rt_event_recv a flags opt time s = Some ((Ret (- RT_ERROR), None), s)" if "flags = 0"
    using may_waitD [OF W] ty that by (simp add: rt_event_recv_def in_thread_context_def)
  show "rt_event_recv a flags opt time s = None" if "flags \<noteq> 0" "opt AND (RT_EVENT_FLAG_AND OR RT_EVENT_FLAG_OR) = 0"
  proof -
    have "opt AND 1 = 0" "opt AND 2 = 0"
      using that(2) unfolding bit.conj_disj_distrib by (auto simp: or_eq_0_iff)
    then show ?thesis using may_waitD [OF W] ty that(1) by (simp add: rt_event_recv_def in_thread_context_def Let_def)
  qed
qed

text \<open>The caller waits with its condition recorded, and the condition does not hold.\<close>

definition event_waits :: "nat \<Rightarrow> nat \<Rightarrow> u32 \<Rightarrow> u8 \<Rightarrow> kernel \<Rightarrow> kernel \<Rightarrow> bool" where
  "event_waits a t flags opt s s' = (kinv s' \<and> events s' = events s \<and> tstat s' t = RT_THREAD_SUSPEND \<and>
     tlists s' (EventQ a) = wait_order (ipc_flag a s) s t (tlists s (EventQ a)) \<and>
     event_set (threads s' t) = flags \<and> event_info (threads s' t) = opt \<and> th_error (threads s' t) = RT_EOK \<and>
     \<not> event_met (threads s' t) (ev_set (events s' a)))"

lemma event_recv_waits:
  assumes W: "may_wait t s" and ty: "obj_class a s = RT_Object_Class_Event" and nz: "flags \<noteq> 0"
    and opt: "opt AND (RT_EVENT_FLAG_AND OR RT_EVENT_FLAG_OR) \<noteq> 0"
    and fl: "ipc_flag a s = RT_IPC_FLAG_FIFO \<or> ipc_flag a s = RT_IPC_FLAG_PRIO"
    and un: "\<not> event_met ((threads s t)\<lparr>event_set := flags, event_info := opt\<rparr>) (ev_set (events s a))" and tm: "time \<noteq> 0"
  shows "if time = HALF_TICK then rt_event_recv a flags opt time s = None
     else if lock_nest s \<noteq> 0 then \<exists>s'. rt_event_recv a flags opt time s = Some ((Ret RT_EOK, Some flags), s') \<and>
       event_waits a t flags opt s s' \<and> cur_thread s' = Some t
     else \<exists>s' u. rt_event_recv a flags opt time s = Some ((Blocked, None), s') \<and>
       event_waits a t flags opt s s' \<and> cur_thread s' = Some u \<and> u \<noteq> t \<and> top_ready s' u"
proof -
  let ?u = "upd_thread t (\<lambda>th. th\<lparr>event_set := flags, event_info := opt\<rparr>) s"
  let ?b = "blocked_on (EventQ a) t (ipc_flag a s) time ?u"
  have v: "upd_thread t (\<lambda>th. th\<lparr>event_set := flags, event_info := opt\<rparr>) (upd_thread t (\<lambda>th. th\<lparr>th_error := RT_EOK\<rparr>) s) =
      upd_thread t (\<lambda>th. th\<lparr>th_error := RT_EOK\<rparr>) ?u"
    by (cases "threads s t") (simp add: upd_thread_def)
  have "kinv ?u" by (rule kinv_upd_thread [OF may_waitD(1) [OF W]]) simp_all
  moreover have "live ?u" by (rule live_upd_thread [OF may_waitD(2) [OF W]]) (simp_all add: stack_ok_def stack_check_def)
  ultimately have W': "may_wait t ?u" using W by (auto simp: may_wait_def)
  have e: "event_met ((threads (upd_thread t (\<lambda>th. th\<lparr>th_error := RT_EOK\<rparr>) s) t)\<lparr>event_set := flags, event_info := opt\<rparr>)
      (ev_set (events s a)) = event_met ((threads s t)\<lparr>event_set := flags, event_info := opt\<rparr>) (ev_set (events s a))"
    by (simp add: event_met_def)
  have recv: "rt_event_recv a flags opt time s = do {
      s \<leftarrow> ipc_wait (EventQ a) t (ipc_flag a s) time (upd_thread t (\<lambda>th. th\<lparr>th_error := RT_EOK\<rparr>) ?u);
      s \<leftarrow> rt_schedule s;
      Some (if cur_thread s = Some t then rt_event_recv_wake t s else (Blocked, None), s) }"
    using event_recv_eq [OF W ty nz opt, of time, unfolded Let_def e] un tm by (simp add: v [symmetric] ipc_flag_def)
  have o: "wait_order flag ?u x xs = wait_order flag s x xs" for flag x xs
  proof -
    have "(\<lambda>y. current_priority (threads ?u y)) = (\<lambda>y. current_priority (threads s y))" by (simp add: fun_eq_iff)
    then show ?thesis unfolding wait_order_def by simp
  qed
  have b: "event_set (threads ?b t) = flags" "event_info (threads ?b t) = opt" by (simp_all add: blocked_on_def)
  have m: "event_met (threads ?b t) x = event_met ((threads s t)\<lparr>event_set := flags, event_info := opt\<rparr>) x" for x
    by (simp add: event_met_def b)
  have wt: "event_waits a t flags opt s s'" if "kinv s'" "threads s' = threads ?b" "events s' = events s"
    "tlists s' (EventQ a) = wait_order (ipc_flag a s) ?u t (tlists s (EventQ a))" for s'
    unfolding event_waits_def that(2-4) o m using that(1) un by (simp add: b)
  consider "time = HALF_TICK" | "time \<noteq> HALF_TICK" "lock_nest s \<noteq> 0" | "time \<noteq> HALF_TICK" "lock_nest s = 0" by blast
  then show ?thesis
  proof cases
    case 1
    have "ipc_wait (EventQ a) t (ipc_flag a s) HALF_TICK (upd_thread t (\<lambda>th. th\<lparr>th_error := RT_EOK\<rparr>) ?u) = None"
      by (rule half_tick_stops [OF may_waitD(1,5) [OF may_wait_error [OF W']] _ fl]) simp
    then show ?thesis using recv 1 by simp
  next
    case 2
    note l = locked_wait [OF W' _ _ fl 2(1), of "EventQ a", simplified, OF 2(2)]
    have "rt_event_recv a flags opt time s = Some ((Ret RT_EOK, Some flags), ?b)"
      using recv l(1,2) l(3) by (simp add: stuck_on_def rt_event_recv_wake_def) (simp add: blocked_on_def)
    moreover have "event_waits a t flags opt s ?b" by (rule wt) (use l(3) in \<open>simp_all add: stuck_on_def\<close>)
    ultimately show ?thesis using 2 l(3) by (simp add: stuck_on_def)
  next
    case 3
    have C: "can_block t ?u" using may_waitD(6) [OF W'] 3(2) by simp
    obtain s' u where w: "ipc_wait (EventQ a) t (ipc_flag a s) time (upd_thread t (\<lambda>th. th\<lparr>th_error := RT_EOK\<rparr>) ?u) = Some ?b"
      "kinv ?b" "rt_schedule ?b = Some s'" "cur_thread s' = Some u" "u \<noteq> t" "top_ready ?b u"
      using block_switches [OF C _ fl 3(1), of "EventQ a"] by auto
    note f = rt_schedule_fields [OF w(3)]
    have "rt_event_recv a flags opt time s = Some ((Blocked, None), s')" using recv w by simp
    moreover have "event_waits a t flags opt s s'"
      by (rule wt) (use w f rt_schedule_kinv [OF w(3)] blocked_on_list [OF C, of "EventQ a"] in simp_all)
    ultimately show ?thesis using 3 w top_ready_cong [OF f(1,2)] by auto
  qed
qed

text \<open>C29: \<^verbatim>\<open>rt_event_recv\<close>, called by the running thread outside of interrupts, on an event set whose flag is FIFO or PRIO.
  For no flags it returns \<^verbatim>\<open>-RT_ERROR\<close>; with neither \<^verbatim>\<open>RT_EVENT_FLAG_AND\<close> nor \<^verbatim>\<open>RT_EVENT_FLAG_OR\<close> an assertion fails. When
  the condition holds it returns at once with the flags it asked for that are set and clears the set it asked for if told
  so; when it does not hold and the caller does not want to wait it returns \<^verbatim>\<open>-RT_ETIMEOUT\<close> and the flags do not change; a
  wait of exactly \<open>0x7FFFFFFF\<close> ticks fails an assertion. Otherwise the caller is suspended and queued with its condition
  recorded. With the scheduler unlocked (and another thread ready) the best ready thread runs; with the scheduler locked the
  call returns \<^verbatim>\<open>RT_EOK\<close> at once and reports all flags it asked for as received although its condition does not hold.\<close>

theorem event_recv_effect:
  assumes W: "may_wait t s" and ty: "obj_class a s = RT_Object_Class_Event"
    and fl: "ipc_flag a s = RT_IPC_FLAG_FIFO \<or> ipc_flag a s = RT_IPC_FLAG_PRIO"
  defines "cur \<equiv> ev_set (events s a)"
  shows "if flags = 0 then rt_event_recv a flags opt time s = Some ((Ret (- RT_ERROR), None), s)
     else if opt AND (RT_EVENT_FLAG_AND OR RT_EVENT_FLAG_OR) = 0 then rt_event_recv a flags opt time s = None
     else if event_met ((threads s t)\<lparr>event_set := flags, event_info := opt\<rparr>) cur
     then \<exists>s'. rt_event_recv a flags opt time s = Some ((Ret RT_EOK, Some (cur AND flags)), s') \<and>
       ev_set (events s' a) = (if opt AND RT_EVENT_FLAG_CLEAR \<noteq> 0 then cur AND NOT flags else cur)
     else if time = 0
     then \<exists>s'. rt_event_recv a flags opt time s = Some ((Ret (- RT_ETIMEOUT), None), s') \<and> events s' = events s
     else if time = HALF_TICK then rt_event_recv a flags opt time s = None
     else if lock_nest s \<noteq> 0
     then \<exists>s'. rt_event_recv a flags opt time s = Some ((Ret RT_EOK, Some flags), s') \<and>
       event_waits a t flags opt s s' \<and> cur_thread s' = Some t
     else \<exists>s' u. rt_event_recv a flags opt time s = Some ((Blocked, None), s') \<and>
       event_waits a t flags opt s s' \<and> cur_thread s' = Some u \<and> u \<noteq> t \<and> top_ready s' u"
proof -
  let ?th = "(threads s t)\<lparr>event_set := flags, event_info := opt\<rparr>"
  have e: "event_met ((threads (upd_thread t (\<lambda>th. th\<lparr>th_error := RT_EOK\<rparr>) s) t)\<lparr>event_set := flags, event_info := opt\<rparr>) cur = event_met ?th cur"
    by (simp add: event_met_def)
  consider "flags = 0" | "flags \<noteq> 0" "opt AND (RT_EVENT_FLAG_AND OR RT_EVENT_FLAG_OR) = 0"
    | "flags \<noteq> 0" "opt AND (RT_EVENT_FLAG_AND OR RT_EVENT_FLAG_OR) \<noteq> 0" "event_met ?th cur \<or> time = 0"
    | "flags \<noteq> 0" "opt AND (RT_EVENT_FLAG_AND OR RT_EVENT_FLAG_OR) \<noteq> 0" "\<not> event_met ?th cur" "time \<noteq> 0" by blast
  then show ?thesis
  proof cases
    case 1
    then show ?thesis using event_recv_refused(1) [OF W ty 1] by simp
  next
    case 2
    then show ?thesis using event_recv_refused(2) [OF W ty 2] by simp
  next
    case 3
    then show ?thesis
      using event_recv_eq [OF W ty 3(1,2), of time, folded cur_def, unfolded Let_def e] by (auto simp: Let_def cur_def)
  next
    case 4
    then show ?thesis using event_recv_waits [OF W ty 4(1,2) fl, of time] unfolding cur_def by simp
  qed
qed

theorem event_recv_effect_witness:
  "if (6 :: u32) = 0 then rt_event_recv 22 6 5 9 sample = Some ((Ret (- RT_ERROR), None), sample)
     else if (5 :: u8) AND (RT_EVENT_FLAG_AND OR RT_EVENT_FLAG_OR) = 0 then rt_event_recv 22 6 5 9 sample = None
     else if event_met ((threads sample 1)\<lparr>event_set := 6, event_info := 5\<rparr>) (ev_set (events sample 22))
     then \<exists>s'. rt_event_recv 22 6 5 9 sample = Some ((Ret RT_EOK, Some (ev_set (events sample 22) AND 6)), s') \<and>
       ev_set (events s' 22) = (if (5 :: u8) AND RT_EVENT_FLAG_CLEAR \<noteq> 0 then ev_set (events sample 22) AND NOT 6 else ev_set (events sample 22))
     else if (9 :: u32) = 0
     then \<exists>s'. rt_event_recv 22 6 5 9 sample = Some ((Ret (- RT_ETIMEOUT), None), s') \<and> events s' = events sample
     else if (9 :: u32) = HALF_TICK then rt_event_recv 22 6 5 9 sample = None
     else if lock_nest sample \<noteq> 0
     then \<exists>s'. rt_event_recv 22 6 5 9 sample = Some ((Ret RT_EOK, Some 6), s') \<and>
       event_waits 22 1 6 5 sample s' \<and> cur_thread s' = Some 1
     else \<exists>s' u. rt_event_recv 22 6 5 9 sample = Some ((Blocked, None), s') \<and>
       event_waits 22 1 6 5 sample s' \<and> cur_thread s' = Some u \<and> u \<noteq> 1 \<and> top_ready s' u"
  by (rule event_recv_effect) (simp_all add: can_block_may_wait sample_can_block [simplified])

end
