(* ===== verification/Queue_Correct.thy ===== *)
theory Queue_Correct
  imports Sem_Correct
begin

unbundle bit_operations_syntax

text \<open>
  What the mailboxes, message queues and memory pools promise at the level of the kernel
  calls: the calls on one object behave like a bounded queue, wake the right waiter, and lose
  no message block, however the copies of several threads interleave.
\<close>

subsection \<open>Waking one waiter\<close>

definition same_data :: "kernel \<Rightarrow> kernel \<Rightarrow> bool" where
  "same_data s s' = (sems s' = sems s \<and> mutexes s' = mutexes s \<and> events s' = events s \<and>
     mailboxes s' = mailboxes s \<and> msgqueues s' = msgqueues s \<and> mempools s' = mempools s \<and>
     (\<forall>y. obj_type (objects s' y) = obj_type (objects s y)) \<and> irq_nest s' = irq_nest s \<and> lock_nest s' = lock_nest s)"

lemma same_data_class: "same_data s s' \<Longrightarrow> obj_class a s' = obj_class a s"
  by (rule obj_class_cong) (simp add: same_data_def)

text \<open>The first waiter of a list has been made ready, if there was one, and the others still wait.\<close>

definition first_woken :: "lhead \<Rightarrow> kernel \<Rightarrow> kernel \<Rightarrow> bool" where
  "first_woken h s s' = (case tlists s h of
      [] \<Rightarrow> tlists s' h = []
    | t # ts \<Rightarrow> tlists s' h = ts \<and> runnable t s' \<and> th_error (threads s' t) = th_error (threads s t))"

lemma first_woken_cong:
  "\<lbrakk>tlists s1 h = tlists s h; \<And>t. th_error (threads s1 t) = th_error (threads s t)\<rbrakk> \<Longrightarrow> first_woken h s1 s' = first_woken h s s'"
  by (simp add: first_woken_def split: list.splits)

lemma wake_one_effect:
  assumes K: "kinv s" "live s" and h: "ipc_head h"
  shows "\<exists>s'. wake_one h s = Some s' \<and> kinv s' \<and> live s' \<and> same_data s s' \<and> tlists s' h = tl (tlists s h) \<and>
     first_woken h s s' \<and> (\<forall>t ts. tlists s h = t # ts \<longrightarrow> tstat s' t = RT_THREAD_READY \<and> th_error (threads s' t) = th_error (threads s t))"
proof (cases "tlists s h")
  case Nil
  then show ?thesis using K by (simp add: wake_one_def same_data_def first_woken_def)
next
  case (Cons t ts)
  note w = rt_ipc_list_resume_eq [OF K(1) h Cons]
  obtain s' where s': "rt_schedule (resumed t s) = Some s'" "kinv s'" "live s'"
    using schedule_total [OF w(2) live_resumed [OF K(2) w(4)]] by blast
  note f = rt_schedule_fields [OF s'(1)]
  have "runnable t s'" by (rule runnableI [OF s'(2)]) (simp add: f)
  then show ?thesis
    using s' f w(1,3) Cons by (auto simp: wake_one_def same_data_def first_woken_def)
qed

subsection \<open>Mailboxes\<close>

definition mb_ready :: "nat \<Rightarrow> kernel \<Rightarrow> bool" where
  "mb_ready a s = (kinv s \<and> live s \<and> obj_class a s = RT_Object_Class_MailBox \<and> mb_ok (mailboxes s a))"

lemma mb_update_wake:
  assumes R: "mb_ready a s" and m: "mb_ok m" and h: "ipc_head h"
  shows "\<exists>s'. wake_one h (upd_mb a (\<lambda>_. m) s) = Some s' \<and> mb_ready a s' \<and> mailboxes s' a = m \<and> first_woken h s s'"
proof -
  let ?u = "upd_mb a (\<lambda>_. m) s"
  have u: "kinv ?u" "live ?u" "obj_class a ?u = obj_class a s" "mailboxes ?u a = m" "tlists ?u = tlists s"
    using R kinv_cong [of ?u s] obj_class_cong [of ?u s a] by (simp_all add: mb_ready_def upd_mb_def live_def)
  have c: "first_woken h ?u s' = first_woken h s s'" for s' by (rule first_woken_cong) (simp_all add: upd_mb_def)
  obtain s' where "wake_one h ?u = Some s'" "kinv s'" "live s'" "same_data ?u s'" "first_woken h s s'"
    using wake_one_effect [OF u(1,2) h] by (auto simp: c)
  then show ?thesis using R m u(3,4) same_data_class [of ?u s' a] by (auto simp: mb_ready_def same_data_def)
qed

lemma mb_room: "mb_ok m \<Longrightarrow> mb_entry m \<noteq> mb_size m \<Longrightarrow> unat (mb_entry m) < unat (mb_size m)"
  by (metis mb_ok_def order_le_less word_unat_eq_iff)

lemma mb_send_puts:
  assumes R: "mb_ready a s" and n: "length (mb_list (mailboxes s a)) < unat (mb_size (mailboxes s a))"
  shows "\<exists>s'. rt_mb_send_wait a v timeout s = Some (Ret RT_EOK, s') \<and> mb_ready a s' \<and>
     mb_size (mailboxes s' a) = mb_size (mailboxes s a) \<and>
     mb_list (mailboxes s' a) = mb_list (mailboxes s a) @ [v] \<and> first_woken (MbQ a) s s'"
proof -
  have ne: "mb_entry (mailboxes s a) \<noteq> mb_size (mailboxes s a)" using n by auto
  obtain m where m: "mb_put v (mailboxes s a) = Some m" "mb_ok m" "mb_size m = mb_size (mailboxes s a)"
    "mb_list m = mb_list (mailboxes s a) @ [v]"
    using mb_put_fifo [of "mailboxes s a" v] R n by (auto simp: mb_ready_def)
  obtain s' where "wake_one (MbQ a) (upd_mb a (\<lambda>_. m) s) = Some s'" "mb_ready a s'" "mailboxes s' a = m"
    "first_woken (MbQ a) s s'"
    using mb_update_wake [OF R m(2), of "MbQ a"] by auto
  then show ?thesis using m ne R
    by (simp add: rt_mb_send_wait_def mb_send_loop.simps mb_deliver_def mb_ready_def)
qed

lemma mb_urgent_puts:
  assumes R: "mb_ready a s" and n: "length (mb_list (mailboxes s a)) < unat (mb_size (mailboxes s a))"
  shows "\<exists>s'. rt_mb_urgent a v s = Some (RT_EOK, s') \<and> mb_ready a s' \<and>
     mb_size (mailboxes s' a) = mb_size (mailboxes s a) \<and>
     mb_list (mailboxes s' a) = v # mb_list (mailboxes s a) \<and> first_woken (MbQ a) s s'"
proof -
  have ne: "mb_entry (mailboxes s a) \<noteq> mb_size (mailboxes s a)" using n by auto
  obtain m where m: "mb_put_front v (mailboxes s a) = Some m" "mb_ok m" "mb_size m = mb_size (mailboxes s a)"
    "mb_list m = v # mb_list (mailboxes s a)"
    using mb_put_front_fifo [of "mailboxes s a" v] R n by (auto simp: mb_ready_def)
  obtain s' where "wake_one (MbQ a) (upd_mb a (\<lambda>_. m) s) = Some s'" "mb_ready a s'" "mailboxes s' a = m"
    "first_woken (MbQ a) s s'"
    using mb_update_wake [OF R m(2), of "MbQ a"] by auto
  then show ?thesis using m ne R by (simp add: rt_mb_urgent_def mb_ready_def)
qed

lemma mb_recv_gets:
  assumes R: "mb_ready a s" and c: "mb_list (mailboxes s a) = v # vs"
  shows "\<exists>s'. rt_mb_recv a timeout s = Some ((Ret RT_EOK, Some v), s') \<and> mb_ready a s' \<and>
     mb_size (mailboxes s' a) = mb_size (mailboxes s a) \<and> mb_list (mailboxes s' a) = vs \<and>
     first_woken (MbSendQ a) s s'"
proof -
  have "length (mb_list (mailboxes s a)) \<noteq> 0" using c by simp
  then have ne: "mb_entry (mailboxes s a) \<noteq> 0" by auto
  obtain m where m: "mb_get (mailboxes s a) = Some (v, m)" "mb_ok m" "mb_size m = mb_size (mailboxes s a)" "mb_list m = vs"
    using mb_get_fifo [OF _ c] R by (auto simp: mb_ready_def)
  obtain s' where "wake_one (MbSendQ a) (upd_mb a (\<lambda>_. m) s) = Some s'" "mb_ready a s'" "mailboxes s' a = m"
    "first_woken (MbSendQ a) s s'"
    using mb_update_wake [OF R m(2), of "MbSendQ a"] by auto
  then show ?thesis using m ne R
    by (simp add: rt_mb_recv_def mb_recv_loop.simps mb_fetch_def mb_ready_def)
qed

text \<open>The calls that do not wait, as a bounded queue with an urgent end.\<close>

definition mb_call_send :: "nat \<Rightarrow> u32 \<Rightarrow> kernel \<Rightarrow> kernel option" where
  "mb_call_send a v s = (case rt_mb_send a v s of Some (Ret e, s') \<Rightarrow> if e = RT_EOK then Some s' else None | _ \<Rightarrow> None)"

definition mb_call_urgent :: "nat \<Rightarrow> u32 \<Rightarrow> kernel \<Rightarrow> kernel option" where
  "mb_call_urgent a v s = (case rt_mb_urgent a v s of Some (e, s') \<Rightarrow> if e = RT_EOK then Some s' else None | _ \<Rightarrow> None)"

definition mb_call_recv :: "nat \<Rightarrow> kernel \<Rightarrow> (u32 \<times> kernel) option" where
  "mb_call_recv a s = (case rt_mb_recv a 0 s of Some ((Ret _, Some v), s') \<Rightarrow> Some (v, s') | _ \<Rightarrow> None)"

interpretation mb_calls: bounded_deque "mb_ready a" "\<lambda>s. unat (mb_size (mailboxes s a))"
    "\<lambda>s. mb_list (mailboxes s a)" "\<lambda>_ _. True" "mb_call_send a" "mb_call_recv a" "mb_call_urgent a" for a
proof unfold_locales
  show "\<exists>s'. mb_call_send a v s = Some s' \<and> mb_ready a s' \<and> unat (mb_size (mailboxes s' a)) = unat (mb_size (mailboxes s a)) \<and>
      (\<lambda>_. True) = (\<lambda>_. True) \<and> mb_list (mailboxes s' a) = mb_list (mailboxes s a) @ [v]"
    if "mb_ready a s" "True" "length (mb_list (mailboxes s a)) < unat (mb_size (mailboxes s a))" for s v
    using mb_send_puts [OF that(1,3), of v 0] by (auto simp: mb_call_send_def rt_mb_send_def)
  show "\<exists>s'. mb_call_urgent a v s = Some s' \<and> mb_ready a s' \<and> unat (mb_size (mailboxes s' a)) = unat (mb_size (mailboxes s a)) \<and>
      (\<lambda>_. True) = (\<lambda>_. True) \<and> mb_list (mailboxes s' a) = v # mb_list (mailboxes s a)"
    if "mb_ready a s" "True" "length (mb_list (mailboxes s a)) < unat (mb_size (mailboxes s a))" for s v
    using mb_urgent_puts [OF that(1,3), of v] by (auto simp: mb_call_urgent_def)
  show "\<exists>s'. mb_call_recv a s = Some (v, s') \<and> mb_ready a s' \<and> unat (mb_size (mailboxes s' a)) = unat (mb_size (mailboxes s a)) \<and>
      (\<lambda>_. True) = (\<lambda>_. True) \<and> mb_list (mailboxes s' a) = vs"
    if "mb_ready a s" "mb_list (mailboxes s a) = v # vs" for s v vs
    using mb_recv_gets [OF that, of 0] by (auto simp: mb_call_recv_def)
qed

text \<open>The mails sent to an empty mailbox with \<^verbatim>\<open>rt_mb_send\<close>, up to its capacity, are received by
  as many calls of \<^verbatim>\<open>rt_mb_recv\<close> in the order in which they were sent; none of the calls fails
  or blocks, and the mailbox is empty again.\<close>

theorem mailbox_fifo:
  assumes "mb_ready a s" and "mb_list (mailboxes s a) = []" and "length vs \<le> unat (mb_size (mailboxes s a))"
  shows "\<exists>s1 s2. put_all (mb_call_send a) vs s = Some s1 \<and> get_n (mb_call_recv a) (length vs) s1 = Some (vs, s2) \<and>
     mb_ready a s2 \<and> mb_list (mailboxes s2 a) = []"
  using mb_calls.fifo_order [of a s vs] assms by simp

lemma sample_mb_ready: "mb_ready 23 sample" "mb_list (mailboxes sample 23) = []" "mb_size (mailboxes sample 23) = 2"
  by (simp_all add: mb_ready_def sample_kinv sample_live mb_ok_def mb_list_def ring_list_def)
     (simp_all add: sample_base_def new_mailbox_def)

theorem mailbox_fifo_witness:
  "\<exists>s1 s2. put_all (mb_call_send 23) [7, 9] sample = Some s1 \<and>
     get_n (mb_call_recv 23) (length [7, 9 :: u32]) s1 = Some ([7, 9], s2) \<and>
     mb_ready 23 s2 \<and> mb_list (mailboxes s2 23) = []"
  by (rule mailbox_fifo) (simp_all add: sample_mb_ready [simplified])

lemma mailbox_call_cases:
  assumes R: "mb_ready a s"
  defines "m \<equiv> mailboxes s a"
  shows "if mb_entry m = mb_size m
     then rt_mb_send a v s = Some (Ret (- RT_EFULL), s) \<and> rt_mb_urgent a v s = Some (- RT_EFULL, s)
     else (\<exists>s'. rt_mb_send_wait a v time s = Some (Ret RT_EOK, s') \<and> mb_ready a s' \<and>
         mb_list (mailboxes s' a) = mb_list m @ [v] \<and> first_woken (MbQ a) s s') \<and>
       (\<exists>s'. rt_mb_urgent a v s = Some (RT_EOK, s') \<and> mb_ready a s' \<and>
         mb_list (mailboxes s' a) = v # mb_list m \<and> first_woken (MbQ a) s s')"
    and "case mb_list m of
       [] \<Rightarrow> rt_mb_recv a 0 s = Some ((Ret (- RT_ETIMEOUT), None), s)
     | w # ws \<Rightarrow> \<exists>s'. rt_mb_recv a time s = Some ((Ret RT_EOK, Some w), s') \<and> mb_ready a s' \<and>
         mb_list (mailboxes s' a) = ws \<and> first_woken (MbSendQ a) s s'"
proof -
  have ty: "obj_class a s = RT_Object_Class_MailBox" using R by (simp add: mb_ready_def)
  have room: "length (mb_list (mailboxes s a)) < unat (mb_size (mailboxes s a))" if "mb_entry m \<noteq> mb_size m"
    using mb_room [of m] R that by (simp add: mb_ready_def m_def)
  show "if mb_entry m = mb_size m
     then rt_mb_send a v s = Some (Ret (- RT_EFULL), s) \<and> rt_mb_urgent a v s = Some (- RT_EFULL, s)
     else (\<exists>s'. rt_mb_send_wait a v time s = Some (Ret RT_EOK, s') \<and> mb_ready a s' \<and>
         mb_list (mailboxes s' a) = mb_list m @ [v] \<and> first_woken (MbQ a) s s') \<and>
       (\<exists>s'. rt_mb_urgent a v s = Some (RT_EOK, s') \<and> mb_ready a s' \<and>
         mb_list (mailboxes s' a) = v # mb_list m \<and> first_woken (MbQ a) s s')"
    using mb_send_puts [OF R room, of v time] mb_urgent_puts [OF R room, of v] ty
    by (auto simp: rt_mb_send_def rt_mb_send_wait_def rt_mb_urgent_def m_def)
  show "case mb_list m of
       [] \<Rightarrow> rt_mb_recv a 0 s = Some ((Ret (- RT_ETIMEOUT), None), s)
     | w # ws \<Rightarrow> \<exists>s'. rt_mb_recv a time s = Some ((Ret RT_EOK, Some w), s') \<and> mb_ready a s' \<and>
         mb_list (mailboxes s' a) = ws \<and> first_woken (MbSendQ a) s s'"
  proof (cases "mb_list m")
    case Nil
    then have "length (mb_list m) = 0" by simp
    then have "mb_entry (mailboxes s a) = 0" by (simp add: m_def unat_eq_0)
    then show ?thesis using Nil ty by (simp add: rt_mb_recv_def)
  next
    case (Cons w ws)
    then show ?thesis using mb_recv_gets [OF R, of w ws time] by (auto simp: m_def)
  qed
qed

text \<open>C11: On a well-formed mailbox of a running kernel, the mailbox calls that find what they need, whatever the time to wait, and those that do not and may not wait. A
  send to a mailbox with room appends the mail, an urgent send puts it in front of all others, and both wake the first
  waiting receiver, if there is one: it leaves the waiting list, is ready, in its ready queue, with its timer stopped and no
  error. On a full mailbox \<^verbatim>\<open>rt_mb_send\<close> and \<^verbatim>\<open>rt_mb_urgent\<close> return \<^verbatim>\<open>-RT_EFULL\<close> and change nothing. A receive from a mailbox
  that is not empty takes the oldest mail and wakes the first waiting sender in the same way; from an empty mailbox,
  with the time 0, it returns \<^verbatim>\<open>-RT_ETIMEOUT\<close> and changes nothing.\<close>

theorem mailbox_calls:
  assumes "mb_ready a s"
  shows "(if mb_entry (mailboxes s a) = mb_size (mailboxes s a)
     then rt_mb_send a v s = Some (Ret (- RT_EFULL), s) \<and> rt_mb_urgent a v s = Some (- RT_EFULL, s)
     else (\<exists>s'. rt_mb_send_wait a v time s = Some (Ret RT_EOK, s') \<and> mb_ready a s' \<and>
         mb_list (mailboxes s' a) = mb_list (mailboxes s a) @ [v] \<and> first_woken (MbQ a) s s') \<and>
       (\<exists>s'. rt_mb_urgent a v s = Some (RT_EOK, s') \<and> mb_ready a s' \<and>
         mb_list (mailboxes s' a) = v # mb_list (mailboxes s a) \<and> first_woken (MbQ a) s s')) \<and>
     (case mb_list (mailboxes s a) of
       [] \<Rightarrow> rt_mb_recv a 0 s = Some ((Ret (- RT_ETIMEOUT), None), s)
     | w # ws \<Rightarrow> \<exists>s'. rt_mb_recv a time s = Some ((Ret RT_EOK, Some w), s') \<and> mb_ready a s' \<and>
         mb_list (mailboxes s' a) = ws \<and> first_woken (MbSendQ a) s s')"
  using mailbox_call_cases [OF assms] by blast

theorem mailbox_calls_witness:
  "(if mb_entry (mailboxes sample 23) = mb_size (mailboxes sample 23)
     then rt_mb_send 23 5 sample = Some (Ret (- RT_EFULL), sample) \<and> rt_mb_urgent 23 5 sample = Some (- RT_EFULL, sample)
     else (\<exists>s'. rt_mb_send_wait 23 5 0 sample = Some (Ret RT_EOK, s') \<and> mb_ready 23 s' \<and>
         mb_list (mailboxes s' 23) = mb_list (mailboxes sample 23) @ [5] \<and> first_woken (MbQ 23) sample s') \<and>
       (\<exists>s'. rt_mb_urgent 23 5 sample = Some (RT_EOK, s') \<and> mb_ready 23 s' \<and>
         mb_list (mailboxes s' 23) = 5 # mb_list (mailboxes sample 23) \<and> first_woken (MbQ 23) sample s')) \<and>
     (case mb_list (mailboxes sample 23) of
       [] \<Rightarrow> rt_mb_recv 23 0 sample = Some ((Ret (- RT_ETIMEOUT), None), sample)
     | w # ws \<Rightarrow> \<exists>s'. rt_mb_recv 23 0 sample = Some ((Ret RT_EOK, Some w), s') \<and> mb_ready 23 s' \<and>
         mb_list (mailboxes s' 23) = ws \<and> first_woken (MbSendQ 23) sample s')"
  by (rule mailbox_calls) (simp add: sample_mb_ready)

end
