(* ===== verification/Msgqueue_Correct.thy ===== *)
theory Msgqueue_Correct
  imports Queue_Correct
begin

unbundle bit_operations_syntax

text \<open>
  Message queues: the calls as a bounded queue, and the pool of message blocks under every
  interleaving of the critical sections of sends, receives and resets.
\<close>

subsection \<open>Calls\<close>

definition mq_ready :: "nat \<Rightarrow> kernel \<Rightarrow> bool" where
  "mq_ready a s = (kinv s \<and> live s \<and> obj_class a s = RT_Object_Class_MessageQueue \<and> mq_ok (msgqueues s a) \<and>
     0 < mq_msg_size (msgqueues s a))"

lemma upd_mq_twice [simp]: "upd_mq a f (upd_mq a g s) = upd_mq a (\<lambda>m. f (g m)) s"
  by (simp add: upd_mq_def)

lemma upd_mq_const: "upd_mq a f s = upd_mq a (\<lambda>_. f (msgqueues s a)) s"
  by (simp add: upd_mq_def)

lemma upd_mq_fields [simp]: "msgqueues (upd_mq a f s) a = f (msgqueues s a)" "tlists (upd_mq a f s) = tlists s"
  by (simp_all add: upd_mq_def)

lemma mq_update_wake:
  assumes R: "mq_ready a s" and m: "mq_ok m" "mq_msg_size m = mq_msg_size (msgqueues s a)" and h: "ipc_head h"
  shows "\<exists>s'. wake_one h (upd_mq a (\<lambda>_. m) s) = Some s' \<and> mq_ready a s' \<and> msgqueues s' a = m \<and> tlists s' h = tl (tlists s h)"
proof -
  let ?u = "upd_mq a (\<lambda>_. m) s"
  have u: "kinv ?u" "live ?u" "obj_class a ?u = obj_class a s" "msgqueues ?u a = m" "tlists ?u = tlists s"
    using R kinv_cong [of ?u s] obj_class_cong [of ?u s a] by (simp_all add: mq_ready_def upd_mq_def live_def)
  obtain s' where "wake_one h ?u = Some s'" "kinv s'" "live s'" "same_data ?u s'" "tlists s' h = tl (tlists s h)"
    using wake_one_effect [OF u(1,2) h] u(5) by auto
  then show ?thesis using R m u(3,4) same_data_class [of ?u s' a] by (auto simp: mq_ready_def same_data_def)
qed

lemma mq_send_put:
  assumes "obj_class a s = RT_Object_Class_MessageQueue" and "length bs \<le> unat (mq_msg_size (msgqueues s a))"
    and "mq_put bs (msgqueues s a) = Some m"
  shows "rt_mq_send a (Some bs) (length bs) s =
     map_option (\<lambda>s. (RT_EOK, s)) (wake_one (MqQ a) (upd_mq a (\<lambda>_. m) s))"
proof -
  obtain i n where i: "mq_free (msgqueues s a) = Some i"
    "mq_fill i (Some bs) (length bs) ((mq_take_free i (msgqueues s a))\<lparr>mq_next := (mq_next (msgqueues s a))(i := None)\<rparr>) = Some n"
    "m = mq_link_tail i n"
    using assms(3) by (auto simp: mq_put_def)
  have nx: "mq_next (mq_take_free i (msgqueues s a)) = mq_next (msgqueues s a)" by (simp add: mq_take_free_def)
  show ?thesis using assms(1,2) i nx
    by (cases "wake_one (MqQ a) (upd_mq a (\<lambda>_. m) s)") (simp_all add: rt_mq_send_def mq_reserve_def mq_commit_def)
qed

lemma mq_urgent_put:
  assumes "obj_class a s = RT_Object_Class_MessageQueue" and "length bs \<le> unat (mq_msg_size (msgqueues s a))"
    and "mq_put_front bs (msgqueues s a) = Some m"
  shows "rt_mq_urgent a (Some bs) (length bs) s =
     map_option (\<lambda>s. (RT_EOK, s)) (wake_one (MqQ a) (upd_mq a (\<lambda>_. m) s))"
proof -
  obtain i n where i: "mq_free (msgqueues s a) = Some i"
    "mq_fill i (Some bs) (length bs) (mq_take_free i (msgqueues s a)) = Some n" "m = mq_link_head i n"
    using assms(3) by (auto simp: mq_put_front_def)
  show ?thesis using assms(1,2) i
    by (cases "wake_one (MqQ a) (upd_mq a (\<lambda>_. m) s)") (simp_all add: rt_mq_urgent_def mq_reserve_def mq_commit_def)
qed

lemma mq_recv_get:
  assumes ty: "obj_class a s = RT_Object_Class_MessageQueue" and sz: "0 < mq_msg_size (msgqueues s a)"
    and e: "mq_entry (msgqueues s a) \<noteq> 0" and g: "mq_get (msgqueues s a) = Some (bs, m)"
  shows "rt_mq_recv a (unat (mq_msg_size (msgqueues s a))) timeout s =
     map_option (\<lambda>s. ((Ret RT_EOK, Some bs), s)) (wake_one (MqSendQ a) (upd_mq a (\<lambda>_. m) s))"
proof -
  obtain i n where i: "mq_unlink_head (msgqueues s a) = Some (i, n)"
    "bs = take (unat (mq_msg_size n)) (mq_data n i)" "m = mq_release i n"
    using g by (auto simp: mq_get_def)
  have "mq_msg_size n = mq_msg_size (msgqueues s a)" using i(1) by (auto simp: mq_unlink_head_def)
  moreover have "unat (mq_msg_size (msgqueues s a)) \<noteq> 0" using sz by (simp add: word_gt_0 unat_eq_0)
  ultimately show ?thesis using ty e i
    by (cases "wake_one (MqSendQ a) (upd_mq a (\<lambda>_. m) s)")
       (simp_all add: rt_mq_recv_def mq_recv_loop.simps mq_fetch_def Let_def)
qed

definition mq_call_send :: "nat \<Rightarrow> u8 list \<Rightarrow> kernel \<Rightarrow> kernel option" where
  "mq_call_send a bs s = (case rt_mq_send a (Some bs) (length bs) s of
     Some (e, s') \<Rightarrow> if e = RT_EOK then Some s' else None | _ \<Rightarrow> None)"

definition mq_call_urgent :: "nat \<Rightarrow> u8 list \<Rightarrow> kernel \<Rightarrow> kernel option" where
  "mq_call_urgent a bs s = (case rt_mq_urgent a (Some bs) (length bs) s of
     Some (e, s') \<Rightarrow> if e = RT_EOK then Some s' else None | _ \<Rightarrow> None)"

definition mq_call_recv :: "nat \<Rightarrow> kernel \<Rightarrow> (u8 list \<times> kernel) option" where
  "mq_call_recv a s = (case rt_mq_recv a (unat (mq_msg_size (msgqueues s a))) 0 s of
     Some ((Ret _, Some bs), s') \<Rightarrow> Some (bs, s') | _ \<Rightarrow> None)"

lemma mq_msgs_entry: "mq_ok m \<Longrightarrow> mq_msgs m \<noteq> [] \<Longrightarrow> mq_entry m \<noteq> 0"
  by (auto simp: mq_msgs_def mq_slots_def)

lemma mq_calls_put:
  assumes R: "mq_ready a s" and bs: "length bs = unat (mq_msg_size (msgqueues s a))"
    and l: "length (mq_msgs (msgqueues s a)) < unat (mq_max_msgs (msgqueues s a))"
  shows "\<exists>s'. mq_call_send a bs s = Some s' \<and> mq_ready a s' \<and> mq_max_msgs (msgqueues s' a) = mq_max_msgs (msgqueues s a) \<and>
      mq_msg_size (msgqueues s' a) = mq_msg_size (msgqueues s a) \<and> mq_msgs (msgqueues s' a) = mq_msgs (msgqueues s a) @ [bs]"
    and "\<exists>s'. mq_call_urgent a bs s = Some s' \<and> mq_ready a s' \<and> mq_max_msgs (msgqueues s' a) = mq_max_msgs (msgqueues s a) \<and>
      mq_msg_size (msgqueues s' a) = mq_msg_size (msgqueues s a) \<and> mq_msgs (msgqueues s' a) = bs # mq_msgs (msgqueues s a)"
proof -
  have ok: "mq_ok (msgqueues s a)" "obj_class a s = RT_Object_Class_MessageQueue" using R by (auto simp: mq_ready_def)
  obtain m where m: "mq_put bs (msgqueues s a) = Some m" "mq_ok m" "mq_max_msgs m = mq_max_msgs (msgqueues s a)"
    "mq_msg_size m = mq_msg_size (msgqueues s a)" "mq_msgs m = mq_msgs (msgqueues s a) @ [bs]"
    using mq_put_fifo [OF ok(1) bs l] by blast
  obtain s' where "wake_one (MqQ a) (upd_mq a (\<lambda>_. m) s) = Some s'" "mq_ready a s'" "msgqueues s' a = m"
    using mq_update_wake [OF R m(2,4), of "MqQ a"] by auto
  then show "\<exists>s'. mq_call_send a bs s = Some s' \<and> mq_ready a s' \<and> mq_max_msgs (msgqueues s' a) = mq_max_msgs (msgqueues s a) \<and>
      mq_msg_size (msgqueues s' a) = mq_msg_size (msgqueues s a) \<and> mq_msgs (msgqueues s' a) = mq_msgs (msgqueues s a) @ [bs]"
    using mq_send_put [OF ok(2) _ m(1)] bs m(3-5) by (simp add: mq_call_send_def)
  obtain m where m: "mq_put_front bs (msgqueues s a) = Some m" "mq_ok m" "mq_max_msgs m = mq_max_msgs (msgqueues s a)"
    "mq_msg_size m = mq_msg_size (msgqueues s a)" "mq_msgs m = bs # mq_msgs (msgqueues s a)"
    using mq_put_front_fifo [OF ok(1) bs l] by blast
  obtain s' where "wake_one (MqQ a) (upd_mq a (\<lambda>_. m) s) = Some s'" "mq_ready a s'" "msgqueues s' a = m"
    using mq_update_wake [OF R m(2,4), of "MqQ a"] by auto
  then show "\<exists>s'. mq_call_urgent a bs s = Some s' \<and> mq_ready a s' \<and> mq_max_msgs (msgqueues s' a) = mq_max_msgs (msgqueues s a) \<and>
      mq_msg_size (msgqueues s' a) = mq_msg_size (msgqueues s a) \<and> mq_msgs (msgqueues s' a) = bs # mq_msgs (msgqueues s a)"
    using mq_urgent_put [OF ok(2) _ m(1)] bs m(3-5) by (simp add: mq_call_urgent_def)
qed

lemma mq_calls_get:
  assumes R: "mq_ready a s" and c: "mq_msgs (msgqueues s a) = v # vs"
  shows "\<exists>s'. mq_call_recv a s = Some (v, s') \<and> mq_ready a s' \<and> mq_max_msgs (msgqueues s' a) = mq_max_msgs (msgqueues s a) \<and>
      mq_msg_size (msgqueues s' a) = mq_msg_size (msgqueues s a) \<and> mq_msgs (msgqueues s' a) = vs"
proof -
  have ok: "mq_ok (msgqueues s a)" "obj_class a s = RT_Object_Class_MessageQueue" "0 < mq_msg_size (msgqueues s a)"
    using R by (auto simp: mq_ready_def)
  obtain m where m: "mq_get (msgqueues s a) = Some (v, m)" "mq_ok m" "mq_max_msgs m = mq_max_msgs (msgqueues s a)"
    "mq_msg_size m = mq_msg_size (msgqueues s a)" "mq_msgs m = vs"
    using mq_get_fifo [OF ok(1) c] by blast
  obtain s' where s': "wake_one (MqSendQ a) (upd_mq a (\<lambda>_. m) s) = Some s'" "mq_ready a s'" "msgqueues s' a = m"
    using mq_update_wake [OF R m(2,4), of "MqSendQ a"] by auto
  have "mq_entry (msgqueues s a) \<noteq> 0" using mq_msgs_entry [OF ok(1)] c by simp
  then show ?thesis using mq_recv_get [OF ok(2,3) _ m(1), of 0] s' m(3-5) by (simp add: mq_call_recv_def)
qed

interpretation mq_calls: bounded_deque "mq_ready a" "\<lambda>s. unat (mq_max_msgs (msgqueues s a))"
    "\<lambda>s. mq_msgs (msgqueues s a)" "\<lambda>s bs. length bs = unat (mq_msg_size (msgqueues s a))"
    "mq_call_send a" "mq_call_recv a" "mq_call_urgent a" for a
  by unfold_locales (use mq_calls_put mq_calls_get in \<open>fastforce simp: fun_eq_iff\<close>)+

text \<open>C26: Messages of the queue's size sent to an empty message queue with \<^verbatim>\<open>rt_mq_send\<close>, up to its
  capacity, are received by as many calls of \<^verbatim>\<open>rt_mq_recv\<close>, byte for byte and in the order in
  which they were sent; none of the calls fails or blocks.\<close>

theorem msgqueue_fifo:
  assumes "mq_ready a s" and "mq_msgs (msgqueues s a) = []" and "length ms \<le> unat (mq_max_msgs (msgqueues s a))"
    and "\<forall>bs \<in> set ms. length bs = unat (mq_msg_size (msgqueues s a))"
  shows "\<exists>s1 s2. put_all (mq_call_send a) ms s = Some s1 \<and> get_n (mq_call_recv a) (length ms) s1 = Some (ms, s2) \<and>
     mq_ready a s2 \<and> mq_msgs (msgqueues s2 a) = []"
  using mq_calls.fifo_order [of a s ms] assms by simp

text \<open>A message sent with \<^verbatim>\<open>rt_mq_urgent\<close> to a queue with room is the next one received, before
  all messages that were already queued, and receiving it leaves those as they were.\<close>

theorem msgqueue_urgent_first:
  assumes "mq_ready a s" and "length bs = unat (mq_msg_size (msgqueues s a))"
    and "length (mq_msgs (msgqueues s a)) < unat (mq_max_msgs (msgqueues s a))"
  shows "\<exists>s1 s2. mq_call_urgent a bs s = Some s1 \<and> mq_call_recv a s1 = Some (bs, s2) \<and>
     mq_ready a s2 \<and> mq_msgs (msgqueues s2 a) = mq_msgs (msgqueues s a)"
  using mq_calls.urgent_first [of a s bs] assms by simp

lemma sample_mq_ok: "mq_ok sample_mq" "mq_msgs sample_mq = []" "mq_msg_size sample_mq = 4" "mq_max_msgs sample_mq = 2"
proof -
  let ?m = "\<lparr>mq_msg_size = 4, mq_max_msgs = 2, mq_entry = 0, mq_next = \<lambda>_. None,
     mq_data = \<lambda>_. [0, 0, 0, 0], mq_head = None, mq_tail = None, mq_free = None\<rparr>"
  have S: "mq_shape sample_mq [] (rev [0..<unat (mq_max_msgs ?m)]) {}"
    unfolding sample_mq_def by (rule mq_build_shape)
  have d: "mq_data sample_mq = (\<lambda>_. [0, 0, 0, 0])" "mq_msg_size sample_mq = 4" "mq_max_msgs sample_mq = 2"
    by (simp_all add: sample_mq_def mq_build_def mq_push_free_def upt_rec)
  show "mq_msg_size sample_mq = 4" "mq_max_msgs sample_mq = 2" using d by simp_all
  show "mq_ok sample_mq" using S mq_slots_shape [OF S] d by (auto simp: mq_ok_def)
  show "mq_msgs sample_mq = []" using mq_slots_shape [OF S] by (simp add: mq_msgs_def)
qed

lemma sample_mq_at: "msgqueues sample 24 = sample_mq"
  by simp (simp add: sample_base_def)

lemma sample_mq_ready: "mq_ready 24 sample"
  unfolding mq_ready_def sample_mq_at by (simp add: sample_kinv sample_live sample_mq_ok)

theorem msgqueue_fifo_witness:
  "\<exists>s1 s2. put_all (mq_call_send 24) [[1, 2, 3, 4], [5, 6, 7, 8]] sample = Some s1 \<and>
     get_n (mq_call_recv 24) (length [[1, 2, 3, 4], [5, 6, 7, 8 :: u8]]) s1 = Some ([[1, 2, 3, 4], [5, 6, 7, 8]], s2) \<and>
     mq_ready 24 s2 \<and> mq_msgs (msgqueues s2 24) = []"
  by (rule msgqueue_fifo [OF sample_mq_ready]) (simp_all only: sample_mq_at, simp_all add: sample_mq_ok)

theorem msgqueue_urgent_first_witness:
  "\<exists>s1 s2. mq_call_urgent 24 [1, 2, 3, 4] sample = Some s1 \<and> mq_call_recv 24 s1 = Some ([1, 2, 3, 4], s2) \<and>
     mq_ready 24 s2 \<and> mq_msgs (msgqueues s2 24) = mq_msgs (msgqueues sample 24)"
  by (rule msgqueue_urgent_first [OF sample_mq_ready]) (simp_all only: sample_mq_at, simp_all add: sample_mq_ok)

subsection \<open>Interleaved sends and receives\<close>

text \<open>
  Sending and receiving copy the message with interrupts enabled, between two critical
  sections, so other threads may run there. \<open>F\<close> records the blocks that are then in the
  hands of a thread: taken off the free list by a sender (and, in \<^verbatim>\<open>rt_mq_send\<close>, with its
  link cleared), or off the queue by a receiver. One step is one critical section or one copy.
\<close>

datatype flight = Reserved | Cleared | Fetched

inductive mq_inter :: "rt_messagequeue \<times> (nat \<Rightarrow> flight option) \<Rightarrow> rt_messagequeue \<times> (nat \<Rightarrow> flight option) \<Rightarrow> bool" where
  reserve: "mq_free m = Some i \<Longrightarrow> mq_inter (m, F) (mq_take_free i m, F(i := Some Reserved))"
| clear: "F i = Some Reserved \<Longrightarrow> mq_inter (m, F) (m\<lparr>mq_next := (mq_next m)(i := None)\<rparr>, F(i := Some Cleared))"
| fill: "\<lbrakk>F i = Some Reserved \<or> F i = Some Cleared; mq_fill i buf n m = Some m'\<rbrakk> \<Longrightarrow> mq_inter (m, F) (m', F)"
| send: "F i = Some Cleared \<Longrightarrow> mq_inter (m, F) (mq_link_tail i m, F(i := None))"
| urgent: "F i = Some Reserved \<Longrightarrow> mq_inter (m, F) (mq_link_head i m, F(i := None))"
| unlink: "mq_unlink_head m = Some (i, m') \<Longrightarrow> mq_inter (m, F) (m', F(i := Some Fetched))"
| release: "F i = Some Fetched \<Longrightarrow> mq_inter (m, F) (mq_release i m, F(i := None))"
| reset: "mq_flush m = Some m' \<Longrightarrow> mq_inter (m, F) (m'\<lparr>mq_entry := 0\<rparr>, F)"

definition mq_pool_ok :: "rt_messagequeue \<times> (nat \<Rightarrow> flight option) \<Rightarrow> bool" where
  "mq_pool_ok st = (case st of (m, F) \<Rightarrow> (\<exists>qs fs. mq_shape m qs fs (dom F)) \<and>
     (\<forall>i. F i = Some Cleared \<longrightarrow> mq_next m i = None))"

lemma mq_pool_okI:
  "\<lbrakk>mq_shape m qs fs (dom F); \<And>i. F i = Some Cleared \<Longrightarrow> mq_next m i = None\<rbrakk> \<Longrightarrow> mq_pool_ok (m, F)"
  by (auto simp: mq_pool_ok_def)

lemma dom_upd_None: "F i \<noteq> None \<Longrightarrow> dom (F(i := None)) = dom F - {i}"
  by auto

lemma mq_flush_next:
  assumes "chain (mq_next m) (mq_head m) qs" "distinct qs" "i \<notin> set qs" "mq_flush m = Some m'"
  shows "mq_next m' i = mq_next m i \<and> mq_max_msgs m' = mq_max_msgs m"
  using assms
proof (induction qs arbitrary: m)
  case Nil
  then show ?case by (simp add: mq_flush.simps)
next
  case (Cons j qs)
  let ?m = "m\<lparr>mq_head := mq_next m j, mq_tail := (if mq_tail m = Some j then None else mq_tail m),
          mq_next := (mq_next m)(j := mq_free m), mq_free := Some j\<rparr>"
  have "mq_flush m = mq_flush ?m" using Cons.prems(1) by (subst mq_flush.simps) simp
  moreover have "chain (mq_next ?m) (mq_head ?m) qs" using Cons.prems by simp
  moreover have "mq_next ?m i = mq_next m i" "mq_max_msgs ?m = mq_max_msgs m" using Cons.prems(3) by simp_all
  moreover have "distinct qs" "i \<notin> set qs" using Cons.prems(2,3) by simp_all
  ultimately show ?case using Cons.IH Cons.prems(4) by metis
qed

lemma shape_free_Cons:
  "mq_shape m qs fs F \<Longrightarrow> mq_free m = Some i \<Longrightarrow> \<exists>fs'. fs = i # fs'"
  by (cases fs) (auto simp: mq_shape_def)

lemma shape_head_Cons:
  "mq_shape m qs fs F \<Longrightarrow> mq_unlink_head m = Some (i, m') \<Longrightarrow> \<exists>qs'. qs = i # qs'"
  by (cases qs) (auto simp: mq_shape_def mq_unlink_head_def)

lemma mq_fill_frame: "mq_fill i buf n m = Some m' \<Longrightarrow> \<exists>d. m' = m\<lparr>mq_data := d\<rparr>"
  by (auto simp: mq_fill_def split: option.splits if_splits)

lemma mq_next_frame:
  "mq_next (mq_take_free i m) = mq_next m"
  "mq_next (mq_link_head i m) = (mq_next m)(i := mq_head m)"
  "mq_next (mq_release i m) = (mq_next m)(i := mq_free m)"
  "mq_unlink_head m = Some (j, m') \<Longrightarrow> mq_next m' = mq_next m"
  by (auto simp: mq_take_free_def mq_link_head_def mq_release_def mq_unlink_head_def)

lemma mq_next_link_tail:
  assumes "mq_shape m qs fs F" "k \<in> F"
  shows "mq_next (mq_link_tail i m) k = mq_next m k"
proof -
  have "k \<notin> set qs" using assms by (auto simp: mq_shape_def)
  then have "qs \<noteq> [] \<Longrightarrow> k \<noteq> last qs" using last_in_set by metis
  moreover have "mq_tail m = (if qs = [] then None else Some (last qs))" using assms(1) by (simp add: mq_shape_def)
  ultimately show ?thesis by (simp add: mq_link_tail_def Let_def)
qed

lemma mq_inter_pool:
  assumes I: "mq_pool_ok (m, F)" and st: "mq_inter (m, F) (m', F')"
  shows "mq_pool_ok (m', F') \<and> mq_max_msgs m' = mq_max_msgs m"
proof -
  obtain qs fs where S: "mq_shape m qs fs (dom F)" using I by (auto simp: mq_pool_ok_def)
  have cl: "F k = Some Cleared \<Longrightarrow> mq_next m k = None" for k using I by (auto simp: mq_pool_ok_def)
  show ?thesis using st
  proof (cases rule: mq_inter.cases)
    case (reserve i)
    then have e: "mq_free m = Some i" "m' = mq_take_free i m" "F' = F(i := Some Reserved)" by auto
    then obtain fs' where "fs = i # fs'" using shape_free_Cons [OF S] by blast
    then have "mq_shape (mq_take_free i m) qs fs' (insert i (dom F))"
      using mq_shape_reserve [of m qs i fs' "dom F"] S by simp
    then show ?thesis using e cl
      by (auto intro!: mq_pool_okI simp: mq_next_frame mq_take_free_def split: if_splits)
  next
    case (clear i)
    then have e: "F i = Some Reserved" "m' = m\<lparr>mq_next := (mq_next m)(i := None)\<rparr>" "F' = F(i := Some Cleared)" by auto
    have i: "i \<in> dom F" "insert i (dom F) = dom F" using e(1) by auto
    show ?thesis using e cl i(2) mq_shape_private(1) [OF S i(1), of None]
      by (auto intro!: mq_pool_okI split: if_splits)
  next
    case (fill i buf k)
    then have e: "F' = F" "i \<in> dom F" "mq_fill i buf k m = Some m'" by auto
    then obtain d where "m' = m\<lparr>mq_data := d\<rparr>" using mq_fill_frame by blast
    then show ?thesis using e mq_shape_private(2) [OF S, of i d] cl by (auto intro!: mq_pool_okI)
  next
    case (send i)
    then have e: "F i = Some Cleared" "m' = mq_link_tail i m" "F' = F(i := None)" by auto
    have "mq_shape (mq_link_tail i m) (qs @ [i]) fs (dom F - {i})"
      using mq_shape_link_tail [OF S, of i] cl [OF e(1)] e(1) by auto
    moreover have "mq_next (mq_link_tail i m) k = None" if "F k = Some Cleared" for k
      using mq_next_link_tail [OF S, of k i] cl [OF that] that by auto
    ultimately show ?thesis using e
      by (auto intro!: mq_pool_okI simp: dom_upd_None split: if_splits)
  next
    case (urgent i)
    then have e: "F i = Some Reserved" "m' = mq_link_head i m" "F' = F(i := None)" by auto
    have "mq_shape (mq_link_head i m) (i # qs) fs (dom F - {i})"
      using mq_shape_link_head [OF S, of i] e(1) by auto
    then show ?thesis using e cl
      by (auto intro!: mq_pool_okI simp: dom_upd_None mq_next_frame split: if_splits)
  next
    case (unlink i)
    then have e: "mq_unlink_head m = Some (i, m')" "F' = F(i := Some Fetched)" by auto
    then obtain qs' where q: "qs = i # qs'" using shape_head_Cons [OF S] by blast
    then have "mq_shape m' qs' fs (insert i (dom F))" "mq_max_msgs m' = mq_max_msgs m"
      using mq_shape_unlink [of m i qs' fs "dom F"] S e(1) by auto
    then show ?thesis using e cl mq_next_frame(4) [OF e(1)]
      by (auto intro!: mq_pool_okI split: if_splits)
  next
    case (release i)
    then have e: "F i = Some Fetched" "m' = mq_release i m" "F' = F(i := None)" by auto
    have "mq_shape (mq_release i m) qs (i # fs) (dom F - {i})"
      using mq_shape_release [OF S, of i] e(1) by auto
    then show ?thesis using e cl
      by (auto intro!: mq_pool_okI simp: dom_upd_None mq_next_frame mq_release_def split: if_splits)
  next
    case (reset n')
    then have e: "mq_flush m = Some n'" "m' = n'\<lparr>mq_entry := 0\<rparr>" "F' = F" by auto
    have "mq_shape (n'\<lparr>mq_entry := 0\<rparr>) [] (rev qs @ fs) (dom F)" using mq_reset_shape [OF S] e(1) by auto
    moreover have "mq_next n' k = None" if "F k = Some Cleared" for k
    proof -
      have "k \<notin> set qs" using S that by (auto simp: mq_shape_def)
      then show ?thesis using mq_flush_next [of m qs k n'] S cl [OF that] e(1) by (simp add: mq_shape_def)
    qed
    moreover have "mq_max_msgs n' = mq_max_msgs m"
      using mq_flush_shape [of m qs fs] S e(1) by (auto simp: mq_shape_def)
    ultimately show ?thesis using e by (auto intro!: mq_pool_okI)
  qed
qed

lemma mq_reach_pool:
  assumes "mq_inter\<^sup>*\<^sup>* st st'" and "mq_pool_ok st"
  shows "mq_pool_ok st' \<and> mq_max_msgs (fst st') = mq_max_msgs (fst st)"
  using assms
proof (induction rule: rtranclp_induct)
  case (step y z)
  then show ?case using mq_inter_pool [of "fst y" "snd y" "fst z" "snd z"] by simp
qed simp

text \<open>C10: No message block is ever lost or used twice. Start from a queue whose blocks have just been
  threaded on the free list, and let any number of threads run \<^verbatim>\<open>rt_mq_send\<close>,
  \<^verbatim>\<open>rt_mq_urgent\<close>, \<^verbatim>\<open>rt_mq_recv\<close> and resets, interleaved between their critical sections: at
  every moment each of the \<^verbatim>\<open>max_msgs\<close> blocks is on the queue, on the free list, or in the hands
  of exactly the threads that took it, in one of the three places only, and \<^verbatim>\<open>entry\<close> is the length
  of the queue.\<close>

theorem msgqueue_blocks_conserved:
  assumes "mq_inter\<^sup>*\<^sup>* ((mq_build m)\<lparr>mq_entry := 0\<rparr>, Map.empty) (m', F)"
  shows "\<exists>qs fs. chain (mq_next m') (mq_head m') qs \<and> chain (mq_next m') (mq_free m') fs \<and> distinct (qs @ fs) \<and>
     (set qs \<union> set fs) \<inter> dom F = {} \<and> set qs \<union> set fs \<union> dom F = {..<unat (mq_max_msgs m)} \<and>
     unat (mq_entry m') = length qs"
proof -
  have "mq_pool_ok ((mq_build m)\<lparr>mq_entry := 0\<rparr>, Map.empty)"
    using mq_build_shape [of m] by (intro mq_pool_okI) auto
  moreover have "mq_max_msgs ((mq_build m)\<lparr>mq_entry := 0\<rparr>) = mq_max_msgs m"
    using mq_build_fold [of "m\<lparr>mq_head := None, mq_tail := None, mq_free := None\<rparr>" "[]"] by (simp add: mq_build_def)
  ultimately obtain qs fs where "mq_shape m' qs fs (dom F)" "mq_max_msgs m' = mq_max_msgs m"
    using mq_reach_pool [OF assms] by (auto simp: mq_pool_ok_def)
  then show ?thesis by (intro exI [of _ qs] exI [of _ fs]) (simp add: mq_shape_def)
qed

text \<open>The witness: a sender has reserved a block while a receiver holds another one.\<close>

theorem msgqueue_blocks_conserved_witness:
  "\<exists>m' F. mq_inter\<^sup>*\<^sup>* (sample_mq, Map.empty) (m', F) \<and> dom F = {0, 1} \<and>
     (\<exists>qs fs. chain (mq_next m') (mq_head m') qs \<and> chain (mq_next m') (mq_free m') fs \<and> distinct (qs @ fs) \<and>
       (set qs \<union> set fs) \<inter> dom F = {} \<and> set qs \<union> set fs \<union> dom F = {..<2} \<and> unat (mq_entry m') = length qs)"
proof -
  let ?m0 = "\<lparr>mq_msg_size = 4, mq_max_msgs = 2, mq_entry = 0, mq_next = \<lambda>_. None,
     mq_data = \<lambda>_. [0, 0, 0, 0], mq_head = None, mq_tail = None, mq_free = None\<rparr> :: rt_messagequeue"
  let ?m1 = "mq_take_free 1 sample_mq"
  let ?m2 = "mq_link_head 1 ?m1"
  let ?m3 = "mq_take_free 0 ?m2"
  have f: "mq_free sample_mq = Some 1" "mq_free ?m2 = Some 0"
    by (simp_all add: sample_mq_def mq_build_def mq_push_free_def upt_rec mq_take_free_def mq_link_head_def)
  obtain m4 where u: "mq_unlink_head ?m3 = Some (1, m4)"
    by (simp add: mq_unlink_head_def mq_take_free_def mq_link_head_def)
  let ?F1 = "Map.empty(1 := Some Reserved) :: nat \<Rightarrow> flight option"
  let ?F2 = "?F1(1 := None)" and ?F3 = "?F1(1 := None, 0 := Some Reserved)"
  have 1: "mq_inter (sample_mq, Map.empty) (?m1, ?F1)" by (rule reserve) (rule f)
  have 2: "mq_inter (?m1, ?F1) (?m2, ?F2)" by (rule urgent) simp
  have 3: "mq_inter (?m2, ?F2) (?m3, ?F3)" by (rule reserve) (rule f)
  have 4: "mq_inter (?m3, ?F3) (m4, ?F3(1 := Some Fetched))" by (rule unlink) (rule u)
  have r: "mq_inter\<^sup>*\<^sup>* (sample_mq, Map.empty) (m4, ?F3(1 := Some Fetched))"
    using 1 2 3 4 by (meson converse_rtranclp_into_rtranclp rtranclp.rtrancl_refl)
  have "unat (mq_max_msgs ?m0) = 2" by simp
  then show ?thesis
    using r msgqueue_blocks_conserved [of ?m0 m4 "?F3(1 := Some Fetched)", folded sample_mq_def]
    by (intro exI [of _ m4] exI [of _ "?F3(1 := Some Fetched)"]) auto
qed

text \<open>\<^verbatim>\<open>rt_mq_detach\<close> strands the receivers: it resumes the list of waiting senders, which no
  operation of this message queue ever fills, so every thread that waits for a message stays
  suspended on the list of an object that is no longer registered.\<close>

theorem msgqueue_detach_strands:
  assumes "obj_class a s = RT_Object_Class_MessageQueue" and "rt_object_is_systemobject (Obj a) s"
    and "tlists s (MqSendQ a) = []"
  shows "\<exists>s'. rt_mq_detach a s = Some (RT_EOK, s') \<and> rt_object_get_type (Obj a) s' = 0 \<and>
     (\<forall>j. Obj a \<notin> set (containers s' j)) \<and> tlists s' (MqQ a) = tlists s (MqQ a) \<and> threads s' = threads s"
  using assms
  by (simp add: rt_mq_detach_def rt_ipc_list_resume_all.simps [of _ s] rt_object_detach_def object_unlink_def upd_object_def
      rt_object_get_type_def)

theorem msgqueue_detach_strands_witness:
  "\<exists>s'. rt_mq_detach 24 sample = Some (RT_EOK, s') \<and> rt_object_get_type (Obj 24) s' = 0 \<and>
     (\<forall>j. Obj 24 \<notin> set (containers s' j)) \<and> tlists s' (MqQ 24) = tlists sample (MqQ 24) \<and> threads s' = threads sample"
proof (rule msgqueue_detach_strands)
  show "rt_object_is_systemobject (Obj 24) sample"
    by (simp add: rt_object_is_systemobject_def sample_def sample_ready_def sample_base_def sample_objects_def sample_types_def)
qed (simp_all add: sample_class sample_ipc_lists ipc_head_def)

end
