(* ===== verification/Allocator.thy ===== *)
theory Allocator
  imports Prelude
begin

text \<open>
  The contract of the kernel's allocators, as a locale: what one allocation and one release promise
  about the set of things handed out, and what a client gets from it for every sequence of calls.
  The memory pool and the memory heap interpret it.
\<close>

text \<open>A client holds what it was given in a list. It asks for more, or gives back the item at a place of its
  list (nothing, when the list is shorter).\<close>

datatype 'r request = Get 'r | Put nat

fun serve_one ::
  "('r \<Rightarrow> 's \<Rightarrow> ('p option \<times> 's) option) \<Rightarrow> ('p \<Rightarrow> 's \<Rightarrow> 's option) \<Rightarrow> 'r request \<Rightarrow> 's \<times> 'p list \<Rightarrow> ('s \<times> 'p list) option" where
  "serve_one alloc release (Get r) (s, ps) =
     map_option (\<lambda>(q, s). (s, case q of None \<Rightarrow> ps | Some p \<Rightarrow> ps @ [p])) (alloc r s)"
| "serve_one alloc release (Put k) (s, ps) =
     (if k < length ps then map_option (\<lambda>s. (s, take k ps @ drop (Suc k) ps)) (release (ps ! k) s) else Some (s, ps))"

primrec serve ::
  "('r \<Rightarrow> 's \<Rightarrow> ('p option \<times> 's) option) \<Rightarrow> ('p \<Rightarrow> 's \<Rightarrow> 's option) \<Rightarrow> 'r request list \<Rightarrow> 's \<times> 'p list \<Rightarrow> ('s \<times> 'p list) option" where
  "serve alloc release [] x = Some x"
| "serve alloc release (c # cs) x = Option.bind (serve_one alloc release c x) (serve alloc release cs)"

locale allocator =
  fixes ok :: "'s \<Rightarrow> 'p set \<Rightarrow> bool" and fit :: "'r \<Rightarrow> bool"
    and alloc :: "'r \<Rightarrow> 's \<Rightarrow> ('p option \<times> 's) option" and release :: "'p \<Rightarrow> 's \<Rightarrow> 's option"
  assumes alloc_law: "\<lbrakk>ok s L; fit r\<rbrakk> \<Longrightarrow> \<exists>q s'. alloc r s = Some (q, s') \<and>
      (case q of None \<Rightarrow> ok s' L | Some p \<Rightarrow> p \<notin> L \<and> ok s' (insert p L))"
    and release_law: "\<lbrakk>ok s L; p \<in> L\<rbrakk> \<Longrightarrow> \<exists>s'. release p s = Some s' \<and> ok s' (L - {p})"
begin

lemma serve_one_safe:
  assumes s: "ok s (set ps)" "distinct ps" and c: "\<And>r. c = Get r \<Longrightarrow> fit r"
  shows "\<exists>s' ps'. serve_one alloc release c (s, ps) = Some (s', ps') \<and> ok s' (set ps') \<and> distinct ps'"
proof (cases c)
  case (Get r)
  then obtain q s' where q: "alloc r s = Some (q, s')" "case q of None \<Rightarrow> ok s' (set ps) | Some p \<Rightarrow> p \<notin> set ps \<and> ok s' (insert p (set ps))"
    using alloc_law [OF s(1) c] by blast
  then show ?thesis using Get s(2) by (cases q) simp_all
next
  case (Put k)
  show ?thesis
  proof (cases "k < length ps")
    case True
    then have ps: "ps = take k ps @ ps ! k # drop (Suc k) ps" by (rule id_take_nth_drop)
    then have d: "distinct (take k ps @ ps ! k # drop (Suc k) ps)" using s(2) by simp
    have e: "set (take k ps @ drop (Suc k) ps) = set ps - {ps ! k}" using d by (subst (3) ps) auto
    obtain s' where "release (ps ! k) s = Some s'" "ok s' (set ps - {ps ! k})" using release_law [OF s(1), of "ps ! k"] True by auto
    then show ?thesis using Put True d e by (intro exI [of _ s'] exI [of _ "take k ps @ drop (Suc k) ps"]) simp
  qed (use Put s in simp)
qed

lemma serve_safe:
  "\<lbrakk>ok s (set ps); distinct ps; \<And>r. Get r \<in> set cs \<Longrightarrow> fit r\<rbrakk> \<Longrightarrow>
   \<exists>s' ps'. serve alloc release cs (s, ps) = Some (s', ps') \<and> ok s' (set ps') \<and> distinct ps'"
proof (induction cs arbitrary: s ps)
  case (Cons c cs)
  obtain s1 ps1 where 1: "serve_one alloc release c (s, ps) = Some (s1, ps1)" "ok s1 (set ps1)" "distinct ps1"
    using serve_one_safe [OF Cons.prems(1,2), of c] Cons.prems(3) by auto
  then show ?case using Cons.IH [OF 1(2,3)] Cons.prems(3) by auto
qed auto

text \<open>Giving back everything, the first item of the list first.\<close>

lemma serve_return:
  "\<lbrakk>ok s (set ps); distinct ps\<rbrakk> \<Longrightarrow> \<exists>s'. serve alloc release (replicate (length ps) (Put 0)) (s, ps) = Some (s', []) \<and> ok s' {}"
proof (induction ps arbitrary: s)
  case (Cons p ps)
  obtain s1 where 1: "release p s = Some s1" "ok s1 (set (p # ps) - {p})" using release_law [OF Cons.prems(1), of p] by auto
  moreover have "set (p # ps) - {p} = set ps" using Cons.prems(2) by auto
  ultimately show ?case using Cons.IH [of s1] Cons.prems(2) by simp
qed simp

end

end
