(* ===== verification/Mempool_Correct.thy ===== *)
theory Mempool_Correct
  imports Queue_Correct Allocator "HOL-Library.Multiset"
begin

unbundle bit_operations_syntax

text \<open>
  Memory pools: blocks that are handed out are distinct and come back, and what is left of
  the suspend counter after a wait that timed out.
\<close>

definition mp_call_alloc :: "nat \<Rightarrow> kernel \<Rightarrow> (nat \<times> kernel) option" where
  "mp_call_alloc a s = (case rt_mp_alloc a 0 s of Some (Ret (Some b), s') \<Rightarrow> Some (b, s') | _ \<Rightarrow> None)"

definition mp_quiet :: "nat \<Rightarrow> kernel \<Rightarrow> nat list \<Rightarrow> bool" where
  "mp_quiet a s fs = (mp_shape a (mempools s a) fs \<and> mp_suspend_count (mempools s a) = 0)"

lemma mp_alloc_first:
  assumes S: "mp_quiet a s (b # fs)"
  shows "\<exists>s'. mp_call_alloc a s = Some (b, s') \<and> mp_quiet a s' fs \<and>
     mp_total_count (mempools s' a) = mp_total_count (mempools s a)"
proof -
  have sh: "mp_shape a (mempools s a) (b # fs)" using S by (simp add: mp_quiet_def)
  then have "unat (mp_free_count (mempools s a)) \<noteq> 0" by (simp add: mp_shape_def)
  then have n: "mp_free_count (mempools s a) \<noteq> 0" by auto
  obtain m where "mp_take a (mempools s a) = Some (b, m)" "mp_shape a m fs"
    "mp_total_count m = mp_total_count (mempools s a)" "mp_suspend_count m = mp_suspend_count (mempools s a)"
    using mp_take_shape [OF sh n] by auto
  then show ?thesis using n S
    by (simp add: mp_call_alloc_def rt_mp_alloc_def mp_alloc_loop.simps upd_mp_def mp_quiet_def)
qed

lemma mp_alloc_many:
  "\<lbrakk>mp_quiet a s fs; n \<le> length fs\<rbrakk> \<Longrightarrow>
   \<exists>s'. get_n (mp_call_alloc a) n s = Some (take n fs, s') \<and> mp_quiet a s' (drop n fs) \<and>
     mp_total_count (mempools s' a) = mp_total_count (mempools s a)"
proof (induction n arbitrary: s fs)
  case (Suc n)
  then obtain b gs where fs: "fs = b # gs" by (cases fs) auto
  obtain s1 where s1: "mp_call_alloc a s = Some (b, s1)" "mp_quiet a s1 gs"
    "mp_total_count (mempools s1 a) = mp_total_count (mempools s a)"
    using mp_alloc_first Suc.prems(1) fs by blast
  obtain s2 where "get_n (mp_call_alloc a) n s1 = Some (take n gs, s2)" "mp_quiet a s2 (drop n gs)"
    "mp_total_count (mempools s2 a) = mp_total_count (mempools s1 a)"
    using Suc.IH [OF s1(2)] Suc.prems(2) fs by auto
  then show ?case using s1 fs by simp
qed simp

lemma mp_free_one:
  assumes S: "mp_quiet a s fs" and b: "b < unat (mp_total_count (mempools s a))" "b \<notin> set fs"
  shows "\<exists>s'. rt_mp_free a b s = Some s' \<and> mp_quiet a s' (b # fs) \<and>
     mp_total_count (mempools s' a) = mp_total_count (mempools s a)"
proof -
  have sh: "mp_shape a (mempools s a) fs" using S by (simp add: mp_quiet_def)
  then have "mp_blocks (mempools s a) b = Owner a" using b by (simp add: mp_shape_def)
  then show ?thesis using S mp_give_shape [OF sh b(1)]
    by (simp add: rt_mp_free_def mp_quiet_def upd_mp_def mp_give_def)
qed

lemma mp_free_many:
  "\<lbrakk>mp_quiet a s fs; distinct (bs @ fs); \<forall>b \<in> set bs. b < unat (mp_total_count (mempools s a))\<rbrakk> \<Longrightarrow>
   \<exists>s'. put_all (rt_mp_free a) bs s = Some s' \<and> mp_quiet a s' (rev bs @ fs)"
proof (induction bs arbitrary: s fs)
  case (Cons b bs)
  obtain s1 where s1: "rt_mp_free a b s = Some s1" "mp_quiet a s1 (b # fs)"
    "mp_total_count (mempools s1 a) = mp_total_count (mempools s a)"
    using mp_free_one [OF Cons.prems(1), of b] Cons.prems by auto
  obtain s2 where "put_all (rt_mp_free a) bs s1 = Some s2" "mp_quiet a s2 (rev bs @ b # fs)"
    using Cons.IH [OF s1(2)] Cons.prems s1(3) by auto
  then show ?case using s1(1) by simp
qed simp

text \<open>Blocks of a memory pool are handed out once: \<open>n\<close> allocations from a pool with at least \<open>n\<close>
  free blocks succeed without waiting and return \<open>n\<close> different blocks, all of them free before;
  freeing them again in any order succeeds and leaves all blocks free that were free before.\<close>

theorem mempool_roundtrip:
  assumes S: "mp_quiet a s fs" and n: "n \<le> length fs" and bs: "mset bs = mset (take n fs)"
  shows "\<exists>s1 s2. get_n (mp_call_alloc a) n s = Some (take n fs, s1) \<and> distinct (take n fs) \<and>
     put_all (rt_mp_free a) bs s1 = Some s2 \<and> mp_quiet a s2 (rev bs @ drop n fs) \<and>
     set (rev bs @ drop n fs) = set fs"
proof -
  obtain s1 where s1: "get_n (mp_call_alloc a) n s = Some (take n fs, s1)" "mp_quiet a s1 (drop n fs)"
    "mp_total_count (mempools s1 a) = mp_total_count (mempools s a)"
    using mp_alloc_many [OF S n] by blast
  have fs: "distinct fs" "set fs \<subseteq> {..<unat (mp_total_count (mempools s a))}"
    using S by (auto simp: mp_quiet_def mp_shape_def)
  have m: "mset (bs @ drop n fs) = mset fs" using bs by (metis append_take_drop_id mset_append)
  have "distinct (bs @ drop n fs)" using m fs(1) mset_eq_imp_distinct_iff by blast
  moreover have st: "set (bs @ drop n fs) = set fs" using m mset_eq_setD by blast
  then have "\<forall>b \<in> set bs. b < unat (mp_total_count (mempools s1 a))" using fs(2) s1(3) by auto
  ultimately obtain s2 where "put_all (rt_mp_free a) bs s1 = Some s2" "mp_quiet a s2 (rev bs @ drop n fs)"
    using mp_free_many [OF s1(2)] by blast
  then show ?thesis using s1 fs(1) st by auto
qed

lemma sample_mp_quiet: "mp_quiet 25 sample [0, 1]"
  by (simp add: mp_quiet_def) (auto simp: mp_shape_def sample_base_def sample_mp_def)

theorem mempool_roundtrip_witness:
  "\<exists>s1 s2. get_n (mp_call_alloc 25) 2 sample = Some (take 2 [0, 1], s1) \<and> distinct (take 2 [0, 1 :: nat]) \<and>
     put_all (rt_mp_free 25) [1, 0] s1 = Some s2 \<and> mp_quiet 25 s2 (rev [1, 0] @ drop 2 [0, 1]) \<and>
     set (rev [1, 0] @ drop 2 [0, 1]) = set [0, 1 :: nat]"
  by (rule mempool_roundtrip [OF sample_mp_quiet]) simp_all

text \<open>The pool as an allocator of blocks, without waiting.\<close>

definition mp_request :: "nat \<Rightarrow> unit \<Rightarrow> kernel \<Rightarrow> (nat option \<times> kernel) option" where
  "mp_request a u s = (case rt_mp_alloc a 0 s of Some (Ret q, s') \<Rightarrow> Some (q, s') | _ \<Rightarrow> None)"

definition mp_state :: "nat \<Rightarrow> nat \<Rightarrow> kernel \<Rightarrow> nat set \<Rightarrow> bool" where
  "mp_state a n s L = (\<exists>fs. mp_quiet a s fs \<and> unat (mp_total_count (mempools s a)) = n \<and> L = {..<n} - set fs)"

lemma mp_quiet_blocks: "mp_quiet a s fs \<Longrightarrow> set fs \<subseteq> {..<unat (mp_total_count (mempools s a))} \<and> distinct fs"
  by (auto simp: mp_quiet_def mp_shape_def)

lemma mp_request_law:
  assumes "mp_state a n s L"
  shows "\<exists>q s'. mp_request a u s = Some (q, s') \<and>
     (case q of None \<Rightarrow> mp_state a n s' L | Some p \<Rightarrow> p \<notin> L \<and> mp_state a n s' (insert p L))"
proof -
  obtain fs where S: "mp_quiet a s fs" "unat (mp_total_count (mempools s a)) = n" "L = {..<n} - set fs" using assms by (auto simp: mp_state_def)
  show ?thesis
  proof (cases fs)
    case Nil
    then have "mp_free_count (mempools s a) = 0" using S(1) by (simp add: mp_quiet_def mp_shape_def unat_eq_zero)
    then have "mp_request a u s = Some (None, rt_set_errno RT_ETIMEOUT s)"
      by (simp add: mp_request_def rt_mp_alloc_def mp_alloc_loop.simps)
    moreover have "mempools (rt_set_errno RT_ETIMEOUT s) = mempools s" by (simp add: rt_set_errno_def upd_thread_def split: option.splits)
    then have "mp_state a n (rt_set_errno RT_ETIMEOUT s) L" using assms by (simp add: mp_state_def mp_quiet_def)
    ultimately show ?thesis by simp
  next
    case (Cons b gs)
    obtain s' where s': "mp_call_alloc a s = Some (b, s')" "mp_quiet a s' gs" "mp_total_count (mempools s' a) = mp_total_count (mempools s a)"
      using mp_alloc_first S(1) Cons by blast
    have b: "b < n" "b \<notin> set gs" using mp_quiet_blocks [OF S(1)] S(2) Cons by auto
    have "mp_state a n s' (insert b L)" unfolding mp_state_def using s' S(2,3) Cons b by (intro exI [of _ gs]) auto
    moreover have "mp_request a u s = Some (Some b, s')" using s'(1) by (auto simp: mp_request_def mp_call_alloc_def split: option.splits outcome.splits)
    moreover have "b \<notin> L" using S(3) Cons by simp
    ultimately show ?thesis by simp
  qed
qed

lemma mp_free_law:
  assumes "mp_state a n s L" and p: "p \<in> L"
  shows "\<exists>s'. rt_mp_free a p s = Some s' \<and> mp_state a n s' (L - {p})"
proof -
  obtain fs where S: "mp_quiet a s fs" "unat (mp_total_count (mempools s a)) = n" "L = {..<n} - set fs" using assms(1) by (auto simp: mp_state_def)
  obtain s' where "rt_mp_free a p s = Some s'" "mp_quiet a s' (p # fs)" "mp_total_count (mempools s' a) = mp_total_count (mempools s a)"
    using mp_free_one [OF S(1)] p S(2,3) by auto
  then show ?thesis unfolding mp_state_def using S(2,3) by (intro exI [of _ s'] conjI exI [of _ "p # fs"]) auto
qed

interpretation mp: allocator "mp_state a n" "\<lambda>_. True" "mp_request a" "rt_mp_free a"
  by unfold_locales (use mp_request_law mp_free_law in blast)+

text \<open>C28: Every sequence of allocations without waiting and releases on a memory pool without waiters runs to its
  end, and at every point the client holds distinct blocks of the pool, exactly those that are not free.
  When it gives them back, all blocks of the pool are free again.\<close>

theorem mempool_sequences:
  assumes "mp_quiet a s fs" and "length fs = unat (mp_total_count (mempools s a))"
  shows "\<exists>s' bs gs s2. serve (mp_request a) (rt_mp_free a) cs (s, []) = Some (s', bs) \<and> mp_quiet a s' gs \<and> distinct (bs @ gs) \<and>
     set (bs @ gs) = {..<length fs} \<and> serve (mp_request a) (rt_mp_free a) (replicate (length bs) (Put 0)) (s', bs) = Some (s2, []) \<and>
     (\<exists>hs. mp_quiet a s2 hs \<and> set hs = {..<length fs})"
proof -
  let ?n = "length fs"
  have "set fs = {..<?n}" using mp_quiet_blocks [OF assms(1)] assms(2) by (intro card_subset_eq) (auto simp: distinct_card)
  then have "mp_state a ?n s (set [])" using assms by (auto simp: mp_state_def)
  then obtain s' bs where 1: "serve (mp_request a) (rt_mp_free a) cs (s, []) = Some (s', bs)" "mp_state a ?n s' (set bs)" "distinct bs"
    using mp.serve_safe [of a ?n s "[]" cs] by auto
  obtain s2 where 2: "serve (mp_request a) (rt_mp_free a) (replicate (length bs) (Put 0)) (s', bs) = Some (s2, [])" "mp_state a ?n s2 {}"
    using mp.serve_return [OF 1(2,3)] by auto
  obtain gs where g: "mp_quiet a s' gs" "unat (mp_total_count (mempools s' a)) = ?n" "set bs = {..<?n} - set gs" using 1(2) by (auto simp: mp_state_def)
  have "distinct (bs @ gs) \<and> set (bs @ gs) = {..<?n}" using mp_quiet_blocks [OF g(1)] g(2,3) 1(3) by auto
  moreover obtain hs where "mp_quiet a s2 hs" "set hs = {..<?n}" using 2(2) mp_quiet_blocks [of a s2] by (fastforce simp: mp_state_def)
  ultimately show ?thesis using 1(1) 2(1) g(1) by blast
qed

theorem mempool_sequences_witness:
  "\<exists>s' bs gs s2. serve (mp_request 25) (rt_mp_free 25) [Get (), Get (), Get (), Put 1, Get ()] (sample, []) = Some (s', bs) \<and>
     mp_quiet 25 s' gs \<and> distinct (bs @ gs) \<and> set (bs @ gs) = {..<length [0, 1 :: nat]} \<and>
     serve (mp_request 25) (rt_mp_free 25) (replicate (length bs) (Put 0)) (s', bs) = Some (s2, []) \<and>
     (\<exists>hs. mp_quiet 25 s2 hs \<and> set hs = {..<length [0, 1 :: nat]})"
  by (rule mempool_sequences [OF sample_mp_quiet]) (simp add: sample_base_def sample_mp_def)

text \<open>A wait for a block that times out leaves the suspend counter of the pool one too high,
  and the next \<^verbatim>\<open>rt_mp_free\<close> then takes a thread off the empty waiting list. On the sample
  kernel: the running thread takes both blocks and waits two ticks for a third; the timer
  wakes it and the allocation returns no block; its next \<^verbatim>\<open>rt_mp_free\<close> does not survive,
  although the waiting list is empty.\<close>

theorem mempool_timeout_breaks_free:
  "let waits = [Mempool (Mp_Alloc 25 0), Mempool (Mp_Alloc 25 0), Mempool (Mp_Alloc 25 2), Tick, Tick,
       Mempool (Mp_Alloc_Wake 25 2 0xFFFFFFFE)] in
   map_option (\<lambda>s. (cur_thread s, tlists s (MpQ 25), mp_suspend_count (mempools s 25)))
     (run (sys_step quiet_app) waits sample) = Some (Some 1, [], 1) \<and>
   run (sys_step quiet_app) (waits @ [Mempool (Mp_Free 25 0)]) sample = None"
  by code_simp

end
