(* ===== verification/Kmem.thy ===== *)
theory Kmem
  imports Prelude
begin

unbundle bit_operations_syntax

text \<open>
  The memory routines of \<^verbatim>\<open>kernel/src/kservice.c\<close>: \<^verbatim>\<open>rt_memset\<close>, \<^verbatim>\<open>rt_memcpy\<close> and \<^verbatim>\<open>rt_memmove\<close>
  with their word-at-a-time loops, on a memory of bytes with 32-bit addresses (little endian).
  \<^verbatim>\<open>RT_USING_TINY_SIZE\<close> is off. The page table that \<^verbatim>\<open>addr_all_cached\<close> reads is an argument.
\<close>

type_synonym memory = "u32 \<Rightarrow> u8"

definition store32 :: "u32 \<Rightarrow> u32 \<Rightarrow> memory \<Rightarrow> memory" where
  "store32 a w m = m(a := ucast w, a + 1 := ucast (drop_bit 8 w), a + 2 := ucast (drop_bit 16 w), a + 3 := ucast (drop_bit 24 w))"

subsection \<open>rt\_memset\<close>

partial_function (option) memset_align :: "u8 \<Rightarrow> u32 \<Rightarrow> u32 \<Rightarrow> memory \<Rightarrow> (u32 \<times> u32 \<times> memory) option" where
  "memset_align d m count M =
     (if m AND 3 \<noteq> 0 then memset_align d (m + 1) (count - 1) (M(m := d)) else Some (m, count, M))"

partial_function (option) memset_blocks :: "u32 \<Rightarrow> u32 \<Rightarrow> u32 \<Rightarrow> memory \<Rightarrow> (u32 \<times> u32 \<times> memory) option" where
  "memset_blocks buffer a count M =
     (if 4 * 4 \<le> count then
        let M = store32 a buffer M; M = store32 (a + 4) buffer M; M = store32 (a + 8) buffer M; M = store32 (a + 12) buffer M
        in memset_blocks buffer (a + 16) (count - 4 * 4) M
      else Some (a, count, M))"

partial_function (option) memset_words :: "u32 \<Rightarrow> u32 \<Rightarrow> u32 \<Rightarrow> memory \<Rightarrow> (u32 \<times> u32 \<times> memory) option" where
  "memset_words buffer a count M =
     (if 4 \<le> count then memset_words buffer (a + 4) (count - 4) (store32 a buffer M) else Some (a, count, M))"

partial_function (option) memset_bytes :: "u8 \<Rightarrow> u32 \<Rightarrow> u32 \<Rightarrow> memory \<Rightarrow> memory option" where
  "memset_bytes d m count M = (if count \<noteq> 0 then memset_bytes d (m + 1) (count - 1) (M(m := d)) else Some M)"

definition rt_memset :: "u32 \<Rightarrow> u32 \<Rightarrow> u32 \<Rightarrow> memory \<Rightarrow> memory option" where
  "rt_memset s c count M = do {
     let d = c AND 0xff;
     (m, count, M) \<leftarrow> (if 4 \<le> count then memset_align (ucast d) s count M else Some (s, count, M));
     (m, count, M) \<leftarrow>
       (if \<not> count < 4 \<and> m AND 3 = 0 then do {
          let buffer = push_bit 8 d OR d;
          let buffer = buffer OR push_bit 16 buffer;
          (a, count, M) \<leftarrow> memset_blocks buffer m count M;
          memset_words buffer a count M }
        else Some (m, count, M));
     memset_bytes (ucast d) m count M }"

subsection \<open>rt\_memcpy\<close>

text \<open>A load of \<open>n\<close> bytes and a store of the same bytes.\<close>

definition move_unit :: "nat \<Rightarrow> u32 \<Rightarrow> u32 \<Rightarrow> memory \<Rightarrow> memory" where
  "move_unit n dst src M = (\<lambda>x. if unat (x - dst) < n then M (src + (x - dst)) else M x)"

text \<open>\<^verbatim>\<open>arm32_alignedcopy\<close> of \<^verbatim>\<open>platform/cpu/cortex-a/start_gcc.S\<close>: eight registers are loaded and stored at a time.\<close>

partial_function (option) arm32_alignedcopy :: "u32 \<Rightarrow> u32 \<Rightarrow> u32 \<Rightarrow> memory \<Rightarrow> memory option" where
  "arm32_alignedcopy src dst stop M =
     (let M = move_unit 32 dst src M in
      if dst + 32 \<noteq> stop then arm32_alignedcopy (src + 32) (dst + 32) stop M else Some M)"

definition SECT_RWX_CB :: u32 where
  "SECT_RWX_CB = 0xC0E"

definition addr_all_cached :: "(u32 \<Rightarrow> u32) \<Rightarrow> u32 \<Rightarrow> u32 \<Rightarrow> bool" where
  "addr_all_cached pgd a b = (pgd (drop_bit 20 a) AND 0xfffff = SECT_RWX_CB \<and> pgd (drop_bit 20 b) AND 0xfffff = SECT_RWX_CB)"

definition copy_word :: "u32 \<times> u32 \<times> memory \<Rightarrow> u32 \<times> u32 \<times> memory" where
  "copy_word = (\<lambda>(dst, src, M). (dst + 4, src + 4, move_unit 4 dst src M))"

partial_function (option) memcpy_blocks :: "u32 \<Rightarrow> u32 \<times> u32 \<times> memory \<Rightarrow> (u32 \<times> u32 \<times> u32 \<times> memory) option" where
  "memcpy_blocks len x =
     (if 32 \<le> sint len then
        memcpy_blocks (len - 32) (copy_word (copy_word (copy_word (copy_word (copy_word (copy_word (copy_word (copy_word x))))))))
      else Some (len, x))"

partial_function (option) memcpy_words :: "u32 \<Rightarrow> u32 \<times> u32 \<times> memory \<Rightarrow> (u32 \<times> u32 \<times> u32 \<times> memory) option" where
  "memcpy_words len x = (if 4 \<le> len then memcpy_words (len - 4) (copy_word x) else Some (len, x))"

partial_function (option) memcpy_bytes :: "u32 \<Rightarrow> u32 \<Rightarrow> u32 \<Rightarrow> memory \<Rightarrow> memory option" where
  "memcpy_bytes len dst src M =
     (if len \<noteq> 0 then memcpy_bytes (len - 1) (dst + 1) (src + 1) (move_unit 1 dst src M) else Some M)"

definition unaligned :: "u32 \<Rightarrow> u32 \<Rightarrow> bool" where
  "unaligned x y = ((x AND 3) OR (y AND 3) \<noteq> 0)"

text \<open>The copy of up to three bytes when both addresses have the same offset in a word.\<close>

definition memcpy_align :: "u32 \<Rightarrow> u32 \<Rightarrow> u32 \<Rightarrow> memory \<Rightarrow> u32 \<times> u32 \<times> u32 \<times> memory" where
  "memcpy_align len dst src M =
     (let over = dst AND 3 in
      if over \<noteq> 0 \<and> \<not> sint len < 32 \<and> over = src AND 3 then
        let (over, M) =
          (if over = 2 then (over, move_unit 2 dst src M)
           else if over = 1 then (3, move_unit 2 (dst + 1) (src + 1) (move_unit 1 dst src M))
           else (1, move_unit 1 dst src M))
        in (len - over, dst + over, src + over, M)
      else (len, dst, src, M))"

definition rt_memcpy :: "(u32 \<Rightarrow> u32) \<Rightarrow> u32 \<Rightarrow> u32 \<Rightarrow> u32 \<Rightarrow> memory \<Rightarrow> memory option" where
  "rt_memcpy pgd dst src count M = do {
     let (len, dst, src, M) = memcpy_align count dst src M;
     (len, dst, src, M) \<leftarrow>
       (if \<not> sint len < 32 \<and> (\<not> unaligned src dst \<or> addr_all_cached pgd src dst) then
          if \<not> unaligned src dst then do {
            let n = push_bit 5 (drop_bit 5 len);
            M \<leftarrow> arm32_alignedcopy src dst (dst + n) M;
            Some (len - n, dst + n, src + n, M) }
          else do {
            (len, x) \<leftarrow> memcpy_blocks len (dst, src, M);
            memcpy_words len x }
        else Some (len, dst, src, M));
     memcpy_bytes len dst src M }"

subsection \<open>rt\_memmove\<close>

partial_function (option) memmove_down :: "u32 \<Rightarrow> u32 \<Rightarrow> u32 \<Rightarrow> memory \<Rightarrow> memory option" where
  "memmove_down n tmp s M =
     (if n \<noteq> 0 then memmove_down (n - 1) (tmp - 1) (s - 1) (M(tmp - 1 := M (s - 1))) else Some M)"

partial_function (option) memmove_up :: "u32 \<Rightarrow> u32 \<Rightarrow> u32 \<Rightarrow> memory \<Rightarrow> memory option" where
  "memmove_up n tmp s M =
     (if n \<noteq> 0 then memmove_up (n - 1) (tmp + 1) (s + 1) (M(tmp := M s)) else Some M)"

definition rt_memmove :: "u32 \<Rightarrow> u32 \<Rightarrow> u32 \<Rightarrow> memory \<Rightarrow> memory option" where
  "rt_memmove dest src n M =
     (if src < dest \<and> dest < src + n then memmove_down n (dest + n) (src + n) M else memmove_up n dest src M)"

lemmas [code] = memset_align.simps memset_blocks.simps memset_words.simps memset_bytes.simps arm32_alignedcopy.simps
  memcpy_blocks.simps memcpy_words.simps memcpy_bytes.simps memmove_down.simps memmove_up.simps

subsection \<open>Filled and copied regions\<close>

definition fill :: "nat \<Rightarrow> u32 \<Rightarrow> u8 \<Rightarrow> memory \<Rightarrow> memory" where
  "fill n a d M = (\<lambda>x. if unat (x - a) < n then d else M x)"

lemma unat_shift:
  assumes "k < 2 ^ 32"
  shows "unat ((w :: u32) - of_nat k) = (if k \<le> unat w then unat w - k else unat w + 2 ^ 32 - k)"
proof -
  have k: "unat (of_nat k :: u32) = k" using assms by (simp add: unat_of_nat take_bit_nat_eq_self)
  show ?thesis using unat_sub_if_size [of w "of_nat k"] u32_bound [of w] k by (simp add: word_size)
qed

lemma fill_fill:
  assumes "k + j \<le> 2 ^ 32"
  shows "fill j (a + of_nat k) d (fill k a d M) = fill (k + j) a d M"
proof
  fix x
  obtain w where w: "x - a = w" by simp
  have e: "x - (a + of_nat k) = w - of_nat k" using w by (simp add: algebra_simps)
  show "fill j (a + of_nat k) d (fill k a d M) x = fill (k + j) a d M x"
  proof (cases "k < 2 ^ 32")
    case True
    show ?thesis using unat_shift [OF True, of w] assms u32_bound [of w] unfolding fill_def e w by auto
  next
    case False
    then have "k = 2 ^ 32" "j = 0" using assms by simp_all
    then show ?thesis by (simp add: fill_def)
  qed
qed

lemma fill_0 [simp]: "fill 0 a d M = M"
  by (simp add: fill_def)

lemma fill_1: "M(a := d) = fill 1 a d M"
  by (auto simp: fill_def fun_eq_iff unat_eq_zero)

lemma unat_u32_numeral: "unat (x - a :: u32) < 4 \<longleftrightarrow> x = a \<or> x = a + 1 \<or> x = a + 2 \<or> x = a + 3"
proof -
  obtain w where w: "x = a + w" by (metis add.commute diff_add_cancel)
  have "unat w < 4 \<longleftrightarrow> w = 0 \<or> w = 1 \<or> w = 2 \<or> w = 3"
  proof
    assume "unat w < 4"
    then have "unat w = 0 \<or> unat w = 1 \<or> unat w = 2 \<or> unat w = 3" by auto
    then have "unat w = unat (0 :: u32) \<or> unat w = unat (1 :: u32) \<or> unat w = unat (2 :: u32) \<or> unat w = unat (3 :: u32)" by simp
    then show "w = 0 \<or> w = 1 \<or> w = 2 \<or> w = 3" unfolding word_unat_eq_iff .
  qed auto
  then show ?thesis by (simp add: w)
qed

definition spread :: "u32 \<Rightarrow> u32" where
  "spread d = (let b = push_bit 8 d OR d in b OR push_bit 16 b)"

lemma store32_spread:
  assumes "d = c AND 0xff"
  shows "store32 a (spread d) M = fill 4 a (ucast d) M"
proof -
  have m: "(0xff :: u32) = mask 8" by (simp add: mask_eq_exp_minus_1)
  have D: "\<not> bit d n" if "8 \<le> n" for n using that by (simp add: assms m bit_simps)
  have s: "bit (spread d) n = (n < 32 \<and> (bit d n \<or> 8 \<le> n \<and> bit d (n - 8) \<or> 16 \<le> n \<and> bit d (n - 16) \<or> 24 \<le> n \<and> bit d (n - 24)))" for n
    by (auto simp: spread_def Let_def bit_or_iff bit_push_bit_iff dest: bit_imp_le_length)
  have b: "ucast (drop_bit k (spread d)) = (ucast d :: u8)" if "k = 0 \<or> k = 8 \<or> k = 16 \<or> k = 24" for k
  proof (rule bit_eqI)
    fix n assume "possible_bit TYPE(8 word) n"
    then have n: "n < 8" by simp
    have "bit (spread d) (k + n) = bit d n" using that n D by (elim disjE) (auto simp: s)
    then show "bit (ucast (drop_bit k (spread d)) :: u8) n = bit (ucast d :: u8) n" using n by (simp add: bit_ucast_iff bit_drop_bit_eq)
  qed
  show ?thesis using b [of 0] b [of 8] b [of 16] b [of 24]
    by (auto simp: store32_def fill_def fun_eq_iff unat_u32_numeral)
qed

subsection \<open>rt\_memset fills\<close>

lemma unat_and_3: "unat ((w :: u32) AND 3) = unat w mod 4"
proof -
  have "(3 :: u32) = mask 2" by (simp add: mask_eq_exp_minus_1)
  then have "w AND 3 = take_bit 2 w" by (simp add: take_bit_eq_mask)
  then show ?thesis by (simp add: take_bit_eq_mod unat_mod)
qed

lemma aligned_iff: "(w :: u32) AND 3 = 0 \<longleftrightarrow> 4 dvd unat w"
  using unat_and_3 [of w] by (metis dvd_eq_mod_eq_0 unat_eq_zero)

lemma next_aligned: "\<exists>k \<le> 3. ((m :: u32) + of_nat k) AND 3 = 0"
proof -
  define k where "k = (4 - unat m mod 4) mod 4"
  have k: "k \<le> 3" "unat (of_nat k :: u32) = k" by (simp_all add: k_def unat_of_nat take_bit_nat_eq_self)
  have "4 dvd n + (4 - n mod 4) mod 4" for n :: nat
  proof -
    have "n mod 4 = 0 \<or> n mod 4 = 1 \<or> n mod 4 = 2 \<or> n mod 4 = 3" using mod_less_divisor [of 4 n] by linarith
    then show ?thesis unfolding dvd_eq_mod_eq_0 by (elim disjE; simp; presburger)
  qed
  then have "4 dvd unat m + k" unfolding k_def by blast
  then have "4 dvd unat (m + of_nat k)" using k(2) by (simp add: unat_word_ariths dvd_mod)
  then show ?thesis using k(1) by (auto simp: aligned_iff)
qed

lemma memset_align_runs:
  "(m + of_nat k) AND 3 = 0 \<Longrightarrow> k < 2 ^ 32 \<Longrightarrow>
   \<exists>j \<le> k. memset_align d m count M = Some (m + of_nat j, count - of_nat j, fill j m d M) \<and> (m + of_nat j) AND 3 = 0"
proof (induction k arbitrary: m count M)
  case 0
  then show ?case by (simp add: memset_align.simps)
next
  case (Suc k)
  show ?case
  proof (cases "m AND 3 = 0")
    case True
    then show ?thesis by (intro exI [of _ 0]) (simp add: memset_align.simps)
  next
    case False
    have a: "(m + 1 + of_nat k) AND 3 = 0" using Suc.prems(1) by (simp add: add.assoc)
    obtain j where j: "j \<le> k" "memset_align d (m + 1) (count - 1) (M(m := d)) = Some (m + 1 + of_nat j, count - 1 - of_nat j, fill j (m + 1) d (M(m := d)))"
      "(m + 1 + of_nat j) AND 3 = 0" using Suc.IH [OF a, of "count - 1" "M(m := d)"] Suc_lessD [OF Suc.prems(2)] by blast
    have "fill j (m + 1) d (M(m := d)) = fill (Suc j) m d M"
      using fill_fill [of 1 j m d M] j(1) Suc.prems(2) by (simp add: fill_1)
    then show ?thesis using False j by (intro exI [of _ "Suc j"]) (simp add: memset_align.simps [of d m] algebra_simps)
  qed
qed

lemma unat_minus_nat: "k \<le> unat (w :: u32) \<Longrightarrow> unat (w - of_nat k) = unat w - k"
  using unat_shift [of k w] u32_bound [of w] by simp

lemma memset_words_runs:
  assumes "\<And>a M. store32 a b M = fill 4 a d M"
  shows "memset_words b a count M = Some (a + of_nat (unat count div 4 * 4), count - of_nat (unat count div 4 * 4), fill (unat count div 4 * 4) a d M)"
proof (induction "unat count" arbitrary: a count M rule: less_induct)
  case less
  show ?case
  proof (cases "4 \<le> count")
    case False
    then have "unat count div 4 = 0" by (simp add: word_le_nat_alt)
    then show ?thesis using False by (simp add: memset_words.simps [of b a count])
  next
    case True
    then have c: "4 \<le> unat count" by (simp add: word_le_nat_alt)
    have u: "unat (count - 4) = unat count - 4" using unat_minus_nat [of 4 count] c by simp
    define k where "k = unat (count - 4) div 4 * 4"
    have k: "unat count div 4 * 4 = 4 + k" using c by (simp add: k_def u le_div_geq)
    then have k2: "4 + k \<le> 2 ^ 32" using u32_bound [of count] div_times_less_eq_dividend [of "unat count" 4] by linarith
    have "memset_words b a count M = Some (a + 4 + of_nat k, count - 4 - of_nat k, fill k (a + 4) d (fill 4 a d M))"
      using less [of "count - 4" "a + 4" "fill 4 a d M"] True u c assms by (simp add: memset_words.simps [of b a count] k_def)
    then show ?thesis unfolding k using fill_fill [of 4 k a d M] k2 by (simp add: algebra_simps)
  qed
qed

lemma memset_blocks_runs:
  assumes s: "\<And>a M. store32 a b M = fill 4 a d M"
  shows "memset_blocks b a count M = Some (a + of_nat (unat count div 16 * 16), count - of_nat (unat count div 16 * 16), fill (unat count div 16 * 16) a d M)"
proof (induction "unat count" arbitrary: a count M rule: less_induct)
  case less
  show ?case
  proof (cases "16 \<le> count")
    case False
    then have "unat count div 16 = 0" by (simp add: word_le_nat_alt)
    then show ?thesis using False by (simp add: memset_blocks.simps [of b a count])
  next
    case True
    then have c: "16 \<le> unat count" by (simp add: word_le_nat_alt)
    have u: "unat (count - 16) = unat count - 16" using unat_minus_nat [of 16 count] c by simp
    have f: "store32 (a + 12) b (store32 (a + 8) b (store32 (a + 4) b (store32 a b M))) = fill 16 a d M"
      unfolding s using fill_fill [of 4 4 a d M] fill_fill [of 8 4 a d M] fill_fill [of 12 4 a d M] by simp
    define k where "k = unat (count - 16) div 16 * 16"
    have k: "unat count div 16 * 16 = 16 + k" using c by (simp add: k_def u le_div_geq)
    then have k2: "16 + k \<le> 2 ^ 32" using u32_bound [of count] div_times_less_eq_dividend [of "unat count" 16] by linarith
    have "memset_blocks b a count M = Some (a + 16 + of_nat k, count - 16 - of_nat k, fill k (a + 16) d (fill 16 a d M))"
      using less [of "count - 16" "a + 16" "fill 16 a d M"] True u c f by (simp add: memset_blocks.simps [of b a count] k_def)
    then show ?thesis unfolding k using fill_fill [of 16 k a d M] k2 by (simp add: algebra_simps)
  qed
qed

lemma memset_bytes_runs: "memset_bytes d m count M = Some (fill (unat count) m d M)"
proof (induction "unat count" arbitrary: m count M)
  case 0
  then show ?case by (subst memset_bytes.simps) (simp add: unat_eq_zero)
next
  case (Suc n)
  have c: "count \<noteq> 0" "unat (count - 1) = n" using Suc.hyps(2) unat_minus_nat [of 1 count] by auto
  have "memset_bytes d m count M = Some (fill n (m + 1) d (fill 1 m d M))"
    using Suc.hyps(1) [of "count - 1" "m + 1" "M(m := d)"] c by (simp add: memset_bytes.simps [of d m count] fill_1)
  moreover have "fill n (m + 1) d (fill 1 m d M) = fill (1 + n) m d M"
    using fill_fill [of 1 n m d M] u32_bound [of count] Suc.hyps(2) by simp
  ultimately show ?case using Suc.hyps(2) by simp
qed

text \<open>The three phases of \<^verbatim>\<open>rt_memset\<close> for the byte \<open>d\<close>: the alignment loop fills at most three bytes, the loops over
  words some more, and the last loop the rest.\<close>

lemma memset_align_phase:
  obtains j where "j \<le> unat count"
    "(if 4 \<le> count then memset_align d s count M else Some (s, count, M)) = Some (s + of_nat j, count - of_nat j, fill j s d M)"
proof (cases "4 \<le> count")
  case True
  obtain k where k: "k \<le> 3" "(s + of_nat k) AND 3 = 0" using next_aligned by blast
  then have "k < 2 ^ 32" by simp
  then obtain j where "j \<le> k" "memset_align d s count M = Some (s + of_nat j, count - of_nat j, fill j s d M)"
    using memset_align_runs [OF k(2)] by blast
  then show ?thesis using that [of j] k(1) True by (simp add: word_le_nat_alt)
next
  case False
  then show ?thesis using that [of 0] by simp
qed

lemma memset_word_phase:
  assumes st: "\<And>a M. store32 a b M = fill 4 a d M"
  shows "\<exists>k \<le> unat n. (if \<not> n < 4 \<and> m AND 3 = 0 then do {
          (a, count, M) \<leftarrow> memset_blocks b m n M;
          memset_words b a count M }
        else Some (m, n, M)) = Some (m + of_nat k, n - of_nat k, fill k m d M)"
proof (cases "\<not> n < 4 \<and> m AND 3 = 0")
  case True
  let ?k = "unat n div 16 * 16"
  have k: "?k \<le> unat n" by simp
  define n' where "n' = n - of_nat ?k"
  have n': "unat n' = unat n - ?k" unfolding n'_def by (rule unat_minus_nat [OF k])
  let ?l = "unat n' div 4 * 4"
  have l: "?k + ?l \<le> unat n" using n' k by (metis add_le_cancel_left div_times_less_eq_dividend le_add_diff_inverse)
  have "fill ?l (m + of_nat ?k) d (fill ?k m d M) = fill (?k + ?l) m d M"
    by (rule fill_fill) (use l u32_bound [of n] in linarith)
  then have "(do { (a, count, M) \<leftarrow> memset_blocks b m n M; memset_words b a count M }) =
      Some (m + of_nat (?k + ?l), n - of_nat (?k + ?l), fill (?k + ?l) m d M)"
    unfolding memset_blocks_runs [OF st] using memset_words_runs [OF st, of "m + of_nat ?k" n' "fill ?k m d M"]
    by (simp add: n'_def algebra_simps)
  then show ?thesis using True l by (intro exI [of _ "?k + ?l"]) simp
next
  case False
  then show ?thesis by (intro exI [of _ 0]) auto
qed

lemma fill_rest: "k \<le> unat n \<Longrightarrow> fill (unat n - k) (m + of_nat k) d (fill k m d M) = fill (unat (n :: u32)) m d M"
  using fill_fill [of k "unat n - k" m d M] u32_bound [of n] by simp

text \<open>\<^verbatim>\<open>rt_memset\<close>, with its alignment loop, its stores of four words and of one word and its byte loop, always ends and
  is the plain loop: it sets the \<open>count\<close> bytes from the address to the low byte of the value and no other byte.\<close>

theorem memset_fills: "rt_memset s c count M = Some (\<lambda>x. if x - s < count then ucast c else M x)"
proof -
  define d where "d = c AND 0xff"
  have dc: "ucast d = (ucast c :: u8)"
    by (rule bit_eqI) (auto simp: d_def bit_simps mask_eq_exp_minus_1 [of 8, where 'a = "32 word", simplified, symmetric])
  obtain j where j: "j \<le> unat count"
    "(if 4 \<le> count then memset_align (ucast d) s count M else Some (s, count, M)) = Some (s + of_nat j, count - of_nat j, fill j s (ucast d) M)"
    by (rule memset_align_phase)
  define m n M' where "m = s + of_nat j" and "n = count - of_nat j" and "M' = fill j s (ucast d) M"
  obtain k where k: "k \<le> unat n" "(if \<not> n < 4 \<and> m AND 3 = 0 then do {
          (a, count, M) \<leftarrow> memset_blocks (spread d) m n M';
          memset_words (spread d) a count M }
        else Some (m, n, M')) = Some (m + of_nat k, n - of_nat k, fill k m (ucast d) M')"
    using memset_word_phase [OF store32_spread [OF d_def]] by blast
  have "rt_memset s c count M = memset_bytes (ucast d) (m + of_nat k) (n - of_nat k) (fill k m (ucast d) M')"
    unfolding rt_memset_def Let_def d_def [symmetric] spread_def [unfolded Let_def, symmetric] j(2) bind.bind_lunit prod.case
      m_def [symmetric] n_def [symmetric] M'_def [symmetric] k(2) ..
  also have "\<dots> = Some (fill (unat n) m (ucast d) M')"
    unfolding memset_bytes_runs unat_minus_nat [OF k(1)] fill_rest [OF k(1)] ..
  also have "fill (unat n) m (ucast d) M' = fill (unat count) s (ucast d) M"
    unfolding m_def n_def M'_def unat_minus_nat [OF j(1)] by (rule fill_rest [OF j(1)])
  finally show ?thesis by (simp add: fill_def dc word_less_nat_alt)
qed

subsection \<open>rt\_memcpy copies\<close>

definition no_overlap :: "u32 \<Rightarrow> u32 \<Rightarrow> nat \<Rightarrow> bool" where
  "no_overlap dst src n = (n \<le> unat (dst - src) \<and> n \<le> unat (src - dst))"

lemma no_overlap_mono: "no_overlap dst src n \<Longrightarrow> k \<le> n \<Longrightarrow> no_overlap dst src k"
  by (simp add: no_overlap_def)

lemma no_overlap_shift [simp]: "no_overlap (dst + w) (src + w) n = no_overlap dst src n"
  by (simp add: no_overlap_def)

lemma source_apart:
  assumes n: "no_overlap dst src n" and u: "unat w < n"
  shows "n \<le> unat (src + w - dst)"
proof -
  obtain v where v: "src - dst = v" by simp
  have d: "dst - src = - v" using v by (simp add: algebra_simps)
  have "v \<noteq> 0" using n u v by (auto simp: no_overlap_def)
  then have "unat (- v) = 2 ^ 32 - unat v" using unat_shift [of "unat v" 0] u32_bound [of v] by (simp add: unat_eq_zero)
  then have "n \<le> 2 ^ 32 - unat v" using n d by (simp add: no_overlap_def)
  then have "unat v + unat w < 2 ^ 32" using u u32_bound [of v] by linarith
  then have s: "unat (v + w) = unat v + unat w" by (simp add: unat_word_ariths)
  have e: "src + w - dst = v + w" using v by (simp add: algebra_simps)
  show ?thesis unfolding e s using n v by (simp add: no_overlap_def)
qed

lemma move_move:
  assumes n: "no_overlap dst src (k + j)"
  shows "move_unit j (dst + of_nat k) (src + of_nat k) (move_unit k dst src M) = move_unit (k + j) dst src M"
proof
  fix x
  obtain w where w: "x - dst = w" by simp
  have e: "x - (dst + of_nat k) = w - of_nat k" using w by (simp add: algebra_simps)
  have k: "k < 2 ^ 32" "k + j \<le> 2 ^ 32" using n u32_bound [of "dst - src"] by (auto simp: no_overlap_def)
  note s = unat_shift [OF k(1), of w]
  show "move_unit j (dst + of_nat k) (src + of_nat k) (move_unit k dst src M) x = move_unit (k + j) dst src M x"
  proof (cases "unat (w - of_nat k) < j")
    case True
    then have u: "k \<le> unat w" "unat w < k + j" using s k u32_bound [of w] by (auto split: if_splits)
    then have "\<not> unat (src + w - dst) < k" using source_apart [OF n, of w] by simp
    then show ?thesis using True u unfolding move_unit_def e w by (simp add: algebra_simps)
  next
    case False
    then have "unat w < k \<longleftrightarrow> unat w < k + j" using s by (auto split: if_splits)
    then show ?thesis using False unfolding move_unit_def e w by simp
  qed
qed

text \<open>The state of a copy after \<open>k\<close> bytes.\<close>

definition advance :: "nat \<Rightarrow> u32 \<times> u32 \<times> memory \<Rightarrow> u32 \<times> u32 \<times> memory" where
  "advance k = (\<lambda>(dst, src, M). (dst + of_nat k, src + of_nat k, move_unit k dst src M))"

lemma advance_advance: "no_overlap dst src (k + j) \<Longrightarrow> advance j (advance k (dst, src, M)) = advance (k + j) (dst, src, M)"
  by (simp add: advance_def move_move add.assoc)

lemma advance_0 [simp]: "advance 0 x = x"
  by (simp add: advance_def move_unit_def split: prod.splits)

lemma copy_word_advance: "copy_word = advance 4"
  by (simp add: copy_word_def advance_def fun_eq_iff)

lemma sint_ge_32: "32 \<le> sint (w :: u32) \<Longrightarrow> 32 \<le> unat w"
  using sint_nonneg_unat [of w] by linarith

lemma memcpy_words_runs:
  "no_overlap dst src (unat len) \<Longrightarrow> \<exists>k \<le> unat len. memcpy_words len (dst, src, M) = Some (len - of_nat k, advance k (dst, src, M))"
proof (induction "unat len" arbitrary: len dst src M rule: less_induct)
  case less
  show ?case
  proof (cases "4 \<le> len")
    case False
    then show ?thesis by (intro exI [of _ 0]) (simp add: memcpy_words.simps [of len])
  next
    case True
    then have c: "4 \<le> unat len" by (simp add: word_le_nat_alt)
    have u: "unat (len - 4) = unat len - 4" using unat_minus_nat [of 4 len] c by simp
    have "no_overlap (dst + 4) (src + 4) (unat (len - 4))" using no_overlap_mono [OF less.prems] u by simp
    then obtain k where k: "k \<le> unat len - 4" "memcpy_words (len - 4) (advance 4 (dst, src, M)) = Some (len - 4 - of_nat k, advance k (advance 4 (dst, src, M)))"
      using less.hyps [of "len - 4" "dst + 4" "src + 4" "move_unit 4 dst src M"] u c by (auto simp: advance_def)
    have "advance k (advance 4 (dst, src, M)) = advance (4 + k) (dst, src, M)"
      by (rule advance_advance [OF no_overlap_mono [OF less.prems]]) (use k(1) c in simp)
    then show ?thesis using k True c
      by (intro exI [of _ "4 + k"]) (simp add: memcpy_words.simps [of len] copy_word_advance algebra_simps)
  qed
qed

lemma memcpy_blocks_runs:
  "no_overlap dst src (unat len) \<Longrightarrow> \<exists>k \<le> unat len. memcpy_blocks len (dst, src, M) = Some (len - of_nat k, advance k (dst, src, M))"
proof (induction "unat len" arbitrary: len dst src M rule: less_induct)
  case less
  show ?case
  proof (cases "32 \<le> sint len")
    case False
    then show ?thesis by (intro exI [of _ 0]) (simp add: memcpy_blocks.simps [of len])
  next
    case True
    then have c: "32 \<le> unat len" by (rule sint_ge_32)
    have u: "unat (len - 32) = unat len - 32" using unat_minus_nat [of 32 len] c by simp
    have a: "advance j (advance k (dst, src, M)) = advance (k + j) (dst, src, M)" if "k + j \<le> unat len" for k j
      by (rule advance_advance [OF no_overlap_mono [OF less.prems that]])
    have w: "copy_word (copy_word (copy_word (copy_word (copy_word (copy_word (copy_word (copy_word (dst, src, M)))))))) = advance 32 (dst, src, M)"
      unfolding copy_word_advance using c by (simp add: a)
    have "no_overlap (dst + 32) (src + 32) (unat (len - 32))" using no_overlap_mono [OF less.prems] u by simp
    then obtain k where k: "k \<le> unat len - 32" "memcpy_blocks (len - 32) (advance 32 (dst, src, M)) = Some (len - 32 - of_nat k, advance k (advance 32 (dst, src, M)))"
      using less.hyps [of "len - 32" "dst + 32" "src + 32" "move_unit 32 dst src M"] u c by (auto simp: advance_def)
    then show ?thesis using True c a [of 32 k]
      by (intro exI [of _ "32 + k"]) (simp add: memcpy_blocks.simps [of len] w algebra_simps)
  qed
qed

lemma memcpy_bytes_runs: "no_overlap dst src (unat len) \<Longrightarrow> memcpy_bytes len dst src M = Some (move_unit (unat len) dst src M)"
proof (induction "unat len" arbitrary: len dst src M)
  case 0
  then show ?case by (subst memcpy_bytes.simps) (simp add: unat_eq_zero move_unit_def)
next
  case (Suc n)
  have c: "len \<noteq> 0" "unat (len - 1) = n" using Suc.hyps(2) unat_minus_nat [of 1 len] by auto
  have "no_overlap (dst + 1) (src + 1) (unat (len - 1))" using no_overlap_mono [OF Suc.prems] c Suc.hyps(2) by simp
  then have "memcpy_bytes len dst src M = Some (move_unit n (dst + 1) (src + 1) (move_unit 1 dst src M))"
    using Suc.hyps(1) [of "len - 1" "dst + 1" "src + 1" "move_unit 1 dst src M"] c by (subst memcpy_bytes.simps) simp
  moreover have "move_unit n (dst + 1) (src + 1) (move_unit 1 dst src M) = move_unit (1 + n) dst src M"
    using move_move [of dst src 1 n M] Suc.prems Suc.hyps(2) by simp
  ultimately show ?case using Suc.hyps(2) by simp
qed

lemma alignedcopy_runs:
  "no_overlap dst src (32 * Suc m) \<Longrightarrow> arm32_alignedcopy src dst (dst + of_nat (32 * Suc m)) M = Some (move_unit (32 * Suc m) dst src M)"
proof (induction m arbitrary: dst src M)
  case 0
  then show ?case by (subst arm32_alignedcopy.simps) simp
next
  case (Suc m)
  have b: "32 * Suc (Suc m) < 2 ^ 32" using Suc.prems u32_bound [of "dst - src"] by (simp add: no_overlap_def)
  have "unat (of_nat (32 * Suc m) :: u32) = 32 * Suc m" using b by (simp only: unat_of_nat) (simp add: take_bit_nat_eq_self)
  then have "of_nat (32 * Suc m) \<noteq> (0 :: u32)" by (metis mult_eq_0_iff nat.distinct(1) unat_0 zero_neq_numeral)
  then have ne: "dst + 32 \<noteq> dst + of_nat (32 * Suc (Suc m))" by simp
  have "no_overlap (dst + 32) (src + 32) (32 * Suc m)" using no_overlap_mono [OF Suc.prems] by simp
  then have "arm32_alignedcopy (src + 32) (dst + 32) (dst + 32 + of_nat (32 * Suc m)) (move_unit 32 dst src M) =
      Some (move_unit (32 * Suc m) (dst + 32) (src + 32) (move_unit 32 dst src M))" by (rule Suc.IH)
  moreover have "move_unit (32 * Suc m) (dst + 32) (src + 32) (move_unit 32 dst src M) = move_unit (32 + 32 * Suc m) dst src M"
    using move_move [of dst src 32 "32 * Suc m" M] Suc.prems by simp
  ultimately show ?case using ne by (subst arm32_alignedcopy.simps) (simp add: algebra_simps)
qed

lemma memcpy_align_runs:
  assumes n: "no_overlap dst src (unat len)"
  shows "\<exists>j \<le> unat len. memcpy_align len dst src M = (len - of_nat j, advance j (dst, src, M))"
proof (cases "dst AND 3 \<noteq> 0 \<and> \<not> sint len < 32 \<and> dst AND 3 = src AND 3")
  case False
  then show ?thesis by (intro exI [of _ 0]) (auto simp: memcpy_align_def Let_def)
next
  case True
  then have l: "32 \<le> unat len" by (intro sint_ge_32) simp
  have m: "move_unit 2 (dst + 1) (src + 1) (move_unit 1 dst src M) = move_unit 3 dst src M"
    using move_move [of dst src 1 2 M] no_overlap_mono [OF n, of 3] l by (simp add: numeral_3_eq_3)
  show ?thesis using True l m
    by (intro exI [of _ "if dst AND 3 = 2 then 2 else if dst AND 3 = 1 then 3 else 1"]) (auto simp: memcpy_align_def Let_def advance_def)
qed

definition memcpy_middle :: "(u32 \<Rightarrow> u32) \<Rightarrow> u32 \<Rightarrow> u32 \<Rightarrow> u32 \<Rightarrow> memory \<Rightarrow> (u32 \<times> u32 \<times> u32 \<times> memory) option" where
  "memcpy_middle pgd len d s M =
     (if \<not> sint len < 32 \<and> (\<not> unaligned s d \<or> addr_all_cached pgd s d) then
        if \<not> unaligned s d then do {
          let n = push_bit 5 (drop_bit 5 len);
          M \<leftarrow> arm32_alignedcopy s d (d + n) M;
          Some (len - n, d + n, s + n, M) }
        else do {
          (len, x) \<leftarrow> memcpy_blocks len (d, s, M);
          memcpy_words len x }
      else Some (len, d, s, M))"

lemma round_32: "push_bit 5 (drop_bit 5 len) = (of_nat (32 * (unat len div 32)) :: u32)"
proof -
  have "unat (push_bit 5 (drop_bit 5 len)) = 32 * (unat len div 32)"
    using u32_bound [of len] by (simp add: push_bit_eq_mult drop_bit_eq_div unat_word_ariths unat_div)
  from arg_cong [OF this, of "of_nat :: nat \<Rightarrow> u32"] show ?thesis by (simp only: of_nat_unat ucast_id)
qed

lemma memcpy_middle_runs:
  assumes n: "no_overlap d s (unat len)"
  shows "\<exists>k \<le> unat len. memcpy_middle pgd len d s M = Some (len - of_nat k, advance k (d, s, M))"
proof (cases "\<not> sint len < 32 \<and> (\<not> unaligned s d \<or> addr_all_cached pgd s d)")
  case False
  then show ?thesis by (intro exI [of _ 0]) (auto simp: memcpy_middle_def)
next
  case True
  then have l: "32 \<le> unat len" by (intro sint_ge_32) simp
  show ?thesis
  proof (cases "unaligned s d")
    case False
    obtain m where m: "unat len div 32 = Suc m" using l by (cases "unat len div 32") auto
    let ?k = "32 * Suc m"
    have k: "?k \<le> unat len" unfolding m [symmetric] by simp
    have "memcpy_middle pgd len d s M = Some (len - of_nat ?k, advance ?k (d, s, M))"
      using True False alignedcopy_runs [OF no_overlap_mono [OF n k], of M] unfolding memcpy_middle_def round_32 m Let_def advance_def by simp
    then show ?thesis using k by blast
  next
    case U: True
    obtain k where k: "k \<le> unat len" "memcpy_blocks len (d, s, M) = Some (len - of_nat k, advance k (d, s, M))"
      using memcpy_blocks_runs [OF n] by blast
    have "unat (len - of_nat k) = unat len - k" by (rule unat_minus_nat [OF k(1)])
    then obtain j where j: "j \<le> unat len - k" "memcpy_words (len - of_nat k) (advance k (d, s, M)) = Some (len - of_nat k - of_nat j, advance j (advance k (d, s, M)))"
      using memcpy_words_runs [of "d + of_nat k" "s + of_nat k" "len - of_nat k" "move_unit k d s M"] no_overlap_mono [OF n]
      by (auto simp: advance_def)
    have "advance j (advance k (d, s, M)) = advance (k + j) (d, s, M)"
      by (rule advance_advance [OF no_overlap_mono [OF n]]) (use j(1) k(1) in simp)
    then show ?thesis using True U k j by (intro exI [of _ "k + j"]) (simp add: memcpy_middle_def algebra_simps)
  qed
qed

lemma memcpy_runs:
  assumes "no_overlap dst src (unat count)"
  shows "rt_memcpy pgd dst src count M = Some (\<lambda>x. if x - dst < count then M (src + (x - dst)) else M x)"
proof -
  obtain j where j: "j \<le> unat count" "memcpy_align count dst src M = (count - of_nat j, advance j (dst, src, M))"
    using memcpy_align_runs [OF assms] by blast
  define len d s where "len = count - of_nat j" and "d = dst + of_nat j" and "s = src + of_nat j"
  have len: "unat len = unat count - j" unfolding len_def by (rule unat_minus_nat [OF j(1)])
  let ?M = "move_unit j dst src M"
  have n: "no_overlap d s (unat len)" using no_overlap_mono [OF assms] by (simp add: d_def s_def len)
  obtain k where k: "k \<le> unat len" "memcpy_middle pgd len d s ?M = Some (len - of_nat k, advance k (d, s, ?M))"
    using memcpy_middle_runs [OF n] by blast
  have "rt_memcpy pgd dst src count M = memcpy_bytes (len - of_nat k) (d + of_nat k) (s + of_nat k) (move_unit k d s ?M)"
    using k(2) unfolding rt_memcpy_def memcpy_middle_def Let_def j(2) advance_def prod.case len_def [symmetric] d_def [symmetric] s_def [symmetric]
    by (simp only: bind.bind_lunit prod.case)
  also have "\<dots> = Some (move_unit (unat len - k) (d + of_nat k) (s + of_nat k) (move_unit k d s ?M))"
    using memcpy_bytes_runs [of "d + of_nat k" "s + of_nat k" "len - of_nat k"] no_overlap_mono [OF n] unat_minus_nat [OF k(1)] by simp
  also have "move_unit (unat len - k) (d + of_nat k) (s + of_nat k) (move_unit k d s ?M) = move_unit (unat len) d s ?M"
    using move_move [of d s k "unat len - k" ?M] n k(1) by simp
  also have "\<dots> = move_unit (unat count) dst src M"
    using move_move [of dst src j "unat len" M] assms j(1) by (simp add: d_def s_def len)
  finally show ?thesis by (simp add: move_unit_def word_less_nat_alt)
qed

text \<open>C24: \<^verbatim>\<open>rt_memcpy\<close>, with its alignment step, the assembly copy of eight registers, the copies of eight words and of
  one word and its byte loop, ends for every length and, for two regions that do not overlap, is the plain loop: the
  \<open>count\<close> bytes at the destination are those of the source, and no other byte changes.\<close>

theorem memcpy_copies:
  assumes "no_overlap dst src (unat count)"
  shows "rt_memcpy pgd dst src count M = Some (\<lambda>x. if x - dst < count then M (src + (x - dst)) else M x)"
  using assms by (rule memcpy_runs)

theorem memcpy_copies_witness:
  "rt_memcpy (\<lambda>_. 0) 0x2001 0x1001 70 (\<lambda>a. ucast a) =
     Some (\<lambda>x. if x - 0x2001 < (70 :: u32) then (\<lambda>a. ucast a) (0x1001 + (x - 0x2001)) else (\<lambda>a. ucast a) x)"
  by (rule memcpy_copies) (simp add: no_overlap_def)

subsection \<open>rt\_memmove moves\<close>

lemma memmove_up_runs:
  "(\<And>i j. j < i \<Longrightarrow> i < unat n \<Longrightarrow> s + of_nat i \<noteq> tmp + of_nat j) \<Longrightarrow>
   memmove_up n tmp s M = Some (move_unit (unat n) tmp s M)"
proof (induction "unat n" arbitrary: n tmp s M)
  case 0
  then show ?case by (subst memmove_up.simps) (simp add: unat_eq_zero move_unit_def)
next
  case (Suc k)
  have c: "n \<noteq> 0" "unat (n - 1) = k" using Suc.hyps(2) unat_minus_nat [of 1 n] by auto
  have "memmove_up (n - 1) (tmp + 1) (s + 1) (M(tmp := M s)) = Some (move_unit k (tmp + 1) (s + 1) (M(tmp := M s)))"
    unfolding c(2) [symmetric]
  proof (rule Suc.hyps(1))
    fix i j :: nat assume "j < i" "i < unat (n - 1)"
    then show "s + 1 + of_nat i \<noteq> tmp + 1 + of_nat j"
      using Suc.prems [of "Suc j" "Suc i"] c Suc.hyps(2) by (simp add: algebra_simps)
  qed (use c in simp)
  moreover have "move_unit k (tmp + 1) (s + 1) (M(tmp := M s)) = move_unit (Suc k) tmp s M"
  proof
    fix x
    obtain w where w: "x = tmp + w" by (metis add.commute diff_add_cancel)
    have kb: "Suc k < 2 ^ 32" using Suc.hyps(2) u32_bound [of n] by simp
    show "move_unit k (tmp + 1) (s + 1) (M(tmp := M s)) x = move_unit (Suc k) tmp s M x"
    proof (cases "unat (w - 1) < k")
      case True
      then have u: "0 < unat w" "unat w < Suc k" using unat_shift [of 1 w] kb by (auto split: if_splits)
      have "w = of_nat (unat w)" by simp
      then have "s + w \<noteq> tmp" using Suc.prems [of 0 "unat w"] u Suc.hyps(2) by simp
      then show ?thesis using True u by (simp add: w move_unit_def)
    next
      case False
      have "w \<noteq> 0 \<Longrightarrow> 1 \<le> unat w" by (simp add: Suc_le_eq unat_gt_0)
      then have "w = 0 \<or> \<not> unat w < Suc k" using False unat_shift [of 1 w] by (cases "w = 0") auto
      then show ?thesis using False by (auto simp: w move_unit_def)
    qed
  qed
  ultimately show ?case using c Suc.hyps(2) by (subst memmove_up.simps) simp
qed

lemma memmove_down_runs:
  "(\<And>i j. i < j \<Longrightarrow> j < unat n \<Longrightarrow> s + of_nat i \<noteq> d + of_nat j) \<Longrightarrow>
   memmove_down n (d + n) (s + n) M = Some (move_unit (unat n) d s M)"
proof (induction "unat n" arbitrary: n M)
  case 0
  then show ?case by (subst memmove_down.simps) (simp add: unat_eq_zero move_unit_def)
next
  case (Suc k)
  have c: "n \<noteq> 0" "unat (n - 1) = k" using Suc.hyps(2) unat_minus_nat [of 1 n] by auto
  let ?M = "M(d + (n - 1) := M (s + (n - 1)))"
  have "memmove_down (n - 1) (d + (n - 1)) (s + (n - 1)) ?M = Some (move_unit (unat (n - 1)) d s ?M)"
    by (rule Suc.hyps(1)) (use c Suc.prems Suc.hyps(2) in auto)
  moreover have "move_unit k d s ?M = move_unit (Suc k) d s M"
  proof
    fix x
    obtain w where w: "x = d + w" by (metis add.commute diff_add_cancel)
    show "move_unit k d s ?M x = move_unit (Suc k) d s M x"
    proof (cases "unat w < k")
      case True
      then have "s + w \<noteq> d + (n - 1)" using Suc.prems [of "unat w" k] c(2) Suc.hyps(2) by (metis lessI of_nat_unat ucast_id)
      then show ?thesis using True by (simp add: w move_unit_def)
    next
      case False
      then have "unat w < Suc k \<longleftrightarrow> w = n - 1" using c(2) by (auto simp: word_unat_eq_iff)
      then show ?thesis using False by (auto simp: w move_unit_def)
    qed
  qed
  ultimately show ?case using c Suc.hyps(2) by (subst memmove_down.simps) (simp add: algebra_simps)
qed

text \<open>\<^verbatim>\<open>rt_memmove\<close> copies correctly whether or not the regions overlap, as long as they do not reach past the end of the
  address space: the direction of its loop is always the right one.\<close>

theorem memmove_moves:
  assumes s: "unat src + unat n < 2 ^ 32" and d: "unat dest + unat n \<le> 2 ^ 32"
  shows "rt_memmove dest src n M = Some (\<lambda>x. if x - dest < n then M (src + (x - dest)) else M x)"
proof -
  have u: "unat (a + of_nat i) = unat a + i" if "unat a + unat n \<le> 2 ^ 32" "i < unat n" for a :: u32 and i
    using that u32_bound [of n] by (simp add: unat_word_ariths unat_of_nat take_bit_nat_eq_self)
  have us: "unat (src + n) = unat src + unat n" using s by (simp add: unat_word_ariths)
  have ne: "src + of_nat i \<noteq> dest + of_nat j" if "i < unat n" "j < unat n" "unat src + i \<noteq> unat dest + j" for i j
    using u [of src i] u [of dest j] s d that by (metis less_imp_le)
  show ?thesis
  proof (cases "src < dest \<and> dest < src + n")
    case True
    then have "rt_memmove dest src n M = Some (move_unit (unat n) dest src M)" unfolding rt_memmove_def
      using ne by (simp add: word_less_nat_alt us) (rule memmove_down_runs, force)
    then show ?thesis by (simp add: move_unit_def word_less_nat_alt)
  next
    case False
    then have o: "unat dest \<le> unat src \<or> unat src + unat n \<le> unat dest" by (auto simp: word_less_nat_alt us)
    have "memmove_up n dest src M = Some (move_unit (unat n) dest src M)"
    proof (rule memmove_up_runs)
      fix i j :: nat assume "j < i" "i < unat n"
      then show "src + of_nat i \<noteq> dest + of_nat j" using o by (intro ne) auto
    qed
    then have "rt_memmove dest src n M = Some (move_unit (unat n) dest src M)" using False by (auto simp: rt_memmove_def)
    then show ?thesis by (simp add: move_unit_def word_less_nat_alt)
  qed
qed

theorem memmove_moves_witness:
  "rt_memmove 0x1002 0x1000 7 (\<lambda>a. ucast a) =
     Some (\<lambda>x. if x - 0x1002 < (7 :: u32) then (\<lambda>a. ucast a) (0x1000 + (x - 0x1002)) else (\<lambda>a. ucast a) x)"
  by (rule memmove_moves) simp_all

end
