(* ===== verification/Memheap.thy ===== *)
theory Memheap
  imports Mempool Semaphore Rt_List Kmem
begin

unbundle bit_operations_syntax

text \<open>
  The memory heaps of \<^verbatim>\<open>kernel/src/memheap.c\<close>. A heap is a pool of bytes cut into blocks, each
  with a header (\<^verbatim>\<open>struct rt_memheap_item\<close>, 24 bytes) in front of its payload. All headers are
  linked into a ring in the order of their addresses, the headers of free blocks into a second
  ring that starts at \<^verbatim>\<open>free_header\<close>. Addresses are 32-bit words, the null pointer is 0.

  The headers are in the map \<open>items\<close>, by address, the payload bytes in \<open>mem\<close>. The heap object and
  its lock are objects of the kernel; the operations work on a kernel and a heap. Memory tracing
  is off, as in the shipped configurations.
\<close>

abbreviation (input) RT_Object_Class_MemHeap :: u8 where "RT_Object_Class_MemHeap \<equiv> 7"
abbreviation (input) RT_MEMHEAP_MAGIC :: u32 where "RT_MEMHEAP_MAGIC \<equiv> 0x1ea01ea0"
abbreviation (input) RT_MEMHEAP_MASK :: u32 where "RT_MEMHEAP_MASK \<equiv> 0xfffffffe"
abbreviation (input) RT_MEMHEAP_USED :: u32 where "RT_MEMHEAP_USED \<equiv> 1"
abbreviation (input) RT_MEMHEAP_FREED :: u32 where "RT_MEMHEAP_FREED \<equiv> 0"
abbreviation (input) RT_MEMHEAP_MINIALLOC :: u32 where "RT_MEMHEAP_MINIALLOC \<equiv> 12"
abbreviation (input) RT_MEMHEAP_SIZE :: u32 where "RT_MEMHEAP_SIZE \<equiv> 24"

record rt_memheap_item =
  magic :: u32
  pool_ptr :: "nat option"
  mi_next :: u32
  mi_prev :: u32
  next_free :: u32
  prev_free :: u32

record rt_memheap =
  start_addr :: u32
  pool_size :: u32
  available_size :: u32
  max_used_size :: u32
  block_list :: u32
  free_list :: u32
  free_header :: u32
  heap_obj :: nat
  heap_lock :: nat
  items :: "u32 \<Rightarrow> rt_memheap_item"
  mem :: memory

definition upd_item :: "u32 \<Rightarrow> (rt_memheap_item \<Rightarrow> rt_memheap_item) \<Rightarrow> rt_memheap \<Rightarrow> rt_memheap" where
  "upd_item a f H = H\<lparr>items := (items H)(a := f (items H a))\<rparr>"

definition item_is_used :: "rt_memheap \<Rightarrow> u32 \<Rightarrow> bool" where
  "item_is_used H a = (magic (items H a) AND RT_MEMHEAP_USED \<noteq> 0)"

definition memitem_size :: "rt_memheap \<Rightarrow> u32 \<Rightarrow> u32" where
  "memitem_size H a = mi_next (items H a) - a - RT_MEMHEAP_SIZE"

definition RT_ALIGN4 :: "u32 \<Rightarrow> u32" where
  "RT_ALIGN4 n = (n + 4 - 1) AND NOT (4 - 1)"

text \<open>The links of the two rings, changed by the same assignments in several places.\<close>

definition free_remove :: "u32 \<Rightarrow> rt_memheap \<Rightarrow> rt_memheap" where
  "free_remove p H =
     (let H = upd_item (next_free (items H p)) (\<lambda>i. i\<lparr>prev_free := prev_free (items H p)\<rparr>) H
      in upd_item (prev_free (items H p)) (\<lambda>i. i\<lparr>next_free := next_free (items H p)\<rparr>) H)"

definition free_null :: "u32 \<Rightarrow> rt_memheap \<Rightarrow> rt_memheap" where
  "free_null p H = upd_item p (\<lambda>i. i\<lparr>next_free := 0, prev_free := 0\<rparr>) H"

definition free_insert :: "u32 \<Rightarrow> rt_memheap \<Rightarrow> rt_memheap" where
  "free_insert n H =
     (let H = upd_item n (\<lambda>i. i\<lparr>next_free := next_free (items H (free_list H))\<rparr>) H;
          H = upd_item n (\<lambda>i. i\<lparr>prev_free := free_list H\<rparr>) H;
          H = upd_item (next_free (items H (free_list H))) (\<lambda>i. i\<lparr>prev_free := n\<rparr>) H
      in upd_item (free_list H) (\<lambda>i. i\<lparr>next_free := n\<rparr>) H)"

definition block_insert :: "u32 \<Rightarrow> u32 \<Rightarrow> rt_memheap \<Rightarrow> rt_memheap" where
  "block_insert p n H =
     (let H = upd_item n (\<lambda>i. i\<lparr>mi_prev := p\<rparr>) H;
          H = upd_item n (\<lambda>i. i\<lparr>mi_next := mi_next (items H p)\<rparr>) H;
          H = upd_item (mi_next (items H p)) (\<lambda>i. i\<lparr>mi_prev := n\<rparr>) H
      in upd_item p (\<lambda>i. i\<lparr>mi_next := n\<rparr>) H)"

definition new_item :: "u32 \<Rightarrow> rt_memheap \<Rightarrow> rt_memheap" where
  "new_item n H = upd_item n (\<lambda>i. i\<lparr>magic := RT_MEMHEAP_MAGIC OR RT_MEMHEAP_FREED, pool_ptr := Some (heap_obj H)\<rparr>) H"

definition take_size :: "u32 \<Rightarrow> rt_memheap \<Rightarrow> rt_memheap" where
  "take_size n H =
     (let H = H\<lparr>available_size := available_size H - n\<rparr> in
      if max_used_size H < pool_size H - available_size H
      then H\<lparr>max_used_size := pool_size H - available_size H\<rparr> else H)"

subsection \<open>Initialisation\<close>

definition memheap_build :: "u32 \<Rightarrow> u32 \<Rightarrow> rt_memheap \<Rightarrow> rt_memheap" where
  "memheap_build start sz H =
     (let H = H\<lparr>start_addr := start, pool_size := sz AND NOT 3\<rparr>;
          H = H\<lparr>available_size := pool_size H - 2 * RT_MEMHEAP_SIZE\<rparr>;
          H = H\<lparr>max_used_size := pool_size H - available_size H\<rparr>;
          fh = free_header H;
          H = upd_item fh (\<lambda>_. \<lparr>magic = RT_MEMHEAP_MAGIC OR RT_MEMHEAP_FREED, pool_ptr = Some (heap_obj H),
             mi_next = 0, mi_prev = 0, next_free = fh, prev_free = fh\<rparr>) H;
          H = H\<lparr>free_list := fh\<rparr>;
          tail = start + available_size H + RT_MEMHEAP_SIZE;
          H = upd_item start (\<lambda>_. \<lparr>magic = RT_MEMHEAP_MAGIC OR RT_MEMHEAP_FREED, pool_ptr = Some (heap_obj H),
             mi_next = tail, mi_prev = tail, next_free = start, prev_free = start\<rparr>) H;
          H = H\<lparr>block_list := start\<rparr>;
          H = free_insert start H
      in upd_item tail (\<lambda>_. \<lparr>magic = RT_MEMHEAP_MAGIC OR RT_MEMHEAP_USED, pool_ptr = Some (heap_obj H),
             mi_next = start, mi_prev = start, next_free = 0, prev_free = 0\<rparr>) H)"

definition rt_memheap_init ::
  "u8 list \<Rightarrow> u32 \<Rightarrow> u32 \<Rightarrow> kernel \<times> rt_memheap \<Rightarrow> (rt_err \<times> kernel \<times> rt_memheap) option" where
  "rt_memheap_init name start sz = (\<lambda>(s, H). do {
     s \<leftarrow> rt_object_init (Obj (heap_obj H)) RT_Object_Class_MemHeap name s;
     let H = memheap_build start sz H;
     (_, s) \<leftarrow> rt_sem_init (heap_lock H) name 1 RT_IPC_FLAG_PRIO s;
     Some (RT_EOK, s, H) })"

definition rt_memheap_detach :: "kernel \<times> rt_memheap \<Rightarrow> (rt_err \<times> kernel \<times> rt_memheap) option" where
  "rt_memheap_detach = (\<lambda>(s, H). do {
     _ \<leftarrow> rt_assert (obj_class (heap_obj H) s = RT_Object_Class_MemHeap);
     _ \<leftarrow> rt_assert (rt_object_is_systemobject (Obj (heap_obj H)) s);
     let s = rt_object_detach (Obj (heap_lock H)) s;
     Some (RT_EOK, rt_object_detach (Obj (heap_obj H)) s, H) })"

subsection \<open>The lock\<close>

text \<open>
  The operations run their body between \<^verbatim>\<open>rt_sem_take\<close> and \<^verbatim>\<open>rt_sem_release\<close> of the lock. When the
  take fails they set the error number and return the null pointer. A take that blocks returns
  \<open>Blocked\<close>; the operation goes on with \<open>locked_wake\<close> when the thread runs again.
\<close>

definition locked_go ::
  "rt_err \<Rightarrow> (rt_memheap \<Rightarrow> ('a \<times> rt_memheap) option) \<Rightarrow> 'a \<Rightarrow> kernel \<times> rt_memheap \<Rightarrow>
   ('a outcome \<times> kernel \<times> rt_memheap) option" where
  "locked_go result body null = (\<lambda>(s, H).
     if result \<noteq> RT_EOK then Some (Ret null, rt_set_errno (- result) s, H)
     else do {
       (x, H) \<leftarrow> body H;
       (_, s) \<leftarrow> rt_sem_release (heap_lock H) s;
       Some (Ret x, s, H) })"

definition locked ::
  "(rt_memheap \<Rightarrow> ('a \<times> rt_memheap) option) \<Rightarrow> 'a \<Rightarrow> kernel \<times> rt_memheap \<Rightarrow>
   ('a outcome \<times> kernel \<times> rt_memheap) option" where
  "locked body null = (\<lambda>(s, H). do {
     (r, s) \<leftarrow> rt_sem_take (heap_lock H) RT_WAITING_FOREVER s;
     case r of Blocked \<Rightarrow> Some (Blocked, s, H) | Ret result \<Rightarrow> locked_go result body null (s, H) })"

definition locked_wake ::
  "nat \<Rightarrow> (rt_memheap \<Rightarrow> ('a \<times> rt_memheap) option) \<Rightarrow> 'a \<Rightarrow> kernel \<times> rt_memheap \<Rightarrow>
   ('a outcome \<times> kernel \<times> rt_memheap) option" where
  "locked_wake t body null = (\<lambda>(s, H).
     case rt_sem_take_wake t s of Blocked \<Rightarrow> None | Ret result \<Rightarrow> locked_go result body null (s, H))"

subsection \<open>Allocation\<close>

partial_function (option) memheap_search :: "u32 \<Rightarrow> rt_memheap \<Rightarrow> u32 \<Rightarrow> u32 \<Rightarrow> (u32 \<times> u32) option" where
  "memheap_search sz H header_ptr free_size =
     (if header_ptr \<noteq> free_list H \<and> free_size < sz then
        let free_size = memitem_size H header_ptr in
        if free_size < sz then memheap_search sz H (next_free (items H header_ptr)) free_size
        else memheap_search sz H header_ptr free_size
      else Some (header_ptr, free_size))"

declare memheap_search.simps [code]

definition memheap_split :: "u32 \<Rightarrow> u32 \<Rightarrow> rt_memheap \<Rightarrow> rt_memheap" where
  "memheap_split header_ptr sz H =
     (let new_ptr = header_ptr + sz + RT_MEMHEAP_SIZE in
      block_insert header_ptr new_ptr (new_item new_ptr H))"

definition memheap_take :: "u32 \<Rightarrow> rt_memheap \<Rightarrow> (u32 \<times> rt_memheap) option" where
  "memheap_take sz H = do {
     (header_ptr, free_size) \<leftarrow> memheap_search sz H (next_free (items H (free_list H))) 0;
     if sz \<le> free_size then do {
       let H = (if sz + RT_MEMHEAP_SIZE + RT_MEMHEAP_MINIALLOC \<le> free_size then
            let H = memheap_split header_ptr sz H;
                H = free_null header_ptr (free_remove header_ptr H);
                H = free_insert (header_ptr + sz + RT_MEMHEAP_SIZE) H
            in take_size (sz + RT_MEMHEAP_SIZE) H
          else free_null header_ptr (free_remove header_ptr (take_size free_size H)));
       let H = upd_item header_ptr (\<lambda>i. i\<lparr>magic := RT_MEMHEAP_MAGIC OR RT_MEMHEAP_USED\<rparr>) H;
       Some (header_ptr + RT_MEMHEAP_SIZE, H) }
     else Some (0, H) }"

definition request_size :: "u32 \<Rightarrow> u32" where
  "request_size sz = (let sz = RT_ALIGN4 sz in if sz < RT_MEMHEAP_MINIALLOC then RT_MEMHEAP_MINIALLOC else sz)"

definition rt_memheap_alloc :: "u32 \<Rightarrow> kernel \<times> rt_memheap \<Rightarrow> (u32 outcome \<times> kernel \<times> rt_memheap) option" where
  "rt_memheap_alloc sz = (\<lambda>(s, H). do {
     _ \<leftarrow> rt_assert (obj_class (heap_obj H) s = RT_Object_Class_MemHeap);
     let sz = request_size sz;
     if sz < available_size H then locked (memheap_take sz) 0 (s, H)
     else Some (Ret 0, s, H) })"

subsection \<open>Release\<close>

definition memheap_merge_left :: "u32 \<Rightarrow> rt_memheap \<Rightarrow> bool \<times> u32 \<times> rt_memheap" where
  "memheap_merge_left p H =
     (let q = mi_prev (items H p) in
      if \<not> item_is_used H q then
        let H = H\<lparr>available_size := available_size H + RT_MEMHEAP_SIZE\<rparr>;
            H = upd_item q (\<lambda>i. i\<lparr>mi_next := mi_next (items H p)\<rparr>) H;
            H = upd_item (mi_next (items H p)) (\<lambda>i. i\<lparr>mi_prev := mi_prev (items H p)\<rparr>) H
        in (False, q, H)
      else (True, p, H))"

definition memheap_merge_right :: "u32 \<Rightarrow> rt_memheap \<Rightarrow> rt_memheap" where
  "memheap_merge_right p H =
     (let n = mi_next (items H p) in
      if \<not> item_is_used H n then
        let H = H\<lparr>available_size := available_size H + RT_MEMHEAP_SIZE\<rparr>;
            H = upd_item (mi_next (items H n)) (\<lambda>i. i\<lparr>mi_prev := p\<rparr>) H;
            H = upd_item p (\<lambda>i. i\<lparr>mi_next := mi_next (items H n)\<rparr>) H
        in free_remove n H
      else H)"

definition memheap_give :: "u32 \<Rightarrow> rt_memheap \<Rightarrow> (unit \<times> rt_memheap) option" where
  "memheap_give p H =
     (let H = upd_item p (\<lambda>i. i\<lparr>magic := RT_MEMHEAP_MAGIC OR RT_MEMHEAP_FREED\<rparr>) H;
          H = H\<lparr>available_size := available_size H + memitem_size H p\<rparr>;
          (insert_header, p, H) = memheap_merge_left p H;
          H = memheap_merge_right p H
      in Some ((), if insert_header then free_insert p H else H))"

definition magic_ok :: "rt_memheap \<Rightarrow> u32 \<Rightarrow> bool" where
  "magic_ok H a = (magic (items H a) AND RT_MEMHEAP_MASK = RT_MEMHEAP_MAGIC)"

definition rt_memheap_free :: "u32 \<Rightarrow> kernel \<times> rt_memheap \<Rightarrow> (unit outcome \<times> kernel \<times> rt_memheap) option" where
  "rt_memheap_free ptr = (\<lambda>(s, H).
     if ptr = 0 then Some (Ret (), s, H)
     else do {
       let p = ptr - RT_MEMHEAP_SIZE;
       _ \<leftarrow> rt_assert (magic_ok H p);
       _ \<leftarrow> rt_assert (item_is_used H p);
       _ \<leftarrow> rt_assert (magic_ok H (mi_next (items H p)));
       _ \<leftarrow> rt_assert (pool_ptr (items H p) = Some (heap_obj H));
       _ \<leftarrow> rt_assert (obj_class (heap_obj H) s = RT_Object_Class_MemHeap);
       locked (memheap_give p) () (s, H) })"

subsection \<open>Reallocation\<close>

text \<open>The body under the lock when the block has to grow: \<open>None\<close> when the next block is no help.\<close>

definition memheap_grow :: "u32 \<Rightarrow> u32 \<Rightarrow> u32 \<Rightarrow> rt_memheap \<Rightarrow> (u32 option \<times> rt_memheap) option" where
  "memheap_grow ptr oldsize newsize H = do {
     let p = ptr - RT_MEMHEAP_SIZE;
     let n = mi_next (items H p);
     _ \<leftarrow> rt_assert (p < n);
     if \<not> item_is_used H n \<and> newsize + RT_MEMHEAP_MINIALLOC < memitem_size H n + oldsize then do {
       let H = take_size (newsize - oldsize) H;
       let H = free_remove n H;
       let H = upd_item (mi_next (items H n)) (\<lambda>i. i\<lparr>mi_prev := mi_prev (items H n)\<rparr>) H;
       let H = upd_item (mi_prev (items H n)) (\<lambda>i. i\<lparr>mi_next := mi_next (items H n)\<rparr>) H;
       let n = ptr + newsize;
       let H = block_insert p n (new_item n H);
       Some (Some ptr, free_insert n H) }
     else Some (None, H) }"

text \<open>The body when the block is large enough to be split.\<close>

definition memheap_shrink :: "u32 \<Rightarrow> u32 \<Rightarrow> rt_memheap \<Rightarrow> (u32 \<times> rt_memheap) option" where
  "memheap_shrink ptr newsize H =
     (let p = ptr - RT_MEMHEAP_SIZE;
          n = p + newsize + RT_MEMHEAP_SIZE;
          H = memheap_split p newsize H;
          f = mi_next (items H n);
          H = (if \<not> item_is_used H f then
             let H = H\<lparr>available_size := available_size H - memitem_size H f\<rparr>;
                 H = upd_item (mi_next (items H f)) (\<lambda>i. i\<lparr>mi_prev := n\<rparr>) H;
                 H = upd_item n (\<lambda>i. i\<lparr>mi_next := mi_next (items H f)\<rparr>) H
             in free_remove f H
           else H);
          H = free_insert n H
      in Some (ptr, H\<lparr>available_size := available_size H + memitem_size H n\<rparr>))"

text \<open>The second half of a growing reallocation: a new block, a copy, the release of the old one.
  (\<open>Blocked\<close> of one of the inner calls is passed on.)\<close>

definition memheap_move ::
  "(u32 \<Rightarrow> u32) \<Rightarrow> u32 \<Rightarrow> u32 \<Rightarrow> u32 \<Rightarrow> kernel \<times> rt_memheap \<Rightarrow> (u32 outcome \<times> kernel \<times> rt_memheap) option" where
  "memheap_move pgd ptr oldsize newsize sH = do {
     (r, sH) \<leftarrow> rt_memheap_alloc newsize sH;
     case r of
       Blocked \<Rightarrow> Some (Blocked, sH)
     | Ret new \<Rightarrow>
         if new = 0 then Some (Ret 0, sH)
         else do {
           M \<leftarrow> rt_memcpy pgd new ptr (if oldsize < newsize then oldsize else newsize) (mem (snd sH));
           let sH = (fst sH, (snd sH)\<lparr>mem := M\<rparr>);
           (q, sH) \<leftarrow> rt_memheap_free ptr sH;
           Some (case q of Blocked \<Rightarrow> Blocked | Ret _ \<Rightarrow> Ret new, sH) } }"

definition rt_memheap_realloc ::
  "(u32 \<Rightarrow> u32) \<Rightarrow> u32 \<Rightarrow> u32 \<Rightarrow> kernel \<times> rt_memheap \<Rightarrow> (u32 outcome \<times> kernel \<times> rt_memheap) option" where
  "rt_memheap_realloc pgd ptr newsize = (\<lambda>(s, H). do {
     _ \<leftarrow> rt_assert (obj_class (heap_obj H) s = RT_Object_Class_MemHeap);
     if newsize = 0 then do {
       (r, sH) \<leftarrow> rt_memheap_free ptr (s, H);
       Some (case r of Blocked \<Rightarrow> Blocked | Ret _ \<Rightarrow> Ret 0, sH) }
     else do {
       let newsize = request_size newsize;
       if ptr = 0 then rt_memheap_alloc newsize (s, H)
       else do {
         let oldsize = memitem_size H (ptr - RT_MEMHEAP_SIZE);
         if oldsize < newsize then do {
           (r, sH) \<leftarrow> locked (\<lambda>H. map_option (\<lambda>(q, H). (Some q, H)) (memheap_grow ptr oldsize newsize H)) None (s, H);
           case r of
             Blocked \<Rightarrow> Some (Blocked, sH)
           | Ret None \<Rightarrow> Some (Ret 0, sH)
           | Ret (Some (Some q)) \<Rightarrow> Some (Ret q, sH)
           | Ret (Some None) \<Rightarrow> memheap_move pgd ptr oldsize newsize sH }
         else if oldsize \<le> newsize + RT_MEMHEAP_SIZE + RT_MEMHEAP_MINIALLOC then Some (Ret ptr, s, H)
         else locked (memheap_shrink ptr newsize) 0 (s, H) } } })"

end
