(* ===== verification/Memheap_Inv.thy ===== *)
theory Memheap_Inv
  imports Memheap Sem_Correct
begin

unbundle bit_operations_syntax

text \<open>
  The invariant of the two rings of a memory heap, and allocation: the search through the free list,
  the split of a block, and what taking a block does to the set of blocks in use.
\<close>

subsection \<open>The two rings\<close>

definition blk :: "rt_memheap \<Rightarrow> u32 dl_heap" where
  "blk H = \<lparr>nxt = \<lambda>a. mi_next (items H a), prv = \<lambda>a. mi_prev (items H a)\<rparr>"

definition fre :: "rt_memheap \<Rightarrow> u32 dl_heap" where
  "fre H = \<lparr>nxt = \<lambda>a. next_free (items H a), prv = \<lambda>a. prev_free (items H a)\<rparr>"

lemma links [simp]:
  "nxt (blk H) a = mi_next (items H a)" "prv (blk H) a = mi_prev (items H a)"
  "nxt (fre H) a = next_free (items H a)" "prv (fre H) a = prev_free (items H a)"
  by (simp_all add: blk_def fre_def)

definition unlink :: "'n \<Rightarrow> 'n dl_heap \<Rightarrow> 'n dl_heap" where
  "unlink n h = h\<lparr>nxt := (nxt h)(prv h n := nxt h n), prv := (prv h)(nxt h n := prv h n)\<rparr>"

lemma ring_neighbours:
  assumes "ring h l (xs @ n # ys)"
  shows "prv h n = last (l # xs)" "nxt h n = hd (ys @ [l])" "n \<noteq> prv h n" "n \<noteq> nxt h n" "n \<notin> set (l # xs @ ys)"
proof -
  have l: "linked h (l # xs @ n # ys @ [l])" and d: "distinct (l # xs @ n # ys)" using assms by (simp_all add: ring_def)
  obtain ps a where a: "l # xs = ps @ [a]" by (metis append_butlast_last_id list.distinct(1))
  obtain b qs where b: "ys @ [l] = b # qs" by (cases ys) auto
  have "l # xs @ n # ys @ [l] = ps @ a # n # b # qs" using a b by (metis append_Cons append_assoc append_Nil)
  then have "prv h n = a" "nxt h n = b" using l linked_append [of h ps a "n # b # qs"] by auto
  moreover have "a = last (l # xs)" "b = hd (ys @ [l])" using a b by (metis last_snoc, simp)
  moreover have "a \<in> set (l # xs)" "b \<in> set (l # ys)"
    using a b by (metis in_set_conv_decomp, metis in_set_conv_decomp_first list.set_intros(1) rotate1.simps(2) set_rotate1)
  ultimately show "prv h n = last (l # xs)" "nxt h n = hd (ys @ [l])" "n \<noteq> prv h n" "n \<noteq> nxt h n" "n \<notin> set (l # xs @ ys)"
    using d by auto
qed

lemma ring_unlink:
  assumes "ring h l (xs @ n # ys)"
  shows "ring (unlink n h) l (xs @ ys)"
proof -
  have r: "ring (rt_list_remove n h) l (xs @ ys)" by (rule ring_remove(1) [OF assms])
  note n = ring_neighbours(3-5) [OF assms]
  have "ring (unlink n h) l (xs @ ys) = ring (rt_list_remove n h) l (xs @ ys)"
    by (rule ring_frame) (use n in \<open>auto simp: unlink_def dl_defs\<close>)
  then show ?thesis using r by simp
qed

lemma ring_insert_front:
  assumes "ring h l xs" and "n \<notin> set (l # xs)"
  shows "ring (rt_list_insert_after l n h) l (n # xs)"
  using ring_insert_after [of h l "[]" xs n] assms by simp

lemma ring_insert_behind:
  assumes "ring h l (xs @ p # ys)" and "n \<notin> set (l # xs @ p # ys)"
  shows "ring (rt_list_insert_after p n h) l (xs @ p # n # ys)"
  using ring_insert_after [of h l "xs @ [p]" ys n] assms by simp

text \<open>What the parts of the operations change.\<close>

lemma free_remove_facts [simp]:
  "blk (free_remove p H) = blk H" "magic (items (free_remove p H) a) = magic (items H a)"
  "pool_ptr (items (free_remove p H) a) = pool_ptr (items H a)" "mi_next (items (free_remove p H) a) = mi_next (items H a)"
  "mi_prev (items (free_remove p H) a) = mi_prev (items H a)"
  "free_list (free_remove p H) = free_list H" "start_addr (free_remove p H) = start_addr H" "mem (free_remove p H) = mem H"
  "pool_size (free_remove p H) = pool_size H" "available_size (free_remove p H) = available_size H"
  "heap_obj (free_remove p H) = heap_obj H" "heap_lock (free_remove p H) = heap_lock H"
  by (auto simp: free_remove_def upd_item_def blk_def Let_def)

lemma free_remove_fre:
  "p \<noteq> next_free (items H p) \<Longrightarrow> p \<noteq> prev_free (items H p) \<Longrightarrow> fre (free_remove p H) = unlink p (fre H)"
  by (auto simp: free_remove_def upd_item_def fre_def unlink_def Let_def)

lemma free_null_facts [simp]:
  "blk (free_null p H) = blk H" "magic (items (free_null p H) a) = magic (items H a)"
  "pool_ptr (items (free_null p H) a) = pool_ptr (items H a)" "mi_next (items (free_null p H) a) = mi_next (items H a)"
  "mi_prev (items (free_null p H) a) = mi_prev (items H a)"
  "free_list (free_null p H) = free_list H" "start_addr (free_null p H) = start_addr H" "mem (free_null p H) = mem H"
  "pool_size (free_null p H) = pool_size H" "available_size (free_null p H) = available_size H"
  "heap_obj (free_null p H) = heap_obj H" "heap_lock (free_null p H) = heap_lock H"
  by (auto simp: free_null_def upd_item_def blk_def)

lemma free_insert_facts [simp]:
  "blk (free_insert p H) = blk H" "magic (items (free_insert p H) a) = magic (items H a)"
  "pool_ptr (items (free_insert p H) a) = pool_ptr (items H a)" "mi_next (items (free_insert p H) a) = mi_next (items H a)"
  "mi_prev (items (free_insert p H) a) = mi_prev (items H a)"
  "free_list (free_insert p H) = free_list H" "start_addr (free_insert p H) = start_addr H" "mem (free_insert p H) = mem H"
  "pool_size (free_insert p H) = pool_size H" "available_size (free_insert p H) = available_size H"
  "heap_obj (free_insert p H) = heap_obj H" "heap_lock (free_insert p H) = heap_lock H"
  by (auto simp: free_insert_def upd_item_def blk_def Let_def)

lemma free_insert_fre:
  "n \<noteq> free_list H \<Longrightarrow> n \<noteq> next_free (items H (free_list H)) \<Longrightarrow>
   fre (free_insert n H) = rt_list_insert_after (free_list H) n (fre H)"
  by (auto simp: free_insert_def upd_item_def fre_def dl_defs fun_eq_iff)

lemma block_insert_facts [simp]:
  "fre (block_insert p n H) = fre H" "magic (items (block_insert p n H) a) = magic (items H a)"
  "pool_ptr (items (block_insert p n H) a) = pool_ptr (items H a)" "next_free (items (block_insert p n H) a) = next_free (items H a)"
  "prev_free (items (block_insert p n H) a) = prev_free (items H a)"
  "free_list (block_insert p n H) = free_list H" "start_addr (block_insert p n H) = start_addr H" "mem (block_insert p n H) = mem H"
  "pool_size (block_insert p n H) = pool_size H" "available_size (block_insert p n H) = available_size H"
  "heap_obj (block_insert p n H) = heap_obj H" "heap_lock (block_insert p n H) = heap_lock H"
  by (auto simp: block_insert_def upd_item_def fre_def Let_def)

lemma block_insert_blk:
  "n \<noteq> p \<Longrightarrow> n \<noteq> mi_next (items H p) \<Longrightarrow> blk (block_insert p n H) = rt_list_insert_after p n (blk H)"
  by (auto simp: block_insert_def upd_item_def blk_def dl_defs fun_eq_iff)

lemma new_item_facts [simp]:
  "fre (new_item n H) = fre H" "blk (new_item n H) = blk H"
  "magic (items (new_item n H) a) = (if a = n then RT_MEMHEAP_MAGIC else magic (items H a))"
  "pool_ptr (items (new_item n H) a) = (if a = n then Some (heap_obj H) else pool_ptr (items H a))"
  "next_free (items (new_item n H) a) = next_free (items H a)" "prev_free (items (new_item n H) a) = prev_free (items H a)"
  "mi_next (items (new_item n H) a) = mi_next (items H a)" "mi_prev (items (new_item n H) a) = mi_prev (items H a)"
  "free_list (new_item n H) = free_list H" "start_addr (new_item n H) = start_addr H" "mem (new_item n H) = mem H"
  "pool_size (new_item n H) = pool_size H" "available_size (new_item n H) = available_size H"
  "heap_obj (new_item n H) = heap_obj H" "heap_lock (new_item n H) = heap_lock H"
  by (auto simp: new_item_def upd_item_def fre_def blk_def)

lemma take_size_facts [simp]:
  "items (take_size n H) = items H" "fre (take_size n H) = fre H" "blk (take_size n H) = blk H"
  "free_list (take_size n H) = free_list H" "start_addr (take_size n H) = start_addr H" "mem (take_size n H) = mem H"
  "pool_size (take_size n H) = pool_size H" "available_size (take_size n H) = available_size H - n"
  "heap_obj (take_size n H) = heap_obj H" "heap_lock (take_size n H) = heap_lock H"
  by (auto simp: take_size_def Let_def fre_def blk_def)

subsection \<open>The invariant\<close>

text \<open>\<open>bs\<close> are the blocks of the pool in the order of their addresses, \<open>t\<close> the header at its end, \<open>fs\<close> the
  free list.\<close>

definition bsize :: "rt_memheap \<Rightarrow> u32 \<Rightarrow> nat" where
  "bsize H a = unat (mi_next (items H a)) - unat a - 24"

definition apart :: "u32 list \<Rightarrow> bool" where
  "apart as = sorted_wrt (\<lambda>a b. unat a + 36 \<le> unat b) as"

definition heap_links :: "rt_memheap \<Rightarrow> u32 list \<Rightarrow> u32 \<Rightarrow> u32 list \<Rightarrow> bool" where
  "heap_links H bs t fs = (ring (blk H) t bs \<and> ring (fre H) (free_list H) fs \<and> set fs \<subseteq> set bs \<and>
     apart (bs @ [t]) \<and> bs \<noteq> [] \<and> hd bs = start_addr H \<and> start_addr H \<noteq> 0 \<and>
     unat (start_addr H) + unat (pool_size H) = unat t + 24 \<and> unat t + 24 \<le> 2 ^ 32 \<and>
     (unat (free_list H) < unat (start_addr H) \<or> unat t < unat (free_list H)) \<and>
     (\<forall>a \<in> set (bs @ [t]). magic_ok H a \<and> pool_ptr (items H a) = Some (heap_obj H) \<and> 4 dvd unat a) \<and> item_is_used H t)"

definition heap_ok :: "rt_memheap \<Rightarrow> u32 list \<Rightarrow> u32 \<Rightarrow> u32 list \<Rightarrow> bool" where
  "heap_ok H bs t fs = (heap_links H bs t fs \<and> set fs = {a \<in> set bs. \<not> item_is_used H a} \<and>
     unat (available_size H) = sum_list (map (bsize H) fs) \<and>
     successively (\<lambda>a b. item_is_used H a \<or> item_is_used H b) bs)"

lemma apart_append: "apart (xs @ ys) \<longleftrightarrow> apart xs \<and> apart ys \<and> (\<forall>a \<in> set xs. \<forall>b \<in> set ys. unat a + 36 \<le> unat b)"
  by (simp add: apart_def sorted_wrt_append)

lemma apart_Cons: "apart (a # as) \<longleftrightarrow> (\<forall>b \<in> set as. unat a + 36 \<le> unat b) \<and> apart as"
  by (simp add: apart_def)

lemma apart_distinct: "apart as \<Longrightarrow> distinct as"
  by (induction as) (auto simp: apart_def)

lemma heap_linksD:
  assumes "heap_links H bs t fs"
  shows "ring (blk H) t bs" "ring (fre H) (free_list H) fs" "set fs \<subseteq> set bs" "apart (bs @ [t])" "bs \<noteq> []"
    "hd bs = start_addr H" "start_addr H \<noteq> 0" "unat (start_addr H) + unat (pool_size H) = unat t + 24" "unat t + 24 \<le> 2 ^ 32"
    "unat (free_list H) < unat (start_addr H) \<or> unat t < unat (free_list H)"
    "\<And>a. a \<in> set (bs @ [t]) \<Longrightarrow> magic_ok H a \<and> pool_ptr (items H a) = Some (heap_obj H) \<and> 4 dvd unat a" "item_is_used H t"
  using assms by (auto simp: heap_links_def)

lemma block_range:
  assumes L: "heap_links H bs t fs" and a: "a \<in> set (bs @ [t])"
  shows "unat (start_addr H) \<le> unat a" "unat a \<le> unat t" "a \<noteq> free_list H" "a \<noteq> 0"
proof -
  obtain b bs' where b: "bs = b # bs'" using heap_linksD(5) [OF L] by (cases bs) auto
  show r: "unat (start_addr H) \<le> unat a" "unat a \<le> unat t"
    using heap_linksD(4,6) [OF L] a by (auto simp: b apart_append apart_Cons)
  show "a \<noteq> free_list H" using heap_linksD(10) [OF L] r by auto
  show "a \<noteq> 0" using heap_linksD(7) [OF L] r(1) by (auto simp: unat_eq_zero)
qed

lemma block_next:
  assumes L: "heap_links H (ps @ p # qs) t fs"
  shows "mi_next (items H p) = hd (qs @ [t])" "mi_prev (items H p) = last (t # ps)"
    "unat p + 36 \<le> unat (hd (qs @ [t]))"
proof -
  note r = ring_neighbours [OF heap_linksD(1) [OF L]]
  show "mi_next (items H p) = hd (qs @ [t])" "mi_prev (items H p) = last (t # ps)" using r(1,2) by simp_all
  have "hd (qs @ [t]) \<in> set (qs @ [t])" by (rule hd_in_set) simp
  then show "unat p + 36 \<le> unat (hd (qs @ [t]))"
    using heap_linksD(4) [OF L] by (auto simp: apart_append apart_Cons)
qed

lemma memitem_size_unat:
  assumes "unat a + 24 \<le> unat (mi_next (items H a))"
  shows "unat (memitem_size H a) = bsize H a"
proof -
  have "a \<le> mi_next (items H a)" using assms by (simp add: word_le_nat_alt)
  then have e: "unat (mi_next (items H a) - a) = unat (mi_next (items H a)) - unat a" by (simp add: unat_sub)
  then have "(24 :: u32) \<le> mi_next (items H a) - a" using assms by (simp add: word_le_nat_alt)
  then show ?thesis using e by (simp add: memitem_size_def bsize_def unat_sub)
qed

lemma block_size:
  assumes L: "heap_links H bs t fs" and a: "a \<in> set bs"
  shows "unat (memitem_size H a) = bsize H a" "12 \<le> bsize H a" "unat a + 24 + bsize H a \<le> unat t"
    "unat (mi_next (items H a)) = unat a + 24 + bsize H a"
proof -
  obtain ps qs where b: "bs = ps @ a # qs" using a by (meson split_list)
  note n = block_next [OF L [unfolded b]]
  have "hd (qs @ [t]) \<in> set (bs @ [t])" unfolding b by (cases qs) auto
  then have "unat (mi_next (items H a)) \<le> unat t" unfolding n(1) by (rule block_range(2) [OF L])
  then show "unat (memitem_size H a) = bsize H a" "12 \<le> bsize H a" "unat a + 24 + bsize H a \<le> unat t"
    "unat (mi_next (items H a)) = unat a + 24 + bsize H a"
    using n(1,3) memitem_size_unat [of a H] by (simp_all add: bsize_def)
qed

text \<open>The search: the first free block that is large enough.\<close>

lemma memheap_search_finds:
  assumes "linked (fre H) (ys @ [free_list H])" and "free_list H \<notin> set ys" and "fsz < sz"
    and "\<And>a. a \<in> set ys \<Longrightarrow> unat (memitem_size H a) = bsize H a"
  shows "case dropWhile (\<lambda>a. bsize H a < unat sz) ys of
      [] \<Rightarrow> \<exists>f. memheap_search sz H (hd (ys @ [free_list H])) fsz = Some (free_list H, f) \<and> f < sz
    | p # _ \<Rightarrow> memheap_search sz H (hd (ys @ [free_list H])) fsz = Some (p, memitem_size H p)"
  using assms
proof (induction ys arbitrary: fsz)
  case Nil
  then show ?case by (simp add: memheap_search.simps [of _ _ "free_list H"])
next
  case (Cons y ys)
  let ?m = "memitem_size H y"
  have m: "?m < sz \<longleftrightarrow> bsize H y < unat sz" using Cons.prems(4) by (simp add: word_less_nat_alt)
  have n: "next_free (items H y) = hd (ys @ [free_list H])"
    using Cons.prems(1) by (cases ys) auto
  have l: "linked (fre H) (ys @ [free_list H])" using Cons.prems(1) by (cases ys) auto
  show ?case
  proof (cases "?m < sz")
    case True
    have s: "memheap_search sz H y fsz = memheap_search sz H (hd (ys @ [free_list H])) ?m"
      using Cons.prems(2,3) True n by (subst memheap_search.simps) auto
    have e: "dropWhile (\<lambda>a. bsize H a < unat sz) (y # ys) = dropWhile (\<lambda>a. bsize H a < unat sz) ys"
      "hd ((y # ys) @ [free_list H]) = y" using True m by simp_all
    show ?thesis unfolding e s by (rule Cons.IH [OF l _ True]) (use Cons.prems(2,4) in auto)
  next
    case False
    have "memheap_search sz H y fsz = memheap_search sz H y ?m"
      using Cons.prems(2,3) False by (subst memheap_search.simps) (auto simp: Let_def)
    also have "\<dots> = Some (y, ?m)" using False by (subst memheap_search.simps) simp
    finally show ?thesis using False m by simp
  qed
qed

subsection \<open>Steps that keep the links\<close>

text \<open>Changes of the free ring only, and of the block ring only.\<close>

lemma links_free:
  assumes L: "heap_links H bs t fs" and r: "ring (fre H') (free_list H) fs'" "set fs' \<subseteq> set bs"
    and s: "blk H' = blk H" "\<And>a. a \<in> set (bs @ [t]) \<Longrightarrow> magic_ok H' a \<and> pool_ptr (items H' a) = Some (heap_obj H)"
      "item_is_used H' t" "free_list H' = free_list H" "start_addr H' = start_addr H" "pool_size H' = pool_size H" "heap_obj H' = heap_obj H"
  shows "heap_links H' bs t fs'"
  using heap_linksD [OF L] r s by (simp add: heap_links_def)

lemma links_split:
  fixes H :: rt_memheap
  assumes L: "heap_links H (ps @ p # qs) t fs" and sz: "12 \<le> unat sz" "4 dvd unat sz" "unat sz + 36 \<le> bsize H p"
  defines "n \<equiv> p + sz + 24" and "H' \<equiv> memheap_split p sz H"
  shows "heap_links H' (ps @ p # n # qs) t fs" "unat n = unat p + unat sz + 24" "n \<notin> set (ps @ p # qs @ [t])"
    "bsize H' p = unat sz" "bsize H' n = bsize H p - unat sz - 24"
    "\<And>a. a \<noteq> p \<Longrightarrow> a \<noteq> n \<Longrightarrow> bsize H' a = bsize H a" "\<not> item_is_used H' n"
    "\<And>a. a \<noteq> n \<Longrightarrow> item_is_used H' a = item_is_used H a"
proof -
  let ?b = "hd (qs @ [t])"
  note d = heap_linksD [OF L] and nx = block_next [OF L]
  have bp: "unat ?b = unat p + 24 + bsize H p" "unat ?b \<le> unat t"
    using block_size(3,4) [OF L, of p] nx(1) by simp_all
  have "unat p + unat sz + 24 < 2 ^ 32" using bp sz(3) d(9) by linarith
  then show un: "unat n = unat p + unat sz + 24" unfolding n_def by (simp add: unat_word_ariths mod_less)
  have lo: "unat a + 36 \<le> unat p" if "a \<in> set ps" for a using d(4) that by (auto simp: apart_append apart_Cons)
  have hi: "unat ?b \<le> unat a" if "a \<in> set (qs @ [t])" for a
    using d(4) that by (cases qs) (auto simp: apart_append apart_Cons)
  have gt: "unat n + 36 \<le> unat a" if "a \<in> set (qs @ [t])" for a using hi [OF that] bp(1) sz(3) un by linarith
  show new: "n \<notin> set (ps @ p # qs @ [t])" using lo gt un by force
  have "p \<noteq> n" "n \<noteq> mi_next (items H p)" using new nx(1) by (auto, cases qs, auto)
  then have bl: "blk H' = rt_list_insert_after p n (blk H)"
    unfolding H'_def memheap_split_def Let_def n_def [symmetric] by (subst block_insert_blk) simp_all
  have r: "ring (blk H') t (ps @ p # n # qs)"
    unfolding bl by (rule ring_insert_behind [OF d(1)]) (use new in auto)
  have mg: "magic (items H' a) = (if a = n then RT_MEMHEAP_MAGIC else magic (items H a))"
    "pool_ptr (items H' a) = (if a = n then Some (heap_obj H) else pool_ptr (items H a))" for a
    unfolding H'_def memheap_split_def Let_def n_def [symmetric] by simp_all
  show u: "\<not> item_is_used H' n" "\<And>a. a \<noteq> n \<Longrightarrow> item_is_used H' a = item_is_used H a"
    by (simp_all add: item_is_used_def mg)
  have ap: "apart ((ps @ p # n # qs) @ [t])"
  proof -
    have "\<forall>a \<in> set ps. unat a + 36 \<le> unat n" "unat p + 36 \<le> unat n" "\<forall>a \<in> set qs. unat n + 36 \<le> unat a" "unat n + 36 \<le> unat t"
      using lo gt un sz(1) by force+
    then show ?thesis using d(4) by (simp add: apart_append apart_Cons)
  qed
  have "4 dvd unat n" using d(11) [of p] sz(2) un by (simp add: dvd_add)
  then have al: "magic_ok H' a \<and> pool_ptr (items H' a) = Some (heap_obj H) \<and> 4 dvd unat a" if "a \<in> set ((ps @ p # n # qs) @ [t])" for a
    using d(11) [of a] that by (cases "a = n") (auto simp: magic_ok_def mg)
  have f: "fre H' = fre H" "free_list H' = free_list H" "start_addr H' = start_addr H" "pool_size H' = pool_size H" "heap_obj H' = heap_obj H"
    unfolding H'_def memheap_split_def Let_def by simp_all
  have tn: "t \<noteq> n" using new by auto
  have "hd (ps @ p # n # qs) = start_addr H" using d(6) by (cases ps) auto
  then show "heap_links H' (ps @ p # n # qs) t fs"
    unfolding heap_links_def using r d ap al f u(2) [OF tn] by auto
  have nb: "mi_next (items H' p) = n" "mi_next (items H' n) = ?b" "\<And>a. a \<noteq> p \<Longrightarrow> a \<noteq> n \<Longrightarrow> mi_next (items H' a) = mi_next (items H a)"
    using arg_cong [OF bl, of nxt] nx(1) \<open>p \<noteq> n\<close> by (auto simp: dl_defs fun_eq_iff split: if_splits)
  show "bsize H' p = unat sz" "bsize H' n = bsize H p - unat sz - 24"
    using nb(1,2) un bp(1) by (simp_all add: bsize_def)
  show "\<And>a. a \<noteq> p \<Longrightarrow> a \<noteq> n \<Longrightarrow> bsize H' a = bsize H a" using nb(3) by (simp add: bsize_def)
qed

lemma free_ring_remove:
  assumes "ring (fre H) l (xs @ p # ys)"
  shows "ring (fre (free_remove p H)) l (xs @ ys)" "ring (fre (free_null p (free_remove p H))) l (xs @ ys)"
proof -
  note n = ring_neighbours [OF assms]
  have f: "fre (free_remove p H) = unlink p (fre H)" by (rule free_remove_fre) (use n in simp_all)
  show r: "ring (fre (free_remove p H)) l (xs @ ys)" unfolding f by (rule ring_unlink [OF assms])
  have "ring (fre (free_null p (free_remove p H))) l (xs @ ys) = ring (fre (free_remove p H)) l (xs @ ys)"
    by (rule ring_frame) (use n(5) in \<open>auto simp: free_null_def upd_item_def\<close>)
  then show "ring (fre (free_null p (free_remove p H))) l (xs @ ys)" using r by simp
qed

lemma free_ring_insert:
  assumes "ring (fre H) (free_list H) fs" and "n \<notin> set (free_list H # fs)"
  shows "ring (fre (free_insert n H)) (free_list H) (n # fs)"
proof -
  have "next_free (items H (free_list H)) \<in> set (free_list H # fs)"
    using assms(1) by (cases fs) (auto simp: ring_def)
  then have "fre (free_insert n H) = rt_list_insert_after (free_list H) n (fre H)"
    using assms(2) by (intro free_insert_fre) auto
  then show ?thesis using ring_insert_front [OF assms] by simp
qed

definition mark :: "u32 \<Rightarrow> u32 \<Rightarrow> rt_memheap \<Rightarrow> rt_memheap" where
  "mark p m H = upd_item p (\<lambda>i. i\<lparr>magic := RT_MEMHEAP_MAGIC OR m\<rparr>) H"

lemma mark_facts [simp]:
  "blk (mark p m H) = blk H" "fre (mark p m H) = fre H"
  "magic (items (mark p m H) a) = (if a = p then RT_MEMHEAP_MAGIC OR m else magic (items H a))"
  "pool_ptr (items (mark p m H) a) = pool_ptr (items H a)" "mi_next (items (mark p m H) a) = mi_next (items H a)"
  "mi_prev (items (mark p m H) a) = mi_prev (items H a)"
  "free_list (mark p m H) = free_list H" "start_addr (mark p m H) = start_addr H" "mem (mark p m H) = mem H"
  "pool_size (mark p m H) = pool_size H" "available_size (mark p m H) = available_size H"
  "heap_obj (mark p m H) = heap_obj H" "heap_lock (mark p m H) = heap_lock H"
  by (auto simp: mark_def upd_item_def blk_def fre_def)

lemma mark_used [simp]:
  "item_is_used (mark p RT_MEMHEAP_USED H) a = (a = p \<or> item_is_used H a)"
  "item_is_used (mark p RT_MEMHEAP_FREED H) a = (a \<noteq> p \<and> item_is_used H a)"
  "magic_ok (mark p RT_MEMHEAP_USED H) a = (a = p \<or> magic_ok H a)"
  "magic_ok (mark p RT_MEMHEAP_FREED H) a = (a = p \<or> magic_ok H a)"
  by (simp_all add: item_is_used_def magic_ok_def)

definition in_use :: "rt_memheap \<Rightarrow> u32 list \<Rightarrow> u32 set" where
  "in_use H bs = {a \<in> set bs. item_is_used H a}"

text \<open>The heap fields that never change after the initialisation, and the payload bytes.\<close>

definition same_heap :: "rt_memheap \<Rightarrow> rt_memheap \<Rightarrow> bool" where
  "same_heap H H' = (start_addr H' = start_addr H \<and> pool_size H' = pool_size H \<and> free_list H' = free_list H \<and>
     heap_obj H' = heap_obj H \<and> heap_lock H' = heap_lock H)"

definition block_taken :: "u32 \<Rightarrow> u32 \<Rightarrow> rt_memheap \<Rightarrow> u32 list \<Rightarrow> u32 \<Rightarrow> rt_memheap \<Rightarrow> bool" where
  "block_taken p sz H bs t H' = (\<exists>bs' fs'. heap_ok H' bs' t fs' \<and> same_heap H H' \<and> mem H' = mem H \<and>
     p \<notin> in_use H bs \<and> in_use H' bs' = insert p (in_use H bs) \<and> unat sz \<le> bsize H' p \<and>
     (\<forall>a \<in> in_use H bs. bsize H' a = bsize H a))"

lemma sum_split: "sum_list (map f (xs @ p # ys)) = sum_list (map f (xs @ ys)) + (f p :: nat)"
  by simp

text \<open>A free block taken as a whole.\<close>

lemma take_whole:
  assumes O: "heap_ok H bs t (xs @ p # ys)" and sz: "unat sz \<le> bsize H p"
  defines "H' \<equiv> mark p RT_MEMHEAP_USED (free_null p (free_remove p (take_size (memitem_size H p) H)))"
  shows "block_taken p sz H bs t H'"
proof -
  have L: "heap_links H bs t (xs @ p # ys)" and fs: "set (xs @ p # ys) = {a \<in> set bs. \<not> item_is_used H a}"
    and av: "unat (available_size H) = sum_list (map (bsize H) (xs @ p # ys))"
    and co: "successively (\<lambda>a b. item_is_used H a \<or> item_is_used H b) bs" using O by (simp_all add: heap_ok_def)
  note d = heap_linksD [OF L]
  have p: "p \<in> set bs" "\<not> item_is_used H p" using fs by auto
  have pn: "p \<notin> set (xs @ ys)" using ring_neighbours(5) [OF d(2)] by simp
  have r: "ring (fre H') (free_list H) (xs @ ys)"
    unfolding H'_def mark_facts using free_ring_remove(2) [of "take_size (memitem_size H p) H" "free_list H" xs p ys] d(2) by simp
  have u: "item_is_used H' a = (a = p \<or> item_is_used H a)" "magic_ok H' a = (a = p \<or> magic_ok H a)" for a
    unfolding H'_def by (simp_all add: item_is_used_def magic_ok_def)
  have L': "heap_links H' bs t (xs @ ys)"
    by (rule links_free [OF L r]) (use d p in \<open>auto simp: u\<close>, auto simp: H'_def)
  have b: "bsize H' a = bsize H a" for a by (simp add: H'_def bsize_def)
  have "bsize H p \<le> unat (available_size H)" using av by (simp add: sum_split)
  then have "unat (available_size H') = unat (available_size H) - bsize H p"
    using block_size(1) [OF L p(1)] by (simp add: H'_def unat_sub word_le_nat_alt)
  then have av': "unat (available_size H') = sum_list (map (bsize H') (xs @ ys))"
    using av by (simp add: b [abs_def])
  have "heap_ok H' bs t (xs @ ys)" unfolding heap_ok_def
    using L' av' fs pn successively_mono [OF co, of "\<lambda>a b. item_is_used H' a \<or> item_is_used H' b"] by (auto simp: u)
  moreover have "in_use H' bs = insert p (in_use H bs)" using p by (auto simp: in_use_def u)
  moreover have "same_heap H H'" "mem H' = mem H" by (simp_all add: same_heap_def H'_def)
  ultimately show ?thesis using p sz b by (auto simp: block_taken_def in_use_def)
qed

text \<open>A free block split: the front is taken, the rest is a new free block.\<close>

lemma take_split:
  fixes H :: rt_memheap
  assumes O: "heap_ok H bs t (xs @ p # ys)" and sz: "12 \<le> unat sz" "4 dvd unat sz" "unat sz + 36 \<le> bsize H p"
  defines "n \<equiv> p + sz + 24"
  defines "H' \<equiv> mark p RT_MEMHEAP_USED (take_size (sz + 24) (free_insert n (free_null p (free_remove p (memheap_split p sz H)))))"
  shows "block_taken p sz H bs t H'"
proof -
  have L: "heap_links H bs t (xs @ p # ys)" and fs: "set (xs @ p # ys) = {a \<in> set bs. \<not> item_is_used H a}"
    and av: "unat (available_size H) = sum_list (map (bsize H) (xs @ p # ys))"
    and co: "successively (\<lambda>a b. item_is_used H a \<or> item_is_used H b) bs" using O by (simp_all add: heap_ok_def)
  have p: "p \<in> set bs" "\<not> item_is_used H p" using fs by auto
  obtain ps qs where bs: "bs = ps @ p # qs" using p(1) by (meson split_list)
  note S = links_split [OF L [unfolded bs] sz, folded n_def]
  let ?S = "memheap_split p sz H" and ?R = "free_null p (free_remove p (memheap_split p sz H))"
  note d = heap_linksD [OF S(1)]
  have pn: "p \<notin> set (xs @ ys)" using ring_neighbours(5) [OF d(2)] by simp
  have fl: "free_list ?S = free_list H" by (simp add: memheap_split_def Let_def)
  have nf: "n \<notin> set (free_list H # xs @ ys)"
    using S(3) fs bs block_range(3) [OF S(1), of n] fl by auto
  have "ring (fre ?R) (free_list ?R) (xs @ ys)" using free_ring_remove(2) [OF d(2)] fl by simp
  then have r: "ring (fre H') (free_list ?S) (n # xs @ ys)"
    using free_ring_insert [of ?R "xs @ ys" n] nf fl by (simp add: H'_def)
  have us: "item_is_used H' a = (a = p \<or> item_is_used ?S a)" "magic_ok H' a = (a = p \<or> magic_ok ?S a)" for a
    unfolding H'_def by (simp_all add: item_is_used_def magic_ok_def)
  have u: "item_is_used H' a = (a = p \<or> a \<noteq> n \<and> item_is_used H a)" "magic_ok H' a = (a = p \<or> magic_ok ?S a)" for a
    using us S(7) S(8) [of a] by (cases "a = n"; simp)+
  have tn: "t \<noteq> n" "p \<noteq> n" using S(3) by auto
  have L': "heap_links H' (ps @ p # n # qs) t (n # xs @ ys)"
    by (rule links_free [OF S(1) r]) (use d fs bs tn heap_linksD(12) [OF L] in \<open>auto simp: u\<close>, auto simp: H'_def)
  have b: "bsize H' a = bsize ?S a" for a by (simp add: H'_def bsize_def)
  have le: "unat sz + 24 \<le> unat (available_size H)" using av sz(3) by (simp add: sum_split)
  have w: "unat (sz + 24) = unat sz + 24" using le u32_bound [of "available_size H"] by (simp add: unat_word_ariths)
  have a': "unat (available_size H') = unat (available_size H) - (unat sz + 24)"
    using le w by (simp add: H'_def unat_sub word_le_nat_alt memheap_split_def Let_def)
  have m: "map (bsize H') (xs @ ys) = map (bsize H) (xs @ ys)"
  proof (rule map_cong [OF refl])
    fix a assume "a \<in> set (xs @ ys)"
    then have "a \<noteq> p" "a \<noteq> n" using pn nf by auto
    then show "bsize H' a = bsize H a" using S(6) b by simp
  qed
  have "sum_list (map (bsize H') (n # xs @ ys)) = bsize H p - unat sz - 24 + sum_list (map (bsize H) (xs @ ys))"
    unfolding list.map(2) sum_list.Cons m b S(5) ..
  then have av': "unat (available_size H') = sum_list (map (bsize H') (n # xs @ ys))"
    using a' av [unfolded sum_split] sz(3) by linarith
  have co': "successively (\<lambda>a b. item_is_used H' a \<or> item_is_used H' b) (ps @ p # n # qs)"
  proof -
    have "successively (\<lambda>a b. item_is_used H' a \<or> item_is_used H' b) (ps @ [p])"
      by (rule successively_mono [of "\<lambda>a b. item_is_used H a \<or> item_is_used H b"])
        (use co bs S(3) in \<open>auto simp: u successively_append_iff\<close>)
    moreover have "successively (\<lambda>a b. item_is_used H' a \<or> item_is_used H' b) (n # qs)"
      using co p(2) S(3) bs by (cases qs) (auto simp: u successively_append_iff elim!: successively_mono)
    ultimately show ?thesis by (simp add: successively_append_iff u)
  qed
  have "heap_ok H' (ps @ p # n # qs) t (n # xs @ ys)" unfolding heap_ok_def
    using L' av' co' fs pn S(3) tn bs by (auto simp: u)
  moreover have "in_use H' (ps @ p # n # qs) = insert p (in_use H bs)" using p S(3) bs by (auto simp: in_use_def u)
  moreover have "same_heap H H'" "mem H' = mem H" by (simp_all add: same_heap_def H'_def memheap_split_def Let_def)
  moreover have "\<forall>a \<in> in_use H bs. bsize H' a = bsize H a"
  proof
    fix a assume "a \<in> in_use H bs"
    then have "a \<noteq> p" "a \<noteq> n" using p(2) S(3) bs by (auto simp: in_use_def)
    then show "bsize H' a = bsize H a" using S(6) b by simp
  qed
  moreover have "p \<notin> in_use H bs" "unat sz \<le> bsize H' p" using p(2) S(4) b by (simp_all add: in_use_def)
  ultimately show ?thesis unfolding block_taken_def by blast
qed

lemma memheap_take_effect:
  assumes O: "heap_ok H bs t fs" and sz: "12 \<le> unat sz" "4 dvd unat sz"
  shows "case dropWhile (\<lambda>a. bsize H a < unat sz) fs of
      [] \<Rightarrow> memheap_take sz H = Some (0, H)
    | p # _ \<Rightarrow> \<exists>H'. memheap_take sz H = Some (p + 24, H') \<and> block_taken p sz H bs t H'"
proof -
  have L: "heap_links H bs t fs" using O by (simp add: heap_ok_def)
  note d = heap_linksD [OF L]
  have l: "linked (fre H) (fs @ [free_list H])" "free_list H \<notin> set fs" "next_free (items H (free_list H)) = hd (fs @ [free_list H])"
    using d(2) by (cases fs; simp add: ring_def)+
  have z: "(0 :: u32) < sz" using sz(1) by (simp add: word_less_nat_alt)
  have F: "case dropWhile (\<lambda>a. bsize H a < unat sz) fs of
      [] \<Rightarrow> \<exists>f. memheap_search sz H (next_free (items H (free_list H))) 0 = Some (free_list H, f) \<and> f < sz
    | p # _ \<Rightarrow> memheap_search sz H (next_free (items H (free_list H))) 0 = Some (p, memitem_size H p)"
    unfolding l(3) by (rule memheap_search_finds [OF l(1,2) z]) (use block_size(1) [OF L] d(3) in auto)
  show ?thesis
  proof (cases "dropWhile (\<lambda>a. bsize H a < unat sz) fs")
    case Nil
    then obtain f where "memheap_search sz H (next_free (items H (free_list H))) 0 = Some (free_list H, f)" "f < sz"
      using F [unfolded Nil] by auto
    then have "memheap_take sz H = Some (0, H)" by (auto simp: memheap_take_def)
    then show ?thesis using Nil by (simp only: list.case)
  next
    case (Cons p r)
    have s: "memheap_search sz H (next_free (items H (free_list H))) 0 = Some (p, memitem_size H p)"
      using F [unfolded Cons] by simp
    obtain xs where fs: "fs = xs @ p # r" using Cons by (metis takeWhile_dropWhile_id)
    have "\<not> bsize H p < unat sz" using Cons hd_dropWhile [of "\<lambda>a. bsize H a < unat sz" fs] by fastforce
    then have le: "unat sz \<le> bsize H p" by simp
    have p: "p \<in> set bs" using d(3) fs by auto
    have m: "unat (memitem_size H p) = bsize H p" by (rule block_size(1) [OF L p])
    have w: "unat (sz + 24 + 12) = unat sz + 36"
      using block_size(3) [OF L p] d(9) le block_range(4) [OF L, of p] p by (simp add: unat_word_ariths unat_gt_0)
    show ?thesis
    proof (cases "sz + 24 + 12 \<le> memitem_size H p")
      case True
      then have "unat sz + 36 \<le> bsize H p" using w m by (simp add: word_le_nat_alt)
      from take_split [OF O [unfolded fs] sz this] show ?thesis
        using True s le m Cons by (simp add: memheap_take_def word_le_nat_alt mark_def)
    next
      case False
      from take_whole [OF O [unfolded fs] le] show ?thesis
        using False s le m Cons by (simp add: memheap_take_def word_le_nat_alt mark_def)
    qed
  qed
qed

end
