(* ===== verification/Memheap_Release.thy ===== *)
theory Memheap_Release
  imports Memheap_Inv
begin

unbundle bit_operations_syntax

text \<open>
  Release of a block of a memory heap: the merge with its free neighbours keeps the links, the count
  of the available bytes and that no two free blocks touch.
\<close>

text \<open>The blocks fill the pool.\<close>

lemma linked_sizes:
  "\<lbrakk>linked (blk H) (bs @ [t]); apart (bs @ [t])\<rbrakk> \<Longrightarrow>
   sum_list (map (\<lambda>a. bsize H a + 24) bs) = unat t - unat (hd (bs @ [t])) \<and> unat (hd (bs @ [t])) \<le> unat t"
proof (induction bs)
  case (Cons a bs)
  let ?b = "hd (bs @ [t])"
  have n: "mi_next (items H a) = ?b" "linked (blk H) (bs @ [t])" using Cons.prems(1) by (cases bs; simp)+
  have "unat a + 36 \<le> unat ?b" using Cons.prems(2) by (cases bs) (auto simp: apart_Cons)
  moreover have "sum_list (map (\<lambda>a. bsize H a + 24) bs) = unat t - unat ?b \<and> unat ?b \<le> unat t"
    using Cons.IH n(2) Cons.prems(2) by (simp add: apart_Cons)
  ultimately show ?case using n(1) by (simp add: bsize_def)
qed simp

lemma total_size:
  assumes L: "heap_links H bs t fs"
  shows "(\<Sum>a \<in> set bs. bsize H a + 24) = unat t - unat (start_addr H)"
proof -
  have "linked (blk H) (bs @ [t])" using heap_linksD(1,5) [OF L] by (cases bs) (auto simp: ring_def)
  then have "sum_list (map (\<lambda>a. bsize H a + 24) bs) = unat t - unat (hd (bs @ [t]))"
    using linked_sizes heap_linksD(4) [OF L] by blast
  moreover have "distinct bs" using heap_linksD(1) [OF L] by (simp add: ring_def)
  ultimately show ?thesis using heap_linksD(5,6) [OF L] by (simp add: sum_list_distinct_conv_sum_set)
qed

definition free_blocks :: "rt_memheap \<Rightarrow> u32 list \<Rightarrow> u32 set" where
  "free_blocks H bs = {a \<in> set bs. \<not> item_is_used H a}"

lemma free_sum_bound:
  assumes L: "heap_links H bs t fs" and F: "F \<subseteq> set bs"
  shows "(\<Sum>a \<in> F. bsize H a) + 24 \<le> 2 ^ 32"
proof -
  have "(\<Sum>a \<in> F. bsize H a) \<le> (\<Sum>a \<in> F. bsize H a + 24)" by (rule sum_mono) simp
  also have "\<dots> \<le> (\<Sum>a \<in> set bs. bsize H a + 24)" by (rule sum_mono2) (use F in auto)
  finally show ?thesis using total_size [OF L] heap_linksD(9) [OF L] by linarith
qed

lemma heap_ok_sum:
  "heap_ok H bs t fs \<longleftrightarrow> heap_links H bs t fs \<and> set fs = free_blocks H bs \<and>
     unat (available_size H) = (\<Sum>a \<in> free_blocks H bs. bsize H a) \<and>
     successively (\<lambda>a b. item_is_used H a \<or> item_is_used H b) bs"
proof -
  have "sum_list (map (bsize H) fs) = (\<Sum>a \<in> set fs. bsize H a)" if "heap_links H bs t fs"
    using heap_linksD(2) [OF that] by (simp add: ring_def sum_list_distinct_conv_sum_set)
  then show ?thesis by (auto simp: heap_ok_def free_blocks_def)
qed

text \<open>A header is taken out of the block ring: its block becomes a part of the one before.\<close>

lemma links_delete:
  assumes L: "heap_links H (ps @ q # n # qs) t fs" and r: "ring (fre H') (free_list H) fs'" "set fs' \<subseteq> set (ps @ q # qs)"
    and b: "blk H' = unlink n (blk H)" and m: "\<And>a. magic (items H' a) = magic (items H a)" "\<And>a. pool_ptr (items H' a) = pool_ptr (items H a)"
    and s: "free_list H' = free_list H" "start_addr H' = start_addr H" "pool_size H' = pool_size H" "heap_obj H' = heap_obj H"
  shows "heap_links H' (ps @ q # qs) t fs'" "bsize H' q = bsize H q + 24 + bsize H n"
    "\<And>a. a \<noteq> q \<Longrightarrow> bsize H' a = bsize H a" "item_is_used H' = item_is_used H"
proof -
  note d = heap_linksD [OF L]
  have n: "mi_next (items H q) = n" "mi_prev (items H n) = q" "mi_next (items H n) = hd (qs @ [t])"
    using block_next(1) [OF L] block_next [of H "ps @ [q]" n qs t fs] L by simp_all
  have sz: "unat q + 36 \<le> unat n" "unat n + 36 \<le> unat (hd (qs @ [t]))"
    using block_next(3) [OF L] block_next(3) [of H "ps @ [q]" n qs t fs] L by simp_all
  show u: "item_is_used H' = item_is_used H" by (simp add: item_is_used_def fun_eq_iff m)
  have "magic_ok H' a = magic_ok H a" for a by (simp add: magic_ok_def m)
  moreover have "ring (blk H') t (ps @ q # qs)" unfolding b using ring_unlink [of "blk H" t "ps @ [q]" n qs] d(1) by simp
  moreover have "hd (ps @ q # qs) = start_addr H" using d(6) by (cases ps) auto
  ultimately show "heap_links H' (ps @ q # qs) t fs'"
    unfolding heap_links_def using d r m(2) s u by (auto simp: apart_append apart_Cons)
  have nb: "mi_next (items H' a) = (if a = q then hd (qs @ [t]) else mi_next (items H a))" for a
    using arg_cong [OF b, of "\<lambda>h. nxt h a"] n by (simp add: unlink_def)
  show "bsize H' q = bsize H q + 24 + bsize H n" using nb n sz by (simp add: bsize_def)
  show "\<And>a. a \<noteq> q \<Longrightarrow> bsize H' a = bsize H a" using nb by (simp add: bsize_def)
qed

lemma sum_merge:
  fixes f g :: "u32 \<Rightarrow> nat"
  assumes "finite F" "q \<in> F" "n \<in> F" "q \<noteq> n" and "g q = f q + 24 + f n" and "\<And>a. a \<noteq> q \<Longrightarrow> g a = f a"
  shows "(\<Sum>a \<in> F - {n}. g a) = (\<Sum>a \<in> F. f a) + 24"
proof -
  have "(\<Sum>a \<in> F. f a) = f n + (f q + (\<Sum>a \<in> F - {n} - {q}. f a))"
    using assms(1-4) by (simp add: sum.remove [of F n] sum.remove [of "F - {n}" q])
  moreover have "(\<Sum>a \<in> F - {n}. g a) = g q + (\<Sum>a \<in> F - {n} - {q}. g a)"
    using assms(1-4) by (intro sum.remove) auto
  moreover have "(\<Sum>a \<in> F - {n} - {q}. g a) = (\<Sum>a \<in> F - {n} - {q}. f a)" using assms(6) by (intro sum.cong) auto
  ultimately show ?thesis using assms(5) by simp
qed

text \<open>Free and available bytes agree.\<close>

definition counted :: "rt_memheap \<Rightarrow> u32 list \<Rightarrow> bool" where
  "counted H bs = (unat (available_size H) = (\<Sum>a \<in> free_blocks H bs. bsize H a))"

lemma counted_merge:
  assumes L': "heap_links H' (ps @ q # qs) t fs'" and d: "distinct (ps @ q # n # qs)" and c: "counted H (ps @ q # n # qs)"
    and u: "\<not> item_is_used H q" "\<not> item_is_used H n" "item_is_used H' = item_is_used H"
    and b: "bsize H' q = bsize H q + 24 + bsize H n" "\<And>a. a \<noteq> q \<Longrightarrow> bsize H' a = bsize H a"
    and av: "available_size H' = available_size H + 24"
  shows "counted H' (ps @ q # qs)" "free_blocks H' (ps @ q # qs) = free_blocks H (ps @ q # n # qs) - {n}"
proof -
  let ?F = "free_blocks H (ps @ q # n # qs)" and ?F' = "free_blocks H' (ps @ q # qs)"
  show F: "?F' = ?F - {n}" using d by (auto simp: free_blocks_def u(3))
  have "(\<Sum>a \<in> ?F - {n}. bsize H' a) = (\<Sum>a \<in> ?F. bsize H a) + 24"
    by (rule sum_merge [of _ q]) (use d u b in \<open>auto simp: free_blocks_def\<close>)
  moreover have "(\<Sum>a \<in> ?F'. bsize H' a) + 24 \<le> 2 ^ 32"
    by (rule free_sum_bound [OF L']) (auto simp: free_blocks_def)
  ultimately show "counted H' (ps @ q # qs)"
    using c av unfolding counted_def F by (simp add: unat_word_ariths)
qed

lemma merge_left_effect:
  assumes L: "heap_links H (ps @ p # qs) t fs" and c: "counted H (ps @ p # qs)" and p: "\<not> item_is_used H p" "p \<notin> set fs"
  shows "(item_is_used H (last (t # ps)) \<and> memheap_merge_left p H = (True, p, H)) \<or>
     (\<exists>ps' q H'. ps = ps' @ [q] \<and> \<not> item_is_used H q \<and> memheap_merge_left p H = (False, q, H') \<and>
        heap_links H' (ps' @ q # qs) t fs \<and> counted H' (ps' @ q # qs) \<and> item_is_used H' = item_is_used H \<and>
        free_blocks H' (ps' @ q # qs) = free_blocks H (ps @ p # qs) - {p} \<and>
        (\<forall>a. a \<noteq> q \<longrightarrow> bsize H' a = bsize H a) \<and> same_heap H H' \<and> mem H' = mem H)"
proof (cases "item_is_used H (last (t # ps))")
  case True
  then show ?thesis using block_next(2) [OF L] by (simp add: memheap_merge_left_def)
next
  case False
  then obtain ps' q where ps: "ps = ps' @ [q]" using heap_linksD(12) [OF L] by (cases ps rule: rev_cases) auto
  have L2: "heap_links H (ps' @ q # p # qs) t fs" using L ps by simp
  note d = heap_linksD [OF L2]
  have pr: "mi_prev (items H p) = q" "mi_next (items H p) = hd (qs @ [t])" using block_next [OF L] ps by simp_all
  have ds: "distinct (ps' @ q # p # qs)" "q \<noteq> p" "p \<noteq> hd (qs @ [t])" using d(1) by (auto simp: ring_def) (cases qs; auto)
  define H' where "H' = snd (snd (memheap_merge_left p H))"
  have e: "memheap_merge_left p H = (False, q, H')" using False pr ps by (simp add: memheap_merge_left_def H'_def Let_def)
  have H': "H' = upd_item (hd (qs @ [t])) (\<lambda>i. i\<lparr>mi_prev := q\<rparr>) (upd_item q (\<lambda>i. i\<lparr>mi_next := hd (qs @ [t])\<rparr>)
      (H\<lparr>available_size := available_size H + 24\<rparr>))"
    using False pr ps ds(2) by (simp add: memheap_merge_left_def H'_def Let_def upd_item_def)
  have b: "blk H' = unlink p (blk H)" "fre H' = fre H" using pr by (auto simp: H' blk_def fre_def unlink_def upd_item_def)
  have m: "magic (items H' a) = magic (items H a)" "pool_ptr (items H' a) = pool_ptr (items H a)" for a
    by (simp_all add: H' upd_item_def)
  have s: "free_list H' = free_list H" "start_addr H' = start_addr H" "pool_size H' = pool_size H" "heap_obj H' = heap_obj H"
    "available_size H' = available_size H + 24" "heap_lock H' = heap_lock H" "mem H' = mem H" by (simp_all add: H' upd_item_def)
  have r: "ring (fre H') (free_list H) fs" "set fs \<subseteq> set (ps' @ q # qs)" using d(2,3) p(2) b(2) by auto
  note D = links_delete [OF L2 r b(1) m s(1-4)]
  have "\<not> item_is_used H q" using False ps by simp
  then have "counted H' (ps' @ q # qs)" "free_blocks H' (ps' @ q # qs) = free_blocks H (ps' @ q # p # qs) - {p}"
    using counted_merge [OF D(1) ds(1) _ _ p(1) D(4,2,3) s(5)] c ps by simp_all
  then show ?thesis using ps e D \<open>\<not> item_is_used H q\<close> s by (auto simp: same_heap_def)
qed

lemma merge_right_effect:
  assumes L: "heap_links H (ps @ x # qs) t fs" and c: "counted H (ps @ x # qs)" and x: "\<not> item_is_used H x"
    and fs: "free_blocks H (ps @ x # qs) \<subseteq> insert x (set fs)"
  shows "(item_is_used H (hd (qs @ [t])) \<and> memheap_merge_right x H = H) \<or>
     (\<exists>n qs' fs'. qs = n # qs' \<and> \<not> item_is_used H n \<and> set fs' = set fs - {n} \<and>
        heap_links (memheap_merge_right x H) (ps @ x # qs') t fs' \<and> counted (memheap_merge_right x H) (ps @ x # qs') \<and>
        item_is_used (memheap_merge_right x H) = item_is_used H \<and>
        free_blocks (memheap_merge_right x H) (ps @ x # qs') = free_blocks H (ps @ x # qs) - {n} \<and>
        (\<forall>a. a \<noteq> x \<longrightarrow> bsize (memheap_merge_right x H) a = bsize H a) \<and> same_heap H (memheap_merge_right x H) \<and>
        mem (memheap_merge_right x H) = mem H)"
proof (cases "item_is_used H (hd (qs @ [t]))")
  case True
  then show ?thesis using block_next(1) [OF L] by (simp add: memheap_merge_right_def)
next
  case False
  then obtain n qs' where qs: "qs = n # qs'" using heap_linksD(12) [OF L] by (cases qs) auto
  note d = heap_linksD [OF L]
  have nx: "mi_next (items H x) = n" "mi_prev (items H n) = x" "mi_next (items H n) = hd (qs' @ [t])"
    using block_next(1) [OF L] block_next [of H "ps @ [x]" n qs' t fs] L qs by simp_all
  have ds: "distinct (ps @ x # n # qs')" "n \<noteq> x" "n \<noteq> hd (qs' @ [t])"
    using d(1) qs by (auto simp: ring_def) (cases qs'; auto)
  have un: "\<not> item_is_used H n" using False qs by simp
  then have "n \<in> set fs" using fs qs ds(2) by (auto simp: free_blocks_def)
  then obtain xs ys where f: "fs = xs @ n # ys" by (meson split_list)
  define G where "G = upd_item x (\<lambda>i. i\<lparr>mi_next := hd (qs' @ [t])\<rparr>) (upd_item (hd (qs' @ [t])) (\<lambda>i. i\<lparr>mi_prev := x\<rparr>)
      (H\<lparr>available_size := available_size H + 24\<rparr>))"
  have e: "memheap_merge_right x H = free_remove n G"
    using un nx ds(3) by (simp add: memheap_merge_right_def Let_def G_def upd_item_def)
  have b: "blk G = unlink n (blk H)" "fre G = fre H" using nx by (auto simp: G_def blk_def fre_def unlink_def upd_item_def)
  have m: "magic (items G a) = magic (items H a)" "pool_ptr (items G a) = pool_ptr (items H a)" for a
    by (simp_all add: G_def upd_item_def)
  have s: "free_list G = free_list H" "start_addr G = start_addr H" "pool_size G = pool_size H" "heap_obj G = heap_obj H"
    "available_size G = available_size H + 24" "heap_lock G = heap_lock H" "mem G = mem H" by (simp_all add: G_def upd_item_def)
  let ?H = "free_remove n G"
  have r: "ring (fre ?H) (free_list H) (xs @ ys)" using free_ring_remove(1) [of G "free_list H" xs n ys] d(2) f b(2) by simp
  have nd: "n \<notin> set (xs @ ys)" using d(2) f by (auto simp: ring_def)
  have sub: "set (xs @ ys) \<subseteq> set (ps @ x # qs')" using d(3) f nd qs by auto
  have b': "blk ?H = unlink n (blk H)" using b(1) by simp
  have m': "magic (items ?H a) = magic (items H a)" "pool_ptr (items ?H a) = pool_ptr (items H a)" for a using m by simp_all
  note D = links_delete [OF L [unfolded qs] r sub b' m' s(1-4) [folded free_remove_facts(6,7,9,11) [of n G]]]
  have "available_size ?H = available_size H + 24" using s(5) by simp
  then have "counted ?H (ps @ x # qs')" "free_blocks ?H (ps @ x # qs') = free_blocks H (ps @ x # n # qs') - {n}"
    using counted_merge [OF D(1) ds(1) _ x un D(4,2,3)] c qs by simp_all
  moreover have "same_heap H ?H" "mem ?H = mem H" using s by (simp_all add: same_heap_def)
  moreover have "set (xs @ ys) = set fs - {n}" using f nd by auto
  ultimately show ?thesis using qs un D e by auto
qed

definition block_given :: "u32 \<Rightarrow> rt_memheap \<Rightarrow> u32 list \<Rightarrow> u32 \<Rightarrow> rt_memheap \<Rightarrow> bool" where
  "block_given p H bs t H' = (\<exists>bs' fs'. heap_ok H' bs' t fs' \<and> same_heap H H' \<and> mem H' = mem H \<and>
     in_use H' bs' = in_use H bs - {p} \<and> (\<forall>a \<in> in_use H' bs'. bsize H' a = bsize H a))"

lemma same_heap_trans: "same_heap H G \<Longrightarrow> same_heap G K \<Longrightarrow> same_heap H K"
  by (simp add: same_heap_def)

lemma in_use_free: "in_use H bs = set bs - free_blocks H bs"
  by (auto simp: in_use_def free_blocks_def)

text \<open>A heap in which the block \<open>x\<close> is free but its neighbours may be, too.\<close>

definition uneven :: "rt_memheap \<Rightarrow> u32 list \<Rightarrow> u32 \<Rightarrow> u32 list \<Rightarrow> u32 \<Rightarrow> u32 list \<Rightarrow> bool" where
  "uneven H ps x qs t fs = (heap_links H (ps @ x # qs) t fs \<and> counted H (ps @ x # qs) \<and> \<not> item_is_used H x \<and>
     successively (\<lambda>a b. item_is_used H a \<or> item_is_used H b) ps \<and> successively (\<lambda>a b. item_is_used H a \<or> item_is_used H b) qs)"

lemma uneven_marked:
  assumes O: "heap_ok H (ps @ p # qs) t fs" and p: "item_is_used H p"
  defines "G \<equiv> (mark p RT_MEMHEAP_FREED H)\<lparr>available_size := available_size H + memitem_size H p\<rparr>"
  shows "uneven G ps p qs t fs" "set fs = free_blocks G (ps @ p # qs) - {p}" "p \<notin> set fs"
    "in_use G (ps @ p # qs) = in_use H (ps @ p # qs) - {p}" "bsize G = bsize H" "same_heap H G" "mem G = mem H"
proof -
  have L: "heap_links H (ps @ p # qs) t fs" and fs: "set fs = free_blocks H (ps @ p # qs)"
    and av: "unat (available_size H) = (\<Sum>a \<in> free_blocks H (ps @ p # qs). bsize H a)"
    and co: "successively (\<lambda>a b. item_is_used H a \<or> item_is_used H b) (ps @ p # qs)" using O by (simp_all add: heap_ok_sum)
  note d = heap_linksD [OF L]
  have u: "item_is_used G a = (a \<noteq> p \<and> item_is_used H a)" "magic_ok G a = (a = p \<or> magic_ok H a)" for a
    using mark_used(2,4) [of p H a] by (simp_all add: G_def item_is_used_def magic_ok_def)
  have ds: "distinct (t # ps @ p # qs)" using d(1) by (simp add: ring_def)
  have bl: "blk G = blk H" "fre G = fre H" using mark_facts(1,2) [of p RT_MEMHEAP_FREED H] by (simp_all add: G_def blk_def fre_def)
  show b: "bsize G = bsize H" by (simp add: G_def bsize_def fun_eq_iff)
  show "same_heap H G" "mem G = mem H" by (simp_all add: G_def same_heap_def)
  show pf: "p \<notin> set fs" using fs p by (simp add: free_blocks_def)
  have F: "free_blocks G (ps @ p # qs) = insert p (set fs)" using fs ds by (auto simp: free_blocks_def u)
  then show "set fs = free_blocks G (ps @ p # qs) - {p}" using pf by auto
  show "in_use G (ps @ p # qs) = in_use H (ps @ p # qs) - {p}" by (auto simp: in_use_def u)
  have L': "heap_links G (ps @ p # qs) t fs"
    by (rule links_free [OF L]) (use d ds bl in \<open>auto simp: u\<close>, auto simp: G_def)
  have "(\<Sum>a \<in> insert p (set fs). bsize H a) + 24 \<le> 2 ^ 32" by (rule free_sum_bound [OF L]) (use d(3) in auto)
  then have "counted G (ps @ p # qs)"
    unfolding counted_def F b using av fs pf block_size(1) [OF L, of p] by (simp add: G_def unat_word_ariths)
  moreover have "successively (\<lambda>a b. item_is_used G a \<or> item_is_used G b) ps" "successively (\<lambda>a b. item_is_used G a \<or> item_is_used G b) qs"
    using co ds by (auto simp: successively_append_iff successively_Cons u elim!: successively_mono)
  ultimately show "uneven G ps p qs t fs" using L' by (simp add: uneven_def u)
qed

text \<open>Merging to the right and entering the block in the free list if it is not there makes the heap
  even again, if the block to the left is in use.\<close>

lemma merge_right_even:
  assumes U: "uneven H ps x qs t fs" and fs: "free_blocks H (ps @ x # qs) = insert x (set fs)"
  defines "K \<equiv> memheap_merge_right x H"
  obtains qs' fs' where "heap_links K (ps @ x # qs') t fs'" "counted K (ps @ x # qs')" "item_is_used K = item_is_used H"
    "free_blocks K (ps @ x # qs') = insert x (set fs')" "x \<in> set fs' \<longleftrightarrow> x \<in> set fs"
    "successively (\<lambda>a b. item_is_used H a \<or> item_is_used H b) (x # qs')" "in_use H (ps @ x # qs') = in_use H (ps @ x # qs)"
    "\<And>a. a \<noteq> x \<Longrightarrow> bsize K a = bsize H a" "same_heap H K" "mem K = mem H"
proof -
  have L: "heap_links H (ps @ x # qs) t fs" and c: "counted H (ps @ x # qs)" and x: "\<not> item_is_used H x"
    and co: "successively (\<lambda>a b. item_is_used H a \<or> item_is_used H b) qs" using U by (simp_all add: uneven_def)
  from merge_right_effect [OF L c x equalityD1 [OF fs]] consider
      (keep) "item_is_used H (hd (qs @ [t]))" "K = H"
    | (merge) n qs' fs' where "qs = n # qs'" "\<not> item_is_used H n" "set fs' = set fs - {n}" "heap_links K (ps @ x # qs') t fs'"
        "counted K (ps @ x # qs')" "item_is_used K = item_is_used H" "free_blocks K (ps @ x # qs') = free_blocks H (ps @ x # qs) - {n}"
        "\<forall>a. a \<noteq> x \<longrightarrow> bsize K a = bsize H a" "same_heap H K" "mem K = mem H"
    unfolding K_def by blast
  then show ?thesis
  proof cases
    case keep
    have "successively (\<lambda>a b. item_is_used H a \<or> item_is_used H b) (x # qs)" using co keep(1) by (cases qs) auto
    moreover have "same_heap H K" using keep(2) by (simp add: same_heap_def)
    ultimately show ?thesis using that [of qs fs] L c fs keep(2) by blast
  next
    case merge
    have n: "n \<noteq> x" using heap_linksD(1) [OF L] merge(1) by (auto simp: ring_def)
    have "successively (\<lambda>a b. item_is_used H a \<or> item_is_used H b) (x # qs')"
      using co merge(1,2) by (cases qs') auto
    moreover have "in_use H (ps @ x # qs') = in_use H (ps @ x # qs)" using merge(1,2) by (auto simp: in_use_def)
    moreover have "free_blocks K (ps @ x # qs') = insert x (set fs')" using merge(3,7) fs n by auto
    moreover have "x \<in> set fs' \<longleftrightarrow> x \<in> set fs" using merge(3) n by auto
    ultimately show ?thesis using that [of qs' fs'] merge(4-6,8-10) by blast
  qed
qed

lemma uneven_settle:
  assumes U: "uneven H ps x qs t fs" and left: "ps = [] \<or> item_is_used H (last ps)"
    and fs: "free_blocks H (ps @ x # qs) = insert x (set fs)" and flag: "flag = (x \<notin> set fs)"
  defines "K \<equiv> memheap_merge_right x H"
  defines "H' \<equiv> if flag then free_insert x K else K"
  shows "\<exists>bs' fs'. heap_ok H' bs' t fs' \<and> same_heap H H' \<and> mem H' = mem H \<and> in_use H' bs' = in_use H (ps @ x # qs) \<and>
     (\<forall>a \<in> in_use H' bs'. bsize H' a = bsize H a)"
proof -
  have x: "\<not> item_is_used H x" and co: "successively (\<lambda>a b. item_is_used H a \<or> item_is_used H b) ps"
    using U by (simp_all add: uneven_def)
  obtain qs' fs' where K: "heap_links K (ps @ x # qs') t fs'" "counted K (ps @ x # qs')" "item_is_used K = item_is_used H"
    "free_blocks K (ps @ x # qs') = insert x (set fs')" "x \<in> set fs' \<longleftrightarrow> x \<in> set fs"
    "successively (\<lambda>a b. item_is_used H a \<or> item_is_used H b) (x # qs')" "in_use H (ps @ x # qs') = in_use H (ps @ x # qs)"
    "\<And>a. a \<noteq> x \<Longrightarrow> bsize K a = bsize H a" "same_heap H K" "mem K = mem H"
    by (rule merge_right_even [OF U fs, folded K_def]) blast
  have u: "item_is_used H' = item_is_used H" "magic_ok H' = magic_ok K"
    using K(3) by (auto simp: H'_def item_is_used_def magic_ok_def fun_eq_iff)
  have b: "bsize H' = bsize K" by (simp add: H'_def bsize_def fun_eq_iff)
  define gs where "gs = (if flag then x # fs' else fs')"
  have "x \<noteq> free_list K" using block_range(3) [OF K(1), of x] by simp
  then have r: "ring (fre H') (free_list K) gs"
    using heap_linksD(2) [OF K(1)] free_ring_insert [of K fs' x] K(5) flag by (auto simp: H'_def gs_def)
  have g: "set gs = insert x (set fs')" using K(5) flag by (auto simp: gs_def)
  have L': "heap_links H' (ps @ x # qs') t gs"
    by (rule links_free [OF K(1) r]) (use g heap_linksD(3,11,12) [OF K(1)] u K(3) in \<open>auto simp: H'_def\<close>)
  have "successively (\<lambda>a b. item_is_used H a \<or> item_is_used H b) (ps @ x # qs')"
    using co K(6) left by (auto simp: successively_append_iff)
  moreover have "free_blocks H' (ps @ x # qs') = insert x (set fs')" using K(3,4) u(1) by (simp add: free_blocks_def)
  moreover have "unat (available_size H') = (\<Sum>a \<in> insert x (set fs'). bsize H' a)"
    using K(2,4) b by (simp add: counted_def H'_def)
  ultimately have "heap_ok H' (ps @ x # qs') t gs" using L' g u(1) by (simp add: heap_ok_sum)
  moreover have "in_use H' (ps @ x # qs') = in_use H (ps @ x # qs)" using K(7) u(1) by (simp add: in_use_def)
  moreover have "same_heap H H'" "mem H' = mem H" using K(9,10) by (simp_all add: same_heap_def H'_def)
  moreover have "bsize H' a = bsize H a" if "a \<in> in_use H (ps @ x # qs)" for a
    unfolding b by (rule K(8)) (use that x in \<open>auto simp: in_use_def\<close>)
  ultimately show ?thesis by auto
qed

lemma memheap_give_effect:
  assumes O: "heap_ok H bs t fs" and p: "p \<in> in_use H bs"
  shows "\<exists>H'. memheap_give p H = Some ((), H') \<and> block_given p H bs t H'"
proof -
  obtain ps qs where bs: "bs = ps @ p # qs" using p by (auto simp: in_use_def dest!: split_list)
  have u: "item_is_used H p" using p by (simp add: in_use_def)
  define G where "G = (mark p RT_MEMHEAP_FREED H)\<lparr>available_size := available_size H + memitem_size H p\<rparr>"
  note M = uneven_marked [OF O [unfolded bs] u, folded G_def]
  have LG: "heap_links G (ps @ p # qs) t fs" "counted G (ps @ p # qs)" "\<not> item_is_used G p"
    and co: "successively (\<lambda>a b. item_is_used G a \<or> item_is_used G b) ps"
      "successively (\<lambda>a b. item_is_used G a \<or> item_is_used G b) qs" using M(1) by (simp_all add: uneven_def)
  have fsG: "free_blocks G (ps @ p # qs) = insert p (set fs)" using M(2,3) LG(3) by (auto simp: free_blocks_def)
  obtain f x K where ml: "memheap_merge_left p G = (f, x, K)" by (cases "memheap_merge_left p G") auto
  define H' where "H' = (if f then free_insert x (memheap_merge_right x K) else memheap_merge_right x K)"
  have gv: "memheap_give p H = Some ((), H')"
    using ml by (simp add: memheap_give_def mark_def G_def memitem_size_def H'_def Let_def upd_item_def)
  have "\<exists>bs' fs'. heap_ok H' bs' t fs' \<and> same_heap G H' \<and> mem H' = mem G \<and> in_use H' bs' = in_use G (ps @ p # qs) \<and>
     (\<forall>a \<in> in_use H' bs'. bsize H' a = bsize G a)"
    using merge_left_effect [OF LG M(3)]
  proof (elim disjE conjE exE)
    assume a: "item_is_used G (last (t # ps))" "memheap_merge_left p G = (True, p, G)"
    then have e: "f = True" "x = p" "K = G" using ml by simp_all
    show ?thesis unfolding H'_def e
      by (rule uneven_settle [OF M(1) _ fsG]) (use a(1) M(3) in \<open>auto split: if_splits\<close>)
  next
    fix ps' q K'
    assume a: "ps = ps' @ [q]" "\<not> item_is_used G q" "memheap_merge_left p G = (False, q, K')"
      "heap_links K' (ps' @ q # qs) t fs" "counted K' (ps' @ q # qs)" "item_is_used K' = item_is_used G"
      "free_blocks K' (ps' @ q # qs) = free_blocks G (ps @ p # qs) - {p}" "\<forall>a. a \<noteq> q \<longrightarrow> bsize K' a = bsize G a"
      "same_heap G K'" "mem K' = mem G"
    have e: "f = False" "x = q" "K = K'" using ml a(3) by simp_all
    have q: "q \<in> set fs" using M(2) a(1,2) heap_linksD(1) [OF LG(1)] by (auto simp: free_blocks_def ring_def)
    have U: "uneven K' ps' q qs t fs" using a co by (simp add: uneven_def successively_append_iff)
    have left: "ps' = [] \<or> item_is_used K' (last ps')" using co(1) a(1,2,6) by (auto simp: successively_append_iff)
    have fs': "free_blocks K' (ps' @ q # qs) = insert q (set fs)" using a(7) M(2) q by auto
    have "\<exists>bs' fs'. heap_ok H' bs' t fs' \<and> same_heap K' H' \<and> mem H' = mem K' \<and> in_use H' bs' = in_use K' (ps' @ q # qs) \<and>
        (\<forall>a \<in> in_use H' bs'. bsize H' a = bsize K' a)"
      unfolding H'_def e by (rule uneven_settle [OF U left fs']) (use q in simp)
    moreover have "in_use K' (ps' @ q # qs) = in_use G (ps @ p # qs)" using a(1,6) LG(3) by (auto simp: in_use_def)
    moreover have "bsize K' a = bsize G a" if "a \<in> in_use G (ps @ p # qs)" for a using a(2,8) that by (auto simp: in_use_def)
    ultimately show ?thesis using a(9,10) same_heap_trans [of G K'] by metis
  qed
  then show ?thesis unfolding bs using gv M(4-7) same_heap_trans [of H G H'] by (auto simp: block_given_def)
qed

end
