(* ===== verification/Life_Correct.thy ===== *)
theory Life_Correct
  imports Sem_Correct Thread_Life
begin

unbundle bit_operations_syntax

text \<open>
  Objects and threads from their registration to their end: the registry finds what was
  registered, critical sections nest, a thread that is initialised and started becomes
  ready and competes for the processor, and a thread that is detached or deleted leaves
  every list of the kernel.
\<close>

subsection \<open>Critical sections\<close>

lemma live_schedule: "\<lbrakk>live s; rt_schedule s = Some s'\<rbrakk> \<Longrightarrow> live s'"
  using rt_schedule_cur [of s s'] rt_schedule_fields(1) [of s s'] by (auto simp: live_def)

lemma enter_critical_fields [simp]:
  "threads (rt_enter_critical s) = threads s" "tlists (rt_enter_critical s) = tlists s"
  "on_list (rt_enter_critical s) = on_list s" "ready_table (rt_enter_critical s) = ready_table s"
  "ready_group (rt_enter_critical s) = ready_group s" "objects (rt_enter_critical s) = objects s"
  "containers (rt_enter_critical s) = containers s" "cur_thread (rt_enter_critical s) = cur_thread s"
  "irq_nest (rt_enter_critical s) = irq_nest s" "lock_nest (rt_enter_critical s) = lock_nest s + 1"
  by (simp_all add: rt_enter_critical_def)

text \<open>Leaving a critical section that was just entered: the kernel is as before, but for the
  running thread and the lock count.\<close>

definition same_but_running :: "kernel \<Rightarrow> kernel \<Rightarrow> bool" where
  "same_but_running s u = (u = s\<lparr>cur_thread := cur_thread u, cur_priority := cur_priority u,
     lock_nest := lock_nest u, idl_total_ticks := idl_total_ticks u, prev_calc_ticks := prev_calc_ticks u\<rparr>)"

lemma same_but_running_fields:
  assumes "same_but_running s u"
  shows "threads u = threads s" "tlists u = tlists s" "on_list u = on_list s" "ready_table u = ready_table s"
    "ready_group u = ready_group s" "objects u = objects s" "timers u = timers s" "timer_list u = timer_list s"
    "soft_timer_list u = soft_timer_list s" "containers u = containers s" "irq_nest u = irq_nest s"
    "sems u = sems s" "tick u = tick s" "timer_thread u = timer_thread s"
  by (subst assms [unfolded same_but_running_def], simp)+

lemma critical_pair:
  assumes I: "sched_inv s" and L: "live s"
  shows "\<exists>u. rt_exit_critical (rt_enter_critical s) = Some u \<and> same_but_running s u \<and> live u"
proof (cases "sint (lock_nest s) \<le> 0")
  case True
  let ?v = "s\<lparr>lock_nest := 0\<rparr>"
  have "sched_inv ?v" "live ?v" using I L by (simp_all add: live_def cong: sched_inv_cong)
  then obtain u where u: "rt_schedule ?v = Some u" using schedule_top by fastforce
  have "rt_exit_critical (rt_enter_critical s) = Some u"
    using True L u by (simp add: rt_exit_critical_def rt_enter_critical_def live_def)
  moreover have "same_but_running s u"
    unfolding same_but_running_def
    using rt_schedule_fields(17) [OF u] by (subst rt_schedule_frame [OF u]) simp
  ultimately show ?thesis using live_schedule [OF \<open>live ?v\<close> u] by blast
next
  case False
  then show ?thesis using L by (simp add: rt_exit_critical_def rt_enter_critical_def same_but_running_def)
qed

primrec exit_times :: "nat \<Rightarrow> kernel \<Rightarrow> kernel option" where
  "exit_times 0 s = Some s"
| "exit_times (Suc n) s = Option.bind (rt_exit_critical s) (exit_times n)"

lemma enter_times: "(rt_enter_critical ^^ n) s = s\<lparr>lock_nest := lock_nest s + of_nat n\<rparr>"
  by (induction n) (simp_all add: rt_enter_critical_def add.assoc add.commute)

lemma exit_inner:
  assumes "lock_nest s = 0" and "0 < n" and "n < 2 ^ 15"
  shows "rt_exit_critical (s\<lparr>lock_nest := of_nat (Suc n)\<rparr>) = Some (s\<lparr>lock_nest := of_nat n\<rparr>)"
proof -
  have "sint (of_nat n :: u16) = int n"
    using assms(3) by (simp add: sint_uint uint_nat unat_of_nat take_bit_nat_eq_self signed_take_bit_int_eq_self)
  then show ?thesis using assms by (simp add: rt_exit_critical_def)
qed

lemma exit_all:
  assumes "lock_nest s = 0" and c: "cur_thread s \<noteq> None"
  shows "Suc n \<le> 2 ^ 15 \<Longrightarrow> exit_times (Suc n) (s\<lparr>lock_nest := of_nat (Suc n)\<rparr>) = rt_schedule s"
proof (induction n)
  case 0
  have e: "s\<lparr>lock_nest := 0\<rparr> = s" using assms(1) by simp
  show ?case using c assms(1) by (auto simp: rt_exit_critical_def e split: Option.bind_splits)
next
  case (Suc n)
  have "rt_exit_critical (s\<lparr>lock_nest := of_nat (Suc (Suc n))\<rparr>) = Some (s\<lparr>lock_nest := of_nat (Suc n)\<rparr>)"
    using Suc.prems assms(1) by (intro exit_inner) auto
  then show ?case using Suc.IH Suc.prems by (simp del: of_nat_Suc)
qed

text \<open>Critical sections nest. On a kernel with the scheduler unlocked, any number of
  \<^verbatim>\<open>rt_enter_critical\<close> up to \<open>2^15\<close> (the lock counter has 16 bits, read as a signed number) keeps
  \<^verbatim>\<open>rt_schedule\<close> from switching, and as many \<^verbatim>\<open>rt_exit_critical\<close> do exactly what one
  \<^verbatim>\<open>rt_schedule\<close> would have done: only the last of them switches.\<close>

theorem critical_sections_nest:
  assumes "lock_nest s = 0" and "cur_thread s \<noteq> None" and "0 < n" and "n \<le> 2 ^ 15"
  shows "rt_schedule ((rt_enter_critical ^^ n) s) = Some ((rt_enter_critical ^^ n) s) \<and>
     exit_times n ((rt_enter_critical ^^ n) s) = rt_schedule s"
proof -
  have "unat (of_nat n :: u16) = n" using assms(4) by (simp add: unat_of_nat take_bit_nat_eq_self)
  then have "of_nat n \<noteq> (0 :: u16)" using assms(3) by auto
  then show ?thesis
    using exit_all [OF assms(1,2), of "n - 1"] assms by (simp add: enter_times rt_schedule_locked)
qed

theorem critical_sections_nest_witness:
  "rt_schedule ((rt_enter_critical ^^ 3) sample_ready) = Some ((rt_enter_critical ^^ 3) sample_ready) \<and>
   exit_times 3 ((rt_enter_critical ^^ 3) sample_ready) = rt_schedule sample_ready"
  by (rule critical_sections_nest) (simp_all add: sample_ready_def sample_base_def)

subsection \<open>The object registry\<close>

lemma same_but_running_inv: "same_but_running s u \<Longrightarrow> sched_inv u = sched_inv s" "same_but_running s u \<Longrightarrow> kinv u = kinv s"
  by (rule sched_inv_cong kinv_cong; simp add: same_but_running_fields)+

lemma upd_object_fields [simp]:
  "threads (upd_object x f s) = threads s" "tlists (upd_object x f s) = tlists s"
  "on_list (upd_object x f s) = on_list s" "ready_table (upd_object x f s) = ready_table s"
  "ready_group (upd_object x f s) = ready_group s" "timers (upd_object x f s) = timers s"
  "timer_list (upd_object x f s) = timer_list s" "soft_timer_list (upd_object x f s) = soft_timer_list s"
  "containers (upd_object x f s) = containers s" "cur_thread (upd_object x f s) = cur_thread s"
  "irq_nest (upd_object x f s) = irq_nest s" "lock_nest (upd_object x f s) = lock_nest s"
  "objects (upd_object x f s) = (objects s)(x := f (objects s x))"
  by (simp_all add: upd_object_def)

lemma object_attach_fields [simp]:
  "threads (object_attach i x s) = threads s" "tlists (object_attach i x s) = tlists s"
  "on_list (object_attach i x s) = on_list s" "ready_table (object_attach i x s) = ready_table s"
  "ready_group (object_attach i x s) = ready_group s" "timers (object_attach i x s) = timers s"
  "timer_list (object_attach i x s) = timer_list s" "soft_timer_list (object_attach i x s) = soft_timer_list s"
  "cur_thread (object_attach i x s) = cur_thread s" "irq_nest (object_attach i x s) = irq_nest s"
  "lock_nest (object_attach i x s) = lock_nest s" "objects (object_attach i x s) = objects s"
  "containers (object_attach i x s) = (containers s)(i := x # containers s i)"
  by (simp_all add: object_attach_def)

text \<open>A successful registration of \<open>x\<close>, up to the running thread.\<close>

definition registered :: "oref \<Rightarrow> u8 \<Rightarrow> nat \<Rightarrow> u8 list \<Rightarrow> kernel \<Rightarrow> kernel" where
  "registered x type i nm u = object_attach i x
     (upd_object x (\<lambda>ob. ob\<lparr>obj_type := type OR RT_Object_Class_Static, obj_name := nm\<rparr>) u)"

lemma object_init_registered:
  assumes I: "sched_inv s" and L: "live s" and ty: "rt_object_get_information type = Some i"
    and x: "x \<notin> set (containers s i)" and nm: "rt_strncpy name RT_NAME_MAX = Some nm"
  shows "\<exists>u. rt_object_init x type name s = Some (registered x type i nm u) \<and> same_but_running s u \<and> live u"
proof -
  obtain u where u: "rt_exit_critical (rt_enter_critical s) = Some u" "same_but_running s u" "live u"
    using critical_pair [OF I L] by blast
  then show ?thesis using ty x nm by (auto simp: rt_object_init_def registered_def)
qed

lemma object_find_first:
  assumes I: "sched_inv s" and L: "live s" and i: "irq_nest s = 0"
    and ty: "rt_object_get_information type = Some i" and f: "find_named (objects s) name (containers s i) = Some r"
  shows "\<exists>u. rt_object_find (Some name) type s = Some (r, u) \<and> same_but_running s u"
proof -
  obtain u where u: "rt_exit_critical (rt_enter_critical s) = Some u" "same_but_running s u"
    using critical_pair [OF I L] by blast
  have "\<not> RT_Object_Class_Unknown < type"
    using ty by (auto simp: rt_object_get_information_def rt_object_container_def split: if_splits)
  then show ?thesis using u i ty f by (simp add: rt_object_find_def not_in_interrupt_def)
qed

text \<open>The registry finds what was registered. On a running kernel \<^verbatim>\<open>rt_object_init\<close> of a new
  object with a readable name always succeeds; then the object has the type it was given and
  the static mark, \<^verbatim>\<open>rt_object_get_pointers\<close> and \<^verbatim>\<open>rt_object_get_length\<close> list it in front of the
  others of its class, and \<^verbatim>\<open>rt_object_find\<close> returns it for its name, whatever older object has
  that name too. After \<^verbatim>\<open>rt_object_detach\<close> no list of the registry has it any more.\<close>

theorem object_register_find:
  assumes "sched_inv s" and "live s" and "irq_nest s = 0" and "rt_object_get_information type = Some i"
    and "x \<notin> set (containers s i)" and "rt_strncpy name RT_NAME_MAX = Some nm"
  shows "\<exists>s' u. rt_object_init x type name s = Some s' \<and>
     rt_object_get_type x s' = type \<and> rt_object_is_systemobject x s' \<and>
     rt_object_get_length type s' = Suc (rt_object_get_length type s) \<and>
     rt_object_get_pointers type n s' = take (nat n) (x # containers s i) \<and>
     rt_object_find (Some name) type s' = Some (Some x, u) \<and>
     (\<forall>j. x \<notin> set (containers (rt_object_detach x s') j))"
proof -
  obtain u where u: "rt_object_init x type name s = Some (registered x type i nm u)" "same_but_running s u" "live u"
    using object_init_registered [OF assms(1,2,4-6)] by blast
  let ?s = "registered x type i nm u"
  note f = same_but_running_fields [OF u(2)]
  have "sched_inv ?s = sched_inv s" by (rule sched_inv_cong) (simp_all add: registered_def f)
  moreover have "live ?s" using u(3) by (simp add: registered_def live_def)
  moreover have "find_named (objects ?s) name (containers ?s i) = Some (Some x)"
    using rt_strncmp_strncpy [OF assms(6)] by (simp add: registered_def)
  ultimately obtain v where "rt_object_find (Some name) type ?s = Some (Some x, v)"
    using object_find_first [of ?s type i name "Some x"] assms(1,3,4) f by (auto simp: registered_def)
  moreover have "rt_object_get_type x ?s = type" "rt_object_is_systemobject x ?s"
    using class_bits [OF assms(4)] by (simp_all add: registered_def rt_object_get_type_def rt_object_is_systemobject_def)
  moreover have "rt_object_get_pointers type n ?s = take (nat n) (x # containers s i)"
    using assms(4) f by (simp add: rt_object_get_pointers_take registered_def)
  ultimately show ?thesis
    using u(1) assms(4) f by (auto simp: rt_object_get_length_eq rt_object_detach_def object_unlink_def registered_def)
qed

theorem object_register_find_witness:
  "\<exists>s' u. rt_object_init (Obj 40) 2 [115, 0] sample = Some s' \<and>
     rt_object_get_type (Obj 40) s' = 2 \<and> rt_object_is_systemobject (Obj 40) s' \<and>
     rt_object_get_length 2 s' = Suc (rt_object_get_length 2 sample) \<and>
     rt_object_get_pointers 2 7 s' = take (nat 7) (Obj 40 # containers sample 1) \<and>
     rt_object_find (Some [115, 0]) 2 s' = Some (Some (Obj 40), u) \<and>
     (\<forall>j. Obj 40 \<notin> set (containers (rt_object_detach (Obj 40) s') j))"
proof (rule object_register_find)
  show "rt_strncpy [115, 0] RT_NAME_MAX = Some (115 # replicate 15 0)" by (simp add: numeral_eq_Suc)
  show "rt_object_get_information 2 = Some 1" by (simp add: rt_object_get_information_def rt_object_container_def)
  show "Obj 40 \<notin> set (containers sample 1)" by (simp add: sample_def sample_ready_def resumed_def sample_base_def)
qed (use kinvD(1) [OF sample_kinv] sample_live sample_fields in simp_all)

subsection \<open>Changes of objects and threads that are not in use\<close>

definition unlisted :: "oref \<Rightarrow> kernel \<Rightarrow> bool" where
  "unlisted x s = (x \<notin> set (timer_list s) \<union> set (soft_timer_list s))"

definition unused :: "nat \<Rightarrow> kernel \<Rightarrow> bool" where
  "unused t s = (\<not> started s t \<and> on_list s t = None \<and> unlisted (Obj t) s \<and> unlisted (TTimer t) s)"

lemma unused_cong:
  "\<lbrakk>stat (threads s' t) = stat (threads s t); on_list s' = on_list s; timer_list s' = timer_list s;
    soft_timer_list s' = soft_timer_list s\<rbrakk> \<Longrightarrow> unused t s' = unused t s"
  by (simp add: unused_def unlisted_def started_def)

lemma unlisted_upd_object [simp]: "unlisted y (upd_object x f s) = unlisted y s"
  by (simp add: unlisted_def)

lemma get_type_upd_object [simp]:
  "y \<noteq> x \<Longrightarrow> rt_object_get_type y (upd_object x f s) = rt_object_get_type y s"
  "Obj t \<noteq> x \<Longrightarrow> is_thread t (upd_object x f s) = is_thread t s"
  by (simp_all add: rt_object_get_type_def is_thread_def)

lemma kinv_upd_object:
  assumes "kinv s" and "x = Obj t \<or> x = TTimer t" and "\<not> started s t" and "unlisted x s"
  shows "kinv (upd_object x f s)"
proof -
  have "types_ok (upd_object x f s)"
    using kinvD(2) [OF assms(1)] assms(2,3) by (auto simp: types_ok_def started_def rt_object_get_type_def is_thread_def)
  moreover have "timers_ok (upd_object x f s)"
    using kinvD(3) [OF assms(1)] assms(4) unfolding timers_ok_def unlisted_def
    by (auto simp: rt_object_get_type_def)
  moreover have "sched_inv (upd_object x f s) = sched_inv s" by (rule sched_inv_cong) simp_all
  ultimately show ?thesis using assms(1) by (simp add: kinv_def waits_ok_def)
qed

lemma kinv_upd_idle_timer:
  assumes "kinv s" and "x = Obj t \<or> x = TTimer t" and "\<not> started s t" and "unlisted x s"
  shows "kinv (upd_timer x f s)"
proof -
  have "types_ok (upd_timer x f s)"
    using kinvD(2) [OF assms(1)] assms(2,3)
    by (auto simp: types_ok_def started_def upd_timer_def rt_object_get_type_def is_thread_def)
  moreover have "timers_ok (upd_timer x f s)"
    using kinvD(3) [OF assms(1)] assms(4) unfolding timers_ok_def unlisted_def
    by (auto simp: upd_timer_def rt_object_get_type_def)
  moreover have "sched_inv (upd_timer x f s) = sched_inv s" by (rule sched_inv_cong) (simp_all add: upd_timer_def)
  ultimately show ?thesis using assms(1) by (simp add: kinv_def waits_ok_def upd_timer_def)
qed

lemma kinv_attach [simp]: "kinv (object_attach i x s) = kinv s"
  by (rule kinv_cong) simp_all

lemmas get_type_upd_thread = get_type_cong [OF upd_thread_fields(4)]

lemma kinv_idle_thread:
  assumes K: "kinv s" and t: "\<not> started s t" and f: "stat (f (threads s t)) AND 7 = 0 \<or> stat (f (threads s t)) AND 7 = 4"
  shows "kinv (upd_thread t f s)"
proof -
  have on: "on_list s t \<noteq> Some (ReadyQ p)" for p
    using kinvD(7) [OF K] t by (auto simp: ready_ok_def ready_one_def started_def)
  have w: "on_list s t = Some h \<Longrightarrow> h = DefunctQ" for h
    using kinvD(4) [OF K] t on by (auto simp: waits_ok_def started_def)
  have "ready_ok (upd_thread t f s)"
    using kinvD(7) [OF K] on f by (auto simp: ready_ok_def ready_one_def)
  then have "sched_inv (upd_thread t f s)"
    using kinvD(5,6) [OF K] by (simp add: sched_inv_def queues_ok_def bitmap_ok_def)
  moreover have "types_ok (upd_thread t f s)"
    using kinvD(2) [OF K] f by (auto simp: types_ok_def get_type_upd_thread)
  moreover have "timers_ok (upd_thread t f s)"
    using kinvD(3) [OF K] t by (auto simp: timers_ok_def get_type_upd_thread started_def)
  moreover have "waits_ok (upd_thread t f s)"
    using kinvD(4) [OF K] f w by (auto simp: waits_ok_def)
  ultimately show ?thesis by (simp add: kinv_def)
qed

text \<open>A thread with a registered structure and timer, ready to be started.\<close>

definition initialised :: "nat \<Rightarrow> kernel \<Rightarrow> bool" where
  "initialised t s = (unused t s \<and> tstat s t = RT_THREAD_INIT \<and> is_thread t s \<and>
     rt_object_get_type (TTimer t) s = RT_Object_Class_Timer \<and> tm_func (timers s (TTimer t)) = Thread_Timeout t \<and>
     timer_flag s (TTimer t) AND RT_TIMER_FLAG_PERIODIC = 0 \<and> timer_flag s (TTimer t) AND RT_TIMER_FLAG_SOFT_TIMER = 0 \<and>
     stack_ok (threads s t))"

definition born :: "nat \<Rightarrow> kernel \<Rightarrow> kernel" where
  "born t s = upd_thread t (\<lambda>th. (set_priority (init_priority th) th)\<lparr>stat := RT_THREAD_SUSPEND\<rparr>) s"

lemma kinv_born:
  assumes K: "kinv s" and t: "initialised t s"
  shows "kinv (born t s)"
proof -
  have on: "on_list s t = None" using t by (simp add: initialised_def unused_def)
  have m: "masks_ok ((set_priority p th)\<lparr>stat := q\<rparr>)" for p th q by (simp add: masks_ok_def set_priority_def)
  have "ready_ok (born t s)" using kinvD(7) [OF K] on m by (auto simp: ready_ok_def ready_one_def born_def)
  then have "sched_inv (born t s)"
    using kinvD(5,6) [OF K] by (simp add: sched_inv_def queues_ok_def bitmap_ok_def born_def)
  moreover have "types_ok (born t s)"
    using kinvD(2) [OF K] t by (auto simp: types_ok_def get_type_upd_thread born_def initialised_def)
  moreover have "timers_ok (born t s)" using kinvD(3) [OF K] by (auto simp: timers_ok_def get_type_upd_thread born_def)
  moreover have "waits_ok (born t s)" using kinvD(4) [OF K] on by (auto simp: waits_ok_def born_def)
  ultimately show ?thesis by (simp add: kinv_def)
qed

subsection \<open>The start of a thread\<close>

lemma born_facts:
  assumes "initialised t s"
  shows "tstat (born t s) t = RT_THREAD_SUSPEND" "stack_ok (threads (born t s) t)"
    "threads (born t s) = (threads s)(t := (set_priority (init_priority (threads s t)) (threads s t))\<lparr>stat := RT_THREAD_SUSPEND\<rparr>)"
    "cur_thread (born t s) = cur_thread s" "lock_nest (born t s) = lock_nest s"
  using assms by (simp_all add: born_def initialised_def stack_ok_def stack_check_def set_priority_def)

lemma live_born: "\<lbrakk>live s; initialised t s\<rbrakk> \<Longrightarrow> live (born t s)"
  using born_facts(2) [of t s]
  by (auto simp: live_def born_def initialised_def unused_def started_def)

lemma startup_ready:
  assumes K: "kinv s" and L: "live s" and t: "initialised t s"
  shows "\<exists>s'. rt_thread_startup t s = Some (RT_EOK, s') \<and> kinv s' \<and> live s' \<and> switched s s' \<and>
     threads s' = threads (resumed t (born t s))"
proof -
  let ?b = "born t s"
  have st: "tstat ?b t = RT_THREAD_SUSPEND" by (rule born_facts(1) [OF t])
  have b: "kinv (resumed t ?b)" "live (resumed t ?b)"
    by (rule kinv_resumed [OF kinv_born [OF K t] st]) (rule live_resumed [OF live_born [OF L t]], use st in simp)
  obtain s' where s': "rt_schedule (resumed t ?b) = Some s'" "kinv s'" "live s'" "switched (resumed t ?b) s'"
    using schedule_switched [OF b] by blast
  have "rt_thread_startup t s = Some (RT_EOK, s')"
    unfolding rt_thread_startup_def
    using t L s'(1) rt_thread_resume_eq [OF kinv_born [OF K t] st] born_facts(4) [OF t]
    by (simp add: initialised_def live_def born_def [symmetric])
  moreover have "switched s s'" using s'(4) unfolding switched_def resumed_fields born_facts(4,5) [OF t] .
  ultimately show ?thesis using s' rt_schedule_fields(1) [OF s'(1)] by auto
qed

lemma strncpy_some: "n \<le> length src \<Longrightarrow> \<exists>bs. rt_strncpy src n = Some bs"
  by (induction src n rule: rt_strncpy.induct) auto

definition frame_fits :: "u32 \<Rightarrow> u32 \<Rightarrow> bool" where
  "frame_fits start sz = (start \<noteq> 0 \<and> start < rt_hw_stack_init (start + sz - 4) \<and>
     rt_hw_stack_init (start + sz - 4) < start + sz)"

text \<open>The memory for the lock of a thread: none, or an address not in use.\<close>

definition lock_memory :: "nat option \<Rightarrow> nat \<Rightarrow> kernel \<Rightarrow> bool" where
  "lock_memory mem t s = (case mem of None \<Rightarrow> True
     | Some a \<Rightarrow> a \<noteq> t \<and> unused a s \<and> tlists s (SemQ a) = [])"

text \<open>The lists and the clock are the same in two kernels.\<close>

definition same_lists :: "kernel \<Rightarrow> kernel \<Rightarrow> bool" where
  "same_lists s u = (tlists u = tlists s \<and> on_list u = on_list s \<and> timer_list u = timer_list s \<and>
     soft_timer_list u = soft_timer_list s \<and> irq_nest u = irq_nest s)"

lemma same_lists_trans: "\<lbrakk>same_lists s u; same_lists u v\<rbrakk> \<Longrightarrow> same_lists s v"
  by (simp add: same_lists_def)

lemma object_init_calm:
  assumes K: "kinv s" and L: "live s" and x: "x = Obj t \<or> x = TTimer t" "\<not> started s t" "unlisted x s"
    and ty: "rt_object_get_information type = Some i" and new: "x \<notin> set (containers s i)"
    and nm: "rt_strncpy name RT_NAME_MAX = Some nm"
  shows "\<exists>u. rt_object_init x type name s = Some u \<and> kinv u \<and> live u \<and> same_lists s u \<and> threads u = threads s \<and>
     timers u = timers s \<and> objects u = (objects s)(x := (objects s x)\<lparr>obj_type := type OR RT_Object_Class_Static, obj_name := nm\<rparr>) \<and>
     containers u = (containers s)(i := x # containers s i)"
proof -
  obtain v where v: "rt_object_init x type name s = Some (registered x type i nm v)" "same_but_running s v" "live v"
    using object_init_registered [OF kinvD(1) [OF K] L ty new nm] by blast
  note f = same_but_running_fields [OF v(2)]
  have "kinv v" using K same_but_running_inv(2) [OF v(2)] by simp
  then have "kinv (registered x type i nm v)"
    unfolding registered_def kinv_attach
    by (rule kinv_upd_object [OF _ x(1)]) (use x f in \<open>simp_all add: started_def unlisted_def\<close>)
  moreover have "live (registered x type i nm v)" using v(3) by (simp add: registered_def live_def)
  ultimately show ?thesis using v(1) f by (simp add: registered_def same_lists_def)
qed

lemma sem_create_calm:
  assumes K: "kinv s" and L: "live s" and i: "irq_nest s = 0" and m: "lock_memory mem t s"
    and nm: "rt_strncpy name RT_NAME_MAX = Some nm"
  shows "\<exists>u. rt_sem_create name 0 0 mem s = Some (mem, u) \<and> kinv u \<and> live u \<and> same_lists s u \<and>
     (\<forall>v. threads u v = (if Some v = mem then zero_thread else threads s v)) \<and> timers u = timers s \<and>
     (\<forall>y. (\<forall>a. mem = Some a \<longrightarrow> y \<noteq> Obj a) \<longrightarrow> objects u y = objects s y) \<and>
     (\<forall>j. j \<noteq> 1 \<longrightarrow> containers u j = containers s j)"
proof (cases mem)
  case None
  then show ?thesis
    using K L i by (simp add: rt_sem_create_def rt_object_allocate_def not_in_interrupt_def same_lists_def
        rt_object_get_information_def rt_object_container_def)
next
  case (Some a)
  have a: "unused a s" "tlists s (SemQ a) = []" using m Some by (auto simp: lock_memory_def)
  let ?z = "upd_thread a (\<lambda>_. zero_thread) s"
  let ?o = "upd_object (Obj a) (\<lambda>_. \<lparr>obj_name = nm, obj_type = 2, obj_flag = 0\<rparr>) ?z"
  have z: "kinv ?z" by (rule kinv_idle_thread [OF K]) (use a in \<open>simp_all add: unused_def\<close>)
  have o: "kinv ?o" by (rule kinv_upd_object [OF z, of _ a]) (use a in \<open>simp_all add: unused_def started_def unlisted_def\<close>)
  define u where "u = set_flag a 0 (upd_sem a (\<lambda>_. ucast (0 :: u32)) (rt_ipc_object_init (SemQ a)
     (object_attach 1 (Obj a) (upd_object (Obj a) (\<lambda>_. \<lparr>obj_name = nm, obj_type = 2, obj_flag = 0\<rparr>) (clear_struct a s)))))"
  note ud = u_def set_flag_def upd_sem_def rt_ipc_object_init_def clear_struct_def object_attach_def upd_object_def upd_thread_def
  have l: "(tlists s)(SemQ a := []) = tlists s" using a(2) by (simp add: fun_upd_idem)
  have "kinv u = kinv ?o" by (rule kinv_cong) (simp_all add: ud l)
  moreover have "live u" using L a by (auto simp: ud live_def unused_def started_def)
  moreover have "rt_sem_create name 0 0 mem s = Some (mem, u)"
    using i nm Some by (simp add: u_def rt_sem_create_def rt_object_allocate_def not_in_interrupt_def
        rt_object_get_information_def rt_object_container_def)
  moreover have "same_lists s u" by (simp add: same_lists_def ud l)
  moreover have "timers u = timers s" "\<forall>v. threads u v = (if Some v = mem then zero_thread else threads s v)"
    "\<forall>y. (\<forall>a. mem = Some a \<longrightarrow> y \<noteq> Obj a) \<longrightarrow> objects u y = objects s y"
    "\<forall>j. j \<noteq> 1 \<longrightarrow> containers u j = containers s j"
    using Some by (simp_all add: ud)
  ultimately show ?thesis using o by auto
qed

lemma timer_init_calm:
  assumes K: "kinv s" and L: "live s" and t: "\<not> started s t" "unlisted (TTimer t) s"
    and new: "TTimer t \<notin> set (containers s 9)" and nm: "RT_NAME_MAX \<le> length name"
  shows "\<exists>u. rt_timer_init (TTimer t) name (Thread_Timeout t) 0 0 s = Some u \<and> kinv u \<and> live u \<and> same_lists s u \<and>
     threads u = threads s \<and> (\<forall>a. objects u (Obj a) = objects s (Obj a)) \<and>
     rt_object_get_type (TTimer t) u = RT_Object_Class_Timer \<and> tm_func (timers u (TTimer t)) = Thread_Timeout t \<and>
     timer_flag u (TTimer t) = 0"
proof -
  obtain nm where nm: "rt_strncpy name RT_NAME_MAX = Some nm" using strncpy_some [OF nm] by blast
  have ty: "rt_object_get_information RT_Object_Class_Timer = Some 9"
    by (simp add: rt_object_get_information_def rt_object_container_def)
  obtain v where v: "rt_object_init (TTimer t) RT_Object_Class_Timer name s = Some v" "kinv v" "live v" "same_lists s v"
    "threads v = threads s" "objects v = (objects s)(TTimer t := (objects s (TTimer t))\<lparr>obj_type := 0x8A, obj_name := nm\<rparr>)"
    using object_init_calm [OF K L _ t ty new nm] by auto
  define u where "u = timer_init_fields (TTimer t) (Thread_Timeout t) 0 0 v"
  have n: "\<not> started v t" "unlisted (TTimer t) v" using t v(4,5) by (simp_all add: started_def unlisted_def same_lists_def)
  have "kinv u" unfolding u_def timer_init_fields_def
    by (rule kinv_upd_idle_timer [OF kinv_upd_object [OF v(2)], of _ t]) (use n in \<open>auto simp: started_def\<close>)
  moreover have "live u" using v(3) by (simp add: u_def timer_init_fields_def upd_timer_def live_def)
  moreover have "rt_timer_init (TTimer t) name (Thread_Timeout t) 0 0 s = Some u" using v(1) by (simp add: rt_timer_init_def u_def)
  ultimately show ?thesis
    using v(4-6) by (simp add: u_def timer_init_fields_def upd_timer_def same_lists_def rt_object_get_type_def)
qed

lemma thread_fields_calm:
  assumes K: "kinv s" and L: "live s" and i: "irq_nest s = 0" and t: "unused t s" and th: "is_thread t s"
    and new: "TTimer t \<notin> set (containers s 9)" and nm: "rt_strncpy name RT_NAME_MAX = Some nm"
    and len: "RT_NAME_MAX \<le> length (obj_name (objects s (Obj t)))" and m: "lock_memory mem t s" and st: "frame_fits start sz"
  shows "\<exists>u. thread_init_fields t name start sz pr ticks mem s = Some (RT_EOK, u) \<and> kinv u \<and> live u \<and> initialised t u \<and>
     same_lists s u \<and> init_priority (threads u t) = pr \<and> 
     (\<forall>v. v \<noteq> t \<longrightarrow> threads u v = (if Some v = mem then zero_thread else threads s v))"
proof -
  have t0: "\<not> started s t" "on_list s t = None" "unlisted (Obj t) s" "unlisted (TTimer t) s" and mt: "mem \<noteq> Some t"
    using t m by (auto simp: unused_def lock_memory_def)
  have on: "s\<lparr>on_list := (on_list s)(t := None)\<rparr> = s" using t0(2) by (simp add: fun_upd_idem)
  define sp0 where "sp0 = rt_hw_stack_init (start + sz - 4)"
  define f :: "rt_thread \<Rightarrow> rt_thread" where "f th = th\<lparr>stack_addr := start, stack_size := sz, stack_guard := 35,
        sp := sp0, init_priority := pr, current_priority := pr, number_mask := 0,
        number := 0, high_mask := 0, th_init_tick := ticks, remaining_tick := ticks,
        th_error := RT_EOK, stat := RT_THREAD_INIT, cleanup := False\<rparr>" for th
  let ?s3 = "upd_thread t f s"
  have s3: "kinv ?s3" "live ?s3" "irq_nest ?s3 = 0" "lock_memory mem t ?s3"
    using kinv_idle_thread [OF K, of t f] L t0(1) i m
    by (auto simp: started_def f_def live_def lock_memory_def unused_def unlisted_def split: option.splits)
  obtain s4 where s4: "rt_sem_create name 0 0 mem ?s3 = Some (mem, s4)" "kinv s4" "live s4" "same_lists ?s3 s4"
    "\<forall>v. threads s4 v = (if Some v = mem then zero_thread else threads ?s3 v)" "\<forall>y. (\<forall>a. mem = Some a \<longrightarrow> y \<noteq> Obj a) \<longrightarrow> objects s4 y = objects ?s3 y"
    "\<forall>j. j \<noteq> 1 \<longrightarrow> containers s4 j = containers ?s3 j"
    using sem_create_calm [OF s3 nm] by blast
  have t4: "threads s4 t = f (threads s t)" "objects s4 (Obj t) = objects s (Obj t)" "containers s4 9 = containers s 9"
    using s4(5-7) mt by auto
  let ?s5 = "upd_thread t (\<lambda>th. th\<lparr>th_lock := mem\<rparr>) s4"
  have l5: "same_lists s ?s5" using s4(4) by (simp add: same_lists_def)
  have s5: "kinv ?s5" "live ?s5" "\<not> started ?s5 t" "unlisted (TTimer t) ?s5" "TTimer t \<notin> set (containers ?s5 9)"
    "RT_NAME_MAX \<le> length (obj_name (objects ?s5 (Obj t)))"
    using kinv_idle_thread [OF s4(2), of t "\<lambda>th. th\<lparr>th_lock := mem\<rparr>"]
      live_upd_thread [OF s4(3), of "\<lambda>th. th\<lparr>th_lock := mem\<rparr>" t] t4 l5 t0 new len
    by (auto simp: started_def f_def stack_ok_def stack_check_def same_lists_def unlisted_def)
  obtain u where u: "rt_timer_init (TTimer t) (obj_name (objects ?s5 (Obj t))) (Thread_Timeout t) 0 0 ?s5 = Some u" "kinv u" "live u"
    "same_lists ?s5 u" "threads u = threads ?s5" "\<forall>a. objects u (Obj a) = objects ?s5 (Obj a)"
    "rt_object_get_type (TTimer t) u = RT_Object_Class_Timer" "tm_func (timers u (TTimer t)) = Thread_Timeout t" "timer_flag u (TTimer t) = 0"
    using timer_init_calm [OF s5] by blast
  have l: "same_lists s u" by (rule same_lists_trans [OF l5 u(4)])
  have "thread_init_fields t name start sz pr ticks mem s = Some (RT_EOK, u)"
    using st s4(1) u(1) unfolding thread_init_fields_def
    by (simp add: on frame_fits_def sp0_def [symmetric] f_def [abs_def])
  moreover have "stack_ok (threads u t)"
    using st t4(1) unfolding u(5) by (auto simp: stack_ok_def stack_check_def frame_fits_def f_def sp0_def)
  moreover from this have "initialised t u"
    using l t0 t4 th u(5-9)
    by (simp add: initialised_def unused_def unlisted_def same_lists_def started_def f_def is_thread_def rt_object_get_type_def)
  ultimately show ?thesis using u(2,3,5) l t4 s4(5) by (auto simp: f_def)
qed

lemma thread_init_calm:
  assumes K: "kinv s" and L: "live s" and i: "irq_nest s = 0" and t: "unused t s"
    and new: "Obj t \<notin> set (containers s 0)" "TTimer t \<notin> set (containers s 9)"
    and nm: "rt_strncpy name RT_NAME_MAX = Some nm" and m: "lock_memory mem t s" and st: "frame_fits start sz"
  shows "\<exists>u. rt_thread_init t name start sz pr ticks mem s = Some (RT_EOK, u) \<and> kinv u \<and> live u \<and> initialised t u \<and>
     same_lists s u \<and> init_priority (threads u t) = pr \<and> 
     (\<forall>v. v \<noteq> t \<longrightarrow> threads u v = (if Some v = mem then zero_thread else threads s v))"
proof -
  have ty: "rt_object_get_information RT_Object_Class_Thread = Some 0"
    by (simp add: rt_object_get_information_def rt_object_container_def)
  have t0: "\<not> started s t" "unlisted (Obj t) s" using t by (auto simp: unused_def)
  obtain s1 where s1: "rt_object_init (Obj t) RT_Object_Class_Thread name s = Some s1" "kinv s1" "live s1" "same_lists s s1"
    "threads s1 = threads s" "objects s1 (Obj t) = (objects s (Obj t))\<lparr>obj_type := 0x81, obj_name := nm\<rparr>"
    "containers s1 = (containers s)(0 := Obj t # containers s 0)"
    using object_init_calm [OF K L _ t0 ty new(1) nm] by auto
  have "irq_nest s1 = 0" "unused t s1" "is_thread t s1" "TTimer t \<notin> set (containers s1 9)"
    "RT_NAME_MAX \<le> length (obj_name (objects s1 (Obj t)))" "lock_memory mem t s1"
    using s1(4-7) i t new(2) m rt_strncpy_length [OF nm]
    by (auto simp: same_lists_def unused_def unlisted_def started_def is_thread_def rt_object_get_type_def lock_memory_def
        split: option.splits)
  from thread_fields_calm [OF s1(2,3) this(1-4) nm this(5,6) st, of pr ticks] obtain u where
    u: "thread_init_fields t name start sz pr ticks mem s1 = Some (RT_EOK, u)" "kinv u" "live u" "initialised t u"
    "same_lists s1 u" "init_priority (threads u t) = pr" "\<forall>v. v \<noteq> t \<longrightarrow> threads u v = (if Some v = mem then zero_thread else threads s1 v)"
    by blast
  then show ?thesis using s1(1,5) st same_lists_trans [OF s1(4) u(5)] by (simp add: rt_thread_init_def frame_fits_def)
qed

text \<open>C33: A thread that is initialised and started takes part in the scheduling. On a running kernel
  \<^verbatim>\<open>rt_thread_init\<close> with a new structure, a stack large enough for the first frame and a readable
  name succeeds and leaves the thread in the state \<^verbatim>\<open>RT_THREAD_INIT\<close>; \<^verbatim>\<open>rt_thread_startup\<close> then
  succeeds and makes it ready at the priority it was given, and if the scheduler is not locked and
  that priority is better than all ready threads', the new thread runs at once. The kernel
  invariant holds after both calls, and no other thread changes.\<close>

theorem thread_init_startup:
  assumes "kinv s" and "live s" and "irq_nest s = 0" and "unused t s"
    and "Obj t \<notin> set (containers s 0)" and "TTimer t \<notin> set (containers s 9)"
    and "rt_strncpy name RT_NAME_MAX = Some nm" and "lock_memory mem t s" and "frame_fits start sz"
  shows "\<exists>s1 s2. rt_thread_init t name start sz pr ticks mem s = Some (RT_EOK, s1) \<and> kinv s1 \<and> tstat s1 t = RT_THREAD_INIT \<and>
     rt_thread_startup t s1 = Some (RT_EOK, s2) \<and> kinv s2 \<and> live s2 \<and>
     tstat s2 t = RT_THREAD_READY \<and> on_list s2 t = Some (ReadyQ (unat pr)) \<and>
     (\<forall>v. v \<noteq> t \<and> Some v \<noteq> mem \<longrightarrow> threads s2 v = threads s v) \<and>
     (lock_nest s1 = 0 \<and> (\<forall>v. tstat s v = RT_THREAD_READY \<longrightarrow> pr < current_priority (threads s v)) \<longrightarrow> cur_thread s2 = Some t)"
proof -
  obtain s1 where s1: "rt_thread_init t name start sz pr ticks mem s = Some (RT_EOK, s1)" "kinv s1" "live s1" "initialised t s1"
    "init_priority (threads s1 t) = pr" "\<forall>v. v \<noteq> t \<longrightarrow> threads s1 v = (if Some v = mem then zero_thread else threads s v)"
    using thread_init_calm [OF assms, of pr ticks] by blast
  obtain s2 where s2: "rt_thread_startup t s1 = Some (RT_EOK, s2)" "kinv s2" "live s2" "switched s1 s2"
    "threads s2 = threads (resumed t (born t s1))"
    using startup_ready [OF s1(2-4)] by blast
  have r: "tstat s2 t = RT_THREAD_READY" "current_priority (threads s2 t) = pr"
    using s1(5) by (simp_all add: s2(5) born_def set_priority_def)
  then have on: "on_list s2 t = Some (ReadyQ (unat pr))"
    using kinvD(7) [OF s2(2)] by (auto simp: ready_ok_def ready_one_def)
  have o: "\<forall>v. v \<noteq> t \<and> Some v \<noteq> mem \<longrightarrow> threads s2 v = threads s v" using s1(6) by (auto simp: s2(5) born_def)
  have "cur_thread s2 = Some t" if l: "lock_nest s1 = 0"
    and b: "\<forall>v. tstat s v = RT_THREAD_READY \<longrightarrow> pr < current_priority (threads s v)"
  proof -
    obtain v where v: "cur_thread s2 = Some v" "top_ready s2 v" using s2(4) l by (auto simp: switched_def)
    have "v = t"
    proof (rule ccontr)
      assume n: "v \<noteq> t"
      then have "threads s2 v = threads s v"
        using v(2) s1(6) by (auto simp: s2(5) born_def top_ready_def zero_thread_def split: if_splits)
      then have "pr < current_priority (threads s2 v)" using v(2) b by (simp add: top_ready_def)
      moreover have "prio s2 v \<le> prio s2 t" using v(2) r(1) by (simp add: top_ready_def)
      ultimately show False using r(2) by (simp add: word_less_nat_alt)
    qed
    then show ?thesis using v(1) by simp
  qed
  then show ?thesis using s1 s2 r(1) on o by (auto simp: initialised_def)
qed

theorem thread_init_startup_witness:
  "\<exists>s1 s2. rt_thread_init 5 [116, 0] 0x4000 0x400 4 10 (Some 6) sample = Some (RT_EOK, s1) \<and> kinv s1 \<and>
     tstat s1 5 = RT_THREAD_INIT \<and> rt_thread_startup 5 s1 = Some (RT_EOK, s2) \<and> kinv s2 \<and> live s2 \<and>
     tstat s2 5 = RT_THREAD_READY \<and> on_list s2 5 = Some (ReadyQ (unat (4 :: u8))) \<and>
     (\<forall>v. v \<noteq> 5 \<and> Some v \<noteq> Some 6 \<longrightarrow> threads s2 v = threads sample v) \<and>
     (lock_nest s1 = 0 \<and> (\<forall>v. tstat sample v = RT_THREAD_READY \<longrightarrow> 4 < current_priority (threads sample v)) \<longrightarrow>
        cur_thread s2 = Some 5)"
proof (rule thread_init_startup)
  show "rt_strncpy [116, 0] RT_NAME_MAX = Some (116 # replicate 15 0)" by (simp add: numeral_eq_Suc)
  have c: "containers sample = (\<lambda>_. [])" by (simp add: sample_def sample_ready_def resumed_def sample_base_def)
  show "Obj 5 \<notin> set (containers sample 0)" "TTimer 5 \<notin> set (containers sample 9)" by (simp_all add: c)
  have "threads sample 5 = zero_thread" "threads sample 6 = zero_thread" "on_list sample 5 = None" "on_list sample 6 = None"
    by (simp_all add: sample_def sample_ready_def sample_base_def)
  then show "unused 5 sample" "lock_memory (Some 6) 5 sample"
    using sample_ipc_lists [of "SemQ 6"] by (simp_all add: unused_def unlisted_def lock_memory_def started_def ipc_head_def)
  show "frame_fits 0x4000 0x400" by (simp add: frame_fits_def rt_hw_stack_init_def)
qed (use sample_kinv sample_live sample_fields in simp_all)

end
