(* ===== verification/Memheap_Correct.thy ===== *)
theory Memheap_Correct
  imports Memheap_Release Life_Correct
begin

unbundle bit_operations_syntax

text \<open>
  The memory heap as an allocator: what initialisation, allocation, release and reallocation do to the
  blocks in use and to their contents.
\<close>

subsection \<open>Rounding\<close>

lemma unat_and_not_3: "unat ((w :: u32) AND - 4) = 4 * (unat w div 4)"
proof -
  have e: "(- 4 :: u32) = NOT (mask 2)" by (simp add: mask_eq_exp_minus_1)
  have "w AND - 4 = push_bit 2 (drop_bit 2 w)" unfolding e
  proof (rule bit_eqI)
    fix n show "bit (w AND NOT (mask 2)) n = bit (push_bit 2 (drop_bit 2 w)) n"
      by (cases "2 \<le> n") (auto simp: bit_simps dest!: le_Suc_ex)
  qed
  moreover have "unat (push_bit 2 (drop_bit 2 w)) = 4 * (unat w div 4)"
    using u32_bound [of w]
    by (simp add: push_bit_eq_mult drop_bit_eq_div unat_word_ariths unat_div)
  ultimately show ?thesis by simp
qed

definition round4 :: "nat \<Rightarrow> nat" where
  "round4 n = 4 * ((n + 3) div 4)"

lemma round4: "n \<le> round4 n" "4 dvd round4 n" "round4 n < n + 4" "4 dvd m \<Longrightarrow> n \<le> m \<Longrightarrow> round4 n \<le> m" "4 dvd n \<Longrightarrow> round4 n = n"
  unfolding round4_def by presburger+

lemma request_size_unat:
  assumes "unat sz \<le> 2 ^ 32 - 4"
  shows "unat (request_size sz) = max 12 (round4 (unat sz))"
proof -
  have "unat (sz + 3) = unat sz + 3" using assms by (simp add: unat_word_ariths)
  then have "unat (RT_ALIGN4 sz) = round4 (unat sz)"
    by (simp add: RT_ALIGN4_def round4_def unat_and_not_3 add.commute)
  then show ?thesis by (auto simp: request_size_def Let_def word_less_nat_alt)
qed

subsection \<open>Initialisation\<close>

text \<open>The pool that the heap may be laid over: aligned, not at address 0, large enough for one block
  and two headers, within the address space and apart from the header of the free list.\<close>

definition pool_ok :: "u32 \<Rightarrow> u32 \<Rightarrow> rt_memheap \<Rightarrow> bool" where
  "pool_ok start sz H = (start \<noteq> 0 \<and> 4 dvd unat start \<and> 60 \<le> unat sz \<and> unat start + unat sz \<le> 2 ^ 32 \<and>
     (unat (free_header H) + 24 \<le> unat start \<or> unat start + unat sz \<le> unat (free_header H)))"

lemma memheap_build_ok:
  assumes P: "pool_ok start sz H"
  defines "n \<equiv> 4 * (unat sz div 4)" and "H' \<equiv> memheap_build start sz H"
  shows "\<exists>t. heap_ok H' [start] t [start] \<and> in_use H' [start] = {} \<and> bsize H' start = n - 48 \<and> unat (pool_size H') = n"
proof -
  define ps where "ps = (sz AND - 4)"
  define t where "t = start + (ps - 48) + 24"
  have un: "unat ps = n" by (simp add: ps_def n_def unat_and_not_3)
  have n: "60 \<le> n" "n \<le> unat sz" "4 dvd n" using P by (auto simp: n_def pool_ok_def)
  have us: "unat (ps - 48) = n - 48" using n un by (simp add: unat_sub word_le_nat_alt)
  have b: "unat start + n \<le> 2 ^ 32" using P n by (simp add: pool_ok_def)
  have ut: "unat t = unat start + n - 24"
  proof -
    obtain w where w: "ps - 48 = w" by simp
    show ?thesis unfolding t_def w using us [unfolded w] b n(1) by (simp add: unat_word_ariths)
  qed
  let ?f = "free_header H"
  have d: "t \<noteq> start" "?f \<noteq> start" "t \<noteq> ?f" using P n ut by (auto simp: pool_ok_def)
  have H': "items H' start = \<lparr>magic = RT_MEMHEAP_MAGIC, pool_ptr = Some (heap_obj H), mi_next = t, mi_prev = t, next_free = ?f, prev_free = ?f\<rparr>"
    "items H' t = \<lparr>magic = RT_MEMHEAP_MAGIC OR RT_MEMHEAP_USED, pool_ptr = Some (heap_obj H), mi_next = start, mi_prev = start, next_free = 0, prev_free = 0\<rparr>"
    "next_free (items H' ?f) = start" "prev_free (items H' ?f) = start"
    "free_list H' = ?f" "start_addr H' = start" "pool_size H' = ps" "available_size H' = ps - 48" "heap_obj H' = heap_obj H"
  proof -
    define G where "G = H\<lparr>start_addr := start, pool_size := ps, available_size := ps - 48, max_used_size := ps - (ps - 48)\<rparr>"
    have "H' = upd_item t (\<lambda>_. \<lparr>magic = RT_MEMHEAP_MAGIC OR RT_MEMHEAP_USED, pool_ptr = Some (heap_obj H), mi_next = start, mi_prev = start, next_free = 0, prev_free = 0\<rparr>)
       (free_insert start ((upd_item start (\<lambda>_. \<lparr>magic = RT_MEMHEAP_MAGIC, pool_ptr = Some (heap_obj H), mi_next = t, mi_prev = t, next_free = start, prev_free = start\<rparr>)
         ((upd_item ?f (\<lambda>_. \<lparr>magic = RT_MEMHEAP_MAGIC, pool_ptr = Some (heap_obj H), mi_next = 0, mi_prev = 0, next_free = ?f, prev_free = ?f\<rparr>) G)
            \<lparr>free_list := ?f\<rparr>))\<lparr>block_list := start\<rparr>))"
      by (simp add: H'_def memheap_build_def Let_def upd_item_def t_def ps_def G_def)
    then show "items H' start = \<lparr>magic = RT_MEMHEAP_MAGIC, pool_ptr = Some (heap_obj H), mi_next = t, mi_prev = t, next_free = ?f, prev_free = ?f\<rparr>"
      "items H' t = \<lparr>magic = RT_MEMHEAP_MAGIC OR RT_MEMHEAP_USED, pool_ptr = Some (heap_obj H), mi_next = start, mi_prev = start, next_free = 0, prev_free = 0\<rparr>"
      "next_free (items H' ?f) = start" "prev_free (items H' ?f) = start"
      "free_list H' = ?f" "start_addr H' = start" "pool_size H' = ps" "available_size H' = ps - 48" "heap_obj H' = heap_obj H"
      using d by (simp_all add: Let_def upd_item_def free_insert_def G_def)
  qed
  have bs: "bsize H' start = n - 48" using H'(1) ut n by (simp add: bsize_def)
  have r: "ring (blk H') t [start]" "ring (fre H') ?f [start]" using H' d by (simp_all add: ring_def)
  have "4 dvd unat t" using P n(3) ut n(1) by (simp add: pool_ok_def)
  then have "heap_links H' [start] t [start]" unfolding heap_links_def
    using r H' P ut n b un by (auto simp: apart_def pool_ok_def magic_ok_def item_is_used_def)
  then have "heap_ok H' [start] t [start]" using bs H' us by (auto simp: heap_ok_def item_is_used_def)
  moreover have "in_use H' [start] = {}" using H'(1) by (simp add: in_use_def item_is_used_def)
  ultimately show ?thesis using bs H'(7) un by blast
qed

subsection \<open>The lock\<close>

text \<open>No thread holds the lock of the heap or waits for it.\<close>

definition unlocked :: "kernel \<Rightarrow> rt_memheap \<Rightarrow> bool" where
  "unlocked s H = (obj_class (heap_obj H) s = RT_Object_Class_MemHeap \<and> obj_class (heap_lock H) s = RT_Object_Class_Semaphore \<and>
     0 < sem_value (sems s (heap_lock H)) \<and> tlists s (SemQ (heap_lock H)) = [])"

lemma upd_sem_back: "upd_sem a (\<lambda>v. v + 1) (upd_sem a (\<lambda>v. v - 1) s) = s"
proof -
  have "\<lparr>sem_value = sem_value r\<rparr> = r" for r by (cases r) simp
  then show ?thesis by (simp add: upd_sem_def fun_upd_idem)
qed

lemma locked_runs:
  assumes U: "unlocked s H" and b: "body H = Some (x, H')" and l: "heap_lock H' = heap_lock H"
  shows "locked body null (s, H) = Some (Ret x, s, H')"
proof -
  have "obj_class (heap_lock H) (upd_sem (heap_lock H) (\<lambda>v. v - 1) s) = obj_class (heap_lock H) s"
    by (rule obj_class_cong) simp
  then show ?thesis using U b l
    by (simp add: locked_def locked_go_def rt_sem_take_def rt_sem_release_def unlocked_def upd_sem_back)
qed

lemma unlocked_same: "same_heap H H' \<Longrightarrow> unlocked s H' = unlocked s H"
  by (simp add: unlocked_def same_heap_def)

lemma inv_upd_object:
  "sched_inv (upd_object x f s) = sched_inv s" "live (upd_object x f s) = live s"
  "sched_inv (object_attach i x s) = sched_inv s" "live (object_attach i x s) = live s"
  by (simp_all add: live_def cong: sched_inv_cong)

lemma registered_fields [simp]:
  "tlists (registered x ty i nm s) = tlists s" "containers (registered x ty i nm s) = (containers s)(i := x # containers s i)"
  "objects (registered x ty i nm s) = (objects s)(x := (objects s x)\<lparr>obj_type := ty OR RT_Object_Class_Static, obj_name := nm\<rparr>)"
  "sched_inv (registered x ty i nm s) = sched_inv s" "live (registered x ty i nm s) = live s"
  by (simp_all add: registered_def inv_upd_object)

lemma memheap_init_runs:
  assumes I: "sched_inv s" "live s" and P: "pool_ok start sz H" and nm: "rt_strncpy name RT_NAME_MAX = Some nm"
    and x: "heap_obj H \<noteq> heap_lock H" "Obj (heap_obj H) \<notin> set (containers s 6)" "Obj (heap_lock H) \<notin> set (containers s 1)"
  shows "\<exists>s'. rt_memheap_init name start sz (s, H) = Some (RT_EOK, s', memheap_build start sz H) \<and>
     unlocked s' (memheap_build start sz H)"
proof -
  have i: "rt_object_get_information RT_Object_Class_MemHeap = Some 6" "rt_object_get_information RT_Object_Class_Semaphore = Some 1"
    by code_simp+
  let ?H = "memheap_build start sz H"
  have h: "heap_obj ?H = heap_obj H" "heap_lock ?H = heap_lock H"
    by (simp_all add: memheap_build_def Let_def upd_item_def)
  obtain u where u: "rt_object_init (Obj (heap_obj H)) RT_Object_Class_MemHeap name s =
      Some (registered (Obj (heap_obj H)) RT_Object_Class_MemHeap 6 nm u)" "same_but_running s u" "live u"
    using object_init_registered [OF I i(1) x(2) nm] by blast
  let ?u = "registered (Obj (heap_obj H)) RT_Object_Class_MemHeap 6 nm u"
  have "sched_inv u" using same_but_running_inv(1) [OF u(2)] I(1) by simp
  then have iu: "sched_inv ?u" "live ?u" using u(3) by simp_all
  have c: "Obj (heap_lock H) \<notin> set (containers ?u 1)" using x(3) same_but_running_fields(10) [OF u(2)] by simp
  obtain v where v: "rt_object_init (Obj (heap_lock H)) RT_Object_Class_Semaphore name ?u =
      Some (registered (Obj (heap_lock H)) RT_Object_Class_Semaphore 1 nm v)" "same_but_running ?u v"
    using object_init_registered [OF iu i(2) c nm] by blast
  have o: "objects v = objects ?u" by (rule same_but_running_fields(6) [OF v(2)])
  let ?s = "set_flag (heap_lock H) RT_IPC_FLAG_PRIO (upd_sem (heap_lock H) (\<lambda>_. ucast (1 :: u32))
    (rt_ipc_object_init (SemQ (heap_lock H)) (registered (Obj (heap_lock H)) RT_Object_Class_Semaphore 1 nm v)))"
  have "rt_memheap_init name start sz (s, H) = Some (RT_EOK, ?s, ?H)"
    using u(1) v(1) h by (simp add: rt_memheap_init_def rt_sem_init_def Let_def)
  moreover have "unlocked ?s ?H"
    using x(1) h o by (simp add: unlocked_def obj_class_def rt_object_get_type_def set_flag_def rt_ipc_object_init_def upd_sem_def upd_object_def)
  ultimately show ?thesis by blast
qed

subsection \<open>Payloads\<close>

definition payload :: "rt_memheap \<Rightarrow> u32 \<Rightarrow> nat set" where
  "payload H a = {unat a + 24 ..< unat a + 24 + bsize H a}"

lemma payload_apart:
  assumes L: "heap_links H bs t fs" and a: "a \<in> set bs" and b: "b \<in> set bs" and lt: "unat a < unat b"
  shows "unat a + 24 + bsize H a \<le> unat b"
proof -
  obtain ps qs where bs: "bs = ps @ a # qs" using a by (meson split_list)
  have "b \<in> set qs" using heap_linksD(4) [OF L] b lt unfolding bs by (auto simp: apart_append apart_Cons)
  then have "unat (hd (qs @ [t])) \<le> unat b"
    using heap_linksD(4) [OF L] unfolding bs by (cases qs) (auto simp: apart_append apart_Cons)
  then show ?thesis using block_next(1) [OF L [unfolded bs]] block_size(4) [OF L a] by simp
qed

lemma payload_disjoint:
  assumes L: "heap_links H bs t fs" and a: "a \<in> set bs" and b: "b \<in> set bs" and ne: "a \<noteq> b"
  shows "payload H a \<inter> payload H b = {}"
proof -
  have "unat a < unat b \<or> unat b < unat a" using ne by (metis linorder_neqE_nat word_unat_eq_iff)
  then show ?thesis using payload_apart [OF L a b] payload_apart [OF L b a] by (auto simp: payload_def)
qed

lemma payload_pool:
  assumes L: "heap_links H bs t fs" and a: "a \<in> set bs"
  shows "payload H a \<subseteq> {unat (start_addr H) + 24 ..< unat (start_addr H) + unat (pool_size H) - 24}"
  using block_size(3) [OF L a] block_range(1) [OF L, of a] heap_linksD(8) [OF L] a by (auto simp: payload_def)

lemma user_address:
  assumes L: "heap_links H bs t fs" and a: "a \<in> set bs"
  shows "unat (a + 24) = unat a + 24" "a + 24 \<noteq> 0" "4 dvd unat (a + 24)"
proof -
  show u: "unat (a + 24) = unat a + 24"
    using block_size(2,3) [OF L a] heap_linksD(9) [OF L] by (simp add: unat_word_ariths)
  show "a + 24 \<noteq> 0" using u by (metis add_is_0 unat_0 zero_neq_numeral)
  show "4 dvd unat (a + 24)" unfolding u using heap_linksD(11) [OF L, of a] a by (simp add: dvd_add)
qed

subsection \<open>Allocation and release\<close>

lemma memheap_alloc_runs:
  assumes O: "heap_ok H bs t fs" and U: "unlocked s H" and sz: "unat sz \<le> 2 ^ 32 - 4"
  defines "n \<equiv> max 12 (round4 (unat sz))"
  shows "if n < unat (available_size H) \<and> (\<exists>a \<in> set fs. n \<le> bsize H a)
     then \<exists>p H'. p \<in> set fs \<and> rt_memheap_alloc sz (s, H) = Some (Ret (p + 24), s, H') \<and> block_taken p (request_size sz) H bs t H'
     else rt_memheap_alloc sz (s, H) = Some (Ret 0, s, H)"
proof -
  have r: "unat (request_size sz) = n" using request_size_unat [OF sz] by (simp add: n_def)
  have n: "12 \<le> n" "4 dvd n" using round4(2) by (auto simp: n_def max_def)
  note E = memheap_take_effect [OF O, of "request_size sz", unfolded r, OF n]
  have ty: "obj_class (heap_obj H) s = RT_Object_Class_MemHeap" using U by (simp add: unlocked_def)
  have av: "request_size sz < available_size H \<longleftrightarrow> n < unat (available_size H)" using r by (simp add: word_less_nat_alt)
  show ?thesis
  proof (cases "n < unat (available_size H)")
    case False
    then show ?thesis using ty av by (simp add: rt_memheap_alloc_def Let_def)
  next
    case True
    have al: "rt_memheap_alloc sz (s, H) = locked (memheap_take (request_size sz)) 0 (s, H)"
      using True ty av by (simp add: rt_memheap_alloc_def Let_def)
    show ?thesis
    proof (cases "dropWhile (\<lambda>a. bsize H a < n) fs")
      case Nil
      then have "\<not> (\<exists>a \<in> set fs. n \<le> bsize H a)" by (auto simp: dropWhile_eq_Nil_conv)
      then show ?thesis using E [unfolded Nil] locked_runs [OF U, of "memheap_take (request_size sz)" 0 H] al by simp
    next
      case (Cons p r)
      obtain H' where H': "memheap_take (request_size sz) H = Some (p + 24, H')" "block_taken p (request_size sz) H bs t H'"
        using E [unfolded Cons] by auto
      then have "heap_lock H' = heap_lock H" by (auto simp: block_taken_def same_heap_def)
      then have "rt_memheap_alloc sz (s, H) = Some (Ret (p + 24), s, H')" unfolding al by (intro locked_runs U H'(1))
      moreover have "p \<in> set fs" "n \<le> bsize H p"
        using Cons hd_dropWhile [of "\<lambda>a. bsize H a < n" fs] set_dropWhileD [of p "\<lambda>a. bsize H a < n" fs] by auto
      ultimately show ?thesis using True H'(2) by auto
    qed
  qed
qed

lemma memheap_free_runs:
  assumes O: "heap_ok H bs t fs" and U: "unlocked s H" and p: "p \<in> in_use H bs"
  shows "\<exists>H'. rt_memheap_free (p + 24) (s, H) = Some (Ret (), s, H') \<and> block_given p H bs t H'"
proof -
  have L: "heap_links H bs t fs" using O by (simp add: heap_ok_def)
  have b: "p \<in> set bs" "item_is_used H p" using p by (auto simp: in_use_def)
  obtain ps qs where bs: "bs = ps @ p # qs" using b(1) by (meson split_list)
  obtain H' where H': "memheap_give p H = Some ((), H')" "block_given p H bs t H'" using memheap_give_effect [OF O p] by auto
  have "heap_lock H' = heap_lock H" using H'(2) by (auto simp: block_given_def same_heap_def)
  then have l: "locked (memheap_give p) () (s, H) = Some (Ret (), s, H')" by (intro locked_runs U H'(1))
  have "mi_next (items H p) \<in> set (bs @ [t])" using block_next(1) [OF L [unfolded bs]] bs by (cases qs) auto
  then show ?thesis using l H'(2) b(2) heap_linksD(11) [OF L] b(1) user_address(2) [OF L b(1)] U
    by (simp add: rt_memheap_free_def unlocked_def)
qed

end
