(* ===== verification/Memheap_Realloc.thy ===== *)
theory Memheap_Realloc
  imports Memheap_Correct
begin

unbundle bit_operations_syntax

text \<open>
  Reallocation of a block of a memory heap: in place when the block shrinks or the next block is free
  and large enough, otherwise by a new block and a copy.
\<close>

subsection \<open>In place\<close>

text \<open>A free block that is not on the free list yet is entered there.\<close>

lemma free_enter:
  assumes L: "heap_links K bs t gs" and n: "n \<in> set bs" "n \<notin> set gs" and F: "free_blocks K bs = insert n (set gs)"
    and co: "successively (\<lambda>a b. item_is_used K a \<or> item_is_used K b) bs"
    and v: "unat v = bsize K n + (\<Sum>a \<in> set gs. bsize K a)"
  defines "H' \<equiv> (free_insert n K)\<lparr>available_size := v\<rparr>"
  shows "heap_ok H' bs t (n # gs)" "bsize H' = bsize K" "item_is_used H' = item_is_used K" "same_heap K H'" "mem H' = mem K"
proof -
  note d = heap_linksD [OF L]
  show b: "bsize H' = bsize K" and u: "item_is_used H' = item_is_used K" and "same_heap K H'" "mem H' = mem K"
    by (auto simp: H'_def bsize_def item_is_used_def same_heap_def fun_eq_iff)
  have bl: "blk H' = blk K" "fre H' = fre (free_insert n K)"
    using free_insert_facts(1) [of n K] by (simp_all add: H'_def blk_def fre_def)
  have "n \<notin> set (free_list K # gs)" using block_range(3) [OF L, of n] n by auto
  then have r: "ring (fre H') (free_list K) (n # gs)" unfolding bl(2) by (rule free_ring_insert [OF d(2)])
  have "heap_links H' bs t (n # gs)"
    by (rule links_free [OF L r]) (use d n bl u in \<open>auto simp: H'_def magic_ok_def\<close>)
  then show "heap_ok H' bs t (n # gs)" unfolding heap_ok_sum b
    using F u co v n(2) by (simp add: free_blocks_def H'_def)
qed

definition block_resized :: "u32 \<Rightarrow> u32 \<Rightarrow> rt_memheap \<Rightarrow> u32 list \<Rightarrow> u32 \<Rightarrow> rt_memheap \<Rightarrow> bool" where
  "block_resized p sz H bs t H' = (\<exists>bs' fs'. heap_ok H' bs' t fs' \<and> same_heap H H' \<and> mem H' = mem H \<and>
     in_use H' bs' = in_use H bs \<and> bsize H' p = unat sz \<and> (\<forall>a \<in> in_use H bs. a \<noteq> p \<longrightarrow> bsize H' a = bsize H a))"

text \<open>The block after \<open>p\<close> is free: its header leaves both rings.\<close>

lemma join_next:
  assumes L: "heap_links H (ps @ p # n # qs) t fs" and n: "n \<in> set fs"
    and K: "blk K = unlink n (blk H)" "fre K = fre (free_remove n H)" "\<And>a. magic (items K a) = magic (items H a)"
      "\<And>a. pool_ptr (items K a) = pool_ptr (items H a)" "same_heap H K"
  obtains fs' where "heap_links K (ps @ p # qs) t fs'" "set fs' = set fs - {n}" "bsize K p = bsize H p + 24 + bsize H n"
    "\<And>a. a \<noteq> p \<Longrightarrow> bsize K a = bsize H a" "item_is_used K = item_is_used H"
proof -
  obtain xs ys where f: "fs = xs @ n # ys" using n by (meson split_list)
  note d = heap_linksD [OF L]
  have r: "ring (fre K) (free_list H) (xs @ ys)" unfolding K(2) using free_ring_remove(1) d(2) f by blast
  have nd: "n \<notin> set (xs @ ys)" using d(2) f by (auto simp: ring_def)
  have sub: "set (xs @ ys) \<subseteq> set (ps @ p # qs)" using d(3) f nd by auto
  have s: "free_list K = free_list H" "start_addr K = start_addr H" "pool_size K = pool_size H" "heap_obj K = heap_obj H"
    using K(5) by (simp_all add: same_heap_def)
  have "set (xs @ ys) = set fs - {n}" using f nd by auto
  then show ?thesis using links_delete [OF L r sub K(1,3,4) s] that by blast
qed

lemma fre_free_remove: "items G = items H \<Longrightarrow> fre (free_remove n G) = fre (free_remove n H)"
  by (simp add: free_remove_def upd_item_def fre_def)

lemma split_facts [simp]:
  "free_list (memheap_split p sz H) = free_list H" "start_addr (memheap_split p sz H) = start_addr H"
  "pool_size (memheap_split p sz H) = pool_size H" "heap_obj (memheap_split p sz H) = heap_obj H"
  "heap_lock (memheap_split p sz H) = heap_lock H" "mem (memheap_split p sz H) = mem H"
  "available_size (memheap_split p sz H) = available_size H"
  by (simp_all add: memheap_split_def Let_def)

lemma heap_okD:
  assumes "heap_ok H bs t fs"
  shows "heap_links H bs t fs" "set fs = free_blocks H bs" "unat (available_size H) = (\<Sum>a \<in> set fs. bsize H a)"
    "successively (\<lambda>a b. item_is_used H a \<or> item_is_used H b) bs"
  using assms by (simp_all add: heap_ok_sum)

lemma successively_replace:
  assumes "successively P (ps @ p # n # qs)" and "P p m" and "\<And>a. P n a \<Longrightarrow> P m a"
  shows "successively P (ps @ p # m # qs)"
  using assms by (cases qs) (auto simp: successively_append_iff)

definition grow_joined :: "u32 \<Rightarrow> u32 \<Rightarrow> rt_memheap \<Rightarrow> rt_memheap" where
  "grow_joined n d H =
     (let H = free_remove n (take_size d H);
          H = upd_item (mi_next (items H n)) (\<lambda>i. i\<lparr>mi_prev := mi_prev (items H n)\<rparr>) H
      in upd_item (mi_prev (items H n)) (\<lambda>i. i\<lparr>mi_next := mi_next (items H n)\<rparr>) H)"

lemma grow_joined_facts:
  fixes H :: rt_memheap and d :: u32
  assumes L: "heap_links H (ps @ p # n # qs) t fs"
  defines "K \<equiv> grow_joined n d H"
  shows "blk K = unlink n (blk H)" "fre K = fre (free_remove n H)" "magic (items K a) = magic (items H a)"
    "pool_ptr (items K a) = pool_ptr (items H a)" "same_heap H K" "mem K = mem H" "available_size K = available_size H - d"
proof -
  have "ring (blk H) t ((ps @ [p]) @ n # qs)" using heap_linksD(1) [OF L] by simp
  from ring_neighbours(3,4) [OF this] have r: "n \<noteq> mi_prev (items H n)" "n \<noteq> mi_next (items H n)" by simp_all
  define R where "R = free_remove n (take_size d H)"
  have i: "mi_next (items R a) = mi_next (items H a)" "mi_prev (items R a) = mi_prev (items H a)"
    "magic (items R a) = magic (items H a)" "pool_ptr (items R a) = pool_ptr (items H a)" for a by (simp_all add: R_def)
  have s: "same_heap H R" "mem R = mem H" "available_size R = available_size H - d" by (simp_all add: R_def same_heap_def)
  have K: "K = upd_item (mi_prev (items H n)) (\<lambda>i. i\<lparr>mi_next := mi_next (items H n)\<rparr>)
      (upd_item (mi_next (items H n)) (\<lambda>i. i\<lparr>mi_prev := mi_prev (items H n)\<rparr>) R)"
    using r i unfolding K_def grow_joined_def R_def [symmetric] Let_def by (simp add: upd_item_def)
  show "blk K = unlink n (blk H)" by (auto simp: K upd_item_def blk_def unlink_def i)
  have "fre K = fre R" by (auto simp: K upd_item_def fre_def)
  then show "fre K = fre (free_remove n H)" using fre_free_remove [of "take_size d H" H n] by (simp add: R_def)
  show "magic (items K a) = magic (items H a)" "pool_ptr (items K a) = pool_ptr (items H a)" "same_heap H K" "mem K = mem H"
    "available_size K = available_size H - d"
    using s by (simp_all add: K upd_item_def same_heap_def i)
qed

lemma grow_resizes:
  fixes H :: rt_memheap
  assumes O: "heap_ok H (ps @ p # n # qs) t fs" and p: "item_is_used H p" and n: "\<not> item_is_used H n"
    and sz: "12 \<le> unat sz" "4 dvd unat sz" "bsize H p < unat sz" "unat sz + 12 \<le> bsize H n + bsize H p"
  shows "block_resized p sz H (ps @ p # n # qs) t (free_insert (p + sz + 24) (memheap_split p sz (grow_joined n (sz - memitem_size H p) H)))"
proof -
  note d = heap_okD [OF O]
  let ?K = "grow_joined n (sz - memitem_size H p) H" and ?m = "p + sz + 24"
  let ?S = "memheap_split p sz ?K"
  have nf: "n \<in> set fs" using d(2) n by (simp add: free_blocks_def)
  note J = grow_joined_facts [OF d(1), of "sz - memitem_size H p"]
  obtain gs where K: "heap_links ?K (ps @ p # qs) t gs" "set gs = set fs - {n}" "bsize ?K p = bsize H p + 24 + bsize H n"
    "\<And>a. a \<noteq> p \<Longrightarrow> bsize ?K a = bsize H a" "item_is_used ?K = item_is_used H"
    using join_next [OF d(1) nf J(1-5)] by blast
  have "unat sz + 36 \<le> bsize ?K p" using sz(4) K(3) by simp
  note S = links_split [OF K(1) sz(1,2) this]
  have ds: "distinct (ps @ p # n # qs)" using heap_linksD(1) [OF d(1)] by (simp add: ring_def)
  have mg: "?m \<notin> set gs" using S(3) heap_linksD(3) [OF K(1)] by auto
  have u: "item_is_used ?S a = (a \<noteq> ?m \<and> item_is_used H a)" for a using S(7,8) K(5) by (cases "a = ?m") auto
  have F: "free_blocks ?S (ps @ p # ?m # qs) = insert ?m (set gs)"
    unfolding K(2) d(2) using S(3) p ds by (auto simp: free_blocks_def u)
  have co: "successively (\<lambda>a b. item_is_used ?S a \<or> item_is_used ?S b) (ps @ p # ?m # qs)"
  proof (rule successively_replace)
    show "successively (\<lambda>a b. item_is_used ?S a \<or> item_is_used ?S b) (ps @ p # n # qs)"
      by (rule successively_mono [OF d(4)]) (use S(3) n in \<open>auto simp: u\<close>)
  qed (use p n S(3) in \<open>auto simp: u\<close>)
  have av: "unat (available_size H) = bsize H n + (\<Sum>a \<in> set gs. bsize H a)"
    unfolding d(3) K(2) using sum.remove [OF _ nf, of "bsize H"] by simp
  have sg: "(\<Sum>a \<in> set gs. bsize ?S a) = (\<Sum>a \<in> set gs. bsize H a)"
  proof (rule sum.cong [OF refl])
    fix a assume a: "a \<in> set gs"
    then have "a \<noteq> p" using K(2) d(2) p by (auto simp: free_blocks_def)
    then show "bsize ?S a = bsize H a" using S(6) [of a] K(4) a mg by auto
  qed
  have ms: "unat (memitem_size H p) = bsize H p" using block_size(1) [OF d(1), of p] by simp
  have "unat (sz - memitem_size H p) = unat sz - bsize H p" using ms sz(3) by (simp add: unat_sub word_le_nat_alt)
  then have "unat (available_size ?S) = unat (available_size H) - (unat sz - bsize H p)"
    using J(7) av sz by (simp add: unat_sub word_le_nat_alt)
  then have v: "unat (available_size ?S) = bsize ?S ?m + (\<Sum>a \<in> set gs. bsize ?S a)"
    using av sg S(5) K(3) sz(3,4) by simp
  note E = free_enter [OF S(1) _ mg F co v]
  have e: "(free_insert ?m ?S)\<lparr>available_size := available_size ?S\<rparr> = free_insert ?m ?S"
    by (simp add: free_insert_def upd_item_def Let_def)
  note E = E [unfolded e, simplified]
  have "in_use (free_insert ?m ?S) (ps @ p # ?m # qs) = in_use H (ps @ p # n # qs)"
    using E(3) S(3) n by (auto simp: in_use_def u)
  moreover have "bsize (free_insert ?m ?S) a = bsize H a" if "a \<in> in_use H (ps @ p # n # qs)" "a \<noteq> p" for a
  proof -
    have "a \<noteq> ?m" using that S(3) n by (auto simp: in_use_def)
    then show ?thesis using E(2) S(6) K(4) that(2) by simp
  qed
  moreover have "same_heap H (free_insert ?m ?S)" "mem (free_insert ?m ?S) = mem H" using J(5,6) by (simp_all add: same_heap_def)
  moreover have "bsize (free_insert ?m ?S) p = unat sz" using E(2) S(4) by simp
  ultimately show ?thesis unfolding block_resized_def using E(1) by blast
qed

text \<open>The block \<open>p\<close> cannot grow in place to \<open>n\<close> bytes, and no block of \<open>n\<close> bytes can be allocated.\<close>

definition no_growth :: "nat \<Rightarrow> rt_memheap \<Rightarrow> u32 \<Rightarrow> bool" where
  "no_growth n H p = (\<not> item_is_used H (mi_next (items H p)) \<longrightarrow> bsize H (mi_next (items H p)) + bsize H p \<le> n + 12)"

definition no_block :: "nat \<Rightarrow> rt_memheap \<Rightarrow> u32 list \<Rightarrow> bool" where
  "no_block n H fs = (\<forall>a \<in> set fs. n < unat (available_size H) \<longrightarrow> bsize H a < n)"

lemma memheap_grow_effect:
  fixes sz :: u32
  assumes O: "heap_ok H bs t fs" and p: "p \<in> in_use H bs"
    and sz: "12 \<le> unat sz" "4 dvd unat sz" "bsize H p < unat sz" "unat sz \<le> 2 ^ 32 - 16"
  shows "(memheap_grow (p + 24) (memitem_size H p) sz H = Some (None, H) \<and> no_growth (unat sz) H p) \<or>
     (\<exists>H'. memheap_grow (p + 24) (memitem_size H p) sz H = Some (Some (p + 24), H') \<and> block_resized p sz H bs t H')"
proof -
  note d = heap_okD [OF O]
  have b: "p \<in> set bs" "item_is_used H p" using p by (auto simp: in_use_def)
  obtain ps qs where bs: "bs = ps @ p # qs" using b(1) by (meson split_list)
  let ?n = "mi_next (items H p)"
  have nx: "?n = hd (qs @ [t])" by (rule block_next(1) [OF d(1) [unfolded bs]])
  have lt: "p < ?n" using block_size(4) [OF d(1) b(1)] by (simp add: word_less_nat_alt)
  have free: "\<exists>qs'. qs = ?n # qs'" if "\<not> item_is_used H ?n" using that nx heap_linksD(12) [OF d(1)] by (cases qs) auto
  have room: "sz + 12 < memitem_size H ?n + memitem_size H p \<longleftrightarrow> unat sz + 12 < bsize H ?n + bsize H p" if "\<not> item_is_used H ?n"
  proof -
    note f = free [OF that]
    obtain qs' where q: "qs = ?n # qs'" using f by blast
    have nb: "?n \<in> set bs" unfolding bs by (subst q) simp
    have m: "unat (memitem_size H p) = bsize H p" "unat (memitem_size H ?n) = bsize H ?n" "unat ?n = unat p + 24 + bsize H p"
      "unat ?n + 24 + bsize H ?n \<le> unat t" using block_size [OF d(1) b(1)] block_size [OF d(1) nb] by simp_all
    have "unat (memitem_size H ?n + memitem_size H p) = bsize H ?n + bsize H p"
      using m heap_linksD(9) [OF d(1)] by (simp add: unat_word_ariths)
    moreover have "unat (sz + 12) = unat sz + 12" using sz(4) by (simp add: unat_word_ariths)
    ultimately show ?thesis by (simp add: word_less_nat_alt)
  qed
  show ?thesis
  proof (cases "\<not> item_is_used H ?n \<and> sz + 12 < memitem_size H ?n + memitem_size H p")
    case False
    then have "memheap_grow (p + 24) (memitem_size H p) sz H = Some (None, H)" using lt by (auto simp: memheap_grow_def Let_def)
    moreover have "no_growth (unat sz) H p" using False room by (auto simp: no_growth_def)
    ultimately show ?thesis by blast
  next
    case True
    then have le: "unat sz + 12 \<le> bsize H ?n + bsize H p" using room by simp
    obtain qs' where "qs = ?n # qs'" using free [OF conjunct1 [OF True]] by blast
    then have "bs = ps @ p # ?n # qs'" using bs by simp
    note G = grow_resizes [OF O [unfolded this] b(2) conjunct1 [OF True] sz(1-3) le, folded this]
    have "memheap_grow (p + 24) (memitem_size H p) sz H = Some (Some (p + 24),
        free_insert (p + sz + 24) (memheap_split p sz (grow_joined ?n (sz - memitem_size H p) H)))"
      using True lt by (simp add: memheap_grow_def grow_joined_def Let_def memheap_split_def algebra_simps)
    then show ?thesis using G by blast
  qed
qed

definition shrink_joined :: "u32 \<Rightarrow> u32 \<Rightarrow> rt_memheap \<Rightarrow> rt_memheap" where
  "shrink_joined n f H =
     (let H = H\<lparr>available_size := available_size H - memitem_size H f\<rparr>;
          H = upd_item (mi_next (items H f)) (\<lambda>i. i\<lparr>mi_prev := n\<rparr>) H;
          H = upd_item n (\<lambda>i. i\<lparr>mi_next := mi_next (items H f)\<rparr>) H
      in free_remove f H)"

lemma shrink_joined_facts:
  fixes H :: rt_memheap
  assumes L: "heap_links H (ps @ n # f # qs) t fs"
  defines "K \<equiv> shrink_joined n f H"
  shows "blk K = unlink f (blk H)" "fre K = fre (free_remove f H)" "magic (items K a) = magic (items H a)"
    "pool_ptr (items K a) = pool_ptr (items H a)" "same_heap H K" "mem K = mem H"
    "available_size K = available_size H - memitem_size H f"
proof -
  have "ring (blk H) t ((ps @ [n]) @ f # qs)" using heap_linksD(1) [OF L] by simp
  from ring_neighbours(1,3,4) [OF this] have r: "mi_prev (items H f) = n" "f \<noteq> n" "f \<noteq> mi_next (items H f)" by auto
  define R where "R = upd_item n (\<lambda>i. i\<lparr>mi_next := mi_next (items H f)\<rparr>)
     (upd_item (mi_next (items H f)) (\<lambda>i. i\<lparr>mi_prev := n\<rparr>) (H\<lparr>available_size := available_size H - memitem_size H f\<rparr>))"
  have K: "K = free_remove f R" using r(3) by (simp add: K_def shrink_joined_def R_def Let_def upd_item_def)
  have "blk R = unlink f (blk H)" using r(1) by (auto simp: R_def upd_item_def blk_def unlink_def)
  then show "blk K = unlink f (blk H)" by (simp add: K)
  have "next_free (items R a) = next_free (items H a)" "prev_free (items R a) = prev_free (items H a)" for a
    by (simp_all add: R_def upd_item_def)
  then show "fre K = fre (free_remove f H)" by (auto simp: K free_remove_def upd_item_def fre_def Let_def)
  show "magic (items K a) = magic (items H a)" "pool_ptr (items K a) = pool_ptr (items H a)" "same_heap H K" "mem K = mem H"
    "available_size K = available_size H - memitem_size H f"
    by (simp_all add: K R_def upd_item_def same_heap_def)
qed

text \<open>The remainder \<open>n\<close> of the shrunk block \<open>p\<close> becomes a free block.\<close>

lemma shrink_settle:
  fixes H :: rt_memheap
  assumes L: "heap_links K (ps @ p # n # rs) t gs" and p: "item_is_used H p" and n: "\<not> item_is_used K n" "n \<notin> set gs"
    and u: "\<And>a. a \<noteq> n \<Longrightarrow> item_is_used K a = item_is_used H a"
    and gs: "set gs = free_blocks H (ps @ p # rs)" and iu: "in_use H (ps @ p # rs) = in_use H bs"
    and rs: "rs \<noteq> [] \<Longrightarrow> item_is_used H (hd rs)"
    and co: "successively (\<lambda>a b. item_is_used H a \<or> item_is_used H b) (ps @ [p])"
      "successively (\<lambda>a b. item_is_used H a \<or> item_is_used H b) rs"
    and b: "bsize K p = unat sz" "\<And>a. a \<noteq> p \<Longrightarrow> a \<noteq> n \<Longrightarrow> bsize K a = bsize H a"
    and av: "unat (available_size K) = (\<Sum>a \<in> set gs. bsize H a)" and s: "same_heap H K" "mem K = mem H"
  shows "block_resized p sz H bs t ((free_insert n K)\<lparr>available_size := available_size K + memitem_size K n\<rparr>)"
proof -
  have ds: "distinct (ps @ p # n # rs)" using heap_linksD(1) [OF L] by (simp add: ring_def)
  have u': "item_is_used K a = (a \<noteq> n \<and> item_is_used H a)" for a using u n(1) by (cases "a = n") auto
  have F: "free_blocks K (ps @ p # n # rs) = insert n (set gs)"
    unfolding gs using ds by (auto simp: free_blocks_def u')
  have "successively (\<lambda>a b. item_is_used K a \<or> item_is_used K b) (ps @ [p])"
    by (rule successively_mono [OF co(1)]) (use ds in \<open>auto simp: u'\<close>)
  moreover have "successively (\<lambda>a b. item_is_used K a \<or> item_is_used K b) rs"
    by (rule successively_mono [OF co(2)]) (use ds in \<open>auto simp: u'\<close>)
  ultimately have co': "successively (\<lambda>a b. item_is_used K a \<or> item_is_used K b) (ps @ p # n # rs)"
    using rs p ds by (cases rs) (auto simp: successively_append_iff u')
  have "a \<noteq> p \<and> a \<noteq> n" if "a \<in> set gs" for a using that gs p n(2) by (auto simp: free_blocks_def)
  then have sg: "(\<Sum>a \<in> set gs. bsize K a) = (\<Sum>a \<in> set gs. bsize H a)" using b(2) by (intro sum.cong) auto
  have "(\<Sum>a \<in> insert n (set gs). bsize K a) + 24 \<le> 2 ^ 32"
    by (rule free_sum_bound [OF L]) (use heap_linksD(3) [OF L] in auto)
  then have v: "unat (available_size K + memitem_size K n) = bsize K n + (\<Sum>a \<in> set gs. bsize K a)"
    using av sg n(2) block_size(1) [OF L, of n] by (simp add: unat_word_ariths)
  let ?H = "(free_insert n K)\<lparr>available_size := available_size K + memitem_size K n\<rparr>"
  note E = free_enter [OF L _ n(2) F co' v]
  have "in_use ?H (ps @ p # n # rs) = in_use H bs" unfolding iu [symmetric] using E(3) ds by (auto simp: in_use_def u')
  moreover have "same_heap H ?H" "mem ?H = mem H" using s by (simp_all add: same_heap_def)
  moreover have "bsize ?H a = bsize H a" if "a \<in> in_use H bs" "a \<noteq> p" for a
  proof -
    have "a \<noteq> n" using that(1) ds unfolding iu [symmetric] by (auto simp: in_use_def)
    then show ?thesis using E(2) b(2) that(2) by simp
  qed
  moreover have "bsize ?H p = unat sz" using E(2) b(1) by simp
  ultimately show ?thesis unfolding block_resized_def using E(1) by auto
qed

lemma memheap_shrink_effect:
  fixes sz :: u32
  assumes O: "heap_ok H bs t fs" and p: "p \<in> in_use H bs"
    and sz: "12 \<le> unat sz" "4 dvd unat sz" "unat sz + 36 \<le> bsize H p"
  shows "\<exists>H'. memheap_shrink (p + 24) sz H = Some (p + 24, H') \<and> block_resized p sz H bs t H'"
proof -
  note d = heap_okD [OF O]
  have b: "p \<in> set bs" "item_is_used H p" using p by (auto simp: in_use_def)
  obtain ps qs where bs: "bs = ps @ p # qs" using b(1) by (meson split_list)
  let ?n = "p + sz + 24" and ?S = "memheap_split p sz H"
  note S = links_split [OF d(1) [unfolded bs] sz]
  define f where "f = mi_next (items ?S ?n)"
  have f: "f = hd (qs @ [t])" using block_next(1) [of ?S "ps @ [p]" ?n qs t fs] S(1) by (simp add: f_def)
  have co: "successively (\<lambda>a b. item_is_used H a \<or> item_is_used H b) (ps @ [p])"
    "successively (\<lambda>a b. item_is_used H a \<or> item_is_used H b) qs" using d(4) bs by (auto simp: successively_append_iff successively_Cons)
  have ng: "?n \<notin> set fs" using S(3) heap_linksD(3) [OF d(1)] bs by auto
  have uf: "item_is_used ?S f = item_is_used H f" using S(3,8) f by (cases qs) auto
  define K where "K = (if item_is_used H f then ?S else shrink_joined ?n f ?S)"
  have e: "memheap_shrink (p + 24) sz H = Some (p + 24, (free_insert ?n K)\<lparr>available_size := available_size K + memitem_size K ?n\<rparr>)"
    using uf by (simp add: memheap_shrink_def Let_def K_def shrink_joined_def f_def [symmetric] memitem_size_def)
  have "block_resized p sz H bs t ((free_insert ?n K)\<lparr>available_size := available_size K + memitem_size K ?n\<rparr>)"
  proof (cases "item_is_used H f")
    case True
    then have K: "K = ?S" by (simp add: K_def)
    show ?thesis unfolding K
      by (rule shrink_settle [OF S(1) b(2) S(7) ng S(8) _ _ _ co S(4,6)])
        (use True f bs d(2,3) in \<open>auto simp: same_heap_def\<close>)
  next
    case False
    then obtain qs' where qs: "qs = f # qs'" using f heap_linksD(12) [OF d(1)] by (cases qs) auto
    have K: "K = shrink_joined ?n f ?S" using False by (simp add: K_def)
    have L: "heap_links ?S ((ps @ [p]) @ ?n # f # qs') t fs" using S(1) qs by simp
    have ff: "f \<in> set fs" using d(2) False bs qs by (simp add: free_blocks_def)
    note J = shrink_joined_facts [OF L, folded K]
    obtain gs where G: "heap_links K ((ps @ [p]) @ ?n # qs') t gs" "set gs = set fs - {f}" "bsize K ?n = bsize ?S ?n + 24 + bsize ?S f"
      "\<And>a. a \<noteq> ?n \<Longrightarrow> bsize K a = bsize ?S a" "item_is_used K = item_is_used ?S"
      using join_next [OF L ff J(1-5)] by blast
    have ds: "distinct (ps @ p # f # qs')" using heap_linksD(1) [OF d(1)] bs qs by (simp add: ring_def)
    have fn: "f \<noteq> ?n" "f \<noteq> p" using ff ng ds by auto
    have ms: "unat (memitem_size ?S f) = bsize H f" using block_size(1) [OF L, of f] S(6) [OF fn(2,1)] by simp
    have "unat (available_size H) = bsize H f + (\<Sum>a \<in> set gs. bsize H a)"
      unfolding d(3) G(2) using sum.remove [OF _ ff, of "bsize H"] by simp
    then have av: "unat (available_size K) = (\<Sum>a \<in> set gs. bsize H a)"
      using J(7) ms by (simp add: unat_sub word_le_nat_alt)
    show ?thesis
    proof (rule shrink_settle [OF _ b(2) _ _ _ _ _ _ co(1) _ _ _ av])
      show "heap_links K (ps @ p # ?n # qs') t gs" using G(1) by simp
      show "\<not> item_is_used K ?n" "?n \<notin> set gs" using G(2,5) S(7) ng by auto
      show "item_is_used K a = item_is_used H a" if "a \<noteq> ?n" for a using G(5) S(8) that by simp
      show "set gs = free_blocks H (ps @ p # qs')" unfolding G(2) d(2) bs qs using ds by (auto simp: free_blocks_def)
      show "in_use H (ps @ p # qs') = in_use H bs" unfolding bs qs using False by (auto simp: in_use_def)
      show "item_is_used H (hd qs')" if "qs' \<noteq> []" using co(2) qs False that by (cases qs') auto
      show "successively (\<lambda>a b. item_is_used H a \<or> item_is_used H b) qs'" using co(2) qs by (cases qs') auto
      show "bsize K p = unat sz" using G(4) [of p] S(3,4) by auto
      show "bsize K a = bsize H a" if "a \<noteq> p" "a \<noteq> ?n" for a using G(4) S(6) that by simp
      show "same_heap H K" "mem K = mem H" using J(5,6) by (simp_all add: same_heap_def)
    qed
  qed
  then show ?thesis using e by blast
qed

subsection \<open>By a copy\<close>

definition contents :: "rt_memheap \<Rightarrow> u32 \<Rightarrow> nat \<Rightarrow> u8 list" where
  "contents H a n = map (\<lambda>i. mem H (a + 24 + of_nat i)) [0..<n]"

text \<open>The result of a reallocation of the block \<open>p\<close> to \<open>n\<close> bytes: the block \<open>q\<close> is in use instead of \<open>p\<close>, it is
  large enough and starts with the bytes of \<open>p\<close>; the other blocks keep their sizes and bytes.\<close>

definition block_moved :: "u32 \<Rightarrow> nat \<Rightarrow> rt_memheap \<Rightarrow> u32 list \<Rightarrow> u32 \<Rightarrow> u32 \<Rightarrow> rt_memheap \<Rightarrow> bool" where
  "block_moved p n H bs t q H' = (\<exists>bs' fs'. heap_ok H' bs' t fs' \<and> same_heap H H' \<and>
     q \<notin> in_use H bs - {p} \<and> in_use H' bs' = insert q (in_use H bs - {p}) \<and> n \<le> bsize H' q \<and>
     contents H' q (min n (bsize H p)) = contents H p (min n (bsize H p)) \<and>
     (\<forall>a \<in> in_use H bs - {p}. bsize H' a = bsize H a \<and> contents H' a (bsize H a) = contents H a (bsize H a)))"

lemma resized_moved: "block_resized p sz H bs t H' \<Longrightarrow> p \<in> in_use H bs \<Longrightarrow> block_moved p (unat sz) H bs t p H'"
  unfolding block_resized_def block_moved_def contents_def by (auto simp: insert_absorb)

lemma heap_ok_mem: "heap_ok (H\<lparr>mem := m\<rparr>) bs t fs = heap_ok H bs t fs" "bsize (H\<lparr>mem := m\<rparr>) = bsize H"
  "in_use (H\<lparr>mem := m\<rparr>) bs = in_use H bs" "same_heap G (H\<lparr>mem := m\<rparr>) = same_heap G H"
  by (simp_all add: heap_ok_def heap_links_def blk_def fre_def magic_ok_def item_is_used_def bsize_def [abs_def] in_use_def same_heap_def)

lemma copy_range:
  fixes x dst n :: u32
  assumes "x - dst < n" and "unat dst + unat n \<le> 2 ^ 32"
  shows "unat x \<in> {unat dst ..< unat dst + unat n}"
proof -
  obtain w where w: "x - dst = w" by simp
  then have x: "x = dst + w" by (simp add: algebra_simps)
  have "unat w < unat n" using assms(1) w by (simp add: word_less_nat_alt)
  then show ?thesis unfolding x using assms(2) by (simp add: unat_word_ariths)
qed

lemma payload_unat:
  assumes L: "heap_links H bs t fs" and a: "a \<in> set bs" and i: "i < bsize H a"
  shows "unat (a + 24 + of_nat i) = unat a + 24 + i" "unat (a + 24 + of_nat i) \<in> payload H a"
proof -
  have "unat a + 24 + i < 2 ^ 32" using block_size(3) [OF L a] i heap_linksD(9) [OF L] by simp
  then show "unat (a + 24 + of_nat i) = unat a + 24 + i"
    by (simp add: unat_word_ariths unat_of_nat take_bit_nat_eq_self)
  then show "unat (a + 24 + of_nat i) \<in> payload H a" using i by (simp add: payload_def)
qed

text \<open>The copy by \<^verbatim>\<open>rt_memcpy\<close> between the payloads of two blocks.\<close>

definition copy_bytes :: "u32 \<Rightarrow> u32 \<Rightarrow> u32 \<Rightarrow> rt_memheap \<Rightarrow> rt_memheap" where
  "copy_bytes dst src n H = H\<lparr>mem := (\<lambda>x. if x - dst < n then mem H (src + (x - dst)) else mem H x)\<rparr>"

lemma payload_no_overlap:
  assumes L: "heap_links H bs t fs" and q: "q \<in> set bs" "n \<le> bsize H q" and p: "p \<in> set bs" "n \<le> bsize H p" and ne: "p \<noteq> q"
  shows "no_overlap (q + 24) (p + 24) n"
proof -
  have u: "unat p < unat q \<or> unat q < unat p" using ne by (metis linorder_neqE_nat word_unat_eq_iff)
  have d: "n \<le> unat (b - a)" "n \<le> unat (a - b)" if "unat a < unat b" "unat a + 24 + n \<le> unat b" "unat b + 24 + n \<le> 2 ^ 32" for a b :: u32
  proof -
    have s: "unat (b - a) = unat b - unat a" using that(1) by (simp add: unat_sub word_le_nat_alt)
    then show "n \<le> unat (b - a)" using that(2) by simp
    have "unat (a - b) = unat a + 2 ^ 32 - unat b" using unat_shift [of "unat b" a] that(1) u32_bound [of b] by simp
    then show "n \<le> unat (a - b)" using that by linarith
  qed
  have "unat p + 24 + n \<le> 2 ^ 32" "unat q + 24 + n \<le> 2 ^ 32"
    using block_size(3) [OF L p(1)] block_size(3) [OF L q(1)] heap_linksD(9) [OF L] p(2) q(2) by linarith+
  then show ?thesis using u payload_apart [OF L p(1) q(1)] payload_apart [OF L q(1) p(1)] p(2) q(2) d [of p q] d [of q p]
    by (auto simp: no_overlap_def)
qed

lemma memcpy_payload:
  assumes "heap_links H bs t fs" and "q \<in> set bs" "unat n \<le> bsize H q" and "p \<in> set bs" "unat n \<le> bsize H p" and "p \<noteq> q"
  shows "rt_memcpy pgd (q + 24) (p + 24) n (mem H) = Some (mem (copy_bytes (q + 24) (p + 24) n H))"
  using memcpy_runs [OF payload_no_overlap [OF assms]] by (simp add: copy_bytes_def)

text \<open>The copy into a block \<open>q\<close> that is at least as large as \<open>p\<close>.\<close>

lemma copy_contents:
  assumes L: "heap_links H bs t fs" and q: "q \<in> set bs" "unat n \<le> bsize H q" and p: "p \<in> set bs" "unat n = bsize H p"
  defines "H' \<equiv> copy_bytes (q + 24) (p + 24) n H"
  shows "contents H' q (unat n) = contents H p (unat n)"
    "\<And>a. a \<in> set bs \<Longrightarrow> a \<noteq> q \<Longrightarrow> contents H' a (bsize H a) = contents H a (bsize H a)"
proof -
  have "mem H' (q + 24 + of_nat i) = mem H (p + 24 + of_nat i)" if "i < unat n" for i
  proof -
    have "unat (of_nat i :: u32) = i" using that u32_bound [of n] by (simp add: unat_of_nat take_bit_nat_eq_self)
    then have "(of_nat i :: u32) < n" using that by (simp add: word_less_nat_alt)
    then show ?thesis by (simp add: H'_def copy_bytes_def)
  qed
  then show "contents H' q (unat n) = contents H p (unat n)" by (simp add: contents_def)
  fix a assume a: "a \<in> set bs" "a \<noteq> q"
  have "\<not> (a + 24 + of_nat i) - (q + 24) < n" if i: "i < bsize H a" for i
  proof
    assume "(a + 24 + of_nat i) - (q + 24) < n"
    moreover have "unat (q + 24) = unat q + 24" by (rule user_address(1) [OF L q(1)])
    moreover have "unat q + 24 + unat n \<le> 2 ^ 32" using block_size(3) [OF L q(1)] q(2) heap_linksD(9) [OF L] by simp
    ultimately have "unat (a + 24 + of_nat i) \<in> payload H q" using copy_range [of "a + 24 + of_nat i" "q + 24" n] q(2) by (auto simp: payload_def)
    then show False using payload_unat(2) [OF L a(1) i] payload_disjoint [OF L a(1) q(1) a(2)] by auto
  qed
  then show "contents H' a (bsize H a) = contents H a (bsize H a)" by (simp add: contents_def H'_def copy_bytes_def)
qed

lemma memheap_move_runs:
  fixes sz :: u32
  assumes O: "heap_ok H bs t fs" and U: "unlocked s H" and p: "p \<in> in_use H bs" and sz: "4 dvd unat sz" "12 \<le> unat sz" "bsize H p < unat sz"
  shows "(memheap_move pgd (p + 24) (memitem_size H p) sz (s, H) = Some (Ret 0, s, H) \<and> no_block (unat sz) H fs) \<or>
     (\<exists>q H'. memheap_move pgd (p + 24) (memitem_size H p) sz (s, H) = Some (Ret (q + 24), s, H') \<and> q + 24 \<noteq> 0 \<and>
        block_moved p (unat sz) H bs t q H')"
proof -
  have le: "unat sz \<le> 2 ^ 32 - 4" using sz(1) u32_bound [of sz] by simp presburger
  have rq: "unat (request_size sz) = unat sz" using request_size_unat [OF le] sz(2) round4(5) [OF sz(1)] by simp
  have b: "p \<in> set bs" "item_is_used H p" using p by (auto simp: in_use_def)
  have m: "unat (memitem_size H p) = bsize H p" by (rule block_size(1) [OF heap_okD(1) [OF O] b(1)])
  have n: "max 12 (round4 (unat sz)) = unat sz" using sz(2) round4(5) [OF sz(1)] by simp
  consider (full) "rt_memheap_alloc sz (s, H) = Some (Ret 0, s, H)" "no_block (unat sz) H fs"
    | (got) q H1 where "rt_memheap_alloc sz (s, H) = Some (Ret (q + 24), s, H1)" "block_taken q (request_size sz) H bs t H1"
    using memheap_alloc_runs [OF O U le, unfolded n] by (auto simp: no_block_def not_le split: if_splits)
  then show ?thesis
  proof cases
    case full
    then show ?thesis by (simp add: memheap_move_def)
  next
    case got
    obtain bs1 fs1 where T: "heap_ok H1 bs1 t fs1" "same_heap H H1" "mem H1 = mem H" "q \<notin> in_use H bs"
      "in_use H1 bs1 = insert q (in_use H bs)" "unat sz \<le> bsize H1 q" "\<forall>a \<in> in_use H bs. bsize H1 a = bsize H a"
      using got(2) unfolding block_taken_def rq by blast
    note L1 = heap_okD(1) [OF T(1)]
    have q: "q \<in> set bs1" "p \<in> set bs1" "p \<noteq> q" using T(4,5) p by (auto simp: in_use_def set_eq_iff)
    have bp: "bsize H1 p = bsize H p" using T(7) p by simp
    let ?n = "memitem_size H p"
    let ?H2 = "copy_bytes (q + 24) (p + 24) ?n H1"
    have C: "contents ?H2 q (unat ?n) = contents H1 p (unat ?n)"
      "\<And>a. a \<in> set bs1 \<Longrightarrow> a \<noteq> q \<Longrightarrow> contents ?H2 a (bsize H1 a) = contents H1 a (bsize H1 a)"
      using copy_contents [OF L1 q(1) _ q(2), of ?n] T(6) sz(3) m bp by simp_all
    have 2: "heap_ok ?H2 bs1 t fs1" "unlocked s ?H2" "p \<in> in_use ?H2 bs1" "bsize ?H2 = bsize H1" "in_use ?H2 bs1 = in_use H1 bs1" "same_heap H ?H2"
      using T U p unlocked_same [OF T(2), of s] by (simp_all add: copy_bytes_def heap_ok_mem unlocked_def)
    obtain H' where H': "rt_memheap_free (p + 24) (s, ?H2) = Some (Ret (), s, H')" "block_given p ?H2 bs1 t H'"
      using memheap_free_runs [OF 2(1-3)] by blast
    obtain bs' fs' where G: "heap_ok H' bs' t fs'" "same_heap ?H2 H'" "mem H' = mem ?H2" "in_use H' bs' = in_use ?H2 bs1 - {p}"
      "\<forall>a \<in> in_use H' bs'. bsize H' a = bsize ?H2 a" using H'(2) by (auto simp: block_given_def)
    have c: "contents H' a k = contents ?H2 a k" "contents H1 a k = contents H a k" for a k using G(3) T(3) by (simp_all add: contents_def)
    have iu: "in_use H' bs' = insert q (in_use H bs - {p})" using G(4) 2(5) T(5) q(3) by auto
    have qn: "q + 24 \<noteq> 0" by (rule user_address(2) [OF L1 q(1)])
    have mv: "memheap_move pgd (p + 24) ?n sz (s, H) = Some (Ret (q + 24), s, H')"
    proof -
      have "?n < sz" using m sz(3) by (simp add: word_less_nat_alt)
      moreover have "rt_memcpy pgd (q + 24) (p + 24) ?n (mem H1) = Some (mem ?H2)"
        by (rule memcpy_payload [OF L1 q(1) _ q(2) _ q(3)]) (use m bp T(6) sz(3) in simp_all)
      moreover have "H1\<lparr>mem := mem ?H2\<rparr> = ?H2" by (simp add: copy_bytes_def)
      ultimately show ?thesis using got(1) H'(1) qn by (simp add: memheap_move_def)
    qed
    have rest: "bsize H' a = bsize H a \<and> contents H' a (bsize H a) = contents H a (bsize H a)" if "a \<in> in_use H bs - {p}" for a
    proof -
      have a: "a \<in> in_use H' bs'" "a \<in> set bs1" "a \<noteq> q" "bsize H1 a = bsize H a" using that iu T(4,5,7) by (auto simp: in_use_def set_eq_iff)
      then show ?thesis using G(5) 2(4) C(2) [OF a(2,3)] c by simp
    qed
    have "unat sz \<le> bsize H' q" using G(5) iu 2(4) T(6) by simp
    moreover have "contents H' q (bsize H p) = contents H p (bsize H p)" using C(1) c m by simp
    ultimately have "block_moved p (unat sz) H bs t q H'" unfolding block_moved_def
      using G(1) same_heap_trans [OF 2(6) G(2)] iu T(4) sz(3) rest by (auto simp: min_def)
    then show ?thesis using mv qn by blast
  qed
qed

end
