(* ===== verification/Memheap_Spec.thy ===== *)
theory Memheap_Spec
  imports Memheap_Realloc Allocator
begin

unbundle bit_operations_syntax

text \<open>
  What the memory heaps promise: the states of a heap, what each operation does to the blocks in use,
  and every sequence of operations as a run of an abstract allocator, a set of pointers.
\<close>

lemma same_heap_refl: "same_heap H H"
  by (simp add: same_heap_def)

lemma moved_same:
  assumes "heap_ok H bs t fs" and "p \<in> in_use H bs" and "n \<le> bsize H p"
  shows "block_moved p n H bs t p H"
  unfolding block_moved_def using assms same_heap_refl by (intro exI [of _ bs] exI [of _ fs]) (auto simp: insert_absorb)

lemma memheap_realloc_runs:
  assumes O: "heap_ok H bs t fs" and U: "unlocked s H" and p: "p \<in> in_use H bs" and sz: "0 < unat sz" "unat sz \<le> 2 ^ 32 - 16"
  defines "n \<equiv> max 12 (round4 (unat sz))"
  shows "(bsize H p < n \<and> no_growth n H p \<and> no_block n H fs \<and> rt_memheap_realloc pgd (p + 24) sz (s, H) = Some (Ret 0, s, H)) \<or>
     (\<exists>q H'. rt_memheap_realloc pgd (p + 24) sz (s, H) = Some (Ret (q + 24), s, H') \<and> q + 24 \<noteq> 0 \<and> block_moved p n H bs t q H')"
proof -
  note d = heap_okD [OF O]
  have b: "p \<in> set bs" "item_is_used H p" using p by (auto simp: in_use_def)
  have ty: "obj_class (heap_obj H) s = RT_Object_Class_MemHeap" using U by (simp add: unlocked_def)
  define w where "w = request_size sz"
  have w: "unat w = n" using request_size_unat [of sz] sz(2) by (simp add: w_def n_def)
  have n: "12 \<le> unat w" "4 dvd unat w" "unat w \<le> 2 ^ 32 - 16"
    unfolding w n_def using round4(2) [of "unat sz"] round4(4) [of "2 ^ 32 - 16" "unat sz"] sz(2) by (auto simp: max_def)
  have m: "unat (memitem_size H p) = bsize H p" by (rule block_size(1) [OF d(1) b(1)])
  have z: "sz \<noteq> 0" "p + 24 \<noteq> 0" using sz(1) user_address(2) [OF d(1) b(1)] by auto
  have re: "rt_memheap_realloc pgd (p + 24) sz (s, H) =
      (if memitem_size H p < w then do {
           (r, sH) \<leftarrow> locked (\<lambda>G. map_option (\<lambda>(q, G). (Some q, G)) (memheap_grow (p + 24) (memitem_size H p) w G)) None (s, H);
           case r of
             Blocked \<Rightarrow> Some (Blocked, sH)
           | Ret None \<Rightarrow> Some (Ret 0, sH)
           | Ret (Some (Some q)) \<Rightarrow> Some (Ret q, sH)
           | Ret (Some None) \<Rightarrow> memheap_move pgd (p + 24) (memitem_size H p) w sH }
         else if memitem_size H p \<le> w + 24 + 12 then Some (Ret (p + 24), s, H)
         else locked (memheap_shrink (p + 24) w) 0 (s, H))"
    using ty z unfolding w_def by (simp add: rt_memheap_realloc_def Let_def)
  have lw: "memitem_size H p < w \<longleftrightarrow> bsize H p < n" using m w by (simp add: word_less_nat_alt)
  show ?thesis
  proof (cases "bsize H p < n")
    case True
    let ?body = "\<lambda>H'. map_option (\<lambda>(q, H). (Some q, H)) (memheap_grow (p + 24) (memitem_size H p) w H')"
    note M = memheap_move_runs [OF O U p n(2,1)] and G = memheap_grow_effect [OF O p n(1,2) _ n(3)]
    from G True w consider "memheap_grow (p + 24) (memitem_size H p) w H = Some (None, H)" "no_growth n H p"
      | H' where "memheap_grow (p + 24) (memitem_size H p) w H = Some (Some (p + 24), H')" "block_resized p w H bs t H'" by auto
    then show ?thesis
    proof cases
      case 1
      then have "locked ?body None (s, H) = Some (Ret (Some None), s, H)" by (intro locked_runs U) simp_all
      then show ?thesis using re lw True M w 1(2) by auto
    next
      case 2
      then have "heap_lock H' = heap_lock H" by (auto simp: block_resized_def same_heap_def)
      then have "locked ?body None (s, H) = Some (Ret (Some (Some (p + 24))), s, H')" using 2(1) by (intro locked_runs U) simp_all
      then show ?thesis using re lw True resized_moved [OF 2(2) p] z(2) w by auto
    qed
  next
    case False
    have "unat (w + 24 + 12) = n + 36"
      using False w block_size(3) [OF d(1) b(1)] heap_linksD(9) [OF d(1)] by (simp add: unat_word_ariths)
    then have lw2: "memitem_size H p \<le> w + 24 + 12 \<longleftrightarrow> bsize H p \<le> n + 36" using m by (simp add: word_le_nat_alt)
    show ?thesis
    proof (cases "bsize H p \<le> n + 36")
      case True
      then show ?thesis using re lw lw2 False z(2) moved_same [OF O p, of n] by auto
    next
      case big: False
      then obtain H' where H': "memheap_shrink (p + 24) w H = Some (p + 24, H')" "block_resized p w H bs t H'"
        using memheap_shrink_effect [OF O p n(1,2)] w by auto
      have "heap_lock H' = heap_lock H" using H'(2) by (auto simp: block_resized_def same_heap_def)
      then have "locked (memheap_shrink (p + 24) w) 0 (s, H) = Some (Ret (p + 24), s, H')" by (intro locked_runs U H'(1))
      then show ?thesis using re lw lw2 False big resized_moved [OF H'(2) p] z(2) w by auto
    qed
  qed
qed

lemma heap_empty:
  assumes O: "heap_ok H bs t fs" and e: "in_use H bs = {}"
  shows "bs = [start_addr H] \<and> fs = [start_addr H] \<and> unat (available_size H) = unat (pool_size H) - 48"
proof -
  note d = heap_okD [OF O]
  have f: "\<not> item_is_used H a" if "a \<in> set bs" for a using e that by (auto simp: in_use_def)
  obtain a qs where a: "bs = a # qs" using heap_linksD(5) [OF d(1)] by (cases bs) auto
  have bs: "bs = [start_addr H]" using a f d(4) heap_linksD(6) [OF d(1)] by (cases qs) auto
  have "distinct fs" "set fs = {start_addr H}"
    using heap_linksD(2) [OF d(1)] d(2) f bs by (auto simp: ring_def free_blocks_def)
  then have fs: "fs = [start_addr H]" by (cases fs; cases "tl fs") (auto simp: insert_eq_iff)
  have "mi_next (items H (start_addr H)) = t" using block_next(1) [of H "[]" "start_addr H" "[]" t fs] d(1) bs by simp
  then have "bsize H (start_addr H) = unat (pool_size H) - 48" using heap_linksD(8) [OF d(1)] by (simp add: bsize_def)
  then show ?thesis using bs fs d(3) by simp
qed

subsection \<open>A sample heap\<close>

definition raw_heap :: rt_memheap where
  "raw_heap = \<lparr>start_addr = 0, pool_size = 0, available_size = 0, max_used_size = 0, block_list = 0, free_list = 0,
     free_header = 0x10, heap_obj = 50, heap_lock = 51,
     items = \<lambda>_. \<lparr>magic = 0, pool_ptr = None, mi_next = 0, mi_prev = 0, next_free = 0, prev_free = 0\<rparr>, mem = \<lambda>a. ucast a\<rparr>"

definition sample_heap :: rt_memheap where
  "sample_heap = memheap_build 0x1000 0x200 raw_heap"

text \<open>The heap after an allocation of 100 bytes, and a kernel in which its objects are registered.\<close>

definition used_heap :: rt_memheap where
  "used_heap = (case memheap_take 100 sample_heap of Some (_, H) \<Rightarrow> H | None \<Rightarrow> sample_heap)"

definition heap_kernel :: kernel where
  "heap_kernel = upd_sem 51 (\<lambda>_. 1) (upd_object (Obj 50) (\<lambda>ob. ob\<lparr>obj_type := 0x87\<rparr>)
     (upd_object (Obj 51) (\<lambda>ob. ob\<lparr>obj_type := 0x82\<rparr>) sample))"

lemma heap_kernel_unlocked: "unlocked heap_kernel sample_heap" "unlocked heap_kernel used_heap"
proof -
  have "heap_obj sample_heap = 50" "heap_lock sample_heap = 51" "heap_obj used_heap = 50" "heap_lock used_heap = 51" by code_simp+
  moreover have "tlists heap_kernel (SemQ 51) = []" 
    using sample_ipc_lists [of "SemQ 51"] by (simp add: heap_kernel_def ipc_head_def)
  moreover have "sem_value (sems heap_kernel 51) = 1" by (simp add: heap_kernel_def)
  moreover have "obj_class 50 heap_kernel = 7" "obj_class 51 heap_kernel = 2"
    by (simp_all add: heap_kernel_def obj_class_def rt_object_get_type_def)
  ultimately show "unlocked heap_kernel sample_heap" "unlocked heap_kernel used_heap" by (simp_all add: unlocked_def)
qed

lemma used_heap_items:
  "items used_heap 0x10 = \<lparr>magic = 0x1ea01ea0, pool_ptr = Some 50, mi_next = 0, mi_prev = 0, next_free = 0x107C, prev_free = 0x107C\<rparr>"
  "items used_heap 0x1000 = \<lparr>magic = 0x1ea01ea1, pool_ptr = Some 50, mi_next = 0x107C, mi_prev = 0x11E8, next_free = 0, prev_free = 0\<rparr>"
  "items used_heap 0x107C = \<lparr>magic = 0x1ea01ea0, pool_ptr = Some 50, mi_next = 0x11E8, mi_prev = 0x1000, next_free = 0x10, prev_free = 0x10\<rparr>"
  "items used_heap 0x11E8 = \<lparr>magic = 0x1ea01ea1, pool_ptr = Some 50, mi_next = 0x1000, mi_prev = 0x107C, next_free = 0, prev_free = 0\<rparr>"
  "start_addr used_heap = 0x1000" "pool_size used_heap = 0x200" "available_size used_heap = 340" "free_list used_heap = 0x10"
  "heap_obj used_heap = 50"
  by code_simp+

lemma used_heap_ok: "heap_ok used_heap [0x1000, 0x107C] 0x11E8 [0x107C]" "in_use used_heap [0x1000, 0x107C] = {0x1000}"
proof -
  have "heap_links used_heap [0x1000, 0x107C] 0x11E8 [0x107C]"
    by (simp add: heap_links_def ring_def apart_def magic_ok_def item_is_used_def used_heap_items)
  moreover have u: "item_is_used used_heap 0x1000" "\<not> item_is_used used_heap 0x107C" by (simp_all add: item_is_used_def used_heap_items)
  ultimately show "heap_ok used_heap [0x1000, 0x107C] 0x11E8 [0x107C]"
    by (auto simp: heap_ok_def bsize_def used_heap_items)
  show "in_use used_heap [0x1000, 0x107C] = {0x1000}" using u by (auto simp: in_use_def)
qed

subsection \<open>The operations\<close>

text \<open>\<^verbatim>\<open>rt_memheap_init\<close> of a pool that is aligned, not at address 0, at least 60 bytes long and apart
  from the heap object succeeds on a running kernel and leaves a heap whose two rings are intact, whose
  lock is free and whose only block is free and has all bytes of the pool, rounded down to a multiple of
  4, but those of two headers.\<close>

theorem memheap_init_ready:
  assumes "sched_inv s" and "live s" and "pool_ok start sz H" and "rt_strncpy name RT_NAME_MAX = Some nm"
    and "heap_obj H \<noteq> heap_lock H" and "Obj (heap_obj H) \<notin> set (containers s 6)" and "Obj (heap_lock H) \<notin> set (containers s 1)"
  shows "\<exists>s' H' t. rt_memheap_init name start sz (s, H) = Some (RT_EOK, s', H') \<and> unlocked s' H' \<and>
     heap_ok H' [start] t [start] \<and> in_use H' [start] = {} \<and> bsize H' start = 4 * (unat sz div 4) - 48"
  using memheap_init_runs [OF assms] memheap_build_ok [OF assms(3)] by blast

theorem memheap_init_ready_witness:
  "\<exists>s' H' t. rt_memheap_init [104, 0] 0x1000 0x203 (sample, raw_heap) = Some (RT_EOK, s', H') \<and> unlocked s' H' \<and>
     heap_ok H' [0x1000] t [0x1000] \<and> in_use H' [0x1000] = {} \<and> bsize H' 0x1000 = 4 * (unat (0x203 :: u32) div 4) - 48"
proof (rule memheap_init_ready)
  show "pool_ok 0x1000 0x203 raw_heap" by (simp add: pool_ok_def raw_heap_def)
  show "rt_strncpy [104, 0] RT_NAME_MAX = Some (104 # replicate 15 0)" by code_simp
  show "Obj (heap_obj raw_heap) \<notin> set (containers sample 6)" "Obj (heap_lock raw_heap) \<notin> set (containers sample 1)"
    by (simp_all add: sample_def sample_ready_def resumed_def sample_base_def)
qed (use kinvD(1) [OF sample_kinv] sample_live in \<open>simp_all add: raw_heap_def\<close>)

text \<open>What a request is rounded to: a multiple of 4 and at least 12 bytes, where the rounding wraps around above \<open>2^32 - 4\<close>.\<close>

definition granted :: "nat \<Rightarrow> nat" where
  "granted n = (if n \<le> 2 ^ 32 - 4 then max 12 (round4 n) else 12)"

lemma granted_ge: "n \<le> 2 ^ 32 - 4 \<Longrightarrow> n \<le> granted n"
  using round4(1) [of n] by (simp add: granted_def)

lemma request_size_wraps:
  assumes "2 ^ 32 - 4 < unat sz"
  shows "request_size sz = 12"
proof -
  have "unat sz < 2 ^ 32" using unsigned_less [of sz] by simp
  then have "unat sz = 2 ^ 32 - 3 \<or> unat sz = 2 ^ 32 - 2 \<or> unat sz = 2 ^ 32 - 1" using assms by simp arith
  then have "sz = of_nat (2 ^ 32 - 3) \<or> sz = of_nat (2 ^ 32 - 2) \<or> sz = of_nat (2 ^ 32 - 1)"
    using word_unat_eq_iff [of sz] by (auto simp: unat_of_nat)
  then show ?thesis by (elim disjE) (simp_all add: request_size_def RT_ALIGN4_def)
qed

lemma request_granted:
  "\<exists>sz'. unat sz' \<le> 2 ^ 32 - 4 \<and> max 12 (round4 (unat sz')) = granted (unat sz) \<and> rt_memheap_alloc sz = rt_memheap_alloc sz'"
proof (cases "unat sz \<le> 2 ^ 32 - 4")
  case False
  then have "request_size sz = request_size 12" using request_size_wraps [of sz] by (simp add: request_size_def RT_ALIGN4_def)
  moreover have "max 12 (round4 (unat (12 :: u32))) = 12" by (simp add: round4_def)
  ultimately show ?thesis using False by (intro exI [of _ 12]) (simp add: granted_def rt_memheap_alloc_def)
qed (auto simp: granted_def)

text \<open>C13: \<^verbatim>\<open>rt_memheap_alloc\<close>, for every size, on a heap whose lock is free, returns a block exactly when the rounded request
  is less than the available bytes and no larger than some free block; otherwise it returns the null pointer and changes
  nothing. The block has at least as many bytes as the rounded request, is aligned, inside the pool and apart from the
  blocks in use, which keep their places and bytes; the two rings and the count of the available bytes stay intact. The
  request is rounded up to a multiple of 4 and to at least 12 bytes; but above \<open>2^32 - 4\<close> bytes the rounding wraps around
  and it becomes 12, so a client that asks for that much gets a block of 12 bytes or more, not the null pointer.\<close>

theorem memheap_alloc_effect:
  assumes O: "heap_ok H bs t fs" and U: "unlocked s H"
  shows "if granted (unat sz) < unat (available_size H) \<and> (\<exists>a \<in> set fs. granted (unat sz) \<le> bsize H a)
     then \<exists>p H' bs' fs'. rt_memheap_alloc sz (s, H) = Some (Ret (p + 24), s, H') \<and> p + 24 \<noteq> 0 \<and> heap_ok H' bs' t fs' \<and> mem H' = mem H \<and>
       p \<notin> in_use H bs \<and> in_use H' bs' = insert p (in_use H bs) \<and> granted (unat sz) \<le> bsize H' p \<and> 4 dvd unat (p + 24) \<and>
       (unat sz \<le> 2 ^ 32 - 4 \<longrightarrow> unat sz \<le> bsize H' p) \<and>
       payload H' p \<subseteq> {unat (start_addr H) ..< unat (start_addr H) + unat (pool_size H)} \<and>
       (\<forall>a \<in> in_use H bs. payload H' a = payload H a \<and> payload H' a \<inter> payload H' p = {})
     else rt_memheap_alloc sz (s, H) = Some (Ret 0, s, H)"
proof -
  obtain sz' where sz: "unat sz' \<le> 2 ^ 32 - 4" "max 12 (round4 (unat sz')) = granted (unat sz)"
    "rt_memheap_alloc sz = rt_memheap_alloc sz'"
    using request_granted by blast
  note runs = memheap_alloc_runs [OF O U sz(1), unfolded sz(2), folded sz(3)]
  show ?thesis
  proof (cases "granted (unat sz) < unat (available_size H) \<and> (\<exists>a \<in> set fs. granted (unat sz) \<le> bsize H a)")
    case False
    then show ?thesis using runs by (simp only: if_False)
  next
    case True
    then obtain p H' where r: "rt_memheap_alloc sz (s, H) = Some (Ret (p + 24), s, H')" "block_taken p (request_size sz') H bs t H'"
      using runs by auto
    have n: "unat (request_size sz') = granted (unat sz)" using request_size_unat [OF sz(1)] sz(2) by simp
    obtain bs' fs' where T: "heap_ok H' bs' t fs'" "same_heap H H'" "mem H' = mem H" "p \<notin> in_use H bs"
      "in_use H' bs' = insert p (in_use H bs)" "granted (unat sz) \<le> bsize H' p" "\<forall>a \<in> in_use H bs. bsize H' a = bsize H a"
      using r(2) unfolding block_taken_def n by blast
    note L = heap_okD(1) [OF T(1)]
    have m: "a \<in> set bs'" if "a \<in> insert p (in_use H bs)" for a using T(5) that by (auto simp: in_use_def)
    have "payload H' a \<inter> payload H' p = {}" if "a \<in> in_use H bs" for a
      by (rule payload_disjoint [OF L]) (use m that T(4) in auto)
    moreover have "payload H' p \<subseteq> {unat (start_addr H) ..< unat (start_addr H) + unat (pool_size H)}"
      using payload_pool [OF L, of p] m T(2) by (fastforce simp: same_heap_def)
    moreover have "payload H' a = payload H a" if "a \<in> in_use H bs" for a using T(7) that by (simp add: payload_def)
    moreover have "p + 24 \<noteq> 0" "4 dvd unat (p + 24)" using user_address(2,3) [OF L, of p] m by auto
    moreover have "unat sz \<le> 2 ^ 32 - 4 \<longrightarrow> unat sz \<le> bsize H' p"
      using order_trans [OF granted_ge T(6)] by blast
    ultimately show ?thesis using True r(1) T by auto
  qed
qed

theorem memheap_alloc_effect_witness:
  "if granted (unat (40 :: u32)) < unat (available_size used_heap) \<and>
      (\<exists>a \<in> set [0x107C]. granted (unat (40 :: u32)) \<le> bsize used_heap a)
     then \<exists>p H' bs' fs'. rt_memheap_alloc 40 (heap_kernel, used_heap) = Some (Ret (p + 24), heap_kernel, H') \<and> p + 24 \<noteq> 0 \<and>
       heap_ok H' bs' 0x11E8 fs' \<and> mem H' = mem used_heap \<and>
       p \<notin> in_use used_heap [0x1000, 0x107C] \<and> in_use H' bs' = insert p (in_use used_heap [0x1000, 0x107C]) \<and>
       granted (unat (40 :: u32)) \<le> bsize H' p \<and> 4 dvd unat (p + 24) \<and>
       (unat (40 :: u32) \<le> 2 ^ 32 - 4 \<longrightarrow> unat (40 :: u32) \<le> bsize H' p) \<and>
       payload H' p \<subseteq> {unat (start_addr used_heap) ..< unat (start_addr used_heap) + unat (pool_size used_heap)} \<and>
       (\<forall>a \<in> in_use used_heap [0x1000, 0x107C]. payload H' a = payload used_heap a \<and> payload H' a \<inter> payload H' p = {})
     else rt_memheap_alloc 40 (heap_kernel, used_heap) = Some (Ret 0, heap_kernel, used_heap)"
  by (rule memheap_alloc_effect [OF used_heap_ok(1) heap_kernel_unlocked(2)])

text \<open>\<^verbatim>\<open>rt_memheap_free\<close> of a block in use, on a heap whose lock is free, succeeds: exactly this block is no
  longer in use, the others keep their places and bytes, and the freed block is merged with its free
  neighbours, so that no two free blocks touch. When it was the last block in use, one free block has the
  whole pool again.\<close>

theorem memheap_free_effect:
  assumes O: "heap_ok H bs t fs" and U: "unlocked s H" and p: "p \<in> in_use H bs"
  shows "\<exists>H' bs' fs'. rt_memheap_free (p + 24) (s, H) = Some (Ret (), s, H') \<and> heap_ok H' bs' t fs' \<and> mem H' = mem H \<and>
     in_use H' bs' = in_use H bs - {p} \<and> (\<forall>a \<in> in_use H' bs'. payload H' a = payload H a) \<and>
     (in_use H bs = {p} \<longrightarrow> fs' = [start_addr H] \<and> unat (available_size H') = unat (pool_size H) - 48)"
proof -
  obtain H' bs' fs' where G: "rt_memheap_free (p + 24) (s, H) = Some (Ret (), s, H')" "heap_ok H' bs' t fs'" "same_heap H H'"
    "mem H' = mem H" "in_use H' bs' = in_use H bs - {p}" "\<forall>a \<in> in_use H' bs'. bsize H' a = bsize H a"
    using memheap_free_runs [OF O U p] by (auto simp: block_given_def)
  have "fs' = [start_addr H] \<and> unat (available_size H') = unat (pool_size H) - 48" if "in_use H bs = {p}"
    using heap_empty [OF G(2)] G(3,5) that by (simp add: same_heap_def)
  then show ?thesis using G by (intro exI [of _ H'] exI [of _ bs'] exI [of _ fs']) (simp add: payload_def)
qed

theorem memheap_free_effect_witness:
  "\<exists>H' bs' fs'. rt_memheap_free (0x1000 + 24) (heap_kernel, used_heap) = Some (Ret (), heap_kernel, H') \<and> heap_ok H' bs' 0x11E8 fs' \<and>
     mem H' = mem used_heap \<and> in_use H' bs' = in_use used_heap [0x1000, 0x107C] - {0x1000} \<and>
     (\<forall>a \<in> in_use H' bs'. payload H' a = payload used_heap a) \<and>
     (in_use used_heap [0x1000, 0x107C] = {0x1000} \<longrightarrow>
        fs' = [start_addr used_heap] \<and> unat (available_size H') = unat (pool_size used_heap) - 48)"
  by (rule memheap_free_effect [OF used_heap_ok(1) heap_kernel_unlocked(2)]) (simp add: used_heap_ok(2))

text \<open>C14: \<^verbatim>\<open>rt_memheap_realloc\<close> of a block in use to a size of at most \<open>2^32 - 16\<close> bytes, on a heap whose lock is free. The
  size 0 releases the block and returns the null pointer; exactly that block is no longer in use. For any other size it
  either returns a block of that size at least that starts with the bytes of the old one, in place or moved, with every
  other block in use left as it is; or it returns the null pointer and changes nothing, which happens only when the block
  has to grow, it is not followed by a free block that makes it large enough with more than 12 bytes to spare, and
  \<^verbatim>\<open>rt_memheap_alloc\<close> would find no block of the rounded size either.\<close>

theorem memheap_realloc_effect:
  assumes "heap_ok H bs t fs" and "unlocked s H" and "p \<in> in_use H bs" and "unat sz \<le> 2 ^ 32 - 16"
  shows "if sz = 0
     then \<exists>H' bs' fs'. rt_memheap_realloc pgd (p + 24) sz (s, H) = Some (Ret 0, s, H') \<and> heap_ok H' bs' t fs' \<and> mem H' = mem H \<and>
       in_use H' bs' = in_use H bs - {p} \<and> (\<forall>a \<in> in_use H' bs'. bsize H' a = bsize H a)
     else (bsize H p < max 12 (round4 (unat sz)) \<and> no_growth (max 12 (round4 (unat sz))) H p \<and> no_block (max 12 (round4 (unat sz))) H fs \<and>
        rt_memheap_realloc pgd (p + 24) sz (s, H) = Some (Ret 0, s, H)) \<or>
     (\<exists>q H' bs' fs'. rt_memheap_realloc pgd (p + 24) sz (s, H) = Some (Ret (q + 24), s, H') \<and> q + 24 \<noteq> 0 \<and> heap_ok H' bs' t fs' \<and>
       q \<notin> in_use H bs - {p} \<and> in_use H' bs' = insert q (in_use H bs - {p}) \<and> unat sz \<le> bsize H' q \<and>
       contents H' q (min (unat sz) (bsize H p)) = contents H p (min (unat sz) (bsize H p)) \<and>
       (\<forall>a \<in> in_use H bs - {p}. bsize H' a = bsize H a \<and> contents H' a (bsize H a) = contents H a (bsize H a)))"
proof (cases "sz = 0")
  case True
  obtain H' bs' fs' where G: "rt_memheap_free (p + 24) (s, H) = Some (Ret (), s, H')" "heap_ok H' bs' t fs'"
    "mem H' = mem H" "in_use H' bs' = in_use H bs - {p}" "\<forall>a \<in> in_use H' bs'. bsize H' a = bsize H a"
    using memheap_free_runs [OF assms(1-3)] by (auto simp: block_given_def)
  have "rt_memheap_realloc pgd (p + 24) 0 (s, H) = Some (Ret 0, s, H')"
    using assms(2) G(1) by (simp add: rt_memheap_realloc_def unlocked_def)
  then show ?thesis using True G by auto
next
  case False
  then have pos: "0 < unat sz" by (simp add: unat_gt_0)
  let ?n = "max 12 (round4 (unat sz))"
  have n: "unat sz \<le> ?n" using round4(1) [of "unat sz"] by simp
  have c: "contents H' q (min (unat sz) (bsize H p)) = contents H p (min (unat sz) (bsize H p))"
    if "contents H' q (min ?n (bsize H p)) = contents H p (min ?n (bsize H p))" for H' q
  proof -
    have "contents G a (min (unat sz) (bsize H p)) = take (min (unat sz) (bsize H p)) (contents G a (min ?n (bsize H p)))" for G a
      using n by (simp add: contents_def take_map min_def)
    then show ?thesis using that by simp
  qed
  show ?thesis unfolding if_not_P [OF False] using memheap_realloc_runs [OF assms(1-3) pos assms(4)]
    unfolding block_moved_def using c order_trans [OF n] by blast
qed

theorem memheap_realloc_effect_witness:
  "if (200 :: u32) = 0
     then \<exists>H' bs' fs'. rt_memheap_realloc (\<lambda>_. 0) (0x1000 + 24) 200 (heap_kernel, used_heap) = Some (Ret 0, heap_kernel, H') \<and>
       heap_ok H' bs' 0x11E8 fs' \<and> mem H' = mem used_heap \<and> in_use H' bs' = in_use used_heap [0x1000, 0x107C] - {0x1000} \<and>
       (\<forall>a \<in> in_use H' bs'. bsize H' a = bsize used_heap a)
     else (bsize used_heap 0x1000 < max 12 (round4 (unat (200 :: u32))) \<and>
      no_growth (max 12 (round4 (unat (200 :: u32)))) used_heap 0x1000 \<and> no_block (max 12 (round4 (unat (200 :: u32)))) used_heap [0x107C] \<and>
      rt_memheap_realloc (\<lambda>_. 0) (0x1000 + 24) 200 (heap_kernel, used_heap) = Some (Ret 0, heap_kernel, used_heap)) \<or>
     (\<exists>q H' bs' fs'. rt_memheap_realloc (\<lambda>_. 0) (0x1000 + 24) 200 (heap_kernel, used_heap) = Some (Ret (q + 24), heap_kernel, H') \<and>
       q + 24 \<noteq> 0 \<and> heap_ok H' bs' 0x11E8 fs' \<and>
       q \<notin> in_use used_heap [0x1000, 0x107C] - {0x1000} \<and> in_use H' bs' = insert q (in_use used_heap [0x1000, 0x107C] - {0x1000}) \<and>
       unat (200 :: u32) \<le> bsize H' q \<and>
       contents H' q (min (unat (200 :: u32)) (bsize used_heap 0x1000)) =
         contents used_heap 0x1000 (min (unat (200 :: u32)) (bsize used_heap 0x1000)) \<and>
       (\<forall>a \<in> in_use used_heap [0x1000, 0x107C] - {0x1000}. bsize H' a = bsize used_heap a \<and>
          contents H' a (bsize used_heap a) = contents used_heap a (bsize used_heap a)))"
  by (rule memheap_realloc_effect [OF used_heap_ok(1) heap_kernel_unlocked(2)]) (simp_all add: used_heap_ok(2))

subsection \<open>Sequences of operations\<close>

text \<open>The heap as an allocator: a call that blocks or fails an assertion counts as no result.\<close>

definition heap_alloc :: "u32 \<Rightarrow> kernel \<times> rt_memheap \<Rightarrow> (u32 option \<times> kernel \<times> rt_memheap) option" where
  "heap_alloc sz sH = (case rt_memheap_alloc sz sH of Some (Ret r, sH') \<Rightarrow> Some (if r = 0 then None else Some r, sH') | _ \<Rightarrow> None)"

definition heap_release :: "u32 \<Rightarrow> kernel \<times> rt_memheap \<Rightarrow> (kernel \<times> rt_memheap) option" where
  "heap_release p sH = (case rt_memheap_free p sH of Some (Ret _, sH') \<Rightarrow> Some sH' | _ \<Rightarrow> None)"

definition heap_state :: "u32 \<Rightarrow> kernel \<times> rt_memheap \<Rightarrow> u32 set \<Rightarrow> bool" where
  "heap_state n sH L = (case sH of (s, H) \<Rightarrow> unlocked s H \<and> pool_size H = n \<and>
     (\<exists>bs t fs. heap_ok H bs t fs \<and> L = (\<lambda>a. a + 24) ` in_use H bs))"

lemma heap_stateI:
  "\<lbrakk>L = (\<lambda>a. a + 24) ` in_use H' bs; heap_ok H' bs t fs; same_heap H H'; unlocked s H; pool_size H = n\<rbrakk> \<Longrightarrow> heap_state n (s, H') L"
  unfolding heap_state_def using unlocked_same [of H H' s] by (auto simp: same_heap_def)

lemma heap_alloc_law:
  assumes "heap_state n sH L" and sz: "unat sz \<le> 2 ^ 32 - 4"
  shows "\<exists>q sH'. heap_alloc sz sH = Some (q, sH') \<and>
     (case q of None \<Rightarrow> heap_state n sH' L | Some p \<Rightarrow> p \<notin> L \<and> heap_state n sH' (insert p L))"
proof -
  obtain s H bs t fs where sH: "sH = (s, H)" and U: "unlocked s H" and O: "heap_ok H bs t fs" and L: "L = (\<lambda>a. a + 24) ` in_use H bs"
    and n: "pool_size H = n" using assms(1) by (auto simp: heap_state_def)
  consider (full) "rt_memheap_alloc sz (s, H) = Some (Ret 0, s, H)"
    | (got) q H' where "rt_memheap_alloc sz (s, H) = Some (Ret (q + 24), s, H')" "block_taken q (request_size sz) H bs t H'"
    using memheap_alloc_runs [OF O U sz] by (auto split: if_splits)
  then show ?thesis
  proof cases
    case full
    then show ?thesis using assms(1) sH by (simp add: heap_alloc_def)
  next
    case got
    obtain bs' fs' where T: "heap_ok H' bs' t fs'" "same_heap H H'" "q \<notin> in_use H bs" "in_use H' bs' = insert q (in_use H bs)"
      using got(2) by (auto simp: block_taken_def)
    have "q \<in> set bs'" using T(4) by (auto simp: in_use_def)
    then have "q + 24 \<noteq> 0" by (rule user_address(2) [OF heap_okD(1) [OF T(1)]])
    moreover have "q + 24 \<notin> L" using T(3) L by auto
    moreover have "insert (q + 24) L = (\<lambda>a. a + 24) ` in_use H' bs'" using L T(4) by simp
    then have "heap_state n (s, H') (insert (q + 24) L)" by (rule heap_stateI [OF _ T(1,2) U n])
    ultimately show ?thesis using got(1) sH by (simp add: heap_alloc_def)
  qed
qed

lemma heap_release_law:
  assumes "heap_state n sH L" and p: "p \<in> L"
  shows "\<exists>sH'. heap_release p sH = Some sH' \<and> heap_state n sH' (L - {p})"
proof -
  obtain s H bs t fs where sH: "sH = (s, H)" and U: "unlocked s H" and O: "heap_ok H bs t fs" and L: "L = (\<lambda>a. a + 24) ` in_use H bs"
    and n: "pool_size H = n" using assms(1) by (auto simp: heap_state_def)
  obtain q where q: "q \<in> in_use H bs" "p = q + 24" using p L by auto
  obtain H' bs' fs' where G: "rt_memheap_free p (s, H) = Some (Ret (), s, H')" "heap_ok H' bs' t fs'" "same_heap H H'"
    "in_use H' bs' = in_use H bs - {q}" using memheap_free_runs [OF O U q(1)] unfolding block_given_def q(2) by blast
  have "L - {p} = (\<lambda>a. a + 24) ` in_use H' bs'"
    unfolding L q(2) G(4) by (subst image_set_diff) (simp_all add: inj_def)
  then have "heap_state n (s, H') (L - {p})" by (rule heap_stateI [OF _ G(2,3) U n])
  then show ?thesis using G(1) sH by (simp add: heap_release_def)
qed

interpretation mh: allocator "heap_state n" "\<lambda>sz. unat sz \<le> 2 ^ 32 - 4" heap_alloc heap_release
  by unfold_locales (use heap_alloc_law heap_release_law in blast)+

text \<open>C12: Every sequence of allocations of at most \<open>2^32 - 4\<close> bytes and of releases on an initialised heap runs to its end: no call blocks or fails
  an assertion, the pointers the client holds are distinct and are those of the blocks in use, and the heap's
  rings and counts are intact. When the client then gives everything back, one free block has the whole pool
  again, but for two headers: nothing is lost to fragmentation.\<close>

theorem memheap_sequences:
  assumes "pool_ok start sz H" and "unlocked s (memheap_build start sz H)" and "\<And>r. Get r \<in> set cs \<Longrightarrow> unat r \<le> 2 ^ 32 - 4"
  shows "\<exists>s' H' ps bs t fs s2 H2 t2. serve heap_alloc heap_release cs ((s, memheap_build start sz H), []) = Some ((s', H'), ps) \<and>
     distinct ps \<and> heap_ok H' bs t fs \<and> set ps = (\<lambda>a. a + 24) ` in_use H' bs \<and>
     serve heap_alloc heap_release (replicate (length ps) (Put 0)) ((s', H'), ps) = Some ((s2, H2), []) \<and>
     heap_ok H2 [start_addr H2] t2 [start_addr H2] \<and> unat (available_size H2) = 4 * (unat sz div 4) - 48"
proof -
  let ?n = "pool_size (memheap_build start sz H)"
  have n: "unat ?n = 4 * (unat sz div 4)" and "heap_state ?n (s, memheap_build start sz H) (set [])"
    using memheap_build_ok [OF assms(1)] assms(2) by (auto simp: heap_state_def)
  then obtain s' H' ps where 1: "serve heap_alloc heap_release cs ((s, memheap_build start sz H), []) = Some ((s', H'), ps)"
    "heap_state ?n (s', H') (set ps)" "distinct ps"
    using mh.serve_safe [of ?n "(s, memheap_build start sz H)" "[]" cs] assms(3) by auto
  obtain s2 H2 where 2: "serve heap_alloc heap_release (replicate (length ps) (Put 0)) ((s', H'), ps) = Some ((s2, H2), [])"
    "heap_state ?n (s2, H2) {}" using mh.serve_return [OF 1(2,3)] by auto
  obtain bs t fs where h: "heap_ok H' bs t fs" "set ps = (\<lambda>a. a + 24) ` in_use H' bs" using 1(2) by (auto simp: heap_state_def)
  obtain bs2 t2 fs2 where h2: "heap_ok H2 bs2 t2 fs2" "in_use H2 bs2 = {}" "pool_size H2 = ?n" using 2(2) by (auto simp: heap_state_def)
  note E = heap_empty [OF h2(1,2)]
  have "heap_ok H2 [start_addr H2] t2 [start_addr H2]" "unat (available_size H2) = 4 * (unat sz div 4) - 48" using h2 E n by simp_all
  then show ?thesis using 1(1,3) 2(1) h by blast
qed

theorem memheap_sequences_witness:
  "\<exists>s' H' ps bs t fs s2 H2 t2. serve heap_alloc heap_release [Get 100, Get 20, Put 0, Get 300] ((heap_kernel, memheap_build 0x1000 0x200 raw_heap), []) = Some ((s', H'), ps) \<and>
     distinct ps \<and> heap_ok H' bs t fs \<and> set ps = (\<lambda>a. a + 24) ` in_use H' bs \<and>
     serve heap_alloc heap_release (replicate (length ps) (Put 0)) ((s', H'), ps) = Some ((s2, H2), []) \<and>
     heap_ok H2 [start_addr H2] t2 [start_addr H2] \<and> unat (available_size H2) = 4 * (unat (0x200 :: u32) div 4) - 48"
proof (rule memheap_sequences)
  show "pool_ok 0x1000 0x200 raw_heap" by (simp add: pool_ok_def raw_heap_def)
  show "unlocked heap_kernel (memheap_build 0x1000 0x200 raw_heap)" using heap_kernel_unlocked(1) by (simp add: sample_heap_def)
qed auto

text \<open>The size arithmetic wraps. Rounding a request of more than \<open>2^32 - 4\<close> bytes gives 0, which is raised to the
  minimum: \<^verbatim>\<open>rt_memheap_alloc\<close> hands out 12 bytes for it. And \<^verbatim>\<open>rt_memheap_realloc\<close> of the block at \<open>0x1018\<close>
  to \<open>0xFFFFFFF8\<close> bytes, with a free block behind it, succeeds in place: the sum of the new size and the
  minimum wraps and passes the test, and the header of the remainder is written to \<open>0x1010\<close>, inside the
  block's own header.\<close>

theorem memheap_huge_sizes:
  "map_option (\<lambda>(r, _, H). (r, memitem_size H 0x107C)) (rt_memheap_alloc 0xFFFFFFFF (heap_kernel, used_heap)) = Some (Ret 0x1094, 12) \<and>
   map_option (\<lambda>(r, _, H). (r, mi_next (items H 0x1000), magic (items H 0x1010)))
     (rt_memheap_realloc (\<lambda>_. 0) 0x1018 0xFFFFFFF8 (heap_kernel, used_heap)) = Some (Ret 0x1018, 0x1010, 0x1ea01ea0)"
  by code_simp

end
