(* ===== verification/Kparse.thy ===== *)
theory Kparse
  imports Kstring "HOL-Library.Sublist"
begin

unbundle bit_operations_syntax

text \<open>
  The rest of the string routines of \<^verbatim>\<open>kernel/src/kservice.c\<close>: comparison of memory, search in strings, tokens and
  the conversion of decimal digits. A pointer is the list of the bytes from there on, as in the theory of the
  comparisons; a pointer into a string is its offset.
\<close>

fun rt_memcmp :: "u8 list \<Rightarrow> u8 list \<Rightarrow> nat \<Rightarrow> int option" where
  "rt_memcmp cs ct 0 = Some 0"
| "rt_memcmp (c # cs) (d # ct) (Suc count) =
     (let res = uint c - uint d in if res \<noteq> 0 then Some res else rt_memcmp cs ct count)"
| "rt_memcmp cs ct (Suc count) = None"

text \<open>The loop of \<^verbatim>\<open>rt_strstr\<close>: \<open>l1\<close> bytes are left of the string \<open>s1\<close>, whose offset is \<open>k\<close>.\<close>

fun strstr_loop :: "nat \<Rightarrow> u8 list \<Rightarrow> u8 list \<Rightarrow> nat \<Rightarrow> nat \<Rightarrow> nat option option" where
  "strstr_loop l1 s1 s2 l2 k =
     (if l1 < l2 \<or> l1 = 0 then Some None
      else do {
        r \<leftarrow> rt_memcmp s1 s2 l2;
        if r = 0 then Some (Some k) else strstr_loop (l1 - 1) (tl s1) s2 l2 (Suc k) })"

declare strstr_loop.simps [simp del]

definition rt_strstr :: "u8 list \<Rightarrow> u8 list \<Rightarrow> nat option option" where
  "rt_strstr s1 s2 = do {
     l2 \<leftarrow> rt_strlen s2;
     if l2 = 0 then Some (Some 0)
     else do {
       l1 \<leftarrow> rt_strlen s1;
       strstr_loop l1 s1 s2 l2 0 } }"

definition lower :: "u8 \<Rightarrow> u32" where
  "lower c = (let ca = ucast c AND 0xff in if 65 \<le> ca \<and> ca \<le> 90 then ca + (97 - 65) else ca)"

fun rt_strcasecmp :: "u8 list \<Rightarrow> u8 list \<Rightarrow> u32 option" where
  "rt_strcasecmp (a # as) (b # bs) =
     (if lower a = lower b \<and> lower a \<noteq> 0 then rt_strcasecmp as bs else Some (lower a - lower b))"
| "rt_strcasecmp as bs = None"

text \<open>The inner loop of \<^verbatim>\<open>rt_strpbrk\<close>: does the set of characters have this one?\<close>

fun strpbrk_has :: "u8 \<Rightarrow> u8 list \<Rightarrow> bool option" where
  "strpbrk_has c [] = None"
| "strpbrk_has c (p # ps) = (if p = 0 then Some False else if p = c then Some True else strpbrk_has c ps)"

fun rt_strpbrk :: "u8 list \<Rightarrow> u8 list \<Rightarrow> nat option option" where
  "rt_strpbrk [] s2 = None"
| "rt_strpbrk (c # s) s2 =
     (if c = 0 then Some None
      else do {
        h \<leftarrow> strpbrk_has c s2;
        if h then Some (Some 0) else map_option (map_option Suc) (rt_strpbrk s s2) })"

text \<open>\<^verbatim>\<open>rt_strsep\<close>: the token, which ends at the byte that was set to 0, and the caller's pointer afterwards. Both
  arguments may be null, and so may the caller's pointer itself.\<close>

definition rt_strsep :: "u8 list option option \<Rightarrow> u8 list option \<Rightarrow> (u8 list option \<times> u8 list option option) option" where
  "rt_strsep s1 s2 =
     (case (s1, s2) of
        (Some (Some s), Some s2) \<Rightarrow>
          if s = [] then None
          else if hd s \<noteq> 0 then do {
            p \<leftarrow> rt_strpbrk s s2;
            case p of
              None \<Rightarrow> Some (Some s, Some None)
            | Some k \<Rightarrow> Some (Some (s[k := 0]), Some (Some (drop (Suc k) s))) }
          else Some (Some s, Some None)
      | _ \<Rightarrow> Some (None, s1))"

definition is_digit :: "u8 \<Rightarrow> bool" where
  "is_digit c = (48 \<le> c \<and> c \<le> 57)"

fun atoi_loop :: "u32 \<Rightarrow> u8 list \<Rightarrow> u32 option" where
  "atoi_loop ret [] = None"
| "atoi_loop ret (c # s) = (if \<not> is_digit c then Some ret else atoi_loop (ret * 10 + (ucast c - 48)) s)"

text \<open>The result of \<^verbatim>\<open>rt_atoi\<close> is an \<^verbatim>\<open>int\<close>: the 32-bit word, read as a signed number.\<close>

definition rt_atoi :: "u8 list option \<Rightarrow> int option" where
  "rt_atoi nptr =
     (case nptr of
        None \<Rightarrow> Some 0
      | Some [] \<Rightarrow> None
      | Some (c # s) \<Rightarrow>
          if c = 43 then map_option sint (atoi_loop 0 s)
          else if c = 45 then map_option (\<lambda>r. sint (- r)) (atoi_loop 0 s)
          else map_option sint (atoi_loop 0 (c # s)))"

text \<open>A copy of the string in new memory, or the null pointer when there is none; \<open>mem\<close> is what the allocation returned.\<close>

definition rt_strdup :: "u8 list \<Rightarrow> bool \<Rightarrow> u8 list option option" where
  "rt_strdup s mem = do {
     len \<leftarrow> rt_strlen s;
     Some (if mem then Some (take (Suc len) s) else None) }"

subsection \<open>Facts\<close>

lemma memcmp_zero:
  "\<lbrakk>n \<le> length cs; n \<le> length ct\<rbrakk> \<Longrightarrow> \<exists>r. rt_memcmp cs ct n = Some r \<and> (r = 0 \<longleftrightarrow> take n cs = take n ct)"
proof (induction cs ct n rule: rt_memcmp.induct)
  case (2 c cs d ct n)
  then show ?case by (auto simp: Let_def word_uint_eq_iff)
qed auto

lemma cstr_split:
  assumes "0 \<in> set s"
  obtains r where "s = cstr s @ 0 # r"
proof -
  have "dropWhile (\<lambda>c. c \<noteq> 0) s \<noteq> []" using assms by (auto simp: dropWhile_eq_Nil_conv)
  then obtain c r where d: "dropWhile (\<lambda>c. c \<noteq> 0) s = c # r" by (cases "dropWhile (\<lambda>c. c \<noteq> 0) s") auto
  then have "c = 0" using hd_dropWhile [of "\<lambda>c. c \<noteq> 0" s] by auto
  then show ?thesis using that [of r] d takeWhile_dropWhile_id [of "\<lambda>c. c \<noteq> 0" s] by (simp add: cstr_def)
qed

lemma find_shift: "List.find P (map Suc xs) = map_option Suc (List.find (P \<circ> Suc) xs)"
  by (induction xs) auto

lemma find_upt:
  "List.find P [0..<Suc n] = (if P 0 then Some 0 else map_option Suc (List.find (P \<circ> Suc) [0..<n]))"
proof -
  have "[0..<Suc n] = 0 # map Suc [0..<n]" by (simp add: map_Suc_upt upt_conv_Cons del: upt_Suc)
  then show ?thesis by (simp add: find_shift del: upt_Suc)
qed

text \<open>The search: the first offset at which the second string occurs.\<close>

definition first_at :: "u8 list \<Rightarrow> u8 list \<Rightarrow> nat option" where
  "first_at w v = List.find (\<lambda>i. prefix w (drop i v)) [0..<length v]"

lemma first_at_Cons: "first_at w (c # v) = (if prefix w (c # v) then Some 0 else map_option Suc (first_at w v))"
  unfolding first_at_def by (simp add: find_upt comp_def del: upt_Suc)

lemma first_at_short: "length v < length w \<Longrightarrow> first_at w v = None"
  unfolding first_at_def by (auto simp: find_None_iff dest!: prefix_length_le)

lemma strstr_loop_finds:
  assumes "0 < length w" and "take (length w) s2 = w" and "length w \<le> length s2"
  shows "strstr_loop (length v) (v @ r) s2 (length w) k = Some (map_option ((+) k) (first_at w v))"
proof (induction v arbitrary: k)
  case Nil
  then show ?case by (simp add: strstr_loop.simps first_at_def)
next
  case (Cons c v)
  show ?case
  proof (cases "length (c # v) < length w")
    case True
    then show ?thesis by (simp add: strstr_loop.simps first_at_short)
  next
    case False
    obtain q where q: "rt_memcmp (c # v @ r) s2 (length w) = Some q" "q = 0 \<longleftrightarrow> take (length w) (c # v @ r) = take (length w) s2"
      using memcmp_zero [of "length w" "c # v @ r" s2] False assms(3) by auto
    have "take (length w) (c # v @ r) = take (length w) (c # v)" using False by (metis append_Cons not_less take_append take_eq_Nil diff_is_0_eq append_Nil2)
    then have p: "q = 0 \<longleftrightarrow> prefix w (c # v)" using q(2) assms(2) by (metis append_eq_conv_conj append_take_drop_id prefix_def)
    have "strstr_loop (length (c # v)) ((c # v) @ r) s2 (length w) k =
        (if q = 0 then Some (Some k) else strstr_loop (length v) (v @ r) s2 (length w) (Suc k))"
      using q(1) False by (subst strstr_loop.simps) auto
    then show ?thesis unfolding Cons.IH first_at_Cons using p by (auto simp: option.map_comp comp_def intro!: option.map_cong)
  qed
qed

text \<open>\<^verbatim>\<open>rt_strstr\<close> on two terminated strings always returns, with the first offset at which the second occurs in the
  first: there is an occurrence at that offset and none before; the null pointer means there is none at all.\<close>

theorem strstr_first:
  assumes "0 \<in> set s1" and "0 \<in> set s2"
  shows "\<exists>p. rt_strstr s1 s2 = Some p \<and>
     (case p of
        None \<Rightarrow> \<not> sublist (cstr s2) (cstr s1)
      | Some k \<Rightarrow> prefix (cstr s2) (drop k (cstr s1)) \<and> (\<forall>j < k. \<not> prefix (cstr s2) (drop j (cstr s1))))"
proof (cases "cstr s2 = []")
  case True
  then show ?thesis using rt_strlen_cstr [OF assms(2)] by (intro exI [of _ "Some 0"]) (simp add: rt_strstr_def)
next
  case False
  let ?v = "cstr s1" and ?w = "cstr s2"
  obtain r1 where r1: "s1 = ?v @ 0 # r1" by (rule cstr_split [OF assms(1)])
  obtain r2 where r2: "s2 = ?w @ 0 # r2" by (rule cstr_split [OF assms(2)])
  have w: "0 < length ?w" "take (length ?w) s2 = ?w" "length ?w \<le> length s2"
    using False by simp_all (subst r2, simp)+
  have "rt_strstr s1 s2 = strstr_loop (length ?v) (?v @ 0 # r1) s2 (length ?w) 0"
    using rt_strlen_cstr [OF assms(1)] rt_strlen_cstr [OF assms(2)] False r1 by (simp add: rt_strstr_def)
  then have e: "rt_strstr s1 s2 = Some (first_at ?w ?v)" using strstr_loop_finds [OF w, of ?v "0 # r1" 0] by (cases "first_at ?w ?v") simp_all
  show ?thesis
  proof (cases "first_at ?w ?v")
    case None
    have "\<not> sublist ?w ?v"
    proof
      assume "sublist ?w ?v"
      then obtain ps ss where v: "?v = ps @ ?w @ ss" by (auto simp: sublist_def)
      then have "prefix ?w (drop (length ps) ?v)" "length ps < length ?v" using False by (simp_all add: v)
      then show False using None by (auto simp: first_at_def find_None_iff)
    qed
    then show ?thesis using e None by simp
  next
    case (Some k)
    then have "prefix ?w (drop k ?v) \<and> (\<forall>j < k. \<not> prefix ?w (drop j ?v))"
      by (auto simp: first_at_def find_Some_iff)
    then show ?thesis using e Some by simp
  qed
qed

theorem strstr_first_witness:
  "\<exists>p. rt_strstr [97, 98, 97, 98, 99, 0] [97, 98, 99, 0, 7] = Some p \<and>
     (case p of
        None \<Rightarrow> \<not> sublist (cstr [97, 98, 99, 0, 7]) (cstr [97, 98, 97, 98, 99, 0])
      | Some k \<Rightarrow> prefix (cstr [97, 98, 99, 0, 7]) (drop k (cstr [97, 98, 97, 98, 99, 0])) \<and>
          (\<forall>j < k. \<not> prefix (cstr [97, 98, 99, 0, 7]) (drop j (cstr [97, 98, 97, 98, 99, 0]))))"
  by (rule strstr_first) simp_all

lemma cstr_append: "0 \<notin> set v \<Longrightarrow> cstr (v @ 0 # r) = v"
  by (induction v) (auto simp: cstr_def)

lemma strpbrk_has_set: "0 \<in> set s2 \<Longrightarrow> strpbrk_has c s2 = Some (c \<in> set (cstr s2))"
  by (induction s2) (auto simp: cstr_def)

lemma rt_strpbrk_first:
  assumes "0 \<in> set s2"
  shows "0 \<in> set s \<Longrightarrow> rt_strpbrk s s2 = Some (let v = takeWhile (\<lambda>c. c \<notin> set (cstr s2)) (cstr s) in
     if v = cstr s then None else Some (length v))"
proof (induction s)
  case (Cons c s)
  show ?case
  proof (cases "c = 0 \<or> c \<in> set (cstr s2)")
    case True
    then show ?thesis using strpbrk_has_set [OF assms, of c] by (auto simp: cstr_def)
  next
    case False
    then show ?thesis using Cons strpbrk_has_set [OF assms, of c] by (auto simp: cstr_def Let_def)
  qed
qed simp

text \<open>\<^verbatim>\<open>rt_strsep\<close> cuts a terminated, non-empty string at its first delimiter: the token is the string up to there and
  the caller's pointer moves behind the delimiter; without a delimiter the token is the whole string and the pointer
  becomes null.\<close>

theorem strsep_splits:
  assumes s: "0 \<in> set s" and s2: "0 \<in> set s2" and ne: "cstr s \<noteq> []"
  shows "\<exists>tok rest. rt_strsep (Some (Some s)) (Some s2) = Some (Some tok, Some rest) \<and>
     cstr tok = takeWhile (\<lambda>c. c \<notin> set (cstr s2)) (cstr s) \<and>
     (case rest of
        None \<Rightarrow> cstr tok = cstr s
      | Some r \<Rightarrow> \<exists>c \<in> set (cstr s2). cstr s = cstr tok @ c # cstr r \<and> 0 \<in> set r)"
proof -
  let ?v = "takeWhile (\<lambda>c. c \<notin> set (cstr s2)) (cstr s)"
  have h: "s \<noteq> []" "hd s \<noteq> 0" using ne by (cases s; auto simp: cstr_def split: if_splits)+
  obtain r where r: "s = cstr s @ 0 # r" by (rule cstr_split [OF s])
  show ?thesis
  proof (cases "?v = cstr s")
    case True
    then have "rt_strsep (Some (Some s)) (Some s2) = Some (Some s, Some None)" using h rt_strpbrk_first [OF s2 s] by (simp add: rt_strsep_def)
    then show ?thesis using True by (intro exI [of _ s] exI [of _ None]) (simp only: option.case simp_thms)
  next
    case False
    then obtain c q where q: "cstr s = ?v @ c # q" "c \<in> set (cstr s2)"
      by (metis append_Nil2 hd_dropWhile list.exhaust_sel takeWhile_dropWhile_id)
    define v where "v = ?v"
    have e: "rt_strsep (Some (Some s)) (Some s2) = Some (Some (s[length v := 0]), Some (Some (drop (Suc (length v)) s)))"
      using False h rt_strpbrk_first [OF s2 s] by (simp add: rt_strsep_def v_def)
    have s': "s = v @ c # q @ 0 # r" using r q(1) by (metis append.assoc append_Cons v_def)
    have "0 \<notin> set (cstr s)" by (auto simp: cstr_def dest: set_takeWhileD)
    then have n: "0 \<notin> set v" "0 \<notin> set q" using arg_cong [OF q(1), of set] by (auto simp: v_def)
    have u: "s[length v := 0] = v @ 0 # q @ 0 # r" "drop (Suc (length v)) s = q @ 0 # r" unfolding s' by simp_all
    have c: "cstr (v @ 0 # q @ 0 # r) = v" "cstr (q @ 0 # r) = q" using n by (simp_all add: cstr_append)
    show ?thesis unfolding e u v_def [symmetric]
      using c q [folded v_def] by (intro exI [of _ "v @ 0 # q @ 0 # r"] exI [of _ "Some (q @ 0 # r)"]) auto
  qed
qed

theorem strsep_splits_witness:
  "\<exists>tok rest. rt_strsep (Some (Some [97, 98, 44, 99, 0])) (Some [44, 59, 0]) = Some (Some tok, Some rest) \<and>
     cstr tok = takeWhile (\<lambda>c. c \<notin> set (cstr [44, 59, 0])) (cstr [97, 98, 44, 99, 0]) \<and>
     (case rest of
        None \<Rightarrow> cstr tok = cstr [97, 98, 44, 99, 0]
      | Some r \<Rightarrow> \<exists>c \<in> set (cstr [44, 59, 0]). cstr [97, 98, 44, 99, 0] = cstr tok @ c # cstr r \<and> 0 \<in> set r)"
  by (rule strsep_splits) (simp_all add: cstr_def)

text \<open>\<^verbatim>\<open>rt_strcasecmp\<close> is 0 exactly for strings that differ only in the case of letters.\<close>

lemma lower_zero: "lower c = 0 \<longleftrightarrow> c = 0"
proof -
  have m: "(0xff :: u32) = mask 8" by (simp add: mask_eq_exp_minus_1)
  have a: "ucast c AND 0xff = (ucast c :: u32)" unfolding m by (rule bit_eqI) (auto simp: bit_simps dest: bit_imp_le_length)
  define w where "w = (ucast c :: u32)"
  have "unat c < 2 ^ 32" using unsigned_less [of c, where 'a = nat] by simp
  then have "unat w = unat c" by (simp add: w_def unsigned_ucast_eq take_bit_nat_eq_self)
  then have "w = 0 \<longleftrightarrow> c = 0" by (metis unat_eq_zero)
  moreover have "w + 32 \<noteq> 0" if "w \<le> 90"
  proof -
    have "unat (w + 32) = unat w + 32" using that by (simp add: word_le_nat_alt unat_word_ariths)
    then show ?thesis by (metis add_is_0 unat_0 zero_neq_numeral)
  qed
  ultimately show ?thesis unfolding lower_def a unfolding w_def [symmetric] by (auto simp: Let_def)
qed

lemma strcasecmp_zero:
  "\<lbrakk>0 \<in> set as; 0 \<in> set bs\<rbrakk> \<Longrightarrow> \<exists>r. rt_strcasecmp as bs = Some r \<and> (r = 0 \<longleftrightarrow> map lower (cstr as) = map lower (cstr bs))"
proof (induction as bs rule: rt_strcasecmp.induct)
  case (1 a as b bs)
  show ?case
  proof (cases "lower a = lower b \<and> lower a \<noteq> 0")
    case True
    then have "a \<noteq> 0" "b \<noteq> 0" using lower_zero [of a] lower_zero [of b] by auto
    then show ?thesis using 1 True by (auto simp: cstr_def)
  next
    case False
    then show ?thesis using lower_zero [of a] lower_zero [of b] by (auto simp: cstr_def)
  qed
qed auto

lemma strdup_copies:
  assumes "0 \<in> set s"
  shows "rt_strdup s True = Some (Some (cstr s @ [0]))"
proof -
  define v where "v = cstr s"
  obtain r where "s = v @ 0 # r" unfolding v_def by (rule cstr_split [OF assms])
  then have "take (Suc (length v)) s = v @ [0]" by simp
  then show ?thesis using rt_strlen_cstr [OF assms] by (simp add: rt_strdup_def v_def)
qed

end
