(* ===== verification/Kprintf.thy ===== *)
theory Kprintf
  imports Kparse Kmem
begin

unbundle bit_operations_syntax

text \<open>
  Formatted output of \<^verbatim>\<open>kernel/src/kservice.c\<close>: \<^verbatim>\<open>rt_vsnprintf\<close> with the conversions it knows, and the functions that
  print a number. The output goes to memory; the state of a print is the address of the next character and the memory.
  Precision and \<^verbatim>\<open>long long\<close> are supported, \<^verbatim>\<open>RT_PRINTF_SPECIAL\<close> is off. The format is the list of bytes from the pointer on.
\<close>

type_synonym u64 = "64 word"
type_synonym printed = "u32 \<times> memory"

text \<open>The arguments behind the format, as the caller passed them. A pointer is null or points to a string.\<close>

datatype vararg = Int_arg u32 | Longlong_arg u64 | String_arg "u8 list option"

abbreviation (input) ZEROPAD :: u8 where "ZEROPAD \<equiv> 1"
abbreviation (input) SIGN :: u8 where "SIGN \<equiv> 2"
abbreviation (input) PLUS :: u8 where "PLUS \<equiv> 4"
abbreviation (input) SPACE :: u8 where "SPACE \<equiv> 8"
abbreviation (input) LEFT :: u8 where "LEFT \<equiv> 16"
abbreviation (input) SPECIAL :: u8 where "SPECIAL \<equiv> 32"
abbreviation (input) LARGE :: u8 where "LARGE \<equiv> 64"

definition emit :: "u32 \<Rightarrow> u8 \<Rightarrow> printed \<Rightarrow> printed" where
  "emit stop c = (\<lambda>(str, M). (str + 1, if str < stop then M(str := c) else M))"

text \<open>\<^verbatim>\<open>print_number_ll\<close> compares with \<^verbatim>\<open>buf <= end\<close>.\<close>

definition emit_ll :: "u32 \<Rightarrow> u8 \<Rightarrow> printed \<Rightarrow> printed" where
  "emit_ll stop c = (\<lambda>(str, M). (str + 1, if str \<le> stop then M(str := c) else M))"

subsection \<open>Digits\<close>

definition small_digits :: "u8 list" where
  "small_digits = [48, 49, 50, 51, 52, 53, 54, 55, 56, 57, 97, 98, 99, 100, 101, 102]"

definition large_digits :: "u8 list" where
  "large_digits = [48, 49, 50, 51, 52, 53, 54, 55, 56, 57, 65, 66, 67, 68, 69, 70]"

definition divide :: "u32 \<Rightarrow> int \<Rightarrow> u32 \<times> u32" where
  "divide n base = (if base = 10 then (n mod 10, n div 10) else (n mod 16, n div 16))"

text \<open>Division of signed numbers rounds towards zero, and the remainder has the sign of the dividend.\<close>

definition divide_64 :: "u64 \<Rightarrow> int \<Rightarrow> int \<times> u64" where
  "divide_64 n base =
     (let b = (if base = 10 then 10 else 16); a = sint n; q = sgn a * (\<bar>a\<bar> div b)
      in (a - b * q, word_of_int q))"

function digits_loop :: "u8 list \<Rightarrow> int \<Rightarrow> u32 \<Rightarrow> u8 list \<Rightarrow> u8 list" where
  "digits_loop digits base num tmp =
     (if num = 0 then tmp
      else digits_loop digits base (snd (divide num base)) (tmp @ [digits ! unat (fst (divide num base))]))"
  by pat_completeness auto
termination
proof (relation "measure (\<lambda>(_, _, num, _). unat num)", simp)
  fix digits :: "u8 list" and base :: int and num :: u32 and tmp :: "u8 list" assume "num \<noteq> 0"
  then have "0 < unat num" by (simp add: unat_gt_0)
  then show "((digits, base, snd (divide num base), tmp @ [digits ! unat (fst (divide num base))]), digits, base, num, tmp)
     \<in> measure (\<lambda>(_, _, num, _). unat num)" by (simp add: divide_def unat_div)
qed

declare digits_loop.simps [simp del]

text \<open>An index outside the table of digits is \<open>None\<close>.\<close>

partial_function (option) digits_loop_ll :: "u8 list \<Rightarrow> int \<Rightarrow> u64 \<Rightarrow> u8 list \<Rightarrow> u8 list option" where
  "digits_loop_ll digits base num tmp =
     (if num = 0 then Some tmp
      else if fst (divide_64 num base) < 0 then None
      else digits_loop_ll digits base (snd (divide_64 num base)) (tmp @ [digits ! nat (fst (divide_64 num base))]))"

declare digits_loop_ll.simps [code]

subsection \<open>Loops that print\<close>

text \<open>\<^verbatim>\<open>while (size-- > 0)\<close>: the last decrement is part of the result.\<close>

function pad_loop :: "(u8 \<Rightarrow> printed \<Rightarrow> printed) \<Rightarrow> u8 \<Rightarrow> int \<times> printed \<Rightarrow> int \<times> printed" where
  "pad_loop put c (sz, x) = (if 0 < sz then pad_loop put c (sz - 1, put c x) else (sz - 1, x))"
  by pat_completeness auto
termination by (relation "measure (\<lambda>(_, _, sz, _). nat sz)") auto

declare pad_loop.simps [simp del]

text \<open>\<^verbatim>\<open>while (i < precision--)\<close>\<close>

function prec_loop :: "(u8 \<Rightarrow> printed \<Rightarrow> printed) \<Rightarrow> int \<Rightarrow> int \<Rightarrow> printed \<Rightarrow> printed" where
  "prec_loop put i precision x = (if i < precision then prec_loop put i (precision - 1) (put 48 x) else x)"
  by pat_completeness auto
termination by (relation "measure (\<lambda>(_, i, precision, _). nat (precision - i))") auto

declare prec_loop.simps [simp del]

primrec put_digits :: "(u8 \<Rightarrow> printed \<Rightarrow> printed) \<Rightarrow> u8 list \<Rightarrow> nat \<Rightarrow> printed \<Rightarrow> printed" where
  "put_digits put tmp 0 x = x"
| "put_digits put tmp (Suc i) x = put_digits put tmp i (put (tmp ! i) x)"

subsection \<open>Numbers\<close>

definition number_sign :: "bool \<Rightarrow> u8 \<Rightarrow> u8" where
  "number_sign negative type =
     (if type AND SIGN \<noteq> 0 then
        if negative then 45 else if type AND PLUS \<noteq> 0 then 43 else if type AND SPACE \<noteq> 0 then 32 else 0
      else 0)"

definition print_number :: "u32 \<Rightarrow> u32 \<Rightarrow> int \<Rightarrow> int \<Rightarrow> int \<Rightarrow> u8 \<Rightarrow> printed \<Rightarrow> printed" where
  "print_number stop num base s precision type x =
     (let put = emit stop;
          precision_bak = precision;
          digits = (if type AND LARGE \<noteq> 0 then large_digits else small_digits);
          type = (if type AND LEFT \<noteq> 0 then type AND NOT ZEROPAD else type);
          c = (if type AND ZEROPAD \<noteq> 0 then 48 else 32);
          sign = number_sign (sint num < 0) type;
          num = (if type AND SIGN \<noteq> 0 \<and> sint num < 0 then - num else num);
          tmp = (if num = 0 then [48] else digits_loop digits base num []);
          i = int (length tmp);
          precision = (if precision < i then i else precision);
          sz = s - precision;
          (sz, x) = (if type AND (ZEROPAD OR LEFT) = 0
             then pad_loop put 32 (if sign \<noteq> 0 \<and> 0 < sz then sz - 1 else sz, x) else (sz, x));
          (sz, x) = (if sign \<noteq> 0 then (sz - 1, put sign x) else (sz, x));
          (sz, x) = (if type AND LEFT = 0 then pad_loop put c (sz, x) else (sz, x));
          x = prec_loop put i precision x;
          x = (if precision_bak \<noteq> 0 then put_digits put tmp (length tmp) x else x)
      in snd (pad_loop put 32 (sz, x)))"

definition print_number_ll :: "u32 \<Rightarrow> u64 \<Rightarrow> int \<Rightarrow> int \<Rightarrow> int \<Rightarrow> u8 \<Rightarrow> printed \<Rightarrow> printed option" where
  "print_number_ll stop num base s precision type x = do {
     let put = emit_ll stop;
     let precision_bak = precision;
     let digits = (if type AND LARGE \<noteq> 0 then large_digits else small_digits);
     let type = (if type AND LEFT \<noteq> 0 then type AND NOT ZEROPAD else type);
     let c = (if type AND ZEROPAD \<noteq> 0 then 48 else 32);
     let sign = number_sign (sint num < 0) type;
     let num = (if type AND SIGN \<noteq> 0 \<and> sint num < 0 then - num else num);
     tmp \<leftarrow> (if num = 0 then Some [48] else digits_loop_ll digits base num []);
     let i = int (length tmp);
     let precision = (if precision < i then i else precision);
     let sz = s - precision;
     let (sz, x) = (if type AND (ZEROPAD OR LEFT) = 0
        then pad_loop put 32 (if sign \<noteq> 0 \<and> 0 < sz then sz - 1 else sz, x) else (sz, x));
     let (sz, x) = (if sign \<noteq> 0 then (if fst x \<le> stop then sz - 1 else sz, put sign x) else (sz, x));
     let (sz, x) = (if type AND LEFT = 0 then pad_loop put c (sz, x) else (sz, x));
     let x = prec_loop put i precision x;
     let x = (if precision_bak \<noteq> 0 then put_digits put tmp (length tmp) x else x);
     Some (snd (pad_loop put 32 (sz, x))) }"

subsection \<open>Formats\<close>

fun va_int :: "vararg list \<Rightarrow> (u32 \<times> vararg list) option" where
  "va_int (Int_arg w # args) = Some (w, args)"
| "va_int args = None"

fun va_longlong :: "vararg list \<Rightarrow> (u64 \<times> vararg list) option" where
  "va_longlong (Longlong_arg w # args) = Some (w, args)"
| "va_longlong args = None"

fun va_string :: "vararg list \<Rightarrow> (u8 list option \<times> vararg list) option" where
  "va_string (String_arg s # args) = Some (s, args)"
| "va_string args = None"

fun parse_flags :: "u8 \<Rightarrow> u8 list \<Rightarrow> (u8 \<times> u8 list) option" where
  "parse_flags flags [] = None"
| "parse_flags flags (c # fmt) =
     (if c = 45 then parse_flags (flags OR LEFT) fmt
      else if c = 43 then parse_flags (flags OR PLUS) fmt
      else if c = 32 then parse_flags (flags OR SPACE) fmt
      else if c = 35 then parse_flags (flags OR SPECIAL) fmt
      else if c = 48 then parse_flags (flags OR ZEROPAD) fmt
      else Some (flags, c # fmt))"

fun skip_atoi :: "u32 \<Rightarrow> u8 list \<Rightarrow> (u32 \<times> u8 list) option" where
  "skip_atoi i [] = None"
| "skip_atoi i (c # fmt) = (if is_digit c then skip_atoi (i * 10 + ucast c - 48) fmt else Some (i, c # fmt))"

definition parse_width :: "u8 \<Rightarrow> u8 list \<Rightarrow> vararg list \<Rightarrow> (u8 \<times> int \<times> u8 list \<times> vararg list) option" where
  "parse_width flags fmt args =
     (case fmt of
        [] \<Rightarrow> None
      | c # rest \<Rightarrow>
          if is_digit c then do {
            (i, fmt) \<leftarrow> skip_atoi 0 fmt;
            Some (flags, sint i, fmt, args) }
          else if c = 42 then do {
            (w, args) \<leftarrow> va_int args;
            Some (if sint w < 0 then (flags OR LEFT, sint (- w), rest, args) else (flags, sint w, rest, args)) }
          else Some (flags, -1, fmt, args))"

definition parse_precision :: "u8 list \<Rightarrow> vararg list \<Rightarrow> (int \<times> u8 list \<times> vararg list) option" where
  "parse_precision fmt args =
     (case fmt of
        [] \<Rightarrow> None
      | c # rest \<Rightarrow>
          if c = 46 then
            case rest of
              [] \<Rightarrow> None
            | c # rest2 \<Rightarrow>
                if is_digit c then do {
                  (i, fmt) \<leftarrow> skip_atoi 0 rest;
                  Some (max 0 (sint i), fmt, args) }
                else if c = 42 then do {
                  (w, args) \<leftarrow> va_int args;
                  Some (max 0 (sint w), rest2, args) }
                else Some (0, rest, args)
          else Some (-1, fmt, args))"

definition parse_qualifier :: "u8 list \<Rightarrow> (u8 \<times> u8 list) option" where
  "parse_qualifier fmt =
     (case fmt of
        [] \<Rightarrow> None
      | q # rest \<Rightarrow>
          if q = 104 \<or> q = 108 \<or> q = 76 then
            case rest of
              [] \<Rightarrow> None
            | c # rest2 \<Rightarrow> Some (if q = 108 \<and> c = 108 then (76, rest2) else (q, rest))
          else Some (0, fmt))"

text \<open>\<^verbatim>\<open>while (--field_width > 0)\<close> and \<^verbatim>\<open>while (len < field_width--)\<close>\<close>

function pre_pad :: "(u8 \<Rightarrow> printed \<Rightarrow> printed) \<Rightarrow> int \<times> printed \<Rightarrow> int \<times> printed" where
  "pre_pad put (w, x) = (if 0 < w - 1 then pre_pad put (w - 1, put 32 x) else (w - 1, x))"
  by pat_completeness auto
termination by (relation "measure (\<lambda>(_, w, _). nat w)") auto

function len_pad :: "(u8 \<Rightarrow> printed \<Rightarrow> printed) \<Rightarrow> int \<Rightarrow> int \<times> printed \<Rightarrow> int \<times> printed" where
  "len_pad put len (w, x) = (if len < w then len_pad put len (w - 1, put 32 x) else (w - 1, x))"
  by pat_completeness auto
termination by (relation "measure (\<lambda>(_, len, w, _). nat (w - len))") auto

declare pre_pad.simps [simp del] len_pad.simps [simp del]

definition print_char :: "u32 \<Rightarrow> u8 \<Rightarrow> u8 \<Rightarrow> int \<Rightarrow> printed \<Rightarrow> printed" where
  "print_char stop c flags w x =
     (let (w, x) = (if flags AND LEFT = 0 then pre_pad (emit stop) (w, x) else (w, x))
      in snd (pre_pad (emit stop) (w, emit stop c x)))"

definition print_string :: "u32 \<Rightarrow> u8 list option \<Rightarrow> u8 \<Rightarrow> int \<Rightarrow> int \<Rightarrow> printed \<Rightarrow> printed option" where
  "print_string stop s flags w precision x = do {
     let s = (case s of None \<Rightarrow> [40, 78, 85, 76, 76, 41, 0] | Some s \<Rightarrow> s);
     n \<leftarrow> rt_strlen s;
     let len = (if 0 < precision \<and> precision < int n then precision else int n);
     let (w, x) = (if flags AND LEFT = 0 then len_pad (emit stop) len (w, x) else (w, x));
     let x = fold (emit stop) (take (nat len) s) x;
     Some (snd (len_pad (emit stop) len (w, x))) }"

definition print_integer ::
  "u32 \<Rightarrow> u8 \<Rightarrow> int \<Rightarrow> int \<Rightarrow> int \<Rightarrow> u8 \<Rightarrow> vararg list \<Rightarrow> printed \<Rightarrow> (vararg list \<times> printed) option" where
  "print_integer stop qualifier base w precision flags args x =
     (if qualifier = 76 then do {
        (num, args) \<leftarrow> va_longlong args;
        x \<leftarrow> print_number_ll stop num base w precision flags x;
        Some (args, x) }
      else do {
        (num, args) \<leftarrow> va_int args;
        let num = (if qualifier = 104 then if flags AND SIGN \<noteq> 0 then scast (ucast num :: u16) else ucast (ucast num :: u16) else num);
        Some (args, print_number stop num base w precision flags x) })"

text \<open>The conversion character: the rest of the format, of the arguments and the output after it.\<close>

definition conversion ::
  "u8 \<Rightarrow> int \<Rightarrow> int \<Rightarrow> u8 \<Rightarrow> u8 list \<Rightarrow> vararg list \<Rightarrow> u32 \<Rightarrow> printed \<Rightarrow> (u8 list \<times> vararg list \<times> printed) option" where
  "conversion flags w precision qualifier fmt args stop x =
     (case fmt of
       [] \<Rightarrow> None
     | c # rest \<Rightarrow>
         if c = 99 then do {
           (v, args) \<leftarrow> va_int args;
           Some (rest, args, print_char stop (ucast v) flags w x) }
         else if c = 115 then do {
           (s, args) \<leftarrow> va_string args;
           x \<leftarrow> print_string stop s flags w precision x;
           Some (rest, args, x) }
         else if c = 112 then do {
           let (w, flags) = (if w = -1 then (8, flags OR ZEROPAD) else (w, flags));
           (v, args) \<leftarrow> va_int args;
           Some (rest, args, print_number stop v 16 w precision flags x) }
         else if c = 37 then Some (rest, args, emit stop 37 x)
         else if c = 111 then map_option (\<lambda>y. (rest, y)) (print_integer stop qualifier 8 w precision flags args x)
         else if c = 88 then map_option (\<lambda>y. (rest, y)) (print_integer stop qualifier 16 w precision (flags OR LARGE) args x)
         else if c = 120 then map_option (\<lambda>y. (rest, y)) (print_integer stop qualifier 16 w precision flags args x)
         else if c = 100 \<or> c = 105 then map_option (\<lambda>y. (rest, y)) (print_integer stop qualifier 10 w precision (flags OR SIGN) args x)
         else if c = 117 then map_option (\<lambda>y. (rest, y)) (print_integer stop qualifier 10 w precision flags args x)
         else if c \<noteq> 0 then Some (rest, args, emit stop c (emit stop 37 x))
         else Some (fmt, args, emit stop 37 x))"

definition convert ::
  "u32 \<Rightarrow> u8 list \<Rightarrow> vararg list \<Rightarrow> printed \<Rightarrow> (u8 list \<times> vararg list \<times> printed) option" where
  "convert stop fmt args x = do {
     (flags, fmt) \<leftarrow> parse_flags 0 fmt;
     (flags, w, fmt, args) \<leftarrow> parse_width flags fmt args;
     (precision, fmt, args) \<leftarrow> parse_precision fmt args;
     (qualifier, fmt) \<leftarrow> parse_qualifier fmt;
     conversion flags w precision qualifier fmt args stop x }"

partial_function (option) vsn_loop :: "u32 \<Rightarrow> u8 list \<Rightarrow> vararg list \<Rightarrow> printed \<Rightarrow> printed option" where
  "vsn_loop stop fmt args x =
     (case fmt of
        [] \<Rightarrow> None
      | c # rest \<Rightarrow>
          if c = 0 then Some x
          else if c \<noteq> 37 then vsn_loop stop rest args (emit stop c x)
          else do {
            (fmt, args, x) \<leftarrow> convert stop rest args x;
            vsn_loop stop fmt args x })"

declare vsn_loop.simps [code]

definition rt_vsnprintf :: "u32 \<Rightarrow> u32 \<Rightarrow> u8 list \<Rightarrow> vararg list \<Rightarrow> memory \<Rightarrow> (int \<times> memory) option" where
  "rt_vsnprintf buf sz fmt args M = do {
     let stop = buf + sz;
     let (stop, sz) = (if stop < buf then (- 1, - 1 - buf) else (stop, sz));
     (str, M) \<leftarrow> vsn_loop stop fmt args (buf, M);
     let M = (if 0 < sz then if str < stop then M(str := 0) else M(stop - 1 := 0) else M);
     Some (sint (str - buf), M) }"

definition rt_snprintf :: "u32 \<Rightarrow> u32 \<Rightarrow> u8 list \<Rightarrow> vararg list \<Rightarrow> memory \<Rightarrow> (int \<times> memory) option" where
  "rt_snprintf buf sz fmt args M = rt_vsnprintf buf sz fmt args M"

definition rt_vsprintf :: "u32 \<Rightarrow> u8 list \<Rightarrow> vararg list \<Rightarrow> memory \<Rightarrow> (int \<times> memory) option" where
  "rt_vsprintf buf fmt args M = rt_vsnprintf buf (- 1) fmt args M"

definition rt_sprintf :: "u32 \<Rightarrow> u8 list \<Rightarrow> vararg list \<Rightarrow> memory \<Rightarrow> (int \<times> memory) option" where
  "rt_sprintf buf fmt args M = rt_vsprintf buf fmt args M"

end
