(* ===== verification/Kprintf_Correct.thy ===== *)
theory Kprintf_Correct
  imports Kprintf
begin

unbundle bit_operations_syntax

text \<open>
  What formatted output promises: the layout of a printed number, the text as a function of the format and the
  arguments that is cut to the buffer, and that a printed number reads back.
\<close>

subsection \<open>Loops as texts\<close>

lemma pad_loop_text: "pad_loop put c (sz, x) = (if 0 < sz then - 1 else sz - 1, fold put (replicate (nat sz) c) x)"
proof (induction "nat sz" arbitrary: sz x)
  case 0
  then show ?case by (simp add: pad_loop.simps)
next
  case (Suc n)
  then have "n = nat (sz - 1)" "0 < sz" by simp_all
  moreover have "nat sz = Suc n" using Suc.hyps(2) by simp
  ultimately show ?case using Suc.hyps(1) [of "sz - 1" "put c x"] by (subst pad_loop.simps) simp
qed

lemma prec_loop_text: "prec_loop put i precision x = fold put (replicate (nat (precision - i)) 48) x"
proof (induction "nat (precision - i)" arbitrary: precision x)
  case 0
  then show ?case by (simp add: prec_loop.simps)
next
  case (Suc n)
  then have n: "n = nat (precision - 1 - i)" "i < precision" by simp_all
  have "nat (precision - i) = Suc n" using Suc.hyps(2) by simp
  then show ?case using Suc.hyps(1) [OF n(1), of "put 48 x"] n by (subst prec_loop.simps) simp
qed

lemma put_digits_text: "i \<le> length tmp \<Longrightarrow> put_digits put tmp i x = fold put (rev (take i tmp)) x"
  by (induction i arbitrary: x) (simp_all add: take_Suc_conv_app_nth)

lemma pre_pad_text: "pre_pad put (w, x) = (if 1 < w then 0 else w - 1, fold put (replicate (nat (w - 1)) 32) x)"
proof (induction "nat w" arbitrary: w x)
  case 0
  then show ?case by (simp add: pre_pad.simps)
next
  case (Suc n)
  show ?case
  proof (cases "1 < w")
    case False
    then show ?thesis by (simp add: pre_pad.simps)
  next
    case True
    then have "nat (w - 1) = Suc (nat (w - 1 - 1))" by simp
    then show ?thesis using Suc.hyps(1) [of "w - 1" "put 32 x"] Suc.hyps(2) True by (subst pre_pad.simps) auto
  qed
qed

lemma len_pad_text: "len_pad put len (w, x) = (if len < w then len - 1 else w - 1, fold put (replicate (nat (w - len)) 32) x)"
proof (induction "nat (w - len)" arbitrary: w x)
  case 0
  then show ?case by (simp add: len_pad.simps)
next
  case (Suc n)
  then have n: "n = nat (w - 1 - len)" "len < w" by simp_all
  have "nat (w - len) = Suc n" using Suc.hyps(2) by simp
  then show ?case using Suc.hyps(1) [OF n(1), of "put 32 x"] n by (subst len_pad.simps) auto
qed

subsection \<open>The layout of a number\<close>

text \<open>The text of a number: the sign, zeros up to the precision and the digits, filled to the width with blanks on the left
  or the right, or with zeros between sign and digits.\<close>

definition number_digits :: "u32 \<Rightarrow> int \<Rightarrow> u8 \<Rightarrow> u8 list" where
  "number_digits num base type =
     (let num = (if type AND SIGN \<noteq> 0 \<and> sint num < 0 then - num else num) in
      if num = 0 then [48]
      else rev (digits_loop (if type AND LARGE \<noteq> 0 then large_digits else small_digits) base num []))"

definition number_text :: "u32 \<Rightarrow> int \<Rightarrow> int \<Rightarrow> int \<Rightarrow> u8 \<Rightarrow> u8 list" where
  "number_text num base s precision type =
     (let ds = number_digits num base type;
          sign = number_sign (sint num < 0) type;
          sg = (if sign \<noteq> 0 then [sign] else []);
          body = replicate (nat (precision - int (length ds))) 48 @ (if precision = 0 then [] else ds);
          pad = nat (s - max precision (int (length ds)) - int (length sg))
      in if type AND LEFT \<noteq> 0 then sg @ body @ replicate pad 32
         else if type AND ZEROPAD \<noteq> 0 then sg @ replicate pad 48 @ body
         else replicate pad 32 @ sg @ body)"

lemma flag_and_not: "((type :: u8) AND - 2) AND 2 = type AND 2" "(type AND - 2) AND 4 = type AND 4" "(type AND - 2) AND 8 = type AND 8"
  "(type AND - 2) AND 16 = type AND 16" "(type AND - 2) AND 64 = type AND 64" "(type AND - 2) AND 1 = 0"
  by (simp_all add: and.assoc)

lemma flag_two: "(type :: u8) AND (ZEROPAD OR LEFT) = 0 \<longleftrightarrow> type AND ZEROPAD = 0 \<and> type AND LEFT = 0"
proof -
  have "type AND (ZEROPAD OR LEFT) = (type AND ZEROPAD) OR (type AND LEFT)" by (rule bit.conj_disj_distrib)
  then show ?thesis by (simp only: or_eq_0_iff)
qed

lemma print_number_text:
  "print_number stop num base s precision type x = fold (emit stop) (number_text num base s precision type) x"
proof -
  define ty where "ty = (if type AND LEFT \<noteq> 0 then type AND NOT ZEROPAD else type)"
  define sign where "sign = number_sign (sint num < 0) type"
  define tmp where "tmp = rev (number_digits num base type)"
  have sg: "number_sign (sint num < 0) ty = sign" by (simp add: ty_def sign_def number_sign_def flag_and_not)
  have ft: "ty AND SIGN = type AND SIGN" "ty AND LEFT = type AND LEFT" "ty AND ZEROPAD \<noteq> 0 \<longleftrightarrow> type AND LEFT = 0 \<and> type AND ZEROPAD \<noteq> 0"
    by (simp_all add: ty_def flag_and_not)
  have tm: "(let num = (if type AND SIGN \<noteq> 0 \<and> sint num < 0 then - num else num) in
      if num = 0 then [48] else digits_loop (if type AND LARGE \<noteq> 0 then large_digits else small_digits) base num []) = tmp"
    by (simp add: tmp_def number_digits_def Let_def)
  have len: "length (number_digits num base type) = length tmp" "rev tmp = number_digits num base type"
    by (simp_all add: tmp_def)
  show ?thesis
  proof -
    have p: "print_number stop num base s precision type x =
       (let put = emit stop; i = int (length tmp);
            precision' = (if precision < i then i else precision);
            sz = s - precision';
            (sz, x) = (if type AND ZEROPAD = 0 \<and> type AND LEFT = 0
               then pad_loop put 32 (if sign \<noteq> 0 \<and> 0 < sz then sz - 1 else sz, x) else (sz, x));
            (sz, x) = (if sign \<noteq> 0 then (sz - 1, put sign x) else (sz, x));
            (sz, x) = (if type AND LEFT = 0 then pad_loop put (if ty AND ZEROPAD \<noteq> 0 then 48 else 32) (sz, x) else (sz, x));
            x = prec_loop put i precision' x;
            x = (if precision \<noteq> 0 then put_digits put tmp (length tmp) x else x)
        in snd (pad_loop put 32 (sz, x)))"
    proof -
      have z: "ty AND (ZEROPAD OR LEFT) = 0 \<longleftrightarrow> type AND ZEROPAD = 0 \<and> type AND LEFT = 0" unfolding flag_two ft(2) using ft(3) by auto
      show ?thesis unfolding print_number_def Let_def ty_def [symmetric] sg ft(1,2) z tm [unfolded Let_def] ..
    qed
    show ?thesis unfolding p number_text_def sign_def [symmetric] len(1)
      by (cases "type AND LEFT = 0"; cases "type AND ZEROPAD = 0"; cases "sign = 0"; cases "precision = 0")
        (simp_all add: Let_def ft(3) pad_loop_text prec_loop_text put_digits_text len max_def)
  qed
qed

subsection \<open>Decimal digits\<close>

lemma digits_loop_append: "digits_loop ds base num tmp = tmp @ digits_loop ds base num []"
proof (induction "unat num" arbitrary: num tmp rule: less_induct)
  case less
  show ?case
  proof (cases "num = 0")
    case True
    then show ?thesis by (simp add: digits_loop.simps)
  next
    case False
    then have "unat (snd (divide num base)) < unat num" by (simp add: divide_def unat_div unat_gt_0)
    note IH = less [OF this]
    show ?thesis using False IH [of "tmp @ [ds ! unat (fst (divide num base))]"] IH [of "[ds ! unat (fst (divide num base))]"]
      by (simp add: digits_loop.simps [of ds base num])
  qed
qed

definition decimal :: "u32 \<Rightarrow> u8 list" where
  "decimal num = rev (digits_loop small_digits 10 num [])"

lemma decimal_step: "num \<noteq> 0 \<Longrightarrow> decimal num = decimal (num div 10) @ [small_digits ! unat (num mod 10)]"
  using digits_loop_append [of small_digits 10 "num div 10" "[small_digits ! unat (num mod 10)]"]
  by (simp add: decimal_def digits_loop.simps [of _ _ num] divide_def)

lemma decimal_0: "decimal 0 = []"
  by (simp add: decimal_def digits_loop.simps)

lemma small_digit:
  assumes "k < 10"
  shows "is_digit (small_digits ! k)" "ucast (small_digits ! k) - 48 = (of_nat k :: u32)"
proof -
  have "k = 0 \<or> k = 1 \<or> k = 2 \<or> k = 3 \<or> k = 4 \<or> k = 5 \<or> k = 6 \<or> k = 7 \<or> k = 8 \<or> k = 9" using assms by auto
  then show "is_digit (small_digits ! k)" "ucast (small_digits ! k) - 48 = (of_nat k :: u32)"
    by (elim disjE; simp add: small_digits_def is_digit_def)+
qed

lemma atoi_loop_app: "\<forall>c \<in> set ds. is_digit c \<Longrightarrow> atoi_loop r (ds @ rest) = atoi_loop (fold (\<lambda>c a. a * 10 + (ucast c - 48)) ds r) rest"
  by (induction ds arbitrary: r) auto

lemma decimal_reads:
  "(\<forall>c \<in> set (decimal num). is_digit c) \<and> fold (\<lambda>c a. a * 10 + (ucast c - 48)) (decimal num) 0 = num"
proof (induction "unat num" arbitrary: num rule: less_induct)
  case less
  show ?case
  proof (cases "num = 0")
    case True
    then show ?thesis by (simp add: decimal_0)
  next
    case False
    then have IH: "(\<forall>c \<in> set (decimal (num div 10)). is_digit c) \<and> fold (\<lambda>c a. a * 10 + (ucast c - 48)) (decimal (num div 10)) 0 = num div 10"
      by (intro less) (simp add: unat_div unat_gt_0)
    have m: "unat (num mod 10) < 10" by (simp add: unat_mod)
    have "num div 10 * 10 + of_nat (unat (num mod 10)) = num" by (simp add: div_mult_mod_eq)
    then show ?thesis using IH small_digit [OF m] by (simp add: decimal_step [OF False])
  qed
qed

lemma decimal_length: "unat num < 10 ^ k \<Longrightarrow> length (decimal num) \<le> k"
proof (induction k arbitrary: num)
  case 0
  then show ?case by (simp add: decimal_0 unat_eq_zero)
next
  case (Suc k)
  show ?case
  proof (cases "num = 0")
    case True
    then show ?thesis by (simp add: decimal_0)
  next
    case False
    have "unat (num div 10) < 10 ^ k" using Suc.prems by (simp add: unat_div less_mult_imp_div_less mult.commute)
    then show ?thesis using Suc.IH decimal_step [OF False] by simp
  qed
qed

lemma decimal_not_empty: "num \<noteq> 0 \<Longrightarrow> decimal num \<noteq> []"
  by (simp add: decimal_step)

text \<open>The text of \<^verbatim>\<open>%d\<close> without width and precision.\<close>

definition signed_decimal :: "u32 \<Rightarrow> u8 list" where
  "signed_decimal w = (if sint w < 0 then 45 # decimal (- w) else if w = 0 then [48] else decimal w)"

lemma number_text_decimal: "number_text w 10 (- 1) (- 1) SIGN = signed_decimal w"
  by (auto simp: number_text_def number_digits_def number_sign_def signed_decimal_def decimal_def Let_def)

lemma signed_decimal_length: "length (signed_decimal w) \<le> 11" "signed_decimal w \<noteq> []"
proof -
  have "length (decimal v) \<le> 10" for v :: u32
    by (rule decimal_length, rule order_less_trans [OF u32_bound]) simp
  from this [of w] this [of "- w"] show "length (signed_decimal w) \<le> 11" by (simp add: signed_decimal_def)
  show "signed_decimal w \<noteq> []" using decimal_not_empty [of w] by (auto simp: signed_decimal_def)
qed

lemma atoi_signed_decimal: "rt_atoi (Some (signed_decimal w @ 0 # rest)) = Some (sint w)"
proof -
  have z: "\<not> is_digit 0" by (simp add: is_digit_def)
  have a: "atoi_loop 0 (decimal v @ 0 # rest) = Some v" for v using atoi_loop_app [of "decimal v" 0 "0 # rest"] decimal_reads [of v] z by simp
  consider "sint w < 0" | "w = 0" | "\<not> sint w < 0" "w \<noteq> 0" by blast
  then show ?thesis
  proof cases
    case 1
    then show ?thesis using a [of "- w"] by (simp add: signed_decimal_def rt_atoi_def)
  next
    case 2
    then show ?thesis using z by (simp add: signed_decimal_def rt_atoi_def is_digit_def)
  next
    case 3
    obtain c ds where d: "decimal w = c # ds" using decimal_not_empty [OF 3(2)] by (cases "decimal w") auto
    then have "is_digit c" using decimal_reads [of w] by simp
    then have "c \<noteq> 43" "c \<noteq> 45" by (auto simp: is_digit_def)
    then show ?thesis using 3 a [of w] d by (simp add: signed_decimal_def rt_atoi_def)
  qed
qed

subsection \<open>The buffer\<close>

text \<open>The memory after the text is cut to the \<open>n\<close> bytes of the buffer and terminated.\<close>

definition stored :: "u32 \<Rightarrow> nat \<Rightarrow> u8 list \<Rightarrow> memory \<Rightarrow> memory" where
  "stored buf n cs M = (\<lambda>x. let i = unat (x - buf); k = min (length cs) (n - 1) in
     if n = 0 then M x else if i < k then cs ! i else if i = k then 0 else M x)"

lemma fold_emit:
  "unat str + length cs \<le> 2 ^ 32 \<Longrightarrow> fold (emit stop) cs (str, M) =
     (str + of_nat (length cs), \<lambda>x. if unat (x - str) < length cs \<and> x < stop then cs ! unat (x - str) else M x)"
proof (induction cs arbitrary: str M)
  case (Cons c cs)
  have b: "unat str + 1 \<le> 2 ^ 32" using Cons.prems by simp
  show ?case
  proof (cases "unat str + 1 = 2 ^ 32")
    case True
    then have "cs = []" using Cons.prems by simp
    then show ?thesis by (auto simp: emit_def fun_eq_iff unat_eq_zero)
  next
    case False
    have "unat (str + 1) = unat str + 1" using b False by (simp add: unat_word_ariths)
    then have IH: "fold (emit stop) cs (str + 1, M') = (str + 1 + of_nat (length cs),
        \<lambda>x. if unat (x - (str + 1)) < length cs \<and> x < stop then cs ! unat (x - (str + 1)) else M' x)" for M'
      using Cons.IH [of "str + 1"] Cons.prems by simp
    have m: "(if unat (x - (str + 1)) < length cs \<and> x < stop then cs ! unat (x - (str + 1)) else (if str < stop then M(str := c) else M) x) =
        (if unat (x - str) < length (c # cs) \<and> x < stop then (c # cs) ! unat (x - str) else M x)" for x
    proof -
      obtain w where w: "x = str + w" by (metis add.commute diff_add_cancel)
      have s: "unat (w - 1) = (if 1 \<le> unat w then unat w - 1 else unat w + 2 ^ 32 - 1)" using unat_shift [of 1 w] by simp
      have "w = 0 \<or> 1 \<le> unat w" by (metis less_one not_less unat_eq_zero)
      moreover have "length cs < 2 ^ 32" using Cons.prems by simp
      ultimately show ?thesis using s unfolding w by (auto simp: nth_Cons' unat_eq_zero)
    qed
    have "emit stop c (str, M) = (str + 1, if str < stop then M(str := c) else M)" by (simp add: emit_def)
    then have "fold (emit stop) (c # cs) (str, M) = fold (emit stop) cs (str + 1, if str < stop then M(str := c) else M)" by simp
    also have "\<dots> = (str + of_nat (length (c # cs)),
        \<lambda>x. if unat (x - str) < length (c # cs) \<and> x < stop then (c # cs) ! unat (x - str) else M x)"
      unfolding IH m by (simp add: add.assoc)
    finally show ?thesis .
  qed
qed simp

text \<open>The functions that print do so by a text that depends on neither the buffer nor the memory.\<close>

lemma print_char_text:
  "print_char stop c flags w x = fold (emit stop) (if flags AND LEFT = 0 then replicate (nat (w - 1)) 32 @ [c] else c # replicate (nat (w - 1)) 32) x"
  by (simp add: print_char_def pre_pad_text)

lemma print_string_text:
  "\<exists>r. \<forall>stop x. print_string stop s flags w precision x = map_option (\<lambda>cs. fold (emit stop) cs x) r"
proof -
  define v where "v = (case s of None \<Rightarrow> [40, 78, 85, 76, 76, 41, 0] | Some s \<Rightarrow> s)"
  show ?thesis
  proof (cases "rt_strlen v")
    case None
    then have "print_string stop s flags w precision x = None" for stop x by (simp add: print_string_def v_def Let_def)
    then show ?thesis by (intro exI [of _ None]) simp
  next
    case (Some n)
    define len where "len = (if 0 < precision \<and> precision < int n then precision else int n)"
    have "print_string stop s flags w precision x = Some (fold (emit stop) (if flags AND LEFT = 0 then replicate (nat (w - len)) 32 @ take (nat len) v
        else take (nat len) v @ replicate (nat (w - len)) 32) x)" for stop x
      unfolding print_string_def v_def [symmetric] Let_def Some bind.bind_lunit len_def [symmetric] by (simp add: len_pad_text)
    then show ?thesis by (intro exI [of _ "Some (if flags AND LEFT = 0 then replicate (nat (w - len)) 32 @ take (nat len) v
        else take (nat len) v @ replicate (nat (w - len)) 32)"]) simp
  qed
qed

definition no_longlong :: "vararg list \<Rightarrow> bool" where
  "no_longlong args = (\<forall>w. Longlong_arg w \<notin> set args)"

lemma va_int_rest: "va_int args = Some (w, args') \<Longrightarrow> set args' \<subseteq> set args"
  by (cases args rule: va_int.cases) auto

lemma va_string_rest: "va_string args = Some (s, args') \<Longrightarrow> set args' \<subseteq> set args"
  by (cases args rule: va_string.cases) auto

lemma va_longlong_none: "no_longlong args \<Longrightarrow> va_longlong args = None"
  by (cases args rule: va_longlong.cases) (auto simp: no_longlong_def)

lemma no_longlong_sub: "no_longlong args \<Longrightarrow> set args' \<subseteq> set args \<Longrightarrow> no_longlong args'"
  by (auto simp: no_longlong_def)

lemma parse_flags_rest: "parse_flags flags fmt = Some (flags', fmt') \<Longrightarrow> length fmt' \<le> length fmt"
  by (induction flags fmt rule: parse_flags.induct) (auto split: if_splits)

lemma skip_atoi_rest: "skip_atoi i fmt = Some (j, fmt') \<Longrightarrow> length fmt' \<le> length fmt"
  by (induction i fmt rule: skip_atoi.induct) (auto split: if_splits)

lemma parse_width_rest: "parse_width flags fmt args = Some (flags', w, fmt', args') \<Longrightarrow> length fmt' \<le> length fmt \<and> set args' \<subseteq> set args"
  by (auto simp: parse_width_def split: list.splits if_splits dest: skip_atoi_rest va_int_rest)

lemma parse_precision_rest: "parse_precision fmt args = Some (p, fmt', args') \<Longrightarrow> length fmt' \<le> length fmt \<and> set args' \<subseteq> set args"
  by (auto simp: parse_precision_def split: list.splits if_splits dest: skip_atoi_rest va_int_rest)

lemma parse_qualifier_rest: "parse_qualifier fmt = Some (q, fmt') \<Longrightarrow> length fmt' \<le> length fmt"
  by (auto simp: parse_qualifier_def split: list.splits if_splits)

lemma print_integer_text:
  assumes "no_longlong args"
  shows "\<exists>r. (\<forall>stop x. print_integer stop q base w p flags args x = map_option (\<lambda>(args', cs). (args', fold (emit stop) cs x)) r) \<and>
     (\<forall>args' cs. r = Some (args', cs) \<longrightarrow> set args' \<subseteq> set args)"
proof (cases "q = 76 \<or> va_int args = None")
  case True
  then have "print_integer stop q base w p flags args x = None" for stop x using va_longlong_none [OF assms] by (auto simp: print_integer_def)
  then show ?thesis by (intro exI [of _ None]) simp
next
  case False
  then obtain num args' where v: "va_int args = Some (num, args')" by auto
  define n where "n = (if q = 104 then if flags AND SIGN \<noteq> 0 then scast (ucast num :: u16) else ucast (ucast num :: u16) else num)"
  have "print_integer stop q base w p flags args x = Some (args', fold (emit stop) (number_text n base w p flags) x)" for stop x
    using False v by (simp add: print_integer_def Let_def n_def [symmetric] print_number_text)
  then show ?thesis using va_int_rest [OF v] by (intro exI [of _ "Some (args', number_text n base w p flags)"]) simp
qed

definition texted :: "(u32 \<Rightarrow> printed \<Rightarrow> (u8 list \<times> vararg list \<times> printed) option) \<Rightarrow> nat \<Rightarrow> vararg list \<Rightarrow> bool" where
  "texted g n args = (\<exists>r. (\<forall>stop x. g stop x = map_option (\<lambda>(fmt', args', cs). (fmt', args', fold (emit stop) cs x)) r) \<and>
     (\<forall>fmt' args' cs. r = Some (fmt', args', cs) \<longrightarrow> length fmt' \<le> n \<and> set args' \<subseteq> set args))"

lemma texted_none: "texted (\<lambda>stop x. None) n args"
  unfolding texted_def by (intro exI [of _ None]) simp

lemma texted_some: "length fmt' \<le> n \<Longrightarrow> set args' \<subseteq> set args \<Longrightarrow> texted (\<lambda>stop x. Some (fmt', args', fold (emit stop) cs x)) n args"
  unfolding texted_def by (intro exI [of _ "Some (fmt', args', cs)"]) simp

lemma texted_if: "texted f n args \<Longrightarrow> texted g n args \<Longrightarrow> texted (\<lambda>stop x. if b then f stop x else g stop x) n args"
  by (cases b) simp_all

lemma texted_integer:
  assumes "no_longlong args'" and "length fmt' \<le> n" and "set args' \<subseteq> set args"
  shows "texted (\<lambda>stop x. map_option (\<lambda>y. (fmt', y)) (print_integer stop q base w p flags args' x)) n args"
proof -
  obtain r where r: "\<And>stop x. print_integer stop q base w p flags args' x = map_option (\<lambda>(args', cs). (args', fold (emit stop) cs x)) r"
    "\<And>args2 cs. r = Some (args2, cs) \<Longrightarrow> set args2 \<subseteq> set args'" using print_integer_text [OF assms(1)] by blast
  show ?thesis unfolding texted_def r(1)
    by (intro exI [of _ "map_option (Pair fmt') r"]) (use r(2) assms in \<open>cases r; auto\<close>)
qed

lemma texted_string:
  assumes "length fmt' \<le> n" and "set args' \<subseteq> set args"
  shows "texted (\<lambda>stop x. do { x \<leftarrow> print_string stop s flags w p x; Some (fmt', args', x) }) n args"
proof -
  obtain r where r: "\<And>stop x. print_string stop s flags w p x = map_option (\<lambda>cs. fold (emit stop) cs x) r" using print_string_text by blast
  show ?thesis unfolding texted_def r
    by (intro exI [of _ "map_option (\<lambda>cs. (fmt', args', cs)) r"]) (use assms in \<open>cases r; auto\<close>)
qed

lemma conversion_text:
  assumes a: "no_longlong args"
  shows "texted (conversion flags w p q fmt args) (length fmt) args"
proof (cases fmt)
  case Nil
  then show ?thesis by (simp add: conversion_def [abs_def] texted_none)
next
  case (Cons c rest)
  have l: "length rest \<le> length fmt" using Cons by simp
  have n: "texted (\<lambda>stop x. do { (v, args) \<leftarrow> va_int args; Some (rest, args, print_number stop v b w p fl x) }) (length fmt) args" for b w fl
    using texted_none texted_some [OF l va_int_rest] by (cases "va_int args") (auto simp: print_number_text)
  show ?thesis
  proof (cases "c = 99 \<or> c = 115 \<or> c = 112")
    case True
    then show ?thesis
    proof (elim disjE)
      assume "c = 99"
      then show ?thesis using texted_none texted_some [OF l va_int_rest] Cons
        by (cases "va_int args") (auto simp: conversion_def [abs_def] print_char_text)
    next
      assume "c = 115"
      then show ?thesis using texted_none texted_string [OF l va_string_rest] Cons
        by (cases "va_string args") (auto simp: conversion_def [abs_def])
    next
      assume "c = 112"
      then show ?thesis using n Cons by (simp add: conversion_def [abs_def] Let_def)
    qed
  next
    case False
    have t: "texted (\<lambda>stop x. Some (f, args, emit stop d x)) (length fmt) args" "texted (\<lambda>stop x. Some (f, args, emit stop d (emit stop 37 x))) (length fmt) args"
      if "length f \<le> length fmt" for f d
      using texted_some [OF that order_refl, where cs = "[d]"] texted_some [OF that order_refl, where cs = "[37, d]"] by simp_all
    have "conversion flags w p q fmt args = (\<lambda>stop x.
        if c = 37 then Some (rest, args, emit stop 37 x)
        else if c = 111 then map_option (\<lambda>y. (rest, y)) (print_integer stop q 8 w p flags args x)
        else if c = 88 then map_option (\<lambda>y. (rest, y)) (print_integer stop q 16 w p (flags OR LARGE) args x)
        else if c = 120 then map_option (\<lambda>y. (rest, y)) (print_integer stop q 16 w p flags args x)
        else if c = 100 \<or> c = 105 then map_option (\<lambda>y. (rest, y)) (print_integer stop q 10 w p (flags OR SIGN) args x)
        else if c = 117 then map_option (\<lambda>y. (rest, y)) (print_integer stop q 10 w p flags args x)
        else if c \<noteq> 0 then Some (rest, args, emit stop c (emit stop 37 x))
        else Some (fmt, args, emit stop 37 x))"
      unfolding Cons using False by (simp add: conversion_def [abs_def])
    then show ?thesis by (simp only:) (intro texted_if texted_integer [OF a l order_refl] t [OF l] t(1) [OF order_refl])
  qed
qed

lemma texted_mono: "texted g m args' \<Longrightarrow> m \<le> n \<Longrightarrow> set args' \<subseteq> set args \<Longrightarrow> texted g n args"
  unfolding texted_def by (meson order_trans)

lemma convert_text:
  assumes a: "no_longlong args"
  shows "texted (\<lambda>stop x. convert stop fmt args x) (length fmt) args"
proof (cases "\<exists>fl f1 fl2 w f2 a2 p f3 a3 q f4. parse_flags 0 fmt = Some (fl, f1) \<and> parse_width fl f1 args = Some (fl2, w, f2, a2) \<and>
    parse_precision f2 a2 = Some (p, f3, a3) \<and> parse_qualifier f3 = Some (q, f4)")
  case True
  then obtain fl f1 fl2 w f2 a2 p f3 a3 q f4 where s: "parse_flags 0 fmt = Some (fl, f1)" "parse_width fl f1 args = Some (fl2, w, f2, a2)"
    "parse_precision f2 a2 = Some (p, f3, a3)" "parse_qualifier f3 = Some (q, f4)" by blast
  have r: "set a3 \<subseteq> set args" "length f4 \<le> length fmt"
    using parse_flags_rest [OF s(1)] parse_width_rest [OF s(2)] parse_precision_rest [OF s(3)] parse_qualifier_rest [OF s(4)] by auto
  have "convert stop fmt args x = conversion fl2 w p q f4 a3 stop x" for stop x using s by (simp add: convert_def)
  then show ?thesis using texted_mono [OF conversion_text [OF no_longlong_sub [OF a r(1)]] r(2,1)] by simp
next
  case False
  have "convert stop fmt args x = None" for stop x
  proof (rule ccontr)
    assume "convert stop fmt args x \<noteq> None"
    then obtain y where "convert stop fmt args x = Some y" by blast
    then show False using False by (auto simp: convert_def)
  qed
  then show ?thesis by (simp add: texted_none)
qed

lemma vsn_loop_text:
  "no_longlong args \<Longrightarrow> \<exists>r. \<forall>stop x. vsn_loop stop fmt args x = map_option (\<lambda>cs. fold (emit stop) cs x) r"
proof (induction "length fmt" arbitrary: fmt args rule: less_induct)
  case less
  show ?case
  proof (cases fmt)
    case Nil
    then have "vsn_loop stop fmt args x = None" for stop x by (simp add: vsn_loop.simps)
    then show ?thesis by (intro exI [of _ None]) simp
  next
    case (Cons c rest)
    consider "c = 0" | "c \<noteq> 0" "c \<noteq> 37" | "c = 37" by blast
    then show ?thesis
    proof cases
      case 1
      then have "vsn_loop stop fmt args x = Some x" for stop x using Cons by (simp add: vsn_loop.simps)
      then show ?thesis by (intro exI [of _ "Some []"]) simp
    next
      case 2
      obtain r where r: "\<And>stop x. vsn_loop stop rest args x = map_option (\<lambda>cs. fold (emit stop) cs x) r"
        using less.hyps [of rest args] less.prems Cons by auto
      have "vsn_loop stop fmt args x = map_option (\<lambda>cs. fold (emit stop) cs x) (map_option ((#) c) r)" for stop x
        using 2 Cons r [of stop "emit stop c x"] by (simp add: vsn_loop.simps [of stop "c # rest"] option.map_comp comp_def)
      then show ?thesis by blast
    next
      case 3
      have c: "vsn_loop stop fmt args x = Option.bind (convert stop rest args x) (\<lambda>(fmt, args, x). vsn_loop stop fmt args x)" for stop x
        unfolding Cons 3 by (subst vsn_loop.simps) simp
      obtain r where r: "\<And>stop x. convert stop rest args x = map_option (\<lambda>(fmt', args', cs). (fmt', args', fold (emit stop) cs x)) r"
        "\<And>fmt' args' cs. r = Some (fmt', args', cs) \<Longrightarrow> length fmt' \<le> length rest \<and> set args' \<subseteq> set args"
        using convert_text [OF less.prems, of rest] unfolding texted_def by blast
      show ?thesis
      proof (cases r)
        case None
        then have "vsn_loop stop fmt args x = None" for stop x using c r(1) by simp
        then show ?thesis by (intro exI [of _ None]) simp
      next
        case (Some y)
        then obtain f' a' cs where y: "r = Some (f', a', cs)" by (cases y) auto
        have "length f' < length fmt" "no_longlong a'" using r(2) [OF y] no_longlong_sub [OF less.prems] Cons by auto
        then obtain r' where r': "\<And>stop x. vsn_loop stop f' a' x = map_option (\<lambda>cs. fold (emit stop) cs x) r'" using less.hyps by blast
        have "vsn_loop stop fmt args x = map_option (\<lambda>cs. fold (emit stop) cs x) (map_option ((@) cs) r')" for stop x
          using c r(1) y r' [of stop "fold (emit stop) cs x"] by (simp add: option.map_comp comp_def)
        then show ?thesis by blast
      qed
    qed
  qed
qed

lemma stored_emits:
  fixes M :: memory
  assumes b: "unat buf + unat sz < 2 ^ 32" and l: "unat buf + length cs < 2 ^ 32"
  defines "x \<equiv> fold (emit (buf + sz)) cs (buf, M)"
  shows "fst x - buf = of_nat (length cs)"
    "(if 0 < sz then if fst x < buf + sz then (snd x)(fst x := 0) else (snd x)(buf + sz - 1 := 0) else snd x) = stored buf (unat sz) cs M"
proof -
  let ?n = "length cs"
  have x: "x = (buf + of_nat ?n, \<lambda>y. if unat (y - buf) < ?n \<and> y < buf + sz then cs ! unat (y - buf) else M y)"
    unfolding x_def using l by (intro fold_emit) simp
  then show "fst x - buf = of_nat ?n" by simp
  have un: "unat (of_nat ?n :: u32) = ?n" using l by (simp add: unat_of_nat take_bit_nat_eq_self)
  have us: "unat (buf + sz) = unat buf + unat sz" "unat (buf + of_nat ?n) = unat buf + ?n" using b l un by (simp_all add: unat_word_ariths)
  have st: "buf + of_nat ?n < buf + sz \<longleftrightarrow> ?n < unat sz" using us by (simp add: word_less_nat_alt)
  show "(if 0 < sz then if fst x < buf + sz then (snd x)(fst x := 0) else (snd x)(buf + sz - 1 := 0) else snd x) = stored buf (unat sz) cs M"
  proof
    fix y
    define w where "w = y - buf"
    have y: "y = buf + w" by (simp add: w_def)
    have lt: "y < buf + sz \<longleftrightarrow> unat w < unat sz" if "unat w < ?n"
    proof -
      have "unat y = unat buf + unat w" using that l unfolding y by (simp add: unat_word_ariths)
      then show ?thesis using us by (simp add: word_less_nat_alt)
    qed
    have "w = of_nat ?n \<longleftrightarrow> unat w = ?n" using un by (metis word_unat_eq_iff)
    then have e: "y = buf + of_nat ?n \<longleftrightarrow> unat w = ?n" by (simp add: y)
    have e2: "y = buf + sz - 1 \<longleftrightarrow> unat w = unat sz - 1" if "0 < unat sz"
    proof -
      have "unat (sz - 1) = unat sz - 1" using unat_minus_nat [of 1 sz] that by simp
      moreover have "y = buf + sz - 1 \<longleftrightarrow> w = sz - 1" by (auto simp: w_def algebra_simps)
      ultimately show ?thesis by (simp add: word_unat_eq_iff)
    qed
    have z: "0 < sz \<longleftrightarrow> 0 < unat sz" by (simp add: word_less_nat_alt)
    show "(if 0 < sz then if fst x < buf + sz then (snd x)(fst x := 0) else (snd x)(buf + sz - 1 := 0) else snd x) y = stored buf (unat sz) cs M y"
      using lt e e2 unfolding x fst_conv snd_conv st z stored_def w_def [symmetric] by (auto simp: Let_def min_def w_def [symmetric])
  qed
qed

subsection \<open>Numerals\<close>

text \<open>What a numeral is, by the positional value of its characters.\<close>

definition digit_value :: "u8 \<Rightarrow> nat" where
  "digit_value c = (if 48 \<le> c \<and> c \<le> 57 then unat c - 48 else if 97 \<le> c \<and> c \<le> 102 then unat c - 87
     else if 65 \<le> c \<and> c \<le> 70 then unat c - 55 else 16)"

definition digit_char :: "nat \<Rightarrow> bool \<Rightarrow> u8 \<Rightarrow> bool" where
  "digit_char b large c = ((48 \<le> c \<and> c \<le> 57) \<or> (b = 16 \<and> (if large then 65 \<le> c \<and> c \<le> 70 else 97 \<le> c \<and> c \<le> 102)))"

definition numeral_of :: "nat \<Rightarrow> bool \<Rightarrow> nat \<Rightarrow> u8 list \<Rightarrow> bool" where
  "numeral_of b large v ds = (ds \<noteq> [] \<and> (\<forall>c \<in> set ds. digit_char b large c) \<and>
     foldl (\<lambda>a c. a * b + digit_value c) 0 ds = v \<and> (hd ds = 48 \<longrightarrow> ds = [48]))"

lemma table_digit:
  fixes base :: int and large :: bool
  assumes "k < (if base = 10 then 10 else 16)"
  defines "c \<equiv> (if large then large_digits else small_digits) ! k"
  shows "digit_value c = k" "digit_char (if base = 10 then 10 else 16) large c"
proof -
  have "list_all (\<lambda>k. digit_value (small_digits ! k) = k \<and> digit_value (large_digits ! k) = k \<and>
      digit_char 16 False (small_digits ! k) \<and> digit_char 16 True (large_digits ! k) \<and>
      (k < 10 \<longrightarrow> digit_char 10 False (small_digits ! k) \<and> digit_char 10 True (large_digits ! k))) [0..<16]"
    by code_simp
  moreover have "k \<in> set [0..<16]" using assms(1) by (simp split: if_splits)
  ultimately show "digit_value c = k" "digit_char (if base = 10 then 10 else 16) large c"
    using assms(1) unfolding c_def list_all_iff by (cases large; cases "base = 10"; force)+
qed

lemma digits_loop_step:
  fixes base :: int
  assumes "num \<noteq> 0"
  defines "b \<equiv> (if base = 10 then 10 else 16 :: nat)"
  obtains q k where "unat q = unat num div b" "k = unat num mod b"
    "rev (digits_loop ds base num []) = rev (digits_loop ds base q []) @ [ds ! k]"
proof -
  let ?q = "snd (divide num base)"
  have "unat ?q = unat num div b" "unat (fst (divide num base)) = unat num mod b"
    by (simp_all add: divide_def b_def unat_div unat_mod)
  moreover have "rev (digits_loop ds base num []) = rev (digits_loop ds base ?q []) @ [ds ! unat (fst (divide num base))]"
    using assms(1) digits_loop_append [of ds base ?q "[ds ! unat (fst (divide num base))]"]
    by (simp add: digits_loop.simps [of ds base num])
  ultimately show ?thesis using that by simp
qed

lemma digits_loop_numeral:
  assumes "num \<noteq> 0"
  shows "numeral_of (if base = 10 then 10 else 16) large (unat num)
     (rev (digits_loop (if large then large_digits else small_digits) base num []))"
  using assms
proof (induction "unat num" arbitrary: num rule: less_induct)
  case less
  define b where "b = (if base = 10 then 10 else 16 :: nat)"
  define ds where "ds = (if large then large_digits else small_digits)"
  obtain q k where s: "unat q = unat num div b" "k = unat num mod b"
    "rev (digits_loop ds base num []) = rev (digits_loop ds base q []) @ [ds ! k]"
    using digits_loop_step [OF less.prems] unfolding b_def by blast
  have b: "1 < b" by (simp add: b_def)
  have k: "k < b" using b s(2) by simp
  note d = table_digit [of k base large, folded b_def ds_def, OF k]
  have n: "unat num = unat q * b + k" using s(1,2) by simp
  show ?case
  proof (cases "q = 0")
    case True
    then have "rev (digits_loop ds base num []) = [ds ! k]" "unat num = k" using s(3) n by (simp_all add: digits_loop.simps)
    then show ?thesis unfolding b_def [symmetric] ds_def [symmetric] using d by (simp add: numeral_of_def)
  next
    case False
    have "unat num \<noteq> 0" using less.prems by (simp add: unat_eq_0)
    then have "unat q < unat num" using s(1) b by simp
    from less.hyps [OF this False] have "numeral_of b large (unat q) (rev (digits_loop ds base q []))"
      by (simp add: b_def ds_def)
    moreover from this have "hd (rev (digits_loop ds base q [])) \<noteq> 48"
      using False by (auto simp: numeral_of_def digit_value_def unat_eq_0)
    ultimately show ?thesis unfolding b_def [symmetric] ds_def [symmetric] s(3) using d n
      by (simp add: numeral_of_def)
  qed
qed

text \<open>A number as the flags ask for it: its sign, its digits, zeros up to the precision, and what fills the width.\<close>

definition sign_text :: "bool \<Rightarrow> u8 \<Rightarrow> u8 list" where
  "sign_text negative type =
     (if type AND SIGN = 0 then [] else if negative then [45] else if type AND PLUS \<noteq> 0 then [43]
      else if type AND SPACE \<noteq> 0 then [32] else [])"

definition laid_out :: "u8 list \<Rightarrow> u8 list \<Rightarrow> int \<Rightarrow> int \<Rightarrow> u8 \<Rightarrow> u8 list" where
  "laid_out sg ds width precision type =
     (let body = replicate (nat (precision - int (length ds))) 48 @ (if precision = 0 then [] else ds);
          pad = nat (width - max precision (int (length ds)) - int (length sg))
      in if type AND LEFT \<noteq> 0 then sg @ body @ replicate pad 32
         else if type AND ZEROPAD \<noteq> 0 then sg @ replicate pad 48 @ body
         else replicate pad 32 @ sg @ body)"

lemma number_text_laid_out:
  "number_text num base s precision type = laid_out (sign_text (sint num < 0) type) (number_digits num base type) s precision type"
  by (auto simp: number_text_def laid_out_def sign_text_def number_sign_def Let_def)

lemma number_digits_numeral:
  "numeral_of (if base = 10 then 10 else 16) (type AND LARGE \<noteq> 0)
     (if type AND SIGN \<noteq> 0 then nat \<bar>sint num\<bar> else unat num) (number_digits num base type)"
proof -
  define n where "n = (if type AND SIGN \<noteq> 0 \<and> sint num < 0 then - num else num)"
  have v: "(if type AND SIGN \<noteq> 0 then nat \<bar>sint num\<bar> else unat num) = unat n"
  proof (cases "sint num < 0")
    case True
    have "- (2 ^ 31) \<le> sint num" using sint_ge [of num] by simp
    then have "(sint num + 2 ^ 32) mod 2 ^ 32 = sint num + 2 ^ 32" using True by (intro mod_pos_pos_trivial) simp_all
    moreover have "uint num = sint num mod 2 ^ 32" by (simp add: uint_sint take_bit_eq_mod)
    ultimately have "uint num = sint num + 2 ^ 32" by simp
    moreover have "num \<noteq> 0" using True by auto
    then have "uint (- num) = 2 ^ 32 - uint num" using unsigned_less [of num, where 'a = int] uint_0_iff [of num]
      by (simp add: uint_word_ariths zmod_zminus1_eq_if)
    ultimately have "int (unat (- num)) = - sint num" by (simp add: uint_nat [symmetric])
    then have "nat (- sint num) = unat (- num)" by (metis nat_int)
    then show ?thesis using True by (auto simp: n_def)
  next
    case False
    then have "int (unat num) = sint num" by (simp add: sint_nonneg_unat)
    then have "nat (sint num) = unat num" by (metis nat_int)
    then show ?thesis using False by (auto simp: n_def)
  qed
  show ?thesis
  proof (cases "n = 0")
    case True
    then have "number_digits num base type = [48]" by (simp add: number_digits_def n_def)
    moreover have "numeral_of b large 0 [48]" for b large by (simp add: numeral_of_def digit_value_def digit_char_def)
    ultimately show ?thesis unfolding v using True by simp
  next
    case False
    then have "number_digits num base type = rev (digits_loop (if type AND LARGE \<noteq> 0 then large_digits else small_digits) base n [])"
      by (simp add: number_digits_def n_def [symmetric])
    then show ?thesis unfolding v using digits_loop_numeral [OF False] by simp
  qed
qed

text \<open>C22: What \<^verbatim>\<open>print_number\<close> prints, for every 32-bit value, base, width, precision and set of flags. The digits are the numeral
  of the value, without leading zeros: in decimal for base 10, and in hexadecimal, in the case that \<^verbatim>\<open>LARGE\<close> asks for, for
  every other base (so also for \<^verbatim>\<open>%o\<close>, which asks for base 8). With \<^verbatim>\<open>SIGN\<close> the value is signed and the sign stands in front,
  \<^verbatim>\<open>-\<close>, or \<^verbatim>\<open>+\<close> or a blank by the flags. Zeros fill the digits up to the precision (a precision of 0 leaves out the digits
  themselves), and blanks on the right with \<^verbatim>\<open>LEFT\<close>, zeros behind the sign with \<^verbatim>\<open>ZEROPAD\<close>, or else blanks on the left fill the width.
  When the text ends below the top of the address space, its characters are stored one by one from the pointer on, as far as
  they lie below the end of the buffer, no other byte changes, and the pointer moves by the length of the text.\<close>

theorem print_number_layout:
  "\<exists>ds cs. numeral_of (if base = 10 then 10 else 16) (type AND LARGE \<noteq> 0)
       (if type AND SIGN \<noteq> 0 then nat \<bar>sint num\<bar> else unat num) ds \<and>
     cs = laid_out (sign_text (sint num < 0) type) ds s precision type \<and>
     (unat buf + length cs < 2 ^ 32 \<longrightarrow> print_number stop num base s precision type (buf, M) =
        (buf + of_nat (length cs), \<lambda>y. if unat (y - buf) < length cs \<and> y < stop then cs ! unat (y - buf) else M y))"
proof (intro exI conjI impI)
  let ?ds = "number_digits num base type"
  let ?cs = "laid_out (sign_text (sint num < 0) type) ?ds s precision type"
  show "numeral_of (if base = 10 then 10 else 16) (type AND LARGE \<noteq> 0)
      (if type AND SIGN \<noteq> 0 then nat \<bar>sint num\<bar> else unat num) ?ds"
    by (rule number_digits_numeral)
  show "?cs = ?cs" ..
  show "print_number stop num base s precision type (buf, M) =
      (buf + of_nat (length ?cs), \<lambda>y. if unat (y - buf) < length ?cs \<and> y < stop then ?cs ! unat (y - buf) else M y)"
    if "unat buf + length ?cs < 2 ^ 32"
    unfolding print_number_text number_text_laid_out by (rule fold_emit) (use that in simp)
qed

theorem print_number_layout_witness:
  "\<exists>ds cs. numeral_of 10 False 42 ds \<and> cs = laid_out [45] ds 6 (- 1) (SIGN OR ZEROPAD) \<and>
     (unat (0x1000 :: u32) + length cs < 2 ^ 32 \<longrightarrow>
        print_number 0x1010 (- 42) 10 6 (- 1) (SIGN OR ZEROPAD) (0x1000, \<lambda>_. 0) = (0x1000 + of_nat (length cs),
          \<lambda>y. if unat (y - 0x1000) < length cs \<and> y < 0x1010 then cs ! unat (y - 0x1000) else 0))"
proof -
  have "sint (- 42 :: u32) = - 42" by simp
  then show ?thesis
    using print_number_layout [where base = 10 and type = "SIGN OR ZEROPAD" and num = "- 42" and s = 6 and precision = "- 1" and buf = "0x1000"
      and stop = "0x1010" and M = "\<lambda>_. 0"] by (simp add: sign_text_def)
qed

lemma snprintf_loop:
  assumes "unat buf + unat sz < 2 ^ 32"
  shows "rt_snprintf buf sz fmt args M = map_option (\<lambda>x. (sint (fst x - buf),
     if 0 < sz then if fst x < buf + sz then (snd x)(fst x := 0) else (snd x)(buf + sz - 1 := 0) else snd x)) (vsn_loop (buf + sz) fmt args (buf, M))"
proof -
  have "unat (buf + sz) = unat buf + unat sz" using assms by (simp add: unat_word_ariths)
  then have "\<not> buf + sz < buf" by (simp add: word_less_nat_alt)
  then show ?thesis by (cases "vsn_loop (buf + sz) fmt args (buf, M)") (auto simp: rt_snprintf_def rt_vsnprintf_def Let_def split: prod.splits)
qed

text \<open>C23: The text that \<^verbatim>\<open>rt_snprintf\<close> produces is fixed by the format and the arguments. Without a \<^verbatim>\<open>long long\<close> argument the call
  stores as much of it as the buffer holds with a terminating zero, changes no byte outside the buffer, and returns the
  length of the whole text, for every buffer, size and contents of the memory.\<close>

theorem snprintf_bounded:
  assumes "no_longlong args"
  shows "\<exists>r. \<forall>buf sz M. unat buf + unat sz < 2 ^ 32 \<longrightarrow>
     (case r of
        None \<Rightarrow> rt_snprintf buf sz fmt args M = None
      | Some cs \<Rightarrow> unat buf + length cs < 2 ^ 32 \<longrightarrow>
          rt_snprintf buf sz fmt args M = Some (sint (of_nat (length cs) :: u32), stored buf (unat sz) cs M))"
proof -
  obtain r where r: "\<And>stop x. vsn_loop stop fmt args x = map_option (\<lambda>cs. fold (emit stop) cs x) r" using vsn_loop_text [OF assms] by blast
  show ?thesis
  proof (intro exI allI impI)
    fix buf sz :: u32 and M :: memory assume b: "unat buf + unat sz < 2 ^ 32"
    show "case r of
        None \<Rightarrow> rt_snprintf buf sz fmt args M = None
      | Some cs \<Rightarrow> unat buf + length cs < 2 ^ 32 \<longrightarrow>
          rt_snprintf buf sz fmt args M = Some (sint (of_nat (length cs) :: u32), stored buf (unat sz) cs M)"
    proof (cases r)
      case None
      then show ?thesis by (simp add: snprintf_loop [OF b] r)
    next
      case (Some cs)
      then show ?thesis using stored_emits [OF b, of cs M] by (simp add: snprintf_loop [OF b] r)
    qed
  qed
qed

theorem snprintf_bounded_witness:
  "\<exists>r. \<forall>buf sz M. unat buf + unat sz < 2 ^ 32 \<longrightarrow>
     (case r of
        None \<Rightarrow> rt_snprintf buf sz [97, 61, 37, 100, 0] [Int_arg 7] M = None
      | Some cs \<Rightarrow> unat buf + length cs < 2 ^ 32 \<longrightarrow>
          rt_snprintf buf sz [97, 61, 37, 100, 0] [Int_arg 7] M = Some (sint (of_nat (length cs) :: u32), stored buf (unat sz) cs M))"
  by (rule snprintf_bounded) (simp add: no_longlong_def)

lemma vsn_loop_decimal: "vsn_loop stop [37, 100, 0] [Int_arg w] x = Some (fold (emit stop) (signed_decimal w) x)"
proof -
  have "convert stop [100, 0] [Int_arg w] x = Some ([0], [], fold (emit stop) (signed_decimal w) x)"
    by (simp add: convert_def parse_width_def parse_precision_def parse_qualifier_def is_digit_def conversion_def print_integer_def
        print_number_text number_text_decimal)
  then show ?thesis by (simp add: vsn_loop.simps)
qed

text \<open>C25: Printing and reading a number are inverse: for every 32-bit value, \<^verbatim>\<open>rt_snprintf\<close> with \<^verbatim>\<open>%d\<close> into a buffer of at least 12
  bytes always succeeds, and \<^verbatim>\<open>rt_atoi\<close> of the buffer gives the value back, the least one included.\<close>

theorem snprintf_atoi:
  assumes "12 \<le> unat sz" and "unat buf + unat sz < 2 ^ 32"
  shows "\<exists>n M'. rt_snprintf buf sz [37, 100, 0] [Int_arg w] M = Some (n, M') \<and>
     rt_atoi (Some (map (\<lambda>i. M' (buf + of_nat i)) [0..<unat sz])) = Some (sint w)"
proof -
  let ?cs = "signed_decimal w"
  have l: "length ?cs \<le> 11" by (rule signed_decimal_length(1))
  have "unat buf + length ?cs < 2 ^ 32" using assms l by simp
  note S = stored_emits [OF assms(2) this, of M]
  have e: "rt_snprintf buf sz [37, 100, 0] [Int_arg w] M = Some (sint (of_nat (length ?cs) :: u32), stored buf (unat sz) ?cs M)"
    using S by (simp add: snprintf_loop [OF assms(2)] vsn_loop_decimal)
  let ?f = "\<lambda>i. stored buf (unat sz) ?cs M (buf + of_nat i)"
  have u: "unat (of_nat i :: u32) = i" if "i < unat sz" for i
    using that u32_bound [of sz] by (simp add: unat_of_nat take_bit_nat_eq_self)
  have "[0..<unat sz] = [0..<length ?cs] @ length ?cs # [Suc (length ?cs)..<unat sz]"
    using upt_add_eq_append [of 0 "length ?cs" "unat sz - length ?cs"] upt_conv_Cons [of "length ?cs" "unat sz"] l assms(1) by simp
  then have "map ?f [0..<unat sz] = map ?f [0..<length ?cs] @ ?f (length ?cs) # map ?f [Suc (length ?cs)..<unat sz]" by simp
  moreover have "map ?f [0..<length ?cs] = ?cs"
    using l assms(1) u by (intro nth_equalityI) (auto simp: stored_def)
  moreover have "?f (length ?cs) = 0" using l assms(1) u [of "length ?cs"] by (simp add: stored_def)
  ultimately have "rt_atoi (Some (map ?f [0..<unat sz])) = Some (sint w)" by (simp only: atoi_signed_decimal)
  then show ?thesis using e by blast
qed

theorem snprintf_atoi_witness:
  "\<exists>n M'. rt_snprintf 0x1000 16 [37, 100, 0] [Int_arg 0x80000000] (\<lambda>_. 0) = Some (n, M') \<and>
     rt_atoi (Some (map (\<lambda>i. M' (0x1000 + of_nat i)) [0..<unat (16 :: u32)])) = Some (sint (0x80000000 :: u32))"
  by (rule snprintf_atoi) simp_all

text \<open>Four calls that go wrong. \<^verbatim>\<open>%lld\<close> into a buffer of 4 bytes stores a digit behind the buffer; \<^verbatim>\<open>%llu\<close> of a value from
  \<open>2^63\<close> on reads the table of digits at a negative index; \<^verbatim>\<open>%o\<close> prints 8 as 8, in hexadecimal; and \<^verbatim>\<open>%.0d\<close> prints
  nothing for 5.\<close>

theorem printf_faults:
  "map_option (\<lambda>(n, M). (n, M 0x1003, M 0x1004)) (rt_snprintf 0x1000 4 [37, 108, 108, 100, 0] [Longlong_arg 123456] (\<lambda>_. 7)) = Some (6, 0, 53) \<and>
   rt_snprintf 0x1000 40 [37, 108, 108, 117, 0] [Longlong_arg 0x8000000000000000] (\<lambda>_. 7) = None \<and>
   map_option (\<lambda>(n, M). (n, M 0x1000)) (rt_snprintf 0x1000 8 [37, 111, 0] [Int_arg 8] (\<lambda>_. 7)) = Some (1, 56) \<and>
   map_option (\<lambda>(n, M). (n, M 0x1000)) (rt_snprintf 0x1000 8 [37, 46, 48, 100, 0] [Int_arg 5] (\<lambda>_. 7)) = Some (0, 0)"
  by code_simp

end
