(* ===== verification/Ringbuffer.thy ===== *)
theory Ringbuffer
  imports Fifo
begin

unbundle bit_operations_syntax

text \<open>
  The byte ring of \<^verbatim>\<open>kernel/utilities/ringbuffer.c\<close>. The indices are bit fields of 15
  bits next to a mirror bit each: equal indices mean empty when the mirrors agree and
  full when they differ. A copy outside of the buffer is \<open>None\<close>.
\<close>

record rt_ringbuffer =
  buffer_ptr :: "u8 list"
  read_mirror :: bool
  read_index :: "15 word"
  write_mirror :: bool
  write_index :: "15 word"
  buffer_size :: u16

datatype rb_state = RB_Empty | RB_Full | RB_Halffull

definition rt_ringbuffer_status :: "rt_ringbuffer \<Rightarrow> rb_state" where
  "rt_ringbuffer_status rb =
     (if read_index rb = write_index rb then
        if read_mirror rb = write_mirror rb then RB_Empty else RB_Full
      else RB_Halffull)"

definition rt_ringbuffer_init :: "u8 list \<Rightarrow> u16 \<Rightarrow> rt_ringbuffer option" where
  "rt_ringbuffer_init pool sz = do {
     _ \<leftarrow> rt_assert (0 < sint sz);
     Some \<lparr>buffer_ptr = pool, read_mirror = False, read_index = 0, write_mirror = False,
       write_index = 0, buffer_size = sz AND NOT 3\<rparr> }"

definition rt_ringbuffer_data_len :: "rt_ringbuffer \<Rightarrow> nat" where
  "rt_ringbuffer_data_len rb =
     (case rt_ringbuffer_status rb of
        RB_Empty \<Rightarrow> 0
      | RB_Full \<Rightarrow> unat (buffer_size rb)
      | RB_Halffull \<Rightarrow>
          if read_index rb < write_index rb then unat (write_index rb) - unat (read_index rb)
          else unat (buffer_size rb) - (unat (read_index rb) - unat (write_index rb)))"

definition rt_ringbuffer_space_len :: "rt_ringbuffer \<Rightarrow> nat" where
  "rt_ringbuffer_space_len rb = unat (buffer_size rb) - rt_ringbuffer_data_len rb"

text \<open>\<^verbatim>\<open>memcpy\<close> into the buffer at an offset, and out of it.\<close>

definition copy_in :: "nat \<Rightarrow> u8 list \<Rightarrow> u8 list \<Rightarrow> u8 list option" where
  "copy_in off bs buf =
     (if off + length bs \<le> length buf then Some (take off buf @ bs @ drop (off + length bs) buf) else None)"

definition copy_out :: "nat \<Rightarrow> nat \<Rightarrow> u8 list \<Rightarrow> u8 list option" where
  "copy_out off n buf = (if off + n \<le> length buf then Some (take n (drop off buf)) else None)"

text \<open>The argument \<open>bs\<close> is the \<^verbatim>\<open>length\<close> bytes at \<^verbatim>\<open>ptr\<close>.\<close>

definition rt_ringbuffer_put :: "u8 list \<Rightarrow> rt_ringbuffer \<Rightarrow> (nat \<times> rt_ringbuffer) option" where
  "rt_ringbuffer_put bs rb =
     (let size = rt_ringbuffer_space_len rb in
      if size = 0 then Some (0, rb)
      else let bs = (if size < length bs then take size bs else bs);
               n = length bs; w = unat (write_index rb); N = unat (buffer_size rb) in
        if w + n < N then do {
          buf \<leftarrow> copy_in w bs (buffer_ptr rb);
          Some (n, rb\<lparr>buffer_ptr := buf, write_index := of_nat (w + n)\<rparr>) }
        else if N < w then None
        else do {
          buf \<leftarrow> copy_in w (take (N - w) bs) (buffer_ptr rb);
          buf \<leftarrow> copy_in 0 (drop (N - w) bs) buf;
          Some (n, rb\<lparr>buffer_ptr := buf, write_mirror := \<not> write_mirror rb,
            write_index := of_nat (n - (N - w))\<rparr>) })"

definition rt_ringbuffer_put_force :: "u8 list \<Rightarrow> rt_ringbuffer \<Rightarrow> (nat \<times> rt_ringbuffer) option" where
  "rt_ringbuffer_put_force bs rb =
     (let space = rt_ringbuffer_space_len rb; N = unat (buffer_size rb);
          bs = (if N < length bs then drop (length bs - N) bs else bs);
          n = length bs; w = unat (write_index rb) in
      if w + n < N then do {
        buf \<leftarrow> copy_in w bs (buffer_ptr rb);
        let rb = rb\<lparr>buffer_ptr := buf, write_index := of_nat (w + n)\<rparr>;
        Some (n, if space < n then rb\<lparr>read_index := write_index rb\<rparr> else rb) }
      else if N < w then None
      else do {
        buf \<leftarrow> copy_in w (take (N - w) bs) (buffer_ptr rb);
        buf \<leftarrow> copy_in 0 (drop (N - w) bs) buf;
        let rb = rb\<lparr>buffer_ptr := buf, write_mirror := \<not> write_mirror rb,
          write_index := of_nat (n - (N - w))\<rparr>;
        Some (n, if space < n
          then rb\<lparr>read_mirror := \<not> read_mirror rb, read_index := write_index rb\<rparr> else rb) })"

definition rt_ringbuffer_get :: "nat \<Rightarrow> rt_ringbuffer \<Rightarrow> (u8 list \<times> rt_ringbuffer) option" where
  "rt_ringbuffer_get len rb =
     (let size = rt_ringbuffer_data_len rb in
      if size = 0 then Some ([], rb)
      else let n = (if size < len then size else len);
               r = unat (read_index rb); N = unat (buffer_size rb) in
        if r + n < N then do {
          bs \<leftarrow> copy_out r n (buffer_ptr rb);
          Some (bs, rb\<lparr>read_index := of_nat (r + n)\<rparr>) }
        else if N < r then None
        else do {
          b1 \<leftarrow> copy_out r (N - r) (buffer_ptr rb);
          b2 \<leftarrow> copy_out 0 (n - (N - r)) (buffer_ptr rb);
          Some (b1 @ b2, rb\<lparr>read_mirror := \<not> read_mirror rb, read_index := of_nat (n - (N - r))\<rparr>) })"

definition rb_store :: "u8 \<Rightarrow> rt_ringbuffer \<Rightarrow> rt_ringbuffer option" where
  "rb_store ch rb =
     (if unat (write_index rb) < length (buffer_ptr rb)
      then Some (rb\<lparr>buffer_ptr := (buffer_ptr rb)[unat (write_index rb) := ch]\<rparr>) else None)"

definition rt_ringbuffer_putchar :: "u8 \<Rightarrow> rt_ringbuffer \<Rightarrow> (nat \<times> rt_ringbuffer) option" where
  "rt_ringbuffer_putchar ch rb =
     (if rt_ringbuffer_space_len rb = 0 then Some (0, rb)
      else do {
        rb \<leftarrow> rb_store ch rb;
        if unat (write_index rb) + 1 = unat (buffer_size rb)
        then Some (1, rb\<lparr>write_mirror := \<not> write_mirror rb, write_index := 0\<rparr>)
        else Some (1, rb\<lparr>write_index := write_index rb + 1\<rparr>) })"

definition rt_ringbuffer_putchar_force :: "u8 \<Rightarrow> rt_ringbuffer \<Rightarrow> (nat \<times> rt_ringbuffer) option" where
  "rt_ringbuffer_putchar_force ch rb = do {
     let old_state = rt_ringbuffer_status rb;
     rb \<leftarrow> rb_store ch rb;
     if unat (write_index rb) + 1 = unat (buffer_size rb) then do {
       let rb = rb\<lparr>write_mirror := \<not> write_mirror rb, write_index := 0\<rparr>;
       Some (1, if old_state = RB_Full
         then rb\<lparr>read_mirror := \<not> read_mirror rb, read_index := write_index rb\<rparr> else rb) }
     else do {
       let rb = rb\<lparr>write_index := write_index rb + 1\<rparr>;
       Some (1, if old_state = RB_Full then rb\<lparr>read_index := write_index rb\<rparr> else rb) } }"

definition rt_ringbuffer_getchar :: "rt_ringbuffer \<Rightarrow> (u8 option \<times> rt_ringbuffer) option" where
  "rt_ringbuffer_getchar rb =
     (if rt_ringbuffer_data_len rb = 0 then Some (None, rb)
      else if unat (read_index rb) < length (buffer_ptr rb) then
        let ch = buffer_ptr rb ! unat (read_index rb) in
        if unat (read_index rb) + 1 = unat (buffer_size rb)
        then Some (Some ch, rb\<lparr>read_mirror := \<not> read_mirror rb, read_index := 0\<rparr>)
        else Some (Some ch, rb\<lparr>read_index := read_index rb + 1\<rparr>)
      else None)"

definition rt_ringbuffer_reset :: "rt_ringbuffer \<Rightarrow> rt_ringbuffer" where
  "rt_ringbuffer_reset rb =
     rb\<lparr>read_mirror := False, read_index := 0, write_mirror := False, write_index := 0\<rparr>"

text \<open>
  The two allocations of \<^verbatim>\<open>rt_ringbuffer_create\<close> are arguments; the result \<open>None\<close>
  inside is a null pointer.
\<close>

definition rt_ringbuffer_create :: "u16 \<Rightarrow> bool \<Rightarrow> u8 list option \<Rightarrow> rt_ringbuffer option option" where
  "rt_ringbuffer_create sz rb_mem pool = do {
     _ \<leftarrow> rt_assert (0 < sz);
     let sz = sz AND NOT 3;
     if \<not> rb_mem then Some None
     else case pool of
       None \<Rightarrow> Some None
     | Some p \<Rightarrow> map_option Some (rt_ringbuffer_init p sz) }"

subsection \<open>The ring is a bounded queue of bytes\<close>

definition rb_ok :: "rt_ringbuffer \<Rightarrow> bool" where
  "rb_ok rb = (length (buffer_ptr rb) = unat (buffer_size rb) \<and> unat (buffer_size rb) < 2 ^ 15 \<and>
     unat (read_index rb) < unat (buffer_size rb) \<and> unat (write_index rb) < unat (buffer_size rb) \<and>
     (if read_mirror rb = write_mirror rb then read_index rb \<le> write_index rb
      else write_index rb \<le> read_index rb))"

definition rb_list :: "rt_ringbuffer \<Rightarrow> u8 list" where
  "rb_list rb = ring_list (buffer_ptr rb) (unat (read_index rb)) (rt_ringbuffer_data_len rb)"

lemma data_len_eq:
  assumes "rb_ok rb"
  shows "rt_ringbuffer_data_len rb =
     (if read_mirror rb = write_mirror rb then unat (write_index rb) - unat (read_index rb)
      else unat (buffer_size rb) - unat (read_index rb) + unat (write_index rb))"
  using assms
  by (auto simp: rb_ok_def rt_ringbuffer_data_len_def rt_ringbuffer_status_def word_le_nat_alt
      word_less_nat_alt word_unat_eq_iff split: if_splits)

lemma data_len_le:
  assumes "rb_ok rb" shows "rt_ringbuffer_data_len rb \<le> unat (buffer_size rb)"
  using assms by (auto simp: data_len_eq rb_ok_def word_le_nat_alt split: if_splits)

lemma write_index_eq:
  assumes "rb_ok rb"
  shows "unat (write_index rb) = (unat (read_index rb) + rt_ringbuffer_data_len rb) mod unat (buffer_size rb)"
proof (cases "read_mirror rb = write_mirror rb")
  case True
  then show ?thesis using assms by (simp add: data_len_eq) (simp add: rb_ok_def word_le_nat_alt)
next
  case False
  then have "unat (read_index rb) + rt_ringbuffer_data_len rb = unat (write_index rb) + unat (buffer_size rb)"
    using assms by (simp add: data_len_eq) (simp add: rb_ok_def)
  then show ?thesis using assms by (simp add: rb_ok_def)
qed

lemma ring_list_block:
  assumes "length ys = length xs"
    and new: "\<And>k. k < length bs \<Longrightarrow> ys ! ((i + n + k) mod length xs) = bs ! k"
    and old: "\<And>k. k < n \<Longrightarrow> ys ! ((i + k) mod length xs) = xs ! ((i + k) mod length xs)"
  shows "ring_list ys i (n + length bs) = ring_list xs i n @ bs"
proof (rule nth_equalityI)
  fix k assume "k < length (ring_list ys i (n + length bs))"
  then have "k < n + length bs" by simp
  then show "ring_list ys i (n + length bs) ! k = (ring_list xs i n @ bs) ! k"
    using assms(1) new [of "k - n"] old [of k]
    by (cases "k < n") (auto simp: ring_list_def nth_append)
qed simp

lemma copy_in_nth:
  assumes "copy_in off bs buf = Some buf'"
  shows "length buf' = length buf" and
    "j < length buf \<Longrightarrow> buf' ! j = (if off \<le> j \<and> j < off + length bs then bs ! (j - off) else buf ! j)"
  using assms by (auto simp: copy_in_def nth_append min_def split: if_splits)

lemma unat_of_nat15: "x < 2 ^ 15 \<Longrightarrow> unat (of_nat x :: 15 word) = x"
  by (simp add: unsigned_of_nat take_bit_nat_eq_self)

text \<open>What the one or two copies of a put of \<open>bs\<close> at \<open>w\<close> do to the buffer.\<close>

lemma put_copy_plain:
  assumes c: "copy_in w bs buf = Some buf'" and N: "length buf = N" "w + length bs < N"
  shows "length buf' = N" "\<And>k. k < length bs \<Longrightarrow> buf' ! ((w + k) mod N) = bs ! k"
    "\<And>j. j < N \<Longrightarrow> (\<And>k. k < length bs \<Longrightarrow> j \<noteq> (w + k) mod N) \<Longrightarrow> buf' ! j = buf ! j"
proof -
  show "length buf' = N" using copy_in_nth(1) [OF c] N by simp
  show "buf' ! ((w + k) mod N) = bs ! k" if "k < length bs" for k
    using copy_in_nth(2) [OF c, of "w + k"] N that by simp
  show "buf' ! j = buf ! j" if j: "j < N" "\<And>k. k < length bs \<Longrightarrow> j \<noteq> (w + k) mod N" for j
  proof -
    have "\<not> (w \<le> j \<and> j < w + length bs)"
    proof
      assume "w \<le> j \<and> j < w + length bs"
      then have "j - w < length bs" "w + (j - w) = j" by linarith+
      then show False using j(2) [of "j - w"] j(1) by simp
    qed
    then show ?thesis using copy_in_nth(2) [OF c, of j] N j(1) by auto
  qed
qed

lemma put_copy_wrap:
  assumes c: "copy_in w (take (N - w) bs) buf = Some b1" "copy_in 0 (drop (N - w) bs) b1 = Some buf'"
    and N: "length buf = N" "N \<le> w + length bs" "w < N" "length bs \<le> N"
  shows "length buf' = N" "\<And>k. k < length bs \<Longrightarrow> buf' ! ((w + k) mod N) = bs ! k"
    "\<And>j. j < N \<Longrightarrow> (\<And>k. k < length bs \<Longrightarrow> j \<noteq> (w + k) mod N) \<Longrightarrow> buf' ! j = buf ! j"
proof -
  have l: "length b1 = N" using copy_in_nth(1) [OF c(1)] N by simp
  show "length buf' = N" using copy_in_nth(1) [OF c(2)] l by simp
  have e: "buf' ! j = (if j < length bs - (N - w) then bs ! (N - w + j)
      else if w \<le> j then bs ! (j - w) else buf ! j)" if "j < N" for j
    using copy_in_nth(2) [OF c(1), of j] copy_in_nth(2) [OF c(2), of j] N l that
    by (auto simp: min_def)
  show "buf' ! ((w + k) mod N) = bs ! k" if k: "k < length bs" for k
  proof (cases "w + k < N")
    case True
    then show ?thesis using e [of "w + k"] k N by auto
  next
    case False
    then have "w + k = (w + k - N) + N" "w + k - N < N" using k N by linarith+
    then have "(w + k) mod N = w + k - N" by (metis mod_add_self2 mod_less)
    then show ?thesis using e [of "w + k - N"] False k N by auto
  qed
  show "buf' ! j = buf ! j" if j: "j < N" and n: "\<And>k. k < length bs \<Longrightarrow> j \<noteq> (w + k) mod N" for j
  proof -
    have "\<not> w \<le> j"
    proof
      assume "w \<le> j"
      then have "j - w < length bs" "w + (j - w) = j" using j N by linarith+
      then show False using n [of "j - w"] j by simp
    qed
    moreover have "\<not> j < length bs - (N - w)"
    proof
      assume a: "j < length bs - (N - w)"
      then have "w + (N - w + j) = j + N" "N - w + j < length bs" using N by linarith+
      then show False using n [of "N - w + j"] j by simp
    qed
    ultimately show ?thesis using e [OF j] by simp
  qed
qed

lemma rb_append:
  assumes ok: "rb_ok rb" and n: "length bs \<le> rt_ringbuffer_space_len rb"
    and l: "length buf' = unat (buffer_size rb)"
    and new: "\<And>k. k < length bs \<Longrightarrow> buf' ! ((unat (write_index rb) + k) mod unat (buffer_size rb)) = bs ! k"
    and old: "\<And>j. j < unat (buffer_size rb) \<Longrightarrow>
      (\<And>k. k < length bs \<Longrightarrow> j \<noteq> (unat (write_index rb) + k) mod unat (buffer_size rb)) \<Longrightarrow>
      buf' ! j = buffer_ptr rb ! j"
  shows "ring_list buf' (unat (read_index rb)) (rt_ringbuffer_data_len rb + length bs) = rb_list rb @ bs"
proof -
  let ?N = "unat (buffer_size rb)" and ?R = "unat (read_index rb)" and ?d = "rt_ringbuffer_data_len rb"
  have N: "length (buffer_ptr rb) = ?N" "?d + length bs \<le> ?N" "0 < ?N"
    using ok n data_len_le [OF ok] by (auto simp: rb_ok_def rt_ringbuffer_space_len_def)
  have w: "(unat (write_index rb) + k) mod ?N = (?R + ?d + k) mod ?N" for k
    using write_index_eq [OF ok] by (simp add: mod_add_left_eq)
  have "buf' ! ((?R + k) mod ?N) = buffer_ptr rb ! ((?R + k) mod ?N)" if "k < ?d" for k
  proof (rule old)
    show "(?R + k) mod ?N < ?N" using N(3) by simp
    show "(?R + k) mod ?N \<noteq> (unat (write_index rb) + j) mod ?N" if "j < length bs" for j
      using w mod_add_neq [of k "?d + j" ?N ?R] \<open>k < ?d\<close> that N(2) by (simp add: add.assoc)
  qed
  then show ?thesis
    unfolding rb_list_def using new l N(1) w by (intro ring_list_block) auto
qed

lemma rb_put_ok:
  assumes ok: "rb_ok rb" and n: "length bs \<le> rt_ringbuffer_space_len rb"
    and l: "length buf' = unat (buffer_size rb)"
  defines "w \<equiv> unat (write_index rb)" and "N \<equiv> unat (buffer_size rb)"
  shows "w + length bs < N \<Longrightarrow> rb_ok (rb\<lparr>buffer_ptr := buf', write_index := of_nat (w + length bs)\<rparr>) \<and>
      rt_ringbuffer_data_len (rb\<lparr>buffer_ptr := buf', write_index := of_nat (w + length bs)\<rparr>) =
      rt_ringbuffer_data_len rb + length bs"
    and "N \<le> w + length bs \<Longrightarrow> rb_ok (rb\<lparr>buffer_ptr := buf', write_mirror := \<not> write_mirror rb,
        write_index := of_nat (length bs - (N - w))\<rparr>) \<and>
      rt_ringbuffer_data_len (rb\<lparr>buffer_ptr := buf', write_mirror := \<not> write_mirror rb,
        write_index := of_nat (length bs - (N - w))\<rparr>) = rt_ringbuffer_data_len rb + length bs"
proof -
  let ?R = "unat (read_index rb)"
  have B: "N < 2 ^ 15" "w < N" "?R < N" using ok by (auto simp: rb_ok_def w_def N_def)
  have sp: "length bs + rt_ringbuffer_data_len rb \<le> N"
    using n data_len_le [OF ok] by (simp add: rt_ringbuffer_space_len_def N_def)
  have d: "rt_ringbuffer_data_len rb = (if read_mirror rb = write_mirror rb then w - ?R else N - ?R + w)"
    using data_len_eq [OF ok] by (simp add: w_def N_def)
  have ord: "if read_mirror rb = write_mirror rb then ?R \<le> w else w \<le> ?R"
    using ok by (auto simp: rb_ok_def word_le_nat_alt w_def split: if_splits)
  {
    assume a: "w + length bs < N"
    let ?b = "rb\<lparr>buffer_ptr := buf', write_index := of_nat (w + length bs)\<rparr>"
    have u: "unat (write_index ?b) = w + length bs"
      using unat_of_nat15 [of "w + length bs"] a B by (simp del: of_nat_add)
    have o: "rb_ok ?b"
      using B a l d sp ord u by (auto simp: rb_ok_def word_le_nat_alt N_def split: if_splits)
    then show "rb_ok ?b \<and> rt_ringbuffer_data_len ?b = rt_ringbuffer_data_len rb + length bs"
      using data_len_eq [OF o] u d ord by (auto simp: N_def split: if_splits)
  next
    assume a: "N \<le> w + length bs"
    define x where "x = length bs - (N - w)"
    let ?b = "rb\<lparr>buffer_ptr := buf', write_mirror := \<not> write_mirror rb, write_index := of_nat x\<rparr>"
    have x: "x + N = w + length bs" "x < 2 ^ 15" using a B sp by (auto simp: x_def)
    have m: "read_mirror rb = write_mirror rb" using a d sp B ord by (auto split: if_splits)
    have u: "unat (write_index ?b) = x" using unat_of_nat15 [OF x(2)] by simp
    have o: "rb_ok ?b"
      using B x l d sp ord u m by (auto simp: rb_ok_def word_le_nat_alt N_def split: if_splits)
    then show "rb_ok ?b \<and> rt_ringbuffer_data_len ?b = rt_ringbuffer_data_len rb + length bs"
      using data_len_eq [OF o] u d ord x m B by (auto simp: N_def split: if_splits)
  }
qed

lemma copy_in_some: "off + length bs \<le> length buf \<Longrightarrow> \<exists>b. copy_in off bs buf = Some b"
  by (simp add: copy_in_def)

text \<open>A block of bytes that fits is appended to the contents.\<close>

lemma rb_put_fits:
  assumes ok: "rb_ok rb" and n: "length bs \<le> rt_ringbuffer_space_len rb" and s: "rt_ringbuffer_space_len rb \<noteq> 0"
  shows "\<exists>rb'. rt_ringbuffer_put bs rb = Some (length bs, rb') \<and> rb_ok rb' \<and>
     buffer_size rb' = buffer_size rb \<and> rb_list rb' = rb_list rb @ bs"
proof -
  let ?w = "unat (write_index rb)" and ?N = "unat (buffer_size rb)"
  have L: "length (buffer_ptr rb) = ?N" "?w < ?N" "length bs \<le> ?N"
    using ok n data_len_le [OF ok] by (auto simp: rb_ok_def rt_ringbuffer_space_len_def)
  show ?thesis
  proof (cases "?w + length bs < ?N")
    case True
    obtain b where b: "copy_in ?w bs (buffer_ptr rb) = Some b"
      using copy_in_some [of ?w bs "buffer_ptr rb"] True L by auto
    note C = put_copy_plain [OF b L(1) True]
    show ?thesis
      using rb_put_ok(1) [OF ok n C(1) True] rb_append [OF ok n C] b s n True
      by (simp add: rt_ringbuffer_put_def Let_def rb_list_def)
  next
    case False
    then have w: "?N \<le> ?w + length bs" by simp
    have "?w + length (take (?N - ?w) bs) \<le> length (buffer_ptr rb)" using L by (auto simp: min_def)
    then obtain b1 where b1: "copy_in ?w (take (?N - ?w) bs) (buffer_ptr rb) = Some b1"
      using copy_in_some by blast
    have "0 + length (drop (?N - ?w) bs) \<le> length b1" using copy_in_nth(1) [OF b1] L by auto
    then obtain b where b: "copy_in 0 (drop (?N - ?w) bs) b1 = Some b"
      using copy_in_some by blast
    note C = put_copy_wrap [OF b1 b L(1) w L(2,3)]
    define x where "x = length bs - (?N - ?w)"
    let ?b = "rb\<lparr>buffer_ptr := b, write_mirror := \<not> write_mirror rb, write_index := of_nat x\<rparr>"
    have e: "rt_ringbuffer_put bs rb = Some (length bs, ?b)"
      unfolding x_def rt_ringbuffer_put_def Let_def using b1 b s n False L(2) by (simp del: of_nat_diff)
    have P: "rb_ok ?b" "rt_ringbuffer_data_len ?b = rt_ringbuffer_data_len rb + length bs"
      using rb_put_ok(2) [OF ok n C(1) w, folded x_def] by blast+
    have "rb_list ?b = ring_list b (unat (read_index rb)) (rt_ringbuffer_data_len ?b)"
      by (simp add: rb_list_def)
    also have "\<dots> = rb_list rb @ bs" unfolding P(2) by (rule rb_append [OF ok n C])
    finally show ?thesis using e P(1) by auto
  qed
qed

lemma rb_list_length [simp]: "length (rb_list rb) = rt_ringbuffer_data_len rb"
  by (simp add: rb_list_def)

lemma rb_put_appends:
  assumes ok: "rb_ok rb"
  shows "\<exists>rb'. rt_ringbuffer_put bs rb = Some (min (length bs) (rt_ringbuffer_space_len rb), rb') \<and>
     rb_ok rb' \<and> buffer_size rb' = buffer_size rb \<and>
     rb_list rb' = rb_list rb @ take (rt_ringbuffer_space_len rb) bs"
proof (cases "rt_ringbuffer_space_len rb = 0")
  case True
  then show ?thesis using ok by (simp add: rt_ringbuffer_put_def)
next
  case False
  let ?bs = "take (rt_ringbuffer_space_len rb) bs"
  have "rt_ringbuffer_put bs rb = rt_ringbuffer_put ?bs rb"
    by (simp add: rt_ringbuffer_put_def Let_def)
  then show ?thesis using rb_put_fits [OF ok _ False, of ?bs] by (simp add: min.commute)
qed

lemma copy_out_nth:
  assumes "off + n \<le> length buf"
  shows "\<exists>bs. copy_out off n buf = Some bs \<and> length bs = n \<and> (\<forall>k<n. bs ! k = buf ! (off + k))"
  using assms by (simp add: copy_out_def)

lemma ring_list_take: "k \<le> n \<Longrightarrow> take k (ring_list xs i n) = ring_list xs i k"
  by (simp add: ring_list_def take_map min_def)

lemma ring_list_drop: "k \<le> n \<Longrightarrow> drop k (ring_list xs i n) = ring_list xs ((i + k) mod length xs) (n - k)"
proof (rule nth_equalityI)
  fix j assume "k \<le> n" "j < length (drop k (ring_list xs i n))"
  then have "k + j < n" "j < n - k" by simp_all
  then show "drop k (ring_list xs i n) ! j = ring_list xs ((i + k) mod length xs) (n - k) ! j"
    by (simp add: ring_list_def mod_add_left_eq add.assoc)
qed simp

lemma rb_get_ok:
  assumes ok: "rb_ok rb" and n: "n \<le> rt_ringbuffer_data_len rb"
  defines "r \<equiv> unat (read_index rb)" and "N \<equiv> unat (buffer_size rb)"
  shows "r + n < N \<Longrightarrow> rb_ok (rb\<lparr>read_index := of_nat (r + n)\<rparr>) \<and>
      unat (of_nat (r + n) :: 15 word) = (r + n) mod N \<and>
      rt_ringbuffer_data_len (rb\<lparr>read_index := of_nat (r + n)\<rparr>) = rt_ringbuffer_data_len rb - n"
    and "N \<le> r + n \<Longrightarrow> rb_ok (rb\<lparr>read_mirror := \<not> read_mirror rb, read_index := of_nat (n - (N - r))\<rparr>) \<and>
      unat (of_nat (n - (N - r)) :: 15 word) = (r + n) mod N \<and>
      rt_ringbuffer_data_len (rb\<lparr>read_mirror := \<not> read_mirror rb, read_index := of_nat (n - (N - r))\<rparr>) =
        rt_ringbuffer_data_len rb - n"
proof -
  let ?W = "unat (write_index rb)"
  have B: "N < 2 ^ 15" "r < N" "?W < N" using ok by (auto simp: rb_ok_def r_def N_def)
  have d: "rt_ringbuffer_data_len rb = (if read_mirror rb = write_mirror rb then ?W - r else N - r + ?W)"
    using data_len_eq [OF ok] by (simp add: r_def N_def)
  have ord: "if read_mirror rb = write_mirror rb then r \<le> ?W else ?W \<le> r"
    using ok by (auto simp: rb_ok_def word_le_nat_alt r_def split: if_splits)
  {
    assume a: "r + n < N"
    let ?b = "rb\<lparr>read_index := of_nat (r + n)\<rparr>"
    have u: "unat (read_index ?b) = r + n"
      using unat_of_nat15 [of "r + n"] a B by (simp del: of_nat_add)
    have o: "rb_ok ?b"
      using ok B a d n ord u by (auto simp: rb_ok_def word_le_nat_alt N_def split: if_splits)
    then show "rb_ok ?b \<and> unat (of_nat (r + n) :: 15 word) = (r + n) mod N \<and>
        rt_ringbuffer_data_len ?b = rt_ringbuffer_data_len rb - n"
      using data_len_eq [OF o] u d ord a by (auto simp: N_def simp del: of_nat_add split: if_splits)
  next
    assume a: "N \<le> r + n"
    define x where "x = n - (N - r)"
    let ?b = "rb\<lparr>read_mirror := \<not> read_mirror rb, read_index := of_nat x\<rparr>"
    have m: "read_mirror rb \<noteq> write_mirror rb" using a d n B ord by (auto split: if_splits)
    have x: "x + N = r + n" "x \<le> ?W" "x < N" using a B n d m by (auto simp: x_def)
    have u: "unat (read_index ?b) = x" using unat_of_nat15 [of x] x B by simp
    have md: "(r + n) mod N = x" using x(1,3) by (metis mod_add_self2 mod_less)
    have o: "rb_ok ?b"
      using ok B u m x by (auto simp: rb_ok_def word_le_nat_alt N_def split: if_splits)
    then show "rb_ok ?b \<and> unat (of_nat x :: 15 word) = (r + n) mod N \<and>
        rt_ringbuffer_data_len ?b = rt_ringbuffer_data_len rb - n"
      using data_len_eq [OF o] u d x m B md by (auto simp: N_def)
  }
qed

lemma rb_get_takes:
  assumes ok: "rb_ok rb"
  shows "\<exists>rb'. rt_ringbuffer_get len rb = Some (take len (rb_list rb), rb') \<and> rb_ok rb' \<and>
     buffer_size rb' = buffer_size rb \<and> rb_list rb' = drop len (rb_list rb)"
proof (cases "rt_ringbuffer_data_len rb = 0")
  case True
  then have "rb_list rb = []" by (metis length_0_conv rb_list_length)
  then show ?thesis using ok True by (simp add: rt_ringbuffer_get_def)
next
  case False
  let ?d = "rt_ringbuffer_data_len rb" and ?r = "unat (read_index rb)" and ?N = "unat (buffer_size rb)"
  define n where "n = min len ?d"
  have n: "n \<le> ?d" "(if ?d < len then ?d else len) = n" by (auto simp: n_def)
  have L: "length (buffer_ptr rb) = ?N" "?r < ?N" "n \<le> ?N"
    using ok n(1) data_len_le [OF ok] by (auto simp: rb_ok_def)
  have T: "take len (rb_list rb) = ring_list (buffer_ptr rb) ?r n"
    "drop len (rb_list rb) = ring_list (buffer_ptr rb) ((?r + n) mod ?N) (?d - n)"
    using ring_list_take [OF n(1), of "buffer_ptr rb" ?r] ring_list_drop [OF n(1), of "buffer_ptr rb" ?r] L(1)
    by (auto simp: rb_list_def n_def min_def)
  show ?thesis
  proof (cases "?r + n < ?N")
    case True
    obtain bs where bs: "copy_out ?r n (buffer_ptr rb) = Some bs" "length bs = n"
      "\<forall>k<n. bs ! k = buffer_ptr rb ! (?r + k)"
      using copy_out_nth [of ?r n "buffer_ptr rb"] True L by auto
    have "bs = ring_list (buffer_ptr rb) ?r n"
      by (rule nth_equalityI) (use bs True L in \<open>auto simp: ring_list_def\<close>)
    then show ?thesis
      using rb_get_ok(1) [OF ok n(1) True] bs(1) True False n(2) T
      by (simp add: rt_ringbuffer_get_def Let_def rb_list_def)
  next
    case wrap: False
    then have w: "?N \<le> ?r + n" by simp
    define x where "x = n - (?N - ?r)"
    have x: "x \<le> ?N" "n = ?N - ?r + x" using w L by (auto simp: x_def)
    obtain b1 b2 where b: "copy_out ?r (?N - ?r) (buffer_ptr rb) = Some b1" "length b1 = ?N - ?r"
      "\<forall>k<?N - ?r. b1 ! k = buffer_ptr rb ! (?r + k)"
      "copy_out 0 x (buffer_ptr rb) = Some b2" "length b2 = x" "\<forall>k<x. b2 ! k = buffer_ptr rb ! k"
      using copy_out_nth [of ?r "?N - ?r" "buffer_ptr rb"] copy_out_nth [of 0 x "buffer_ptr rb"] L x
      by auto
    have "b1 @ b2 = ring_list (buffer_ptr rb) ?r n"
    proof (rule nth_equalityI)
      show "length (b1 @ b2) = length (ring_list (buffer_ptr rb) ?r n)" using b x by simp
      fix k assume k: "k < length (b1 @ b2)"
      have "(?r + k) mod ?N = k - (?N - ?r)" if "?N - ?r \<le> k"
      proof -
        have "?r + k = (k - (?N - ?r)) + ?N" "k - (?N - ?r) < ?N" using that k b x L by auto
        then show ?thesis by (metis mod_add_self2 mod_less)
      qed
      then show "(b1 @ b2) ! k = ring_list (buffer_ptr rb) ?r n ! k"
        using b k x L by (auto simp: nth_append ring_list_def)
    qed
    then show ?thesis
      using rb_get_ok(2) [OF ok n(1) w, folded x_def] b(1,4) wrap False n(2) T L(2)
      by (simp add: rt_ringbuffer_get_def Let_def rb_list_def x_def [symmetric] del: diff_diff_right)
  qed
qed

subsection \<open>Single bytes\<close>

lemma copy_in_single: "w < length buf \<Longrightarrow> copy_in w [ch] buf = Some (buf[w := ch])"
  by (simp add: copy_in_def upd_conv_take_nth_drop)

text \<open>The byte routines are the block routines for one byte.\<close>

lemma putchar_put:
  assumes ok: "rb_ok rb"
  shows "rt_ringbuffer_putchar ch rb = rt_ringbuffer_put [ch] rb"
proof (cases "rt_ringbuffer_space_len rb = 0")
  case True
  then show ?thesis by (simp add: rt_ringbuffer_putchar_def rt_ringbuffer_put_def)
next
  case False
  let ?w = "unat (write_index rb)" and ?N = "unat (buffer_size rb)"
  have L: "length (buffer_ptr rb) = ?N" "?w < ?N" using ok by (auto simp: rb_ok_def)
  have i: "of_nat (?w + 1) = write_index rb + 1" by simp
  show ?thesis
  proof (cases "?w + 1 < ?N")
    case True
    then show ?thesis
      using False L copy_in_single [of ?w "buffer_ptr rb" ch] i
      by (simp add: rt_ringbuffer_putchar_def rt_ringbuffer_put_def rb_store_def Let_def)
  next
    case wrap: False
    then have "?N - ?w = 1" "?w + 1 = ?N" using L by auto
    then show ?thesis
      using False L wrap copy_in_single [of ?w "buffer_ptr rb" ch]
      by (simp add: rt_ringbuffer_putchar_def rt_ringbuffer_put_def rb_store_def Let_def copy_in_def)
  qed
qed

lemma getchar_get:
  assumes ok: "rb_ok rb"
  shows "rt_ringbuffer_getchar rb =
     map_option (\<lambda>(bs, rb'). (case bs of [] \<Rightarrow> None | c # _ \<Rightarrow> Some c, rb')) (rt_ringbuffer_get 1 rb)"
proof (cases "rt_ringbuffer_data_len rb = 0")
  case True
  then show ?thesis by (simp add: rt_ringbuffer_getchar_def rt_ringbuffer_get_def)
next
  case False
  let ?r = "unat (read_index rb)" and ?N = "unat (buffer_size rb)"
  have L: "length (buffer_ptr rb) = ?N" "?r < ?N" using ok by (auto simp: rb_ok_def)
  have o: "copy_out ?r 1 (buffer_ptr rb) = Some [buffer_ptr rb ! ?r]"
    using L by (simp add: copy_out_def take_Suc_conv_app_nth hd_drop_conv_nth take_Suc)
  have n: "(if rt_ringbuffer_data_len rb < 1 then rt_ringbuffer_data_len rb else 1) = 1" using False by simp
  show ?thesis
  proof (cases "?r + 1 < ?N")
    case True
    then show ?thesis
      using False L o n by (simp add: rt_ringbuffer_getchar_def rt_ringbuffer_get_def Let_def)
  next
    case wrap: False
    then have "?N - ?r = 1" "?r + 1 = ?N" using L by auto
    then show ?thesis
      using False L o n wrap
      by (simp add: rt_ringbuffer_getchar_def rt_ringbuffer_get_def Let_def copy_out_def)
  qed
qed

definition rb_put1 :: "u8 \<Rightarrow> rt_ringbuffer \<Rightarrow> rt_ringbuffer option" where
  "rb_put1 ch rb = map_option snd (rt_ringbuffer_putchar ch rb)"

definition rb_get1 :: "rt_ringbuffer \<Rightarrow> (u8 \<times> rt_ringbuffer) option" where
  "rb_get1 rb = (case rt_ringbuffer_getchar rb of Some (Some ch, rb') \<Rightarrow> Some (ch, rb') | _ \<Rightarrow> None)"

interpretation rb: bounded_fifo rb_ok "\<lambda>rb. unat (buffer_size rb)" rb_list "\<lambda>_ _. True" rb_put1 rb_get1
proof unfold_locales
  fix rb v assume a: "rb_ok rb" "length (rb_list rb) < unat (buffer_size rb)"
  then have "rt_ringbuffer_space_len rb \<noteq> 0" by (simp add: rt_ringbuffer_space_len_def)
  then obtain rb' where "rt_ringbuffer_put [v] rb = Some (1, rb')" "rb_ok rb'"
    "buffer_size rb' = buffer_size rb" "rb_list rb' = rb_list rb @ [v]"
    using rb_put_fits [OF a(1), of "[v]"] by auto
  then show "\<exists>rb'. rb_put1 v rb = Some rb' \<and> rb_ok rb' \<and> unat (buffer_size rb') = unat (buffer_size rb) \<and>
      (\<lambda>_. True) = (\<lambda>_. True) \<and> rb_list rb' = rb_list rb @ [v]"
    using putchar_put [OF a(1), of v] by (simp add: rb_put1_def)
next
  fix rb v vs assume a: "rb_ok rb" "rb_list rb = v # vs"
  obtain rb' where "rt_ringbuffer_get 1 rb = Some ([v], rb')" "rb_ok rb'"
    "buffer_size rb' = buffer_size rb" "rb_list rb' = vs"
    using rb_get_takes [OF a(1), of 1] a(2) by auto
  then show "\<exists>rb'. rb_get1 rb = Some (v, rb') \<and> rb_ok rb' \<and> unat (buffer_size rb') = unat (buffer_size rb) \<and>
      (\<lambda>_. True) = (\<lambda>_. True) \<and> rb_list rb' = vs"
    using getchar_get [OF a(1)] by (simp add: rb_get1_def)
qed

end
