(* ===== verification/Ringbuffer_Correct.thy ===== *)
theory Ringbuffer_Correct
  imports Ringbuffer
begin

text \<open>
  What the ring buffer promises: the block and byte routines implement a bounded queue of
  bytes, the forced routines keep the newest bytes, and where they do not.
\<close>

subsection \<open>Forced writes\<close>

text \<open>A forced put that fits is a put.\<close>

lemma put_force_fits:
  assumes ok: "rb_ok rb" and n: "length bs \<le> rt_ringbuffer_space_len rb"
  shows "rt_ringbuffer_put_force bs rb = rt_ringbuffer_put bs rb"
proof -
  have L: "length (buffer_ptr rb) = unat (buffer_size rb)" "unat (write_index rb) < unat (buffer_size rb)"
    and N: "length bs \<le> unat (buffer_size rb)"
    using ok n by (auto simp: rb_ok_def rt_ringbuffer_space_len_def)
  show ?thesis
  proof (cases "bs = []")
    case True
    then show ?thesis
      using L by (simp add: rt_ringbuffer_put_force_def rt_ringbuffer_put_def Let_def copy_in_def)
  next
    case False
    then have "rt_ringbuffer_space_len rb \<noteq> 0" using n by (cases bs) auto
    then show ?thesis
      using n N by (simp add: rt_ringbuffer_put_force_def rt_ringbuffer_put_def Let_def)
  qed
qed

text \<open>After \<open>bs\<close> is written from \<open>w\<close> on, the whole ring read from behind it is the ring read from
  \<open>w\<close>, less its first bytes, followed by \<open>bs\<close>.\<close>

lemma ring_overwrite:
  assumes l: "length buf' = N" "length buf = N" and n: "length bs \<le> N"
    and new: "\<And>k. k < length bs \<Longrightarrow> buf' ! ((w + k) mod N) = bs ! k"
    and old: "\<And>j. j < N \<Longrightarrow> (\<And>k. k < length bs \<Longrightarrow> j \<noteq> (w + k) mod N) \<Longrightarrow> buf' ! j = buf ! j"
  shows "ring_list buf' ((w + length bs) mod N) N = drop (length bs) (ring_list buf w N) @ bs"
proof (rule nth_equalityI)
  fix k assume "k < length (ring_list buf' ((w + length bs) mod N) N)"
  then have k: "k < N" by simp
  let ?n = "length bs"
  have i: "((w + ?n) mod N + k) mod N = (w + ?n + k) mod N" by (simp add: mod_simps)
  show "ring_list buf' ((w + ?n) mod N) N ! k = (drop ?n (ring_list buf w N) @ bs) ! k"
  proof (cases "k < N - ?n")
    case True
    have "?n + k < N" using True by linarith
    then have "(w + ?n + k) mod N \<noteq> (w + j) mod N" if "j < ?n" for j
      using mod_add_neq [of j "?n + k" N w] that by (auto simp: add.assoc)
    moreover have "(w + ?n + k) mod N < N" using k by simp
    ultimately have "buf' ! ((w + ?n + k) mod N) = buf ! ((w + ?n + k) mod N)" by (intro old) auto
    moreover have "[0..<N] ! (?n + k) = ?n + k" using \<open>?n + k < N\<close> by simp
    ultimately show ?thesis using True k i l n by (simp add: ring_list_def nth_append add.assoc)
  next
    case False
    then have "w + ?n + k = w + (k - (N - ?n)) + N" using n by linarith
    then have "(w + ?n + k) mod N = (w + (k - (N - ?n))) mod N" by (metis mod_add_self2)
    moreover have "k - (N - ?n) < ?n" using False k n by linarith
    ultimately have "buf' ! ((w + ?n + k) mod N) = bs ! (k - (N - ?n))" using new by metis
    then show ?thesis using False k i l n by (simp add: ring_list_def nth_append)
  qed
qed (use n in simp)

text \<open>A ring whose reader has been moved to the writer by such a write.\<close>

lemma ring_full:
  fixes rb :: rt_ringbuffer
  defines "w \<equiv> unat (write_index rb)" and "N \<equiv> unat (buffer_size rb)"
  assumes q: "q = rb\<lparr>buffer_ptr := b, write_mirror := x, write_index := i, read_mirror := y, read_index := i\<rparr>"
    and ok: "rb_ok rb" and n: "length bs \<le> N" and xy: "x \<noteq> y" and i: "unat i = (w + length bs) mod N"
    and b: "length b = N" "\<And>k. k < length bs \<Longrightarrow> b ! ((w + k) mod N) = bs ! k"
      "\<And>j. j < N \<Longrightarrow> (\<And>k. k < length bs \<Longrightarrow> j \<noteq> (w + k) mod N) \<Longrightarrow> b ! j = buffer_ptr rb ! j"
  shows "rb_ok q \<and> buffer_size q = buffer_size rb \<and> rb_list q = drop (length bs) (ring_list (buffer_ptr rb) w N) @ bs"
proof -
  have L: "length (buffer_ptr rb) = N" "0 < N" "N < 2 ^ 15" using ok by (auto simp: rb_ok_def N_def)
  have f: "read_mirror q = (\<not> write_mirror q)" "read_index q = write_index q" "buffer_ptr q = b"
    "buffer_size q = buffer_size rb" "read_index q = i" using xy by (auto simp: q)
  have "unat i < N" unfolding i using L by simp
  then have "rb_ok q" unfolding rb_ok_def f using f b(1) L(3) by (simp add: N_def)
  moreover have "rt_ringbuffer_data_len q = N"
    unfolding rt_ringbuffer_data_len_def rt_ringbuffer_status_def using f by (simp add: N_def)
  moreover from this have "rb_list q = ring_list b ((w + length bs) mod N) N"
    by (simp only: rb_list_def f(3,5) i)
  moreover have "ring_list b ((w + length bs) mod N) N = drop (length bs) (ring_list (buffer_ptr rb) w N) @ bs"
    by (rule ring_overwrite [OF b(1) L(1) n]) (fact b(2), rule b(3))
  ultimately show ?thesis using f(4) by (simp only: simp_thms)
qed

lemma list_wrapped:
  assumes ok: "rb_ok rb" and m: "read_mirror rb \<noteq> write_mirror rb"
  shows "rb_list rb = drop (rt_ringbuffer_space_len rb)
     (ring_list (buffer_ptr rb) (unat (write_index rb)) (unat (buffer_size rb)))"
proof -
  let ?N = "unat (buffer_size rb)" and ?w = "unat (write_index rb)" and ?r = "unat (read_index rb)"
  have L: "length (buffer_ptr rb) = ?N" "?w \<le> ?r" "?r < ?N" using ok m by (auto simp: rb_ok_def word_le_nat_alt)
  have d: "rt_ringbuffer_data_len rb = ?N - ?r + ?w" using data_len_eq [OF ok] m by simp
  then have s: "rt_ringbuffer_space_len rb = ?r - ?w" using L by (simp add: rt_ringbuffer_space_len_def)
  have "(?w + (?r - ?w)) mod ?N = ?r" "?N - (?r - ?w) = ?N - ?r + ?w" using L by auto
  then show ?thesis
    unfolding rb_list_def s d using ring_list_drop [of "?r - ?w" ?N "buffer_ptr rb" ?w] L by simp
qed

text \<open>A forced put of at most the size of the ring that overruns the reader, while the reader is
  a turn behind the writer: the ring is full afterwards.\<close>

lemma put_force_overruns:
  assumes ok: "rb_ok rb" and m: "read_mirror rb \<noteq> write_mirror rb"
    and n: "rt_ringbuffer_space_len rb < length bs" "length bs \<le> unat (buffer_size rb)"
  shows "\<exists>rb'. rt_ringbuffer_put_force bs rb = Some (length bs, rb') \<and> rb_ok rb' \<and> buffer_size rb' = buffer_size rb \<and>
     rb_list rb' = drop (length bs) (ring_list (buffer_ptr rb) (unat (write_index rb)) (unat (buffer_size rb))) @ bs"
proof -
  let ?w = "unat (write_index rb)" and ?N = "unat (buffer_size rb)"
  have L: "length (buffer_ptr rb) = ?N" "?w < ?N" "?N < 2 ^ 15" using ok by (auto simp: rb_ok_def)
  have nn: "\<not> ?N < length bs" using n by simp
  show ?thesis
  proof (cases "?w + length bs < ?N")
    case True
    obtain b where b: "copy_in ?w bs (buffer_ptr rb) = Some b"
      using copy_in_some [of ?w bs "buffer_ptr rb"] True L by auto
    let ?i = "of_nat (?w + length bs) :: 15 word"
    have "unat ?i = ?w + length bs" using True L(3) by (intro unat_of_nat15) linarith
    then have "unat ?i = (?w + length bs) mod ?N" using True by (simp only: mod_less)
    from ring_full [OF refl ok n(2) m [symmetric] this put_copy_plain [OF b L(1) True]]
    show ?thesis using b n nn True by (simp add: rt_ringbuffer_put_force_def Let_def)
  next
    case False
    then have w: "?N \<le> ?w + length bs" by simp
    have "?w + length (take (?N - ?w) bs) \<le> length (buffer_ptr rb)" using L by (auto simp: min_def)
    then obtain b1 where b1: "copy_in ?w (take (?N - ?w) bs) (buffer_ptr rb) = Some b1"
      using copy_in_some by blast
    have "0 + length (drop (?N - ?w) bs) \<le> length b1" using copy_in_nth(1) [OF b1] L n by auto
    then obtain b where b: "copy_in 0 (drop (?N - ?w) bs) b1 = Some b"
      using copy_in_some by blast
    define x where "x = length bs - (?N - ?w)"
    let ?q = "rb\<lparr>buffer_ptr := b, write_mirror := \<not> write_mirror rb, write_index := of_nat x,
       read_mirror := \<not> read_mirror rb, read_index := of_nat x\<rparr>"
    have e: "rt_ringbuffer_put_force bs rb = Some (length bs, ?q)"
      unfolding x_def rt_ringbuffer_put_force_def Let_def using b1 b n nn False L(2) by (simp del: of_nat_diff)
    have x: "x = ?w + length bs - ?N" using L w by (simp add: x_def)
    have "x < ?N" unfolding x using L n by linarith
    then have i: "unat (of_nat x :: 15 word) = (?w + length bs) mod ?N"
      using w L(3) by (subst unat_of_nat15) (auto simp: le_mod_geq x)
    have xy: "(\<not> write_mirror rb) \<noteq> (\<not> read_mirror rb)" using m by simp
    note C = put_copy_wrap [OF b1 b L(1) w L(2) n(2)]
    have "rb_ok ?q \<and> buffer_size ?q = buffer_size rb \<and> rb_list ?q =
       drop (length bs) (ring_list (buffer_ptr rb) ?w ?N) @ bs"
      by (rule ring_full [OF refl ok n(2) xy i C(1)]) (fact C(2), rule C(3))
    with e show ?thesis by (intro exI [of _ ?q] conjI) simp_all
  qed
qed

lemma put_force_truncates:
  "unat (buffer_size rb) < length bs \<Longrightarrow>
   rt_ringbuffer_put_force bs rb = rt_ringbuffer_put_force (drop (length bs - unat (buffer_size rb)) bs) rb"
  by (simp add: rt_ringbuffer_put_force_def Let_def)

lemma put_force_newest:
  assumes ok: "rb_ok rb" and n: "length bs \<le> unat (buffer_size rb)"
    and m: "length bs \<le> rt_ringbuffer_space_len rb \<or> read_mirror rb \<noteq> write_mirror rb"
  shows "\<exists>rb'. rt_ringbuffer_put_force bs rb = Some (length bs, rb') \<and> rb_ok rb' \<and> buffer_size rb' = buffer_size rb \<and>
     rb_list rb' = drop (length (rb_list rb) + length bs - unat (buffer_size rb)) (rb_list rb @ bs)"
proof (cases "length bs \<le> rt_ringbuffer_space_len rb")
  case True
  then have "length (rb_list rb) + length bs \<le> unat (buffer_size rb)"
    using data_len_le [OF ok] by (simp add: rt_ringbuffer_space_len_def)
  then show ?thesis using put_force_fits [OF ok True] rb_put_appends [OF ok, of bs] True by (auto simp: min_def)
next
  case False
  let ?s = "rt_ringbuffer_space_len rb" and ?R = "ring_list (buffer_ptr rb) (unat (write_index rb)) (unat (buffer_size rb))"
  have s: "length (rb_list rb) = unat (buffer_size rb) - ?s" "?s \<le> unat (buffer_size rb)"
    using data_len_le [OF ok] by (simp_all add: rt_ringbuffer_space_len_def)
  then have "length (rb_list rb) + length bs - unat (buffer_size rb) = length bs - ?s" using False by simp
  moreover have "drop (length bs - ?s) (drop ?s ?R @ bs) = drop (length bs) ?R @ bs"
    using False n s by simp
  ultimately show ?thesis
    using put_force_overruns [OF ok _ _ n] list_wrapped [OF ok] m False by (auto simp del: rb_list_length)
qed

lemma putchar_force_put:
  assumes ok: "rb_ok rb"
  shows "rt_ringbuffer_putchar_force ch rb = rt_ringbuffer_put_force [ch] rb"
proof -
  let ?w = "unat (write_index rb)" and ?N = "unat (buffer_size rb)"
  have L: "length (buffer_ptr rb) = ?N" "?w < ?N" using ok by (auto simp: rb_ok_def)
  have f: "rt_ringbuffer_space_len rb < 1 \<longleftrightarrow> rt_ringbuffer_status rb = RB_Full"
    using ok data_len_eq [OF ok]
    by (auto simp: rt_ringbuffer_space_len_def rt_ringbuffer_status_def rb_ok_def word_le_nat_alt word_unat_eq_iff
        split: if_splits)
  have i: "of_nat (?w + 1) = write_index rb + 1" by simp
  show ?thesis
  proof (cases "?w + 1 < ?N")
    case True
    then show ?thesis
      using L f copy_in_single [of ?w "buffer_ptr rb" ch] i
      by (simp add: rt_ringbuffer_putchar_force_def rt_ringbuffer_put_force_def rb_store_def Let_def)
  next
    case wrap: False
    then have "?N - ?w = 1" "?w + 1 = ?N" using L by auto
    then show ?thesis
      using L f wrap copy_in_single [of ?w "buffer_ptr rb" ch]
      by (simp add: rt_ringbuffer_putchar_force_def rt_ringbuffer_put_force_def rb_store_def Let_def copy_in_def)
  qed
qed

subsection \<open>The ring as a queue of bytes\<close>

text \<open>A ring of four bytes that holds three, the reader a turn behind the writer.\<close>

definition sample_ring :: rt_ringbuffer where
  "sample_ring = \<lparr>buffer_ptr = [5, 0, 3, 4], read_mirror = False, read_index = 2, write_mirror = True,
     write_index = 1, buffer_size = 4\<rparr>"

lemma sample_ring_ok: "rb_ok sample_ring" "rb_ok (rt_ringbuffer_reset sample_ring)"
  by (simp_all add: sample_ring_def rb_ok_def rt_ringbuffer_reset_def)

lemma sample_ring_list: "rb_list sample_ring = [3, 4, 5]" "rb_list (rt_ringbuffer_reset sample_ring) = []"
  "rt_ringbuffer_space_len sample_ring = 1"
  by (simp_all add: sample_ring_def rb_list_def ring_list_def rt_ringbuffer_data_len_def rt_ringbuffer_status_def
      rt_ringbuffer_reset_def rt_ringbuffer_space_len_def upt_rec)

text \<open>C36: The ring buffer is a bounded queue of bytes. On a well-formed ring
  \<^verbatim>\<open>rt_ringbuffer_put\<close> appends as many of the bytes as there is room for and returns their number;
  \<^verbatim>\<open>rt_ringbuffer_get\<close> returns the oldest bytes, as many as asked for and present, and removes
  them; \<^verbatim>\<open>rt_ringbuffer_putchar\<close> and \<^verbatim>\<open>rt_ringbuffer_getchar\<close> are the same for one byte; and
  \<^verbatim>\<open>rt_ringbuffer_data_len\<close> is the number of bytes in the queue. None of them reads or writes
  outside of the buffer, and the ring stays well-formed.\<close>

theorem ringbuffer_queue:
  assumes "rb_ok rb"
  shows "(\<exists>rb'. rt_ringbuffer_put bs rb = Some (min (length bs) (rt_ringbuffer_space_len rb), rb') \<and> rb_ok rb' \<and>
       buffer_size rb' = buffer_size rb \<and> rb_list rb' = rb_list rb @ take (rt_ringbuffer_space_len rb) bs) \<and>
     (\<exists>rb'. rt_ringbuffer_get n rb = Some (take n (rb_list rb), rb') \<and> rb_ok rb' \<and>
       buffer_size rb' = buffer_size rb \<and> rb_list rb' = drop n (rb_list rb)) \<and>
     rt_ringbuffer_putchar ch rb = rt_ringbuffer_put [ch] rb \<and>
     rt_ringbuffer_getchar rb = map_option (\<lambda>(bs, rb'). (case bs of [] \<Rightarrow> None | c # _ \<Rightarrow> Some c, rb')) (rt_ringbuffer_get 1 rb) \<and>
     rt_ringbuffer_data_len rb = length (rb_list rb)"
  using rb_put_appends rb_get_takes putchar_put getchar_get assms by simp

theorem ringbuffer_queue_witness:
  "(\<exists>rb'. rt_ringbuffer_put [6, 7] sample_ring = Some (1, rb') \<and> rb_list rb' = [3, 4, 5, 6]) \<and>
   (\<exists>rb'. rt_ringbuffer_get 2 sample_ring = Some ([3, 4], rb') \<and> rb_list rb' = [5])"
  using ringbuffer_queue [OF sample_ring_ok(1), of "[6, 7]" 2] by (auto simp: sample_ring_list)

text \<open>The forced writes keep the newest bytes. When the bytes fit, or the reader is a turn behind
  the writer, \<^verbatim>\<open>rt_ringbuffer_put_force\<close> leaves the last bytes of old contents and new bytes
  together, as many as the ring holds; \<^verbatim>\<open>rt_ringbuffer_putchar_force\<close> is the same for one byte
  and has no restriction.\<close>

theorem ringbuffer_force_newest:
  assumes "rb_ok rb" and "length bs \<le> unat (buffer_size rb)"
    and "length bs \<le> rt_ringbuffer_space_len rb \<or> read_mirror rb \<noteq> write_mirror rb"
  shows "(\<exists>rb'. rt_ringbuffer_put_force bs rb = Some (length bs, rb') \<and> rb_ok rb' \<and>
       rb_list rb' = drop (length (rb_list rb) + length bs - unat (buffer_size rb)) (rb_list rb @ bs)) \<and>
     (\<exists>rb'. rt_ringbuffer_putchar_force ch rb = Some (1, rb') \<and> rb_ok rb' \<and>
       rb_list rb' = drop (length (rb_list rb) + 1 - unat (buffer_size rb)) (rb_list rb @ [ch]))"
proof -
  have "0 < unat (buffer_size rb)" using assms(1) by (auto simp: rb_ok_def)
  moreover have "1 \<le> rt_ringbuffer_space_len rb \<or> read_mirror rb \<noteq> write_mirror rb"
    using assms(1) data_len_eq [OF assms(1)] by (auto simp: rt_ringbuffer_space_len_def rb_ok_def)
  ultimately show ?thesis
    using put_force_newest [OF assms] put_force_newest [OF assms(1), of "[ch]"] putchar_force_put [OF assms(1), of ch]
    by auto
qed

theorem ringbuffer_force_newest_witness:
  "\<exists>rb'. rt_ringbuffer_put_force [6, 7, 8] sample_ring = Some (3, rb') \<and> rb_list rb' = [5, 6, 7, 8]"
proof -
  have "read_mirror sample_ring \<noteq> write_mirror sample_ring" "unat (buffer_size sample_ring) = 4"
    by (simp_all add: sample_ring_def)
  then show ?thesis
    using ringbuffer_force_newest [OF sample_ring_ok(1), of "[6, 7, 8]" 0] by (auto simp: sample_ring_list numeral_3_eq_3)
qed

text \<open>A forced write that wraps and overruns a reader of the same turn loses all bytes: on a ring of
  four bytes with one unread byte at index 1, forcing four bytes in reports four bytes written,
  and the ring is empty after it.\<close>

theorem ringbuffer_force_loses:
  "let rb = \<lparr>buffer_ptr = [0, 7, 0, 0], read_mirror = False, read_index = 1, write_mirror = False,
      write_index = 2, buffer_size = 4\<rparr> in
   rb_ok rb \<and> rb_list rb = [7] \<and>
   map_option (\<lambda>(n, rb'). (n, rt_ringbuffer_status rb', rb_list rb')) (rt_ringbuffer_put_force [1, 2, 3, 4] rb) =
     Some (4, RB_Empty, [])"
  by (simp add: rb_ok_def rb_list_def ring_list_def rt_ringbuffer_data_len_def rt_ringbuffer_status_def
      rt_ringbuffer_put_force_def rt_ringbuffer_space_len_def copy_in_def)

text \<open>The bytes put one by one into an empty ring, up to its size, come out in the order in which
  they were put.\<close>

theorem ringbuffer_fifo:
  assumes "rb_ok rb" and "rb_list rb = []" and "length bs \<le> unat (buffer_size rb)"
  shows "\<exists>rb1 rb2. put_all rb_put1 bs rb = Some rb1 \<and> get_n rb_get1 (length bs) rb1 = Some (bs, rb2) \<and>
     rb_ok rb2 \<and> rb_list rb2 = []"
  using rb.fifo_order [OF assms(1,2) _ assms(3)] by simp

theorem ringbuffer_fifo_witness:
  "\<exists>rb1 rb2. put_all rb_put1 [1, 2, 3, 4] (rt_ringbuffer_reset sample_ring) = Some rb1 \<and>
     get_n rb_get1 (length [1, 2, 3, 4 :: u8]) rb1 = Some ([1, 2, 3, 4], rb2) \<and> rb_ok rb2 \<and> rb_list rb2 = []"
  by (rule ringbuffer_fifo [OF sample_ring_ok(2) sample_ring_list(2)]) (simp add: rt_ringbuffer_reset_def sample_ring_def)

end
