(* ===== verification/Clock_Correct.thy ===== *)
theory Clock_Correct
  imports Sem_Correct Clock
begin

unbundle bit_operations_syntax

text \<open>
  Time as threads see it: the conversion of milliseconds, sleeping until a tick, and the
  end of a time slice.
\<close>

subsection \<open>Milliseconds\<close>

text \<open>A time in milliseconds is rounded up to ticks: a wait converted by
  \<^verbatim>\<open>rt_tick_from_millisecond\<close> is never shorter than asked for and less than one tick (10 ms)
  longer, with no overflow for any positive argument; a negative time is
  \<^verbatim>\<open>RT_WAITING_FOREVER\<close>.\<close>

theorem tick_from_millisecond_bounds:
  "if sint ms < 0 then rt_tick_from_millisecond ms = RT_WAITING_FOREVER
   else unat ms \<le> 10 * unat (rt_tick_from_millisecond ms) \<and> 10 * unat (rt_tick_from_millisecond ms) < unat ms + 10"
proof (cases "sint ms < 0")
  case False
  define m where "m = unat ms"
  have m: "sint ms = int m" unfolding m_def using False by (intro sint_nonneg_unat) simp
  have "int m < 2147483648" using sint_lt [of ms] m by simp
  then have b: "m < 2147483648" by linarith
  define r where "r = 100 * (m div 1000) + (100 * (m mod 1000) + 999) div 1000"
  have "of_int (100 * (int m div 1000)) + of_int ((100 * (int m mod 1000) + 999) div 1000) = (of_nat r :: u32)"
  proof -
    have "100 * (int m div 1000) = int (100 * (m div 1000))"
      "(100 * (int m mod 1000) + 999) div 1000 = int ((100 * (m mod 1000) + 999) div 1000)"
      by (simp_all add: zdiv_int zmod_int)
    then show ?thesis unfolding r_def by (simp only: of_int_of_nat_eq of_nat_add)
  qed
  then have e: "rt_tick_from_millisecond ms = of_nat r" using False m by (simp add: rt_tick_from_millisecond_def)
  define q k c where "q = m div 1000" and "k = m mod 1000" and "c = (100 * k + 999) div 1000"
  have "m = 1000 * q + k" "r = 100 * q + c" by (simp_all add: q_def k_def r_def c_def)
  moreover have "1000 * c \<le> 100 * k + 999" "100 * k + 999 < 1000 * c + 1000"
    unfolding c_def using div_mult_mod_eq [of "100 * k + 999" 1000] mod_less_divisor [of 1000 "100 * k + 999"] by linarith+
  ultimately have r: "m \<le> 10 * r" "10 * r < m + 10" by linarith+
  then have "r < 4294967296" using b by linarith
  then have "unat (of_nat r :: u32) = r" by (simp add: unat_of_nat take_bit_nat_eq_self)
  then show ?thesis using r e False by (simp add: m_def)
qed (simp add: rt_tick_from_millisecond_def)

subsection \<open>Yielding\<close>

text \<open>A call of the scheduler that selects the running thread changes nothing.\<close>

lemma schedule_stays:
  assumes r: "rt_schedule s = Some s'" and c: "cur_thread s' = cur_thread s"
  shows "rt_schedule s = Some s"
proof (cases "lock_nest s = 0")
  case True
  then obtain p to where p: "highest_ready_priority s = Some p" "tlist_first (ReadyQ p) s = Some to"
    using r by (auto simp: rt_schedule_def)
  then have "cur_thread s' = Some to"
    using r True by (cases "cur_thread s = Some to"; cases "cur_thread s") (auto simp: rt_schedule_def Let_def)
  then show ?thesis using p c True by (simp add: rt_schedule_def)
qed (use r in \<open>simp add: rt_schedule_locked\<close>)

text \<open>On one processor \<^verbatim>\<open>rt_thread_yield\<close> does not hand the processor to another thread of the
  same priority: the thread at the head of the best ready queue stays there and goes on running,
  and the status mark it gets is the only thing, with the reloaded time slice, that changes.\<close>

theorem yield_keeps_processor:
  assumes K: "kinv s" "live s" and l: "lock_nest s = 0" and c: "cur_thread s = Some t" and top: "top_ready s t"
  shows "rt_thread_yield s = Some (RT_EOK, s\<lparr>threads := (threads s)(t := (threads s t)\<lparr>
     remaining_tick := th_init_tick (threads s t), stat := stat (threads s t) OR RT_THREAD_STAT_YIELD\<rparr>)\<rparr>)"
proof -
  let ?u = "upd_thread t (\<lambda>th. th\<lparr>remaining_tick := th_init_tick th, stat := stat th OR RT_THREAD_STAT_YIELD\<rparr>) s"
  have m: "(x OR 8) AND 7 = x AND 7" for x :: u8
  proof -
    have "(x OR 8) AND 7 = (x AND 7) OR (8 AND 7)" by (rule bit.conj_disj_distrib2)
    then show ?thesis by simp
  qed
  have k: "kinv ?u" by (rule kinv_upd_thread [OF K(1)]) (simp_all add: m)
  have st: "tstat ?u x = tstat s x" "prio ?u x = prio s x" "stack_ok (threads ?u x) = stack_ok (threads s x)" for x
    using m by (auto simp: stack_ok_def stack_check_def)
  have v: "live ?u" using K(2) unfolding live_def st by simp
  obtain s' u where s': "rt_schedule ?u = Some s'" "cur_thread s' = Some u" "top_ready ?u u"
    using schedule_top [OF kinvD(1) [OF k] v] l by auto
  have "top_ready s u" using s'(3) unfolding top_ready_def st upd_thread_fields(2) .
  then have "prio s u = prio s t" using top unfolding top_ready_def by (metis le_antisym)
  then have "u = t" using top \<open>top_ready s u\<close> by (simp add: top_ready_def)
  then have "cur_thread s' = cur_thread ?u" using s'(2) c by simp
  then have "rt_schedule ?u = Some ?u" by (rule schedule_stays [OF s'(1)])
  then show ?thesis using c by (simp add: rt_thread_yield_def upd_thread_def)
qed

theorem yield_keeps_processor_witness:
  "rt_thread_yield sample = Some (RT_EOK, sample\<lparr>threads := (threads sample)(1 := (threads sample 1)\<lparr>
     remaining_tick := th_init_tick (threads sample 1), stat := stat (threads sample 1) OR RT_THREAD_STAT_YIELD\<rparr>)\<rparr>)"
proof (rule yield_keeps_processor)
  have "map_option cur_thread (rt_schedule sample) = Some (Some 1)" by code_simp
  then show "top_ready sample 1" using schedule_top [OF kinvD(1) [OF sample_kinv] sample_live] by auto
qed (use sample_kinv sample_live in simp_all)

subsection \<open>Sleeping\<close>

lemma sleep_blocks:
  assumes C: "can_block t s" and tk: "ticks < HALF_TICK"
  shows "\<exists>s'. sleep_on_timer t ticks s = Some s' \<and> kinv s' \<and> live s' \<and> cur_thread s' \<noteq> Some t \<and>
     tstat s' t = RT_THREAD_SUSPEND \<and> TTimer t \<in> set (timer_list s') \<and>
     tm_timeout_tick (timers s' (TTimer t)) = tick s + ticks"
proof -
  let ?u = "upd_timer (TTimer t) (\<lambda>tm. tm\<lparr>tm_init_tick := ticks\<rparr>) (suspended t s)" and ?x = "TTimer t"
  let ?a = "armed ?x ?u"
  have st: "tstat (suspended t s) t = RT_THREAD_SUSPEND" "tstat ?u t = RT_THREAD_SUSPEND" by (simp_all add: upd_timer_def)
  have K: "kinv (suspended t s)" by (rule kinv_suspended [OF can_blockD(1,6) [OF C]])
  then have k: "kinv ?u" by (rule kinv_upd_timer) simp
  have "live ?a" using C unfolding can_block_def live_def by (auto simp: upd_timer_def)
  then obtain s' where s': "rt_schedule ?a = Some s'" "kinv s'" "live s'" "switched ?a s'"
    using schedule_switched [OF kinv_armed [OF k st(2)]] by blast
  note f = rt_schedule_fields [OF s'(1)]
  have "rt_timer_start ?x ?u = Some (RT_EOK, ?a)"
    by (rule rt_timer_start_thread [OF k st(2)]) (use tk in \<open>simp add: upd_timer_def\<close>)
  then have "sleep_on_timer t ticks s = Some s'"
    using s'(1) kinv_thread(2) [OF K] st(1) rt_thread_suspend_eq [OF can_blockD(1,6) [OF C]]
    by (simp add: sleep_on_timer_def rt_timer_control_def)
  moreover have "cur_thread s' \<noteq> Some t"
    using s'(4) st(2) can_blockD(5) [OF C] f(1) by (auto simp: switched_def top_ready_def upd_timer_def)
  ultimately show ?thesis using s'(2,3) f st by (simp add: upd_timer_def)
qed

text \<open>\<^verbatim>\<open>rt_thread_delay_until\<close> keeps a period without drift. When the next wake-up time has not
  passed, the caller sleeps and its timer is due exactly at the old wake-up time plus the period,
  however late the call came and however the clock wraps, and that time is stored back; when it
  has passed, the call returns at once and the current time is stored back.\<close>

theorem delay_until_exact:
  assumes C: "can_block t s" and inc: "since + inc - tick s < HALF_TICK"
  shows "if tick s - since < inc
     then \<exists>s'. rt_thread_delay_until since inc s = Some (since + inc, Blocked, s') \<and> kinv s' \<and> live s' \<and>
       tstat s' t = RT_THREAD_SUSPEND \<and> TTimer t \<in> set (timer_list s') \<and>
       tm_timeout_tick (timers s' (TTimer t)) = since + inc
     else rt_thread_delay_until since inc s = Some (tick s, Ret RT_EOK, s)"
proof -
  have th: "is_thread t s" using kinv_thread(1) [OF can_blockD(1) [OF C]] can_blockD(6) [OF C] by simp
  then show ?thesis
    using sleep_blocks [OF C inc] can_blockD(3) [OF C] by (auto simp: rt_thread_delay_until_def)
qed

theorem delay_until_exact_witness:
  "if tick sample - 0xFFFFFFF0 < 0x14
     then \<exists>s'. rt_thread_delay_until 0xFFFFFFF0 0x14 sample = Some (0xFFFFFFF0 + 0x14, Blocked, s') \<and> kinv s' \<and> live s' \<and>
       tstat s' 1 = RT_THREAD_SUSPEND \<and> TTimer 1 \<in> set (timer_list s') \<and>
       tm_timeout_tick (timers s' (TTimer 1)) = 0xFFFFFFF0 + 0x14
     else rt_thread_delay_until 0xFFFFFFF0 0x14 sample = Some (tick sample, Ret RT_EOK, sample)"
  by (rule delay_until_exact [OF sample_can_block]) simp

text \<open>After a delay the error number of the thread stays at \<^verbatim>\<open>RT_ETIMEOUT\<close>:
  \<^verbatim>\<open>rt_thread_delay_until\<close> looks for \<^verbatim>\<open>-RT_ETIMEOUT\<close>, which the timeout never stores, while
  \<^verbatim>\<open>rt_thread_sleep\<close> clears it. On the sample kernel: the running thread delays for two ticks,
  two ticks pass, and it runs again.\<close>

theorem delay_until_keeps_error:
  "map_option (\<lambda>s. (cur_thread s, th_error (threads s 1))) (run (sys_step quiet_app)
     [Thread (Delay_Until 0xFFFFFFFE 2), Tick, Tick, Thread Delay_Until_Wake] sample) = Some (Some 1, RT_ETIMEOUT) \<and>
   map_option (\<lambda>s. (cur_thread s, th_error (threads s 1))) (run (sys_step quiet_app)
     [Thread (Sleep 2), Tick, Tick, Thread Sleep_Wake] sample) = Some (Some 1, RT_EOK)"
  by (rule conjI) (code_simp, code_simp)

end
