(* ===== verification/Thread_End.thy ===== *)
theory Thread_End
  imports Life_Correct
begin

unbundle bit_operations_syntax

text \<open>
  The end of a thread: what \<^verbatim>\<open>rt_thread_detach\<close> and \<^verbatim>\<open>rt_thread_delete\<close> leave of it, and the
  clean-up loop of the idle thread.
\<close>

subsection \<open>A closed thread\<close>

definition closed :: "nat \<Rightarrow> kernel \<Rightarrow> kernel" where
  "closed t s = upd_thread t (\<lambda>th. th\<lparr>th_lock := None, stat := RT_THREAD_CLOSE\<rparr>) (suspended t s)"

lemma kinv_close:
  assumes K: "kinv s" and t: "on_list s t = None" "unlisted (TTimer t) s" and f: "stat (f (threads s t)) = RT_THREAD_CLOSE"
  shows "kinv (upd_thread t f s)"
proof -
  have "ready_ok (upd_thread t f s)" using kinvD(7) [OF K] t f by (auto simp: ready_ok_def ready_one_def)
  then have "sched_inv (upd_thread t f s)"
    using kinvD(5,6) [OF K] by (simp add: sched_inv_def queues_ok_def bitmap_ok_def)
  moreover have "types_ok (upd_thread t f s)" using kinvD(2) [OF K] f by (auto simp: types_ok_def get_type_upd_thread)
  moreover have "timers_ok (upd_thread t f s)"
    using kinvD(3) [OF K] t by (auto simp: timers_ok_def get_type_upd_thread unlisted_def)
  moreover have "waits_ok (upd_thread t f s)" using kinvD(4) [OF K] f t by (auto simp: waits_ok_def)
  ultimately show ?thesis by (simp add: kinv_def)
qed

lemma kinv_closed:
  assumes K: "kinv s" and t: "started s t"
  shows "kinv (closed t s)"
proof -
  have "kinv (suspended t s)"
    unfolding kinv_def using kinvD [OF K] kinv_thread [OF K] t
    by (auto simp: started_def intro: sched_inv_suspended types_ok_suspended timers_ok_suspended waits_ok_suspended)
  then show ?thesis unfolding closed_def by (rule kinv_close) (simp_all add: unlisted_def)
qed

lemma closed_fields [simp]:
  "threads (closed t s) = (threads s)(t := (threads s t)\<lparr>th_lock := None, stat := RT_THREAD_CLOSE\<rparr>)"
  "tlists (closed t s) = tlists (tlist_remove t s)" "on_list (closed t s) = (on_list s)(t := None)"
  "timers (closed t s) = timers s" "timer_list (closed t s) = removeAll (TTimer t) (timer_list s)"
  "soft_timer_list (closed t s) = removeAll (TTimer t) (soft_timer_list s)"
  "cur_thread (closed t s) = cur_thread s" "lock_nest (closed t s) = lock_nest s" "irq_nest (closed t s) = irq_nest s"
  by (simp_all add: closed_def)

lemma kinv_object_unlink [simp]: "kinv (object_unlink x s) = kinv s"
  by (rule kinv_cong) (simp_all add: object_unlink_def)

lemma object_unlink_fields [simp]:
  "threads (object_unlink x s) = threads s" "tlists (object_unlink x s) = tlists s" "on_list (object_unlink x s) = on_list s"
  "objects (object_unlink x s) = objects s" "timer_list (object_unlink x s) = timer_list s"
  "soft_timer_list (object_unlink x s) = soft_timer_list s" "irq_nest (object_unlink x s) = irq_nest s"
  "cur_thread (object_unlink x s) = cur_thread s" "lock_nest (object_unlink x s) = lock_nest s"
  "ready_table (object_unlink x s) = ready_table s" "ready_group (object_unlink x s) = ready_group s"
  "timers (object_unlink x s) = timers s"
  "containers (object_unlink x s) = (\<lambda>i. removeAll x (containers s i))"
  by (simp_all add: object_unlink_def)

text \<open>A started thread whose timer and lock are as \<^verbatim>\<open>rt_thread_init\<close> made them, with no cleanup
  function and nobody waiting for the lock.\<close>

definition ordinary :: "nat \<Rightarrow> kernel \<Rightarrow> bool" where
  "ordinary t s = (started s t \<and> \<not> cleanup (threads s t) \<and> rt_object_is_systemobject (TTimer t) s \<and>
     (\<forall>a. th_lock (threads s t) = Some a \<longrightarrow> a \<noteq> t \<and> obj_class a s = RT_Object_Class_Semaphore \<and>
        \<not> rt_object_is_systemobject (Obj a) s \<and> tlists s (SemQ a) = [] \<and> \<not> started s a \<and> unlisted (Obj a) s))"

text \<open>What the two operations have in common: the thread leaves its list, its timer and its lock
  are gone.\<close>

definition dropped :: "nat \<Rightarrow> kernel \<Rightarrow> kernel option" where
  "dropped t s = do {
     (_, s) \<leftarrow> rt_timer_detach (TTimer t) (rt_schedule_remove_thread t s);
     s \<leftarrow> drop_lock t s;
     Some (upd_thread t (\<lambda>th. th\<lparr>stat := RT_THREAD_CLOSE\<rparr>) s) }"

lemma dropped_steps:
  assumes "dropped t s = Some u"
  obtains e d l where "rt_timer_detach (TTimer t) (rt_schedule_remove_thread t s) = Some (e, d)" "drop_lock t d = Some l"
    "u = upd_thread t (\<lambda>th. th\<lparr>stat := RT_THREAD_CLOSE\<rparr>) l"
  using assms by (auto simp: dropped_def split: Option.bind_split_asm)

lemma tlist_remove_empty: "tlists s h = [] \<Longrightarrow> tlists (tlist_remove t s) h = []"
  by (auto simp: tlist_remove_def split: option.splits)

lemma dropped_closed:
  assumes K: "kinv s" and i: "irq_nest s = 0" and t: "ordinary t s"
  shows "\<exists>u. dropped t s = Some u \<and> kinv u \<and> threads u = threads (closed t s) \<and> tlists u = tlists (closed t s) \<and>
     on_list u = on_list (closed t s) \<and> timer_list u = timer_list (closed t s) \<and> soft_timer_list u = soft_timer_list (closed t s) \<and>
     (\<forall>x. x \<noteq> TTimer t \<longrightarrow> (\<forall>a. th_lock (threads s t) = Some a \<longrightarrow> x \<noteq> Obj a) \<longrightarrow> objects u x = objects s x) \<and>
     (\<forall>j. set (containers u j) \<subseteq> set (containers s j)) \<and> (\<forall>j. TTimer t \<notin> set (containers u j)) \<and>
     cur_thread u = cur_thread s \<and> irq_nest u = irq_nest s \<and> lock_nest u = lock_nest s"
proof -
  have st: "started s t" "rt_object_is_systemobject (TTimer t) s" using t by (auto simp: ordinary_def)
  have ty: "rt_object_get_type (TTimer t) s = RT_Object_Class_Timer" using kinv_thread(2) [OF K] st(1) by (auto simp: started_def)
  let ?r = "rt_schedule_remove_thread t s"
  let ?d = "rt_object_detach (TTimer t) (flag_clear (TTimer t) (timer_remove (TTimer t) ?r))"
  have d: "rt_timer_detach (TTimer t) ?r = Some (RT_EOK, ?d)"
    using ty st(2) by (simp add: rt_timer_detach_def get_type_cong [OF remove_thread_fields(4)] rt_object_is_systemobject_def kframe)
  define w where "w = upd_object (TTimer t) (\<lambda>ob. ob\<lparr>obj_type := 0\<rparr>) (closed t s)"
  have kw: "kinv w" unfolding w_def
    by (rule kinv_upd_object [OF kinv_closed [OF K st(1)], of _ t]) (simp_all add: started_def unlisted_def)
  note defs = rt_object_detach_def object_unlink_def flag_clear_def timer_remove_def upd_object_def upd_thread_def
  have rt: "ready_table (closed t s) = ready_table ?r" "ready_group (closed t s) = ready_group ?r"
    by (simp_all add: closed_def suspended_def)
  have ob: "objects (closed t s) = (objects s)(TTimer t := (objects s (TTimer t))\<lparr>obj_flag := obj_flag (objects s (TTimer t)) AND NOT 1\<rparr>)"
    by (simp add: closed_def suspended_def timer_off_def flag_clear_def timer_remove_def kframe)
  define l where "l = upd_thread t (\<lambda>th. th\<lparr>th_lock := None\<rparr>) ?d"
  define u where "u = upd_thread t (\<lambda>th. th\<lparr>stat := RT_THREAD_CLOSE\<rparr>) l"
  have "kinv u = kinv w"
    by (rule kinv_cong) (simp_all add: u_def l_def w_def defs kframe rt [unfolded defs] ob)
  then have ku: "kinv u" using kw by simp
  have fu: "threads u = threads (closed t s)" "tlists u = tlists (closed t s)" "on_list u = on_list (closed t s)"
    "timer_list u = timer_list (closed t s)" "soft_timer_list u = soft_timer_list (closed t s)"
    "\<forall>x. x \<noteq> TTimer t \<longrightarrow> objects u x = objects s x" "\<forall>j. containers u j = removeAll (TTimer t) (containers s j)"
    "cur_thread u = cur_thread s" "irq_nest u = irq_nest s" "lock_nest u = lock_nest s"
    by (simp_all add: u_def l_def defs kframe)
  have lk: "th_lock (threads ?d t) = th_lock (threads s t)" by (simp add: defs kframe)
  show ?thesis
  proof (cases "th_lock (threads s t)")
    case None
    then have "dropped t s = Some u" using d lk by (simp add: dropped_def drop_lock_def u_def l_def)
    then show ?thesis using ku fu by auto
  next
    case (Some a)
    then have a: "obj_class a s = RT_Object_Class_Semaphore" "\<not> rt_object_is_systemobject (Obj a) s"
      "tlists s (SemQ a) = []" "\<not> started s a" "unlisted (Obj a) s" "a \<noteq> t" using t by (auto simp: ordinary_def)
    have lf: "irq_nest l = 0" "objects l (Obj a) = objects s (Obj a)" "tlists l (SemQ a) = []"
      using i tlist_remove_empty [OF a(3)] by (simp_all add: l_def defs kframe)
    have del: "rt_sem_delete a l = Some (RT_EOK, object_unlink (Obj a) (upd_object (Obj a) (\<lambda>ob. ob\<lparr>obj_type := 0\<rparr>) l))"
      using a(1,2) lf by (simp add: rt_sem_delete_def not_in_interrupt_def obj_class_def rt_object_get_type_def
          rt_object_is_systemobject_def rt_ipc_list_resume_all.simps [of _ l] rt_object_delete_def)
    define v where "v = object_unlink (Obj a) (upd_object (Obj a) (\<lambda>ob. ob\<lparr>obj_type := 0\<rparr>) u)"
    have "dropped t s = Some v"
      using d lk Some del by (simp add: dropped_def drop_lock_def l_def [symmetric])
        (simp add: v_def u_def object_unlink_def upd_object_def upd_thread_def)
    moreover have "kinv v" unfolding v_def kinv_object_unlink
      by (rule kinv_upd_object [OF ku, of _ a]) (use a fu in \<open>auto simp: started_def unlisted_def\<close>)
    ultimately show ?thesis using fu Some by (auto simp: v_def)
  qed
qed

lemma ordinary_thread:
  assumes "kinv s" and "ordinary t s"
  shows "is_thread t s" "tstat s t \<noteq> RT_THREAD_CLOSE" "tstat s t \<noteq> RT_THREAD_INIT" "unlisted (Obj t) s" "\<not> cleanup (threads s t)"
proof -
  have st: "started s t" "\<not> cleanup (threads s t)" using assms(2) by (auto simp: ordinary_def)
  then show th: "is_thread t s" using kinv_thread(1) [OF assms(1)] by (auto simp: started_def)
  then show "unlisted (Obj t) s" using kinvD(3) [OF assms(1)] by (auto simp: timers_ok_def unlisted_def is_thread_def)
  show "tstat s t \<noteq> RT_THREAD_CLOSE" "tstat s t \<noteq> RT_THREAD_INIT" "\<not> cleanup (threads s t)"
    using st by (auto simp: started_def)
qed

lemma closed_off_lists:
  assumes "kinv u" and "on_list u t = None"
  shows "t \<notin> set (tlists u h)"
  using queues_okD(2) [OF kinvD(5) [OF assms(1)]] assms(2) by auto

text \<open>The static mark of the thread survives the common part.\<close>

lemma dropped_static:
  assumes "ordinary t s" and "\<forall>x. x \<noteq> TTimer t \<longrightarrow> (\<forall>a. th_lock (threads s t) = Some a \<longrightarrow> x \<noteq> Obj a) \<longrightarrow> objects u x = objects s x"
  shows "rt_object_is_systemobject (Obj t) u = rt_object_is_systemobject (Obj t) s"
proof -
  have "objects u (Obj t) = objects s (Obj t)" using assms by (auto simp: ordinary_def)
  then show ?thesis by (simp add: rt_object_is_systemobject_def)
qed

text \<open>C34: \<^verbatim>\<open>rt_thread_detach\<close> removes a static thread from the kernel. For a started thread with no
  cleanup function and a lock nobody waits for it always succeeds; afterwards the thread is closed
  and on no list of threads, its timer is on no timer list, neither of them is in the registry, no
  other thread has changed, and the kernel invariant holds.\<close>

theorem thread_detach_ends:
  assumes K: "kinv s" and i: "irq_nest s = 0" and t: "ordinary t s" and sys: "rt_object_is_systemobject (Obj t) s"
  shows "\<exists>s'. rt_thread_detach cln t s = Some (RT_EOK, s') \<and> kinv s' \<and> tstat s' t = RT_THREAD_CLOSE \<and>
     (\<forall>h. t \<notin> set (tlists s' h)) \<and> TTimer t \<notin> set (timer_list s') \<union> set (soft_timer_list s') \<and>
     (\<forall>j. Obj t \<notin> set (containers s' j) \<and> TTimer t \<notin> set (containers s' j)) \<and>
     (\<forall>v. v \<noteq> t \<longrightarrow> threads s' v = threads s v)"
proof -
  obtain u where u: "dropped t s = Some u" "kinv u" "threads u = threads (closed t s)" "on_list u = on_list (closed t s)"
    "timer_list u = timer_list (closed t s)" "soft_timer_list u = soft_timer_list (closed t s)"
    "rt_object_is_systemobject (Obj t) u" "\<forall>j. TTimer t \<notin> set (containers u j)"
    using dropped_closed [OF K i t] dropped_static [OF t] sys by blast
  define s' where "s' = rt_object_detach (Obj t) u"
  note o = ordinary_thread [OF K t]
  have cu: "\<not> cleanup (threads u t)" "thread_cleanup_execute cln t (rt_schedule_remove_thread t s) = Some (rt_schedule_remove_thread t s)"
    using o(5) u(3) by (simp_all add: thread_cleanup_execute_def kframe)
  obtain e d l where d: "rt_timer_detach (TTimer t) (rt_schedule_remove_thread t s) = Some (e, d)" "drop_lock t d = Some l"
    "u = upd_thread t (\<lambda>th. th\<lparr>stat := RT_THREAD_CLOSE\<rparr>) l"
    using dropped_steps [OF u(1)] .
  have "\<not> cleanup (threads l t)" using cu(1) d(3) by simp
  then have r: "rt_thread_detach cln t s = Some (RT_EOK, s')"
    using o(1-3) sys cu d(1,2) u(7) unfolding rt_thread_detach_def
    by (simp add: d(3) [symmetric] retire_def s'_def)
  have "kinv s'" unfolding s'_def rt_object_detach_def kinv_object_unlink
    by (rule kinv_upd_object [OF u(2), of _ t]) (use o(4) u(3,5,6) in \<open>simp_all add: started_def unlisted_def\<close>)
  moreover have "on_list s' t = None" using u(4) by (simp add: s'_def rt_object_detach_def)
  ultimately show ?thesis
    using r closed_off_lists [of s' t] u(3,5,6,8) by (auto simp: s'_def rt_object_detach_def)
qed

lemma sample_ordinary: "ordinary 2 sample" "rt_object_is_systemobject (Obj 2) sample"
proof -
  have "threads sample 2 = (sample_thread 20)\<lparr>stat := RT_THREAD_READY\<rparr>"
    by (simp add: sample_def sample_ready_threads) (simp add: sample_base_def)
  moreover have "obj_type (objects sample (TTimer 2)) = 0x8A" "obj_type (objects sample (Obj 2)) = 0x81"
    by (simp_all add: sample_def sample_ready_def sample_base_def sample_objects_def sample_types_def)
  ultimately show "ordinary 2 sample" "rt_object_is_systemobject (Obj 2) sample"
    by (simp_all add: ordinary_def started_def rt_object_is_systemobject_def sample_thread_def set_priority_def)
qed

theorem thread_detach_ends_witness:
  "\<exists>s'. rt_thread_detach (\<lambda>_. Some) 2 sample = Some (RT_EOK, s') \<and> kinv s' \<and> tstat s' 2 = RT_THREAD_CLOSE \<and>
     (\<forall>h. 2 \<notin> set (tlists s' h)) \<and> TTimer 2 \<notin> set (timer_list s') \<union> set (soft_timer_list s') \<and>
     (\<forall>j. Obj 2 \<notin> set (containers s' j) \<and> TTimer 2 \<notin> set (containers s' j)) \<and>
     (\<forall>v. v \<noteq> 2 \<longrightarrow> threads s' v = threads sample v)"
  by (rule thread_detach_ends [OF sample_kinv _ sample_ordinary]) simp

subsection \<open>Deletion and the idle thread\<close>

lemma kinv_defunct:
  assumes K: "kinv u" and t: "on_list u t = None" "tstat u t = RT_THREAD_CLOSE" and p: "tlist_push DefunctQ t u = Some s'"
  shows "kinv s'"
proof -
  have s': "s' = u\<lparr>tlists := (tlists u)(DefunctQ := t # tlists u DefunctQ), on_list := (on_list u)(t := Some DefunctQ)\<rparr>"
    using p by (auto simp: tlist_push_def tlist_set_def split: if_splits)
  have "t \<notin> set (tlists u DefunctQ)" by (rule closed_off_lists [OF K t(1)])
  then have "queues_ok s'"
    using queues_ok_set [OF kinvD(5) [OF K] p [unfolded tlist_push_def]] queues_okD(1) [OF kinvD(5) [OF K]] by simp
  moreover have "bitmap_ok s'" using kinvD(6) [OF K] by (simp add: bitmap_ok_def s')
  moreover have "ready_ok s'" using kinvD(7) [OF K] t by (auto simp: ready_ok_def ready_one_def s')
  moreover have "types_ok s'" using kinvD(2) [OF K] by (simp add: types_ok_def s' is_thread_def rt_object_get_type_def)
  moreover have "timers_ok s'" using kinvD(3) [OF K] by (simp add: timers_ok_def s' rt_object_get_type_def)
  moreover have "waits_ok s'" using kinvD(4) [OF K] by (auto simp: waits_ok_def s')
  ultimately show ?thesis by (simp add: kinv_def sched_inv_def)
qed

lemma delete_enqueues:
  assumes K: "kinv s" and i: "irq_nest s = 0" and t: "ordinary t s" and sys: "\<not> rt_object_is_systemobject (Obj t) s"
  shows "\<exists>s'. rt_thread_delete cln t s = Some (RT_EOK, s') \<and> kinv s' \<and> irq_nest s' = 0 \<and>
     threads s' = threads (closed t s) \<and> tlists s' DefunctQ = t # removeAll t (tlists s DefunctQ) \<and>
     \<not> rt_object_is_systemobject (Obj t) s' \<and>
     (\<forall>x. x \<noteq> TTimer t \<longrightarrow> (\<forall>a. th_lock (threads s t) = Some a \<longrightarrow> x \<noteq> Obj a) \<longrightarrow> objects s' x = objects s x)"
proof -
  obtain u where u: "dropped t s = Some u" "kinv u" "threads u = threads (closed t s)" "on_list u = on_list (closed t s)"
    "tlists u = tlists (closed t s)" "\<not> rt_object_is_systemobject (Obj t) u" "irq_nest u = 0"
    "\<forall>x. x \<noteq> TTimer t \<longrightarrow> (\<forall>a. th_lock (threads s t) = Some a \<longrightarrow> x \<noteq> Obj a) \<longrightarrow> objects u x = objects s x"
    using dropped_closed [OF K i t] dropped_static [OF t] sys i by metis
  note o = ordinary_thread [OF K t]
  have cu: "thread_cleanup_execute cln t (rt_schedule_remove_thread t s) = Some (rt_schedule_remove_thread t s)"
    using o(5) by (simp add: thread_cleanup_execute_def kframe)
  obtain e d l where d: "rt_timer_detach (TTimer t) (rt_schedule_remove_thread t s) = Some (e, d)" "drop_lock t d = Some l"
    "u = upd_thread t (\<lambda>th. th\<lparr>stat := RT_THREAD_CLOSE\<rparr>) l"
    using dropped_steps [OF u(1)] .
  define s' where "s' = u\<lparr>tlists := (tlists u)(DefunctQ := t # tlists u DefunctQ), on_list := (on_list u)(t := Some DefunctQ)\<rparr>"
  have p: "tlist_push DefunctQ t u = Some s'" using u(4) by (simp add: tlist_push_def tlist_set_def s'_def)
  have r: "rt_thread_delete cln t s = Some (RT_EOK, s')"
    using o(1-3) sys cu d(1,2) p unfolding rt_thread_delete_def
    by (simp add: d(3) [symmetric] rt_thread_defunct_enqueue_def)
  have "kinv s'" by (rule kinv_defunct [OF u(2) _ _ p]) (simp_all add: u(3,4))
  moreover have "tlists s' DefunctQ = t # removeAll t (tlists s DefunctQ)"
    using tlist_remove_lists [OF kinvD(5) [OF K]] by (simp add: s'_def u(5))
  ultimately show ?thesis using r u(3,6,7,8) by (simp add: s'_def rt_object_is_systemobject_def)
qed

lemma unlink_dynamic:
  assumes "\<not> rt_object_is_systemobject (Obj t) s"
  shows "rt_object_delete (Obj t) s = Some (rt_object_detach (Obj t) s)"
  using assms by (simp add: rt_object_delete_def rt_object_is_systemobject_def rt_object_detach_def)

lemma detach_fields [simp]:
  "threads (rt_object_detach x s) = threads s" "tlists (rt_object_detach x s) = tlists s"
  "on_list (rt_object_detach x s) = on_list s" "irq_nest (rt_object_detach x s) = irq_nest s"
  "containers (rt_object_detach x s) = (\<lambda>i. removeAll x (containers s i))"
  "y \<noteq> x \<Longrightarrow> objects (rt_object_detach x s) y = objects s y"
  by (simp_all add: rt_object_detach_def)

text \<open>The clean-up loop over a queue of dynamic threads without cleanup functions.\<close>

definition reapable :: "nat list \<Rightarrow> kernel \<Rightarrow> bool" where
  "reapable ts s = (queues_ok s \<and> irq_nest s = 0 \<and> tlists s DefunctQ = ts \<and>
     (\<forall>t \<in> set ts. \<not> cleanup (threads s t) \<and> \<not> rt_object_is_systemobject (Obj t) s))"

lemma defunct_execute_all:
  "reapable ts s \<Longrightarrow> \<exists>s'. rt_defunct_execute cln s = Some s' \<and> tlists s' DefunctQ = [] \<and> threads s' = threads s \<and>
     (\<forall>j. set (containers s' j) = set (containers s j) - Obj ` set ts) \<and>
     (\<forall>h. h \<noteq> DefunctQ \<longrightarrow> tlists s' h = tlists s h)"
proof (induction ts arbitrary: s)
  case Nil
  then show ?case
    by (simp add: rt_defunct_execute.simps [of _ s] reapable_def not_in_interrupt_def rt_thread_defunct_dequeue_def)
next
  case (Cons t ts)
  let ?r = "tlist_remove t s" and ?d = "rt_object_detach (Obj t) (tlist_remove t s)"
  have q: "queues_ok s" "tlists s DefunctQ = t # ts" and c: "\<not> cleanup (threads s t)" "\<not> rt_object_is_systemobject (Obj t) s"
    using Cons.prems by (auto simp: reapable_def)
  have nd: "t \<notin> set ts" using queues_okD(1) [OF q(1), of DefunctQ] q(2) by simp
  have on: "on_list s t = Some DefunctQ" using queues_okD(2) [OF q(1), of t DefunctQ] q(2) by simp
  have l: "tlists ?r = (tlists s)(DefunctQ := ts)" using on q(2) nd by (auto simp: tlist_remove_def)
  have qr: "queues_ok ?r" by (rule queues_ok_remove [OF q(1)])
  have "queues_ok ?d = queues_ok ?r" by (simp add: queues_ok_def)
  moreover have "\<not> rt_object_is_systemobject (Obj u) ?d" if "u \<in> set ts" for u
    using that nd Cons.prems by (cases "u = t") (auto simp: rt_object_is_systemobject_def reapable_def)
  ultimately have "reapable ts ?d" using Cons.prems qr l nd by (auto simp: reapable_def)
  from Cons.IH [OF this] obtain s' where s': "rt_defunct_execute cln ?d = Some s'" "tlists s' DefunctQ = []"
    "threads s' = threads ?d" "\<forall>j. set (containers s' j) = set (containers ?d j) - Obj ` set ts"
    "\<forall>h. h \<noteq> DefunctQ \<longrightarrow> tlists s' h = tlists ?d h" by blast
  have "\<not> rt_object_is_systemobject (Obj t) ?r" using c(2) by (simp add: rt_object_is_systemobject_def)
  then have "rt_defunct_execute cln s = rt_defunct_execute cln ?d"
    using Cons.prems q c unlink_dynamic [of t ?r]
    by (simp add: rt_defunct_execute.simps [of _ s] reapable_def not_in_interrupt_def rt_thread_defunct_dequeue_def
        thread_cleanup_execute_def)
  then show ?case using s' l by auto
qed

text \<open>C35: A deleted thread is reaped by the idle thread. Outside of interrupts, \<^verbatim>\<open>rt_thread_delete\<close> of a dynamic thread that
  is started (not in its initial state) and has no cleanup function closes it, takes it off its list and puts it in front of
  all others in the defunct queue, whose order does not change; no other thread changes. \<^verbatim>\<open>rt_defunct_execute\<close> then ends,
  empties the queue and takes all threads that were on it out of the registry. (The threads in the queue are dynamic and
  without cleanup functions, which are application code; a thread lock is a semaphore nobody waits for.)\<close>

theorem thread_delete_reaped:
  assumes "kinv s" and "irq_nest s = 0" and "ordinary t s" and "\<not> rt_object_is_systemobject (Obj t) s"
    and "\<forall>u \<in> set (tlists s DefunctQ). \<not> cleanup (threads s u) \<and> \<not> rt_object_is_systemobject (Obj u) s \<and>
       th_lock (threads s t) \<noteq> Some u"
  shows "\<exists>s1 s2. rt_thread_delete cln t s = Some (RT_EOK, s1) \<and> kinv s1 \<and> tstat s1 t = RT_THREAD_CLOSE \<and>
     tlists s1 DefunctQ = t # removeAll t (tlists s DefunctQ) \<and> on_list s1 t = Some DefunctQ \<and>
     rt_defunct_execute cln s1 = Some s2 \<and> tlists s2 DefunctQ = [] \<and>
     (\<forall>j. Obj t \<notin> set (containers s2 j) \<and> (\<forall>u \<in> set (tlists s DefunctQ). Obj u \<notin> set (containers s2 j))) \<and>
     (\<forall>u. u \<noteq> t \<longrightarrow> threads s2 u = threads s u)"
proof -
  obtain s1 where s1: "rt_thread_delete cln t s = Some (RT_EOK, s1)" "kinv s1" "irq_nest s1 = 0"
    "threads s1 = threads (closed t s)" "tlists s1 DefunctQ = t # removeAll t (tlists s DefunctQ)"
    "\<not> rt_object_is_systemobject (Obj t) s1"
    "\<forall>x. x \<noteq> TTimer t \<longrightarrow> (\<forall>a. th_lock (threads s t) = Some a \<longrightarrow> x \<noteq> Obj a) \<longrightarrow> objects s1 x = objects s x"
    using delete_enqueues [OF assms(1-4), of cln] by blast
  have "\<not> rt_object_is_systemobject (Obj u) s1" if "u \<in> set (tlists s DefunctQ)" for u
    using s1(7) assms(5) that by (auto simp: rt_object_is_systemobject_def)
  then have "reapable (t # removeAll t (tlists s DefunctQ)) s1"
    using s1 assms(5) ordinary_thread(5) [OF assms(1,3)] kinvD(5) [OF s1(2)] by (auto simp: reapable_def)
  note defunct_execute_all [OF this, of cln]
  then obtain s2 where "rt_defunct_execute cln s1 = Some s2"
    "tlists s2 DefunctQ = []" "threads s2 = threads s1"
    "\<forall>j. set (containers s2 j) = set (containers s1 j) - Obj ` set (t # removeAll t (tlists s DefunctQ))" by blast
  moreover have "on_list s1 t = Some DefunctQ"
    using queues_okD(2) [OF kinvD(5) [OF s1(2)], of t DefunctQ] s1(5) by simp
  ultimately show ?thesis using s1(1,2,4,5) by auto
qed

text \<open>The sample kernel with thread 2 allocated from the heap.\<close>

definition sample_dynamic :: kernel where
  "sample_dynamic = upd_object (Obj 2) (\<lambda>ob. ob\<lparr>obj_type := RT_Object_Class_Thread\<rparr>) sample"

lemma kinv_retyped:
  assumes K: "kinv s" and ty: "rt_object_get_type x (upd_object x f s) = rt_object_get_type x s"
    and fl: "obj_flag (f (objects s x)) = obj_flag (objects s x)"
  shows "kinv (upd_object x f s)"
proof -
  have g: "rt_object_get_type y (upd_object x f s) = rt_object_get_type y s" for y using ty by (cases "y = x") simp_all
  moreover have "timer_flag (upd_object x f s) y = timer_flag s y" for y using fl by simp
  moreover have "is_thread t (upd_object x f s) = is_thread t s" for t by (simp add: is_thread_def g)
  ultimately have o: "rt_object_get_type y (upd_object x f s) = rt_object_get_type y s"
    "timer_flag (upd_object x f s) y = timer_flag s y" "is_thread t (upd_object x f s) = is_thread t s" for y t by blast+
  have "sched_inv (upd_object x f s) = sched_inv s" by (rule sched_inv_cong) simp_all
  then show ?thesis using K unfolding kinv_def types_ok_def timers_ok_def waits_ok_def o upd_object_fields(1-12) by simp
qed

lemma sample_dynamic_kinv: "kinv sample_dynamic"
  unfolding sample_dynamic_def
  by (rule kinv_retyped [OF sample_kinv])
    (simp_all add: rt_object_get_type_def sample_def sample_ready_def sample_base_def sample_objects_def sample_types_def)

lemma sample_dynamic_ordinary: "ordinary 2 sample_dynamic" "\<not> rt_object_is_systemobject (Obj 2) sample_dynamic"
proof -
  have l: "th_lock (threads sample 2) = None"
    by (simp add: sample_def sample_ready_threads) (simp add: sample_base_def sample_thread_def set_priority_def)
  then show "ordinary 2 sample_dynamic" using sample_ordinary(1)
    by (simp add: sample_dynamic_def ordinary_def started_def rt_object_is_systemobject_def)
  show "\<not> rt_object_is_systemobject (Obj 2) sample_dynamic" by (simp add: sample_dynamic_def rt_object_is_systemobject_def)
qed

theorem thread_delete_reaped_witness:
  "\<exists>s1 s2. rt_thread_delete (\<lambda>_. Some) 2 sample_dynamic = Some (RT_EOK, s1) \<and> kinv s1 \<and> tstat s1 2 = RT_THREAD_CLOSE \<and>
     tlists s1 DefunctQ = 2 # removeAll 2 (tlists sample_dynamic DefunctQ) \<and> on_list s1 2 = Some DefunctQ \<and>
     rt_defunct_execute (\<lambda>_. Some) s1 = Some s2 \<and> tlists s2 DefunctQ = [] \<and>
     (\<forall>j. Obj 2 \<notin> set (containers s2 j) \<and>
       (\<forall>u \<in> set (tlists sample_dynamic DefunctQ). Obj u \<notin> set (containers s2 j))) \<and>
     (\<forall>u. u \<noteq> 2 \<longrightarrow> threads s2 u = threads sample_dynamic u)"
proof (rule thread_delete_reaped [OF sample_dynamic_kinv _ sample_dynamic_ordinary])
  have "tlists sample_dynamic DefunctQ = []"
    by (simp add: sample_dynamic_def sample_def sample_ready_def sample_base_def resumed_def tlist_remove_def timer_off_def
        flag_clear_def timer_remove_def upd_object_def enqueued_def)
  then show "\<forall>u \<in> set (tlists sample_dynamic DefunctQ). \<not> cleanup (threads sample_dynamic u) \<and>
     \<not> rt_object_is_systemobject (Obj u) sample_dynamic \<and> th_lock (threads sample_dynamic 2) \<noteq> Some u" by simp
qed (simp add: sample_dynamic_def)

end
