(* ===== verification/Utilities_Correct.thy ===== *)
theory Utilities_Correct
  imports Queue_Correct
begin

unbundle bit_operations_syntax

text \<open>
  What the calls of the completions, data queues, wait queues and work queues promise, and where they do not keep it.
\<close>

subsection \<open>The data of the utilities\<close>

text \<open>Scheduling does not touch the structures of the utilities.\<close>

definition utils where
  "utils s = (completions s, dqueues s, workqueues s, work_on s, wqueues s, wait_nodes s, node_on s)"

lemma utilsD:
  assumes "utils s' = utils s"
  shows "completions s' = completions s" "dqueues s' = dqueues s" "workqueues s' = workqueues s" "work_on s' = work_on s"
    "wqueues s' = wqueues s" "wait_nodes s' = wait_nodes s" "node_on s' = node_on s"
  using assms by (simp_all add: utils_def)

lemma utils_basic [simp]:
  "utils (upd_thread t f s) = utils s" "utils (timer_off x s) = utils s" "utils (tlist_remove t s) = utils s"
  "utils (armed x s) = utils s" "utils (upd_timer x g s) = utils s" "utils (rt_schedule_remove_thread t s) = utils s"
  "utils (enqueued t s) = utils s" "utils (s\<lparr>lock_nest := n\<rparr>) = utils s" "utils (upd_sem a h s) = utils s"
  by (auto simp: utils_def upd_thread_def timer_off_def flag_clear_def timer_remove_def upd_object_def tlist_remove_def
      armed_def flag_set_def upd_timer_def rt_schedule_remove_thread_def enqueued_def upd_sem_def Let_def split: option.splits)

lemma utils_moves [simp]:
  "utils (resumed t s) = utils s" "utils (suspended t s) = utils s" "utils (queued h t flag s) = utils s"
  "utils (waiting h t flag time s) = utils s" "utils (blocked_on h t flag time s) = utils s"
proof -
  show r: "utils (resumed t s) = utils s" by (simp add: resumed_def)
  show p: "utils (suspended t s) = utils s" for s by (simp add: suspended_def)
  show q: "utils (queued h t flag s) = utils s" for s using p by (simp add: queued_def utils_def)
  show w: "utils (waiting h t flag time s) = utils s" for s using q by (simp add: waiting_def)
  show "utils (blocked_on h t flag time s) = utils s" using w by (simp add: blocked_on_def)
qed

lemma utils_schedule: "rt_schedule s = Some s' \<Longrightarrow> utils s' = utils s"
  by (drule rt_schedule_frame, subst (1) utils_def, elim ssubst) (simp add: utils_def)

lemma wake_one_utils:
  assumes "kinv s" and "ipc_head h" and "wake_one h s = Some s'"
  shows "utils s' = utils s"
proof (cases "tlists s h")
  case (Cons t ts)
  then show ?thesis using assms(3) rt_ipc_list_resume_eq [OF assms(1,2) Cons] utils_schedule by (fastforce simp: wake_one_def)
qed (use assms in \<open>simp add: wake_one_def\<close>)


subsection \<open>Completions\<close>

lemma kinv_live_completion [simp]: "live (set_completion a v s) = live s"
  by (simp add: live_def set_completion_def)




subsection \<open>Data queues\<close>

text \<open>As long as the counters have not wrapped around, the ring holds the items from \<^verbatim>\<open>get_index\<close> to \<^verbatim>\<open>put_index\<close>.\<close>

definition dq_ok :: "rt_data_queue \<Rightarrow> bool" where
  "dq_ok m = (dq_size m \<noteq> 0 \<and> length (dq_items m) = unat (dq_size m) \<and> unat (dq_get m) \<le> unat (dq_put m) \<and>
     unat (dq_put m) - unat (dq_get m) \<le> unat (dq_size m))"

definition dq_list :: "rt_data_queue \<Rightarrow> (u32 \<times> u32) list" where
  "dq_list m = ring_list (dq_items m) (unat (dq_get m)) (unat (dq_put m) - unat (dq_get m))"

lemma length_dq_list [simp]: "length (dq_list m) = unat (dq_put m) - unat (dq_get m)"
  by (simp add: dq_list_def)

lemma dq_okD:
  assumes "dq_ok m"
  shows "0 < unat (dq_size m)" "length (dq_items m) = unat (dq_size m)" "unat (dq_get m) \<le> unat (dq_put m)"
    "length (dq_list m) \<le> unat (dq_size m)"
  using assms by (auto simp: dq_ok_def unat_gt_0)

lemma dq_full_length:
  assumes "dq_ok m"
  shows "dq_full m \<longleftrightarrow> length (dq_list m) = unat (dq_size m)"
  unfolding dq_full_def uint_nat length_dq_list using dq_okD(3) [OF assms] by linarith

lemma dq_slot_ok:
  assumes "dq_ok m"
  shows "dq_slot i m = Some (unat i mod unat (dq_size m))"
proof -
  have "unat i mod unat (dq_size m) < unat (dq_size m)" using dq_okD(1) [OF assms] by (rule mod_less_divisor)
  then have "\<not> (dq_size m = 0 \<or> length (dq_items m) \<le> unat (i mod dq_size m))"
    using dq_okD(1,2) [OF assms] unfolding unat_mod by (metis not_le less_irrefl unat_0)
  then show ?thesis by (simp only: dq_slot_def if_False unat_mod)
qed

lemma dq_store_appends:
  assumes ok: "dq_ok m" and l: "length (dq_list m) < unat (dq_size m)" and w: "unat (dq_put m) < 2 ^ 16 - 1"
  shows "\<exists>m'. dq_store v m = Some m' \<and> dq_ok m' \<and> dq_list m' = dq_list m @ [v] \<and> dq_get m' = dq_get m \<and>
     dq_size m' = dq_size m \<and> dq_lwm m' = dq_lwm m \<and> dq_notify m' = dq_notify m"
proof -
  let ?n = "unat (dq_size m)" and ?g = "unat (dq_get m)" and ?p = "unat (dq_put m)"
  let ?m = "m\<lparr>dq_items := (dq_items m)[?p mod ?n := v], dq_put := dq_put m + 1\<rparr>"
  note D = dq_okD [OF ok]
  have p: "unat (dq_put m + 1) = Suc ?p" using w by (simp add: unat_word_ariths)
  have "dq_ok ?m" using D l p ok by (auto simp: dq_ok_def)
  moreover have "dq_list ?m = dq_list m @ [v]"
    using ring_list_append [of "?p - ?g" "dq_items m" ?g v] l D(2,3) p by (simp add: dq_list_def Suc_diff_le)
  moreover have "dq_store v m = Some ?m" using dq_slot_ok [OF ok] by (simp add: dq_store_def)
  ultimately show ?thesis by auto
qed

lemma dq_load_takes:
  assumes ok: "dq_ok m" and c: "dq_list m = v # vs"
  shows "\<exists>m'. dq_load m = Some (v, m') \<and> dq_ok m' \<and> dq_list m' = vs \<and> dq_put m' = dq_put m \<and>
     dq_size m' = dq_size m \<and> dq_lwm m' = dq_lwm m \<and> dq_notify m' = dq_notify m"
proof -
  let ?n = "unat (dq_size m)" and ?g = "unat (dq_get m)" and ?p = "unat (dq_put m)"
  let ?m = "m\<lparr>dq_get := dq_get m + 1\<rparr>"
  note D = dq_okD [OF ok]
  have pos: "0 < ?p - ?g" using c by (metis length_Cons length_dq_list zero_less_Suc)
  have g: "unat (dq_get m + 1) = Suc ?g"
    using pos unsigned_less [of "dq_put m", where 'a = nat] by (simp add: unat_word_ariths)
  have i: "?g mod ?n < ?n" using D(1) by (rule mod_less_divisor)
  have shift: "ring_list (dq_items m) (j mod ?n) k = ring_list (dq_items m) j k" for j k
    using D(2) by (simp add: ring_list_def mod_add_left_eq)
  have "ring_list (dq_items m) ?g (?p - ?g) = dq_items m ! (?g mod ?n) # ring_list (dq_items m) (Suc ?g) (?p - ?g - 1)"
    using ring_list_pop [OF pos, of "?g mod ?n" "dq_items m"] i D(2) shift [of ?g] shift [of "Suc ?g"]
    by (simp add: mod_Suc_eq)
  then have "dq_items m ! (?g mod ?n) = v" "dq_list ?m = vs" using c g by (simp_all add: dq_list_def)
  moreover have "dq_ok ?m" using ok pos g by (auto simp: dq_ok_def)
  moreover have "dq_load m = Some (dq_items m ! (?g mod ?n), ?m)" using dq_slot_ok [OF ok] by (simp add: dq_load_def)
  ultimately show ?thesis by auto
qed

definition dq_ready :: "nat \<Rightarrow> kernel \<Rightarrow> bool" where
  "dq_ready a s = (kinv s \<and> live s \<and> dq_ok (dqueues s a))"

lemma dq_update_ready: "dq_ready a s \<Longrightarrow> dq_ok m \<Longrightarrow> dq_ready a (upd_dq a (\<lambda>_. m) s)"
  by (simp add: dq_ready_def live_def upd_dq_def [of _ _ s] flip: kinv_upd_dq [of a "\<lambda>_. m" s])

lemma dq_update_wake:
  assumes R: "dq_ready a s" and m: "dq_ok m" and h: "ipc_head h"
  shows "\<exists>s'. wake_one h (upd_dq a (\<lambda>_. m) s) = Some s' \<and> dq_ready a s' \<and> dqueues s' a = m \<and> first_woken h s s'"
proof -
  let ?u = "upd_dq a (\<lambda>_. m) s"
  have u: "kinv ?u" "live ?u" using dq_update_ready [OF R m] by (simp_all add: dq_ready_def)
  have c: "first_woken h ?u s' = first_woken h s s'" for s' by (rule first_woken_cong) (simp_all add: upd_dq_def)
  obtain s' where s': "wake_one h ?u = Some s'" "kinv s'" "live s'" "first_woken h s s'"
    using wake_one_effect [OF u h] by (auto simp: c)
  moreover have "dqueues s' = dqueues ?u" using utilsD(2) [OF wake_one_utils [OF u(1) h s'(1)]] .
  ultimately show ?thesis using m by (auto simp: dq_ready_def)
qed

lemma dq_push_stores:
  assumes R: "dq_ready a s" and f: "\<not> dq_full (dqueues s a)" and w: "unat (dq_put (dqueues s a)) < 2 ^ 16 - 1"
  shows "\<exists>u. dq_ready a u \<and> dq_list (dqueues u a) = dq_list (dqueues s a) @ [(ptr, n)] \<and> first_woken (DqPopQ a) s u \<and>
     rt_data_queue_push ev a ptr n time s =
       (if tlists s (DqPopQ a) = [] then map_option (Pair (Ret RT_EOK)) (dq_event ev a RT_DATAQUEUE_EVENT_PUSH u) else Some (Ret RT_EOK, u))"
proof -
  have ok: "dq_ok (dqueues s a)" using R by (simp add: dq_ready_def)
  then have "length (dq_list (dqueues s a)) < unat (dq_size (dqueues s a))"
    using f dq_okD(4) [OF ok] dq_full_length [OF ok] by (metis order_le_less)
  then obtain m where m: "dq_store (ptr, n) (dqueues s a) = Some m" "dq_ok m" "dq_list m = dq_list (dqueues s a) @ [(ptr, n)]"
    using dq_store_appends [OF ok _ w] by blast
  obtain u where u: "wake_one (DqPopQ a) (upd_dq a (\<lambda>_. m) s) = Some u" "dq_ready a u" "dqueues u a = m" "first_woken (DqPopQ a) s u"
    using dq_update_wake [OF R m(2), of "DqPopQ a"] by auto
  have e: "rt_data_queue_push ev a ptr n time s = do {
      s \<leftarrow> (if tlists s (DqPopQ a) \<noteq> [] then wake_one (DqPopQ a) (upd_dq a (\<lambda>_. m) s) else dq_event ev a 2 (upd_dq a (\<lambda>_. m) s));
      Some (Ret RT_EOK, s) }"
    using f m(1) by (simp add: rt_data_queue_push_def dq_push_loop.simps [of ev a] dq_deliver_def Let_def)
  show ?thesis
  proof (cases "tlists s (DqPopQ a) = []")
    case True
    then show ?thesis using e dq_update_ready [OF R m(2)] m(3)
      by (intro exI [of _ "upd_dq a (\<lambda>_. m) s"]) (simp add: map_conv_bind_option o_def first_woken_def)
  next
    case False
    then show ?thesis using e u m(3) by (intro exI [of _ u]) simp
  qed
qed

lemma dq_pop_takes:
  assumes R: "dq_ready a s" and c: "dq_list (dqueues s a) = v # vs"
  shows "rt_data_queue_peak a s = Some (RT_EOK, Some v)" and
    "\<exists>u. dq_ready a u \<and> dq_list (dqueues u a) = vs \<and>
     (if length vs \<le> unat (dq_lwm (dqueues s a)) then first_woken (DqPushQ a) s u else tlists u (DqPushQ a) = tlists s (DqPushQ a)) \<and>
     rt_data_queue_pop ev a time s = map_option (Pair (Ret RT_EOK, Some v))
       (dq_event ev a (if length vs \<le> unat (dq_lwm (dqueues s a)) then RT_DATAQUEUE_EVENT_LWM else RT_DATAQUEUE_EVENT_POP) u)"
proof -
  have ok: "dq_ok (dqueues s a)" using R by (simp add: dq_ready_def)
  have ne: "dq_get (dqueues s a) \<noteq> dq_put (dqueues s a)" using c length_dq_list [of "dqueues s a"] by auto
  obtain m where m: "dq_load (dqueues s a) = Some (v, m)" "dq_ok m" "dq_list m = vs" "dq_lwm m = dq_lwm (dqueues s a)"
    using dq_load_takes [OF ok c] by blast
  have l: "uint (dq_put m) - uint (dq_get m) \<le> uint (dq_lwm m) \<longleftrightarrow> length vs \<le> unat (dq_lwm (dqueues s a))"
    unfolding m(3,4) [symmetric] uint_nat length_dq_list using dq_okD(3) [OF m(2)] by linarith
  show "rt_data_queue_peak a s = Some (RT_EOK, Some v)"
    using m(1) ne by (auto simp: rt_data_queue_peak_def dq_load_def Let_def)
  obtain u where u: "wake_one (DqPushQ a) (upd_dq a (\<lambda>_. m) s) = Some u" "dq_ready a u" "dqueues u a = m" "first_woken (DqPushQ a) s u"
    using dq_update_wake [OF R m(2), of "DqPushQ a"] by auto
  have e: "rt_data_queue_pop ev a time s = do {
      s \<leftarrow> (if length vs \<le> unat (dq_lwm (dqueues s a)) then dq_event ev a 3 u else dq_event ev a 1 (upd_dq a (\<lambda>_. m) s));
      Some ((Ret RT_EOK, Some v), s) }"
    using ne m(1) u(1) l by (simp add: rt_data_queue_pop_def dq_pop_loop.simps [of ev a] dq_fetch_def Let_def)
  show "\<exists>u. dq_ready a u \<and> dq_list (dqueues u a) = vs \<and>
     (if length vs \<le> unat (dq_lwm (dqueues s a)) then first_woken (DqPushQ a) s u else tlists u (DqPushQ a) = tlists s (DqPushQ a)) \<and>
     rt_data_queue_pop ev a time s = map_option (Pair (Ret RT_EOK, Some v))
       (dq_event ev a (if length vs \<le> unat (dq_lwm (dqueues s a)) then 3 else 1) u)"
  proof (cases "length vs \<le> unat (dq_lwm (dqueues s a))")
    case True
    then show ?thesis using e u m(3) by (intro exI [of _ u]) (simp add: map_conv_bind_option o_def)
  next
    case False
    then show ?thesis using e dq_update_ready [OF R m(2)] m(3)
      by (intro exI [of _ "upd_dq a (\<lambda>_. m) s"]) (simp add: map_conv_bind_option o_def)
  qed
qed

text \<open>C17: On a running kernel, the calls on a well-formed data queue whose put counter is below \<open>2^16 - 1\<close>, whatever its notification function. A push to a
  queue with room, with any time to wait, appends the item and wakes the first thread that waits to pop, which leaves the
  waiting list and is ready, in its ready queue, with its timer stopped and no error; only when there is no such thread is
  the function called. A pop from a queue that is not empty, with any time to wait, takes the oldest item, the one that
  \<^verbatim>\<open>rt_data_queue_peak\<close> shows; when no more than the low-water mark is left it wakes the first thread that waits to push in
  the same way, and it calls the function. With the time 0, a push to a full queue and a pop from an empty queue return
  \<^verbatim>\<open>-RT_ETIMEOUT\<close> and change nothing.\<close>

theorem dataqueue_calls:
  assumes R: "dq_ready a s" and w: "unat (dq_put (dqueues s a)) < 2 ^ 16 - 1"
  shows "(if dq_full (dqueues s a) then rt_data_queue_push ev a ptr n 0 s = Some (Ret (- RT_ETIMEOUT), s)
     else \<exists>u. dq_ready a u \<and> dq_list (dqueues u a) = dq_list (dqueues s a) @ [(ptr, n)] \<and>
       first_woken (DqPopQ a) s u \<and>
       rt_data_queue_push ev a ptr n time s =
         (if tlists s (DqPopQ a) = [] then map_option (Pair (Ret RT_EOK)) (dq_event ev a RT_DATAQUEUE_EVENT_PUSH u)
          else Some (Ret RT_EOK, u))) \<and>
     (case dq_list (dqueues s a) of
       [] \<Rightarrow> rt_data_queue_pop ev a 0 s = Some ((Ret (- RT_ETIMEOUT), None), s)
     | v # vs \<Rightarrow> rt_data_queue_peak a s = Some (RT_EOK, Some v) \<and>
         (\<exists>u. dq_ready a u \<and> dq_list (dqueues u a) = vs \<and>
           (if length vs \<le> unat (dq_lwm (dqueues s a)) then first_woken (DqPushQ a) s u else tlists u (DqPushQ a) = tlists s (DqPushQ a)) \<and>
           rt_data_queue_pop ev a time s = map_option (Pair (Ret RT_EOK, Some v))
             (dq_event ev a (if length vs \<le> unat (dq_lwm (dqueues s a)) then RT_DATAQUEUE_EVENT_LWM else RT_DATAQUEUE_EVENT_POP) u)))"
proof -
  have "dq_get (dqueues s a) = dq_put (dqueues s a)" if "dq_list (dqueues s a) = []"
    using that length_dq_list [of "dqueues s a"] dq_okD(3) [of "dqueues s a"] R by (simp add: dq_ready_def word_unat_eq_iff)
  then have "rt_data_queue_pop ev a 0 s = Some ((Ret (- RT_ETIMEOUT), None), s)" if "dq_list (dqueues s a) = []"
    using that by (simp add: rt_data_queue_pop_def dq_pop_loop.simps [of ev a])
  moreover have "rt_data_queue_push ev a ptr n 0 s = Some (Ret (- RT_ETIMEOUT), s)" if "dq_full (dqueues s a)"
    using that by (simp add: rt_data_queue_push_def dq_push_loop.simps [of ev a])
  ultimately show ?thesis
    using dq_push_stores [OF R _ w] dq_pop_takes [OF R] by (cases "dq_list (dqueues s a)") simp_all
qed

lemma sample_utils: "utils sample = utils sample_base"
proof -
  have "utils sample_ready = utils sample_base" by (simp add: sample_ready_def)
  then show ?thesis by (simp add: sample_def utils_def)
qed

lemma sample_base_data: "dqueues sample_base a = \<lparr>dq_size = 4, dq_lwm = 1, dq_get = 0, dq_put = 0, dq_items = replicate 4 (0, 0), dq_notify = None\<rparr>"
  by (simp add: sample_base_def)

lemma sample_dq_ready: "dq_ready 41 sample"
  using sample_kinv sample_live utilsD(2) [OF sample_utils] by (simp add: dq_ready_def dq_ok_def sample_base_data)

theorem dataqueue_calls_witness:
  "(if dq_full (dqueues sample 41) then rt_data_queue_push (\<lambda>_ _ _. Some) 41 7 8 0 sample = Some (Ret (- RT_ETIMEOUT), sample)
     else \<exists>u. dq_ready 41 u \<and> dq_list (dqueues u 41) = dq_list (dqueues sample 41) @ [(7, 8)] \<and>
       first_woken (DqPopQ 41) sample u \<and>
       rt_data_queue_push (\<lambda>_ _ _. Some) 41 7 8 0 sample =
         (if tlists sample (DqPopQ 41) = [] then map_option (Pair (Ret RT_EOK)) (dq_event (\<lambda>_ _ _. Some) 41 RT_DATAQUEUE_EVENT_PUSH u)
          else Some (Ret RT_EOK, u))) \<and>
     (case dq_list (dqueues sample 41) of
       [] \<Rightarrow> rt_data_queue_pop (\<lambda>_ _ _. Some) 41 0 sample = Some ((Ret (- RT_ETIMEOUT), None), sample)
     | v # vs \<Rightarrow> rt_data_queue_peak 41 sample = Some (RT_EOK, Some v) \<and>
         (\<exists>u. dq_ready 41 u \<and> dq_list (dqueues u 41) = vs \<and>
           (if length vs \<le> unat (dq_lwm (dqueues sample 41)) then first_woken (DqPushQ 41) sample u else tlists u (DqPushQ 41) = tlists sample (DqPushQ 41)) \<and>
           rt_data_queue_pop (\<lambda>_ _ _. Some) 41 0 sample = map_option (Pair (Ret RT_EOK, Some v))
             (dq_event (\<lambda>_ _ _. Some) 41 (if length vs \<le> unat (dq_lwm (dqueues sample 41)) then RT_DATAQUEUE_EVENT_LWM else RT_DATAQUEUE_EVENT_POP) u)))"
  by (rule dataqueue_calls [OF sample_dq_ready]) (simp add: utilsD(2) [OF sample_utils] sample_base_data)

text \<open>A data queue breaks when its counter \<^verbatim>\<open>put_index\<close> wraps around: \<^verbatim>\<open>put_index - get_index\<close> is then a negative number that
  never equals the size, so no push is refused. On an empty queue of four items with both counters at \<open>65534\<close>, five pushes
  succeed without waiting, and the next pop returns the fifth item; the first one is lost.\<close>

theorem dataqueue_wraps:
  "let push = (\<lambda>v s. map_option snd (rt_data_queue_push (\<lambda>_ _ _. Some) 41 v 0 0 s));
       full = put_all push [1, 2, 3, 4, 5] (upd_dq 41 (\<lambda>m. m\<lparr>dq_get := 65534, dq_put := 65534\<rparr>) sample)
   in dq_size (dqueues sample 41) = 4 \<and> full \<noteq> None \<and>
     map_option (\<lambda>s. map_option fst (rt_data_queue_pop (\<lambda>_ _ _. Some) 41 0 s)) full = Some (Some (Ret RT_EOK, Some (5, 0)))"
  by code_simp

end
