(* ===== verification/Works_Correct.thy ===== *)
theory Works_Correct
  imports Utilities_Correct Clock_Correct
begin

unbundle bit_operations_syntax

text \<open>
  What the calls of the wait queues and work queues promise, and where they do not keep it.
\<close>

subsection \<open>The structures of the utilities under kernel calls\<close>

lemma utils_set [simp]: "utils (s\<lparr>tlists := x, on_list := y\<rparr>) = utils s" "utils (s\<lparr>ready_table := r, ready_group := g\<rparr>) = utils s"
  "utils (s\<lparr>timer_list := l\<rparr>) = utils s" "utils (s\<lparr>soft_timer_list := l\<rparr>) = utils s" "utils (upd_object z f s) = utils s"
  "utils (timer_remove z s) = utils s"
  by (simp_all add: utils_def upd_object_def timer_remove_def)

lemma utils_tlist_set: "tlist_set h t xs s = Some s' \<Longrightarrow> utils s' = utils s"
  by (auto simp: tlist_set_def split: if_splits)

lemma utils_insert: "rt_schedule_insert_thread t s = Some s' \<Longrightarrow> utils s' = utils s"
  by (auto simp: rt_schedule_insert_thread_def tlist_append_def Let_def dest: utils_tlist_set)

lemma utils_timer_stop: "rt_timer_stop x s = Some (e, s') \<Longrightarrow> utils s' = utils s"
  by (auto simp: rt_timer_stop_def flag_clear_def split: if_splits)

lemma utils_resume: "rt_thread_resume t s = Some (e, s') \<Longrightarrow> utils s' = utils s"
  by (auto simp: rt_thread_resume_def Let_def split: if_splits dest!: utils_insert utils_timer_stop)

lemma utils_suspend: "rt_thread_suspend t s = Some (e, s') \<Longrightarrow> utils s' = utils s"
  by (auto simp: rt_thread_suspend_def Let_def split: if_splits dest!: utils_timer_stop)

lemma utils_timer_start: "rt_timer_start x s = Some (e, s') \<Longrightarrow> utils s' = utils s"
  by (auto simp: rt_timer_start_def flag_clear_def flag_set_def Let_def split: if_splits dest!: utils_resume utils_schedule)

lemma utils_ipc_wait:
  assumes "ipc_wait h t flag time s = Some s'"
  shows "utils s' = utils s"
proof -
  obtain u where u: "rt_ipc_list_suspend h t flag s = Some u" "start_thread_timer t time u = Some s'"
    using assms by (auto simp: ipc_wait_def)
  have "utils u = utils s"
    using u(1) by (auto simp: rt_ipc_list_suspend_def tlist_append_def split: if_splits dest!: utils_suspend utils_tlist_set)
  moreover have "utils s' = utils u"
    using u(2) by (auto simp: start_thread_timer_def rt_timer_control_def split: if_splits dest!: utils_timer_start)
  ultimately show ?thesis by simp
qed

lemma utils_sem_take: "rt_sem_take a time s = Some (e, s') \<Longrightarrow> utils s' = utils s"
  by (auto simp: rt_sem_take_def Let_def split: if_splits dest!: utils_ipc_wait utils_schedule)

lemma utils_sem_release: "rt_sem_release a s = Some (e, s') \<Longrightarrow> utils s' = utils s"
  by (auto simp: rt_sem_release_def rt_ipc_list_resume_def Let_def split: if_splits dest!: utils_resume utils_schedule)

lemma utils_exit: "rt_exit_critical s = Some s' \<Longrightarrow> utils s' = utils s"
  by (auto simp: rt_exit_critical_def Let_def split: if_splits dest!: utils_schedule)

lemma utils_completion_loop:
  assumes "completion_loop a s = Some (e, s')"
  shows "utils s' = utils s"
proof -
  have "utils (snd (e, s')) = utils s"
  proof (rule completion_loop.raw_induct [where P = "\<lambda>a s r. utils (snd r) = utils s", OF _ assms])
    fix loop a s r
    assume IH: "\<And>a s r. loop a s = Some r \<Longrightarrow> utils (snd r) = utils s"
      and b: "(do {
        (r, s) \<leftarrow> rt_sem_trytake a s;
        if r = Ret (- RT_ETIMEOUT) then do {
          (_, s) \<leftarrow> rt_sem_release a s;
          loop a s }
        else if r = Ret RT_EOK then Some (RT_EOK, s)
        else Some (- RT_ERROR, s) }) = Some r"
    then show "utils (snd r) = utils s"
      by (auto simp: rt_sem_trytake_def split: if_splits dest!: IH utils_sem_take utils_sem_release)
  qed
  then show ?thesis by simp
qed

subsection \<open>Works\<close>

text \<open>A work that is queued, moved, cancelled or taken keeps the lists in order.\<close>

lemma works_ok_cong: "utils s' = utils s \<Longrightarrow> works_ok s' = works_ok s"
  by (simp add: works_ok_def utils_def)

lemma works_ok_append:
  assumes "works_ok s" and "work_current (workqueues s q) \<noteq> Some w"
  shows "works_ok (work_append q w (work_remove w s))"
  using assms works_ok_remove [OF assms(1), of w] work_remove_list [OF assms(1), of w] by (auto simp: works_ok_def)

lemma wq_current_fields [simp]:
  "work_list (workqueues (upd_wq q (\<lambda>x. x\<lparr>work_current := v\<rparr>) s) r) = work_list (workqueues s r)"
  "work_current (workqueues (upd_wq q (\<lambda>x. x\<lparr>work_current := v\<rparr>) s) r) = (if r = q then v else work_current (workqueues s r))"
  by auto

lemma works_ok_current: "works_ok u \<Longrightarrow> work_on u w \<noteq> Some q \<Longrightarrow> works_ok (upd_wq q (\<lambda>x. x\<lparr>work_current := Some w\<rparr>) u)"
  unfolding works_ok_def wq_current_fields upd_wq_fields(2) by simp

lemma works_ok_take: "works_ok s \<Longrightarrow> worker_take q s = Some (w, s') \<Longrightarrow> works_ok s'"
  using works_ok_current [OF works_ok_remove [of s w], of w q] by (auto simp: worker_take_def split: list.splits)

lemma works_ok_done:
  assumes I: "works_ok s" and r: "worker_done q s = Some s'"
  shows "works_ok s'"
proof -
  let ?u = "upd_wq q (\<lambda>x. x\<lparr>work_current := None\<rparr>) s"
  obtain e u where "completion_loop (wq_sem (workqueues (rt_enter_critical ?u) q)) (rt_enter_critical ?u) = Some (e, u)"
    "rt_exit_critical u = Some s'"
    using r by (auto simp: worker_done_def workqueue_work_completion_def Let_def simp del: upd_wq_fields)
  then have "utils s' = utils ?u" using utils_completion_loop utils_exit by (fastforce simp: rt_enter_critical_def)
  then show ?thesis using I works_ok_cong [of s' ?u] by (auto simp: works_ok_def simp del: upd_wq_fields(1))
qed

lemma cancel_loop_works: "works_ok s \<Longrightarrow> works_ok (cancel_loop ws s) \<and>
   work_list (workqueues (cancel_loop ws s) q) = filter (\<lambda>w. w \<notin> set ws) (work_list (workqueues s q))"
  by (induction ws arbitrary: s) (auto simp: works_ok_remove work_remove_list removeAll_filter_not_eq intro: filter_cong)

lemma works_ok_step:
  assumes I: "works_ok s" and r: "wq_step c s = Some s'"
  shows "works_ok s'"
  using r I works_ok_append [OF I] works_ok_remove [OF I] works_ok_take [OF I] works_ok_done [OF I]
    cancel_loop_works [of "s\<lparr>lock_nest := lock_nest s + 1\<rparr>"] works_ok_cong [of "s\<lparr>lock_nest := lock_nest s + 1\<rparr>" s]
  by (cases c) (auto simp: rt_workqueue_dowork_def rt_workqueue_critical_work_def rt_workqueue_cancel_work_def
      rt_workqueue_cancel_work_sync_def rt_workqueue_cancel_all_work_def worker_sleep_def rt_enter_critical_def Let_def
      split: if_splits dest!: utils_resume utils_suspend utils_schedule utils_sem_take utils_exit works_ok_cong)

interpretation wq: invariant works_ok wq_step
  by unfold_locales (rule works_ok_step)

text \<open>No sequence of calls on work queues and steps of their threads damages the lists.\<close>

lemma workqueue_lists_kept: "\<lbrakk>works_ok s; run wq_step cs s = Some s'\<rbrakk> \<Longrightarrow> works_ok s'"
  by (rule wq.run_keeps)

lemma resume_effect:
  assumes K: "kinv s" "live s" and t: "is_thread t s"
  shows "\<exists>e u. rt_thread_resume t s = Some (e, u) \<and> kinv u \<and> live u \<and> utils u = utils s \<and> irq_nest u = irq_nest s \<and>
     (tstat s t = RT_THREAD_SUSPEND \<longrightarrow> tstat u t = RT_THREAD_READY)"
proof (cases "tstat s t = RT_THREAD_SUSPEND")
  case True
  then show ?thesis using rt_thread_resume_eq [OF K(1) True] kinv_resumed [OF K(1) True] live_resumed [OF K(2) True] by simp
next
  case False
  then have "rt_thread_resume t s = Some (- RT_ERROR, s)" using t by (simp add: rt_thread_resume_def)
  then show ?thesis using False K by simp
qed

lemma resume_schedule_effect:
  assumes K: "kinv s" "live s" and t: "is_thread t s"
  shows "\<exists>e u s'. rt_thread_resume t s = Some (e, u) \<and> rt_schedule u = Some s' \<and> kinv s' \<and> live s' \<and> utils s' = utils s \<and>
     (tstat s t = RT_THREAD_SUSPEND \<longrightarrow> tstat s' t = RT_THREAD_READY)"
proof -
  obtain e u where u: "rt_thread_resume t s = Some (e, u)" "kinv u" "live u" "utils u = utils s"
    "tstat s t = RT_THREAD_SUSPEND \<longrightarrow> tstat u t = RT_THREAD_READY"
    using resume_effect [OF K t] by blast
  obtain s' where s': "rt_schedule u = Some s'" "kinv s'" "live s'" using schedule_total [OF u(2,3)] by blast
  then show ?thesis using u rt_schedule_fields(1) [OF s'(1)] utils_schedule [OF s'(1)] by simp
qed

lemma work_append_frame: "kinv (work_append q w (work_remove w s)) = kinv s" "live (work_append q w (work_remove w s)) = live s"
  "is_thread t (work_append q w (work_remove w s)) = is_thread t s"
  by (simp_all add: live_def is_thread_def rt_object_get_type_def)

lemma dowork_effect:
  assumes K: "kinv s" "live s" and W: "works_ok s" and t: "is_thread (work_thread (workqueues s q)) s"
    and c: "work_current (workqueues s q) \<noteq> Some w"
  shows "\<exists>s'. rt_workqueue_dowork q w s = Some (RT_EOK, s') \<and> kinv s' \<and> live s' \<and> works_ok s' \<and>
     (\<forall>r. work_list (workqueues s' r) = (if r = q then removeAll w (work_list (workqueues s q)) @ [w] else removeAll w (work_list (workqueues s r)))) \<and>
     (work_current (workqueues s q) = None \<and> tstat s (work_thread (workqueues s q)) = RT_THREAD_SUSPEND \<longrightarrow>
        tstat s' (work_thread (workqueues s q)) = RT_THREAD_READY)"
proof -
  let ?u = "work_append q w (work_remove w s)" and ?t = "work_thread (workqueues s q)"
  have U: "kinv ?u" "live ?u" "is_thread ?t ?u" "works_ok ?u"
    using K t works_ok_append [OF W c] by (simp_all add: work_append_frame)
  have l: "work_list (workqueues ?u r) = (if r = q then removeAll w (work_list (workqueues s q)) @ [w] else removeAll w (work_list (workqueues s r)))" for r
    using work_remove_list [OF W] by simp
  show ?thesis
  proof (cases "work_current (workqueues s q)")
    case None
    obtain e v s' where s': "rt_thread_resume ?t ?u = Some (e, v)" "rt_schedule v = Some s'" "kinv s'" "live s'" "utils s' = utils ?u"
      "tstat ?u ?t = RT_THREAD_SUSPEND \<longrightarrow> tstat s' ?t = RT_THREAD_READY"
      using resume_schedule_effect [OF U(1-3)] by blast
    then have "rt_workqueue_dowork q w s = Some (RT_EOK, s')" using None by (simp add: rt_workqueue_dowork_def Let_def)
    then show ?thesis using s' U(4) works_ok_cong [OF s'(5)] utilsD(3) [OF s'(5)] l None by auto
  next
    case (Some w')
    then have "rt_workqueue_dowork q w s = Some (RT_EOK, ?u)" using c by (simp add: rt_workqueue_dowork_def Let_def)
    then show ?thesis using U l Some by auto
  qed
qed

lemma cancel_effect:
  assumes "works_ok s" and "work_current (workqueues s q) \<noteq> Some w"
  shows "\<exists>s'. rt_workqueue_cancel_work q w s = (RT_EOK, s') \<and> works_ok s' \<and>
     (\<forall>r. work_list (workqueues s' r) = removeAll w (work_list (workqueues s r)))"
  using assms works_ok_remove work_remove_list by (auto simp: rt_workqueue_cancel_work_def)

lemma worker_take_effect:
  assumes W: "works_ok s" and l: "work_list (workqueues s q) = v # vs"
  shows "\<exists>s'. worker_take q s = Some (v, s') \<and> works_ok s' \<and> work_list (workqueues s' q) = vs \<and> work_current (workqueues s' q) = Some v"
proof -
  have r: "worker_take q s = Some (v, upd_wq q (\<lambda>x. x\<lparr>work_current := Some v\<rparr>) (work_remove v s))" using l by (simp add: worker_take_def)
  have "distinct (v # vs)" using W l by (metis works_ok_def)
  then show ?thesis using l r works_ok_take [OF W r] work_remove_list [OF W] by simp
qed

text \<open>C19: The calls on a work queue. Queueing a work puts it behind all others, moves it when it is queued already, on this or
  on another queue, and makes the idle thread of the queue ready; cancelling takes it off. Both refuse the work that is
  being done with \<^verbatim>\<open>-RT_EBUSY\<close> and change nothing. The thread takes the first work of the list. The lists stay in order:
  no work is on two lists or twice on one, and the work being done is not queued.\<close>

theorem workqueue_calls:
  assumes K: "kinv s" "live s" and W: "works_ok s" and t: "is_thread (work_thread (workqueues s q)) s"
  shows "(if work_current (workqueues s q) = Some w
     then rt_workqueue_dowork q w s = Some (- RT_EBUSY, s) \<and> rt_workqueue_cancel_work q w s = (- RT_EBUSY, s)
     else (\<exists>s'. rt_workqueue_dowork q w s = Some (RT_EOK, s') \<and> kinv s' \<and> works_ok s' \<and>
         (\<forall>r. work_list (workqueues s' r) = (if r = q then removeAll w (work_list (workqueues s q)) @ [w] else removeAll w (work_list (workqueues s r)))) \<and>
         (work_current (workqueues s q) = None \<and> tstat s (work_thread (workqueues s q)) = RT_THREAD_SUSPEND \<longrightarrow>
            tstat s' (work_thread (workqueues s q)) = RT_THREAD_READY)) \<and>
       (\<exists>s'. rt_workqueue_cancel_work q w s = (RT_EOK, s') \<and> works_ok s' \<and>
         (\<forall>r. work_list (workqueues s' r) = removeAll w (work_list (workqueues s r))))) \<and>
     (case work_list (workqueues s q) of
       [] \<Rightarrow> worker_idle q s
     | v # vs \<Rightarrow> \<exists>s'. worker_take q s = Some (v, s') \<and> works_ok s' \<and> work_list (workqueues s' q) = vs \<and> work_current (workqueues s' q) = Some v)"
proof (rule conjI, goal_cases)
  case 1
  show ?case
  proof (cases "work_current (workqueues s q) = Some w")
    case False
    show ?thesis unfolding if_not_P [OF False]
      using dowork_effect [OF K W t False] cancel_effect [OF W False] by (intro conjI; blast)
  qed (simp add: rt_workqueue_dowork_def rt_workqueue_cancel_work_def)
next
  case 2
  show ?case using worker_take_effect [OF W, of q] by (cases "work_list (workqueues s q)") (simp_all add: worker_idle_def)
qed

lemma sample_works: "works_ok sample" "is_thread (work_thread (workqueues sample 60)) sample"
proof -
  have "works_ok sample_base" by (simp add: works_ok_def sample_base_def)
  then show "works_ok sample" using works_ok_cong [OF sample_utils] by simp
  have "work_thread (workqueues sample 60) = 3" using utilsD(3) [OF sample_utils] by (simp add: sample_base_def)
  then show "is_thread (work_thread (workqueues sample 60)) sample" using kinv_thread(1) [OF sample_kinv, of 3] by (simp add: sample_stat)
qed

theorem workqueue_calls_witness:
  "(if work_current (workqueues sample 60) = Some 7
     then rt_workqueue_dowork 60 7 sample = Some (- RT_EBUSY, sample) \<and> rt_workqueue_cancel_work 60 7 sample = (- RT_EBUSY, sample)
     else (\<exists>s'. rt_workqueue_dowork 60 7 sample = Some (RT_EOK, s') \<and> kinv s' \<and> works_ok s' \<and>
         (\<forall>r. work_list (workqueues s' r) = (if r = 60 then removeAll 7 (work_list (workqueues sample 60)) @ [7] else removeAll 7 (work_list (workqueues sample r)))) \<and>
         (work_current (workqueues sample 60) = None \<and> tstat sample (work_thread (workqueues sample 60)) = RT_THREAD_SUSPEND \<longrightarrow>
            tstat s' (work_thread (workqueues sample 60)) = RT_THREAD_READY)) \<and>
       (\<exists>s'. rt_workqueue_cancel_work 60 7 sample = (RT_EOK, s') \<and> works_ok s' \<and>
         (\<forall>r. work_list (workqueues s' r) = removeAll 7 (work_list (workqueues sample r))))) \<and>
     (case work_list (workqueues sample 60) of
       [] \<Rightarrow> worker_idle 60 sample
     | v # vs \<Rightarrow> \<exists>s'. worker_take 60 sample = Some (v, s') \<and> works_ok s' \<and> work_list (workqueues s' 60) = vs \<and> work_current (workqueues s' 60) = Some v)"
  by (rule workqueue_calls [OF sample_kinv sample_live sample_works])

subsection \<open>The end of a work\<close>

lemma exit_critical_effect:
  assumes K: "kinv u" "live u"
  shows "\<exists>s'. rt_exit_critical u = Some s' \<and> kinv s' \<and> live s' \<and> threads s' = threads u \<and> tlists s' = tlists u \<and> sems s' = sems u"
proof -
  have K': "kinv (u\<lparr>lock_nest := n\<rparr>)" "live (u\<lparr>lock_nest := n\<rparr>)" for n
    using K kinv_cong [of "u\<lparr>lock_nest := n\<rparr>" u] by (simp_all add: live_def)
  show ?thesis
  proof (cases "sint (lock_nest u - 1) \<le> 0")
    case True
    obtain s' where s': "rt_schedule (u\<lparr>lock_nest := 0\<rparr>) = Some s'" "kinv s'" "live s'" using schedule_total [OF K'] by blast
    then show ?thesis using rt_schedule_fields [OF s'(1)] True K(2) by (simp add: rt_exit_critical_def live_def)
  next
    case False
    then show ?thesis using K' by (simp add: rt_exit_critical_def)
  qed
qed

lemma completion_loop_wakes:
  assumes "kinv s" "live s" and "obj_class a s = RT_Object_Class_Semaphore" "sem_value (sems s a) = 0" "lock_nest s \<noteq> 0"
  shows "\<exists>s'. completion_loop a s = Some (RT_EOK, s') \<and> kinv s' \<and> live s' \<and> tlists s' (SemQ a) = [] \<and> sem_value (sems s' a) = 0 \<and>
     lock_nest s' = lock_nest s \<and> (\<forall>t. t \<in> set (tlists s (SemQ a)) \<or> tstat s t = RT_THREAD_READY \<longrightarrow> tstat s' t = RT_THREAD_READY)"
  using assms
proof (induction "tlists s (SemQ a)" arbitrary: s)
  case Nil
  let ?s = "upd_sem a (\<lambda>v. v - 1) (upd_sem a (\<lambda>v. v + 1) s)"
  have "completion_loop a s = completion_loop a (upd_sem a (\<lambda>v. v + 1) s)"
    using Nil by (subst completion_loop.simps) (simp add: rt_sem_trytake_def rt_sem_take_def rt_sem_release_def)
  also have "\<dots> = Some (RT_EOK, ?s)"
    using Nil by (subst completion_loop.simps) (simp add: rt_sem_trytake_def rt_sem_take_def obj_class_def rt_object_get_type_def)
  finally show ?case using Nil by (intro exI [of _ ?s]) (simp add: live_def)
next
  case (Cons t ts)
  note w = rt_ipc_list_resume_eq [OF Cons.prems(1) _ Cons.hyps(2) [symmetric], simplified]
  have c: "obj_class a (resumed t s) = RT_Object_Class_Semaphore" using Cons.prems(3) obj_class_cong [of "resumed t s" s a] by simp
  have st: "tstat (resumed t s) u = (if u = t then RT_THREAD_READY else tstat s u)" for u by simp
  have "completion_loop a s = completion_loop a (resumed t s)"
    using Cons.prems w(1) Cons.hyps(2) [symmetric] rt_schedule_locked [of "resumed t s"]
    by (subst completion_loop.simps) (simp add: rt_sem_trytake_def rt_sem_take_def rt_sem_release_def)
  moreover obtain s' where "completion_loop a (resumed t s) = Some (RT_EOK, s')" "kinv s'" "live s'" "tlists s' (SemQ a) = []"
    "sem_value (sems s' a) = 0" "lock_nest s' = lock_nest s"
    "\<forall>u. u \<in> set ts \<or> tstat (resumed t s) u = RT_THREAD_READY \<longrightarrow> tstat s' u = RT_THREAD_READY"
    using Cons.hyps(1) [of "resumed t s"] w(2,3) live_resumed [OF Cons.prems(2) w(4)] c Cons.prems(4,5) by auto
  ultimately show ?case using Cons.hyps(2) [symmetric] st by auto
qed

text \<open>C18: When a work is done the thread of its queue wakes every thread that waits for it in
  \<^verbatim>\<open>rt_workqueue_cancel_work_sync\<close>, however many there are; the loop around the semaphore always ends, and it leaves the
  semaphore at 0.\<close>

theorem workqueue_completion:
  assumes K: "kinv s" "live s" and a: "a = wq_sem (workqueues s q)"
    and ty: "obj_class a s = RT_Object_Class_Semaphore" and v: "sem_value (sems s a) = 0" and n: "lock_nest s < 0x7FFF"
  shows "\<exists>s'. workqueue_work_completion q s = Some (RT_EOK, s') \<and> kinv s' \<and> live s' \<and> tlists s' (SemQ a) = [] \<and>
     sem_value (sems s' a) = 0 \<and> (\<forall>t \<in> set (tlists s (SemQ a)). tstat s' t = RT_THREAD_READY)"
proof -
  let ?s = "rt_enter_critical s"
  have "unat (lock_nest s + 1) = Suc (unat (lock_nest s))" using n by (simp add: unat_word_ariths word_less_nat_alt)
  then have nz: "lock_nest s + 1 \<noteq> 0" by (metis nat.distinct(1) unat_0)
  have ty': "obj_class a ?s = RT_Object_Class_Semaphore" using ty by (simp add: rt_enter_critical_def obj_class_def rt_object_get_type_def)
  have K': "kinv ?s" "live ?s" using K kinv_cong [of ?s s] by (simp_all add: rt_enter_critical_def live_def)
  obtain u where u: "completion_loop a ?s = Some (RT_EOK, u)" "kinv u" "live u" "tlists u (SemQ a) = []" "sem_value (sems u a) = 0"
    "\<forall>t \<in> set (tlists s (SemQ a)). tstat u t = RT_THREAD_READY"
    using completion_loop_wakes [OF K' ty'] v nz by (auto simp: rt_enter_critical_def)
  obtain s' where "rt_exit_critical u = Some s'" "kinv s'" "live s'" "threads s' = threads u" "tlists s' = tlists u" "sems s' = sems u"
    using exit_critical_effect [OF u(2,3)] by blast
  then show ?thesis using u a by (simp add: workqueue_work_completion_def Let_def rt_enter_critical_def)
qed

theorem workqueue_completion_witness:
  "\<exists>s'. workqueue_work_completion 60 (upd_wq 60 (\<lambda>x. x\<lparr>wq_sem := 20\<rparr>) sample) = Some (RT_EOK, s') \<and> kinv s' \<and> live s' \<and>
     tlists s' (SemQ 20) = [] \<and> sem_value (sems s' 20) = 0 \<and>
     (\<forall>t \<in> set (tlists (upd_wq 60 (\<lambda>x. x\<lparr>wq_sem := 20\<rparr>) sample) (SemQ 20)). tstat s' t = RT_THREAD_READY)"
proof -
  have "live (upd_wq 60 (\<lambda>x. x\<lparr>wq_sem := 20\<rparr>) sample)" using sample_live by (simp add: live_def)
  moreover have "obj_class 20 (upd_wq 60 (\<lambda>x. x\<lparr>wq_sem := 20\<rparr>) sample) = RT_Object_Class_Semaphore"
    using sample_class(1) unfolding obj_class_def rt_object_get_type_def by simp
  ultimately show ?thesis
    by (intro workqueue_completion) (simp_all add: sample_kinv sample_base_def)
qed

text \<open>Two interleavings that the work queue does not survive, on the sample kernel with thread 2 as the thread of the queue 60.
  In the first the thread sleeps, a thread of higher priority queues a work, which makes the thread of the queue ready, and
  cancels it again before that thread runs: it then takes a work off the empty list. In the second a work is queued by an
  interrupt between the test for an empty list and the suspension: the thread goes to sleep with a work in its list, and
  nothing will wake it for this work.\<close>

theorem workqueue_races:
  "let s = upd_wq 60 (\<lambda>x. x\<lparr>work_thread := 2\<rparr>) sample;
       cancelled = [Thread (Sleep 5), Workqueue Worker_Sleep, Tick, Tick, Tick, Tick, Tick, Thread Sleep_Wake,
         Workqueue (Work_Do 60 7), Workqueue (Work_Cancel 60 7), Thread (Sleep 5)];
       interrupted = [Thread (Sleep 5), Workqueue (Work_Do 60 7), Workqueue Worker_Sleep] in
   map_option (\<lambda>s. (cur_thread s, work_list (workqueues s 60))) (run (sys_step quiet_app) cancelled s) = Some (Some 2, []) \<and>
   run (sys_step quiet_app) (cancelled @ [Workqueue (Worker_Take 60)]) s = None \<and>
   map_option (\<lambda>s. (cur_thread s, worker_idle 60 s)) (run (sys_step quiet_app) [Thread (Sleep 5)] s) = Some (Some 2, True) \<and>
   map_option (\<lambda>s. (tstat s 2, on_list s 2, TTimer 2 \<in> set (timer_list s), work_list (workqueues s 60)))
     (run (sys_step quiet_app) interrupted s) = Some (RT_THREAD_SUSPEND, None, False, [7])"
  by code_simp

subsection \<open>Wait queues\<close>

lemma nodes_ok_cong: "utils s' = utils s \<Longrightarrow> nodes_ok s' = nodes_ok s"
  by (simp add: nodes_ok_def utils_def)

lemma wakeup_loop_find:
  "wakeup_loop wk key ns s =
     (case List.find (node_wakes wk key s) ns of
        None \<Rightarrow> Some (False, s)
      | Some n \<Rightarrow> do { (_, s) \<leftarrow> rt_thread_resume (polling_thread (wait_nodes s n)) s; Some (True, rt_wqueue_remove n s) })"
  by (induction ns) simp_all

text \<open>A wake-up on a queue whose nodes stand for threads: the flag is set, and the first node whose function agrees is taken
  off and its thread, if it is suspended, made ready.\<close>

lemma wqueue_wakeup_effect:
  assumes K: "kinv s" "live s" and N: "nodes_ok s" and T: "\<And>n. n \<in> set (waiting_list (wqueues s q)) \<Longrightarrow> is_thread (polling_thread (wait_nodes s n)) s"
  shows "\<exists>s'. rt_wqueue_wakeup wk q key s = Some s' \<and> kinv s' \<and> live s' \<and> nodes_ok s' \<and> wqueue_flag (wqueues s' q) = RT_WQ_FLAG_WAKEUP \<and>
     irq_nest s' = irq_nest s \<and> (case List.find (node_wakes wk key s) (waiting_list (wqueues s q)) of
        None \<Rightarrow> waiting_list (wqueues s' q) = waiting_list (wqueues s q) \<and> threads s' = threads s
      | Some n \<Rightarrow> waiting_list (wqueues s' q) = removeAll n (waiting_list (wqueues s q)) \<and>
          (tstat s (polling_thread (wait_nodes s n)) = RT_THREAD_SUSPEND \<longrightarrow> runnable (polling_thread (wait_nodes s n)) s'))"
proof -
  let ?u = "upd_wqueue q (\<lambda>w. w\<lparr>wqueue_flag := RT_WQ_FLAG_WAKEUP\<rparr>) s" and ?ns = "waiting_list (wqueues s q)"
  have U: "kinv ?u" "live ?u" "nodes_ok ?u" "wqueue_flag (wqueues ?u q) = 1" "waiting_list (wqueues ?u q) = ?ns"
    using K N by (auto simp: live_def nodes_ok_def)
  have g: "node_wakes wk key ?u = node_wakes wk key s" by (rule ext) (simp add: node_wakes_def)
  show ?thesis
  proof (cases "List.find (node_wakes wk key s) ?ns")
    case None
    then have "rt_wqueue_wakeup wk q key s = Some ?u" by (simp add: rt_wqueue_wakeup_def Let_def wakeup_loop_find g)
    then show ?thesis using U None by (intro exI [of _ ?u]) simp
  next
    case (Some n)
    let ?t = "polling_thread (wait_nodes s n)"
    have "is_thread ?t ?u" using T [of n] Some by (auto simp: find_Some_iff is_thread_def rt_object_get_type_def)
    then obtain e v where v: "rt_thread_resume ?t ?u = Some (e, v)" "kinv v" "live v" "utils v = utils ?u" "irq_nest v = irq_nest s"
      "tstat ?u ?t = RT_THREAD_SUSPEND \<longrightarrow> tstat v ?t = RT_THREAD_READY"
      using resume_effect [OF U(1,2)] upd_wqueue_fields(10) by metis
    let ?r = "rt_wqueue_remove n v"
    have r: "kinv ?r" "live ?r" using v(2,3) by (simp_all add: live_def)
    obtain s' where s': "rt_schedule ?r = Some s'" "kinv s'" "live s'" using schedule_total [OF r] by blast
    have "rt_wqueue_wakeup wk q key s = Some s'" using Some v(1) s'(1) by (simp add: rt_wqueue_wakeup_def Let_def wakeup_loop_find g)
    moreover have "nodes_ok s'" "waiting_list (wqueues s' q) = removeAll n ?ns" "wqueue_flag (wqueues s' q) = 1"
      using nodes_ok_remove [of v n] nodes_ok_cong [OF v(4)] nodes_ok_cong [OF utils_schedule [OF s'(1)]] U(3-5)
        utilsD(5) [OF v(4)] utilsD(5) [OF utils_schedule [OF s'(1)]] by simp_all
    moreover have "tstat s ?t = RT_THREAD_SUSPEND \<longrightarrow> runnable ?t s'"
      using v(6) rt_schedule_fields(1) [OF s'(1)] runnableI [OF s'(2), of ?t] by simp
    moreover have "irq_nest s' = irq_nest s" using v(5) rt_schedule_fields [OF s'(1)] by simp
    ultimately show ?thesis using Some s' by simp
  qed
qed

lemma wait_ticks:
  assumes "rt_tick_from_millisecond ms \<noteq> 0" and "rt_tick_from_millisecond ms \<noteq> RT_WAITING_FOREVER"
  shows "rt_tick_from_millisecond ms < HALF_TICK"
proof -
  have "0 \<le> sint ms" using assms(2) by (auto simp: rt_tick_from_millisecond_def split: if_splits)
  moreover have "sint ms < 2147483648" using sint_lt [of ms] by simp
  ultimately have "unat ms < 2147483648" using sint_nonneg_unat [of ms] by linarith
  then have "10 * unat (rt_tick_from_millisecond ms) < 2 ^ 31 + 10"
    using tick_from_millisecond_bounds [of ms] \<open>0 \<le> sint ms\<close> by (simp split: if_splits)
  then show ?thesis by (simp add: word_less_nat_alt)
qed

text \<open>The caller sleeps: it is suspended, off all lists of threads, and its timer runs unless it waits for ever.\<close>

lemma wqueue_sleep_blocks:
  assumes C: "can_block t s" and N: "nodes_ok s" and n: "node_on s n = None" and w: "wait = RT_WAITING_FOREVER \<or> wait < HALF_TICK"
  shows "\<exists>s'. wqueue_sleep q n t wait s = Some (Blocked, s') \<and> kinv s' \<and> live s' \<and> cur_thread s' \<noteq> Some t \<and> nodes_ok s' \<and>
     tstat s' t = RT_THREAD_SUSPEND \<and> waiting_list (wqueues s' q) = waiting_list (wqueues s q) @ [n] \<and>
     wait_nodes s' = wait_nodes s \<and> wqueue_flag (wqueues s' q) = wqueue_flag (wqueues s q) \<and>
     (wait \<noteq> RT_WAITING_FOREVER \<longrightarrow> TTimer t \<in> set (timer_list s')) \<and> (\<forall>u. is_thread u s' = is_thread u s)"
proof -
  let ?a = "(upd_wqueue q (\<lambda>w. w\<lparr>waiting_list := waiting_list w @ [n]\<rparr>) s)\<lparr>node_on := (node_on s)(n := Some q)\<rparr>"
  have a: "rt_wqueue_add q n s = Some ?a" using n by (simp add: rt_wqueue_add_def)
  have "live ?a" using can_blockD(2) [OF C] by (simp add: live_def)
  then have C': "can_block t ?a" using C by (simp add: can_block_def)
  let ?u = "upd_timer (TTimer t) (\<lambda>tm. tm\<lparr>tm_init_tick := wait\<rparr>) (suspended t ?a)"
  let ?v = "if wait \<noteq> RT_WAITING_FOREVER then armed (TTimer t) ?u else suspended t ?a"
  have K: "kinv (suspended t ?a)" by (rule kinv_suspended [OF can_blockD(1,6) [OF C']])
  have st: "tstat (suspended t ?a) t = RT_THREAD_SUSPEND" "tstat ?u t = RT_THREAD_SUSPEND" by (simp_all add: upd_timer_def)
  have k: "kinv ?u" by (rule kinv_upd_timer [OF K]) simp
  have L: "live ?v" using C' unfolding can_block_def live_def by (auto simp: upd_timer_def)
  have "kinv ?v" using K kinv_armed [OF k st(2)] by simp
  then obtain s' where s': "rt_schedule ?v = Some s'" "kinv s'" "live s'" "switched ?v s'" using schedule_switched L by blast
  note f = rt_schedule_fields [OF s'(1)]
  have start: "rt_timer_start (TTimer t) ?u = Some (RT_EOK, armed (TTimer t) ?u)" if "wait \<noteq> RT_WAITING_FOREVER"
    by (rule rt_timer_start_thread [OF k st(2)]) (use w that in \<open>simp add: upd_timer_def\<close>)
  have tm: "(if wait \<noteq> RT_WAITING_FOREVER then do {
      (_, s) \<leftarrow> rt_timer_control (TTimer t) Set_Time wait (suspended t ?a); (_, s) \<leftarrow> rt_timer_start (TTimer t) s; Some s }
    else Some (suspended t ?a)) = Some ?v"
    using start kinv_thread(2) [OF K] st(1) by (simp add: rt_timer_control_def)
  have v: "tstat ?v t = RT_THREAD_SUSPEND" "lock_nest ?v = 0" using st can_blockD(5) [OF C] by simp_all
  have st': "tstat s' t = RT_THREAD_SUSPEND" using v(1) by (simp only: f(1))
  have c: "cur_thread s' \<noteq> Some t"
    using s'(4) v(2) st' unfolding switched_def top_ready_def by (auto simp del: if_split)
  have "wqueue_sleep q n t wait s = Some (Blocked, s')"
    using a rt_thread_suspend_eq [OF can_blockD(1,6) [OF C']] tm s'(1) c by (simp add: wqueue_sleep_def)
  moreover have u: "utils s' = utils ?a" using utils_schedule [OF s'(1)] by simp
  moreover have "nodes_ok s'" using nodes_ok_cong [OF u] nodes_ok_add(1) [OF N a] by simp
  moreover have "waiting_list (wqueues s' q) = waiting_list (wqueues s q) @ [n]" "wait_nodes s' = wait_nodes s"
    "wqueue_flag (wqueues s' q) = wqueue_flag (wqueues s q)"
    using utilsD(5,6) [OF u] by simp_all
  moreover have "TTimer t \<in> set (timer_list s')" if "wait \<noteq> RT_WAITING_FOREVER" using that by (simp add: f(8))
  moreover have "is_thread u s' = is_thread u s" for u using f(6) by (simp add: is_thread_def rt_object_get_type_def upd_wqueue_def)
  ultimately show ?thesis using s'(2,3) c st' by blast
qed

lemma wait_after_wakeup:
  assumes "live s" and "irq_nest s = 0" and "node_on s n = None" and "wqueue_flag (wqueues s q) = RT_WQ_FLAG_WAKEUP"
    and "rt_tick_from_millisecond ms \<noteq> 0"
  shows "\<exists>s'. rt_wqueue_wait q n False ms s = Some (Ret 0, s') \<and> wqueue_flag (wqueues s' q) = RT_WQ_FLAG_CLEAN \<and>
     threads s' = threads s \<and> cur_thread s' = cur_thread s"
  using assms by (auto simp: rt_wqueue_wait_def not_in_interrupt_def Let_def live_def rt_wqueue_wait_wake_def)

text \<open>C20: A wake-up of a wait queue is not lost, on a running kernel outside of interrupts, with the scheduler
  unlocked and another thread ready, where the nodes of the queue stand
  for threads. When it comes first, it sets the flag, and the next wait of the running thread, with a node that is on no
  queue and a time that is not zero ticks, returns 0 at once, uses the wake-up up (the flag is clear again) and suspends
  nobody. When a thread waits on a queue whose flag is clear, with a limit or for ever, it is suspended, gives up the
  processor and has its node at the end of the queue; a wake-up then sets the flag and takes the first node off whose
  function agrees; the thread of that node, when it was suspended, is ready, in its ready queue with its timer stopped. When
  it is the node of the caller, the wait returns 0 and the flag is clear again.\<close>

theorem wqueue_handshake:
  assumes C: "can_block t s" and N: "nodes_ok s" and n: "node_on s n = None" and tick: "rt_tick_from_millisecond ms \<noteq> 0"
    and T: "\<forall>m \<in> set (waiting_list (wqueues s q)). is_thread (polling_thread (wait_nodes s m)) s"
  shows "(\<exists>s0. rt_wqueue_wakeup wk q key s = Some s0 \<and> wqueue_flag (wqueues s0 q) = RT_WQ_FLAG_WAKEUP \<and>
       (\<forall>k. node_on s0 k = None \<longrightarrow> (\<exists>s'. rt_wqueue_wait q k False ms s0 = Some (Ret 0, s') \<and>
          wqueue_flag (wqueues s' q) = RT_WQ_FLAG_CLEAN \<and> threads s' = threads s0 \<and> cur_thread s' = cur_thread s0))) \<and>
     (if wqueue_flag (wqueues s q) = RT_WQ_FLAG_WAKEUP
     then \<exists>s'. rt_wqueue_wait q n False ms s = Some (Ret 0, s') \<and> wqueue_flag (wqueues s' q) = RT_WQ_FLAG_CLEAN
     else \<exists>s1 s2 m. rt_wqueue_wait q n False ms s = Some (Blocked, s1) \<and> cur_thread s1 \<noteq> Some t \<and> tstat s1 t = RT_THREAD_SUSPEND \<and>
       waiting_list (wqueues s1 q) = waiting_list (wqueues s q) @ [n] \<and>
       rt_wqueue_wakeup wk q key s1 = Some s2 \<and> kinv s2 \<and> nodes_ok s2 \<and> wqueue_flag (wqueues s2 q) = RT_WQ_FLAG_WAKEUP \<and>
       List.find (node_wakes wk key s1) (waiting_list (wqueues s1 q)) = Some m \<and>
       waiting_list (wqueues s2 q) = removeAll m (waiting_list (wqueues s q) @ [n]) \<and>
       (tstat s1 (polling_thread (wait_nodes s1 m)) = RT_THREAD_SUSPEND \<longrightarrow> runnable (polling_thread (wait_nodes s1 m)) s2) \<and>
       (m = n \<longrightarrow> runnable t s2 \<and>
         (\<exists>s3. rt_wqueue_wait_wake q n s2 = (Ret 0, s3) \<and> wqueue_flag (wqueues s3 q) = RT_WQ_FLAG_CLEAN)))"
proof
  have i: "irq_nest s = 0" "live s" "kinv s" using C by (simp_all add: can_block_def)
  obtain s0 where s0: "rt_wqueue_wakeup wk q key s = Some s0" "live s0" "wqueue_flag (wqueues s0 q) = 1" "irq_nest s0 = 0"
    using wqueue_wakeup_effect [OF i(3,2) N, where q = q and wk = wk and key = key] T i(1) by auto
  then show "\<exists>s0. rt_wqueue_wakeup wk q key s = Some s0 \<and> wqueue_flag (wqueues s0 q) = RT_WQ_FLAG_WAKEUP \<and>
       (\<forall>k. node_on s0 k = None \<longrightarrow> (\<exists>s'. rt_wqueue_wait q k False ms s0 = Some (Ret 0, s') \<and>
          wqueue_flag (wqueues s' q) = RT_WQ_FLAG_CLEAN \<and> threads s' = threads s0 \<and> cur_thread s' = cur_thread s0))"
    using wait_after_wakeup [OF s0(2,4) _ s0(3) tick] by blast
  let ?w = "s\<lparr>wait_nodes := (wait_nodes s)(n := \<lparr>polling_thread = t, node_wakeup = Default_Wake\<rparr>)\<rparr>"
  have wait: "rt_wqueue_wait q n False ms s =
      (if wqueue_flag (wqueues s q) = 1 then Some (rt_wqueue_wait_wake q n ?w) else wqueue_sleep q n t (rt_tick_from_millisecond ms) ?w)"
    using C n tick by (simp add: rt_wqueue_wait_def can_block_def not_in_interrupt_def Let_def)
  show "if wqueue_flag (wqueues s q) = RT_WQ_FLAG_WAKEUP
     then \<exists>s'. rt_wqueue_wait q n False ms s = Some (Ret 0, s') \<and> wqueue_flag (wqueues s' q) = RT_WQ_FLAG_CLEAN
     else \<exists>s1 s2 m. rt_wqueue_wait q n False ms s = Some (Blocked, s1) \<and> cur_thread s1 \<noteq> Some t \<and> tstat s1 t = RT_THREAD_SUSPEND \<and>
       waiting_list (wqueues s1 q) = waiting_list (wqueues s q) @ [n] \<and>
       rt_wqueue_wakeup wk q key s1 = Some s2 \<and> kinv s2 \<and> nodes_ok s2 \<and> wqueue_flag (wqueues s2 q) = RT_WQ_FLAG_WAKEUP \<and>
       List.find (node_wakes wk key s1) (waiting_list (wqueues s1 q)) = Some m \<and>
       waiting_list (wqueues s2 q) = removeAll m (waiting_list (wqueues s q) @ [n]) \<and>
       (tstat s1 (polling_thread (wait_nodes s1 m)) = RT_THREAD_SUSPEND \<longrightarrow> runnable (polling_thread (wait_nodes s1 m)) s2) \<and>
       (m = n \<longrightarrow> runnable t s2 \<and>
         (\<exists>s3. rt_wqueue_wait_wake q n s2 = (Ret 0, s3) \<and> wqueue_flag (wqueues s3 q) = RT_WQ_FLAG_CLEAN))"
  proof (cases "wqueue_flag (wqueues s q) = 1")
    case True
    then show ?thesis using wait by (simp add: rt_wqueue_wait_wake_def)
  next
    case False
    have "live ?w" using can_blockD(2) [OF C] by (simp add: live_def)
    then have W: "can_block t ?w" "nodes_ok ?w" "node_on ?w n = None" using C N n by (simp_all add: can_block_def nodes_ok_def)
    have tk: "rt_tick_from_millisecond ms = RT_WAITING_FOREVER \<or> rt_tick_from_millisecond ms < HALF_TICK" using wait_ticks [OF tick] by blast
    obtain s1 where s1: "wqueue_sleep q n t (rt_tick_from_millisecond ms) ?w = Some (Blocked, s1)" "kinv s1" "live s1" "nodes_ok s1"
      "cur_thread s1 \<noteq> Some t" "tstat s1 t = RT_THREAD_SUSPEND" "waiting_list (wqueues s1 q) = waiting_list (wqueues s q) @ [n]"
      "wait_nodes s1 = wait_nodes ?w" "\<forall>u. is_thread u s1 = is_thread u ?w"
      using wqueue_sleep_blocks [OF W tk, of q] by auto
    have p: "polling_thread (wait_nodes s1 n) = t" "node_wakes wk key s1 n" using s1(8) by (simp_all add: node_wakes_def)
    have T1: "is_thread (polling_thread (wait_nodes s1 m)) s1" if "m \<in> set (waiting_list (wqueues s1 q))" for m
      using that T s1(7,8,9) kinv_thread(1) [OF can_blockD(1) [OF C], of t] can_blockD(6) [OF C]
      by (auto simp: is_thread_def rt_object_get_type_def)
    obtain m where m: "List.find (node_wakes wk key s1) (waiting_list (wqueues s1 q)) = Some m"
      using p(2) s1(7) by (cases "List.find (node_wakes wk key s1) (waiting_list (wqueues s1 q))") (auto simp: find_None_iff)
    obtain s2 where s2: "rt_wqueue_wakeup wk q key s1 = Some s2" "kinv s2" "nodes_ok s2" "wqueue_flag (wqueues s2 q) = 1"
      "waiting_list (wqueues s2 q) = removeAll m (waiting_list (wqueues s1 q))"
      "tstat s1 (polling_thread (wait_nodes s1 m)) = RT_THREAD_SUSPEND \<longrightarrow> runnable (polling_thread (wait_nodes s1 m)) s2"
      using wqueue_wakeup_effect [OF s1(2-4) T1, where q = q and wk = wk and key = key] m by auto
    show ?thesis
      using wait False s1(1,5-7) s2 m p(1) by (intro if_not_P [THEN iffD2, OF False] exI [of _ s1] exI [of _ s2] exI [of _ m])
        (auto simp: rt_wqueue_wait_wake_def)
  qed
qed

theorem wqueue_handshake_witness:
  "(\<exists>s0. rt_wqueue_wakeup (\<lambda>_ _ _. 0) 50 0 sample = Some s0 \<and> wqueue_flag (wqueues s0 50) = RT_WQ_FLAG_WAKEUP \<and>
       (\<forall>k. node_on s0 k = None \<longrightarrow> (\<exists>s'. rt_wqueue_wait 50 k False 20 s0 = Some (Ret 0, s') \<and>
          wqueue_flag (wqueues s' 50) = RT_WQ_FLAG_CLEAN \<and> threads s' = threads s0 \<and> cur_thread s' = cur_thread s0))) \<and>
     (if wqueue_flag (wqueues sample 50) = RT_WQ_FLAG_WAKEUP
     then \<exists>s'. rt_wqueue_wait 50 5 False 20 sample = Some (Ret 0, s') \<and> wqueue_flag (wqueues s' 50) = RT_WQ_FLAG_CLEAN
     else \<exists>s1 s2 m. rt_wqueue_wait 50 5 False 20 sample = Some (Blocked, s1) \<and> cur_thread s1 \<noteq> Some 1 \<and> tstat s1 1 = RT_THREAD_SUSPEND \<and>
       waiting_list (wqueues s1 50) = waiting_list (wqueues sample 50) @ [5] \<and>
       rt_wqueue_wakeup (\<lambda>_ _ _. 0) 50 0 s1 = Some s2 \<and> kinv s2 \<and> nodes_ok s2 \<and> wqueue_flag (wqueues s2 50) = RT_WQ_FLAG_WAKEUP \<and>
       List.find (node_wakes (\<lambda>_ _ _. 0) 0 s1) (waiting_list (wqueues s1 50)) = Some m \<and>
       waiting_list (wqueues s2 50) = removeAll m (waiting_list (wqueues sample 50) @ [5]) \<and>
       (tstat s1 (polling_thread (wait_nodes s1 m)) = RT_THREAD_SUSPEND \<longrightarrow> runnable (polling_thread (wait_nodes s1 m)) s2) \<and>
       (m = 5 \<longrightarrow> runnable 1 s2 \<and>
         (\<exists>s3. rt_wqueue_wait_wake 50 5 s2 = (Ret 0, s3) \<and> wqueue_flag (wqueues s3 50) = RT_WQ_FLAG_CLEAN)))"
proof (rule wqueue_handshake [OF sample_can_block])
  show "nodes_ok sample" using nodes_ok_cong [OF sample_utils] by (simp add: nodes_ok_def sample_base_def)
  show "node_on sample 5 = None" using utilsD(7) [OF sample_utils] by (simp add: sample_base_def)
  show "\<forall>m \<in> set (waiting_list (wqueues sample 50)). is_thread (polling_thread (wait_nodes sample m)) sample"
    using utilsD(5) [OF sample_utils] by (simp add: sample_base_def)
  show "rt_tick_from_millisecond 20 \<noteq> 0" by (simp add: rt_tick_from_millisecond_def)
qed

end
