(* ===== verification/Rt_Slist.thy ===== *)
theory Rt_Slist
  imports Prelude
begin

text \<open>
  The singly linked lists of \<^verbatim>\<open>kernel/include/rtservice.h\<close>. A store maps every node, the list heads among them, to its
  \<^verbatim>\<open>next\<close> pointer; \<open>None\<close> is \<^verbatim>\<open>RT_NULL\<close>. A search that never ends has no result.
\<close>

type_synonym 'n sl_heap = "'n \<Rightarrow> 'n option"

definition rt_slist_init :: "'n \<Rightarrow> 'n sl_heap \<Rightarrow> 'n sl_heap" where
  "rt_slist_init l nx = nx(l := None)"

partial_function (option) rt_slist_tail :: "'n sl_heap \<Rightarrow> 'n \<Rightarrow> 'n option" where
  "rt_slist_tail nx l = (case nx l of None \<Rightarrow> Some l | Some n \<Rightarrow> rt_slist_tail nx n)"

declare rt_slist_tail.simps [code]

definition rt_slist_append :: "'n \<Rightarrow> 'n \<Rightarrow> 'n sl_heap \<Rightarrow> 'n sl_heap option" where
  "rt_slist_append l n nx = do {
     node \<leftarrow> rt_slist_tail nx l;
     let nx = nx(node := Some n);
     Some (nx(n := None)) }"

definition rt_slist_insert :: "'n \<Rightarrow> 'n \<Rightarrow> 'n sl_heap \<Rightarrow> 'n sl_heap" where
  "rt_slist_insert l n nx = (let nx = nx(n := nx l) in nx(l := Some n))"

partial_function (option) slist_len_loop :: "'n sl_heap \<Rightarrow> 'n option \<Rightarrow> u32 \<Rightarrow> u32 option" where
  "slist_len_loop nx p len =
     (case p of None \<Rightarrow> Some len | Some n \<Rightarrow> slist_len_loop nx (nx n) (len + 1))"

declare slist_len_loop.simps [code]

definition rt_slist_len :: "'n \<Rightarrow> 'n sl_heap \<Rightarrow> u32 option" where
  "rt_slist_len l nx = slist_len_loop nx (nx l) 0"

text \<open>The node in front of \<open>n\<close>, or the last node when \<open>n\<close> is not on the list.\<close>

partial_function (option) slist_before :: "'n sl_heap \<Rightarrow> 'n \<Rightarrow> 'n \<Rightarrow> 'n option" where
  "slist_before nx n node =
     (case nx node of
        None \<Rightarrow> Some node
      | Some m \<Rightarrow> if m = n then Some node else slist_before nx n m)"

declare slist_before.simps [code]

definition rt_slist_remove :: "'n \<Rightarrow> 'n \<Rightarrow> 'n sl_heap \<Rightarrow> 'n sl_heap option" where
  "rt_slist_remove l n nx = do {
     node \<leftarrow> slist_before nx n l;
     Some (case nx node of None \<Rightarrow> nx | Some m \<Rightarrow> nx(node := nx m)) }"

definition rt_slist_first :: "'n \<Rightarrow> 'n sl_heap \<Rightarrow> 'n option" where
  "rt_slist_first l nx = nx l"

definition rt_slist_next :: "'n \<Rightarrow> 'n sl_heap \<Rightarrow> 'n option" where
  "rt_slist_next n nx = nx n"

definition rt_slist_isempty :: "'n \<Rightarrow> 'n sl_heap \<Rightarrow> bool" where
  "rt_slist_isempty l nx = (nx l = None)"

subsection \<open>Lists\<close>

text \<open>
  \<open>sl_seg nx l xs\<close>: following \<open>next\<close> from \<open>l\<close> leads through \<open>xs\<close>. \<open>slist nx l xs\<close>: these are all the nodes of the list
  \<open>l\<close>, and none is met twice.
\<close>

fun sl_seg :: "'n sl_heap \<Rightarrow> 'n \<Rightarrow> 'n list \<Rightarrow> bool" where
  "sl_seg nx l [] = True"
| "sl_seg nx l (x # xs) = (nx l = Some x \<and> sl_seg nx x xs)"

definition slist :: "'n sl_heap \<Rightarrow> 'n \<Rightarrow> 'n list \<Rightarrow> bool" where
  "slist nx l xs = (distinct (l # xs) \<and> sl_seg nx l xs \<and> nx (last (l # xs)) = None)"

lemma last_in_list: "last (l # xs) \<in> set (l # xs)"
  by (rule last_in_set) simp

lemma last_not_butlast:
  assumes "zs \<noteq> []" and "distinct zs"
  shows "last zs \<notin> set (butlast zs)"
proof -
  have "distinct (butlast zs @ [last zs])" using assms by simp
  then show ?thesis unfolding distinct_append by simp
qed

lemma sl_seg_append: "sl_seg nx l (xs @ ys) = (sl_seg nx l xs \<and> sl_seg nx (last (l # xs)) ys)"
  by (induction xs arbitrary: l) auto

lemma sl_seg_frame: "(\<And>a. a \<in> set (butlast (l # xs)) \<Longrightarrow> nx' a = nx a) \<Longrightarrow> sl_seg nx' l xs = sl_seg nx l xs"
  by (induction xs arbitrary: l) auto

lemma sl_rest_frame:
  assumes "\<And>a. a \<in> set (l # xs) \<Longrightarrow> nx' a = nx a"
  shows "sl_seg nx' l xs = sl_seg nx l xs \<and> nx' (last (l # xs)) = nx (last (l # xs))"
  using assms sl_seg_frame [of l xs nx' nx] last_in_list [of l xs] in_set_butlastD [of _ "l # xs"] by metis

lemma slist_frame: "(\<And>a. a \<in> set (l # xs) \<Longrightarrow> nx' a = nx a) \<Longrightarrow> slist nx' l xs = slist nx l xs"
  unfolding slist_def using sl_rest_frame [of l xs nx' nx] by metis

lemma slist_tail_last: "\<lbrakk>sl_seg nx l xs; nx (last (l # xs)) = None\<rbrakk> \<Longrightarrow> rt_slist_tail nx l = Some (last (l # xs))"
  by (induction xs arbitrary: l) (subst rt_slist_tail.simps, simp)+

lemma slist_len_length:
  "\<lbrakk>sl_seg nx l xs; nx (last (l # xs)) = None\<rbrakk> \<Longrightarrow> slist_len_loop nx (nx l) len = Some (len + of_nat (length xs))"
proof (induction xs arbitrary: l len)
  case (Cons x xs)
  then show ?case by (subst slist_len_loop.simps) (simp add: add.assoc)
qed (subst slist_len_loop.simps, simp)

lemma slist_before_member:
  "\<lbrakk>sl_seg nx l (ys @ n # zs); n \<notin> set ys\<rbrakk> \<Longrightarrow> slist_before nx n l = Some (last (l # ys))"
  by (induction ys arbitrary: l) (subst slist_before.simps, force)+

lemma slist_before_absent:
  "\<lbrakk>sl_seg nx l xs; nx (last (l # xs)) = None; n \<notin> set xs\<rbrakk> \<Longrightarrow> slist_before nx n l = Some (last (l # xs))"
  by (induction xs arbitrary: l) (subst slist_before.simps, force)+

lemma slist_append_refines:
  assumes s: "slist nx l xs" and n: "n \<notin> set (l # xs)"
  shows "\<exists>nx'. rt_slist_append l n nx = Some nx' \<and> slist nx' l (xs @ [n]) \<and> (\<forall>a. a \<notin> set (l # n # xs) \<longrightarrow> nx' a = nx a)"
proof -
  obtain t where t: "t = last (l # xs)" by simp
  let ?nx = "nx(t := Some n, n := None)"
  have d: "distinct (l # xs)" and g: "sl_seg nx l xs" "nx t = None" using s t by (auto simp: slist_def)
  have m: "t \<in> set (l # xs)" unfolding t by (rule last_in_list)
  have b: "t \<notin> set (butlast (l # xs))" unfolding t by (rule last_not_butlast [OF _ d]) simp
  have "sl_seg ?nx l xs = sl_seg nx l xs"
  proof (rule sl_seg_frame)
    fix a assume "a \<in> set (butlast (l # xs))"
    then have "a \<noteq> t" "a \<noteq> n" using b n in_set_butlastD [of a "l # xs"] by metis+
    then show "?nx a = nx a" by simp
  qed
  moreover have "?nx t = Some n" using m n by auto
  moreover have "rt_slist_append l n nx = Some ?nx" using g slist_tail_last [of nx l xs] t by (simp add: rt_slist_append_def)
  moreover have "\<forall>a. a \<notin> set (l # n # xs) \<longrightarrow> ?nx a = nx a" using m by auto
  ultimately show ?thesis
    using d g n t by (intro exI [of _ ?nx]) (auto simp: slist_def sl_seg_append)
qed

lemma slist_insert_refines:
  assumes s: "slist nx l xs" and n: "n \<notin> set (l # xs)"
  shows "slist (rt_slist_insert l n nx) l (n # xs)"
proof -
  let ?nx = "nx(n := nx l, l := Some n)"
  have "sl_seg ?nx n xs \<and> ?nx (last (n # xs)) = None"
  proof (cases xs)
    case (Cons x ys)
    have "?nx a = nx a" if "a \<in> set (x # ys)" for a using that s n Cons by (auto simp: slist_def)
    then have "sl_seg ?nx x ys = sl_seg nx x ys \<and> ?nx (last (x # ys)) = nx (last (x # ys))" by (rule sl_rest_frame)
    then show ?thesis using s n Cons last_in_list [of x ys] by (auto simp: slist_def split: if_splits)
  qed (use s n in \<open>auto simp: slist_def\<close>)
  then show ?thesis using s n by (auto simp: rt_slist_insert_def slist_def)
qed

lemma slist_remove_refines:
  assumes s: "slist nx l (ys @ n # zs)"
  shows "\<exists>nx'. rt_slist_remove l n nx = Some nx' \<and> slist nx' l (ys @ zs) \<and> nx' n = nx n \<and> (\<forall>a. a \<notin> set (l # ys) \<longrightarrow> nx' a = nx a)"
proof -
  let ?t = "last (l # ys)"
  let ?nx = "nx(?t := nx n)"
  have d: "distinct (l # ys @ n # zs)" and g: "sl_seg nx l (ys @ n # zs)" "nx (last (n # zs)) = None" using s by (auto simp: slist_def)
  have t: "?t \<in> set (l # ys)" by (rule last_in_list)
  have r: "rt_slist_remove l n nx = Some ?nx"
    using slist_before_member [OF g(1)] g(1) d by (simp add: rt_slist_remove_def sl_seg_append)
  have f: "sl_seg ?nx l ys = sl_seg nx l ys"
  proof (rule sl_seg_frame)
    fix a assume "a \<in> set (butlast (l # ys))"
    moreover have "?t \<notin> set (butlast (l # ys))" using d by (intro last_not_butlast) auto
    ultimately have "a \<noteq> ?t" by metis
    then show "?nx a = nx a" by simp
  qed
  have "sl_seg ?nx l ys" using g(1) f by (simp add: sl_seg_append)
  moreover have "sl_seg ?nx ?t zs" "?nx (last (?t # zs)) = None"
  proof -
    have "?nx x = nx x" if "x \<in> set (n # zs)" for x using that t d by auto
    then have "sl_seg ?nx n zs = sl_seg nx n zs \<and> ?nx (last (n # zs)) = nx (last (n # zs))" by (rule sl_rest_frame)
    then have "sl_seg ?nx n zs" "?nx (last (n # zs)) = None" using g by (simp_all add: sl_seg_append del: last.simps fun_upd_apply)
    then show "sl_seg ?nx ?t zs" "?nx (last (?t # zs)) = None" using t d by (cases zs; auto)+
  qed
  ultimately have "slist ?nx l (ys @ zs)" using d by (simp add: slist_def sl_seg_append split: if_splits)
  moreover have "?nx n = nx n" "\<forall>a. a \<notin> set (l # ys) \<longrightarrow> ?nx a = nx a" using t by auto
  ultimately show ?thesis using r by blast
qed

text \<open>The singly linked lists of the kernel, as pointers, are sequences: on a list whose nodes are \<open>xs\<close>, appending and
  inserting a new node give \<open>xs @ [n]\<close> and \<open>n # xs\<close>, removing a node closes the gap and leaves the \<^verbatim>\<open>next\<close> field of the
  removed node as it was, so that a loop over the list can go on from it; the length, the last node and the test for an
  empty list are those of \<open>xs\<close>. All searches end.\<close>

theorem slist_ops_refine:
  assumes "slist nx l xs"
  shows "n \<notin> set (l # xs) \<Longrightarrow> \<exists>nx'. rt_slist_append l n nx = Some nx' \<and> slist nx' l (xs @ [n])"
    and "n \<notin> set (l # xs) \<Longrightarrow> slist (rt_slist_insert l n nx) l (n # xs)"
    and "xs = ys @ n # zs \<Longrightarrow> \<exists>nx'. rt_slist_remove l n nx = Some nx' \<and> slist nx' l (ys @ zs) \<and> rt_slist_next n nx' = rt_slist_next n nx"
    and "n \<notin> set xs \<Longrightarrow> rt_slist_remove l n nx = Some nx"
    and "rt_slist_len l nx = Some (of_nat (length xs))" and "rt_slist_tail nx l = Some (last (l # xs))"
    and "rt_slist_isempty l nx = (xs = [])" and "rt_slist_first l nx = (case xs of [] \<Rightarrow> None | x # _ \<Rightarrow> Some x)"
    and "slist (rt_slist_init l nx) l []"
proof -
  have g: "sl_seg nx l xs" "nx (last (l # xs)) = None" using assms by (auto simp: slist_def)
  show "n \<notin> set (l # xs) \<Longrightarrow> \<exists>nx'. rt_slist_append l n nx = Some nx' \<and> slist nx' l (xs @ [n])"
    using slist_append_refines [OF assms] by blast
  show "n \<notin> set (l # xs) \<Longrightarrow> slist (rt_slist_insert l n nx) l (n # xs)" by (rule slist_insert_refines [OF assms])
  show "\<exists>nx'. rt_slist_remove l n nx = Some nx' \<and> slist nx' l (ys @ zs) \<and> rt_slist_next n nx' = rt_slist_next n nx" if "xs = ys @ n # zs"
    using slist_remove_refines [of nx l ys n zs] assms that unfolding rt_slist_next_def by blast
  show "n \<notin> set xs \<Longrightarrow> rt_slist_remove l n nx = Some nx" using slist_before_absent [OF g] g(2) by (simp add: rt_slist_remove_def)
  show "rt_slist_len l nx = Some (of_nat (length xs))" using slist_len_length [OF g, of 0] by (simp add: rt_slist_len_def)
  show "rt_slist_tail nx l = Some (last (l # xs))" by (rule slist_tail_last [OF g])
  show "rt_slist_isempty l nx = (xs = [])" "rt_slist_first l nx = (case xs of [] \<Rightarrow> None | x # _ \<Rightarrow> Some x)"
    using g by (cases xs; simp add: rt_slist_isempty_def rt_slist_first_def)+
  show "slist (rt_slist_init l nx) l []" by (simp add: rt_slist_init_def slist_def)
qed

text \<open>A list with the head 0 and the nodes 5 and 3.\<close>

definition sample_slist :: "nat sl_heap" where
  "sample_slist = (\<lambda>_. None)(0 := Some 5, 5 := Some 3)"

lemma slist_ops_refine_witness:
  "(\<exists>nx'. rt_slist_append 0 7 sample_slist = Some nx' \<and> slist nx' 0 [5, 3, 7]) \<and> slist (rt_slist_insert 0 7 sample_slist) 0 [7, 5, 3] \<and>
   (\<exists>nx'. rt_slist_remove 0 5 sample_slist = Some nx' \<and> slist nx' 0 [3] \<and> rt_slist_next 5 nx' = rt_slist_next 5 sample_slist)"
proof -
  have s: "slist sample_slist 0 [5, 3]" by (simp add: slist_def sample_slist_def)
  show ?thesis
    using slist_ops_refine(1) [OF s, of 7] slist_ops_refine(2) [OF s, of 7] slist_ops_refine(3) [OF s, of "[]" 5 "[3]"] by simp
qed

end
