(* ===== verification/Ringblk.thy ===== *)
theory Ringblk
  imports Prelude
begin

unbundle bit_operations_syntax

text \<open>
  The ring block buffer of \<^verbatim>\<open>kernel/utilities/ringblk_buf.c\<close>: memory is handed out in blocks, one behind the other around
  a buffer, without copying. A block is described by an entry of the array \<^verbatim>\<open>blk_set\<close>; a pointer to a block is its index.
  The list \<^verbatim>\<open>blk_list\<close> is the singly linked list of the blocks in the order of their allocation, see \<^verbatim>\<open>Rt_Slist\<close>.
\<close>

datatype rt_rbb_status = RT_RBB_BLK_UNUSED | RT_RBB_BLK_INITED | RT_RBB_BLK_PUT | RT_RBB_BLK_GET

record rt_rbb_blk =
  blk_status :: rt_rbb_status
  blk_size :: u32
  blk_buf :: u32

record rt_rbb =
  rbb_buf :: u32
  rbb_buf_size :: u32
  blk_set :: "rt_rbb_blk list"
  blk_max_num :: u32
  blk_list :: "nat list"

record rt_rbb_blk_queue =
  queue_blocks :: nat
  queue_blk_num :: u32

definition upd_blk :: "nat \<Rightarrow> (rt_rbb_blk \<Rightarrow> rt_rbb_blk) \<Rightarrow> rt_rbb \<Rightarrow> rt_rbb" where
  "upd_blk i f r = r\<lparr>blk_set := (blk_set r)[i := f (blk_set r ! i)]\<rparr>"

subsection \<open>Initialisation\<close>

text \<open>The loop over the first \<^verbatim>\<open>blk_max_num\<close> entries; \<open>None\<close> when the array is shorter.\<close>

fun mark_unused :: "nat \<Rightarrow> rt_rbb_blk list \<Rightarrow> rt_rbb_blk list option" where
  "mark_unused 0 bs = Some bs"
| "mark_unused (Suc n) [] = None"
| "mark_unused (Suc n) (b # bs) = map_option ((#) (b\<lparr>blk_status := RT_RBB_BLK_UNUSED\<rparr>)) (mark_unused n bs)"

definition rt_rbb_init :: "u32 \<Rightarrow> u32 \<Rightarrow> rt_rbb_blk list \<Rightarrow> u32 \<Rightarrow> rt_rbb option" where
  "rt_rbb_init buf buf_size block_set max_num = do {
     _ \<leftarrow> rt_assert (buf \<noteq> 0);
     bs \<leftarrow> mark_unused (unat max_num) block_set;
     Some \<lparr>rbb_buf = buf, rbb_buf_size = buf_size, blk_set = bs, blk_max_num = max_num, blk_list = []\<rparr> }"

text \<open>The arguments behind the sizes are what the three allocations return.\<close>

definition rt_rbb_create :: "u32 \<Rightarrow> u32 \<Rightarrow> bool \<Rightarrow> u32 option \<Rightarrow> rt_rbb_blk list option \<Rightarrow> rt_rbb option option" where
  "rt_rbb_create buf_size max_num rbb_mem buf_mem set_mem =
     (if \<not> rbb_mem then Some None
      else case buf_mem of
        None \<Rightarrow> Some None
      | Some buf \<Rightarrow>
          (case set_mem of
             None \<Rightarrow> Some None
           | Some bs \<Rightarrow> map_option Some (rt_rbb_init buf buf_size bs max_num)))"

subsection \<open>Allocation\<close>

fun find_unused :: "nat \<Rightarrow> rt_rbb_blk list \<Rightarrow> nat option option" where
  "find_unused 0 bs = Some None"
| "find_unused (Suc n) [] = None"
| "find_unused (Suc n) (b # bs) =
     (if blk_status b = RT_RBB_BLK_UNUSED then Some (Some 0) else map_option (map_option Suc) (find_unused n bs))"

definition find_empty_blk_in_set :: "rt_rbb \<Rightarrow> nat option option" where
  "find_empty_blk_in_set r = find_unused (unat (blk_max_num r)) (blk_set r)"

text \<open>The four assignments for a new block. Appending a block that is on the list already would close a cycle: \<open>None\<close>.\<close>

definition rbb_place :: "nat \<Rightarrow> u32 \<Rightarrow> u32 \<Rightarrow> rt_rbb \<Rightarrow> rt_rbb option" where
  "rbb_place i buf len r =
     (if i \<in> set (blk_list r) then None
      else Some (upd_blk i (\<lambda>_. \<lparr>blk_status = RT_RBB_BLK_INITED, blk_size = len, blk_buf = buf\<rparr>) (r\<lparr>blk_list := blk_list r @ [i]\<rparr>)))"

text \<open>Where a block of a size goes, by the first and the last block of the list: \<open>None\<close> when there is no space.\<close>

definition rbb_space :: "u32 \<Rightarrow> rt_rbb \<Rightarrow> u32 option" where
  "rbb_space len r =
     (case blk_list r of
        [] \<Rightarrow> Some (rbb_buf r)
      | i # _ \<Rightarrow>
          (let h = blk_set r ! i; t = blk_set r ! last (blk_list r) in
           if blk_buf h \<le> blk_buf t then
             let empty1 = (rbb_buf r + rbb_buf_size r) - (blk_buf t + blk_size t);
                 empty2 = blk_buf h - rbb_buf r
             in if empty1 \<ge> len then Some (blk_buf t + blk_size t)
                else if empty2 \<ge> len then Some (rbb_buf r)
                else None
           else
             let empty1 = blk_buf h - (blk_buf t + blk_size t)
             in if empty1 \<ge> len then Some (blk_buf t + blk_size t) else None))"

definition rt_rbb_blk_alloc :: "u32 \<Rightarrow> rt_rbb \<Rightarrow> (nat option \<times> rt_rbb) option" where
  "rt_rbb_blk_alloc len r = do {
     _ \<leftarrow> rt_assert (len < 2 ^ 24);
     new \<leftarrow> find_empty_blk_in_set r;
     case new of
       None \<Rightarrow> Some (None, r)
     | Some i \<Rightarrow>
         if length (blk_list r) < unat (blk_max_num r) then
           (case rbb_space len r of
              None \<Rightarrow> Some (None, r)
            | Some buf \<Rightarrow> map_option (Pair (Some i)) (rbb_place i buf len r))
         else Some (None, r) }"

subsection \<open>Blocks\<close>

definition rt_rbb_blk_put :: "nat \<Rightarrow> rt_rbb \<Rightarrow> rt_rbb option" where
  "rt_rbb_blk_put i r = do {
     _ \<leftarrow> rt_assert (i < length (blk_set r));
     _ \<leftarrow> rt_assert (blk_status (blk_set r ! i) = RT_RBB_BLK_INITED);
     Some (upd_blk i (\<lambda>b. b\<lparr>blk_status := RT_RBB_BLK_PUT\<rparr>) r) }"

fun get_loop :: "nat list \<Rightarrow> rt_rbb \<Rightarrow> nat option \<times> rt_rbb" where
  "get_loop [] r = (None, r)"
| "get_loop (i # is) r =
     (if blk_status (blk_set r ! i) = RT_RBB_BLK_PUT
      then (Some i, upd_blk i (\<lambda>b. b\<lparr>blk_status := RT_RBB_BLK_GET\<rparr>) r)
      else get_loop is r)"

definition rt_rbb_blk_get :: "rt_rbb \<Rightarrow> nat option \<times> rt_rbb" where
  "rt_rbb_blk_get r = (if blk_list r = [] then (None, r) else get_loop (blk_list r) r)"

definition rt_rbb_blk_size :: "nat \<Rightarrow> rt_rbb \<Rightarrow> u32 option" where
  "rt_rbb_blk_size i r = (if i < length (blk_set r) then Some (blk_size (blk_set r ! i)) else None)"

definition rt_rbb_blk_buf :: "nat \<Rightarrow> rt_rbb \<Rightarrow> u32 option" where
  "rt_rbb_blk_buf i r = (if i < length (blk_set r) then Some (blk_buf (blk_set r ! i)) else None)"

definition rt_rbb_blk_free :: "nat \<Rightarrow> rt_rbb \<Rightarrow> rt_rbb option" where
  "rt_rbb_blk_free i r = do {
     _ \<leftarrow> rt_assert (i < length (blk_set r));
     _ \<leftarrow> rt_assert (blk_status (blk_set r ! i) \<noteq> RT_RBB_BLK_UNUSED);
     Some (upd_blk i (\<lambda>b. b\<lparr>blk_status := RT_RBB_BLK_UNUSED\<rparr>) (r\<lparr>blk_list := remove1 i (blk_list r)\<rparr>)) }"

subsection \<open>Queues of blocks\<close>

text \<open>A block goes to the queue: off the list, counted, marked.\<close>

definition queue_take :: "nat \<Rightarrow> rt_rbb \<Rightarrow> rt_rbb" where
  "queue_take i r = upd_blk i (\<lambda>b. b\<lparr>blk_status := RT_RBB_BLK_GET\<rparr>) (r\<lparr>blk_list := remove1 i (blk_list r)\<rparr>)"

text \<open>
  The loop of \<^verbatim>\<open>rt_rbb_blk_queue_get\<close> over the nodes of the list as they were at its start: a node that is removed keeps
  its \<^verbatim>\<open>next\<close> pointer, from which the loop goes on. The second argument is \<^verbatim>\<open>last_block\<close>, the third \<^verbatim>\<open>data_total_size\<close>.
\<close>

fun queue_loop :: "u32 \<Rightarrow> nat option \<Rightarrow> u32 \<Rightarrow> rt_rbb_blk_queue \<Rightarrow> nat list \<Rightarrow> rt_rbb \<Rightarrow> u32 \<times> rt_rbb_blk_queue \<times> rt_rbb" where
  "queue_loop len last_block tot q [] r = (tot, q, r)"
| "queue_loop len None tot q (i # is) r =
     (if blk_status (blk_set r ! i) = RT_RBB_BLK_PUT
      then queue_loop len (Some i) (tot + blk_size (blk_set r ! i)) \<lparr>queue_blocks = i, queue_blk_num = 1\<rparr> is (queue_take i r)
      else queue_loop len None tot q is r)"
| "queue_loop len (Some l) tot q (i # is) r =
     (if blk_status (blk_set r ! i) \<noteq> RT_RBB_BLK_PUT \<or> blk_buf (blk_set r ! l) > blk_buf (blk_set r ! i) \<or>
         tot + blk_size (blk_set r ! i) > len
      then (tot, q, r)
      else queue_loop len (Some i) (tot + blk_size (blk_set r ! i)) (q\<lparr>queue_blk_num := queue_blk_num q + 1\<rparr>) is (queue_take i r))"

definition rt_rbb_blk_queue_get :: "u32 \<Rightarrow> rt_rbb_blk_queue \<Rightarrow> rt_rbb \<Rightarrow> u32 \<times> rt_rbb_blk_queue \<times> rt_rbb" where
  "rt_rbb_blk_queue_get len q r = (if blk_list r = [] then (0, q, r) else queue_loop len None 0 q (blk_list r) r)"

text \<open>The code reads the blocks of a queue as neighbours in the array, whatever their order on the list was.\<close>

fun queue_len_loop :: "nat \<Rightarrow> nat \<Rightarrow> u32 \<Rightarrow> rt_rbb \<Rightarrow> u32 option" where
  "queue_len_loop 0 i tot r = Some tot"
| "queue_len_loop (Suc n) i tot r =
     (if i < length (blk_set r) then queue_len_loop n (Suc i) (tot + blk_size (blk_set r ! i)) r else None)"

definition rt_rbb_blk_queue_len :: "rt_rbb_blk_queue \<Rightarrow> rt_rbb \<Rightarrow> u32 option" where
  "rt_rbb_blk_queue_len q r = queue_len_loop (unat (queue_blk_num q)) (queue_blocks q) 0 r"

definition rt_rbb_blk_queue_buf :: "rt_rbb_blk_queue \<Rightarrow> rt_rbb \<Rightarrow> u32 option" where
  "rt_rbb_blk_queue_buf q r = rt_rbb_blk_buf (queue_blocks q) r"

fun queue_free_loop :: "nat \<Rightarrow> nat \<Rightarrow> rt_rbb \<Rightarrow> rt_rbb option" where
  "queue_free_loop 0 i r = Some r"
| "queue_free_loop (Suc n) i r = Option.bind (rt_rbb_blk_free i r) (queue_free_loop n (Suc i))"

definition rt_rbb_blk_queue_free :: "rt_rbb_blk_queue \<Rightarrow> rt_rbb \<Rightarrow> rt_rbb option" where
  "rt_rbb_blk_queue_free q r = queue_free_loop (unat (queue_blk_num q)) (queue_blocks q) r"

fun next_len_loop :: "nat option \<Rightarrow> u32 \<Rightarrow> nat list \<Rightarrow> rt_rbb \<Rightarrow> u32" where
  "next_len_loop last_block tot [] r = tot"
| "next_len_loop None tot (i # is) r =
     (if blk_status (blk_set r ! i) = RT_RBB_BLK_PUT
      then next_len_loop (Some i) (tot + blk_size (blk_set r ! i)) is r
      else next_len_loop None tot is r)"
| "next_len_loop (Some l) tot (i # is) r =
     (if blk_status (blk_set r ! i) \<noteq> RT_RBB_BLK_PUT \<or> blk_buf (blk_set r ! l) > blk_buf (blk_set r ! i)
      then tot
      else next_len_loop (Some i) (tot + blk_size (blk_set r ! i)) is r)"

definition rt_rbb_next_blk_queue_len :: "rt_rbb \<Rightarrow> u32" where
  "rt_rbb_next_blk_queue_len r = (if blk_list r = [] then 0 else next_len_loop None 0 (blk_list r) r)"

definition rt_rbb_get_buf_size :: "rt_rbb \<Rightarrow> u32" where
  "rt_rbb_get_buf_size r = rbb_buf_size r"

end
