(* ===== verification/Ringblk_Correct.thy ===== *)
theory Ringblk_Correct
  imports Ringblk Allocator
begin

unbundle bit_operations_syntax

text \<open>
  The ring block buffer: the invariant that keeps its blocks apart, the contract of the allocator for it, what is taken by
  a queue of blocks, and the calls that break it.
\<close>

subsection \<open>Blocks in memory\<close>

definition blk_start :: "rt_rbb_blk \<Rightarrow> nat" where
  "blk_start b = unat (blk_buf b)"

definition blk_end :: "rt_rbb_blk \<Rightarrow> nat" where
  "blk_end b = unat (blk_buf b) + unat (blk_size b)"

text \<open>Blocks between two addresses, each behind the one before.\<close>

fun stacked :: "nat \<Rightarrow> rt_rbb_blk list \<Rightarrow> nat \<Rightarrow> bool" where
  "stacked lo [] hi = (lo \<le> hi)"
| "stacked lo (b # bs) hi = (lo \<le> blk_start b \<and> 0 < blk_size b \<and> stacked (blk_end b) bs hi)"

lemma blk_order: "0 < blk_size b \<Longrightarrow> blk_start b < blk_end b"
  by (simp add: blk_start_def blk_end_def word_less_nat_alt)

lemma blk_le: "blk_start b \<le> blk_end b"
  by (simp add: blk_start_def blk_end_def)

lemma stacked_le: "stacked lo bs hi \<Longrightarrow> lo \<le> hi"
  by (induction bs arbitrary: lo) (auto dest: order.trans [OF _ blk_le] order.trans)

lemma stacked_lower: "\<lbrakk>stacked lo bs hi; l \<le> lo\<rbrakk> \<Longrightarrow> stacked l bs hi"
  by (cases bs) auto

lemma stacked_append: "stacked lo (as @ b # bs) hi = (stacked lo as (blk_start b) \<and> stacked (blk_start b) (b # bs) hi)"
  by (induction as arbitrary: lo) auto

lemma stacked_remove: "stacked lo (as @ b # bs) hi \<Longrightarrow> stacked lo (as @ bs) hi"
proof (induction as arbitrary: lo)
  case Nil
  then show ?case using blk_le [of b] by (auto elim: stacked_lower)
qed simp

lemma stacked_last: "stacked lo (as @ [b]) hi = (stacked lo as (blk_start b) \<and> 0 < blk_size b \<and> blk_end b \<le> hi)"
  by (simp add: stacked_append)

lemma stacked_inside: "\<lbrakk>stacked lo bs hi; b \<in> set bs\<rbrakk> \<Longrightarrow> lo \<le> blk_start b \<and> blk_end b \<le> hi \<and> 0 < blk_size b"
proof (induction bs arbitrary: lo)
  case (Cons c bs)
  then show ?case using blk_le [of c] stacked_le [of "blk_end c" bs hi] by fastforce
qed simp

lemma stacked_apart: "\<lbrakk>stacked lo bs hi; i < j; j < length bs\<rbrakk> \<Longrightarrow> blk_end (bs ! i) \<le> blk_start (bs ! j)"
proof (induction bs arbitrary: lo i j)
  case (Cons b bs)
  then obtain k where k: "j = Suc k" by (cases j) auto
  show ?case
  proof (cases i)
    case 0
    then show ?thesis using Cons.prems k stacked_inside [of "blk_end b" bs hi "bs ! k"] by simp
  next
    case (Suc m)
    then show ?thesis using Cons.IH [of "blk_end b" m k] Cons.prems k by simp
  qed
qed simp

lemma stacked_sum: "stacked lo bs hi \<Longrightarrow> lo + (\<Sum>b\<leftarrow>bs. unat (blk_size b)) \<le> hi"
proof (induction bs arbitrary: lo)
  case (Cons b bs)
  then have "blk_end b + (\<Sum>b\<leftarrow>bs. unat (blk_size b)) \<le> hi" using Cons.IH by simp
  then show ?case using Cons.prems by (simp add: blk_end_def blk_start_def)
qed simp

subsection \<open>The invariant\<close>

text \<open>
  Seen from the start of the buffer, the blocks lie in the order of a rotation of the list: the newest ones \<open>ys\<close>, which
  have wrapped around, in front of the others.
\<close>

definition rbb_blocks :: "rt_rbb \<Rightarrow> nat list \<Rightarrow> rt_rbb_blk list" where
  "rbb_blocks r is = map ((!) (blk_set r)) is"

lemma rbb_blocks_Nil [simp]: "rbb_blocks r [] = []"
  by (simp add: rbb_blocks_def)

definition rbb_base :: "rt_rbb \<Rightarrow> nat" where
  "rbb_base r = unat (rbb_buf r)"

definition rbb_top :: "rt_rbb \<Rightarrow> nat" where
  "rbb_top r = unat (rbb_buf r) + unat (rbb_buf_size r)"

definition rbb_ok :: "rt_rbb \<Rightarrow> bool" where
  "rbb_ok r = (rbb_top r < 2 ^ 32 \<and> length (blk_set r) = unat (blk_max_num r) \<and> distinct (blk_list r) \<and>
     (\<forall>i \<in> set (blk_list r). i < length (blk_set r) \<and> blk_status (blk_set r ! i) \<noteq> RT_RBB_BLK_UNUSED) \<and>
     (\<exists>xs ys. blk_list r = xs @ ys \<and> (xs = [] \<longrightarrow> ys = []) \<and> stacked (rbb_base r) (rbb_blocks r (ys @ xs)) (rbb_top r)))"

lemma find_unused_index: "\<lbrakk>find_unused n bs = Some (Some i)\<rbrakk> \<Longrightarrow> i < length bs \<and> i < n \<and> blk_status (bs ! i) = RT_RBB_BLK_UNUSED"
  by (induction n bs arbitrary: i rule: find_unused.induct) (auto split: if_splits)

lemma find_unused_total: "n \<le> length bs \<Longrightarrow> \<exists>x. find_unused n bs = Some x"
  by (induction n bs rule: find_unused.induct) auto

lemma upd_blk_fields [simp]:
  "rbb_buf (upd_blk i f r) = rbb_buf r" "rbb_buf_size (upd_blk i f r) = rbb_buf_size r" "blk_max_num (upd_blk i f r) = blk_max_num r"
  "blk_list (upd_blk i f r) = blk_list r" "length (blk_set (upd_blk i f r)) = length (blk_set r)"
  by (simp_all add: upd_blk_def)

lemma upd_blk_nth [simp]: "j < length (blk_set r) \<Longrightarrow> blk_set (upd_blk i f r) ! j = (if j = i then f (blk_set r ! j) else blk_set r ! j)"
  by (simp add: upd_blk_def)

text \<open>A change of the status of a block leaves the memory of all blocks alone.\<close>

lemma nth_update_same: "P (f (xs ! i)) = P (xs ! i) \<Longrightarrow> P (xs[i := f (xs ! i)] ! j) = P (xs ! j)"
  by (cases "i < length xs"; cases "i = j") (auto simp: list_update_beyond)

lemma upd_status_geometry [simp]:
  "blk_buf (blk_set (upd_blk i (blk_status_update f) r) ! j) = blk_buf (blk_set r ! j)"
  "blk_size (blk_set (upd_blk i (blk_status_update f) r) ! j) = blk_size (blk_set r ! j)"
  using nth_update_same [of blk_buf "blk_status_update f" "blk_set r" i j] nth_update_same [of blk_size "blk_status_update f" "blk_set r" i j]
  by (simp_all add: upd_blk_def)

lemma stacked_map_cong:
  "(\<And>i. i \<in> set is \<Longrightarrow> blk_buf (f i) = blk_buf (g i) \<and> blk_size (f i) = blk_size (g i)) \<Longrightarrow> stacked lo (map f is) hi = stacked lo (map g is) hi"
  by (induction "is" arbitrary: lo) (auto simp: blk_start_def blk_end_def)

lemma rbb_ok_status:
  assumes "rbb_ok r" and "st \<noteq> RT_RBB_BLK_UNUSED"
  shows "rbb_ok (upd_blk i (\<lambda>b. b\<lparr>blk_status := st\<rparr>) r)"
proof -
  have "stacked lo (rbb_blocks (upd_blk i (\<lambda>b. b\<lparr>blk_status := st\<rparr>) r) is) hi = stacked lo (rbb_blocks r is) hi" for lo "is" hi
    unfolding rbb_blocks_def by (rule stacked_map_cong) simp
  then show ?thesis using assms by (auto simp: rbb_ok_def rbb_top_def rbb_base_def split: if_splits)
qed

text \<open>Taking a block off the list.\<close>

lemma rbb_ok_unlink:
  assumes "rbb_ok r"
  shows "rbb_ok (upd_blk i (\<lambda>b. b\<lparr>blk_status := st\<rparr>) (r\<lparr>blk_list := remove1 i (blk_list r)\<rparr>))"
proof -
  obtain xs ys where l: "blk_list r = xs @ ys" "xs = [] \<longrightarrow> ys = []" and k: "stacked (rbb_base r) (rbb_blocks r (ys @ xs)) (rbb_top r)"
    using assms by (auto simp: rbb_ok_def)
  have d: "distinct (xs @ ys)" using assms l by (simp add: rbb_ok_def)
  let ?r = "upd_blk i (\<lambda>b. b\<lparr>blk_status := st\<rparr>) (r\<lparr>blk_list := remove1 i (blk_list r)\<rparr>)"
  have s: "stacked lo (rbb_blocks ?r is) hi = stacked lo (rbb_blocks r is) hi" for lo "is" hi
    unfolding rbb_blocks_def by (rule stacked_map_cong) simp
  have k': "stacked (rbb_base r) (rbb_blocks r (remove1 i (ys @ xs))) (rbb_top r)"
  proof (cases "i \<in> set (ys @ xs)")
    case True
    then obtain as bs where "ys @ xs = as @ i # bs" "i \<notin> set as" by (meson split_list_first)
    then show ?thesis using k stacked_remove by (simp add: rbb_blocks_def remove1_append del: map_append) (simp add: stacked_remove)
  qed (use k in \<open>simp add: remove1_idem\<close>)
  have e: "remove1 i (xs @ ys) = remove1 i xs @ remove1 i ys" "remove1 i (ys @ xs) = remove1 i ys @ remove1 i xs"
    using d by (cases "i \<in> set xs"; cases "i \<in> set ys"; auto simp: remove1_append remove1_idem)+
  have "\<exists>us vs. remove1 i (blk_list r) = us @ vs \<and> (us = [] \<longrightarrow> vs = []) \<and> stacked (rbb_base r) (rbb_blocks r (vs @ us)) (rbb_top r)"
  proof (cases "remove1 i xs = []")
    case True
    then show ?thesis using k' l e by (intro exI [of _ "remove1 i ys"] exI [of _ "[]"]) simp
  next
    case False
    then show ?thesis using k' l e by (intro exI [of _ "remove1 i xs"] exI [of _ "remove1 i ys"]) simp
  qed
  then show ?thesis using assms s by (auto simp: rbb_ok_def rbb_top_def rbb_base_def dest: in_set_remove1 [THEN iffD1])
qed

text \<open>Allocation.\<close>

lemma unat_end: "blk_end b < 2 ^ 32 \<Longrightarrow> unat (blk_buf b + blk_size b) = blk_end b"
  by (simp add: blk_end_def unat_add_lem [THEN iffD1])

lemma unat_diff: "(b :: u32) \<le> a \<Longrightarrow> unat (a - b) = unat a - unat b"
  by (rule unat_sub)

definition new_blk :: "u32 \<Rightarrow> u32 \<Rightarrow> rt_rbb_blk" where
  "new_blk buf len = \<lparr>blk_status = RT_RBB_BLK_INITED, blk_size = len, blk_buf = buf\<rparr>"

lemma stacked_insert:
  "\<lbrakk>stacked lo as m; m \<le> blk_start c; 0 < blk_size c; stacked (blk_end c) bs hi\<rbrakk> \<Longrightarrow> stacked lo (as @ c # bs) hi"
  by (induction as arbitrary: lo) auto

text \<open>The space that is found extends the rotation at its newest end: behind the last block, or at the start of the buffer.\<close>

lemma rbb_space_unwrapped:
  assumes k: "stacked (unat base) (h # bs) tp" and t: "t = last (h # bs)" and T: "unat (base + sz) = tp" "tp < 2 ^ 32" and len: "0 < len"
    and b: "(if sz' \<ge> len then Some (blk_buf t + blk_size t) else if blk_buf h - base \<ge> len then Some base else None) = Some buf"
    and sz: "sz' = base + sz - (blk_buf t + blk_size t)"
  shows "stacked (unat base) (h # bs @ [new_blk buf len]) tp \<or> stacked (unat base) (new_blk buf len # h # bs) tp"
proof -
  obtain as where as: "h # bs = as @ [t]" unfolding t by (metis append_butlast_last_id list.distinct(1))
  then have e: "stacked (unat base) as (blk_start t)" "0 < blk_size t" "blk_end t \<le> tp" using k by (simp_all add: stacked_last)
  have te: "unat (blk_buf t + blk_size t) = blk_end t" by (rule unat_end) (use e T in linarith)
  have n: "blk_start (new_blk buf len) = unat buf" "blk_size (new_blk buf len) = len" "blk_end (new_blk buf len) = unat buf + unat len"
    by (simp_all add: new_blk_def blk_end_def blk_start_def)
  show ?thesis
  proof (cases "len \<le> sz'")
    case True
    have "blk_buf t + blk_size t \<le> base + sz" using te T e by (simp add: word_le_nat_alt)
    then have "unat sz' = tp - blk_end t" using sz te T by (simp add: unat_diff)
    then have "blk_end t + unat len \<le> tp" using True e(3) by (simp add: word_le_nat_alt)
    moreover have "unat buf = blk_end t" using b True te by simp
    moreover have "stacked (unat base) (as @ [t]) (blk_end t)" using e by (simp add: stacked_last)
    ultimately have "stacked (unat base) ((as @ [t]) @ new_blk buf len # []) tp"
      using n len stacked_insert [of "unat base" "as @ [t]" "blk_end t" "new_blk buf len" "[]" tp] by simp
    moreover have "h # bs @ [new_blk buf len] = (as @ [t]) @ [new_blk buf len]" unfolding as [symmetric] by simp
    ultimately show ?thesis by metis
  next
    case False
    then have v: "buf = base" "len \<le> blk_buf h - base" using b by (auto split: if_splits)
    have "base \<le> blk_buf h" using k by (simp add: word_le_nat_alt blk_start_def)
    then have "unat base + unat len \<le> blk_start h" using v(2) by (simp add: unat_diff word_le_nat_alt blk_start_def)
    then show ?thesis using k n len v(1) by simp
  qed
qed

lemma rbb_space_wrapped:
  assumes k: "stacked lo (bs @ t # h # cs) tp" and T: "tp < 2 ^ 32" and len: "0 < len"
    and b: "blk_buf h - (blk_buf t + blk_size t) \<ge> len" and buf: "buf = blk_buf t + blk_size t"
  shows "stacked lo (bs @ t # new_blk buf len # h # cs) tp"
proof -
  have s: "stacked lo bs (blk_start t)" "0 < blk_size t" "blk_end t \<le> blk_start h" "stacked (blk_start h) (h # cs) tp"
    using k by (simp_all add: stacked_append)
  have "blk_start h \<le> tp" using s(4) by (rule stacked_le)
  then have te: "unat buf = blk_end t" unfolding buf by (intro unat_end) (use s(3) T in linarith)
  have n: "blk_start (new_blk buf len) = unat buf" "blk_size (new_blk buf len) = len" "blk_end (new_blk buf len) = unat buf + unat len"
    by (simp_all add: new_blk_def blk_end_def blk_start_def)
  have "buf \<le> blk_buf h" using te s(3) by (simp add: word_le_nat_alt blk_start_def)
  then have "unat buf + unat len \<le> blk_start h" using b buf te by (simp add: unat_diff word_le_nat_alt blk_start_def)
  then have "stacked (blk_end t) (new_blk buf len # h # cs) tp" using s(4) n te len by simp
  then show ?thesis using s(1,2) by (intro stacked_insert) auto
qed

lemma rbb_space_fits:
  assumes ok: "rbb_ok r" and len: "0 < len" "unat len \<le> unat (rbb_buf_size r)" and b: "rbb_space len r = Some buf"
  shows "\<exists>us vs. (us \<noteq> [] \<and> blk_list r = us @ vs \<and> stacked (rbb_base r) (rbb_blocks r vs @ new_blk buf len # rbb_blocks r us) (rbb_top r)) \<or>
     (vs = [] \<and> blk_list r = us \<and> stacked (rbb_base r) (rbb_blocks r us @ [new_blk buf len]) (rbb_top r))"
proof -
  have T: "unat (rbb_buf r + rbb_buf_size r) = rbb_top r" "rbb_top r < 2 ^ 32"
    using ok by (auto simp: rbb_ok_def rbb_top_def unat_add_lem [THEN iffD1])
  obtain xs ys where l: "blk_list r = xs @ ys" "xs = [] \<longrightarrow> ys = []" and k: "stacked (rbb_base r) (rbb_blocks r (ys @ xs)) (rbb_top r)"
    using ok by (auto simp: rbb_ok_def)
  consider "xs = []" | x xs' where "xs = x # xs'" "ys = []" | x xs' zs z where "xs = x # xs'" "ys = zs @ [z]"
    by (metis list.exhaust rev_exhaust)
  then show ?thesis
  proof cases
    case 1
    then show ?thesis using l b len
      by (intro exI [of _ "[]"]) (auto simp: rbb_space_def rbb_blocks_def rbb_base_def rbb_top_def new_blk_def blk_end_def blk_start_def)
  next
    case (2 x xs')
    let ?h = "blk_set r ! x" and ?t = "blk_set r ! last (x # xs')"
    have k': "stacked (unat (rbb_buf r)) (?h # rbb_blocks r xs') (rbb_top r)" using k 2 by (simp add: rbb_blocks_def rbb_base_def)
    have t: "?t = last (?h # rbb_blocks r xs')" by (simp add: rbb_blocks_def last_map)
    have "blk_start ?h \<le> blk_start ?t"
    proof (cases "xs' = []")
      case False
      then have "?t \<in> set (rbb_blocks r xs')" by (simp add: rbb_blocks_def)
      then show ?thesis using stacked_inside [of "blk_end ?h" "rbb_blocks r xs'" "rbb_top r" ?t] k' blk_le [of ?h] by auto
    qed simp
    then have c: "blk_buf ?h \<le> blk_buf ?t" by (simp add: blk_start_def word_le_nat_alt)
    have "stacked (unat (rbb_buf r)) (?h # rbb_blocks r xs' @ [new_blk buf len]) (rbb_top r) \<or>
        stacked (unat (rbb_buf r)) (new_blk buf len # ?h # rbb_blocks r xs') (rbb_top r)"
      by (rule rbb_space_unwrapped [OF k' t T len(1) _ refl]) (use b c l 2 in \<open>simp add: rbb_space_def Let_def del: last.simps\<close>)
    then show ?thesis using l 2 by (intro exI [of _ "x # xs'"] exI [of _ "[]"]) (auto simp: rbb_blocks_def rbb_base_def)
  next
    case (3 x xs' zs z)
    let ?h = "blk_set r ! x" and ?t = "blk_set r ! z"
    have k': "stacked (rbb_base r) (rbb_blocks r zs @ ?t # ?h # rbb_blocks r xs') (rbb_top r)" using k 3 by (simp add: rbb_blocks_def)
    then have "blk_end ?t \<le> blk_start ?h" "0 < blk_size ?t" by (simp_all add: stacked_append)
    then have "\<not> blk_buf ?h \<le> blk_buf ?t" using blk_order [of ?t] by (simp add: blk_start_def word_le_nat_alt)
    then have v: "len \<le> blk_buf ?h - (blk_buf ?t + blk_size ?t)" "buf = blk_buf ?t + blk_size ?t"
      using b l 3 by (auto simp: rbb_space_def Let_def split: if_splits)
    have "stacked (rbb_base r) (rbb_blocks r zs @ ?t # new_blk buf len # ?h # rbb_blocks r xs') (rbb_top r)"
      by (rule rbb_space_wrapped [OF k' T(2) len(1) v])
    then show ?thesis using l 3 by (intro exI [of _ "x # xs'"] exI [of _ "zs @ [z]"]) (simp add: rbb_blocks_def)
  qed
qed

lemma rbb_ok_place:
  assumes ok: "rbb_ok r" and i: "i < length (blk_set r)" "blk_status (blk_set r ! i) = RT_RBB_BLK_UNUSED"
    and len: "0 < len" "unat len \<le> unat (rbb_buf_size r)" and b: "rbb_space len r = Some buf"
  shows "i \<notin> set (blk_list r) \<and> rbb_ok (upd_blk i (\<lambda>_. new_blk buf len) (r\<lparr>blk_list := blk_list r @ [i]\<rparr>))"
proof -
  let ?r = "upd_blk i (\<lambda>_. new_blk buf len) (r\<lparr>blk_list := blk_list r @ [i]\<rparr>)"
  have used: "\<forall>j \<in> set (blk_list r). j < length (blk_set r) \<and> blk_status (blk_set r ! j) \<noteq> RT_RBB_BLK_UNUSED"
    using ok unfolding rbb_ok_def by blast
  then have n: "i \<notin> set (blk_list r)" using i by auto
  have s: "rbb_blocks ?r js = rbb_blocks r js" if "set js \<subseteq> set (blk_list r)" for js
    using that n used by (auto simp: rbb_blocks_def subset_iff)
  have m: "rbb_blocks ?r [i] = [new_blk buf len]" using i by (simp add: rbb_blocks_def)
  obtain us vs where "(us \<noteq> [] \<and> blk_list r = us @ vs \<and> stacked (rbb_base r) (rbb_blocks r vs @ new_blk buf len # rbb_blocks r us) (rbb_top r)) \<or>
     (vs = [] \<and> blk_list r = us \<and> stacked (rbb_base r) (rbb_blocks r us @ [new_blk buf len]) (rbb_top r))"
    using rbb_space_fits [OF ok len b] by blast
  then have "\<exists>xs ys. blk_list r @ [i] = xs @ ys \<and> (xs = [] \<longrightarrow> ys = []) \<and> stacked (rbb_base r) (rbb_blocks ?r ys @ rbb_blocks ?r xs) (rbb_top r)"
  proof
    assume a: "us \<noteq> [] \<and> blk_list r = us @ vs \<and> stacked (rbb_base r) (rbb_blocks r vs @ new_blk buf len # rbb_blocks r us) (rbb_top r)"
    have "rbb_blocks ?r (vs @ [i]) = rbb_blocks r vs @ [new_blk buf len]" using s [of vs] m a by (simp add: rbb_blocks_def)
    moreover have "rbb_blocks ?r us = rbb_blocks r us" using s [of us] a by simp
    ultimately show ?thesis using a by (intro exI [of _ us] exI [of _ "vs @ [i]"]) simp
  next
    assume a: "vs = [] \<and> blk_list r = us \<and> stacked (rbb_base r) (rbb_blocks r us @ [new_blk buf len]) (rbb_top r)"
    have "rbb_blocks ?r (us @ [i]) = rbb_blocks r us @ [new_blk buf len]" using s [of us] m a by (simp add: rbb_blocks_def)
    then show ?thesis using a by (intro exI [of _ "us @ [i]"] exI [of _ "[]"]) simp
  qed
  moreover have "blk_status (blk_set ?r ! j) \<noteq> RT_RBB_BLK_UNUSED" if "j \<in> set (blk_list ?r)" for j
    using that used i by (cases "j = i") (auto simp: new_blk_def)
  ultimately show ?thesis using ok n i used by (auto simp: rbb_ok_def rbb_base_def rbb_top_def rbb_blocks_def)
qed

subsection \<open>The contract of the allocator\<close>

text \<open>The blocks of the buffer of the size \<open>n\<close> at \<open>b\<close> that are on its list are \<open>L\<close>; the others of its \<open>k\<close> entries are unused.\<close>

definition rbb_state :: "u32 \<Rightarrow> nat \<Rightarrow> u32 \<Rightarrow> rt_rbb \<Rightarrow> nat set \<Rightarrow> bool" where
  "rbb_state b n k r L = (rbb_ok r \<and> rbb_buf r = b \<and> unat (rbb_buf_size r) = n \<and> blk_max_num r = k \<and> set (blk_list r) = L \<and>
     (\<forall>i < length (blk_set r). i \<notin> L \<longrightarrow> blk_status (blk_set r ! i) = RT_RBB_BLK_UNUSED))"

definition rbb_request :: "nat \<Rightarrow> u32 \<Rightarrow> bool" where
  "rbb_request n len = (0 < len \<and> len < 2 ^ 24 \<and> unat len \<le> n)"

lemma rbb_alloc_law:
  assumes "rbb_state b n k r L" and "rbb_request n len"
  shows "\<exists>q r'. rt_rbb_blk_alloc len r = Some (q, r') \<and> (case q of None \<Rightarrow> rbb_state b n k r' L | Some i \<Rightarrow> i \<notin> L \<and> rbb_state b n k r' (insert i L))"
proof -
  have ok: "rbb_ok r" and len: "0 < len" "len < 2 ^ 24" "unat len \<le> unat (rbb_buf_size r)" using assms by (auto simp: rbb_state_def rbb_request_def)
  obtain x where x: "find_empty_blk_in_set r = Some x"
    using find_unused_total [of "unat (blk_max_num r)" "blk_set r"] ok by (auto simp: find_empty_blk_in_set_def rbb_ok_def)
  show ?thesis
  proof (cases "\<exists>i buf. x = Some i \<and> length (blk_list r) < unat (blk_max_num r) \<and> rbb_space len r = Some buf")
    case True
    then obtain i buf where i: "x = Some i" "length (blk_list r) < unat (blk_max_num r)" "rbb_space len r = Some buf" by blast
    then have "i < length (blk_set r)" "blk_status (blk_set r ! i) = RT_RBB_BLK_UNUSED"
      using x find_unused_index [of "unat (blk_max_num r)" "blk_set r" i] by (auto simp: find_empty_blk_in_set_def)
    note p = rbb_ok_place [OF ok this len(1,3) i(3)]
    then show ?thesis using x i len assms(1) by (simp add: rt_rbb_blk_alloc_def rbb_place_def rbb_state_def new_blk_def)
  next
    case False
    then have "rt_rbb_blk_alloc len r = Some (None, r)" using x len by (auto simp: rt_rbb_blk_alloc_def split: option.splits)
    then show ?thesis using assms(1) by simp
  qed
qed

lemma rbb_free_law:
  assumes "rbb_state b n k r L" and "i \<in> L"
  shows "\<exists>r'. rt_rbb_blk_free i r = Some r' \<and> rbb_state b n k r' (L - {i})"
proof -
  have "rbb_ok r" "i \<in> set (blk_list r)" "distinct (blk_list r)" using assms by (auto simp: rbb_state_def rbb_ok_def)
  then show ?thesis using rbb_ok_unlink [of r i RT_RBB_BLK_UNUSED] assms by (auto simp: rt_rbb_blk_free_def rbb_state_def rbb_ok_def)
qed

interpretation rbb: allocator "rbb_state b n k" "rbb_request n" rt_rbb_blk_alloc rt_rbb_blk_free
  by unfold_locales (use rbb_alloc_law rbb_free_law in blast)+

lemma mark_unused_some: "n \<le> length bs \<Longrightarrow> \<exists>cs. mark_unused n bs = Some cs \<and> length cs = length bs \<and>
   (\<forall>i < n. blk_status (cs ! i) = RT_RBB_BLK_UNUSED)"
  by (induction n bs rule: mark_unused.induct) (auto simp: less_Suc_eq_0_disj)

lemma find_unused_hit: "\<lbrakk>n \<le> length bs; i < n; blk_status (bs ! i) = RT_RBB_BLK_UNUSED\<rbrakk> \<Longrightarrow> \<exists>j. find_unused n bs = Some (Some j)"
proof (induction n bs arbitrary: i rule: find_unused.induct)
  case (3 n b bs)
  show ?case
  proof (cases i)
    case (Suc m)
    show ?thesis
    proof (cases "blk_status b = RT_RBB_BLK_UNUSED")
      case False
      have "\<exists>j. find_unused n bs = Some (Some j)" by (rule "3.IH" [OF False, of m]) (use 3 Suc in simp_all)
      then show ?thesis by auto
    qed simp
  qed (use 3 in simp)
qed simp_all

text \<open>A buffer with no block on its list serves every request that it can hold.\<close>

lemma rbb_alloc_empty:
  assumes s: "rbb_state b n k r {}" and len: "rbb_request n len" and k: "0 < k"
  shows "\<exists>i r'. rt_rbb_blk_alloc len r = Some (Some i, r')"
proof -
  have l: "blk_list r = []" "length (blk_set r) = unat k" "blk_max_num r = k" "0 < unat k"
    using s k by (auto simp: rbb_state_def rbb_ok_def unat_gt_0)
  moreover have "blk_status (blk_set r ! 0) = RT_RBB_BLK_UNUSED" using s l by (auto simp: rbb_state_def)
  ultimately obtain j where "find_empty_blk_in_set r = Some (Some j)"
    using find_unused_hit [of "unat k" "blk_set r" 0] by (auto simp: find_empty_blk_in_set_def)
  then show ?thesis using l len by (auto simp: rt_rbb_blk_alloc_def rbb_space_def rbb_place_def rbb_request_def)
qed

lemma rbb_init_ready:
  assumes "buf \<noteq> 0" and "unat buf + unat sz < 2 ^ 32" and "length bs = unat n"
  shows "\<exists>r. rt_rbb_init buf sz bs n = Some r \<and> rbb_state buf (unat sz) n r {} \<and> blk_list r = [] \<and> rbb_buf r = buf \<and> rbb_buf_size r = sz"
  using assms mark_unused_some [of "unat n" bs] by (auto simp: rt_rbb_init_def rbb_state_def rbb_ok_def rbb_base_def rbb_top_def rbb_blocks_def)

text \<open>What the invariant says about two blocks.\<close>

lemma rbb_ok_inside:
  assumes ok: "rbb_ok r" and i: "i \<in> set (blk_list r)"
  shows "rbb_base r \<le> blk_start (blk_set r ! i) \<and> blk_end (blk_set r ! i) \<le> rbb_top r \<and> 0 < blk_size (blk_set r ! i)"
proof -
  obtain xs ys where l: "blk_list r = xs @ ys" and k: "stacked (rbb_base r) (rbb_blocks r (ys @ xs)) (rbb_top r)"
    using ok by (auto simp: rbb_ok_def)
  then have "blk_set r ! i \<in> set (rbb_blocks r (ys @ xs))" using i by (auto simp: rbb_blocks_def)
  then show ?thesis by (rule stacked_inside [OF k])
qed

lemma rbb_ok_apart:
  assumes ok: "rbb_ok r" and ij: "i \<in> set (blk_list r)" "j \<in> set (blk_list r)" "i \<noteq> j"
  shows "{blk_start (blk_set r ! i)..<blk_end (blk_set r ! i)} \<inter> {blk_start (blk_set r ! j)..<blk_end (blk_set r ! j)} = {}"
proof -
  obtain xs ys where l: "blk_list r = xs @ ys" and k: "stacked (rbb_base r) (rbb_blocks r (ys @ xs)) (rbb_top r)"
    using ok by (auto simp: rbb_ok_def)
  obtain m n where m: "m < length (ys @ xs)" "(ys @ xs) ! m = i" and n: "n < length (ys @ xs)" "(ys @ xs) ! n = j"
    using ij l by (metis in_set_conv_nth Un_commute set_append)
  have nth: "rbb_blocks r (ys @ xs) ! q = blk_set r ! ((ys @ xs) ! q)" if "q < length (ys @ xs)" for q
    using that unfolding rbb_blocks_def by (rule nth_map)
  have "length (rbb_blocks r (ys @ xs)) = length (ys @ xs)" by (simp add: rbb_blocks_def)
  then have "blk_end (blk_set r ! i) \<le> blk_start (blk_set r ! j) \<or> blk_end (blk_set r ! j) \<le> blk_start (blk_set r ! i)"
    using stacked_apart [OF k, of m n] stacked_apart [OF k, of n m] nth [OF m(1)] nth [OF n(1)] m n ij(3) by (metis nat_neq_iff)
  then show ?thesis by (auto simp: disjoint_iff)
qed

text \<open>C15: On a ring block buffer at a non-zero address that ends below \<open>2^32\<close>, with as many entries as it was told, every
  sequence of allocations of at least one byte, less than \<open>2^24\<close> bytes (the size field has 24 bits; an assertion refuses
  more) and no more than the buffer, and of releases in any order runs to its end. At every point the blocks that are held are distinct, they lie in the buffer and
  no two share a byte, however often the allocations wrapped around. When all of them are given back the list is empty and, if there
  is an entry at all, the next allocation of any of these sizes succeeds.\<close>

theorem rbb_sequences:
  assumes "rt_rbb_init buf sz bs n = Some r" and "buf \<noteq> 0" and "unat buf + unat sz < 2 ^ 32" and "length bs = unat n"
    and "\<And>len. Get len \<in> set cs \<Longrightarrow> 0 < len \<and> len < 2 ^ 24 \<and> len \<le> sz"
  shows "\<exists>r' is r2. serve rt_rbb_blk_alloc rt_rbb_blk_free cs (r, []) = Some (r', is) \<and> distinct is \<and>
     (\<forall>i \<in> set is. unat buf \<le> blk_start (blk_set r' ! i) \<and> blk_end (blk_set r' ! i) \<le> unat buf + unat sz) \<and>
     (\<forall>i \<in> set is. \<forall>j \<in> set is. i \<noteq> j \<longrightarrow>
        {blk_start (blk_set r' ! i)..<blk_end (blk_set r' ! i)} \<inter> {blk_start (blk_set r' ! j)..<blk_end (blk_set r' ! j)} = {}) \<and>
     serve rt_rbb_blk_alloc rt_rbb_blk_free (replicate (length is) (Put 0)) (r', is) = Some (r2, []) \<and> blk_list r2 = [] \<and>
     (0 < n \<longrightarrow> (\<forall>len. 0 < len \<and> len < 2 ^ 24 \<and> len \<le> sz \<longrightarrow> (\<exists>i r3. rt_rbb_blk_alloc len r2 = Some (Some i, r3))))"
proof -
  have "rbb_state buf (unat sz) n r (set [])" using rbb_init_ready [OF assms(2-4)] assms(1) by auto
  moreover have "rbb_request (unat sz) len" if "Get len \<in> set cs" for len
    using assms(5) [OF that] by (simp add: rbb_request_def word_le_nat_alt)
  ultimately obtain r' "is" where 1: "serve rt_rbb_blk_alloc rt_rbb_blk_free cs (r, []) = Some (r', is)"
      "rbb_state buf (unat sz) n r' (set is)" "distinct is"
    using rbb.serve_safe [of buf "unat sz" n r "[]" cs] by auto
  obtain r2 where 2: "serve rt_rbb_blk_alloc rt_rbb_blk_free (replicate (length is) (Put 0)) (r', is) = Some (r2, [])"
      "rbb_state buf (unat sz) n r2 {}"
    using rbb.serve_return [OF 1(2,3)] by blast
  have s: "rbb_ok r'" "set (blk_list r') = set is" "rbb_base r' = unat buf" "rbb_top r' = unat buf + unat sz"
    using 1(2) by (auto simp: rbb_state_def rbb_base_def rbb_top_def)
  have "\<exists>i r3. rt_rbb_blk_alloc len r2 = Some (Some i, r3)" if "0 < n" "0 < len" "len < 2 ^ 24" "len \<le> sz" for len
    by (rule rbb_alloc_empty [OF 2(2) _ that(1)]) (use that in \<open>simp add: rbb_request_def word_le_nat_alt\<close>)
  then show ?thesis
    using 1(1,3) 2(1) rbb_ok_inside [OF s(1)] rbb_ok_apart [OF s(1)] s(2-4) 2(2)
    by (intro exI [of _ r'] exI [of _ "is"] exI [of _ r2] conjI) (auto simp: rbb_state_def)
qed

text \<open>A buffer of 16 bytes at 1000 with three blocks; the fourth request finds no free entry, the sixth wraps around.\<close>

definition sample_blocks :: "rt_rbb_blk list" where
  "sample_blocks = replicate 3 \<lparr>blk_status = RT_RBB_BLK_GET, blk_size = 0, blk_buf = 0\<rparr>"

definition sample_rbb :: rt_rbb where
  "sample_rbb = \<lparr>rbb_buf = 1000, rbb_buf_size = 16, blk_set = replicate 3 \<lparr>blk_status = RT_RBB_BLK_UNUSED, blk_size = 0, blk_buf = 0\<rparr>,
     blk_max_num = 3, blk_list = []\<rparr>"

lemma sample_rbb_init: "rt_rbb_init 1000 16 sample_blocks 3 = Some sample_rbb"
  by code_simp

lemma rbb_sequences_witness:
  "\<exists>r' is r2. serve rt_rbb_blk_alloc rt_rbb_blk_free [Get 6, Get 4, Get 5, Get 1, Put 0, Get 6] (sample_rbb, []) = Some (r', is) \<and>
     distinct is \<and> serve rt_rbb_blk_alloc rt_rbb_blk_free (replicate (length is) (Put 0)) (r', is) = Some (r2, []) \<and> blk_list r2 = []"
proof -
  have 1: "0 < len \<and> len < 2 ^ 24 \<and> len \<le> (16 :: u32)" if "Get len \<in> set [Get 6, Get 4, Get 5, Get 1, Put 0, Get 6]" for len
    using that by auto
  have 2: "(1000 :: u32) \<noteq> 0" "unat (1000 :: u32) + unat (16 :: u32) < 2 ^ 32" "length sample_blocks = unat (3 :: u32)"
    by (simp_all add: sample_blocks_def)
  show ?thesis using rbb_sequences [OF sample_rbb_init 2 1] by blast
qed

subsection \<open>Queues of blocks\<close>

text \<open>The blocks that can make the next queue: the first one that was put, and those behind it that were put and have no
  smaller address than the one before.\<close>

fun put_run :: "rt_rbb \<Rightarrow> nat \<Rightarrow> nat list \<Rightarrow> nat list" where
  "put_run r l [] = []"
| "put_run r l (i # is) =
     (if blk_status (blk_set r ! i) = RT_RBB_BLK_PUT \<and> blk_buf (blk_set r ! l) \<le> blk_buf (blk_set r ! i) then i # put_run r i is else [])"

fun first_run :: "rt_rbb \<Rightarrow> nat list \<Rightarrow> nat list" where
  "first_run r [] = []"
| "first_run r (i # is) = (if blk_status (blk_set r ! i) = RT_RBB_BLK_PUT then i # put_run r i is else first_run r is)"

text \<open>As many of them as fit into a length.\<close>

definition sizes :: "rt_rbb \<Rightarrow> nat list \<Rightarrow> nat" where
  "sizes r is = (\<Sum>i\<leftarrow>is. unat (blk_size (blk_set r ! i)))"

fun fitting :: "rt_rbb \<Rightarrow> nat \<Rightarrow> nat \<Rightarrow> nat list \<Rightarrow> nat list" where
  "fitting r len tot [] = []"
| "fitting r len tot (i # is) =
     (let tot = tot + unat (blk_size (blk_set r ! i)) in if tot \<le> len then i # fitting r len tot is else [])"

lemma sizes_simps [simp]: "sizes r [] = 0" "sizes r (i # is) = unat (blk_size (blk_set r ! i)) + sizes r is"
  by (simp_all add: sizes_def)

lemma put_run_sizes: "sizes r (put_run r l is) \<le> sizes r is"
  by (induction r l "is" rule: put_run.induct) auto

lemma unat_add_small: "unat a + unat b < 2 ^ 32 \<Longrightarrow> unat (a + b :: u32) = unat a + unat b"
  by (simp add: unat_add_lem [THEN iffD1])

lemma next_len_loop_run:
  "unat tot + sizes r is < 2 ^ 32 \<Longrightarrow> unat (next_len_loop (Some l) tot is r) = unat tot + sizes r (put_run r l is)"
proof (induction "is" arbitrary: l tot)
  case (Cons i "is")
  have "unat (tot + blk_size (blk_set r ! i)) = unat tot + unat (blk_size (blk_set r ! i))" using Cons.prems by (intro unat_add_small) simp
  then show ?case using Cons.IH [of "tot + blk_size (blk_set r ! i)" i] Cons.prems by auto
qed simp

lemma next_len_run:
  "sizes r is < 2 ^ 32 \<Longrightarrow> unat (next_len_loop None 0 is r) = sizes r (first_run r is)"
  by (induction "is") (auto simp: next_len_loop_run)

text \<open>Blocks that a queue took before do not change what the loop sees.\<close>

definition same_blocks :: "nat list \<Rightarrow> rt_rbb \<Rightarrow> rt_rbb \<Rightarrow> bool" where
  "same_blocks is r s = (\<forall>i. blk_buf (blk_set s ! i) = blk_buf (blk_set r ! i) \<and> blk_size (blk_set s ! i) = blk_size (blk_set r ! i) \<and>
     (i \<in> set is \<longrightarrow> blk_status (blk_set s ! i) = blk_status (blk_set r ! i)))"

lemma upd_status_other: "i \<noteq> j \<Longrightarrow> blk_set (upd_blk i f r) ! j = blk_set r ! j"
  by (simp add: upd_blk_def)

lemma same_blocks_take: "\<lbrakk>same_blocks (i # is) r s; i \<notin> set is\<rbrakk> \<Longrightarrow> same_blocks is r (queue_take i s)"
  by (auto simp: same_blocks_def queue_take_def) (subst upd_status_other; auto)

lemma queue_loop_run:
  "\<lbrakk>same_blocks is r s; distinct is; unat tot + sizes r is < 2 ^ 32\<rbrakk> \<Longrightarrow>
   (let js = fitting r (unat len) (unat tot) (put_run r l is) in
    queue_loop len (Some l) tot q is s =
      (tot + of_nat (sizes r js), q\<lparr>queue_blk_num := queue_blk_num q + of_nat (length js)\<rparr>, fold queue_take js s))"
proof (induction "is" arbitrary: l tot q s)
  case (Cons i "is")
  let ?b = "blk_set r ! i"
  have s: "blk_status (blk_set s ! i) = blk_status ?b" "\<And>j. blk_buf (blk_set s ! j) = blk_buf (blk_set r ! j)" "blk_size (blk_set s ! i) = blk_size ?b"
    using Cons.prems(1) by (auto simp: same_blocks_def)
  have u: "unat (tot + blk_size ?b) = unat tot + unat (blk_size ?b)" using Cons.prems(3) by (intro unat_add_small) simp
  have n: "same_blocks is r (queue_take i s)" using Cons.prems by (auto intro: same_blocks_take)
  show ?case
    using Cons.IH [of "queue_take i s" "tot + blk_size ?b" i "q\<lparr>queue_blk_num := queue_blk_num q + 1\<rparr>"] Cons.prems(2,3) n u s
    by (auto simp: Let_def word_le_nat_alt word_less_nat_alt not_less add.assoc)
qed simp

lemma first_run_split: "\<exists>as cs. is = as @ first_run r is @ cs"
proof -
  have p: "\<exists>cs. is = put_run r l is @ cs" for l "is" by (induction r l "is" rule: put_run.induct) auto
  show ?thesis
  proof (induction "is")
    case (Cons i "is")
    then obtain as cs where "is = as @ first_run r is @ cs" by blast
    moreover obtain ds where "is = put_run r i is @ ds" using p by blast
    ultimately have "i # is = (i # as) @ first_run r is @ cs" "i # is = [] @ (i # put_run r i is) @ ds" by simp_all
    then show ?case by (metis first_run.simps(2))
  qed simp
qed

lemma fitting_prefix: "\<exists>ls. is = fitting r len tot is @ ls"
  by (induction r len tot "is" rule: fitting.induct) (auto simp: Let_def)

lemma queue_take_ok: "\<lbrakk>rbb_ok r; distinct (js :: nat list)\<rbrakk> \<Longrightarrow> rbb_ok (fold queue_take js r) \<and> blk_list (fold queue_take js r) = filter (\<lambda>j. j \<notin> set js) (blk_list r)"
proof (induction js arbitrary: r)
  case (Cons j js)
  have "rbb_ok (queue_take j r)" unfolding queue_take_def by (rule rbb_ok_unlink [OF Cons.prems(1)])
  moreover have "blk_list (queue_take j r) = filter ((\<noteq>) j) (blk_list r)"
    using Cons.prems(1) by (simp add: queue_take_def rbb_ok_def distinct_remove1_removeAll removeAll_filter_not_eq)
  ultimately show ?case using Cons.IH [of "queue_take j r"] Cons.prems(2) by (simp add: conj_commute) (metis)
qed simp

lemma rbb_ok_sizes: "rbb_ok r \<Longrightarrow> sizes r (blk_list r) < 2 ^ 32"
proof -
  assume ok: "rbb_ok r"
  then obtain xs ys where "blk_list r = xs @ ys" and k: "stacked (rbb_base r) (rbb_blocks r (ys @ xs)) (rbb_top r)"
    by (auto simp: rbb_ok_def)
  then have "sizes r (blk_list r) = (\<Sum>b\<leftarrow>rbb_blocks r (ys @ xs). unat (blk_size b))" by (simp add: sizes_def rbb_blocks_def comp_def)
  then show ?thesis using stacked_sum [OF k] ok by (simp add: rbb_ok_def)
qed

text \<open>The blocks of a run follow each other in memory.\<close>

lemma put_run_ascends:
  "\<lbrakk>rbb_ok r; set (l # is) \<subseteq> set (blk_list r); distinct (l # is)\<rbrakk> \<Longrightarrow>
   successively (\<lambda>i j. blk_end (blk_set r ! i) \<le> blk_start (blk_set r ! j)) (l # put_run r l is)"
proof (induction "is" arbitrary: l)
  case (Cons i "is")
  have "blk_end (blk_set r ! l) \<le> blk_start (blk_set r ! i)" if "blk_buf (blk_set r ! l) \<le> blk_buf (blk_set r ! i)"
  proof -
    have "blk_start (blk_set r ! l) \<le> blk_start (blk_set r ! i)" using that by (simp add: blk_start_def word_le_nat_alt)
    moreover have "blk_start (blk_set r ! i) < blk_end (blk_set r ! i)" using rbb_ok_inside [OF Cons.prems(1), of i] Cons.prems(2) by (auto intro: blk_order)
    ultimately show ?thesis using rbb_ok_apart [OF Cons.prems(1), of l i] Cons.prems(2,3) by (force simp: disjoint_iff)
  qed
  then show ?case using Cons by auto
qed simp

lemma first_run_ascends:
  "\<lbrakk>rbb_ok r; set is \<subseteq> set (blk_list r); distinct is\<rbrakk> \<Longrightarrow>
   successively (\<lambda>i j. blk_end (blk_set r ! i) \<le> blk_start (blk_set r ! j)) (first_run r is)"
  by (induction "is") (auto simp: put_run_ascends)

lemma queue_take_status:
  "j < length (blk_set s) \<Longrightarrow> blk_status (blk_set (queue_take i s) ! j) = (if j = i then RT_RBB_BLK_GET else blk_status (blk_set s ! j))"
  by (simp add: queue_take_def)

lemma fold_queue_take_status:
  "\<lbrakk>j \<in> set js; j < length (blk_set r)\<rbrakk> \<Longrightarrow> blk_status (blk_set (fold queue_take js r) ! j) = RT_RBB_BLK_GET"
proof (induction js rule: rev_induct)
  case (snoc i js)
  have "length (blk_set (fold queue_take js r)) = length (blk_set r)"
    by (induction js arbitrary: r) (simp_all add: queue_take_def)
  then show ?case using snoc by (auto simp: queue_take_status)
qed simp

lemma fitting_all: "tot + sizes r is \<le> len \<Longrightarrow> fitting r len tot is = is"
  by (induction "is" arbitrary: tot) (auto simp: Let_def)

lemma fitting_bound: "tot \<le> len \<Longrightarrow> tot + sizes r (fitting r len tot is) \<le> len"
  by (induction "is" arbitrary: tot) (fastforce simp: Let_def)+

text \<open>The blocks that a queue of a length gets: the first of the run in any case, and the next ones as far as they fit.\<close>

fun queue_members :: "rt_rbb \<Rightarrow> nat \<Rightarrow> nat list \<Rightarrow> nat list" where
  "queue_members r len [] = []"
| "queue_members r len (i # is) = i # fitting r len (unat (blk_size (blk_set r ! i))) is"

lemma queue_members_bound: "length (queue_members r len is) \<le> 1 \<or> sizes r (queue_members r len is) \<le> len"
proof (cases "is")
  case (Cons i js)
  show ?thesis
  proof (cases "unat (blk_size (blk_set r ! i)) \<le> len")
    case True
    then show ?thesis using fitting_bound [OF True, of r js] Cons by simp
  next
    case False
    then show ?thesis using Cons by (cases js) (auto simp: Let_def)
  qed
qed simp

lemma queue_get_run:
  "\<lbrakk>same_blocks is r s; distinct is; sizes r is < 2 ^ 32\<rbrakk> \<Longrightarrow>
   (let js = queue_members r (unat len) (first_run r is) in
    queue_loop len None 0 q is s =
      (of_nat (sizes r js), (if js = [] then q else \<lparr>queue_blocks = hd js, queue_blk_num = of_nat (length js)\<rparr>), fold queue_take js s))"
proof (induction "is" arbitrary: s)
  case (Cons i "is")
  show ?case
  proof (cases "blk_status (blk_set r ! i) = RT_RBB_BLK_PUT")
    case True
    have s: "blk_status (blk_set s ! i) = blk_status (blk_set r ! i)" "blk_size (blk_set s ! i) = blk_size (blk_set r ! i)"
      using Cons.prems(1) by (auto simp: same_blocks_def)
    have n: "same_blocks is r (queue_take i s)" using Cons.prems by (auto intro: same_blocks_take)
    show ?thesis
      using queue_loop_run [OF n, of "blk_size (blk_set r ! i)" len i "\<lparr>queue_blocks = i, queue_blk_num = 1\<rparr>"] Cons.prems(2,3) True s
      by (simp add: Let_def)
  next
    case False
    moreover have "same_blocks is r s" "blk_status (blk_set s ! i) = blk_status (blk_set r ! i)" using Cons.prems(1) by (auto simp: same_blocks_def)
    ultimately show ?thesis using Cons.IH [of s] Cons.prems(2,3) by simp
  qed
qed simp

lemma fitting_maximal:
  "\<lbrakk>is = fitting r len tot is @ ls; ls \<noteq> []\<rbrakk> \<Longrightarrow> len < tot + sizes r (fitting r len tot is @ [hd ls])"
proof (induction "is" arbitrary: tot)
  case (Cons i "is")
  let ?t = "tot + unat (blk_size (blk_set r ! i))"
  show ?case
  proof (cases "?t \<le> len")
    case True
    then have "len < ?t + sizes r (fitting r len ?t is @ [hd ls])" using Cons by (simp add: Let_def)
    then show ?thesis using True by (simp add: Let_def)
  next
    case False
    then have "ls = i # is" using Cons.prems by (simp add: Let_def)
    then show ?thesis using False by (simp add: Let_def)
  qed
qed simp

lemma queue_members_maximal:
  assumes "is = queue_members r len is @ ls" and "ls \<noteq> []"
  shows "len < sizes r (queue_members r len is @ [hd ls])"
proof (cases "is")
  case (Cons i js)
  then show ?thesis using fitting_maximal [of js r len "unat (blk_size (blk_set r ! i))" ls] assms by simp
qed (use assms in simp)

lemma queue_take_other: "i \<noteq> j \<Longrightarrow> blk_set (queue_take i s) ! j = blk_set s ! j"
  by (simp add: queue_take_def upd_blk_def)

lemma queue_take_same:
  "i < length (blk_set s) \<Longrightarrow> blk_set (queue_take i s) ! i = (blk_set s ! i)\<lparr>blk_status := RT_RBB_BLK_GET\<rparr>"
  by (simp add: queue_take_def upd_blk_def)

lemma queue_take_frame [simp]:
  "length (blk_set (queue_take i s)) = length (blk_set s)" "rbb_buf (queue_take i s) = rbb_buf s"
  "rbb_buf_size (queue_take i s) = rbb_buf_size s" "blk_max_num (queue_take i s) = blk_max_num s"
  by (simp_all add: queue_take_def upd_blk_def)

lemma fold_queue_take_frame [simp]:
  "length (blk_set (fold queue_take js r)) = length (blk_set r)" "rbb_buf (fold queue_take js r) = rbb_buf r"
  "rbb_buf_size (fold queue_take js r) = rbb_buf_size r" "blk_max_num (fold queue_take js r) = blk_max_num r"
  by (induction js arbitrary: r) simp_all

text \<open>Exactly the blocks of a queue are marked, and nothing else in the array changes.\<close>

lemma fold_queue_take_blocks:
  "\<lbrakk>distinct js; set js \<subseteq> {..<length (blk_set r)}\<rbrakk> \<Longrightarrow> blk_set (fold queue_take js r) ! j =
     (if j \<in> set js then (blk_set r ! j)\<lparr>blk_status := RT_RBB_BLK_GET\<rparr> else blk_set r ! j)"
proof (induction js arbitrary: r)
  case (Cons i js)
  then show ?case by (cases "j = i") (simp_all add: queue_take_other queue_take_same)
qed simp

text \<open>C16: A queue of blocks is a run of the list: the first block that was put and those behind it that were put and lie
  behind it in memory, one after the other without sharing a byte. \<^verbatim>\<open>rt_rbb_next_blk_queue_len\<close> is the size of the whole run.
  \<^verbatim>\<open>rt_rbb_blk_queue_get\<close> takes a prefix of the run: its first block, even when that is larger than the length asked for, and
  as many of the next ones as fit (the block behind those it took would exceed the length). It returns the exact size of what
  it took, which is at most the length unless only one block was taken; the comment that the result is below the length is
  not what the code does. It marks these blocks and takes them off the list; the other blocks, their order and the buffer
  stay as they were, and without a run nothing changes.\<close>

theorem rbb_queue_get:
  assumes ok: "rbb_ok r" and g: "rt_rbb_blk_queue_get len q r = (n, q', r')"
  defines "ready \<equiv> first_run r (blk_list r)"
  shows "(\<exists>js ls. ready = js @ ls \<and> unat n = sizes r js \<and> (js = [] \<longleftrightarrow> ready = []) \<and>
       (length js \<le> 1 \<or> sizes r js \<le> unat len) \<and> (ls \<noteq> [] \<longrightarrow> unat len < sizes r (js @ [hd ls])) \<and>
       blk_list r' = filter (\<lambda>i. i \<notin> set js) (blk_list r) \<and>
       (\<forall>i. blk_set r' ! i = (if i \<in> set js then (blk_set r ! i)\<lparr>blk_status := RT_RBB_BLK_GET\<rparr> else blk_set r ! i)) \<and>
       length (blk_set r') = length (blk_set r) \<and> rbb_buf r' = rbb_buf r \<and> rbb_buf_size r' = rbb_buf_size r \<and>
       blk_max_num r' = blk_max_num r \<and>
       (if js = [] then q' = q \<and> r' = r else q' = \<lparr>queue_blocks = hd js, queue_blk_num = of_nat (length js)\<rparr>)) \<and>
     unat (rt_rbb_next_blk_queue_len r) = sizes r ready \<and> rbb_ok r' \<and>
     successively (\<lambda>i j. blk_end (blk_set r ! i) \<le> blk_start (blk_set r ! j)) ready"
proof -
  have d: "distinct (blk_list r)" and z: "sizes r (blk_list r) < 2 ^ 32" using ok rbb_ok_sizes by (auto simp: rbb_ok_def)
  obtain js where js: "js = queue_members r (unat len) ready" by simp
  have "rt_rbb_blk_queue_get len q r =
      (of_nat (sizes r js), (if js = [] then q else \<lparr>queue_blocks = hd js, queue_blk_num = of_nat (length js)\<rparr>), fold queue_take js r)"
    using queue_get_run [of "blk_list r" r r len q] d z by (simp add: ready_def rt_rbb_blk_queue_get_def same_blocks_def Let_def js)
  then have v: "n = of_nat (sizes r js)" "q' = (if js = [] then q else \<lparr>queue_blocks = hd js, queue_blk_num = of_nat (length js)\<rparr>)"
      "r' = fold queue_take js r" using g by auto
  obtain as cs where l: "blk_list r = as @ ready @ cs" using first_run_split unfolding ready_def by blast
  obtain ls where ls: "ready = js @ ls" using fitting_prefix unfolding js by (cases ready) (simp, fastforce)
  have m: "distinct js" "set js \<subseteq> set (blk_list r)" using d l ls by auto
  then have i: "set js \<subseteq> {..<length (blk_set r)}" using ok by (auto simp: rbb_ok_def)
  have t: "rbb_ok r'" "blk_list r' = filter (\<lambda>i. i \<notin> set js) (blk_list r)" using queue_take_ok [OF ok m(1)] v(3) by auto
  have w: "js = [] \<longleftrightarrow> ready = []" unfolding js by (cases ready) simp_all
  have y: "if js = [] then q' = q \<and> r' = r else q' = \<lparr>queue_blocks = hd js, queue_blk_num = of_nat (length js)\<rparr>"
    using v(2,3) by simp
  have x: "length js \<le> 1 \<or> sizes r js \<le> unat len" unfolding js by (rule queue_members_bound)
  have mx: "ls \<noteq> [] \<longrightarrow> unat len < sizes r (js @ [hd ls])"
    using queue_members_maximal [of ready r "unat len" ls] ls unfolding js by simp
  have "sizes r js \<le> sizes r (blk_list r)" using l ls by (simp add: sizes_def)
  then have n: "unat n = sizes r js" using z v(1) by (simp add: unat_of_nat)
  have e: "\<forall>i. blk_set r' ! i = (if i \<in> set js then (blk_set r ! i)\<lparr>blk_status := RT_RBB_BLK_GET\<rparr> else blk_set r ! i)"
    unfolding v(3) using fold_queue_take_blocks [OF m(1) i] by blast
  have "unat (rt_rbb_next_blk_queue_len r) = sizes r ready"
    using next_len_run [OF z] by (simp add: rt_rbb_next_blk_queue_len_def ready_def)
  moreover have "successively (\<lambda>i j. blk_end (blk_set r ! i) \<le> blk_start (blk_set r ! j)) ready"
    unfolding ready_def by (rule first_run_ascends [OF ok _ d]) simp
  moreover have "length (blk_set r') = length (blk_set r) \<and> rbb_buf r' = rbb_buf r \<and> rbb_buf_size r' = rbb_buf_size r \<and>
      blk_max_num r' = blk_max_num r" by (simp add: v(3))
  ultimately show ?thesis using n ls t w x y mx e by blast
qed

text \<open>A buffer of 12 bytes with a block that is still written and two that were put.\<close>

definition filled_rbb :: rt_rbb where
  "filled_rbb = \<lparr>rbb_buf = 1000, rbb_buf_size = 12,
     blk_set = [\<lparr>blk_status = RT_RBB_BLK_INITED, blk_size = 4, blk_buf = 1000\<rparr>, \<lparr>blk_status = RT_RBB_BLK_PUT, blk_size = 2, blk_buf = 1004\<rparr>,
                \<lparr>blk_status = RT_RBB_BLK_PUT, blk_size = 3, blk_buf = 1006\<rparr>],
     blk_max_num = 3, blk_list = [0, 1, 2]\<rparr>"

lemma filled_rbb_ok: "rbb_ok filled_rbb"
proof -
  have "blk_list filled_rbb = [0, 1, 2] @ [] \<and> stacked (rbb_base filled_rbb) (rbb_blocks filled_rbb ([] @ [0, 1, 2])) (rbb_top filled_rbb)"
    by (simp add: filled_rbb_def rbb_base_def rbb_top_def rbb_blocks_def blk_start_def blk_end_def)
  then have "\<exists>xs ys. blk_list filled_rbb = xs @ ys \<and> (xs = [] \<longrightarrow> ys = []) \<and>
      stacked (rbb_base filled_rbb) (rbb_blocks filled_rbb (ys @ xs)) (rbb_top filled_rbb)" by blast
  then show ?thesis unfolding rbb_ok_def by (simp add: filled_rbb_def rbb_top_def)
qed

lemma rbb_queue_get_witness:
  "\<exists>n q r'. rt_rbb_blk_queue_get 4 \<lparr>queue_blocks = 0, queue_blk_num = 0\<rparr> filled_rbb = (n, q, r') \<and>
     unat (rt_rbb_next_blk_queue_len filled_rbb) = 5 \<and> n = 2 \<and> blk_list r' = [0, 2] \<and>
     blk_set r' ! 2 = blk_set filled_rbb ! 2 \<and> rbb_ok r'"
proof -
  obtain n q r' where g: "rt_rbb_blk_queue_get 4 \<lparr>queue_blocks = 0, queue_blk_num = 0\<rparr> filled_rbb = (n, q, r')" by (metis prod_cases3)
  have f: "first_run filled_rbb [0, 1, 2] = [1, 2]" "sizes filled_rbb [1, 2] = 5" "blk_list filled_rbb = [0, 1, 2]"
    by (simp_all add: filled_rbb_def)
  note Q = rbb_queue_get [OF filled_rbb_ok g, unfolded f(3), unfolded f(1)]
  from Q obtain js ls where js: "[1, 2] = js @ ls" "unat n = sizes filled_rbb js" "js \<noteq> []"
      "length js \<le> 1 \<or> sizes filled_rbb js \<le> unat (4 :: u32)"
      "blk_list r' = filter (\<lambda>i. i \<notin> set js) [0, 1, 2]"
      "\<forall>i. blk_set r' ! i = (if i \<in> set js then (blk_set filled_rbb ! i)\<lparr>blk_status := RT_RBB_BLK_GET\<rparr> else blk_set filled_rbb ! i)"
    by blast
  have j: "js = [1]" using js(1,3,4) f(2) by (auto simp: Cons_eq_append_conv)
  have "unat n = 2" using js(2) j by (simp add: filled_rbb_def)
  then have "n = 2" by (simp add: word_unat_eq_iff)
  moreover have "blk_list r' = [0, 2]" "blk_set r' ! 2 = blk_set filled_rbb ! 2" using js(5,6) j by simp_all
  moreover have "unat (rt_rbb_next_blk_queue_len filled_rbb) = 5" "rbb_ok r'" using Q unfolding f(2) by blast+
  ultimately show ?thesis using g by blast
qed

subsection \<open>Faults\<close>

text \<open>Where the ring block buffer breaks. Into an empty list a block is put whatever its size, here 100 bytes into a buffer of
  12. With three blocks, of which the first is given back and allocated again, a queue of two blocks is not in the order of the
  array: \<^verbatim>\<open>rt_rbb_blk_queue_free\<close> frees the wrong entries and stops at an assertion. The blocks of a queue leave the list while
  they are read: the next allocation gives out the memory of the queue. When a block between two others is given back
  unused, the two make a queue of 8 bytes that \<^verbatim>\<open>rt_rbb_blk_queue_buf\<close> shows as one piece, with the hole in between. A queue
  whose first block is larger than the length that was asked for gets that block.\<close>

theorem rbb_faults:
  "let r = sample_rbb\<lparr>rbb_buf_size := 12\<rparr>; q = \<lparr>queue_blocks = 0, queue_blk_num = 0\<rparr> in
   map_option (\<lambda>(i, s). (i, blk_end (blk_set s ! 0) - rbb_top s)) (rt_rbb_blk_alloc 100 r) = Some (Some 0, 88) \<and>
   do { (i, s) \<leftarrow> rt_rbb_blk_alloc 4 r; (j, s) \<leftarrow> rt_rbb_blk_alloc 4 s; s \<leftarrow> rt_rbb_blk_put 1 s; s \<leftarrow> rt_rbb_blk_free 0 s;
        (k, s) \<leftarrow> rt_rbb_blk_alloc 4 s; s \<leftarrow> rt_rbb_blk_put 0 s; let (n, q, s) = rt_rbb_blk_queue_get 100 q s;
        Some (i, j, k, n, rt_rbb_blk_queue_free q s = None) } = Some (Some 0, Some 1, Some 0, 8, True) \<and>
   do { (i, s) \<leftarrow> rt_rbb_blk_alloc 8 r; s \<leftarrow> rt_rbb_blk_put 0 s; let (n, q, s) = rt_rbb_blk_queue_get 100 q s; (j, s) \<leftarrow> rt_rbb_blk_alloc 8 s;
        Some (i, j, n, rt_rbb_blk_queue_buf q s, rt_rbb_blk_buf 1 s) } = Some (Some 0, Some 1, 8, Some 1000, Some 1000) \<and>
   do { (i, s) \<leftarrow> rt_rbb_blk_alloc 4 r; (j, s) \<leftarrow> rt_rbb_blk_alloc 4 s; (k, s) \<leftarrow> rt_rbb_blk_alloc 4 s; s \<leftarrow> rt_rbb_blk_free 1 s;
        s \<leftarrow> rt_rbb_blk_put 0 s; s \<leftarrow> rt_rbb_blk_put 2 s; let (n, q, s) = rt_rbb_blk_queue_get 100 q s;
        Some (n, rt_rbb_blk_queue_buf q s, rt_rbb_blk_buf 2 s) } = Some (8, Some 1000, Some 1008) \<and>
   do { (i, s) \<leftarrow> rt_rbb_blk_alloc 8 r; s \<leftarrow> rt_rbb_blk_put 0 s; Some (fst (rt_rbb_blk_queue_get 4 q s)) } = Some 8"
  by code_simp

end
