(* ===== verification/Slab_Pages.thy ===== *)
theory Slab_Pages
  imports Prelude
begin

unbundle bit_operations_syntax

text \<open>
  The system heap of \<^verbatim>\<open>kernel/src/slab_fh.c\<close>, its data and its lower layer, which hands out pages of 4096 bytes. The free
  pages are a list of runs, joined through an array with an entry for each page: an entry that starts a run has its length and
  the index of the next run. The macro \<^verbatim>\<open>BUG\<close>, which writes to the address 0, is \<open>None\<close>. The memory tracing of the
  file is configured out.
\<close>

abbreviation (input) MM_PAGE_BITS :: nat where "MM_PAGE_BITS \<equiv> 12"
abbreviation (input) MM_PAGE_SIZE :: u32 where "MM_PAGE_SIZE \<equiv> 4096"
abbreviation (input) MM_PAGE_MASK :: u32 where "MM_PAGE_MASK \<equiv> 4095"
abbreviation (input) END_FLAG :: u32 where "END_FLAG \<equiv> 0xffff"

record page_allocator =
  pa_page :: u16
  pa_next :: u16

datatype page_type = PAGE_TYPE_FREE | PAGE_TYPE_PAGE | PAGE_TYPE_ZONE | PAGE_TYPE_CACHE

record page_man =
  page_type :: page_type
  zone_index :: "5 word"
  page_prev :: "20 word"
  free_trunks :: "12 word"
  page_next :: "20 word"
  trunk_bitmap :: "64 word"

record mem_pool =
  inited :: bool
  page_num :: u32
  heap_start :: u32
  heap_end :: u32
  page_alloctor :: "page_allocator list"
  alloctor_list :: u16
  pgman_array :: "page_man list"
  zone_alloc_list :: "int list"
  zone_cache_list :: int
  zone_cache_count :: int
  used_mem :: int
  max_mem :: int
  block_used_bytes :: int
  block_used_bytes_max :: int
  zone_num :: "int list"
  zone_num_max :: "int list"
  zone_used_bytes :: "int list"
  zone_used_bytes_max :: "int list"

definition addr_2_pgidx :: "mem_pool \<Rightarrow> u32 \<Rightarrow> u32" where
  "addr_2_pgidx pool addr = drop_bit MM_PAGE_BITS (addr - heap_start pool)"

definition pgidx_2_addr :: "mem_pool \<Rightarrow> u32 \<Rightarrow> u32" where
  "pgidx_2_addr pool pgidx = heap_start pool + push_bit MM_PAGE_BITS pgidx"

definition bug_if :: "bool \<Rightarrow> unit option" where
  "bug_if c = (if c then None else Some ())"

subsection \<open>The array of runs\<close>

text \<open>The pointer \<^verbatim>\<open>prev\<close> of the loops: to the head of the list, or to the link of an entry.\<close>

datatype pa_slot = List_Head | Next_Of nat

definition pa_at :: "u32 \<Rightarrow> mem_pool \<Rightarrow> page_allocator option" where
  "pa_at i pool = (if unat i < length (page_alloctor pool) then Some (page_alloctor pool ! unat i) else None)"

definition pa_set :: "u32 \<Rightarrow> page_allocator \<Rightarrow> mem_pool \<Rightarrow> mem_pool option" where
  "pa_set i b pool =
     (if unat i < length (page_alloctor pool) then Some (pool\<lparr>page_alloctor := (page_alloctor pool)[unat i := b]\<rparr>) else None)"

fun slot_get :: "pa_slot \<Rightarrow> mem_pool \<Rightarrow> u16" where
  "slot_get List_Head pool = alloctor_list pool"
| "slot_get (Next_Of j) pool = pa_next (page_alloctor pool ! j)"

fun slot_set :: "pa_slot \<Rightarrow> u16 \<Rightarrow> mem_pool \<Rightarrow> mem_pool" where
  "slot_set List_Head i pool = pool\<lparr>alloctor_list := i\<rparr>"
| "slot_set (Next_Of j) i pool = pool\<lparr>page_alloctor := (page_alloctor pool)[j := (page_alloctor pool ! j)\<lparr>pa_next := i\<rparr>]\<rparr>"

subsection \<open>Allocation of pages\<close>

text \<open>The run \<open>b\<close> at \<open>index\<close> is long enough: its first pages are taken.\<close>

definition page_take :: "u32 \<Rightarrow> pa_slot \<Rightarrow> u32 \<Rightarrow> page_allocator \<Rightarrow> mem_pool \<Rightarrow> (u32 option \<times> mem_pool) option" where
  "page_take npages prev index b pool = do {
     _ \<leftarrow> bug_if (ucast (pa_page b) > page_num pool - index);
     let nextindex = ucast (pa_next b);
     _ \<leftarrow> bug_if (if nextindex < page_num pool then index + ucast (pa_page b) \<ge> nextindex else nextindex \<noteq> END_FLAG);
     pool \<leftarrow> (if ucast (pa_page b) > npages then do {
                 pool \<leftarrow> pa_set (index + npages) \<lparr>pa_page = ucast (ucast (pa_page b) - npages), pa_next = pa_next b\<rparr> pool;
                 Some (slot_set prev (ucast (index + npages)) pool) }
               else Some (slot_set prev (pa_next b) pool));
     Some (Some (pgidx_2_addr pool index), pool) }"

partial_function (option) page_alloc_loop :: "u32 \<Rightarrow> pa_slot \<Rightarrow> u32 \<Rightarrow> mem_pool \<Rightarrow> (u32 option \<times> mem_pool) option" where
  "page_alloc_loop npages prev prevend pool =
     (let index = ucast (slot_get prev pool) in
      if index < page_num pool then do {
        b \<leftarrow> pa_at index pool;
        _ \<leftarrow> bug_if (sint index \<le> sint prevend \<or> pa_page b = 0);
        if ucast (pa_page b) < npages then page_alloc_loop npages (Next_Of (unat index)) (index + ucast (pa_page b)) pool
        else page_take npages prev index b pool }
      else do {
        _ \<leftarrow> bug_if (index \<noteq> END_FLAG);
        Some (None, pool) })"

declare page_alloc_loop.simps [code]

definition rt_page_alloc_nolock :: "u32 \<Rightarrow> mem_pool \<Rightarrow> (u32 option \<times> mem_pool) option" where
  "rt_page_alloc_nolock npages pool = (if npages = 0 then Some (None, pool) else page_alloc_loop npages List_Head (-1) pool)"

subsection \<open>Release of pages\<close>

text \<open>The run \<open>b\<close> ends where the released pages begin; the next run may begin where they end.\<close>

definition page_append :: "u32 \<Rightarrow> u32 \<Rightarrow> u32 \<Rightarrow> page_allocator \<Rightarrow> mem_pool \<Rightarrow> mem_pool option" where
  "page_append npages freend index b pool = do {
     let nextindex = ucast (pa_next b);
     _ \<leftarrow> (if nextindex < page_num pool then do {
             next \<leftarrow> pa_at nextindex pool;
             bug_if (pa_page next = 0 \<or> ucast (pa_page next) > page_num pool - nextindex \<or> freend > nextindex) }
           else bug_if (nextindex \<noteq> END_FLAG));
     let b = b\<lparr>pa_page := pa_page b + ucast npages\<rparr>;
     if freend = nextindex then do {
       next \<leftarrow> pa_at nextindex pool;
       pa_set index (b\<lparr>pa_page := pa_page b + pa_page next, pa_next := pa_next next\<rparr>) pool }
     else pa_set index b pool }"

text \<open>The code behind the loop: a run of its own in front of \<open>index\<close>.\<close>

definition page_link :: "u32 \<Rightarrow> u32 \<Rightarrow> pa_slot \<Rightarrow> u32 \<Rightarrow> mem_pool \<Rightarrow> mem_pool option" where
  "page_link freindex npages prev index pool = do {
     _ \<leftarrow> bug_if (index \<ge> page_num pool \<and> index \<noteq> END_FLAG);
     pool \<leftarrow> pa_set freindex \<lparr>pa_page = ucast npages, pa_next = ucast index\<rparr> pool;
     Some (slot_set prev (ucast freindex) pool) }"

partial_function (option) page_free_loop :: "u32 \<Rightarrow> u32 \<Rightarrow> pa_slot \<Rightarrow> u32 \<Rightarrow> mem_pool \<Rightarrow> mem_pool option" where
  "page_free_loop freindex npages prev bend pool =
     (let index = ucast (slot_get prev pool); freend = freindex + npages in
      if index < page_num pool then do {
        b \<leftarrow> pa_at index pool;
        _ \<leftarrow> bug_if (sint index \<le> sint bend \<or> pa_page b = 0);
        let bend = index + ucast (pa_page b);
        if bend < freindex then page_free_loop freindex npages (Next_Of (unat index)) bend pool
        else do {
          _ \<leftarrow> bug_if (bend > page_num pool);
          if freindex = bend then page_append npages freend index b pool
          else if freend < index then page_link freindex npages prev index pool
          else if freend = index then do {
            pool \<leftarrow> pa_set freindex \<lparr>pa_page = pa_page b + ucast npages, pa_next = pa_next b\<rparr> pool;
            Some (slot_set prev (ucast freindex) pool) }
          else None } }
      else page_link freindex npages prev index pool)"

declare page_free_loop.simps [code]

definition rt_page_free_nolock :: "u32 \<Rightarrow> u32 \<Rightarrow> mem_pool \<Rightarrow> mem_pool option" where
  "rt_page_free_nolock addr npages pool = do {
     let freindex = addr_2_pgidx pool addr;
     _ \<leftarrow> bug_if (addr AND MM_PAGE_MASK \<noteq> 0 \<or> addr < heap_start pool \<or> addr \<ge> heap_end pool \<or> npages > page_num pool - freindex);
     page_free_loop freindex npages List_Head (-1) pool }"

subsection \<open>Runs\<close>

text \<open>
  The free pages as a list of runs: where each begins and how long it is. Runs are apart, so that every run is as long as
  possible.
\<close>

type_synonym runs = "(nat \<times> nat) list"

fun runs_ok :: "nat \<Rightarrow> nat \<Rightarrow> runs \<Rightarrow> bool" where
  "runs_ok lo tp [] = True"
| "runs_ok lo tp ((a, n) # fs) = (lo \<le> a \<and> 0 < n \<and> a + n \<le> tp \<and> runs_ok (a + n + 1) tp fs)"

fun run_pages :: "runs \<Rightarrow> nat set" where
  "run_pages [] = {}"
| "run_pages ((a, n) # fs) = {a..<a + n} \<union> run_pages fs"

text \<open>The first run that is long enough, and what is left.\<close>

fun take_run :: "nat \<Rightarrow> runs \<Rightarrow> (nat \<times> runs) option" where
  "take_run n [] = None"
| "take_run n ((a, m) # fs) =
     (if m < n then map_option (\<lambda>(i, gs). (i, (a, m) # gs)) (take_run n fs)
      else Some (a, if n < m then (a + n, m - n) # fs else fs))"

text \<open>Pages come back: \<open>None\<close> when one of them is free.\<close>

fun give_run :: "nat \<Rightarrow> nat \<Rightarrow> runs \<Rightarrow> runs option" where
  "give_run f n [] = Some [(f, n)]"
| "give_run f n ((a, m) # fs) =
     (if a + m < f then map_option ((#) (a, m)) (give_run f n fs)
      else if f = a + m then
        (case fs of
           [] \<Rightarrow> Some [(a, m + n)]
         | (b, k) # gs \<Rightarrow>
             if b < f + n then None
             else if f + n = b then Some ((a, m + n + k) # gs)
             else Some ((a, m + n) # fs))
      else if f + n < a then Some ((f, n) # (a, m) # fs)
      else if f + n = a then Some ((f, m + n) # fs)
      else None)"

end
