(* ===== verification/Slab.thy ===== *)
theory Slab
  imports Slab_Pages Kmem
begin

unbundle bit_operations_syntax

text \<open>
  The upper layer of the system heap of \<^verbatim>\<open>kernel/src/slab_fh.c\<close>: zones of trunks of one size, each zone a page, with the
  pages of a size on a circular list while they have a free trunk; a list of empty zones that are kept; the calls of the
  kernel. The configuration is the one of \<^verbatim>\<open>slab_config.h\<close>: one pool, which all modules share.
\<close>

abbreviation (input) NZONES :: u32 where "NZONES \<equiv> 15"
abbreviation (input) ZONE_RELEASE_THRESH :: int where "ZONE_RELEASE_THRESH \<equiv> 8"
abbreviation (input) MM_ALIGN_4 :: u32 where "MM_ALIGN_4 \<equiv> 2"
abbreviation (input) FHMEM_TYPE_KERNEL :: u32 where "FHMEM_TYPE_KERNEL \<equiv> 0"
abbreviation (input) FHMEM_TYPE_NET :: u32 where "FHMEM_TYPE_NET \<equiv> 1"
abbreviation (input) FHMEM_TYPE_JFFS2 :: u32 where "FHMEM_TYPE_JFFS2 \<equiv> 2"
abbreviation (input) FHMEM_TYPE_APP :: u32 where "FHMEM_TYPE_APP \<equiv> 3"
abbreviation (input) FHMEM_TYPE_MAX :: u32 where "FHMEM_TYPE_MAX \<equiv> 7"

definition g_zone_sizes :: "u32 list" where
  "g_zone_sizes = [64, 96, 128, 192, 256, 292, 340, 408, 512, 584, 680, 816, 1024, 1364, 2048]"

definition zone_size :: "u32 \<Rightarrow> u32" where
  "zone_size zi = g_zone_sizes ! unat zi"

text \<open>The index of the smallest size that fits and is a multiple of \<open>align\<close>, and that size.\<close>

fun zoneindex_from :: "u32 list \<Rightarrow> u32 \<Rightarrow> u32 \<Rightarrow> u32 \<Rightarrow> u32 \<times> u32" where
  "zoneindex_from [] zi n align = (zi, n)"
| "zoneindex_from (zonesize # sizes) zi n align =
     (if n \<le> zonesize \<and> zonesize AND (align - 1) = 0 then (zi, zonesize) else zoneindex_from sizes (zi + 1) n align)"

definition zoneindex :: "u32 \<Rightarrow> u32 \<Rightarrow> u32 \<times> u32" where
  "zoneindex n align = zoneindex_from g_zone_sizes 0 n align"

subsection \<open>The array of page descriptors\<close>

definition pgm_at :: "u32 \<Rightarrow> mem_pool \<Rightarrow> page_man option" where
  "pgm_at i pool = (if unat i < length (pgman_array pool) then Some (pgman_array pool ! unat i) else None)"

definition pgm_upd :: "u32 \<Rightarrow> (page_man \<Rightarrow> page_man) \<Rightarrow> mem_pool \<Rightarrow> mem_pool option" where
  "pgm_upd i f pool =
     (if unat i < length (pgman_array pool)
      then Some (pool\<lparr>pgman_array := (pgman_array pool)[unat i := f (pgman_array pool ! unat i)]\<rparr>) else None)"

definition set_page_next :: "u32 \<Rightarrow> u32 \<Rightarrow> mem_pool \<Rightarrow> mem_pool option" where
  "set_page_next i v = pgm_upd i (\<lambda>m. m\<lparr>page_next := ucast v\<rparr>)"

definition set_page_prev :: "u32 \<Rightarrow> u32 \<Rightarrow> mem_pool \<Rightarrow> mem_pool option" where
  "set_page_prev i v = pgm_upd i (\<lambda>m. m\<lparr>page_prev := ucast v\<rparr>)"

definition set_alloc_list :: "u32 \<Rightarrow> int \<Rightarrow> mem_pool \<Rightarrow> mem_pool" where
  "set_alloc_list zi i pool = pool\<lparr>zone_alloc_list := (zone_alloc_list pool)[unat zi := i]\<rparr>"

text \<open>\<open>prev\<close> and \<open>next\<close> become neighbours.\<close>

definition pg_unlink :: "u32 \<Rightarrow> u32 \<Rightarrow> mem_pool \<Rightarrow> mem_pool option" where
  "pg_unlink prev next pool = do {
     pool \<leftarrow> set_page_next prev next pool;
     set_page_prev next prev pool }"

definition verify_pglist :: "u32 \<Rightarrow> page_type \<Rightarrow> u32 \<Rightarrow> mem_pool \<Rightarrow> unit option" where
  "verify_pglist pgidx type zi pool = do {
     _ \<leftarrow> bug_if (pgidx \<ge> page_num pool);
     pgm \<leftarrow> pgm_at pgidx pool;
     let prev = ucast (page_prev pgm);
     let next = ucast (page_next pgm);
     _ \<leftarrow> bug_if (prev \<ge> page_num pool \<or> next \<ge> page_num pool);
     p \<leftarrow> pgm_at prev pool;
     n \<leftarrow> pgm_at next pool;
     bug_if (ucast (page_next p) \<noteq> pgidx \<or> ucast (page_prev n) \<noteq> pgidx \<or> page_type pgm \<noteq> type \<or> ucast (zone_index pgm) \<noteq> zi) }"

subsection \<open>The bitmap of a zone, as eight bytes\<close>

definition bitmap_byte :: "64 word \<Rightarrow> nat \<Rightarrow> u8" where
  "bitmap_byte bm x = ucast (drop_bit (8 * x) bm)"

definition bitmap_or :: "64 word \<Rightarrow> nat \<Rightarrow> nat \<Rightarrow> 64 word" where
  "bitmap_or bm x y = bm OR push_bit (8 * x) (push_bit y 1)"

definition bitmap_clear :: "64 word \<Rightarrow> nat \<Rightarrow> nat \<Rightarrow> 64 word" where
  "bitmap_clear bm x y = bm AND NOT (push_bit (8 * x) (push_bit y 1))"

text \<open>The loops of \<^verbatim>\<open>alloc_trunk\<close>: the first byte with a clear bit, and that bit. The first argument counts what is left.\<close>

fun find_byte :: "nat \<Rightarrow> 64 word \<Rightarrow> nat \<Rightarrow> nat" where
  "find_byte 0 bm x = x"
| "find_byte (Suc n) bm x = (if bitmap_byte bm x \<noteq> 0xff then x else find_byte n bm (x + 1))"

fun find_clear :: "nat \<Rightarrow> u8 \<Rightarrow> nat \<Rightarrow> nat" where
  "find_clear 0 m y = y"
| "find_clear (Suc n) m y = (if \<not> bit m y then y else find_clear n m (y + 1))"

definition find_trunk :: "64 word \<Rightarrow> nat \<times> nat" where
  "find_trunk bm = (let x = find_byte 8 bm 0 in (x, if x < 8 then find_clear 8 (bitmap_byte bm x) 0 else 0))"

subsection \<open>Statistics\<close>

definition stat_used :: "int \<Rightarrow> mem_pool \<Rightarrow> mem_pool" where
  "stat_used n pool = pool\<lparr>used_mem := used_mem pool + n, max_mem := max (max_mem pool) (used_mem pool + n)\<rparr>"

definition stat_block :: "int \<Rightarrow> mem_pool \<Rightarrow> mem_pool" where
  "stat_block n pool = stat_used n
     (pool\<lparr>block_used_bytes := block_used_bytes pool + n,
           block_used_bytes_max := max (block_used_bytes_max pool) (block_used_bytes pool + n)\<rparr>)"

definition stat_trunk :: "u32 \<Rightarrow> mem_pool \<Rightarrow> mem_pool" where
  "stat_trunk zi pool = (let z = unat zi; n = zone_used_bytes pool ! z + uint (zone_size zi) in
     stat_used (uint (zone_size zi))
       (pool\<lparr>zone_used_bytes := (zone_used_bytes pool)[z := n],
             zone_used_bytes_max := (zone_used_bytes_max pool)[z := max (zone_used_bytes_max pool ! z) n]\<rparr>))"

definition stat_zone :: "u32 \<Rightarrow> mem_pool \<Rightarrow> mem_pool" where
  "stat_zone zi pool = (let z = unat zi; n = zone_num pool ! z + 1 in
     pool\<lparr>zone_num := (zone_num pool)[z := n], zone_num_max := (zone_num_max pool)[z := max (zone_num_max pool ! z) n]\<rparr>)"

subsection \<open>Allocation\<close>

definition trunks_per_page :: "u32 \<Rightarrow> u32" where
  "trunks_per_page zi = MM_PAGE_SIZE div zone_size zi"

text \<open>A trunk of the first page \<open>pgidx\<close> on the list of the zone.\<close>

definition take_trunk :: "u32 \<Rightarrow> int \<Rightarrow> mem_pool \<Rightarrow> (u32 \<times> mem_pool) option" where
  "take_trunk zi pgidx pool = do {
     let i = of_int pgidx;
     _ \<leftarrow> verify_pglist i PAGE_TYPE_ZONE zi pool;
     pgm \<leftarrow> pgm_at i pool;
     let prev = ucast (page_prev pgm);
     let next = ucast (page_next pgm);
     let frees = (ucast (free_trunks pgm) :: u32);
     let x = fst (find_trunk (trunk_bitmap pgm));
     let y = snd (find_trunk (trunk_bitmap pgm));
     let trunk_index = of_nat (8 * x + y);
     _ \<leftarrow> bug_if (trunk_index \<ge> trunks_per_page zi \<or> frees = 0 \<or> frees \<ge> trunks_per_page zi);
     pool \<leftarrow> (if frees - 1 = 0 then do {
                 pool \<leftarrow> set_page_prev i i pool;
                 pool \<leftarrow> set_page_next i i pool;
                 if i = next then Some (set_alloc_list zi (-1) pool)
                 else do {
                   pool \<leftarrow> pg_unlink prev next pool;
                   Some (set_alloc_list zi (uint next) pool) } }
               else Some pool);
     pool \<leftarrow> pgm_upd i (\<lambda>m. m\<lparr>trunk_bitmap := bitmap_or (trunk_bitmap m) x y, free_trunks := ucast (frees - 1)\<rparr>) pool;
     Some (pgidx_2_addr pool i + trunk_index * zone_size zi, stat_trunk zi pool) }"

text \<open>The first page on the list of empty zones.\<close>

definition take_cached :: "int \<Rightarrow> mem_pool \<Rightarrow> mem_pool option" where
  "take_cached pgidx pool = do {
     let i = of_int pgidx;
     _ \<leftarrow> verify_pglist i PAGE_TYPE_CACHE 0 pool;
     pgm \<leftarrow> pgm_at i pool;
     let prev = ucast (page_prev pgm);
     let next = ucast (page_next pgm);
     pool \<leftarrow> (if i = next then Some (pool\<lparr>zone_cache_list := -1\<rparr>)
               else do {
                 pool \<leftarrow> pg_unlink prev next pool;
                 Some (pool\<lparr>zone_cache_list := uint next\<rparr>) });
     Some (pool\<lparr>zone_cache_count := zone_cache_count pool - 1\<rparr>) }"

text \<open>The page \<open>i\<close> becomes a zone whose first trunk is in use.\<close>

definition link_zone :: "u32 \<Rightarrow> u32 \<Rightarrow> mem_pool \<Rightarrow> mem_pool option" where
  "link_zone zi i pool = do {
     pool \<leftarrow> pgm_upd i (\<lambda>_. \<lparr>page_type = PAGE_TYPE_ZONE, zone_index = ucast zi, page_prev = ucast i,
        free_trunks = ucast (trunks_per_page zi - 1), page_next = ucast i, trunk_bitmap = 1\<rparr>) pool;
     Some (stat_zone zi (set_alloc_list zi (uint i) pool)) }"

definition alloc_trunk :: "u32 \<Rightarrow> mem_pool \<Rightarrow> (u32 option \<times> mem_pool) option" where
  "alloc_trunk zi pool =
     (if 0 \<le> zone_alloc_list pool ! unat zi then do {
        (trunk, pool) \<leftarrow> take_trunk zi (zone_alloc_list pool ! unat zi) pool;
        Some (Some trunk, pool) }
      else if 0 \<le> zone_cache_list pool then do {
        let i = of_int (zone_cache_list pool);
        pool \<leftarrow> take_cached (zone_cache_list pool) pool;
        pool \<leftarrow> link_zone zi i pool;
        Some (Some (pgidx_2_addr pool i), stat_trunk zi pool) }
      else do {
        (trunk, pool) \<leftarrow> rt_page_alloc_nolock 1 (pool\<lparr>zone_cache_count := 0\<rparr>);
        case trunk of
          None \<Rightarrow> Some (None, pool)
        | Some a \<Rightarrow> do {
            let i = addr_2_pgidx pool a;
            pgm \<leftarrow> pgm_at i pool;
            _ \<leftarrow> bug_if (page_type pgm \<noteq> PAGE_TYPE_FREE);
            pool \<leftarrow> link_zone zi i pool;
            Some (Some a, stat_trunk zi pool) } })"

definition RT_ALIGN :: "u32 \<Rightarrow> u32 \<Rightarrow> u32" where
  "RT_ALIGN sz align = (sz + align - 1) AND NOT (align - 1)"

definition RT_ALIGN_DOWN :: "u32 \<Rightarrow> u32 \<Rightarrow> u32" where
  "RT_ALIGN_DOWN sz align = sz AND NOT (align - 1)"

definition malloc_r :: "u32 \<Rightarrow> u32 \<Rightarrow> mem_pool \<Rightarrow> (u32 option \<times> mem_pool) option" where
  "malloc_r sz align_bits pool =
     (if sz > last g_zone_sizes \<or> align_bits = of_nat MM_PAGE_BITS then do {
        let sz = RT_ALIGN sz MM_PAGE_SIZE;
        (trunk, pool) \<leftarrow> rt_page_alloc_nolock (drop_bit MM_PAGE_BITS sz) pool;
        case trunk of
          None \<Rightarrow> Some (None, pool)
        | Some a \<Rightarrow> do {
            let i = addr_2_pgidx pool a;
            pgm \<leftarrow> pgm_at i pool;
            _ \<leftarrow> bug_if (page_type pgm \<noteq> PAGE_TYPE_FREE);
            pool \<leftarrow> pgm_upd i (\<lambda>m. m\<lparr>page_type := PAGE_TYPE_PAGE, page_prev := ucast (drop_bit MM_PAGE_BITS sz)\<rparr>) pool;
            Some (Some a, stat_block (uint sz) pool) } }
      else
        let (zi, _) = zoneindex sz (push_bit (unat align_bits) 1) in
        if zi \<ge> NZONES then Some (None, pool) else alloc_trunk zi pool)"

subsection \<open>Release\<close>

definition free_block :: "u32 \<Rightarrow> u32 \<Rightarrow> page_man \<Rightarrow> mem_pool \<Rightarrow> mem_pool option" where
  "free_block ptr i pgm pool = do {
     let npages = ucast (page_prev pgm);
     _ \<leftarrow> bug_if (ptr AND MM_PAGE_MASK \<noteq> 0 \<or> npages = 0 \<or> npages > page_num pool - i);
     pool \<leftarrow> rt_page_free_nolock ptr npages pool;
     pool \<leftarrow> pgm_upd i (\<lambda>m. m\<lparr>page_type := PAGE_TYPE_FREE\<rparr>) pool;
     let n = uint (push_bit MM_PAGE_BITS npages);
     Some (pool\<lparr>block_used_bytes := block_used_bytes pool - n, used_mem := used_mem pool - n\<rparr>) }"

text \<open>The zone was full: it goes on the list of its size, behind the first page.\<close>

definition relist_zone :: "u32 \<Rightarrow> u32 \<Rightarrow> page_man \<Rightarrow> mem_pool \<Rightarrow> mem_pool option" where
  "relist_zone zi i pgm pool = do {
     _ \<leftarrow> bug_if (\<not> (ucast (page_prev pgm) = i \<and> ucast (page_next pgm) = i));
     let head = zone_alloc_list pool ! unat zi;
     if head < 0 then Some (set_alloc_list zi (uint i) pool)
     else do {
       let h = of_int head;
       _ \<leftarrow> verify_pglist h PAGE_TYPE_ZONE zi pool;
       hm \<leftarrow> pgm_at h pool;
       let second = ucast (page_next hm);
       pool \<leftarrow> set_page_prev i h pool;
       pool \<leftarrow> set_page_next i second pool;
       pool \<leftarrow> set_page_prev second i pool;
       set_page_next h i pool } }"

text \<open>The zone becomes empty: it leaves the list of its size.\<close>

definition unlist_zone :: "u32 \<Rightarrow> u32 \<Rightarrow> page_man \<Rightarrow> mem_pool \<Rightarrow> mem_pool option" where
  "unlist_zone zi i pgm pool = do {
     let prev = ucast (page_prev pgm);
     let next = ucast (page_next pgm);
     let head = zone_alloc_list pool ! unat zi;
     _ \<leftarrow> bug_if (head < 0 \<or> prev \<ge> page_num pool \<or> next \<ge> page_num pool);
     p \<leftarrow> pgm_at prev pool;
     n \<leftarrow> pgm_at next pool;
     _ \<leftarrow> bug_if (ucast (page_next p) \<noteq> i \<or> ucast (page_prev n) \<noteq> i);
     if i = next then do {
       _ \<leftarrow> bug_if (head \<noteq> uint i);
       Some (set_alloc_list zi (-1) pool) }
     else do {
       pool \<leftarrow> pg_unlink prev next pool;
       Some (if head = uint i then set_alloc_list zi (uint next) pool else pool) } }"

text \<open>The empty zone is kept, at the end of the list of empty zones, or its page is released.\<close>

definition retire_zone :: "u32 \<Rightarrow> u32 \<Rightarrow> mem_pool \<Rightarrow> mem_pool option" where
  "retire_zone ptr i pool =
     (if zone_cache_count pool < ZONE_RELEASE_THRESH then do {
        let head = zone_cache_list pool;
        pool \<leftarrow> (if 0 \<le> head then do {
                    let h = of_int head;
                    _ \<leftarrow> verify_pglist h PAGE_TYPE_CACHE 0 pool;
                    hm \<leftarrow> pgm_at h pool;
                    let last = ucast (page_prev hm);
                    pool \<leftarrow> set_page_prev i last pool;
                    pool \<leftarrow> set_page_next i h pool;
                    pool \<leftarrow> set_page_next last i pool;
                    set_page_prev h i pool }
                  else do {
                    pool \<leftarrow> set_page_prev i i pool;
                    pool \<leftarrow> set_page_next i i pool;
                    Some (pool\<lparr>zone_cache_list := uint i\<rparr>) });
        pool \<leftarrow> pgm_upd i (\<lambda>m. m\<lparr>zone_index := 0, page_type := PAGE_TYPE_CACHE\<rparr>) pool;
        Some (pool\<lparr>zone_cache_count := zone_cache_count pool + 1\<rparr>) }
      else do {
        pool \<leftarrow> rt_page_free_nolock (RT_ALIGN_DOWN ptr MM_PAGE_SIZE) 1 pool;
        pgm_upd i (\<lambda>m. m\<lparr>page_type := PAGE_TYPE_FREE\<rparr>) pool })"

definition free_trunk :: "u32 \<Rightarrow> u32 \<Rightarrow> page_man \<Rightarrow> mem_pool \<Rightarrow> mem_pool option" where
  "free_trunk ptr i pgm pool = do {
     let offset = ptr AND MM_PAGE_MASK;
     let zi = ucast (zone_index pgm);
     let frees = (ucast (free_trunks pgm) :: u32);
     _ \<leftarrow> bug_if (zi \<ge> NZONES);
     let trunkidx = offset div zone_size zi;
     let x = unat (drop_bit 3 trunkidx);
     let y = unat (trunkidx AND 7);
     _ \<leftarrow> bug_if (frees \<ge> trunks_per_page zi \<or> trunkidx * zone_size zi \<noteq> offset \<or> \<not> bit (bitmap_byte (trunk_bitmap pgm) x) y);
     pool \<leftarrow> (if frees = 0 then relist_zone zi i pgm pool
               else if frees + 1 = trunks_per_page zi then do {
                 pool \<leftarrow> unlist_zone zi i pgm pool;
                 retire_zone ptr i (pool\<lparr>zone_num := (zone_num pool)[unat zi := zone_num pool ! unat zi - 1]\<rparr>) }
               else Some pool);
     pool \<leftarrow> pgm_upd i (\<lambda>m. m\<lparr>free_trunks := ucast (frees + 1), trunk_bitmap := bitmap_clear (trunk_bitmap m) x y\<rparr>) pool;
     let n = uint (zone_size zi);
     Some (pool\<lparr>zone_used_bytes := (zone_used_bytes pool)[unat zi := zone_used_bytes pool ! unat zi - n], used_mem := used_mem pool - n\<rparr>) }"

definition free_r :: "u32 \<Rightarrow> mem_pool \<Rightarrow> mem_pool option" where
  "free_r ptr pool = do {
     let i = addr_2_pgidx pool ptr;
     pgm \<leftarrow> pgm_at i pool;
     case page_type pgm of
       PAGE_TYPE_PAGE \<Rightarrow> free_block ptr i pgm pool
     | PAGE_TYPE_ZONE \<Rightarrow> free_trunk ptr i pgm pool
     | _ \<Rightarrow> None }"

subsection \<open>The calls of the kernel\<close>

definition fhkmalloc :: "u32 \<Rightarrow> u32 \<Rightarrow> u32 \<Rightarrow> mem_pool \<Rightarrow> (u32 option \<times> mem_pool) option" where
  "fhkmalloc module_id sz align_bits pool = do {
     _ \<leftarrow> bug_if (module_id \<ge> FHMEM_TYPE_MAX \<or> \<not> inited pool \<or> align_bits > of_nat MM_PAGE_BITS);
     if sz = 0 \<or> sz > push_bit MM_PAGE_BITS (page_num pool) then Some (None, pool)
     else malloc_r (RT_ALIGN sz 4) (if align_bits < MM_ALIGN_4 then MM_ALIGN_4 else align_bits) pool }"

text \<open>A null pointer is \<open>None\<close>.\<close>

definition fhkfree :: "u32 \<Rightarrow> u32 option \<Rightarrow> mem_pool \<Rightarrow> mem_pool option" where
  "fhkfree module_id ptr pool = (case ptr of
     None \<Rightarrow> Some pool
   | Some a \<Rightarrow> do {
       _ \<leftarrow> bug_if (module_id \<ge> FHMEM_TYPE_MAX \<or> \<not> inited pool);
       _ \<leftarrow> bug_if (a AND 3 \<noteq> 0 \<or> a < heap_start pool \<or> a \<ge> heap_end pool);
       free_r a pool })"

definition rt_malloc :: "u32 \<Rightarrow> mem_pool \<Rightarrow> (u32 option \<times> mem_pool) option" where
  "rt_malloc sz pool = fhkmalloc FHMEM_TYPE_KERNEL sz MM_ALIGN_4 pool"

definition rt_free :: "u32 option \<Rightarrow> mem_pool \<Rightarrow> mem_pool option" where
  "rt_free ptr pool = fhkfree FHMEM_TYPE_KERNEL ptr pool"

text \<open>The loop over \<^verbatim>\<open>align_bits\<close>; the first argument counts what is left of it.\<close>

fun align_bits_of :: "nat \<Rightarrow> u32 \<Rightarrow> u32 \<Rightarrow> u32 option" where
  "align_bits_of 0 boundary b = None"
| "align_bits_of (Suc k) boundary b = (if boundary = push_bit (unat b) 1 then Some b else align_bits_of k boundary (b + 1))"

definition memalign :: "u32 \<Rightarrow> u32 \<Rightarrow> u32 \<Rightarrow> mem_pool \<Rightarrow> (u32 option \<times> mem_pool) option" where
  "memalign module_id boundary sz pool = do {
     align_bits \<leftarrow> align_bits_of (MM_PAGE_BITS + 1) (if boundary \<le> 2 then 4 else boundary) 0;
     fhkmalloc module_id sz align_bits pool }"

definition rt_memalign :: "u32 \<Rightarrow> u32 \<Rightarrow> mem_pool \<Rightarrow> (u32 option \<times> mem_pool) option" where
  "rt_memalign boundary sz pool = memalign FHMEM_TYPE_KERNEL boundary sz pool"

definition rt_memory_info :: "mem_pool \<Rightarrow> u32 \<times> u32 \<times> u32" where
  "rt_memory_info pool =
     (if inited pool then (heap_end pool - heap_start pool, of_int (used_mem pool), of_int (max_mem pool)) else (0, 0, 0))"

text \<open>With the memory: the copy and the zeros are the routines of \<^verbatim>\<open>kservice.c\<close>. The arrays of the heap are not part of the memory here.\<close>

definition rt_realloc :: "(u32 \<Rightarrow> u32) \<Rightarrow> u32 option \<Rightarrow> u32 \<Rightarrow> mem_pool \<times> memory \<Rightarrow> (u32 option \<times> mem_pool \<times> memory) option" where
  "rt_realloc pgd ptr sz = (\<lambda>(pool, M). case ptr of
     None \<Rightarrow> map_option (\<lambda>(q, pool). (q, pool, M)) (rt_malloc sz pool)
   | Some a \<Rightarrow>
       if sz = 0 then map_option (\<lambda>pool. (None, pool, M)) (rt_free (Some a) pool)
       else do {
         (nptr, pool) \<leftarrow> rt_malloc sz pool;
         case nptr of
           None \<Rightarrow> Some (None, pool, M)
         | Some n \<Rightarrow> do {
             M \<leftarrow> rt_memcpy pgd n a sz M;
             pool \<leftarrow> rt_free (Some a) pool;
             Some (Some n, pool, M) } })"

definition rt_calloc :: "u32 \<Rightarrow> u32 \<Rightarrow> mem_pool \<times> memory \<Rightarrow> (u32 option \<times> mem_pool \<times> memory) option" where
  "rt_calloc count sz = (\<lambda>(pool, M).
     let len = (ucast (count * sz) :: 64 word) in
     if len > 1 * 1024 * 1024 * 1024 then Some (None, pool, M)
     else do {
       let sz = ucast len;
       (p, pool) \<leftarrow> rt_malloc sz pool;
       case p of
         None \<Rightarrow> Some (None, pool, M)
       | Some a \<Rightarrow> do {
           M \<leftarrow> rt_memset a 0 sz M;
           Some (Some a, pool, M) } })"

subsection \<open>The calls of other modules\<close>

text \<open>\<^verbatim>\<open>slab_customer.c\<close>, which \<^verbatim>\<open>slab_fh.c\<close> includes.\<close>

definition lwip_malloc :: "u32 \<Rightarrow> mem_pool \<Rightarrow> (u32 option \<times> mem_pool) option" where
  "lwip_malloc sz pool = fhkmalloc FHMEM_TYPE_NET sz MM_ALIGN_4 pool"

definition lwip_free :: "u32 option \<Rightarrow> mem_pool \<Rightarrow> mem_pool option" where
  "lwip_free ptr pool = fhkfree FHMEM_TYPE_NET ptr pool"

definition jffs2_malloc :: "u32 \<Rightarrow> mem_pool \<Rightarrow> (u32 option \<times> mem_pool) option" where
  "jffs2_malloc sz pool = fhkmalloc FHMEM_TYPE_JFFS2 sz MM_ALIGN_4 pool"

definition jffs2_free :: "u32 option \<Rightarrow> mem_pool \<Rightarrow> mem_pool option" where
  "jffs2_free ptr pool = fhkfree FHMEM_TYPE_JFFS2 ptr pool"

definition app_malloc :: "u32 \<Rightarrow> mem_pool \<Rightarrow> (u32 option \<times> mem_pool) option" where
  "app_malloc sz pool = fhkmalloc FHMEM_TYPE_APP sz MM_ALIGN_4 pool"

definition app_free :: "u32 option \<Rightarrow> mem_pool \<Rightarrow> mem_pool option" where
  "app_free ptr pool = fhkfree FHMEM_TYPE_APP ptr pool"

definition app_memalign :: "u32 \<Rightarrow> u32 \<Rightarrow> mem_pool \<Rightarrow> (u32 option \<times> mem_pool) option" where
  "app_memalign boundary sz pool = memalign FHMEM_TYPE_APP boundary sz pool"

definition app_realloc :: "(u32 \<Rightarrow> u32) \<Rightarrow> u32 option \<Rightarrow> u32 \<Rightarrow> mem_pool \<times> memory \<Rightarrow> (u32 option \<times> mem_pool \<times> memory) option" where
  "app_realloc pgd ptr sz = (\<lambda>(pool, M). case ptr of
     None \<Rightarrow> map_option (\<lambda>(q, pool). (q, pool, M)) (app_malloc sz pool)
   | Some a \<Rightarrow>
       if sz = 0 then map_option (\<lambda>pool. (None, pool, M)) (app_free (Some a) pool)
       else do {
         (nptr, pool) \<leftarrow> app_malloc sz pool;
         case nptr of
           None \<Rightarrow> Some (None, pool, M)
         | Some n \<Rightarrow> do {
             M \<leftarrow> rt_memcpy pgd n a sz M;
             pool \<leftarrow> app_free (Some a) pool;
             Some (Some n, pool, M) } })"

definition app_calloc :: "u32 \<Rightarrow> u32 \<Rightarrow> mem_pool \<times> memory \<Rightarrow> (u32 option \<times> mem_pool \<times> memory) option" where
  "app_calloc count sz = (\<lambda>(pool, M).
     let len = (ucast (count * sz) :: 64 word) in
     if len > 1 * 1024 * 1024 * 1024 then Some (None, pool, M)
     else do {
       let sz = ucast len;
       (p, pool) \<leftarrow> app_malloc sz pool;
       case p of
         None \<Rightarrow> Some (None, pool, M)
       | Some a \<Rightarrow> do {
           M \<leftarrow> rt_memset a 0 sz M;
           Some (Some a, pool, M) } })"

subsection \<open>Initialisation\<close>

text \<open>What the memory holds where the arrays will be is arbitrary: \<open>ga\<close> and \<open>gm\<close>. Both arrays have room for a few more entries.\<close>

definition pool_init :: "(nat \<Rightarrow> page_allocator) \<Rightarrow> (nat \<Rightarrow> page_man) \<Rightarrow> u32 \<Rightarrow> u32 \<Rightarrow> mem_pool \<Rightarrow> mem_pool option" where
  "pool_init ga gm begin_addr end_addr pool =
     (if inited pool then Some pool
      else do {
        let hs = RT_ALIGN begin_addr MM_PAGE_SIZE;
        let he = RT_ALIGN_DOWN end_addr MM_PAGE_SIZE;
        _ \<leftarrow> bug_if (hs \<ge> he \<or> hs < begin_addr);
        let npages = drop_bit MM_PAGE_BITS (he - hs);
        let allocator_size = npages * 4;
        let man_size = npages * 16;
        let manage_size = RT_ALIGN (allocator_size + man_size) MM_PAGE_SIZE;
        _ \<leftarrow> bug_if (manage_size + 4 * MM_PAGE_SIZE > he - hs);
        let hs = hs + manage_size;
        let npages = drop_bit MM_PAGE_BITS (he - hs);
        let pool = pool\<lparr>page_num := npages, heap_start := hs, heap_end := he,
          page_alloctor := map ga [0..<unat npages], alloctor_list := ucast END_FLAG,
          pgman_array := map (\<lambda>i. (gm i)\<lparr>page_type := PAGE_TYPE_FREE\<rparr>) [0..<unat npages],
          zone_alloc_list := replicate (unat NZONES) (-1), zone_cache_list := -1, zone_cache_count := 0\<rparr>;
        pool \<leftarrow> rt_page_free_nolock hs npages pool;
        Some (pool\<lparr>inited := True\<rparr>) })"

fun sizes_increase :: "u32 \<Rightarrow> u32 list \<Rightarrow> bool" where
  "sizes_increase presz [] = True"
| "sizes_increase presz (zonesize # sizes) = (\<not> (zonesize \<le> presz \<or> zonesize AND 3 \<noteq> 0) \<and> sizes_increase zonesize sizes)"

text \<open>The pool before the initialisation: a static variable.\<close>

definition g_mem_pool :: mem_pool where
  "g_mem_pool = \<lparr>inited = False, page_num = 0, heap_start = 0, heap_end = 0, page_alloctor = [], alloctor_list = 0, pgman_array = [],
     zone_alloc_list = replicate (unat NZONES) 0, zone_cache_list = 0, zone_cache_count = 0, used_mem = 0, max_mem = 0,
     block_used_bytes = 0, block_used_bytes_max = 0, zone_num = replicate (unat NZONES) 0, zone_num_max = replicate (unat NZONES) 0,
     zone_used_bytes = replicate (unat NZONES) 0, zone_used_bytes_max = replicate (unat NZONES) 0\<rparr>"

definition rt_system_heap_init :: "(nat \<Rightarrow> page_allocator) \<Rightarrow> (nat \<Rightarrow> page_man) \<Rightarrow> u32 \<Rightarrow> u32 \<Rightarrow> mem_pool \<Rightarrow> mem_pool option" where
  "rt_system_heap_init ga gm begin_addr end_addr pool = do {
     let hs = RT_ALIGN begin_addr MM_PAGE_SIZE;
     let he = RT_ALIGN_DOWN end_addr MM_PAGE_SIZE;
     _ \<leftarrow> bug_if (hs \<ge> he \<or> hs < begin_addr);
     let totalsz = he - hs;
     _ \<leftarrow> bug_if (\<not> sizes_increase 0 g_zone_sizes);
     _ \<leftarrow> bug_if (last g_zone_sizes > MM_PAGE_SIZE div 2 \<or> hd g_zone_sizes * 64 < MM_PAGE_SIZE);
     let config = totalsz - 0;
     let sz = RT_ALIGN config MM_PAGE_SIZE;
     pool \<leftarrow> (if sz \<noteq> 0 then pool_init ga gm hs (hs + sz) pool else Some pool);
     _ \<leftarrow> bug_if (config = 0);
     Some pool }"

end
