(* ===== verification/Slab_Pages_Correct.thy ===== *)
theory Slab_Pages_Correct
  imports Slab_Pages Allocator
begin

unbundle bit_operations_syntax

text \<open>
  The page allocator of the system heap refines operations on a list of free runs; a page that is free already is never
  taken back, and what is free, what is handed out and in which order follows from the set of free pages.
\<close>

subsection \<open>The array as a list of runs\<close>

fun free_from :: "mem_pool \<Rightarrow> u16 \<Rightarrow> runs \<Rightarrow> bool" where
  "free_from p i [] = (i = 0xffff)"
| "free_from p i ((a, n) # fs) =
     (unat i = a \<and> unat (pa_page (page_alloctor p ! a)) = n \<and> free_from p (pa_next (page_alloctor p ! a)) fs)"

definition pool_sized :: "mem_pool \<Rightarrow> bool" where
  "pool_sized p = (unat (page_num p) < 65535 \<and> length (page_alloctor p) = unat (page_num p))"

definition pages_ok :: "mem_pool \<Rightarrow> runs \<Rightarrow> bool" where
  "pages_ok p fs = (pool_sized p \<and> free_from p (alloctor_list p) fs \<and> runs_ok 0 (unat (page_num p)) fs)"

lemma runs_ok_lower: "\<lbrakk>runs_ok lo tp fs; l \<le> lo\<rbrakk> \<Longrightarrow> runs_ok l tp fs"
  by (cases fs) auto

lemma runs_ok_members: "\<lbrakk>runs_ok lo tp fs; (a, n) \<in> set fs\<rbrakk> \<Longrightarrow> lo \<le> a \<and> 0 < n \<and> a + n \<le> tp"
  by (induction lo tp fs rule: runs_ok.induct) fastforce+

lemma free_from_frame:
  "(\<And>a n. (a, n) \<in> set fs \<Longrightarrow> page_alloctor p' ! a = page_alloctor p ! a) \<Longrightarrow> free_from p' i fs = free_from p i fs"
proof (induction fs arbitrary: i)
  case (Cons x fs)
  obtain a n where x: "x = (a, n)" by (cases x)
  have "page_alloctor p' ! a = page_alloctor p ! a" by (rule Cons.prems [of a n]) (simp add: x)
  moreover have "free_from p' j fs = free_from p j fs" for j by (rule Cons.IH) (use Cons.prems in auto)
  ultimately show ?case by (simp add: x)
qed simp

lemma free_from_frame_above:
  assumes "runs_ok lo tp fs" and "\<And>a. lo \<le> a \<Longrightarrow> page_alloctor p' ! a = page_alloctor p ! a"
  shows "free_from p' i fs = free_from p i fs"
  using assms(2) runs_ok_members [OF assms(1)] by (intro free_from_frame) blast

text \<open>Where a link leads: to a run or to the end.\<close>

lemma unat_up [simp]: "unat (ucast (i :: u16) :: u32) = unat i"
  by transfer (simp add: take_bit_int_eq_self)

lemma unat_down [simp]: "unat w < 65536 \<Longrightarrow> unat (ucast (w :: u32) :: u16) = unat w"
  by (simp add: unsigned_ucast_eq take_bit_nat_eq_self_iff)

lemma link_cases:
  assumes "free_from p i fs" and "runs_ok lo (unat (page_num p)) fs" and "unat (page_num p) < 65535"
  shows "fs = [] \<and> i = 0xffff \<and> \<not> (ucast i :: u32) < page_num p \<or>
     (\<exists>a n gs. fs = (a, n) # gs \<and> unat i = a \<and> (ucast i :: u32) < page_num p \<and> lo \<le> a)"
proof (cases fs)
  case Nil
  then show ?thesis using assms by (simp add: word_less_nat_alt)
next
  case (Cons x gs)
  then show ?thesis using assms by (cases x) (auto simp: word_less_nat_alt)
qed

text \<open>What an operation behind the slot \<open>prev\<close> leaves alone below the index \<open>lo\<close>.\<close>

definition rest_of :: "mem_pool \<Rightarrow> mem_pool" where
  "rest_of p = p\<lparr>alloctor_list := 0, page_alloctor := []\<rparr>"

definition kept :: "pa_slot \<Rightarrow> nat \<Rightarrow> mem_pool \<Rightarrow> mem_pool \<Rightarrow> bool" where
  "kept prev lo p p' = (rest_of p' = rest_of p \<and>
     length (page_alloctor p') = length (page_alloctor p) \<and>
     (prev \<noteq> List_Head \<longrightarrow> alloctor_list p' = alloctor_list p) \<and>
     (\<forall>j < lo. if prev = Next_Of j then pa_page (page_alloctor p' ! j) = pa_page (page_alloctor p ! j)
              else page_alloctor p' ! j = page_alloctor p ! j))"

definition slot_below :: "pa_slot \<Rightarrow> nat \<Rightarrow> mem_pool \<Rightarrow> bool" where
  "slot_below prev lo p = (case prev of List_Head \<Rightarrow> True | Next_Of j \<Rightarrow> j < lo \<and> j < length (page_alloctor p))"

lemma kept_outer:
  assumes k: "kept (Next_Of a) (a + m + 1) p p'" and s: "slot_below prev lo p" and lo: "lo \<le> a"
  shows "kept prev lo p p'" and "slot_get prev p' = slot_get prev p" and "pa_page (page_alloctor p' ! a) = pa_page (page_alloctor p ! a)"
  using assms by (cases prev; auto simp: kept_def slot_below_def)+

lemma kept_fields:
  assumes "kept prev lo p p'"
  shows "page_num p' = page_num p" "heap_start p' = heap_start p" "heap_end p' = heap_end p" "pgman_array p' = pgman_array p"
    "length (page_alloctor p') = length (page_alloctor p)" "rest_of p' = rest_of p"
proof -
  show r: "rest_of p' = rest_of p" and "length (page_alloctor p') = length (page_alloctor p)" using assms by (simp_all add: kept_def)
  show "page_num p' = page_num p" using arg_cong [OF r, of page_num] by (simp add: rest_of_def)
  show "heap_start p' = heap_start p" using arg_cong [OF r, of heap_start] by (simp add: rest_of_def)
  show "heap_end p' = heap_end p" using arg_cong [OF r, of heap_end] by (simp add: rest_of_def)
  show "pgman_array p' = pgman_array p" using arg_cong [OF r, of pgman_array] by (simp add: rest_of_def)
qed

lemma slot_set_kept:
  assumes "slot_below prev lo p" and "lo \<le> unat i"
  shows "kept prev lo p (slot_set prev v p)"
    and "kept prev lo p (slot_set prev v (p\<lparr>page_alloctor := (page_alloctor p)[unat i := b]\<rparr>))"
  using assms by (cases prev; auto simp: kept_def slot_below_def rest_of_def nth_list_update)+

lemma slot_get_set [simp]: "slot_below prev lo p \<Longrightarrow> slot_get prev (slot_set prev v p) = v"
  by (cases prev) (auto simp: slot_below_def)

lemma slot_set_fields [simp]:
  "page_num (slot_set prev v p) = page_num p" "heap_start (slot_set prev v p) = heap_start p"
  "heap_end (slot_set prev v p) = heap_end p" "pgman_array (slot_set prev v p) = pgman_array p"
  "length (page_alloctor (slot_set prev v p)) = length (page_alloctor p)"
  by (cases prev; simp)+

text \<open>A run that begins at \<open>j\<close> is joined behind \<open>prev\<close>, in front of the runs \<open>gs\<close>.\<close>

lemma slot_insert:
  fixes j :: u32
  assumes "slot_below prev lo p" and "lo \<le> unat j" and "unat j < length (page_alloctor p)" and "length (page_alloctor p) < 65535"
    and "runs_ok (unat j + 1) tp gs" and "free_from p (pa_next c) gs"
  defines "q \<equiv> slot_set prev (ucast j) (p\<lparr>page_alloctor := (page_alloctor p)[unat j := c]\<rparr>)"
  shows "free_from q (slot_get prev q) ((unat j, unat (pa_page c)) # gs) \<and> kept prev lo p q"
proof -
  have k: "kept prev lo p q" unfolding q_def by (rule slot_set_kept [OF assms(1,2)])
  have g: "slot_get prev q = ucast j" unfolding q_def using assms(1) by (cases prev) (auto simp: slot_below_def)
  have a: "page_alloctor q ! unat j = c" unfolding q_def using assms(1-3) by (cases prev) (auto simp: slot_below_def)
  have "page_alloctor q ! x = page_alloctor p ! x" if "unat j + 1 \<le> x" for x
    unfolding q_def using that assms(1,2) by (cases prev) (auto simp: slot_below_def)
  then have "free_from q (pa_next c) gs" using free_from_frame_above [OF assms(5)] assms(6) by blast
  moreover have "unat (ucast j :: u16) = unat j" using assms(3,4) by simp
  ultimately show ?thesis using k g a by simp
qed

subsection \<open>Allocation\<close>

lemma page_take_run:
  fixes i :: u16
  assumes ok: "pool_sized p" and b: "b = page_alloctor p ! unat i" "free_from p (pa_next b) fs"
    and r: "lo \<le> unat i" "unat n \<le> unat (pa_page b)" "unat i + unat (pa_page b) \<le> unat (page_num p)"
      "runs_ok (unat i + unat (pa_page b) + 1) (unat (page_num p)) fs"
    and s: "slot_below prev lo p" and n: "0 < n"
  shows "\<exists>p'. page_take n prev (ucast i) b p = Some (Some (pgidx_2_addr p (ucast i)), p') \<and>
     free_from p' (slot_get prev p') (if unat n < unat (pa_page b) then (unat i + unat n, unat (pa_page b) - unat n) # fs else fs) \<and>
     kept prev lo p p'"
proof -
  let ?m = "unat (pa_page b)"
  have T: "unat (page_num p) < 65535" "length (page_alloctor p) = unat (page_num p)" using ok by (auto simp: pool_sized_def)
  have i: "(ucast i :: u32) \<le> page_num p" using r by (simp add: word_le_nat_alt)
  have 1: "\<not> (ucast (pa_page b) > page_num p - ucast i)"
    using r i by (simp add: word_less_nat_alt unat_sub [OF i])
  have 2: "\<not> (if (ucast (pa_next b) :: u32) < page_num p then ucast i + ucast (pa_page b) \<ge> (ucast (pa_next b) :: u32) else (ucast (pa_next b) :: u32) \<noteq> END_FLAG)"
    using link_cases [OF b(2) r(4) T(1)] r T by (auto simp: word_le_nat_alt unat_word_ariths)
  have 3: "unat (ucast i + n) = unat i + unat n" using r(2,3) T by (simp add: unat_word_ariths)
  show ?thesis
  proof (cases "unat n < ?m")
    case False
    then have e: "page_take n prev (ucast i) b p = Some (Some (pgidx_2_addr p (ucast i)), slot_set prev (pa_next b) p)"
      using 1 2 by (simp add: page_take_def bug_if_def pgidx_2_addr_def Let_def word_less_nat_alt del: not_less split del: if_split)
    have k: "kept prev lo p (slot_set prev (pa_next b) p)" by (rule slot_set_kept [OF s r(1)])
    have "free_from (slot_set prev (pa_next b) p) (pa_next b) fs = free_from p (pa_next b) fs"
      by (rule free_from_frame_above [OF r(4)]) (use s r(1) in \<open>cases prev; auto simp: slot_below_def\<close>)
    then show ?thesis using e k s b(2) False by auto
  next
    case True
    let ?c = "\<lparr>pa_page = ucast (ucast (pa_page b) - n), pa_next = pa_next b\<rparr>"
    let ?q = "p\<lparr>page_alloctor := (page_alloctor p)[unat (ucast i + n) := ?c]\<rparr>"
    let ?p = "slot_set prev (ucast (ucast i + n)) ?q"
    have e: "page_take n prev (ucast i) b p = Some (Some (pgidx_2_addr p (ucast i)), ?p)"
      using 1 2 3 True r T by (simp add: page_take_def bug_if_def pa_set_def pgidx_2_addr_def Let_def word_less_nat_alt del: not_less split del: if_split)
    have d: "unat (ucast (pa_page b) - n :: u32) = unat (pa_page b) - unat n" using True by (simp add: unat_sub word_le_nat_alt)
    have "unat (pa_page b) < 65536" using unsigned_less [of "pa_page b"] by simp
    then have c: "unat (pa_page ?c) = unat (pa_page b) - unat n" using d by (simp add: unat_down)
    have "free_from ?p (slot_get prev ?p) ((unat (ucast i + n), unat (pa_page ?c)) # fs) \<and> kept prev lo p ?p"
    proof (rule slot_insert [OF s])
      show "runs_ok (unat (ucast i + n) + 1) (unat (page_num p)) fs" using r(4) by (rule runs_ok_lower) (use True 3 in simp)
    qed (use 3 r(1,3) T True b(2) in simp_all)
    then show ?thesis using e c 3 True by (intro exI [of _ ?p]) simp
  qed
qed

lemma of_nat_up: "of_nat (unat (i :: u16)) = (ucast i :: u32)"
  using unsigned_less [of i, where 'a = nat] by (simp add: word_unat_eq_iff unat_of_nat)

text \<open>The sentinel of the loops: where the last run ended, or -1.\<close>

definition before :: "u32 \<Rightarrow> nat \<Rightarrow> bool" where
  "before prevend lo = (prevend = -1 \<or> unat prevend < lo)"

lemma sint_small:
  assumes "unat (w :: u32) < 2 ^ 31"
  shows "sint w = int (unat w)"
proof -
  have "unat w < 2147483648" using assms by simp
  then have "int (unat w) < int 2147483648" by (rule of_nat_less_iff [THEN iffD2])
  then have "uint w < 2147483648" by simp
  then have "signed_take_bit 31 (uint w) = uint w"
    by (intro signed_take_bit_int_eq_self) (simp_all add: order.trans [OF _ uint_ge_0])
  then have "sint w = uint w" by (simp add: sint_uint)
  then show ?thesis by simp
qed

lemma before_less:
  fixes i :: u16
  assumes "before e lo" and "lo \<le> unat i"
  shows "\<not> sint (ucast i :: u32) \<le> sint e"
proof -
  have b: "unat i < 65536" using unsigned_less [of i, where 'a = nat] by simp
  then have i: "sint (ucast i :: u32) = int (unat i)" by (subst sint_small) simp_all
  show ?thesis
  proof (cases "e = -1")
    case True
    have "int (unat i) \<ge> 0" by simp
    then show ?thesis using True i by (metis int_one_le_iff_zero_less linorder_not_le minus_less_iff not_less sint_n1 neg_0_less_iff_less order_less_le_trans zero_less_one)
  next
    case False
    then have "unat e < unat i" using assms by (simp add: before_def)
    moreover then have "sint e = int (unat e)" using b by (intro sint_small) simp
    ultimately show ?thesis using i by linarith
  qed
qed

text \<open>The search of the page allocator is first fit on the list of free runs: it takes the first pages of the first run that
  is long enough, and finds nothing exactly when there is none.\<close>

lemma page_alloc_run:
  assumes "pool_sized p" and "free_from p (slot_get prev p) fs" and "runs_ok lo (unat (page_num p)) fs"
    and "slot_below prev lo p" and "before e lo" and "0 < n"
  shows "case take_run (unat n) fs of
      None \<Rightarrow> page_alloc_loop n prev e p = Some (None, p)
    | Some (i, gs) \<Rightarrow> \<exists>p'. page_alloc_loop n prev e p = Some (Some (pgidx_2_addr p (of_nat i)), p') \<and>
        free_from p' (slot_get prev p') gs \<and> kept prev lo p p'"
  using assms
proof (induction fs arbitrary: prev lo e)
  case Nil
  then show ?case using link_cases [of p "slot_get prev p" "[]" lo] by (subst page_alloc_loop.simps) (simp add: pool_sized_def bug_if_def)
next
  case (Cons x fs)
  obtain a m where x: "x = (a, m)" by (cases x)
  let ?i = "slot_get prev p"
  let ?b = "page_alloctor p ! a"
  have T: "unat (page_num p) < 65535" "length (page_alloctor p) = unat (page_num p)" using Cons.prems(1) by (auto simp: pool_sized_def)
  have f: "unat ?i = a" "unat (pa_page ?b) = m" "free_from p (pa_next ?b) fs" using Cons.prems(2) x by auto
  have r: "lo \<le> a" "0 < m" "a + m \<le> unat (page_num p)" "runs_ok (a + m + 1) (unat (page_num p)) fs" using Cons.prems(3) x by auto
  have i: "(ucast ?i :: u32) < page_num p" using f(1) r by (simp add: word_less_nat_alt)
  have nz: "pa_page ?b \<noteq> 0" using f(2) r(2) by auto
  have step: "page_alloc_loop n prev e p = (if ucast (pa_page ?b) < n then page_alloc_loop n (Next_Of a) (ucast ?i + ucast (pa_page ?b)) p
      else page_take n prev (ucast ?i) ?b p)"
    using i f(1) nz before_less [of e lo ?i] Cons.prems(5) r(1-3) T
    by (subst page_alloc_loop.simps) (simp add: Let_def pa_at_def bug_if_def)
  show ?case
  proof (cases "m < unat n")
    case True
    have s: "slot_below (Next_Of a) (a + m + 1) p" using r T by (simp add: slot_below_def)
    have b: "before (ucast ?i + ucast (pa_page ?b)) (a + m + 1)" using f r T by (simp add: before_def unat_word_ariths)
    have st: "page_alloc_loop n prev e p = page_alloc_loop n (Next_Of a) (ucast ?i + ucast (pa_page ?b)) p"
      using step True f(2) by (simp add: word_less_nat_alt)
    note IH = Cons.IH [of "Next_Of a" "a + m + 1" "ucast ?i + ucast (pa_page ?b)", OF Cons.prems(1) _ r(4) s b Cons.prems(6)]
    show ?thesis
    proof (cases "take_run (unat n) fs")
      case None
      then show ?thesis using IH f(3) st True x by simp
    next
      case (Some y)
      obtain i gs where y: "y = (i, gs)" by (cases y)
      obtain p' where p': "page_alloc_loop n prev e p = Some (Some (pgidx_2_addr p (of_nat i)), p')"
          "free_from p' (slot_get (Next_Of a) p') gs" "kept (Next_Of a) (a + m + 1) p p'"
        using IH f(3) st Some y by auto
      note k = kept_outer [OF p'(3) Cons.prems(4) r(1)]
      show ?thesis using p' k f Some y x True by auto
    qed
  next
    case False
    then have l: "unat n \<le> unat (pa_page ?b)" "unat ?i + unat (pa_page ?b) \<le> unat (page_num p)"
        "runs_ok (unat ?i + unat (pa_page ?b) + 1) (unat (page_num p)) fs" "lo \<le> unat ?i" "?b = page_alloctor p ! unat ?i"
      using f r by simp_all
    obtain p' where p': "page_take n prev (ucast ?i) ?b p = Some (Some (pgidx_2_addr p (ucast ?i)), p')"
        "free_from p' (slot_get prev p') (if unat n < m then (a + unat n, m - unat n) # fs else fs)" "kept prev lo p p'"
      using page_take_run [OF Cons.prems(1) l(5) f(3) l(4,1,2,3) Cons.prems(4,6)] f(1,2) by auto
    have "(ucast ?i :: u32) = of_nat a" using of_nat_up [of ?i] f(1) by simp
    moreover have "\<not> (ucast (pa_page ?b) :: u32) < n" using False f(2) by (simp add: word_less_nat_alt)
    ultimately show ?thesis using p' step False x by simp
  qed
qed

subsection \<open>Release\<close>

lemma page_link_run:
  fixes f :: u32
  assumes ok: "pool_sized p" and s: "slot_below prev lo p" and f: "lo \<le> unat f" "unat f + unat n \<le> unat (page_num p)" "0 < n"
    and i: "free_from p i fs" "runs_ok (unat f + unat n + 1) (unat (page_num p)) fs"
  shows "\<exists>p'. page_link f n prev (ucast i) p = Some p' \<and> free_from p' (slot_get prev p') ((unat f, unat n) # fs) \<and> kept prev lo p p'"
proof -
  have T: "unat (page_num p) < 65535" "length (page_alloctor p) = unat (page_num p)" using ok by (auto simp: pool_sized_def)
  have n: "0 < unat n" using f(3) by (simp add: word_less_nat_alt)
  let ?c = "\<lparr>pa_page = ucast n, pa_next = i\<rparr>"
  have "(ucast (ucast i :: u32) :: u16) = i"
    using unsigned_less [of i, where 'a = nat] by (simp add: word_unat_eq_iff unat_down)
  then have e: "page_link f n prev (ucast i) p = Some (slot_set prev (ucast f) (p\<lparr>page_alloctor := (page_alloctor p)[unat f := ?c]\<rparr>))"
    using link_cases [OF i T(1)] T f(2) n by (auto simp: page_link_def bug_if_def pa_set_def)
  have "unat (ucast n :: u16) = unat n" using f(2) T by simp
  moreover have "runs_ok (unat f + 1) (unat (page_num p)) fs" using i(2) by (rule runs_ok_lower) simp
  ultimately show ?thesis
    using slot_insert [OF s f(1) _ _ _, of "unat (page_num p)" fs ?c] i(1) T f(2) n e by simp
qed

text \<open>A run that begins where the link of \<open>prev\<close> leads is written again.\<close>

lemma slot_update:
  fixes i :: u16
  assumes "slot_below prev lo p" and "slot_get prev p = i" and "lo \<le> unat i" and "unat i < length (page_alloctor p)"
    and "runs_ok (unat i + 1) tp gs" and "free_from p (pa_next c) gs"
  defines "q \<equiv> p\<lparr>page_alloctor := (page_alloctor p)[unat i := c]\<rparr>"
  shows "free_from q (slot_get prev q) ((unat i, unat (pa_page c)) # gs) \<and> kept prev lo p q"
proof -
  have k: "kept prev lo p q" unfolding q_def kept_def rest_of_def using assms(3) by auto
  have g: "slot_get prev q = i" unfolding q_def using assms(1-3) by (cases prev) (auto simp: slot_below_def)
  have "free_from q (pa_next c) gs"
    using free_from_frame_above [OF assms(5), of q p] assms(6) unfolding q_def by simp
  then show ?thesis using k g assms(4) unfolding q_def by simp
qed

lemma page_append_run:
  fixes i :: u16
  assumes ok: "pool_sized p" and s: "slot_below prev lo p" and b: "b = page_alloctor p ! unat i" "lo \<le> unat i" "slot_get prev p = i"
    and f: "unat f = unat i + unat (pa_page b)" "unat f + unat n \<le> unat (page_num p)" "0 < n"
    and i: "free_from p (pa_next b) fs" "runs_ok (unat f + 1) (unat (page_num p)) fs"
  shows "case give_run (unat f) (unat n) ((unat i, unat (pa_page b)) # fs) of
      None \<Rightarrow> page_append n (f + n) (ucast i) b p = None
    | Some gs \<Rightarrow> \<exists>p'. page_append n (f + n) (ucast i) b p = Some p' \<and> free_from p' (slot_get prev p') gs \<and> kept prev lo p p'"
proof -
  let ?m = "unat (pa_page b)" and ?b = "b\<lparr>pa_page := pa_page b + ucast n\<rparr>"
  have T: "unat (page_num p) < 65535" "length (page_alloctor p) = unat (page_num p)" using ok by (auto simp: pool_sized_def)
  have n: "0 < unat n" "unat (ucast n :: u16) = unat n" using f(2,3) T by (simp_all add: word_less_nat_alt)
  have e: "unat (f + n) = unat f + unat n" using f(2) T by (simp add: unat_word_ariths)
  have m: "unat (pa_page ?b) = ?m + unat n" using n f T by (simp add: unat_word_ariths)
  have il: "unat i < length (page_alloctor p)" using f n T by simp
  from link_cases [OF i T(1)] show ?thesis
  proof (elim disjE exE conjE)
    assume a: "fs = []" "pa_next b = 0xffff" "\<not> (ucast (pa_next b) :: u32) < page_num p"
    have "f + n \<noteq> (0xffff :: u32)" using e f(2) T(1) by (auto simp: word_unat_eq_iff)
    then have "page_append n (f + n) (ucast i) b p = Some (p\<lparr>page_alloctor := (page_alloctor p)[unat i := ?b]\<rparr>)"
      using a T il by (simp add: page_append_def bug_if_def pa_set_def Let_def)
    then show ?thesis using slot_update [OF s b(3,2) il, of "unat (page_num p)" "[]" ?b] a m f(1) by (simp add: e)
  next
    fix k c gs
    assume a: "fs = (k, c) # gs" "unat (pa_next b) = k" "(ucast (pa_next b) :: u32) < page_num p" "unat f + 1 \<le> k"
    let ?n = "page_alloctor p ! k"
    have r: "0 < c" "k + c \<le> unat (page_num p)" "runs_ok (k + c + 1) (unat (page_num p)) gs" using i(2) a(1) by auto
    have g: "unat (pa_page ?n) = c" "free_from p (pa_next ?n) gs" using i(1) a(1) by auto
    have pa: "pa_at (ucast (pa_next b)) p = Some ?n" using a(2) r T by (simp add: pa_at_def)
    have ck: "pa_page ?n \<noteq> 0" "\<not> (ucast (pa_page ?n) :: u32) > page_num p - ucast (pa_next b)"
      using g(1) r a(2,3) by (auto simp: word_less_nat_alt unat_sub word_le_nat_alt)
    have gt: "(f + n > ucast (pa_next b)) = (k < unat f + unat n)" using e a(2) by (simp add: word_less_nat_alt)
    have eq: "(f + n = ucast (pa_next b)) = (unat f + unat n = k)" using e a(2) by (simp add: word_unat_eq_iff)
    consider "k < unat f + unat n" | "unat f + unat n = k" | "unat f + unat n < k" by linarith
    then show ?thesis
    proof cases
      case 1
      then show ?thesis using a(1,3) f(1) pa gt by (simp add: page_append_def bug_if_def Let_def)
    next
      case 2
      let ?c = "b\<lparr>pa_page := pa_page b + ucast n + pa_page ?n, pa_next := pa_next ?n\<rparr>"
      have "page_append n (f + n) (ucast i) b p = Some (p\<lparr>page_alloctor := (page_alloctor p)[unat i := ?c]\<rparr>)"
        using 2 a(3) pa ck gt eq il by (simp add: page_append_def bug_if_def pa_set_def Let_def)
      moreover have "unat (pa_page ?c) = ?m + unat n + c" using m g(1) 2 f(1) r(2) T by (simp add: unat_word_ariths)
      moreover have "runs_ok (unat i + 1) (unat (page_num p)) gs" using r(3) by (rule runs_ok_lower) (use 2 f(1) in simp)
      ultimately show ?thesis
        using slot_update [OF s b(3,2) il, of "unat (page_num p)" gs ?c] g(2) 2 a(1) f(1) by (simp add: add.assoc)
    next
      case 3
      have "page_append n (f + n) (ucast i) b p = Some (p\<lparr>page_alloctor := (page_alloctor p)[unat i := ?b]\<rparr>)"
        using 3 a(3) pa ck gt eq il by (simp add: page_append_def bug_if_def pa_set_def Let_def)
      moreover have "runs_ok (unat i + 1) (unat (page_num p)) fs" using i(2) by (rule runs_ok_lower) (use f(1) in simp)
      ultimately show ?thesis
        using slot_update [OF s b(3,2) il, of "unat (page_num p)" fs ?b] i(1) m 3 a(1) f(1) by simp
    qed
  qed
qed

lemma page_free_run:
  assumes "pool_sized p" and "free_from p (slot_get prev p) fs" and "runs_ok lo (unat (page_num p)) fs"
    and "slot_below prev lo p" and "before e lo" and "0 < n" and "lo \<le> unat f" and "unat f + unat n \<le> unat (page_num p)"
  shows "case give_run (unat f) (unat n) fs of
      None \<Rightarrow> page_free_loop f n prev e p = None
    | Some gs \<Rightarrow> \<exists>p'. page_free_loop f n prev e p = Some p' \<and> free_from p' (slot_get prev p') gs \<and> kept prev lo p p'"
  using assms
proof (induction fs arbitrary: prev lo e)
  case Nil
  have "slot_get prev p = 0xffff" "\<not> (ucast (slot_get prev p) :: u32) < page_num p" using Nil by (auto simp: pool_sized_def word_less_nat_alt)
  then have "page_free_loop f n prev e p = page_link f n prev (ucast (slot_get prev p)) p"
    by (subst page_free_loop.simps) (simp add: Let_def)
  then show ?case using page_link_run [OF Nil.prems(1,4,7,8,6,2)] by simp
next
  case (Cons x fs)
  obtain a m where x: "x = (a, m)" by (cases x)
  let ?i = "slot_get prev p"
  let ?b = "page_alloctor p ! a"
  have T: "unat (page_num p) < 65535" "length (page_alloctor p) = unat (page_num p)" using Cons.prems(1) by (auto simp: pool_sized_def)
  have g: "unat ?i = a" "unat (pa_page ?b) = m" "free_from p (pa_next ?b) fs" using Cons.prems(2) x by auto
  have r: "lo \<le> a" "0 < m" "a + m \<le> unat (page_num p)" "runs_ok (a + m + 1) (unat (page_num p)) fs" using Cons.prems(3) x by auto
  have i: "(ucast ?i :: u32) < page_num p" using g(1) r by (simp add: word_less_nat_alt)
  have nz: "pa_page ?b \<noteq> 0" using g(2) r(2) by auto
  have bend: "unat (ucast ?i + ucast (pa_page ?b) :: u32) = a + m" using g r T by (simp add: unat_word_ariths)
  have fend: "unat (f + n) = unat f + unat n" using Cons.prems(8) T by (simp add: unat_word_ariths)
  let ?bend = "ucast ?i + ucast (pa_page ?b) :: u32"
  have c: "(?bend < f) = (a + m < unat f)" "(f = ?bend) = (unat f = a + m)" "(f + n < ucast ?i) = (unat f + unat n < a)"
      "(f + n = ucast ?i) = (unat f + unat n = a)" "\<not> ?bend > page_num p"
    using bend fend g(1) r(3) by (auto simp: word_less_nat_alt word_unat_eq_iff)
  have step: "page_free_loop f n prev e p =
      (if a + m < unat f then page_free_loop f n (Next_Of a) ?bend p
       else if unat f = a + m then page_append n (f + n) (ucast ?i) ?b p
       else if unat f + unat n < a then page_link f n prev (ucast ?i) p
       else if unat f + unat n = a then do {
         q \<leftarrow> pa_set f \<lparr>pa_page = pa_page ?b + ucast n, pa_next = pa_next ?b\<rparr> p;
         Some (slot_set prev (ucast f) q) }
       else None)"
    using i g(1) nz before_less [of e lo ?i] Cons.prems(5) r(1-3) T c
    by (subst page_free_loop.simps) (simp add: Let_def pa_at_def bug_if_def)
  consider "a + m < unat f" | "unat f = a + m" | "unat f + unat n < a" | "unat f + unat n = a"
    | "unat f < a + m" "a < unat f + unat n" by linarith
  then show ?case
  proof cases
    case 1
    have s: "slot_below (Next_Of a) (a + m + 1) p" using r T by (simp add: slot_below_def)
    have b: "before ?bend (a + m + 1)" using bend by (simp add: before_def)
    have l: "a + m + 1 \<le> unat f" using 1 by simp
    note IH = Cons.IH [of "Next_Of a" "a + m + 1" ?bend, OF Cons.prems(1) _ r(4) s b Cons.prems(6) l Cons.prems(8)]
    show ?thesis
    proof (cases "give_run (unat f) (unat n) fs")
      case None
      then show ?thesis using IH g(3) step 1 x by simp
    next
      case (Some gs)
      then obtain p' where p': "page_free_loop f n prev e p = Some p'" "free_from p' (slot_get (Next_Of a) p') gs" "kept (Next_Of a) (a + m + 1) p p'"
        using IH g(3) step 1 by auto
      note k = kept_outer [OF p'(3) Cons.prems(4) r(1)]
      show ?thesis using p' k g Some x 1 by auto
    qed
  next
    case 2
    have e: "page_free_loop f n prev e p = page_append n (f + n) (ucast ?i) ?b p" using step 2 by simp
    have h: "?b = page_alloctor p ! unat ?i" "lo \<le> unat ?i" "unat f = unat ?i + unat (pa_page ?b)" "runs_ok (unat f + 1) (unat (page_num p)) fs"
      using 2 g r by simp_all
    show ?thesis
      using page_append_run [OF Cons.prems(1,4) h(1,2) refl h(3) Cons.prems(8,6) g(3) h(4)] unfolding g(1,2) x e .
  next
    case 3
    have "runs_ok (unat f + unat n + 1) (unat (page_num p)) ((a, m) # fs)" using Cons.prems(3) 3 x by simp
    then show ?thesis
      using page_link_run [OF Cons.prems(1,4,7,8,6), of ?i "(a, m) # fs"] Cons.prems(2) step 3 x r(2) by auto
  next
    case 4
    let ?c = "\<lparr>pa_page = pa_page ?b + ucast n, pa_next = pa_next ?b\<rparr>"
    have "unat (ucast n :: u16) = unat n" using Cons.prems(8) T by simp
    then have "unat (pa_page ?c) = m + unat n" using g(2) 4 r(3) T by (simp add: unat_word_ariths)
    moreover have "runs_ok (unat f + 1) (unat (page_num p)) fs" using r(4) by (rule runs_ok_lower) (use 4 in simp)
    moreover have "page_free_loop f n prev e p = Some (slot_set prev (ucast f) (p\<lparr>page_alloctor := (page_alloctor p)[unat f := ?c]\<rparr>))"
      using step 4 r(2) Cons.prems(6,8) T by (simp add: pa_set_def word_less_nat_alt)
    moreover have "give_run (unat f) (unat n) (x # fs) = Some ((unat f, m + unat n) # fs)" using 4 x r(2) Cons.prems(6) by (simp add: word_less_nat_alt)
    moreover have "unat f < length (page_alloctor p)" "length (page_alloctor p) < 65535" using 4 r T by simp_all
    ultimately show ?thesis
      using slot_insert [OF Cons.prems(4,7), of "unat (page_num p)" fs ?c] g(3) by simp
  next
    case 5
    then show ?thesis using step x Cons.prems(6) by (auto simp: word_less_nat_alt)
  qed
qed

subsection \<open>Sets of pages\<close>

lemma run_pages_within: "runs_ok lo tp fs \<Longrightarrow> run_pages fs \<subseteq> {lo..<tp}"
  by (induction lo tp fs rule: runs_ok.induct) force+

text \<open>Pages in a row lie in one run, since runs are apart.\<close>

lemma in_one_run:
  fixes j n a m :: nat
  assumes "{j..<j + n} \<subseteq> {a..<a + m} \<union> R" and "R \<subseteq> {a + m + 1..}" and "0 < n"
  shows "a \<le> j \<and> j + n \<le> a + m \<or> {j..<j + n} \<subseteq> R"
proof (cases "j < a + m")
  case True
  have "j \<in> {j..<j + n}" using assms(3) by simp
  then have "j \<in> {a..<a + m} \<union> R" using assms(1) by blast
  then have "j \<in> {a..<a + m}" using assms(2) True by fastforce
  moreover have "j + n \<le> a + m"
  proof (rule ccontr)
    assume "\<not> j + n \<le> a + m"
    then have "a + m \<in> {j..<j + n}" using True by simp
    then show False using assms(1,2) by fastforce
  qed
  ultimately show ?thesis by auto
next
  case False
  then have "{j..<j + n} \<inter> {a..<a + m} = {}" by auto
  then show ?thesis using assms(1) by blast
qed

lemma take_run_pages:
  assumes "runs_ok lo tp fs" and "0 < n"
  shows "case take_run n fs of
      None \<Rightarrow> \<forall>j. \<not> {j..<j + n} \<subseteq> run_pages fs
    | Some (i, gs) \<Rightarrow> {i..<i + n} \<subseteq> run_pages fs \<and> run_pages gs = run_pages fs - {i..<i + n} \<and> runs_ok lo tp gs \<and>
        (\<forall>j. {j..<j + n} \<subseteq> run_pages fs \<longrightarrow> i \<le> j)"
  using assms
proof (induction fs arbitrary: lo)
  case (Cons x fs)
  obtain a m where x: "x = (a, m)" by (cases x)
  have r: "lo \<le> a" "0 < m" "a + m \<le> tp" "runs_ok (a + m + 1) tp fs" using Cons.prems x by auto
  have R: "run_pages fs \<subseteq> {a + m + 1..}" using run_pages_within [OF r(4)] by auto
  note one = in_one_run [OF _ R Cons.prems(2)]
  show ?case
  proof (cases "m < n")
    case True
    have new: "{j..<j + n} \<subseteq> run_pages fs" if "{j..<j + n} \<subseteq> run_pages (x # fs)" for j
      using one [of j] that True x by auto
    show ?thesis
    proof (cases "take_run n fs")
      case None
      then show ?thesis using Cons.IH [OF r(4) Cons.prems(2)] True x new by (auto split: prod.splits)
    next
      case (Some y)
      obtain i gs where y: "y = (i, gs)" by (cases y)
      have s: "{i..<i + n} \<subseteq> run_pages fs" "run_pages gs = run_pages fs - {i..<i + n}" "runs_ok (a + m + 1) tp gs"
          "\<forall>j. {j..<j + n} \<subseteq> run_pages fs \<longrightarrow> i \<le> j"
        using Cons.IH [OF r(4) Cons.prems(2)] Some y by auto
      have "{a..<a + m} \<inter> run_pages fs = {}" using R by fastforce
      then have "{a..<a + m} \<inter> {i..<i + n} = {}" using s(1) by blast
      then have "run_pages ((a, m) # gs) = run_pages (x # fs) - {i..<i + n}" using s(2) unfolding x run_pages.simps by blast
      moreover have "take_run n (x # fs) = Some (i, (a, m) # gs)" using Some y x True by simp
      moreover have "{i..<i + n} \<subseteq> run_pages (x # fs)" using s(1) x by auto
      moreover have "runs_ok lo tp ((a, m) # gs)" using s(3) r by simp
      ultimately show ?thesis using s(4) new by simp
    qed
  next
    case False
    let ?gs = "if n < m then (a + n, m - n) # fs else fs"
    have "run_pages ?gs = {a + n..<a + m} \<union> run_pages fs" using False by simp
    moreover have "{a..<a + m} - {a..<a + n} = {a + n..<a + m}" "run_pages fs \<inter> {a..<a + n} = {}" using False R by fastforce+
    ultimately have "run_pages ?gs = run_pages (x # fs) - {a..<a + n}" unfolding x run_pages.simps by blast
    moreover have "runs_ok lo tp ?gs" using r False Cons.prems(2) by (auto elim: runs_ok_lower)
    moreover have "a \<le> j" if "{j..<j + n} \<subseteq> run_pages (x # fs)" for j
    proof -
      have "j \<in> run_pages (x # fs)" using that Cons.prems(2) by auto
      then show ?thesis using x R by fastforce
    qed
    ultimately show ?thesis using False x by auto
  qed
qed (auto simp: Cons_eq_append_conv)

lemma give_run_pages:
  assumes "runs_ok lo tp fs" and "0 < n" and "lo \<le> f" and "f + n \<le> tp"
  shows "case give_run f n fs of
      None \<Rightarrow> {f..<f + n} \<inter> run_pages fs \<noteq> {}
    | Some gs \<Rightarrow> {f..<f + n} \<inter> run_pages fs = {} \<and> run_pages gs = run_pages fs \<union> {f..<f + n} \<and> runs_ok lo tp gs"
  using assms
proof (induction fs arbitrary: lo)
  case (Cons x fs)
  obtain a m where x: "x = (a, m)" by (cases x)
  have r: "lo \<le> a" "0 < m" "a + m \<le> tp" "runs_ok (a + m + 1) tp fs" using Cons.prems x by auto
  have R: "run_pages fs \<subseteq> {a + m + 1..}" using run_pages_within [OF r(4)] by auto
  consider "a + m < f" | "f = a + m" | "f + n < a" | "f + n = a" | "f < a + m" "a < f + n" by linarith
  then show ?case
  proof cases
    case 1
    then have "{f..<f + n} \<inter> {a..<a + m} = {}" by auto
    then show ?thesis using Cons.IH [OF r(4) Cons.prems(2) _ Cons.prems(4)] 1 x r by (auto split: option.splits)
  next
    case 2
    have o: "{f..<f + n} \<inter> {a..<a + m} = {}" "{a..<a + m} \<union> {f..<f + n} = {a..<a + m + n}" using 2 by auto
    show ?thesis
    proof (cases fs)
      case Nil
      have "give_run f n (x # fs) = Some [(a, m + n)]" using Nil 2 x by simp
      moreover have "run_pages (x # fs) = {a..<a + m}" "run_pages [(a, m + n)] = {a..<a + m + n}" using Nil x by (simp_all add: add.assoc)
      moreover have "runs_ok lo tp [(a, m + n)]" using 2 r Cons.prems(4) by simp
      ultimately show ?thesis using o by simp
    next
      case (Cons y gs)
      obtain b k where y: "y = (b, k)" by (cases y)
      have s: "a + m + 1 \<le> b" "0 < k" "b + k \<le> tp" "runs_ok (b + k + 1) tp gs" using r(4) Cons y by auto
      have S: "run_pages gs \<subseteq> {b + k + 1..}" using run_pages_within [OF s(4)] by auto
      consider "b < f + n" | "f + n = b" | "f + n < b" by linarith
      then show ?thesis
      proof cases
        case 1
        have "b \<in> {f..<f + n}" "b \<in> run_pages (x # fs)" using 1 2 s y Cons x by simp_all
        then have "{f..<f + n} \<inter> run_pages (x # fs) \<noteq> {}" by blast
        then show ?thesis using 1 2 x y Cons Cons.prems by auto
      next
        case b: 2
        have "{f..<f + n} \<inter> run_pages (x # fs) = {}" using o b S x y Cons by fastforce
        moreover have "run_pages ((a, m + n + k) # gs) = run_pages (x # fs) \<union> {f..<f + n}" using 2 b x y Cons by fastforce
        moreover have "give_run f n (x # fs) = Some ((a, m + n + k) # gs)" using 2 b x y Cons by simp
        moreover have e: "a + (m + n + k) = b + k" using 2 b by simp
        then have "runs_ok lo tp ((a, m + n + k) # gs)" using r(1,2) s unfolding runs_ok.simps e by simp
        ultimately show ?thesis by simp
      next
        case 3
        have "{f..<f + n} \<inter> run_pages (x # fs) = {}" using o 3 S x y Cons by fastforce
        moreover have "run_pages ((a, m + n) # fs) = run_pages (x # fs) \<union> {f..<f + n}" using o(2) unfolding x run_pages.simps add.assoc [symmetric] by blast
        ultimately show ?thesis using 2 3 x y Cons r s by simp
      qed
    qed
  next
    case 3
    then have "{f..<f + n} \<inter> run_pages (x # fs) = {}" using R x by fastforce
    then show ?thesis using 3 x r Cons.prems by auto
  next
    case 4
    have "{f..<f + n} \<inter> run_pages (x # fs) = {}" using 4 R x by fastforce
    moreover have "{f..<f + (m + n)} = {f..<f + n} \<union> {a..<a + m}" using 4 by auto
    then have "run_pages ((f, m + n) # fs) = run_pages (x # fs) \<union> {f..<f + n}" unfolding x run_pages.simps by blast
    moreover have e: "f + (m + n) = a + m" using 4 by simp
    then have "runs_ok lo tp ((f, m + n) # fs)" unfolding runs_ok.simps e using r Cons.prems(2,3) by simp
    moreover have "give_run f n (x # fs) = Some ((f, m + n) # fs)" using 4 x r(2) Cons.prems(2) by simp
    ultimately show ?thesis by simp
  next
    case 5
    have "max a f \<in> {f..<f + n} \<inter> run_pages (x # fs)" using 5 x r(2) Cons.prems(2) by auto
    then have "{f..<f + n} \<inter> run_pages (x # fs) \<noteq> {}" by blast
    moreover have "give_run f n (x # fs) = None" using 5 x by simp
    ultimately show ?thesis by simp
  qed
qed auto

text \<open>Allocation: the first pages in a row that are free.\<close>

lemma rest_of_eq: "rest_of q = rest_of p \<Longrightarrow> q = p\<lparr>page_alloctor := page_alloctor q, alloctor_list := alloctor_list q\<rparr>"
  by (cases p, cases q) (simp add: rest_of_def)

lemma page_alloc_set:
  assumes ok: "pages_ok p fs" and n: "n \<noteq> 0"
  shows "case take_run (unat n) fs of
      None \<Rightarrow> rt_page_alloc_nolock n p = Some (None, p) \<and> (\<forall>j. \<not> {j..<j + unat n} \<subseteq> run_pages fs)
    | Some (i, gs) \<Rightarrow> (\<exists>q. rt_page_alloc_nolock n p = Some (Some (pgidx_2_addr p (of_nat i)), q) \<and> pages_ok q gs \<and> rest_of q = rest_of p) \<and>
        {i..<i + unat n} \<subseteq> run_pages fs \<and> run_pages gs = run_pages fs - {i..<i + unat n} \<and>
        (\<forall>j. {j..<j + unat n} \<subseteq> run_pages fs \<longrightarrow> i \<le> j)"
proof -
  have p: "pool_sized p" "free_from p (slot_get List_Head p) fs" "runs_ok 0 (unat (page_num p)) fs" "slot_below List_Head 0 p"
    using ok by (simp_all add: pages_ok_def slot_below_def)
  have b: "before (- 1) 0" by (simp add: before_def)
  have nn: "0 < unat n" using n by (simp add: unat_gt_0)
  have r: "rt_page_alloc_nolock n p = page_alloc_loop n List_Head (- 1) p" using n by (simp add: rt_page_alloc_nolock_def)
  have n0: "0 < n" using n by (simp add: word_gt_0)
  note run = page_alloc_run [OF p b n0] and sets = take_run_pages [OF p(3) nn]
  show ?thesis
  proof (cases "take_run (unat n) fs")
    case None
    then show ?thesis using run sets r by simp
  next
    case (Some x)
    obtain i gs where x: "x = (i, gs)" by (cases x)
    obtain q where q: "page_alloc_loop n List_Head (- 1) p = Some (Some (pgidx_2_addr p (of_nat i)), q)"
        "free_from q (slot_get List_Head q) gs" "kept List_Head 0 p q"
      using run Some x by auto
    note k = kept_fields [OF q(3)]
    have "pages_ok q gs" using q(2) k p(1) sets Some x by (simp add: pages_ok_def pool_sized_def)
    then show ?thesis using q(1) r k(6) sets Some x by simp
  qed
qed

end
