(* ===== verification/Slab_Rings.thy ===== *)
theory Slab_Rings
  imports Slab Slab_Pages_Correct
begin

unbundle bit_operations_syntax

text \<open>
  The circular lists of pages in the system heap: links of the page descriptors that run once around a list of indices. What
  the heap does to them is removal of a page and insertion of a page between two neighbours.
\<close>

definition nx :: "page_man list \<Rightarrow> nat \<Rightarrow> nat" where
  "nx G i = unat (page_next (G ! i))"

definition pv :: "page_man list \<Rightarrow> nat \<Rightarrow> nat" where
  "pv G i = unat (page_prev (G ! i))"

definition upd_next :: "nat \<Rightarrow> nat \<Rightarrow> page_man list \<Rightarrow> page_man list" where
  "upd_next i v G = G[i := (G ! i)\<lparr>page_next := of_nat v\<rparr>]"

definition upd_prev :: "nat \<Rightarrow> nat \<Rightarrow> page_man list \<Rightarrow> page_man list" where
  "upd_prev i v G = G[i := (G ! i)\<lparr>page_prev := of_nat v\<rparr>]"

lemma upd_length [simp]: "length (upd_next i v G) = length G" "length (upd_prev i v G) = length G"
  by (simp_all add: upd_next_def upd_prev_def)

lemma upd_nx [simp]:
  assumes "i < length G" and "v < 2 ^ 20"
  shows "nx (upd_next i v G) j = (if j = i then v else nx G j)"
proof -
  have "take_bit 20 v = v" using assms(2) by (simp add: take_bit_nat_eq_self_iff)
  then show ?thesis using assms(1) by (auto simp: nx_def upd_next_def nth_list_update unsigned_of_nat)
qed

lemma upd_pv [simp]:
  assumes "i < length G" and "v < 2 ^ 20"
  shows "pv (upd_prev i v G) j = (if j = i then v else pv G j)"
proof -
  have "take_bit 20 v = v" using assms(2) by (simp add: take_bit_nat_eq_self_iff)
  then show ?thesis using assms(1) by (auto simp: pv_def upd_prev_def nth_list_update unsigned_of_nat)
qed

lemma update_at: "G[i := f (G ! i)] ! j = (if i = j \<and> i < length G then f (G ! j) else G ! j)"
  by (cases "i < length G") (auto simp: nth_list_update list_update_beyond)

lemma upd_other [simp]: "nx (upd_prev i v G) j = nx G j" "pv (upd_next i v G) j = pv G j"
  by (simp_all add: nx_def pv_def upd_next_def upd_prev_def update_at [where f = "\<lambda>m. m\<lparr>page_next := _\<rparr>"] update_at [where f = "\<lambda>m. m\<lparr>page_prev := _\<rparr>"])

lemma upd_away [simp]: "j \<noteq> i \<Longrightarrow> upd_next i v G ! j = G ! j" "j \<noteq> i \<Longrightarrow> upd_prev i v G ! j = G ! j"
  by (simp_all add: upd_next_def upd_prev_def)

text \<open>What a page descriptor holds besides its links.\<close>

definition core :: "page_man \<Rightarrow> page_type \<times> 5 word \<times> 12 word \<times> 64 word" where
  "core m = (page_type m, zone_index m, free_trunks m, trunk_bitmap m)"

lemma upd_core [simp]: "core (upd_next i v G ! j) = core (G ! j)" "core (upd_prev i v G ! j) = core (G ! j)"
  by (simp_all add: core_def upd_next_def upd_prev_def update_at [where f = "\<lambda>m. m\<lparr>page_next := _\<rparr>"] update_at [where f = "\<lambda>m. m\<lparr>page_prev := _\<rparr>"])

subsection \<open>Circular lists\<close>

fun path :: "page_man list \<Rightarrow> nat list \<Rightarrow> bool" where
  "path G (x # y # zs) = (nx G x = y \<and> pv G y = x \<and> path G (y # zs))"
| "path G _ = True"

definition pgring :: "page_man list \<Rightarrow> nat list \<Rightarrow> bool" where
  "pgring G xs = (distinct xs \<and> set xs \<subseteq> {..<length G} \<and> (xs \<noteq> [] \<longrightarrow> path G (xs @ [hd xs])))"

lemma path_append: "path G (xs @ y # zs) = (path G (xs @ [y]) \<and> path G (y # zs))"
  by (induction xs rule: induct_list012) auto

lemma path_cong:
  "\<lbrakk>\<And>x. x \<in> set (butlast xs) \<Longrightarrow> nx G' x = nx G x; \<And>x. x \<in> set (tl xs) \<Longrightarrow> pv G' x = pv G x\<rbrakk> \<Longrightarrow> path G' xs = path G xs"
  by (induction xs rule: induct_list012) auto

lemma ring_nil [simp]: "pgring G []"
  by (simp add: pgring_def)

lemma ring_single: "pgring G [x] = (x < length G \<and> nx G x = x \<and> pv G x = x)"
  by (auto simp: pgring_def)

lemma ring_rotate: "pgring G (xs @ ys) = pgring G (ys @ xs)"
proof (cases "xs = [] \<or> ys = []")
  case False
  then obtain a as b bs where x: "xs = a # as" and y: "ys = b # bs" by (meson list.exhaust)
  have "path G ((xs @ ys) @ [a]) = (path G (xs @ [b]) \<and> path G (ys @ [a]))" using path_append [of G xs b "bs @ [a]"] y by simp
  moreover have "path G ((ys @ xs) @ [b]) = (path G (ys @ [a]) \<and> path G (xs @ [b]))" using path_append [of G ys a "as @ [b]"] x by simp
  ultimately show ?thesis using x y by (auto simp: pgring_def)
qed auto

lemma pgring_frame:
  assumes "length G' = length G" and "\<And>x. x \<in> set xs \<Longrightarrow> nx G' x = nx G x \<and> pv G' x = pv G x"
  shows "pgring G' xs = pgring G xs"
proof (cases "xs = []")
  case False
  have "path G' (xs @ [hd xs]) = path G (xs @ [hd xs])"
  proof (rule path_cong)
    fix x assume "x \<in> set (butlast (xs @ [hd xs]))"
    then show "nx G' x = nx G x" using assms(2) by simp
  next
    fix x assume "x \<in> set (tl (xs @ [hd xs]))"
    then have "x \<in> set xs" using False by (cases xs) auto
    then show "pv G' x = pv G x" using assms(2) by simp
  qed
  then show ?thesis using assms(1) False by (simp add: pgring_def)
qed simp

lemma ring_cons:
  "pgring G (i # c # cs) = (distinct (i # c # cs) \<and> set (i # c # cs) \<subseteq> {..<length G} \<and> nx G i = c \<and> pv G c = i \<and>
     path G (c # cs) \<and> nx G (last (c # cs)) = i \<and> pv G i = last (c # cs))"
proof -
  have "path G ((c # cs) @ [i]) = (path G (c # cs) \<and> path G [last (c # cs), i])"
    using path_append [of G "butlast (c # cs)" "last (c # cs)" "[i]"] append_butlast_last_id [of "c # cs"]
    by (metis (no_types, lifting) append_Cons append_assoc list.distinct(1) self_append_conv2)
  then show ?thesis by (auto simp: pgring_def)
qed

text \<open>The neighbours of a page of a ring.\<close>

lemma ring_split:
  assumes "i \<in> set xs"
  obtains as bs where "xs = as @ i # bs" and "\<And>G. pgring G xs = pgring G (i # bs @ as)"
  using split_list [OF assms] ring_rotate [where ys = "i # bs" for bs] by (metis append_Cons)

lemma ring_links:
  assumes "pgring G xs" and "i \<in> set xs"
  shows "nx G i \<in> set xs" "pv G i \<in> set xs" "pv G (nx G i) = i" "nx G (pv G i) = i" "i < length G"
    "nx G i = i \<longleftrightarrow> xs = [i]"
proof -
  obtain as bs where s: "xs = as @ i # bs" "\<And>G. pgring G xs = pgring G (i # bs @ as)" using ring_split [OF assms(2)] by metis
  have r: "pgring G (i # bs @ as)" using assms(1) s(2) by simp
  have e: "set xs = set (i # bs @ as)" "xs = [i] \<longleftrightarrow> bs @ as = []" using s(1) by (auto simp: append_eq_Cons_conv)
  have "nx G i \<in> set (i # bs @ as) \<and> pv G i \<in> set (i # bs @ as) \<and> pv G (nx G i) = i \<and> nx G (pv G i) = i \<and> i < length G \<and>
      (nx G i = i \<longleftrightarrow> bs @ as = [])"
  proof (cases "bs @ as")
    case Nil
    then show ?thesis using r by (simp add: ring_single)
  next
    case (Cons c cs)
    have l: "last (c # cs) \<in> set (c # cs)" by (rule last_in_set) simp
    show ?thesis using r l unfolding Cons ring_cons by auto
  qed
  then show "nx G i \<in> set xs" "pv G i \<in> set xs" "pv G (nx G i) = i" "nx G (pv G i) = i" "i < length G" "nx G i = i \<longleftrightarrow> xs = [i]"
    unfolding e by blast+
qed

lemma ring_bound: "\<lbrakk>pgring G xs; x \<in> set xs\<rbrakk> \<Longrightarrow> x < length G"
  by (auto simp: pgring_def)

lemma ring_distinct: "pgring G xs \<Longrightarrow> distinct xs"
  by (simp add: pgring_def)

subsection \<open>Removal and insertion\<close>

definition unlinked :: "nat \<Rightarrow> page_man list \<Rightarrow> page_man list" where
  "unlinked i G = upd_prev (nx G i) (pv G i) (upd_next (pv G i) (nx G i) G)"

definition joined :: "nat \<Rightarrow> nat \<Rightarrow> nat \<Rightarrow> page_man list \<Rightarrow> page_man list" where
  "joined l i c G = upd_next l i (upd_prev c i (upd_next i c (upd_prev i l G)))"

lemma unlinked_frame [simp]: "length (unlinked i G) = length G" "core (unlinked i G ! j) = core (G ! j)"
  by (simp_all add: unlinked_def)

lemma joined_frame [simp]: "length (joined l i c G) = length G" "core (joined l i c G ! j) = core (G ! j)"
  by (simp_all add: joined_def)

lemma unlinked_away: "\<lbrakk>pgring G xs; i \<in> set xs; xs \<noteq> [i]; j \<notin> set xs - {i}\<rbrakk> \<Longrightarrow> unlinked i G ! j = G ! j"
proof -
  assume a: "pgring G xs" "i \<in> set xs" "xs \<noteq> [i]" "j \<notin> set xs - {i}"
  have "nx G i \<noteq> i" "pv G i \<noteq> i" using ring_links [OF a(1,2)] a(3) by metis+
  then have "j \<noteq> nx G i" "j \<noteq> pv G i" using ring_links(1,2) [OF a(1,2)] a(4) by blast+
  then show ?thesis by (simp add: unlinked_def)
qed

lemma unlinked_ring:
  assumes r: "pgring G xs" and i: "i \<in> set xs" and n: "xs \<noteq> [i]" and N: "length G < 2 ^ 20"
  shows "pgring (unlinked i G) (remove1 i xs)"
proof -
  obtain as bs where s: "xs = as @ i # bs" "\<And>G. pgring G xs = pgring G (i # bs @ as)" using ring_split [OF i] by metis
  have d: "i \<notin> set as" using ring_distinct [OF r] s(1) by simp
  obtain c cs where c: "bs @ as = c # cs" using n s(1) by (cases "bs @ as") auto
  let ?l = "last (c # cs)"
  have R: "pgring G (i # c # cs)" using r s(2) c by simp
  have f: "distinct (c # cs)" "set (c # cs) \<subseteq> {..<length G}" "nx G i = c" "pv G i = ?l" "path G (c # cs)" using R unfolding ring_cons by auto
  have l: "?l \<in> set (c # cs)" by (rule last_in_set) simp
  have b: "c < length G" "?l < length G" "c < 2 ^ 20" "?l < 2 ^ 20" using f(2) l N by (auto dest!: subsetD)
  let ?G = "unlinked i G"
  have u: "?G = upd_prev c ?l (upd_next ?l c G)" using f by (simp add: unlinked_def)
  have nx: "nx ?G x = (if x = ?l then c else nx G x)" for x unfolding u using b by simp
  have pv: "pv ?G x = (if x = c then ?l else pv G x)" for x unfolding u using b by simp
  have k: "c # cs = butlast (c # cs) @ [?l]" by simp
  have "?l \<notin> set (butlast (c # cs))" using f(1) by (subst (asm) k) (simp only: distinct_append, auto)
  then have "path ?G (c # cs) = path G (c # cs)" by (intro path_cong) (use f(1) in \<open>auto simp: nx pv split: if_splits\<close>)
  moreover have "path ?G ((c # cs) @ [c]) = (path ?G (c # cs) \<and> path ?G [?l, c])"
    using path_append [of ?G "butlast (c # cs)" ?l "[c]"] k by (metis append_Cons append_Nil append_assoc)
  ultimately have "pgring ?G (c # cs)" using f(1,2,5) by (simp add: pgring_def nx pv)
  then have "pgring ?G (as @ bs)" using c ring_rotate by metis
  moreover have "remove1 i xs = as @ bs" using s(1) d by (simp add: remove1_append)
  ultimately show ?thesis by simp
qed

lemma linked_ring:
  assumes r: "pgring G (c # cs)" and i: "i \<notin> set (c # cs)" "i < length G" and N: "length G < 2 ^ 20"
  shows "pgring (joined (last (c # cs)) i c G) (i # c # cs)"
proof -
  let ?l = "last (c # cs)"
  let ?G = "joined ?l i c G"
  have l: "?l \<in> set (c # cs)" by (rule last_in_set) simp
  have f: "distinct (c # cs)" "set (c # cs) \<subseteq> {..<length G}" using r unfolding pgring_def by auto
  have b: "c < length G" "?l < length G" "c < 2 ^ 20" "?l < 2 ^ 20" "i < 2 ^ 20" using f(2) l N i by (auto dest!: subsetD)
  have k: "c # cs = butlast (c # cs) @ [?l]" by simp
  have P: "path H ((c # cs) @ [x]) = (path H (c # cs) \<and> path H [?l, x])" for H x
    using path_append [of H "butlast (c # cs)" ?l "[x]"] k by (metis append_Cons append_Nil append_assoc)
  have p: "path G (c # cs)" using r P [of G c] by (simp add: pgring_def)
  have ne: "i \<noteq> c" "i \<noteq> ?l" using i(1) l by auto
  have nx: "nx ?G x = (if x = ?l then i else if x = i then c else nx G x)" for x using b i(2) ne by (simp add: joined_def)
  have pv: "pv ?G x = (if x = c then i else if x = i then ?l else pv G x)" for x using b i(2) ne by (simp add: joined_def)
  have "?l \<notin> set (butlast (c # cs))" using f(1) by (subst (asm) k) (simp only: distinct_append, auto)
  then have "path ?G (c # cs) = path G (c # cs)"
  proof (intro path_cong)
    fix x assume x: "x \<in> set (butlast (c # cs))"
    then have "x \<in> set (c # cs)" by (rule in_set_butlastD)
    then show "nx ?G x = nx G x" using x i(1) \<open>?l \<notin> _\<close> unfolding nx by auto
  next
    fix x assume x: "x \<in> set (tl (c # cs))"
    then show "pv ?G x = pv G x" using i(1) f(1) unfolding pv by auto
  qed
  moreover have "nx ?G i = c" "pv ?G c = i" "nx ?G ?l = i" "pv ?G i = ?l" unfolding nx pv using ne by simp_all
  ultimately show ?thesis unfolding ring_cons using p f i by simp
qed

end
