(* ===== verification/Slab_Inv.thy ===== *)
theory Slab_Inv
  imports Slab_Rings
begin

unbundle bit_operations_syntax

text \<open>
  The invariant of the system heap: the free pages are the runs of the page allocator, every other page is part of exactly one
  block, a zone or an empty zone that is kept, and the circular lists hold the zones with a free trunk and the empty zones.
\<close>

subsection \<open>The lists of a pool\<close>

text \<open>The list a page belongs on: one for each size of trunk, and the list 15 of the empty zones.\<close>

definition cls :: "page_man \<Rightarrow> nat option" where
  "cls m = (case page_type m of
     PAGE_TYPE_ZONE \<Rightarrow> if free_trunks m = 0 then None else Some (unat (zone_index m))
   | PAGE_TYPE_CACHE \<Rightarrow> Some 15
   | _ \<Rightarrow> None)"

lemma cls_core: "core m = core m' \<Longrightarrow> cls m = cls m'"
  by (cases "page_type m'") (simp_all add: core_def cls_def)

definition heads :: "mem_pool \<Rightarrow> nat \<Rightarrow> int" where
  "heads p k = (if k < 15 then zone_alloc_list p ! k else if k = 15 then zone_cache_list p else 0)"

definition first :: "nat list \<Rightarrow> int" where
  "first xs = (case xs of [] \<Rightarrow> -1 | x # _ \<Rightarrow> int x)"

lemma first_simps [simp]: "first [] = -1" "first (x # xs) = int x"
  by (simp_all add: first_def)

lemma first_nonneg [simp]: "0 \<le> first xs \<longleftrightarrow> xs \<noteq> []"
  by (cases xs) simp_all

definition rings_ok :: "(nat \<Rightarrow> nat option) \<Rightarrow> page_man list \<Rightarrow> (nat \<Rightarrow> int) \<Rightarrow> (nat \<Rightarrow> nat list) \<Rightarrow> bool" where
  "rings_ok C G H R = (\<forall>k < 16. pgring G (R k) \<and> set (R k) = {i. i < length G \<and> C i = Some k} \<and> H k = first (R k))"

lemma rings_okD:
  assumes "rings_ok C G H R" and "k < 16"
  shows "pgring G (R k)" "set (R k) = {i. i < length G \<and> C i = Some k}" "H k = first (R k)"
  using assms by (auto simp: rings_ok_def)

lemma rings_remove:
  assumes r: "rings_ok C G H R" and k: "k < 16" and i: "i \<in> set (R k)" and N: "length G < 2 ^ 20"
    and G: "G' = (if R k = [i] then G else unlinked i G)" and H: "H' = H(k := first (remove1 i (R k)))"
  shows "rings_ok (C(i := None)) G' H' (R(k := remove1 i (R k)))"
proof -
  have Ci: "C i = Some k" "i < length G" using rings_okD(2) [OF r k] i by auto
  have n: "length G' = length G" by (simp add: G)
  have "pgring G' ((R(k := remove1 i (R k))) m) \<and> set ((R(k := remove1 i (R k))) m) = {j. j < length G' \<and> (C(i := None)) j = Some m}
      \<and> H' m = first ((R(k := remove1 i (R k))) m)" if m: "m < 16" for m
  proof (cases "m = k")
    case True
    have "set (remove1 i (R k)) = set (R k) - {i}" using ring_distinct [OF rings_okD(1) [OF r k]] by simp
    then have "set (remove1 i (R k)) = {j. j < length G' \<and> (C(i := None)) j = Some k}" using rings_okD(2) [OF r k] by (auto simp: n)
    moreover have "pgring G' (remove1 i (R k))" using unlinked_ring [OF rings_okD(1) [OF r k] i _ N] by (auto simp: G)
    ultimately show ?thesis using True by (simp add: H)
  next
    case False
    have q: "nx G' x = nx G x \<and> pv G' x = pv G x" if x: "x \<in> set (R m)" for x
    proof -
      have "x \<notin> set (R k)" using x False unfolding rings_okD(2) [OF r k] rings_okD(2) [OF r m] by auto
      then have "unlinked i G ! x = G ! x" if "R k \<noteq> [i]" using unlinked_away [OF rings_okD(1) [OF r k] i that] by simp
      then show ?thesis by (simp add: G nx_def pv_def)
    qed
    have "pgring G' (R m) = pgring G (R m)" by (rule pgring_frame [OF n q])
    then have "pgring G' (R m)" using rings_okD(1) [OF r m] by simp
    moreover have "set (R m) = {j. j < length G' \<and> (C(i := None)) j = Some m}" unfolding rings_okD(2) [OF r m] n using Ci False by auto
    ultimately show ?thesis using False rings_okD(3) [OF r m] by (simp add: H)
  qed
  then show ?thesis unfolding rings_ok_def by blast
qed

text \<open>A page that is on no list may change; a page on a list may change besides its links.\<close>

lemma rings_own:
  assumes "rings_ok C G H R" and "C i = None \<or> page_next m = page_next (G ! i) \<and> page_prev m = page_prev (G ! i)"
  shows "rings_ok C (G[i := m]) H R"
proof -
  have "pgring (G[i := m]) (R k) = pgring G (R k)" if "k < 16" for k
  proof (rule pgring_frame)
    fix x assume x: "x \<in> set (R k)"
    then have "C x = Some k" "x < length G" using rings_okD(2) [OF assms(1) that] by auto
    then have "page_next (G[i := m] ! x) = page_next (G ! x) \<and> page_prev (G[i := m] ! x) = page_prev (G ! x)"
      using assms(2) by (cases "x = i") auto
    then show "nx (G[i := m]) x = nx G x \<and> pv (G[i := m]) x = pv G x" by (simp add: nx_def pv_def)
  qed simp
  then show ?thesis using assms(1) by (simp add: rings_ok_def)
qed

text \<open>A page that is on no list joins the list \<open>k\<close>.\<close>

lemma rings_insert:
  assumes r: "rings_ok C G H R" and k: "k < 16" and C: "C i = None" "i < length G"
    and n: "length G' = length G" and R: "pgring G' xs" "set xs = insert i (set (R k))"
    and f: "\<And>j. j \<noteq> i \<Longrightarrow> j \<notin> set (R k) \<Longrightarrow> G' ! j = G ! j" and H: "H' = H(k := first xs)"
  shows "rings_ok (C(i := Some k)) G' H' (R(k := xs))"
proof -
  have "pgring G' ((R(k := xs)) m) \<and> set ((R(k := xs)) m) = {j. j < length G' \<and> (C(i := Some k)) j = Some m}
      \<and> H' m = first ((R(k := xs)) m)" if m: "m < 16" for m
  proof (cases "m = k")
    case True
    have "set xs = {j. j < length G' \<and> (C(i := Some k)) j = Some k}" using rings_okD(2) [OF r k] C unfolding n R(2) by auto
    then show ?thesis using True R(1) by (simp add: H)
  next
    case False
    have q: "nx G' x = nx G x \<and> pv G' x = pv G x" if x: "x \<in> set (R m)" for x
    proof -
      have "x \<noteq> i" "x \<notin> set (R k)" using x False C unfolding rings_okD(2) [OF r k] rings_okD(2) [OF r m] by auto
      then show ?thesis using f [of x] by (simp add: nx_def pv_def)
    qed
    have "pgring G' (R m) = pgring G (R m)" by (rule pgring_frame [OF n q])
    then have "pgring G' (R m)" using rings_okD(1) [OF r m] by simp
    moreover have "set (R m) = {j. j < length G' \<and> (C(i := Some k)) j = Some m}" unfolding rings_okD(2) [OF r m] n using C False by auto
    ultimately show ?thesis using False rings_okD(3) [OF r m] by (simp add: H)
  qed
  then show ?thesis unfolding rings_ok_def by blast
qed

lemma rings_cong: "\<lbrakk>rings_ok C G H R; \<And>i. i < length G \<Longrightarrow> C i = C' i; \<And>k. k < 16 \<Longrightarrow> H k = H' k\<rbrakk> \<Longrightarrow> rings_ok C' G H' R"
  unfolding rings_ok_def by fastforce

text \<open>On a list of one page; between the last and the first page, or between the first and the second one.\<close>

lemma joined_away: "\<lbrakk>j \<noteq> i; j \<noteq> l; j \<noteq> c\<rbrakk> \<Longrightarrow> joined l i c G ! j = G ! j"
  by (simp add: joined_def)

lemma join_last:
  assumes "pgring G (c # cs)" and "i \<notin> set (c # cs)" "i < length G" and "length G < 2 ^ 20"
  shows "pgring (joined (last (c # cs)) i c G) (c # cs @ [i])"
  using linked_ring [OF assms] ring_rotate [of "joined (last (c # cs)) i c G" "[i]" "c # cs"] by simp

lemma join_second:
  assumes "pgring G (c # cs)" and "i \<notin> set (c # cs)" "i < length G" and "length G < 2 ^ 20"
  shows "pgring (joined c i (hd (cs @ [c])) G) (c # i # cs)"
proof -
  obtain d ds where d: "cs @ [c] = d # ds" by (cases "cs @ [c]") auto
  have "last (d # ds) = c" "set (d # ds) = set (c # cs)" by (simp_all add: d [symmetric])
  moreover have "pgring G (d # ds)" using assms(1) ring_rotate [of G "[c]" cs] d by simp
  ultimately have "pgring (joined c i d G) (i # d # ds)" using linked_ring [of G d ds i] assms(2,3,4) by simp
  moreover have "pgring (joined c i d G) (i # cs @ [c]) = pgring (joined c i d G) (c # i # cs)"
    using ring_rotate [of "joined c i d G" "i # cs" "[c]"] by simp
  ultimately show ?thesis using d by simp
qed

subsection \<open>The pages\<close>

definition zsize :: "nat \<Rightarrow> nat" where
  "zsize z = unat (g_zone_sizes ! z)"

definition ntrunks :: "nat \<Rightarrow> nat" where
  "ntrunks z = 4096 div zsize z"

definition trunk_bits :: "64 word \<Rightarrow> nat set" where
  "trunk_bits bm = {k. bit bm k}"

definition page_ok :: "page_man list \<Rightarrow> nat \<Rightarrow> bool" where
  "page_ok G i = (let m = G ! i in case page_type m of
     PAGE_TYPE_PAGE \<Rightarrow> 0 < pv G i \<and> i + pv G i \<le> length G \<and> (\<forall>j. i < j \<and> j < i + pv G i \<longrightarrow> page_type (G ! j) = PAGE_TYPE_FREE)
   | PAGE_TYPE_ZONE \<Rightarrow> unat (zone_index m) < 15 \<and> trunk_bits (trunk_bitmap m) \<subseteq> {..<ntrunks (unat (zone_index m))} \<and>
       trunk_bits (trunk_bitmap m) \<noteq> {} \<and> unat (free_trunks m) + card (trunk_bits (trunk_bitmap m)) = ntrunks (unat (zone_index m)) \<and>
       (free_trunks m = 0 \<longrightarrow> nx G i = i \<and> pv G i = i)
   | PAGE_TYPE_CACHE \<Rightarrow> zone_index m = 0
   | PAGE_TYPE_FREE \<Rightarrow> True)"

text \<open>The pages that belong to the page \<open>i\<close>.\<close>

definition span :: "page_man list \<Rightarrow> nat \<Rightarrow> nat set" where
  "span G i = (case page_type (G ! i) of
     PAGE_TYPE_FREE \<Rightarrow> {} | PAGE_TYPE_PAGE \<Rightarrow> {i..<i + pv G i} | _ \<Rightarrow> {i})"

definition owned :: "page_man list \<Rightarrow> nat set" where
  "owned G = (\<Union>i<length G. span G i)"

definition pages_inv :: "mem_pool \<Rightarrow> runs \<Rightarrow> bool" where
  "pages_inv p fs = (pages_ok p fs \<and> length (pgman_array p) = unat (page_num p) \<and> (\<forall>i < length (pgman_array p). page_ok (pgman_array p) i) \<and>
     run_pages fs = {..<length (pgman_array p)} - owned (pgman_array p))"

definition others :: "nat \<Rightarrow> page_man list \<Rightarrow> page_man list \<Rightarrow> bool" where
  "others i G G' = (length G' = length G \<and> (\<forall>j. j \<noteq> i \<longrightarrow> core (G' ! j) = core (G ! j) \<and> (cls (G ! j) = None \<longrightarrow> G' ! j = G ! j)))"

lemma others_refl [simp]: "others i G G"
  by (simp add: others_def)

lemma others_trans: "\<lbrakk>others i G1 G2; others i G2 G3\<rbrakk> \<Longrightarrow> others i G1 G3"
  unfolding others_def by (metis cls_core)

lemma others_own [simp]: "others i G (G[i := m])"
  by (simp add: others_def)

lemma others_unlinked:
  assumes "pgring G xs" and "i \<in> set xs" and "xs \<noteq> [i]" and "\<And>j. j \<in> set xs \<Longrightarrow> cls (G ! j) \<noteq> None"
  shows "others i G (unlinked i G)"
proof -
  have "unlinked i G ! j = G ! j" if "cls (G ! j) = None" for j
    by (rule unlinked_away [OF assms(1-3)]) (use assms(4) that in blast)
  then show ?thesis by (simp add: others_def)
qed

lemma others_joined:
  assumes "cls (G ! l) \<noteq> None" and "cls (G ! c) \<noteq> None"
  shows "others i G (joined l i c G)"
proof -
  have "joined l i c G ! j = G ! j" if "j \<noteq> i" "cls (G ! j) = None" for j
    by (rule joined_away) (use that assms in auto)
  then show ?thesis by (simp add: others_def)
qed

lemma span_nonfree: "span G i \<noteq> {} \<Longrightarrow> page_type (G ! i) \<noteq> PAGE_TYPE_FREE"
  by (auto simp: span_def)

lemma span_member: "\<lbrakk>page_ok G i; j \<in> span G i\<rbrakk> \<Longrightarrow> j = i \<or> page_type (G ! j) = PAGE_TYPE_FREE \<and> i < j"
  by (auto simp: span_def page_ok_def split: page_type.splits)

lemma span_self: "\<lbrakk>page_ok G i; page_type (G ! i) \<noteq> PAGE_TYPE_FREE\<rbrakk> \<Longrightarrow> i \<in> span G i"
  by (auto simp: span_def page_ok_def split: page_type.splits)

lemma span_interval: "\<exists>n. span G i = {i..<i + n}"
proof (cases "page_type (G ! i)")
  case PAGE_TYPE_FREE
  then show ?thesis by (auto simp: span_def intro: exI [of _ 0])
next
  case PAGE_TYPE_PAGE
  then show ?thesis by (auto simp: span_def)
qed (force simp: span_def intro: exI [of _ 1])+

lemma span_within: "\<lbrakk>page_ok G i; i < length G\<rbrakk> \<Longrightarrow> span G i \<subseteq> {..<length G}"
  by (auto simp: span_def page_ok_def split: page_type.splits)

lemma span_disjoint:
  assumes "page_ok G i" and "page_ok G j" and "i \<noteq> j"
  shows "span G i \<inter> span G j = {}"
proof -
  have *: "span G a \<inter> span G b = {}" if ab: "a < b" "page_ok G a" "page_ok G b" for a b
  proof (rule ccontr)
    assume "span G a \<inter> span G b \<noteq> {}"
    then obtain x where x: "x \<in> span G a" "x \<in> span G b" by blast
    obtain n where n: "span G a = {a..<a + n}" using span_interval by blast
    obtain m where m: "span G b = {b..<b + m}" using span_interval by blast
    have "b \<in> span G a" using x n m ab(1) by auto
    then have "page_type (G ! b) = PAGE_TYPE_FREE" using span_member [OF ab(2)] ab(1) by blast
    moreover have "page_type (G ! b) \<noteq> PAGE_TYPE_FREE" by (rule span_nonfree) (use x in blast)
    ultimately show False by simp
  qed
  show ?thesis using assms * [of i j] * [of j i] by (cases "i < j") auto
qed

lemma set_step: "\<lbrakk>R = U - (S \<union> V); S \<inter> V = {}; S \<subseteq> U; R' = (R \<union> S) - S'\<rbrakk> \<Longrightarrow> R' = U - (S' \<union> V)"
  by blast

text \<open>An operation that changes what the page \<open>i\<close> owns.\<close>

lemma page_step:
  assumes inv: "pages_inv p fs" and ok: "pages_ok p' fs'" "page_num p' = page_num p"
    and o: "others i (pgman_array p) (pgman_array p')" and i: "i < length (pgman_array p)" "page_ok (pgman_array p') i"
    and s: "span (pgman_array p') i \<subseteq> run_pages fs \<union> span (pgman_array p) i"
    and f: "run_pages fs' = (run_pages fs \<union> span (pgman_array p) i) - span (pgman_array p') i"
  shows "pages_inv p' fs'"
proof -
  let ?G = "pgman_array p" and ?H = "pgman_array p'"
  have N: "length ?H = length ?G" "length ?G = unat (page_num p)" using inv o by (auto simp: pages_inv_def others_def)
  have F: "run_pages fs = {..<length ?G} - owned ?G" and P: "\<And>j. j < length ?G \<Longrightarrow> page_ok ?G j" using inv by (auto simp: pages_inv_def)
  have t: "page_type (?H ! j) = page_type (?G ! j)" if "j \<noteq> i" for j using o that by (auto simp: others_def core_def)
  have q: "pv ?H j = pv ?G j" if "j \<noteq> i" "page_type (?G ! j) = PAGE_TYPE_PAGE" for j using o that by (auto simp: others_def cls_def pv_def)
  have S: "span ?H j = span ?G j" if "j \<noteq> i" for j using t [OF that] q [OF that] by (auto simp: span_def split: page_type.splits)
  have "page_ok ?H j" if j: "j < length ?G" "j \<noteq> i" for j
  proof (cases "page_type (?G ! j)")
    case PAGE_TYPE_PAGE
    have "page_type (?H ! k) = PAGE_TYPE_FREE" if k: "j < k" "k < j + pv ?G j" for k
    proof (cases "k = i")
      case False
      then show ?thesis using t [of k] k P [OF j(1)] PAGE_TYPE_PAGE by (simp add: page_ok_def)
    next
      case True
      have g: "i \<in> span ?G j" using k True PAGE_TYPE_PAGE by (simp add: span_def)
      have "i \<notin> span ?G i" using span_disjoint [OF P [OF j(1)] P [OF i(1)] j(2)] g by blast
      moreover have "i \<notin> run_pages fs" using g j(1) by (auto simp: F owned_def)
      ultimately show ?thesis using span_self [OF i(2)] s True by blast
    qed
    then show ?thesis using P [OF j(1)] PAGE_TYPE_PAGE t [OF j(2)] q [OF j(2)] by (simp add: page_ok_def N(1))
  next
    case PAGE_TYPE_ZONE
    have "nx ?H j = nx ?G j \<and> pv ?H j = pv ?G j" if "free_trunks (?G ! j) = 0"
      using o j(2) that PAGE_TYPE_ZONE by (auto simp: others_def cls_def nx_def pv_def)
    moreover have "core (?H ! j) = core (?G ! j)" using o j(2) by (simp add: others_def)
    ultimately show ?thesis using P [OF j(1)] PAGE_TYPE_ZONE by (simp add: page_ok_def core_def Let_def)
  next
    case PAGE_TYPE_CACHE
    have "core (?H ! j) = core (?G ! j)" using o j(2) by (simp add: others_def)
    then show ?thesis using P [OF j(1)] PAGE_TYPE_CACHE by (simp add: page_ok_def core_def Let_def)
  next
    case PAGE_TYPE_FREE
    then show ?thesis using t [OF j(2)] by (simp add: page_ok_def)
  qed
  then have PH: "\<forall>j < length ?H. page_ok ?H j" using i(2) N(1) by metis
  let ?U = "\<Union>j\<in>{..<length ?G} - {i}. span ?G j"
  have V: "?U = (\<Union>j\<in>{..<length ?G} - {i}. span ?H j)" using S by simp
  have "owned ?G = span ?G i \<union> ?U" using i(1) unfolding owned_def by blast
  moreover have "owned ?H = span ?H i \<union> ?U" using i(1) unfolding owned_def N(1) V by blast
  moreover have "span ?G i \<inter> ?U = {}" using span_disjoint [OF P [OF i(1)] P] by fastforce
  moreover have "span ?G i \<subseteq> {..<length ?G}" using span_within [OF P [OF i(1)] i(1)] .
  ultimately have "run_pages fs' = {..<length ?H} - owned ?H" using set_step [OF _ _ _ f, of "{..<length ?G}" ?U] F N(1) by simp
  then show ?thesis using ok N PH by (simp add: pages_inv_def)
qed

end
