(* ===== verification/Slab_Alloc.thy ===== *)
theory Slab_Alloc
  imports Slab_Inv
begin

unbundle bit_operations_syntax

text \<open>
  Allocation keeps the invariant of the system heap, and what it hands out was not handed out before.
\<close>

subsection \<open>Sizes and bitmaps\<close>

lemma zsize_facts:
  assumes "z < 15"
  shows "64 \<le> zsize z" "zsize z \<le> 2048" "4 dvd zsize z" "2 \<le> ntrunks z" "ntrunks z \<le> 64" "ntrunks z * zsize z \<le> 4096"
proof -
  have "g_zone_sizes ! z \<in> set g_zone_sizes" by (rule nth_mem) (use assms in \<open>simp add: g_zone_sizes_def\<close>)
  then have "zsize z \<in> {64, 96, 128, 192, 256, 292, 340, 408, 512, 584, 680, 816, 1024, 1364, 2048}"
    unfolding zsize_def by (auto simp: g_zone_sizes_def)
  then have "64 \<le> zsize z \<and> zsize z \<le> 2048 \<and> 4 dvd zsize z \<and> 2 \<le> ntrunks z \<and> ntrunks z \<le> 64 \<and> ntrunks z * zsize z \<le> 4096"
    by (elim insertE emptyE; simp add: ntrunks_def)
  then show "64 \<le> zsize z" "zsize z \<le> 2048" "4 dvd zsize z" "2 \<le> ntrunks z" "ntrunks z \<le> 64" "ntrunks z * zsize z \<le> 4096" by blast+
qed

lemma unat_zone_size [simp]: "unat (zone_size zi) = zsize (unat zi)"
  by (simp add: zone_size_def zsize_def)

lemma unat_trunks_per_page [simp]: "unat (trunks_per_page zi) = ntrunks (unat zi)"
  by (simp add: trunks_per_page_def ntrunks_def unat_div)

lemma bit_bitmap_byte [simp]: "bit (bitmap_byte bm x) y = (y < 8 \<and> bit bm (8 * x + y))"
  by (auto simp: bitmap_byte_def bit_ucast_iff bit_drop_bit_eq)

lemma trunk_bits_or: "8 * x + y < 64 \<Longrightarrow> trunk_bits (bitmap_or bm x y) = insert (8 * x + y) (trunk_bits bm)"
  by (auto simp: trunk_bits_def bitmap_or_def bit_or_iff bit_push_bit_iff bit_exp_iff)

lemma trunk_bits_clear: "trunk_bits (bitmap_clear bm x y) = trunk_bits bm - {8 * x + y}"
  by (auto simp: trunk_bits_def bitmap_clear_def bit_and_iff bit_not_iff bit_push_bit_iff bit_exp_iff dest: bit_imp_le_length)

lemma trunk_bits_one [simp]: "trunk_bits 1 = {0}"
  by (auto simp: trunk_bits_def bit_1_iff)

lemma trunk_bits_finite [simp]: "finite (trunk_bits bm)"
  by (rule finite_subset [of _ "{..<64}"]) (auto simp: trunk_bits_def dest: bit_imp_le_length)

lemma find_clear_bit:
  assumes "y + n = 8" and "\<exists>k < 8. y \<le> k \<and> \<not> bit m k"
  shows "y \<le> find_clear n m y \<and> find_clear n m y < 8 \<and> \<not> bit m (find_clear n m y) \<and> (\<forall>k. y \<le> k \<and> k < find_clear n m y \<longrightarrow> bit m k)"
  using assms
proof (induction n m y rule: find_clear.induct)
  case (2 n m y)
  show ?case
  proof (cases "bit m y")
    case True
    then have "\<exists>k < 8. y + 1 \<le> k \<and> \<not> bit m k" using 2(3) by (metis Suc_eq_plus1 not_less_eq_eq le_antisym)
    then show ?thesis using 2 True by (auto simp: Suc_le_eq) (metis le_neq_implies_less less_eq_Suc_le)
  qed (use 2 in auto)
qed auto

lemma byte_ones: "(0xff :: u8) = - 1"
  by simp

lemma full_byte: "(m :: u8) \<noteq> 0xff \<Longrightarrow> \<exists>k < 8. \<not> bit m k"
  unfolding byte_ones by (rule ccontr, erule notE, rule bit_word_eqI) simp

lemma full_byte_bits: "\<lbrakk>bitmap_byte bm x = 0xff; y < 8\<rbrakk> \<Longrightarrow> bit bm (8 * x + y)"
  using bit_bitmap_byte [of bm x y] unfolding byte_ones by simp

lemma find_byte_bit:
  assumes "x + n = 8" and "\<exists>k < 64. 8 * x \<le> k \<and> \<not> bit bm k"
  shows "x \<le> find_byte n bm x \<and> find_byte n bm x < 8 \<and> bitmap_byte bm (find_byte n bm x) \<noteq> 0xff \<and>
    (\<forall>w. x \<le> w \<and> w < find_byte n bm x \<longrightarrow> bitmap_byte bm w = 0xff)"
  using assms
proof (induction n bm x rule: find_byte.induct)
  case (2 n bm x)
  show ?case
  proof (cases "bitmap_byte bm x = 0xff")
    case True
    obtain k where k: "k < 64" "8 * x \<le> k" "\<not> bit bm k" using 2(3) by blast
    have "8 * (x + 1) \<le> k"
    proof (rule ccontr)
      assume "\<not> 8 * (x + 1) \<le> k"
      then have "k - 8 * x < 8" "8 * x + (k - 8 * x) = k" using k(2) by simp_all
      then show False using full_byte_bits [OF True, of "k - 8 * x"] k by simp
    qed
    then have "\<exists>k < 64. 8 * (x + 1) \<le> k \<and> \<not> bit bm k" using k by blast
    then have i: "x + 1 \<le> find_byte n bm (x + 1) \<and> find_byte n bm (x + 1) < 8 \<and> bitmap_byte bm (find_byte n bm (x + 1)) \<noteq> 0xff \<and>
        (\<forall>w. x + 1 \<le> w \<and> w < find_byte n bm (x + 1) \<longrightarrow> bitmap_byte bm w = 0xff)"
      using 2(1) True 2(2) by simp
    moreover have "bitmap_byte bm w = 0xff" if "x \<le> w" "w < find_byte n bm (x + 1)" for w
      using that i True by (cases "w = x") auto
    ultimately show ?thesis using True by simp
  qed (use 2 in auto)
qed auto

lemma find_trunk_free:
  assumes "k < 64" and "k \<notin> trunk_bits bm"
  shows "fst (find_trunk bm) < 8" and "snd (find_trunk bm) < 8" and "8 * fst (find_trunk bm) + snd (find_trunk bm) \<notin> trunk_bits bm"
    and "8 * fst (find_trunk bm) + snd (find_trunk bm) \<le> k"
proof -
  let ?x = "find_byte 8 bm 0"
  let ?y = "find_clear 8 (bitmap_byte bm ?x) 0"
  have "\<exists>k < 64. 8 * 0 \<le> k \<and> \<not> bit bm k" using assms by (auto simp: trunk_bits_def)
  then have x: "?x < 8" "bitmap_byte bm ?x \<noteq> 0xff" "\<forall>w < ?x. bitmap_byte bm w = 0xff" using find_byte_bit [of 0 8 bm] by auto
  have "\<exists>k < 8. 0 \<le> k \<and> \<not> bit (bitmap_byte bm ?x) k" using full_byte [OF x(2)] by auto
  then have y: "?y < 8" "\<not> bit (bitmap_byte bm ?x) ?y" "\<forall>k < ?y. bit (bitmap_byte bm ?x) k"
    using find_clear_bit [of 0 8 "bitmap_byte bm ?x"] by auto
  have "8 * ?x + ?y \<le> k"
  proof (rule ccontr)
    assume "\<not> 8 * ?x + ?y \<le> k"
    then have l: "k < 8 * ?x + ?y" by simp
    have k: "8 * (k div 8) + k mod 8 = k" "k mod 8 < 8" by simp_all
    show False
    proof (cases "k div 8 < ?x")
      case True
      then show False using full_byte_bits [of bm "k div 8" "k mod 8"] x(3) k assms(2) by (simp add: trunk_bits_def)
    next
      case False
      then have "k div 8 = ?x" "k mod 8 < ?y" using l y(1) k by linarith+
      then show False using y(3) k assms(2) by (auto simp: trunk_bits_def)
    qed
  qed
  then show "fst (find_trunk bm) < 8" and "snd (find_trunk bm) < 8" and "8 * fst (find_trunk bm) + snd (find_trunk bm) \<notin> trunk_bits bm"
    and "8 * fst (find_trunk bm) + snd (find_trunk bm) \<le> k"
    using x y by (simp_all add: find_trunk_def Let_def trunk_bits_def)
qed

subsection \<open>Addresses\<close>

definition geometry :: "mem_pool \<Rightarrow> bool" where
  "geometry p = (0 < unat (heap_start p) \<and> unat (heap_start p) mod 4096 = 0 \<and>
     unat (heap_start p) + 4096 * unat (page_num p) = unat (heap_end p))"

definition in_heap :: "mem_pool \<Rightarrow> u32 \<Rightarrow> bool" where
  "in_heap p a = (heap_start p \<le> a \<and> a < heap_end p)"

definition page_of :: "mem_pool \<Rightarrow> u32 \<Rightarrow> nat" where
  "page_of p a = unat (a - heap_start p) div 4096"

definition page_off :: "mem_pool \<Rightarrow> u32 \<Rightarrow> nat" where
  "page_off p a = unat (a - heap_start p) mod 4096"

definition block_addr :: "mem_pool \<Rightarrow> nat \<Rightarrow> nat \<Rightarrow> u32" where
  "block_addr p i off = heap_start p + of_nat (4096 * i + off)"

lemma block_addr:
  assumes "geometry p" and "i < unat (page_num p)" and "off < 4096"
  shows "unat (block_addr p i off) = unat (heap_start p) + (4096 * i + off)" "in_heap p (block_addr p i off)"
    "page_of p (block_addr p i off) = i" "page_off p (block_addr p i off) = off" "block_addr p i off \<noteq> 0"
proof -
  have "4096 * i + off < 4096 * unat (page_num p)" using assms(2,3) by simp
  moreover have "unat (heap_end p) < 2 ^ 32" by (rule u32_bound)
  ultimately have b: "4096 * i + off < 2 ^ 32" "unat (heap_start p) + (4096 * i + off) < unat (heap_end p)"
    using assms(1) by (simp_all add: geometry_def)
  then have o: "unat (of_nat (4096 * i + off) :: u32) = 4096 * i + off" using b(1) by (simp only: unsigned_of_nat) (simp add: take_bit_nat_eq_self_iff)
  show u: "unat (block_addr p i off) = unat (heap_start p) + (4096 * i + off)"
    unfolding block_addr_def by (subst unat_plus_simple [THEN iffD1]) (use o b u32_bound [of "heap_end p"] in \<open>simp_all add: no_olen_add_nat\<close>)
  show "in_heap p (block_addr p i off)" using u b by (simp add: in_heap_def word_le_nat_alt word_less_nat_alt)
  show "page_of p (block_addr p i off) = i" "page_off p (block_addr p i off) = off"
    using o assms(3) by (simp_all add: page_of_def page_off_def block_addr_def)
  show "block_addr p i off \<noteq> 0" using u assms(1) by (auto simp: geometry_def)
qed

lemma in_heap_addr:
  assumes "geometry p" and "in_heap p a"
  shows "block_addr p (page_of p a) (page_off p a) = a" "page_of p a < unat (page_num p)" "page_off p a < 4096"
proof -
  have "unat a = unat (heap_start p) + unat (a - heap_start p)" using assms(2) by (simp add: in_heap_def unat_sub word_le_nat_alt)
  moreover have "unat a < unat (heap_end p)" using assms(2) by (simp add: in_heap_def word_less_nat_alt)
  ultimately have "unat (a - heap_start p) < 4096 * unat (page_num p)" using assms(1) by (simp add: geometry_def)
  then show "page_of p a < unat (page_num p)" by (simp add: page_of_def less_mult_imp_div_less mult.commute)
  show "page_off p a < 4096" by (simp add: page_off_def)
  have "4096 * page_of p a + page_off p a = unat (a - heap_start p)" by (simp add: page_of_def page_off_def)
  then show "block_addr p (page_of p a) (page_off p a) = a" unfolding block_addr_def by simp
qed

lemma pgidx_2_addr_block: "pgidx_2_addr p i = block_addr p (unat i) 0"
proof -
  have "push_bit 12 i = i * 4096" by (simp add: push_bit_eq_mult)
  then show ?thesis by (simp add: pgidx_2_addr_def block_addr_def mult.commute)
qed

lemma addr_2_pgidx_unat [simp]: "unat (addr_2_pgidx p a) = page_of p a"
  by (simp add: addr_2_pgidx_def page_of_def drop_bit_eq_div unat_div)

lemma and_4095: "unat ((w :: u32) AND 4095) = unat w mod 4096"
proof -
  have "w AND 4095 = take_bit 12 w" by (simp add: take_bit_eq_mask mask_eq_exp_minus_1)
  then show ?thesis by (simp add: take_bit_eq_mod unat_mod)
qed

lemma offset_in_page:
  assumes "geometry p" and "in_heap p a"
  shows "unat (a AND 4095) = page_off p a"
proof -
  have "unat a = unat (heap_start p) + unat (a - heap_start p)" using assms(2) by (simp add: in_heap_def unat_sub word_le_nat_alt)
  then have "unat a mod 4096 = unat (a - heap_start p) mod 4096" using assms(1) by (simp add: geometry_def mod_add_left_eq [symmetric] del: mod_add_left_eq)
  then show ?thesis by (simp add: and_4095 page_off_def)
qed

subsection \<open>The blocks that are handed out\<close>

text \<open>Whether a block begins at an offset in a page.\<close>

definition live_in :: "page_man \<Rightarrow> nat \<Rightarrow> bool" where
  "live_in m off = (case page_type m of
     PAGE_TYPE_PAGE \<Rightarrow> off = 0
   | PAGE_TYPE_ZONE \<Rightarrow> (\<exists>k \<in> trunk_bits (trunk_bitmap m). off = k * zsize (unat (zone_index m)))
   | _ \<Rightarrow> False)"

definition block_live :: "mem_pool \<Rightarrow> u32 \<Rightarrow> bool" where
  "block_live p a = (in_heap p a \<and> live_in (pgman_array p ! page_of p a) (page_off p a))"

definition block_len :: "mem_pool \<Rightarrow> u32 \<Rightarrow> nat" where
  "block_len p a = (let m = pgman_array p ! page_of p a in case page_type m of
     PAGE_TYPE_PAGE \<Rightarrow> 4096 * unat (page_prev m) | PAGE_TYPE_ZONE \<Rightarrow> zsize (unat (zone_index m)) | _ \<Rightarrow> 0)"

definition same_geometry :: "mem_pool \<Rightarrow> mem_pool \<Rightarrow> bool" where
  "same_geometry p p' = (inited p' = inited p \<and> page_num p' = page_num p \<and> heap_start p' = heap_start p \<and> heap_end p' = heap_end p)"

lemma same_geometry_fields:
  assumes "same_geometry p p'"
  shows "geometry p' = geometry p" "in_heap p' a = in_heap p a" "page_of p' a = page_of p a" "page_off p' a = page_off p a"
    "block_addr p' i off = block_addr p i off" "page_num p' = page_num p"
  using assms by (simp_all add: same_geometry_def geometry_def in_heap_def page_of_def page_off_def block_addr_def)

text \<open>Only the blocks of the page \<open>i\<close> change.\<close>

lemma live_in_core: "core m = core m' \<Longrightarrow> live_in m off = live_in m' off"
  by (cases "page_type m'") (simp_all add: core_def live_in_def)

lemma live_elsewhere:
  assumes "same_geometry p p'" and "others i (pgman_array p) (pgman_array p')" and "page_of p a \<noteq> i"
  shows "block_live p' a = block_live p a" and "block_len p' a = block_len p a"
proof -
  let ?m = "pgman_array p ! page_of p a" and ?n = "pgman_array p' ! page_of p a"
  have c: "core ?n = core ?m" "cls ?m = None \<longrightarrow> ?n = ?m" using assms(2,3) by (simp_all add: others_def)
  show "block_live p' a = block_live p a" using live_in_core [OF c(1)] same_geometry_fields [OF assms(1)] by (simp add: block_live_def)
  show "block_len p' a = block_len p a"
    using c same_geometry_fields(3) [OF assms(1)] by (cases "page_type ?m") (simp_all add: block_len_def core_def cls_def)
qed

lemma live_here:
  assumes "geometry p" and "same_geometry p p'" and "i < unat (page_num p)" and "off < 4096" and "in_heap p a" and "page_of p a = i"
  shows "page_off p a = off \<longleftrightarrow> a = block_addr p i off"
  using in_heap_addr [OF assms(1,5)] block_addr(4) [OF assms(1,3,4)] assms(6) by auto

definition hands_out :: "mem_pool \<Rightarrow> u32 \<Rightarrow> mem_pool \<Rightarrow> bool" where
  "hands_out p a p' = (same_geometry p p' \<and> in_heap p a \<and> a \<noteq> 0 \<and> \<not> block_live p a \<and>
     (\<forall>b. block_live p' b = (block_live p b \<or> b = a)) \<and> (\<forall>b. block_live p b \<longrightarrow> block_len p' b = block_len p b))"

text \<open>A new block in the page \<open>i\<close>; the blocks that were there stay.\<close>

lemma hands_outI:
  assumes g: "geometry p" "same_geometry p p'" and o: "others i (pgman_array p) (pgman_array p')"
    and i: "i < unat (page_num p)" "off < 4096"
    and l: "\<And>x. live_in (pgman_array p' ! i) x = (live_in (pgman_array p ! i) x \<or> x = off)" "\<not> live_in (pgman_array p ! i) off"
    and n: "\<And>x. live_in (pgman_array p ! i) x \<Longrightarrow> page_type (pgman_array p ! i) = PAGE_TYPE_ZONE \<and>
      page_type (pgman_array p' ! i) = PAGE_TYPE_ZONE \<and> zone_index (pgman_array p' ! i) = zone_index (pgman_array p ! i)"
  shows "hands_out p (block_addr p i off) p'"
proof -
  let ?a = "block_addr p i off"
  note a = block_addr [OF g(1) i]
  note s = same_geometry_fields [OF g(2)]
  have "block_live p' b = (block_live p b \<or> b = ?a)" for b
  proof (cases "page_of p b = i \<and> in_heap p b")
    case True
    then show ?thesis using live_here [OF g i] l(1) by (simp add: block_live_def s)
  next
    case False
    then have "b \<noteq> ?a" using a by auto
    then show ?thesis using live_elsewhere(1) [OF g(2) o, of b] False by (cases "page_of p b = i") (auto simp: block_live_def s)
  qed
  moreover have "block_len p' b = block_len p b" if b: "block_live p b" for b
  proof (cases "page_of p b = i")
    case True
    then have "live_in (pgman_array p ! i) (page_off p b)" using b by (simp add: block_live_def)
    then show ?thesis using n True by (simp add: block_len_def s)
  qed (rule live_elsewhere(2) [OF g(2) o])
  moreover have "\<not> block_live p ?a" using l(2) a by (simp add: block_live_def)
  ultimately show ?thesis using a g(2) by (simp add: hands_out_def)
qed

end
