(* ===== verification/Slab_Trunk.thy ===== *)
theory Slab_Trunk
  imports Slab_Alloc
begin

unbundle bit_operations_syntax

text \<open>
  The whole invariant of the system heap, and the allocation of a trunk or of a block of pages.
\<close>

definition heap_inv :: "mem_pool \<Rightarrow> runs \<Rightarrow> (nat \<Rightarrow> nat list) \<Rightarrow> bool" where
  "heap_inv p fs R = (inited p \<and> geometry p \<and> pages_inv p fs \<and> length (zone_alloc_list p) = 15 \<and>
     rings_ok (\<lambda>i. cls (pgman_array p ! i)) (pgman_array p) (heads p) R)"

definition slab_ok :: "mem_pool \<Rightarrow> bool" where
  "slab_ok p = (\<exists>fs R. heap_inv p fs R)"

lemma heap_invD:
  assumes "heap_inv p fs R"
  shows "geometry p" "pages_inv p fs" "length (zone_alloc_list p) = 15"
    "rings_ok (\<lambda>i. cls (pgman_array p ! i)) (pgman_array p) (heads p) R" "length (pgman_array p) = unat (page_num p)"
    "length (pgman_array p) < 65535" "pages_ok p fs" "\<And>i. i < length (pgman_array p) \<Longrightarrow> page_ok (pgman_array p) i"
    "run_pages fs = {..<length (pgman_array p)} - owned (pgman_array p)" "inited p"
  using assms by (auto simp: heap_inv_def pages_inv_def pages_ok_def pool_sized_def)

subsection \<open>The code on the lists of descriptors\<close>

lemma unat_fields [simp]:
  "unat (ucast (a :: 20 word) :: u32) = unat a" "unat (ucast (b :: 12 word) :: u32) = unat b" "unat (ucast (c :: 5 word) :: u32) = unat c"
  by (transfer, simp add: take_bit_int_eq_self)+

lemma uint_field: "uint (ucast (a :: 20 word) :: u32) = int (unat a)"
  by (metis uint_nat unat_fields(1))

lemma unat_of_index [simp]: "n < 65535 \<Longrightarrow> unat (of_nat n :: u32) = n" "n < 65535 \<Longrightarrow> uint (of_nat n :: u32) = int n"
  by (simp_all add: unsigned_of_nat unsigned_of_int take_bit_nat_eq_self_iff take_bit_int_eq_self_iff)

lemma ucast_of_unat: "(ucast (v :: u32) :: 20 word) = of_nat (unat v)"
  by simp

lemma pgm_at_some [simp]: "unat i < length (pgman_array p) \<Longrightarrow> pgm_at i p = Some (pgman_array p ! unat i)"
  by (simp add: pgm_at_def)

lemma pgm_upd_some [simp]:
  "unat i < length (pgman_array p) \<Longrightarrow> pgm_upd i f p = Some (p\<lparr>pgman_array := (pgman_array p)[unat i := f (pgman_array p ! unat i)]\<rparr>)"
  by (simp add: pgm_upd_def)

lemma set_links_some [simp]:
  "unat i < length (pgman_array p) \<Longrightarrow> set_page_next i v p = Some (p\<lparr>pgman_array := upd_next (unat i) (unat v) (pgman_array p)\<rparr>)"
  "unat i < length (pgman_array p) \<Longrightarrow> set_page_prev i v p = Some (p\<lparr>pgman_array := upd_prev (unat i) (unat v) (pgman_array p)\<rparr>)"
  by (simp_all add: set_page_next_def set_page_prev_def upd_next_def upd_prev_def)

lemma verify_ring:
  assumes "pgring (pgman_array p) xs" and "unat i \<in> set xs" and "length (pgman_array p) = unat (page_num p)"
    and "page_type (pgman_array p ! unat i) = ty" and "unat (zone_index (pgman_array p ! unat i)) = unat zi"
  shows "verify_pglist i ty zi p = Some ()"
proof -
  note l = ring_links [OF assms(1,2)]
  have b: "nx (pgman_array p) (unat i) < length (pgman_array p)" "pv (pgman_array p) (unat i) < length (pgman_array p)"
    using ring_bound [OF assms(1)] l(1,2) by auto
  have e: "(ucast w :: u32) = v \<longleftrightarrow> unat w = unat v" for w :: "20 word" and v by (metis unat_fields(1) word_unat_eq_iff)
  have "ucast (zone_index (pgman_array p ! unat i)) = zi" using assms(5) by (metis unat_fields(3) word_unat_eq_iff)
  then show ?thesis
    using l b assms(3,4) unfolding verify_pglist_def
    by (simp add: bug_if_def nx_def pv_def word_le_nat_alt e)
qed

text \<open>The first page of a list.\<close>

lemma ring_next_first: "pgring G (i # ys) \<Longrightarrow> nx G i = hd (ys @ [i])"
  by (cases ys) (simp_all add: ring_single ring_cons)

lemma ring_prev_first: "pgring G (i # ys) \<Longrightarrow> pv G i = last (i # ys)"
  by (cases ys) (simp_all add: ring_single ring_cons)

text \<open>What a page is by the list it is on.\<close>

lemma cls_zone: "\<lbrakk>cls m = Some z; z < 15\<rbrakk> \<Longrightarrow> page_type m = PAGE_TYPE_ZONE \<and> unat (zone_index m) = z \<and> free_trunks m \<noteq> 0"
  by (cases "page_type m") (auto simp: cls_def split: if_splits)

lemma cls_cache:
  assumes "cls (G ! i) = Some 15" and "page_ok G i"
  shows "page_type (G ! i) = PAGE_TYPE_CACHE \<and> zone_index (G ! i) = 0"
  using assms by (cases "page_type (G ! i)") (auto simp: cls_def page_ok_def Let_def split: if_splits)

lemma upd_next_own: "j \<noteq> i \<Longrightarrow> upd_next j v (G[i := m]) = (upd_next j v G)[i := m]"
  by (simp add: upd_next_def list_update_swap)

lemma upd_prev_own: "j \<noteq> i \<Longrightarrow> upd_prev j v (G[i := m]) = (upd_prev j v G)[i := m]"
  by (simp add: upd_prev_def list_update_swap)

text \<open>The statistics leave the rest alone.\<close>

definition same_rest :: "mem_pool \<Rightarrow> mem_pool \<Rightarrow> bool" where
  "same_rest p p' = (same_geometry p p' \<and> page_alloctor p' = page_alloctor p \<and> alloctor_list p' = alloctor_list p \<and>
     pgman_array p' = pgman_array p \<and> zone_alloc_list p' = zone_alloc_list p \<and> zone_cache_list p' = zone_cache_list p)"

lemma same_rest_stats:
  "same_rest p (stat_used n p)" "same_rest p (stat_block n p)" "same_rest p (stat_trunk zi p)" "same_rest p (stat_zone zi p)"
  "same_rest p (p\<lparr>zone_cache_count := c\<rparr>)"
  by (simp_all add: same_rest_def same_geometry_def stat_used_def stat_block_def stat_trunk_def stat_zone_def Let_def)

lemma same_rest_trans: "\<lbrakk>same_rest p q; same_rest q r\<rbrakk> \<Longrightarrow> same_rest p r"
  by (simp add: same_rest_def same_geometry_def)

lemma pages_ok_same:
  assumes "page_num p' = page_num p" and "page_alloctor p' = page_alloctor p" and "alloctor_list p' = alloctor_list p"
  shows "pages_ok p' fs = pages_ok p fs"
proof -
  have "free_from p' i fs = free_from p i fs" for i by (rule free_from_frame) (simp add: assms)
  then show ?thesis using assms by (simp add: pages_ok_def pool_sized_def)
qed

lemma heads_same: "same_rest p p' \<Longrightarrow> heads p' = heads p"
  by (auto simp: same_rest_def heads_def)

lemma heap_inv_same:
  assumes "same_rest p p'"
  shows "heap_inv p' fs R = heap_inv p fs R"
proof -
  have s: "same_geometry p p'" "page_alloctor p' = page_alloctor p" "alloctor_list p' = alloctor_list p" "pgman_array p' = pgman_array p"
      "zone_alloc_list p' = zone_alloc_list p" using assms by (auto simp: same_rest_def)
  have n: "page_num p' = page_num p" using s(1) by (simp add: same_geometry_def)
  have "inited p' = inited p" using s(1) by (simp add: same_geometry_def)
  then show ?thesis unfolding heap_inv_def pages_inv_def pages_ok_same [OF n s(2,3)] same_geometry_fields(1) [OF s(1)] s(4,5) n heads_same [OF assms] by simp
qed

lemma slab_ok_same: "same_rest p p' \<Longrightarrow> slab_ok p' = slab_ok p"
  by (simp add: slab_ok_def heap_inv_same)

lemma block_same:
  assumes "same_rest p p'"
  shows "block_live p' a = block_live p a" "block_len p' a = block_len p a"
  using assms same_geometry_fields [of p p'] by (simp_all add: same_rest_def block_live_def block_len_def)

lemma hands_out_same:
  assumes "same_rest q p'" and "hands_out p a q"
  shows "hands_out p a p'"
proof -
  have g: "same_geometry q p'" "pgman_array p' = pgman_array q" using assms(1) by (auto simp: same_rest_def)
  have "block_live p' b = block_live q b" "block_len p' b = block_len q b" for b
    using same_geometry_fields [OF g(1)] g(2) by (simp_all add: block_live_def block_len_def)
  moreover have "same_geometry p p'" using assms(2) g(1) by (auto simp: hands_out_def same_geometry_def)
  ultimately show ?thesis using assms(2) by (simp add: hands_out_def)
qed

text \<open>A step that changes the page \<open>i\<close> and the lists.\<close>

lemma heap_step:
  assumes inv: "heap_inv p fs R" and g: "same_geometry p p'" and ok: "pages_ok p' fs'" and z: "length (zone_alloc_list p') = 15"
    and o: "others i (pgman_array p) (pgman_array p')" and i: "i < length (pgman_array p)" "page_ok (pgman_array p') i"
    and s: "span (pgman_array p') i \<subseteq> run_pages fs \<union> span (pgman_array p) i"
    and f: "run_pages fs' = (run_pages fs \<union> span (pgman_array p) i) - span (pgman_array p') i"
    and r: "rings_ok ((\<lambda>j. cls (pgman_array p ! j))(i := cls (pgman_array p' ! i))) (pgman_array p') (heads p') R'"
  shows "heap_inv p' fs' R'"
proof -
  have "pages_inv p' fs'" using page_step [OF heap_invD(2) [OF inv] ok _ o i s f] g by (simp add: same_geometry_def)
  moreover have "rings_ok (\<lambda>j. cls (pgman_array p' ! j)) (pgman_array p') (heads p') R'"
  proof (rule rings_cong [OF r])
    fix j show "((\<lambda>j. cls (pgman_array p ! j))(i := cls (pgman_array p' ! i))) j = cls (pgman_array p' ! j)"
      using o cls_core [of "pgman_array p' ! j" "pgman_array p ! j"] by (simp add: others_def)
  qed simp
  ultimately show ?thesis using heap_invD(1,10) [OF inv] same_geometry_fields(1) [OF g] z g by (simp add: heap_inv_def same_geometry_def)
qed

subsection \<open>A trunk of a zone\<close>

text \<open>The descriptor of a zone after trunk \<open>8 * x + y\<close> was taken.\<close>

definition took :: "nat \<Rightarrow> nat \<Rightarrow> page_man \<Rightarrow> page_man" where
  "took x y m = m\<lparr>trunk_bitmap := bitmap_or (trunk_bitmap m) x y, free_trunks := ucast ((ucast (free_trunks m) :: u32) - 1)\<rparr>"

definition alone :: "nat \<Rightarrow> page_man \<Rightarrow> page_man" where
  "alone i m = m\<lparr>page_prev := of_nat i, page_next := of_nat i\<rparr>"

lemma took_fields [simp]: "page_type (took x y m) = page_type m" "zone_index (took x y m) = zone_index m" "page_next (took x y m) = page_next m"
  "page_prev (took x y m) = page_prev m" "trunk_bitmap (took x y m) = bitmap_or (trunk_bitmap m) x y"
  by (simp_all add: took_def)

lemma alone_fields [simp]: "page_type (alone i m) = page_type m" "zone_index (alone i m) = zone_index m" "free_trunks (alone i m) = free_trunks m"
  "trunk_bitmap (alone i m) = trunk_bitmap m" "page_next (alone i m) = of_nat i" "page_prev (alone i m) = of_nat i"
  by (simp_all add: alone_def)

lemma took_free: "free_trunks m \<noteq> 0 \<Longrightarrow> unat (free_trunks (took x y m)) = unat (free_trunks m) - 1"
proof -
  assume a: "free_trunks m \<noteq> 0"
  then have p: "0 < unat (free_trunks m)" by (simp add: unat_gt_0)
  have ne: "(ucast (free_trunks m) :: u32) \<noteq> 0" using a by (metis unat_fields(2) unat_eq_zero)
  have b: "unat (free_trunks m) < 4096" using unsigned_less [of "free_trunks m", where 'a = nat] by simp
  have "unat ((ucast (free_trunks m) :: u32) - 1) = unat (free_trunks m) - 1" using unat_minus_one [OF ne] by simp
  then show ?thesis using b by (simp add: took_def unsigned_ucast_eq take_bit_nat_eq_self_iff)
qed

lemma links_alone: "upd_next i i (upd_prev i i G) = G[i := alone i (G ! i)]"
  by (cases "i < length G") (simp_all add: upd_next_def upd_prev_def alone_def list_update_beyond)

lemma zone_room:
  assumes "page_ok G i" and "page_type (G ! i) = PAGE_TYPE_ZONE" and "free_trunks (G ! i) \<noteq> 0"
  obtains k where "k < ntrunks (unat (zone_index (G ! i)))" and "k \<notin> trunk_bits (trunk_bitmap (G ! i))"
proof -
  let ?n = "ntrunks (unat (zone_index (G ! i)))"
  have "card (trunk_bits (trunk_bitmap (G ! i))) < card {..<?n}"
    using assms by (simp add: page_ok_def Let_def) (metis less_add_same_cancel2 unat_gt_0)
  then have "\<not> {..<?n} \<subseteq> trunk_bits (trunk_bitmap (G ! i))" using card_mono [OF trunk_bits_finite] by (metis not_less)
  then show thesis using that by blast
qed

text \<open>The descriptors and the head of the list after a trunk of the first page was taken.\<close>

definition taken :: "nat \<Rightarrow> nat \<Rightarrow> nat \<Rightarrow> nat list \<Rightarrow> page_man list \<Rightarrow> page_man list" where
  "taken i x y ys G = (if free_trunks (G ! i) = 1
     then (if ys = [] then G else unlinked i G)[i := took x y (alone i (G ! i))]
     else G[i := took x y (G ! i)])"

lemma take_trunk_run:
  fixes zi :: u32
  defines "z \<equiv> unat zi"
  assumes inv: "heap_inv p fs R" and z: "z < 15" and R: "R z = i # ys"
  shows "\<exists>x y. x < 8 \<and> y < 8 \<and> 8 * x + y < ntrunks z \<and> 8 * x + y \<notin> trunk_bits (trunk_bitmap (pgman_array p ! i)) \<and>
    take_trunk zi (zone_alloc_list p ! z) p = Some (block_addr p i ((8 * x + y) * zsize z),
      stat_trunk zi (p\<lparr>pgman_array := taken i x y ys (pgman_array p),
        zone_alloc_list := if free_trunks (pgman_array p ! i) = 1 then (zone_alloc_list p)[z := first ys] else zone_alloc_list p\<rparr>))"
proof -
  let ?G = "pgman_array p" and ?m = "pgman_array p ! i" and ?u = "of_nat i :: u32"
  note r = rings_okD [OF heap_invD(4) [OF inv], of z]
  have z16: "z < 16" using z by simp
  have pgring: "pgring ?G (i # ys)" and i: "i < length ?G" "cls ?m = Some z" using r(1,2) [OF z16] R by auto
  have N: "length ?G = unat (page_num p)" "length ?G < 65535" using heap_invD(5,6) [OF inv] by auto
  have h: "zone_alloc_list p ! z = int i" using r(3) [OF z16] z R by (simp add: heads_def)
  have m: "page_type ?m = PAGE_TYPE_ZONE" "unat (zone_index ?m) = z" "free_trunks ?m \<noteq> 0" using cls_zone [OF i(2) z] by auto
  have ok: "page_ok ?G i" by (rule heap_invD(8) [OF inv i(1)])
  have u: "unat ?u = i" using i(1) N(2) by simp
  obtain k where k: "k < ntrunks z" "k \<notin> trunk_bits (trunk_bitmap ?m)" using zone_room [OF ok m(1,3)] m(2) by metis
  let ?x = "fst (find_trunk (trunk_bitmap ?m))" and ?y = "snd (find_trunk (trunk_bitmap ?m))"
  have f: "?x < 8" "?y < 8" "8 * ?x + ?y \<notin> trunk_bits (trunk_bitmap ?m)" "8 * ?x + ?y < ntrunks z"
    using find_trunk_free [of k "trunk_bitmap ?m"] k zsize_facts(5) [OF z] by auto
  have v: "verify_pglist ?u PAGE_TYPE_ZONE zi p = Some ()" by (rule verify_ring [OF pgring]) (use u m N z_def in auto)
  have fr: "unat (free_trunks ?m) + card (trunk_bits (trunk_bitmap ?m)) = ntrunks z" "trunk_bits (trunk_bitmap ?m) \<noteq> {}"
    using ok m by (simp_all add: page_ok_def Let_def)
  then have fl: "unat (free_trunks ?m) < ntrunks z" by (metis card_gt_0_iff less_add_same_cancel1 trunk_bits_finite)
  have w: "\<not> (trunks_per_page zi \<le> of_nat (8 * ?x + ?y) \<or> (ucast (free_trunks ?m) :: u32) = 0 \<or> trunks_per_page zi \<le> ucast (free_trunks ?m))"
  proof -
    have "unat (of_nat (8 * ?x + ?y) :: u32) = 8 * ?x + ?y" using f by (intro unat_of_index(1)) simp
    moreover have "(ucast (free_trunks ?m) :: u32) \<noteq> 0" using m(3) by (metis unat_fields(2) unat_eq_zero)
    ultimately show ?thesis using f(4) fl by (simp add: word_le_nat_alt z_def)
  qed
  have one: "(ucast (free_trunks ?m) :: u32) - 1 = 0 \<longleftrightarrow> free_trunks ?m = 1"
    by (metis diff_eq_diff_eq eq_iff_diff_eq_0 unat_1 unat_fields(2) word_unat_eq_iff)
  have a: "pgidx_2_addr p ?u + of_nat (8 * ?x + ?y) * zone_size zi = block_addr p i ((8 * ?x + ?y) * zsize z)"
  proof -
    have "zone_size zi = of_nat (zsize z)" by (simp add: zsize_def zone_size_def z_def)
    then show ?thesis using u by (simp add: pgidx_2_addr_block block_addr_def)
  qed
  have pg: "pgm_at ?u p = Some ?m" using u i(1) by simp
  have link: "(ucast (page_next ?m) :: u32) = ?u \<longleftrightarrow> ys = []"
  proof -
    have "(ucast (page_next ?m) :: u32) = ?u \<longleftrightarrow> nx ?G i = i" unfolding word_unat_eq_iff u by (simp add: nx_def)
    then show ?thesis using ring_links(6) [OF pgring, of i] by simp
  qed
  let ?S = "if free_trunks ?m = 1 then (if ys = [] then ?G else unlinked i ?G)[i := alone i ?m] else ?G"
  let ?L = "if free_trunks ?m = 1 then (zone_alloc_list p)[z := first ys] else zone_alloc_list p"
  have lists: "(if (ucast (free_trunks ?m) :: u32) - 1 = 0 then do {
                 pool \<leftarrow> set_page_prev ?u ?u p;
                 pool \<leftarrow> set_page_next ?u ?u pool;
                 if ?u = ucast (page_next ?m) then Some (set_alloc_list zi (-1) pool)
                 else do {
                   pool \<leftarrow> pg_unlink (ucast (page_prev ?m)) (ucast (page_next ?m)) pool;
                   Some (set_alloc_list zi (uint (ucast (page_next ?m) :: u32)) pool) } }
               else Some p) = Some (p\<lparr>pgman_array := ?S, zone_alloc_list := ?L\<rparr>)"
  proof (cases "free_trunks ?m = 1")
    case True
    then have b: "(do {
                 pool \<leftarrow> set_page_prev ?u ?u p;
                 set_page_next ?u ?u pool }) = Some (p\<lparr>pgman_array := ?G[i := alone i ?m]\<rparr>)"
      using u i(1) links_alone [of i ?G] by simp
    show ?thesis
    proof (cases "ys = []")
      case True
      then show ?thesis using b link one \<open>free_trunks ?m = 1\<close> u i(1) by (simp add: set_alloc_list_def z_def)
    next
      case False
      have n: "nx ?G i < length ?G" "pv ?G i < length ?G" "nx ?G i \<noteq> i" "pv ?G i \<noteq> i"
      proof -
        have i: "i \<in> set (i # ys)" by simp
        show "nx ?G i < length ?G" "pv ?G i < length ?G" using ring_bound [OF pgring] ring_links(1,2) [OF pgring i] by blast+
        show "nx ?G i \<noteq> i" using ring_links(6) [OF pgring i] False by simp
        then show "pv ?G i \<noteq> i" using ring_links(3,4) [OF pgring i] by metis
      qed
      have "first ys = uint (ucast (page_next ?m) :: u32)"
        using ring_next_first [OF pgring] False by (cases ys) (simp_all add: nx_def uint_field)
      then show ?thesis using b link one True False u i(1) n
        by (simp add: set_alloc_list_def z_def pg_unlink_def unlinked_def upd_next_own upd_prev_own links_alone nx_def pv_def)
    qed
  qed (use one in simp)
  have c: "bug_if (trunks_per_page zi \<le> of_nat (8 * ?x + ?y) \<or> (ucast (free_trunks ?m) :: u32) = 0 \<or> trunks_per_page zi \<le> ucast (free_trunks ?m)) = Some ()"
    using w by (simp add: bug_if_def)
  have "take_trunk zi (zone_alloc_list p ! z) p = Some (block_addr p i ((8 * ?x + ?y) * zsize z),
      stat_trunk zi (p\<lparr>pgman_array := taken i ?x ?y ys ?G, zone_alloc_list := ?L\<rparr>))"
  proof -
    define S where "S = ?S"
    define L where "L = ?L"
    have S: "i < length S" "S ! i = (if free_trunks ?m = 1 then alone i ?m else ?m)" using i(1) by (auto simp: S_def)
    then have "S[i := (S ! i)\<lparr>trunk_bitmap := bitmap_or (trunk_bitmap (S ! i)) ?x ?y, free_trunks := ucast ((ucast (free_trunks ?m) :: u32) - 1)\<rparr>] =
        S[i := took ?x ?y (S ! i)]" by (simp add: took_def)
    also have "\<dots> = taken i ?x ?y ys ?G" unfolding S(2) by (simp add: taken_def S_def)
    finally have T: "S[i := (S ! i)\<lparr>trunk_bitmap := bitmap_or (trunk_bitmap (S ! i)) ?x ?y, free_trunks := ucast ((ucast (free_trunks ?m) :: u32) - 1)\<rparr>] =
        taken i ?x ?y ys ?G" .
    have "pgm_upd ?u f (p\<lparr>pgman_array := S, zone_alloc_list := L\<rparr>) = Some (p\<lparr>pgman_array := S[i := f (S ! i)], zone_alloc_list := L\<rparr>)" for f
      using S(1) u by simp
    moreover have "pgidx_2_addr (p\<lparr>pgman_array := H, zone_alloc_list := L\<rparr>) ?u = pgidx_2_addr p ?u" for H by (simp add: pgidx_2_addr_def)
    ultimately show ?thesis
      unfolding take_trunk_def Let_def h of_int_of_nat_eq v bind.bind_lunit pg c lists S_def [symmetric] L_def [symmetric] by (simp only: bind.bind_lunit T a)
  qed
  then show ?thesis using f by blast
qed

lemma zone_live: "page_type m = PAGE_TYPE_ZONE \<Longrightarrow> live_in m off = (\<exists>k \<in> trunk_bits (trunk_bitmap m). off = k * zsize (unat (zone_index m)))"
  by (simp add: live_in_def)

lemma took_live:
  assumes "page_type m = PAGE_TYPE_ZONE" and "8 * x + y < 64"
  shows "live_in (took x y m) off = (live_in m off \<or> off = (8 * x + y) * zsize (unat (zone_index m)))"
  using assms by (simp add: zone_live trunk_bits_or) blast

lemma trunk_in_page: "\<lbrakk>z < 15; k < ntrunks z\<rbrakk> \<Longrightarrow> k * zsize z + zsize z \<le> 4096 \<and> 0 < zsize z"
proof -
  assume a: "z < 15" "k < ntrunks z"
  then have "(k + 1) * zsize z \<le> ntrunks z * zsize z" by (intro mult_le_mono1) simp
  then show ?thesis using zsize_facts(1,6) [OF a(1)] by (simp add: algebra_simps)
qed

lemma taken_ok:
  assumes inv: "heap_inv p fs R" and z: "z < 15" and R: "R z = i # ys" and xy: "x < 8" "y < 8" "8 * x + y < ntrunks z"
    and new: "8 * x + y \<notin> trunk_bits (trunk_bitmap (pgman_array p ! i))"
    and q: "q = p\<lparr>pgman_array := taken i x y ys (pgman_array p),
        zone_alloc_list := if free_trunks (pgman_array p ! i) = 1 then (zone_alloc_list p)[z := first ys] else zone_alloc_list p\<rparr>"
  shows "(\<exists>R'. heap_inv q fs R') \<and> hands_out p (block_addr p i ((8 * x + y) * zsize z)) q \<and>
    block_len q (block_addr p i ((8 * x + y) * zsize z)) = zsize z"
proof -
  let ?G = "pgman_array p" and ?m = "pgman_array p ! i" and ?H = "pgman_array q"
  let ?k = "8 * x + y"
  note r = rings_okD [OF heap_invD(4) [OF inv], of z]
  have z16: "z < 16" using z by simp
  have pgring: "pgring ?G (i # ys)" and i: "i < length ?G" "cls ?m = Some z" using r(1,2) [OF z16] R by auto
  have N: "length ?G = unat (page_num p)" "length ?G < 65535" using heap_invD(5,6) [OF inv] by auto
  have m: "page_type ?m = PAGE_TYPE_ZONE" "unat (zone_index ?m) = z" "free_trunks ?m \<noteq> 0" using cls_zone [OF i(2) z] by auto
  have ok: "page_ok ?G i" by (rule heap_invD(8) [OF inv i(1)])
  have k64: "?k < 64" using xy zsize_facts(5) [OF z] by simp
  have H: "?H = taken i x y ys ?G" by (simp add: q)
  define n where "n = ?H ! i"
  have n: "n = (if free_trunks ?m = 1 then took x y (alone i ?m) else took x y ?m)" using i(1) by (simp add: n_def H taken_def)
  have nf: "page_type n = PAGE_TYPE_ZONE" "zone_index n = zone_index ?m" "trunk_bitmap n = bitmap_or (trunk_bitmap ?m) x y"
      "unat (free_trunks n) = unat (free_trunks ?m) - 1"
    using m took_free [of ?m] took_free [of "alone i ?m"] by (auto simp: n)
  have tk: "trunk_bits (trunk_bitmap n) = insert ?k (trunk_bits (trunk_bitmap ?m))" using nf(3) trunk_bits_or [OF k64] by simp
  have o: "others i ?G ?H"
  proof -
    have "others i ?G (unlinked i ?G)" if "ys \<noteq> []"
      by (rule others_unlinked [OF pgring]) (use that r(2) [OF z16] R in auto)
    then show ?thesis unfolding H taken_def by (auto intro: others_trans)
  qed
  have iH: "page_ok ?H i"
  proof -
    have "nx ?H i = i \<and> pv ?H i = i" if "free_trunks n = 0"
    proof -
      have "unat (free_trunks ?m) = 1" using that nf(4) m(3) by (metis One_nat_def Suc_pred unat_gt_0 unsigned_0)
      then have "free_trunks ?m = 1" by (metis unat_1 word_unat_eq_iff)
      then have "page_next n = of_nat i" "page_prev n = of_nat i" by (simp_all add: n)
      moreover have "take_bit 20 i = i" using i(1) N(2) by (simp add: take_bit_nat_eq_self_iff)
      ultimately show ?thesis by (simp add: nx_def pv_def n_def unsigned_of_nat)
    qed
    moreover have "0 < unat (free_trunks ?m)" using m(3) by (simp add: unat_gt_0)
    ultimately show ?thesis using ok m nf new xy tk unfolding page_ok_def n_def [symmetric] Let_def by auto
  qed
  have g: "same_geometry p q" by (simp add: q same_geometry_def)
  have sp: "span ?H i = {i}" "span ?G i = {i}" using nf(1) m(1) by (simp_all add: span_def n_def)
  have F: "i \<notin> run_pages fs" using sp(2) i(1) by (auto simp: heap_invD(9) [OF inv] owned_def)
  have heads: "heads q = (if free_trunks ?m = 1 then (heads p)(z := first ys) else heads p)"
    using z heap_invD(3) [OF inv] by (auto simp: q heads_def fun_eq_iff nth_list_update)
  have "\<exists>R'. rings_ok ((\<lambda>j. cls (?G ! j))(i := cls n)) ?H (heads q) R'"
  proof (cases "free_trunks ?m = 1")
    case True
    have c: "cls n = None" using True nf by (simp add: cls_def) (metis unat_1 diff_self_eq_0 unat_eq_zero)
    have "rings_ok ((\<lambda>j. cls (?G ! j))(i := None)) (if R z = [i] then ?G else unlinked i ?G) (heads q) (R(z := remove1 i (R z)))"
      by (rule rings_remove [OF heap_invD(4) [OF inv] z16]) (use R N(2) True heads in auto)
    then have "rings_ok ((\<lambda>j. cls (?G ! j))(i := None)) ?H (heads q) (R(z := remove1 i (R z)))"
      using rings_own [of "(\<lambda>j. cls (?G ! j))(i := None)" _ "heads q" _ i] True R by (simp add: H taken_def)
    then show ?thesis using c by auto
  next
    case False
    have "unat (free_trunks n) \<noteq> 0" using False nf(4) m(3) by (metis One_nat_def Suc_pred unat_1 unat_gt_0 word_unat_eq_iff)
    then have "cls n = cls ?m" using nf m by (auto simp: cls_def)
    then have "(\<lambda>j. cls (?G ! j))(i := cls n) = (\<lambda>j. cls (?G ! j))" by auto
    moreover have "rings_ok (\<lambda>j. cls (?G ! j)) ?H (heads q) R"
      using rings_own [OF heap_invD(4) [OF inv], of i "took x y ?m"] False heads by (simp add: H taken_def)
    ultimately show ?thesis by auto
  qed
  then obtain R' where R': "rings_ok ((\<lambda>j. cls (?G ! j))(i := cls (?H ! i))) ?H (heads q) R'" unfolding n_def by blast
  have pk: "pages_ok q fs" using heap_invD(7) [OF inv] pages_ok_same [of q p fs] by (simp add: q)
  have "heap_inv q fs R'"
    by (rule heap_step [OF inv g pk _ o i(1) iH _ _ R']) (use sp F heap_invD(3) [OF inv] in \<open>auto simp: q\<close>)
  moreover have t: "?k * zsize z < 4096" "i < unat (page_num p)" using trunk_in_page [OF z xy(3)] i(1) N by auto
  moreover have "hands_out p (block_addr p i (?k * zsize z)) q"
  proof (rule hands_outI [OF heap_invD(1) [OF inv] g o t(2,1)])
    show "live_in (?H ! i) off = (live_in ?m off \<or> off = ?k * zsize z)" for off
      unfolding n_def [symmetric] zone_live [OF nf(1)] zone_live [OF m(1)] tk nf(2) m(2) by blast
    show "\<not> live_in ?m (?k * zsize z)" using new m zsize_facts(1) [OF z] by (auto simp: zone_live)
  qed (use m nf n_def in auto)
  moreover have "block_len q (block_addr p i (?k * zsize z)) = zsize z"
    using block_addr(3) [OF heap_invD(1) [OF inv] t(2,1)] nf(1,2) m(2) same_geometry_fields(3) [OF g] by (simp add: block_len_def n_def)
  ultimately show ?thesis by blast
qed

text \<open>What an allocation of at least \<open>n\<close> bytes may do: hand out a new block or, with the heap unchanged besides the statistics, nothing.\<close>

definition allocates :: "mem_pool \<Rightarrow> nat \<Rightarrow> (u32 option \<times> mem_pool) option \<Rightarrow> bool" where
  "allocates p n res = (\<exists>q p'. res = Some (q, p') \<and> slab_ok p' \<and> (case q of
     None \<Rightarrow> same_rest p p'
   | Some a \<Rightarrow> hands_out p a p' \<and> n \<le> block_len p' a))"

end
