(* ===== verification/Slab_Used.thy ===== *)
theory Slab_Used
  imports Slab
begin

unbundle bit_operations_syntax

text \<open>
  The count of the bytes in use: which steps of the system heap change it, and by how much.
\<close>

text \<open>\<open>adds f n p r\<close>: a result of \<open>r\<close> counts \<open>n\<close> bytes more than \<open>p\<close>.\<close>

definition adds :: "('a \<Rightarrow> mem_pool) \<Rightarrow> int \<Rightarrow> mem_pool \<Rightarrow> 'a option \<Rightarrow> bool" where
  "adds f n p r = (\<forall>x. r = Some x \<longrightarrow> used_mem (f x) = used_mem p + n)"

lemma addsD: "\<lbrakk>adds f n p r; r = Some x\<rbrakk> \<Longrightarrow> used_mem (f x) = used_mem p + n"
  by (simp add: adds_def)

lemma adds_none: "adds f n p None"
  by (simp add: adds_def)

lemma adds_some: "used_mem (f x) = used_mem p + n \<Longrightarrow> adds f n p (Some x)"
  by (simp add: adds_def)

lemma adds_if: "\<lbrakk>adds f n p r; adds f n p s\<rbrakk> \<Longrightarrow> adds f n p (if c then r else s)"
  by simp

lemma adds_let: "(\<And>x. adds f n p (g x)) \<Longrightarrow> adds f n p (let x = a in g x)"
  by simp

lemma adds_pure: "(\<And>x. adds f n p (g x)) \<Longrightarrow> adds f n p (Option.bind m g)"
  by (auto simp: adds_def)

lemma adds_step: "\<lbrakk>adds id 0 p m; \<And>q. used_mem q = used_mem p \<Longrightarrow> adds f n q (g q)\<rbrakk> \<Longrightarrow> adds f n p (Option.bind m g)"
  by (auto simp: adds_def)

lemma adds_at: "\<lbrakk>used_mem q = used_mem p; adds f n q r\<rbrakk> \<Longrightarrow> adds f n p r"
  by (simp add: adds_def)


lemma slot_set_used [simp]: "used_mem (slot_set prev v p) = used_mem p"
  by (cases prev) simp_all

lemma pa_set_adds: "adds id 0 p (pa_set i b p)"
  by (simp add: adds_def pa_set_def)

lemma page_take_adds: "adds snd 0 p (page_take n prev i b p)"
  unfolding page_take_def
  by (intro adds_pure adds_let adds_step [of p] adds_if pa_set_adds adds_some) auto

lemma page_alloc_loop_used: "page_alloc_loop n prev e p = Some y \<Longrightarrow> used_mem (snd y) = used_mem p"
proof (erule page_alloc_loop.raw_induct [rotated, where P = "\<lambda>n prev e p y. used_mem (snd y) = used_mem p"])
  fix loop n prev e p y
  assume IH: "\<And>n prev e p y. loop n prev e p = Some y \<Longrightarrow> used_mem (snd y) = used_mem p"
    and eq: "(let index = ucast (slot_get prev p) in
      if index < page_num p then do {
        b \<leftarrow> pa_at index p;
        _ \<leftarrow> bug_if (sint index \<le> sint e \<or> pa_page b = 0);
        if ucast (pa_page b) < n then loop n (Next_Of (unat index)) (index + ucast (pa_page b)) p
        else page_take n prev index b p }
      else do {
        _ \<leftarrow> bug_if (index \<noteq> END_FLAG);
        Some (None, p) }) = Some y"
  have l: "adds snd 0 p (loop n prev e p)" for n prev e using IH by (simp add: adds_def)
  show "used_mem (snd y) = used_mem p"
  proof -
    have "adds snd 0 p (Some y)" unfolding eq [symmetric] by (intro adds_let adds_if adds_pure l page_take_adds adds_some) simp
    then show ?thesis by (simp add: adds_def)
  qed
qed

lemma rt_page_alloc_adds: "adds snd 0 p (rt_page_alloc_nolock n p)"
  unfolding rt_page_alloc_nolock_def by (intro adds_if adds_some) (simp_all add: adds_def page_alloc_loop_used)

lemma page_append_adds: "adds id 0 p (page_append n e i b p)"
  unfolding page_append_def by (intro adds_pure adds_let adds_if pa_set_adds)

lemma page_link_adds: "adds id 0 p (page_link f n prev i p)"
  unfolding page_link_def by (intro adds_pure adds_step [of p] pa_set_adds adds_some) simp

lemma page_free_loop_used: "page_free_loop f n prev e p = Some y \<Longrightarrow> used_mem y = used_mem p"
proof (erule page_free_loop.raw_induct [rotated, where P = "\<lambda>f n prev e p y. used_mem y = used_mem p"])
  fix loop f n prev e p y
  assume IH: "\<And>f n prev e p y. loop f n prev e p = Some y \<Longrightarrow> used_mem y = used_mem p"
    and eq: "(let index = ucast (slot_get prev p); freend = f + n in
      if index < page_num p then do {
        b \<leftarrow> pa_at index p;
        _ \<leftarrow> bug_if (sint index \<le> sint e \<or> pa_page b = 0);
        let bend = index + ucast (pa_page b);
        if bend < f then loop f n (Next_Of (unat index)) bend p
        else do {
          _ \<leftarrow> bug_if (bend > page_num p);
          if f = bend then page_append n freend index b p
          else if freend < index then page_link f n prev index p
          else if freend = index then do {
            pool \<leftarrow> pa_set f \<lparr>pa_page = pa_page b + ucast n, pa_next = pa_next b\<rparr> p;
            Some (slot_set prev (ucast f) pool) }
          else None } }
      else page_link f n prev index p) = Some y"
  have l: "adds id 0 p (loop f n prev e p)" for f n prev e using IH by (simp add: adds_def)
  show "used_mem y = used_mem p"
  proof -
    have s: "adds id 0 p (do {
            pool \<leftarrow> pa_set f b p;
            Some (slot_set prev (ucast f) pool) })" for b
      by (rule adds_step [OF pa_set_adds]) (simp add: adds_some)
    have "adds id 0 p (Some y)" unfolding eq [symmetric]
      by (intro adds_let adds_if adds_none s page_append_adds page_link_adds l adds_pure)
    then show ?thesis by (simp add: adds_def)
  qed
qed

lemma rt_page_free_adds: "adds id 0 p (rt_page_free_nolock a n p)"
  unfolding rt_page_free_nolock_def by (intro adds_let adds_pure) (simp add: adds_def page_free_loop_used)

lemma pgm_upd_adds: "adds id 0 p (pgm_upd i f p)"
  by (simp add: adds_def pgm_upd_def)

lemma set_links_adds: "adds id 0 p (set_page_next i v p)" "adds id 0 p (set_page_prev i v p)"
  unfolding set_page_next_def set_page_prev_def by (rule pgm_upd_adds)+

lemma pg_unlink_adds: "adds id 0 p (pg_unlink a b p)"
  unfolding pg_unlink_def by (rule adds_step [OF set_links_adds(1)], rule set_links_adds(2))

lemma set_alloc_list_used [simp]: "used_mem (set_alloc_list zi i p) = used_mem p"
  by (simp add: set_alloc_list_def)

lemma stat_zone_used [simp]: "used_mem (stat_zone zi p) = used_mem p"
  by (simp add: stat_zone_def Let_def)

lemma stat_trunk_used [simp]: "used_mem (stat_trunk zi p) = used_mem p + uint (zone_size zi)"
  by (simp add: stat_trunk_def stat_used_def Let_def)

lemma cache_list_adds: "used_mem (p\<lparr>zone_cache_list := c\<rparr>) = used_mem p" "used_mem (p\<lparr>zone_cache_count := k\<rparr>) = used_mem p"
  by simp_all

text \<open>Rules that follow the syntax of the code.\<close>

lemmas adds_rules = adds_let adds_none
  adds_pure [where m = "bug_if c" for c] adds_pure [where m = "pgm_at i p" for i p] adds_pure [where m = "verify_pglist i t z p" for i t z p]
  adds_step [OF pgm_upd_adds] adds_step [OF set_links_adds(1)] adds_step [OF set_links_adds(2)] adds_step [OF pg_unlink_adds]
  adds_step [OF rt_page_free_adds] adds_step [where m = "if c then a else b" for c a b] adds_if
  pgm_upd_adds set_links_adds pg_unlink_adds rt_page_free_adds

lemma take_trunk_adds: "adds snd (uint (zone_size zi)) p (take_trunk zi i p)"
  unfolding take_trunk_def by (intro adds_rules adds_some; simp)

lemma take_cached_adds: "adds id 0 p (take_cached i p)"
  unfolding take_cached_def by (intro adds_rules adds_some; simp)

lemma link_zone_adds: "adds id 0 p (link_zone zi i p)"
  unfolding link_zone_def by (intro adds_rules adds_some; simp)

lemma relist_zone_adds: "adds id 0 p (relist_zone zi i m p)"
  unfolding relist_zone_def by (intro adds_rules adds_some; simp)

lemma unlist_zone_adds: "adds id 0 p (unlist_zone zi i m p)"
  unfolding unlist_zone_def by (intro adds_rules adds_some; simp)

lemma retire_zone_adds: "adds id 0 p (retire_zone a i p)"
  unfolding retire_zone_def by (intro adds_rules adds_some; simp)

lemma free_trunk_adds: "adds id (- uint (zone_size (ucast (zone_index m)))) p (free_trunk a i m p)"
  unfolding free_trunk_def Let_def
  by (intro adds_rules relist_zone_adds adds_step [OF unlist_zone_adds] adds_at [OF _ retire_zone_adds] adds_some; simp)

lemma free_block_adds: "adds id (- uint (push_bit 12 (ucast (page_prev m) :: u32))) p (free_block a i m p)"
  unfolding free_block_def Let_def by (intro adds_rules adds_some; simp)

text \<open>An allocation: nothing is counted when there is no block.\<close>

lemma stat_used_fields [simp]: "used_mem (stat_trunk zi p) = used_mem p + uint (zone_size zi)" "used_mem (stat_block n p) = used_mem p + n"
  by (simp_all add: stat_trunk_def stat_block_def stat_used_def Let_def)

lemma alloc_trunk_used:
  assumes "alloc_trunk zi p = Some (a, q)"
  shows "used_mem q = used_mem p + (if a = None then 0 else uint (zone_size zi))"
proof -
  consider "0 \<le> zone_alloc_list p ! unat zi" | "\<not> 0 \<le> zone_alloc_list p ! unat zi" "0 \<le> zone_cache_list p"
    | "\<not> 0 \<le> zone_alloc_list p ! unat zi" "\<not> 0 \<le> zone_cache_list p" by blast
  then show ?thesis
  proof cases
    case 1
    then obtain t where "take_trunk zi (zone_alloc_list p ! unat zi) p = Some (t, q)" "a = Some t" using assms by (auto simp: alloc_trunk_def)
    then show ?thesis using addsD [OF take_trunk_adds, of zi _ p "(t, q)"] by simp
  next
    case 2
    then obtain p1 p2 where "take_cached (zone_cache_list p) p = Some p1" "link_zone zi (of_int (zone_cache_list p)) p1 = Some p2"
        "q = stat_trunk zi p2" "a \<noteq> None" using assms by (auto simp: alloc_trunk_def Let_def)
    then show ?thesis using addsD [OF take_cached_adds] addsD [OF link_zone_adds] by fastforce
  next
    case 3
    then obtain t p1 where p1: "rt_page_alloc_nolock 1 (p\<lparr>zone_cache_count := 0\<rparr>) = Some (t, p1)" using assms by (auto simp: alloc_trunk_def)
    have u: "used_mem p1 = used_mem p" using addsD [OF rt_page_alloc_adds p1] by simp
    show ?thesis
    proof (cases t)
      case None
      then show ?thesis using assms 3 p1 u by (simp add: alloc_trunk_def)
    next
      case (Some t')
      then obtain p2 where p2: "link_zone zi (addr_2_pgidx p1 t') p1 = Some p2" "q = stat_trunk zi p2" "a \<noteq> None"
        using assms 3 p1 by (auto simp: alloc_trunk_def Let_def)
      then show ?thesis using addsD [OF link_zone_adds p2(1)] u by auto
    qed
  qed
qed

lemma malloc_block_used:
  assumes "malloc_r sz b p = Some (Some a, q)" and "sz > last g_zone_sizes \<or> b = 12"
  shows "used_mem q = used_mem p + uint (RT_ALIGN sz 4096)"
proof -
  let ?w = "drop_bit 12 (RT_ALIGN sz 4096)"
  obtain t p1 where p1: "rt_page_alloc_nolock ?w p = Some (t, p1)" using assms by (auto simp: malloc_r_def Let_def split: if_splits)
  then obtain f p2 where "pgm_upd (addr_2_pgidx p1 a) f p1 = Some p2" "q = stat_block (uint (RT_ALIGN sz 4096)) p2"
    using assms by (cases t) (auto simp: malloc_r_def Let_def)
  then show ?thesis using addsD [OF rt_page_alloc_adds p1] addsD [OF pgm_upd_adds, of _ _ p1 p2] by simp
qed

lemma malloc_block_none:
  assumes "malloc_r sz b p = Some (None, q)" and "sz > last g_zone_sizes \<or> b = 12"
  shows "used_mem q = used_mem p"
proof -
  let ?w = "drop_bit 12 (RT_ALIGN sz 4096)"
  obtain t p1 where p1: "rt_page_alloc_nolock ?w p = Some (t, p1)" using assms by (auto simp: malloc_r_def Let_def split: if_splits)
  then have "q = p1" using assms by (cases t) (auto simp: malloc_r_def Let_def)
  then show ?thesis using addsD [OF rt_page_alloc_adds p1] by simp
qed

end
