(* ===== verification/Slab_Malloc.thy ===== *)
theory Slab_Malloc
  imports Slab_Trunk Slab_Used
begin

unbundle bit_operations_syntax

text \<open>
  Every allocation of the system heap keeps its invariant and hands out a block that is new, large enough and aligned.
\<close>

lemma linked_zone_fields:
  assumes "z < 15" and "z = unat zi" and "i < 65535" and "m = \<lparr>page_type = PAGE_TYPE_ZONE, zone_index = ucast zi, page_prev = of_nat i,
        free_trunks = ucast (trunks_per_page zi - 1), page_next = of_nat i, trunk_bitmap = 1\<rparr>"
  shows "unat (zone_index m) = z" "unat (free_trunks m) = ntrunks z - 1" "cls m = Some z" "unat (page_prev m) = i" "unat (page_next m) = i"
proof -
  have "unat (trunks_per_page zi - 1) = ntrunks z - 1"
    using zsize_facts(4) [OF assms(1)] assms(2) by (subst unat_minus_one) (auto simp: unat_trunks_per_page [symmetric] simp del: unat_trunks_per_page)
  then show f: "unat (free_trunks m) = ntrunks z - 1" using zsize_facts(5) [OF assms(1)] by (simp add: assms(4) unsigned_ucast_eq take_bit_nat_eq_self_iff)
  show z: "unat (zone_index m) = z" using assms(1,2) by (simp add: assms(4) unsigned_ucast_eq take_bit_nat_eq_self_iff)
  have "free_trunks m \<noteq> 0" using f zsize_facts(4) [OF assms(1)] by auto
  then show "cls m = Some z" using z by (simp add: cls_def assms(4))
  have "take_bit 20 i = i" using assms(3) by (simp add: take_bit_nat_eq_self_iff)
  then show "unat (page_prev m) = i" "unat (page_next m) = i" by (simp_all add: assms(4) unsigned_of_nat)
qed

lemma link_ok:
  fixes zi :: u32
  defines "z \<equiv> unat zi"
  assumes inv: "heap_inv p fs R" and z: "z < 15" and i: "i < length (pgman_array p)"
    and g: "same_geometry p p1" and ok: "pages_ok p1 gs" and l: "length (zone_alloc_list p1) = 15"
    and o: "others i (pgman_array p) (pgman_array p1)"
    and r: "rings_ok ((\<lambda>j. cls (pgman_array p ! j))(i := None)) (pgman_array p1) (heads p1) R1" and e: "R1 z = []"
    and t: "page_type (pgman_array p ! i) \<in> {PAGE_TYPE_FREE, PAGE_TYPE_CACHE}"
    and s: "i \<in> run_pages fs \<union> span (pgman_array p) i" "run_pages gs = (run_pages fs \<union> span (pgman_array p) i) - {i}"
  shows "\<exists>q. link_zone zi (of_nat i) p1 = Some q \<and> slab_ok q \<and> hands_out p (block_addr p i 0) q \<and> block_len q (block_addr p i 0) = zsize z"
proof -
  let ?G = "pgman_array p"
  have N: "length ?G = unat (page_num p)" "length ?G < 65535" using heap_invD(5,6) [OF inv] by auto
  have i1: "i < length (pgman_array p1)" using i o by (simp add: others_def)
  define m where "m = \<lparr>page_type = PAGE_TYPE_ZONE, zone_index = ucast zi, page_prev = of_nat i,
        free_trunks = ucast (trunks_per_page zi - 1), page_next = of_nat i, trunk_bitmap = 1\<rparr>"
  have i65: "i < 65535" using i N(2) by simp
  have zu: "z = unat zi" by (simp add: z_def)
  note mf = linked_zone_fields [OF z zu i65 m_def]
  have mt: "page_type m = PAGE_TYPE_ZONE" "trunk_bitmap m = 1" by (simp_all add: m_def)
  define q1 where "q1 = p1\<lparr>pgman_array := (pgman_array p1)[i := m], zone_alloc_list := (zone_alloc_list p1)[z := int i]\<rparr>"
  have run: "link_zone zi (of_nat i) p1 = Some (stat_zone zi q1)"
  proof -
    have "(ucast (of_nat i :: u32) :: 20 word) = of_nat i" by (metis ucast_of_unat unat_of_index(1) i65)
    then show ?thesis using i1 i65 by (simp add: link_zone_def q1_def set_alloc_list_def m_def z_def)
  qed
  let ?H = "pgman_array q1"
  have H: "?H = (pgman_array p1)[i := m]" "?H ! i = m" using i1 by (simp_all add: q1_def)
  have o1: "others i ?G ?H" unfolding H by (rule others_trans [OF o others_own])
  have n: "nx ?H i = i" "pv ?H i = i" using mf(4,5) by (simp_all add: nx_def pv_def H(2))
  have iH: "page_ok ?H i"
    using mf(1,2) mt z n zsize_facts(4) [OF z] by (simp add: page_ok_def Let_def H(2))
  have sp: "span ?H i = {i}" using mt by (simp add: span_def H(2))
  have heads: "heads q1 = (heads p1)(z := first [i])"
    using z l by (auto simp: q1_def heads_def fun_eq_iff nth_list_update)
  have "rings_ok (((\<lambda>j. cls (?G ! j))(i := None))(i := Some z)) ?H (heads q1) (R1(z := [i]))"
    by (rule rings_insert [OF r]) (use z i1 n H e heads in \<open>auto simp: ring_single\<close>)
  then have "rings_ok ((\<lambda>j. cls (?G ! j))(i := cls (?H ! i))) ?H (heads q1) (R1(z := [i]))" using mf(3) H(2) by simp
  moreover have g1: "same_geometry p q1" using g by (simp add: q1_def same_geometry_def)
  moreover have "pages_ok q1 gs" using ok pages_ok_same [of q1 p1 gs] by (simp add: q1_def)
  ultimately have "heap_inv q1 gs (R1(z := [i]))"
    using heap_step [OF inv g1 _ _ o1 i iH] sp s l by (simp add: q1_def)
  moreover have ip: "i < unat (page_num p)" "(0::nat) < 4096" using i N by simp_all
  have tb: "trunk_bits (trunk_bitmap m) = {0}" using mt by simp
  have dead: "\<not> live_in (?G ! i) off" for off using t by (auto simp: live_in_def)
  have "hands_out p (block_addr p i 0) q1"
  proof (rule hands_outI [OF heap_invD(1) [OF inv] g1 o1 ip])
    show "live_in (?H ! i) off = (live_in (?G ! i) off \<or> off = 0)" for off
      using dead [of off] tb unfolding H(2) zone_live [OF mt(1)] by simp
    show "\<not> live_in (?G ! i) 0" by (rule dead)
  next
    fix off assume "live_in (?G ! i) off"
    then show "page_type (?G ! i) = PAGE_TYPE_ZONE \<and> page_type (?H ! i) = PAGE_TYPE_ZONE \<and> zone_index (?H ! i) = zone_index (?G ! i)"
      using dead [of off] by contradiction
  qed
  moreover have "block_len q1 (block_addr p i 0) = zsize z"
    using block_addr(3) [OF heap_invD(1) [OF inv] ip] mt(1) mf(1) same_geometry_fields(3) [OF g1] H(2) by (simp add: block_len_def)
  moreover have st: "same_rest q1 (stat_zone zi q1)" by (rule same_rest_stats)
  ultimately show ?thesis using run hands_out_same [OF st] slab_ok_same [OF st] block_same(2) [OF st] unfolding slab_ok_def by auto
qed

subsection \<open>A trunk of a new zone\<close>

lemma take_cached_run:
  assumes inv: "heap_inv p fs R" and R: "R 15 = i # ys"
  shows "take_cached (zone_cache_list p) p = Some (p\<lparr>pgman_array := if ys = [] then pgman_array p else unlinked i (pgman_array p),
      zone_cache_list := first ys, zone_cache_count := zone_cache_count p - 1\<rparr>)"
proof -
  let ?G = "pgman_array p" and ?m = "pgman_array p ! i" and ?u = "of_nat i :: u32"
  note r = rings_okD [OF heap_invD(4) [OF inv], of 15]
  have pgring: "pgring ?G (i # ys)" and i: "i < length ?G" "cls ?m = Some 15" using r(1,2) R by auto
  have N: "length ?G = unat (page_num p)" "length ?G < 65535" using heap_invD(5,6) [OF inv] by auto
  have h: "zone_cache_list p = int i" using r(3) R by (simp add: heads_def)
  have m: "page_type ?m = PAGE_TYPE_CACHE" "zone_index ?m = 0" using cls_cache [OF i(2) heap_invD(8) [OF inv i(1)]] by auto
  have u: "unat ?u = i" using i(1) N(2) by simp
  have v: "verify_pglist ?u PAGE_TYPE_CACHE 0 p = Some ()" by (rule verify_ring [OF pgring]) (use u m N in auto)
  have pg: "pgm_at ?u p = Some ?m" using u i(1) by simp
  have "(ucast (page_next ?m) :: u32) = ?u \<longleftrightarrow> nx ?G i = i" unfolding word_unat_eq_iff u by (simp add: nx_def)
  then have link: "?u = ucast (page_next ?m) \<longleftrightarrow> ys = []" using ring_links(6) [OF pgring, of i] by auto
  show ?thesis
  proof (cases "ys = []")
    case True
    then show ?thesis unfolding take_cached_def Let_def h of_int_of_nat_eq v bind.bind_lunit pg using link by simp
  next
    case False
    have im: "i \<in> set (i # ys)" by simp
    have n: "nx ?G i < length ?G" "pv ?G i < length ?G" using ring_bound [OF pgring] ring_links(1,2) [OF pgring im] by blast+
    have "first ys = uint (ucast (page_next ?m) :: u32)"
      using ring_next_first [OF pgring] False by (cases ys) (simp_all add: nx_def uint_field)
    then show ?thesis unfolding take_cached_def Let_def h of_int_of_nat_eq v bind.bind_lunit pg
      using link False n by (simp add: pg_unlink_def unlinked_def nx_def pv_def)
  qed
qed

lemma take_cached_ok:
  assumes inv: "heap_inv p fs R" and R: "R 15 = i # ys"
  shows "\<exists>p1. take_cached (zone_cache_list p) p = Some p1 \<and> same_geometry p p1 \<and> pages_ok p1 fs \<and> length (zone_alloc_list p1) = 15 \<and>
    others i (pgman_array p) (pgman_array p1) \<and> i < length (pgman_array p) \<and> page_type (pgman_array p ! i) = PAGE_TYPE_CACHE \<and>
    rings_ok ((\<lambda>j. cls (pgman_array p ! j))(i := None)) (pgman_array p1) (heads p1) (R(15 := ys)) \<and> zone_cache_list p = int i"
proof -
  let ?G = "pgman_array p"
  note r = rings_okD [OF heap_invD(4) [OF inv], of 15]
  have pgring: "pgring ?G (i # ys)" and i: "i < length ?G" "cls (?G ! i) = Some 15" using r(1,2) R by auto
  define p1 where "p1 = p\<lparr>pgman_array := if ys = [] then ?G else unlinked i ?G, zone_cache_list := first ys, zone_cache_count := zone_cache_count p - 1\<rparr>"
  have "others i ?G (pgman_array p1)"
  proof -
    have "others i ?G (unlinked i ?G)" if "ys \<noteq> []"
      by (rule others_unlinked [OF pgring]) (use that r(2) R in auto)
    then show ?thesis by (simp add: p1_def)
  qed
  moreover have "heads p1 = (heads p)(15 := first ys)" by (auto simp: p1_def heads_def fun_eq_iff)
  then have "rings_ok ((\<lambda>j. cls (?G ! j))(i := None)) (pgman_array p1) (heads p1) (R(15 := remove1 i (R 15)))"
    by (intro rings_remove [OF heap_invD(4) [OF inv]]) (use R heap_invD(6) [OF inv] in \<open>auto simp: p1_def\<close>)
  moreover have "pages_ok p1 fs" using heap_invD(7) [OF inv] pages_ok_same [of p1 p fs] by (simp add: p1_def)
  moreover have "zone_cache_list p = int i" using r(3) R by (simp add: heads_def)
  moreover have "page_type (?G ! i) = PAGE_TYPE_CACHE" using cls_cache [OF i(2) heap_invD(8) [OF inv i(1)]] by simp
  ultimately show ?thesis using take_cached_run [OF inv R] i(1) heap_invD(3) [OF inv] R
    by (auto simp: p1_def same_geometry_def)
qed

lemma free_page:
  assumes "heap_inv p fs R" and "i \<in> run_pages fs"
  shows "i < length (pgman_array p)" "page_type (pgman_array p ! i) = PAGE_TYPE_FREE" "span (pgman_array p) i = {}" "cls (pgman_array p ! i) = None"
proof -
  have i: "i < length (pgman_array p)" "i \<notin> owned (pgman_array p)" using assms(2) heap_invD(9) [OF assms(1)] by auto
  then show "i < length (pgman_array p)" by simp
  have "i \<notin> span (pgman_array p) i" using i by (auto simp: owned_def)
  then show t: "page_type (pgman_array p ! i) = PAGE_TYPE_FREE" using span_self [OF heap_invD(8) [OF assms(1) i(1)]] by blast
  show "span (pgman_array p) i = {}" "cls (pgman_array p ! i) = None" using t by (simp_all add: span_def cls_def)
qed

text \<open>There is no room for one more trunk of size class \<open>z\<close>: no page is free, no zone of the class has a free trunk, none is empty.\<close>

definition exhausted :: "mem_pool \<Rightarrow> nat \<Rightarrow> bool" where
  "exhausted p z = (\<forall>i < length (pgman_array p). i \<in> owned (pgman_array p) \<and> cls (pgman_array p ! i) \<noteq> Some z \<and> cls (pgman_array p ! i) \<noteq> Some 15)"

lemma alloc_trunk_ok:
  fixes zi :: u32
  defines "z \<equiv> unat zi"
  assumes inv: "heap_inv p fs R" and z: "z < 15"
  shows "\<exists>q p'. alloc_trunk zi p = Some (q, p') \<and> slab_ok p' \<and> (case q of
     None \<Rightarrow> same_rest p p' \<and> exhausted p z
   | Some a \<Rightarrow> hands_out p a p' \<and> block_len p' a = zsize z)"
proof -
  let ?G = "pgman_array p"
  note r = rings_okD [OF heap_invD(4) [OF inv]]
  have hz: "zone_alloc_list p ! z = first (R z)" "zone_cache_list p = first (R 15)" using r(3) [of z] r(3) [of 15] z by (auto simp: heads_def)
  have N: "length ?G = unat (page_num p)" "length ?G < 65535" using heap_invD(5,6) [OF inv] by auto
  have stat: "same_rest q (stat_trunk zi q)" for q by (rule same_rest_stats)
  consider i ys where "R z = i # ys" | i ys where "R z = []" "R 15 = i # ys" | "R z = []" "R 15 = []" by (cases "R z"; cases "R 15") auto
  then show ?thesis
  proof cases
    case 1
    obtain x y where xy: "x < 8" "y < 8" "8 * x + y < ntrunks z" "8 * x + y \<notin> trunk_bits (trunk_bitmap (?G ! i))"
        "take_trunk zi (zone_alloc_list p ! z) p = Some (block_addr p i ((8 * x + y) * zsize z),
          stat_trunk zi (p\<lparr>pgman_array := taken i x y ys ?G,
            zone_alloc_list := if free_trunks (?G ! i) = 1 then (zone_alloc_list p)[z := first ys] else zone_alloc_list p\<rparr>))"
      using take_trunk_run [OF inv, of zi i ys] z 1 unfolding z_def by blast
    define q where "q = p\<lparr>pgman_array := taken i x y ys ?G,
            zone_alloc_list := if free_trunks (?G ! i) = 1 then (zone_alloc_list p)[z := first ys] else zone_alloc_list p\<rparr>"
    define a where "a = block_addr p i ((8 * x + y) * zsize z)"
    have t: "slab_ok q" "hands_out p a q" "block_len q a = zsize z" using taken_ok [OF inv z 1 xy(1-4) q_def] by (auto simp: slab_ok_def a_def)
    have "alloc_trunk zi p = Some (Some a, stat_trunk zi q)"
      using xy(5) hz 1 unfolding alloc_trunk_def q_def [symmetric] a_def [symmetric] z_def [symmetric] by simp
    then show ?thesis using t slab_ok_same [OF stat] hands_out_same [OF stat] block_same(2) [OF stat] by auto
  next
    case 2
    obtain p1 where p1: "take_cached (zone_cache_list p) p = Some p1" "same_geometry p p1" "pages_ok p1 fs" "length (zone_alloc_list p1) = 15"
        "others i ?G (pgman_array p1)" "i < length ?G" "page_type (?G ! i) = PAGE_TYPE_CACHE"
        "rings_ok ((\<lambda>j. cls (?G ! j))(i := None)) (pgman_array p1) (heads p1) (R(15 := ys))" "zone_cache_list p = int i"
      using take_cached_ok [OF inv 2(2)] by blast
    have s: "span ?G i = {i}" using p1(7) by (simp add: span_def)
    have "i \<notin> run_pages fs" using p1(6) s heap_invD(9) [OF inv] by (auto simp: owned_def)
    then have f: "run_pages fs = (run_pages fs \<union> span ?G i) - {i}" using s by blast
    obtain q where q: "link_zone zi (of_nat i) p1 = Some q" "slab_ok q" "hands_out p (block_addr p i 0) q" "block_len q (block_addr p i 0) = zsize z"
      using link_ok [OF inv, of zi i p1 fs "R(15 := ys)"] z p1 2 s f unfolding z_def by auto
    have "pgidx_2_addr q (of_nat i) = block_addr p i 0"
      using same_geometry_fields(5) [of p q] q(3) p1(6) N(2) by (simp add: pgidx_2_addr_block hands_out_def)
    then have "alloc_trunk zi p = Some (Some (block_addr p i 0), stat_trunk zi q)"
      using p1(1,9) q(1) hz 2 unfolding alloc_trunk_def z_def [symmetric] by simp
    then show ?thesis using q slab_ok_same [OF stat] hands_out_same [OF stat] block_same(2) [OF stat] by auto
  next
    case 3
    define p0 where "p0 = p\<lparr>zone_cache_count := 0\<rparr>"
    have s0: "same_rest p p0" unfolding p0_def by (rule same_rest_stats)
    have g0: "pgman_array p0 = ?G" "zone_alloc_list p0 = zone_alloc_list p" "heads p0 = heads p" "same_geometry p p0"
      using heads_same [OF s0] s0 by (simp_all add: same_rest_def)
    have k0: "pages_ok p0 fs" using heap_invD(7) [OF inv] pages_ok_same [of p0 p fs] by (simp add: p0_def)
    have run: "alloc_trunk zi p = do {
        (trunk, pool) \<leftarrow> rt_page_alloc_nolock 1 p0;
        case trunk of
          None \<Rightarrow> Some (None, pool)
        | Some a \<Rightarrow> do {
            let i = addr_2_pgidx pool a;
            pgm \<leftarrow> pgm_at i pool;
            _ \<leftarrow> bug_if (page_type pgm \<noteq> PAGE_TYPE_FREE);
            pool \<leftarrow> link_zone zi i pool;
            Some (Some a, stat_trunk zi pool) } }"
      using hz 3 unfolding alloc_trunk_def p0_def z_def [symmetric] by simp
    note A = page_alloc_set [OF k0, of 1, simplified]
    show ?thesis
    proof (cases "take_run 1 fs")
      case None
      then have "rt_page_alloc_nolock 1 p0 = Some (None, p0)" "run_pages fs = {}" using A by auto
      moreover have "exhausted p z" using 3 r(2) [of z] r(2) [of 15] z \<open>run_pages fs = {}\<close> heap_invD(9) [OF inv] by (auto simp: exhausted_def)
      moreover have "slab_ok p0" using inv slab_ok_same [OF s0] by (auto simp: slab_ok_def)
      ultimately show ?thesis using run s0 by simp
    next
      case (Some x)
      obtain i gs where x: "x = (i, gs)" by (cases x)
      obtain p1 where p1: "rt_page_alloc_nolock 1 p0 = Some (Some (pgidx_2_addr p0 (of_nat i)), p1)" "pages_ok p1 gs" "rest_of p1 = rest_of p0"
          "i \<in> run_pages fs" "run_pages gs = run_pages fs - {i}"
        using A Some x by auto
      note fp = free_page [OF inv p1(4)]
      have e1: "p1 = p0\<lparr>page_alloctor := page_alloctor p1, alloctor_list := alloctor_list p1\<rparr>" by (rule rest_of_eq [OF p1(3)])
      have f1: "pgman_array p1 = ?G" "zone_alloc_list p1 = zone_alloc_list p" "zone_cache_list p1 = zone_cache_list p" "same_geometry p p1"
        by (subst e1, simp add: p0_def same_geometry_def)+
      have h1: "heads p1 = heads p" using f1 by (simp add: heads_def fun_eq_iff)
      have ri: "rings_ok ((\<lambda>j. cls (?G ! j))(i := None)) (pgman_array p1) (heads p1) R"
        by (rule rings_cong [OF heap_invD(4) [OF inv, folded f1(1)]]) (use fp f1 h1 in auto)
      obtain q where q: "link_zone zi (of_nat i) p1 = Some q" "slab_ok q" "hands_out p (block_addr p i 0) q" "block_len q (block_addr p i 0) = zsize z"
        using link_ok [OF inv, of zi i p1 gs R] z 3 fp f1 p1 heap_invD(3) [OF inv] ri unfolding z_def by auto
      have i65: "i < 65535" "i < unat (page_num p)" using fp(1) N by simp_all
      have a: "pgidx_2_addr p0 (of_nat i) = block_addr p i 0"
        using same_geometry_fields(5) [OF g0(4)] i65 by (simp add: pgidx_2_addr_block)
      have "addr_2_pgidx p1 (block_addr p i 0) = of_nat i"
        unfolding word_unat_eq_iff addr_2_pgidx_unat same_geometry_fields(3) [OF f1(4)] using block_addr(3) [OF heap_invD(1) [OF inv] i65(2), of 0] i65 by simp
      then have "alloc_trunk zi p = Some (Some (block_addr p i 0), stat_trunk zi q)"
        using run p1(1) q(1) a fp f1 i65 by (simp add: bug_if_def Let_def)
      then show ?thesis using q slab_ok_same [OF stat] hands_out_same [OF stat] block_same(2) [OF stat] by auto
    qed
  qed
qed

subsection \<open>A block of pages\<close>

lemma and_not_low:
  assumes "k < 32"
  shows "unat ((w :: u32) AND NOT (mask k)) = 2 ^ k * (unat w div 2 ^ k)"
proof -
  have "w AND NOT (mask k) = push_bit k (drop_bit k w)"
  proof (rule bit_eqI)
    fix n show "bit (w AND NOT (mask k)) n = bit (push_bit k (drop_bit k w)) n"
      by (cases "k \<le> n") (auto simp: bit_simps dest!: le_Suc_ex)
  qed
  moreover have "2 ^ k * (unat w div 2 ^ k) < 2 ^ 32"
    using u32_bound [of w] by (meson div_times_less_eq_dividend le_less_trans mult.commute order.trans times_div_less_eq_dividend)
  then have "unat (push_bit k (drop_bit k w)) = 2 ^ k * (unat w div 2 ^ k)"
  proof -
    have "unat (drop_bit k w) = unat w div 2 ^ k" 
    proof -
      have "take_bit 32 (unat w) = unat w" by (rule take_bit_nat_eq_self) (rule u32_bound)
      then show ?thesis by (simp only: unsigned_drop_bit_eq) (simp add: drop_bit_eq_div)
    qed
    then have "unat (push_bit k (drop_bit k w)) = take_bit 32 (2 ^ k * (unat w div 2 ^ k))"
      by (simp only: unsigned_push_bit_eq) (simp add: push_bit_eq_mult mult.commute)
    then show ?thesis using \<open>_ < 2 ^ 32\<close> by (simp add: take_bit_nat_eq_self_iff)
  qed
  ultimately show ?thesis by simp
qed

lemma align_4096:
  assumes "unat sz + 4095 < 2 ^ 32"
  shows "unat (RT_ALIGN sz 4096) = 4096 * ((unat sz + 4095) div 4096)"
proof -
  have "unat (sz + 4095) = unat sz + 4095" using assms by (simp add: unat_word_ariths)
  then show ?thesis using and_not_low [of 12 "sz + 4095"] by (simp add: RT_ALIGN_def mask_eq_exp_minus_1 add.commute)
qed

lemma align_4:
  assumes "unat sz + 3 < 2 ^ 32"
  shows "unat (RT_ALIGN sz 4) = 4 * ((unat sz + 3) div 4)"
proof -
  have "unat (sz + 3) = unat sz + 3" using assms by (simp add: unat_word_ariths)
  then show ?thesis using and_not_low [of 2 "sz + 3"] by (simp add: RT_ALIGN_def mask_eq_exp_minus_1 add.commute)
qed

text \<open>No row of \<open>n\<close> pages is free.\<close>

definition no_row :: "mem_pool \<Rightarrow> nat \<Rightarrow> bool" where
  "no_row p n = (\<forall>i. i + n \<le> length (pgman_array p) \<longrightarrow> {i..<i + n} \<inter> owned (pgman_array p) \<noteq> {})"

lemma malloc_block_ok:
  assumes inv: "heap_inv p fs R" and big: "sz > last g_zone_sizes \<or> b = 12" and s: "0 < unat sz" "unat sz \<le> 4096 * length (pgman_array p)"
  shows "\<exists>q p'. malloc_r sz b p = Some (q, p') \<and> slab_ok p' \<and> (case q of
     None \<Rightarrow> same_rest p p' \<and> no_row p ((unat sz + 4095) div 4096)
   | Some a \<Rightarrow> hands_out p a p' \<and> block_len p' a = 4096 * ((unat sz + 4095) div 4096))"
proof -
  let ?G = "pgman_array p"
  define n where "n = (unat sz + 4095) div 4096"
  have N: "length ?G = unat (page_num p)" "length ?G < 65535" using heap_invD(5,6) [OF inv] by auto
  have sb: "unat sz + 4095 < 2 ^ 32" using s N(2) by simp
  define w where "w = drop_bit 12 (RT_ALIGN sz 4096)"
  have w: "unat w = n" using align_4096 [OF sb] by (simp add: w_def n_def drop_bit_eq_div unat_div)
  have n1: "0 < n" "n \<le> length ?G" using s by (simp_all add: n_def)
  then have w0: "w \<noteq> 0" using w by auto
  have run: "malloc_r sz b p = do {
        (trunk, pool) \<leftarrow> rt_page_alloc_nolock w p;
        case trunk of
          None \<Rightarrow> Some (None, pool)
        | Some a \<Rightarrow> do {
            let i = addr_2_pgidx pool a;
            pgm \<leftarrow> pgm_at i pool;
            _ \<leftarrow> bug_if (page_type pgm \<noteq> PAGE_TYPE_FREE);
            pool \<leftarrow> pgm_upd i (\<lambda>m. m\<lparr>page_type := PAGE_TYPE_PAGE, page_prev := ucast w\<rparr>) pool;
            Some (Some a, stat_block (uint (RT_ALIGN sz 4096)) pool) } }"
    using big unfolding malloc_r_def w_def Let_def by simp
  note A = page_alloc_set [OF heap_invD(7) [OF inv] w0, unfolded w]
  show ?thesis
  proof (cases "take_run n fs")
    case None
    then have a: "rt_page_alloc_nolock w p = Some (None, p)" "\<forall>j. \<not> {j..<j + n} \<subseteq> run_pages fs" using A by auto
    have "no_row p n"
      unfolding no_row_def
    proof (intro allI impI)
      fix i assume i: "i + n \<le> length ?G"
      then have "{i..<i + n} \<subseteq> {..<length ?G}" by auto
      then show "{i..<i + n} \<inter> owned ?G \<noteq> {}" using a(2) heap_invD(9) [OF inv] by blast
    qed
    moreover have "same_rest p p" by (simp add: same_rest_def same_geometry_def)
    ultimately show ?thesis using run a(1) inv by (auto simp: slab_ok_def n_def)
  next
    case (Some x)
    obtain i gs where x: "x = (i, gs)" by (cases x)
    obtain p1 where p1: "rt_page_alloc_nolock w p = Some (Some (pgidx_2_addr p (of_nat i)), p1)" "pages_ok p1 gs" "rest_of p1 = rest_of p"
        "{i..<i + n} \<subseteq> run_pages fs" "run_pages gs = run_pages fs - {i..<i + n}"
      using A Some x by auto
    have im: "i \<in> run_pages fs" using p1(4) n1(1) by auto
    note fp = free_page [OF inv im]
    have i65: "i < 65535" "i < unat (page_num p)" using fp(1) N by simp_all
    have e1: "p1 = p\<lparr>page_alloctor := page_alloctor p1, alloctor_list := alloctor_list p1\<rparr>" by (rule rest_of_eq [OF p1(3)])
    have f1: "pgman_array p1 = ?G" "zone_alloc_list p1 = zone_alloc_list p" "zone_cache_list p1 = zone_cache_list p" "same_geometry p p1"
      by (subst e1, simp add: same_geometry_def)+
    define m where "m = (?G ! i)\<lparr>page_type := PAGE_TYPE_PAGE, page_prev := ucast w\<rparr>"
    define q where "q = p1\<lparr>pgman_array := ?G[i := m]\<rparr>"
    have mf: "page_type m = PAGE_TYPE_PAGE" "unat (page_prev m) = n" using w n1 N(2) by (simp_all add: m_def unsigned_ucast_eq take_bit_nat_eq_self_iff)
    let ?H = "pgman_array q"
    have H: "?H = ?G[i := m]" "?H ! i = m" "length ?H = length ?G" using fp(1) by (simp_all add: q_def)
    have a: "pgidx_2_addr p (of_nat i) = block_addr p i 0" using i65 by (simp add: pgidx_2_addr_block)
    have "addr_2_pgidx p1 (block_addr p i 0) = of_nat i"
      unfolding word_unat_eq_iff addr_2_pgidx_unat same_geometry_fields(3) [OF f1(4)] using block_addr(3) [OF heap_invD(1) [OF inv] i65(2), of 0] i65 by simp
    then have r: "malloc_r sz b p = Some (Some (block_addr p i 0), stat_block (uint (RT_ALIGN sz 4096)) q)"
      using run p1(1) a fp(1,2) f1(1) i65 by (simp add: bug_if_def Let_def q_def m_def)
    have pv: "pv ?H i = n" using mf by (simp add: pv_def H(2))
    have o: "others i ?G ?H" unfolding H(1) by (rule others_own)
    have within: "i + n \<le> length ?G" 
    proof -
      have "i + n - 1 \<in> {i..<i + n}" using n1(1) by auto
      then have "i + n - 1 \<in> run_pages fs" using p1(4) by blast
      then show ?thesis using free_page(1) [OF inv, of "i + n - 1"] n1(1) by simp
    qed
    have iH: "page_ok ?H i"
    proof -
      have "page_type (?H ! j) = PAGE_TYPE_FREE" if "i < j" "j < i + n" for j

      proof -
        have "j \<in> run_pages fs" using p1(4) that by auto
        then show ?thesis using free_page(2) [OF inv, of j] that by (simp add: H(1))
      qed
      then show ?thesis using mf pv n1 within by (simp add: page_ok_def H(2,3))
    qed
    have sp: "span ?H i = {i..<i + n}" using mf pv by (simp add: span_def H(2))
    have g: "same_geometry p q" using f1(4) by (simp add: q_def same_geometry_def)
    have heads: "heads q = heads p" using f1 by (simp add: heads_def fun_eq_iff q_def)
    have "cls m = None" using mf by (simp add: cls_def)
    then have "(\<lambda>j. cls (?G ! j))(i := cls (?H ! i)) = (\<lambda>j. cls (?G ! j))" using fp(4) H(2) by (auto simp: fun_eq_iff)
    moreover have "rings_ok (\<lambda>j. cls (?G ! j)) ?H (heads q) R" unfolding H(1) heads
      by (rule rings_own [OF heap_invD(4) [OF inv]]) (use fp in simp)
    ultimately have rr: "rings_ok ((\<lambda>j. cls (?G ! j))(i := cls (?H ! i))) ?H (heads q) R" by simp
    have pk: "pages_ok q gs" using p1(2) pages_ok_same [of q p1 gs] by (simp add: q_def)
    have "heap_inv q gs R"
      by (rule heap_step [OF inv g pk _ o fp(1) iH _ _ rr]) (use sp p1(4,5) fp(3) f1(2) heap_invD(3) [OF inv] in \<open>auto simp: q_def\<close>)
    moreover have "hands_out p (block_addr p i 0) q"
    proof (rule hands_outI [OF heap_invD(1) [OF inv] g o i65(2)])
      show "live_in (?H ! i) off = (live_in (?G ! i) off \<or> off = 0)" for off using fp(2) mf unfolding H(2) by (simp add: live_in_def)
    qed (use fp(2) in \<open>simp_all add: live_in_def\<close>)
    moreover have "block_len q (block_addr p i 0) = 4096 * n"
      using block_addr(3) [OF heap_invD(1) [OF inv] i65(2), of 0] mf same_geometry_fields(3) [OF g] H(2) by (simp add: block_len_def)
    moreover have stat: "same_rest q (stat_block k q)" for k by (rule same_rest_stats)
    ultimately show ?thesis using r slab_ok_same [OF stat] hands_out_same [OF stat] block_same(2) [OF stat] by (auto simp: slab_ok_def n_def)
  qed
qed

end
