(* ===== verification/Slab_Calls.thy ===== *)
theory Slab_Calls
  imports Slab_Malloc
begin

unbundle bit_operations_syntax

text \<open>
  The allocation calls of the kernel on the system heap.
\<close>

subsection \<open>Size classes and alignment\<close>

lemma zoneindex_from_found:
  "\<exists>s \<in> set zs. n \<le> s \<and> s AND (al - 1) = 0 \<Longrightarrow>
   \<exists>j < length zs. fst (zoneindex_from zs zi n al) = zi + of_nat j \<and> n \<le> zs ! j \<and> zs ! j AND (al - 1) = 0 \<and>
     (\<forall>k < j. \<not> (n \<le> zs ! k \<and> zs ! k AND (al - 1) = 0))"
proof (induction zs arbitrary: zi)
  case (Cons s zs)
  show ?case
  proof (cases "n \<le> s \<and> s AND (al - 1) = 0")
    case False
    then have "\<exists>s \<in> set zs. n \<le> s \<and> s AND (al - 1) = 0" using Cons.prems by auto
    then obtain j where j: "j < length zs" "fst (zoneindex_from zs (zi + 1) n al) = zi + 1 + of_nat j" "n \<le> zs ! j" "zs ! j AND (al - 1) = 0"
        "\<forall>k < j. \<not> (n \<le> zs ! k \<and> zs ! k AND (al - 1) = 0)"
      using Cons.IH [of "zi + 1"] by blast
    have "\<not> (n \<le> (s # zs) ! k \<and> (s # zs) ! k AND (al - 1) = 0)" if "k < Suc j" for k
      using that False j(5) by (cases k) auto
    then show ?thesis using False j by (intro exI [of _ "Suc j"]) (auto simp: add.assoc)
  qed (auto intro: exI [of _ 0])
qed simp

lemma and_align: "b < 32 \<Longrightarrow> (w :: u32) AND (push_bit b 1 - 1) = 0 \<longleftrightarrow> 2 ^ b dvd unat w"
proof -
  assume b: "b < 32"
  have "w AND (push_bit b 1 - 1) = take_bit b w" by (simp add: take_bit_eq_mask mask_eq_exp_minus_1 push_bit_eq_mult)
  moreover have "unat (take_bit b w) = unat w mod 2 ^ b" by (simp only: unsigned_take_bit_eq) (simp add: take_bit_eq_mod)
  ultimately show ?thesis by (metis dvd_eq_mod_eq_0 unat_eq_zero)
qed

lemma zone_for:
  assumes "unat n \<le> 2048" and "b \<le> 11"
  obtains z where "z < 15" "fst (zoneindex n (push_bit b 1)) = of_nat z" "unat n \<le> zsize z" "2 ^ b dvd zsize z"
proof -
  have "2 ^ b dvd (2 ^ 11 :: nat)" using assms(2) by (rule le_imp_power_dvd)
  then have "(2048 :: u32) AND (push_bit b 1 - 1) = 0" using assms(2) by (subst and_align) simp_all
  then have "\<exists>s \<in> set g_zone_sizes. n \<le> s \<and> s AND (push_bit b 1 - 1) = 0"
    using assms(1) by (intro bexI [of _ 2048]) (simp_all add: word_le_nat_alt g_zone_sizes_def)
  then obtain j where j: "j < length g_zone_sizes" "fst (zoneindex_from g_zone_sizes 0 n (push_bit b 1)) = 0 + of_nat j"
      "n \<le> g_zone_sizes ! j" "g_zone_sizes ! j AND (push_bit b 1 - 1) = 0"
    using zoneindex_from_found [of g_zone_sizes n "push_bit b 1" 0] by blast
  show thesis
  proof (rule that [of j])
    show "j < 15" using j(1) by (simp add: g_zone_sizes_def)
    show "2 ^ b dvd zsize j" unfolding zsize_def by (rule iffD1 [OF and_align j(4)]) (use assms(2) in simp)
  qed (use j in \<open>simp_all add: zoneindex_def zsize_def word_le_nat_alt\<close>)
qed

text \<open>A block is aligned as its length is.\<close>

lemma block_aligned:
  assumes ok: "slab_ok p" and a: "block_live p a" and c: "c \<le> 12" "2 ^ c dvd block_len p a"
  shows "2 ^ c dvd unat a"
proof -
  obtain fs R where inv: "heap_inv p fs R" using ok by (auto simp: slab_ok_def)
  note g = heap_invD(1) [OF inv]
  have h: "in_heap p a" "live_in (pgman_array p ! page_of p a) (page_off p a)" using a by (auto simp: block_live_def)
  have off: "2 ^ c dvd page_off p a"
    using h(2) c(2) by (cases "page_type (pgman_array p ! page_of p a)") (auto simp: live_in_def block_len_def)
  have u: "unat a = unat (heap_start p) + (4096 * page_of p a + page_off p a)"
    using block_addr(1) [OF g in_heap_addr(2,3) [OF g h(1)]] in_heap_addr(1) [OF g h(1)] by simp
  have "2 ^ c dvd (4096 :: nat)" using le_imp_power_dvd [OF c(1), of "2 :: nat"] by simp
  moreover have "4096 dvd unat (heap_start p)" using g by (auto simp: geometry_def)
  ultimately show ?thesis using off unfolding u by (meson dvd_add dvd_mult2 dvd_trans)
qed

subsection \<open>The calls\<close>

text \<open>What an allocation promises: a block that is new, large enough and aligned to \<open>2 ^ c\<close>, or nothing when there is no room.\<close>

definition allocated :: "mem_pool \<Rightarrow> u32 \<Rightarrow> nat \<Rightarrow> u32 option \<Rightarrow> mem_pool \<Rightarrow> bool" where
  "allocated p sz c q p' = (slab_ok p' \<and> (case q of
     None \<Rightarrow> same_rest p p' \<and> used_mem p' = used_mem p \<and> (sz = 0 \<or> 4096 * unat (page_num p) < unat sz \<or> no_row p ((unat sz + 4095) div 4096))
   | Some a \<Rightarrow> hands_out p a p' \<and> unat sz \<le> block_len p' a \<and> 2 ^ c dvd unat a \<and> used_mem p' = used_mem p + int (block_len p' a)))"

lemma pages_4: "(4 * ((s + 3) div 4) + 4095) div 4096 = (s + 4095) div (4096 :: nat)"
proof -
  have d: "a div 4096 = a div 4 div 1024" for a :: nat by (simp add: div_mult2_eq [symmetric])
  have "(4 * q + 4095) div 4 = q + 1023" for q :: nat by simp
  moreover have "(s + 4095) div 4 = (s + 3) div 4 + 1023" by simp
  ultimately show ?thesis by (simp add: d)
qed

lemma round_facts:
  fixes s n :: nat
  shows "0 < s \<Longrightarrow> 0 < 4 * ((s + 3) div 4)" "s \<le> 4 * ((s + 3) div 4)" "s \<le> 4096 * n \<Longrightarrow> 4 * ((s + 3) div 4) \<le> 4096 * n"
proof -
  assume "s \<le> 4096 * n"
  then have "(s + 3) div 4 \<le> (4096 * n + 3) div 4" by (intro div_le_mono) simp
  then show "4 * ((s + 3) div 4) \<le> 4096 * n" by simp
qed linarith+

lemma same_rest_refl [simp]: "same_rest p p"
  by (simp add: same_rest_def same_geometry_def)

lemma fhkmalloc_ok:
  assumes ok: "slab_ok p" and m: "module_id < FHMEM_TYPE_MAX" and b: "b \<le> 12"
  shows "\<exists>q p'. fhkmalloc module_id sz b p = Some (q, p') \<and> allocated p sz (max 2 (unat b)) q p'"
proof -
  obtain fs R where inv: "heap_inv p fs R" using ok by (auto simp: slab_ok_def)
  have N: "length (pgman_array p) = unat (page_num p)" "length (pgman_array p) < 65535" using heap_invD(5,6) [OF inv] by auto
  have i: "inited p" by (rule heap_invD(10) [OF inv])
  have pages: "unat (push_bit 12 (page_num p)) = 4096 * unat (page_num p)" using N by (simp add: push_bit_eq_mult unat_word_ariths)
  have b12: "unat b \<le> 12" using b by (simp add: word_le_nat_alt)
  define b' where "b' = (if b < 2 then 2 else b)"
  have ub: "unat b' = max 2 (unat b)" by (auto simp: b'_def word_less_nat_alt)
  show ?thesis
  proof (cases "sz = 0 \<or> sz > push_bit 12 (page_num p)")
    case True
    then have "fhkmalloc module_id sz b p = Some (None, p)" using m b i by (auto simp: fhkmalloc_def bug_if_def)
    then show ?thesis using True ok pages by (auto simp: allocated_def word_less_nat_alt)
  next
    case False
    then have s: "0 < unat sz" "unat sz \<le> 4096 * length (pgman_array p)" using pages N by (auto simp: unat_gt_0 word_le_nat_alt not_less)
    define n where "n = RT_ALIGN sz 4"
    have n: "unat n = 4 * ((unat sz + 3) div 4)" unfolding n_def by (rule align_4) (use s N in simp)
    have n1: "0 < unat n" "unat sz \<le> unat n" "unat n \<le> 4096 * length (pgman_array p)" "(unat n + 4095) div 4096 = (unat sz + 4095) div 4096"
      unfolding n by (rule round_facts(1) [OF s(1)] round_facts(2) round_facts(3) [OF s(2)] pages_4)+
    have r: "fhkmalloc module_id sz b p = malloc_r n b' p" using False m b i by (auto simp: fhkmalloc_def bug_if_def n_def b'_def)
    show ?thesis
    proof (cases "n > last g_zone_sizes \<or> b' = 12")
      case True
      obtain q p' where q: "malloc_r n b' p = Some (q, p')" "slab_ok p'" "case q of
           None \<Rightarrow> same_rest p p' \<and> no_row p ((unat n + 4095) div 4096)
         | Some a \<Rightarrow> hands_out p a p' \<and> block_len p' a = 4096 * ((unat n + 4095) div 4096)"
        using malloc_block_ok [OF inv True n1(1,3)] by blast
      have "2 ^ max 2 (unat b) dvd unat a" if a: "q = Some a" for a
      proof (rule block_aligned [OF q(2)])
        show "block_live p' a" using q(3) a by (simp add: hands_out_def)
        show "max 2 (unat b) \<le> 12" using b12 by simp
        then have "2 ^ max 2 (unat b) dvd (2 ^ 12 :: nat)" by (rule le_imp_power_dvd)
        then show "2 ^ max 2 (unat b) dvd block_len p' a" using q(3) a by simp
      qed
      moreover have "unat sz \<le> 4096 * ((unat sz + 4095) div 4096)" by linarith
      moreover have "used_mem p' = used_mem p + int (block_len p' a)" if a: "q = Some a" for a
      proof -
        have "unat (RT_ALIGN n 4096) = block_len p' a" using align_4096 [of n] n1(3) N q(3) a by simp
        then show ?thesis using malloc_block_used [OF q(1) [unfolded a] True] unfolding uint_nat by simp
      qed
      moreover have "used_mem p' = used_mem p" if "q = None" using malloc_block_none [OF q(1) [unfolded that] True] .
      ultimately show ?thesis using r q n1(4) by (cases q) (auto simp: allocated_def)
    next
      case False
      then have "b' \<noteq> 12" and c1: "unat n \<le> 2048" by (simp_all add: g_zone_sizes_def not_less word_le_nat_alt)
      then have "unat b' \<noteq> 12" using word_unat_eq_iff [of b' 12] by simp
      then have c2: "unat b' \<le> 11" using ub b12 by simp
      obtain z where z: "z < 15" "fst (zoneindex n (push_bit (unat b') 1)) = of_nat z" "unat n \<le> zsize z" "2 ^ unat b' dvd zsize z"
        using zone_for [OF c1 c2] by blast
      have uz: "unat (of_nat z :: u32) = z" using z(1) by simp
      have run: "malloc_r n b' p = alloc_trunk (of_nat z) p"
        using False z(1,2) uz by (auto simp: malloc_r_def Let_def split_def word_le_nat_alt)
      obtain q p' where q: "alloc_trunk (of_nat z) p = Some (q, p')" "slab_ok p'" "case q of
           None \<Rightarrow> same_rest p p' \<and> exhausted p z
         | Some a \<Rightarrow> hands_out p a p' \<and> block_len p' a = zsize z"
        using alloc_trunk_ok [OF inv, of "of_nat z", unfolded uz, OF z(1)] by blast
      have "2 ^ max 2 (unat b) dvd unat a" if a: "q = Some a" for a
        by (rule block_aligned [OF q(2)]) (use q(3) a z(4) ub b12 in \<open>auto simp: hands_out_def\<close>)
      moreover have "no_row p ((unat sz + 4095) div 4096)" if "exhausted p z"
      proof -
        have "(unat sz + 4095) div 4096 = 1" using s(1) n1(2) c1 by simp
        then show ?thesis using that by (auto simp: no_row_def exhausted_def)
      qed
      moreover have "used_mem p' = used_mem p + (if q = None then 0 else int (zsize z))"
        using alloc_trunk_used [OF q(1)] uz unat_zone_size [of "of_nat z"] by (simp add: uint_nat)
      ultimately show ?thesis using r run q n1(2) z(3) by (cases q) (auto simp: allocated_def)
    qed
  qed
qed

end
