(* ===== verification/Slab_Free.thy ===== *)
theory Slab_Free
  imports Slab_Calls
begin

unbundle bit_operations_syntax

text \<open>
  Release in the system heap: a block that is handed out is taken back and the invariant is kept; anything else stops the
  machine.
\<close>

subsection \<open>Pages\<close>

lemma page_free_set:
  assumes ok: "pages_ok p fs" and g: "geometry p" and n: "n \<noteq> 0" and i: "i + unat n \<le> unat (page_num p)"
    and d: "{i..<i + unat n} \<inter> run_pages fs = {}"
  shows "\<exists>q gs. rt_page_free_nolock (block_addr p i 0) n p = Some q \<and> pages_ok q gs \<and> rest_of q = rest_of p \<and>
    run_pages gs = run_pages fs \<union> {i..<i + unat n}"
proof -
  have p: "pool_sized p" "free_from p (slot_get List_Head p) fs" "runs_ok 0 (unat (page_num p)) fs" "slot_below List_Head 0 p"
    using ok by (simp_all add: pages_ok_def slot_below_def)
  have N: "unat (page_num p) < 65535" using p(1) by (simp add: pool_sized_def)
  have nn: "0 < unat n" "0 < n" using n by (simp_all add: unat_gt_0 word_gt_0)
  have ip: "i < unat (page_num p)" "(0::nat) < 4096" "i < 65535" using i nn(1) N by simp_all
  define f where "f = addr_2_pgidx p (block_addr p i 0)"
  have f: "unat f = i" using block_addr(3) [OF g ip(1,2)] by (simp add: f_def)
  have c: "\<not> (block_addr p i 0 AND 4095 \<noteq> 0 \<or> block_addr p i 0 < heap_start p \<or> block_addr p i 0 \<ge> heap_end p \<or> n > page_num p - f)"
  proof -
    note a = block_addr [OF g ip(1,2)]
    have "block_addr p i 0 AND 4095 = 0" using offset_in_page [OF g a(2)] a(4) by (simp add: unat_eq_zero)
    moreover have "unat (page_num p - f) = unat (page_num p) - i" using f ip by (simp add: unat_sub word_le_nat_alt)
    then have "\<not> n > page_num p - f" using i by (simp add: word_less_nat_alt)
    ultimately show ?thesis using a(2) by (auto simp: in_heap_def)
  qed
  have b: "before (- 1) 0" by (simp add: before_def)
  have "0 \<le> unat f" "unat f + unat n \<le> unat (page_num p)" using f i by simp_all
  note run = page_free_run [OF p b nn(2) this] and sets = give_run_pages [OF p(3) nn(1), of i]
  obtain gs where gs: "give_run i (unat n) fs = Some gs" "run_pages gs = run_pages fs \<union> {i..<i + unat n}" "runs_ok 0 (unat (page_num p)) gs"
    using sets i d by (cases "give_run i (unat n) fs") auto
  obtain q where q: "page_free_loop f n List_Head (- 1) p = Some q" "free_from q (slot_get List_Head q) gs" "kept List_Head 0 p q"
    using run gs(1) f by auto
  note k = kept_fields [OF q(3)]
  have "rt_page_free_nolock (block_addr p i 0) n p = Some q"
    using c q(1) unfolding rt_page_free_nolock_def Let_def f_def [symmetric] by (simp add: bug_if_def)
  moreover have "pages_ok q gs" using q(2) k p(1) gs(3) by (simp add: pages_ok_def pool_sized_def)
  ultimately show ?thesis using k(6) gs(2) by blast
qed

subsection \<open>The effect on the blocks\<close>

definition takes_back :: "mem_pool \<Rightarrow> u32 \<Rightarrow> mem_pool \<Rightarrow> bool" where
  "takes_back p a p' = (same_geometry p p' \<and> (\<forall>b. block_live p' b = (block_live p b \<and> b \<noteq> a)) \<and>
     (\<forall>b. block_live p' b \<longrightarrow> block_len p' b = block_len p b))"

lemma takes_backI:
  assumes g: "geometry p" "same_geometry p p'" and o: "others i (pgman_array p) (pgman_array p')"
    and i: "i < unat (page_num p)" "off < 4096"
    and l: "\<And>x. live_in (pgman_array p' ! i) x = (live_in (pgman_array p ! i) x \<and> x \<noteq> off)"
    and n: "\<And>x. live_in (pgman_array p' ! i) x \<Longrightarrow> page_type (pgman_array p ! i) = PAGE_TYPE_ZONE \<and>
      page_type (pgman_array p' ! i) = PAGE_TYPE_ZONE \<and> zone_index (pgman_array p' ! i) = zone_index (pgman_array p ! i)"
  shows "takes_back p (block_addr p i off) p'"
proof -
  let ?a = "block_addr p i off"
  note a = block_addr [OF g(1) i]
  note s = same_geometry_fields [OF g(2)]
  have "block_live p' b = (block_live p b \<and> b \<noteq> ?a)" for b
  proof (cases "page_of p b = i \<and> in_heap p b")
    case True
    then show ?thesis using live_here [OF g i] l by (simp add: block_live_def s)
  next
    case False
    then have "b \<noteq> ?a" using a by auto
    then show ?thesis using live_elsewhere(1) [OF g(2) o, of b] False by (cases "page_of p b = i") (auto simp: block_live_def s)
  qed
  moreover have "block_len p' b = block_len p b" if b: "block_live p' b" for b
  proof (cases "page_of p b = i")
    case True
    then have "live_in (pgman_array p' ! i) (page_off p b)" using b by (simp add: block_live_def s)
    then show ?thesis using n True by (simp add: block_len_def s)
  qed (rule live_elsewhere(2) [OF g(2) o])
  ultimately show ?thesis using g(2) by (simp add: takes_back_def)
qed

lemma takes_back_same: "\<lbrakk>same_rest q p'; takes_back p a q\<rbrakk> \<Longrightarrow> takes_back p a p'"
  using block_same [of q p'] unfolding takes_back_def by (auto simp: same_rest_def same_geometry_def)

text \<open>Steps that leave the page allocator alone.\<close>

definition relinked :: "nat \<Rightarrow> mem_pool \<Rightarrow> mem_pool \<Rightarrow> bool" where
  "relinked i p q = (same_geometry p q \<and> page_alloctor q = page_alloctor p \<and> alloctor_list q = alloctor_list p \<and>
     length (zone_alloc_list q) = length (zone_alloc_list p) \<and> others i (pgman_array p) (pgman_array q))"

lemma relinked_trans: "\<lbrakk>relinked i p q; relinked i q r\<rbrakk> \<Longrightarrow> relinked i p r"
  using others_trans [of i "pgman_array p" "pgman_array q" "pgman_array r"] by (auto simp: relinked_def same_geometry_def)

lemma relinkedD:
  assumes "relinked i p q"
  shows "same_geometry p q" "length (zone_alloc_list q) = length (zone_alloc_list p)" "others i (pgman_array p) (pgman_array q)"
    "length (pgman_array q) = length (pgman_array p)" "pages_ok q fs = pages_ok p fs" "page_num q = page_num p"
  using assms pages_ok_same [of q p fs] by (auto simp: relinked_def others_def same_geometry_def)

text \<open>Descriptors, first pages of the lists and the count of the empty zones may change.\<close>

lemma relinkedI:
  "\<lbrakk>others i (pgman_array p) G; length L = length (zone_alloc_list p)\<rbrakk> \<Longrightarrow>
   relinked i p (p\<lparr>pgman_array := G, zone_alloc_list := L, zone_cache_list := c, zone_cache_count := k\<rparr>)"
  by (simp add: relinked_def same_geometry_def)

subsection \<open>A block of pages\<close>

lemma free_block_ok:
  assumes inv: "heap_inv p fs R" and i: "i < length (pgman_array p)" and t: "page_type (pgman_array p ! i) = PAGE_TYPE_PAGE"
  shows "\<exists>p'. free_block (block_addr p i 0) (of_nat i) (pgman_array p ! i) p = Some p' \<and> slab_ok p' \<and> takes_back p (block_addr p i 0) p'"
proof -
  let ?G = "pgman_array p" and ?m = "pgman_array p ! i" and ?a = "block_addr p i 0"
  have N: "length ?G = unat (page_num p)" "length ?G < 65535" using heap_invD(5,6) [OF inv] by auto
  note g = heap_invD(1) [OF inv]
  have ok: "0 < pv ?G i" "i + pv ?G i \<le> length ?G" using heap_invD(8) [OF inv i] t by (simp_all add: page_ok_def)
  have ip: "i < unat (page_num p)" "(0::nat) < 4096" "i < 65535" using i N by simp_all
  define n where "n = (ucast (page_prev ?m) :: u32)"
  have n: "unat n = pv ?G i" "n \<noteq> 0" using ok(1) by (auto simp: n_def pv_def) (metis unat_fields(1) unat_eq_zero less_irrefl)
  have sp: "span ?G i = {i..<i + pv ?G i}" using t by (simp add: span_def)
  then have d: "{i..<i + unat n} \<inter> run_pages fs = {}" using i n(1) by (auto simp: heap_invD(9) [OF inv] owned_def)
  have in_num: "i + unat n \<le> unat (page_num p)" using ok(2) n(1) N by simp
  obtain q gs where q: "rt_page_free_nolock ?a n p = Some q" "pages_ok q gs" "rest_of q = rest_of p" "run_pages gs = run_pages fs \<union> {i..<i + unat n}"
    using page_free_set [OF heap_invD(7) [OF inv] g n(2) in_num d] by blast
  have e: "q = p\<lparr>page_alloctor := page_alloctor q, alloctor_list := alloctor_list q\<rparr>" by (rule rest_of_eq [OF q(3)])
  have f: "pgman_array q = ?G" "zone_alloc_list q = zone_alloc_list p" "zone_cache_list q = zone_cache_list p" "same_geometry p q"
    by (subst e, simp add: same_geometry_def)+
  have c: "\<not> (?a AND 4095 \<noteq> 0 \<or> n = 0 \<or> n > page_num p - of_nat i)"
  proof -
    note a = block_addr [OF g ip(1,2)]
    have "?a AND 4095 = 0" using offset_in_page [OF g a(2)] a(4) by (simp add: unat_eq_zero)
    moreover have "unat (page_num p - of_nat i) = unat (page_num p) - i" using ip by (simp add: unat_sub word_le_nat_alt)
    then have "\<not> n > page_num p - of_nat i" using in_num by (simp add: word_less_nat_alt)
    ultimately show ?thesis using n(2) by simp
  qed
  define m where "m = ?m\<lparr>page_type := PAGE_TYPE_FREE\<rparr>"
  define r where "r = q\<lparr>pgman_array := ?G[i := m]\<rparr>"
  define r' where "r' = (let k = uint (push_bit 12 n) in r\<lparr>block_used_bytes := block_used_bytes r - k, used_mem := used_mem r - k\<rparr>)"
  have run: "free_block ?a (of_nat i) ?m p = Some r'"
    unfolding free_block_def Let_def n_def [symmetric] using c q(1) f(1) i ip(3) by (simp add: bug_if_def r_def r'_def m_def Let_def)
  have H: "pgman_array r = ?G[i := m]" "pgman_array r ! i = m" using i by (simp_all add: r_def)
  have mt: "page_type m = PAGE_TYPE_FREE" "cls m = None" by (simp_all add: m_def cls_def)
  have o: "others i ?G (pgman_array r)" unfolding H(1) by (rule others_own)
  have gr: "same_geometry p r" using f(4) by (simp add: r_def same_geometry_def)
  have iH: "page_ok (pgman_array r) i" using mt by (simp add: page_ok_def H(2))
  have spr: "span (pgman_array r) i = {}" using mt by (simp add: span_def H(2))
  have heads: "heads r = heads p" using f by (simp add: heads_def fun_eq_iff r_def)
  have ci: "cls (?G ! i) = None" using t by (simp add: cls_def)
  then have "(\<lambda>j. cls (?G ! j))(i := cls (pgman_array r ! i)) = (\<lambda>j. cls (?G ! j))" using mt(2) H(2) by (auto simp: fun_eq_iff)
  moreover have "rings_ok (\<lambda>j. cls (?G ! j)) (pgman_array r) (heads r) R" unfolding H(1) heads
    by (rule rings_own [OF heap_invD(4) [OF inv]]) (use ci in simp)
  ultimately have rr: "rings_ok ((\<lambda>j. cls (?G ! j))(i := cls (pgman_array r ! i))) (pgman_array r) (heads r) R" by simp
  have pk: "pages_ok r gs" using q(2) pages_ok_same [of r q gs] by (simp add: r_def)
  have "heap_inv r gs R"
    by (rule heap_step [OF inv gr pk _ o i iH _ _ rr]) (use sp spr q(4) n(1) f(2) heap_invD(3) [OF inv] in \<open>auto simp: r_def\<close>)
  moreover have "takes_back p ?a r"
  proof (rule takes_backI [OF g gr o ip(1,2)])
    show "live_in (pgman_array r ! i) x = (live_in (?G ! i) x \<and> x \<noteq> 0)" for x using t mt unfolding H(2) by (auto simp: live_in_def)
  qed (use mt in \<open>simp_all add: live_in_def H(2)\<close>)
  moreover have st: "same_rest r r'" by (simp add: r'_def same_rest_def same_geometry_def Let_def)
  ultimately show ?thesis using run slab_ok_same [OF st] takes_back_same [OF st] by (auto simp: slab_ok_def)
qed

subsection \<open>A trunk of a zone\<close>

text \<open>The zone was full: it joins the list of its class.\<close>

lemma relist_ok:
  fixes zi :: u32
  defines "z \<equiv> unat zi"
  assumes inv: "heap_inv p fs R" and i: "i < length (pgman_array p)" and z: "z < 15"
    and l: "nx (pgman_array p) i = i" "pv (pgman_array p) i = i" and C: "cls (pgman_array p ! i) = None"
  shows "\<exists>q R'. relist_zone zi (of_nat i) (pgman_array p ! i) p = Some q \<and> relinked i p q \<and>
    core (pgman_array q ! i) = core (pgman_array p ! i) \<and> rings_ok ((\<lambda>j. cls (pgman_array p ! j))(i := Some z)) (pgman_array q) (heads q) R'"
proof -
  let ?G = "pgman_array p" and ?m = "pgman_array p ! i" and ?u = "of_nat i :: u32"
  have N: "length ?G = unat (page_num p)" "length ?G < 65535" using heap_invD(5,6) [OF inv] by auto
  note r = rings_okD [OF heap_invD(4) [OF inv], of z]
  have z16: "z < 16" using z by simp
  have u: "unat ?u = i" "uint ?u = int i" using i N(2) by simp_all
  have e: "(ucast (page_prev ?m) :: u32) = ?u" "(ucast (page_next ?m) :: u32) = ?u" using l u(1) by (simp_all add: word_unat_eq_iff nx_def pv_def)
  have hd: "zone_alloc_list p ! z = first (R z)" using r(3) [OF z16] z by (simp add: heads_def)
  have L: "length (zone_alloc_list p) = 15" by (rule heap_invD(3) [OF inv])
  have iR: "i \<notin> set (R z)" using r(2) [OF z16] C by auto
  show ?thesis
  proof (cases "R z")
    case Nil
    define q where "q = set_alloc_list zi (int i) p"
    have run: "relist_zone zi ?u ?m p = Some q"
      using hd Nil e u(2) unfolding relist_zone_def Let_def z_def [symmetric] by (simp add: bug_if_def q_def)
    have q: "pgman_array q = ?G" "relinked i p q" "heads q = (heads p)(z := first [i])"
      using z L by (auto simp: q_def set_alloc_list_def relinked_def same_geometry_def heads_def fun_eq_iff nth_list_update z_def)
    have "rings_ok ((\<lambda>j. cls (?G ! j))(i := Some z)) ?G (heads q) (R(z := [i]))"
      by (rule rings_insert [OF heap_invD(4) [OF inv] z16 C i refl _ _ refl q(3)]) (simp_all add: ring_single i l Nil)
    then show ?thesis using run q by auto
  next
    case (Cons h ys)
    have ring: "pgring ?G (h # ys)" using r(1) [OF z16] Cons by simp
    have "h \<in> set (R z)" using Cons by simp
    then have h: "h < length ?G" "cls (?G ! h) = Some z" "h \<noteq> i" using C unfolding r(2) [OF z16] by auto
    let ?h = "of_nat h :: u32"
    have uh: "unat ?h = h" using h(1) N(2) by simp
    have mh: "page_type (?G ! h) = PAGE_TYPE_ZONE" "unat (zone_index (?G ! h)) = z" using cls_zone [OF h(2) z] by auto
    have v: "verify_pglist ?h PAGE_TYPE_ZONE zi p = Some ()" by (rule verify_ring [OF ring]) (use uh mh N z_def in auto)
    have pg: "pgm_at ?h p = Some (?G ! h)" using uh h(1) by simp
    define s where "s = hd (ys @ [h])"
    have s: "nx ?G h = s" "s \<in> set (h # ys)" using ring_next_first [OF ring] by (simp_all add: s_def) (cases ys; simp add: s_def)
    have sl: "s < length ?G" using ring_bound [OF ring s(2)] .
    have us: "unat (ucast (page_next (?G ! h)) :: u32) = s" using s(1) by (simp add: nx_def)
    define q where "q = p\<lparr>pgman_array := joined h i s ?G\<rparr>"
    have run: "relist_zone zi ?u ?m p = Some q"
      unfolding relist_zone_def Let_def z_def [symmetric] hd Cons using e v pg u uh us i h(1) sl
      by (simp add: bug_if_def q_def joined_def)
    have cs: "cls (?G ! s) \<noteq> None" using s(2) r(2) [OF z16] Cons by auto
    have o: "others i ?G (pgman_array q)" using others_joined [of ?G h s i] h(2) cs by (simp add: q_def)
    have heads: "heads q = (heads p)(z := first (h # i # ys))" using hd Cons z by (auto simp: q_def heads_def fun_eq_iff)
    have rg: "pgring (joined h i s ?G) (h # i # ys)"
      unfolding s_def by (rule join_second [OF ring]) (use iR Cons i N(2) in auto)
    have "rings_ok ((\<lambda>j. cls (?G ! j))(i := Some z)) (joined h i s ?G) (heads q) (R(z := h # i # ys))"
    proof (rule rings_insert [OF heap_invD(4) [OF inv] z16 C i _ rg _ _ heads])
      show "set (h # i # ys) = insert i (set (R z))" by (auto simp: Cons)
      fix j assume "j \<noteq> i" "j \<notin> set (R z)"
      then show "joined h i s ?G ! j = ?G ! j" using s(2) by (intro joined_away) (auto simp: Cons)
    qed simp
    moreover have "relinked i p q" using o by (simp add: relinked_def q_def same_geometry_def)
    ultimately show ?thesis using run by (auto simp: q_def)
  qed
qed

text \<open>The zone becomes empty: it leaves the list of its class.\<close>

lemma unlist_ok:
  fixes zi :: u32
  defines "z \<equiv> unat zi"
  assumes inv: "heap_inv p fs R" and i: "i < length (pgman_array p)" and z: "z < 15" and C: "cls (pgman_array p ! i) = Some z"
  shows "\<exists>q R'. unlist_zone zi (of_nat i) (pgman_array p ! i) p = Some q \<and> relinked i p q \<and> zone_cache_list q = zone_cache_list p \<and>
    zone_cache_count q = zone_cache_count p \<and> R' 15 = R 15 \<and>
    core (pgman_array q ! i) = core (pgman_array p ! i) \<and> rings_ok ((\<lambda>j. cls (pgman_array p ! j))(i := None)) (pgman_array q) (heads q) R'"
proof -
  let ?G = "pgman_array p" and ?m = "pgman_array p ! i" and ?u = "of_nat i :: u32"
  have N: "length ?G = unat (page_num p)" "length ?G < 65535" using heap_invD(5,6) [OF inv] by auto
  note r = rings_okD [OF heap_invD(4) [OF inv], of z]
  have z16: "z < 16" using z by simp
  have u: "unat ?u = i" "uint ?u = int i" using i N(2) by simp_all
  have hd: "zone_alloc_list p ! z = first (R z)" using r(3) [OF z16] z by (simp add: heads_def)
  have L: "length (zone_alloc_list p) = 15" by (rule heap_invD(3) [OF inv])
  have iR: "i \<in> set (R z)" using r(2) [OF z16] C i by auto
  have ring: "pgring ?G (R z)" by (rule r(1) [OF z16])
  note l = ring_links [OF ring iR]
  have b: "nx ?G i < length ?G" "pv ?G i < length ?G" using ring_bound [OF ring] l(1,2) by auto
  let ?n = "ucast (page_next ?m) :: u32" and ?p = "ucast (page_prev ?m) :: u32"
  have np: "unat ?n = nx ?G i" "unat ?p = pv ?G i" "uint ?n = int (nx ?G i)" by (simp_all add: nx_def pv_def uint_field)
  have bk: "(ucast (page_next (?G ! pv ?G i)) :: u32) = ?u" "(ucast (page_prev (?G ! nx ?G i)) :: u32) = ?u"
    using l(3,4) u(1) by (simp_all add: word_unat_eq_iff) (simp_all add: nx_def pv_def)
  have pg: "pgm_at ?p p = Some (?G ! pv ?G i)" "pgm_at ?n p = Some (?G ! nx ?G i)" using np b by simp_all
  have ne: "R z \<noteq> []" using iR by auto
  have bounds: "\<not> (first (R z) < 0 \<or> ?p \<ge> page_num p \<or> ?n \<ge> page_num p)" using np b N ne by (simp add: word_le_nat_alt not_less)
  have link: "?u = ?n \<longleftrightarrow> R z = [i]" using l(6) np(1) u(1) by (metis word_unat_eq_iff)
  define H where "H = (if R z = [i] then ?G else unlinked i ?G)"
  define q where "q = p\<lparr>pgman_array := H, zone_alloc_list := (zone_alloc_list p)[z := first (remove1 i (R z))]\<rparr>"
  have run: "unlist_zone zi ?u ?m p = Some q"
  proof (cases "R z = [i]")
    case True
    then show ?thesis using link bounds pg bk u(2)
      unfolding unlist_zone_def Let_def z_def [symmetric] hd by (simp add: bug_if_def q_def H_def set_alloc_list_def z_def)
  next
    case False
    have un: "pg_unlink ?p ?n p = Some (p\<lparr>pgman_array := unlinked i ?G\<rparr>)"
      using np b by (simp add: pg_unlink_def unlinked_def)
    have "(if first (R z) = int i then set_alloc_list zi (int (nx ?G i)) (p\<lparr>pgman_array := unlinked i ?G\<rparr>)
        else p\<lparr>pgman_array := unlinked i ?G\<rparr>) = q"
    proof (cases "R z")
      case (Cons h ys)
      show ?thesis
      proof (cases "h = i")
        case True
        then have "first ys = int (nx ?G i)" using ring_next_first [of ?G i ys] ring Cons False by (cases ys) auto
        then show ?thesis using True Cons False by (simp add: q_def H_def set_alloc_list_def z_def)
      next
        case False
        then have "(zone_alloc_list p)[z := first (remove1 i (R z))] = zone_alloc_list p" using hd Cons by (metis first_simps(2) list_update_id remove1.simps(2))
        then show ?thesis using False Cons by (simp add: q_def H_def)
      qed
    qed (use ne in simp)
    then show ?thesis using link bounds pg bk u(2) False un np(3)
      unfolding unlist_zone_def Let_def z_def [symmetric] hd by (cases "first (R z) = int i") (simp_all add: bug_if_def)
  qed
  have o: "others i ?G H"
  proof -
    have "others i ?G (unlinked i ?G)" if "R z \<noteq> [i]"
      by (rule others_unlinked [OF ring iR that]) (use r(2) [OF z16] in auto)
    then show ?thesis by (simp add: H_def)
  qed
  have heads: "heads q = (heads p)(z := first (remove1 i (R z)))"
    using z L by (auto simp: q_def heads_def fun_eq_iff nth_list_update)
  have "rings_ok ((\<lambda>j. cls (?G ! j))(i := None)) (pgman_array q) (heads q) (R(z := remove1 i (R z)))"
    by (rule rings_remove [OF heap_invD(4) [OF inv] z16 iR]) (use N(2) heads in \<open>auto simp: q_def H_def\<close>)
  moreover have "relinked i p q" using o by (simp add: relinked_def q_def same_geometry_def)
  moreover have "core (pgman_array q ! i) = core ?m" by (simp add: q_def H_def)
  ultimately show ?thesis using run z by (intro exI [of _ q] exI [of _ "R(z := remove1 i (R z))"]) (simp add: q_def)
qed

text \<open>The empty zone is kept.\<close>

lemma upd_commute: "upd_prev c v (upd_next l w G) = upd_next l w (upd_prev c v G)"
proof (cases "l = c")
  case True
  then show ?thesis by (cases "c < length G"; cases "G ! c") (simp_all add: upd_next_def upd_prev_def list_update_beyond)
next
  case False
  then show ?thesis by (simp add: upd_next_def upd_prev_def list_update_swap)
qed

lemma retire_cache_ok:
  assumes r: "rings_ok D (pgman_array p) (heads p) R" and D: "D i = None" and i: "i < length (pgman_array p)"
    and N: "length (pgman_array p) = unat (page_num p)" "length (pgman_array p) < 65535"
    and m: "\<And>j. j \<in> set (R 15) \<Longrightarrow> page_type (pgman_array p ! j) = PAGE_TYPE_CACHE \<and> zone_index (pgman_array p ! j) = 0 \<and> j \<noteq> i"
    and c: "zone_cache_count p < 8"
  shows "\<exists>q R'. retire_zone a (of_nat i) p = Some q \<and> relinked i p q \<and> page_type (pgman_array q ! i) = PAGE_TYPE_CACHE \<and>
    zone_index (pgman_array q ! i) = 0 \<and> free_trunks (pgman_array q ! i) = free_trunks (pgman_array p ! i) \<and>
    trunk_bitmap (pgman_array q ! i) = trunk_bitmap (pgman_array p ! i) \<and> rings_ok (D(i := Some 15)) (pgman_array q) (heads q) R'"
proof -
  let ?G = "pgman_array p" and ?u = "of_nat i :: u32"
  have k: "(15 :: nat) < 16" by simp
  note r15 = rings_okD [OF r k]
  have u: "unat ?u = i" "uint ?u = int i" using i N(2) by simp_all
  have hd: "zone_cache_list p = first (R 15)" using r15(3) by (simp add: heads_def)
  have iR: "i \<notin> set (R 15)" using m by blast
  define own where "own = (\<lambda>m. m\<lparr>zone_index := 0, page_type := PAGE_TYPE_CACHE\<rparr> :: page_man)"
  have fin: "\<exists>q R'. retire_zone a ?u p = Some q \<and> relinked i p q \<and> page_type (pgman_array q ! i) = PAGE_TYPE_CACHE \<and>
      zone_index (pgman_array q ! i) = 0 \<and> free_trunks (pgman_array q ! i) = free_trunks (?G ! i) \<and>
      trunk_bitmap (pgman_array q ! i) = trunk_bitmap (?G ! i) \<and> rings_ok (D(i := Some 15)) (pgman_array q) (heads q) R'"
    if H: "length H = length ?G" "others i ?G H" "core (H ! i) = core (?G ! i)" "pgring H xs" "set xs = insert i (set (R 15))"
      "\<And>j. j \<noteq> i \<Longrightarrow> j \<notin> set (R 15) \<Longrightarrow> H ! j = ?G ! j"
      and run: "retire_zone a ?u p = do {
        pool \<leftarrow> pgm_upd ?u own (p\<lparr>pgman_array := H, zone_cache_list := first xs\<rparr>);
        Some (pool\<lparr>zone_cache_count := zone_cache_count pool + 1\<rparr>) }" for H xs
  proof -
    define q where "q = p\<lparr>pgman_array := H[i := own (H ! i)], zone_cache_list := first xs, zone_cache_count := zone_cache_count p + 1\<rparr>"
    have run': "retire_zone a ?u p = Some q" unfolding run using u(1) i H(1) by (simp add: q_def)
    have heads: "heads q = (heads p)(15 := first xs)" by (auto simp: q_def heads_def fun_eq_iff)
    have "rings_ok (D(i := Some 15)) H (heads q) (R(15 := xs))"
      by (rule rings_insert [OF r k D i H(1,4,5,6) heads])
    then have "rings_ok (D(i := Some 15)) (pgman_array q) (heads q) (R(15 := xs))"
      using rings_own [of _ H "heads q" "R(15 := xs)" i "own (H ! i)"] by (simp add: q_def own_def)
    moreover have "others i ?G (pgman_array q)" using others_trans [OF H(2) others_own] by (simp add: q_def)
    then have "relinked i p q" by (simp add: relinked_def q_def same_geometry_def)
    moreover have "pgman_array q ! i = own (H ! i)" using i H(1) by (simp add: q_def)
    ultimately show ?thesis using run' H(3) by (intro exI [of _ q] exI [of _ "R(15 := xs)"]) (simp add: own_def core_def)
  qed
  show ?thesis
  proof (cases "R 15")
    case Nil
    have run: "retire_zone a ?u p = do {
        pool \<leftarrow> pgm_upd ?u own (p\<lparr>pgman_array := ?G[i := alone i (?G ! i)], zone_cache_list := first [i]\<rparr>);
        Some (pool\<lparr>zone_cache_count := zone_cache_count pool + 1\<rparr>) }"
      using c hd Nil u i links_alone [of i ?G] by (simp add: retire_zone_def own_def)
    have "take_bit 20 i = i" using i N(2) by (simp add: take_bit_nat_eq_self_iff)
    then have al: "pgring (?G[i := alone i (?G ! i)]) [i]" using i by (simp add: ring_single nx_def pv_def unsigned_of_nat)
    show ?thesis by (rule fin [OF _ _ _ al _ _ run]) (use i Nil in \<open>simp_all add: core_def\<close>)
  next
    case (Cons h ys)
    have ring: "pgring ?G (h # ys)" using r15(1) Cons by simp
    have hm: "h \<in> set (R 15)" using Cons by simp
    then have h: "h < length ?G" using ring_bound [OF r15(1)] by simp
    let ?h = "of_nat h :: u32"
    have uh: "unat ?h = h" using h N(2) by simp
    have v: "verify_pglist ?h PAGE_TYPE_CACHE 0 p = Some ()" by (rule verify_ring [OF ring]) (use uh m [OF hm] N in auto)
    have pg: "pgm_at ?h p = Some (?G ! h)" using uh h by simp
    define l where "l = last (h # ys)"
    have l: "pv ?G h = l" "l \<in> set (R 15)" using ring_prev_first [OF ring] last_in_set [of "h # ys"] by (simp_all add: l_def Cons)
    have ll: "l < length ?G" using ring_bound [OF r15(1) l(2)] .
    have ul: "unat (ucast (page_prev (?G ! h)) :: u32) = l" using l(1) by (simp add: pv_def)
    have H: "upd_prev h i (upd_next l i (upd_next i h (upd_prev i l ?G))) = joined l i h ?G" by (simp add: joined_def upd_commute)
    have run: "retire_zone a ?u p = do {
        pool \<leftarrow> pgm_upd ?u own (p\<lparr>pgman_array := joined l i h ?G, zone_cache_list := first (h # ys @ [i])\<rparr>);
        Some (pool\<lparr>zone_cache_count := zone_cache_count pool + 1\<rparr>) }"
    proof -
      have e: "p\<lparr>pgman_array := joined l i h ?G\<rparr> = p\<lparr>pgman_array := joined l i h ?G, zone_cache_list := first (h # ys @ [i])\<rparr>"
        using hd Cons by simp
      have "(if 0 \<le> zone_cache_list p then do {
                    _ \<leftarrow> verify_pglist (of_int (zone_cache_list p)) PAGE_TYPE_CACHE 0 p;
                    hm \<leftarrow> pgm_at (of_int (zone_cache_list p)) p;
                    pool \<leftarrow> set_page_prev ?u (ucast (page_prev hm)) p;
                    pool \<leftarrow> set_page_next ?u (of_int (zone_cache_list p)) pool;
                    pool \<leftarrow> set_page_next (ucast (page_prev hm)) ?u pool;
                    set_page_prev (of_int (zone_cache_list p)) ?u pool }
                  else do {
                    pool \<leftarrow> set_page_prev ?u ?u p;
                    pool \<leftarrow> set_page_next ?u ?u pool;
                    Some (pool\<lparr>zone_cache_list := uint ?u\<rparr>) }) = Some (p\<lparr>pgman_array := joined l i h ?G\<rparr>)"
        using hd Cons v pg u uh ul i h ll H by simp
      then show ?thesis using c unfolding retire_zone_def Let_def e [symmetric] own_def by (simp only: bind.bind_lunit if_True)
    qed
    have iR': "i \<notin> set (h # ys)" using iR Cons by simp
    have "pgring (joined l i h ?G) (h # ys @ [i])" unfolding l_def by (rule join_last [OF ring iR' i]) (use N(2) in simp)
    moreover have "cls (?G ! l) \<noteq> None" "cls (?G ! h) \<noteq> None" using m [OF l(2)] m [OF hm] by (simp_all add: cls_def)
    then have "others i ?G (joined l i h ?G)" by (rule others_joined)
    moreover have "joined l i h ?G ! j = ?G ! j" if "j \<noteq> i" "j \<notin> set (R 15)" for j
      by (rule joined_away) (use that l(2) hm in auto)
    moreover have "set (h # ys @ [i]) = insert i (set (R 15))" by (auto simp: Cons)
    ultimately show ?thesis using fin [OF _ _ _ _ _ _ run] by simp
  qed
qed

text \<open>The last update of the descriptor, after the lists have changed.\<close>

lemma free_trunk_finish:
  assumes inv: "heap_inv p fs R" and i: "i < length (pgman_array p)" and t: "page_type (pgman_array p ! i) = PAGE_TYPE_ZONE"
    and g: "same_geometry p p2" "length (zone_alloc_list p2) = 15" "others i (pgman_array p) (pgman_array p2)" "pages_ok p2 gs"
    and l: "page_next m = page_next (pgman_array p2 ! i)" "page_prev m = page_prev (pgman_array p2 ! i)"
    and ok: "page_ok ((pgman_array p2)[i := m]) i" and s: "span ((pgman_array p2)[i := m]) i = S" "S \<subseteq> {i}" "run_pages gs = (run_pages fs \<union> {i}) - S"
    and r: "rings_ok ((\<lambda>j. cls (pgman_array p ! j))(i := cls m)) (pgman_array p2) (heads p2) R'"
    and off: "off < 4096" and v: "\<And>x. live_in m x = (live_in (pgman_array p ! i) x \<and> x \<noteq> off)"
    and z: "\<And>x. live_in m x \<Longrightarrow> page_type m = PAGE_TYPE_ZONE \<and> zone_index m = zone_index (pgman_array p ! i)"
    and q: "q = p2\<lparr>pgman_array := (pgman_array p2)[i := m]\<rparr>"
  shows "slab_ok q \<and> takes_back p (block_addr p i off) q"
proof -
  let ?G = "pgman_array p"
  have i2: "i < length (pgman_array p2)" using i g(3) by (simp add: others_def)
  have H: "pgman_array q = (pgman_array p2)[i := m]" "pgman_array q ! i = m" using i2 by (simp_all add: q)
  have o: "others i ?G (pgman_array q)" unfolding H(1) by (rule others_trans [OF g(3) others_own])
  have gq: "same_geometry p q" using g(1) by (simp add: q same_geometry_def)
  have pk: "pages_ok q gs" using g(4) pages_ok_same [of q p2 gs] by (simp add: q)
  have sp: "span ?G i = {i}" using t by (simp add: span_def)
  have heads: "heads q = heads p2" by (simp add: heads_def fun_eq_iff q)
  have "rings_ok ((\<lambda>j. cls (?G ! j))(i := cls m)) ((pgman_array p2)[i := m]) (heads p2) R'" by (rule rings_own [OF r]) (use l in simp)
  then have rr: "rings_ok ((\<lambda>j. cls (?G ! j))(i := cls (pgman_array q ! i))) (pgman_array q) (heads q) R'" unfolding H(2) unfolding H(1) heads .
  have "heap_inv q gs R'"
    by (rule heap_step [OF inv gq pk _ o i _ _ _ rr]) (use ok s sp g(2) in \<open>simp_all add: H(1)\<close>, auto simp: q)
  moreover have "takes_back p (block_addr p i off) q"
    by (rule takes_backI [OF heap_invD(1) [OF inv] gq o _ off]) (use v z t i heap_invD(5) [OF inv] in \<open>auto simp: H(2)\<close>)
  ultimately show ?thesis by (auto simp: slab_ok_def)
qed

text \<open>The numbers the code computes from the address.\<close>

lemma trunk_numbers:
  assumes g: "geometry p" and i: "i < unat (page_num p)" and z: "z < 15" and k: "k < ntrunks z" and zi: "unat zi = z"
  shows "unat ((block_addr p i (k * zsize z) AND 4095) div zone_size zi) = k" "k * zsize z < 4096"
    "(block_addr p i (k * zsize z) AND 4095) div zone_size zi * zone_size zi = block_addr p i (k * zsize z) AND 4095"
proof -
  show off: "k * zsize z < 4096" using trunk_in_page [OF z k] by simp
  note a = block_addr [OF g i off]
  have o: "unat (block_addr p i (k * zsize z) AND 4095) = k * zsize z" using offset_in_page [OF g a(2)] a(4) by simp
  show d: "unat ((block_addr p i (k * zsize z) AND 4095) div zone_size zi) = k"
    using o zi zsize_facts(1) [OF z] by (simp add: unat_div)
  have "unat ((block_addr p i (k * zsize z) AND 4095) div zone_size zi * zone_size zi) = k * zsize z"
    using d zi off by (simp add: unat_word_ariths)
  then show "(block_addr p i (k * zsize z) AND 4095) div zone_size zi * zone_size zi = block_addr p i (k * zsize z) AND 4095"
    using o by (simp add: word_unat_eq_iff)
qed

lemma byte_and_bit: "unat (drop_bit 3 (w :: u32)) = unat w div 8" "unat (w AND 7) = unat w mod 8"
proof -
  show "unat (drop_bit 3 w) = unat w div 8" by (simp add: drop_bit_eq_div unat_div)
  have "w AND 7 = take_bit 3 w" by (simp add: take_bit_eq_mask mask_eq_exp_minus_1)
  then show "unat (w AND 7) = unat w mod 8" by (simp add: take_bit_eq_mod unat_mod)
qed

lemma align_down:
  assumes g: "geometry p" and a: "in_heap p a"
  shows "RT_ALIGN_DOWN a 4096 = block_addr p (page_of p a) 0"
proof -
  have "unat (RT_ALIGN_DOWN a 4096) = 4096 * (unat a div 4096)" using and_not_low [of 12 a] by (simp add: RT_ALIGN_DOWN_def mask_eq_exp_minus_1)
  moreover have "unat a = unat (heap_start p) + (4096 * page_of p a + page_off p a)"
    using block_addr(1) [OF g in_heap_addr(2,3) [OF g a]] in_heap_addr(1) [OF g a] by simp
  moreover have "4096 dvd unat (heap_start p)" using g by (auto simp: geometry_def)
  moreover have "unat (block_addr p (page_of p a) 0) = unat (heap_start p) + (4096 * page_of p a + 0)"
    by (rule block_addr(1) [OF g in_heap_addr(2) [OF g a]]) simp
  ultimately have "unat (RT_ALIGN_DOWN a 4096) = unat (block_addr p (page_of p a) 0)"
    using in_heap_addr(3) [OF g a] by (auto elim!: dvdE)
  then show ?thesis by (simp add: word_unat_eq_iff)
qed

definition freed :: "nat \<Rightarrow> page_man \<Rightarrow> page_man \<Rightarrow> page_man" where
  "freed k m0 m = m\<lparr>free_trunks := ucast ((ucast (free_trunks m0) :: u32) + 1), trunk_bitmap := bitmap_clear (trunk_bitmap m) (k div 8) (k mod 8)\<rparr>"

lemma freed_fields [simp]: "page_type (freed k m0 m) = page_type m" "zone_index (freed k m0 m) = zone_index m" "page_next (freed k m0 m) = page_next m"
  "page_prev (freed k m0 m) = page_prev m" "trunk_bits (trunk_bitmap (freed k m0 m)) = trunk_bits (trunk_bitmap m) - {k}"
  using trunk_bits_clear [of "trunk_bitmap m" "k div 8" "k mod 8"] by (simp_all add: freed_def)

lemma freed_free: "unat (free_trunks m0) < 64 \<Longrightarrow> unat (free_trunks (freed k m0 m)) = unat (free_trunks m0) + 1"
proof -
  assume a: "unat (free_trunks m0) < 64"
  then have "unat ((ucast (free_trunks m0) :: u32) + 1) = unat (free_trunks m0) + 1" by (simp add: unat_word_ariths)
  then show ?thesis using a by (simp add: freed_def unsigned_ucast_eq take_bit_nat_eq_self_iff)
qed

lemma free_trunk_run:
  assumes inv: "heap_inv p fs R" and i: "i < length (pgman_array p)" and z: "z < 15"
    and m: "m = pgman_array p ! i" "unat (zone_index m) = z" "unat (free_trunks m) < ntrunks z"
    and k: "k < ntrunks z" "k \<in> trunk_bits (trunk_bitmap m)"
    and a: "a = block_addr p i (k * zsize z)"
    and lists: "(if free_trunks m = 0 then relist_zone (ucast (zone_index m)) (of_nat i) m p
               else if unat (free_trunks m) + 1 = ntrunks z then do {
                 pool \<leftarrow> unlist_zone (ucast (zone_index m)) (of_nat i) m p;
                 retire_zone a (of_nat i) (pool\<lparr>zone_num := (zone_num pool)[z := zone_num pool ! z - 1]\<rparr>) }
               else Some p) = Some p2" and l2: "length (pgman_array p2) = length (pgman_array p)"
  shows "\<exists>q. free_trunk a (of_nat i) m p = Some q \<and> same_rest (p2\<lparr>pgman_array := (pgman_array p2)[i := freed k m (pgman_array p2 ! i)]\<rparr>) q"
proof -
  define zi where "zi = (ucast (zone_index m) :: u32)"
  have zi: "unat zi = z" using m(2) by (simp add: zi_def)
  have N: "length (pgman_array p) = unat (page_num p)" "length (pgman_array p) < 65535" using heap_invD(5,6) [OF inv] by auto
  have ip: "i < unat (page_num p)" using i N by simp
  note n = trunk_numbers [OF heap_invD(1) [OF inv] ip z k(1) zi, folded a]
  define tk where "tk = (a AND 4095) div zone_size zi"
  have tk: "unat tk = k" "tk * zone_size zi = a AND 4095" using n by (simp_all add: tk_def)
  have xy: "unat (drop_bit 3 tk) = k div 8" "unat (tk AND 7) = k mod 8" using tk(1) by (simp_all add: byte_and_bit)
  define f where "f = (ucast (free_trunks m) :: u32)"
  have f: "unat f = unat (free_trunks m)" "f = 0 \<longleftrightarrow> free_trunks m = 0" by (simp_all add: f_def) (metis unat_fields(2) unat_eq_zero)
  have n64: "ntrunks z \<le> 64" by (rule zsize_facts(5) [OF z])
  have f1: "f + 1 = trunks_per_page zi \<longleftrightarrow> unat (free_trunks m) + 1 = ntrunks z"
    using f(1) zi m(3) n64 by (simp add: word_unat_eq_iff unat_word_ariths)
  have z15: "\<not> zi \<ge> 15" using zi z by (simp add: word_le_nat_alt)
  have bt: "bit (bitmap_byte (trunk_bitmap m) (k div 8)) (k mod 8)" using k(2) by (simp add: trunk_bits_def)
  have chk: "\<not> (f \<ge> trunks_per_page zi \<or> tk * zone_size zi \<noteq> a AND 4095 \<or> \<not> bit (bitmap_byte (trunk_bitmap m) (unat (drop_bit 3 tk))) (unat (tk AND 7)))"
    using f(1) zi m(3) bt tk(2) by (simp add: word_le_nat_alt xy)
  define q1 where "q1 = p2\<lparr>pgman_array := (pgman_array p2)[i := freed k m (pgman_array p2 ! i)]\<rparr>"
  define q where "q = (let n = uint (zone_size zi) in
     q1\<lparr>zone_used_bytes := (zone_used_bytes q1)[z := zone_used_bytes q1 ! z - n], used_mem := used_mem q1 - n\<rparr>)"
  have L: "(if f = 0 then relist_zone zi (of_nat i) m p
               else if f + 1 = trunks_per_page zi then do {
                 pool \<leftarrow> unlist_zone zi (of_nat i) m p;
                 retire_zone a (of_nat i) (pool\<lparr>zone_num := (zone_num pool)[unat zi := zone_num pool ! unat zi - 1]\<rparr>) }
               else Some p) = Some p2"
    using lists unfolding zi_def [symmetric] f(2) f1 zi .
  have b1: "bug_if (zi \<ge> 15) = Some ()" using z15 by (simp add: bug_if_def)
  have b2: "bug_if (f \<ge> trunks_per_page zi \<or> tk * zone_size zi \<noteq> a AND 4095 \<or> \<not> bit (bitmap_byte (trunk_bitmap m) (unat (drop_bit 3 tk))) (unat (tk AND 7))) = Some ()"
    using chk by (simp add: bug_if_def)
  have "unat (of_nat i :: u32) = i" using i N by simp
  then have U: "pgm_upd (of_nat i) (\<lambda>m'. m'\<lparr>free_trunks := ucast (f + 1), trunk_bitmap := bitmap_clear (trunk_bitmap m') (unat (drop_bit 3 tk)) (unat (tk AND 7))\<rparr>) p2 = Some q1"
    using i l2 by (simp add: q1_def freed_def f_def xy)
  have "free_trunk a (of_nat i) m p = Some q"
    unfolding free_trunk_def Let_def zi_def [symmetric] f_def [symmetric] tk_def [symmetric] b1 bind.bind_lunit b2 L U
    by (simp add: q_def Let_def zi)
  moreover have "same_rest q1 q" by (simp add: q_def Let_def same_rest_def same_geometry_def)
  ultimately show ?thesis unfolding q1_def by blast
qed

lemma free_trunk_ok:
  assumes inv: "heap_inv p fs R" and i: "i < length (pgman_array p)" and m: "m = pgman_array p ! i" "page_type m = PAGE_TYPE_ZONE"
    and z: "z = unat (zone_index m)" and k: "k \<in> trunk_bits (trunk_bitmap m)" and a: "a = block_addr p i (k * zsize z)"
  shows "\<exists>q. free_trunk a (of_nat i) m p = Some q \<and> slab_ok q \<and> takes_back p a q"
proof -
  let ?G = "pgman_array p" and ?B = "trunk_bits (trunk_bitmap m)"
  have N: "length ?G = unat (page_num p)" "length ?G < 65535" using heap_invD(5,6) [OF inv] by auto
  note g = heap_invD(1) [OF inv]
  have pk: "z < 15" "?B \<subseteq> {..<ntrunks z}" "unat (free_trunks m) + card ?B = ntrunks z" "free_trunks m = 0 \<longrightarrow> nx ?G i = i \<and> pv ?G i = i"
    using heap_invD(8) [OF inv i] m by (simp_all add: page_ok_def Let_def z)
  have kn: "k < ntrunks z" using k pk(2) by auto
  have cB: "0 < card ?B" using k by (auto simp: card_gt_0_iff)
  have fl: "unat (free_trunks m) < ntrunks z" using pk(3) cB by simp
  have n64: "ntrunks z \<le> 64" "2 \<le> ntrunks z" using zsize_facts(4,5) [OF pk(1)] by auto
  have f0: "free_trunks m = 0 \<longleftrightarrow> unat (free_trunks m) = 0" by (simp add: unat_eq_zero)
  have ip: "i < unat (page_num p)" using i N by simp
  have off: "k * zsize z < 4096" using trunk_in_page [OF pk(1) kn] by simp
  have zs: "0 < zsize z" using zsize_facts(1) [OF pk(1)] by simp
  have FB: "card (?B - {k}) = card ?B - 1" using k by simp
  have sp: "span ?G i = {i}" using m by (simp add: span_def)
  have nr: "i \<notin> run_pages fs" using sp i by (auto simp: heap_invD(9) [OF inv] owned_def)
  have live_m: "live_in m x \<longleftrightarrow> (\<exists>j \<in> ?B. x = j * zsize z)" for x using m by (simp add: zone_live z)
  have last_one: "?B = {k}" if "unat (free_trunks m) + 1 = ntrunks z" using that pk(3) k by (metis card_1_singletonE add_left_cancel singletonD)
  have fin: "\<exists>q. free_trunk a (of_nat i) m p = Some q \<and> slab_ok q \<and> takes_back p a q"
    if lists: "(if free_trunks m = 0 then relist_zone (ucast (zone_index m)) (of_nat i) m p
               else if unat (free_trunks m) + 1 = ntrunks z then do {
                 pool \<leftarrow> unlist_zone (ucast (zone_index m)) (of_nat i) m p;
                 retire_zone a (of_nat i) (pool\<lparr>zone_num := (zone_num pool)[z := zone_num pool ! z - 1]\<rparr>) }
               else Some p) = Some p2"
      and p2: "same_geometry p p2" "length (zone_alloc_list p2) = 15" "others i ?G (pgman_array p2)" "pages_ok p2 gs"
      and nf: "n = freed k m (pgman_array p2 ! i)"
      and ok: "page_ok ((pgman_array p2)[i := n]) i" and s: "span ((pgman_array p2)[i := n]) i = S" "S \<subseteq> {i}" "run_pages gs = (run_pages fs \<union> {i}) - S"
      and r: "rings_ok ((\<lambda>j. cls (?G ! j))(i := cls n)) (pgman_array p2) (heads p2) R'"
      and v: "\<And>x. live_in n x = (live_in m x \<and> x \<noteq> k * zsize z)" "\<And>x. live_in n x \<Longrightarrow> page_type n = PAGE_TYPE_ZONE \<and> zone_index n = zone_index m"
    for p2 gs n S R'
  proof -
    have l2: "length (pgman_array p2) = length ?G" using p2(3) by (simp add: others_def)
    obtain q where q: "free_trunk a (of_nat i) m p = Some q" "same_rest (p2\<lparr>pgman_array := (pgman_array p2)[i := n]\<rparr>) q"
      using free_trunk_run [OF inv i pk(1) m(1) z [symmetric] fl kn k a lists l2] nf by blast
    have t: "page_type (?G ! i) = PAGE_TYPE_ZONE" using m by simp
    have ln: "page_next n = page_next (pgman_array p2 ! i)" "page_prev n = page_prev (pgman_array p2 ! i)" by (simp_all add: nf)
    have "slab_ok (p2\<lparr>pgman_array := (pgman_array p2)[i := n]\<rparr>) \<and> takes_back p (block_addr p i (k * zsize z)) (p2\<lparr>pgman_array := (pgman_array p2)[i := n]\<rparr>)"
      by (rule free_trunk_finish [OF inv i t p2 ln ok s r off _ _ refl]) (use v m(1) in auto)
    then show ?thesis using q slab_ok_same [OF q(2)] takes_back_same [OF q(2)] by (auto simp: a)
  qed
  have zu: "unat (ucast (zone_index m) :: u32) = z" by (simp add: z)
  have kept: "page_ok ((pgman_array p2)[i := n]) i \<and> span ((pgman_array p2)[i := n]) i = {i} \<and> cls n = Some z \<and>
      (\<forall>x. live_in n x = (live_in m x \<and> x \<noteq> k * zsize z)) \<and> page_type n = PAGE_TYPE_ZONE \<and> zone_index n = zone_index m"
    if c: "core (pgman_array p2 ! i) = core m" and l: "length (pgman_array p2) = length ?G" and n: "n = freed k m (pgman_array p2 ! i)"
      and few: "unat (free_trunks m) + 1 \<noteq> ntrunks z" for p2 n
  proof -
    have nf: "page_type n = PAGE_TYPE_ZONE" "zone_index n = zone_index m" "trunk_bits (trunk_bitmap n) = ?B - {k}" "unat (free_trunks n) = unat (free_trunks m) + 1"
      using c m(2) freed_free [of m k "pgman_array p2 ! i"] fl n64 by (simp_all add: n core_def)
    have "free_trunks n \<noteq> 0" using nf(4) by auto
    moreover have "card (?B - {k}) \<noteq> 0" using FB few pk(3) cB by simp
    then have "?B - {k} \<noteq> {}" by force
    ultimately have "page_ok ((pgman_array p2)[i := n]) i" using nf pk FB cB i l by (auto simp: page_ok_def Let_def z)
    moreover have "span ((pgman_array p2)[i := n]) i = {i}" using nf(1) i l by (simp add: span_def)
    moreover have "cls n = Some z" using nf \<open>free_trunks n \<noteq> 0\<close> by (simp add: cls_def z)
    moreover have "live_in n x = (live_in m x \<and> x \<noteq> k * zsize z)" for x
      unfolding zone_live [OF nf(1)] live_m nf(2,3) z [symmetric] using zs by auto
    ultimately show ?thesis using nf by simp
  qed
  consider "free_trunks m = 0" | "free_trunks m \<noteq> 0" "unat (free_trunks m) + 1 = ntrunks z" | "free_trunks m \<noteq> 0" "unat (free_trunks m) + 1 \<noteq> ntrunks z" by blast
  then show ?thesis
  proof cases
    case 1
    have c0: "cls (?G ! i) = None" using 1 m by (simp add: cls_def)
    obtain p2 R' where p2: "relist_zone (ucast (zone_index m)) (of_nat i) m p = Some p2" "relinked i p p2" "core (pgman_array p2 ! i) = core m"
        "rings_ok ((\<lambda>j. cls (?G ! j))(i := Some z)) (pgman_array p2) (heads p2) R'"
      using relist_ok [OF inv i, of "ucast (zone_index m)"] zu pk(1,4) 1 c0 m(1) by auto
    note r = relinkedD [OF p2(2)]
    have few: "unat (free_trunks m) + 1 \<noteq> ntrunks z" using 1 f0 n64 by simp
    note K = kept [OF p2(3) r(4) refl few]
    show ?thesis
      by (rule fin [of p2 fs _ "{i}" R', OF _ r(1) _ r(3) _ refl]) (use 1 p2 r K nr heap_invD(3,7) [OF inv] in auto)
  next
    case 3
    have "cls m = Some z" using 3(1) m by (simp add: cls_def z)
    then have e: "(\<lambda>j. cls (?G ! j))(i := Some z) = (\<lambda>j. cls (?G ! j))" using m(1) by auto
    have few: "unat (free_trunks m) + 1 \<noteq> ntrunks z" using 3 by simp
    note K = kept [of p, OF _ refl refl few]
    show ?thesis
      by (rule fin [of p fs _ "{i}" R, OF _ _ _ _ _ refl]) (use 3 K m nr e heap_invD [OF inv] in \<open>auto simp: same_geometry_def\<close>)
  next
    case 2
    have c: "cls (?G ! i) = Some z" using 2 m by (simp add: cls_def z)
    obtain p1 R1 where p1: "unlist_zone (ucast (zone_index m)) (of_nat i) m p = Some p1" "relinked i p p1" "zone_cache_list p1 = zone_cache_list p"
        "zone_cache_count p1 = zone_cache_count p" "R1 15 = R 15" "core (pgman_array p1 ! i) = core m"
        "rings_ok ((\<lambda>j. cls (?G ! j))(i := None)) (pgman_array p1) (heads p1) R1"
      using unlist_ok [OF inv i, of "ucast (zone_index m)"] zu pk(1) c m(1) by auto
    define p1' where "p1' = p1\<lparr>zone_num := (zone_num p1)[z := zone_num p1 ! z - 1]\<rparr>"
    have s1: "same_rest p1 p1'" by (simp add: p1'_def same_rest_def same_geometry_def)
    have r1: "relinked i p p1'" using p1(2) by (simp add: p1'_def relinked_def same_geometry_def)
    note r = relinkedD [OF r1]
    have G1: "pgman_array p1' = pgman_array p1" "heads p1' = heads p1" using s1 heads_same [OF s1] by (simp_all add: same_rest_def)
    have B: "?B = {k}" using last_one 2 by blast
    have dead: "live_in n x = (live_in m x \<and> x \<noteq> k * zsize z)" if "page_type n \<in> {PAGE_TYPE_CACHE, PAGE_TYPE_FREE}" for n x
      using that B by (auto simp: live_m) (auto simp: live_in_def)
    have dead': "\<not> live_in n x" if "page_type n \<in> {PAGE_TYPE_CACHE, PAGE_TYPE_FREE}" for n x using that by (auto simp: live_in_def)
    have lists: "(if free_trunks m = 0 then relist_zone (ucast (zone_index m)) (of_nat i) m p
               else if unat (free_trunks m) + 1 = ntrunks z then do {
                 pool \<leftarrow> unlist_zone (ucast (zone_index m)) (of_nat i) m p;
                 retire_zone a (of_nat i) (pool\<lparr>zone_num := (zone_num pool)[z := zone_num pool ! z - 1]\<rparr>) }
               else Some p) = retire_zone a (of_nat i) p1'"
      using 2 p1(1) by (simp add: p1'_def)
    have l1: "length (pgman_array p1') = unat (page_num p1')" "length (pgman_array p1') < 65535" "i < length (pgman_array p1')" using r(4,6) N i by simp_all
    show ?thesis
    proof (cases "zone_cache_count p1' < 8")
      case True
      have cached: "page_type (pgman_array p1' ! j) = PAGE_TYPE_CACHE \<and> zone_index (pgman_array p1' ! j) = 0 \<and> j \<noteq> i" if "j \<in> set (R1 15)" for j
      proof -
        have j: "j < length ?G" "cls (?G ! j) = Some 15" using that rings_okD(2) [OF heap_invD(4) [OF inv], of 15] by (simp_all add: p1(5))
        then have "j \<noteq> i" using c pk(1) by auto
        moreover have "core (pgman_array p1' ! j) = core (?G ! j)" using r(3) \<open>j \<noteq> i\<close> by (simp add: others_def)
        ultimately show ?thesis using cls_cache [of ?G j] j heap_invD(8) [OF inv j(1)] by (simp add: core_def)
      qed
      have D: "((\<lambda>j. cls (?G ! j))(i := None)) i = None" by simp
      obtain q R' where q: "retire_zone a (of_nat i) p1' = Some q" "relinked i p1' q" "page_type (pgman_array q ! i) = PAGE_TYPE_CACHE"
          "zone_index (pgman_array q ! i) = 0" "rings_ok (((\<lambda>j. cls (?G ! j))(i := None))(i := Some 15)) (pgman_array q) (heads q) R'"
        using retire_cache_ok [OF p1(7) [folded G1] D l1(3,1,2) cached True] by blast
      note r2 = relinkedD [OF relinked_trans [OF r1 q(2)]]
      define n where "n = freed k m (pgman_array q ! i)"
      have nf: "page_type n = PAGE_TYPE_CACHE" "zone_index n = 0" "cls n = Some 15" using q(3,4) by (simp_all add: n_def cls_def)
      have ok: "page_ok ((pgman_array q)[i := n]) i" "span ((pgman_array q)[i := n]) i = {i}" using nf i r2(4) by (simp_all add: page_ok_def span_def)
      have rr: "rings_ok ((\<lambda>j. cls (?G ! j))(i := cls n)) (pgman_array q) (heads q) R'" using q(5) nf(3) by simp
      have f: "run_pages fs = (run_pages fs \<union> {i}) - {i}" using nr by blast
      have L: "length (zone_alloc_list q) = 15" "pages_ok q fs" using r2(2,5) heap_invD(3,7) [OF inv] by simp_all
      have v1: "live_in n x = (live_in m x \<and> x \<noteq> k * zsize z)" for x by (rule dead) (use nf(1) in simp)
      have v2: "page_type n = PAGE_TYPE_ZONE \<and> zone_index n = zone_index m" if "live_in n x" for x
        using that dead' [of n x] nf(1) by simp
      show ?thesis
        by (rule fin [OF trans [OF lists q(1)] r2(1) L(1) r2(3) L(2) n_def ok subset_refl f rr v1 v2])
    next
      case False
      have pa: "pages_ok p1' fs" "geometry p1'" using r(5) heap_invD(7) [OF inv] same_geometry_fields(1) [OF r(1)] g by simp_all
      have b: "block_addr p1' i 0 = block_addr p i 0" by (rule same_geometry_fields(5) [OF r(1)])
      have ir: "i + unat (1 :: u32) \<le> unat (page_num p1')" "{i..<i + unat (1 :: u32)} \<inter> run_pages fs = {}" using ip r(6) nr by auto
      obtain p3 gs where p3: "rt_page_free_nolock (block_addr p i 0) 1 p1' = Some p3" "pages_ok p3 gs" "rest_of p3 = rest_of p1'"
          "run_pages gs = run_pages fs \<union> {i..<i + unat (1 :: u32)}"
        using page_free_set [OF pa, of 1 i] ir b by auto
      have e: "p3 = p1'\<lparr>page_alloctor := page_alloctor p3, alloctor_list := alloctor_list p3\<rparr>" by (rule rest_of_eq [OF p3(3)])
      have f3: "pgman_array p3 = pgman_array p1'" "zone_alloc_list p3 = zone_alloc_list p1'" "zone_cache_list p3 = zone_cache_list p1'" "same_geometry p1' p3"
        by (subst e, simp add: same_geometry_def)+
      define q where "q = p3\<lparr>pgman_array := (pgman_array p1')[i := (pgman_array p1' ! i)\<lparr>page_type := PAGE_TYPE_FREE\<rparr>]\<rparr>"
      have ia: "in_heap p a" "page_of p a = i" using block_addr(2,3) [OF g ip off] by (simp_all add: a)
      have iu: "unat (of_nat i :: u32) = i" using i N by simp
      have run: "retire_zone a (of_nat i) p1' = Some q"
        using False p3(1) align_down [OF g ia(1)] ia(2) iu l1(3) f3(1) by (simp add: retire_zone_def q_def)
      define n where "n = freed k m (pgman_array q ! i)"
      have nf: "page_type n = PAGE_TYPE_FREE" "cls n = None" using l1(3) by (simp_all add: n_def q_def cls_def)
      have lq: "length (pgman_array q) = length ?G" using r(4) by (simp add: q_def)
      have ok: "page_ok ((pgman_array q)[i := n]) i" "span ((pgman_array q)[i := n]) i = {}" using nf i lq by (simp_all add: page_ok_def span_def)
      have "heads q = heads p1'" using f3 by (simp add: heads_def fun_eq_iff q_def)
      then have hq: "heads q = heads p1" using G1(2) by simp
      have rr: "rings_ok ((\<lambda>j. cls (?G ! j))(i := cls n)) (pgman_array q) (heads q) R1"
        using rings_own [OF p1(7), of i "(pgman_array p1' ! i)\<lparr>page_type := PAGE_TYPE_FREE\<rparr>"] nf(2) hq by (simp add: q_def G1(1))
      have gq: "same_geometry p q" using r(1) f3(4) by (simp add: q_def same_geometry_def)
      have L: "length (zone_alloc_list q) = 15" "pages_ok q gs" using r(2) f3(2) heap_invD(3) [OF inv] p3(2) pages_ok_same [of q p3 gs] by (simp_all add: q_def)
      have o: "others i ?G (pgman_array q)" using others_trans [OF r(3) others_own] by (simp add: q_def)
      have f: "run_pages gs = (run_pages fs \<union> {i}) - {}" using p3(4) by auto
      have v1: "live_in n x = (live_in m x \<and> x \<noteq> k * zsize z)" for x by (rule dead) (use nf(1) in simp)
      have v2: "page_type n = PAGE_TYPE_ZONE \<and> zone_index n = zone_index m" if "live_in n x" for x
        using that dead' [of n x] nf(1) by simp
      show ?thesis
        by (rule fin [OF trans [OF lists run] gq L(1) o L(2) n_def ok empty_subsetI f rr v1 v2])
    qed
  qed
qed

end
