(* ===== verification/Slab_Heap.thy ===== *)
theory Slab_Heap
  imports Slab_Free Allocator
begin

unbundle bit_operations_syntax

text \<open>
  The system heap as a whole: which blocks it takes back, that blocks are apart, its initialisation, and every sequence of
  calls, as an interpretation of the contract of the kernel's allocators.
\<close>

subsection \<open>Blocks are apart\<close>

lemma live_extent:
  assumes inv: "heap_inv p fs R" and a: "block_live p a"
  defines "i \<equiv> page_of p a"
  shows "i < length (pgman_array p)" "unat a = unat (heap_start p) + (4096 * i + page_off p a)" "0 < block_len p a"
    "\<And>x. 4096 * i + page_off p a \<le> x \<Longrightarrow> x < 4096 * i + page_off p a + block_len p a \<Longrightarrow> x div 4096 \<in> span (pgman_array p) i"
proof -
  let ?m = "pgman_array p ! i"
  note g = heap_invD(1) [OF inv]
  have h: "in_heap p a" "live_in ?m (page_off p a)" using a by (auto simp: block_live_def i_def)
  show il: "i < length (pgman_array p)" using in_heap_addr(2) [OF g h(1)] heap_invD(5) [OF inv] by (simp add: i_def)
  show "unat a = unat (heap_start p) + (4096 * i + page_off p a)"
    using block_addr(1) [OF g in_heap_addr(2,3) [OF g h(1)]] in_heap_addr(1) [OF g h(1)] by (simp add: i_def)
  note ok = heap_invD(8) [OF inv il]
  have "0 < block_len p a \<and> (\<forall>x. 4096 * i + page_off p a \<le> x \<and> x < 4096 * i + page_off p a + block_len p a \<longrightarrow> x div 4096 \<in> span (pgman_array p) i)"
  proof (cases "page_type ?m")
    case PAGE_TYPE_PAGE
    have l: "block_len p a = 4096 * pv (pgman_array p) i" "page_off p a = 0" using PAGE_TYPE_PAGE h(2) by (simp_all add: block_len_def live_in_def i_def pv_def)
    have "x div 4096 \<in> span (pgman_array p) i" if "4096 * i \<le> x" "x < 4096 * i + 4096 * pv (pgman_array p) i" for x
    proof -
      have "i \<le> x div 4096" using div_le_mono [OF that(1), of 4096] by simp
      moreover have "x div 4096 < i + pv (pgman_array p) i" using that(2) by (simp add: less_mult_imp_div_less algebra_simps)
      ultimately show ?thesis using PAGE_TYPE_PAGE by (simp add: span_def)
    qed
    then show ?thesis using l ok PAGE_TYPE_PAGE by (simp add: page_ok_def)
  next
    case PAGE_TYPE_ZONE
    define z where "z = unat (zone_index ?m)"
    obtain k where k: "k \<in> trunk_bits (trunk_bitmap ?m)" "page_off p a = k * zsize z" using h(2) PAGE_TYPE_ZONE by (auto simp: zone_live z_def)
    have z: "z < 15" "k < ntrunks z" using ok PAGE_TYPE_ZONE k(1) by (auto simp: page_ok_def Let_def z_def)
    have l: "block_len p a = zsize z" using PAGE_TYPE_ZONE by (simp add: block_len_def z_def i_def)
    have "x div 4096 = i" if "4096 * i + page_off p a \<le> x" "x < 4096 * i + page_off p a + zsize z" for x
    proof (rule div_nat_eqI)
      show "4096 * i \<le> x" using that by simp
      show "x < 4096 * Suc i" using that trunk_in_page [OF z] k(2) by simp
    qed
    then show ?thesis using l PAGE_TYPE_ZONE trunk_in_page [OF z] by (auto simp: span_def)
  qed (use h(2) in \<open>simp_all add: live_in_def\<close>)
  note all = this
  then show "0 < block_len p a" by blast
  show "x div 4096 \<in> span (pgman_array p) i" if "4096 * i + page_off p a \<le> x" "x < 4096 * i + page_off p a + block_len p a" for x
    using all that by blast
qed

definition extent :: "mem_pool \<Rightarrow> u32 \<Rightarrow> nat set" where
  "extent p a = {unat a..<unat a + block_len p a}"

lemma blocks_apart:
  assumes ok: "slab_ok p" and ab: "block_live p a" "block_live p b" "a \<noteq> b"
  shows "extent p a \<inter> extent p b = {}"
proof (rule ccontr)
  assume "extent p a \<inter> extent p b \<noteq> {}"
  then obtain y where y: "y \<in> extent p a" "y \<in> extent p b" by blast
  obtain fs R where inv: "heap_inv p fs R" using ok by (auto simp: slab_ok_def)
  note A = live_extent [OF inv ab(1)] and B = live_extent [OF inv ab(2)]
  let ?i = "page_of p a" and ?j = "page_of p b" and ?G = "pgman_array p"
  define x where "x = y - unat (heap_start p)"
  have xa: "4096 * ?i + page_off p a \<le> x" "x < 4096 * ?i + page_off p a + block_len p a" using y(1) A(2) by (auto simp: extent_def x_def)
  have xb: "4096 * ?j + page_off p b \<le> x" "x < 4096 * ?j + page_off p b + block_len p b" using y(2) B(2) by (auto simp: extent_def x_def)
  have "x div 4096 \<in> span ?G ?i" "x div 4096 \<in> span ?G ?j" using A(4) [OF xa] B(4) [OF xb] .
  then have ij: "?i = ?j" using span_disjoint [OF heap_invD(8) [OF inv A(1)] heap_invD(8) [OF inv B(1)]] by blast
  have h: "live_in (?G ! ?i) (page_off p a)" "live_in (?G ! ?i) (page_off p b)" "in_heap p a" "in_heap p b" using ab ij by (auto simp: block_live_def)
  have "page_off p a = page_off p b"
  proof (cases "page_type (?G ! ?i)")
    case PAGE_TYPE_ZONE
    define z where "z = zsize (unat (zone_index (?G ! ?i)))"
    obtain k l where k: "page_off p a = k * z" "page_off p b = l * z" using h PAGE_TYPE_ZONE by (auto simp: zone_live z_def)
    have len: "block_len p a = z" "block_len p b = z" using PAGE_TYPE_ZONE ij by (simp_all add: block_len_def z_def)
    define w where "w = x - 4096 * ?i"
    have "k * z \<le> w" "w < k * z + z" "l * z \<le> w" "w < l * z + z" using xa xb ij k len by (auto simp: w_def)
    then have "w div z = k" "w div z = l" by (auto intro!: div_nat_eqI simp: mult.commute)
    then show ?thesis using k by simp
  qed (use h in \<open>simp_all add: live_in_def\<close>)
  then show False using A(2) B(2) ij ab(3) by (simp add: word_unat_eq_iff)
qed

lemma live_within:
  assumes ok: "slab_ok p" and a: "block_live p a"
  shows "extent p a \<subseteq> {unat (heap_start p)..<unat (heap_end p)}" "0 < block_len p a"
proof -
  obtain fs R where inv: "heap_inv p fs R" using ok by (auto simp: slab_ok_def)
  note A = live_extent [OF inv a]
  show "0 < block_len p a" by (rule A(3))
  show "extent p a \<subseteq> {unat (heap_start p)..<unat (heap_end p)}"
  proof
    fix y assume y: "y \<in> extent p a"
    define x where "x = y - unat (heap_start p)"
    have xa: "4096 * page_of p a + page_off p a \<le> x" "x < 4096 * page_of p a + page_off p a + block_len p a" using y A(2) by (auto simp: extent_def x_def)
    have "x div 4096 < length (pgman_array p)" using A(4) [OF xa] span_within [OF heap_invD(8) [OF inv A(1)] A(1)] by blast
    then have "x < 4096 * unat (page_num p)" using heap_invD(5) [OF inv] by (simp add: div_less_iff_less_mult mult.commute)
    then show "y \<in> {unat (heap_start p)..<unat (heap_end p)}"
      using heap_invD(1) [OF inv] y A(2) by (auto simp: geometry_def x_def extent_def)
  qed
qed

subsection \<open>Release accepts exactly the blocks that are handed out\<close>

lemma free_exact:
  assumes ok: "slab_ok p" and m: "module_id < FHMEM_TYPE_MAX"
  shows "if block_live p a then \<exists>q. fhkfree module_id (Some a) p = Some q \<and> slab_ok q \<and> takes_back p a q \<and> used_mem q = used_mem p - int (block_len p a)
    else fhkfree module_id (Some a) p = None"
proof -
  obtain fs R where inv: "heap_inv p fs R" using ok by (auto simp: slab_ok_def)
  note g = heap_invD(1) [OF inv]
  have N: "length (pgman_array p) = unat (page_num p)" "length (pgman_array p) < 65535" using heap_invD(5,6) [OF inv] by auto
  have i: "inited p" by (rule heap_invD(10) [OF inv])
  have start: "fhkfree module_id (Some a) p = (if a AND 3 = 0 \<and> in_heap p a then free_r a p else None)"
    using m i by (auto simp: fhkfree_def bug_if_def in_heap_def)
  show ?thesis
  proof (cases "in_heap p a")
    case False
    then show ?thesis using start by (simp add: block_live_def)
  next
    case True
    define k where "k = page_of p a"
    define n where "n = pgman_array p ! k"
    have kl: "k < length (pgman_array p)" using in_heap_addr(2) [OF g True] N by (simp add: k_def)
    have idx: "addr_2_pgidx p a = of_nat k" using kl N by (simp add: word_unat_eq_iff k_def)
    have ku: "unat (of_nat k :: u32) = k" using kl N by simp
    have fr: "free_r a p = (case page_type n of PAGE_TYPE_PAGE \<Rightarrow> free_block a (of_nat k) n p
        | PAGE_TYPE_ZONE \<Rightarrow> free_trunk a (of_nat k) n p | _ \<Rightarrow> None)"
      using ku kl by (simp add: free_r_def idx n_def [symmetric] Let_def)
    have lv: "block_live p a = live_in n (page_off p a)" using True by (simp add: block_live_def n_def k_def)
    have al: "a AND 3 = 0" if "block_live p a"
    proof -
      have "2 ^ 2 dvd block_len p a"
      proof (cases "page_type n")
        case PAGE_TYPE_ZONE
        then have "unat (zone_index n) < 15" using heap_invD(8) [OF inv kl] by (simp add: page_ok_def Let_def n_def)
        then show ?thesis using PAGE_TYPE_ZONE zsize_facts(3) by (simp add: block_len_def n_def k_def)
      qed (use that lv in \<open>simp_all add: block_len_def n_def k_def live_in_def\<close>)
      then have "2 ^ 2 dvd unat a" by (intro block_aligned [OF ok that]) simp_all
      then show ?thesis using and_align [of 2 a] by simp
    qed
    have ad: "block_addr p k (page_off p a) = a" using in_heap_addr(1) [OF g True] by (simp add: k_def)
    have of4: "page_off p a < 4096" "unat (a AND 4095) = page_off p a" using in_heap_addr(3) [OF g True] offset_in_page [OF g True] by auto
    show ?thesis
    proof (cases "page_type n")
      case PAGE_TYPE_PAGE
      show ?thesis
      proof (cases "page_off p a = 0")
        case True
        have live: "block_live p a" using lv PAGE_TYPE_PAGE True by (simp add: live_in_def)
        obtain q where q: "free_block a (of_nat k) n p = Some q" "slab_ok q" "takes_back p a q"
          using free_block_ok [OF inv kl] PAGE_TYPE_PAGE True ad by (auto simp: n_def)
        have pn: "unat (page_prev n) < 65536" using heap_invD(8) [OF inv kl] PAGE_TYPE_PAGE N by (simp add: page_ok_def Let_def n_def pv_def)
        have "unat (push_bit 12 (ucast (page_prev n) :: u32)) = 4096 * unat (page_prev n)"
          using pn by (simp add: push_bit_eq_mult unat_word_ariths)
        then have "uint (push_bit 12 (ucast (page_prev n) :: u32)) = int (block_len p a)"
          using PAGE_TYPE_PAGE unfolding uint_nat by (simp add: block_len_def n_def k_def)
        then have "used_mem q = used_mem p - int (block_len p a)" using addsD [OF free_block_adds q(1)] by simp
        then show ?thesis using q PAGE_TYPE_PAGE start al [OF live] \<open>in_heap p a\<close> fr live by simp
      next
        case False
        then have "a AND 4095 \<noteq> 0" using of4(2) by auto
        then have "free_block a (of_nat k) n p = None" by (simp add: free_block_def Let_def bug_if_def)
        then show ?thesis using False lv PAGE_TYPE_PAGE start fr by (simp add: live_in_def)
      qed
    next
      case PAGE_TYPE_ZONE
      define z where "z = unat (zone_index n)"
      have z: "z < 15" using heap_invD(8) [OF inv kl] PAGE_TYPE_ZONE by (simp add: page_ok_def Let_def n_def z_def)
      show ?thesis
      proof (cases "block_live p a")
        case True
        then obtain j where j: "j \<in> trunk_bits (trunk_bitmap n)" "page_off p a = j * zsize z" using lv PAGE_TYPE_ZONE by (auto simp: zone_live z_def)
        have "a = block_addr p k (j * zsize z)" using ad j(2) by simp
        then obtain q where q: "free_trunk a (of_nat k) n p = Some q" "slab_ok q" "takes_back p a q"
          using free_trunk_ok [OF inv kl n_def PAGE_TYPE_ZONE z_def j(1)] by blast
        have "unat (zone_size (ucast (zone_index n))) = block_len p a" using PAGE_TYPE_ZONE by (simp add: block_len_def n_def k_def)
        then have "used_mem q = used_mem p - int (block_len p a)" using addsD [OF free_trunk_adds q(1)] unfolding uint_nat by simp
        then show ?thesis using q True start al \<open>in_heap p a\<close> fr PAGE_TYPE_ZONE by simp
      next
        case False
        define zi where "zi = (ucast (zone_index n) :: u32)"
        have zi: "unat zi = z" by (simp add: zi_def z_def)
        define tk where "tk = (a AND 4095) div zone_size zi"
        have tk: "unat tk = page_off p a div zsize z" using of4(2) zi by (simp add: tk_def unat_div)
        have xy: "8 * unat (drop_bit 3 tk) + unat (tk AND 7) = unat tk" "unat (tk AND 7) < 8" by (simp_all add: byte_and_bit)
        have "tk * zone_size zi \<noteq> a AND 4095 \<or> \<not> bit (bitmap_byte (trunk_bitmap n) (unat (drop_bit 3 tk))) (unat (tk AND 7))"
        proof (rule ccontr)
          assume "\<not> ?thesis"
          then have c: "tk * zone_size zi = a AND 4095" "unat tk \<in> trunk_bits (trunk_bitmap n)" using xy by (simp_all add: trunk_bits_def)
          have "page_off p a div zsize z * zsize z < 2 ^ 32" by (rule le_less_trans [OF div_times_less_eq_dividend]) (use of4(1) in simp)
          then have "unat (tk * zone_size zi) = unat tk * zsize z" using tk zi by (simp add: unat_word_ariths)
          then have "page_off p a = unat tk * zsize z" using c(1) of4(2) by simp
          then show False using False lv PAGE_TYPE_ZONE c(2) by (auto simp: zone_live z_def)
        qed
        then have "free_trunk a (of_nat k) n p = None"
          unfolding free_trunk_def Let_def zi_def [symmetric] tk_def [symmetric] by (auto simp: bug_if_def)
        then show ?thesis using False start fr PAGE_TYPE_ZONE by simp
      qed
    qed (use start fr lv in \<open>simp_all add: live_in_def\<close>)
  qed
qed

end
