(* ===== verification/Slab_Init.thy ===== *)
theory Slab_Init
  imports Slab_Heap
begin

unbundle bit_operations_syntax

text \<open>
  The initialisation of the system heap: how large the region may be, and the first state.
\<close>

text \<open>The pages between the two addresses, and those the two arrays take.\<close>

definition region_pages :: "u32 \<Rightarrow> u32 \<Rightarrow> nat" where
  "region_pages b e = unat e div 4096 - (unat b + 4095) div 4096"

definition manage_pages :: "u32 \<Rightarrow> u32 \<Rightarrow> nat" where
  "manage_pages b e = (20 * region_pages b e + 4095) div 4096"

definition heap_pages :: "u32 \<Rightarrow> u32 \<Rightarrow> nat" where
  "heap_pages b e = region_pages b e - manage_pages b e"

text \<open>Where the two arrays end.\<close>

definition arrays_end :: "u32 \<Rightarrow> u32 \<Rightarrow> nat" where
  "arrays_end b e = 4096 * ((unat b + 4095) div 4096) + 20 * region_pages b e"

lemma arrays_end_le: "arrays_end b e \<le> 4096 * ((unat b + 4095) div 4096 + manage_pages b e)"
  unfolding arrays_end_def manage_pages_def distrib_left by (intro add_left_mono) linarith

definition empty_pool :: "(nat \<Rightarrow> page_allocator) \<Rightarrow> (nat \<Rightarrow> page_man) \<Rightarrow> u32 \<Rightarrow> u32 \<Rightarrow> u32 \<Rightarrow> mem_pool \<Rightarrow> mem_pool" where
  "empty_pool ga gm n hs he pool = pool\<lparr>page_num := n, heap_start := hs, heap_end := he,
          page_alloctor := map ga [0..<unat n], alloctor_list := ucast END_FLAG,
          pgman_array := map (\<lambda>i. (gm i)\<lparr>page_type := PAGE_TYPE_FREE\<rparr>) [0..<unat n],
          zone_alloc_list := replicate (unat NZONES) (-1), zone_cache_list := -1, zone_cache_count := 0\<rparr>"

lemma align_down_4096: "unat (RT_ALIGN_DOWN e 4096) = 4096 * (unat e div 4096)"
  using and_not_low [of 12 e] by (simp add: RT_ALIGN_DOWN_def mask_eq_exp_minus_1)

lemma pool_init_region:
  assumes b: "unat b + 4095 < 2 ^ 32" and T: "manage_pages b e + 4 \<le> region_pages b e" and p: "\<not> inited pool"
  shows "\<exists>hs. unat hs = 4096 * ((unat b + 4095) div 4096 + manage_pages b e) \<and>
    pool_init ga gm b e pool = do {
      pool \<leftarrow> rt_page_free_nolock hs (of_nat (heap_pages b e)) (empty_pool ga gm (of_nat (heap_pages b e)) hs (RT_ALIGN_DOWN e 4096) pool);
      Some (pool\<lparr>inited := True\<rparr>) }"
proof -
  define c d T M where "c = (unat b + 4095) div 4096" and "d = unat e div 4096" and "T = region_pages b e" and "M = manage_pages b e"
  have TM: "T = d - c" "M = (20 * T + 4095) div 4096" "M + 4 \<le> T" using T by (simp_all add: T_def M_def c_def d_def region_pages_def manage_pages_def)
  define h0 he where "h0 = RT_ALIGN b 4096" and "he = RT_ALIGN_DOWN e 4096"
  have h0: "unat h0 = 4096 * c" using align_4096 [OF b] by (simp add: h0_def c_def)
  have he: "unat he = 4096 * d" by (simp add: he_def d_def align_down_4096)
  have d20: "d < 2 ^ 20" using u32_bound [of e] by (simp add: d_def less_mult_imp_div_less)
  have cd: "c \<le> d" "T \<le> d" using TM by simp_all
  have sz: "unat (he - h0) = 4096 * T" using h0 he cd TM(1) by (simp add: unat_sub word_le_nat_alt right_diff_distrib')
  define np where "np = drop_bit 12 (he - h0)"
  have np: "unat np = T" using sz by (simp add: np_def drop_bit_eq_div unat_div)
  have ms: "unat (np * 4 + np * 16) = 20 * T" using np cd d20 by (simp add: unat_word_ariths)
  define mg where "mg = RT_ALIGN (np * 4 + np * 16) 4096"
  have mg: "unat mg = 4096 * M" using align_4096 [of "np * 4 + np * 16"] ms cd d20 TM(2) by (simp add: mg_def)
  have M20: "M + 4 < 2 ^ 20" using TM(3) cd(2) d20 by simp
  have c1: "\<not> (h0 \<ge> he \<or> h0 < b)"
  proof -
    have "c < d" using TM by simp
    moreover have "unat b \<le> 4096 * c" unfolding c_def by linarith
    ultimately show ?thesis using h0 he by (simp add: word_le_nat_alt word_less_nat_alt)
  qed
  have "unat (mg + 4 * 4096) = 4096 * (M + 4)" using mg M20 by (simp add: unat_word_ariths)
  then have c2: "\<not> mg + 4 * 4096 > he - h0" using sz TM(3) by (simp add: word_less_nat_alt)
  define hs where "hs = h0 + mg"
  have hs: "unat hs = 4096 * (c + M)"
  proof -
    have "c + M < 2 ^ 20" using TM d20 by simp
    then show ?thesis using h0 mg by (simp add: hs_def unat_word_ariths)
  qed
  have cM: "c + M \<le> d" "T - M = d - (c + M)" using TM(1,3) by linarith+
  then have "unat (he - hs) = unat he - unat hs" by (intro unat_sub) (simp add: word_le_nat_alt hs he)
  then have "unat (he - hs) = 4096 * (T - M)" unfolding hs he cM(2) by (simp add: right_diff_distrib')
  then have "unat (drop_bit 12 (he - hs)) = heap_pages b e" by (simp add: drop_bit_eq_div unat_div heap_pages_def T_def M_def)
  moreover have "of_nat (unat (drop_bit 12 (he - hs))) = drop_bit 12 (he - hs)" by simp
  ultimately have nn: "drop_bit 12 (he - hs) = of_nat (heap_pages b e)" by metis
  have "pool_init ga gm b e pool = do {
      pool \<leftarrow> rt_page_free_nolock hs (of_nat (heap_pages b e)) (empty_pool ga gm (of_nat (heap_pages b e)) hs he pool);
      Some (pool\<lparr>inited := True\<rparr>) }"
    using p c1 c2 nn unfolding pool_init_def Let_def h0_def [symmetric] he_def [symmetric] np_def [symmetric] mg_def [symmetric] hs_def [symmetric] empty_pool_def
    by (simp add: bug_if_def)
  then show ?thesis using hs by (auto simp: c_def M_def he_def)
qed

lemma empty_pool_pages:
  assumes "n < 65535" and "n \<noteq> 0" and "unat hs mod 4096 = 0" and "0 < unat hs" and "unat hs + 4096 * n = unat he"
  shows "\<exists>q gs. rt_page_free_nolock hs (of_nat n) (empty_pool ga gm (of_nat n) hs he pool) = Some q \<and> q = (empty_pool ga gm (of_nat n) hs he pool)
      \<lparr>page_alloctor := page_alloctor q, alloctor_list := alloctor_list q\<rparr> \<and> pages_ok q gs \<and> run_pages gs = {..<n}"
proof -
  let ?p = "empty_pool ga gm (of_nat n) hs he pool"
  have un: "unat (of_nat n :: u32) = n" using assms(1) by simp
  have n0: "(of_nat n :: u32) \<noteq> 0" using un assms(2) by auto
  have ok: "pages_ok ?p []" using un assms(1) by (simp add: pages_ok_def pool_sized_def empty_pool_def)
  have g: "geometry ?p" using assms un by (simp add: geometry_def empty_pool_def)
  have a: "block_addr ?p 0 0 = hs" by (simp add: block_addr_def empty_pool_def)
  have "0 + unat (of_nat n :: u32) \<le> unat (page_num ?p)" "{0..<0 + unat (of_nat n :: u32)} \<inter> run_pages [] = {}" by (simp_all add: empty_pool_def)
  from page_free_set [OF ok g n0 this] obtain q gs where q: "rt_page_free_nolock hs (of_nat n) ?p = Some q" "pages_ok q gs" "rest_of q = rest_of ?p"
      "run_pages gs = {0..<n}" using a un by auto
  show ?thesis using q rest_of_eq [OF q(3)] by (auto simp: atLeast0LessThan)
qed

lemma heap_init_run:
  assumes b: "unat b + 4095 < 2 ^ 32" and T: "manage_pages b e + 4 \<le> region_pages b e"
  shows "\<exists>hs. unat hs = 4096 * ((unat b + 4095) div 4096 + manage_pages b e) \<and> 0 < unat hs \<and>
    unat hs + 4096 * heap_pages b e = unat (RT_ALIGN_DOWN e 4096) \<and>
    rt_system_heap_init ga gm b e g_mem_pool = do {
      pool \<leftarrow> rt_page_free_nolock hs (of_nat (heap_pages b e)) (empty_pool ga gm (of_nat (heap_pages b e)) hs (RT_ALIGN_DOWN e 4096) g_mem_pool);
      Some (pool\<lparr>inited := True\<rparr>) }"
proof -
  define c d where "c = (unat b + 4095) div 4096" and "d = unat e div 4096"
  define h0 he where "h0 = RT_ALIGN b 4096" and "he = RT_ALIGN_DOWN e 4096"
  have h0: "unat h0 = 4096 * c" using align_4096 [OF b] by (simp add: h0_def c_def)
  have he: "unat he = 4096 * d" by (simp add: he_def d_def align_down_4096)
  have d20: "d < 2 ^ 20" using u32_bound [of e] by (simp add: d_def less_mult_imp_div_less)
  have TM: "region_pages b e = d - c" "c < d" using T by (simp_all add: region_pages_def c_def d_def)
  have ds: "unat (he - h0) = 4096 * (d - c)" using h0 he TM(2) by (simp add: unat_sub word_le_nat_alt right_diff_distrib')
  have al: "RT_ALIGN (he - h0) 4096 = he - h0"
  proof -
    have "unat (RT_ALIGN (he - h0) 4096) = 4096 * ((4096 * (d - c) + 4095) div 4096)" using align_4096 [of "he - h0"] ds d20 by simp
    then show ?thesis using ds by (simp add: word_unat_eq_iff)
  qed
  have nz: "he - h0 \<noteq> 0" using ds TM(2) by auto
  have c1: "\<not> (h0 \<ge> he \<or> h0 < b)"
  proof -
    have "unat b \<le> 4096 * c" unfolding c_def by linarith
    then show ?thesis using h0 he TM(2) by (simp add: word_le_nat_alt word_less_nat_alt)
  qed
  have s1: "sizes_increase 0 g_zone_sizes" "\<not> (last g_zone_sizes > 4096 div 2 \<or> hd g_zone_sizes * 64 < 4096)"
    by (simp_all add: g_zone_sizes_def)
  have run: "rt_system_heap_init ga gm b e g_mem_pool = pool_init ga gm h0 he g_mem_pool"
    using c1 s1 nz unfolding rt_system_heap_init_def Let_def h0_def [symmetric] he_def [symmetric] by (simp add: bug_if_def al)
  have R: "region_pages h0 he = region_pages b e" using TM(1) h0 he by (simp add: region_pages_def)
  have E: "RT_ALIGN_DOWN he 4096 = he" using align_down_4096 [of he] he by (simp add: word_unat_eq_iff)
  have b0: "unat h0 + 4095 < 2 ^ 32" using h0 TM(2) d20 by simp
  have T0: "manage_pages h0 he + 4 \<le> region_pages h0 he" using T R by (simp add: manage_pages_def)
  have m: "manage_pages h0 he = manage_pages b e" "heap_pages h0 he = heap_pages b e" using R by (simp_all add: manage_pages_def heap_pages_def)
  obtain hs where hs: "unat hs = 4096 * ((unat h0 + 4095) div 4096 + manage_pages h0 he)"
      "pool_init ga gm h0 he g_mem_pool = do {
        pool \<leftarrow> rt_page_free_nolock hs (of_nat (heap_pages h0 he)) (empty_pool ga gm (of_nat (heap_pages h0 he)) hs (RT_ALIGN_DOWN he 4096) g_mem_pool);
        Some (pool\<lparr>inited := True\<rparr>) }"
    using pool_init_region [OF b0 T0, of g_mem_pool ga gm] by (auto simp: g_mem_pool_def)
  have u: "unat hs = 4096 * (c + manage_pages b e)" using hs(1) h0 m by simp
  have M1: "0 < manage_pages b e" using T by (simp add: manage_pages_def)
  have "heap_pages b e = d - c - manage_pages b e" unfolding heap_pages_def TM(1) ..
  then have "c + manage_pages b e + heap_pages b e = d" using T [unfolded TM(1)] TM(2) by linarith
  then have "4096 * (c + manage_pages b e + heap_pages b e) = 4096 * d" by (rule arg_cong)
  then have s: "unat hs + 4096 * heap_pages b e = unat he" unfolding u he by (simp only: distrib_left)
  have r: "rt_system_heap_init ga gm b e g_mem_pool = do {
      pool \<leftarrow> rt_page_free_nolock hs (of_nat (heap_pages b e)) (empty_pool ga gm (of_nat (heap_pages b e)) hs he g_mem_pool);
      Some (pool\<lparr>inited := True\<rparr>) }"
    unfolding run hs(2) m E ..
  have p: "0 < unat hs" using u M1 by simp
  show ?thesis by (intro exI [of _ hs] conjI u [unfolded c_def] p s [unfolded he_def] r [unfolded he_def])
qed

lemma heap_init_ok:
  assumes b: "unat b + 4095 < 2 ^ 32" and T: "manage_pages b e + 4 \<le> region_pages b e" and N: "heap_pages b e < 65535"
  shows "\<exists>p. rt_system_heap_init ga gm b e g_mem_pool = Some p \<and> slab_ok p \<and> (\<forall>a. \<not> block_live p a) \<and> owned (pgman_array p) = {} \<and>
    unat (page_num p) = heap_pages b e \<and> used_mem p = 0 \<and>
    unat (heap_start p) = 4096 * ((unat b + 4095) div 4096 + manage_pages b e) \<and> unat (heap_end p) \<le> unat e"
proof -
  define n he where "n = heap_pages b e" and "he = RT_ALIGN_DOWN e 4096"
  obtain hs where hs: "unat hs = 4096 * ((unat b + 4095) div 4096 + manage_pages b e)" "0 < unat hs" "unat hs + 4096 * n = unat he"
      "rt_system_heap_init ga gm b e g_mem_pool = do {
        pool \<leftarrow> rt_page_free_nolock hs (of_nat n) (empty_pool ga gm (of_nat n) hs he g_mem_pool);
        Some (pool\<lparr>inited := True\<rparr>) }"
    using heap_init_run [OF b T] unfolding n_def he_def by blast
  have n: "n < 65535" "n \<noteq> 0" using N T by (simp_all add: n_def heap_pages_def)
  have un: "unat (of_nat n :: u32) = n" using n(1) by simp
  have hm: "unat hs mod 4096 = 0" using hs(1) by simp
  let ?p = "empty_pool ga gm (of_nat n) hs he g_mem_pool"
  obtain q gs where q: "rt_page_free_nolock hs (of_nat n) ?p = Some q" "q = ?p\<lparr>page_alloctor := page_alloctor q, alloctor_list := alloctor_list q\<rparr>"
      "pages_ok q gs" "run_pages gs = {..<n}"
    using empty_pool_pages [OF n hm hs(2,3), of ga gm g_mem_pool] by (elim exE conjE) (rule that; assumption)
  define r where "r = q\<lparr>inited := True\<rparr>"
  have run: "rt_system_heap_init ga gm b e g_mem_pool = Some r" using hs(4) q(1) by (simp add: r_def)
  have f: "pgman_array r = map (\<lambda>i. (gm i)\<lparr>page_type := PAGE_TYPE_FREE\<rparr>) [0..<n]" "page_num r = of_nat n" "heap_start r = hs" "heap_end r = he"
      "zone_alloc_list r = replicate 15 (-1)" "zone_cache_list r = -1" "inited r" "used_mem r = 0"
    unfolding r_def by (subst q(2), simp add: empty_pool_def un g_mem_pool_def)+
  let ?G = "pgman_array r"
  have t: "page_type (?G ! i) = PAGE_TYPE_FREE" if "i < n" for i using that f(1) by simp
  have l: "length ?G = n" using f(1) by simp
  have ow: "owned ?G = {}" using t l by (auto simp: owned_def span_def)
  have "pages_ok r gs" using q(3) pages_ok_same [of r q gs] by (simp add: r_def)
  then have "pages_inv r gs" using q(4) ow l t f(2) un by (simp add: pages_inv_def page_ok_def lessThan_atLeast0)
  moreover have "heads r k = (if k < 16 then -1 else 0)" for k using f(5,6) by (simp add: heads_def)
  then have "rings_ok (\<lambda>i. cls (?G ! i)) ?G (heads r) (\<lambda>_. [])" using t l by (auto simp: rings_ok_def cls_def)
  moreover have "geometry r" using f hs(2,3) hm un by (simp add: geometry_def)
  ultimately have inv: "heap_inv r gs (\<lambda>_. [])" using f(5,7) by (simp add: heap_inv_def)
  then have ok: "slab_ok r" by (auto simp: slab_ok_def)
  have "\<not> block_live r a" for a
  proof
    assume a: "block_live r a"
    have i: "page_of r a < n" using live_extent(1) [OF inv a] l by simp
    then show False using a t [OF i] by (simp add: block_live_def live_in_def)
  qed
  moreover have "unat (heap_start r) = 4096 * ((unat b + 4095) div 4096 + manage_pages b e)" "unat (heap_end r) \<le> unat e"
    unfolding f(3,4) by (rule hs(1)) (simp add: he_def align_down_4096)
  ultimately show ?thesis using run ok ow f un n by (auto simp: n_def)
qed

text \<open>A heap of more than 65535 pages: the number that marks the end of the list is the number of a page.\<close>

lemma heap_init_large:
  assumes b: "unat b + 4095 < 2 ^ 32" and T: "manage_pages b e + 4 \<le> region_pages b e" and N: "65535 < heap_pages b e"
  shows "rt_system_heap_init ga gm b e g_mem_pool = None"
proof -
  define n he where "n = heap_pages b e" and "he = RT_ALIGN_DOWN e 4096"
  obtain hs where hs: "rt_system_heap_init ga gm b e g_mem_pool = do {
        pool \<leftarrow> rt_page_free_nolock hs (of_nat n) (empty_pool ga gm (of_nat n) hs he g_mem_pool);
        Some (pool\<lparr>inited := True\<rparr>) }"
    using heap_init_run [OF b T] unfolding n_def he_def by blast
  let ?p = "empty_pool ga gm (of_nat n) hs he g_mem_pool"
  have "n < 2 ^ 20"
  proof -
    have "unat e div 4096 < 2 ^ 20" using u32_bound [of e] by (simp add: less_mult_imp_div_less)
    then show ?thesis by (simp add: n_def heap_pages_def region_pages_def)
  qed
  then have un: "unat (of_nat n :: u32) = n" by (simp add: unsigned_of_nat take_bit_nat_eq_self_iff)
  have f: "page_num ?p = of_nat n" "alloctor_list ?p = 0xffff" "65535 < length (page_alloctor ?p)" "heap_start ?p = hs"
    using N un by (simp_all add: empty_pool_def n_def)
  define w where "w = (ucast (pa_page (page_alloctor ?p ! 65535)) :: u32)"
  have w: "unat w < 65536" unfolding w_def unat_up using unsigned_less [of "pa_page (page_alloctor ?p ! 65535)", where 'a = nat] by simp
  have e: "unat (65535 + w) = 65535 + unat w" using w by (simp add: unat_word_ariths)
  have ne: "65535 + w \<noteq> 0" using e by auto
  have "page_free_loop 0 (of_nat n) List_Head (-1) ?p = None"
    using f N un ne [unfolded w_def]
    by (subst page_free_loop.simps) (auto simp: Let_def word_less_nat_alt n_def pa_at_def bug_if_def)
  moreover have "addr_2_pgidx ?p hs = 0" using f(4) by (simp add: addr_2_pgidx_def)
  ultimately have "rt_page_free_nolock hs (of_nat n) ?p = None" by (simp add: rt_page_free_nolock_def Let_def)
  then show ?thesis using hs by simp
qed

end
