(* ===== verification/Slab_Correct.thy ===== *)
theory Slab_Correct
  imports Slab_Init
begin

unbundle bit_operations_syntax

text \<open>
  What the system heap promises its clients: every call by itself, exactly when a release is accepted, and every sequence of
  calls, as an interpretation of the contract of the kernel's allocators.
\<close>

subsection \<open>A heap for examples\<close>

definition small_pages :: "nat \<Rightarrow> page_man" where
  "small_pages i = \<lparr>page_type = PAGE_TYPE_FREE, zone_index = 0, page_prev = 0, free_trunks = 0, page_next = 0, trunk_bitmap = 0\<rparr>"

definition small_runs :: "nat \<Rightarrow> page_allocator" where
  "small_runs i = \<lparr>pa_page = 0, pa_next = 0\<rparr>"

definition small_heap :: mem_pool where
  "small_heap = the (rt_system_heap_init small_runs small_pages 0x10000 0x18000 g_mem_pool)"

definition small_used :: mem_pool where
  "small_used = snd (the (rt_malloc 100 small_heap))"

lemma small_heap_ok: "slab_ok small_heap"
proof -
  obtain p where "rt_system_heap_init small_runs small_pages 0x10000 0x18000 g_mem_pool = Some p" "slab_ok p"
    using heap_init_ok [of "0x10000" "0x18000" small_runs small_pages] by (auto simp: manage_pages_def region_pages_def heap_pages_def)
  then show ?thesis by (simp add: small_heap_def)
qed

lemma small_used_ok: "slab_ok small_used" "block_live small_used 0x11000" "block_len small_used 0x11000 = 128"
proof -
  have f: "map_option fst (rt_malloc 100 small_heap) = Some (Some 0x11000)" by code_simp
  obtain q p' where q: "rt_malloc 100 small_heap = Some (q, p')" "allocated small_heap 100 2 q p'"
    using fhkmalloc_ok [OF small_heap_ok, of 0 2 100] by (auto simp: rt_malloc_def)
  then have "q = Some 0x11000" "p' = small_used" using f by (simp_all add: small_used_def)
  then show "slab_ok small_used" "block_live small_used 0x11000" using q(2) by (simp_all add: allocated_def hands_out_def)
  show "block_len small_used 0x11000 = 128" by code_simp
qed

subsection \<open>Requests\<close>

lemma upto_12: "k \<le> 12 \<Longrightarrow> k \<in> {0, 1, 2, 3, 4, 5, 6, 7, 8, 9, 10, 11, 12 :: nat}"
  unfolding insert_iff empty_iff by presburger

lemma align_bits_pow:
  assumes "k \<le> 12"
  shows "align_bits_of 13 (2 ^ k) 0 = Some (of_nat k)"
proof -
  have "list_all (\<lambda>k. align_bits_of 13 (2 ^ k) 0 = Some (of_nat k)) [0..<13]" by code_simp
  then show ?thesis using assms by (simp add: list_all_iff del: upt_rec_numeral)
qed

lemma align_bits_gen:
  "\<lbrakk>unat b + n \<le> 13; \<And>k. k \<le> 12 \<Longrightarrow> boundary \<noteq> push_bit k 1\<rbrakk> \<Longrightarrow> align_bits_of n boundary b = None"
proof (induction n arbitrary: b)
  case (Suc n)
  have "unat (b + 1) = unat b + 1" using Suc.prems(1) by (simp add: unat_word_ariths)
  then have "align_bits_of n boundary (b + 1) = None" using Suc.prems(1) by (intro Suc.IH Suc.prems(2)) auto
  moreover have "boundary \<noteq> push_bit (unat b) 1" by (rule Suc.prems(2)) (use Suc.prems(1) in simp)
  ultimately show ?case by simp
qed simp

lemma align_bits_none:
  assumes "\<And>k. k \<le> 12 \<Longrightarrow> boundary \<noteq> 2 ^ k"
  shows "align_bits_of 13 boundary 0 = None"
  by (rule align_bits_gen) (use assms in \<open>simp_all add: push_bit_eq_mult\<close>)

datatype heap_request = Malloc u32 | Memalign u32 u32

fun heap_get :: "heap_request \<Rightarrow> mem_pool \<Rightarrow> (u32 option \<times> mem_pool) option" where
  "heap_get (Malloc sz) p = rt_malloc sz p"
| "heap_get (Memalign boundary sz) p = rt_memalign boundary sz p"

text \<open>The boundaries that are served: the powers of two up to a page, and 0.\<close>

fun heap_fit :: "heap_request \<Rightarrow> bool" where
  "heap_fit (Malloc sz) = True"
| "heap_fit (Memalign boundary sz) = (boundary = 0 \<or> (\<exists>k \<le> 12. boundary = 2 ^ k))"

fun request_bytes :: "heap_request \<Rightarrow> u32" where
  "request_bytes (Malloc sz) = sz"
| "request_bytes (Memalign boundary sz) = sz"

fun request_align :: "heap_request \<Rightarrow> nat" where
  "request_align (Malloc sz) = 4"
| "request_align (Memalign boundary sz) = max 4 (unat boundary)"

lemma boundary_bits:
  assumes "boundary = 0 \<or> (\<exists>k \<le> 12. boundary = 2 ^ k)"
  shows "\<exists>k. k \<le> 12 \<and> (if boundary \<le> 2 then 4 else boundary) = (2 ^ k :: u32) \<and> 2 \<le> k \<and> max 4 (unat boundary) = 2 ^ k"
  using assms
proof (elim disjE exE conjE)
  assume "boundary = 0"
  then show ?thesis by (intro exI [of _ 2]) simp
next
  fix k assume k: "k \<le> (12 :: nat)" "boundary = 2 ^ k"
  show ?thesis using upto_12 [OF k(1)] unfolding k(2)
    by (intro exI [of _ "max 2 k"]) (elim insertE emptyE; simp)
qed

lemma heap_get_ok:
  assumes "slab_ok p" and "heap_fit r"
  shows "\<exists>q p' c. heap_get r p = Some (q, p') \<and> allocated p (request_bytes r) c q p' \<and> request_align r = 2 ^ c"
proof (cases r)
  case (Malloc sz)
  obtain q p' where "fhkmalloc 0 sz 2 p = Some (q, p')" "allocated p sz 2 q p'" using fhkmalloc_ok [OF assms(1), of 0 2 sz] by auto
  then show ?thesis using Malloc by (intro exI [of _ q] exI [of _ p'] exI [of _ 2]) (simp add: rt_malloc_def)
next
  case (Memalign boundary sz)
  define bd where "bd = (if boundary \<le> 2 then 4 else boundary)"
  obtain k where k: "k \<le> 12" "bd = 2 ^ k" "2 \<le> k" "max 4 (unat boundary) = 2 ^ k"
    using boundary_bits [of boundary] assms(2) Memalign by (auto simp: bd_def)
  have "unat (of_nat k :: u32) = k" "(of_nat k :: u32) \<le> 12" using k(1) by (simp_all add: word_le_nat_alt)
  then obtain q p' where "fhkmalloc 0 sz (of_nat k) p = Some (q, p')" "allocated p sz k q p'"
    using fhkmalloc_ok [OF assms(1), of 0 "of_nat k" sz] k(3) by auto
  moreover have "heap_get r p = fhkmalloc 0 sz (of_nat k) p"
    using align_bits_pow [OF k(1)] k(2) Memalign by (simp add: rt_memalign_def memalign_def bd_def [symmetric])
  ultimately show ?thesis using k(4) Memalign by auto
qed

lemma heap_get_refused:
  assumes "\<not> heap_fit r"
  shows "heap_get r p = None"
proof (cases r)
  case (Memalign boundary sz)
  then have n: "boundary \<noteq> 0" "\<And>k. k \<le> 12 \<Longrightarrow> boundary \<noteq> 2 ^ k" using assms by auto
  have "\<not> boundary \<le> 2"
  proof
    assume "boundary \<le> 2"
    then have "unat boundary \<le> 2" by (simp add: word_le_nat_alt)
    then have "unat boundary = 0 \<or> unat boundary = 1 \<or> unat boundary = 2" by auto
    then show False using n(1) n(2) [of 0] n(2) [of 1] by (auto simp: word_unat_eq_iff)
  qed
  then show ?thesis using align_bits_none [OF n(2)] Memalign by (simp add: rt_memalign_def memalign_def)
qed (use assms in simp)

subsection \<open>The heap as an allocator\<close>

text \<open>A client holds the addresses it was given; the heap lies between \<open>lo\<close> and \<open>hi\<close>.\<close>

definition heap_serves :: "u32 \<Rightarrow> u32 \<Rightarrow> mem_pool \<Rightarrow> u32 set \<Rightarrow> bool" where
  "heap_serves lo hi p L = (slab_ok p \<and> heap_start p = lo \<and> heap_end p = hi \<and> L = {a. block_live p a} \<and>
     used_mem p = (\<Sum>a \<in> L. int (block_len p a)))"

definition heap_put :: "u32 \<Rightarrow> mem_pool \<Rightarrow> mem_pool option" where
  "heap_put a p = rt_free (Some a) p"

lemma heap_serves_finite: "heap_serves lo hi p L \<Longrightarrow> finite L"
  by (rule finite_subset [of _ UNIV]) simp_all

lemma heap_get_law:
  assumes "heap_serves lo hi p L" and "heap_fit r"
  shows "\<exists>q p'. heap_get r p = Some (q, p') \<and>
    (case q of None \<Rightarrow> heap_serves lo hi p' L | Some a \<Rightarrow> a \<notin> L \<and> heap_serves lo hi p' (insert a L))"
proof -
  have s: "slab_ok p" "heap_start p = lo" "heap_end p = hi" "L = {a. block_live p a}" "used_mem p = (\<Sum>a \<in> L. int (block_len p a))"
    using assms(1) by (auto simp: heap_serves_def)
  obtain q p' c where q: "heap_get r p = Some (q, p')" "allocated p (request_bytes r) c q p'" using heap_get_ok [OF s(1) assms(2)] by blast
  show ?thesis
  proof (cases q)
    case None
    then have n: "same_rest p p'" "used_mem p' = used_mem p" "slab_ok p'" using q(2) by (auto simp: allocated_def)
    then have "heap_start p' = lo" "heap_end p' = hi" using s(2,3) by (auto simp: same_rest_def same_geometry_def)
    then have "heap_serves lo hi p' L" using n s block_same [of p p'] by (simp add: heap_serves_def)
    then show ?thesis using q(1) None by simp
  next
    case (Some a)
    then have h: "hands_out p a p'" "used_mem p' = used_mem p + int (block_len p' a)" "slab_ok p'" using q(2) by (auto simp: allocated_def)
    have new: "a \<notin> L" "{b. block_live p' b} = insert a L" using h(1) s(4) by (auto simp: hands_out_def)
    have f: "finite L" using heap_serves_finite assms(1) by blast
    have "(\<Sum>b \<in> insert a L. int (block_len p' b)) = int (block_len p' a) + (\<Sum>b \<in> L. int (block_len p' b))"
      by (rule sum.insert [OF f new(1)])
    also have "(\<Sum>b \<in> L. int (block_len p' b)) = (\<Sum>b \<in> L. int (block_len p b))"
      by (rule sum.cong) (use h(1) s(4) in \<open>auto simp: hands_out_def\<close>)
    finally have u: "used_mem p' = (\<Sum>b \<in> insert a L. int (block_len p' b))" using h(2) s(5) by simp
    have "heap_start p' = lo" "heap_end p' = hi" using h(1) s(2,3) by (auto simp: hands_out_def same_geometry_def)
    then have "heap_serves lo hi p' (insert a L)" unfolding heap_serves_def using h(3) new(2) u by blast
    then show ?thesis using q(1) Some new(1) by simp
  qed
qed

lemma heap_put_law:
  assumes "heap_serves lo hi p L" and "a \<in> L"
  shows "\<exists>p'. heap_put a p = Some p' \<and> heap_serves lo hi p' (L - {a})"
proof -
  have s: "slab_ok p" "heap_start p = lo" "heap_end p = hi" "L = {a. block_live p a}" "used_mem p = (\<Sum>a \<in> L. int (block_len p a))"
    using assms(1) by (auto simp: heap_serves_def)
  obtain p' where h: "rt_free (Some a) p = Some p'" "slab_ok p'" "takes_back p a p'" "used_mem p' = used_mem p - int (block_len p a)"
    using free_exact [OF s(1), of 0 a] assms(2) s(4) by (auto simp: rt_free_def)
  have left: "{b. block_live p' b} = L - {a}" using h(3) s(4) by (auto simp: takes_back_def)
  have "(\<Sum>b \<in> L. int (block_len p b)) = int (block_len p a) + (\<Sum>b \<in> L - {a}. int (block_len p b))"
    by (rule sum.remove [OF heap_serves_finite [OF assms(1)] assms(2)])
  also have "(\<Sum>b \<in> L - {a}. int (block_len p b)) = (\<Sum>b \<in> L - {a}. int (block_len p' b))"
    by (rule sum.cong) (use h(3) left s(4) in \<open>auto simp: takes_back_def\<close>)
  finally have u: "used_mem p' = (\<Sum>b \<in> L - {a}. int (block_len p' b))" using h(4) s(5) by simp
  have "heap_start p' = lo" "heap_end p' = hi" using h(3) s(2,3) by (auto simp: takes_back_def same_geometry_def)
  then have "heap_serves lo hi p' (L - {a})" unfolding heap_serves_def using h(2) left u by blast
  then show ?thesis using h(1) by (simp add: heap_put_def)
qed

interpretation sh: allocator "heap_serves lo hi" heap_fit heap_get heap_put
  by unfold_locales (use heap_get_law heap_put_law in blast)+

text \<open>C37: On a heap that \<^verbatim>\<open>rt_system_heap_init\<close> has made between two addresses with room for its two arrays, at least four pages
  and at most 65534 pages (and a begin that can be rounded up to a page without passing 2^32), every sequence of calls of \<^verbatim>\<open>rt_malloc\<close>, of
  \<^verbatim>\<open>rt_memalign\<close> with a boundary of 0 or a power of two up to a page, and of \<^verbatim>\<open>rt_free\<close> on what the client holds
  runs to its end: no call stops at a \<^verbatim>\<open>BUG\<close>. The addresses the client holds are distinct and are exactly the blocks in use,
  no two of these blocks share a byte, each lies between the end of the two arrays and the second address, and \<^verbatim>\<open>used_mem\<close> is the sum of their lengths.
  When the client then gives everything back, no block is in use and \<^verbatim>\<open>used_mem\<close> is 0.\<close>

theorem slab_sequences:
  assumes "unat b + 4095 < 2 ^ 32" and "manage_pages b e + 4 \<le> region_pages b e" and "heap_pages b e < 65535"
    and "\<And>r. Get r \<in> set cs \<Longrightarrow> heap_fit r"
  shows "\<exists>p p1 ps p2. rt_system_heap_init ga gm b e g_mem_pool = Some p \<and> serve heap_get heap_put cs (p, []) = Some (p1, ps) \<and>
     distinct ps \<and> set ps = {a. block_live p1 a} \<and>
     (\<forall>x \<in> set ps. \<forall>y \<in> set ps. x \<noteq> y \<longrightarrow> extent p1 x \<inter> extent p1 y = {}) \<and>
     (\<forall>x \<in> set ps. 0 < block_len p1 x \<and> extent p1 x \<subseteq> {arrays_end b e..<unat e}) \<and>
     used_mem p1 = (\<Sum>x \<in> set ps. int (block_len p1 x)) \<and>
     serve heap_get heap_put (replicate (length ps) (Put 0)) (p1, ps) = Some (p2, []) \<and> (\<forall>x. \<not> block_live p2 x) \<and> used_mem p2 = 0"
proof -
  obtain p where p: "rt_system_heap_init ga gm b e g_mem_pool = Some p" "slab_ok p" "\<forall>a. \<not> block_live p a" "used_mem p = 0"
      "arrays_end b e \<le> unat (heap_start p)" "unat (heap_end p) \<le> unat e"
    using heap_init_ok [OF assms(1-3), of ga gm] arrays_end_le [of b e] by auto
  let ?S = "heap_serves (heap_start p) (heap_end p)"
  have "?S p (set [])" using p by (simp add: heap_serves_def)
  then obtain p1 ps where 1: "serve heap_get heap_put cs (p, []) = Some (p1, ps)" "?S p1 (set ps)" "distinct ps"
    using sh.serve_safe [of "heap_start p" "heap_end p" p "[]" cs] assms(4) by auto
  obtain p2 where 2: "serve heap_get heap_put (replicate (length ps) (Put 0)) (p1, ps) = Some (p2, [])" "?S p2 {}"
    using sh.serve_return [OF 1(2,3)] by blast
  have s: "slab_ok p1" "heap_start p1 = heap_start p" "heap_end p1 = heap_end p" "set ps = {a. block_live p1 a}"
      "used_mem p1 = (\<Sum>a \<in> set ps. int (block_len p1 a))"
    using 1(2) by (auto simp: heap_serves_def)
  have "\<forall>x \<in> set ps. 0 < block_len p1 x \<and> extent p1 x \<subseteq> {arrays_end b e..<unat e}"
  proof
    fix x assume "x \<in> set ps"
    then have "block_live p1 x" using s(4) by simp
    from live_within [OF s(1) this] show "0 < block_len p1 x \<and> extent p1 x \<subseteq> {arrays_end b e..<unat e}"
      using p(5,6) unfolding s(2,3) by (meson atLeastLessThan_subset_iff le_trans order_refl ivl_subset subset_trans)
  qed
  moreover have "\<forall>x \<in> set ps. \<forall>y \<in> set ps. x \<noteq> y \<longrightarrow> extent p1 x \<inter> extent p1 y = {}"
    using blocks_apart [OF s(1)] s(4) by simp
  moreover have "\<forall>x. \<not> block_live p2 x" "used_mem p2 = 0" using 2(2) by (auto simp: heap_serves_def)
  ultimately show ?thesis using p(1) 1(1,3) 2(1) s(4,5) by blast
qed

theorem slab_sequences_witness:
  "\<exists>p p1 ps p2. rt_system_heap_init small_runs small_pages 0x10000 0x30000 g_mem_pool = Some p \<and>
     serve heap_get heap_put [Get (Malloc 100), Get (Memalign 4096 5000), Put 0, Get (Memalign 64 64)] (p, []) = Some (p1, ps) \<and>
     distinct ps \<and> set ps = {a. block_live p1 a} \<and>
     (\<forall>x \<in> set ps. \<forall>y \<in> set ps. x \<noteq> y \<longrightarrow> extent p1 x \<inter> extent p1 y = {}) \<and>
     (\<forall>x \<in> set ps. 0 < block_len p1 x \<and> extent p1 x \<subseteq> {arrays_end 0x10000 0x30000..<unat (0x30000 :: u32)}) \<and>
     used_mem p1 = (\<Sum>x \<in> set ps. int (block_len p1 x)) \<and>
     serve heap_get heap_put (replicate (length ps) (Put 0)) (p1, ps) = Some (p2, []) \<and> (\<forall>x. \<not> block_live p2 x) \<and> used_mem p2 = 0"
proof (rule slab_sequences)
  fix r assume "Get r \<in> set [Get (Malloc 100), Get (Memalign 4096 5000), Put 0, Get (Memalign 64 64)]"
  then have "r = Malloc 100 \<or> r = Memalign 4096 5000 \<or> r = Memalign 64 64" by auto
  then show "heap_fit r" by (elim disjE) (auto intro: exI [of _ 6] exI [of _ 12])
qed (simp_all add: manage_pages_def region_pages_def heap_pages_def)

subsection \<open>The other modules\<close>

text \<open>The shipped \<^verbatim>\<open>slab_config.h\<close> maps every module to the one pool: the calls of the network, of the flash file system and
  of the applications are those of the kernel.\<close>

lemma module_calls:
  assumes "module_id < FHMEM_TYPE_MAX"
  shows "fhkmalloc module_id = fhkmalloc FHMEM_TYPE_KERNEL" "fhkfree module_id = fhkfree FHMEM_TYPE_KERNEL"
  using assms by (auto simp: fun_eq_iff fhkmalloc_def fhkfree_def linorder_not_le [symmetric] split: option.split)

lemma customer_calls:
  "lwip_malloc = rt_malloc" "jffs2_malloc = rt_malloc" "app_malloc = rt_malloc"
  "lwip_free = rt_free" "jffs2_free = rt_free" "app_free = rt_free"
  by (simp_all add: fun_eq_iff lwip_malloc_def jffs2_malloc_def app_malloc_def rt_malloc_def lwip_free_def jffs2_free_def
      app_free_def rt_free_def module_calls [of 1] module_calls [of 2] module_calls [of 3])

lemma app_calls: "app_memalign = rt_memalign" "app_realloc = rt_realloc" "app_calloc = rt_calloc"
  unfolding fun_eq_iff app_memalign_def rt_memalign_def memalign_def app_realloc_def rt_realloc_def app_calloc_def rt_calloc_def
    customer_calls module_calls(1) [of 3, simplified]
  by simp_all

subsection \<open>Each call\<close>

lemma disjoint_no_overlap:
  assumes "unat a + k \<le> unat b \<or> unat b + k \<le> unat a" and "unat a + k < 2 ^ 32" and "unat b + k < 2 ^ 32"
  shows "no_overlap (a :: u32) b k"
proof -
  have "no_overlap x y k" if "unat x + k \<le> unat y" "unat y + k < 2 ^ 32" for x y :: u32
  proof -
    have "unat (y - x) = unat y - unat x" using that(1) by (intro unat_sub) (simp add: word_le_nat_alt)
    moreover have "unat (x - y) = (if x = y then 0 else 2 ^ 32 - unat (y - x))"
      using that(1) u32_bound [of y] by (simp add: unat_sub_if' word_le_nat_alt calculation) (auto simp: word_unat_eq_iff)
    ultimately show ?thesis using that by (auto simp: no_overlap_def)
  qed
  from this [of a b] this [of b a] assms show ?thesis by (auto simp: no_overlap_def)
qed

lemma live_no_overlap:
  assumes ok: "slab_ok p" and l: "block_live p a" "block_live p b" "a \<noteq> b" and k: "k \<le> block_len p a" "k \<le> block_len p b"
  shows "no_overlap a b k"
proof (rule disjoint_no_overlap)
  have e: "unat (heap_end p) < 2 ^ 32" using u32_bound by simp
  have x: "unat x + block_len p x \<le> unat (heap_end p)" if "block_live p x" for x
    using live_within [OF ok that] by (auto simp: extent_def)
  show "unat a + k < 2 ^ 32" "unat b + k < 2 ^ 32" using x [OF l(1)] x [OF l(2)] e k by simp_all
  have "{unat a..<unat a + block_len p a} \<inter> {unat b..<unat b + block_len p b} = {}" using blocks_apart [OF ok l] by (simp add: extent_def)
  moreover have "max (unat a) (unat b) \<notin> {unat a..<unat a + block_len p a} \<or> max (unat a) (unat b) \<notin> {unat b..<unat b + block_len p b}"
    using calculation by blast
  ultimately show "unat a + k \<le> unat b \<or> unat b + k \<le> unat a"
    using k live_within(2) [OF ok l(1)] live_within(2) [OF ok l(2)] by (auto simp: max_def split: if_splits)
qed

text \<open>C38: \<^verbatim>\<open>rt_malloc\<close>, \<^verbatim>\<open>rt_memalign\<close> and \<^verbatim>\<open>rt_calloc\<close> on any heap that satisfies
  the invariant. \<^verbatim>\<open>rt_malloc\<close> never stops: it gives an address that was not in use, of a block of at least the size asked for,
  at a multiple of 4, counts the block's length in \<^verbatim>\<open>used_mem\<close> and leaves every other block in use with its length; or it
  gives NULL, changing no page, and then the size is 0, larger than the heap, or no row of pages that are not owned is long
  enough for it. \<^verbatim>\<open>rt_memalign\<close> does the same for a multiple of the boundary (4 for 0, 1 and 2) when that is a power of two up to
  a page, and stops at its \<^verbatim>\<open>BUG\<close> for any other. \<^verbatim>\<open>rt_calloc\<close> gives NULL when the 32-bit product of its arguments is more than 2^30,
  and else a block of that many bytes, all of them 0, with no other byte of the memory changed.\<close>

theorem slab_alloc_effect:
  assumes "slab_ok p"
  shows "(\<exists>q p'. rt_malloc sz p = Some (q, p') \<and> allocated p sz 2 q p') \<and>
    (if heap_fit (Memalign boundary sz)
     then \<exists>q p' c. rt_memalign boundary sz p = Some (q, p') \<and> allocated p sz c q p' \<and> 2 ^ c = max 4 (unat boundary)
     else rt_memalign boundary sz p = None) \<and>
    (if 2 ^ 30 < count * sz then rt_calloc count sz (p, M) = Some (None, p, M)
     else \<exists>q p'. rt_calloc count sz (p, M) =
         Some (q, p', case q of None \<Rightarrow> M | Some a \<Rightarrow> (\<lambda>x. if x - a < count * sz then 0 else M x)) \<and> allocated p (count * sz) 2 q p')"
proof (intro conjI)
  have m: "\<exists>q p'. rt_malloc s p = Some (q, p') \<and> allocated p s 2 q p'" for s
    using fhkmalloc_ok [OF assms, of 0 2 s] by (simp add: rt_malloc_def)
  then show "\<exists>q p'. rt_malloc sz p = Some (q, p') \<and> allocated p sz 2 q p'" .
  show "if heap_fit (Memalign boundary sz)
     then \<exists>q p' c. rt_memalign boundary sz p = Some (q, p') \<and> allocated p sz c q p' \<and> 2 ^ c = max 4 (unat boundary)
     else rt_memalign boundary sz p = None"
    using heap_get_ok [OF assms, of "Memalign boundary sz"] heap_get_refused [of "Memalign boundary sz" p]
    by (auto simp del: heap_fit.simps intro: sym)
  have up: "unat (ucast w :: 64 word) = unat w" for w :: u32
    by transfer (simp add: take_bit_int_eq_self)
  have lt: "(2 ^ 30 < (ucast (count * sz) :: 64 word)) = (2 ^ 30 < count * sz)"
    by (simp add: word_less_nat_alt up)
  have cut: "ucast (ucast w :: 64 word) = w" for w :: u32
    by transfer simp
  obtain q p' where q: "rt_malloc (count * sz) p = Some (q, p')" "allocated p (count * sz) 2 q p'" using m by blast
  have "rt_calloc count sz (p, M) = Some (q, p', case q of None \<Rightarrow> M | Some a \<Rightarrow> (\<lambda>x. if x - a < count * sz then 0 else M x))"
    if "\<not> 2 ^ 30 < count * sz"
    using that q(1) lt cut by (cases q) (simp_all add: rt_calloc_def memset_fills fun_eq_iff)
  then show "if 2 ^ 30 < count * sz then rt_calloc count sz (p, M) = Some (None, p, M)
     else \<exists>q p'. rt_calloc count sz (p, M) =
         Some (q, p', case q of None \<Rightarrow> M | Some a \<Rightarrow> (\<lambda>x. if x - a < count * sz then 0 else M x)) \<and> allocated p (count * sz) 2 q p'"
    using q(2) lt by (auto simp: rt_calloc_def)
qed

theorem slab_alloc_effect_witness:
  "slab_ok small_heap \<and>
   ((\<exists>q p'. rt_malloc 5000 small_heap = Some (q, p') \<and> allocated small_heap 5000 2 q p') \<and>
    (if heap_fit (Memalign 64 5000)
     then \<exists>q p' c. rt_memalign 64 5000 small_heap = Some (q, p') \<and> allocated small_heap 5000 c q p' \<and> 2 ^ c = max 4 (unat (64 :: u32))
     else rt_memalign 64 5000 small_heap = None) \<and>
    (if 2 ^ 30 < (10 :: u32) * 5000 then rt_calloc 10 5000 (small_heap, \<lambda>_. 7) = Some (None, small_heap, \<lambda>_. 7)
     else \<exists>q p'. rt_calloc 10 5000 (small_heap, \<lambda>_. 7) =
         Some (q, p', case q of None \<Rightarrow> \<lambda>_. 7 | Some a \<Rightarrow> (\<lambda>x. if x - a < 10 * 5000 then 0 else 7)) \<and> allocated small_heap (10 * 5000) 2 q p'))"
  by (intro conjI small_heap_ok slab_alloc_effect)

text \<open>C39: \<^verbatim>\<open>rt_free\<close> of an address accepts exactly the blocks in use: it takes such a block out, leaving every other block in use
  with its length, subtracts its length from \<^verbatim>\<open>used_mem\<close> and keeps the heap's invariant; for every other address, one
  released before, one inside a block or one outside the heap, it stops at a \<^verbatim>\<open>BUG\<close> and changes nothing. NULL is ignored.\<close>

theorem slab_free_effect:
  assumes "slab_ok p"
  shows "(if block_live p a
     then \<exists>q. rt_free (Some a) p = Some q \<and> slab_ok q \<and> takes_back p a q \<and> used_mem q = used_mem p - int (block_len p a)
     else rt_free (Some a) p = None) \<and> rt_free None p = Some p"
proof -
  have "rt_free None p = Some p" by (simp add: rt_free_def fhkfree_def)
  then show ?thesis using free_exact [OF assms, of 0 a] by (simp add: rt_free_def)
qed

theorem slab_free_effect_witness:
  "slab_ok small_used \<and> block_live small_used 0x11000 \<and>
   (if block_live small_used 0x11000
     then \<exists>q. rt_free (Some 0x11000) small_used = Some q \<and> slab_ok q \<and> takes_back small_used 0x11000 q \<and>
        used_mem q = used_mem small_used - int (block_len small_used 0x11000)
     else rt_free (Some 0x11000) small_used = None) \<and> rt_free None small_used = Some small_used"
  by (intro conjI [OF small_used_ok(1)] conjI [OF small_used_ok(2)] slab_free_effect small_used_ok)

text \<open>C40: \<^verbatim>\<open>rt_realloc\<close> of a block in use to a size other than 0 is \<^verbatim>\<open>rt_malloc\<close> of that size, a copy and
  \<^verbatim>\<open>rt_free\<close> of the old block. When there is no room it gives NULL and the old block stays in use. Otherwise the new block
  is another one, and the part of it that the old block fills does not overlap the old block. If the two regions of the size asked for
  do not overlap (always when the block does not grow), the call returns, the new block has the bytes that begin at the
  old one, no other byte of the memory changes, only the old block is taken back, and \<^verbatim>\<open>used_mem\<close> counts the new block and not
  the old one. When the block grows, the code copies the new size all the same: the last bytes come from behind the old block.
  Size 0 is \<^verbatim>\<open>rt_free\<close>, and the pointer NULL is \<^verbatim>\<open>rt_malloc\<close>.\<close>

theorem slab_realloc_effect:
  assumes "slab_ok p" and "block_live p a"
  shows "(if sz = 0 then \<exists>p2. rt_realloc pgd (Some a) 0 (p, M) = Some (None, p2, M) \<and> rt_free (Some a) p = Some p2
     else \<exists>q p1. rt_malloc sz p = Some (q, p1) \<and> allocated p sz 2 q p1 \<and>
       (case q of None \<Rightarrow> rt_realloc pgd (Some a) sz (p, M) = Some (None, p1, M) \<and> block_live p1 a
        | Some n \<Rightarrow> n \<noteq> a \<and> no_overlap n a (min (unat sz) (block_len p a)) \<and>
           (no_overlap n a (unat sz) \<longrightarrow>
             (\<exists>p2. rt_realloc pgd (Some a) sz (p, M) = Some (Some n, p2, \<lambda>x. if x - n < sz then M (a + (x - n)) else M x) \<and>
               slab_ok p2 \<and> takes_back p1 a p2 \<and> used_mem p2 = used_mem p + int (block_len p1 n) - int (block_len p a))))) \<and>
    rt_realloc pgd None sz (p, M) = map_option (\<lambda>(q, p). (q, p, M)) (rt_malloc sz p)"
proof (intro conjI)
  have fr: "\<exists>q. rt_free (Some a) p1 = Some q \<and> slab_ok q \<and> takes_back p1 a q \<and> used_mem q = used_mem p1 - int (block_len p1 a)"
    if "slab_ok p1" "block_live p1 a" for p1
    using free_exact [OF that(1), of 0 a] that(2) by (simp add: rt_free_def)
  show "if sz = 0 then \<exists>p2. rt_realloc pgd (Some a) 0 (p, M) = Some (None, p2, M) \<and> rt_free (Some a) p = Some p2
     else \<exists>q p1. rt_malloc sz p = Some (q, p1) \<and> allocated p sz 2 q p1 \<and>
       (case q of None \<Rightarrow> rt_realloc pgd (Some a) sz (p, M) = Some (None, p1, M) \<and> block_live p1 a
        | Some n \<Rightarrow> n \<noteq> a \<and> no_overlap n a (min (unat sz) (block_len p a)) \<and>
           (no_overlap n a (unat sz) \<longrightarrow>
             (\<exists>p2. rt_realloc pgd (Some a) sz (p, M) = Some (Some n, p2, \<lambda>x. if x - n < sz then M (a + (x - n)) else M x) \<and>
               slab_ok p2 \<and> takes_back p1 a p2 \<and> used_mem p2 = used_mem p + int (block_len p1 n) - int (block_len p a))))"
  proof (cases "sz = 0")
    case True
    then show ?thesis using fr [OF assms] by (auto simp: rt_realloc_def)
  next
    case False
    obtain q p1 where q: "rt_malloc sz p = Some (q, p1)" "allocated p sz 2 q p1"
      using fhkmalloc_ok [OF assms(1), of 0 2 sz] by (auto simp: rt_malloc_def)
    have "case q of None \<Rightarrow> rt_realloc pgd (Some a) sz (p, M) = Some (None, p1, M) \<and> block_live p1 a
        | Some n \<Rightarrow> n \<noteq> a \<and> no_overlap n a (min (unat sz) (block_len p a)) \<and>
           (no_overlap n a (unat sz) \<longrightarrow>
             (\<exists>p2. rt_realloc pgd (Some a) sz (p, M) = Some (Some n, p2, \<lambda>x. if x - n < sz then M (a + (x - n)) else M x) \<and>
               slab_ok p2 \<and> takes_back p1 a p2 \<and> used_mem p2 = used_mem p + int (block_len p1 n) - int (block_len p a)))"
    proof (cases q)
      case None
      then have "same_rest p p1" using q(2) by (simp add: allocated_def)
      then show ?thesis using q(1) None False assms(2) block_same [of p p1] by (simp add: rt_realloc_def)
    next
      case (Some n)
      then have h: "slab_ok p1" "hands_out p n p1" "unat sz \<le> block_len p1 n" "used_mem p1 = used_mem p + int (block_len p1 n)"
        using q(2) by (simp_all add: allocated_def)
      have l: "block_live p1 n" "block_live p1 a" "n \<noteq> a" "block_len p1 a = block_len p a" using h(2) assms(2) by (auto simp: hands_out_def)
      obtain p2 where p2: "rt_free (Some a) p1 = Some p2" "slab_ok p2" "takes_back p1 a p2" "used_mem p2 = used_mem p1 - int (block_len p1 a)"
        using fr [OF h(1) l(2)] by blast
      have "rt_realloc pgd (Some a) sz (p, M) = Some (Some n, p2, \<lambda>x. if x - n < sz then M (a + (x - n)) else M x)" if "no_overlap n a (unat sz)"
        using q(1) Some False memcpy_runs [OF that, of pgd M] p2(1) by (simp add: rt_realloc_def)
      then show ?thesis using Some p2 l h live_no_overlap [OF h(1) l(1,2,3)] by simp
    qed
    then show ?thesis using q False by auto
  qed
qed (simp add: rt_realloc_def)

theorem slab_realloc_effect_witness:
  "slab_ok small_used \<and> block_live small_used 0x11000 \<and>
   (\<exists>n p2. rt_realloc (\<lambda>_. 0) (Some 0x11000) 120 (small_used, \<lambda>x. ucast x) =
       Some (Some n, p2, \<lambda>x. if x - n < 120 then ucast (0x11000 + (x - n)) else ucast x))"
proof (intro conjI small_used_ok)
  show "\<exists>n p2. rt_realloc (\<lambda>_. 0) (Some 0x11000) 120 (small_used, \<lambda>x. ucast x) =
       Some (Some n, p2, \<lambda>x. if x - n < 120 then ucast (0x11000 + (x - n)) else ucast x)"
  proof -
    have f: "map_option fst (rt_malloc 120 small_used) = Some (Some 0x11080)" by code_simp
    have "no_overlap 0x11080 0x11000 120" by (simp add: no_overlap_def)
    then show ?thesis
      using slab_realloc_effect [OF small_used_ok(1,2), of 120 "\<lambda>_. 0" "\<lambda>x. ucast x"] f by (auto split: option.splits)
  qed
qed

end
