(* ===== verification/Spec2Isabelle.thy ===== *)
theory Spec2Isabelle
  imports Mutex_Correct Event_Correct Msgqueue_Correct Mempool_Correct Memheap_Spec Kprintf_Correct Ringbuffer_Correct Clock_Correct Thread_End Works_Correct Rt_Slist Ringblk_Correct Slab_Correct
begin

unbundle bit_operations_syntax

text \<open>
  A verification of the RT-Thread kernel as shipped in \<^verbatim>\<open>src/rt-thread/kernel\<close>, in the
  uniprocessor configuration of the shipped defconfigs: 256 priorities, names of 16 bytes, 100
  ticks per second, timer lists of one level, software timers on, hooks unset, assertions on
  (\<^verbatim>\<open>RT_DEBUG\<close>), no SMP, no modules, no signals.

  \<^bold>\<open>The program.\<close> The kernel keeps a registry of objects (\<^verbatim>\<open>object.c\<close>), one list per object
  class. Threads (\<^verbatim>\<open>thread.c\<close>) are scheduled by priority (\<^verbatim>\<open>scheduler.c\<close>): 256 ready queues and
  a two-level bitmap that finds the best non-empty one with \<^verbatim>\<open>__rt_ffs\<close>. A thread waits by being
  moved from its ready queue to the waiting list of an object (\<^verbatim>\<open>ipc.c\<close>, \<^verbatim>\<open>mempool.c\<close>), with
  the timer built into it running if the wait has a limit. The tick interrupt (\<^verbatim>\<open>clock.c\<close>) counts
  time and fires the timers that are due (\<^verbatim>\<open>timer.c\<close>); a thread's timer makes it ready again with
  the error \<^verbatim>\<open>RT_ETIMEOUT\<close>. Dead threads are reaped by the idle thread (\<^verbatim>\<open>idle.c\<close>).

  \<^bold>\<open>The model.\<close> The state of the whole kernel is the record \<open>kernel\<close> of \<^verbatim>\<open>Kernel_State\<close>: one map
  per kind of structure (the \<^verbatim>\<open>struct\<close>s of \<^verbatim>\<open>rtdef.h\<close>), and the global variables. Machine integers
  are words of their width. An operation is a function on that record with the name it has in the
  code. \<open>None\<close> is a failed \<^verbatim>\<open>RT_ASSERT\<close>, a null or dangling pointer that is followed, or a loop
  that does not end; error numbers are values. A call that can give up the processor returns an
  \<open>outcome\<close>: \<open>Ret r\<close> when it returns, \<open>Blocked\<close> when another thread was switched to; what the code
  does after it is switched back to is a definition of its own (suffix \<^verbatim>\<open>_wake\<close>). Between two
  points where interrupts are enabled the code is one step; where a call enables them in the middle
  (\<^verbatim>\<open>rt_mq_send\<close>, \<^verbatim>\<open>rt_mq_recv\<close>) its critical sections are separate steps. Loops that follow data
  structures are \<open>fun\<close> or \<open>partial_function (option)\<close>; no fuel is used, and that they end is
  proved. What the code takes from outside is an argument: the address an allocation returns, the
  timeout functions of application timers (\<open>cb\<close>), cleanup functions (\<open>cln\<close>), notification functions
  of data queues (\<open>ev\<close>), wake-up functions of wait queues (\<open>wk\<close>).

  \<^bold>\<open>The theories.\<close>
  \<^item> \<^verbatim>\<open>Prelude\<close>: results, assertions, runs of steps, the locale \<open>invariant\<close>.
  \<^item> \<^verbatim>\<open>Rt_List\<close>: the pointer operations of \<^verbatim>\<open>rtservice.h\<close> on a store of next and prev fields;
    they refine operations on a family of lists, which the later theories use. \<^verbatim>\<open>Rt_Slist\<close>: the same
    for the singly linked lists.
  \<^item> \<^verbatim>\<open>Kservice\<close>, \<^verbatim>\<open>Kstring\<close>: \<^verbatim>\<open>kservice.c\<close>: find-first-set by table, error numbers, strings.
  \<^item> \<^verbatim>\<open>Kernel_State\<close>, \<^verbatim>\<open>Scheduler\<close>, \<^verbatim>\<open>Object\<close>, \<^verbatim>\<open>Timer\<close>, \<^verbatim>\<open>Thread\<close>, \<^verbatim>\<open>Timer_Run\<close>, \<^verbatim>\<open>Clock\<close>:
    the core, in the order of its dependencies. \<^verbatim>\<open>Thread\<close> has the kernel invariant \<open>kinv\<close>.
  \<^item> \<^verbatim>\<open>Ipc_Core\<close>: waiting lists; \<^verbatim>\<open>Semaphore\<close>, \<^verbatim>\<open>Mutex\<close>, \<^verbatim>\<open>Event\<close>, \<^verbatim>\<open>Mailbox\<close>, \<^verbatim>\<open>Msgqueue\<close>,
    \<^verbatim>\<open>Mempool\<close>: one object kind each, all operations.
  \<^item> \<^verbatim>\<open>Fifo\<close>: the contract of bounded queues as locales, interpreted by the mailbox, the message
    queue and the ring buffer.
  \<^item> \<^verbatim>\<open>Thread_Life\<close>: init, create, exit, detach, delete, control of threads, and the defunct queue.
  \<^item> \<^verbatim>\<open>Ringbuffer\<close>: \<^verbatim>\<open>utilities/ringbuffer.c\<close>.
  \<^item> \<^verbatim>\<open>Completion\<close>, \<^verbatim>\<open>Dataqueue\<close>, \<^verbatim>\<open>Waitqueue\<close>, \<^verbatim>\<open>Workqueue\<close>: the files of these names in
    \<^verbatim>\<open>utilities\<close>, built on the threads, their timers and the semaphores; the loop of the thread
    of a work queue is split where other threads can run.
  \<^item> \<^verbatim>\<open>Invariant\<close>, \<^verbatim>\<open>Calls_Inv\<close>, \<^verbatim>\<open>Utilities_Inv\<close>: that each call, wake-up and tick keeps the
    invariant; \<^verbatim>\<open>System\<close>: the kernel as a transition system of all of them, over the functions of
    the application (\<open>app\<close>). \<^verbatim>\<open>Sample_Kernel\<close>: a running kernel with an object of
    every kind, on which the theorems are applied.
  \<^item> \<^verbatim>\<open>Sem_Correct\<close>, \<^verbatim>\<open>Mutex_Correct\<close>, \<^verbatim>\<open>Event_Correct\<close>, \<^verbatim>\<open>Queue_Correct\<close>, \<^verbatim>\<open>Msgqueue_Correct\<close>,
    \<^verbatim>\<open>Mempool_Correct\<close>, \<^verbatim>\<open>Ringbuffer_Correct\<close>, \<^verbatim>\<open>Clock_Correct\<close>, \<^verbatim>\<open>Life_Correct\<close>,
    \<^verbatim>\<open>Thread_End\<close>, \<^verbatim>\<open>Utilities_Correct\<close>, \<^verbatim>\<open>Works_Correct\<close>: what each operation does on every branch, and where the code does not do what
    it means to.
  \<^item> \<^verbatim>\<open>Kmem\<close>: \<^verbatim>\<open>rt_memset\<close>, \<^verbatim>\<open>rt_memcpy\<close>, \<^verbatim>\<open>rt_memmove\<close> with their word-wise loops, on a memory of bytes.
    \<^verbatim>\<open>Kparse\<close>: search, tokens, comparison without case, decimal digits. \<^verbatim>\<open>Kprintf\<close>: \<^verbatim>\<open>rt_vsnprintf\<close>
    with every conversion; \<^verbatim>\<open>Kprintf_Correct\<close>: the text it prints.
  \<^item> \<^verbatim>\<open>Allocator\<close>: the contract of an allocator as a locale, whose lemma says what holds after any
    sequence of requests; interpreted by the memory pool, the memory heap, the system heap and the ring block buffer.
  \<^item> \<^verbatim>\<open>Ringblk\<close>: \<^verbatim>\<open>utilities/ringblk_buf.c\<close>, on the sequences that the singly linked lists refine;
    \<^verbatim>\<open>Ringblk_Correct\<close>: its invariant (the blocks in memory are a rotation of its list), the
    interpretation of the allocator, the queues of blocks, and where it breaks.
  \<^item> \<^verbatim>\<open>Memheap\<close>: \<^verbatim>\<open>memheap.c\<close>, its two rings of headers and its lock; \<^verbatim>\<open>Memheap_Inv\<close>,
    \<^verbatim>\<open>Memheap_Release\<close>, \<^verbatim>\<open>Memheap_Correct\<close>, \<^verbatim>\<open>Memheap_Realloc\<close>: its invariant and what keeps it;
    \<^verbatim>\<open>Memheap_Spec\<close>: its operations as calls, and the interpretation of the allocator.
  \<^item> \<^verbatim>\<open>Slab_Pages\<close>, \<^verbatim>\<open>Slab\<close>: \<^verbatim>\<open>slab_fh.c\<close>, the heap behind \<^verbatim>\<open>rt_malloc\<close>: its pages, its zones of blocks of one
    size, its calls, and those of \<^verbatim>\<open>slab_customer.c\<close>. \<^verbatim>\<open>Slab_Pages_Correct\<close>: the list of free pages refines operations on runs;
    \<^verbatim>\<open>Slab_Rings\<close>, \<^verbatim>\<open>Slab_Inv\<close>: the lists of pages in the descriptors and the invariant; \<^verbatim>\<open>Slab_Alloc\<close>, \<^verbatim>\<open>Slab_Trunk\<close>,
    \<^verbatim>\<open>Slab_Used\<close>, \<^verbatim>\<open>Slab_Malloc\<close>, \<^verbatim>\<open>Slab_Calls\<close>, \<^verbatim>\<open>Slab_Free\<close>: what keeps it, and the count \<^verbatim>\<open>used_mem\<close>;
    \<^verbatim>\<open>Slab_Heap\<close>, \<^verbatim>\<open>Slab_Init\<close>: blocks are apart, release is exact, the initialisation; \<^verbatim>\<open>Slab_Correct\<close>: the calls, and the
    interpretation of the allocator.

  \<^bold>\<open>What is shown.\<close> The invariant says that the ready bitmap mirrors the ready queues, that a thread
  is on exactly the list that fits its status, that waiting threads are suspended, that only
  suspended threads have a running timer; no sequence of the calls, wake-ups and ticks that
  \<^verbatim>\<open>System\<close> lists breaks it (set-up, tear-down and the end of threads are not among them). The
  scheduler runs the first thread of the best ready priority. Timers fire on the tick they are due,
  across the wrap of the clock. Taking and releasing, sending and receiving are described for all
  branches: values, queues, who is woken, who runs. Queues are first in, first out; priority
  waiting lists are sorted and fair within a priority; a mutex raises its owner to the waiter's
  priority and gives it back; event waiters are woken when their condition holds and only then;
  blocks of pools and message queues are neither lost nor handed out twice, and neither is the
  memory of a heap; the system heap takes back exactly the blocks it has handed out. A completion and a wake-up are not lost, works are done in the order in which they
  were queued, and whoever waits for the end of one is woken. Threads can be started and ended without damage to the rest. The word-wise memory
  routines equal the plain loops; \<^verbatim>\<open>rt_snprintf\<close> stays inside its buffer (\<^verbatim>\<open>long long\<close> apart, where
  the code does not) and \<^verbatim>\<open>rt_atoi\<close> reads back what \<^verbatim>\<open>%d\<close> prints.

  \<^bold>\<open>Assumptions.\<close> Functional theorems start from \<open>kinv\<close> (which the transition system keeps) and
  \<open>live\<close>: a thread is running, some thread is ready (the idle thread always is), and stacks are not
  overrun. Calls that wait are described both when the thread can be switched away from and when the scheduler
  is locked, where the code returns at once (\<open>may_wait\<close>). Application functions are assumed \<open>calm\<close> where the invariant is concerned: they
  keep it and start no timer.

  \<^bold>\<open>Not modelled.\<close> The context switch and the first stack frame (assembly, \<^verbatim>\<open>platform/cpu\<close>): a switch
  is the change of the current thread. Interrupt nesting is a counter the operations read. The
  console (\<^verbatim>\<open>rt_kprintf\<close>) and hooks do not affect the state. SMP (\<^verbatim>\<open>cpu.c\<close>), signals and modules are off
  in the configuration. Of the system heap, the allocation traces (off in the configuration), the printing and the
  dump commands are left out; \<^verbatim>\<open>mem.c\<close> is configured out and \<^verbatim>\<open>slab.c\<close> is not built. What an allocation of an object
  returns is an argument of the operation that allocates. The device layer and pipes are not modelled. Drivers,
  vendored libraries, file systems, network and applications are outside of the kernel.
\<close>

subsection \<open>Calls on the sample kernel\<close>

text \<open>An application timer whose function releases a semaphore.\<close>

definition sem_callback :: "nat \<Rightarrow> kernel \<Rightarrow> kernel option" where
  "sem_callback n s = map_option snd (rt_sem_release n s)"

lemma resume_calm:
  assumes I: "sys_inv s" and r: "rt_ipc_list_resume h s = Some u"
  shows "set (timer_list u) \<union> set (soft_timer_list u) \<subseteq> set (timer_list s) \<union> set (soft_timer_list s) \<and>
     timers u = timers s"
proof -
  obtain t e where t: "rt_thread_resume t s = Some (e, u)" using r by (auto simp: rt_ipc_list_resume_def)
  show ?thesis
  proof (cases "tstat s t = RT_THREAD_SUSPEND")
    case True
    then have "u = resumed t s" using rt_thread_resume_eq [OF sys_invD(1) [OF I]] t by simp
    then show ?thesis by auto
  next
    case False
    then have "u = s" using t by (auto simp: rt_thread_resume_def split: if_splits)
    then show ?thesis by simp
  qed
qed

lemma sem_callback_calm: "calm_callback sem_callback"
  unfolding calm_callback_def
proof (intro allI impI)
  fix n s s'
  assume I: "sys_inv s" and r: "sem_callback n s = Some s'"
  then obtain e where e: "rt_sem_release n s = Some (e, s')" by (auto simp: sem_callback_def)
  have "set (timer_list s') \<union> set (soft_timer_list s') \<subseteq> set (timer_list s) \<union> set (soft_timer_list s) \<and>
     timers s' = timers s"
  proof (cases "tlists s (SemQ n) = []")
    case True
    then show ?thesis using e by (auto simp: rt_sem_release_def upd_sem_def split: if_splits)
  next
    case False
    then obtain u where u: "rt_ipc_list_resume (SemQ n) s = Some u" "rt_schedule u = Some s'"
      using e by (auto simp: rt_sem_release_def split: if_splits)
    then show ?thesis using resume_calm [OF I u(1)] rt_schedule_fields [OF u(2)] by simp
  qed
  then show "sys_inv s' \<and>
     set (timer_list s') \<union> set (soft_timer_list s') \<subseteq> set (timer_list s) \<union> set (soft_timer_list s) \<and>
     (\<forall>x. tm_func (timers s' x) = tm_func (timers s x))"
    using sem_release_inv [OF I e] by simp
qed

definition sem_app :: app where
  "sem_app = \<lparr>on_timer = sem_callback, on_queue = \<lambda>n _ _. sem_callback n, on_wakeup = \<lambda>_ _ key. of_bool (key = 0)\<rparr>"

lemma sem_app_calm: "calm_app sem_app"
  using sem_callback_calm by (simp add: calm_app_def calm_notify_def sem_app_def) (auto simp: calm_callback_def)

locale calm_kernel =
  fixes A :: app
  assumes calm: "calm_app A"

sublocale calm_kernel \<subseteq> invariant sys_inv "sys_step A"
  by unfold_locales (rule sys_step_inv [OF calm])

context calm_kernel
begin

lemma calls_keep: "\<lbrakk>sys_inv s; run (sys_step A) ops s = Some s'\<rbrakk> \<Longrightarrow> sys_inv s'"
  by (rule run_keeps)

end

interpretation sem_kernel: calm_kernel sem_app
  by unfold_locales (rule sem_app_calm)

text \<open>C1: The kernel invariant is kept by every sequence, in any order, of the calls an application makes on objects that exist,
  of the wake-ups of calls that had blocked, and of tick interrupts, as far as the calls return. The calls are those of
  \<^verbatim>\<open>sys_step\<close>: take, release and control of semaphores; take and release of mutexes; send, receive and control of events,
  mailboxes and message queues; allocation from and release to memory pools; suspend, resume, change of priority, yield,
  sleep, delay and critical sections of threads; start, stop and control of timers; completions, data queues, wait queues and
  work queues. Two of them are guarded: \<^verbatim>\<open>rt_completion_init\<close> is a step only when nobody waits for the completion, and
  \<^verbatim>\<open>rt_timer_start\<close> only for a timer with a function of the application. Not among the steps are the initialisation, detaching,
  creation and deletion of objects, the startup, control and exit of threads and the check of the soft timers: some of them
  break the invariant, as \<^verbatim>\<open>rt_thread_detach\<close> of the running thread does, which leaves the processor to a closed thread.
  The invariant: the ready bitmap mirrors the ready queues, every thread is on the one list that fits its status, waiting
  threads are suspended, only suspended threads have a running timer, and the running thread is a started one. The functions
  of application timers are assumed to keep the invariant themselves and to start no timer, those of data queues to keep it.\<close>

theorem system_invariant:
  assumes "calm_app A" and "sys_inv s" and "run (sys_step A) ops s = Some s'"
  shows "sys_inv s'"
  by (rule calm_kernel.calls_keep [OF calm_kernel.intro]) (rule assms)+

theorem system_invariant_witness:
  "\<exists>s'. run (sys_step sem_app) [Timer (Timer_Start 30), Mutex (Mutex_Take 21 0), Sem (Sem_Take 20 7),
       Mailbox (Mb_Send 23 5 0), Tick, Tick, Tick, Sem (Sem_Release 20), Thread (Sleep 4)] sample = Some s' \<and> sys_inv s'"
proof -
  have "run (sys_step sem_app) [Timer (Timer_Start 30), Mutex (Mutex_Take 21 0), Sem (Sem_Take 20 7),
       Mailbox (Mb_Send 23 5 0), Tick, Tick, Tick, Sem (Sem_Release 20), Thread (Sleep 4)] sample \<noteq> None"
    by code_simp
  then show ?thesis using system_invariant [OF sem_app_calm sample_inv] by (auto simp del: run.simps)
qed

text \<open>C2: On a running kernel with the scheduler unlocked \<^verbatim>\<open>rt_schedule\<close> always succeeds and
  leaves the processor to the first thread in the ready queue of the best (numerically least)
  priority any ready thread has.\<close>

theorem schedule_runs_top:
  assumes "sched_inv s" and "live s" and "lock_nest s = 0"
  shows "\<exists>s' t. rt_schedule s = Some s' \<and> cur_thread s' = Some t \<and> tstat s t = RT_THREAD_READY \<and>
     hd (tlists s (ReadyQ (prio s t))) = t \<and> (\<forall>u. tstat s u = RT_THREAD_READY \<longrightarrow> prio s t \<le> prio s u)"
  using schedule_top [OF assms] by (auto simp: top_ready_def)

theorem schedule_runs_top_witness:
  "\<exists>s' t. rt_schedule sample = Some s' \<and> cur_thread s' = Some t \<and> tstat sample t = RT_THREAD_READY \<and>
     hd (tlists sample (ReadyQ (prio sample t))) = t \<and>
     (\<forall>u. tstat sample u = RT_THREAD_READY \<longrightarrow> prio sample t \<le> prio sample u)"
  by (rule schedule_runs_top) (simp_all add: kinvD(1) [OF sample_kinv] sample_live)

subsection \<open>Timers\<close>

lemma expired_due:
  assumes "in_window b now" "in_window b (tm_timeout_tick (timers s x))"
  shows "expired now s x \<longleftrightarrow> due_in b (tm_timeout_tick (timers s x)) \<le> due_in b now"
proof -
  let ?v = "tm_timeout_tick (timers s x)"
  have "now - ?v < HALF_TICK \<longleftrightarrow> now - ?v = 0 \<or> due_in b ?v < due_in b now"
    using later_iff [OF assms] by auto
  moreover have "now - ?v = 0 \<longleftrightarrow> due_in b ?v = due_in b now"
    unfolding due_in_def word_unat_eq_iff [symmetric] by auto
  ultimately show ?thesis unfolding expired_def by linarith
qed

lemma sorted_prefix:
  "sorted (map f xs) \<Longrightarrow> takeWhile (\<lambda>x. f x \<le> (k :: nat)) xs = filter (\<lambda>x. f x \<le> k) xs \<and>
   dropWhile (\<lambda>x. f x \<le> k) xs = filter (\<lambda>x. \<not> f x \<le> k) xs"
proof (induction xs)
  case (Cons x xs)
  show ?case
  proof (cases "f x \<le> k")
    case False
    then have "\<forall>y \<in> set xs. \<not> f y \<le> k" using Cons.prems by fastforce
    then show ?thesis using False by (simp add: filter_empty_conv [THEN iffD2])
  qed (use Cons in auto)
qed simp

text \<open>C9: The tick interrupt's \<^verbatim>\<open>rt_timer_check\<close> ends and fires exactly the timers that are due:
  with the timers of sleeping threads on the list, each thread whose time has come is made
  ready with the error \<^verbatim>\<open>RT_ETIMEOUT\<close>, no other thread changes, and the timers that are not
  due stay on the list in their order. The clock may have wrapped in between.\<close>

theorem timer_check_fires_due:
  assumes K: "kinv s" "live s" and th: "\<forall>x \<in> set (timer_list s). \<exists>t. x = TTimer t"
    and so: "timer_sorted b (\<lambda>x. tm_timeout_tick (timers s x)) (timer_list s)" and now: "in_window b (tick s)"
  shows "\<exists>s'. rt_timer_check cb s = Some s' \<and> kinv s' \<and> live s' \<and>
     timer_list s' = filter (\<lambda>x. due_in b (tick s) < due_in b (tm_timeout_tick (timers s x))) (timer_list s) \<and>
     (\<forall>t. threads s' t =
       (if TTimer t \<in> set (timer_list s) \<and> due_in b (tm_timeout_tick (timers s (TTimer t))) \<le> due_in b (tick s)
        then (threads s t)\<lparr>th_error := RT_ETIMEOUT, stat := RT_THREAD_READY OR (stat (threads s t) AND NOT RT_THREAD_STAT_MASK)\<rparr>
        else threads s t))"
proof -
  let ?d = "\<lambda>x. due_in b (tm_timeout_tick (timers s x))"
  have e: "expired (tick s) s x \<longleftrightarrow> ?d x \<le> due_in b (tick s)" if "x \<in> set (timer_list s)" for x
    using so that by (intro expired_due [OF now]) (auto simp: timer_sorted_def)
  have "takeWhile (expired (tick s) s) (timer_list s) = filter (\<lambda>x. ?d x \<le> due_in b (tick s)) (timer_list s)"
    "dropWhile (expired (tick s) s) (timer_list s) = filter (\<lambda>x. \<not> ?d x \<le> due_in b (tick s)) (timer_list s)"
    using sorted_prefix [of ?d "timer_list s" "due_in b (tick s)"] so e
    by (simp_all add: timer_sorted_def cong: takeWhile_cong dropWhile_cong)
  then show ?thesis
    using timer_check_loop_fires [OF K th, of cb] unfolding fired_def rt_timer_check_def
    by (simp add: not_le)
qed

theorem timer_check_fires_due_witness:
  "\<exists>s'. rt_timer_check sem_callback sample_armed = Some s' \<and> kinv s' \<and> live s' \<and>
     timer_list s' = filter (\<lambda>x. due_in 0xFFFFFFFE (tick sample_armed) <
       due_in 0xFFFFFFFE (tm_timeout_tick (timers sample_armed x))) (timer_list sample_armed) \<and>
     (\<forall>t. threads s' t =
       (if TTimer t \<in> set (timer_list sample_armed) \<and>
           due_in 0xFFFFFFFE (tm_timeout_tick (timers sample_armed (TTimer t))) \<le> due_in 0xFFFFFFFE (tick sample_armed)
        then (threads sample_armed t)\<lparr>th_error := RT_ETIMEOUT,
           stat := RT_THREAD_READY OR (stat (threads sample_armed t) AND NOT RT_THREAD_STAT_MASK)\<rparr>
        else threads sample_armed t))"
  by (rule timer_check_fires_due)
     (simp_all add: sample_armed_kinv sample_armed_live sample_armed_timers timer_sorted_def in_window_def due_in_def)

lemma resume_timers: "rt_thread_resume t s = Some (e, s') \<Longrightarrow> timers s' = timers s"
  by (auto simp: rt_thread_resume_def rt_timer_stop_def rt_schedule_insert_thread_def tlist_append_def tlist_set_def
      flag_clear_def timer_remove_def upd_object_def Let_def split: if_splits)

lemma timer_start_ticks:
  assumes "rt_timer_start x s = Some (e, s')"
  shows "tm_timeout_tick (timers s' x) = tick s + tm_init_tick (timers s x)"
proof -
  consider "s' = linked_timer x s" | e' u where
    "rt_thread_resume (timer_thread (linked_timer x s)) (linked_timer x s) = Some (e', u)" "rt_schedule u = Some s'"
    using rt_timer_start_linked [OF assms] by blast
  then have "timers s' = timers (linked_timer x s)"
    by cases (simp_all add: resume_timers rt_schedule_fields(7))
  then show ?thesis by simp
qed

text \<open>C32: A timer started with \<open>n\<close> ticks is expired for the test of the check loops after \<open>n\<close>
  ticks and not before, however the tick counter wraps meanwhile; it is recognised as expired
  for half a turn of the clock.\<close>

theorem timer_expires_on_time:
  assumes st: "rt_timer_start x s = Some (e, s')" and k: "k < unat (tm_init_tick (timers s x)) + 0x7FFFFFFF"
  shows "expired (tick s + of_nat k) s' x \<longleftrightarrow> unat (tm_init_tick (timers s x)) \<le> k"
proof -
  let ?n = "tm_init_tick (timers s x)"
  have n: "unat ?n < 0x7FFFFFFF"
    using st by (auto simp: rt_timer_start_def word_less_nat_alt flag_clear_def timer_remove_def upd_object_def Let_def
        split: if_splits)
  have "tick s + of_nat k - (tick s + ?n) = (of_nat k - ?n :: u32)" by simp
  then have "expired (tick s + of_nat k) s' x \<longleftrightarrow> unat (of_nat k - ?n :: u32) < 0x7FFFFFFF"
    using timer_start_ticks [OF st] by (simp add: expired_def word_less_nat_alt)
  moreover have "unat (of_nat k - ?n :: u32) = (if unat ?n \<le> k then k - unat ?n else 2 ^ 32 + k - unat ?n)"
    using n k by (auto simp: unat_sub_if' unat_of_nat word_le_nat_alt)
  ultimately show ?thesis using n k by (auto simp: not_le)
qed

theorem timer_expires_on_time_witness:
  "\<exists>e s'. rt_timer_start (Obj 30) sample = Some (e, s') \<and>
     (expired (tick sample + of_nat 2) s' (Obj 30) \<longleftrightarrow> unat (tm_init_tick (timers sample (Obj 30))) \<le> 2) \<and>
     (expired (tick sample + of_nat 3) s' (Obj 30) \<longleftrightarrow> unat (tm_init_tick (timers sample (Obj 30))) \<le> 3)"
proof -
  have "rt_timer_start (Obj 30) sample \<noteq> None" by code_simp
  then obtain e s' where e: "rt_timer_start (Obj 30) sample = Some (e, s')" by auto
  have "tm_init_tick (timers sample (Obj 30)) = 3" by (simp add: sample_base_def)
  then show ?thesis using timer_expires_on_time [OF e, of 2] timer_expires_on_time [OF e, of 3] e by simp
qed

end
